(* ===== verification/Prelude.thy ===== *)
theory Prelude
  imports Main "HOL-Library.Word"
begin

unbundle bit_operations_syntax

text \<open>
  Shared vocabulary of the development: the machine types of the C sources, memory blocks as
  functions from offsets to bytes, \<^verbatim>\<open>memcpy\<close> between them, the little-endian fields of
  the wire formats, text, and the ways in which C code can leave its defined behaviour.
\<close>

section \<open>Machine types\<close>

type_synonym u8 = "8 word"
type_synonym u16 = "16 word"
type_synonym u32 = "32 word"
type_synonym u64 = "64 word"

text \<open>Facts that rewrite the wire format and the memory blocks into list operations.\<close>

named_theorems mem_simps
named_theorems wire_simps

text \<open>
  Undefined behaviour and run-time faults the models make explicit instead of assuming away.
\<close>

datatype c_fault =
    OutOfBounds       \<comment> \<open>an access outside an array or allocated block\<close>
  | NullDeref         \<comment> \<open>a member access through a null pointer\<close>
  | TypeConfusion     \<comment> \<open>\<^verbatim>\<open>container_of\<close> applied to a node of another structure\<close>
  | UseAfterFree      \<comment> \<open>a member access through a pointer to a freed block\<close>
  | SignedOverflow    \<comment> \<open>an \<^verbatim>\<open>int\<close> result outside its range\<close>
  | NonTermination    \<comment> \<open>a loop that never ends\<close>
  | Uninitialised     \<comment> \<open>a read of memory that was never written\<close>
  | BadFree           \<comment> \<open>a block given back that the allocator did not hand out\<close>

section \<open>Faults and loops\<close>

text \<open>Sequencing of code that may fault, and the result of a loop: one that never ends is a fault.\<close>

definition bind_fault :: "c_fault + 'a \<Rightarrow> ('a \<Rightarrow> c_fault + 'b) \<Rightarrow> c_fault + 'b" where
  "bind_fault r f = (case r of Inl e \<Rightarrow> Inl e | Inr a \<Rightarrow> f a)"

definition run_loop :: "(c_fault + 'a) option \<Rightarrow> c_fault + 'a" where
  "run_loop r = (case r of None \<Rightarrow> Inl NonTermination | Some x \<Rightarrow> x)"

lemma bind_fault_Inr_iff: "bind_fault r f = Inr b \<longleftrightarrow> (\<exists>a. r = Inr a \<and> f a = Inr b)"
  by (cases r) (simp_all add: bind_fault_def)

lemma bind_fault_simps [simp]: "bind_fault (Inr a) f = f a" "bind_fault (Inl e) f = Inl e"
  by (simp_all add: bind_fault_def)

section \<open>Memory blocks\<close>

text \<open>
  A block of bytes is a total function from offsets; its size is a constant of the C type, and
  the models check offsets against it where the code could leave it.
\<close>

type_synonym mem = "nat \<Rightarrow> u8"

definition mem_get :: "mem \<Rightarrow> nat \<Rightarrow> nat \<Rightarrow> u8 list" where
  "mem_get m off n = map m [off..<off + n]"

definition mem_put :: "mem \<Rightarrow> nat \<Rightarrow> u8 list \<Rightarrow> mem" where
  "mem_put m off bs = (\<lambda>i. if off \<le> i \<and> i < off + length bs then bs ! (i - off) else m i)"

lemma length_mem_get [simp]: "length (mem_get m off n) = n"
  by (simp add: mem_get_def)

lemma mem_get_0 [simp]: "mem_get m off 0 = []"
  by (simp add: mem_get_def)

lemma mem_get_eq_Nil [simp]: "mem_get m off n = [] \<longleftrightarrow> n = 0"
  using length_mem_get [of m off n] by (metis length_0_conv)

lemma nth_mem_get [simp]: "i < n \<Longrightarrow> mem_get m off n ! i = m (off + i)"
  by (simp add: mem_get_def)

lemma mem_get_Suc [mem_simps]: "mem_get m off (Suc n) = m off # mem_get m (Suc off) n"
  by (simp add: mem_get_def upt_conv_Cons del: upt_Suc)

lemma mem_get_add [mem_simps]: "mem_get m off (a + b) = mem_get m off a @ mem_get m (off + a) b"
  by (auto intro!: nth_equalityI simp: nth_append)

lemma take_mem_get [simp]: "take k (mem_get m off n) = mem_get m off (min k n)"
  by (auto intro!: nth_equalityI)

lemma drop_mem_get [simp]: "drop k (mem_get m off n) = mem_get m (off + k) (n - k)"
  by (auto intro!: nth_equalityI simp: ac_simps)

lemma mem_put_Nil [simp]: "mem_put m off [] = m"
  by (rule ext) (auto simp: mem_put_def)

lemma mem_get_put_same [simp]: "mem_get (mem_put m off bs) off (length bs) = bs"
  by (auto intro!: nth_equalityI simp: mem_put_def)

lemma mem_get_put_before [simp]:
  "off' + n \<le> off \<Longrightarrow> mem_get (mem_put m off bs) off' n = mem_get m off' n"
  by (auto intro!: nth_equalityI simp: mem_put_def)

lemma mem_get_put_after [simp]:
  "off + length bs \<le> off' \<Longrightarrow> mem_get (mem_put m off bs) off' n = mem_get m off' n"
  by (auto intro!: nth_equalityI simp: mem_put_def)

lemma mem_get_put_extend [mem_simps]:
  assumes "off' \<le> off"
  shows "mem_get (mem_put m off bs) off' (off - off' + length bs) = mem_get m off' (off - off') @ bs"
proof -
  have "mem_get (mem_put m off bs) off' (off - off') = mem_get m off' (off - off')"
    using assms by simp
  moreover have "mem_get (mem_put m off bs) (off' + (off - off')) (length bs) = bs"
    using assms by simp
  ultimately show ?thesis by (simp only: mem_get_add)
qed

lemma mem_get_cong:
  "(\<And>i. off \<le> i \<Longrightarrow> i < off + n \<Longrightarrow> m i = m' i) \<Longrightarrow> mem_get m off n = mem_get m' off n"
  by (auto intro!: nth_equalityI)

text \<open>A segment of a block, split at an inner offset.\<close>

lemma mem_get_split:
  "k \<le> n \<Longrightarrow> mem_get m off n = mem_get m off k @ mem_get m (off + k) (n - k)"
  using mem_get_add [of m off k "n - k"] by simp

section \<open>Little-endian 16-bit fields\<close>

text \<open>
  \<^verbatim>\<open>(p[0] | (p[1] << 8))\<close> stored to an \<^verbatim>\<open>unsigned short\<close>, and its inverse: the casts
  \<^verbatim>\<open>(unsigned char)x\<close> and \<^verbatim>\<open>(unsigned char)(x >> 8)\<close>.
\<close>

definition le16 :: "u8 \<Rightarrow> u8 \<Rightarrow> u16" where
  "le16 lo hi = (ucast lo OR push_bit 8 (ucast hi))"

definition lo8 :: "u16 \<Rightarrow> u8" where
  "lo8 x = ucast x"

definition hi8 :: "u16 \<Rightarrow> u8" where
  "hi8 x = ucast (drop_bit 8 x)"

lemma le16_lo_hi [simp, wire_simps]: "le16 (lo8 x) (hi8 x) = x"
  by (rule bit_word_eqI)
    (auto simp: le16_def lo8_def hi8_def bit_simps not_less)

lemma lo8_le16 [simp, wire_simps]: "lo8 (le16 a b) = a"
  by (rule bit_word_eqI) (auto simp: le16_def lo8_def bit_simps)

lemma hi8_le16 [simp, wire_simps]: "hi8 (le16 a b) = b"
  by (rule bit_word_eqI)
    (auto simp: le16_def hi8_def bit_simps dest: bit_imp_le_length)

section \<open>Unsigned 32-bit arithmetic\<close>

lemma unat_add_le:
  fixes a b :: "'a::len word"
  assumes "unat a + unat b < 2 ^ LENGTH('a)"
  shows "unat (a + b) = unat a + unat b"
  using assms by (simp add: unat_word_ariths)

lemma unat_sub_le:
  fixes a b :: "'a::len word"
  assumes "unat b \<le> unat a"
  shows "unat (a - b) = unat a - unat b"
  using assms by (simp add: unat_sub word_le_nat_alt)

section \<open>Text and little-endian numbers\<close>

text \<open>The bytes of a string literal, and the digits \<^verbatim>\<open>%d\<close> prints for a number that is not negative.\<close>

definition bytes_of :: "string \<Rightarrow> u8 list" where
  "bytes_of s = map of_char s"

fun dec_digits :: "nat \<Rightarrow> u8 list" where
  "dec_digits n = (if n < 10 then [48 + of_nat n] else dec_digits (n div 10) @ [48 + of_nat (n mod 10)])"

declare dec_digits.simps [simp del]

lemma digit_nonzero:
  assumes "d < 10"
  shows "(48 + of_nat d :: u8) \<noteq> 0"
proof -
  have "unat (48 + of_nat d :: u8) = 48 + d" using assms by (simp add: unat_word_ariths unat_of_nat)
  then show ?thesis by auto
qed

lemma dec_digits_nonzero: "0 \<notin> set (dec_digits n)"
  by (induction n rule: dec_digits.induct) (subst dec_digits.simps, use digit_nonzero in auto)

lemma dec_digits_length: "1 \<le> length (dec_digits n)"
  by (induction n rule: dec_digits.induct) (subst dec_digits.simps, auto)

text \<open>The \<open>k\<close> bytes of an integer member on a little-endian machine, and the integer they make.\<close>

fun le_bytes :: "nat \<Rightarrow> u64 \<Rightarrow> u8 list" where
  "le_bytes 0 x = []"
| "le_bytes (Suc k) x = ucast x # le_bytes k (drop_bit 8 x)"

fun of_le :: "u8 list \<Rightarrow> u64" where
  "of_le [] = 0"
| "of_le (b # bs) = (ucast b OR push_bit 8 (of_le bs))"

lemma length_le_bytes [simp]: "length (le_bytes k x) = k"
  by (induction k arbitrary: x) auto

lemma of_le_bytes: "of_le (le_bytes k x) = take_bit (8 * k) x"
proof (induction k arbitrary: x)
  case (Suc k)
  show ?case by (rule bit_word_eqI) (auto simp: Suc bit_simps not_less)
qed simp

lemma of_le_bytes_8 [simp]: "of_le (le_bytes 8 x) = x"
proof -
  have "take_bit 64 x = x" by (rule bit_word_eqI) (auto simp: bit_simps)
  then show ?thesis by (simp add: of_le_bytes)
qed

end
