(* ===== verification/MioBuffer.thy ===== *)
theory MioBuffer
  imports Prelude
begin

text \<open>
  The write buffer of a multiplexed handle (\<^verbatim>\<open>mio_rb_t\<close> in \<^verbatim>\<open>multiplex_io.c\<close>): a ring of
  \<^verbatim>\<open>MIO_RB_BUF_SIZE\<close> bytes filled by \<^verbatim>\<open>multiplex_io_write\<close> and drained by the
  \<^verbatim>\<open>EPOLLOUT\<close> branch of \<^verbatim>\<open>multiplex_io_thread\<close>. The indices are 32-bit unsigned words, as in the
  struct; note that an index may be equal to the buffer size. The abstraction \<open>rb_contents\<close>
  reads the ring as the byte string that is still to be sent, and the interface locale
  \<open>byte_fifo\<close> states what the handle code relies on: accepted bytes come out once, in order.
\<close>

section \<open>The ring buffer\<close>

definition MIO_RB_BUF_SIZE :: u32 where
  "MIO_RB_BUF_SIZE = 1024 * 1024"

record mio_rb =
  r_idx :: u32
  w_idx :: u32
  rb_data :: mem

definition multiplex_io_rb_write_data :: "mio_rb \<Rightarrow> u8 list \<Rightarrow> u32 \<Rightarrow> u32 \<times> mio_rb" where
  "multiplex_io_rb_write_data rb data len =
     (let size = MIO_RB_BUF_SIZE;
          r = r_idx rb;
          w = w_idx rb;
          free_size = (if r \<le> w then size - 1 - (w - r) else r - w - 1);
          tmp = (if r \<le> w then size - w else free_size)
      in if free_size \<ge> len
         then (if tmp \<ge> len
               then (len, rb\<lparr>rb_data := mem_put (rb_data rb) (unat w) (take (unat len) data),
                             w_idx := w + len\<rparr>)
               else (len, rb\<lparr>rb_data := mem_put (mem_put (rb_data rb) (unat w) (take (unat tmp) data))
                                               0 (take (unat (len - tmp)) (drop (unat tmp) data)),
                             w_idx := len - tmp\<rparr>))
         else (0, rb))"

definition multiplex_io_rb_get_data_size :: "mio_rb \<Rightarrow> u32" where
  "multiplex_io_rb_get_data_size rb =
     (if r_idx rb \<le> w_idx rb then w_idx rb - r_idx rb
      else MIO_RB_BUF_SIZE - r_idx rb + w_idx rb)"

text \<open>\<^verbatim>\<open>multiplex_io_buf_list_free\<close>, in the configuration the sources compile (no buffer list).\<close>

definition multiplex_io_buf_list_free :: "mio_rb \<Rightarrow> mio_rb" where
  "multiplex_io_buf_list_free rb = rb\<lparr>r_idx := w_idx rb\<rparr>"

text \<open>
  The \<^verbatim>\<open>EPOLLOUT\<close> branch of the thread. The results of the two \<^verbatim>\<open>write\<close> calls it may make are the
  arguments \<open>n1\<close> and \<open>n2\<close> (\<^verbatim>\<open>ssize_t\<close>, \<open>-1\<close> for an error); the bytes the kernel took are returned
  beside the new ring. What happens to the event mask and the \<^verbatim>\<open>w_conf\<close> callback depends on the
  outcome only.
\<close>

datatype drain_outcome =
    DrainIdle       \<comment> \<open>the ring was empty: stop watching for \<^verbatim>\<open>EPOLLOUT\<close>\<close>
  | DrainDone       \<comment> \<open>the ring became empty: call \<^verbatim>\<open>w_conf\<close>, stop watching\<close>
  | DrainPending    \<comment> \<open>bytes are left: keep watching\<close>

definition mio_drain :: "mio_rb \<Rightarrow> int \<Rightarrow> int \<Rightarrow> drain_outcome \<times> u8 list \<times> mio_rb" where
  "mio_drain rb n1 n2 =
     (let r = r_idx rb; w = w_idx rb; d = rb_data rb in
      if r \<noteq> w
      then (let (r', sent) =
              (if w > r
               then (r + word_of_int n1, take (nat n1) (mem_get d (unat r) (unat (w - r))))
               else (let r1 = (r + word_of_int n1) mod MIO_RB_BUF_SIZE;
                         s1 = take (nat n1) (mem_get d (unat r) (unat (MIO_RB_BUF_SIZE - r)))
                     in if r1 = 0
                        then (r1 + word_of_int n2, s1 @ take (nat n2) (mem_get d (unat r1) (unat w)))
                        else (r1, s1)))
            in (if r' = w then DrainDone else DrainPending, sent, rb\<lparr>r_idx := r'\<rparr>))
      else (DrainIdle, [], rb))"

section \<open>What the ring stands for\<close>

abbreviation rb_size :: nat where
  "rb_size \<equiv> 1048576"

definition rb_contents :: "mio_rb \<Rightarrow> u8 list" where
  "rb_contents rb =
     (let r = unat (r_idx rb); w = unat (w_idx rb) in
      if r \<le> w then mem_get (rb_data rb) r (w - r)
      else mem_get (rb_data rb) r (rb_size - r) @ mem_get (rb_data rb) 0 w)"

definition rb_wf :: "mio_rb \<Rightarrow> bool" where
  "rb_wf rb \<longleftrightarrow> unat (r_idx rb) \<le> rb_size \<and> unat (w_idx rb) \<le> rb_size \<and>
     length (rb_contents rb) < rb_size"

definition rb_empty :: "mio_rb \<Rightarrow> mio_rb" where
  "rb_empty rb = rb\<lparr>r_idx := 0, w_idx := 0\<rparr>"

lemma rb_size_word [simp]: "unat MIO_RB_BUF_SIZE = rb_size"
  by (simp add: MIO_RB_BUF_SIZE_def)

lemma length_rb_contents:
  "length (rb_contents rb) =
     (if unat (r_idx rb) \<le> unat (w_idx rb) then unat (w_idx rb) - unat (r_idx rb)
      else rb_size - unat (r_idx rb) + unat (w_idx rb))"
  by (simp add: rb_contents_def Let_def)

lemma rb_wf_empty: "rb_wf (rb_empty rb)" "rb_contents (rb_empty rb) = []"
  by (simp_all add: rb_wf_def rb_empty_def rb_contents_def)

lemma rb_wf_free:
  "rb_wf rb \<Longrightarrow> rb_wf (multiplex_io_buf_list_free rb)"
  "rb_contents (multiplex_io_buf_list_free rb) = []"
  by (simp_all add: rb_wf_def multiplex_io_buf_list_free_def rb_contents_def)

text \<open>The free space the code computes is what is left below the size, less one byte.\<close>

lemma rb_free_size:
  assumes "rb_wf rb"
  shows "unat (if r_idx rb \<le> w_idx rb then MIO_RB_BUF_SIZE - 1 - (w_idx rb - r_idx rb)
               else r_idx rb - w_idx rb - 1) = rb_size - 1 - length (rb_contents rb)"
proof (cases "r_idx rb \<le> w_idx rb")
  case True
  then have d: "unat (w_idx rb - r_idx rb) = unat (w_idx rb) - unat (r_idx rb)"
    by (simp add: unat_sub_le word_le_nat_alt)
  have s: "unat (MIO_RB_BUF_SIZE - 1) = rb_size - 1"
    by (simp add: MIO_RB_BUF_SIZE_def)
  have "unat (MIO_RB_BUF_SIZE - 1 - (w_idx rb - r_idx rb)) =
      rb_size - 1 - (unat (w_idx rb) - unat (r_idx rb))"
    using assms True
    by (subst unat_sub_le) (auto simp: s d rb_wf_def length_rb_contents word_le_nat_alt)
  with True show ?thesis by (simp add: length_rb_contents word_le_nat_alt)
next
  case False
  then have d: "unat (r_idx rb - w_idx rb) = unat (r_idx rb) - unat (w_idx rb)"
    by (simp add: unat_sub_le word_le_nat_alt)
  have "unat (r_idx rb - w_idx rb - 1) = unat (r_idx rb) - unat (w_idx rb) - 1"
    using False by (subst unat_sub_le) (auto simp: d word_le_nat_alt)
  with False assms show ?thesis
    by (auto simp: length_rb_contents word_le_nat_alt rb_wf_def)
qed

section \<open>Writing appends, or leaves the ring alone\<close>

text \<open>The three ways bytes land in the ring, on plain offsets.\<close>

lemma put_linear:
  assumes "r \<le> w"
  shows "mem_get (mem_put m w bs) r (w + length bs - r) = mem_get m r (w - r) @ bs"
  using mem_get_put_extend [OF assms, of m bs] assms by simp

lemma put_behind:
  assumes "w + length bs \<le> r"
  shows "mem_get (mem_put m w bs) r n @ mem_get (mem_put m w bs) 0 (w + length bs) =
    (mem_get m r n @ mem_get m 0 w) @ bs"
  using assms put_linear [of 0 w m bs] by simp

lemma put_wrapped:
  assumes "r \<le> w" "w \<le> s" "length as = s - w" "length bs \<le> r"
  shows "mem_get (mem_put (mem_put m w as) 0 bs) r (s - r) @
      mem_get (mem_put (mem_put m w as) 0 bs) 0 (length bs) = mem_get m r (w - r) @ as @ bs"
  using assms put_linear [of r w m as] by simp

definition rb_accepts :: "mio_rb \<Rightarrow> nat \<Rightarrow> bool" where
  "rb_accepts rb n \<longleftrightarrow> length (rb_contents rb) + n < rb_size"

lemma rb_accepts_free:
  assumes "rb_wf rb"
  shows "len \<le> (if r_idx rb \<le> w_idx rb then MIO_RB_BUF_SIZE - 1 - (w_idx rb - r_idx rb)
                else r_idx rb - w_idx rb - 1) \<longleftrightarrow> rb_accepts rb (unat len)"
  using assms unfolding word_le_nat_alt [of len] rb_free_size [OF assms]
  by (auto simp: rb_accepts_def rb_wf_def)

lemma rb_write_reject:
  assumes "rb_wf rb" "\<not> rb_accepts rb (unat len)"
  shows "multiplex_io_rb_write_data rb data len = (0, rb)"
  using assms rb_accepts_free [OF assms(1), of len]
  by (simp add: multiplex_io_rb_write_data_def Let_def)

lemma rb_write_linear:
  assumes wf: "rb_wf rb" and acc: "rb_accepts rb (unat len)" and dat: "unat len \<le> length data"
    and le: "r_idx rb \<le> w_idx rb" and fits: "len \<le> MIO_RB_BUF_SIZE - w_idx rb"
    and res: "multiplex_io_rb_write_data rb data len = (n, rb')"
  shows "n = len \<and> rb_contents rb' = rb_contents rb @ take (unat len) data \<and> rb_wf rb'"
proof -
  let ?r = "unat (r_idx rb)" and ?w = "unat (w_idx rb)" and ?bs = "take (unat len) data"
  have rw: "?r \<le> ?w" "?w \<le> rb_size" using le wf by (auto simp: word_le_nat_alt rb_wf_def)
  have "unat (MIO_RB_BUF_SIZE - w_idx rb) = rb_size - ?w"
    using rw by (subst unat_sub_le) simp_all
  then have sum: "?w + unat len \<le> rb_size" using fits rw by (simp add: word_le_nat_alt)
  have w': "unat (w_idx rb + len) = ?w + unat len" using sum by (subst unat_add_le) simp_all
  have eq: "n = len" "rb' = rb\<lparr>rb_data := mem_put (rb_data rb) ?w ?bs, w_idx := w_idx rb + len\<rparr>"
    using res rb_accepts_free [OF wf, of len] acc le fits
    by (auto simp: multiplex_io_rb_write_data_def Let_def)
  have "rb_contents rb' = mem_get (mem_put (rb_data rb) ?w ?bs) ?r (?w + length ?bs - ?r)"
    using rw dat by (simp add: eq rb_contents_def Let_def w' min_absorb2)
  also have "\<dots> = rb_contents rb @ ?bs"
    unfolding put_linear [OF rw(1)] using rw by (simp add: rb_contents_def Let_def)
  finally have c: "rb_contents rb' = rb_contents rb @ ?bs" .
  have "rb_wf rb'" using wf acc dat sum
    by (simp add: rb_wf_def c rb_accepts_def min_absorb2) (simp add: eq w')
  with eq c show ?thesis by simp
qed

lemma rb_write_behind:
  assumes wf: "rb_wf rb" and acc: "rb_accepts rb (unat len)" and dat: "unat len \<le> length data"
    and gt: "\<not> r_idx rb \<le> w_idx rb"
    and res: "multiplex_io_rb_write_data rb data len = (n, rb')"
  shows "n = len \<and> rb_contents rb' = rb_contents rb @ take (unat len) data \<and> rb_wf rb'"
proof -
  let ?r = "unat (r_idx rb)" and ?w = "unat (w_idx rb)" and ?bs = "take (unat len) data"
  have rw: "?w < ?r" "?r \<le> rb_size" using gt wf by (auto simp: word_le_nat_alt rb_wf_def)
  have sum: "?w + unat len < ?r" using acc rw by (simp add: rb_accepts_def length_rb_contents)
  have w': "unat (w_idx rb + len) = ?w + unat len" using sum rw by (subst unat_add_le) simp_all
  have eq: "n = len" "rb' = rb\<lparr>rb_data := mem_put (rb_data rb) ?w ?bs, w_idx := w_idx rb + len\<rparr>"
    using res rb_accepts_free [OF wf, of len] acc gt
    by (auto simp: multiplex_io_rb_write_data_def Let_def)
  have "rb_contents rb' = mem_get (mem_put (rb_data rb) ?w ?bs) ?r (rb_size - ?r) @
      mem_get (mem_put (rb_data rb) ?w ?bs) 0 (?w + length ?bs)"
    using sum dat by (simp add: eq rb_contents_def Let_def w' min_absorb2)
  also have "\<dots> = rb_contents rb @ ?bs"
    using rw sum dat by (subst put_behind) (simp_all add: rb_contents_def Let_def min_absorb2)
  finally have c: "rb_contents rb' = rb_contents rb @ ?bs" .
  have "rb_wf rb'" using wf acc dat sum rw
    by (simp add: rb_wf_def c rb_accepts_def min_absorb2) (simp add: eq w')
  with eq c show ?thesis by simp
qed

lemma rb_write_wrapped:
  assumes wf: "rb_wf rb" and acc: "rb_accepts rb (unat len)" and dat: "unat len \<le> length data"
    and le: "r_idx rb \<le> w_idx rb" and wraps: "\<not> len \<le> MIO_RB_BUF_SIZE - w_idx rb"
    and res: "multiplex_io_rb_write_data rb data len = (n, rb')"
  shows "n = len \<and> rb_contents rb' = rb_contents rb @ take (unat len) data \<and> rb_wf rb'"
proof -
  let ?r = "unat (r_idx rb)" and ?w = "unat (w_idx rb)" and ?t = "rb_size - unat (w_idx rb)"
  let ?tmp = "MIO_RB_BUF_SIZE - w_idx rb"
  let ?as = "take ?t data" and ?bs = "take (unat len - ?t) (drop ?t data)"
  have rw: "?r \<le> ?w" "?w \<le> rb_size" using le wf by (auto simp: word_le_nat_alt rb_wf_def)
  have t: "unat ?tmp = ?t" using rw by (subst unat_sub_le) simp_all
  have big: "?t < unat len" using wraps t by (simp add: word_le_nat_alt)
  have w': "unat (len - ?tmp) = unat len - ?t" using big t by (subst unat_sub_le) simp_all
  have small: "unat len - ?t < ?r" using acc rw big by (simp add: rb_accepts_def length_rb_contents)
  have eq: "n = len" "rb' = rb\<lparr>rb_data := mem_put (mem_put (rb_data rb) ?w ?as) 0 ?bs,
      w_idx := len - ?tmp\<rparr>"
    using res rb_accepts_free [OF wf, of len] acc le wraps
    by (auto simp: multiplex_io_rb_write_data_def Let_def t w')
  have ab: "take (unat len) data = ?as @ ?bs"
    using big by (metis le_add_diff_inverse less_imp_le take_add)
  have lens: "length ?as = rb_size - ?w" "length ?bs = unat len - ?t" using big dat by simp_all
  have "rb_contents rb' = mem_get (mem_put (mem_put (rb_data rb) ?w ?as) 0 ?bs) ?r (rb_size - ?r) @
      mem_get (mem_put (mem_put (rb_data rb) ?w ?as) 0 ?bs) 0 (length ?bs)"
    using small unfolding lens(2) by (simp add: eq rb_contents_def Let_def w')
  also have "\<dots> = mem_get (rb_data rb) ?r (?w - ?r) @ ?as @ ?bs"
    using rw lens small by (intro put_wrapped) simp_all
  also have "\<dots> = rb_contents rb @ take (unat len) data"
    using rw by (simp add: rb_contents_def Let_def ab)
  finally have c: "rb_contents rb' = rb_contents rb @ take (unat len) data" .
  have "rb_wf rb'" using wf acc dat small rw
    by (simp add: rb_wf_def c rb_accepts_def min_absorb2) (simp add: eq w')
  with eq c show ?thesis by simp
qed

lemma rb_write_accept:
  assumes "rb_wf rb" "rb_accepts rb (unat len)" "unat len \<le> length data"
    and "multiplex_io_rb_write_data rb data len = (n, rb')"
  shows "n = len \<and> rb_contents rb' = rb_contents rb @ take (unat len) data \<and> rb_wf rb'"
  using assms rb_write_linear rb_write_behind rb_write_wrapped by blast

text \<open>No write leaves the array: bytes at and beyond the size are untouched.\<close>

lemma rb_write_bounds:
  assumes wf: "rb_wf rb" and dat: "unat len \<le> length data" and i: "rb_size \<le> i"
  shows "rb_data (snd (multiplex_io_rb_write_data rb data len)) i = rb_data rb i"
proof -
  let ?w = "unat (w_idx rb)" and ?tmp = "MIO_RB_BUF_SIZE - w_idx rb"
  have w: "?w \<le> rb_size" using wf by (simp add: rb_wf_def)
  have t: "unat ?tmp = rb_size - ?w" using w by (subst unat_sub_le) simp_all
  consider "\<not> rb_accepts rb (unat len)"
    | "rb_accepts rb (unat len)" "\<not> r_idx rb \<le> w_idx rb"
    | "rb_accepts rb (unat len)" "r_idx rb \<le> w_idx rb" "len \<le> ?tmp"
    | "rb_accepts rb (unat len)" "r_idx rb \<le> w_idx rb" "\<not> len \<le> ?tmp" by blast
  then show ?thesis
  proof cases
    case 1 with wf show ?thesis by (simp add: rb_write_reject)
  next
    case 2
    then have "?w + unat len < rb_size"
      using wf by (auto simp: rb_accepts_def length_rb_contents word_le_nat_alt rb_wf_def)
    with 2 i show ?thesis using rb_accepts_free [OF wf, of len]
      by (auto simp: multiplex_io_rb_write_data_def Let_def mem_put_def)
  next
    case 3
    then have "?w + unat len \<le> rb_size" using w t by (simp add: word_le_nat_alt)
    with 3 i show ?thesis using rb_accepts_free [OF wf, of len]
      by (auto simp: multiplex_io_rb_write_data_def Let_def mem_put_def)
  next
    case 4
    then have "unat len - (rb_size - ?w) < rb_size"
      by (simp add: rb_accepts_def)
    moreover have "unat (len - ?tmp) = unat len - (rb_size - ?w)"
      using 4 t by (subst unat_sub_le) (simp_all add: word_le_nat_alt)
    ultimately show ?thesis using 4 i w t rb_accepts_free [OF wf, of len]
      by (auto simp: multiplex_io_rb_write_data_def Let_def mem_put_def)
  qed
qed

lemma rb_get_data_size:
  assumes "rb_wf rb"
  shows "unat (multiplex_io_rb_get_data_size rb) = length (rb_contents rb)"
proof (cases "r_idx rb \<le> w_idx rb")
  case True
  then show ?thesis
    by (simp add: multiplex_io_rb_get_data_size_def length_rb_contents unat_sub_le word_le_nat_alt)
next
  case False
  then have "unat (MIO_RB_BUF_SIZE - r_idx rb) = rb_size - unat (r_idx rb)"
    using assms by (subst unat_sub_le) (simp_all add: rb_wf_def)
  with False assms show ?thesis
    by (simp add: multiplex_io_rb_get_data_size_def length_rb_contents unat_add_le word_le_nat_alt
        rb_wf_def)
qed

section \<open>Draining removes a prefix\<close>

text \<open>
  What \<^verbatim>\<open>write(2)\<close> promises when it succeeds: it took between 0 and \<open>n\<close> of the \<open>n\<close> bytes offered.
\<close>

definition write_ok :: "nat \<Rightarrow> int \<Rightarrow> bool" where
  "write_ok n res \<longleftrightarrow> 0 \<le> res \<and> res \<le> int n"

text \<open>The number of bytes the first \<^verbatim>\<open>write\<close> of a drain offers: up to the end of the segment.\<close>

definition rb_first_segment :: "mio_rb \<Rightarrow> nat" where
  "rb_first_segment rb =
     (let r = unat (r_idx rb); w = unat (w_idx rb) in if r \<le> w then w - r else rb_size - r)"

definition drain_ok :: "mio_rb \<Rightarrow> int \<Rightarrow> int \<Rightarrow> bool" where
  "drain_ok rb n1 n2 \<longleftrightarrow> write_ok (rb_first_segment rb) n1 \<and> write_ok (unat (w_idx rb)) n2"

lemma unat_word_of_int:
  "0 \<le> n \<Longrightarrow> n < 2 ^ LENGTH('a) \<Longrightarrow> unat (word_of_int n :: 'a::len word) = nat n"
  by (simp add: unat_eq_nat_uint uint_word_of_int_eq take_bit_int_eq_self)

lemma drain_linear:
  assumes wf: "rb_wf rb" and lt: "r_idx rb < w_idx rb"
    and ok: "write_ok (unat (w_idx rb) - unat (r_idx rb)) n1"
    and res: "mio_drain rb n1 n2 = (out, sent, rb')"
  shows "rb_contents rb = sent @ rb_contents rb' \<and> rb_wf rb' \<and>
    (out = DrainDone \<longleftrightarrow> rb_contents rb' = []) \<and> out \<noteq> DrainIdle"
proof -
  let ?r = "unat (r_idx rb)" and ?w = "unat (w_idx rb)"
  have rw: "?r < ?w" "?w \<le> rb_size" using lt wf by (auto simp: word_less_nat_alt rb_wf_def)
  have n: "nat n1 \<le> ?w - ?r" "0 \<le> n1" using ok by (auto simp: write_ok_def)
  have "unat (word_of_int n1 :: u32) = nat n1" using n rw by (intro unat_word_of_int) simp_all
  then have r': "unat (r_idx rb + word_of_int n1) = ?r + nat n1"
    using n rw by (subst unat_add_le) simp_all
  have le: "?r + nat n1 \<le> ?w" using n rw by linarith
  have d: "unat (w_idx rb - r_idx rb) = ?w - ?r" using rw by (subst unat_sub_le) simp_all
  have eq: "rb' = rb\<lparr>r_idx := r_idx rb + word_of_int n1\<rparr>"
    "sent = mem_get (rb_data rb) ?r (nat n1)"
    "out = (if r_idx rb + word_of_int n1 = w_idx rb then DrainDone else DrainPending)"
    using res lt less_imp_neq [OF lt] n by (auto simp: mio_drain_def Let_def d min_absorb1)
  have e: "(r_idx rb + word_of_int n1 = w_idx rb) = (?r + nat n1 = ?w)"
    using r' by (metis unsigned_word_eqI)
  have "rb_contents rb = sent @ rb_contents rb'"
    using n rw le mem_get_split [of "nat n1" "?w - ?r" "rb_data rb" ?r]
    by (simp add: eq rb_contents_def Let_def r')
  moreover from this have "rb_wf rb'"
    using wf n rw by (simp add: rb_wf_def eq(1) r')
  moreover have "(rb_contents rb' = []) = (?r + nat n1 = ?w)"
    using n rw by (auto simp: eq(1) rb_contents_def Let_def r')
  ultimately show ?thesis by (simp add: eq(3) e)
qed

lemma drain_wrapped:
  assumes wf: "rb_wf rb" and gt: "w_idx rb < r_idx rb"
    and ok1: "write_ok (rb_size - unat (r_idx rb)) n1" and ok2: "write_ok (unat (w_idx rb)) n2"
    and res: "mio_drain rb n1 n2 = (out, sent, rb')"
  shows "rb_contents rb = sent @ rb_contents rb' \<and> rb_wf rb' \<and>
    (out = DrainDone \<longleftrightarrow> rb_contents rb' = []) \<and> out \<noteq> DrainIdle"
proof -
  let ?r = "unat (r_idx rb)" and ?w = "unat (w_idx rb)" and ?d = "rb_data rb"
  let ?r1 = "(r_idx rb + word_of_int n1) mod MIO_RB_BUF_SIZE"
  have rw: "?w < ?r" "?r \<le> rb_size" using gt wf by (auto simp: word_less_nat_alt rb_wf_def)
  have n1: "nat n1 \<le> rb_size - ?r" "0 \<le> n1" using ok1 by (auto simp: write_ok_def)
  have n2: "nat n2 \<le> ?w" "0 \<le> n2" using ok2 by (auto simp: write_ok_def nat_le_iff)
  have "unat (word_of_int n1 :: u32) = nat n1" using n1 rw by (intro unat_word_of_int) simp_all
  then have "unat (r_idx rb + word_of_int n1) = ?r + nat n1"
    using n1 rw by (subst unat_add_le) simp_all
  then have r1: "unat ?r1 = (?r + nat n1) mod rb_size" by (simp add: unat_mod_distrib)
  have d: "unat (MIO_RB_BUF_SIZE - r_idx rb) = rb_size - ?r" using rw by (subst unat_sub_le) simp_all
  have c0: "rb_contents rb = mem_get ?d ?r (rb_size - ?r) @ mem_get ?d 0 ?w"
    using rw by (simp add: rb_contents_def Let_def)
  show ?thesis
  proof (cases "?r + nat n1 = rb_size")
    case True
    then have z: "?r1 = 0" using r1 by (simp add: unat_eq_zero [symmetric] del: unat_eq_zero)
    have n1n: "nat n1 = rb_size - ?r" using True by simp
    have u2: "unat (word_of_int n2 :: u32) = nat n2" using n2 rw by (intro unat_word_of_int) simp_all
    have eq: "rb' = rb\<lparr>r_idx := word_of_int n2\<rparr>"
      "sent = mem_get ?d ?r (rb_size - ?r) @ mem_get ?d 0 (nat n2)"
      "out = (if word_of_int n2 = w_idx rb then DrainDone else DrainPending)"
      using res gt less_imp_neq [OF gt] less_not_sym [OF gt] n1n n1 n2
      by (auto simp: mio_drain_def Let_def d z min_absorb1 min_absorb2)
    have c: "rb_contents rb' = mem_get ?d (nat n2) (?w - nat n2)"
      using n2 u2 by (simp add: eq rb_contents_def Let_def)
    have "(word_of_int n2 = w_idx rb) = (nat n2 = ?w)" using u2 by (metis unsigned_word_eqI)
    moreover have "rb_wf rb'" using rw n2 u2 by (simp add: rb_wf_def c) (simp add: eq)
    moreover have "rb_contents rb = sent @ rb_contents rb'"
      using n2 mem_get_split [of "nat n2" ?w ?d 0] by (simp add: c0 c eq(2))
    ultimately show ?thesis using n2 by (auto simp: c eq(3))
  next
    case False
    then have r1': "unat ?r1 = ?r + nat n1" using r1 n1 rw by simp
    then have nz: "?r1 \<noteq> 0" using rw by (metis add_is_0 not_less_zero unat_0)
    have eq: "rb' = rb\<lparr>r_idx := ?r1\<rparr>" "sent = mem_get ?d ?r (nat n1)"
      "out = (if ?r1 = w_idx rb then DrainDone else DrainPending)"
      using res gt less_imp_neq [OF gt] less_not_sym [OF gt] n1 nz by (auto simp: mio_drain_def Let_def d min_absorb1)
    have ne: "?r1 \<noteq> w_idx rb" using r1' rw by auto
    have c: "rb_contents rb' = mem_get ?d (?r + nat n1) (rb_size - (?r + nat n1)) @ mem_get ?d 0 ?w"
      using rw by (simp add: eq rb_contents_def Let_def r1')
    have "rb_contents rb = sent @ rb_contents rb'"
      using n1 mem_get_split [of "nat n1" "rb_size - ?r" ?d ?r] by (simp add: c0 c eq(2))
    moreover have "rb_wf rb'" using rw n1 False by (simp add: rb_wf_def c) (simp add: eq r1', linarith)
    moreover have "?r + nat n1 < rb_size" using rw n1 False by linarith
    ultimately show ?thesis using ne by (simp add: eq(3) c)
  qed
qed

lemma drain_prefix:
  assumes wf: "rb_wf rb" and ok: "drain_ok rb n1 n2"
    and res: "mio_drain rb n1 n2 = (out, sent, rb')"
  shows "rb_contents rb = sent @ rb_contents rb' \<and> rb_wf rb' \<and>
    (out = DrainPending \<longleftrightarrow> rb_contents rb' \<noteq> []) \<and> (out = DrainIdle \<longrightarrow> rb_contents rb = [] \<and> rb' = rb)"
proof -
  consider "r_idx rb = w_idx rb" | "r_idx rb < w_idx rb" | "w_idx rb < r_idx rb"
    by (rule linorder_cases)
  then show ?thesis
  proof cases
    case 1
    with wf res show ?thesis by (auto simp: mio_drain_def rb_contents_def)
  next
    case 2
    with drain_linear [OF wf 2 _ res] ok 2 show ?thesis
      by (cases out) (auto simp: drain_ok_def rb_first_segment_def Let_def word_less_nat_alt)
  next
    case 3
    then have ne: "\<not> unat (r_idx rb) \<le> unat (w_idx rb)" by (simp add: word_less_nat_alt)
    with drain_wrapped [OF wf 3 _ _ res] ok ne show ?thesis
      by (cases out) (auto simp: drain_ok_def rb_first_segment_def Let_def)
  qed
qed

section \<open>The interface the handle code relies on\<close>

text \<open>
  A bounded byte queue that a producer fills with whole messages and a consumer drains in
  arbitrary pieces. A run records the bytes of the accepted messages and the bytes handed out.
\<close>

datatype 'o fifo_op = Put "u8 list" | Get 'o

fun fifo_run :: "('b \<Rightarrow> u8 list \<Rightarrow> bool \<times> 'b) \<Rightarrow> ('b \<Rightarrow> 'o \<Rightarrow> u8 list \<times> 'b) \<Rightarrow>
    'b \<Rightarrow> 'o fifo_op list \<Rightarrow> u8 list \<times> u8 list \<times> 'b" where
  "fifo_run put get b [] = ([], [], b)"
| "fifo_run put get b (Put bs # ops) =
     (let (ok, b') = put b bs; (acc, out, b'') = fifo_run put get b' ops
      in ((if ok then bs else []) @ acc, out, b''))"
| "fifo_run put get b (Get e # ops) =
     (let (s, b') = get b e; (acc, out, b'') = fifo_run put get b' ops
      in (acc, s @ out, b''))"

text \<open>Every step of the run is one the environment is allowed to make.\<close>

fun fifo_ok :: "('b \<Rightarrow> u8 list \<Rightarrow> bool \<times> 'b) \<Rightarrow> ('b \<Rightarrow> 'o \<Rightarrow> u8 list \<times> 'b) \<Rightarrow>
    (u8 list \<Rightarrow> bool) \<Rightarrow> ('b \<Rightarrow> 'o \<Rightarrow> bool) \<Rightarrow> 'b \<Rightarrow> 'o fifo_op list \<Rightarrow> bool" where
  "fifo_ok put get pok gok b [] = True"
| "fifo_ok put get pok gok b (Put bs # ops) =
     (pok bs \<and> fifo_ok put get pok gok (snd (put b bs)) ops)"
| "fifo_ok put get pok gok b (Get e # ops) =
     (gok b e \<and> fifo_ok put get pok gok (snd (get b e)) ops)"

locale byte_fifo =
  fixes invar :: "'b \<Rightarrow> bool"
    and contents :: "'b \<Rightarrow> u8 list"
    and capacity :: nat
    and put :: "'b \<Rightarrow> u8 list \<Rightarrow> bool \<times> 'b"
    and get :: "'b \<Rightarrow> 'o \<Rightarrow> u8 list \<times> 'b"
    and pok :: "u8 list \<Rightarrow> bool"
    and gok :: "'b \<Rightarrow> 'o \<Rightarrow> bool"
  assumes put_invar: "invar b \<Longrightarrow> pok bs \<Longrightarrow> invar (snd (put b bs))"
    and put_accepts: "invar b \<Longrightarrow> pok bs \<Longrightarrow> fst (put b bs) \<longleftrightarrow> length (contents b) + length bs \<le> capacity"
    and put_contents: "invar b \<Longrightarrow> pok bs \<Longrightarrow>
      contents (snd (put b bs)) = (if fst (put b bs) then contents b @ bs else contents b)"
    and get_invar: "invar b \<Longrightarrow> gok b e \<Longrightarrow> invar (snd (get b e))"
    and get_contents: "invar b \<Longrightarrow> gok b e \<Longrightarrow> contents b = fst (get b e) @ contents (snd (get b e))"
begin

lemma run_stream:
  assumes "invar b" "fifo_ok put get pok gok b ops" "fifo_run put get b ops = (acc, out, b')"
  shows "invar b' \<and> contents b @ acc = out @ contents b'"
  using assms
proof (induction ops arbitrary: b acc out)
  case Nil
  then show ?case by simp
next
  case (Cons x ops)
  show ?case
  proof (cases x)
    case (Put bs)
    obtain ok b1 where p: "put b bs = (ok, b1)" by fastforce
    obtain acc1 where r: "fifo_run put get b1 ops = (acc1, out, b')"
      and a: "acc = (if ok then bs else []) @ acc1"
      using Cons.prems(3) by (auto simp: Put p split: prod.splits)
    have pre: "pok bs" "fifo_ok put get pok gok b1 ops" using Cons.prems(2) by (auto simp: Put p)
    have "invar b1" "contents b1 = (if ok then contents b @ bs else contents b)"
      using put_invar [OF Cons.prems(1) pre(1)] put_contents [OF Cons.prems(1) pre(1)] by (simp_all add: p)
    with Cons.IH [OF _ pre(2) r] show ?thesis by (simp add: a split: if_splits)
  next
    case (Get e)
    obtain s b1 where g: "get b e = (s, b1)" by fastforce
    obtain out1 where r: "fifo_run put get b1 ops = (acc, out1, b')" and o: "out = s @ out1"
      using Cons.prems(3) by (auto simp: Get g split: prod.splits)
    have pre: "gok b e" "fifo_ok put get pok gok b1 ops" using Cons.prems(2) by (auto simp: Get g)
    have "invar b1" "contents b = s @ contents b1"
      using get_invar [OF Cons.prems(1) pre(1)] get_contents [OF Cons.prems(1) pre(1)] by (simp_all add: g)
    with Cons.IH [OF _ pre(2) r] show ?thesis by (simp add: o)
  qed
qed

end

text \<open>The ring of \<^verbatim>\<open>multiplex_io.c\<close> is such a queue.\<close>

definition mio_put :: "mio_rb \<Rightarrow> u8 list \<Rightarrow> bool \<times> mio_rb" where
  "mio_put rb bs =
     (let (n, rb') = multiplex_io_rb_write_data rb bs (of_nat (length bs)) in (unat n = length bs, rb'))"

definition mio_get :: "mio_rb \<Rightarrow> int \<times> int \<Rightarrow> u8 list \<times> mio_rb" where
  "mio_get rb e = snd (mio_drain rb (fst e) (snd e))"

text \<open>Messages are as long as a positive C \<^verbatim>\<open>int\<close> can say.\<close>

definition mio_msg_ok :: "u8 list \<Rightarrow> bool" where
  "mio_msg_ok bs \<longleftrightarrow> 0 < length bs \<and> length bs < 2 ^ 31"

definition mio_get_ok :: "mio_rb \<Rightarrow> int \<times> int \<Rightarrow> bool" where
  "mio_get_ok rb e \<longleftrightarrow> drain_ok rb (fst e) (snd e)"

lemma mio_put_cases:
  assumes "rb_wf rb" "mio_msg_ok bs"
  shows "if rb_accepts rb (length bs)
    then fst (mio_put rb bs) \<and> rb_contents (snd (mio_put rb bs)) = rb_contents rb @ bs \<and>
      rb_wf (snd (mio_put rb bs))
    else mio_put rb bs = (False, rb)"
proof -
  have len: "unat (of_nat (length bs) :: u32) = length bs"
    using assms(2) by (simp add: mio_msg_ok_def unat_of_nat take_bit_nat_eq_self)
  obtain n rb' where res: "multiplex_io_rb_write_data rb bs (of_nat (length bs)) = (n, rb')" by fastforce
  show ?thesis
    using rb_write_accept [OF assms(1) _ _ res] rb_write_reject [OF assms(1), of "of_nat (length bs)" bs]
      assms(2) by (auto simp: len mio_put_def res mio_msg_ok_def)
qed

interpretation mio: byte_fifo rb_wf rb_contents "rb_size - 1" mio_put mio_get mio_msg_ok mio_get_ok
proof
  fix rb bs assume a: "rb_wf rb" "mio_msg_ok bs"
  note c = mio_put_cases [OF a]
  show "rb_wf (snd (mio_put rb bs))" using c a by (auto split: if_splits)
  show "fst (mio_put rb bs) \<longleftrightarrow> length (rb_contents rb) + length bs \<le> rb_size - 1"
    using c by (auto simp: rb_accepts_def split: if_splits)
  show "rb_contents (snd (mio_put rb bs)) =
      (if fst (mio_put rb bs) then rb_contents rb @ bs else rb_contents rb)"
    using c by (auto split: if_splits)
next
  fix rb e assume a: "rb_wf rb" "mio_get_ok rb e"
  obtain out sent rb' where res: "mio_drain rb (fst e) (snd e) = (out, sent, rb')"
    by (metis prod_cases3)
  note c = drain_prefix [OF a(1) a(2) [unfolded mio_get_ok_def] res]
  show "rb_wf (snd (mio_get rb e))" using c by (simp add: mio_get_def res)
  show "rb_contents rb = fst (mio_get rb e) @ rb_contents (snd (mio_get rb e))"
    using c by (simp add: mio_get_def res)
qed

section \<open>Properties\<close>

text \<open>
  On a well-formed ring, \<^verbatim>\<open>multiplex_io_rb_write_data\<close> takes a message exactly when it fits
  below the buffer size less one; then it returns the length and the pending bytes grow by the
  message, and otherwise it returns 0 and changes nothing. The ring stays well formed and no byte
  outside the array is written, also when an index stands at the very end of the array.
\<close>

theorem rb_write_data_spec:
  assumes "rb_wf rb" "unat len \<le> length data" "multiplex_io_rb_write_data rb data len = (n, rb')"
  shows "(if length (rb_contents rb) + unat len < rb_size
          then n = len \<and> rb_contents rb' = rb_contents rb @ take (unat len) data
          else n = 0 \<and> rb' = rb)
    \<and> rb_wf rb' \<and> (\<forall>i. rb_size \<le> i \<longrightarrow> rb_data rb' i = rb_data rb i)"
proof (cases "rb_accepts rb (unat len)")
  case True
  with rb_write_accept [OF assms(1) True assms(2,3)] rb_write_bounds [OF assms(1,2)] assms(3)
  show ?thesis by (auto simp: rb_accepts_def)
next
  case False
  with rb_write_reject [OF assms(1) False, of data] assms(1,3) show ?thesis
    by (auto simp: rb_accepts_def)
qed

definition rb_demo :: mio_rb where
  "rb_demo = \<lparr>r_idx = 1048575, w_idx = 1048575, rb_data = (\<lambda>_. 0)\<rparr>"

theorem rb_write_data_spec_witness:
  "fst (multiplex_io_rb_write_data rb_demo [7, 8, 9] 3) = 3 \<and>
   rb_contents (snd (multiplex_io_rb_write_data rb_demo [7, 8, 9] 3)) = [7, 8, 9]"
proof -
  obtain n rb' where res: "multiplex_io_rb_write_data rb_demo [7, 8, 9] 3 = (n, rb')" by fastforce
  have "rb_wf rb_demo" "rb_contents rb_demo = []" by (simp_all add: rb_wf_def rb_contents_def rb_demo_def)
  with rb_write_data_spec [OF _ _ res] show ?thesis by (simp add: res)
qed

text \<open>
  When the \<^verbatim>\<open>write\<close> calls of the drain succeed, partially or not, the bytes they took are a
  prefix of the pending bytes and exactly that prefix leaves the ring; the thread stops watching
  for \<^verbatim>\<open>EPOLLOUT\<close> only if nothing is left.
\<close>

theorem mio_drain_spec:
  assumes "rb_wf rb" "drain_ok rb n1 n2" "mio_drain rb n1 n2 = (out, sent, rb')"
  shows "rb_contents rb = sent @ rb_contents rb' \<and> rb_wf rb' \<and>
    (out = DrainPending \<longleftrightarrow> rb_contents rb' \<noteq> []) \<and> (out = DrainIdle \<longrightarrow> rb' = rb)"
  using drain_prefix [OF assms] by blast

theorem mio_drain_spec_witness:
  "fst (snd (mio_drain \<lparr>r_idx = 1048575, w_idx = 2, rb_data = (\<lambda>i. of_nat (i mod 256))\<rparr> 1 1)) = [255, 0]"
proof -
  let ?rb = "\<lparr>r_idx = 1048575, w_idx = 2, rb_data = (\<lambda>i. of_nat (i mod 256))\<rparr> :: mio_rb"
  obtain out sent rb' where res: "mio_drain ?rb 1 1 = (out, sent, rb')" by (metis prod_cases3)
  have "rb_wf ?rb" by (simp add: rb_wf_def rb_contents_def)
  moreover have "drain_ok ?rb 1 1" by (simp add: drain_ok_def rb_first_segment_def write_ok_def)
  ultimately have "rb_contents ?rb = sent @ rb_contents rb'" using mio_drain_spec [OF _ _ res] by blast
  moreover have "rb_contents rb' = [1]"
    using res by (simp add: mio_drain_def MIO_RB_BUF_SIZE_def rb_contents_def mem_get_def)
      (auto simp: mem_get_def upt_rec)
  ultimately have "sent @ [1] = [255, 0, 1]"
    by (simp add: rb_contents_def mem_get_def upt_rec)
  then have "sent = [255, 0]" by (metis append1_eq_conv append_Cons append_Nil)
  then show ?thesis by (simp add: res)
qed



text \<open>
  The result of \<^verbatim>\<open>write\<close> is added to the read index unchecked. When the call fails (\<open>-1\<close>, for
  instance \<^verbatim>\<open>EAGAIN\<close> on the non-blocking socket), the read index moves back by one: the byte before
  the pending ones is queued to be sent again, and a ring read from offset 0 is left with an index
  far outside the array.
\<close>

theorem mio_drain_error:
  assumes "rb_wf rb" "r_idx rb < w_idx rb" "mio_drain rb (- 1) n2 = (out, sent, rb')"
  shows "sent = [] \<and> out = DrainPending \<and>
    (if r_idx rb = 0 then \<not> rb_wf rb'
     else rb_contents rb' = rb_data rb (unat (r_idx rb) - 1) # rb_contents rb)"
proof -
  let ?r = "unat (r_idx rb)" and ?w = "unat (w_idx rb)"
  have rw: "?r < ?w" "?w \<le> rb_size" using assms(1,2) by (auto simp: word_less_nat_alt rb_wf_def)
  have eq: "rb' = rb\<lparr>r_idx := r_idx rb - 1\<rparr>" "sent = []"
    "out = (if r_idx rb - 1 = w_idx rb then DrainDone else DrainPending)"
    using assms(2,3) less_imp_neq [OF assms(2)] by (auto simp: mio_drain_def Let_def)
  show ?thesis
  proof (cases "r_idx rb = 0")
    case True
    then have "unat (r_idx rb - 1) = 2 ^ 32 - 1" by (simp add: unsigned_minus_1_eq_mask mask_eq_exp_minus_1)
    moreover from this rw have "r_idx rb - 1 \<noteq> w_idx rb" by auto
    ultimately show ?thesis using True by (simp add: eq rb_wf_def)
  next
    case False
    then have pos: "0 < ?r" by (simp add: unat_gt_0)
    then have r': "unat (r_idx rb - 1) = ?r - 1" by (subst unat_sub_le) simp_all
    then have "r_idx rb - 1 \<noteq> w_idx rb" using rw by auto
    moreover have "mem_get (rb_data rb) (?r - 1) (Suc (?w - ?r)) =
        rb_data rb (?r - 1) # mem_get (rb_data rb) ?r (?w - ?r)"
      using pos by (simp add: mem_get_Suc)
    moreover have "?r - 1 \<le> ?w" using rw by linarith
    ultimately show ?thesis using False pos rw r'
      by (simp add: eq rb_contents_def Let_def Suc_diff_le)
  qed
qed

theorem mio_drain_error_witness:
  "\<not> rb_wf (snd (snd (mio_drain \<lparr>r_idx = 0, w_idx = 2, rb_data = (\<lambda>_. 0)\<rparr> (- 1) 0)))"
proof -
  let ?rb = "\<lparr>r_idx = 0, w_idx = 2, rb_data = (\<lambda>_. 0)\<rparr> :: mio_rb"
  obtain out sent rb' where res: "mio_drain ?rb (- 1) 0 = (out, sent, rb')" by (metis prod_cases3)
  have "rb_wf ?rb" by (simp add: rb_wf_def rb_contents_def)
  then show ?thesis using mio_drain_error [OF _ _ res] by (simp add: res)
qed

end
