(* ===== verification/Lists.thy ===== *)
theory Lists
  imports Prelude
begin

text \<open>
  The intrusive circular lists of \<^verbatim>\<open>apps/sysbus/src/list.h\<close>. A heap maps node addresses to nodes;
  the operations are the assignments of the C functions, in their order, so that aliasing (a list
  whose head is its own successor) is treated as the code treats it. \<open>list_ring h l xs\<close> says that
  the nodes \<open>xs\<close> hang between the head \<open>l\<close> and itself, linked both ways and tagged with their head.
  The interface locale \<open>circ_lists\<close> collects what the users of the lists rely on.
\<close>

section \<open>Nodes and operations\<close>

record 'n list_node =
  nhead :: 'n
  nnext :: 'n
  nprev :: 'n

type_synonym 'n heap = "'n \<Rightarrow> 'n list_node"

definition set_nhead :: "'n heap \<Rightarrow> 'n \<Rightarrow> 'n \<Rightarrow> 'n heap" where
  "set_nhead h a v = h(a := (h a)\<lparr>nhead := v\<rparr>)"

definition set_nnext :: "'n heap \<Rightarrow> 'n \<Rightarrow> 'n \<Rightarrow> 'n heap" where
  "set_nnext h a v = h(a := (h a)\<lparr>nnext := v\<rparr>)"

definition set_nprev :: "'n heap \<Rightarrow> 'n \<Rightarrow> 'n \<Rightarrow> 'n heap" where
  "set_nprev h a v = h(a := (h a)\<lparr>nprev := v\<rparr>)"

lemmas node_upd_defs = set_nhead_def set_nnext_def set_nprev_def

definition list_init :: "'n heap \<Rightarrow> 'n \<Rightarrow> 'n heap" where
  "list_init h l = set_nhead (set_nnext (set_nprev h l l) l l) l l"

definition list_insert_after :: "'n heap \<Rightarrow> 'n \<Rightarrow> 'n \<Rightarrow> 'n heap" where
  "list_insert_after h l n =
     (let h1 = set_nprev h (nnext (h l)) n;
          h2 = set_nnext h1 n (nnext (h1 l));
          h3 = set_nnext h2 l n;
          h4 = set_nprev h3 n l
      in set_nhead h4 n (nhead (h4 l)))"

definition list_insert_before :: "'n heap \<Rightarrow> 'n \<Rightarrow> 'n \<Rightarrow> 'n heap" where
  "list_insert_before h l n =
     (let h1 = set_nnext h (nprev (h l)) n;
          h2 = set_nprev h1 n (nprev (h1 l));
          h3 = set_nprev h2 l n;
          h4 = set_nnext h3 n l
      in set_nhead h4 n (nhead (h4 l)))"

definition list_remove :: "'n heap \<Rightarrow> 'n \<Rightarrow> 'n heap" where
  "list_remove h n =
     (let h1 = set_nprev h (nnext (h n)) (nprev (h n));
          h2 = set_nnext h1 (nprev (h1 n)) (nnext (h1 n))
      in list_init h2 n)"

definition list_isempty :: "'n heap \<Rightarrow> 'n \<Rightarrow> bool" where
  "list_isempty h l \<longleftrightarrow> nnext (h l) = l"

definition list_contains_node :: "'n heap \<Rightarrow> 'n \<Rightarrow> 'n \<Rightarrow> bool" where
  "list_contains_node h l n \<longleftrightarrow> nhead (h n) = nhead (h l)"

definition list_ishead :: "'n heap \<Rightarrow> 'n \<Rightarrow> bool" where
  "list_ishead h n \<longleftrightarrow> nhead (h n) = n"

text \<open>
  The traversal \<^verbatim>\<open>for (n = l->next; n != l; n = n->next)\<close>, as the nodes it visits; a traversal that
  never comes back to the head has no result.
\<close>

partial_function (option) list_walk :: "'n heap \<Rightarrow> 'n \<Rightarrow> 'n \<Rightarrow> 'n list option" where
  "list_walk h l n =
     (if n = l then Some []
      else Option.bind (list_walk h l (nnext (h n))) (\<lambda>ns. Some (n # ns)))"

definition list_nodes :: "'n heap \<Rightarrow> 'n \<Rightarrow> 'n list option" where
  "list_nodes h l = list_walk h l (nnext (h l))"

section \<open>Well-linked lists\<close>

fun linked :: "'n heap \<Rightarrow> 'n list \<Rightarrow> bool" where
  "linked h (a # b # zs) \<longleftrightarrow> nnext (h a) = b \<and> nprev (h b) = a \<and> linked h (b # zs)"
| "linked h _ \<longleftrightarrow> True"

definition list_ring :: "'n heap \<Rightarrow> 'n \<Rightarrow> 'n list \<Rightarrow> bool" where
  "list_ring h l xs \<longleftrightarrow>
     distinct (l # xs) \<and> linked h (l # xs @ [l]) \<and> (\<forall>x \<in> set (l # xs). nhead (h x) = l)"

lemma linked_append: "linked h (xs @ a # ys) \<longleftrightarrow> linked h (xs @ [a]) \<and> linked h (a # ys)"
proof (induction xs)
  case (Cons x xs)
  then show ?case by (cases xs) auto
qed simp

lemma linked_cong:
  "(\<And>x. x \<in> set (butlast zs) \<Longrightarrow> nnext (h' x) = nnext (h x)) \<Longrightarrow>
   (\<And>x. x \<in> set (tl zs) \<Longrightarrow> nprev (h' x) = nprev (h x)) \<Longrightarrow> linked h' zs = linked h zs"
  by (induction h zs rule: linked.induct) (auto split: if_splits)

lemma list_ring_cong:
  assumes "\<And>x. x \<in> set (l # xs) \<Longrightarrow> h' x = h x"
  shows "list_ring h' l xs = list_ring h l xs"
proof -
  have "linked h' (l # xs @ [l]) = linked h (l # xs @ [l])"
    using assms by (intro linked_cong) (auto simp: butlast_append)
  then show ?thesis using assms by (simp add: list_ring_def)
qed

lemma list_ring_fields:
  assumes "list_ring h l xs" "x \<in> set (l # xs)"
  shows "nhead (h x) = l" "nnext (h x) \<in> set (l # xs)" "nprev (h x) \<in> set (l # xs)"
proof -
  show "nhead (h x) = l" using assms by (auto simp: list_ring_def)
  from assms(2) obtain as bs where s: "l # xs = as @ x # bs" by (meson split_list)
  have lk: "linked h (as @ x # bs @ [l])"
    using assms(1) s by (simp add: list_ring_def) (metis append_Cons append_assoc)
  then have "linked h (x # bs @ [l])" by (rule linked_append [THEN iffD1, THEN conjunct2])
  then have "nnext (h x) = hd (bs @ [l])" by (cases bs) auto
  moreover have "set bs \<subseteq> set (l # xs)" unfolding s by auto
  ultimately show "nnext (h x) \<in> set (l # xs)" by (cases bs) auto
  show "nprev (h x) \<in> set (l # xs)"
  proof (cases as rule: rev_cases)
    case Nil
    then have x: "x = l" using s by simp
    have "linked h ((l # xs) @ [l])" using assms(1) by (simp add: list_ring_def)
    then have "linked h (butlast (l # xs) @ last (l # xs) # [l])" 
      by (metis append.assoc append_Cons append_Nil append_butlast_last_id list.distinct(1))
    then have "nprev (h l) = last (l # xs)" using linked_append [of h "butlast (l # xs)" "last (l # xs)" "[l]"] by simp
    then show ?thesis using x by (metis last_in_set list.distinct(1))
  next
    case (snoc cs y)
    then have "linked h (cs @ y # x # bs @ [l])" using lk by simp
    then have "nprev (h x) = y" using linked_append [of h cs y "x # bs @ [l]"] by simp
    then show ?thesis using s snoc by (metis in_set_conv_decomp Un_iff list.set_intros(1) set_append)
  qed
qed

text \<open>The traversal visits exactly the nodes of the ring, and it ends.\<close>

lemma list_walk_linked:
  "linked h (n # ns @ [l]) \<Longrightarrow> l \<notin> set (n # ns) \<Longrightarrow> list_walk h l n = Some (n # ns)"
proof (induction ns arbitrary: n)
  case Nil
  then show ?case by (subst list_walk.simps) (auto simp: list_walk.simps)
next
  case (Cons m ns)
  then have "list_walk h l m = Some (m # ns)" by auto
  with Cons.prems show ?case by (subst list_walk.simps) auto
qed

lemma list_nodes_ring:
  assumes "list_ring h l xs"
  shows "list_nodes h l = Some xs"
proof (cases xs)
  case Nil
  with assms show ?thesis by (auto simp: list_nodes_def list_ring_def list_walk.simps)
next
  case (Cons x ys)
  with assms have "nnext (h l) = x" "linked h (x # ys @ [l])" "l \<notin> set (x # ys)"
    by (auto simp: list_ring_def)
  then show ?thesis using list_walk_linked [of h x ys l] by (simp add: list_nodes_def Cons)
qed

lemma list_ring_unique: "list_ring h l xs \<Longrightarrow> list_ring h l ys \<Longrightarrow> xs = ys"
  by (metis list_nodes_ring option.inject)

section \<open>What the operations do to rings\<close>

text \<open>Splicing a node between two neighbours, and taking it out again.\<close>

lemma linked_splice:
  assumes lk: "linked h (ps @ a # b # qs)" and n: "n \<notin> set (ps @ a # b # qs)"
    and d1: "distinct (butlast (ps @ a # b # qs))" and d2: "distinct (tl (ps @ a # b # qs))"
    and nx: "\<And>x. nnext (h' x) = (if x = a then n else if x = n then b else nnext (h x))"
    and pv: "\<And>x. nprev (h' x) = (if x = b then n else if x = n then a else nprev (h x))"
  shows "linked h' (ps @ a # n # b # qs)"
proof -
  have "linked h (ps @ [a])" "linked h (b # qs)"
    using lk linked_append [of h ps a "b # qs"] by auto
  moreover have "linked h' (ps @ [a]) = linked h (ps @ [a])"
    using n d1 d2 by (intro linked_cong) (auto simp: nx pv butlast_append tl_append split: list.splits if_splits)
  moreover have "linked h' (b # qs) = linked h (b # qs)"
    using n d1 d2 by (intro linked_cong)
      (auto simp: nx pv butlast_append tl_append split: list.splits if_splits dest: in_set_butlastD)
  ultimately show ?thesis using n linked_append [of h' ps a "n # b # qs"] by (auto simp: nx pv)
qed

lemma linked_unsplice:
  assumes lk: "linked h (ps @ a # n # b # qs)" and n: "n \<notin> set (ps @ a # b # qs)"
    and d1: "distinct (butlast (ps @ a # b # qs))" and d2: "distinct (tl (ps @ a # b # qs))"
    and nx: "\<And>x. x \<noteq> n \<Longrightarrow> nnext (h' x) = (if x = a then b else nnext (h x))"
    and pv: "\<And>x. x \<noteq> n \<Longrightarrow> nprev (h' x) = (if x = b then a else nprev (h x))"
  shows "linked h' (ps @ a # b # qs)"
proof -
  have "linked h (ps @ [a])" "linked h (b # qs)"
    using lk linked_append [of h ps a "n # b # qs"] by auto
  moreover have "linked h' (ps @ [a]) = linked h (ps @ [a])"
  proof (rule linked_cong)
    fix x assume x: "x \<in> set (butlast (ps @ [a]))"
    then have "x \<noteq> n" "x \<noteq> a" using n d1 by (auto simp: butlast_append split: if_splits)
    then show "nnext (h' x) = nnext (h x)" using nx [of x] by simp
  next
    fix x assume x: "x \<in> set (tl (ps @ [a]))"
    then have "x \<noteq> n" using n by (cases ps) auto
    then show "nprev (h' x) = nprev (h x)"
      using x d2 pv [of x] by (cases ps) (auto split: if_splits)
  qed
  moreover have "linked h' (b # qs) = linked h (b # qs)"
  proof (rule linked_cong)
    fix x assume x: "x \<in> set (butlast (b # qs))"
    then have "x \<noteq> n" using n in_set_butlastD [of x "b # qs"] by auto
    then show "nnext (h' x) = nnext (h x)"
      using x d1 nx [of x] by (auto simp: butlast_append split: if_splits)
  next
    fix x assume x: "x \<in> set (tl (b # qs))"
    then have "x \<noteq> n" using n by auto
    then show "nprev (h' x) = nprev (h x)"
      using x d2 pv [of x] by (cases ps) (auto split: if_splits)
  qed
  moreover have "a \<noteq> n" "b \<noteq> n" using n by auto
  ultimately show ?thesis using linked_append [of h' ps a "b # qs"] nx [of a] pv [of b] by simp
qed

lemma insert_after_fields:
  assumes "n \<noteq> l" "n \<noteq> nnext (h l)"
  shows "nnext (list_insert_after h l n x) = (if x = l then n else if x = n then nnext (h l) else nnext (h x))"
    and "nprev (list_insert_after h l n x) = (if x = nnext (h l) then n else if x = n then l else nprev (h x))"
    and "nhead (list_insert_after h l n x) = (if x = n then nhead (h l) else nhead (h x))"
  using assms by (auto simp: list_insert_after_def Let_def node_upd_defs)

lemma insert_before_fields:
  assumes "n \<noteq> l" "n \<noteq> nprev (h l)"
  shows "nnext (list_insert_before h l n x) = (if x = nprev (h l) then n else if x = n then l else nnext (h x))"
    and "nprev (list_insert_before h l n x) = (if x = l then n else if x = n then nprev (h l) else nprev (h x))"
    and "nhead (list_insert_before h l n x) = (if x = n then nhead (h l) else nhead (h x))"
  using assms by (auto simp: list_insert_before_def Let_def node_upd_defs)

lemma remove_fields:
  assumes "nnext (h n) \<noteq> n" "nprev (h n) \<noteq> n"
  shows "nnext (list_remove h n x) = (if x = n then n else if x = nprev (h n) then nnext (h n) else nnext (h x))"
    and "nprev (list_remove h n x) = (if x = n then n else if x = nnext (h n) then nprev (h n) else nprev (h x))"
    and "nhead (list_remove h n x) = (if x = n then n else nhead (h x))"
  using assms by (auto simp: list_remove_def list_init_def Let_def node_upd_defs)

lemma ring_init: "list_ring (list_init h l) l []"
  by (simp add: list_ring_def list_init_def node_upd_defs)

lemma ring_insert_after:
  assumes "list_ring h l xs" "n \<notin> set (l # xs)"
  shows "list_ring (list_insert_after h l n) l (n # xs)"
proof -
  have neq: "n \<noteq> l" "n \<noteq> nnext (h l)" using assms list_ring_fields(2) [OF assms(1), of l] by auto
  let ?zs = "xs @ [l]"
  obtain b qs where bq: "?zs = b # qs" by (cases ?zs) auto
  have b: "nnext (h l) = b" using assms(1) bq by (cases xs) (auto simp: list_ring_def)
  have "linked (list_insert_after h l n) ([] @ l # n # b # qs)"
  proof (rule linked_splice)
    show "linked h ([] @ l # b # qs)" using assms(1) bq by (simp add: list_ring_def)
    show "n \<notin> set ([] @ l # b # qs)" 
      using assms(2) unfolding append_Nil bq [symmetric] by auto
    show "distinct (butlast ([] @ l # b # qs))" "distinct (tl ([] @ l # b # qs))"
      using assms(1) unfolding append_Nil bq [symmetric] by (auto simp: list_ring_def butlast_append)
  qed (simp_all add: insert_after_fields [where h = h, OF neq] b)
  then have "linked (list_insert_after h l n) (l # (n # xs) @ [l])" using bq by simp
  then show ?thesis using assms neq by (auto simp: list_ring_def insert_after_fields [where h = h, OF neq])
qed

lemma ring_insert_before:
  assumes "list_ring h l xs" "n \<notin> set (l # xs)"
  shows "list_ring (list_insert_before h l n) l (xs @ [n])"
proof -
  have neq: "n \<noteq> l" "n \<noteq> nprev (h l)" using assms list_ring_fields(3) [OF assms(1), of l] by auto
  obtain ps a where pa: "l # xs = ps @ [a]" by (metis append_butlast_last_id list.distinct(1))
  have eq: "l # xs @ [l] = ps @ a # [l]" using pa by (metis append_Cons append_assoc append_Nil)
  have lk: "linked h (ps @ a # [l])" using assms(1) eq by (simp add: list_ring_def)
  then have a: "nprev (h l) = a" using linked_append [of h ps a "[l]"] by simp
  have "linked (list_insert_before h l n) (ps @ a # n # [l])"
  proof (rule linked_splice [OF lk])
    show "n \<notin> set (ps @ a # [l])" using assms(2) unfolding eq [symmetric] by auto
    show "distinct (butlast (ps @ a # [l]))" "distinct (tl (ps @ a # [l]))"
      using assms(1) unfolding eq [symmetric] by (auto simp: list_ring_def butlast_append)
  qed (simp_all add: insert_before_fields [where h = h, OF neq] a)
  moreover have "ps @ a # n # [l] = l # (xs @ [n]) @ [l]" using pa by (metis append_Cons append_assoc append_Nil)
  ultimately show ?thesis using assms neq by (auto simp: list_ring_def insert_before_fields [where h = h, OF neq])
qed

lemma ring_remove:
  assumes "list_ring h l (xs @ n # ys)"
  shows "list_ring (list_remove h n) l (xs @ ys)" "list_ring (list_remove h n) n []"
proof -
  have dist: "distinct (l # xs @ n # ys)" using assms by (simp add: list_ring_def)
  obtain ps a where pa: "l # xs = ps @ [a]" by (metis append_butlast_last_id list.distinct(1))
  obtain b qs where bq: "ys @ [l] = b # qs" by (cases "ys @ [l]") auto
  have eq: "l # (xs @ n # ys) @ [l] = ps @ a # n # b # qs"
    using pa bq by (metis append_Cons append_assoc append_Nil)
  have eq': "l # (xs @ ys) @ [l] = ps @ a # b # qs"
    using pa bq by (metis append_Cons append_assoc append_Nil)
  have lk: "linked h (ps @ a # n # b # qs)" using assms eq by (simp add: list_ring_def)
  then have nb: "nnext (h n) = b" "nprev (h n) = a" using linked_append [of h ps a "n # b # qs"] by auto
  have notin: "n \<notin> set (ps @ a # b # qs)" using dist unfolding eq' [symmetric] by auto
  then have neq: "nnext (h n) \<noteq> n" "nprev (h n) \<noteq> n" using nb by auto
  have "linked (list_remove h n) (ps @ a # b # qs)"
  proof (rule linked_unsplice [OF lk notin])
    show "distinct (butlast (ps @ a # b # qs))" "distinct (tl (ps @ a # b # qs))"
      using dist unfolding eq' [symmetric] by (auto simp: butlast_append)
  qed (simp_all add: remove_fields [where h = h, OF neq] nb)
  then show "list_ring (list_remove h n) l (xs @ ys)"
    using assms dist unfolding eq' [symmetric] by (auto simp: list_ring_def remove_fields [where h = h, OF neq])
  show "list_ring (list_remove h n) n []" using neq by (simp add: list_ring_def remove_fields)
qed

lemma ring_isempty: "list_ring h l xs \<Longrightarrow> list_isempty h l \<longleftrightarrow> xs = []"
  by (cases xs) (auto simp: list_isempty_def list_ring_def)

lemma ring_contains:
  assumes "list_ring h l xs" "list_ring h k ys" "n \<in> set (k # ys)"
  shows "list_contains_node h l n \<longleftrightarrow> k = l"
  using list_ring_fields(1) [OF assms(2,3)] list_ring_fields(1) [OF assms(1), of l]
  by (simp add: list_contains_node_def)

text \<open>Rings the operation does not touch stay as they are.\<close>

lemma insert_after_other:
  assumes "list_ring h l xs" "x \<notin> set (n # l # xs)"
  shows "list_insert_after h l n x = h x"
  using assms(2) list_ring_fields(2) [OF assms(1), of l]
  by (auto simp: list_insert_after_def Let_def node_upd_defs)

lemma insert_before_other:
  assumes "list_ring h l xs" "x \<notin> set (n # l # xs)"
  shows "list_insert_before h l n x = h x"
  using assms(2) list_ring_fields(3) [OF assms(1), of l]
  by (auto simp: list_insert_before_def Let_def node_upd_defs)

lemma remove_other:
  assumes "list_ring h l xs" "n \<in> set xs" "x \<notin> set (l # xs)"
  shows "list_remove h n x = h x"
  using assms(2,3) list_ring_fields(2,3) [OF assms(1), of n]
  by (auto simp: list_remove_def list_init_def Let_def node_upd_defs split: if_splits)

lemma init_other: "x \<noteq> l \<Longrightarrow> list_init h l x = h x"
  by (simp add: list_init_def node_upd_defs)

section \<open>The interface its users rely on\<close>

text \<open>
  A family of lists that share a heap: \<open>rings ring h F\<close> says that every list of the family \<open>F\<close> (a map
  from heads to nodes) is well linked and that no node belongs to two of them.
\<close>

definition ring_nodes :: "('n \<rightharpoonup> 'n list) \<Rightarrow> 'n set" where
  "ring_nodes F = {n. \<exists>l xs. F l = Some xs \<and> n \<in> set (l # xs)}"

definition rings :: "('h \<Rightarrow> 'n \<Rightarrow> 'n list \<Rightarrow> bool) \<Rightarrow> 'h \<Rightarrow> ('n \<rightharpoonup> 'n list) \<Rightarrow> bool" where
  "rings ring h F \<longleftrightarrow> (\<forall>l xs. F l = Some xs \<longrightarrow> ring h l xs) \<and>
     (\<forall>l k xs ys. F l = Some xs \<longrightarrow> F k = Some ys \<longrightarrow> l \<noteq> k \<longrightarrow> set (l # xs) \<inter> set (k # ys) = {})"

lemma ringsD: "rings ring h F \<Longrightarrow> F l = Some xs \<Longrightarrow> ring h l xs"
  by (auto simp: rings_def)

lemma rings_disjoint:
  "rings ring h F \<Longrightarrow> F l = Some xs \<Longrightarrow> F k = Some ys \<Longrightarrow> l \<noteq> k \<Longrightarrow> set (l # xs) \<inter> set (k # ys) = {}"
  unfolding rings_def by blast

lemma rings_drop: "rings ring h F \<Longrightarrow> rings ring h (F(l := None))"
  by (auto simp: rings_def split: if_splits)

lemma ringsI:
  assumes "\<And>l xs. F l = Some xs \<Longrightarrow> ring h l xs"
    and "\<And>l k xs ys. F l = Some xs \<Longrightarrow> F k = Some ys \<Longrightarrow> l \<noteq> k \<Longrightarrow> set (l # xs) \<inter> set (k # ys) = {}"
  shows "rings ring h F"
  using assms unfolding rings_def by blast

lemma ring_nodesI: "F l = Some xs \<Longrightarrow> n \<in> set (l # xs) \<Longrightarrow> n \<in> ring_nodes F"
  by (auto simp: ring_nodes_def)

locale circ_lists =
  fixes ring :: "'h \<Rightarrow> 'n \<Rightarrow> 'n list \<Rightarrow> bool"
    and init :: "'h \<Rightarrow> 'n \<Rightarrow> 'h"
    and insert_after :: "'h \<Rightarrow> 'n \<Rightarrow> 'n \<Rightarrow> 'h"
    and insert_before :: "'h \<Rightarrow> 'n \<Rightarrow> 'n \<Rightarrow> 'h"
    and remove :: "'h \<Rightarrow> 'n \<Rightarrow> 'h"
    and isempty :: "'h \<Rightarrow> 'n \<Rightarrow> bool"
    and contains :: "'h \<Rightarrow> 'n \<Rightarrow> 'n \<Rightarrow> bool"
  assumes ring_distinct: "ring h l xs \<Longrightarrow> distinct (l # xs)"
    and init_ring: "ring (init h l) l []"
    and init_frame: "ring h k ys \<Longrightarrow> l \<notin> set (k # ys) \<Longrightarrow> ring (init h l) k ys"
    and after_ring: "ring h l xs \<Longrightarrow> n \<notin> set (l # xs) \<Longrightarrow> ring (insert_after h l n) l (n # xs)"
    and after_frame: "ring h l xs \<Longrightarrow> ring h k ys \<Longrightarrow> set (k # ys) \<inter> set (n # l # xs) = {} \<Longrightarrow>
      ring (insert_after h l n) k ys"
    and before_ring: "ring h l xs \<Longrightarrow> n \<notin> set (l # xs) \<Longrightarrow> ring (insert_before h l n) l (xs @ [n])"
    and before_frame: "ring h l xs \<Longrightarrow> ring h k ys \<Longrightarrow> set (k # ys) \<inter> set (n # l # xs) = {} \<Longrightarrow>
      ring (insert_before h l n) k ys"
    and remove_ring: "ring h l (xs @ n # ys) \<Longrightarrow> ring (remove h n) l (xs @ ys)"
    and remove_single: "ring h l (xs @ n # ys) \<Longrightarrow> ring (remove h n) n []"
    and remove_frame: "ring h l xs \<Longrightarrow> n \<in> set xs \<Longrightarrow> ring h k ys \<Longrightarrow> set (k # ys) \<inter> set (l # xs) = {} \<Longrightarrow>
      ring (remove h n) k ys"
    and isempty_ring: "ring h l xs \<Longrightarrow> isempty h l \<longleftrightarrow> xs = []"
    and contains_ring: "ring h l xs \<Longrightarrow> ring h k ys \<Longrightarrow> n \<in> set (k # ys) \<Longrightarrow> contains h l n \<longleftrightarrow> k = l"
begin

text \<open>Taking a node out by name, wherever it stands.\<close>

lemma remove_remove1:
  assumes "ring h l xs" "n \<in> set xs"
  shows "ring (remove h n) l (remove1 n xs)"
proof -
  obtain as bs where s: "xs = as @ n # bs" "n \<notin> set as" using assms(2) by (meson split_list_first)
  then show ?thesis using remove_ring assms(1) by (simp add: remove1_append)
qed

text \<open>Moving a node to the end of another list.\<close>

lemma move_ring:
  assumes l: "ring h l xs" and k: "ring h k ys" and n: "n \<in> set xs"
    and dj: "set (l # xs) \<inter> set (k # ys) = {}"
  shows "ring (insert_before (remove h n) k n) l (remove1 n xs)"
    and "ring (insert_before (remove h n) k n) k (ys @ [n])"
    and "contains (insert_before (remove h n) k n) k n"
    and "\<not> contains (insert_before (remove h n) k n) l n"
proof -
  have d: "distinct (l # xs)" using l by (rule ring_distinct)
  have "set (k # ys) \<inter> set (l # xs) = {}" using dj by blast
  then have k1: "ring (remove h n) k ys" by (rule remove_frame [OF l n k])
  have l1: "ring (remove h n) l (remove1 n xs)" using l n by (rule remove_remove1)
  have n_k: "n \<notin> set (k # ys)" using n dj by auto
  show k2: "ring (insert_before (remove h n) k n) k (ys @ [n])" using k1 n_k by (rule before_ring)
  have "set (l # remove1 n xs) \<subseteq> set (l # xs)" using set_remove1_subset by fastforce
  moreover have "n \<notin> set (l # remove1 n xs)" using d n by auto
  ultimately have "set (l # remove1 n xs) \<inter> set (n # k # ys) = {}" using dj by auto
  then show l2: "ring (insert_before (remove h n) k n) l (remove1 n xs)"
    by (rule before_frame [OF k1 l1])
  show "contains (insert_before (remove h n) k n) k n" using contains_ring [OF k2 k2, of n] by simp
  show "\<not> contains (insert_before (remove h n) k n) l n"
    using contains_ring [OF l2 k2, of n] dj by auto
qed

text \<open>The operations on a family change one list of it.\<close>

lemma rings_update:
  assumes "rings ring h F" "F l = Some xs" "ring h' l xs'"
    and "\<And>k ys. F k = Some ys \<Longrightarrow> k \<noteq> l \<Longrightarrow> ring h' k ys"
    and "(set xs' - set xs) \<inter> ring_nodes F = {}"
  shows "rings ring h' (F(l \<mapsto> xs'))"
proof (rule ringsI)
  fix k ys assume "(F(l \<mapsto> xs')) k = Some ys"
  then show "ring h' k ys" using assms(3,4) by (auto split: if_splits)
next
  have key: "set (l # xs') \<inter> set (k # ys) = {}" if "F k = Some ys" "k \<noteq> l" for k ys
  proof -
    have "set (l # xs) \<inter> set (k # ys) = {}" using rings_disjoint [where F = F, OF assms(1,2) that(1)] that(2) by blast
    moreover have "set (k # ys) \<subseteq> ring_nodes F" using ring_nodesI [where F = F, OF that(1)] by blast
    ultimately show ?thesis using assms(5) by auto
  qed
  fix i k ys zs assume "(F(l \<mapsto> xs')) i = Some ys" "(F(l \<mapsto> xs')) k = Some zs" "i \<noteq> k"
  then show "set (i # ys) \<inter> set (k # zs) = {}"
    using key [of i ys] key [of k zs] rings_disjoint [where F = F, OF assms(1), of i ys k zs]
    by (auto split: if_splits)
qed

lemma rings_after:
  assumes "rings ring h F" "F l = Some xs" "n \<notin> ring_nodes F"
  shows "rings ring (insert_after h l n) (F(l \<mapsto> n # xs))"
proof -
  have l: "ring h l xs" by (rule ringsD [where F = F, OF assms(1,2)])
  have n: "n \<notin> set (l # xs)" using assms(3) ring_nodesI [where F = F, OF assms(2), of n] by blast
  have other: "ring (insert_after h l n) k ys" if k: "F k = Some ys" "k \<noteq> l" for k ys
  proof -
    have "set (k # ys) \<inter> set (n # l # xs) = {}"
      using rings_disjoint [where F = F, OF assms(1) k(1) assms(2) k(2)] assms(3) ring_nodesI [where F = F, OF k(1), of n] by auto
    then show ?thesis by (rule after_frame [OF l ringsD [where F = F, OF assms(1) k(1)]])
  qed
  show ?thesis
    by (rule rings_update [OF assms(1,2) after_ring [OF l n] other]) (use assms(3) in auto)
qed

lemma rings_before:
  assumes "rings ring h F" "F l = Some xs" "n \<notin> ring_nodes F"
  shows "rings ring (insert_before h l n) (F(l \<mapsto> xs @ [n]))"
proof -
  have l: "ring h l xs" by (rule ringsD [where F = F, OF assms(1,2)])
  have n: "n \<notin> set (l # xs)" using assms(3) ring_nodesI [where F = F, OF assms(2), of n] by blast
  have other: "ring (insert_before h l n) k ys" if k: "F k = Some ys" "k \<noteq> l" for k ys
  proof -
    have "set (k # ys) \<inter> set (n # l # xs) = {}"
      using rings_disjoint [where F = F, OF assms(1) k(1) assms(2) k(2)] assms(3) ring_nodesI [where F = F, OF k(1), of n] by auto
    then show ?thesis by (rule before_frame [OF l ringsD [where F = F, OF assms(1) k(1)]])
  qed
  show ?thesis
    by (rule rings_update [OF assms(1,2) before_ring [OF l n] other]) (use assms(3) in auto)
qed

lemma rings_remove:
  assumes "rings ring h F" "F l = Some xs" "n \<in> set xs"
  shows "rings ring (remove h n) (F(l \<mapsto> remove1 n xs))"
proof -
  have l: "ring h l xs" by (rule ringsD [where F = F, OF assms(1,2)])
  have other: "ring (remove h n) k ys" if k: "F k = Some ys" "k \<noteq> l" for k ys
    by (rule remove_frame [OF l assms(3) ringsD [where F = F, OF assms(1) k(1)] rings_disjoint [where F = F, OF assms(1) k(1) assms(2) k(2)]])
  have sub: "set (remove1 n xs) - set xs = {}" using set_remove1_subset by fastforce
  show ?thesis
    by (rule rings_update [OF assms(1,2) remove_remove1 [OF l assms(3)] other]) (simp_all add: sub)
qed

lemma rings_init:
  assumes "rings ring h F" "n \<notin> ring_nodes F"
  shows "rings ring (init h n) F" "rings ring (init h n) (F(n \<mapsto> []))"
proof -
  have other: "ring (init h n) k ys" if "F k = Some ys" for k ys
    using init_frame [OF ringsD [where F = F, OF assms(1) that]] ring_nodesI [where F = F, OF that, of n] assms(2) by blast
  then show "rings ring (init h n) F"
    using assms(1) unfolding rings_def by blast
  show "rings ring (init h n) (F(n \<mapsto> []))"
  proof (rule ringsI)
    fix k ys assume "(F(n \<mapsto> [])) k = Some ys"
    then show "ring (init h n) k ys" using other init_ring by (auto split: if_splits)
  next
    fix i k ys zs assume a: "(F(n \<mapsto> [])) i = Some ys" "(F(n \<mapsto> [])) k = Some zs" "i \<noteq> k"
    then show "set (i # ys) \<inter> set (k # zs) = {}"
      using rings_disjoint [where F = F, OF assms(1), of i ys k zs] ring_nodesI [of F i ys n] ring_nodesI [of F k zs n] assms(2)
      by (auto split: if_splits)
  qed
qed

end

interpretation cl: circ_lists list_ring list_init list_insert_after list_insert_before list_remove
  list_isempty list_contains_node
proof
  fix h :: "'a heap" and l k n :: 'a and xs ys :: "'a list"
  show "distinct (l # xs)" if "list_ring h l xs" using that by (simp add: list_ring_def)
  show "list_ring (list_init h l) l []" by (rule ring_init)
  show "list_ring (list_init h l) k ys" if "list_ring h k ys" "l \<notin> set (k # ys)"
    using that list_ring_cong [of k ys "list_init h l" h] init_other by metis
  show "list_ring (list_insert_after h l n) l (n # xs)" if "list_ring h l xs" "n \<notin> set (l # xs)"
    using that by (rule ring_insert_after)
  show "list_ring (list_insert_after h l n) k ys"
    if "list_ring h l xs" "list_ring h k ys" "set (k # ys) \<inter> set (n # l # xs) = {}"
    using that list_ring_cong [of k ys "list_insert_after h l n" h] insert_after_other [OF that(1)]
    by (metis disjoint_iff)
  show "list_ring (list_insert_before h l n) l (xs @ [n])" if "list_ring h l xs" "n \<notin> set (l # xs)"
    using that by (rule ring_insert_before)
  show "list_ring (list_insert_before h l n) k ys"
    if "list_ring h l xs" "list_ring h k ys" "set (k # ys) \<inter> set (n # l # xs) = {}"
    using that list_ring_cong [of k ys "list_insert_before h l n" h] insert_before_other [OF that(1)]
    by (metis disjoint_iff)
  show "list_ring (list_remove h n) l (xs @ ys)" if "list_ring h l (xs @ n # ys)"
    using that by (rule ring_remove)
  show "list_ring (list_remove h n) n []" if "list_ring h l (xs @ n # ys)"
    using that by (rule ring_remove)
  show "list_ring (list_remove h n) k ys"
    if "list_ring h l xs" "n \<in> set xs" "list_ring h k ys" "set (k # ys) \<inter> set (l # xs) = {}"
    using that list_ring_cong [of k ys "list_remove h n" h] remove_other [OF that(1,2)]
    by (metis disjoint_iff)
  show "list_isempty h l \<longleftrightarrow> xs = []" if "list_ring h l xs" using that by (rule ring_isempty)
  show "list_contains_node h l n \<longleftrightarrow> k = l" if "list_ring h l xs" "list_ring h k ys" "n \<in> set (k # ys)"
    using that by (rule ring_contains)
qed

section \<open>Properties\<close>


definition demo_heap :: "nat heap" where
  "demo_heap = list_insert_before (list_insert_before (list_init (\<lambda>_. \<lparr>nhead = 0, nnext = 0, nprev = 0\<rparr>) 0) 0 1) 0 2"

lemma demo_heap_ring: "list_ring demo_heap 0 [1, 2]"
  by (simp add: demo_heap_def list_ring_def list_insert_before_def list_init_def node_upd_defs Let_def)


text \<open>
  Moving a node with \<^verbatim>\<open>list_remove\<close> and \<^verbatim>\<open>list_insert_before\<close>, as the deferred deletion of
  handles does, takes it out of one list and puts it at the end of the other; afterwards the head
  tags that \<^verbatim>\<open>list_contains_node\<close> compares say exactly that.
\<close>

theorem list_move_spec:
  assumes "list_ring h l xs" "list_ring h k ys" "n \<in> set xs" "set (l # xs) \<inter> set (k # ys) = {}"
  shows "list_nodes (list_insert_before (list_remove h n) k n) l = Some (remove1 n xs) \<and>
    list_nodes (list_insert_before (list_remove h n) k n) k = Some (ys @ [n]) \<and>
    list_contains_node (list_insert_before (list_remove h n) k n) k n \<and>
    \<not> list_contains_node (list_insert_before (list_remove h n) k n) l n"
  using cl.move_ring [OF assms] by (simp add: list_nodes_ring)

theorem list_move_spec_witness:
  "list_nodes (list_insert_before (list_remove (list_init demo_heap 9) 1) 9 1) 9 = Some [1]"
proof -
  have "list_ring (list_init demo_heap 9) 0 [1, 2]" "list_ring (list_init demo_heap 9) 9 []"
    using cl.init_frame [OF demo_heap_ring, of 9] cl.init_ring by simp_all
  from list_move_spec [OF this, of 1] show ?thesis by simp
qed

end
