(* ===== verification/MultiplexIO.thy ===== *)
theory MultiplexIO
  imports MioBuffer Lists
begin

text \<open>
  The I/O multiplexer (\<^verbatim>\<open>apps/sysbus/lib_src/multiplex_io.c\<close>): handles registered with an epoll
  instance, kept in the list \<^verbatim>\<open>io_handle_list\<close>, moved to \<^verbatim>\<open>del_handle_list\<close> when they are deleted and
  freed by the worker thread at the end of a batch of events. A handle is named by the address of
  its allocation; its intrusive list node is \<open>HandleNode\<close> of that address, so \<^verbatim>\<open>list_entry\<close> is the
  inverse of this constructor. Results of system calls (\<^verbatim>\<open>malloc\<close>, \<^verbatim>\<open>fcntl\<close>, \<^verbatim>\<open>epoll_ctl\<close>, \<^verbatim>\<open>read\<close>,
  \<^verbatim>\<open>write\<close>) are arguments; the epoll interest set is part of the state (\<open>ep_interest\<close>). Access
  through a pointer to a freed handle is the value \<open>Inl UseAfterFree\<close>. The runtime is an extensible
  record, so that callbacks can act on a larger state (the server of \<^verbatim>\<open>LocalServer\<close>).
\<close>

section \<open>Constants\<close>

definition MIO_STS_OK :: int where "MIO_STS_OK = 0"
definition MIO_ERR_INVALID_PARAM :: int where "MIO_ERR_INVALID_PARAM = - 1"
definition MIO_ERR_GENERAL_ERR :: int where "MIO_ERR_GENERAL_ERR = - 2"

definition MIO_E_IND_STS_ERROR :: u32 where "MIO_E_IND_STS_ERROR = 1"
definition MIO_E_IND_STS_HUNGUP :: u32 where "MIO_E_IND_STS_HUNGUP = 2"

definition EPOLLIN :: u32 where "EPOLLIN = 1"
definition EPOLLOUT :: u32 where "EPOLLOUT = 4"
definition EPOLLERR :: u32 where "EPOLLERR = 8"
definition EPOLLHUP :: u32 where "EPOLLHUP = 16"
definition EPOLLRDHUP :: u32 where "EPOLLRDHUP = 8192"

definition ENOMEM :: int where "ENOMEM = 12"
definition EBADF :: int where "EBADF = 9"

lemmas mio_consts = MIO_STS_OK_def MIO_ERR_INVALID_PARAM_def MIO_ERR_GENERAL_ERR_def
  MIO_E_IND_STS_ERROR_def MIO_E_IND_STS_HUNGUP_def ENOMEM_def EBADF_def
  EPOLLIN_def EPOLLOUT_def EPOLLERR_def EPOLLHUP_def EPOLLRDHUP_def

section \<open>State\<close>

datatype mio_node = IoHandleList | DelHandleList | HandleNode nat

record ('cb, 'p) multiplex_handle =
  epevt_events :: u32
  mh_fd :: int
  r_ind :: "'cb option"
  w_conf :: "'cb option"
  e_ind :: "'cb option"
  w_buf :: mio_rb
  r_param :: 'p
  w_param :: 'p

record ('cb, 'p) multiplex_io_cfg =
  cfg_fd :: int
  rd_ind :: "'cb option"
  wr_conf :: "'cb option"
  err_ind :: "'cb option"
  rd_ind_param :: 'p
  wr_conf_param :: 'p

record ('cb, 'p) multiplex_runtime =
  epfd :: int
  thread_running :: bool
  lheap :: "mio_node heap"
  handles :: "nat \<rightharpoonup> ('cb, 'p) multiplex_handle"
  ep_interest :: "int \<rightharpoonup> nat"

datatype 'p cb_arg = CbParam 'p | CbEvent u32

section \<open>Operations\<close>

definition multiplex_io_errorno_to_sts :: "int \<Rightarrow> int" where
  "multiplex_io_errorno_to_sts err_no =
     (let ret = err_no * (- 1) + MIO_ERR_GENERAL_ERR
      in if ret \<ge> MIO_ERR_GENERAL_ERR then MIO_ERR_GENERAL_ERR else ret)"

definition multiplex_io_handle_list_add ::
    "('cb, 'p, 'm) multiplex_runtime_scheme \<Rightarrow> nat \<Rightarrow> ('cb, 'p, 'm) multiplex_runtime_scheme" where
  "multiplex_io_handle_list_add rt io =
     (if list_isempty (lheap rt) (HandleNode io)
      then rt\<lparr>lheap := list_insert_before (lheap rt) IoHandleList (HandleNode io)\<rparr>
      else rt)"

text \<open>The ring is emptied and the block freed; nothing can read the ring afterwards.\<close>

definition multiplex_io_handle_list_free ::
    "('cb, 'p, 'm) multiplex_runtime_scheme \<Rightarrow> nat \<Rightarrow> ('cb, 'p, 'm) multiplex_runtime_scheme" where
  "multiplex_io_handle_list_free rt io =
     rt\<lparr>lheap := list_remove (lheap rt) (HandleNode io), handles := (handles rt)(io := None)\<rparr>"

text \<open>\<open>fd\<close> is the result of \<^verbatim>\<open>epoll_create1\<close>; \<open>alloc\<close> says whether \<^verbatim>\<open>malloc\<close> succeeded.\<close>

definition multiplex_io_open :: "int \<Rightarrow> bool \<Rightarrow> ('cb, 'p) multiplex_runtime option" where
  "multiplex_io_open fd alloc =
     (if fd \<ge> 0 \<and> alloc
      then Some \<lparr>epfd = fd, thread_running = True,
                 lheap = list_init (list_init (\<lambda>n. \<lparr>nhead = n, nnext = n, nprev = n\<rparr>) DelHandleList) IoHandleList,
                 handles = Map.empty, ep_interest = Map.empty\<rparr>
      else None)"

text \<open>
  \<open>alloc\<close> is the address \<^verbatim>\<open>malloc\<close> returned, \<open>getfl\<close> and \<open>setfl\<close> the results of the two \<^verbatim>\<open>fcntl\<close>
  calls, \<open>ctl\<close> that of \<^verbatim>\<open>epoll_ctl\<close>. The bytes of a fresh ring are whatever the block held.
\<close>

definition multiplex_io_handle_add ::
    "('cb, 'p, 'm) multiplex_runtime_scheme option \<Rightarrow> ('cb, 'p) multiplex_io_cfg option \<Rightarrow>
     (nat \<times> mem) option \<Rightarrow> int \<Rightarrow> int \<Rightarrow> int \<Rightarrow>
     nat option \<times> ('cb, 'p, 'm) multiplex_runtime_scheme option" where
  "multiplex_io_handle_add handle cfg alloc getfl setfl ctl =
     (case (handle, cfg, alloc) of
        (Some rt, Some c, Some (io, m)) \<Rightarrow>
          (if epfd rt \<ge> 0
           then (if getfl \<noteq> - 1 \<and> setfl \<noteq> - 1
                 then (let h = \<lparr>epevt_events = EPOLLIN OR EPOLLOUT OR EPOLLRDHUP OR EPOLLERR OR EPOLLHUP,
                                mh_fd = cfg_fd c, r_ind = rd_ind c, w_conf = wr_conf c, e_ind = err_ind c,
                                w_buf = \<lparr>r_idx = 0, w_idx = 0, rb_data = m\<rparr>,
                                r_param = rd_ind_param c, w_param = wr_conf_param c\<rparr>
                       in if ctl \<noteq> 0 then (None, Some rt)
                          else (Some io,
                            Some (multiplex_io_handle_list_add
                              (rt\<lparr>lheap := list_init (lheap rt) (HandleNode io),
                                  handles := (handles rt)(io \<mapsto> h),
                                  ep_interest := (ep_interest rt)(cfg_fd c \<mapsto> io)\<rparr>) io)))
                 else (None, Some rt))
           else (None, Some rt))
      | _ \<Rightarrow> (None, handle))"

text \<open>
  The guard the other operations share: both pointers non-null and the handle in \<^verbatim>\<open>io_handle_list\<close>.
  Reading the node of a freed handle is a fault.
\<close>

definition mio_live :: "('cb, 'p, 'm) multiplex_runtime_scheme option \<Rightarrow> nat option \<Rightarrow>
    c_fault + (('cb, 'p, 'm) multiplex_runtime_scheme \<times> nat \<times> ('cb, 'p) multiplex_handle) option" where
  "mio_live handle io =
     (case (handle, io) of
        (Some rt, Some i) \<Rightarrow>
          (case handles rt i of
             None \<Rightarrow> Inl UseAfterFree
           | Some h \<Rightarrow> Inr (if list_contains_node (lheap rt) IoHandleList (HandleNode i)
                            then Some (rt, i, h) else None))
      | _ \<Rightarrow> Inr None)"

definition multiplex_io_handle_del :: "('cb, 'p, 'm) multiplex_runtime_scheme option \<Rightarrow> nat option \<Rightarrow>
    c_fault + (int \<times> ('cb, 'p, 'm) multiplex_runtime_scheme option)" where
  "multiplex_io_handle_del handle io =
     (case mio_live handle io of
        Inl f \<Rightarrow> Inl f
      | Inr None \<Rightarrow> Inr (MIO_ERR_INVALID_PARAM, handle)
      | Inr (Some (rt, i, h)) \<Rightarrow>
          Inr (MIO_STS_OK, Some (rt\<lparr>lheap := list_insert_before (list_remove (lheap rt) (HandleNode i))
                                            DelHandleList (HandleNode i)\<rparr>)))"

datatype ('cb, 'p) ctl_param = CtlNull | CtlCfg "('cb, 'p) multiplex_io_cfg" | CtlLen int

datatype mio_ctl_op = MIO_CTL_OP_GET_CFG | MIO_CTL_OP_SET_CFG | MIO_CTL_OP_RESET_WRITE_QUEUE
  | MIO_CTL_OP_GET_WRITE_QUEUE_LEN | MIO_CTL_OP_OTHER

text \<open>The parameter is an in/out pointer: its value after the call is returned.\<close>

definition multiplex_io_handle_ctl :: "('cb, 'p, 'm) multiplex_runtime_scheme option \<Rightarrow> nat option \<Rightarrow>
    mio_ctl_op \<Rightarrow> ('cb, 'p) ctl_param \<Rightarrow>
    c_fault + (int \<times> ('cb, 'p) ctl_param \<times> ('cb, 'p, 'm) multiplex_runtime_scheme option)" where
  "multiplex_io_handle_ctl handle io oper param =
     (case mio_live handle io of
        Inl f \<Rightarrow> Inl f
      | Inr None \<Rightarrow> Inr (MIO_ERR_INVALID_PARAM, param, handle)
      | Inr (Some (rt, i, h)) \<Rightarrow>
          (case (oper, param) of
             (MIO_CTL_OP_GET_CFG, CtlNull) \<Rightarrow> Inr (MIO_ERR_INVALID_PARAM, param, handle)
           | (MIO_CTL_OP_GET_CFG, CtlCfg c) \<Rightarrow>
               Inr (MIO_STS_OK, CtlCfg \<lparr>cfg_fd = mh_fd h, rd_ind = r_ind h, wr_conf = w_conf h,
                 err_ind = e_ind h, rd_ind_param = r_param h, wr_conf_param = w_param h\<rparr>, handle)
           | (MIO_CTL_OP_SET_CFG, CtlNull) \<Rightarrow> Inr (MIO_ERR_INVALID_PARAM, param, handle)
           | (MIO_CTL_OP_SET_CFG, CtlCfg c) \<Rightarrow>
               Inr (MIO_STS_OK, param, Some (rt\<lparr>handles := (handles rt)(i \<mapsto>
                 h\<lparr>mh_fd := cfg_fd c, r_ind := rd_ind c, w_conf := wr_conf c, e_ind := err_ind c,
                   r_param := rd_ind_param c, w_param := wr_conf_param c\<rparr>)\<rparr>))
           | (MIO_CTL_OP_GET_WRITE_QUEUE_LEN, CtlNull) \<Rightarrow> Inr (MIO_ERR_INVALID_PARAM, param, handle)
           | (MIO_CTL_OP_GET_WRITE_QUEUE_LEN, CtlLen n) \<Rightarrow>
               Inr (MIO_STS_OK, CtlLen (sint (multiplex_io_rb_get_data_size (w_buf h))), handle)
           | (MIO_CTL_OP_RESET_WRITE_QUEUE, _) \<Rightarrow>
               Inr (MIO_STS_OK, param, Some (rt\<lparr>handles := (handles rt)(i \<mapsto>
                 h\<lparr>w_buf := multiplex_io_buf_list_free (w_buf h)\<rparr>)\<rparr>))
           | (MIO_CTL_OP_OTHER, _) \<Rightarrow> Inr (MIO_ERR_INVALID_PARAM, param, handle)
           | _ \<Rightarrow> Inl TypeConfusion))"

text \<open>\<open>data = None\<close> is a null pointer; \<open>ctl\<close> and \<open>err\<close> are the result and errno of \<^verbatim>\<open>epoll_ctl\<close>.\<close>

definition multiplex_io_write :: "('cb, 'p, 'm) multiplex_runtime_scheme option \<Rightarrow> nat option \<Rightarrow>
    u8 list option \<Rightarrow> int \<Rightarrow> int \<Rightarrow> int \<Rightarrow>
    c_fault + (int \<times> ('cb, 'p, 'm) multiplex_runtime_scheme option)" where
  "multiplex_io_write handle io data data_len ctl err =
     (case mio_live handle io of
        Inl f \<Rightarrow> Inl f
      | Inr None \<Rightarrow> Inr (MIO_ERR_INVALID_PARAM, handle)
      | Inr (Some (rt, i, h)) \<Rightarrow>
          (case data of
             None \<Rightarrow> Inr (MIO_ERR_INVALID_PARAM, handle)
           | Some bs \<Rightarrow>
               (if data_len > 0
                then (if mh_fd h \<ge> 0
                      then (let (n, rb) = multiplex_io_rb_write_data (w_buf h) bs (word_of_int data_len);
                                h1 = h\<lparr>w_buf := rb\<rparr>
                            in if sint n = data_len
                               then Inr (if ctl = 0 then MIO_STS_OK else multiplex_io_errorno_to_sts err,
                                         Some (rt\<lparr>handles := (handles rt)(i \<mapsto>
                                           h1\<lparr>epevt_events := epevt_events h OR EPOLLOUT\<rparr>)\<rparr>))
                               else Inr (multiplex_io_errorno_to_sts ENOMEM,
                                         Some (rt\<lparr>handles := (handles rt)(i \<mapsto> h1)\<rparr>)))
                      else Inr (multiplex_io_errorno_to_sts EBADF, handle))
                else Inr (MIO_ERR_INVALID_PARAM, handle))))"

definition multiplex_io_get_fd :: "('cb, 'p, 'm) multiplex_runtime_scheme \<Rightarrow> nat option \<Rightarrow> c_fault + int" where
  "multiplex_io_get_fd rt io =
     (case io of None \<Rightarrow> Inr (- 1)
      | Some i \<Rightarrow> (case handles rt i of None \<Rightarrow> Inl UseAfterFree | Some h \<Rightarrow> Inr (mh_fd h)))"

text \<open>\<open>res\<close> and \<open>err\<close> are the result and errno of \<^verbatim>\<open>read\<close>; \<open>buf\<close> says whether the buffer is non-null.\<close>

definition multiplex_io_read :: "('cb, 'p, 'm) multiplex_runtime_scheme option \<Rightarrow> nat option \<Rightarrow>
    bool \<Rightarrow> int \<Rightarrow> int \<Rightarrow> int \<Rightarrow> c_fault + int" where
  "multiplex_io_read handle io buf buf_size res err =
     (case mio_live handle io of
        Inl f \<Rightarrow> Inl f
      | Inr None \<Rightarrow> Inr MIO_ERR_INVALID_PARAM
      | Inr (Some (rt, i, h)) \<Rightarrow>
          (if buf \<and> buf_size > 0
           then (if mh_fd h \<ge> 0
                 then Inr (if res < 0 then multiplex_io_errorno_to_sts err else res)
                 else Inr (multiplex_io_errorno_to_sts EBADF))
           else Inr MIO_ERR_INVALID_PARAM))"

section \<open>The worker thread\<close>

text \<open>
  One event of \<^verbatim>\<open>epoll_wait\<close>: the handle pointer registered with it, its mask, and what the two
  \<^verbatim>\<open>write\<close> calls of the drain return should it come to them.
\<close>

record mio_event =
  ev_ptr :: nat
  ev_events :: u32
  ev_n1 :: int
  ev_n2 :: int

text \<open>
  \<open>call\<close> gives the effect of a callback: it gets the handle and the argument the code passes, and
  may change the runtime. After a callback the handle is read again from memory.
\<close>

type_synonym ('cb, 'p, 's) callbacks = "'cb \<Rightarrow> nat \<Rightarrow> 'p cb_arg \<Rightarrow> 's \<Rightarrow> c_fault + 's"

definition mio_call :: "('cb, 'p, 's) callbacks \<Rightarrow> 'cb option \<Rightarrow> nat \<Rightarrow> 'p cb_arg \<Rightarrow> 's \<Rightarrow> c_fault + 's" where
  "mio_call call cb i arg s = (case cb of None \<Rightarrow> Inr s | Some c \<Rightarrow> call c i arg s)"

definition mio_with_handle ::
    "('cb, 'p, 'm) multiplex_runtime_scheme \<Rightarrow> nat \<Rightarrow> (('cb, 'p) multiplex_handle \<Rightarrow> c_fault + 'r) \<Rightarrow> c_fault + 'r" where
  "mio_with_handle rt i f = (case handles rt i of None \<Rightarrow> Inl UseAfterFree | Some h \<Rightarrow> f h)"

text \<open>The \<^verbatim>\<open>EPOLLIN\<close> branch: \<open>tmp\<close> is the event mask being computed.\<close>

definition mio_event_in :: "('cb, 'p, ('cb, 'p, 'm) multiplex_runtime_scheme) callbacks \<Rightarrow>
    ('cb, 'p, 'm) multiplex_runtime_scheme \<Rightarrow> mio_event \<Rightarrow> u32 \<Rightarrow>
    c_fault + (u32 \<times> ('cb, 'p, 'm) multiplex_runtime_scheme)" where
  "mio_event_in call rt ev tmp =
     (if ev_events ev AND EPOLLIN \<noteq> 0
      then mio_with_handle rt (ev_ptr ev) (\<lambda>h.
             case r_ind h of
               Some cb \<Rightarrow> bind_fault (call cb (ev_ptr ev) (CbParam (r_param h)) rt)
                           (\<lambda>rt'. Inr (tmp OR EPOLLIN, rt'))
             | None \<Rightarrow> Inr (tmp AND NOT EPOLLIN, rt))
      else Inr (tmp, rt))"

definition mio_event_out :: "('cb, 'p, ('cb, 'p, 'm) multiplex_runtime_scheme) callbacks \<Rightarrow>
    ('cb, 'p, 'm) multiplex_runtime_scheme \<Rightarrow> mio_event \<Rightarrow> u32 \<Rightarrow>
    c_fault + (u32 \<times> ('cb, 'p, 'm) multiplex_runtime_scheme)" where
  "mio_event_out call rt ev tmp =
     (if ev_events ev AND EPOLLOUT \<noteq> 0
      then mio_with_handle rt (ev_ptr ev) (\<lambda>h.
             let (out, sent, rb) = mio_drain (w_buf h) (ev_n1 ev) (ev_n2 ev);
                 rt1 = rt\<lparr>handles := (handles rt)(ev_ptr ev \<mapsto> h\<lparr>w_buf := rb\<rparr>)\<rparr>
             in case out of
                  DrainIdle \<Rightarrow> Inr (tmp AND NOT EPOLLOUT, rt)
                | DrainDone \<Rightarrow> bind_fault (mio_call call (w_conf h) (ev_ptr ev) (CbParam (w_param h)) rt1)
                                (\<lambda>rt2. Inr (tmp AND NOT EPOLLOUT, rt2))
                | DrainPending \<Rightarrow> Inr (tmp OR EPOLLOUT, rt1))
      else Inr (tmp, rt))"

text \<open>The mask is stored (and passed to \<^verbatim>\<open>epoll_ctl\<close>, whose result is ignored) when it changed.\<close>

definition mio_event_mask :: "('cb, 'p, 'm) multiplex_runtime_scheme \<Rightarrow> nat \<Rightarrow> u32 \<Rightarrow>
    c_fault + ('cb, 'p, 'm) multiplex_runtime_scheme" where
  "mio_event_mask rt i tmp =
     mio_with_handle rt i (\<lambda>h.
       let tmp' = (if r_idx (w_buf h) \<noteq> w_idx (w_buf h) then tmp OR EPOLLOUT else tmp)
       in Inr (if tmp' \<noteq> epevt_events h
               then rt\<lparr>handles := (handles rt)(i \<mapsto> h\<lparr>epevt_events := tmp'\<rparr>)\<rparr> else rt))"

definition mio_event_err :: "('cb, 'p, ('cb, 'p, 'm) multiplex_runtime_scheme) callbacks \<Rightarrow>
    ('cb, 'p, 'm) multiplex_runtime_scheme \<Rightarrow> mio_event \<Rightarrow> c_fault + ('cb, 'p, 'm) multiplex_runtime_scheme" where
  "mio_event_err call rt ev =
     (let t1 = (if ev_events ev AND (EPOLLRDHUP OR EPOLLHUP) \<noteq> 0 then MIO_E_IND_STS_HUNGUP else 0);
          t2 = (if ev_events ev AND EPOLLERR \<noteq> 0 then t1 OR MIO_E_IND_STS_ERROR else t1)
      in if t2 \<noteq> 0
         then mio_with_handle rt (ev_ptr ev) (\<lambda>h. mio_call call (e_ind h) (ev_ptr ev) (CbEvent t2) rt)
         else Inr rt)"

definition mio_process_event :: "('cb, 'p, ('cb, 'p, 'm) multiplex_runtime_scheme) callbacks \<Rightarrow>
    ('cb, 'p, 'm) multiplex_runtime_scheme \<Rightarrow> mio_event \<Rightarrow> c_fault + ('cb, 'p, 'm) multiplex_runtime_scheme" where
  "mio_process_event call rt ev =
     mio_with_handle rt (ev_ptr ev) (\<lambda>h.
       if list_contains_node (lheap rt) IoHandleList (HandleNode (ev_ptr ev))
       then bind_fault (mio_event_in call rt ev (epevt_events h)) (\<lambda>(tmp1, rt1).
            bind_fault (mio_event_out call rt1 ev tmp1) (\<lambda>(tmp2, rt2).
            bind_fault (mio_event_mask rt2 (ev_ptr ev) tmp2) (\<lambda>rt3.
            mio_event_err call rt3 ev)))
       else Inr rt)"

fun mio_process_events :: "('cb, 'p, ('cb, 'p, 'm) multiplex_runtime_scheme) callbacks \<Rightarrow>
    ('cb, 'p, 'm) multiplex_runtime_scheme \<Rightarrow> mio_event list \<Rightarrow> c_fault + ('cb, 'p, 'm) multiplex_runtime_scheme" where
  "mio_process_events call rt [] = Inr rt"
| "mio_process_events call rt (ev # evs) =
     bind_fault (mio_process_event call rt ev) (\<lambda>rt'. mio_process_events call rt' evs)"

text \<open>
  The loops that empty a list of handles: the first node is taken out, its descriptor removed from
  the epoll set and its handle freed. The first node not being that of a handle, or that handle being
  freed already, are faults; a list that never gets empty gives no result.
\<close>

partial_function (option) mio_reap :: "mio_node \<Rightarrow> ('cb, 'p, 'm) multiplex_runtime_scheme \<Rightarrow>
    (c_fault + ('cb, 'p, 'm) multiplex_runtime_scheme) option" where
  "mio_reap l rt =
     (if list_isempty (lheap rt) l then Some (Inr rt)
      else (case nnext (lheap rt l) of
              HandleNode i \<Rightarrow>
                (case handles rt i of
                   None \<Rightarrow> Some (Inl UseAfterFree)
                 | Some h \<Rightarrow> mio_reap l (multiplex_io_handle_list_free
                     (rt\<lparr>lheap := list_remove (lheap rt) (HandleNode i),
                         ep_interest := (ep_interest rt)(mh_fd h := None)\<rparr>) i))
            | _ \<Rightarrow> Some (Inl TypeConfusion)))"

text \<open>One round of the thread: a batch of at most 20 events, then the deferred deletions.\<close>

definition multiplex_io_round :: "('cb, 'p, ('cb, 'p, 'm) multiplex_runtime_scheme) callbacks \<Rightarrow>
    ('cb, 'p, 'm) multiplex_runtime_scheme \<Rightarrow> mio_event list \<Rightarrow>
    (c_fault + ('cb, 'p, 'm) multiplex_runtime_scheme) option" where
  "multiplex_io_round call rt evs =
     (case mio_process_events call rt evs of
        Inl f \<Rightarrow> Some (Inl f)
      | Inr rt' \<Rightarrow> mio_reap DelHandleList rt')"

text \<open>
  The thread until \<^verbatim>\<open>epoll_wait\<close> fails or the environment stops it; the batches are what the calls
  return, \<open>None\<close> standing for a negative result.
\<close>

fun multiplex_io_thread :: "('cb, 'p, ('cb, 'p, 'm) multiplex_runtime_scheme) callbacks \<Rightarrow>
    ('cb, 'p, 'm) multiplex_runtime_scheme \<Rightarrow> mio_event list option list \<Rightarrow>
    (c_fault + ('cb, 'p, 'm) multiplex_runtime_scheme) option" where
  "multiplex_io_thread call rt [] = Some (Inr rt)"
| "multiplex_io_thread call rt (b # bs) =
     (if thread_running rt
      then (case b of
              None \<Rightarrow> Some (Inr rt)
            | Some evs \<Rightarrow>
                (case multiplex_io_round call rt evs of
                   Some (Inr rt') \<Rightarrow> multiplex_io_thread call rt' bs
                 | r \<Rightarrow> r))
      else Some (Inr rt))"

text \<open>
  \<^verbatim>\<open>multiplex_io_close\<close>, after the thread has been joined: both lists are emptied. The runtime block
  itself is freed then; the returned record is its last state.
\<close>

definition multiplex_io_close :: "('cb, 'p, 'm) multiplex_runtime_scheme option \<Rightarrow>
    (c_fault + (int \<times> ('cb, 'p, 'm) multiplex_runtime_scheme option)) option" where
  "multiplex_io_close handle =
     (case handle of
        None \<Rightarrow> Some (Inr (MIO_ERR_INVALID_PARAM, None))
      | Some rt \<Rightarrow>
          (case mio_reap DelHandleList (rt\<lparr>thread_running := False\<rparr>) of
             Some (Inr rt1) \<Rightarrow>
               (case mio_reap IoHandleList rt1 of
                  Some (Inr rt2) \<Rightarrow> Some (Inr (MIO_STS_OK, Some rt2))
                | Some (Inl f) \<Rightarrow> Some (Inl f)
                | None \<Rightarrow> None)
           | Some (Inl f) \<Rightarrow> Some (Inl f)
           | None \<Rightarrow> None))"

section \<open>The registry invariant\<close>

text \<open>
  \<open>mio_wf rt ios dels\<close>: the two lists are well linked, hold the handles \<open>ios\<close> and \<open>dels\<close>, share none,
  and the allocated handles are exactly those.
\<close>

definition mio_wf :: "('cb, 'p, 'm) multiplex_runtime_scheme \<Rightarrow> nat list \<Rightarrow> nat list \<Rightarrow> bool" where
  "mio_wf rt ios dels \<longleftrightarrow>
     list_ring (lheap rt) IoHandleList (map HandleNode ios) \<and>
     list_ring (lheap rt) DelHandleList (map HandleNode dels) \<and>
     set ios \<inter> set dels = {} \<and> dom (handles rt) = set ios \<union> set dels"

definition mio_inv :: "('cb, 'p, 'm) multiplex_runtime_scheme \<Rightarrow> bool" where
  "mio_inv rt \<longleftrightarrow> (\<exists>ios dels. mio_wf rt ios dels)"

text \<open>All write buffers are well formed.\<close>

definition mio_bufs :: "('cb, 'p, 'm) multiplex_runtime_scheme \<Rightarrow> bool" where
  "mio_bufs rt \<longleftrightarrow> (\<forall>i h. handles rt i = Some h \<longrightarrow> rb_wf (w_buf h))"

lemma mio_nodes_disjoint:
  "set ios \<inter> set dels = {} \<Longrightarrow>
   set (IoHandleList # map HandleNode ios) \<inter> set (DelHandleList # map HandleNode dels) = {}"
  by auto

lemma mio_wf_contains:
  assumes "mio_wf rt ios dels" "i \<in> dom (handles rt)"
  shows "list_contains_node (lheap rt) IoHandleList (HandleNode i) \<longleftrightarrow> i \<in> set ios"
proof -
  have io: "list_ring (lheap rt) IoHandleList (map HandleNode ios)"
    and del: "list_ring (lheap rt) DelHandleList (map HandleNode dels)"
    using assms(1) by (simp_all add: mio_wf_def)
  consider "i \<in> set ios" | "i \<notin> set ios" "i \<in> set dels" using assms by (auto simp: mio_wf_def)
  then show ?thesis
  proof cases
    case 1
    then show ?thesis using cl.contains_ring [OF io io, of "HandleNode i"] by simp
  next
    case 2
    then show ?thesis using cl.contains_ring [OF io del, of "HandleNode i"] by simp
  qed
qed

lemma mio_wf_handle_upd:
  "mio_wf rt ios dels \<Longrightarrow> i \<in> dom (handles rt) \<Longrightarrow>
   mio_wf (rt\<lparr>handles := (handles rt)(i \<mapsto> h)\<rparr>) ios dels"
  by (auto simp: mio_wf_def)

lemma mio_wf_cong:
  "lheap rt' = lheap rt \<Longrightarrow> dom (handles rt') = dom (handles rt) \<Longrightarrow> mio_wf rt' ios dels = mio_wf rt ios dels"
  by (simp add: mio_wf_def)

lemma remove1_map_inj: "inj f \<Longrightarrow> remove1 (f x) (map f xs) = map f (remove1 x xs)"
  by (induction xs) (auto simp: inj_def)

lemma inj_HandleNode: "inj HandleNode"
  by (simp add: inj_def)

lemma mio_live_io:
  assumes "mio_wf rt ios dels" "i \<in> set ios" "handles rt i = Some h"
  shows "mio_live (Some rt) (Some i) = Inr (Some (rt, i, h))"
  using mio_wf_contains [OF assms(1), of i] assms by (auto simp: mio_live_def)

lemma mio_live_del:
  assumes "mio_wf rt ios dels" "i \<in> set dels"
  shows "mio_live (Some rt) (Some i) = Inr None"
proof -
  obtain h where h: "handles rt i = Some h" using assms by (auto simp: mio_wf_def)
  have "i \<notin> set ios" using assms by (auto simp: mio_wf_def)
  then show ?thesis using mio_wf_contains [OF assms(1), of i] h by (auto simp: mio_live_def)
qed

lemma mio_wf_open: "multiplex_io_open fd a = Some rt \<Longrightarrow> mio_wf rt [] [] \<and> mio_bufs rt"
  by (auto simp: multiplex_io_open_def mio_wf_def mio_bufs_def list_ring_def list_init_def node_upd_defs
      split: if_splits)

text \<open>Deleting moves the handle to the deletion list and keeps it allocated.\<close>

lemma handle_del_io:
  assumes wf: "mio_wf rt ios dels" and i: "i \<in> set ios"
  obtains rt' where "multiplex_io_handle_del (Some rt) (Some i) = Inr (MIO_STS_OK, Some rt')"
    and "mio_wf rt' (remove1 i ios) (dels @ [i])" and "rt' = rt\<lparr>lheap := lheap rt'\<rparr>"
proof
  obtain h where h: "handles rt i = Some h" using wf i by (auto simp: mio_wf_def)
  let ?h = "list_insert_before (list_remove (lheap rt) (HandleNode i)) DelHandleList (HandleNode i)"
  show "multiplex_io_handle_del (Some rt) (Some i) = Inr (MIO_STS_OK, Some (rt\<lparr>lheap := ?h\<rparr>))"
    using mio_live_io [OF wf i h] by (simp add: multiplex_io_handle_del_def)
  have "list_ring ?h IoHandleList (map HandleNode (remove1 i ios))"
    and "list_ring ?h DelHandleList (map HandleNode (dels @ [i]))"
    using cl.move_ring(1,2) [of "lheap rt" IoHandleList "map HandleNode ios" DelHandleList
        "map HandleNode dels" "HandleNode i"] wf i
    by (auto simp: mio_wf_def remove1_map_inj [OF inj_HandleNode])
  moreover have "distinct ios" using wf cl.ring_distinct distinct_map unfolding mio_wf_def by fastforce
  ultimately show "mio_wf (rt\<lparr>lheap := ?h\<rparr>) (remove1 i ios) (dels @ [i])"
    using wf i by (auto simp: mio_wf_def)
qed simp

lemma handle_del_again:
  assumes "mio_wf rt ios dels" "i \<in> set dels"
  shows "multiplex_io_handle_del (Some rt) (Some i) = Inr (MIO_ERR_INVALID_PARAM, Some rt)"
  using mio_live_del [OF assms] by (simp add: multiplex_io_handle_del_def)

text \<open>Registering appends a fresh handle, or changes nothing.\<close>

lemma handle_add_ok:
  assumes wf: "mio_wf rt ios dels" and i: "i \<notin> dom (handles rt)"
    and res: "multiplex_io_handle_add (Some rt) (Some c) (Some (i, m)) getfl setfl ctl = (Some j, Some rt')"
  shows "j = i \<and> mio_wf rt' (ios @ [i]) dels \<and> (mio_bufs rt \<longrightarrow> mio_bufs rt') \<and>
    (\<forall>k. k \<noteq> i \<longrightarrow> handles rt' k = handles rt k) \<and>
    (\<exists>h. handles rt' i = Some h \<and> mh_fd h = cfg_fd c \<and> r_ind h = rd_ind c \<and> w_conf h = wr_conf c \<and>
       e_ind h = err_ind c \<and> r_param h = rd_ind_param c \<and> rb_contents (w_buf h) = []) \<and>
    rt' = rt\<lparr>lheap := lheap rt', handles := handles rt', ep_interest := (ep_interest rt)(cfg_fd c \<mapsto> i)\<rparr>"
proof -
  let ?h0 = "list_init (lheap rt) (HandleNode i)"
  let ?h1 = "list_insert_before ?h0 IoHandleList (HandleNode i)"
  have new: "HandleNode i \<notin> set (IoHandleList # map HandleNode ios)"
    "HandleNode i \<notin> set (DelHandleList # map HandleNode dels)" using wf i by (auto simp: mio_wf_def)
  have r: "list_ring (lheap rt) IoHandleList (map HandleNode ios)"
    "list_ring (lheap rt) DelHandleList (map HandleNode dels)" using wf by (simp_all add: mio_wf_def)
  note r0 = cl.init_frame [OF r(1) new(1)] cl.init_frame [OF r(2) new(2)]
    cl.init_ring [of "lheap rt" "HandleNode i"]
  have r1: "list_ring ?h1 IoHandleList (map HandleNode ios @ [HandleNode i])"
    using r0(1) new(1) by (rule cl.before_ring)
  have "set (DelHandleList # map HandleNode dels) \<inter> set (HandleNode i # IoHandleList # map HandleNode ios) = {}"
    using wf new by (auto simp: mio_wf_def)
  then have r2: "list_ring ?h1 DelHandleList (map HandleNode dels)"
    by (rule cl.before_frame [OF r0(1) r0(2)])
  have e: "list_isempty ?h0 (HandleNode i)" using cl.isempty_ring [OF r0(3)] by simp
  have fin: "rb_wf \<lparr>r_idx = 0, w_idx = 0, rb_data = m\<rparr>" "rb_contents \<lparr>r_idx = 0, w_idx = 0, rb_data = m\<rparr> = []"
    by (simp_all add: rb_wf_def rb_contents_def)
  have dm: "\<exists>y. handles rt x = Some y" if "x \<in> set ios" for x
    using wf that unfolding mio_wf_def by blast
  show ?thesis using res e r1 r2 wf i fin dm
    by (auto simp: multiplex_io_handle_add_def multiplex_io_handle_list_add_def mio_wf_def mio_bufs_def Let_def
        split: if_splits)
qed

lemma handle_add_fail:
  assumes "multiplex_io_handle_add handle cfg alloc getfl setfl ctl = (None, handle')"
  shows "handle' = handle"
  using assms by (auto simp: multiplex_io_handle_add_def Let_def split: option.splits prod.splits if_splits)

lemma restrict_map_UNIV: "m |` UNIV = m"
  by (rule ext) (simp add: restrict_map_def)

text \<open>Freeing an isolated node changes no links.\<close>

lemma remove_isolated:
  assumes "list_ring h n []"
  shows "list_remove h n = h"
proof
  fix x
  have "nhead (h n) = n" "nnext (h n) = n" "nprev (h n) = n" using assms by (auto simp: list_ring_def)
  then show "list_remove h n x = h x"
    by (cases "h n") (simp add: list_remove_def list_init_def node_upd_defs Let_def)
qed

text \<open>What emptying a list removes from the epoll interest set: the descriptors of its handles.\<close>

definition ep_forget :: "(nat \<rightharpoonup> ('cb, 'p) multiplex_handle) \<Rightarrow> nat list \<Rightarrow> (int \<rightharpoonup> nat) \<Rightarrow> int \<rightharpoonup> nat" where
  "ep_forget hs xs ep = (\<lambda>fd. if \<exists>i \<in> set xs. \<exists>h. hs i = Some h \<and> mh_fd h = fd then None else ep fd)"

lemma mio_reap_list:
  assumes "list_ring (lheap rt) l (map HandleNode xs)" "list_ring (lheap rt) k (map HandleNode ys)"
    and "l \<notin> range HandleNode" "k \<notin> range HandleNode" "l \<noteq> k" "set xs \<inter> set ys = {}"
    and "set xs \<subseteq> dom (handles rt)"
  shows "\<exists>h'. mio_reap l rt = Some (Inr (rt\<lparr>lheap := h', handles := handles rt |` (- set xs),
      ep_interest := ep_forget (handles rt) xs (ep_interest rt)\<rparr>)) \<and>
    list_ring h' l [] \<and> list_ring h' k (map HandleNode ys)"
  using assms
proof (induction xs arbitrary: rt)
  case Nil
  have "list_isempty (lheap rt) l" using cl.isempty_ring Nil.prems(1) by fastforce
  then show ?case using Nil.prems(1,2)
    by (intro exI [of _ "lheap rt"], subst mio_reap.simps) (simp add: ep_forget_def restrict_map_UNIV)
next
  case (Cons i xs)
  obtain h where h: "handles rt i = Some h" using Cons.prems(7) by auto
  let ?h1 = "list_remove (lheap rt) (HandleNode i)"
  let ?rt1 = "rt\<lparr>ep_interest := (ep_interest rt)(mh_fd h := None), lheap := ?h1,
      handles := (handles rt)(i := None)\<rparr>"
  have ring: "list_ring (lheap rt) l ([] @ HandleNode i # map HandleNode xs)" using Cons.prems(1) by simp
  have nonempty: "\<not> list_isempty (lheap rt) l" using cl.isempty_ring [OF Cons.prems(1)] by simp
  have nxt: "nnext (lheap rt l) = HandleNode i" using Cons.prems(1) by (simp add: list_ring_def)
  have dist: "i \<notin> set xs" using cl.ring_distinct [OF ring] by auto
  have dj: "set (k # map HandleNode ys) \<inter> set (l # map HandleNode (i # xs)) = {}"
    using Cons.prems(3-6) by auto
  have rings: "list_ring ?h1 l (map HandleNode xs)" "list_ring ?h1 (HandleNode i) []"
    "list_ring ?h1 k (map HandleNode ys)"
    using cl.remove_ring [OF ring] cl.remove_single [OF ring]
      cl.remove_frame [OF Cons.prems(1) _ Cons.prems(2) dj, of "HandleNode i"] by simp_all
  have step: "mio_reap l rt = mio_reap l ?rt1"
    using nonempty nxt h remove_isolated [OF rings(2)]
    by (subst mio_reap.simps) (simp add: multiplex_io_handle_list_free_def)
  have "\<exists>h'. mio_reap l ?rt1 = Some (Inr (?rt1\<lparr>lheap := h', handles := handles ?rt1 |` (- set xs),
      ep_interest := ep_forget (handles ?rt1) xs (ep_interest ?rt1)\<rparr>)) \<and>
    list_ring h' l [] \<and> list_ring h' k (map HandleNode ys)"
    by (rule Cons.IH) (use rings Cons.prems(3-7) dist in \<open>auto simp: subset_iff domIff\<close>)
  then obtain h' where h': "mio_reap l ?rt1 = Some (Inr (?rt1\<lparr>lheap := h', handles := handles ?rt1 |` (- set xs),
      ep_interest := ep_forget (handles ?rt1) xs (ep_interest ?rt1)\<rparr>))"
    "list_ring h' l []" "list_ring h' k (map HandleNode ys)" by blast
  have "handles ?rt1 |` (- set xs) = handles rt |` (- set (i # xs))"
    by (rule ext) (auto simp: restrict_map_def)
  moreover have "ep_forget (handles ?rt1) xs (ep_interest ?rt1) = ep_forget (handles rt) (i # xs) (ep_interest rt)"
    using dist h by (auto simp: ep_forget_def fun_eq_iff)
  ultimately show ?case using h' step by auto
qed

lemma mio_reap_deleted:
  assumes wf: "mio_wf rt ios dels"
  obtains rt' where "mio_reap DelHandleList rt = Some (Inr rt')" "mio_wf rt' ios []"
    and "rt' = rt\<lparr>lheap := lheap rt', handles := handles rt |` (- set dels),
      ep_interest := ep_forget (handles rt) dels (ep_interest rt)\<rparr>"
proof -
  have "\<exists>h'. mio_reap DelHandleList rt = Some (Inr (rt\<lparr>lheap := h', handles := handles rt |` (- set dels),
      ep_interest := ep_forget (handles rt) dels (ep_interest rt)\<rparr>)) \<and>
    list_ring h' DelHandleList [] \<and> list_ring h' IoHandleList (map HandleNode ios)"
    using wf by (intro mio_reap_list) (auto simp: mio_wf_def)
  then obtain h' where "mio_reap DelHandleList rt = Some (Inr (rt\<lparr>lheap := h', handles := handles rt |` (- set dels),
      ep_interest := ep_forget (handles rt) dels (ep_interest rt)\<rparr>))"
    "list_ring h' DelHandleList []" "list_ring h' IoHandleList (map HandleNode ios)" by auto
  moreover have "dom (handles rt |` (- set dels)) = set ios" using wf by (auto simp: mio_wf_def)
  ultimately show ?thesis
    by (intro that [of "rt\<lparr>lheap := h', handles := handles rt |` (- set dels),
      ep_interest := ep_forget (handles rt) dels (ep_interest rt)\<rparr>"]) (simp_all add: mio_wf_def)
qed

lemma mio_reap_registered:
  assumes wf: "mio_wf rt ios []"
  obtains rt' where "mio_reap IoHandleList rt = Some (Inr rt')" "mio_wf rt' [] []"
    and "rt' = rt\<lparr>lheap := lheap rt', handles := Map.empty,
      ep_interest := ep_forget (handles rt) ios (ep_interest rt)\<rparr>"
proof -
  have "\<exists>h'. mio_reap IoHandleList rt = Some (Inr (rt\<lparr>lheap := h', handles := handles rt |` (- set ios),
      ep_interest := ep_forget (handles rt) ios (ep_interest rt)\<rparr>)) \<and>
    list_ring h' IoHandleList [] \<and> list_ring h' DelHandleList (map HandleNode [])"
    using wf by (intro mio_reap_list) (auto simp: mio_wf_def)
  moreover have "handles rt |` (- set ios) = Map.empty"
    using wf by (auto simp: mio_wf_def restrict_map_def fun_eq_iff domIff)
  ultimately show ?thesis using that by (auto simp: mio_wf_def)
qed

lemma multiplex_io_close_wf:
  assumes wf: "mio_wf rt ios dels"
  obtains rt' where "multiplex_io_close (Some rt) = Some (Inr (MIO_STS_OK, Some rt'))"
    and "handles rt' = Map.empty" "mio_wf rt' [] []"
    and "\<forall>i h. handles rt i = Some h \<longrightarrow> ep_interest rt' (mh_fd h) = None"
proof -
  let ?rt = "rt\<lparr>thread_running := False\<rparr>"
  have wf0: "mio_wf ?rt ios dels" using wf by (simp add: mio_wf_def)
  obtain rt1 where r1: "mio_reap DelHandleList ?rt = Some (Inr rt1)" "mio_wf rt1 ios []"
    and e1: "rt1 = ?rt\<lparr>lheap := lheap rt1, handles := handles ?rt |` (- set dels),
      ep_interest := ep_forget (handles ?rt) dels (ep_interest ?rt)\<rparr>"
    by (rule mio_reap_deleted [OF wf0])
  obtain rt2 where r2: "mio_reap IoHandleList rt1 = Some (Inr rt2)" "mio_wf rt2 [] []"
    and e2: "rt2 = rt1\<lparr>lheap := lheap rt2, handles := Map.empty,
      ep_interest := ep_forget (handles rt1) ios (ep_interest rt1)\<rparr>"
    by (rule mio_reap_registered [OF r1(2)])
  have hs: "handles rt1 = handles rt |` (- set dels)" by (subst e1) simp
  have "ep_interest rt1 = ep_forget (handles rt) dels (ep_interest rt)" by (subst e1) simp
  then have ep: "ep_interest rt2 = ep_forget (handles rt1) ios (ep_forget (handles rt) dels (ep_interest rt))"
    by (subst e2) simp
  show ?thesis
  proof
    show "multiplex_io_close (Some rt) = Some (Inr (MIO_STS_OK, Some rt2))"
      by (simp add: multiplex_io_close_def r1 r2)
    show "handles rt2 = Map.empty" by (subst e2) simp
    show "mio_wf rt2 [] []" by (rule r2)
    show "\<forall>i h. handles rt i = Some h \<longrightarrow> ep_interest rt2 (mh_fd h) = None"
    proof (intro allI impI)
      fix i h assume h: "handles rt i = Some h"
      then have "i \<in> set dels \<or> i \<in> set ios \<and> handles rt1 i = Some h"
        using wf by (auto simp: mio_wf_def hs restrict_map_def)
      then show "ep_interest rt2 (mh_fd h) = None" using h by (auto simp: ep ep_forget_def)
    qed
  qed
qed

text \<open>Closing leaves the part of the state that a client adds to the runtime alone.\<close>

lemma multiplex_io_close_frame:
  assumes wf: "mio_wf rt ios dels"
  obtains rt' where "multiplex_io_close (Some rt) = Some (Inr (MIO_STS_OK, Some rt'))" "handles rt' = Map.empty"
    and "rt' = rt\<lparr>thread_running := thread_running rt', lheap := lheap rt', handles := handles rt',
      ep_interest := ep_interest rt'\<rparr>"
proof -
  let ?rt = "rt\<lparr>thread_running := False\<rparr>"
  have wf0: "mio_wf ?rt ios dels" using wf by (simp add: mio_wf_def)
  obtain rt1 where r1: "mio_reap DelHandleList ?rt = Some (Inr rt1)" "mio_wf rt1 ios []"
    and e1: "rt1 = ?rt\<lparr>lheap := lheap rt1, handles := handles ?rt |` (- set dels),
      ep_interest := ep_forget (handles ?rt) dels (ep_interest ?rt)\<rparr>"
    by (rule mio_reap_deleted [OF wf0])
  obtain rt2 where r2: "mio_reap IoHandleList rt1 = Some (Inr rt2)"
    and e2: "rt2 = rt1\<lparr>lheap := lheap rt2, handles := Map.empty,
      ep_interest := ep_forget (handles rt1) ios (ep_interest rt1)\<rparr>"
    by (rule mio_reap_registered [OF r1(2)])
  show thesis
  proof
    show "multiplex_io_close (Some rt) = Some (Inr (MIO_STS_OK, Some rt2))" by (simp add: multiplex_io_close_def r1 r2)
    show "handles rt2 = Map.empty" by (subst e2) simp
    have "rt2 = rt1\<lparr>lheap := lheap rt2, handles := handles rt2, ep_interest := ep_interest rt2\<rparr>"
      by (subst e2, rule multiplex_runtime.equality) (subst (2) e2, simp)+
    then show "rt2 = rt\<lparr>thread_running := thread_running rt2, lheap := lheap rt2, handles := handles rt2,
        ep_interest := ep_interest rt2\<rparr>"
      by (intro multiplex_runtime.equality) (subst e2, subst e1, simp)+
  qed
qed

section \<open>Writing through a handle\<close>

text \<open>A write changes the pending bytes of one handle and nothing else, or nothing at all.\<close>

lemma multiplex_io_write_live:
  assumes wf: "mio_wf rt ios dels" and i: "i \<in> set ios" "handles rt i = Some h"
    and h: "rb_wf (w_buf h)" "mh_fd h \<ge> 0" and bs: "mio_msg_ok bs"
  shows "\<exists>h'. multiplex_io_write (Some rt) (Some i) (Some bs) (int (length bs)) ctl err =
      Inr (if rb_accepts (w_buf h) (length bs)
           then (if ctl = 0 then MIO_STS_OK else multiplex_io_errorno_to_sts err)
           else multiplex_io_errorno_to_sts ENOMEM,
           Some (rt\<lparr>handles := (handles rt)(i \<mapsto> h')\<rparr>)) \<and>
    rb_wf (w_buf h') \<and> h' = h\<lparr>w_buf := w_buf h', epevt_events := epevt_events h'\<rparr> \<and>
    rb_contents (w_buf h') =
      rb_contents (w_buf h) @ (if rb_accepts (w_buf h) (length bs) then bs else [])"
proof -
  let ?len = "word_of_int (int (length bs)) :: u32"
  have len: "unat ?len = length bs" using bs by (simp add: mio_msg_ok_def unat_of_nat take_bit_nat_eq_self)
  have sl: "sint ?len = int (length bs)"
    using bs by (simp add: mio_msg_ok_def signed_of_nat signed_take_bit_int_eq_self)
  have pos: "length bs > 0" using bs by (simp add: mio_msg_ok_def)
  obtain n rb where res: "multiplex_io_rb_write_data (w_buf h) bs ?len = (n, rb)" by fastforce
  have res': "multiplex_io_rb_write_data (w_buf h) bs (word_of_nat (length bs)) = (n, rb)"
    using res by simp
  show ?thesis
  proof (cases "rb_accepts (w_buf h) (length bs)")
    case True
    then have acc: "n = ?len" "rb_contents rb = rb_contents (w_buf h) @ bs" "rb_wf rb"
      using rb_write_accept [OF h(1) _ _ res] len by auto
    show ?thesis
      using mio_live_io [OF wf i] True acc h sl pos
      by (intro exI [of _ "h\<lparr>w_buf := rb, epevt_events := epevt_events h OR EPOLLOUT\<rparr>"])
        (simp add: multiplex_io_write_def res' Let_def)
  next
    case False
    then have rej: "n = 0" "rb = w_buf h"
      using rb_write_reject [OF h(1), of ?len bs] res len by auto
    show ?thesis
      using mio_live_io [OF wf i] False rej h pos
      by (intro exI [of _ h]) (simp add: multiplex_io_write_def res')
  qed
qed

section \<open>The contract between the thread and its callbacks\<close>

text \<open>
  A step keeps the registry and the client's own invariant when it does not fault, both hold
  afterwards, and every handle allocated before is still allocated: deletion is deferred.
\<close>

definition mio_keeps :: "(('cb, 'p, 'm) multiplex_runtime_scheme \<Rightarrow> bool) \<Rightarrow>
    ('cb, 'p, 'm) multiplex_runtime_scheme \<Rightarrow> c_fault + ('cb, 'p, 'm) multiplex_runtime_scheme \<Rightarrow> bool" where
  "mio_keeps cinv rt r \<longleftrightarrow>
     (\<exists>rt'. r = Inr rt' \<and> mio_inv rt' \<and> cinv rt' \<and> dom (handles rt) \<subseteq> dom (handles rt'))"

lemma mio_keepsI:
  "mio_wf rt' ios dels \<Longrightarrow> cinv rt' \<Longrightarrow> dom (handles rt) \<subseteq> dom (handles rt') \<Longrightarrow> mio_keeps cinv rt (Inr rt')"
  by (auto simp: mio_keeps_def mio_inv_def)

lemma mio_keeps_bind:
  assumes "mio_keeps cinv rt r"
    and "\<And>rt'. mio_inv rt' \<Longrightarrow> cinv rt' \<Longrightarrow> dom (handles rt) \<subseteq> dom (handles rt') \<Longrightarrow> mio_keeps cinv rt (f rt')"
  shows "mio_keeps cinv rt (bind_fault r f)"
  using assms by (auto simp: mio_keeps_def)

lemma mio_keeps_trans:
  "dom (handles rt) \<subseteq> dom (handles rt') \<Longrightarrow> mio_keeps cinv rt' r \<Longrightarrow> mio_keeps cinv rt r"
  by (auto simp: mio_keeps_def)

locale mio_client =
  fixes call :: "('cb, 'p, ('cb, 'p, 'm) multiplex_runtime_scheme) callbacks"
    and cinv :: "('cb, 'p, 'm) multiplex_runtime_scheme \<Rightarrow> bool"
  assumes call_read: "mio_wf rt ios dels \<Longrightarrow> cinv rt \<Longrightarrow> i \<in> set ios \<Longrightarrow> handles rt i = Some h \<Longrightarrow>
      r_ind h = Some cb \<Longrightarrow> mio_keeps cinv rt (call cb i (CbParam (r_param h)) rt)"
    and call_confirm: "mio_inv rt \<Longrightarrow> cinv rt \<Longrightarrow> handles rt i = Some h \<Longrightarrow>
      w_conf h = Some cb \<Longrightarrow> mio_keeps cinv rt (call cb i (CbParam (w_param h)) rt)"
    and call_error: "mio_inv rt \<Longrightarrow> cinv rt \<Longrightarrow> handles rt i = Some h \<Longrightarrow>
      e_ind h = Some cb \<Longrightarrow> mio_keeps cinv rt (call cb i (CbEvent t) rt)"
    and inv_buf: "cinv rt \<Longrightarrow> handles rt i = Some h \<Longrightarrow>
      cinv (rt\<lparr>handles := (handles rt)(i \<mapsto> h\<lparr>w_buf := rb\<rparr>)\<rparr>)"
    and inv_mask: "cinv rt \<Longrightarrow> handles rt i = Some h \<Longrightarrow>
      cinv (rt\<lparr>handles := (handles rt)(i \<mapsto> h\<lparr>epevt_events := e\<rparr>)\<rparr>)"
    and inv_reap: "cinv rt \<Longrightarrow> mio_wf rt ios dels \<Longrightarrow>
      mio_wf (rt\<lparr>lheap := lh, handles := handles rt |` (- set dels), ep_interest := ep\<rparr>) ios [] \<Longrightarrow>
      cinv (rt\<lparr>lheap := lh, handles := handles rt |` (- set dels), ep_interest := ep\<rparr>)"
begin

lemma upd_inv:
  assumes "mio_inv rt" "handles rt i = Some h"
  shows "mio_inv (rt\<lparr>handles := (handles rt)(i \<mapsto> h')\<rparr>)"
  using assms mio_wf_handle_upd unfolding mio_inv_def by (metis domI)

lemma event_in:
  assumes "mio_wf rt ios dels" "cinv rt" "ev_ptr ev \<in> set ios"
  obtains tmp' rt' where "mio_event_in call rt ev tmp = Inr (tmp', rt')"
    "mio_inv rt'" "cinv rt'" "dom (handles rt) \<subseteq> dom (handles rt')"
proof -
  obtain h where h: "handles rt (ev_ptr ev) = Some h" using assms by (auto simp: mio_wf_def)
  show ?thesis
  proof (cases "ev_events ev AND EPOLLIN \<noteq> 0 \<and> r_ind h \<noteq> None")
    case True
    then obtain cb where cb: "r_ind h = Some cb" by auto
    then obtain rt' where "call cb (ev_ptr ev) (CbParam (r_param h)) rt = Inr rt'" "mio_inv rt'" "cinv rt'"
      "dom (handles rt) \<subseteq> dom (handles rt')"
      using call_read [OF assms h] by (auto simp: mio_keeps_def)
    with True cb h show ?thesis by (intro that) (auto simp: mio_event_in_def mio_with_handle_def)
  next
    case False
    with h assms show ?thesis
      by (intro that [of "if ev_events ev AND EPOLLIN \<noteq> 0 then tmp AND NOT EPOLLIN else tmp" rt])
        (auto simp: mio_event_in_def mio_with_handle_def mio_inv_def split: option.splits)
  qed
qed

lemma event_out:
  assumes "mio_inv rt" "cinv rt" "ev_ptr ev \<in> dom (handles rt)"
  obtains tmp' rt' where "mio_event_out call rt ev tmp = Inr (tmp', rt')"
    "mio_inv rt'" "cinv rt'" "dom (handles rt) \<subseteq> dom (handles rt')"
proof -
  obtain h where h: "handles rt (ev_ptr ev) = Some h" using assms by auto
  obtain out sent rb where d: "mio_drain (w_buf h) (ev_n1 ev) (ev_n2 ev) = (out, sent, rb)"
    by (metis prod_cases3)
  let ?h1 = "h\<lparr>w_buf := rb\<rparr>" and ?rt1 = "rt\<lparr>handles := (handles rt)(ev_ptr ev \<mapsto> h\<lparr>w_buf := rb\<rparr>)\<rparr>"
  have k1: "mio_inv ?rt1" "cinv ?rt1" using upd_inv [OF assms(1) h] inv_buf [OF assms(2) h] by simp_all
  have h1: "handles ?rt1 (ev_ptr ev) = Some ?h1" by simp
  have "mio_keeps cinv ?rt1 (mio_call call (w_conf h) (ev_ptr ev) (CbParam (w_param h)) ?rt1)"
    using call_confirm [OF k1 h1] k1 by (auto simp: mio_call_def mio_keeps_def split: option.splits)
  then obtain rt2 where rt2: "mio_call call (w_conf h) (ev_ptr ev) (CbParam (w_param h)) ?rt1 = Inr rt2"
    "mio_inv rt2" "cinv rt2" "dom (handles ?rt1) \<subseteq> dom (handles rt2)" by (auto simp: mio_keeps_def)
  have sub: "dom (handles rt) \<subseteq> dom (handles rt2)" using rt2(4) by auto
  show ?thesis
    by (cases "ev_events ev AND EPOLLOUT \<noteq> 0"; cases out)
      (insert d h k1 rt2(1-3) sub assms, auto simp: mio_event_out_def mio_with_handle_def intro: that)
qed

lemma event_mask:
  assumes "mio_inv rt" "cinv rt" "i \<in> dom (handles rt)"
  shows "mio_keeps cinv rt (mio_event_mask rt i tmp)"
proof -
  obtain h where h: "handles rt i = Some h" using assms by auto
  show ?thesis
    using h assms upd_inv [OF assms(1) h] inv_mask [OF assms(2) h]
    by (auto simp: mio_event_mask_def mio_with_handle_def mio_keeps_def Let_def)
qed

lemma event_err:
  assumes "mio_inv rt" "cinv rt" "ev_ptr ev \<in> dom (handles rt)"
  shows "mio_keeps cinv rt (mio_event_err call rt ev)"
proof -
  obtain h where h: "handles rt (ev_ptr ev) = Some h" using assms by auto
  have "mio_keeps cinv rt (mio_call call (e_ind h) (ev_ptr ev) (CbEvent t) rt)" for t
    using call_error [OF assms(1,2) h] assms by (auto simp: mio_call_def mio_keeps_def split: option.splits)
  then show ?thesis using h assms
    by (simp add: mio_event_err_def mio_with_handle_def Let_def) (simp add: mio_keeps_def)
qed

text \<open>An event for any allocated handle, deleted or not, is processed without a fault.\<close>

lemma process_event:
  assumes "mio_inv rt" "cinv rt" "ev_ptr ev \<in> dom (handles rt)"
  shows "mio_keeps cinv rt (mio_process_event call rt ev)"
proof -
  obtain ios dels where wf: "mio_wf rt ios dels" using assms(1) by (auto simp: mio_inv_def)
  obtain h where h: "handles rt (ev_ptr ev) = Some h" using assms by auto
  show ?thesis
  proof (cases "ev_ptr ev \<in> set ios")
    case False
    then show ?thesis using mio_wf_contains [OF wf assms(3)] h assms
      by (simp add: mio_process_event_def mio_with_handle_def mio_keeps_def)
  next
    case True
    obtain t1 rt1 where s1: "mio_event_in call rt ev (epevt_events h) = Inr (t1, rt1)" "mio_inv rt1" "cinv rt1"
      "dom (handles rt) \<subseteq> dom (handles rt1)" by (rule event_in [OF wf assms(2) True])
    have p1: "ev_ptr ev \<in> dom (handles rt1)" using s1(4) assms(3) by auto
    obtain t2 rt2 where s2: "mio_event_out call rt1 ev t1 = Inr (t2, rt2)" "mio_inv rt2" "cinv rt2"
      "dom (handles rt1) \<subseteq> dom (handles rt2)" by (rule event_out [OF s1(2,3) p1])
    have p2: "ev_ptr ev \<in> dom (handles rt2)" "dom (handles rt) \<subseteq> dom (handles rt2)" using s1(4) s2(4) p1 by auto
    have "mio_keeps cinv rt (mio_event_mask rt2 (ev_ptr ev) t2)"
      by (rule mio_keeps_trans [OF p2(2) event_mask [OF s2(2,3) p2(1)]])
    then have "mio_keeps cinv rt (bind_fault (mio_event_mask rt2 (ev_ptr ev) t2) (\<lambda>rt3. mio_event_err call rt3 ev))"
      by (rule mio_keeps_bind) (meson assms(3) event_err mio_keeps_trans subsetD)
    then show ?thesis using mio_wf_contains [OF wf assms(3)] True h s1(1) s2(1)
      by (simp add: mio_process_event_def mio_with_handle_def)
  qed
qed

lemma process_events:
  "mio_inv rt \<Longrightarrow> cinv rt \<Longrightarrow> ev_ptr ` set evs \<subseteq> dom (handles rt) \<Longrightarrow>
   mio_keeps cinv rt (mio_process_events call rt evs)"
proof (induction evs arbitrary: rt)
  case Nil
  then show ?case by (simp add: mio_keeps_def)
next
  case (Cons ev evs)
  then have "mio_keeps cinv rt (mio_process_event call rt ev)" by (intro process_event) auto
  then show ?case
    using Cons.IH Cons.prems(3) unfolding mio_process_events.simps
    by (elim mio_keeps_bind) (meson mio_keeps_trans order_trans set_subset_Cons image_mono)
qed

text \<open>
  A whole round ends without a fault, and afterwards the deletion list is empty: every handle deleted
  in the round is freed, and no other one.
\<close>

lemma round_safe:
  assumes "mio_inv rt" "cinv rt" "ev_ptr ` set evs \<subseteq> dom (handles rt)"
  obtains rt' ios where "multiplex_io_round call rt evs = Some (Inr rt')" "mio_wf rt' ios []" "cinv rt'"
proof -
  obtain rt1 where r1: "mio_process_events call rt evs = Inr rt1" "mio_inv rt1" "cinv rt1"
    using process_events [OF assms] by (auto simp: mio_keeps_def)
  obtain ios dels where wf: "mio_wf rt1 ios dels" using r1(2) by (auto simp: mio_inv_def)
  obtain rt2 where r2: "mio_reap DelHandleList rt1 = Some (Inr rt2)" "mio_wf rt2 ios []"
    and e2: "rt2 = rt1\<lparr>lheap := lheap rt2, handles := handles rt1 |` (- set dels),
      ep_interest := ep_forget (handles rt1) dels (ep_interest rt1)\<rparr>"
    by (rule mio_reap_deleted [OF wf])
  have "cinv rt2"
    using inv_reap [OF r1(3) wf, where lh = "lheap rt2" and ep = "ep_forget (handles rt1) dels (ep_interest rt1)"] r2(2)
    unfolding e2 [symmetric] by blast
  with r1 r2 show ?thesis by (intro that [of rt2 ios]) (simp_all add: multiplex_io_round_def)
qed

end

section \<open>Properties\<close>

text \<open>A runtime with one registered handle (address 1, descriptor 5), and its copy after deletion.\<close>

definition demo_cfg :: "int \<Rightarrow> (unit, unit) multiplex_io_cfg" where
  "demo_cfg fd = \<lparr>cfg_fd = fd, rd_ind = None, wr_conf = None, err_ind = None,
     rd_ind_param = (), wr_conf_param = ()\<rparr>"

definition demo_rt0 :: "(unit, unit) multiplex_runtime" where
  "demo_rt0 = the (multiplex_io_open 3 True)"

definition demo_rt1 :: "(unit, unit) multiplex_runtime" where
  "demo_rt1 = the (snd (multiplex_io_handle_add (Some demo_rt0) (Some (demo_cfg 5)) (Some (1, \<lambda>_. 0)) 0 0 0))"

lemma demo_rt0_wf: "mio_wf demo_rt0 [] []" "handles demo_rt0 = Map.empty" "epfd demo_rt0 = 3"
  using mio_wf_open [of 3 True demo_rt0] by (simp_all add: demo_rt0_def multiplex_io_open_def)

lemma demo_rt1_add:
  "multiplex_io_handle_add (Some demo_rt0) (Some (demo_cfg 5)) (Some (1, \<lambda>_. 0)) 0 0 0 = (Some 1, Some demo_rt1)"
  by (simp add: demo_rt1_def demo_rt0_wf multiplex_io_handle_add_def)

lemma demo_rt1_wf:
  "mio_wf demo_rt1 [1] []" "mio_bufs demo_rt1"
  "\<exists>h. handles demo_rt1 1 = Some h \<and> mh_fd h = 5 \<and> rb_contents (w_buf h) = [] \<and> rb_wf (w_buf h)"
proof -
  have b: "mio_bufs demo_rt0" by (simp add: mio_bufs_def demo_rt0_wf)
  note a = handle_add_ok [OF demo_rt0_wf(1) _ demo_rt1_add]
  show "mio_wf demo_rt1 [1] []" using a by (simp add: demo_rt0_wf)
  show bufs: "mio_bufs demo_rt1" using a b by (simp add: demo_rt0_wf)
  show "\<exists>h. handles demo_rt1 1 = Some h \<and> mh_fd h = 5 \<and> rb_contents (w_buf h) = [] \<and> rb_wf (w_buf h)"
    using a bufs by (auto simp: demo_rt0_wf demo_cfg_def mio_bufs_def)
qed

text \<open>
  C34: deleting a registered handle returns \<^verbatim>\<open>MIO_STS_OK\<close> and moves it to the deletion list without
  freeing or changing it; a second deletion is refused with \<^verbatim>\<open>MIO_ERR_INVALID_PARAM\<close>; and whatever
  events are still reported for the handle in the same batch are ignored, whatever the callbacks do.
\<close>

theorem handle_del_deferred:
  assumes "mio_wf rt ios dels" "i \<in> set ios"
  shows "\<exists>rt'. multiplex_io_handle_del (Some rt) (Some i) = Inr (MIO_STS_OK, Some rt') \<and>
    mio_wf rt' (remove1 i ios) (dels @ [i]) \<and> handles rt' = handles rt \<and>
    multiplex_io_handle_del (Some rt') (Some i) = Inr (MIO_ERR_INVALID_PARAM, Some rt') \<and>
    (\<forall>call ev. ev_ptr ev = i \<longrightarrow> mio_process_event call rt' ev = Inr rt')"
proof -
  obtain rt' where d: "multiplex_io_handle_del (Some rt) (Some i) = Inr (MIO_STS_OK, Some rt')"
    and wf: "mio_wf rt' (remove1 i ios) (dels @ [i])" and e: "rt' = rt\<lparr>lheap := lheap rt'\<rparr>"
    by (rule handle_del_io [OF assms])
  have hs: "handles rt' = handles rt" by (subst e) simp
  have i: "i \<in> set (dels @ [i])" "i \<in> dom (handles rt')" using wf by (auto simp: mio_wf_def)
  have "i \<notin> set (remove1 i ios)" using wf by (auto simp: mio_wf_def)
  then have "mio_process_event call rt' ev = Inr rt'" if "ev_ptr ev = i" for call ev
    using mio_wf_contains [OF wf i(2)] i(2) that by (auto simp: mio_process_event_def mio_with_handle_def)
  with d wf hs handle_del_again [OF wf i(1)] show ?thesis by blast
qed

theorem handle_del_deferred_witness:
  "\<exists>rt'. multiplex_io_handle_del (Some demo_rt1) (Some 1) = Inr (MIO_STS_OK, Some rt') \<and>
     handles rt' = handles demo_rt1"
  using handle_del_deferred [OF demo_rt1_wf(1), of 1] by auto



text \<open>
  \<^verbatim>\<open>multiplex_io_write\<close> on a registered handle appends the message to the bytes pending on that
  handle and asks for \<^verbatim>\<open>EPOLLOUT\<close>, or, when the ring has no room, reports \<^verbatim>\<open>ENOMEM\<close> and queues
  nothing; no other handle changes.
\<close>

theorem multiplex_io_write_spec:
  assumes "mio_wf rt ios dels" "mio_bufs rt" "i \<in> set ios" "handles rt i = Some h" "mh_fd h \<ge> 0"
    and "0 < length bs" "length bs < 2 ^ 31"
  shows "\<exists>ret rt' h'. multiplex_io_write (Some rt) (Some i) (Some bs) (int (length bs)) 0 err =
      Inr (ret, Some rt') \<and>
    rt' = rt\<lparr>handles := (handles rt)(i \<mapsto> h')\<rparr> \<and> mio_wf rt' ios dels \<and> mio_bufs rt' \<and>
    (if length (rb_contents (w_buf h)) + length bs < rb_size
     then ret = MIO_STS_OK \<and> rb_contents (w_buf h') = rb_contents (w_buf h) @ bs
     else ret = - 14 \<and> rb_contents (w_buf h') = rb_contents (w_buf h))"
proof -
  have "rb_wf (w_buf h)" using assms(2,4) by (auto simp: mio_bufs_def)
  then obtain h' where h': "multiplex_io_write (Some rt) (Some i) (Some bs) (int (length bs)) 0 err =
      Inr (if rb_accepts (w_buf h) (length bs) then MIO_STS_OK else multiplex_io_errorno_to_sts ENOMEM,
           Some (rt\<lparr>handles := (handles rt)(i \<mapsto> h')\<rparr>))" "rb_wf (w_buf h')"
    "rb_contents (w_buf h') = rb_contents (w_buf h) @ (if rb_accepts (w_buf h) (length bs) then bs else [])"
    using multiplex_io_write_live [OF assms(1,3,4) _ assms(5), of bs 0 err] assms(6,7)
    by (auto simp: mio_msg_ok_def)
  have "mio_wf (rt\<lparr>handles := (handles rt)(i \<mapsto> h')\<rparr>) ios dels"
    using mio_wf_handle_upd [OF assms(1)] assms(4) by blast
  moreover have "mio_bufs (rt\<lparr>handles := (handles rt)(i \<mapsto> h')\<rparr>)"
    using assms(2) h'(2) by (auto simp: mio_bufs_def)
  ultimately show ?thesis using h'(1,3)
    by (auto simp: rb_accepts_def multiplex_io_errorno_to_sts_def mio_consts)
qed

theorem multiplex_io_write_spec_witness:
  "\<exists>rt' h'. multiplex_io_write (Some demo_rt1) (Some 1) (Some [1, 2]) 2 0 0 = Inr (MIO_STS_OK, Some rt') \<and>
     handles rt' 1 = Some h' \<and> rb_contents (w_buf h') = [1, 2]"
proof -
  obtain h where "handles demo_rt1 1 = Some h" "mh_fd h = 5" "rb_contents (w_buf h) = []"
    using demo_rt1_wf(3) by auto
  then show ?thesis
    using multiplex_io_write_spec [OF demo_rt1_wf(1,2), of 1 h "[1, 2]" 0] by auto
qed

text \<open>
  The deferred removal from the epoll set goes by descriptor number. If a handle is deleted and
  its descriptor closed, and a handle registered later in the same batch got the same number (as
  \<^verbatim>\<open>accept\<close> hands out the lowest free one), the end of the batch removes the new handle's
  registration: it stays in \<^verbatim>\<open>io_handle_list\<close>, but no event will ever be reported for it.
\<close>

theorem reap_forgets_reused_fd:
  assumes "mio_wf rt ios dels" "i \<in> set dels" "handles rt i = Some h"
    and "j \<in> set ios" "handles rt j = Some h2" "mh_fd h2 = mh_fd h"
  shows "\<exists>rt'. mio_reap DelHandleList rt = Some (Inr rt') \<and> mio_wf rt' ios [] \<and>
    handles rt' j = Some h2 \<and> ep_interest rt' (mh_fd h2) = None"
proof -
  obtain rt' where r: "mio_reap DelHandleList rt = Some (Inr rt')" "mio_wf rt' ios []"
    and e: "rt' = rt\<lparr>lheap := lheap rt', handles := handles rt |` (- set dels),
      ep_interest := ep_forget (handles rt) dels (ep_interest rt)\<rparr>"
    by (rule mio_reap_deleted [OF assms(1)])
  have "j \<notin> set dels" using assms(1,4) by (auto simp: mio_wf_def)
  then have "handles rt' j = Some h2" by (subst e) (simp add: assms)
  moreover have "ep_interest rt' (mh_fd h2) = None" by (subst e) (use assms in \<open>auto simp: ep_forget_def\<close>)
  ultimately show ?thesis using r by blast
qed

definition demo_rt2 :: "(unit, unit) multiplex_runtime" where
  "demo_rt2 = (case multiplex_io_handle_del (Some demo_rt1) (Some 1) of
     Inr (_, Some rt) \<Rightarrow> the (snd (multiplex_io_handle_add (Some (rt\<lparr>ep_interest := (ep_interest rt)(5 := None)\<rparr>))
                              (Some (demo_cfg 5)) (Some (2, \<lambda>_. 0)) 0 0 0))
   | _ \<Rightarrow> demo_rt1)"

lemma demo_rt2_wf:
  "mio_wf demo_rt2 [2] [1]"
  "\<exists>h h2. handles demo_rt2 1 = Some h \<and> handles demo_rt2 2 = Some h2 \<and> mh_fd h = 5 \<and> mh_fd h2 = 5"
proof -
  obtain rt where d: "multiplex_io_handle_del (Some demo_rt1) (Some 1) = Inr (MIO_STS_OK, Some rt)"
    and wf: "mio_wf rt (remove1 1 [1]) ([] @ [1])" and e: "rt = demo_rt1\<lparr>lheap := lheap rt\<rparr>"
    by (rule handle_del_io [OF demo_rt1_wf(1), of 1]) simp
  let ?rt = "rt\<lparr>ep_interest := (ep_interest rt)(5 := None)\<rparr>"
  have hs: "handles rt = handles demo_rt1" "epfd rt = epfd demo_rt1" by (subst e, simp)+
  have "epfd demo_rt1 = 3"
    by (simp add: demo_rt1_def multiplex_io_handle_add_def demo_rt0_wf multiplex_io_handle_list_add_def Let_def)
  then have a: "multiplex_io_handle_add (Some ?rt) (Some (demo_cfg 5)) (Some (2, \<lambda>_. 0)) 0 0 0 = (Some 2, Some demo_rt2)"
    using d by (simp add: demo_rt2_def multiplex_io_handle_add_def hs)
  have w: "mio_wf ?rt [] [1]" using wf by (simp add: mio_wf_def)
  have n: "2 \<notin> dom (handles ?rt)" using w by (auto simp: mio_wf_def)
  note k = handle_add_ok [OF w n a]
  show "mio_wf demo_rt2 [2] [1]" using k by simp
  show "\<exists>h h2. handles demo_rt2 1 = Some h \<and> handles demo_rt2 2 = Some h2 \<and> mh_fd h = 5 \<and> mh_fd h2 = 5"
    using k demo_rt1_wf(3) by (auto simp: hs demo_cfg_def)
qed

theorem reap_forgets_reused_fd_witness:
  "\<exists>rt'. mio_reap DelHandleList demo_rt2 = Some (Inr rt') \<and> ep_interest rt' 5 = None"
proof -
  obtain h h2 where "handles demo_rt2 1 = Some h" "handles demo_rt2 2 = Some h2" "mh_fd h = 5" "mh_fd h2 = 5"
    using demo_rt2_wf(2) by auto
  then show ?thesis using reap_forgets_reused_fd [OF demo_rt2_wf(1), of 1 h 2 h2] by auto
qed

end
