(* ===== verification/Wire.thy ===== *)
theory Wire
  imports Prelude
begin

text \<open>
  The framing of the sysbus stream: each packet is preceded by a 16-bit little-endian size, which
  counts the two bytes of the packet id and the payload. \<open>frame\<close> is the encoding, \<open>deframe k\<close> the
  reference decoder: it splits complete packets off the front of a byte string as long as at least
  \<open>k\<close> bytes are there, and gives for each the bytes its receiver looks at: the packet, and \<open>k\<close> bytes
  where a (malformed) packet is shorter than that. The client library and the server both decode incrementally, from a buffer
  that keeps an incomplete tail between reads; the locale \<open>framed_rx\<close> states what such a receiver
  does with one read and concludes that only the concatenation of the reads matters.
\<close>

section \<open>Encoding and reference decoder\<close>

definition frame :: "u16 \<Rightarrow> u8 list \<Rightarrow> u8 list" where
  "frame pkt_id data =
     (let n = of_nat (length data + 2) in [lo8 n, hi8 n, lo8 pkt_id, hi8 pkt_id] @ data)"

definition pkt_total :: "u8 list \<Rightarrow> nat" where
  "pkt_total bs = unat (le16 (bs ! 0) (bs ! 1)) + 2"

function deframe :: "nat \<Rightarrow> u8 list \<Rightarrow> u8 list list \<times> u8 list" where
  "deframe k bs =
     (if k \<le> length bs \<and> pkt_total bs \<le> length bs
      then (let (ps, rest) = deframe k (drop (pkt_total bs) bs) in (take (max k (pkt_total bs)) bs # ps, rest))
      else ([], bs))"
  by pat_completeness auto
termination
  by (relation "measure (\<lambda>(k, bs). length bs)") (auto simp: pkt_total_def)

declare deframe.simps [simp del]

lemma deframe_stop: "\<not> (k \<le> length bs \<and> pkt_total bs \<le> length bs) \<Longrightarrow> deframe k bs = ([], bs)"
  by (subst deframe.simps) auto

lemma deframe_step:
  "k \<le> length bs \<Longrightarrow> pkt_total bs \<le> length bs \<Longrightarrow>
   deframe k bs = (take (max k (pkt_total bs)) bs # fst (deframe k (drop (pkt_total bs) bs)),
                   snd (deframe k (drop (pkt_total bs) bs)))"
  by (subst deframe.simps) (simp add: case_prod_beta)

lemma pkt_total_bounds: "2 \<le> pkt_total bs" "pkt_total bs \<le> 65537"
  using unsigned_less [of "le16 (bs ! 0) (bs ! 1)", where ?'a = nat] by (auto simp: pkt_total_def)

lemma pkt_total_append: "2 \<le> length bs \<Longrightarrow> pkt_total (bs @ cs) = pkt_total bs"
  by (cases bs) (auto simp: pkt_total_def nth_append)

section \<open>Only the concatenation of the reads matters\<close>

lemma deframe_append:
  assumes "2 \<le> k"
  shows "deframe k (bs @ cs) =
    (fst (deframe k bs) @ fst (deframe k (snd (deframe k bs) @ cs)), snd (deframe k (snd (deframe k bs) @ cs)))"
  using assms
proof (induction k bs rule: deframe.induct)
  case (1 k bs)
  show ?case
  proof (cases "k \<le> length bs \<and> pkt_total bs \<le> length bs")
    case True
    then have t: "pkt_total (bs @ cs) = pkt_total bs" using "1.prems" by (intro pkt_total_append) linarith
    have "deframe k (bs @ cs) = (take (max k (pkt_total bs)) bs # fst (deframe k (drop (pkt_total bs) bs @ cs)),
        snd (deframe k (drop (pkt_total bs) bs @ cs)))"
      using True by (subst deframe_step) (auto simp: t)
    then show ?thesis using "1.IH" [OF True "1.prems"] True by (simp add: deframe_step)
  next
    case False
    then show ?thesis by (simp add: deframe_stop [OF False])
  qed
qed

text \<open>What is kept between reads is an incomplete packet, so it is shorter than the receive buffer.\<close>

lemma deframe_rest: "snd (deframe k bs) = rest \<Longrightarrow> \<not> (k \<le> length rest \<and> pkt_total rest \<le> length rest)"
proof (induction k bs rule: deframe.induct)
  case (1 k bs)
  show ?case
  proof (cases "k \<le> length bs \<and> pkt_total bs \<le> length bs")
    case True
    then have "snd (deframe k (drop (pkt_total bs) bs)) = rest" using "1.prems" by (simp add: deframe_step)
    then show ?thesis by (rule "1.IH" [OF True])
  next
    case False
    then show ?thesis using "1.prems" by (simp add: deframe_stop)
  qed
qed

lemma deframe_rest_small: "k \<le> 65537 \<Longrightarrow> length (snd (deframe k bs)) < 65537"
  using deframe_rest [of k bs] pkt_total_bounds [of "snd (deframe k bs)"] by fastforce

section \<open>Round trip\<close>

text \<open>A payload the 16-bit size field can describe.\<close>

definition payload_ok :: "u8 list \<Rightarrow> bool" where
  "payload_ok data \<longleftrightarrow> length data + 2 < 65536"

lemma length_frame [simp]: "length (frame i data) = length data + 4"
  by (simp add: frame_def Let_def)

lemma pkt_total_frame:
  assumes "payload_ok data"
  shows "pkt_total (frame i data @ rest) = length data + 4"
proof -
  have "unat (of_nat (length data + 2) :: u16) = length data + 2"
    using assms unfolding unat_of_nat payload_ok_def by simp
  then show ?thesis by (simp add: pkt_total_def frame_def Let_def)
qed

lemma deframe_frame:
  assumes "payload_ok data" "k \<le> length data + 4"
  shows "deframe k (frame i data @ rest) = (frame i data # fst (deframe k rest), snd (deframe k rest))"
  using assms by (subst deframe_step) (simp_all add: pkt_total_frame)

lemma deframe_frames:
  assumes "\<forall>p \<in> set ps. payload_ok (snd p) \<and> k \<le> length (snd p) + 4"
  shows "deframe k (concat (map (\<lambda>(i, d). frame i d) ps) @ rest) =
    (map (\<lambda>(i, d). frame i d) ps @ fst (deframe k rest), snd (deframe k rest))"
  using assms
proof (induction ps)
  case (Cons p ps)
  obtain i d where p: "p = (i, d)" by fastforce
  have "payload_ok d" "k \<le> length d + 4" using Cons.prems by (simp_all add: p)
  then show ?case using Cons.IH Cons.prems by (simp add: p deframe_frame)
qed simp

section \<open>Incremental receivers\<close>

text \<open>
  \<open>step s c\<close> handles one read that returned the bytes \<open>c\<close>; \<open>pending s\<close> is the tail kept in the buffer
  and \<open>emit\<close> what is done with one complete packet. A read returns at most what the buffer has room for.
\<close>

fun rx_run :: "('s \<Rightarrow> u8 list \<Rightarrow> 'o list \<times> 's) \<Rightarrow> 's \<Rightarrow> u8 list list \<Rightarrow> 'o list \<times> 's" where
  "rx_run step s [] = ([], s)"
| "rx_run step s (c # cs) =
     (let (os, s') = step s c; (os', s'') = rx_run step s' cs in (os @ os', s''))"

fun rx_fits :: "('s \<Rightarrow> u8 list \<Rightarrow> 'o list \<times> 's) \<Rightarrow> ('s \<Rightarrow> nat) \<Rightarrow> 's \<Rightarrow> u8 list list \<Rightarrow> bool" where
  "rx_fits step room s [] = True"
| "rx_fits step room s (c # cs) = (length c \<le> room s \<and> rx_fits step room (snd (step s c)) cs)"

locale framed_rx =
  fixes step :: "'s \<Rightarrow> u8 list \<Rightarrow> 'o list \<times> 's"
    and wf :: "'s \<Rightarrow> bool"
    and pending :: "'s \<Rightarrow> u8 list"
    and room :: "'s \<Rightarrow> nat"
    and emit :: "u8 list \<Rightarrow> 'o"
    and k :: nat
  assumes k_bounds: "2 \<le> k" "k \<le> 65537"
    and step_out: "wf s \<Longrightarrow> length c \<le> room s \<Longrightarrow> fst (step s c) = map emit (fst (deframe k (pending s @ c)))"
    and step_wf: "wf s \<Longrightarrow> length c \<le> room s \<Longrightarrow> wf (snd (step s c))"
    and step_pending: "wf s \<Longrightarrow> length c \<le> room s \<Longrightarrow> pending (snd (step s c)) = snd (deframe k (pending s @ c))"
    and room_pending: "wf s \<Longrightarrow> length (pending s) < 65537 \<Longrightarrow> 0 < room s"
begin

lemma run_deframe:
  assumes "wf s" "rx_fits step room s cs" "rx_run step s cs = (os, s')" "deframe k (pending s) = ([], pending s)"
  shows "os = map emit (fst (deframe k (pending s @ concat cs))) \<and>
    pending s' = snd (deframe k (pending s @ concat cs)) \<and> wf s'"
  using assms
proof (induction cs arbitrary: s os)
  case Nil
  then show ?case by simp
next
  case (Cons c cs)
  obtain o1 s1 where s1: "step s c = (o1, s1)" by fastforce
  obtain o2 where o2: "rx_run step s1 cs = (o2, s')" and os: "os = o1 @ o2"
    using Cons.prems(3) s1 by (auto split: prod.splits)
  have c: "length c \<le> room s" "rx_fits step room s1 cs" using Cons.prems(2) s1 by auto
  have p1: "wf s1" "o1 = map emit (fst (deframe k (pending s @ c)))" "pending s1 = snd (deframe k (pending s @ c))"
    using step_wf [OF Cons.prems(1) c(1)] step_out [OF Cons.prems(1) c(1)]
      step_pending [OF Cons.prems(1) c(1)] by (simp_all add: s1)
  have "deframe k (pending s1) = ([], pending s1)"
    using deframe_stop [OF deframe_rest [OF p1(3) [symmetric]]] .
  from Cons.IH [OF p1(1) c(2) o2 this] show ?case
    using deframe_append [OF k_bounds(1), of "pending s @ c" "concat cs"] by (simp add: os p1)
qed

text \<open>Between reads there is always room for more bytes.\<close>

lemma run_room:
  assumes "wf s" "rx_fits step room s cs" "rx_run step s cs = (os, s')" "deframe k (pending s) = ([], pending s)"
  shows "0 < room s'"
proof -
  have "length (pending s') < 65537"
    using run_deframe [OF assms] deframe_rest_small [OF k_bounds(2)] by simp
  then show ?thesis using run_deframe [OF assms] room_pending by blast
qed

end

end
