(* ===== verification/SysbusClient.thy ===== *)
theory SysbusClient
  imports Wire
begin

text \<open>
  The client library \<^verbatim>\<open>apps/sysbus/lib_src/libsysbus.c\<close>, in the configuration it is compiled in
  (\<^verbatim>\<open>LIBSYSBUS_USE_LOCAL_TX_BUF\<close>, no \<^verbatim>\<open>LIBSYSBUS_USE_MIO\<close>): building and writing packets, the
  receive thread, connecting and disconnecting. The results of system calls are arguments; what a
  send hands to \<^verbatim>\<open>write\<close> is part of its result. \<^verbatim>\<open>memcpy\<close> over the overlapping halves of the
  receive buffer is taken to move the bytes.
\<close>

section \<open>State\<close>

abbreviation SYSBUS_NAME_SIZE :: nat where "SYSBUS_NAME_SIZE \<equiv> 256"
abbreviation SYSBUS_RX_BUF_SIZE :: nat where "SYSBUS_RX_BUF_SIZE \<equiv> 65540"
abbreviation INT_MAX :: int where "INT_MAX \<equiv> 2147483647"

datatype syslog_level = SYSLOG_LEVEL_DBG | SYSLOG_LEVEL_INFO | SYSLOG_LEVEL_WARN
  | SYSLOG_LEVEL_ERROR | SYSLOG_LEVEL_FATAL

record 'cb sysbus_handle =
  bus_name :: "u8 list"
  client_name :: "u8 list"
  sb_fd :: int
  pkt_proc_fn :: "'cb option"
  log_lvl :: u8

text \<open>What the receive thread does to the outside: calls of \<^verbatim>\<open>pkt_proc_fn\<close>.\<close>

datatype pkt_call = PktProc u16 "u8 list option" int

record sysbus_rx =
  rx_buff :: mem
  rx_total_size :: nat

section \<open>Sending\<close>

text \<open>
  \<^verbatim>\<open>sysbus_msg_send\<close>: \<open>wr n\<close> is the result of \<^verbatim>\<open>write\<close> of \<open>n\<close> bytes. The result is the return value
  and what was offered to \<^verbatim>\<open>write\<close>. A negative length passes the guard; the \<^verbatim>\<open>memcpy\<close> then runs over
  every bound. The data block must hold \<open>data_len\<close> bytes.
\<close>

definition sysbus_msg_send :: "'cb sysbus_handle option \<Rightarrow> u16 \<Rightarrow> u8 list option \<Rightarrow> int \<Rightarrow> (int \<Rightarrow> int) \<Rightarrow>
    c_fault + (int \<times> u8 list)" where
  "sysbus_msg_send handle pkt_id data data_len wr =
     (case handle of
        None \<Rightarrow> Inr (- 1, [])
      | Some h \<Rightarrow>
          (if sb_fd h \<ge> 0
           then (if data_len + 2 > INT_MAX then Inl SignedOverflow
                 else if data_len + 2 \<le> 65535 \<and> data_len + 4 \<le> int SYSBUS_RX_BUF_SIZE
                 then (case data of
                         None \<Rightarrow> Inr (- 1, [])
                       | Some bs \<Rightarrow>
                           (if data_len < 0 \<or> length bs < nat data_len then Inl OutOfBounds
                            else (let n = word_of_int (data_len + 2) :: u16;
                                      buf = [lo8 n, hi8 n, lo8 pkt_id, hi8 pkt_id] @ take (nat data_len) bs;
                                      ret = wr (data_len + 4)
                                  in Inr (if ret > 4 then ret - 4 else 0, buf))))
                 else Inr (- 1, []))
           else Inr (- 1, [])))"

text \<open>C division truncates towards zero.\<close>

definition c_div2 :: "int \<Rightarrow> int" where
  "c_div2 x = (if x < 0 then - ((- x) div 2) else x div 2)"

text \<open>
  The common body of \<^verbatim>\<open>sysbus_msg_subscribe\<close> (\<open>cmd = 1\<close>) and \<^verbatim>\<open>sysbus_msg_unsubscribe\<close> (\<open>cmd = 2\<close>),
  which are the same text up to this byte. The ids do not fit the buffer beyond 32767 of them.
\<close>

definition sysbus_control :: "u8 \<Rightarrow> 'cb sysbus_handle option \<Rightarrow> u16 list option \<Rightarrow> int \<Rightarrow> (int \<Rightarrow> int) \<Rightarrow>
    c_fault + (int \<times> u8 list)" where
  "sysbus_control cmd handle pkt_ids pkt_id_num wr =
     (case (handle, pkt_ids) of
        (Some h, Some ids) \<Rightarrow>
          (if sb_fd h \<ge> 0 \<and> pkt_id_num > 0
           then (if length ids < nat pkt_id_num \<or> 6 + 2 * pkt_id_num > int SYSBUS_RX_BUF_SIZE then Inl OutOfBounds
                 else (let n = word_of_int (pkt_id_num * 2 + 4) :: u16;
                           buf = [lo8 n, hi8 n, 0, 0, cmd, 0] @
                                 concat (map (\<lambda>i. [lo8 i, hi8 i]) (take (nat pkt_id_num) ids));
                           ret = wr (pkt_id_num * 2 + 6)
                       in Inr (c_div2 (ret - 6), buf)))
           else Inr (- 1, []))
      | _ \<Rightarrow> Inr (- 1, []))"

definition sysbus_msg_subscribe :: "'cb sysbus_handle option \<Rightarrow> u16 list option \<Rightarrow> int \<Rightarrow> (int \<Rightarrow> int) \<Rightarrow>
    c_fault + (int \<times> u8 list)" where
  "sysbus_msg_subscribe = sysbus_control 1"

definition sysbus_msg_unsubscribe :: "'cb sysbus_handle option \<Rightarrow> u16 list option \<Rightarrow> int \<Rightarrow> (int \<Rightarrow> int) \<Rightarrow>
    c_fault + (int \<times> u8 list)" where
  "sysbus_msg_unsubscribe = sysbus_control 2"

section \<open>Receiving\<close>

text \<open>
  The inner loop of \<^verbatim>\<open>sysbus_rx_thread\<close>: complete packets from offset \<open>i\<close> on, and the offset where it
  stops. A size below 2 gives the callback a negative length.
\<close>

function rx_parse :: "bool \<Rightarrow> mem \<Rightarrow> nat \<Rightarrow> nat \<Rightarrow> pkt_call list \<times> nat" where
  "rx_parse cb m tot i =
     (if i + 3 < tot
      then (let pkt_size = le16 (m i) (m (i + 1)); pkt_id = le16 (m (i + 2)) (m (i + 3))
            in if i + unat pkt_size + 2 \<le> tot
               then (let (cs, j) = rx_parse cb m tot (i + unat pkt_size + 2)
                     in ((if cb then [PktProc pkt_id (Some (mem_get m (i + 4) (unat pkt_size - 2)))
                                             (int (unat pkt_size) - 2)] else []) @ cs, j))
               else ([], i))
      else ([], i))"
  by pat_completeness auto
termination
  by (relation "measure (\<lambda>(cb, m, tot, i). tot - i)") auto

declare rx_parse.simps [simp del]

text \<open>One round of the outer loop, for a \<^verbatim>\<open>read\<close> that returned the bytes \<open>c\<close>.\<close>

definition rx_read :: "bool \<Rightarrow> sysbus_rx \<Rightarrow> u8 list \<Rightarrow> pkt_call list \<times> sysbus_rx" where
  "rx_read cb s c =
     (let m = mem_put (rx_buff s) (rx_total_size s) c;
          tot = rx_total_size s + length c;
          (cs, i) = rx_parse cb m tot 0
      in (cs, if i > 0 then \<lparr>rx_buff = mem_put m 0 (mem_get m i (tot - i)), rx_total_size = tot - i\<rparr>
              else \<lparr>rx_buff = m, rx_total_size = tot\<rparr>))"

text \<open>
  The thread: it reads until \<^verbatim>\<open>read\<close> returns 0 or fails (an empty chunk, or the end of the list),
  then reports the end of the connection with a null packet.
\<close>

fun sysbus_rx_loop :: "bool \<Rightarrow> sysbus_rx \<Rightarrow> u8 list list \<Rightarrow> pkt_call list" where
  "sysbus_rx_loop cb s [] = (if cb then [PktProc 0 None 0] else [])"
| "sysbus_rx_loop cb s (c # cs) =
     (if c = [] then (if cb then [PktProc 0 None 0] else [])
      else (let (os, s') = rx_read cb s c in os @ sysbus_rx_loop cb s' cs))"

definition sysbus_rx_thread :: "'cb sysbus_handle option \<Rightarrow> mem \<Rightarrow> u8 list list \<Rightarrow> pkt_call list" where
  "sysbus_rx_thread handle m chunks =
     (case handle of
        None \<Rightarrow> []
      | Some h \<Rightarrow> sysbus_rx_loop (pkt_proc_fn h \<noteq> None) \<lparr>rx_buff = m, rx_total_size = 0\<rparr> chunks)"

section \<open>Connecting, disconnecting, accessors\<close>

text \<open>\<^verbatim>\<open>strncpy\<close> of a C string (its bytes, without the terminator) and \<^verbatim>\<open>strlen\<close> within a block.\<close>

definition c_strncpy :: "u8 list \<Rightarrow> nat \<Rightarrow> u8 list" where
  "c_strncpy src n = take n src @ replicate (n - length src) 0"

definition c_strlen :: "u8 list \<Rightarrow> c_fault + nat" where
  "c_strlen bs = (let n = length (takeWhile (\<lambda>b. b \<noteq> 0) bs) in if n < length bs then Inr n else Inl OutOfBounds)"

datatype sb_action = SbClose int | SbJoin | SbFree | SbExit

text \<open>
  \<open>alloc\<close>, \<open>sock\<close>, \<open>conn\<close>, \<open>thr\<close>, \<open>wr\<close> are the results of \<^verbatim>\<open>malloc\<close>, \<^verbatim>\<open>socket\<close>, \<^verbatim>\<open>connect\<close>,
  \<^verbatim>\<open>pthread_create\<close> and \<^verbatim>\<open>write\<close>. The result is the handle (or null), the clean-up done and the bytes
  written. \<^verbatim>\<open>strcpy\<close> into the 108 bytes of \<^verbatim>\<open>sun_path\<close> is not checked by the code.
\<close>

definition sysbus_connect :: "u8 list \<Rightarrow> u8 list \<Rightarrow> 'cb option \<Rightarrow> bool \<Rightarrow> int \<Rightarrow> int \<Rightarrow> int \<Rightarrow> (int \<Rightarrow> int) \<Rightarrow>
    c_fault + ('cb sysbus_handle option \<times> sb_action list \<times> u8 list)" where
  "sysbus_connect bname cname cb alloc sock conn thr wr =
     (if \<not> alloc then Inr (None, [], [])
      else if sock < 0 then Inr (None, [SbFree], [])
      else if length bname + 1 > 108 then Inl OutOfBounds
      else if conn < 0 then Inr (None, [SbClose sock, SbFree], [])
      else if thr \<noteq> 0 then Inr (None, [SbClose sock, SbFree], [])
      else (let name = [0, 0] @ c_strncpy cname (SYSBUS_NAME_SIZE - 2);
                h = \<lparr>bus_name = c_strncpy bname SYSBUS_NAME_SIZE, client_name = name, sb_fd = sock,
                     pkt_proc_fn = cb, log_lvl = 0\<rparr>
            in case c_strlen (drop 2 name) of
                 Inl f \<Rightarrow> Inl f
               | Inr n \<Rightarrow>
                   (case sysbus_msg_send (Some h) 0 (Some name) (int (3 + n)) wr of
                      Inl f \<Rightarrow> Inl f
                    | Inr (ret, buf) \<Rightarrow>
                        Inr (if ret \<noteq> int (3 + n) then (None, [SbClose sock, SbJoin, SbFree], buf)
                             else (Some h, [], buf)))))"

definition sysbus_disconnect :: "'cb sysbus_handle option \<Rightarrow> bool \<Rightarrow> int \<times> sb_action list" where
  "sysbus_disconnect handle is_rx_thread =
     (case handle of
        None \<Rightarrow> (- 1, [])
      | Some h \<Rightarrow> (0, if \<not> is_rx_thread then [SbClose (sb_fd h), SbJoin, SbFree]
                      else [SbClose (sb_fd h), SbFree, SbExit]))"

definition sysbus_get_client_name :: "'cb sysbus_handle option \<Rightarrow> u8 list option" where
  "sysbus_get_client_name handle = map_option (\<lambda>h. drop 2 (client_name h)) handle"

definition sysbus_get_bus_name :: "'cb sysbus_handle option \<Rightarrow> u8 list option" where
  "sysbus_get_bus_name handle = map_option bus_name handle"

definition syslog_set_level :: "'cb sysbus_handle option \<Rightarrow> u8 \<Rightarrow> u8 \<times> 'cb sysbus_handle option" where
  "syslog_set_level handle level =
     (case handle of
        None \<Rightarrow> (- 1, None)
      | Some h \<Rightarrow> (let h' = (if level \<ge> 0 \<and> level \<le> 4 then h\<lparr>log_lvl := level\<rparr> else h) in (log_lvl h', Some h')))"

definition syslog_get_level :: "'cb sysbus_handle option \<Rightarrow> u8" where
  "syslog_get_level handle = (case handle of None \<Rightarrow> - 1 | Some h \<Rightarrow> log_lvl h)"

section \<open>The receive thread decodes the stream\<close>

text \<open>The callback a complete packet leads to.\<close>

definition pkt_emit :: "u8 list \<Rightarrow> pkt_call" where
  "pkt_emit w = PktProc (le16 (w ! 2) (w ! 3)) (Some (drop 4 (take (pkt_total w) w))) (int (pkt_total w) - 4)"

lemma pkt_total_mem_get:
  "2 \<le> n \<Longrightarrow> pkt_total (mem_get m i n) = unat (le16 (m i) (m (i + 1))) + 2"
  by (simp add: pkt_total_def)

lemma rx_parse_deframe:
  "i \<le> tot \<Longrightarrow> cb \<Longrightarrow> \<exists>j. rx_parse cb m tot i = (map pkt_emit (fst (deframe 4 (mem_get m i (tot - i)))), j) \<and>
    i \<le> j \<and> j \<le> tot \<and> snd (deframe 4 (mem_get m i (tot - i))) = mem_get m j (tot - j)"
proof (induction cb m tot i rule: rx_parse.induct)
  case (1 cb m tot i)
  let ?n = "unat (le16 (m i) (m (i + 1)))" and ?bs = "mem_get m i (tot - i)"
  show ?case
  proof (cases "i + 3 < tot \<and> i + ?n + 2 \<le> tot")
    case True
    then have t: "pkt_total ?bs = ?n + 2" by (intro pkt_total_mem_get) linarith
    have len: "4 \<le> length ?bs" "pkt_total ?bs \<le> length ?bs" using True t by auto
    have rest: "drop (pkt_total ?bs) ?bs = mem_get m (i + ?n + 2) (tot - (i + ?n + 2))" by (simp add: t add.assoc)
    have "max 4 (?n + 2) \<le> tot - i" using True by auto
    then have win: "take (max 4 (pkt_total ?bs)) ?bs = mem_get m i (max 4 (?n + 2))"
      by (simp only: take_mem_get t min_absorb1)
    have wt: "pkt_total (mem_get m i (max 4 (?n + 2))) = ?n + 2" by (rule pkt_total_mem_get) simp
    have emit: "pkt_emit (mem_get m i (max 4 (?n + 2))) =
        PktProc (le16 (m (i + 2)) (m (i + 3))) (Some (mem_get m (i + 4) (?n - 2))) (int ?n - 2)"
      unfolding pkt_emit_def wt by (simp add: min_def)
    obtain j where j: "rx_parse cb m tot (i + ?n + 2) =
        (map pkt_emit (fst (deframe 4 (mem_get m (i + ?n + 2) (tot - (i + ?n + 2))))), j)"
      "i + ?n + 2 \<le> j" "j \<le> tot"
      "snd (deframe 4 (mem_get m (i + ?n + 2) (tot - (i + ?n + 2)))) = mem_get m j (tot - j)"
      using "1.IH" [OF _ refl refl] True "1.prems" by auto
    have step: "rx_parse cb m tot i = (PktProc (le16 (m (i + 2)) (m (i + 3))) (Some (mem_get m (i + 4) (?n - 2)))
        (int ?n - 2) # fst (rx_parse cb m tot (i + ?n + 2)), j)"
      using True "1.prems" j(1) by (subst rx_parse.simps) (simp add: Let_def)
    show ?thesis unfolding deframe_step [OF len] rest win fst_conv snd_conv list.map emit step j(1)
      using j(2-4) by auto
  next
    case False
    then have "rx_parse cb m tot i = ([], i)" by (subst rx_parse.simps) (auto simp: Let_def)
    moreover have "\<not> (4 \<le> length ?bs \<and> pkt_total ?bs \<le> length ?bs)"
      using False pkt_total_mem_get [of "tot - i" m i] by auto
    ultimately show ?thesis using "1.prems" by (simp add: deframe_stop)
  qed
qed

definition rx_pending :: "sysbus_rx \<Rightarrow> u8 list" where
  "rx_pending s = mem_get (rx_buff s) 0 (rx_total_size s)"

definition rx_room :: "sysbus_rx \<Rightarrow> nat" where
  "rx_room s = SYSBUS_RX_BUF_SIZE - rx_total_size s"

definition rx_wf :: "sysbus_rx \<Rightarrow> bool" where
  "rx_wf s \<longleftrightarrow> rx_total_size s \<le> SYSBUS_RX_BUF_SIZE"

lemma rx_read_spec:
  assumes "rx_wf s" "length c \<le> rx_room s"
  shows "fst (rx_read True s c) = map pkt_emit (fst (deframe 4 (rx_pending s @ c)))"
    and "rx_pending (snd (rx_read True s c)) = snd (deframe 4 (rx_pending s @ c))"
    and "rx_wf (snd (rx_read True s c))"
proof -
  let ?m = "mem_put (rx_buff s) (rx_total_size s) c" and ?t = "rx_total_size s + length c"
  have all: "mem_get ?m 0 (?t - 0) = rx_pending s @ c"
    using mem_get_put_extend [of 0 "rx_total_size s" "rx_buff s" c] by (simp add: rx_pending_def)
  obtain j where j: "rx_parse True ?m ?t 0 = (map pkt_emit (fst (deframe 4 (rx_pending s @ c))), j)"
    "j \<le> ?t" "snd (deframe 4 (rx_pending s @ c)) = mem_get ?m j (?t - j)"
    using rx_parse_deframe [of 0 ?t True ?m] unfolding all by auto
  have copy: "mem_get (mem_put ?m 0 (mem_get ?m j (?t - j))) 0 (?t - j) = mem_get ?m j (?t - j)"
    using mem_get_put_same [of ?m 0 "mem_get ?m j (?t - j)"] by simp
  show "fst (rx_read True s c) = map pkt_emit (fst (deframe 4 (rx_pending s @ c)))"
    by (simp add: rx_read_def Let_def j(1))
  show "rx_pending (snd (rx_read True s c)) = snd (deframe 4 (rx_pending s @ c))"
    using j(3) copy by (simp add: rx_read_def Let_def j(1) rx_pending_def)
  show "rx_wf (snd (rx_read True s c))"
    using assms j(2) by (auto simp: rx_read_def Let_def j(1) rx_wf_def rx_room_def)
qed

interpretation crx: framed_rx "rx_read True" rx_wf rx_pending rx_room pkt_emit 4
proof
  fix s c
  show "0 < rx_room s" if "rx_wf s" "length (rx_pending s) < 65537"
    using that by (simp add: rx_room_def rx_pending_def)
qed (simp_all add: rx_read_spec)

lemma sysbus_rx_loop_run:
  assumes "\<forall>c \<in> set cs. c \<noteq> []"
  shows "sysbus_rx_loop True s cs = fst (rx_run (rx_read True) s cs) @ [PktProc 0 None 0]"
  using assms by (induction cs arbitrary: s) (auto simp: case_prod_beta)

lemma pkt_emit_frame:
  assumes "payload_ok d"
  shows "pkt_emit (frame i d) = PktProc i (Some d) (int (length d))"
proof -
  have "pkt_total (frame i d) = length d + 4" using pkt_total_frame [OF assms, of i "[]"] by simp
  moreover have "frame i d ! 2 = lo8 i" "frame i d ! 3 = hi8 i" by (simp_all add: frame_def Let_def)
  moreover have "drop 4 (frame i d) = d" by (simp add: frame_def Let_def)
  ultimately show ?thesis by (simp add: pkt_emit_def)
qed

lemma rx_thread_calls:
  assumes "pkt_proc_fn h \<noteq> None" "\<forall>p \<in> set ps. payload_ok (snd p)"
    and "concat chunks = concat (map (\<lambda>(i, d). frame i d) ps)" "\<forall>c \<in> set chunks. c \<noteq> []"
    and "rx_fits (rx_read True) rx_room \<lparr>rx_buff = m, rx_total_size = 0\<rparr> chunks"
  shows "sysbus_rx_thread (Some h) m chunks =
    map (\<lambda>(i, d). PktProc i (Some d) (int (length d))) ps @ [PktProc 0 None 0]"
proof -
  let ?s = "\<lparr>rx_buff = m, rx_total_size = 0\<rparr>"
  obtain os s' where run: "rx_run (rx_read True) ?s chunks = (os, s')" by fastforce
  have p: "rx_pending ?s = []" by (simp add: rx_pending_def)
  have "deframe 4 [] = ([], [])" by (simp add: deframe_stop)
  then have "os = map pkt_emit (fst (deframe 4 (concat chunks)))"
    using crx.run_deframe [OF _ assms(5) run] by (simp add: p rx_wf_def)
  also have "\<dots> = map pkt_emit (map (\<lambda>(i, d). frame i d) ps)"
    using deframe_frames [of ps 4 "[]"] assms(2,3) by (simp add: deframe_stop)
  also have "\<dots> = map (\<lambda>(i, d). PktProc i (Some d) (int (length d))) ps"
    using assms(2) by (auto simp: pkt_emit_frame)
  finally show ?thesis
    using assms(1) sysbus_rx_loop_run [OF assms(4), of ?s] run by (simp add: sysbus_rx_thread_def)
qed

section \<open>Sending builds frames\<close>

lemma sysbus_msg_send_frame:
  assumes "sb_fd h \<ge> 0" "payload_ok d"
  shows "sysbus_msg_send (Some h) i (Some d) (int (length d)) wr =
    Inr (if wr (int (length d) + 4) > 4 then wr (int (length d) + 4) - 4 else 0, frame i d)"
  using assms by (simp add: sysbus_msg_send_def payload_ok_def frame_def Let_def add.commute)

lemma control_bytes: "length (concat (map (\<lambda>i. [lo8 i, hi8 i]) ids)) = 2 * length ids"
  by (induction ids) auto

lemma lo_hi_0: "lo8 0 = 0" "hi8 0 = 0"
  by (simp_all add: lo8_def hi8_def)

lemma u16_wrap: "(65536 :: u16) = 0"
  by simp

lemma sysbus_control_frame:
  assumes "sb_fd h \<ge> 0" "0 < length ids" "length ids \<le> 32765"
  shows "sysbus_control cmd (Some h) (Some ids) (int (length ids)) wr =
    Inr (c_div2 (wr (int (length ids) * 2 + 6) - 6),
         frame 0 ([cmd, 0] @ concat (map (\<lambda>i. [lo8 i, hi8 i]) ids)))"
proof -
  have "(word_of_int (int (length ids) * 2 + 4) :: u16) = of_nat (length ([cmd, 0] @ concat (map (\<lambda>i. [lo8 i, hi8 i]) ids)) + 2)"
    by (simp add: control_bytes mult.commute)
  then show ?thesis using assms
    by (simp add: sysbus_control_def frame_def Let_def lo_hi_0 add.commute)
qed

lemma sysbus_connect_sends:
  assumes "length bname < 108" "0 \<notin> set cname" "length cname < 254" "sock \<ge> 0" "conn \<ge> 0"
  shows "sysbus_connect bname cname cb True sock conn 0 (\<lambda>n. n) =
    Inr (Some \<lparr>bus_name = c_strncpy bname 256, client_name = [0, 0] @ c_strncpy cname 254, sb_fd = sock,
      pkt_proc_fn = cb, log_lvl = 0\<rparr>, [], frame 0 ([0, 0] @ cname @ [0]))"
proof -
  let ?name = "c_strncpy cname 254"
  let ?h = "\<lparr>bus_name = c_strncpy bname 256, client_name = 0 # 0 # ?name, sb_fd = sock,
    pkt_proc_fn = cb, log_lvl = 0\<rparr>"
  have n: "c_strlen ?name = Inr (length cname)"
  proof -
    have "takeWhile (\<lambda>b. b \<noteq> 0) (cname @ replicate (254 - length cname) 0) = cname"
      using assms(2,3) by (subst takeWhile_append2) (auto simp: takeWhile_replicate)
    then show ?thesis using assms(3) by (simp add: c_strlen_def c_strncpy_def Let_def)
  qed
  have t: "take (Suc (length cname)) ?name = cname @ [0]"
    using assms(3) by (simp add: c_strncpy_def Suc_diff_le)
  have "sysbus_msg_send (Some ?h) 0 (Some (0 # 0 # ?name)) (int (3 + length cname)) (\<lambda>n. n) =
      Inr (int (3 + length cname), frame 0 ([0, 0] @ cname @ [0]))"
    using assms(3,4) t
    by (simp add: sysbus_msg_send_def frame_def Let_def c_strncpy_def nat_add_distrib numeral_3_eq_3)
  then show ?thesis using assms n by (simp add: sysbus_connect_def Let_def)
qed

section \<open>Properties\<close>

definition demo_handle :: "unit sysbus_handle" where
  "demo_handle = \<lparr>bus_name = [], client_name = [], sb_fd = 4, pkt_proc_fn = Some (), log_lvl = 0\<rparr>"



text \<open>
  The receive buffer never fills up: after any sequence of reads from a fresh start, whatever
  bytes arrived, there is room for at least one more byte, so the \<^verbatim>\<open>read\<close> of the next round never
  asks for 0 bytes (which the thread would take for the end of the connection).
\<close>

theorem sysbus_rx_never_full:
  assumes "rx_fits (rx_read True) rx_room \<lparr>rx_buff = m, rx_total_size = 0\<rparr> chunks"
    and "rx_run (rx_read True) \<lparr>rx_buff = m, rx_total_size = 0\<rparr> chunks = (calls, s')"
  shows "rx_total_size s' < SYSBUS_RX_BUF_SIZE"
proof -
  have "deframe 4 [] = ([], [])" by (simp add: deframe_stop)
  then have "0 < rx_room s'"
    using crx.run_room [OF _ assms] by (simp add: rx_wf_def rx_pending_def)
  then show ?thesis by (simp add: rx_room_def)
qed

theorem sysbus_rx_never_full_witness:
  "rx_total_size (snd (rx_run (rx_read True) \<lparr>rx_buff = (\<lambda>_. 0), rx_total_size = 0\<rparr> [[255, 255, 1]])) < 65540"
proof -
  obtain calls s' where r: "rx_run (rx_read True) \<lparr>rx_buff = (\<lambda>_. 0), rx_total_size = 0\<rparr> [[255, 255, 1]] = (calls, s')"
    by fastforce
  have "rx_fits (rx_read True) rx_room \<lparr>rx_buff = (\<lambda>_. 0), rx_total_size = 0\<rparr> [[255, 255, 1]]"
    by (simp add: rx_room_def)
  from sysbus_rx_never_full [OF this r] show ?thesis unfolding r by simp
qed

text \<open>
  \<^verbatim>\<open>sysbus_msg_send\<close> hands exactly one frame with the given id and payload to \<^verbatim>\<open>write\<close>, for every
  payload the size field can describe, and returns the payload bytes written; the subscription calls
  hand over the control frame with their command and the ids, for up to 32765 ids.
\<close>

theorem sysbus_send_frames:
  assumes "sb_fd h \<ge> 0" "length d \<le> 65533" "0 < length ids" "length ids \<le> 32765"
  shows "sysbus_msg_send (Some h) i (Some d) (int (length d)) (\<lambda>n. n) = Inr (int (length d), frame i d) \<and>
    sysbus_msg_subscribe (Some h) (Some ids) (int (length ids)) (\<lambda>n. n) =
      Inr (int (length ids), frame 0 ([1, 0] @ concat (map (\<lambda>i. [lo8 i, hi8 i]) ids))) \<and>
    sysbus_msg_unsubscribe (Some h) (Some ids) (int (length ids)) (\<lambda>n. n) =
      Inr (int (length ids), frame 0 ([2, 0] @ concat (map (\<lambda>i. [lo8 i, hi8 i]) ids)))"
  using sysbus_msg_send_frame [OF assms(1), of d i "\<lambda>n. n"] sysbus_control_frame [OF assms(1,3,4)] assms(2)
  by (auto simp: payload_ok_def sysbus_msg_subscribe_def sysbus_msg_unsubscribe_def c_div2_def)

theorem sysbus_send_frames_witness:
  "sysbus_msg_subscribe (Some demo_handle) (Some [30]) 1 (\<lambda>n. n) = Inr (1, frame 0 [1, 0, lo8 30, hi8 30])"
  using sysbus_send_frames [of demo_handle "[]" "[30]" 0] by (simp add: demo_handle_def)

text \<open>
  The guards of the two sending calls miss cases. A negative length passes the size checks of
  \<^verbatim>\<open>sysbus_msg_send\<close> and makes its \<^verbatim>\<open>memcpy\<close> leave the buffer; a subscription to 32766 ids passes the
  (absent) checks of \<^verbatim>\<open>sysbus_msg_subscribe\<close> and goes out with a size field of 0.
\<close>

theorem sysbus_send_unchecked:
  assumes "sb_fd h \<ge> 0" "n < 0" "length ids = 32766"
  shows "sysbus_msg_send (Some h) i (Some d) n wr = Inl OutOfBounds \<and>
    (\<exists>ret rest. sysbus_msg_subscribe (Some h) (Some ids) 32766 wr = Inr (ret, 0 # 0 # rest) \<and>
       length rest = 65536)"
  using assms
  by (simp add: sysbus_msg_send_def sysbus_msg_subscribe_def sysbus_control_def control_bytes Let_def u16_wrap lo_hi_0
      del: numeral_eq_iff)

theorem sysbus_send_unchecked_witness:
  "sysbus_msg_send (Some demo_handle) 7 (Some [1]) (- 1) (\<lambda>n. n) = Inl OutOfBounds"
  using sysbus_send_unchecked [of demo_handle "- 1" "replicate 32766 1" 7 "[1]" "\<lambda>n. n"]
  by (simp add: demo_handle_def)

text \<open>
  A connection attempt that fails after the handle was allocated frees it, and closes the socket
  if there was one; one that succeeds has sent the frame announcing the client's name, terminated, and
  returns a handle carrying it. Names longer than the field are cut off without their terminator, and
  the length computation then runs off the field.
\<close>

theorem sysbus_connect_spec:
  assumes "length bname < 108" "0 \<notin> set cname"
  shows "(case sysbus_connect bname cname cb alloc sock conn thr (\<lambda>n. n) of
      Inr (None, acts, sent) \<Rightarrow> (alloc \<longrightarrow> SbFree \<in> set acts) \<and> (alloc \<and> sock \<ge> 0 \<longrightarrow> SbClose sock \<in> set acts)
    | Inr (Some h, acts, sent) \<Rightarrow> sent = frame 0 ([0, 0] @ cname @ [0]) \<and> sb_fd h = sock \<and>
        take (length cname) (the (sysbus_get_client_name (Some h))) = cname
    | Inl f \<Rightarrow> length cname \<ge> 254)"
proof (cases "alloc \<and> sock \<ge> 0 \<and> conn \<ge> 0 \<and> thr = 0")
  case False
  then show ?thesis using assms by (auto simp: sysbus_connect_def)
next
  case True
  let ?name = "c_strncpy cname 254"
  show ?thesis
  proof (cases "length cname < 254")
    case short: True
    then show ?thesis using True assms sysbus_connect_sends [OF assms short, of sock conn cb]
      by (simp add: sysbus_get_client_name_def c_strncpy_def)
  next
    case False
    then have nz: "takeWhile (\<lambda>b. b \<noteq> 0) ?name = ?name"
      using assms(2) by (auto simp: c_strncpy_def takeWhile_eq_all_conv dest: in_set_takeD)
    have "c_strlen ?name = Inl OutOfBounds" unfolding c_strlen_def nz by simp
    then show ?thesis using True assms False by (simp add: sysbus_connect_def Let_def)
  qed
qed

theorem sysbus_connect_spec_witness:
  "case sysbus_connect [47] [97, 98] (Some ()) True 5 0 0 (\<lambda>n. n) of
     Inr (Some h, _, sent) \<Rightarrow> sent = frame 0 [0, 0, 97, 98, 0] | _ \<Rightarrow> True"
  using sysbus_connect_spec [where bname = "[47]" and cname = "[97, 98]" and cb = "Some ()" and alloc = True
    and sock = 5 and conn = 0 and thr = 0]
  by (simp split: sum.splits prod.splits option.splits)

end
