(* ===== verification/LocalServer.thy ===== *)
theory LocalServer
  imports MultiplexIO SysbusClient
begin

text \<open>
  The message server (\<^verbatim>\<open>apps/sysbus/src/local_server.c\<close>): clients connected over a local socket,
  subscription lists indexed by packet id, and the callbacks the multiplexer calls when a socket is
  readable. The state extends the multiplexer's runtime, which the server owns. A client and a
  subscription (\<^verbatim>\<open>client_runtime_ref_list_t\<close>) are named by the address of their allocation; each
  subscription stands in two lists at once, that of its packet id and that of its client, and each
  client in list 0. The nodes are constructors of \<open>srv_node\<close>, so \<^verbatim>\<open>list_entry\<close> is their inverse and
  applying it to a node of the other structure shows as such.

  System calls and \<^verbatim>\<open>malloc\<close> are answered by a function \<open>sys\<close> from a call counter (\<open>tick\<close>) to
  their results. \<^verbatim>\<open>syslog_write\<close> does nothing, because \<^verbatim>\<open>syslog_handle\<close> is null
  (\<^verbatim>\<open>local_server_start\<close> sets it so and the assignment in \<^verbatim>\<open>main.c\<close> is compiled out).
\<close>

section \<open>State\<close>

datatype srv_cb = ComRd | ListenRd

datatype srv_param = PCli nat | PServer | PNull

datatype srv_node = SubHead u16 | CliList nat | CliRefHead nat | RefList nat | RefRef nat

definition CLI_RX_BUF_SIZE :: nat where "CLI_RX_BUF_SIZE = 65540"
definition CLI_NAME_SIZE :: nat where "CLI_NAME_SIZE = 32"

record client_runtime =
  cli_name :: mem
  cli_rx_buf :: mem
  cli_rx_idx :: nat
  cli_io_handle :: "nat option"

datatype srv_action = SrvClose int | SrvUnlink "u8 list" | SrvFree

text \<open>\<open>clients\<close> and \<open>refs\<close> are the allocated blocks; a subscription holds the pointer to its client.\<close>

record local_server = "(srv_cb, srv_param) multiplex_runtime" +
  file_name :: "u8 list"
  listen_io_handle :: "nat option"
  sheap :: "srv_node heap"
  clients :: "nat \<rightharpoonup> client_runtime"
  refs :: "nat \<rightharpoonup> nat"
  tick :: nat
  acts :: "srv_action list"

text \<open>
  What the calls return: \<open>sc_read\<close> the bytes a \<^verbatim>\<open>read\<close> has available (none at end of file) or its
  failure, \<open>sc_err\<close> errno, \<open>sc_alloc\<close> and \<open>sc_block\<close> the address and the content of a block from
  \<^verbatim>\<open>malloc\<close>, \<open>sc_io\<close> the same for the handle, \<open>sc_ctl\<close> the result of \<^verbatim>\<open>epoll_ctl\<close>.
\<close>

record srv_syscall =
  sc_read :: "u8 list option"
  sc_err :: int
  sc_alloc :: "nat option"
  sc_block :: mem
  sc_io :: "nat option"
  sc_ctl :: int
  sc_accept :: int
  sc_getfl :: int
  sc_setfl :: int

type_synonym srv_sys = "nat \<Rightarrow> srv_syscall"

text \<open>\<^verbatim>\<open>malloc\<close> never returns a block in use: such an answer counts as a failure.\<close>

definition malloc_at :: "(nat \<rightharpoonup> 'a) \<Rightarrow> nat option \<Rightarrow> nat option" where
  "malloc_at live a = (case a of None \<Rightarrow> None | Some x \<Rightarrow> if live x = None then Some x else None)"

definition next_tick :: "local_server \<Rightarrow> local_server" where
  "next_tick s = s\<lparr>tick := tick s + 1\<rparr>"

text \<open>\<^verbatim>\<open>close\<close> also takes the descriptor out of the epoll set.\<close>

definition close_fd :: "int \<Rightarrow> local_server \<Rightarrow> local_server" where
  "close_fd fd s = s\<lparr>ep_interest := (ep_interest s)(fd := None), acts := acts s @ [SrvClose fd]\<rparr>"

section \<open>Subscriptions\<close>

text \<open>
  The search loop of \<^verbatim>\<open>subscribe_pkt\<close>. On the node of a client (list 0) \<^verbatim>\<open>list_entry\<close> yields a pointer
  whose member \<^verbatim>\<open>client\<close> lies on that client's member \<^verbatim>\<open>server\<close>, which is the address of no client.
\<close>

partial_function (option) subscribe_find ::
    "nat \<Rightarrow> srv_node \<Rightarrow> srv_node \<Rightarrow> local_server \<Rightarrow> (c_fault + nat option) option" where
  "subscribe_find cli l n s =
     (if n = l then Some (Inr None)
      else (case n of
              RefList r \<Rightarrow>
                (case refs s r of
                   None \<Rightarrow> Some (Inl UseAfterFree)
                 | Some c \<Rightarrow> if c = cli then Some (Inr (Some r)) else subscribe_find cli l (nnext (sheap s n)) s)
            | CliList c \<Rightarrow> subscribe_find cli l (nnext (sheap s n)) s
            | _ \<Rightarrow> Some (Inl TypeConfusion)))"

definition subscribe_pkt :: "srv_sys \<Rightarrow> nat \<Rightarrow> srv_node \<Rightarrow> local_server \<Rightarrow>
    c_fault + (nat option \<times> local_server)" where
  "subscribe_pkt sys cli l s =
     bind_fault (run_loop (subscribe_find cli l (nnext (sheap s l)) s)) (\<lambda>found.
       case found of
         Some r \<Rightarrow> Inr (Some r, s)
       | None \<Rightarrow>
           (case malloc_at (refs s) (sc_alloc (sys (tick s))) of
              None \<Rightarrow> Inr (None, next_tick s)
            | Some r \<Rightarrow>
                (let h1 = list_init (sheap s) (RefRef r);
                     h2 = list_init h1 (RefList r);
                     h3 = list_insert_after h2 l (RefList r);
                     h4 = list_insert_after h3 (CliRefHead cli) (RefRef r)
                 in Inr (Some r, next_tick (s\<lparr>sheap := h4, refs := (refs s)(r \<mapsto> cli)\<rparr>)))))"

text \<open>Unlinking a subscription from both lists and freeing it.\<close>

definition drop_ref :: "nat \<Rightarrow> local_server \<Rightarrow> local_server" where
  "drop_ref r s = s\<lparr>sheap := list_remove (list_remove (sheap s) (RefList r)) (RefRef r),
                    refs := (refs s)(r := None)\<rparr>"

text \<open>The loop fetches the successor before it frees the node it stands on.\<close>

partial_function (option) unsubscribe_loop :: "nat \<Rightarrow> srv_node \<Rightarrow> srv_node \<Rightarrow> nat \<Rightarrow> local_server \<Rightarrow>
    (c_fault + (nat \<times> local_server)) option" where
  "unsubscribe_loop cli l n ret s =
     (if n = l then Some (Inr (ret, s))
      else (case n of
              RefList r \<Rightarrow>
                (case refs s r of
                   None \<Rightarrow> Some (Inl UseAfterFree)
                 | Some c \<Rightarrow>
                     if c = cli then unsubscribe_loop cli l (nnext (sheap s n)) (ret + 1) (drop_ref r s)
                     else unsubscribe_loop cli l (nnext (sheap s n)) ret s)
            | CliList c \<Rightarrow> unsubscribe_loop cli l (nnext (sheap s n)) ret s
            | _ \<Rightarrow> Some (Inl TypeConfusion)))"

definition unsubscribe_pkt :: "nat \<Rightarrow> srv_node \<Rightarrow> local_server \<Rightarrow> c_fault + (nat \<times> local_server)" where
  "unsubscribe_pkt cli l s = run_loop (unsubscribe_loop cli l (nnext (sheap s l)) 0 s)"

text \<open>The loop of \<^verbatim>\<open>dispatch_pkt\<close>: a failing write is only logged.\<close>

partial_function (option) dispatch_loop :: "srv_sys \<Rightarrow> u8 list \<Rightarrow> int \<Rightarrow> srv_node \<Rightarrow> srv_node \<Rightarrow> nat \<Rightarrow>
    local_server \<Rightarrow> (c_fault + (nat \<times> local_server)) option" where
  "dispatch_loop sys data len l n ret s =
     (if n = l then Some (Inr (ret, s))
      else (case n of
              RefList r \<Rightarrow>
                (case refs s r of
                   None \<Rightarrow> Some (Inl UseAfterFree)
                 | Some c \<Rightarrow>
                     (case clients s c of
                        None \<Rightarrow> Some (Inl UseAfterFree)
                      | Some cl \<Rightarrow>
                          (case multiplex_io_write (Some s) (cli_io_handle cl) (Some data) len
                                  (sc_ctl (sys (tick s))) (sc_err (sys (tick s))) of
                             Inl f \<Rightarrow> Some (Inl f)
                           | Inr (rv, None) \<Rightarrow> Some (Inl NullDeref)
                           | Inr (rv, Some s') \<Rightarrow>
                               dispatch_loop sys data len l (nnext (sheap s' n)) (ret + 1) (next_tick s'))))
            | _ \<Rightarrow> Some (Inl TypeConfusion)))"

definition dispatch_pkt :: "srv_sys \<Rightarrow> u8 list \<Rightarrow> int \<Rightarrow> srv_node \<Rightarrow> local_server \<Rightarrow>
    c_fault + (nat \<times> local_server)" where
  "dispatch_pkt sys data len l s = run_loop (dispatch_loop sys data len l (nnext (sheap s l)) 0 s)"

section \<open>Packets\<close>

text \<open>
  One complete packet at \<open>p\<close>, the receive buffer from \<^verbatim>\<open>&rx_buf[base_idx]\<close> on: dispatched by its id,
  or, with id 0, a control packet: 0 sets the client's name, 1 subscribes, 2 unsubscribes. The ids
  of a control packet stand at offsets \<^verbatim>\<open>i + 2\<close> for even \<^verbatim>\<open>i\<close> from 4 up to its size.
\<close>

definition control_ids :: "mem \<Rightarrow> u16 \<Rightarrow> u16 list" where
  "control_ids p pkt_size =
     map (\<lambda>k. le16 (p (2 * k + 6)) (p (2 * k + 7))) [0..<(unat (pkt_size AND 0xFFFE) - 4) div 2]"

fun subscribe_ids :: "srv_sys \<Rightarrow> nat \<Rightarrow> u16 list \<Rightarrow> local_server \<Rightarrow> c_fault + local_server" where
  "subscribe_ids sys cli [] s = Inr s"
| "subscribe_ids sys cli (i # is) s =
     bind_fault (subscribe_pkt sys cli (SubHead i) s) (\<lambda>(_, s'). subscribe_ids sys cli is s')"

fun unsubscribe_ids :: "nat \<Rightarrow> u16 list \<Rightarrow> local_server \<Rightarrow> c_fault + local_server" where
  "unsubscribe_ids cli [] s = Inr s"
| "unsubscribe_ids cli (i # is) s =
     (if i \<noteq> 0
      then bind_fault (unsubscribe_pkt cli (SubHead i) s) (\<lambda>(_, s'). unsubscribe_ids cli is s')
      else unsubscribe_ids cli is s)"

definition set_client_name :: "nat \<Rightarrow> u8 list \<Rightarrow> local_server \<Rightarrow> c_fault + local_server" where
  "set_client_name cli bs s =
     (case clients s cli of
        None \<Rightarrow> Inl UseAfterFree
      | Some cl \<Rightarrow>
          (let i = min (length bs) (CLI_NAME_SIZE - 1)
           in Inr (s\<lparr>clients := (clients s)(cli \<mapsto>
                cl\<lparr>cli_name := (mem_put (cli_name cl) 0 (take i bs))(i := 0)\<rparr>)\<rparr>)))"

definition srv_packet :: "srv_sys \<Rightarrow> nat \<Rightarrow> mem \<Rightarrow> u16 \<Rightarrow> u16 \<Rightarrow> local_server \<Rightarrow> c_fault + local_server" where
  "srv_packet sys cli p pkt_size pkt_id s =
     (if pkt_id \<noteq> 0
      then bind_fault (dispatch_pkt sys (mem_get p 0 (unat pkt_size + 2)) (int (unat pkt_size) + 2)
                         (SubHead pkt_id) s) (\<lambda>(_, s'). Inr s')
      else if pkt_size \<ge> 4
      then (let tmp_u16 = le16 (p 4) (p 5)
            in if tmp_u16 = 0 then set_client_name cli (mem_get p 6 (unat pkt_size - 4)) s
               else if tmp_u16 = 1 then subscribe_ids sys cli (control_ids p pkt_size) s
               else if tmp_u16 = 2 then unsubscribe_ids cli (control_ids p pkt_size) s
               else Inr s)
      else Inr s)"

text \<open>The loop over the received bytes; the result is the offset where the incomplete tail starts.\<close>

function srv_parse :: "srv_sys \<Rightarrow> nat \<Rightarrow> mem \<Rightarrow> nat \<Rightarrow> nat \<Rightarrow> local_server \<Rightarrow> c_fault + (nat \<times> local_server)" where
  "srv_parse sys cli rx idx base_idx s =
     (if idx > 4 + base_idx
      then (let pkt_size = le16 (rx base_idx) (rx (base_idx + 1));
                pkt_id = le16 (rx (base_idx + 2)) (rx (base_idx + 3))
            in if base_idx + unat pkt_size + 2 \<le> idx
               then bind_fault (srv_packet sys cli (\<lambda>k. rx (base_idx + k)) pkt_size pkt_id s)
                      (srv_parse sys cli rx idx (base_idx + (unat pkt_size + 2)))
               else Inr (base_idx, s))
      else Inr (base_idx, s))"
  by pat_completeness auto
termination
  by (relation "measure (\<lambda>(sys, cli, rx, idx, base_idx, s). idx - base_idx)") auto

declare srv_parse.simps [simp del]

section \<open>Callbacks\<close>

text \<open>Emptying the list of a client's subscriptions when it disconnects.\<close>

partial_function (option) drop_client_refs :: "nat \<Rightarrow> local_server \<Rightarrow> (c_fault + local_server) option" where
  "drop_client_refs cli s =
     (if list_isempty (sheap s) (CliRefHead cli) then Some (Inr s)
      else (case nnext (sheap s (CliRefHead cli)) of
              RefRef r \<Rightarrow> (if refs s r = None then Some (Inl UseAfterFree) else drop_client_refs cli (drop_ref r s))
            | _ \<Rightarrow> Some (Inl TypeConfusion)))"

text \<open>The branch of \<^verbatim>\<open>com_fd_rd_callback\<close> for a failed read or the end of the connection.\<close>

definition com_fd_close :: "nat \<Rightarrow> nat \<Rightarrow> local_server \<Rightarrow> c_fault + (int \<times> local_server)" where
  "com_fd_close io cli s =
     bind_fault (multiplex_io_get_fd s (Some io)) (\<lambda>fd.
     bind_fault (multiplex_io_handle_del (Some s) (Some io)) (\<lambda>(_, os1).
       case os1 of
         None \<Rightarrow> Inl NullDeref
       | Some s1 \<Rightarrow>
           (let s2 = close_fd fd s1;
                s3 = s2\<lparr>sheap := list_remove (sheap s2) (CliList cli)\<rparr>
            in bind_fault (run_loop (drop_client_refs cli s3)) (\<lambda>s4.
                 Inr (- 1, s4\<lparr>clients := (clients s4)(cli := None)\<rparr>)))))"

text \<open>What \<^verbatim>\<open>read\<close> stores, at most the free part of the buffer, and what it returns.\<close>

definition read_bytes :: "srv_syscall \<Rightarrow> nat \<Rightarrow> u8 list" where
  "read_bytes sc n = (case sc_read sc of None \<Rightarrow> [] | Some bs \<Rightarrow> take n bs)"

definition read_result :: "srv_syscall \<Rightarrow> nat \<Rightarrow> int" where
  "read_result sc n = (case sc_read sc of None \<Rightarrow> - 1 | Some bs \<Rightarrow> int (length (take n bs)))"

definition com_fd_rd_callback :: "srv_sys \<Rightarrow> nat \<Rightarrow> nat \<Rightarrow> local_server \<Rightarrow> c_fault + (int \<times> local_server)" where
  "com_fd_rd_callback sys io cli s =
     (case clients s cli of
        None \<Rightarrow> Inl UseAfterFree
      | Some cl \<Rightarrow>
          (let room = CLI_RX_BUF_SIZE - cli_rx_idx cl;
               sc = sys (tick s);
               bs = read_bytes sc room
           in bind_fault (multiplex_io_read (Some s) (Some io) True (int room) (read_result sc room) (sc_err sc))
                (\<lambda>ret.
                  if ret > 0
                  then (let rx = mem_put (cli_rx_buf cl) (cli_rx_idx cl) bs;
                            idx = cli_rx_idx cl + nat ret;
                            s1 = next_tick (s\<lparr>clients := (clients s)(cli \<mapsto> cl\<lparr>cli_rx_buf := rx\<rparr>)\<rparr>)
                        in bind_fault (srv_parse sys cli rx idx 0 s1) (\<lambda>(base_idx, s2).
                             case clients s2 cli of
                               None \<Rightarrow> Inl UseAfterFree
                             | Some cl2 \<Rightarrow>
                                 Inr (ret, s2\<lparr>clients := (clients s2)(cli \<mapsto>
                                   cl2\<lparr>cli_rx_buf := (if base_idx \<noteq> 0
                                                      then mem_put rx 0 (mem_get rx base_idx (idx - base_idx)) else rx),
                                       cli_rx_idx := idx - base_idx\<rparr>)\<rparr>)))
                  else com_fd_close io cli (next_tick s))))"

definition listen_fd_rd_callback :: "srv_sys \<Rightarrow> nat \<Rightarrow> local_server \<Rightarrow> c_fault + (int \<times> local_server)" where
  "listen_fd_rd_callback sys io s =
     bind_fault (multiplex_io_get_fd s (Some io)) (\<lambda>listen_fd.
       let sc = sys (tick s); s0 = next_tick s; com_fd = sc_accept sc
       in if listen_fd \<ge> 0
          then (if com_fd \<ge> 0
                then (case malloc_at (clients s0) (sc_alloc sc) of
                        None \<Rightarrow> Inr (- 3, close_fd com_fd s0)
                      | Some cli \<Rightarrow>
                          (let h1 = list_init (list_init (sheap s0) (CliList cli)) (CliRefHead cli);
                               cl = \<lparr>cli_name = (sc_block sc)(0 := 0), cli_rx_buf = sc_block sc, cli_rx_idx = 0,
                                     cli_io_handle = None\<rparr>;
                               cfg = \<lparr>cfg_fd = com_fd, rd_ind = Some ComRd, wr_conf = None, err_ind = None,
                                      rd_ind_param = PCli cli, wr_conf_param = PCli cli\<rparr>;
                               s1 = s0\<lparr>sheap := h1\<rparr>
                           in case multiplex_io_handle_add (Some s1) (Some cfg)
                                     (map_option (\<lambda>a. (a, sc_block sc)) (malloc_at (handles s1) (sc_io sc)))
                                     (sc_getfl sc) (sc_setfl sc) (sc_ctl sc) of
                                (Some j, Some s2) \<Rightarrow>
                                  Inr (0, s2\<lparr>sheap := list_insert_before (sheap s2) (SubHead 0) (CliList cli),
                                             clients := (clients s2)(cli \<mapsto> cl\<lparr>cli_io_handle := Some j\<rparr>)\<rparr>)
                              | (None, Some s2) \<Rightarrow> Inr (- 4, close_fd com_fd s2)
                              | (_, None) \<Rightarrow> Inl NullDeref))
                else Inr (- 2, s0))
          else Inr (- 1, s0))"

text \<open>The callbacks as the multiplexer's thread calls them; it ignores their results.\<close>

definition srv_call :: "srv_sys \<Rightarrow> (srv_cb, srv_param, local_server) callbacks" where
  "srv_call sys cb io arg s =
     (case (cb, arg) of
        (ComRd, CbParam (PCli cli)) \<Rightarrow> bind_fault (com_fd_rd_callback sys io cli s) (\<lambda>(_, s'). Inr s')
      | (ListenRd, CbParam PServer) \<Rightarrow> bind_fault (listen_fd_rd_callback sys io s) (\<lambda>(_, s'). Inr s')
      | _ \<Rightarrow> Inl TypeConfusion)"

section \<open>Start and stop\<close>

text \<open>
  The results of the calls of \<^verbatim>\<open>local_server_start\<close>: whether the server's block could be allocated and
  its old content (the last byte of \<^verbatim>\<open>file_name\<close> is not written), the two results behind
  \<^verbatim>\<open>multiplex_io_open\<close>, and those of the socket calls; \<open>st_io\<close> is the block for the listening handle.
\<close>

record srv_start_env =
  st_alloc :: bool
  st_garbage :: u8
  st_epfd :: int
  st_mio_alloc :: bool
  st_sock :: int
  st_getfl :: int
  st_setfl :: int
  st_bind :: int
  st_listen :: int
  st_io :: "(nat \<times> mem) option"
  st_add_getfl :: int
  st_add_setfl :: int
  st_ctl :: int

text \<open>\<^verbatim>\<open>multiplex_io_close\<close> on a failure path: the socket closed, the multiplexer closed, the server freed.\<close>

definition start_fail :: "int option \<Rightarrow> local_server \<Rightarrow> u8 list \<Rightarrow>
    c_fault + (local_server option \<times> srv_action list)" where
  "start_fail fd s addr =
     bind_fault (run_loop (multiplex_io_close (Some s))) (\<lambda>_.
       Inr (None, acts s @ (case fd of None \<Rightarrow> [] | Some f \<Rightarrow> [SrvClose f]) @ [SrvFree, SrvUnlink addr]))"

definition local_server_start :: "u8 list \<Rightarrow> srv_start_env \<Rightarrow>
    c_fault + (local_server option \<times> srv_action list)" where
  "local_server_start addr e =
     (if st_alloc e
      then (case multiplex_io_open (st_epfd e) (st_mio_alloc e) :: (srv_cb, srv_param) multiplex_runtime option of
              None \<Rightarrow> Inr (None, [SrvUnlink addr, SrvFree, SrvUnlink addr])
            | Some rt \<Rightarrow>
                (let s = \<lparr>epfd = epfd rt, thread_running = thread_running rt, lheap = lheap rt, handles = handles rt,
                          ep_interest = ep_interest rt,
                          file_name = c_strncpy addr 255 @ [st_garbage e], listen_io_handle = None,
                          sheap = (\<lambda>n. \<lparr>nhead = n, nnext = n, nprev = n\<rparr>),
                          clients = Map.empty, refs = Map.empty, tick = 0, acts = [SrvUnlink addr]\<rparr>
                 in if st_sock e \<ge> 0
                    then (if st_getfl e \<noteq> - 1 \<and> st_setfl e \<noteq> - 1
                          then (if st_bind e \<ge> 0
                                then (if st_listen e \<ge> 0
                                      then (case multiplex_io_handle_add (Some s)
                                                   (Some \<lparr>cfg_fd = st_sock e, rd_ind = Some ListenRd, wr_conf = None,
                                                          err_ind = None, rd_ind_param = PServer, wr_conf_param = PNull\<rparr>)
                                                   (st_io e) (st_add_getfl e) (st_add_setfl e) (st_ctl e) of
                                              (Some io, Some s1) \<Rightarrow>
                                                Inr (Some (s1\<lparr>listen_io_handle := Some io\<rparr>), acts s1)
                                            | (None, Some s1) \<Rightarrow> start_fail (Some (st_sock e)) s1 addr
                                            | (_, None) \<Rightarrow> Inl NullDeref)
                                      else start_fail (Some (st_sock e)) s addr)
                                else start_fail (Some (st_sock e)) s addr)
                          else start_fail (Some (st_sock e)) s addr)
                    else start_fail None s addr))
      else Inl NullDeref)"

text \<open>
  \<^verbatim>\<open>local_server_stop\<close>: the clients of list 0 are closed and freed, then the subscriptions of the
  other lists; a subscription in list 0 is taken for a client.
\<close>

partial_function (option) stop_clients :: "local_server \<Rightarrow> (c_fault + local_server) option" where
  "stop_clients s =
     (if list_isempty (sheap s) (SubHead 0) then Some (Inr s)
      else (case nnext (sheap s (SubHead 0)) of
              CliList c \<Rightarrow>
                (case clients s c of
                   None \<Rightarrow> Some (Inl UseAfterFree)
                 | Some cl \<Rightarrow>
                     (case multiplex_io_get_fd s (cli_io_handle cl) of
                        Inl f \<Rightarrow> Some (Inl f)
                      | Inr fd \<Rightarrow>
                          (let s1 = s\<lparr>sheap := list_remove (sheap s) (CliList c)\<rparr>
                           in case multiplex_io_handle_del (Some s1) (cli_io_handle cl) of
                                Inl f \<Rightarrow> Some (Inl f)
                              | Inr (_, None) \<Rightarrow> Some (Inl NullDeref)
                              | Inr (_, Some s2) \<Rightarrow>
                                  stop_clients (close_fd fd (s2\<lparr>clients := (clients s2)(c := None)\<rparr>)))))
            | _ \<Rightarrow> Some (Inl TypeConfusion)))"

partial_function (option) stop_refs :: "u16 \<Rightarrow> local_server \<Rightarrow> (c_fault + local_server) option" where
  "stop_refs i s =
     (if list_isempty (sheap s) (SubHead i) then Some (Inr s)
      else (case nnext (sheap s (SubHead i)) of
              RefList r \<Rightarrow>
                (if refs s r = None then Some (Inl UseAfterFree)
                 else stop_refs i (s\<lparr>sheap := list_remove (sheap s) (RefList r), refs := (refs s)(r := None)\<rparr>))
            | _ \<Rightarrow> Some (Inl TypeConfusion)))"

fun stop_ref_lists :: "u16 list \<Rightarrow> local_server \<Rightarrow> c_fault + local_server" where
  "stop_ref_lists [] s = Inr s"
| "stop_ref_lists (i # is) s = bind_fault (run_loop (stop_refs i s)) (stop_ref_lists is)"

definition local_server_stop :: "local_server option \<Rightarrow> c_fault + local_server option" where
  "local_server_stop srv =
     (case srv of
        None \<Rightarrow> Inr None
      | Some s \<Rightarrow>
          (let s0 = s\<lparr>acts := acts s @ [SrvUnlink (file_name s)]\<rparr>
           in bind_fault (multiplex_io_get_fd s0 (listen_io_handle s0)) (\<lambda>fd.
              bind_fault (multiplex_io_handle_del (Some s0) (listen_io_handle s0)) (\<lambda>(_, os1).
                case os1 of
                  None \<Rightarrow> Inl NullDeref
                | Some s1 \<Rightarrow>
                    bind_fault (run_loop (stop_clients (close_fd fd s1))) (\<lambda>s2.
                    bind_fault (stop_ref_lists (map of_nat [1..<65536]) s2) (\<lambda>s3.
                    bind_fault (run_loop (multiplex_io_close (Some s3))) (\<lambda>(_, os4).
                      Inr (map_option (\<lambda>s4. s4\<lparr>acts := acts s4 @ [SrvFree]\<rparr>) os4))))))))"

section \<open>The invariant\<close>

text \<open>
  \<open>L i\<close> are the nodes of the list of packet id \<open>i\<close>, \<open>R c\<close> the subscriptions of client \<open>c\<close>. The lists
  are well linked and share no node; every subscription stands in one list of each kind, and a client
  has at most one subscription per id. List 0 holds the clients (\<open>D\<close>, all of them but for one that is
  just being removed) and the subscriptions to id 0.
\<close>

definition srv_rings :: "(u16 \<Rightarrow> srv_node list) \<Rightarrow> (nat \<rightharpoonup> nat list) \<Rightarrow> srv_node \<rightharpoonup> srv_node list" where
  "srv_rings L R n =
     (case n of
        SubHead i \<Rightarrow> Some (L i)
      | CliRefHead c \<Rightarrow> map_option (map RefRef) (R c)
      | _ \<Rightarrow> None)"

definition subs_ok :: "nat set \<Rightarrow> nat set \<Rightarrow> (nat \<rightharpoonup> nat) \<Rightarrow> (u16 \<Rightarrow> srv_node list) \<Rightarrow> (nat \<rightharpoonup> nat list) \<Rightarrow> bool" where
  "subs_ok C D rf L R \<longleftrightarrow>
     dom R = C \<and>
     (\<forall>i. set (L i) \<subseteq> RefList ` dom rf \<union> (if i = 0 then CliList ` D else {})) \<and>
     CliList ` D \<subseteq> set (L 0) \<and>
     (\<forall>r c. rf r = Some c \<longrightarrow> (\<exists>xs. R c = Some xs \<and> r \<in> set xs) \<and> (\<exists>i. RefList r \<in> set (L i))) \<and>
     (\<forall>c xs r. R c = Some xs \<longrightarrow> r \<in> set xs \<longrightarrow> rf r = Some c) \<and>
     (\<forall>i r r'. RefList r \<in> set (L i) \<longrightarrow> RefList r' \<in> set (L i) \<longrightarrow> rf r = rf r' \<longrightarrow> r = r')"

text \<open>What a client has received and not yet processed is an incomplete packet.\<close>

definition cli_pending :: "client_runtime \<Rightarrow> u8 list" where
  "cli_pending cl = mem_get (cli_rx_buf cl) 0 (cli_rx_idx cl)"

definition rx_ok :: "client_runtime \<Rightarrow> bool" where
  "rx_ok cl \<longleftrightarrow> cli_rx_idx cl \<le> CLI_RX_BUF_SIZE \<and> deframe 5 (cli_pending cl) = ([], cli_pending cl)"

text \<open>Clients and registered handles point at each other; only read callbacks are installed.\<close>

definition srv_link :: "local_server \<Rightarrow> nat list \<Rightarrow> bool" where
  "srv_link s ios \<longleftrightarrow>
     (\<forall>c cl. clients s c = Some cl \<longrightarrow> rx_ok cl \<and>
        (\<exists>j h. cli_io_handle cl = Some j \<and> j \<in> set ios \<and> handles s j = Some h \<and>
           r_ind h = Some ComRd \<and> r_param h = PCli c)) \<and>
     (\<forall>j h. j \<in> set ios \<longrightarrow> handles s j = Some h \<longrightarrow>
        r_ind h = Some ListenRd \<and> r_param h = PServer \<or>
        (\<exists>c cl. r_ind h = Some ComRd \<and> r_param h = PCli c \<and> clients s c = Some cl \<and> cli_io_handle cl = Some j)) \<and>
     (\<forall>j h. handles s j = Some h \<longrightarrow> w_conf h = None \<and> e_ind h = None \<and> mh_fd h \<ge> 0) \<and>
     (\<exists>j h. listen_io_handle s = Some j \<and> j \<in> set ios \<and> handles s j = Some h \<and> r_ind h = Some ListenRd)"

definition srv_st :: "local_server \<Rightarrow> nat list \<Rightarrow> nat list \<Rightarrow> (u16 \<Rightarrow> srv_node list) \<Rightarrow> (nat \<rightharpoonup> nat list) \<Rightarrow> bool" where
  "srv_st s ios dels L R \<longleftrightarrow>
     mio_wf s ios dels \<and> rings list_ring (sheap s) (srv_rings L R) \<and>
     subs_ok (dom (clients s)) (dom (clients s)) (refs s) L R \<and> srv_link s ios"

definition srv_inv :: "local_server \<Rightarrow> bool" where
  "srv_inv s \<longleftrightarrow> (\<exists>ios dels L R. srv_st s ios dels L R)"

text \<open>The clients subscribed to an id, in the order in which a packet is dispatched to them.\<close>

definition node_client :: "local_server \<Rightarrow> srv_node \<Rightarrow> nat option" where
  "node_client s n = (case n of RefList r \<Rightarrow> refs s r | _ \<Rightarrow> None)"

definition subscribers :: "local_server \<Rightarrow> u16 \<Rightarrow> nat list option" where
  "subscribers s i = map_option (List.map_filter (node_client s)) (list_nodes (sheap s) (SubHead i))"

subsection \<open>Steps that leave registry and receive state alone\<close>

definition hsig :: "(srv_cb, srv_param) multiplex_handle \<Rightarrow> int \<times> srv_cb option \<times> srv_cb option \<times> srv_cb option \<times> srv_param" where
  "hsig h = (mh_fd h, r_ind h, w_conf h, e_ind h, r_param h)"

definition rxsig :: "client_runtime \<Rightarrow> mem \<times> nat \<times> nat option" where
  "rxsig cl = (cli_rx_buf cl, cli_rx_idx cl, cli_io_handle cl)"

definition srv_keep :: "local_server \<Rightarrow> local_server \<Rightarrow> bool" where
  "srv_keep s s' \<longleftrightarrow>
     lheap s' = lheap s \<and> listen_io_handle s' = listen_io_handle s \<and>
     (\<forall>c. map_option rxsig (clients s' c) = map_option rxsig (clients s c)) \<and>
     (\<forall>j. map_option hsig (handles s' j) = map_option hsig (handles s j))"

lemma srv_keep_refl [simp]: "srv_keep s s"
  by (simp add: srv_keep_def)

lemma srv_keep_trans: "srv_keep s s1 \<Longrightarrow> srv_keep s1 s2 \<Longrightarrow> srv_keep s s2"
  by (simp add: srv_keep_def)

lemma map_option_sig: "map_option f x = map_option f y \<Longrightarrow> y = Some b \<Longrightarrow> \<exists>a. x = Some a \<and> f a = f b"
  by (cases x) auto

lemma srv_keep_handle:
  assumes "srv_keep s s'" "handles s j = Some h"
  obtains h' where "handles s' j = Some h'" "hsig h' = hsig h"
proof -
  have "map_option hsig (handles s' j) = map_option hsig (handles s j)" using assms(1) by (simp add: srv_keep_def)
  from map_option_sig [OF this assms(2)] that show thesis by (metis (no_types))
qed

lemma srv_keep_handle_back:
  assumes "srv_keep s s'" "handles s' j = Some h'"
  obtains h where "handles s j = Some h" "hsig h' = hsig h"
proof -
  have "map_option hsig (handles s j) = map_option hsig (handles s' j)" using assms(1) by (simp add: srv_keep_def)
  from map_option_sig [OF this assms(2)] that show thesis by (metis (no_types))
qed

lemma srv_keep_client:
  assumes "srv_keep s s'" "clients s c = Some cl"
  obtains cl' where "clients s' c = Some cl'" "rxsig cl' = rxsig cl"
proof -
  have "map_option rxsig (clients s' c) = map_option rxsig (clients s c)" using assms(1) by (simp add: srv_keep_def)
  from map_option_sig [OF this assms(2)] that show thesis by (metis (no_types))
qed

lemma srv_keep_client_back:
  assumes "srv_keep s s'" "clients s' c = Some cl'"
  obtains cl where "clients s c = Some cl" "rxsig cl' = rxsig cl"
proof -
  have "map_option rxsig (clients s c) = map_option rxsig (clients s' c)" using assms(1) by (simp add: srv_keep_def)
  from map_option_sig [OF this assms(2)] that show thesis by (metis (no_types))
qed

lemma map_option_dom:
  assumes "\<And>x. map_option f (m' x) = map_option f (m x)"
  shows "dom m' = dom m"
proof (rule set_eqI)
  fix x show "x \<in> dom m' \<longleftrightarrow> x \<in> dom m" using assms [of x] by (cases "m x"; cases "m' x") auto
qed

lemma srv_keep_dom:
  assumes "srv_keep s s'"
  shows "dom (handles s') = dom (handles s)" "dom (clients s') = dom (clients s)"
  using assms map_option_dom [of hsig "handles s'" "handles s"] map_option_dom [of rxsig "clients s'" "clients s"]
  by (simp_all add: srv_keep_def)

lemma srv_keep_mio: "srv_keep s s' \<Longrightarrow> mio_wf s' ios dels = mio_wf s ios dels"
  using srv_keep_dom(1) [of s s'] by (intro mio_wf_cong) (simp_all add: srv_keep_def)

lemma rxsig_rx_ok: "rxsig cl' = rxsig cl \<Longrightarrow> rx_ok cl' = rx_ok cl \<and> cli_io_handle cl' = cli_io_handle cl"
  by (simp add: rxsig_def rx_ok_def cli_pending_def)

lemma hsig_fields:
  "hsig h' = hsig h \<Longrightarrow> mh_fd h' = mh_fd h \<and> r_ind h' = r_ind h \<and> w_conf h' = w_conf h \<and> e_ind h' = e_ind h \<and>
     r_param h' = r_param h"
  by (simp add: hsig_def)

lemma srv_keep_link:
  assumes k: "srv_keep s s'" and lk: "srv_link s ios"
  shows "srv_link s' ios"
  unfolding srv_link_def
proof (intro conjI allI impI)
  fix c cl' assume "clients s' c = Some cl'"
  then obtain cl where cl: "clients s c = Some cl" "rxsig cl' = rxsig cl" by (rule srv_keep_client_back [OF k])
  then obtain j h where j: "rx_ok cl" "cli_io_handle cl = Some j" "j \<in> set ios" "handles s j = Some h"
    "r_ind h = Some ComRd" "r_param h = PCli c" using lk unfolding srv_link_def by blast
  obtain h' where "handles s' j = Some h'" "hsig h' = hsig h" by (rule srv_keep_handle [OF k j(4)])
  then show "rx_ok cl'" "\<exists>j h. cli_io_handle cl' = Some j \<and> j \<in> set ios \<and> handles s' j = Some h \<and>
           r_ind h = Some ComRd \<and> r_param h = PCli c"
    using j rxsig_rx_ok [OF cl(2)] hsig_fields [of h' h] by auto
next
  fix j h' assume j: "j \<in> set ios" "handles s' j = Some h'"
  obtain h where h: "handles s j = Some h" "hsig h' = hsig h" by (rule srv_keep_handle_back [OF k j(2)])
  from lk j(1) h(1) have "r_ind h = Some ListenRd \<and> r_param h = PServer \<or>
      (\<exists>c cl. r_ind h = Some ComRd \<and> r_param h = PCli c \<and> clients s c = Some cl \<and> cli_io_handle cl = Some j)"
    unfolding srv_link_def by blast
  then show "r_ind h' = Some ListenRd \<and> r_param h' = PServer \<or>
      (\<exists>c cl. r_ind h' = Some ComRd \<and> r_param h' = PCli c \<and> clients s' c = Some cl \<and> cli_io_handle cl = Some j)"
    using hsig_fields [OF h(2)] rxsig_rx_ok by (metis srv_keep_client [OF k])
next
  fix j h' assume "handles s' j = Some h'"
  then obtain h where h: "handles s j = Some h" "hsig h' = hsig h" by (rule srv_keep_handle_back [OF k])
  have "w_conf h = None \<and> e_ind h = None \<and> mh_fd h \<ge> 0" using lk h(1) unfolding srv_link_def by blast
  then show "w_conf h' = None" "e_ind h' = None" "mh_fd h' \<ge> 0" using hsig_fields [OF h(2)] by auto
next
  obtain j h where j: "listen_io_handle s = Some j" "j \<in> set ios" "handles s j = Some h" "r_ind h = Some ListenRd"
    using lk unfolding srv_link_def by blast
  obtain h' where "handles s' j = Some h'" "hsig h' = hsig h" by (rule srv_keep_handle [OF k j(3)])
  then show "\<exists>j h. listen_io_handle s' = Some j \<and> j \<in> set ios \<and> handles s' j = Some h \<and> r_ind h = Some ListenRd"
    using j k hsig_fields [of h' h] by (auto simp: srv_keep_def)
qed

text \<open>A step that keeps the subscriptions as well keeps the whole invariant.\<close>

lemma srv_st_keep:
  assumes "srv_keep s s'" "srv_st s ios dels L R" "sheap s' = sheap s" "refs s' = refs s"
  shows "srv_st s' ios dels L R"
  using assms srv_keep_mio [OF assms(1)] srv_keep_link [OF assms(1)] srv_keep_dom(2) [OF assms(1)]
  by (simp add: srv_st_def)

section \<open>Subscribing and unsubscribing\<close>

lemma srv_rings_simps [simp]:
  "srv_rings L R (SubHead i) = Some (L i)"
  "srv_rings L R (CliRefHead c) = map_option (map RefRef) (R c)"
  by (simp_all add: srv_rings_def)

lemma srv_rings_sub: "(srv_rings L R)(SubHead i \<mapsto> ns) = srv_rings (L(i := ns)) R"
  by (rule ext) (simp add: srv_rings_def split: srv_node.split)

lemma srv_rings_ref: "(srv_rings L R)(CliRefHead c \<mapsto> map RefRef xs) = srv_rings L (R(c \<mapsto> xs))"
  by (rule ext) (simp add: srv_rings_def split: srv_node.split)

lemma srv_rings_ref_drop: "(srv_rings L R)(CliRefHead c := None) = srv_rings L (R(c := None))"
  by (rule ext) (simp add: srv_rings_def split: srv_node.split)

lemma subs_okD:
  assumes "subs_ok C D rf L R"
  shows "dom R = C"
    and "n \<in> set (L i) \<Longrightarrow> (\<exists>r c. n = RefList r \<and> rf r = Some c) \<or> i = 0 \<and> (\<exists>c. n = CliList c \<and> c \<in> D)"
    and "c \<in> D \<Longrightarrow> CliList c \<in> set (L 0)"
    and "rf r = Some c \<Longrightarrow> \<exists>xs. R c = Some xs \<and> r \<in> set xs"
    and "rf r = Some c \<Longrightarrow> \<exists>i. RefList r \<in> set (L i)"
    and "R c = Some xs \<Longrightarrow> r \<in> set xs \<Longrightarrow> rf r = Some c"
    and "RefList r \<in> set (L i) \<Longrightarrow> RefList r' \<in> set (L i) \<Longrightarrow> rf r = rf r' \<Longrightarrow> r = r'"
proof -
  have a: "set (L i) \<subseteq> RefList ` dom rf \<union> (if i = 0 then CliList ` D else {})"
    using assms unfolding subs_ok_def by blast
  show "(\<exists>r c. n = RefList r \<and> rf r = Some c) \<or> i = 0 \<and> (\<exists>c. n = CliList c \<and> c \<in> D)" if "n \<in> set (L i)"
    using subsetD [OF a that] by (auto split: if_splits)
qed (use assms in \<open>unfold subs_ok_def, blast+\<close>)

lemma subs_ok_ref_alive: "subs_ok C D rf L R \<Longrightarrow> RefList r \<in> set (L i) \<Longrightarrow> \<exists>c. rf r = Some c"
  using subs_okD(2) by fastforce

lemma subs_ok_ref_client: "subs_ok C D rf L R \<Longrightarrow> rf r = Some c \<Longrightarrow> c \<in> C"
  using subs_okD(1,4) by (metis domI)

text \<open>Where the nodes of a subscription can stand.\<close>

lemma ring_nodes_fresh_ref:
  assumes "subs_ok C D rf L R" "rf r = None"
  shows "RefList r \<notin> ring_nodes (srv_rings L R)" "RefRef r \<notin> ring_nodes (srv_rings L R)"
proof -
  have no: "n \<noteq> RefList r" "n \<noteq> RefRef r" if "n \<in> set (l # xs)" "srv_rings L R l = Some xs" for n l xs
    using that subs_okD(2) [OF assms(1), of n] subs_okD(6) [OF assms(1)] assms(2)
    by (auto simp: srv_rings_def split: srv_node.splits)
  show "RefList r \<notin> ring_nodes (srv_rings L R)" "RefRef r \<notin> ring_nodes (srv_rings L R)"
    using no unfolding ring_nodes_def by blast+
qed

lemma list_init_rings:
  "rings list_ring h F \<Longrightarrow> n \<notin> ring_nodes F \<Longrightarrow> rings list_ring (list_init h n) F"
  by (rule cl.rings_init(1))

lemma subs_ok_add:
  assumes ok: "subs_ok C D rf L R" and r: "rf r = None" and c: "R c = Some xs"
    and new: "\<forall>r'. RefList r' \<in> set (L i) \<longrightarrow> rf r' \<noteq> Some c"
  shows "subs_ok C D (rf(r \<mapsto> c)) (L(i := RefList r # L i)) (R(c \<mapsto> r # xs))"
proof -
  have fresh: "RefList r \<notin> set (L k)" "R d = Some ys \<Longrightarrow> r \<notin> set ys" for k d ys
    using subs_ok_ref_alive [OF ok, of r k] subs_okD(6) [OF ok, of d ys r] r by auto
  show ?thesis unfolding subs_ok_def
  proof (intro conjI allI impI)
    show "dom (R(c \<mapsto> r # xs)) = C" using subs_okD(1) [OF ok] c by auto
    show "set ((L(i := RefList r # L i)) k) \<subseteq> RefList ` dom (rf(r \<mapsto> c)) \<union> (if k = 0 then CliList ` D else {})" for k
    proof
      fix n assume "n \<in> set ((L(i := RefList r # L i)) k)"
      then have "n = RefList r \<or> n \<in> set (L k)" by (auto split: if_splits)
      then show "n \<in> RefList ` dom (rf(r \<mapsto> c)) \<union> (if k = 0 then CliList ` D else {})"
        using subs_okD(2) [OF ok, of n k] by auto
    qed
    show "CliList ` D \<subseteq> set ((L(i := RefList r # L i)) 0)" using subs_okD(3) [OF ok] by auto
  next
    fix q d assume q: "(rf(r \<mapsto> c)) q = Some d"
    show "\<exists>ys. (R(c \<mapsto> r # xs)) d = Some ys \<and> q \<in> set ys"
      using q c subs_okD(4) [OF ok, of q d] by (auto split: if_splits)
    show "\<exists>k. RefList q \<in> set ((L(i := RefList r # L i)) k)"
    proof (cases "q = r")
      case False
      then obtain k where "RefList q \<in> set (L k)" using q subs_okD(5) [OF ok, of q d] by auto
      then show ?thesis by (intro exI [of _ k]) auto
    qed (auto intro!: exI [of _ i])
  next
    fix d ys q assume "(R(c \<mapsto> r # xs)) d = Some ys" "q \<in> set ys"
    then show "(rf(r \<mapsto> c)) q = Some d"
      using subs_okD(6) [OF ok] c fresh(2) by (auto split: if_splits)
  next
    fix k q q' assume q: "RefList q \<in> set ((L(i := RefList r # L i)) k)" "RefList q' \<in> set ((L(i := RefList r # L i)) k)"
      "(rf(r \<mapsto> c)) q = (rf(r \<mapsto> c)) q'"
    then show "q = q'" using subs_okD(7) [OF ok, of q k q'] new fresh(1) by (auto split: if_splits)
  qed
qed

lemma rings_sub_unique:
  assumes "rings list_ring h (srv_rings L R)" "n \<in> set (L i)" "n \<in> set (L k)"
  shows "i = k"
proof (rule ccontr)
  assume "i \<noteq> k"
  then have "set (SubHead i # L i) \<inter> set (SubHead k # L k) = {}"
    by (intro rings_disjoint [where F = "srv_rings L R", OF assms(1)]) simp_all
  then show False using assms(2,3) by auto
qed

lemma rings_distinct:
  assumes "rings list_ring h (srv_rings L R)"
  shows "distinct (L i)" "R c = Some xs \<Longrightarrow> distinct xs"
proof -
  have "list_ring h (SubHead i) (L i)" using ringsD [where F = "srv_rings L R", OF assms, of "SubHead i"] by simp
  then show "distinct (L i)" using cl.ring_distinct by fastforce
  show "distinct xs" if "R c = Some xs"
  proof -
    have "list_ring h (CliRefHead c) (map RefRef xs)"
      using ringsD [where F = "srv_rings L R", OF assms, of "CliRefHead c"] that by simp
    then show ?thesis using cl.ring_distinct distinct_map by fastforce
  qed
qed

lemma subs_ok_drop:
  assumes ok: "subs_ok C D rf L R" and rg: "rings list_ring h (srv_rings L R)"
    and r: "RefList r \<in> set (L i)" "rf r = Some c" and c: "R c = Some xs"
  shows "subs_ok C D (rf(r := None)) (L(i := remove1 (RefList r) (L i))) (R(c \<mapsto> remove1 r xs))"
proof -
  note d = rings_distinct [OF rg]
  have out: "RefList r \<notin> set ((L(i := remove1 (RefList r) (L i))) k)" for k
    using rings_sub_unique [OF rg r(1)] d(1) [of i] by auto
  have sub: "set ((L(i := remove1 (RefList r) (L i))) k) \<subseteq> set (L k)" for k
    using set_remove1_subset [of "RefList r" "L i"] by (cases "k = i") auto
  have rest: "n \<in> set ((L(i := remove1 (RefList r) (L i))) k)" if "n \<in> set (L k)" "n \<noteq> RefList r" for n k
    using that by (cases "k = i") simp_all
  show ?thesis unfolding subs_ok_def
  proof (intro conjI allI impI)
    show "dom (R(c \<mapsto> remove1 r xs)) = C" using subs_okD(1) [OF ok] c by auto
    show "set ((L(i := remove1 (RefList r) (L i))) k) \<subseteq>
        RefList ` dom (rf(r := None)) \<union> (if k = 0 then CliList ` D else {})" for k
    proof
      fix n assume n: "n \<in> set ((L(i := remove1 (RefList r) (L i))) k)"
      then have "n \<in> set (L k)" "n \<noteq> RefList r" using sub [of k] out [of k] by auto
      then show "n \<in> RefList ` dom (rf(r := None)) \<union> (if k = 0 then CliList ` D else {})"
        using subs_okD(2) [OF ok, of n k] by auto
    qed
    show "CliList ` D \<subseteq> set ((L(i := remove1 (RefList r) (L i))) 0)"
      using subs_okD(3) [OF ok] by auto
  next
    fix q e assume q: "(rf(r := None)) q = Some e"
    then have q': "q \<noteq> r" "rf q = Some e" by (auto split: if_splits)
    show "\<exists>ys. (R(c \<mapsto> remove1 r xs)) e = Some ys \<and> q \<in> set ys"
      using subs_okD(4) [OF ok q'(2)] q'(1) c by auto
    show "\<exists>k. RefList q \<in> set ((L(i := remove1 (RefList r) (L i))) k)"
      using subs_okD(5) [OF ok q'(2)] rest [of "RefList q"] q'(1) by (meson srv_node.inject(4))
  next
    fix e ys q assume e: "(R(c \<mapsto> remove1 r xs)) e = Some ys" "q \<in> set ys"
    then obtain zs where zs: "R e = Some zs" "q \<in> set zs" using c by (auto split: if_splits dest: notin_set_remove1)
    then have "rf q = Some e" by (rule subs_okD(6) [OF ok])
    moreover have "q \<noteq> r"
    proof
      assume "q = r"
      then have "e = c" using \<open>rf q = Some e\<close> r(2) by simp
      then show False using e \<open>q = r\<close> d(2) [OF c] by auto
    qed
    ultimately show "(rf(r := None)) q = Some e" by simp
  next
    fix k q q' assume q: "RefList q \<in> set ((L(i := remove1 (RefList r) (L i))) k)"
      "RefList q' \<in> set ((L(i := remove1 (RefList r) (L i))) k)" "(rf(r := None)) q = (rf(r := None)) q'"
    then have "q \<noteq> r" "q' \<noteq> r" using out [of k] by auto
    then show "q = q'" using subs_okD(7) [OF ok, of q k q'] q sub [of k] by auto
  qed
qed

text \<open>The two heap updates of subscribing and of dropping a subscription.\<close>

lemma rings_add_ref:
  assumes rg: "rings list_ring h (srv_rings L R)" and ok: "subs_ok C D rf L R" and r: "rf r = None"
    and c: "R c = Some xs"
  shows "rings list_ring (list_insert_after (list_insert_after (list_init (list_init h (RefRef r)) (RefList r))
      (SubHead i) (RefList r)) (CliRefHead c) (RefRef r)) (srv_rings (L(i := RefList r # L i)) (R(c \<mapsto> r # xs)))"
proof -
  note fresh = ring_nodes_fresh_ref [OF ok r]
  let ?h2 = "list_init (list_init h (RefRef r)) (RefList r)"
  have 2: "rings list_ring ?h2 (srv_rings L R)"
    by (intro list_init_rings rg fresh)
  have 3: "rings list_ring (list_insert_after ?h2 (SubHead i) (RefList r)) (srv_rings (L(i := RefList r # L i)) R)"
    using cl.rings_after [OF 2, of "SubHead i" "L i" "RefList r"] fresh(1) by (simp add: srv_rings_sub)
  have "RefRef r \<notin> ring_nodes (srv_rings (L(i := RefList r # L i)) R)"
  proof
    assume "RefRef r \<in> ring_nodes (srv_rings (L(i := RefList r # L i)) R)"
    then obtain l ns where l: "srv_rings (L(i := RefList r # L i)) R l = Some ns" "RefRef r \<in> set (l # ns)"
      unfolding ring_nodes_def by blast
    show False
    proof (cases "l = SubHead i")
      case True
      then have "RefRef r \<in> set (SubHead i # L i)" using l by auto
      then show False using ring_nodesI [where F = "srv_rings L R", of "SubHead i" "L i" "RefRef r"] fresh(2) by simp
    next
      case False
      then have "srv_rings L R l = Some ns" using l(1) by (auto simp: srv_rings_def split: srv_node.splits)
      then show False using ring_nodesI [where F = "srv_rings L R", of l ns "RefRef r"] l(2) fresh(2) by blast
    qed
  qed
  then show ?thesis
    using cl.rings_after [OF 3, of "CliRefHead c" "map RefRef xs" "RefRef r"] c
    by (simp add: srv_rings_ref [of _ _ _ "r # xs", simplified])
qed

lemma rings_drop_ref:
  assumes rg: "rings list_ring h (srv_rings L R)" and r: "RefList r \<in> set (L i)" and c: "R c = Some xs" "r \<in> set xs"
  shows "rings list_ring (list_remove (list_remove h (RefList r)) (RefRef r))
    (srv_rings (L(i := remove1 (RefList r) (L i))) (R(c \<mapsto> remove1 r xs)))"
proof -
  have 1: "rings list_ring (list_remove h (RefList r)) (srv_rings (L(i := remove1 (RefList r) (L i))) R)"
    using cl.rings_remove [OF rg, of "SubHead i" "L i" "RefList r"] r by (simp add: srv_rings_sub)
  have "remove1 (RefRef r) (map RefRef xs) = map RefRef (remove1 r xs)"
    by (rule remove1_map_inj) (simp add: inj_def)
  then show ?thesis
    using cl.rings_remove [OF 1, of "CliRefHead c" "map RefRef xs" "RefRef r"] c by (simp add: srv_rings_ref)
qed

text \<open>The list of an id, as the loops walk through it.\<close>

lemma srv_st_ring:
  assumes "srv_st s ios dels L R"
  shows "list_ring (sheap s) (SubHead i) (L i)"
  using ringsD [where F = "srv_rings L R" and ring = list_ring, of "sheap s" "SubHead i"] assms by (simp add: srv_st_def)

lemma ring_linked: "list_ring h l xs \<Longrightarrow> linked h (l # xs @ [l]) \<and> l \<notin> set xs"
  by (simp add: list_ring_def)

lemma linked_hd: "linked h (a # zs @ [l]) \<Longrightarrow> nnext (h a) = hd (zs @ [l]) \<and> linked h (zs @ [l])"
  by (cases zs) auto

lemma ring_walk: "list_ring h l xs \<Longrightarrow> nnext (h l) = hd (xs @ [l]) \<and> linked h (xs @ [l]) \<and> l \<notin> set xs"
  using ring_linked [of h l xs] linked_hd [of h l xs l] by blast

definition sub_node :: "local_server \<Rightarrow> srv_node \<Rightarrow> bool" where
  "sub_node s n \<longleftrightarrow> (\<exists>r. n = RefList r \<and> refs s r \<noteq> None) \<or> (\<exists>c. n = CliList c)"

lemma srv_st_sub_nodes: "srv_st s ios dels L R \<Longrightarrow> \<forall>n \<in> set (L i). sub_node s n"
  using subs_okD(2) [of "dom (clients s)" "dom (clients s)" "refs s" L R] by (fastforce simp: srv_st_def sub_node_def)

lemma subscribe_find_linked:
  "linked (sheap s) (ns @ [l]) \<Longrightarrow> l \<notin> set ns \<Longrightarrow> \<forall>n \<in> set ns. sub_node s n \<Longrightarrow>
   \<exists>x. subscribe_find cli l (hd (ns @ [l])) s = Some (Inr x) \<and>
     (x = None \<longrightarrow> (\<forall>r. RefList r \<in> set ns \<longrightarrow> refs s r \<noteq> Some cli)) \<and>
     (\<forall>r. x = Some r \<longrightarrow> RefList r \<in> set ns \<and> refs s r = Some cli)"
proof (induction ns)
  case Nil
  then show ?case by (simp add: subscribe_find.simps)
next
  case (Cons n ns)
  have step: "nnext (sheap s n) = hd (ns @ [l])" "linked (sheap s) (ns @ [l])"
    using linked_hd [of "sheap s" n ns l] Cons.prems(1) by simp_all
  have nl: "n \<noteq> l" using Cons.prems(2) by auto
  obtain x where x: "subscribe_find cli l (hd (ns @ [l])) s = Some (Inr x)"
    "x = None \<longrightarrow> (\<forall>r. RefList r \<in> set ns \<longrightarrow> refs s r \<noteq> Some cli)"
    "\<forall>r. x = Some r \<longrightarrow> RefList r \<in> set ns \<and> refs s r = Some cli"
    using Cons.IH step(2) Cons.prems(2,3) by auto
  consider r c where "n = RefList r" "refs s r = Some c" | c where "n = CliList c"
    using Cons.prems(3) by (auto simp: sub_node_def)
  then show ?case
  proof cases
    case (1 r c)
    show ?thesis
    proof (cases "c = cli")
      case True
      then show ?thesis using 1 nl by (intro exI [of _ "Some r"], simp, subst subscribe_find.simps) simp
    next
      case False
      then show ?thesis using 1 nl x step(1) by (intro exI [of _ x], simp, subst subscribe_find.simps) auto
    qed
  next
    case 2
    then show ?thesis using nl x step(1) by (intro exI [of _ x], simp, subst subscribe_find.simps) auto
  qed
qed

lemma srv_st_subs:
  assumes "srv_keep s s'" "srv_st s ios dels L R" "rings list_ring (sheap s') (srv_rings L' R')"
    and "subs_ok (dom (clients s)) (dom (clients s)) (refs s') L' R'"
  shows "srv_st s' ios dels L' R'"
  using assms srv_keep_mio [OF assms(1)] srv_keep_link [OF assms(1)] srv_keep_dom(2) [OF assms(1)]
  by (simp add: srv_st_def)

lemma srv_keep_subs: "srv_keep s (s\<lparr>sheap := h, refs := rf\<rparr>)"
  by (simp add: srv_keep_def)

lemma srv_keep_tick [simp]: "srv_keep s (next_tick s') \<longleftrightarrow> srv_keep s s'"
  by (simp add: srv_keep_def next_tick_def)

lemma next_tick_fields [simp]:
  "sheap (next_tick s) = sheap s" "refs (next_tick s) = refs s" "clients (next_tick s) = clients s"
  "handles (next_tick s) = handles s" "lheap (next_tick s) = lheap s" "acts (next_tick s) = acts s"
  "listen_io_handle (next_tick s) = listen_io_handle s" "ep_interest (next_tick s) = ep_interest s"
  by (simp_all add: next_tick_def)

text \<open>Subscribing: nothing happens for a client that has the id already, or without memory.\<close>

lemma subscribe_cases:
  assumes st: "srv_st s ios dels L R" and c: "c \<in> dom (clients s)"
  obtains (already) r where "RefList r \<in> set (L i)" "refs s r = Some c"
      "subscribe_pkt sys c (SubHead i) s = Inr (Some r, s)"
  | (nomem) "\<forall>r. RefList r \<in> set (L i) \<longrightarrow> refs s r \<noteq> Some c"
      "malloc_at (refs s) (sc_alloc (sys (tick s))) = None"
      "subscribe_pkt sys c (SubHead i) s = Inr (None, next_tick s)"
  | (added) r xs h where "\<forall>r. RefList r \<in> set (L i) \<longrightarrow> refs s r \<noteq> Some c" "refs s r = None"
      "malloc_at (refs s) (sc_alloc (sys (tick s))) = Some r"
      "subscribe_pkt sys c (SubHead i) s = Inr (Some r, next_tick (s\<lparr>sheap := h, refs := (refs s)(r \<mapsto> c)\<rparr>))"
      "srv_st (next_tick (s\<lparr>sheap := h, refs := (refs s)(r \<mapsto> c)\<rparr>)) ios dels
         (L(i := RefList r # L i)) (R(c \<mapsto> r # xs))"
proof -
  have ok: "subs_ok (dom (clients s)) (dom (clients s)) (refs s) L R" and rg: "rings list_ring (sheap s) (srv_rings L R)"
    using st by (simp_all add: srv_st_def)
  note w = ring_walk [OF srv_st_ring [OF st, of i]]
  obtain x where x: "subscribe_find c (SubHead i) (nnext (sheap s (SubHead i))) s = Some (Inr x)"
    "x = None \<longrightarrow> (\<forall>r. RefList r \<in> set (L i) \<longrightarrow> refs s r \<noteq> Some c)"
    "\<forall>r. x = Some r \<longrightarrow> RefList r \<in> set (L i) \<and> refs s r = Some c"
    using subscribe_find_linked [of s "L i" "SubHead i" c] srv_st_sub_nodes [OF st, of i] w by auto
  note sp = subscribe_pkt_def [of sys c "SubHead i" s] run_loop_def x(1)
  show thesis
  proof (cases x)
    case (Some r)
    then show thesis using x(3) by (intro already [of r]) (simp_all add: sp)
  next
    case None
    then have new: "\<forall>r. RefList r \<in> set (L i) \<longrightarrow> refs s r \<noteq> Some c" using x(2) by blast
    show thesis
    proof (cases "malloc_at (refs s) (sc_alloc (sys (tick s)))")
      case None2: None
      show thesis using new None2 by (rule nomem) (simp add: sp None None2)
    next
      case (Some r)
      then have r: "refs s r = None" by (auto simp: malloc_at_def split: option.splits if_splits)
      obtain xs where xs: "R c = Some xs" using c subs_okD(1) [OF ok] by auto
      let ?h = "list_insert_after (list_insert_after (list_init (list_init (sheap s) (RefRef r)) (RefList r))
        (SubHead i) (RefList r)) (CliRefHead c) (RefRef r)"
      let ?s' = "next_tick (s\<lparr>sheap := ?h, refs := (refs s)(r \<mapsto> c)\<rparr>)"
      have "srv_st ?s' ios dels (L(i := RefList r # L i)) (R(c \<mapsto> r # xs))"
        by (rule srv_st_subs [OF _ st])
          (simp_all add: srv_keep_subs rings_add_ref [OF rg ok r xs] subs_ok_add [OF ok r xs new])
      moreover have "subscribe_pkt sys c (SubHead i) s = Inr (Some r, ?s')" by (simp add: sp None Some Let_def)
      ultimately show thesis using added [OF new r Some] by blast
    qed
  qed
qed

lemma unsubscribe_skip:
  "linked (sheap s) (ps @ ns @ [l]) \<Longrightarrow> l \<notin> set ps \<Longrightarrow> \<forall>n \<in> set ps. sub_node s n \<Longrightarrow>
   \<forall>r. RefList r \<in> set ps \<longrightarrow> refs s r \<noteq> Some cli \<Longrightarrow>
   unsubscribe_loop cli l (hd (ps @ ns @ [l])) ret s = unsubscribe_loop cli l (hd (ns @ [l])) ret s"
proof (induction ps)
  case (Cons n ps)
  have step: "nnext (sheap s n) = hd (ps @ ns @ [l])" "linked (sheap s) (ps @ ns @ [l])"
    using linked_hd [of "sheap s" n "ps @ ns" l] Cons.prems(1) by simp_all
  have IH: "unsubscribe_loop cli l (hd (ps @ ns @ [l])) ret s = unsubscribe_loop cli l (hd (ns @ [l])) ret s"
    using Cons.IH step(2) Cons.prems(2-4) by auto
  have "n \<noteq> l" using Cons.prems(2) by auto
  moreover have "(\<exists>r c. n = RefList r \<and> refs s r = Some c \<and> c \<noteq> cli) \<or> (\<exists>c. n = CliList c)"
    using Cons.prems(3,4) by (auto simp: sub_node_def)
  ultimately have "unsubscribe_loop cli l n ret s = unsubscribe_loop cli l (hd (ps @ ns @ [l])) ret s"
    by (subst unsubscribe_loop.simps [of cli l n ret s]) (use step(1) in auto)
  then show ?case using IH by simp
qed simp

lemma unsubscribe_done: "unsubscribe_loop cli l l ret s = Some (Inr (ret, s))"
  by (simp add: unsubscribe_loop.simps)

lemma drop_ref_st:
  assumes st: "srv_st s ios dels L R" and r: "RefList r \<in> set (L i)" "refs s r = Some c"
  obtains xs where "R c = Some xs" "r \<in> set xs"
    "srv_st (drop_ref r s) ios dels (L(i := remove1 (RefList r) (L i))) (R(c \<mapsto> remove1 r xs))"
proof -
  have ok: "subs_ok (dom (clients s)) (dom (clients s)) (refs s) L R" and rg: "rings list_ring (sheap s) (srv_rings L R)"
    using st by (simp_all add: srv_st_def)
  obtain xs where xs: "R c = Some xs" "r \<in> set xs" using subs_okD(4) [OF ok r(2)] by blast
  have "srv_st (drop_ref r s) ios dels (L(i := remove1 (RefList r) (L i))) (R(c \<mapsto> remove1 r xs))"
    unfolding drop_ref_def
    by (rule srv_st_subs [OF srv_keep_subs st])
      (simp_all add: rings_drop_ref [where R = R, OF rg r(1) xs] subs_ok_drop [OF ok rg r xs(1)])
  with xs show thesis by (rule that)
qed

lemma unsubscribe_cases:
  assumes st: "srv_st s ios dels L R"
  obtains (absent) "\<forall>r. RefList r \<in> set (L i) \<longrightarrow> refs s r \<noteq> Some c"
      "unsubscribe_pkt c (SubHead i) s = Inr (0, s)"
  | (present) r xs where "RefList r \<in> set (L i)" "refs s r = Some c" "R c = Some xs"
      "unsubscribe_pkt c (SubHead i) s = Inr (1, drop_ref r s)"
      "srv_st (drop_ref r s) ios dels (L(i := remove1 (RefList r) (L i))) (R(c \<mapsto> remove1 r xs))"
proof -
  have ok: "subs_ok (dom (clients s)) (dom (clients s)) (refs s) L R" using st by (simp add: srv_st_def)
  note w = ring_walk [OF srv_st_ring [OF st, of i]]
  note nodes = srv_st_sub_nodes [OF st, of i]
  show thesis
  proof (cases "\<exists>r. RefList r \<in> set (L i) \<and> refs s r = Some c")
    case False
    then show thesis
      using unsubscribe_skip [of s "L i" "[]" "SubHead i" c 0] w nodes
      by (intro absent) (auto simp: unsubscribe_pkt_def run_loop_def unsubscribe_done)
  next
    case True
    then obtain r where r: "RefList r \<in> set (L i)" "refs s r = Some c" by blast
    obtain xs where xs: "R c = Some xs" "r \<in> set xs"
      and st': "srv_st (drop_ref r s) ios dels (L(i := remove1 (RefList r) (L i))) (R(c \<mapsto> remove1 r xs))"
      by (rule drop_ref_st [OF st r])
    from r(1) obtain ps qs where s: "L i = ps @ RefList r # qs" "RefList r \<notin> set ps" by (meson split_list_first)
    have uniq: "refs s q \<noteq> Some c" if "RefList q \<in> set ps \<union> set qs" for q
    proof
      assume "refs s q = Some c"
      then have "q = r" using subs_okD(7) [OF ok, of q i r] that r s(1) by auto
      then show False using that s rings_distinct(1) [of "sheap s" L R i] st by (auto simp: srv_st_def)
    qed
    have w2: "list_ring (sheap (drop_ref r s)) (SubHead i) (ps @ qs)"
      using srv_st_ring [OF st', of i] s by (simp add: remove1_append)
    have lk: "linked (sheap (drop_ref r s)) (qs @ [SubHead i])"
    proof (cases qs)
      case (Cons q qs')
      then show ?thesis using linked_append [of "sheap (drop_ref r s)" "SubHead i # ps" q "qs' @ [SubHead i]"] w2
        by (simp add: list_ring_def)
    qed simp
    have rest: "\<forall>n \<in> set qs. sub_node (drop_ref r s) n" "\<forall>q. RefList q \<in> set qs \<longrightarrow> refs (drop_ref r s) q \<noteq> Some c"
      using srv_st_sub_nodes [OF st', of i] s uniq by (auto simp: remove1_append drop_ref_def)
    have nx: "nnext (sheap s (RefList r)) = hd (qs @ [SubHead i])"
    proof -
      have "linked (sheap s) ((SubHead i # ps) @ RefList r # qs @ [SubHead i])"
        using ring_linked [OF srv_st_ring [OF st, of i]] s(1) by simp
      then have "linked (sheap s) (RefList r # qs @ [SubHead i])"
        by (rule linked_append [THEN iffD1, THEN conjunct2])
      then show ?thesis using linked_hd [of "sheap s" "RefList r" qs "SubHead i"] by simp
    qed
    have "unsubscribe_loop c (SubHead i) (hd (L i @ [SubHead i])) 0 s =
        unsubscribe_loop c (SubHead i) (RefList r) 0 s"
      using unsubscribe_skip [of s ps "RefList r # qs" "SubHead i" c 0] w nodes s uniq by auto
    also have "\<dots> = unsubscribe_loop c (SubHead i) (hd (qs @ [SubHead i])) 1 (drop_ref r s)"
      using r(2) by (subst unsubscribe_loop.simps) (simp add: nx)
    also have "\<dots> = Some (Inr (1, drop_ref r s))"
      using unsubscribe_skip [of "drop_ref r s" qs "[]" "SubHead i" c 1] lk w s(1) rest
      by (simp add: unsubscribe_done)
    finally have "unsubscribe_pkt c (SubHead i) s = Inr (1, drop_ref r s)"
      using w by (simp add: unsubscribe_pkt_def run_loop_def)
    then show thesis using present [OF r xs(1) _ st'] by blast
  qed
qed

section \<open>Dispatching\<close>

text \<open>
  What a write does to a handle: at most its pending bytes and its event mask change; on a well-formed
  ring the message is appended when it fits.
\<close>

definition written :: "u8 list \<Rightarrow> (srv_cb, srv_param) multiplex_handle \<Rightarrow> (srv_cb, srv_param) multiplex_handle \<Rightarrow> bool" where
  "written bs h h' \<longleftrightarrow> hsig h' = hsig h \<and>
     (rb_wf (w_buf h) \<longrightarrow> mh_fd h \<ge> 0 \<longrightarrow> mio_msg_ok bs \<longrightarrow> rb_wf (w_buf h') \<and>
        rb_contents (w_buf h') = rb_contents (w_buf h) @ (if rb_accepts (w_buf h) (length bs) then bs else []))"

lemma map_upd_same: "m a = Some b \<Longrightarrow> m(a \<mapsto> b) = m"
  by (rule ext) simp

lemma multiplex_io_write_any:
  assumes wf: "mio_wf s ios dels" and i: "i \<in> set ios" "handles s i = Some h"
  obtains rv h' where "multiplex_io_write (Some s) (Some i) (Some bs) (int (length bs)) ctl err =
      Inr (rv, Some (s\<lparr>handles := (handles s)(i \<mapsto> h')\<rparr>))" "written bs h h'"
proof (cases "rb_wf (w_buf h) \<and> mh_fd h \<ge> 0 \<and> mio_msg_ok bs")
  case True
  then obtain h' where h': "multiplex_io_write (Some s) (Some i) (Some bs) (int (length bs)) ctl err =
      Inr (if rb_accepts (w_buf h) (length bs)
           then (if ctl = 0 then MIO_STS_OK else multiplex_io_errorno_to_sts err)
           else multiplex_io_errorno_to_sts ENOMEM, Some (s\<lparr>handles := (handles s)(i \<mapsto> h')\<rparr>))"
    "rb_wf (w_buf h')" "h' = h\<lparr>w_buf := w_buf h', epevt_events := epevt_events h'\<rparr>"
    "rb_contents (w_buf h') = rb_contents (w_buf h) @ (if rb_accepts (w_buf h) (length bs) then bs else [])"
    using multiplex_io_write_live [OF wf i, of bs ctl err] by blast
  have "hsig h' = hsig h" by (subst h'(3)) (simp add: hsig_def)
  then show thesis using h' by (intro that) (auto simp: written_def)
next
  case False
  have same: "s\<lparr>handles := (handles s)(i \<mapsto> h)\<rparr> = s" by (simp add: map_upd_same [where m = "handles s", OF i(2)])
  obtain n rb where res: "multiplex_io_rb_write_data (w_buf h) bs (word_of_int (int (length bs))) = (n, rb)" by fastforce
  have w: "written bs h h'" if "hsig h' = hsig h" for h' using that False by (simp add: written_def)
  have "\<exists>rv h'. multiplex_io_write (Some s) (Some i) (Some bs) (int (length bs)) ctl err =
      Inr (rv, Some (s\<lparr>handles := (handles s)(i \<mapsto> h')\<rparr>)) \<and> hsig h' = hsig h"
  proof (cases "length bs > 0 \<and> mh_fd h \<ge> 0")
    case True
    then show ?thesis using mio_live_io [OF wf i] res
      by (cases "sint n = int (length bs)")
        (auto simp: multiplex_io_write_def Let_def hsig_def
          intro: exI [of _ "h\<lparr>w_buf := rb, epevt_events := epevt_events h OR EPOLLOUT\<rparr>"] exI [of _ "h\<lparr>w_buf := rb\<rparr>"])
  next
    case False
    then show ?thesis using mio_live_io [OF wf i] same
      by (intro exI [of _ "if length bs > 0 then multiplex_io_errorno_to_sts EBADF else MIO_ERR_INVALID_PARAM"] exI [of _ h])
        (auto simp: multiplex_io_write_def)
  qed
  then show thesis using w that by blast
qed

text \<open>The handles of the subscribers, in dispatch order.\<close>

definition node_handle :: "local_server \<Rightarrow> srv_node \<Rightarrow> nat option" where
  "node_handle s n = Option.bind (node_client s n) (\<lambda>c. Option.bind (clients s c) cli_io_handle)"

definition delivered :: "u8 list \<Rightarrow> nat set \<Rightarrow> local_server \<Rightarrow> local_server \<Rightarrow> bool" where
  "delivered bs J s s' \<longleftrightarrow>
     s' = s\<lparr>handles := handles s', tick := tick s'\<rparr> \<and>
     (\<forall>j. j \<notin> J \<longrightarrow> handles s' j = handles s j) \<and>
     (\<forall>j h. j \<in> J \<longrightarrow> handles s j = Some h \<longrightarrow> (\<exists>h'. handles s' j = Some h' \<and> written bs h h'))"

lemma delivered_fields:
  assumes "delivered bs J s s'"
  shows "sheap s' = sheap s" "refs s' = refs s" "clients s' = clients s" "lheap s' = lheap s"
    "listen_io_handle s' = listen_io_handle s" "acts s' = acts s" "ep_interest s' = ep_interest s"
proof -
  have e: "s' = s\<lparr>handles := handles s', tick := tick s'\<rparr>" using assms by (simp add: delivered_def)
  show "sheap s' = sheap s" "refs s' = refs s" "clients s' = clients s" "lheap s' = lheap s"
    "listen_io_handle s' = listen_io_handle s" "acts s' = acts s" "ep_interest s' = ep_interest s"
    by (subst e, simp)+
qed

lemma delivered_keep:
  assumes "delivered bs J s s'" "J \<subseteq> dom (handles s)"
  shows "srv_keep s s'"
proof -
  have "map_option hsig (handles s' j) = map_option hsig (handles s j)" for j
  proof (cases "j \<in> J")
    case True
    then obtain h where h: "handles s j = Some h" using assms(2) by auto
    then obtain h' where "handles s' j = Some h'" "written bs h h'"
      using assms(1) True unfolding delivered_def by blast
    then show ?thesis using h by (simp add: written_def)
  next
    case False
    then show ?thesis using assms(1) by (simp add: delivered_def)
  qed
  then show ?thesis using delivered_fields [OF assms(1)] by (simp add: srv_keep_def)
qed

lemma dispatch_loop_linked:
  "linked (sheap s) (ns @ [l]) \<Longrightarrow> l \<notin> set ns \<Longrightarrow> mio_wf s ios dels \<Longrightarrow>
   \<forall>n \<in> set ns. \<exists>r j. n = RefList r \<and> node_handle s n = Some j \<and> j \<in> set ios \<Longrightarrow>
   distinct (map (node_handle s) ns) \<Longrightarrow>
   \<exists>s'. dispatch_loop sys bs (int (length bs)) l (hd (ns @ [l])) ret s = Some (Inr (ret + length ns, s')) \<and>
     delivered bs {j. Some j \<in> node_handle s ` set ns} s s'"
proof (induction ns arbitrary: s ret)
  case Nil
  then show ?case by (simp add: dispatch_loop.simps delivered_def)
next
  case (Cons n ns)
  obtain r j where n: "n = RefList r" "node_handle s n = Some j" "j \<in> set ios" using Cons.prems(4) by auto
  obtain c cl where c: "refs s r = Some c" "clients s c = Some cl" "cli_io_handle cl = Some j"
    using n(1,2) by (auto simp: node_handle_def node_client_def bind_eq_Some_conv)
  obtain h where h: "handles s j = Some h" using Cons.prems(3) n(3) by (auto simp: mio_wf_def)
  obtain rv h' where w: "multiplex_io_write (Some s) (Some j) (Some bs) (int (length bs))
      (sc_ctl (sys (tick s))) (sc_err (sys (tick s))) = Inr (rv, Some (s\<lparr>handles := (handles s)(j \<mapsto> h')\<rparr>))"
    and wr: "written bs h h'" by (rule multiplex_io_write_any [OF Cons.prems(3) n(3) h])
  let ?s1 = "next_tick (s\<lparr>handles := (handles s)(j \<mapsto> h')\<rparr>)"
  have nh: "node_handle ?s1 = node_handle s" 
    by (simp add: fun_eq_iff node_handle_def node_client_def split: srv_node.split)
  have step: "nnext (sheap s n) = hd (ns @ [l])" "linked (sheap s) (ns @ [l])"
    using linked_hd [of "sheap s" n ns l] Cons.prems(1) by simp_all
  have "mio_wf ?s1 ios dels" using Cons.prems(3) h by (auto simp: mio_wf_def)
  then obtain s' where s': "dispatch_loop sys bs (int (length bs)) l (hd (ns @ [l])) (ret + 1) ?s1 =
      Some (Inr (ret + 1 + length ns, s'))" "delivered bs {j. Some j \<in> node_handle s ` set ns} ?s1 s'"
    using Cons.IH [of ?s1 "ret + 1"] step(2) Cons.prems(2,4,5) by (auto simp: nh)
  have "n \<noteq> l" using Cons.prems(2) by auto
  then have "dispatch_loop sys bs (int (length bs)) l n ret s =
      dispatch_loop sys bs (int (length bs)) l (hd (ns @ [l])) (ret + 1) ?s1"
    using n(1) c w step(1) by (subst dispatch_loop.simps) simp
  moreover have "delivered bs {j. Some j \<in> node_handle s ` set (n # ns)} s s'"
  proof -
    have e: "s' = ?s1\<lparr>handles := handles s', tick := tick s'\<rparr>" using s'(2) by (simp add: delivered_def)
    have j: "Some j \<notin> node_handle s ` set ns" using Cons.prems(5) n(2) by auto
    have "s' = s\<lparr>handles := handles s', tick := tick s'\<rparr>" by (subst e) (simp add: next_tick_def)
    moreover have hj: "handles s' j = Some h'" using s'(2) j by (simp add: delivered_def)
    moreover have "\<exists>h'. handles s' k = Some h' \<and> written bs g h'"
      if k: "Some k \<in> node_handle s ` set (n # ns)" "handles s k = Some g" for k g
    proof (cases "k = j")
      case True
      then show ?thesis using hj wr h k(2) by simp
    next
      case False
      then have "Some k \<in> node_handle s ` set ns" using k(1) n(2) by auto
      then show ?thesis using s'(2) k(2) False by (simp add: delivered_def)
    qed
    moreover have "handles s' k = handles s k" if "Some k \<notin> node_handle s ` set (n # ns)" for k
    proof -
      have "k \<noteq> j" "Some k \<notin> node_handle s ` set ns" using that n(2) by auto
      then show ?thesis using s'(2) by (simp add: delivered_def)
    qed
    ultimately show ?thesis unfolding delivered_def by blast
  qed
  ultimately show ?case using s'(1) by simp
qed

lemma srv_st_client:
  assumes "srv_st s ios dels L R" "clients s c = Some cl"
  obtains j h where "rx_ok cl" "cli_io_handle cl = Some j" "j \<in> set ios" "handles s j = Some h"
    "r_ind h = Some ComRd" "r_param h = PCli c"
  using assms unfolding srv_st_def srv_link_def by blast

lemma sub_node_handle:
  assumes st: "srv_st s ios dels L R" and i: "i \<noteq> 0" and n: "n \<in> set (L i)"
  obtains r c j h where "n = RefList r" "refs s r = Some c" "node_handle s n = Some j" "j \<in> set ios"
    "handles s j = Some h" "r_param h = PCli c"
proof -
  have ok: "subs_ok (dom (clients s)) (dom (clients s)) (refs s) L R" using st by (simp add: srv_st_def)
  obtain r c where r: "n = RefList r" "refs s r = Some c" using subs_okD(2) [OF ok n] i by blast
  obtain cl where cl: "clients s c = Some cl" using subs_ok_ref_client [OF ok r(2)] by auto
  obtain j h where "cli_io_handle cl = Some j" "j \<in> set ios" "handles s j = Some h" "r_param h = PCli c"
    by (rule srv_st_client [OF st cl])
  with r cl show thesis by (intro that [of r c j h]) (simp_all add: node_handle_def node_client_def)
qed

text \<open>Every subscriber has its own handle, so each gets the packet once.\<close>

lemma node_handles_distinct:
  assumes st: "srv_st s ios dels L R" and i: "i \<noteq> 0"
  shows "distinct (map (node_handle s) (L i))"
proof -
  have ok: "subs_ok (dom (clients s)) (dom (clients s)) (refs s) L R" and rg: "rings list_ring (sheap s) (srv_rings L R)"
    using st by (simp_all add: srv_st_def)
  have "inj_on (node_handle s) (set (L i))"
  proof (rule inj_onI)
    fix n m assume n: "n \<in> set (L i)" and m: "m \<in> set (L i)" and e: "node_handle s n = node_handle s m"
    obtain r c j h where 1: "n = RefList r" "refs s r = Some c" "node_handle s n = Some j" "handles s j = Some h"
      "r_param h = PCli c" by (rule sub_node_handle [where L = L, OF st i n])
    obtain q d k g where 2: "m = RefList q" "refs s q = Some d" "node_handle s m = Some k" "handles s k = Some g"
      "r_param g = PCli d" by (rule sub_node_handle [where L = L, OF st i m])
    have "refs s r = refs s q" using 1 2 e by auto
    then show "n = m" using subs_okD(7) [OF ok, of r i q] n m 1(1) 2(1) by simp
  qed
  then show ?thesis using rings_distinct(1) [OF rg] by (simp add: distinct_map)
qed

lemma dispatch_pkt_st:
  assumes st: "srv_st s ios dels L R" and i: "i \<noteq> 0"
  obtains s' where "dispatch_pkt sys bs (int (length bs)) (SubHead i) s = Inr (length (L i), s')"
    "delivered bs {j. Some j \<in> node_handle s ` set (L i)} s s'" "srv_keep s s'" "srv_st s' ios dels L R"
proof -
  have wf: "mio_wf s ios dels" using st by (simp add: srv_st_def)
  note w = ring_walk [OF srv_st_ring [OF st, of i]]
  have nodes: "\<forall>n \<in> set (L i). \<exists>r j. n = RefList r \<and> node_handle s n = Some j \<and> j \<in> set ios"
  proof
    fix n assume "n \<in> set (L i)"
    then show "\<exists>r j. n = RefList r \<and> node_handle s n = Some j \<and> j \<in> set ios"
      by (rule sub_node_handle [where L = L, OF st i]) blast
  qed
  obtain s' where s': "dispatch_loop sys bs (int (length bs)) (SubHead i) (hd (L i @ [SubHead i])) 0 s =
      Some (Inr (0 + length (L i), s'))" "delivered bs {j. Some j \<in> node_handle s ` set (L i)} s s'"
    using dispatch_loop_linked [of s "L i" "SubHead i" ios dels sys bs 0] w wf nodes
      node_handles_distinct [OF st i] by blast
  have "{j. Some j \<in> node_handle s ` set (L i)} \<subseteq> dom (handles s)"
  proof
    fix j assume "j \<in> {j. Some j \<in> node_handle s ` set (L i)}"
    then obtain n where n: "n \<in> set (L i)" "node_handle s n = Some j" by auto
    then have "j \<in> set ios" using nodes by fastforce
    then show "j \<in> dom (handles s)" using wf by (auto simp: mio_wf_def)
  qed
  then have k: "srv_keep s s'" by (rule delivered_keep [OF s'(2)])
  have "srv_st s' ios dels L R"
    by (rule srv_st_keep [OF k st]) (simp_all add: delivered_fields [OF s'(2)])
  then show thesis using s' k w by (intro that [of s']) (simp_all add: dispatch_pkt_def run_loop_def)
qed

section \<open>Packets keep the invariant\<close>

text \<open>
  A step of the server proper: it does not fault, keeps registry and receive state, and the
  subscription lists stay well formed.
\<close>

definition srv_steps :: "nat list \<Rightarrow> nat list \<Rightarrow> local_server \<Rightarrow> c_fault + local_server \<Rightarrow> bool" where
  "srv_steps ios dels s r \<longleftrightarrow> (\<exists>s' L' R'. r = Inr s' \<and> srv_keep s s' \<and> srv_st s' ios dels L' R')"

lemma srv_stepsI: "srv_keep s s' \<Longrightarrow> srv_st s' ios dels L' R' \<Longrightarrow> srv_steps ios dels s (Inr s')"
  by (auto simp: srv_steps_def)

lemma srv_steps_bind:
  assumes "srv_steps ios dels s r"
    and "\<And>s' L' R'. srv_keep s s' \<Longrightarrow> srv_st s' ios dels L' R' \<Longrightarrow> srv_steps ios dels s' (f s')"
  shows "srv_steps ios dels s (bind_fault r f)"
proof -
  obtain s' L' R' where s': "r = Inr s'" "srv_keep s s'" "srv_st s' ios dels L' R'"
    using assms(1) by (auto simp: srv_steps_def)
  have "srv_steps ios dels s' (f s')" by (rule assms(2) [OF s'(2,3)])
  then show ?thesis using s' srv_keep_trans [OF s'(2)] by (auto simp: srv_steps_def)
qed

lemma srv_keep_in_clients: "srv_keep s s' \<Longrightarrow> c \<in> dom (clients s) \<Longrightarrow> c \<in> dom (clients s')"
  by (simp add: srv_keep_dom)

lemma subscribe_ids_steps:
  "srv_st s ios dels L R \<Longrightarrow> c \<in> dom (clients s) \<Longrightarrow> srv_steps ios dels s (subscribe_ids sys c is s)"
proof (induction "is" arbitrary: s L R)
  case Nil
  then show ?case by (auto intro: srv_stepsI)
next
  case (Cons i "is")
  have "\<exists>x s' L' R'. subscribe_pkt sys c (SubHead i) s = Inr (x, s') \<and> srv_keep s s' \<and> srv_st s' ios dels L' R'"
  proof (rule subscribe_cases [OF Cons.prems, of i sys])
    fix r xs h
    assume "subscribe_pkt sys c (SubHead i) s = Inr (Some r, next_tick (s\<lparr>sheap := h, refs := (refs s)(r \<mapsto> c)\<rparr>))"
      "srv_st (next_tick (s\<lparr>sheap := h, refs := (refs s)(r \<mapsto> c)\<rparr>)) ios dels
         (L(i := RefList r # L i)) (R(c \<mapsto> r # xs))"
    moreover have "srv_keep s (next_tick (s\<lparr>sheap := h, refs := (refs s)(r \<mapsto> c)\<rparr>))" by (simp add: srv_keep_subs)
    ultimately show ?thesis by blast
  next
    assume "subscribe_pkt sys c (SubHead i) s = Inr (None, next_tick s)"
    moreover have "srv_st (next_tick s) ios dels L R" by (rule srv_st_keep [OF _ Cons.prems(1)]) simp_all
    moreover have "srv_keep s (next_tick s)" by simp
    ultimately show ?thesis by blast
  qed (use Cons.prems(1) srv_keep_refl in blast)
  then obtain x s' L' R' where s': "subscribe_pkt sys c (SubHead i) s = Inr (x, s')" "srv_keep s s'"
    "srv_st s' ios dels L' R'" by blast
  have "srv_steps ios dels s' (subscribe_ids sys c is s')"
    by (rule Cons.IH [OF s'(3) srv_keep_in_clients [OF s'(2) Cons.prems(2)]])
  then show ?case using s'(1) srv_keep_trans [OF s'(2)] by (auto simp: srv_steps_def)
qed

lemma srv_keep_drop_ref: "srv_keep s (drop_ref r s)"
  by (simp add: drop_ref_def srv_keep_subs)

lemma unsubscribe_ids_steps:
  "srv_st s ios dels L R \<Longrightarrow> srv_steps ios dels s (unsubscribe_ids c is s)"
proof (induction "is" arbitrary: s L R)
  case Nil
  then show ?case by (auto intro: srv_stepsI)
next
  case (Cons i "is")
  have "\<exists>x s' L' R'. unsubscribe_pkt c (SubHead i) s = Inr (x, s') \<and> srv_keep s s' \<and> srv_st s' ios dels L' R'"
    by (rule unsubscribe_cases [OF Cons.prems, of i c]) (use Cons.prems srv_keep_refl srv_keep_drop_ref in blast)+
  then obtain x s' L' R' where s': "unsubscribe_pkt c (SubHead i) s = Inr (x, s')" "srv_keep s s'"
    "srv_st s' ios dels L' R'" by blast
  have "srv_steps ios dels s' (unsubscribe_ids c is s')" by (rule Cons.IH [OF s'(3)])
  then show ?case
    using s'(1) srv_keep_trans [OF s'(2)] Cons.IH [OF Cons.prems] by (auto simp: srv_steps_def)
qed

lemma set_client_name_steps:
  assumes "srv_st s ios dels L R" "clients s c = Some cl"
  shows "srv_steps ios dels s (set_client_name c bs s)"
proof -
  let ?i = "min (length bs) (CLI_NAME_SIZE - 1)"
  let ?s' = "s\<lparr>clients := (clients s)(c \<mapsto> cl\<lparr>cli_name := (mem_put (cli_name cl) 0 (take ?i bs))(?i := 0)\<rparr>)\<rparr>"
  have k: "srv_keep s ?s'" using assms(2) by (simp add: srv_keep_def rxsig_def)
  have "srv_st ?s' ios dels L R" by (rule srv_st_keep [OF k assms(1)]) simp_all
  with k show ?thesis using assms(2) by (simp add: set_client_name_def Let_def srv_stepsI)
qed

lemma srv_packet_steps:
  assumes st: "srv_st s ios dels L R" and c: "clients s c = Some cl"
  shows "srv_steps ios dels s (srv_packet sys c p pkt_size pkt_id s)"
proof (cases "pkt_id = 0")
  case False
  let ?bs = "mem_get p 0 (unat pkt_size + 2)"
  obtain s' where "dispatch_pkt sys ?bs (int (length ?bs)) (SubHead pkt_id) s = Inr (length (L pkt_id), s')"
    "srv_keep s s'" "srv_st s' ios dels L R" by (rule dispatch_pkt_st [OF st False])
  then show ?thesis using False by (auto simp: srv_packet_def add.commute intro: srv_stepsI)
next
  case True
  have "c \<in> dom (clients s)" using c by blast
  then show ?thesis
    using True subscribe_ids_steps [OF st] unsubscribe_ids_steps [OF st] set_client_name_steps [OF st c]
      srv_stepsI [OF srv_keep_refl st]
    by (simp add: srv_packet_def Let_def)
qed

section \<open>The receive loop splits the stream into packets\<close>

text \<open>The packets of the reference decoder, processed one after the other.\<close>

fun srv_pkts :: "srv_sys \<Rightarrow> nat \<Rightarrow> u8 list list \<Rightarrow> local_server \<Rightarrow> c_fault + local_server" where
  "srv_pkts sys cli [] s = Inr s"
| "srv_pkts sys cli (w # ws) s =
     bind_fault (srv_packet sys cli (\<lambda>k. w ! k) (le16 (w ! 0) (w ! 1)) (le16 (w ! 2) (w ! 3)) s)
       (srv_pkts sys cli ws)"

lemma control_ids_cong:
  assumes "\<And>k. k < unat z + 2 \<Longrightarrow> p k = q k"
  shows "control_ids p z = control_ids q z"
proof -
  have le: "unat (z AND 0xFFFE) \<le> unat z"
    using word_and_le2 [of z "0xFFFE"] by (simp add: word_le_nat_alt)
  have "p (2 * k + 6) = q (2 * k + 6) \<and> p (2 * k + 7) = q (2 * k + 7)" if "k < (unat (z AND 0xFFFE) - 4) div 2" for k
  proof -
    have "2 * k + 7 < unat z + 2" using that le by linarith
    then show ?thesis by (simp add: assms)
  qed
  then show ?thesis unfolding control_ids_def by (intro map_cong) auto
qed

lemma srv_packet_cong:
  assumes "\<And>k. k < unat z + 2 \<Longrightarrow> p k = q k"
  shows "srv_packet sys cli p z i s = srv_packet sys cli q z i s"
proof -
  have data: "mem_get p 0 (unat z + 2) = mem_get q 0 (unat z + 2)"
    using assms by (intro mem_get_cong) simp
  show ?thesis
  proof (cases "z \<ge> 4")
    case True
    then have u: "4 \<le> unat z" by (simp add: word_le_nat_alt)
    have "p 4 = q 4" "p 5 = q 5" using u by (simp_all add: assms)
    moreover have "mem_get p 6 (unat z - 4) = mem_get q 6 (unat z - 4)"
      using u assms by (intro mem_get_cong) simp
    moreover have "control_ids p z = control_ids q z" by (rule control_ids_cong) (rule assms)
    ultimately show ?thesis using data by (simp add: srv_packet_def Let_def)
  next
    case False
    then show ?thesis using data by (simp add: srv_packet_def)
  qed
qed

lemma srv_parse_deframe:
  "base \<le> idx \<Longrightarrow> \<exists>j. srv_parse sys cli rx idx base s =
     bind_fault (srv_pkts sys cli (fst (deframe 5 (mem_get rx base (idx - base)))) s) (\<lambda>s'. Inr (j, s')) \<and>
     base \<le> j \<and> j \<le> idx \<and> snd (deframe 5 (mem_get rx base (idx - base))) = mem_get rx j (idx - j)"
proof (induction "idx - base" arbitrary: base s rule: less_induct)
  case less
  let ?z = "le16 (rx base) (rx (base + 1))" and ?bs = "mem_get rx base (idx - base)"
  let ?n = "unat ?z" and ?id = "le16 (rx (base + 2)) (rx (base + 3))"
  show ?case
  proof (cases "idx > 4 + base \<and> base + ?n + 2 \<le> idx")
    case True
    then have t: "pkt_total ?bs = ?n + 2" by (intro pkt_total_mem_get) linarith
    have len: "5 \<le> length ?bs" "pkt_total ?bs \<le> length ?bs" using True t by auto
    have rest: "drop (pkt_total ?bs) ?bs = mem_get rx (base + (?n + 2)) (idx - (base + (?n + 2)))" by (simp add: t)
    have mx: "max 5 (?n + 2) \<le> idx - base" using True by auto
    let ?w = "mem_get rx base (max 5 (?n + 2))"
    have win: "take (max 5 (pkt_total ?bs)) ?bs = ?w" using mx by (simp only: take_mem_get t min_absorb1)
    have hdr: "?w ! 0 = rx base" "?w ! 1 = rx (base + 1)" "?w ! 2 = rx (base + 2)" "?w ! 3 = rx (base + 3)" by simp_all
    have pkt: "srv_packet sys cli (\<lambda>k. rx (base + k)) ?z ?id s = srv_packet sys cli (\<lambda>k. ?w ! k) ?z ?id s" for s
      by (rule srv_packet_cong) simp
    define b where "b = base + (?n + 2)"
    have b: "idx - b < idx - base" "b \<le> idx" using True by (auto simp: b_def)
    have "\<exists>j. (\<forall>s. srv_parse sys cli rx idx b s =
        bind_fault (srv_pkts sys cli (fst (deframe 5 (mem_get rx b (idx - b)))) s) (\<lambda>s'. Inr (j, s'))) \<and>
        b \<le> j \<and> j \<le> idx \<and> snd (deframe 5 (mem_get rx b (idx - b))) = mem_get rx j (idx - j)"
    proof -
      obtain j where j: "b \<le> j \<and> j \<le> idx \<and> snd (deframe 5 (mem_get rx b (idx - b))) = mem_get rx j (idx - j)"
        using less.hyps [OF b] by blast
      have "j' = j" if "b \<le> j' \<and> j' \<le> idx \<and> snd (deframe 5 (mem_get rx b (idx - b))) = mem_get rx j' (idx - j')" for j'
      proof -
        have "length (mem_get rx j (idx - j)) = length (mem_get rx j' (idx - j'))" using that j by metis
        then have "idx - j = idx - j'" by simp
        then show ?thesis using that j by arith
      qed
      then show ?thesis using less.hyps [OF b] j by metis
    qed
    then obtain j where j: "\<And>s. srv_parse sys cli rx idx b s =
        bind_fault (srv_pkts sys cli (fst (deframe 5 (mem_get rx b (idx - b)))) s) (\<lambda>s'. Inr (j, s'))"
      "b \<le> j" "j \<le> idx" "snd (deframe 5 (mem_get rx b (idx - b))) = mem_get rx j (idx - j)" by blast
    have step: "srv_parse sys cli rx idx base s =
        bind_fault (srv_packet sys cli (\<lambda>k. rx (base + k)) ?z ?id s) (srv_parse sys cli rx idx b)"
      using True by (subst srv_parse.simps) (simp add: Let_def b_def)
    have assoc: "bind_fault r (\<lambda>s. bind_fault (f s) g) = bind_fault (bind_fault r f) g"
      for r :: "c_fault + local_server" and f and g :: "local_server \<Rightarrow> c_fault + (nat \<times> local_server)"
      by (cases r) simp_all
    have tail: "srv_parse sys cli rx idx b = (\<lambda>s.
        bind_fault (srv_pkts sys cli (fst (deframe 5 (mem_get rx b (idx - b)))) s) (\<lambda>s'. Inr (j, s')))"
      by (rule ext) (rule j(1))
    have "srv_parse sys cli rx idx base s =
        bind_fault (srv_pkts sys cli (?w # fst (deframe 5 (mem_get rx b (idx - b)))) s) (\<lambda>s'. Inr (j, s'))"
      unfolding step pkt srv_pkts.simps hdr tail by (rule assoc)
    moreover have "base \<le> j" using j(2) by (simp add: b_def)
    ultimately show ?thesis using j(3,4)
      unfolding deframe_step [OF len] rest win fst_conv snd_conv b_def [symmetric] by blast
  next
    case False
    then have "srv_parse sys cli rx idx base s = Inr (base, s)" by (subst srv_parse.simps) (auto simp: Let_def)
    moreover have "\<not> (5 \<le> length ?bs \<and> pkt_total ?bs \<le> length ?bs)"
      using False pkt_total_mem_get [of "idx - base" rx base] by auto
    ultimately show ?thesis using less.prems by (simp add: deframe_stop)
  qed
qed

lemma srv_pkts_steps:
  "srv_st s ios dels L R \<Longrightarrow> c \<in> dom (clients s) \<Longrightarrow> srv_steps ios dels s (srv_pkts sys c ws s)"
proof (induction ws arbitrary: s L R)
  case Nil
  then show ?case by (auto intro: srv_stepsI)
next
  case (Cons w ws)
  then obtain cl where cl: "clients s c = Some cl" by auto
  have "srv_steps ios dels s (srv_packet sys c (\<lambda>k. w ! k) (le16 (w ! 0) (w ! 1)) (le16 (w ! 2) (w ! 3)) s)"
    by (rule srv_packet_steps [OF Cons.prems(1) cl])
  then show ?case unfolding srv_pkts.simps
    by (rule srv_steps_bind) (rule Cons.IH, assumption, rule srv_keep_in_clients [OF _ Cons.prems(2)])
qed

section \<open>The read callback of a client\<close>

lemma srv_st_rx:
  assumes st: "srv_st s ios dels L R" and cl: "clients s c = Some cl"
    and cl': "rx_ok cl'" "cli_io_handle cl' = cli_io_handle cl"
  shows "srv_st (s\<lparr>clients := (clients s)(c \<mapsto> cl')\<rparr>) ios dels L R"
proof -
  let ?s' = "s\<lparr>clients := (clients s)(c \<mapsto> cl')\<rparr>"
  have lk: "srv_link s ios" and wf: "mio_wf s ios dels" using st by (simp_all add: srv_st_def)
  have "srv_link ?s' ios" unfolding srv_link_def
  proof (intro conjI allI impI)
    fix d dl assume d: "clients ?s' d = Some dl"
    have "\<exists>el. clients s d = Some el \<and> cli_io_handle dl = cli_io_handle el" using d cl cl'(2) by (auto split: if_splits)
    then obtain el where el: "clients s d = Some el" "cli_io_handle dl = cli_io_handle el" by blast
    obtain j h where j: "rx_ok el" "cli_io_handle el = Some j" "j \<in> set ios" "handles s j = Some h"
      "r_ind h = Some ComRd" "r_param h = PCli d" by (rule srv_st_client [OF st el(1)])
    show "rx_ok dl" using d el(1) cl'(1) j(1) by (auto split: if_splits)
    show "\<exists>j h. cli_io_handle dl = Some j \<and> j \<in> set ios \<and> handles ?s' j = Some h \<and> r_ind h = Some ComRd \<and> r_param h = PCli d"
      using j el(2) by auto
  next
    fix j h assume jh: "j \<in> set ios" "handles ?s' j = Some h"
    have "handles s j = Some h" using jh(2) by simp
    with jh(1) have "r_ind h = Some ListenRd \<and> r_param h = PServer \<or>
        (\<exists>c cl. r_ind h = Some ComRd \<and> r_param h = PCli c \<and> clients s c = Some cl \<and> cli_io_handle cl = Some j)"
      using lk unfolding srv_link_def by blast
    then show "r_ind h = Some ListenRd \<and> r_param h = PServer \<or>
        (\<exists>c cl. r_ind h = Some ComRd \<and> r_param h = PCli c \<and> clients ?s' c = Some cl \<and> cli_io_handle cl = Some j)"
      using cl cl'(2) by auto
  qed (use lk in \<open>auto simp: srv_link_def\<close>)
  moreover have "dom (clients ?s') = dom (clients s)" using cl by auto
  moreover have "mio_wf ?s' ios dels" using wf by (simp add: mio_wf_def)
  ultimately show ?thesis using st by (simp add: srv_st_def)
qed

lemma rx_room_pos: "rx_ok cl \<Longrightarrow> cli_rx_idx cl < 65537"
  using deframe_rest_small [of 5 "cli_pending cl"] by (simp add: rx_ok_def cli_pending_def)

lemma errorno_negative: "multiplex_io_errorno_to_sts e \<le> - 2"
  by (simp add: multiplex_io_errorno_to_sts_def mio_consts Let_def)

text \<open>The result of the read: the number of bytes, or something not positive.\<close>

definition cli_read :: "srv_sys \<Rightarrow> local_server \<Rightarrow> client_runtime \<Rightarrow> u8 list" where
  "cli_read sys s cl = read_bytes (sys (tick s)) (CLI_RX_BUF_SIZE - cli_rx_idx cl)"

lemma multiplex_io_read_client:
  assumes st: "srv_st s ios dels L R" and cl: "rx_ok cl" and io: "io \<in> set ios" "handles s io = Some h"
  shows "\<exists>ret. multiplex_io_read (Some s) (Some io) True (int (CLI_RX_BUF_SIZE - cli_rx_idx cl))
      (read_result (sys (tick s)) (CLI_RX_BUF_SIZE - cli_rx_idx cl)) (sc_err (sys (tick s))) = Inr ret \<and>
    ret \<le> int (length (cli_read sys s cl)) \<and>
    (cli_read sys s cl \<noteq> [] \<longrightarrow> mh_fd h \<ge> 0 \<longrightarrow> ret = int (length (cli_read sys s cl))) \<and>
    (cli_read sys s cl = [] \<or> mh_fd h < 0 \<longrightarrow> ret \<le> 0)"
proof -
  have wf: "mio_wf s ios dels" using st by (simp add: srv_st_def)
  have room: "CLI_RX_BUF_SIZE - cli_rx_idx cl > 0" using rx_room_pos [OF cl] by (simp add: CLI_RX_BUF_SIZE_def)
  note e = errorno_negative [of "sc_err (sys (tick s))"] errorno_negative [of EBADF]
  show ?thesis
    using mio_live_io [OF wf io] room e
    by (cases "sc_read (sys (tick s))")
      (auto simp: multiplex_io_read_def cli_read_def read_bytes_def read_result_def)
qed

lemma srv_st_client_rx:
  assumes st: "srv_st s ios dels L R" and cl: "clients s c = Some cl"
  shows "srv_st (next_tick (s\<lparr>clients := (clients s)(c \<mapsto> cl\<lparr>cli_rx_buf := mem_put (cli_rx_buf cl) (cli_rx_idx cl) bs\<rparr>)\<rparr>))
    ios dels L R"
proof -
  let ?cl = "cl\<lparr>cli_rx_buf := mem_put (cli_rx_buf cl) (cli_rx_idx cl) bs\<rparr>"
  have "rx_ok cl" by (rule srv_st_client [OF st cl])
  then have "rx_ok ?cl" by (simp add: rx_ok_def cli_pending_def)
  then show ?thesis
    using srv_st_keep [of "s\<lparr>clients := (clients s)(c \<mapsto> ?cl)\<rparr>" "next_tick (s\<lparr>clients := (clients s)(c \<mapsto> ?cl)\<rparr>)"]
      srv_st_rx [OF st cl, of ?cl] by simp
qed

lemma com_fd_rd_data:
  assumes st: "srv_st s ios dels L R" and cl: "clients s c = Some cl" "cli_io_handle cl = Some io"
    and io: "handles s io = Some h" "mh_fd h \<ge> 0" and bs: "cli_read sys s cl \<noteq> []"
  obtains s0 s1 s' cl' L' R' where
    "s0 = next_tick (s\<lparr>clients := (clients s)(c \<mapsto>
        cl\<lparr>cli_rx_buf := mem_put (cli_rx_buf cl) (cli_rx_idx cl) (cli_read sys s cl)\<rparr>)\<rparr>)"
    "srv_pkts sys c (fst (deframe 5 (cli_pending cl @ cli_read sys s cl))) s0 = Inr s1"
    "com_fd_rd_callback sys io c s = Inr (int (length (cli_read sys s cl)), s')"
    "s' = s1\<lparr>clients := (clients s1)(c \<mapsto> cl')\<rparr>"
    "cli_pending cl' = snd (deframe 5 (cli_pending cl @ cli_read sys s cl))"
    "srv_keep s0 s1" "srv_st s1 ios dels L' R'" "srv_st s' ios dels L' R'" "cli_io_handle cl' = Some io"
proof -
  let ?bs = "cli_read sys s cl"
  let ?room = "CLI_RX_BUF_SIZE - cli_rx_idx cl"
  let ?rx = "mem_put (cli_rx_buf cl) (cli_rx_idx cl) ?bs"
  let ?idx = "cli_rx_idx cl + length ?bs"
  let ?s0 = "next_tick (s\<lparr>clients := (clients s)(c \<mapsto> cl\<lparr>cli_rx_buf := ?rx\<rparr>)\<rparr>)"
  obtain j h2 where j: "rx_ok cl" "cli_io_handle cl = Some j" "j \<in> set ios" "handles s j = Some h2"
    by (rule srv_st_client [OF st cl(1)])
  have ios: "io \<in> set ios" using j cl(2) by simp
  obtain ret where ret: "multiplex_io_read (Some s) (Some io) True (int ?room)
      (read_result (sys (tick s)) ?room) (sc_err (sys (tick s))) = Inr ret" "ret = int (length ?bs)"
    using multiplex_io_read_client [OF st j(1) ios io(1), of sys] bs io(2) by auto
  have pend: "mem_get ?rx 0 ?idx = cli_pending cl @ ?bs"
    using mem_get_put_extend [of 0 "cli_rx_idx cl" "cli_rx_buf cl" ?bs] by (simp add: cli_pending_def)
  have st0: "srv_st ?s0 ios dels L R" by (rule srv_st_client_rx [OF st cl(1)])
  obtain b where b: "srv_parse sys c ?rx ?idx 0 ?s0 =
      bind_fault (srv_pkts sys c (fst (deframe 5 (cli_pending cl @ ?bs))) ?s0) (\<lambda>s'. Inr (b, s'))"
    "b \<le> ?idx" "snd (deframe 5 (cli_pending cl @ ?bs)) = mem_get ?rx b (?idx - b)"
    using srv_parse_deframe [of 0 ?idx sys c ?rx ?s0] pend by auto
  have "srv_steps ios dels ?s0 (srv_pkts sys c (fst (deframe 5 (cli_pending cl @ ?bs))) ?s0)"
    by (rule srv_pkts_steps [OF st0]) simp
  then obtain s1 L' R' where s1: "srv_pkts sys c (fst (deframe 5 (cli_pending cl @ ?bs))) ?s0 = Inr s1"
    "srv_keep ?s0 s1" "srv_st s1 ios dels L' R'" by (auto simp: srv_steps_def)
  obtain cl1 where cl1: "clients s1 c = Some cl1" "rxsig cl1 = rxsig (cl\<lparr>cli_rx_buf := ?rx\<rparr>)"
    by (rule srv_keep_client [OF s1(2), of c "cl\<lparr>cli_rx_buf := ?rx\<rparr>"]) simp
  let ?cl' = "cl1\<lparr>cli_rx_buf := (if b \<noteq> 0 then mem_put ?rx 0 (mem_get ?rx b (?idx - b)) else ?rx), cli_rx_idx := ?idx - b\<rparr>"
  have p': "cli_pending ?cl' = snd (deframe 5 (cli_pending cl @ ?bs))"
    using b(3) mem_get_put_same [of ?rx 0 "mem_get ?rx b (?idx - b)"] by (simp add: cli_pending_def)
  have "length ?bs \<le> ?room" by (simp add: cli_read_def read_bytes_def split: option.split)
  then have "?idx - b \<le> CLI_RX_BUF_SIZE" using j(1) unfolding rx_ok_def by linarith
  then have "rx_ok ?cl'"
    using deframe_stop [OF deframe_rest [OF p' [symmetric]]] by (simp add: rx_ok_def)
  moreover have "cli_io_handle ?cl' = cli_io_handle cl1" by simp
  ultimately have st': "srv_st (s1\<lparr>clients := (clients s1)(c \<mapsto> ?cl')\<rparr>) ios dels L' R'"
    by (rule srv_st_rx [OF s1(3) cl1(1)])
  have cb: "com_fd_rd_callback sys io c s = Inr (int (length ?bs), s1\<lparr>clients := (clients s1)(c \<mapsto> ?cl')\<rparr>)"
    using bs ret cl b(1) s1(1) cl1(1)
    by (simp add: com_fd_rd_callback_def Let_def cli_read_def [symmetric])
  have "cli_io_handle ?cl' = Some io" using cl1(2) cl(2) by (simp add: rxsig_def)
  then show thesis by (rule that [OF refl s1(1) cb refl p' s1(2,3) st'])
qed

section \<open>Disconnecting\<close>

definition without :: "nat list \<Rightarrow> (u16 \<Rightarrow> srv_node list) \<Rightarrow> u16 \<Rightarrow> srv_node list" where
  "without xs L = (\<lambda>k. [n \<leftarrow> L k. n \<notin> RefList ` set xs])"

text \<open>The loop that drops all subscriptions of a client terminates and drops exactly those.\<close>

lemma drop_client_refs_loop:
  "rings list_ring (sheap s) (srv_rings L R) \<Longrightarrow> subs_ok C D (refs s) L R \<Longrightarrow> R c = Some xs \<Longrightarrow>
   \<exists>h. drop_client_refs c s = Some (Inr (s\<lparr>sheap := h, refs := refs s |` (- set xs)\<rparr>)) \<and>
     rings list_ring h (srv_rings (without xs L) (R(c \<mapsto> []))) \<and>
     subs_ok C D (refs s |` (- set xs)) (without xs L) (R(c \<mapsto> []))"
proof (induction xs arbitrary: s L R)
  case Nil
  have r: "list_ring (sheap s) (CliRefHead c) []"
    using ringsD [where F = "srv_rings L R", OF Nil.prems(1), of "CliRefHead c" "[]"] Nil.prems(3) by simp
  have "list_isempty (sheap s) (CliRefHead c)" using cl.isempty_ring [OF r] by simp
  moreover have "without [] L = L" by (simp add: without_def)
  moreover have "R(c \<mapsto> []) = R" using map_upd_same [where m = R, OF Nil.prems(3)] .
  ultimately show ?case using Nil.prems
    by (intro exI [of _ "sheap s"], subst drop_client_refs.simps) (simp add: restrict_map_UNIV)
next
  case (Cons r xs)
  have rf: "refs s r = Some c" using subs_okD(6) [OF Cons.prems(2,3), of r] by simp
  obtain i where i: "RefList r \<in> set (L i)" using subs_okD(5) [OF Cons.prems(2) rf] by blast
  note d = rings_distinct [OF Cons.prems(1)]
  have ring: "list_ring (sheap s) (CliRefHead c) (RefRef r # map RefRef xs)"
    using ringsD [where F = "srv_rings L R", OF Cons.prems(1), of "CliRefHead c"] Cons.prems(3) by simp
  have step: "drop_client_refs c s = drop_client_refs c (drop_ref r s)"
    using cl.isempty_ring [OF ring] ring_walk [OF ring] rf by (subst drop_client_refs.simps) simp
  let ?L = "L(i := remove1 (RefList r) (L i))" and ?R = "R(c \<mapsto> xs)"
  have "rings list_ring (sheap (drop_ref r s)) (srv_rings ?L ?R)"
    using rings_drop_ref [where R = R, OF Cons.prems(1) i Cons.prems(3)] by (simp add: drop_ref_def)
  moreover have "subs_ok C D (refs (drop_ref r s)) ?L ?R"
    using subs_ok_drop [OF Cons.prems(2,1) i rf Cons.prems(3)] by (simp add: drop_ref_def)
  ultimately obtain h where h: "drop_client_refs c (drop_ref r s) =
      Some (Inr ((drop_ref r s)\<lparr>sheap := h, refs := refs (drop_ref r s) |` (- set xs)\<rparr>))"
    "rings list_ring h (srv_rings (without xs ?L) (?R(c \<mapsto> [])))"
    "subs_ok C D (refs (drop_ref r s) |` (- set xs)) (without xs ?L) (?R(c \<mapsto> []))"
    using Cons.IH [where s = "drop_ref r s" and L = ?L and R = ?R] by (metis fun_upd_same)
  have rr: "refs (drop_ref r s) |` (- set xs) = refs s |` (- set (r # xs))"
    by (rule ext) (auto simp: drop_ref_def restrict_map_def)
  have wo: "without xs ?L = without (r # xs) L"
  proof
    fix k
    have "filter (\<lambda>n. n \<notin> RefList ` set xs) (remove1 (RefList r) (L i)) =
        filter (\<lambda>n. n \<notin> RefList ` set (r # xs)) (L i)"
      using d(1) [of i] by (auto simp: distinct_remove1_removeAll removeAll_filter_not_eq intro!: filter_cong)
    moreover have "filter (\<lambda>n. n \<notin> RefList ` set xs) (L k) = filter (\<lambda>n. n \<notin> RefList ` set (r # xs)) (L k)" if "k \<noteq> i"
      using that rings_sub_unique [OF Cons.prems(1) i, of k] by (intro filter_cong) auto
    ultimately show "without xs ?L k = without (r # xs) L k" by (simp add: without_def)
  qed
  have "(drop_ref r s)\<lparr>sheap := h, refs := refs (drop_ref r s) |` (- set xs)\<rparr> =
      s\<lparr>sheap := h, refs := refs s |` (- set (r # xs))\<rparr>"
    unfolding rr by (simp add: drop_ref_def)
  moreover have "?R(c \<mapsto> []) = R(c \<mapsto> [])" by simp
  ultimately show ?case using h step unfolding rr wo by metis
qed

lemma subs_ok_remove_client:
  assumes ok: "subs_ok C D rf L R" and d: "distinct (L 0)"
  shows "subs_ok C (D - {c}) rf (L(0 := remove1 (CliList c) (L 0))) R"
proof -
  have keep: "RefList r \<in> set ((L(0 := remove1 (CliList c) (L 0))) k) \<longleftrightarrow> RefList r \<in> set (L k)" for r k
    by (cases "k = 0") simp_all
  have sub: "n \<in> set (L k) \<and> n \<noteq> CliList c" if "n \<in> set ((L(0 := remove1 (CliList c) (L 0))) k)" for n k
  proof (cases "k = 0")
    case True
    then show ?thesis using that d by simp
  next
    case False
    then show ?thesis using that subs_okD(2) [OF ok, of n k] by auto
  qed
  show ?thesis unfolding subs_ok_def keep
  proof (intro conjI allI impI)
    show "set ((L(0 := remove1 (CliList c) (L 0))) i) \<subseteq>
        RefList ` dom rf \<union> (if i = 0 then CliList ` (D - {c}) else {})" for i
    proof
      fix n assume "n \<in> set ((L(0 := remove1 (CliList c) (L 0))) i)"
      then have "n \<in> set (L i)" "n \<noteq> CliList c" using sub by auto
      then show "n \<in> RefList ` dom rf \<union> (if i = 0 then CliList ` (D - {c}) else {})"
        using subs_okD(2) [OF ok, of n i] by auto
    qed
    show "CliList ` (D - {c}) \<subseteq> set ((L(0 := remove1 (CliList c) (L 0))) 0)"
      using subs_okD(3) [OF ok] d by (auto simp: set_remove1_eq)
  qed (use ok in \<open>unfold subs_ok_def, blast+\<close>)
qed

lemma subs_ok_free_client:
  assumes ok: "subs_ok C D rf L (R(c \<mapsto> []))"
  shows "subs_ok (C - {c}) D rf L (R(c := None))"
  unfolding subs_ok_def
proof (intro conjI allI impI)
  show "dom (R(c := None)) = C - {c}" using subs_okD(1) [OF ok] by auto
  fix r d assume rd: "rf r = Some d"
  show "\<exists>xs. (R(c := None)) d = Some xs \<and> r \<in> set xs"
    using subs_okD(4) [OF ok rd] by (auto split: if_splits)
  show "\<exists>i. RefList r \<in> set (L i)" by (rule subs_okD(5) [OF ok rd])
next
  fix d xs r assume "(R(c := None)) d = Some xs" "r \<in> set xs"
  then show "rf r = Some d" using subs_okD(6) [OF ok, of d xs r] by (auto split: if_splits)
qed (use ok in \<open>unfold subs_ok_def, blast+\<close>)

lemma mio_wf_distinct: "mio_wf rt ios dels \<Longrightarrow> distinct ios"
  using cl.ring_distinct distinct_map unfolding mio_wf_def by fastforce

lemma close_fd_fields [simp]:
  "lheap (close_fd fd s) = lheap s" "handles (close_fd fd s) = handles s" "sheap (close_fd fd s) = sheap s"
  "clients (close_fd fd s) = clients s" "refs (close_fd fd s) = refs s" "tick (close_fd fd s) = tick s"
  "listen_io_handle (close_fd fd s) = listen_io_handle s" "acts (close_fd fd s) = acts s @ [SrvClose fd]"
  by (simp_all add: close_fd_def)

text \<open>Unregistering a client keeps the links between the remaining clients and handles.\<close>

lemma srv_link_remove:
  assumes lk: "srv_link s ios" and d: "distinct ios"
    and c: "clients s c = Some cl" "cli_io_handle cl = Some io"
    and s': "clients s' = (clients s)(c := None)" "handles s' = handles s" "listen_io_handle s' = listen_io_handle s"
  shows "srv_link s' (remove1 io ios)"
  unfolding srv_link_def s'
proof (intro conjI allI impI)
  have "\<exists>j h. cli_io_handle cl = Some j \<and> handles s j = Some h \<and> r_ind h = Some ComRd \<and> r_param h = PCli c"
    using lk c(1) unfolding srv_link_def by blast
  then obtain h where h: "handles s io = Some h" "r_ind h = Some ComRd" "r_param h = PCli c"
    using c(2) by auto
  have mem: "j \<in> set (remove1 io ios) \<longleftrightarrow> j \<in> set ios \<and> j \<noteq> io" for j using d by auto
  {
    fix e dl assume "((clients s)(c := None)) e = Some dl"
    then have e: "clients s e = Some dl" "e \<noteq> c" by (auto split: if_splits)
    then obtain j g where j: "rx_ok dl" "cli_io_handle dl = Some j" "j \<in> set ios" "handles s j = Some g"
      "r_ind g = Some ComRd" "r_param g = PCli e" using lk unfolding srv_link_def by blast
    then show "rx_ok dl" by simp
    have "j \<noteq> io" using j(4,6) h e(2) by auto
    then show "\<exists>j h. cli_io_handle dl = Some j \<and> j \<in> set (remove1 io ios) \<and> handles s j = Some h \<and>
        r_ind h = Some ComRd \<and> r_param h = PCli e"
      using j mem by blast
  }
  {
    fix j g assume j: "j \<in> set (remove1 io ios)" "handles s j = Some g"
    then have jj: "j \<in> set ios" "j \<noteq> io" using mem by auto
    then have "r_ind g = Some ListenRd \<and> r_param g = PServer \<or>
        (\<exists>e dl. r_ind g = Some ComRd \<and> r_param g = PCli e \<and> clients s e = Some dl \<and> cli_io_handle dl = Some j)"
      using lk j(2) unfolding srv_link_def by blast
    then show "r_ind g = Some ListenRd \<and> r_param g = PServer \<or>
        (\<exists>e dl. r_ind g = Some ComRd \<and> r_param g = PCli e \<and> ((clients s)(c := None)) e = Some dl \<and>
           cli_io_handle dl = Some j)"
      using c jj(2) by (metis fun_upd_other option.inject)
  }
  show "\<exists>j h. listen_io_handle s = Some j \<and> j \<in> set (remove1 io ios) \<and> handles s j = Some h \<and> r_ind h = Some ListenRd"
  proof -
    obtain j g where j: "listen_io_handle s = Some j" "j \<in> set ios" "handles s j = Some g" "r_ind g = Some ListenRd"
      using lk unfolding srv_link_def by blast
    then have "j \<noteq> io" using h by auto
    then show ?thesis using j mem by blast
  qed
qed (use lk in \<open>unfold srv_link_def, blast+\<close>)

lemma com_fd_close_st:
  assumes st: "srv_st s ios dels L R" and c: "clients s c = Some cl" "cli_io_handle cl = Some io"
    and h: "handles s io = Some h"
  obtains s' xs where "com_fd_close io c s = Inr (- 1, s')" "R c = Some xs"
    "srv_st s' (remove1 io ios) (dels @ [io]) (without xs (L(0 := remove1 (CliList c) (L 0)))) (R(c := None))"
    "clients s' = (clients s)(c := None)" "refs s' = refs s |` (- set xs)" "handles s' = handles s"
    "acts s' = acts s @ [SrvClose (mh_fd h)]"
proof -
  have ok: "subs_ok (dom (clients s)) (dom (clients s)) (refs s) L R" and rg: "rings list_ring (sheap s) (srv_rings L R)"
    and wf: "mio_wf s ios dels" and lk: "srv_link s ios" using st by (simp_all add: srv_st_def)
  obtain xs where xs: "R c = Some xs" using subs_okD(1) [OF ok] c(1) by blast
  have io: "io \<in> set ios" using srv_st_client [OF st c(1)] c(2) by (metis option.inject)
  obtain s1 where del: "multiplex_io_handle_del (Some s) (Some io) = Inr (MIO_STS_OK, Some s1)"
    and wf1: "mio_wf s1 (remove1 io ios) (dels @ [io])" and s1: "s1 = s\<lparr>lheap := lheap s1\<rparr>"
    by (rule handle_del_io [OF wf io])
  have f1: "sheap s1 = sheap s" "refs s1 = refs s" "clients s1 = clients s" "handles s1 = handles s"
    "listen_io_handle s1 = listen_io_handle s" "acts s1 = acts s" by (subst s1, simp)+
  let ?s3 = "(close_fd (mh_fd h) s1)\<lparr>sheap := list_remove (sheap s1) (CliList c)\<rparr>"
  let ?L = "L(0 := remove1 (CliList c) (L 0))"
  have cl0: "CliList c \<in> set (L 0)" using subs_okD(3) [OF ok] c(1) by blast
  have rg3: "rings list_ring (sheap ?s3) (srv_rings ?L R)"
    using cl.rings_remove [OF rg, of "SubHead 0" "L 0" "CliList c"] cl0 by (simp add: srv_rings_sub f1)
  have ok3: "subs_ok (dom (clients s)) (dom (clients s) - {c}) (refs ?s3) ?L R"
    using subs_ok_remove_client [OF ok rings_distinct(1) [OF rg]] by (simp add: f1)
  obtain hp where loop: "drop_client_refs c ?s3 = Some (Inr (?s3\<lparr>sheap := hp, refs := refs ?s3 |` (- set xs)\<rparr>))"
    and rg4: "rings list_ring hp (srv_rings (without xs ?L) (R(c \<mapsto> [])))"
    and ok4: "subs_ok (dom (clients s)) (dom (clients s) - {c}) (refs ?s3 |` (- set xs)) (without xs ?L) (R(c \<mapsto> []))"
    using drop_client_refs_loop [OF rg3 ok3 xs] by blast
  let ?s' = "?s3\<lparr>sheap := hp, refs := refs ?s3 |` (- set xs), clients := (clients s)(c := None)\<rparr>"
  have res: "com_fd_close io c s = Inr (- 1, ?s')"
    using del h loop by (simp add: com_fd_close_def multiplex_io_get_fd_def run_loop_def Let_def f1)
  have rings': "rings list_ring hp (srv_rings (without xs ?L) (R(c := None)))"
    using rings_drop [OF rg4, of "CliRefHead c"] by (simp add: srv_rings_ref_drop)
  have subs': "subs_ok (dom (clients s) - {c}) (dom (clients s) - {c}) (refs s |` (- set xs)) (without xs ?L) (R(c := None))"
    using subs_ok_free_client [OF ok4] by (simp add: f1)
  have "srv_link ?s' (remove1 io ios)"
    by (rule srv_link_remove [OF lk mio_wf_distinct [OF wf] c]) (simp_all add: f1)
  moreover have "mio_wf ?s' (remove1 io ios) (dels @ [io])" using wf1 by (simp add: mio_wf_def)
  ultimately have "srv_st ?s' (remove1 io ios) (dels @ [io]) (without xs ?L) (R(c := None))"
    using rings' subs' by (simp add: srv_st_def f1)
  then show thesis using res xs by (intro that [of ?s' xs]) (simp_all add: f1)
qed

section \<open>Accepting\<close>

lemma subs_ok_add_client:
  assumes ok: "subs_ok C D rf L R" and c: "c \<notin> C"
  shows "subs_ok (insert c C) (insert c D) rf (L(0 := L 0 @ [CliList c])) (R(c \<mapsto> []))"
proof -
  have nodes: "n \<in> set (L k) \<or> k = 0 \<and> n = CliList c" if "n \<in> set ((L(0 := L 0 @ [CliList c])) k)" for n k
    using that by (cases "k = 0") auto
  have keep: "RefList r \<in> set ((L(0 := L 0 @ [CliList c])) k) \<longleftrightarrow> RefList r \<in> set (L k)" for r k
    by (cases "k = 0") simp_all
  have R: "R c = None" using c subs_okD(1) [OF ok] by auto
  show ?thesis unfolding subs_ok_def keep
  proof (intro conjI allI impI)
    show "dom (R(c \<mapsto> [])) = insert c C" using subs_okD(1) [OF ok] by auto
    show "set ((L(0 := L 0 @ [CliList c])) i) \<subseteq> RefList ` dom rf \<union> (if i = 0 then CliList ` insert c D else {})" for i
    proof
      fix n assume "n \<in> set ((L(0 := L 0 @ [CliList c])) i)"
      then show "n \<in> RefList ` dom rf \<union> (if i = 0 then CliList ` insert c D else {})"
        using nodes [of n i] subs_okD(2) [OF ok, of n i] by auto
    qed
    show "CliList ` insert c D \<subseteq> set ((L(0 := L 0 @ [CliList c])) 0)" using subs_okD(3) [OF ok] by auto
  next
    fix r d assume rd: "rf r = Some d"
    then obtain xs where "R d = Some xs" "r \<in> set xs" using subs_okD(4) [OF ok] by blast
    then show "\<exists>xs. (R(c \<mapsto> [])) d = Some xs \<and> r \<in> set xs" using R by (intro exI [of _ xs]) auto
  next
    fix d xs r assume "(R(c \<mapsto> [])) d = Some xs" "r \<in> set xs"
    then show "rf r = Some d" using subs_okD(6) [OF ok, of d xs r] by (auto split: if_splits)
  qed (use ok in \<open>unfold subs_ok_def, blast+\<close>)
qed

lemma ring_nodes_fresh_client:
  assumes "subs_ok C D rf L R" "c \<notin> C" "c \<notin> D"
  shows "CliList c \<notin> ring_nodes (srv_rings L R)" "CliRefHead c \<notin> ring_nodes (srv_rings L R)"
proof -
  have R: "R c = None" using assms(2) subs_okD(1) [OF assms(1)] by auto
  have no: "n \<noteq> CliList c" "n \<noteq> CliRefHead c" if "n \<in> set (l # xs)" "srv_rings L R l = Some xs" for n l xs
    using that subs_okD(2) [OF assms(1), of n] assms(3) R
    by (auto simp: srv_rings_def split: srv_node.splits)
  show "CliList c \<notin> ring_nodes (srv_rings L R)" "CliRefHead c \<notin> ring_nodes (srv_rings L R)"
    using no unfolding ring_nodes_def by blast+
qed

lemma rings_add_client:
  assumes rg: "rings list_ring h (srv_rings L R)" and ok: "subs_ok C C rf L R" and c: "c \<notin> C"
  shows "rings list_ring (list_insert_before (list_init (list_init h (CliList c)) (CliRefHead c)) (SubHead 0) (CliList c))
      (srv_rings (L(0 := L 0 @ [CliList c])) (R(c \<mapsto> [])))"
proof -
  note fresh = ring_nodes_fresh_client [OF ok c c]
  have 1: "rings list_ring (list_init h (CliList c)) (srv_rings L R)" by (rule list_init_rings [OF rg fresh(1)])
  have 2: "rings list_ring (list_init (list_init h (CliList c)) (CliRefHead c)) (srv_rings L (R(c \<mapsto> [])))"
    using cl.rings_init(2) [OF 1 fresh(2)] by (simp add: srv_rings_ref [of _ _ _ "[]", simplified])
  have "CliList c \<notin> ring_nodes (srv_rings L (R(c \<mapsto> [])))"
  proof
    assume "CliList c \<in> ring_nodes (srv_rings L (R(c \<mapsto> [])))"
    then obtain l ns where l: "srv_rings L (R(c \<mapsto> [])) l = Some ns" "CliList c \<in> set (l # ns)"
      unfolding ring_nodes_def by blast
    then have "l \<noteq> CliRefHead c" by auto
    then have "srv_rings L R l = Some ns" using l(1) by (auto simp: srv_rings_def split: srv_node.splits if_splits)
    then show False using ring_nodesI [where F = "srv_rings L R", of l ns "CliList c"] l(2) fresh(1) by blast
  qed
  then show ?thesis
    using cl.rings_before [OF 2, of "SubHead 0" "L 0" "CliList c"] by (simp add: srv_rings_sub)
qed

lemma srv_link_add:
  assumes lk: "srv_link s ios" and io: "io \<notin> dom (handles s)" and c: "clients s c = None"
    and h: "r_ind h = Some ComRd" "r_param h = PCli c" "w_conf h = None" "e_ind h = None" "mh_fd h \<ge> 0"
    and cl: "rx_ok cl" "cli_io_handle cl = Some io"
    and s': "clients s' = (clients s)(c \<mapsto> cl)" "handles s' = (handles s)(io \<mapsto> h)" "listen_io_handle s' = listen_io_handle s"
  shows "srv_link s' (ios @ [io])"
  unfolding srv_link_def s'
proof (intro conjI allI impI)
  fix e dl assume e: "((clients s)(c \<mapsto> cl)) e = Some dl"
  show "rx_ok dl" using e cl(1) lk unfolding srv_link_def by (auto split: if_splits)
  show "\<exists>j g. cli_io_handle dl = Some j \<and> j \<in> set (ios @ [io]) \<and> ((handles s)(io \<mapsto> h)) j = Some g \<and>
      r_ind g = Some ComRd \<and> r_param g = PCli e"
  proof (cases "e = c")
    case True
    then show ?thesis using e cl(2) h by (intro exI [of _ io]) auto
  next
    case False
    then have "clients s e = Some dl" using e by simp
    then obtain j g where j: "cli_io_handle dl = Some j" "j \<in> set ios" "handles s j = Some g"
      "r_ind g = Some ComRd" "r_param g = PCli e" using lk unfolding srv_link_def by blast
    moreover have "j \<noteq> io" using j(3) io by auto
    ultimately show ?thesis by (intro exI [of _ j]) auto
  qed
next
  fix j g assume j: "j \<in> set (ios @ [io])" "((handles s)(io \<mapsto> h)) j = Some g"
  show "r_ind g = Some ListenRd \<and> r_param g = PServer \<or>
      (\<exists>e dl. r_ind g = Some ComRd \<and> r_param g = PCli e \<and> ((clients s)(c \<mapsto> cl)) e = Some dl \<and> cli_io_handle dl = Some j)"
  proof (cases "j = io")
    case True
    then show ?thesis using j h cl(2) by auto
  next
    case False
    then have "j \<in> set ios" "handles s j = Some g" using j by auto
    then have "r_ind g = Some ListenRd \<and> r_param g = PServer \<or>
        (\<exists>e dl. r_ind g = Some ComRd \<and> r_param g = PCli e \<and> clients s e = Some dl \<and> cli_io_handle dl = Some j)"
      using lk unfolding srv_link_def by blast
    then show ?thesis using c by (metis fun_upd_other option.distinct(1))
  qed
next
  fix j g assume "((handles s)(io \<mapsto> h)) j = Some g"
  then have "g = h \<or> handles s j = Some g" by (auto split: if_splits)
  then show "w_conf g = None" "e_ind g = None" "mh_fd g \<ge> 0" using h lk unfolding srv_link_def by blast+
next
  obtain j g where j: "listen_io_handle s = Some j" "j \<in> set ios" "handles s j = Some g" "r_ind g = Some ListenRd"
    using lk unfolding srv_link_def by blast
  moreover have "j \<noteq> io" using j(3) io by auto
  ultimately show "\<exists>j g. listen_io_handle s = Some j \<and> j \<in> set (ios @ [io]) \<and> ((handles s)(io \<mapsto> h)) j = Some g \<and> r_ind g = Some ListenRd"
    by (intro exI [of _ j]) auto
qed

lemma rx_ok_empty: "cli_rx_idx cl = 0 \<Longrightarrow> rx_ok cl"
  by (simp add: rx_ok_def cli_pending_def deframe_stop)

text \<open>The failure paths leave everything as it was, but for the nodes of the block just freed.\<close>

lemma srv_st_refuse:
  assumes st: "srv_st s ios dels L R" and c: "c \<notin> dom (clients s)"
  shows "srv_st ((next_tick s)\<lparr>sheap := list_init (list_init (sheap s) (CliList c)) (CliRefHead c)\<rparr>) ios dels L R"
proof -
  have ok: "subs_ok (dom (clients s)) (dom (clients s)) (refs s) L R" and rg: "rings list_ring (sheap s) (srv_rings L R)"
    using st by (simp_all add: srv_st_def)
  note fresh = ring_nodes_fresh_client [OF ok c c]
  have "rings list_ring (list_init (list_init (sheap s) (CliList c)) (CliRefHead c)) (srv_rings L R)"
    by (intro list_init_rings rg fresh)
  then show ?thesis by (intro srv_st_subs [OF _ st]) (simp_all add: ok srv_keep_def)
qed

lemma srv_st_close_fd: "srv_st s ios dels L R \<Longrightarrow> srv_st (close_fd fd s) ios dels L R"
  by (rule srv_st_keep [of s]) (simp_all add: srv_keep_def)

lemma srv_st_tick: "srv_st s ios dels L R \<Longrightarrow> srv_st (next_tick s) ios dels L R"
  by (rule srv_st_keep [of s]) simp_all

lemma listen_accept:
  assumes st: "srv_st s ios dels L R" and c: "clients s c = None" and fd: "sc_accept sc \<ge> 0"
    and add: "multiplex_io_handle_add (Some ((next_tick s)\<lparr>sheap := list_init (list_init (sheap s) (CliList c)) (CliRefHead c)\<rparr>))
      (Some \<lparr>cfg_fd = sc_accept sc, rd_ind = Some ComRd, wr_conf = None, err_ind = None, rd_ind_param = PCli c, wr_conf_param = PCli c\<rparr>)
      (map_option (\<lambda>a. (a, sc_block sc)) (malloc_at (handles s) (sc_io sc))) (sc_getfl sc) (sc_setfl sc) (sc_ctl sc) = (Some j0, os2)"
    and cl: "cl = \<lparr>cli_name = (sc_block sc)(0 := 0), cli_rx_buf = sc_block sc, cli_rx_idx = 0, cli_io_handle = Some j0\<rparr>"
  obtains s2 where "os2 = Some s2" "malloc_at (handles s) (sc_io sc) = Some j0" "dom (handles s) \<subseteq> dom (handles s2)"
    "sheap s2 = list_init (list_init (sheap s) (CliList c)) (CliRefHead c)" "refs s2 = refs s" "clients s2 = clients s" "acts s2 = acts s"
    "srv_st (s2\<lparr>sheap := list_insert_before (sheap s2) (SubHead 0) (CliList c), clients := (clients s)(c \<mapsto> cl)\<rparr>)
       (ios @ [j0]) dels (L(0 := L 0 @ [CliList c])) (R(c \<mapsto> []))"
proof -
  have ok: "subs_ok (dom (clients s)) (dom (clients s)) (refs s) L R" and rg: "rings list_ring (sheap s) (srv_rings L R)"
    and lk: "srv_link s ios" using st by (simp_all add: srv_st_def)
  let ?h1 = "list_init (list_init (sheap s) (CliList c)) (CliRefHead c)"
  let ?s1 = "(next_tick s)\<lparr>sheap := ?h1\<rparr>"
  let ?al = "map_option (\<lambda>a. (a, sc_block sc)) (malloc_at (handles s) (sc_io sc))"
  have "srv_st ?s1 ios dels L R" using c by (intro srv_st_refuse [OF st]) auto
  then have wf1: "mio_wf ?s1 ios dels" by (simp add: srv_st_def)
  obtain j m s2 where j: "?al = Some (j, m)" and os2: "os2 = Some s2"
    using add by (auto simp: multiplex_io_handle_add_def Let_def split: option.splits if_splits)
  have jn: "j \<notin> dom (handles ?s1)" using j by (auto simp: malloc_at_def split: option.splits if_splits)
  note k = handle_add_ok [OF wf1 jn add [unfolded j os2]]
  then obtain h where h: "handles s2 j = Some h" "r_ind h = Some ComRd" "r_param h = PCli c" "w_conf h = None" "e_ind h = None"
    "mh_fd h = sc_accept sc"
    and hs: "\<forall>i. i \<noteq> j \<longrightarrow> handles s2 i = handles s i" and wf2: "mio_wf s2 (ios @ [j]) dels" and j0: "j0 = j"
    and s2: "s2 = ?s1\<lparr>lheap := lheap s2, handles := handles s2, ep_interest := (ep_interest ?s1)(sc_accept sc \<mapsto> j)\<rparr>"
    by auto
  have f2: "sheap s2 = ?h1" "refs s2 = refs s" "clients s2 = clients s" "acts s2 = acts s"
    "listen_io_handle s2 = listen_io_handle s" by (subst s2, simp)+
  let ?s' = "s2\<lparr>sheap := list_insert_before (sheap s2) (SubHead 0) (CliList c), clients := (clients s)(c \<mapsto> cl)\<rparr>"
  have hh: "handles ?s' = (handles s)(j \<mapsto> h)" using hs h(1) by (auto simp: fun_eq_iff)
  have "srv_link ?s' (ios @ [j])"
    by (rule srv_link_add [OF lk _ c h(2-5), where cl = cl]) (use jn hh fd h(6) in \<open>simp_all add: rx_ok_empty f2 cl j0\<close>)
  moreover have "mio_wf ?s' (ios @ [j]) dels" using wf2 by (simp add: mio_wf_def)
  moreover have "c \<notin> dom (clients s)" using c by auto
  ultimately have "srv_st ?s' (ios @ [j]) dels (L(0 := L 0 @ [CliList c])) (R(c \<mapsto> []))"
    using rings_add_client [OF rg ok] subs_ok_add_client [OF ok] by (simp add: srv_st_def f2)
  moreover have "dom (handles s) \<subseteq> dom (handles s2)" using hh by auto
  ultimately show thesis using os2 j f2 by (intro that [of s2]) (auto simp: j0)
qed

lemma listen_cases:
  assumes st: "srv_st s ios dels L R" and lh: "handles s io = Some lhd"
  obtains (accepted) s' c j cl where
      "listen_fd_rd_callback sys io s = Inr (0, s')" "mh_fd lhd \<ge> 0" "sc_accept (sys (tick s)) \<ge> 0"
      "malloc_at (clients s) (sc_alloc (sys (tick s))) = Some c" "malloc_at (handles s) (sc_io (sys (tick s))) = Some j"
      "clients s c = None" "clients s' = (clients s)(c \<mapsto> cl)" "cli_pending cl = []" "cli_io_handle cl = Some j"
      "refs s' = refs s" "acts s' = acts s" "dom (handles s) \<subseteq> dom (handles s')"
      "srv_st s' (ios @ [j]) dels (L(0 := L 0 @ [CliList c])) (R(c \<mapsto> []))"
  | (refused) ret s' where "listen_fd_rd_callback sys io s = Inr (ret, s')" "ret < 0"
      "clients s' = clients s" "refs s' = refs s" "handles s' = handles s" "srv_st s' ios dels L R"
      "acts s' = acts s @ (if mh_fd lhd \<ge> 0 \<and> sc_accept (sys (tick s)) \<ge> 0 then [SrvClose (sc_accept (sys (tick s)))] else [])"
      "\<not> (mh_fd lhd \<ge> 0 \<and> sc_accept (sys (tick s)) \<ge> 0 \<and> malloc_at (clients s) (sc_alloc (sys (tick s))) \<noteq> None \<and>
         malloc_at (handles s) (sc_io (sys (tick s))) \<noteq> None \<and> sc_getfl (sys (tick s)) \<noteq> - 1 \<and>
         sc_setfl (sys (tick s)) \<noteq> - 1 \<and> sc_ctl (sys (tick s)) = 0 \<and> epfd s \<ge> 0)"
proof -
  let ?sc = "sys (tick s)"
  note defs = listen_fd_rd_callback_def multiplex_io_get_fd_def Let_def lh
  consider (nofd) "\<not> (mh_fd lhd \<ge> 0 \<and> sc_accept ?sc \<ge> 0)"
    | (nomem) "mh_fd lhd \<ge> 0 \<and> sc_accept ?sc \<ge> 0" "malloc_at (clients s) (sc_alloc ?sc) = None"
    | (mem) c where "mh_fd lhd \<ge> 0 \<and> sc_accept ?sc \<ge> 0" "malloc_at (clients s) (sc_alloc ?sc) = Some c"
    by fastforce
  then show thesis
  proof cases
    case nofd
    then show thesis
      by (intro refused [of "if mh_fd lhd \<ge> 0 then - 2 else - 1" "next_tick s"]) (auto simp: defs srv_st_tick st)
  next
    case nomem
    then show thesis
      by (intro refused [of "- 3" "close_fd (sc_accept ?sc) (next_tick s)"]) (auto simp: defs srv_st_tick st srv_st_close_fd)
  next
    case (mem c)
    then have c: "clients s c = None" by (auto simp: malloc_at_def split: option.splits if_splits)
    let ?h1 = "list_init (list_init (sheap s) (CliList c)) (CliRefHead c)"
    let ?s1 = "(next_tick s)\<lparr>sheap := ?h1\<rparr>"
    let ?cfg = "\<lparr>cfg_fd = sc_accept ?sc, rd_ind = Some ComRd, wr_conf = None, err_ind = None,
        rd_ind_param = PCli c, wr_conf_param = PCli c\<rparr>"
    let ?al = "map_option (\<lambda>a. (a, sc_block ?sc)) (malloc_at (handles s) (sc_io ?sc))"
    have st1: "srv_st ?s1 ios dels L R" using c by (intro srv_st_refuse [OF st]) auto
    obtain oj os2 where add: "multiplex_io_handle_add (Some ?s1) (Some ?cfg) ?al
        (sc_getfl ?sc) (sc_setfl ?sc) (sc_ctl ?sc) = (oj, os2)" by fastforce
    show thesis
    proof (cases oj)
      case None
      then have os2: "os2 = Some ?s1" using add handle_add_fail by metis
      have "\<not> (malloc_at (handles s) (sc_io ?sc) \<noteq> None \<and> sc_getfl ?sc \<noteq> - 1 \<and> sc_setfl ?sc \<noteq> - 1 \<and>
          sc_ctl ?sc = 0 \<and> epfd s \<ge> 0)"
        using add None by (auto simp: multiplex_io_handle_add_def Let_def next_tick_def)
      then show thesis using mem add None st1 os2
        by (intro refused [of "- 4" "close_fd (sc_accept ?sc) ?s1"]) (simp_all add: defs srv_st_close_fd)
    next
      case (Some j)
      let ?cl = "\<lparr>cli_name = (sc_block ?sc)(0 := 0), cli_rx_buf = sc_block ?sc, cli_rx_idx = 0, cli_io_handle = Some j\<rparr>"
      obtain s2 where k: "os2 = Some s2" "malloc_at (handles s) (sc_io ?sc) = Some j" "dom (handles s) \<subseteq> dom (handles s2)"
        "sheap s2 = ?h1" "refs s2 = refs s" "clients s2 = clients s" "acts s2 = acts s"
        and st': "srv_st (s2\<lparr>sheap := list_insert_before (sheap s2) (SubHead 0) (CliList c), clients := (clients s)(c \<mapsto> ?cl)\<rparr>)
          (ios @ [j]) dels (L(0 := L 0 @ [CliList c])) (R(c \<mapsto> []))"
        by (rule listen_accept [OF st c _ add [unfolded Some] refl]) (use mem in auto)
      let ?s' = "s2\<lparr>sheap := list_insert_before (sheap s2) (SubHead 0) (CliList c), clients := (clients s)(c \<mapsto> ?cl)\<rparr>"
      have res: "listen_fd_rd_callback sys io s = Inr (0, ?s')"
        using mem add Some k(1) by (simp add: defs k(4-6))
      show thesis using mem c k
        by (intro accepted [OF res _ _ mem(2) k(2) c _ _ _ _ _ _ st', where cl = ?cl]) (simp_all add: cli_pending_def)
    qed
  qed
qed

section \<open>The server as a client of the multiplexer\<close>

lemma mio_wf_unique:
  assumes "mio_wf rt ios dels" "mio_wf rt ios' dels'"
  shows "ios' = ios" "dels' = dels"
proof -
  have "map HandleNode ios = map HandleNode ios'" "map HandleNode dels = map HandleNode dels'"
    using assms by (auto simp: mio_wf_def intro: list_ring_unique [of "lheap rt"])
  then show "ios' = ios" "dels' = dels" using inj_HandleNode by (auto simp: inj_map_eq_map)
qed

lemma com_fd_rd_eof:
  assumes st: "srv_st s ios dels L R" and cl: "clients s c = Some cl" "cli_io_handle cl = Some io"
    and h: "handles s io = Some h" and e: "cli_read sys s cl = [] \<or> mh_fd h < 0"
  shows "com_fd_rd_callback sys io c s = com_fd_close io c (next_tick s)"
proof -
  obtain j h2 where j: "rx_ok cl" "cli_io_handle cl = Some j" "j \<in> set ios" by (rule srv_st_client [OF st cl(1)])
  have io: "rx_ok cl" "io \<in> set ios" using j cl(2) by auto
  from multiplex_io_read_client [OF st io h, of sys] e
  show ?thesis using cl(1) by (auto simp: com_fd_rd_callback_def Let_def)
qed

lemma com_fd_rd_safe:
  assumes st: "srv_st s ios dels L R" and cl: "clients s c = Some cl" "cli_io_handle cl = Some io"
    and h: "handles s io = Some h"
  shows "\<exists>ret s'. com_fd_rd_callback sys io c s = Inr (ret, s') \<and> srv_inv s' \<and> dom (handles s') = dom (handles s)"
proof (cases "cli_read sys s cl = [] \<or> mh_fd h < 0")
  case True
  obtain s' xs where "com_fd_close io c (next_tick s) = Inr (- 1, s')"
    "srv_st s' (remove1 io ios) (dels @ [io]) (without xs (L(0 := remove1 (CliList c) (L 0)))) (R(c := None))"
    "handles s' = handles (next_tick s)"
    by (rule com_fd_close_st [OF srv_st_tick [OF st], of c cl io h]) (simp_all add: cl h)
  then show ?thesis using com_fd_rd_eof [OF st cl h True] by (auto simp: srv_inv_def)
next
  case False
  then have fd: "mh_fd h \<ge> 0" and rd: "cli_read sys s cl \<noteq> []" by auto
  obtain s0 s1 s' cl' L' R' where s0: "s0 = next_tick (s\<lparr>clients := (clients s)(c \<mapsto>
        cl\<lparr>cli_rx_buf := mem_put (cli_rx_buf cl) (cli_rx_idx cl) (cli_read sys s cl)\<rparr>)\<rparr>)"
    and r: "com_fd_rd_callback sys io c s = Inr (int (length (cli_read sys s cl)), s')"
    "s' = s1\<lparr>clients := (clients s1)(c \<mapsto> cl')\<rparr>" "srv_keep s0 s1" "srv_st s' ios dels L' R'"
    by (rule com_fd_rd_data [OF st cl h fd rd])
  have "dom (handles s') = dom (handles s)" using srv_keep_dom(1) [OF r(3)] by (simp add: r(2) s0)
  then show ?thesis using r(1,4) by (auto simp: srv_inv_def)
qed

lemma srv_call_read:
  assumes wf: "mio_wf s ios dels" and iv: "srv_inv s" and i: "i \<in> set ios" "handles s i = Some h" "r_ind h = Some cb"
  shows "mio_keeps srv_inv s (srv_call sys cb i (CbParam (r_param h)) s)"
proof -
  obtain ios' dels' L R where st: "srv_st s ios' dels' L R" using iv by (auto simp: srv_inv_def)
  then have "mio_wf s ios' dels'" by (simp add: srv_st_def)
  then have [simp]: "ios' = ios" "dels' = dels" using mio_wf_unique [OF wf] by auto
  have mi: "mio_inv s'" if "srv_inv s'" for s' using that unfolding srv_inv_def srv_st_def mio_inv_def by blast
  have lk: "r_ind h = Some ListenRd \<and> r_param h = PServer \<or>
      (\<exists>c cl. r_ind h = Some ComRd \<and> r_param h = PCli c \<and> clients s c = Some cl \<and> cli_io_handle cl = Some i)"
    using st i(1,2) unfolding srv_st_def srv_link_def by simp
  then consider "cb = ListenRd" "r_param h = PServer"
    | c cl where "cb = ComRd" "r_param h = PCli c" "clients s c = Some cl" "cli_io_handle cl = Some i"
    using i(3) by auto
  then show ?thesis
  proof cases
    case 1
    have "\<exists>ret s'. listen_fd_rd_callback sys i s = Inr (ret, s') \<and> srv_inv s' \<and> dom (handles s) \<subseteq> dom (handles s')"
      by (rule listen_cases [OF st i(2), of sys]) (auto simp: srv_inv_def)
    then show ?thesis using 1 mi by (auto simp: srv_call_def mio_keeps_def)
  next
    case (2 c cl)
    then show ?thesis using com_fd_rd_safe [OF st 2(3,4) i(2), of sys] mi by (auto simp: srv_call_def mio_keeps_def)
  qed
qed

lemma srv_inv_handle_upd:
  assumes "srv_inv s" "handles s i = Some h" "hsig h' = hsig h"
  shows "srv_inv (s\<lparr>handles := (handles s)(i \<mapsto> h')\<rparr>)"
proof -
  have k: "srv_keep s (s\<lparr>handles := (handles s)(i \<mapsto> h')\<rparr>)" using assms(2,3) by (simp add: srv_keep_def)
  show ?thesis using assms(1) srv_st_keep [OF k] unfolding srv_inv_def by fastforce
qed

lemma srv_inv_no_conf:
  assumes "srv_inv s" "handles s i = Some h"
  shows "w_conf h = None" "e_ind h = None" "mh_fd h \<ge> 0"
  using assms unfolding srv_inv_def srv_st_def srv_link_def by blast+

lemma srv_inv_reap:
  assumes iv: "srv_inv s" and wf: "mio_wf s ios dels"
    and wf': "mio_wf (s\<lparr>lheap := lh, handles := handles s |` (- set dels), ep_interest := ep\<rparr>) ios []"
  shows "srv_inv (s\<lparr>lheap := lh, handles := handles s |` (- set dels), ep_interest := ep\<rparr>)"
proof -
  let ?s' = "s\<lparr>lheap := lh, handles := handles s |` (- set dels), ep_interest := ep\<rparr>"
  obtain ios' dels' L R where st: "srv_st s ios' dels' L R" using iv by (auto simp: srv_inv_def)
  then have "mio_wf s ios' dels'" by (simp add: srv_st_def)
  then have e: "ios' = ios" "dels' = dels" using mio_wf_unique [OF wf] by auto
  then have lk: "srv_link s ios" using st by (simp add: srv_st_def)
  have live: "handles ?s' j = handles s j" if "j \<in> set ios" for j
    using that wf by (auto simp: mio_wf_def restrict_map_def)
  have sub: "handles s j = Some h" if "handles ?s' j = Some h" for j h
    using that by (auto simp: restrict_map_def split: if_splits)
  have "srv_link ?s' ios" unfolding srv_link_def
  proof (intro conjI allI impI)
    fix c cl assume "clients ?s' c = Some cl"
    then have c: "clients s c = Some cl" by simp
    then obtain j h where j: "rx_ok cl" "cli_io_handle cl = Some j" "j \<in> set ios" "handles s j = Some h"
      "r_ind h = Some ComRd" "r_param h = PCli c" using lk unfolding srv_link_def by blast
    then show "rx_ok cl" by simp
    show "\<exists>j h. cli_io_handle cl = Some j \<and> j \<in> set ios \<and> handles ?s' j = Some h \<and> r_ind h = Some ComRd \<and> r_param h = PCli c"
      using j live by metis
  next
    fix j h assume "j \<in> set ios" "handles ?s' j = Some h"
    then have "j \<in> set ios" "handles s j = Some h" using sub by auto
    then show "r_ind h = Some ListenRd \<and> r_param h = PServer \<or>
        (\<exists>c cl. r_ind h = Some ComRd \<and> r_param h = PCli c \<and> clients ?s' c = Some cl \<and> cli_io_handle cl = Some j)"
      using lk unfolding srv_link_def by simp
  next
    fix j h assume "handles ?s' j = Some h"
    then have "handles s j = Some h" by (rule sub)
    then show "w_conf h = None" "e_ind h = None" "mh_fd h \<ge> 0" using srv_inv_no_conf [OF iv] by auto
  next
    obtain j h where "listen_io_handle s = Some j" "j \<in> set ios" "handles s j = Some h" "r_ind h = Some ListenRd"
      using lk unfolding srv_link_def by blast
    then show "\<exists>j h. listen_io_handle ?s' = Some j \<and> j \<in> set ios \<and> handles ?s' j = Some h \<and> r_ind h = Some ListenRd"
      using live by (intro exI [of _ j] exI [of _ h]) simp
  qed
  then have "srv_st ?s' ios [] L R" using st wf' by (simp add: srv_st_def)
  then show ?thesis by (auto simp: srv_inv_def)
qed

interpretation srv: mio_client "srv_call sys" srv_inv for sys
proof
  fix s :: local_server and i h cb
  show "mio_keeps srv_inv s (srv_call sys cb i (CbParam (r_param h)) s)"
    if "mio_wf s ios dels" "srv_inv s" "i \<in> set ios" "handles s i = Some h" "r_ind h = Some cb" for ios dels
    using that by (rule srv_call_read)
  show "mio_keeps srv_inv s (srv_call sys cb i (CbParam (w_param h)) s)"
    if "mio_inv s" "srv_inv s" "handles s i = Some h" "w_conf h = Some cb"
    using srv_inv_no_conf(1) [OF that(2,3)] that(4) by simp
  show "mio_keeps srv_inv s (srv_call sys cb i (CbEvent t) s)"
    if "mio_inv s" "srv_inv s" "handles s i = Some h" "e_ind h = Some cb" for t
    using srv_inv_no_conf(2) [OF that(2,3)] that(4) by simp
  show "srv_inv (s\<lparr>handles := (handles s)(i \<mapsto> h\<lparr>w_buf := rb\<rparr>)\<rparr>)" if "srv_inv s" "handles s i = Some h" for rb
    by (rule srv_inv_handle_upd [OF that]) (simp add: hsig_def)
  show "srv_inv (s\<lparr>handles := (handles s)(i \<mapsto> h\<lparr>epevt_events := e\<rparr>)\<rparr>)" if "srv_inv s" "handles s i = Some h" for e
    by (rule srv_inv_handle_upd [OF that]) (simp add: hsig_def)
  show "srv_inv (s\<lparr>lheap := lh, handles := handles s |` (- set dels), ep_interest := ep\<rparr>)"
    if "srv_inv s" "mio_wf s ios dels"
      "mio_wf (s\<lparr>lheap := lh, handles := handles s |` (- set dels), ep_interest := ep\<rparr>) ios []" for ios dels lh ep
    using that by (rule srv_inv_reap)
qed

end
