(* ===== verification/ServerProps.thy ===== *)
theory ServerProps
  imports LocalServer
begin

text \<open>
  What the server promises: the subscription table its linked lists stand for, the delivery of
  packets, the handling of connections, and the safety of whole rounds of the multiplexer's thread.
  The statements are about the operations of \<^verbatim>\<open>LocalServer\<close>; a state is characterised by \<open>srv_inv\<close>,
  which \<^verbatim>\<open>local_server_start\<close> establishes and every callback keeps.
\<close>

section \<open>The subscription table\<close>

lemma node_client_simps [simp]:
  "node_client s (RefList r) = refs s r" "node_client s (SubHead i) = None" "node_client s (CliList c) = None"
  "node_client s (CliRefHead c) = None" "node_client s (RefRef r) = None"
  by (simp_all add: node_client_def)

lemma subscribers_st:
  assumes "srv_st s ios dels L R"
  shows "subscribers s i = Some (List.map_filter (node_client s) (L i))"
  using list_nodes_ring [OF srv_st_ring [OF assms, of i]] by (simp add: subscribers_def)

lemma set_map_filter: "set (List.map_filter f xs) = {y. \<exists>x \<in> set xs. f x = Some y}"
  by (induction xs) (auto simp: map_filter_simps split: option.splits)

lemma map_filter_cong: "(\<And>x. x \<in> set xs \<Longrightarrow> f x = g x) \<Longrightarrow> List.map_filter f xs = List.map_filter g xs"
  by (induction xs) (auto simp: map_filter_simps split: option.split)

lemma distinct_map_filter:
  "distinct xs \<Longrightarrow> (\<And>x y z. x \<in> set xs \<Longrightarrow> y \<in> set xs \<Longrightarrow> f x = Some z \<Longrightarrow> f y = Some z \<Longrightarrow> x = y) \<Longrightarrow>
   distinct (List.map_filter f xs)"
proof (induction xs)
  case (Cons x xs)
  have "distinct (List.map_filter f xs)"
    using Cons.prems(1) by (intro Cons.IH) (auto intro: Cons.prems(2))
  moreover have "z \<notin> set (List.map_filter f xs)" if "f x = Some z" for z
    using Cons.prems that by (fastforce simp: set_map_filter)
  ultimately show ?case by (auto simp: map_filter_simps split: option.split)
qed (simp add: map_filter_simps)

lemma in_subscribers:
  "c \<in> set (List.map_filter (node_client s) ns) \<longleftrightarrow> (\<exists>r. RefList r \<in> set ns \<and> refs s r = Some c)"
proof -
  have "node_client s n = Some c \<longleftrightarrow> (\<exists>r. n = RefList r \<and> refs s r = Some c)" for n
    by (cases n) (auto simp: node_client_def)
  then show ?thesis by (auto simp: set_map_filter)
qed

lemma subscribers_distinct:
  assumes st: "srv_st s ios dels L R"
  shows "distinct (List.map_filter (node_client s) (L i))"
proof (rule distinct_map_filter)
  have ok: "subs_ok (dom (clients s)) (dom (clients s)) (refs s) L R" and rg: "rings list_ring (sheap s) (srv_rings L R)"
    using st by (simp_all add: srv_st_def)
  show "distinct (L i)" by (rule rings_distinct(1) [OF rg])
  fix x y z assume "x \<in> set (L i)" "y \<in> set (L i)" "node_client s x = Some z" "node_client s y = Some z"
  then show "x = y" using subs_okD(7) [OF ok] by (auto simp: node_client_def split: srv_node.splits)
qed

text \<open>A client is in the table of an id when one of its subscriptions is in the list.\<close>

lemma map_filter_drop:
  assumes "distinct ns" "RefList r \<in> set ns" "refs s r = Some c" "distinct (List.map_filter (node_client s) ns)"
  shows "List.map_filter (node_client s) (remove1 (RefList r) ns) = remove1 c (List.map_filter (node_client s) ns)"
  using assms
proof (induction ns)
  case (Cons n ns)
  show ?case
  proof (cases "n = RefList r")
    case True
    then show ?thesis using Cons.prems(3) by (simp add: map_filter_simps)
  next
    case False
    then have r: "RefList r \<in> set ns" using Cons.prems(2) by simp
    have "c \<in> set (List.map_filter (node_client s) ns)" using r Cons.prems(3) in_subscribers by blast
    then show ?thesis using Cons r False by (auto simp: map_filter_simps split: option.splits)
  qed
qed simp

lemma map_filter_without:
  assumes "\<And>r. RefList r \<in> set ns \<Longrightarrow> r \<in> set xs \<longleftrightarrow> refs s r = Some c"
  shows "List.map_filter (node_client s) (filter (\<lambda>n. n \<notin> RefList ` set xs) ns) =
    removeAll c (List.map_filter (node_client s) ns)"
  using assms
proof (induction ns)
  case (Cons n ns)
  then have IH: "List.map_filter (node_client s) (filter (\<lambda>n. n \<notin> RefList ` set xs) ns) =
    removeAll c (List.map_filter (node_client s) ns)" by simp
  show ?case
  proof (cases n)
    case (RefList r)
    then show ?thesis using IH Cons.prems [of r] by (auto simp: map_filter_simps split: option.split)
  qed (use IH in \<open>auto simp: map_filter_simps\<close>)
qed (simp add: map_filter_simps)

lemma subs_other:
  assumes st: "srv_st s ios dels L R" and "\<And>r. RefList r \<in> set (L k) \<Longrightarrow> refs s' r = refs s r"
  shows "List.map_filter (node_client s') (L k) = List.map_filter (node_client s) (L k)"
proof (rule map_filter_cong)
  fix n assume "n \<in> set (L k)"
  then show "node_client s' n = node_client s n" using assms(2) by (cases n rule: srv_node.exhaust) auto
qed

section \<open>A concrete server\<close>

text \<open>A server that has been started and has accepted one client: block 1, handle 2, descriptor 7.\<close>

definition demo_start_env :: srv_start_env where
  "demo_start_env = \<lparr>st_alloc = True, st_garbage = 0, st_epfd = 3, st_mio_alloc = True, st_sock = 4, st_getfl = 0,
     st_setfl = 0, st_bind = 0, st_listen = 0, st_io = Some (1, \<lambda>_. 0), st_add_getfl = 0, st_add_setfl = 0, st_ctl = 0\<rparr>"

definition demo_sys :: srv_sys where
  "demo_sys n = \<lparr>sc_read = Some [], sc_err = 0, sc_alloc = Some (n + 1), sc_block = (\<lambda>_. 0), sc_io = Some (n + 2),
     sc_ctl = 0, sc_accept = 7, sc_getfl = 0, sc_setfl = 0\<rparr>"

section \<open>Starting\<close>

lemma start_state:
  assumes "local_server_start addr e = Inr (Some s, a)"
  obtains io where "srv_st s [io] [] (\<lambda>_. []) Map.empty" "clients s = Map.empty" "refs s = Map.empty" "tick s = 0"
    "listen_io_handle s = Some io" "dom (handles s) = {io}" "epfd s = st_epfd e" "acts s = [SrvUnlink addr]"
    "\<exists>h. handles s io = Some h \<and> mh_fd h = st_sock e \<and> r_ind h = Some ListenRd"
    "\<exists>m. st_io e = Some (io, m)" "mio_bufs s"
proof -
  obtain rt where rt: "multiplex_io_open (st_epfd e) (st_mio_alloc e) =
      Some (rt :: (srv_cb, srv_param) multiplex_runtime)" and al: "st_alloc e"
    using assms by (auto simp: local_server_start_def split: if_splits option.splits)
  let ?cfg = "\<lparr>cfg_fd = st_sock e, rd_ind = Some ListenRd, wr_conf = None, err_ind = None,
      rd_ind_param = PServer, wr_conf_param = PNull\<rparr>"
  let ?s0 = "\<lparr>epfd = epfd rt, thread_running = thread_running rt, lheap = lheap rt, handles = handles rt,
      ep_interest = ep_interest rt, file_name = c_strncpy addr 255 @ [st_garbage e], listen_io_handle = None,
      sheap = (\<lambda>n. \<lparr>nhead = n, nnext = n, nprev = n\<rparr>), clients = Map.empty, refs = Map.empty, tick = 0,
      acts = [SrvUnlink addr]\<rparr>"
  obtain s1 io where add: "multiplex_io_handle_add (Some ?s0) (Some ?cfg) (st_io e) (st_add_getfl e) (st_add_setfl e) (st_ctl e) =
      (Some io, Some s1)" and s: "s = s1\<lparr>listen_io_handle := Some io\<rparr>" and sock: "st_sock e \<ge> 0"
    using assms al rt
    by (auto simp: local_server_start_def start_fail_def bind_fault_Inr_iff Let_def split: if_splits option.splits prod.splits)
  have wf0: "mio_wf ?s0 [] []" and hs0: "handles ?s0 = Map.empty" and b0: "mio_bufs ?s0"
    using mio_wf_open [OF rt] rt
    by (auto simp: mio_wf_def mio_bufs_def multiplex_io_open_def split: if_splits)
  obtain i m where io: "st_io e = Some (i, m)"
    using add by (auto simp: multiplex_io_handle_add_def split: option.splits)
  note k = handle_add_ok [OF wf0 _ add [unfolded io]]
  then obtain h where h: "io = i" "mio_wf s1 [i] []" "handles s1 i = Some h" "mh_fd h = st_sock e" "r_ind h = Some ListenRd"
    "w_conf h = None" "e_ind h = None" "r_param h = PServer" "mio_bufs s1" and hs: "\<forall>k. k \<noteq> i \<longrightarrow> handles s1 k = None"
    and s1: "s1 = ?s0\<lparr>lheap := lheap s1, handles := handles s1, ep_interest := (ep_interest ?s0)(cfg_fd ?cfg \<mapsto> i)\<rparr>"
    using hs0 b0 by auto
  have f: "clients s1 = Map.empty" "refs s1 = Map.empty" "tick s1 = 0" "sheap s1 = (\<lambda>n. \<lparr>nhead = n, nnext = n, nprev = n\<rparr>)"
    "epfd s1 = epfd rt" "acts s1 = [SrvUnlink addr]" by (subst s1, simp)+
  have dm: "dom (handles s) = {i}" using h(2) by (simp add: mio_wf_def s)
  have ring: "list_ring (sheap s) n []" for n by (simp add: s f list_ring_def)
  have "rings list_ring (sheap s) (srv_rings (\<lambda>_. []) Map.empty)"
    using ring by (auto simp: rings_def srv_rings_def split: srv_node.splits)
  moreover have "subs_ok {} {} (refs s) (\<lambda>_. []) Map.empty" by (simp add: subs_ok_def s f)
  moreover have "srv_link s [i]" using h hs sock unfolding srv_link_def
    by (auto simp: s f) (metis (no_types, lifting) option.distinct(1) option.inject)+
  moreover have "mio_wf s [i] []" using h(2) by (simp add: mio_wf_def s)
  ultimately have "srv_st s [i] [] (\<lambda>_. []) Map.empty" by (simp add: srv_st_def s f)
  moreover have "epfd s = st_epfd e" using rt by (auto simp: s f multiplex_io_open_def split: if_splits)
  moreover have "mio_bufs s" using h(9) by (simp add: s mio_bufs_def)
  ultimately show thesis using h dm io by (intro that [of i]) (auto simp: s f)
qed

definition start_ok :: "srv_start_env \<Rightarrow> bool" where
  "start_ok e \<longleftrightarrow> st_epfd e \<ge> 0 \<and> st_mio_alloc e \<and> st_sock e \<ge> 0 \<and> st_getfl e \<noteq> - 1 \<and> st_setfl e \<noteq> - 1 \<and>
     st_bind e \<ge> 0 \<and> st_listen e \<ge> 0 \<and> st_io e \<noteq> None \<and> st_add_getfl e \<noteq> - 1 \<and> st_add_setfl e \<noteq> - 1 \<and> st_ctl e = 0"

lemma start_fail_res:
  assumes "mio_wf s [] []"
  shows "start_fail fd s addr =
    Inr (None, acts s @ (case fd of None \<Rightarrow> [] | Some f \<Rightarrow> [SrvClose f]) @ [SrvFree, SrvUnlink addr])"
proof -
  obtain s' where "multiplex_io_close (Some s) = Some (Inr (MIO_STS_OK, Some s'))"
    by (rule multiplex_io_close_wf [OF assms])
  then show ?thesis by (simp add: start_fail_def run_loop_def)
qed

lemma acts_list_add [simp]: "acts (multiplex_io_handle_list_add s io) = acts s"
  by (simp add: multiplex_io_handle_list_add_def)

lemma start_cases:
  assumes al: "st_alloc e"
  obtains (ok) s where "start_ok e" "local_server_start addr e = Inr (Some s, [SrvUnlink addr])"
  | (noio) "\<not> start_ok e" "\<not> (st_epfd e \<ge> 0 \<and> st_mio_alloc e)"
      "local_server_start addr e = Inr (None, [SrvUnlink addr, SrvFree, SrvUnlink addr])"
  | (nosock) "\<not> start_ok e" "st_sock e < 0"
      "local_server_start addr e = Inr (None, [SrvUnlink addr, SrvFree, SrvUnlink addr])"
  | (late) "\<not> start_ok e" "st_sock e \<ge> 0"
      "local_server_start addr e = Inr (None, [SrvUnlink addr, SrvClose (st_sock e), SrvFree, SrvUnlink addr])"
proof (cases "multiplex_io_open (st_epfd e) (st_mio_alloc e) :: (srv_cb, srv_param) multiplex_runtime option")
  case None
  then show thesis using al
    by (intro noio) (auto simp: local_server_start_def start_ok_def multiplex_io_open_def split: if_splits)
next
  case (Some rt)
  let ?s0 = "\<lparr>epfd = epfd rt, thread_running = thread_running rt, lheap = lheap rt, handles = handles rt,
      ep_interest = ep_interest rt, file_name = c_strncpy addr 255 @ [st_garbage e], listen_io_handle = None,
      sheap = (\<lambda>n. \<lparr>nhead = n, nnext = n, nprev = n\<rparr>), clients = Map.empty, refs = Map.empty, tick = 0,
      acts = [SrvUnlink addr]\<rparr>"
  have ep: "epfd rt = st_epfd e" "st_epfd e \<ge> 0" "st_mio_alloc e"
    using Some by (auto simp: multiplex_io_open_def split: if_splits)
  have "mio_wf ?s0 [] []" using mio_wf_open [OF Some] by (simp add: mio_wf_def)
  then have fail: "start_fail fd ?s0 addr =
      Inr (None, [SrvUnlink addr] @ (case fd of None \<Rightarrow> [] | Some f \<Rightarrow> [SrvClose f]) @ [SrvFree, SrvUnlink addr])" for fd
    by (simp add: start_fail_res)
  show thesis
  proof (cases "start_ok e")
    case True
    then obtain i m where "st_io e = Some (i, m)" by (auto simp: start_ok_def)
    then show thesis using True al Some ep
      by (intro ok) (auto simp: local_server_start_def multiplex_io_handle_add_def start_ok_def Let_def)
  next
    case False
    show thesis
    proof (cases "st_sock e \<ge> 0")
      case sock: True
      have "local_server_start addr e = Inr (None, [SrvUnlink addr, SrvClose (st_sock e), SrvFree, SrvUnlink addr])"
      proof (cases "st_io e")
        case None
        then show ?thesis using al Some ep sock False fail [of "Some (st_sock e)"]
          by (simp add: local_server_start_def multiplex_io_handle_add_def start_ok_def Let_def)
      next
        case (Some im)
        obtain i m where im: "im = (i, m)" by fastforce
        show ?thesis
          using al \<open>multiplex_io_open (st_epfd e) (st_mio_alloc e) = Some rt\<close> ep sock False Some im fail [of "Some (st_sock e)"]
          by (auto simp: local_server_start_def multiplex_io_handle_add_def start_ok_def Let_def)
      qed
      with False sock show thesis by (rule late)
    next
      case nosck: False
      then show thesis using al Some False fail [of None] by (intro nosock) (simp_all add: local_server_start_def)
    qed
  qed
qed

text \<open>
  \<^verbatim>\<open>local_server_start\<close> succeeds exactly when all its calls do, and then returns a server in a
  consistent state without clients or subscriptions; otherwise it returns null after removing the
  socket file and freeing the server, and it closes the listening socket if it was opened. The one
  path without clean return is the first: when the server's own block cannot be allocated, the code
  reads a member through the null pointer to log the error.
\<close>

theorem local_server_start_spec:
  "if st_alloc e
   then \<exists>r a. local_server_start addr e = Inr (r, a) \<and> (r \<noteq> None \<longleftrightarrow> start_ok e) \<and>
     (\<forall>s. r = Some s \<longrightarrow> srv_inv s \<and> clients s = Map.empty \<and> refs s = Map.empty \<and> (\<forall>i. subscribers s i = Some [])) \<and>
     (r = None \<longrightarrow> last a = SrvUnlink addr \<and> SrvFree \<in> set a \<and>
        (st_epfd e \<ge> 0 \<and> st_mio_alloc e \<and> st_sock e \<ge> 0 \<longrightarrow> SrvClose (st_sock e) \<in> set a))
   else local_server_start addr e = Inl NullDeref"
proof (cases "st_alloc e")
  case True
  show ?thesis
  proof (rule start_cases [OF True, of addr])
    fix s assume ok: "start_ok e" and r: "local_server_start addr e = Inr (Some s, [SrvUnlink addr])"
    obtain io where st: "srv_st s [io] [] (\<lambda>_. []) Map.empty" and f: "clients s = Map.empty" "refs s = Map.empty"
      by (rule start_state [OF r])
    have "srv_inv s" using st by (auto simp: srv_inv_def)
    moreover have "subscribers s i = Some []" for i using subscribers_st [OF st, of i] by (simp add: map_filter_simps)
    ultimately show ?thesis using True ok r f by auto
  qed (use True in auto)
qed (simp add: local_server_start_def)

definition demo_srv0 :: local_server where
  "demo_srv0 = the (fst (projr (local_server_start [47] demo_start_env)))"

lemma demo_start: "local_server_start [47] demo_start_env = Inr (Some demo_srv0, [SrvUnlink [47]])"
proof (rule start_cases [of demo_start_env "[47]"])
  show "st_alloc demo_start_env" by (simp add: demo_start_env_def)
  fix s assume "local_server_start [47] demo_start_env = Inr (Some s, [SrvUnlink [47]])"
  then show ?thesis by (simp add: demo_srv0_def)
qed (simp_all add: demo_start_env_def start_ok_def)

theorem local_server_start_spec_witness: "srv_inv demo_srv0 \<and> subscribers demo_srv0 5 = Some []"
  using local_server_start_spec [of demo_start_env "[47]"] demo_start by (simp add: demo_start_env_def)

section \<open>Connections\<close>

text \<open>
  When a connection is accepted, the server gets one more client, with an empty receive buffer
  and no subscription, and every existing client and subscription is untouched; when any step of
  accepting fails, the server's state is unchanged and the accepted descriptor is closed.
\<close>

theorem accept_spec:
  assumes "srv_inv s" "handles s io = Some lhd" "mh_fd lhd \<ge> 0" "sc_accept (sys (tick s)) \<ge> 0"
  shows "\<exists>ret s'. listen_fd_rd_callback sys io s = Inr (ret, s') \<and> srv_inv s' \<and>
    (\<forall>i. subscribers s' i = subscribers s i) \<and>
    (ret = 0 \<longrightarrow> (\<exists>c cl. clients s c = None \<and> clients s' = (clients s)(c \<mapsto> cl) \<and> cli_pending cl = [] \<and>
       sc_alloc (sys (tick s)) = Some c) \<and> acts s' = acts s) \<and>
    (ret \<noteq> 0 \<longrightarrow> clients s' = clients s \<and> handles s' = handles s \<and>
       acts s' = acts s @ [SrvClose (sc_accept (sys (tick s)))])"
proof -
  obtain ios dels L R where st: "srv_st s ios dels L R" using assms(1) by (auto simp: srv_inv_def)
  show ?thesis
  proof (rule listen_cases [OF st assms(2), of sys])
    fix s' c j cl
    assume r: "listen_fd_rd_callback sys io s = Inr (0, s')" "malloc_at (clients s) (sc_alloc (sys (tick s))) = Some c"
      "clients s c = None" "clients s' = (clients s)(c \<mapsto> cl)"
      "cli_pending cl = []" "refs s' = refs s" "acts s' = acts s"
      and st': "srv_st s' (ios @ [j]) dels (L(0 := L 0 @ [CliList c])) (R(c \<mapsto> []))"
    have "subscribers s' i = subscribers s i" for i
    proof -
      have "List.map_filter (node_client s') (L i) = List.map_filter (node_client s) (L i)"
        by (rule subs_other [OF st]) (simp add: r)
      then show ?thesis unfolding subscribers_st [OF st] subscribers_st [OF st']
        by (cases "i = 0") (simp_all add: map_filter_def)
    qed
    moreover have "sc_alloc (sys (tick s)) = Some c" using r(2) by (auto simp: malloc_at_def split: option.splits if_splits)
    ultimately show ?thesis using r st' by (auto simp: srv_inv_def)
  next
    fix ret s'
    assume r: "listen_fd_rd_callback sys io s = Inr (ret, s')" "ret < 0" "clients s' = clients s" "refs s' = refs s"
      "handles s' = handles s" and st': "srv_st s' ios dels L R"
      and a: "acts s' = acts s @ (if mh_fd lhd \<ge> 0 \<and> sc_accept (sys (tick s)) \<ge> 0
        then [SrvClose (sc_accept (sys (tick s)))] else [])"
    have "subscribers s' i = subscribers s i" for i
      unfolding subscribers_st [OF st] subscribers_st [OF st'] using subs_other [OF st, of i s'] r(4) by simp
    then show ?thesis using r st' a assms(3,4) by (auto simp: srv_inv_def)
  qed
qed

definition demo_srv1 :: local_server where
  "demo_srv1 = snd (projr (listen_fd_rd_callback demo_sys 1 demo_srv0))"

lemma demo_srv0_facts:
  obtains h where "srv_inv demo_srv0" "handles demo_srv0 1 = Some h" "mh_fd h = 4" "dom (handles demo_srv0) = {1}"
    "tick demo_srv0 = 0" "epfd demo_srv0 = 3" "clients demo_srv0 = Map.empty" "mio_bufs demo_srv0"
proof -
  obtain io where k: "srv_st demo_srv0 [io] [] (\<lambda>_. []) Map.empty" "tick demo_srv0 = 0" "dom (handles demo_srv0) = {io}"
    "epfd demo_srv0 = st_epfd demo_start_env" "\<exists>m. st_io demo_start_env = Some (io, m)" "clients demo_srv0 = Map.empty"
    "\<exists>h. handles demo_srv0 io = Some h \<and> mh_fd h = st_sock demo_start_env" "mio_bufs demo_srv0"
    by (rule start_state [OF demo_start]) blast
  have io: "io = 1" using k(5) by (simp add: demo_start_env_def)
  obtain h where "handles demo_srv0 1 = Some h" "mh_fd h = 4" using k(7) io by (auto simp: demo_start_env_def)
  moreover have "srv_inv demo_srv0" using k(1) by (auto simp: srv_inv_def)
  ultimately show thesis using k io by (intro that [of h]) (simp_all add: demo_start_env_def)
qed

lemma demo_accept:
  obtains cl L R where "listen_fd_rd_callback demo_sys 1 demo_srv0 = Inr (0, demo_srv1)"
    "clients demo_srv1 = [1 \<mapsto> cl]" "cli_pending cl = []" "cli_io_handle cl = Some 2"
    "srv_st demo_srv1 [1, 2] [] L R" "L = (\<lambda>_. [])(0 := [CliList 1])" "R = [1 \<mapsto> []]" "refs demo_srv1 = Map.empty"
proof -
  obtain io where st: "srv_st demo_srv0 [io] [] (\<lambda>_. []) Map.empty" and k: "tick demo_srv0 = 0"
    "dom (handles demo_srv0) = {io}" "epfd demo_srv0 = st_epfd demo_start_env" "\<exists>m. st_io demo_start_env = Some (io, m)"
    "clients demo_srv0 = Map.empty" "\<exists>h. handles demo_srv0 io = Some h \<and> mh_fd h = st_sock demo_start_env"
    "refs demo_srv0 = Map.empty"
    by (rule start_state [OF demo_start]) blast
  have io: "io = 1" using k(4) by (simp add: demo_start_env_def)
  obtain h where h: "handles demo_srv0 1 = Some h" "mh_fd h = 4" using k(6) io by (auto simp: demo_start_env_def)
  have "2 \<notin> dom (handles demo_srv0)" by (simp add: k(2) io)
  then have n2: "handles demo_srv0 2 = None" by auto
  show thesis
  proof (rule listen_cases [OF st h(1), of demo_sys])
    fix s' c j cl
    assume a: "listen_fd_rd_callback demo_sys 1 demo_srv0 = Inr (0, s')"
      "malloc_at (clients demo_srv0) (sc_alloc (demo_sys (tick demo_srv0))) = Some c"
      "malloc_at (handles demo_srv0) (sc_io (demo_sys (tick demo_srv0))) = Some j"
      "clients s' = (clients demo_srv0)(c \<mapsto> cl)" "cli_pending cl = []" "cli_io_handle cl = Some j"
      "refs s' = refs demo_srv0"
      "srv_st s' ([io] @ [j]) [] ((\<lambda>_. [])(0 := [] @ [CliList c])) (Map.empty(c \<mapsto> []))"
    have "s' = demo_srv1" using a(1) by (simp add: demo_srv1_def)
    moreover have "c = 1" using a(2) k(1,5) by (simp add: demo_sys_def malloc_at_def)
    moreover have "j = 2" using a(3) k(1) n2 by (auto simp: demo_sys_def malloc_at_def numeral_2_eq_2)
    ultimately show thesis using a k io by (intro that) (simp_all add: eval_nat_numeral)
  next
    assume "\<not> (mh_fd h \<ge> 0 \<and> sc_accept (demo_sys (tick demo_srv0)) \<ge> 0 \<and>
        malloc_at (clients demo_srv0) (sc_alloc (demo_sys (tick demo_srv0))) \<noteq> None \<and>
        malloc_at (handles demo_srv0) (sc_io (demo_sys (tick demo_srv0))) \<noteq> None \<and>
        sc_getfl (demo_sys (tick demo_srv0)) \<noteq> - 1 \<and> sc_setfl (demo_sys (tick demo_srv0)) \<noteq> - 1 \<and>
        sc_ctl (demo_sys (tick demo_srv0)) = 0 \<and> epfd demo_srv0 \<ge> 0)"
    then show thesis using h k(1,3,5) n2 by (simp add: demo_sys_def malloc_at_def demo_start_env_def numeral_2_eq_2)
  qed
qed

theorem accept_spec_witness: "\<exists>s'. listen_fd_rd_callback demo_sys 1 demo_srv0 = Inr (0, s') \<and> srv_inv s'"
proof -
  obtain h where h: "srv_inv demo_srv0" "handles demo_srv0 1 = Some h" "mh_fd h = 4" by (rule demo_srv0_facts)
  have r: "listen_fd_rd_callback demo_sys 1 demo_srv0 = Inr (0, demo_srv1)" by (rule demo_accept)
  show ?thesis using accept_spec [OF h(1,2), of demo_sys] h(3) r by (auto simp: demo_sys_def)
qed

text \<open>
  C31: when reading from a client fails or hits the end of the connection, the client's descriptor is
  closed, its handle is put on the deletion list (so that no callback runs for it again), all its
  subscriptions are removed from the table and freed, and the client is freed; the subscriptions of
  the other clients keep their order.
\<close>

theorem disconnect_spec:
  assumes "srv_inv s" "clients s c = Some cl" "cli_io_handle cl = Some io" "handles s io = Some h"
    and "cli_read sys s cl = []"
  shows "\<exists>s'. com_fd_rd_callback sys io c s = Inr (- 1, s') \<and> srv_inv s' \<and> clients s' = (clients s)(c := None) \<and>
    (\<forall>i. subscribers s' i = map_option (removeAll c) (subscribers s i)) \<and> (\<forall>r. refs s' r \<noteq> Some c) \<and>
    acts s' = acts s @ [SrvClose (mh_fd h)] \<and> handles s' = handles s \<and> mio_live (Some s') (Some io) = Inr None"
proof -
  obtain ios dels L R where st: "srv_st s ios dels L R" using assms(1) by (auto simp: srv_inv_def)
  have ok: "subs_ok (dom (clients s)) (dom (clients s)) (refs s) L R" using st by (simp add: srv_st_def)
  obtain s' xs where r: "com_fd_close io c (next_tick s) = Inr (- 1, s')" "R c = Some xs"
    and st': "srv_st s' (remove1 io ios) (dels @ [io]) (without xs (L(0 := remove1 (CliList c) (L 0)))) (R(c := None))"
    and f: "clients s' = (clients (next_tick s))(c := None)" "refs s' = refs (next_tick s) |` (- set xs)"
      "handles s' = handles (next_tick s)" "acts s' = acts (next_tick s) @ [SrvClose (mh_fd h)]"
    by (rule com_fd_close_st [OF srv_st_tick [OF st], of c cl io h]) (simp_all add: assms)
  have xs: "r \<in> set xs \<longleftrightarrow> refs s r = Some c" for r
    using subs_okD(6) [OF ok r(2), of r] subs_okD(4) [OF ok, of r c] r(2) by auto
  have "subscribers s' i = map_option (removeAll c) (subscribers s i)" for i
  proof -
    let ?L = "L(0 := remove1 (CliList c) (L 0))"
    have a: "List.map_filter (node_client s') (without xs ?L i) = List.map_filter (node_client s) (without xs ?L i)"
    proof (rule map_filter_cong)
      fix n assume "n \<in> set (without xs ?L i)"
      then show "node_client s' n = node_client s n"
        by (cases n rule: srv_node.exhaust) (auto simp: f without_def restrict_map_def)
    qed
    have "List.map_filter (node_client s) (remove1 (CliList c) ns) = List.map_filter (node_client s) ns" for ns
      by (induction ns) (auto simp: map_filter_simps split: option.split)
    then have b: "List.map_filter (node_client s) (?L i) = List.map_filter (node_client s) (L i)" by simp
    show ?thesis unfolding subscribers_st [OF st] subscribers_st [OF st'] a
      unfolding without_def using map_filter_without [of "?L i" xs s c] xs b by simp
  qed
  moreover have "refs s' q \<noteq> Some c" for q using xs [of q] by (auto simp: f restrict_map_def)
  moreover have "mio_live (Some s') (Some io) = Inr None"
    using st' by (intro mio_live_del [of s' "remove1 io ios" "dels @ [io]"]) (simp_all add: srv_st_def)
  moreover have "com_fd_rd_callback sys io c s = Inr (- 1, s')"
    using com_fd_rd_eof [OF st assms(2-4)] assms(5) r(1) by simp
  ultimately show ?thesis using st' f by (auto simp: srv_inv_def)
qed

theorem disconnect_spec_witness:
  "\<exists>s'. com_fd_rd_callback demo_sys 2 1 demo_srv1 = Inr (- 1, s') \<and> clients s' = Map.empty"
proof -
  obtain cl L R where k: "clients demo_srv1 = [1 \<mapsto> cl]" "cli_io_handle cl = Some 2" "srv_st demo_srv1 [1, 2] [] L R"
    by (rule demo_accept)
  then have iv: "srv_inv demo_srv1" by (auto simp: srv_inv_def)
  obtain h where h: "handles demo_srv1 2 = Some h" using k(3) by (auto simp: srv_st_def mio_wf_def)
  show ?thesis using disconnect_spec [OF iv _ k(2) h, of 1 demo_sys] k(1)
    by (auto simp: cli_read_def read_bytes_def demo_sys_def)
qed

section \<open>Subscribing and unsubscribing\<close>

text \<open>
  \<^verbatim>\<open>subscribe_pkt\<close> puts the client at the front of the table entry of the id, unless it is there
  already (then nothing changes) or memory is exhausted (then it returns null); no other entry
  changes, and an entry never holds a client twice.
\<close>

theorem subscribe_pkt_spec:
  assumes "srv_inv s" "c \<in> dom (clients s)"
  shows "\<exists>ret s' cs. subscribe_pkt sys c (SubHead i) s = Inr (ret, s') \<and> srv_inv s' \<and>
    subscribers s i = Some cs \<and> distinct cs \<and>
    (let full = malloc_at (refs s) (sc_alloc (sys (tick s))) = None
     in subscribers s' i = Some (if c \<in> set cs \<or> full then cs else c # cs) \<and>
        (ret = None \<longleftrightarrow> c \<notin> set cs \<and> full)) \<and>
    (\<forall>k. k \<noteq> i \<longrightarrow> subscribers s' k = subscribers s k) \<and> clients s' = clients s \<and> handles s' = handles s"
proof -
  obtain ios dels L R where st: "srv_st s ios dels L R" using assms(1) by (auto simp: srv_inv_def)
  have ok: "subs_ok (dom (clients s)) (dom (clients s)) (refs s) L R" using st by (simp add: srv_st_def)
  note subs = subscribers_st [OF st] and dist = subscribers_distinct [OF st]
  let ?cs = "List.map_filter (node_client s) (L i)"
  show ?thesis
  proof (rule subscribe_cases [OF st assms(2), of i sys])
    fix r assume "RefList r \<in> set (L i)" "refs s r = Some c" and e: "subscribe_pkt sys c (SubHead i) s = Inr (Some r, s)"
    then have "c \<in> set ?cs" using in_subscribers by blast
    then show ?thesis using assms(1) subs dist e by (auto simp: Let_def)
  next
    assume n: "\<forall>r. RefList r \<in> set (L i) \<longrightarrow> refs s r \<noteq> Some c" and m: "malloc_at (refs s) (sc_alloc (sys (tick s))) = None"
      and e: "subscribe_pkt sys c (SubHead i) s = Inr (None, next_tick s)"
    have "c \<notin> set ?cs" using n in_subscribers by blast
    moreover have st': "srv_st (next_tick s) ios dels L R" by (rule srv_st_tick [OF st])
    moreover have "subscribers (next_tick s) k = subscribers s k" for k
      unfolding subs subscribers_st [OF st'] using subs_other [OF st, of k "next_tick s"] by simp
    ultimately show ?thesis using subs dist m e by (auto simp: srv_inv_def Let_def)
  next
    fix r xs h
    let ?s' = "next_tick (s\<lparr>sheap := h, refs := (refs s)(r \<mapsto> c)\<rparr>)"
    assume n: "\<forall>r. RefList r \<in> set (L i) \<longrightarrow> refs s r \<noteq> Some c" and r: "refs s r = None"
      and m: "malloc_at (refs s) (sc_alloc (sys (tick s))) = Some r"
      and e: "subscribe_pkt sys c (SubHead i) s = Inr (Some r, ?s')"
      and st': "srv_st ?s' ios dels (L(i := RefList r # L i)) (R(c \<mapsto> r # xs))"
    have nc: "c \<notin> set ?cs" using n in_subscribers by blast
    have same: "List.map_filter (node_client ?s') (L k) = List.map_filter (node_client s) (L k)" for k
      using r subs_ok_ref_alive [OF ok, of r k] by (intro subs_other [OF st]) auto
    have "subscribers ?s' i = Some (c # ?cs)"
      unfolding subscribers_st [OF st'] using same [of i] by (simp add: map_filter_simps)
    moreover have "subscribers ?s' k = subscribers s k" if "k \<noteq> i" for k
      unfolding subs subscribers_st [OF st'] using same [of k] that by simp
    ultimately show ?thesis using nc subs dist m e st' by (auto simp: srv_inv_def Let_def)
  qed
qed

lemma demo_srv1_client: "srv_inv demo_srv1" "1 \<in> dom (clients demo_srv1)"
  by (rule demo_accept, auto simp: srv_inv_def)+

lemma demo_srv1_empty: "refs demo_srv1 = Map.empty" "i \<noteq> 0 \<Longrightarrow> subscribers demo_srv1 i = Some []"
proof -
  obtain cl L R where k: "srv_st demo_srv1 [1, 2] [] L R" "L = (\<lambda>_. [])(0 := [CliList 1])" "refs demo_srv1 = Map.empty"
    by (rule demo_accept)
  show "refs demo_srv1 = Map.empty" by (rule k)
  show "subscribers demo_srv1 i = Some []" if "i \<noteq> 0" using subscribers_st [OF k(1), of i] k(2) that
    by (simp add: map_filter_simps)
qed

definition demo_srv2 :: local_server where
  "demo_srv2 = snd (projr (subscribe_pkt demo_sys 1 (SubHead 5) demo_srv1))"

theorem subscribe_pkt_spec_witness:
  "subscribers demo_srv2 5 = Some [1] \<and> srv_inv demo_srv2 \<and> clients demo_srv2 = clients demo_srv1"
proof -
  have "malloc_at (refs demo_srv1) (sc_alloc (demo_sys (tick demo_srv1))) \<noteq> None"
    by (simp add: malloc_at_def demo_sys_def demo_srv1_empty)
  then show ?thesis
    using subscribe_pkt_spec [OF demo_srv1_client, of demo_sys 5] demo_srv1_empty(2) [of 5]
    by (auto simp: demo_srv2_def Let_def)
qed

text \<open>
  \<^verbatim>\<open>unsubscribe_pkt\<close> removes the client from the table entry of the id and returns how many
  subscriptions it removed, one or none; every other entry and the order of the other clients stay.
\<close>

theorem unsubscribe_pkt_spec:
  assumes "srv_inv s"
  shows "\<exists>n s' cs. unsubscribe_pkt c (SubHead i) s = Inr (n, s') \<and> srv_inv s' \<and>
    subscribers s i = Some cs \<and> subscribers s' i = Some (remove1 c cs) \<and> n = (if c \<in> set cs then 1 else 0) \<and>
    c \<notin> set (remove1 c cs) \<and>
    (\<forall>k. k \<noteq> i \<longrightarrow> subscribers s' k = subscribers s k) \<and> clients s' = clients s \<and> handles s' = handles s"
proof -
  obtain ios dels L R where st: "srv_st s ios dels L R" using assms(1) by (auto simp: srv_inv_def)
  have ok: "subs_ok (dom (clients s)) (dom (clients s)) (refs s) L R" and rg: "rings list_ring (sheap s) (srv_rings L R)"
    using st by (simp_all add: srv_st_def)
  note subs = subscribers_st [OF st] and dist = subscribers_distinct [OF st]
  let ?cs = "List.map_filter (node_client s) (L i)"
  have gone: "c \<notin> set (remove1 c ?cs)" using dist [of i] by simp
  show ?thesis
  proof (rule unsubscribe_cases [OF st, of i c])
    assume "\<forall>r. RefList r \<in> set (L i) \<longrightarrow> refs s r \<noteq> Some c" and e: "unsubscribe_pkt c (SubHead i) s = Inr (0, s)"
    then have "c \<notin> set ?cs" using in_subscribers by blast
    then show ?thesis using assms subs e by (auto simp: remove1_idem)
  next
    fix r xs assume r: "RefList r \<in> set (L i)" "refs s r = Some c" and e: "unsubscribe_pkt c (SubHead i) s = Inr (1, drop_ref r s)"
      and st': "srv_st (drop_ref r s) ios dels (L(i := remove1 (RefList r) (L i))) (R(c \<mapsto> remove1 r xs))"
    have c: "c \<in> set ?cs" using r in_subscribers by blast
    have out: "RefList r \<notin> set (remove1 (RefList r) (L i))" using rings_distinct(1) [OF rg, of i] by simp
    have "List.map_filter (node_client (drop_ref r s)) (remove1 (RefList r) (L i)) =
        List.map_filter (node_client s) (remove1 (RefList r) (L i))"
    proof (rule map_filter_cong)
      fix n assume "n \<in> set (remove1 (RefList r) (L i))"
      then show "node_client (drop_ref r s) n = node_client s n"
        using out by (cases n rule: srv_node.exhaust) (auto simp: drop_ref_def)
    qed
    then have "subscribers (drop_ref r s) i = Some (remove1 c ?cs)"
      unfolding subscribers_st [OF st']
      using map_filter_drop [OF rings_distinct(1) [OF rg] r dist [of i]] by simp
    moreover have "subscribers (drop_ref r s) k = subscribers s k" if "k \<noteq> i" for k
    proof -
      have "RefList r \<notin> set (L k)" using rings_sub_unique [OF rg r(1)] that by auto
      then have "List.map_filter (node_client (drop_ref r s)) (L k) = List.map_filter (node_client s) (L k)"
        by (intro subs_other [OF st]) (auto simp: drop_ref_def)
      then show ?thesis unfolding subs subscribers_st [OF st'] using that by simp
    qed
    moreover have "srv_inv (drop_ref r s)" using st' by (auto simp: srv_inv_def)
    ultimately show ?thesis using c gone subs e by (auto simp: drop_ref_def)
  qed
qed

lemma demo_srv2_facts: "srv_inv demo_srv2" "subscribers demo_srv2 5 = Some [1]" "clients demo_srv2 = clients demo_srv1"
  "handles demo_srv2 = handles demo_srv1" "subscribers demo_srv2 6 = Some []"
proof -
  obtain ios dels L R where st: "srv_st demo_srv1 ios dels L R" using demo_srv1_client(1) by (auto simp: srv_inv_def)
  obtain r xs h where "subscribe_pkt demo_sys 1 (SubHead 5) demo_srv1 =
      Inr (Some r, next_tick (demo_srv1\<lparr>sheap := h, refs := (refs demo_srv1)(r \<mapsto> 1)\<rparr>))"
    "srv_st (next_tick (demo_srv1\<lparr>sheap := h, refs := (refs demo_srv1)(r \<mapsto> 1)\<rparr>)) ios dels
       (L(5 := RefList r # L 5)) (R(1 \<mapsto> r # xs))"
    by (rule subscribe_cases [OF st demo_srv1_client(2), of 5 demo_sys])
      (auto simp: demo_srv1_empty malloc_at_def demo_sys_def)
  note k = this
  have d2: "demo_srv2 = next_tick (demo_srv1\<lparr>sheap := h, refs := (refs demo_srv1)(r \<mapsto> 1)\<rparr>)"
    using k(1) by (simp add: demo_srv2_def)
  show "srv_inv demo_srv2" using k(2) by (auto simp: srv_inv_def d2)
  have "List.map_filter (node_client demo_srv1) (L i) = []" if "i \<noteq> 0" for i
    using demo_srv1_empty(2) [OF that] subscribers_st [OF st, of i] by simp
  moreover have "List.map_filter (node_client demo_srv2) (L i) = List.map_filter (node_client demo_srv1) (L i)" for i
  proof (rule subs_other [OF st])
    fix q assume "RefList q \<in> set (L i)"
    then show "refs demo_srv2 q = refs demo_srv1 q"
      using st subs_ok_ref_alive [of _ _ _ L R q i] demo_srv1_empty(1) by (fastforce simp: srv_st_def)
  qed
  ultimately have none: "List.map_filter (node_client demo_srv2) (L i) = []" if "i \<noteq> 0" for i using that by simp
  show "subscribers demo_srv2 5 = Some [1]" "subscribers demo_srv2 6 = Some []"
    using subscribers_st [OF k(2), of 5] subscribers_st [OF k(2), of 6] none [of 5] none [of 6]
    unfolding d2 [symmetric] by (simp_all add: map_filter_simps d2)
  show "clients demo_srv2 = clients demo_srv1" "handles demo_srv2 = handles demo_srv1" by (simp_all add: d2)
qed

theorem unsubscribe_pkt_spec_witness:
  "\<exists>s'. unsubscribe_pkt 1 (SubHead 5) demo_srv2 = Inr (1, s') \<and> subscribers s' 5 = Some []"
  using unsubscribe_pkt_spec [OF demo_srv2_facts(1), of 1 5] demo_srv2_facts(2) by auto

section \<open>Delivery\<close>

text \<open>The bytes queued for a client and not yet written to its socket.\<close>

definition pending_out :: "local_server \<Rightarrow> nat \<Rightarrow> u8 list option" where
  "pending_out s c = Option.bind (clients s c) (\<lambda>cl. Option.bind (cli_io_handle cl) (\<lambda>j.
     map_option (\<lambda>h. rb_contents (w_buf h)) (handles s j)))"

lemma pending_out_client:
  assumes "srv_st s ios dels L R" "pending_out s c = Some out"
  obtains cl j h where "clients s c = Some cl" "cli_io_handle cl = Some j" "j \<in> set ios" "handles s j = Some h"
    "r_param h = PCli c" "out = rb_contents (w_buf h)"
proof -
  obtain cl j h where k: "clients s c = Some cl" "cli_io_handle cl = Some j" "handles s j = Some h"
    "out = rb_contents (w_buf h)" using assms(2) by (auto simp: pending_out_def bind_eq_Some_conv)
  obtain j' h' where "cli_io_handle cl = Some j'" "j' \<in> set ios" "handles s j' = Some h'" "r_param h' = PCli c"
    by (rule srv_st_client [OF assms(1) k(1)])
  with k show thesis by (intro that) auto
qed

lemma subscribers_length:
  assumes st: "srv_st s ios dels L R" and i: "i \<noteq> 0"
  shows "length (List.map_filter (node_client s) (L i)) = length (L i)"
proof -
  have "node_client s n \<noteq> None" if "n \<in> set (L i)" for n
    using sub_node_handle [where L = L, OF st i that] by (metis node_client_simps(1) option.distinct(1))
  then show ?thesis by (induction "L i") (auto simp: map_filter_def filter_id_conv)
qed

lemma dispatch_effect:
  assumes st: "srv_st s ios dels L R" and bufs: "mio_bufs s" and bs: "mio_msg_ok bs" and i: "i \<noteq> 0"
    and dl: "delivered bs {j. Some j \<in> node_handle s ` set (L i)} s s'"
    and out: "pending_out s c = Some out"
  shows "pending_out s' c = Some (if c \<in> set (List.map_filter (node_client s) (L i)) \<and> length out + length bs < rb_size
    then out @ bs else out)"
proof -
  obtain cl j h where k: "clients s c = Some cl" "cli_io_handle cl = Some j" "handles s j = Some h" "r_param h = PCli c"
    "out = rb_contents (w_buf h)" by (rule pending_out_client [OF st out])
  have fd: "mh_fd h \<ge> 0" using k(3) st unfolding srv_st_def srv_link_def by blast
  show ?thesis
  proof (cases "c \<in> set (List.map_filter (node_client s) (L i))")
    case True
    then obtain r where r: "RefList r \<in> set (L i)" "refs s r = Some c" using in_subscribers by blast
    then have "node_handle s (RefList r) = Some j" using k by (simp add: node_handle_def)
    then have "Some j \<in> node_handle s ` set (L i)" using r(1) by (metis image_eqI)
    then obtain h' where h': "handles s' j = Some h'" "written bs h h'" using dl k(3) unfolding delivered_def by blast
    have "rb_wf (w_buf h)" using bufs k(3) by (auto simp: mio_bufs_def)
    then have "rb_contents (w_buf h') = out @ (if rb_accepts (w_buf h) (length bs) then bs else [])"
      using h'(2) fd bs k(5) by (simp add: written_def)
    then show ?thesis using k h'(1) delivered_fields(3) [OF dl] True by (simp add: pending_out_def rb_accepts_def)
  next
    case False
    have "Some j \<notin> node_handle s ` set (L i)"
    proof
      assume "Some j \<in> node_handle s ` set (L i)"
      then obtain n where n: "n \<in> set (L i)" "node_handle s n = Some j" by auto
      obtain r d j' h' where "n = RefList r" "refs s r = Some d" "node_handle s n = Some j'" "handles s j' = Some h'"
        "r_param h' = PCli d" by (rule sub_node_handle [where L = L, OF st i n(1)])
      then have "n = RefList r" "refs s r = Some c" using n(2) k(3,4) by auto
      then show False using False n(1) in_subscribers by blast
    qed
    then have "handles s' j = Some h" using dl k(3) by (simp add: delivered_def)
    then show ?thesis using k delivered_fields(3) [OF dl] False by (simp add: pending_out_def)
  qed
qed

lemma delivered_bufs:
  assumes dl: "delivered bs J s s'" and st: "srv_st s ios dels L R" and bufs: "mio_bufs s" and bs: "mio_msg_ok bs"
    and J: "J \<subseteq> dom (handles s)"
  shows "mio_bufs s'"
  unfolding mio_bufs_def
proof (intro allI impI)
  fix j h' assume h': "handles s' j = Some h'"
  obtain h where h: "handles s j = Some h" by (rule srv_keep_handle_back [OF delivered_keep [OF dl J] h'])
  have w: "rb_wf (w_buf h)" using bufs h by (auto simp: mio_bufs_def)
  have fd: "mh_fd h \<ge> 0" using h st unfolding srv_st_def srv_link_def by blast
  show "rb_wf (w_buf h')"
  proof (cases "j \<in> J")
    case True
    then obtain g where "handles s' j = Some g" "written bs h g" using dl h unfolding delivered_def by blast
    then show ?thesis using h' w fd bs by (simp add: written_def)
  next
    case False
    then show ?thesis using dl h h' w by (simp add: delivered_def)
  qed
qed

lemma dispatch_targets:
  assumes st: "srv_st s ios dels L R" and i: "i \<noteq> 0"
  shows "{j. Some j \<in> node_handle s ` set (L i)} \<subseteq> dom (handles s)"
proof
  fix j assume "j \<in> {j. Some j \<in> node_handle s ` set (L i)}"
  then obtain n where n: "n \<in> set (L i)" "node_handle s n = Some j" by auto
  obtain j' h where "node_handle s n = Some j'" "handles s j' = Some h" by (rule sub_node_handle [where L = L, OF st i n(1)])
  then show "j \<in> dom (handles s)" using n(2) by auto
qed

lemma dispatch_pkt_full:
  assumes st: "srv_st s ios dels L R" and bufs: "mio_bufs s" and i: "i \<noteq> 0" and bs: "mio_msg_ok bs"
  obtains s' where "dispatch_pkt sys bs (int (length bs)) (SubHead i) s = Inr (length (L i), s')"
    "srv_st s' ios dels L R" "srv_keep s s'" "mio_bufs s'" "clients s' = clients s" "refs s' = refs s"
    "\<And>c out. pending_out s c = Some out \<Longrightarrow> pending_out s' c = Some (if c \<in> set (List.map_filter (node_client s) (L i)) \<and>
        length out + length bs < rb_size then out @ bs else out)"
proof -
  obtain s' where d: "dispatch_pkt sys bs (int (length bs)) (SubHead i) s = Inr (length (L i), s')"
    and dl: "delivered bs {j. Some j \<in> node_handle s ` set (L i)} s s'" and k: "srv_keep s s'" "srv_st s' ios dels L R"
    by (rule dispatch_pkt_st [OF st i])
  show thesis
    by (rule that [OF d k(2,1) delivered_bufs [OF dl st bufs bs dispatch_targets [OF st i]]])
      (simp_all add: delivered_fields [OF dl] dispatch_effect [OF st bufs bs i dl])
qed

text \<open>
  C4: \<^verbatim>\<open>dispatch_pkt\<close> appends the packet, whole and once, to the bytes queued for each client subscribed
  to its id whose write buffer has room for it, and to no other client's; subscriptions and clients
  stay as they are, and the number of subscribers is returned.
\<close>

theorem dispatch_pkt_spec:
  assumes "srv_inv s" "mio_bufs s" "i \<noteq> 0" "0 < length bs" "length bs < 2 ^ 31" "subscribers s i = Some cs"
  shows "\<exists>s'. dispatch_pkt sys bs (int (length bs)) (SubHead i) s = Inr (length cs, s') \<and> srv_inv s' \<and> mio_bufs s' \<and>
    clients s' = clients s \<and> (\<forall>k. subscribers s' k = subscribers s k) \<and>
    (\<forall>c out. pending_out s c = Some out \<longrightarrow>
       pending_out s' c = Some (if c \<in> set cs \<and> length out + length bs < rb_size then out @ bs else out))"
proof -
  obtain ios dels L R where st: "srv_st s ios dels L R" using assms(1) by (auto simp: srv_inv_def)
  have bs: "mio_msg_ok bs" using assms(4,5) by (simp add: mio_msg_ok_def)
  have cs: "cs = List.map_filter (node_client s) (L i)" using assms(6) subscribers_st [OF st, of i] by simp
  obtain s' where d: "dispatch_pkt sys bs (int (length bs)) (SubHead i) s = Inr (length (L i), s')"
    "srv_st s' ios dels L R" "mio_bufs s'" "clients s' = clients s" "refs s' = refs s"
    "\<And>c out. pending_out s c = Some out \<Longrightarrow> pending_out s' c = Some (if c \<in> set (List.map_filter (node_client s) (L i)) \<and>
        length out + length bs < rb_size then out @ bs else out)"
    by (rule dispatch_pkt_full [OF st assms(2,3) bs, where sys = sys]) blast
  have "subscribers s' k = subscribers s k" for k
    unfolding subscribers_st [OF st] subscribers_st [OF d(2)] using subs_other [OF st, of k s'] d(5) by simp
  then show ?thesis using d subscribers_length [OF st assms(3)] unfolding cs by (auto simp: srv_inv_def)
qed

lemma demo_srv2_out: "mio_bufs demo_srv2" "pending_out demo_srv2 1 = Some []"
proof -
  obtain h where h: "srv_inv demo_srv0" "handles demo_srv0 1 = Some h" "mh_fd h = 4" "dom (handles demo_srv0) = {1}"
    "tick demo_srv0 = 0" "epfd demo_srv0 = 3" "clients demo_srv0 = Map.empty" "mio_bufs demo_srv0"
    by (rule demo_srv0_facts)
  have two: "handles demo_srv0 (Suc (Suc 0)) = None"
  proof -
    have "2 \<notin> dom (handles demo_srv0)" by (simp add: h(4))
    then show ?thesis by (auto simp: numeral_2_eq_2)
  qed
  let ?rb = "\<lparr>r_idx = 0, w_idx = 0, rb_data = \<lambda>_. 0\<rparr>"
  have rb: "rb_wf ?rb" "rb_contents ?rb = []" by (simp_all add: rb_wf_def rb_contents_def)
  have hs: "\<exists>g. handles demo_srv1 = (handles demo_srv0)(2 \<mapsto> g) \<and> w_buf g = ?rb"
    using h two by (auto simp: demo_srv1_def listen_fd_rd_callback_def multiplex_io_get_fd_def demo_sys_def malloc_at_def
        multiplex_io_handle_add_def multiplex_io_handle_list_add_def Let_def next_tick_def numeral_2_eq_2)
  then show "mio_bufs demo_srv2" using h(8) rb(1) by (auto simp: mio_bufs_def demo_srv2_facts split: if_splits)
  obtain cl where "clients demo_srv1 = [1 \<mapsto> cl]" "cli_io_handle cl = Some 2" by (rule demo_accept)
  then show "pending_out demo_srv2 1 = Some []" using hs rb(2) by (auto simp: pending_out_def demo_srv2_facts)
qed

theorem dispatch_pkt_spec_witness:
  "\<exists>s'. dispatch_pkt demo_sys [3, 0, 5, 0, 9] 5 (SubHead 5) demo_srv2 = Inr (1, s') \<and>
     pending_out s' 1 = Some [3, 0, 5, 0, 9]"
  using dispatch_pkt_spec [OF demo_srv2_facts(1) demo_srv2_out(1) _ _ _ demo_srv2_facts(2), of "[3, 0, 5, 0, 9]" demo_sys]
    demo_srv2_out(2) by auto

section \<open>Receiving\<close>


definition demo_sub_sys :: srv_sys where
  "demo_sub_sys n = (demo_sys n)\<lparr>sc_read := Some [6, 0, 0, 0, 1, 0, 5, 0, 3]\<rparr>"


section \<open>Whole rounds of the thread\<close>

text \<open>
  The states of a running server: it starts, and the multiplexer's thread processes batches of
  events. An event carries the address of a handle that is allocated when \<^verbatim>\<open>epoll_wait\<close> returns.
\<close>

inductive srv_reach :: "srv_sys \<Rightarrow> local_server \<Rightarrow> bool" for sys where
  started: "local_server_start addr e = Inr (Some s, a) \<Longrightarrow> srv_reach sys s"
| rounds: "srv_reach sys s \<Longrightarrow> ev_ptr ` set evs \<subseteq> dom (handles s) \<Longrightarrow>
    multiplex_io_round (srv_call sys) s evs = Some (Inr s') \<Longrightarrow> srv_reach sys s'"

inductive_cases srv_reachE: "srv_reach sys s"

lemma srv_inv_mio: "srv_inv s \<Longrightarrow> mio_inv s"
  unfolding srv_inv_def srv_st_def mio_inv_def by blast

lemma srv_reach_inv: "srv_reach sys s \<Longrightarrow> srv_inv s"
proof (induction rule: srv_reach.induct)
  case (started addr e s a)
  then show ?case by (rule start_state) (auto simp: srv_inv_def)
next
  case (rounds s evs s')
  obtain s'' ios where "multiplex_io_round (srv_call sys) s evs = Some (Inr s'')" "srv_inv s''"
    by (rule srv.round_safe [OF srv_inv_mio [OF rounds.IH] rounds.IH rounds.hyps(2), of sys])
  then show ?case using rounds.hyps(3) by simp
qed



section \<open>Stopping\<close>

lemma rings_sub:
  assumes "rings ring h F" "\<And>l xs. F' l = Some xs \<Longrightarrow> F l = Some xs"
  shows "rings ring h F'"
  using assms unfolding rings_def by blast

lemma stop_clients_prefix:
  "rings list_ring (sheap s) (srv_rings L Map.empty) \<Longrightarrow> L 0 = map CliList cs @ rest \<Longrightarrow> mio_wf s ios dels \<Longrightarrow>
   \<forall>c \<in> set cs. \<exists>cl. clients s c = Some cl \<and> cli_io_handle cl = Some (H c) \<and> H c \<in> set ios \<Longrightarrow>
   inj_on H (set cs) \<Longrightarrow>
   \<exists>s' ios' dels'. stop_clients s = stop_clients s' \<and> rings list_ring (sheap s') (srv_rings (L(0 := rest)) Map.empty) \<and>
     mio_wf s' ios' dels' \<and> clients s' = clients s |` (- set cs) \<and> refs s' = refs s \<and> handles s' = handles s \<and>
     acts s' = acts s @ map (\<lambda>c. SrvClose (mh_fd (the (handles s (H c))))) cs"
proof (induction cs arbitrary: s L ios dels)
  case Nil
  then have "L(0 := rest) = L" by (simp add: fun_eq_iff)
  then show ?case using Nil.prems by (intro exI [of _ s] exI [of _ ios] exI [of _ dels]) (simp add: restrict_map_UNIV)
next
  case (Cons c cs)
  have ring: "list_ring (sheap s) (SubHead 0) (CliList c # map CliList cs @ rest)"
    using ringsD [where F = "srv_rings L Map.empty", OF Cons.prems(1), of "SubHead 0"] Cons.prems(2) by simp
  have dc: "c \<notin> set cs" using cl.ring_distinct [OF ring] by auto
  obtain cl where cl: "clients s c = Some cl" "cli_io_handle cl = Some (H c)" "H c \<in> set ios" using Cons.prems(4) by auto
  let ?s1 = "s\<lparr>sheap := list_remove (sheap s) (CliList c)\<rparr>"
  have wf1: "mio_wf ?s1 ios dels" using Cons.prems(3) by (simp add: mio_wf_def)
  obtain s2 where del: "multiplex_io_handle_del (Some ?s1) (Some (H c)) = Inr (MIO_STS_OK, Some s2)"
    and wf2: "mio_wf s2 (remove1 (H c) ios) (dels @ [H c])" and s2: "s2 = ?s1\<lparr>lheap := lheap s2\<rparr>"
    by (rule handle_del_io [OF wf1 cl(3)])
  have f2: "clients s2 = clients s" "refs s2 = refs s" "handles s2 = handles s" "acts s2 = acts s"
    "sheap s2 = list_remove (sheap s) (CliList c)" by (subst s2, simp)+
  obtain h where h: "handles s (H c) = Some h" using Cons.prems(3) cl(3) by (auto simp: mio_wf_def)
  let ?s3 = "close_fd (mh_fd h) (s2\<lparr>clients := (clients s)(c := None)\<rparr>)"
  have step: "stop_clients s = stop_clients ?s3"
    using cl.isempty_ring [OF ring] ring_walk [OF ring] cl h del
    by (subst stop_clients.simps) (simp add: multiplex_io_get_fd_def Let_def f2)
  let ?L = "L(0 := map CliList cs @ rest)"
  have r3: "rings list_ring (sheap ?s3) (srv_rings ?L Map.empty)"
    using cl.rings_remove [OF Cons.prems(1), of "SubHead 0" "L 0" "CliList c"] Cons.prems(2)
    by (simp add: srv_rings_sub f2)
  have wf3: "mio_wf ?s3 (remove1 (H c) ios) (dels @ [H c])" using wf2 by (simp add: mio_wf_def)
  have cs3: "\<forall>d \<in> set cs. \<exists>cl. clients ?s3 d = Some cl \<and> cli_io_handle cl = Some (H d) \<and> H d \<in> set (remove1 (H c) ios)"
  proof
    fix d assume d: "d \<in> set cs"
    then have "d \<noteq> c" "H d \<noteq> H c" using dc Cons.prems(5) by (auto simp: inj_on_def)
    then show "\<exists>cl. clients ?s3 d = Some cl \<and> cli_io_handle cl = Some (H d) \<and> H d \<in> set (remove1 (H c) ios)"
      using Cons.prems(4) d by auto
  qed
  have inj: "inj_on H (set cs)" using Cons.prems(5) by simp
  have l0: "?L 0 = map CliList cs @ rest" by simp
  obtain s' ios' dels' where s': "stop_clients ?s3 = stop_clients s'"
    "rings list_ring (sheap s') (srv_rings (?L(0 := rest)) Map.empty)" "mio_wf s' ios' dels'"
    "clients s' = clients ?s3 |` (- set cs)" "refs s' = refs ?s3" "handles s' = handles ?s3"
    "acts s' = acts ?s3 @ map (\<lambda>c. SrvClose (mh_fd (the (handles ?s3 (H c))))) cs"
    using Cons.IH [OF r3 l0 wf3 cs3 inj] by blast
  have "clients s' = clients s |` (- set (c # cs))" by (rule ext) (auto simp: s'(4) f2 restrict_map_def)
  moreover have "?L(0 := rest) = L(0 := rest)" by simp
  moreover have "acts s' = acts s @ map (\<lambda>c. SrvClose (mh_fd (the (handles s (H c))))) (c # cs)"
    using s'(7) h by (simp add: f2)
  moreover have "refs s' = refs s" "handles s' = handles s" using s'(5,6) by (simp_all add: f2)
  ultimately show ?case using s'(1-3) step by metis
qed

lemma stop_refs_list:
  "rings list_ring (sheap s) (srv_rings L Map.empty) \<Longrightarrow> L i = map RefList rs \<Longrightarrow> set rs \<subseteq> dom (refs s) \<Longrightarrow>
   \<exists>h. stop_refs i s = Some (Inr (s\<lparr>sheap := h, refs := refs s |` (- set rs)\<rparr>)) \<and>
     rings list_ring h (srv_rings (L(i := [])) Map.empty)"
proof (induction rs arbitrary: s L)
  case Nil
  have ring: "list_ring (sheap s) (SubHead i) []"
    using ringsD [where F = "srv_rings L Map.empty", OF Nil.prems(1), of "SubHead i"] Nil.prems(2) by simp
  have "L(i := []) = L" using Nil.prems(2) by (simp add: fun_eq_iff)
  then show ?case using Nil.prems(1) cl.isempty_ring [OF ring]
    by (intro exI [of _ "sheap s"], subst stop_refs.simps) (simp add: restrict_map_UNIV)
next
  case (Cons r rs)
  have ring: "list_ring (sheap s) (SubHead i) (RefList r # map RefList rs)"
    using ringsD [where F = "srv_rings L Map.empty", OF Cons.prems(1), of "SubHead i"] Cons.prems(2) by simp
  have r: "r \<notin> set rs" "refs s r \<noteq> None" using cl.ring_distinct [OF ring] Cons.prems(3) by auto
  let ?s1 = "s\<lparr>sheap := list_remove (sheap s) (RefList r), refs := (refs s)(r := None)\<rparr>"
  let ?L = "L(i := map RefList rs)"
  have step: "stop_refs i s = stop_refs i ?s1"
    using cl.isempty_ring [OF ring] ring_walk [OF ring] r(2) by (subst stop_refs.simps) auto
  have r1: "rings list_ring (sheap ?s1) (srv_rings ?L Map.empty)"
    using cl.rings_remove [OF Cons.prems(1), of "SubHead i" "L i" "RefList r"] Cons.prems(2) by (simp add: srv_rings_sub)
  have d1: "set rs \<subseteq> dom (refs ?s1)" using Cons.prems(3) r(1) by auto
  have l1: "?L i = map RefList rs" by simp
  obtain h where h: "stop_refs i ?s1 = Some (Inr (?s1\<lparr>sheap := h, refs := refs ?s1 |` (- set rs)\<rparr>))"
    "rings list_ring h (srv_rings (?L(i := [])) Map.empty)"
    using Cons.IH [OF r1 l1 d1] by blast
  have "refs ?s1 |` (- set rs) = refs s |` (- set (r # rs))" by (rule ext) (auto simp: restrict_map_def)
  then have e: "?s1\<lparr>sheap := h, refs := refs ?s1 |` (- set rs)\<rparr> = s\<lparr>sheap := h, refs := refs s |` (- set (r # rs))\<rparr>"
    by simp
  have "?L(i := []) = L(i := [])" by simp
  then show ?case using h step unfolding e by metis
qed

lemma stop_ref_lists_all:
  "rings list_ring (sheap s) (srv_rings L Map.empty) \<Longrightarrow>
   \<forall>i \<in> set is. \<exists>rs. L i = map RefList rs \<and> set rs \<subseteq> dom (refs s) \<Longrightarrow>
   \<exists>h. stop_ref_lists is s = Inr (s\<lparr>sheap := h, refs := refs s |` (- {r. \<exists>i \<in> set is. RefList r \<in> set (L i)})\<rparr>)"
proof (induction "is" arbitrary: s L)
  case Nil
  then show ?case by (intro exI [of _ "sheap s"]) (simp add: restrict_map_UNIV)
next
  case (Cons i "is")
  obtain rs where rs: "L i = map RefList rs" "set rs \<subseteq> dom (refs s)" using Cons.prems(2) by auto
  obtain h where h: "stop_refs i s = Some (Inr (s\<lparr>sheap := h, refs := refs s |` (- set rs)\<rparr>))"
    "rings list_ring h (srv_rings (L(i := [])) Map.empty)"
    using stop_refs_list [OF Cons.prems(1) rs] by blast
  let ?s1 = "s\<lparr>sheap := h, refs := refs s |` (- set rs)\<rparr>"
  have h1: "rings list_ring (sheap ?s1) (srv_rings (L(i := [])) Map.empty)" using h(2) by simp
  have k1: "\<forall>k \<in> set is. \<exists>qs. (L(i := [])) k = map RefList qs \<and> set qs \<subseteq> dom (refs ?s1)"
  proof
    fix k assume k: "k \<in> set is"
    show "\<exists>qs. (L(i := [])) k = map RefList qs \<and> set qs \<subseteq> dom (refs ?s1)"
    proof (cases "k = i")
      case False
      obtain qs where qs: "L k = map RefList qs" "set qs \<subseteq> dom (refs s)" using Cons.prems(2) k by auto
      have "r \<notin> set rs" if "r \<in> set qs" for r
        using rings_sub_unique [OF Cons.prems(1), of "RefList r" k i] that qs(1) rs(1) False by auto
      then show ?thesis using qs False by (intro exI [of _ qs]) auto
    qed simp
  qed
  obtain h2 where h2: "stop_ref_lists is ?s1 = Inr (?s1\<lparr>sheap := h2,
      refs := refs ?s1 |` (- {r. \<exists>k \<in> set is. RefList r \<in> set ((L(i := [])) k)})\<rparr>)"
    using Cons.IH [OF h1 k1] by blast
  have "refs ?s1 |` (- {r. \<exists>k \<in> set is. RefList r \<in> set ((L(i := [])) k)}) =
      refs s |` (- {r. \<exists>k \<in> set (i # is). RefList r \<in> set (L k)})"
    using rs(1) by (auto simp: fun_eq_iff restrict_map_def split: if_splits)
  then show ?case using h(1) h2 by (intro exI [of _ h2]) (simp add: run_loop_def)
qed

lemma nonzero_ids: "i \<noteq> (0 :: u16) \<Longrightarrow> i \<in> set (map of_nat [1..<65536])"
proof -
  assume "i \<noteq> 0"
  then have "unat i \<in> {1..<65536}" using unsigned_less [of i, where ?'a = nat] by (auto simp: unat_gt_0 Suc_le_eq)
  moreover have "i = of_nat (unat i)" by simp
  ultimately show ?thesis unfolding set_map set_upt by (rule image_eqI [rotated])
qed

lemma list_as_map:
  "\<forall>n \<in> set ns. \<exists>r \<in> A. n = f r \<Longrightarrow> \<exists>rs. ns = map f rs \<and> set rs \<subseteq> A"
proof (induction ns)
  case (Cons n ns)
  then obtain r rs where "n = f r" "r \<in> A" "ns = map f rs" "set rs \<subseteq> A" by auto
  then show ?case by (intro exI [of _ "r # rs"]) simp
qed simp

text \<open>The part of \<^verbatim>\<open>local_server_stop\<close> up to the first node of list 0 that is not a client's.\<close>

definition cli_handle_of :: "local_server \<Rightarrow> nat \<Rightarrow> nat" where
  "cli_handle_of s c = the (Option.bind (clients s c) cli_io_handle)"

lemma stop_prefix:
  assumes st: "srv_st s ios dels L R" and l0: "L 0 = map CliList cs @ rest"
  obtains s1 s2 fd ios' dels' where
    "multiplex_io_get_fd (s\<lparr>acts := acts s @ [SrvUnlink (file_name s)]\<rparr>) (listen_io_handle s) = Inr fd"
    "multiplex_io_handle_del (Some (s\<lparr>acts := acts s @ [SrvUnlink (file_name s)]\<rparr>)) (listen_io_handle s) = Inr (MIO_STS_OK, Some s1)"
    "stop_clients (close_fd fd s1) = stop_clients s2"
    "rings list_ring (sheap s2) (srv_rings (L(0 := rest)) Map.empty)" "mio_wf s2 ios' dels'"
    "clients s2 = clients s |` (- set cs)" "refs s2 = refs s" "handles s2 = handles s"
    "acts s2 = acts s @ [SrvUnlink (file_name s), SrvClose fd] @
       map (\<lambda>c. SrvClose (mh_fd (the (handles s (cli_handle_of s c))))) cs"
proof -
  have ok: "subs_ok (dom (clients s)) (dom (clients s)) (refs s) L R" and rg: "rings list_ring (sheap s) (srv_rings L R)"
    and wf: "mio_wf s ios dels" using st by (simp_all add: srv_st_def)
  obtain j h where j: "listen_io_handle s = Some j" "j \<in> set ios" "handles s j = Some h" "r_ind h = Some ListenRd"
    using st unfolding srv_st_def srv_link_def by blast
  let ?s0 = "s\<lparr>acts := acts s @ [SrvUnlink (file_name s)]\<rparr>"
  have wf0: "mio_wf ?s0 ios dels" using wf by (simp add: mio_wf_def)
  obtain s1 where del: "multiplex_io_handle_del (Some ?s0) (Some j) = Inr (MIO_STS_OK, Some s1)"
    and wf1: "mio_wf s1 (remove1 j ios) (dels @ [j])" and s1: "s1 = ?s0\<lparr>lheap := lheap s1\<rparr>"
    by (rule handle_del_io [OF wf0 j(2)])
  have f1: "clients s1 = clients s" "refs s1 = refs s" "handles s1 = handles s" "sheap s1 = sheap s"
    "acts s1 = acts s @ [SrvUnlink (file_name s)]" by (subst s1, simp)+
  let ?s2 = "close_fd (mh_fd h) s1"
  have "rings list_ring (sheap ?s2) (srv_rings L Map.empty)"
    unfolding close_fd_fields f1 by (rule rings_sub [OF rg]) (auto simp: srv_rings_def split: srv_node.splits)
  moreover have "mio_wf ?s2 (remove1 j ios) (dels @ [j])" using wf1 by (simp add: mio_wf_def)
  moreover have cs: "\<exists>cl g. clients s c = Some cl \<and> cli_io_handle cl = Some (cli_handle_of s c) \<and>
      cli_handle_of s c \<in> set (remove1 j ios) \<and> handles s (cli_handle_of s c) = Some g \<and> r_param g = PCli c" if "c \<in> set cs" for c
  proof -
    have "CliList c \<in> set (L 0)" using that l0 by simp
    then obtain cl where cl: "clients s c = Some cl" using subs_okD(2) [OF ok, of "CliList c" 0] by auto
    obtain k g where k: "cli_io_handle cl = Some k" "k \<in> set ios" "handles s k = Some g" "r_ind g = Some ComRd" "r_param g = PCli c"
      by (rule srv_st_client [OF st cl])
    moreover have "k \<noteq> j" using k j by auto
    moreover have "cli_handle_of s c = k" using cl k(1) by (simp add: cli_handle_of_def)
    ultimately show ?thesis using cl by auto
  qed
  moreover have "inj_on (cli_handle_of s) (set cs)"
  proof (rule inj_onI)
    fix c d assume "c \<in> set cs" "d \<in> set cs" "cli_handle_of s c = cli_handle_of s d"
    then show "c = d" using cs [of c] cs [of d] by auto
  qed
  ultimately obtain s2 ios' dels' where s2: "stop_clients ?s2 = stop_clients s2"
    "rings list_ring (sheap s2) (srv_rings (L(0 := rest)) Map.empty)" "mio_wf s2 ios' dels'"
    "clients s2 = clients ?s2 |` (- set cs)" "refs s2 = refs ?s2" "handles s2 = handles ?s2"
    "acts s2 = acts ?s2 @ map (\<lambda>c. SrvClose (mh_fd (the (handles ?s2 (cli_handle_of s c))))) cs"
    using stop_clients_prefix [where s = ?s2 and L = L and cs = cs and rest = rest and ios = "remove1 j ios"
        and dels = "dels @ [j]" and H = "cli_handle_of s"] l0 by (metis close_fd_fields(4) f1(1))
  show thesis
    by (rule that [OF _ _ s2(1-3)]) (use j del s2 in \<open>simp_all add: multiplex_io_get_fd_def f1\<close>)
qed

lemma list0_clients:
  assumes st: "srv_st s ios dels L R" and none: "subscribers s 0 = Some []"
  obtains cs where "L 0 = map CliList cs" "set cs = dom (clients s)"
proof -
  have ok: "subs_ok (dom (clients s)) (dom (clients s)) (refs s) L R" using st by (simp add: srv_st_def)
  have mf: "List.map_filter (node_client s) (L 0) = []" using none subscribers_st [OF st, of 0] by simp
  have "\<exists>c \<in> dom (clients s). n = CliList c" if n: "n \<in> set (L 0)" for n
  proof -
    have "node_client s n = None" using mf n set_map_filter [of "node_client s" "L 0"] by (cases "node_client s n") auto
    then show ?thesis using subs_okD(2) [OF ok n] by auto
  qed
  then have "\<exists>cs. L 0 = map CliList cs \<and> set cs \<subseteq> dom (clients s)" by (intro list_as_map) blast
  then obtain cs where cs: "L 0 = map CliList cs" "set cs \<subseteq> dom (clients s)" by blast
  moreover have "dom (clients s) \<subseteq> set cs" using subs_okD(3) [OF ok] cs(1) by force
  ultimately show thesis by (intro that) auto
qed

lemma stop_subscriptions:
  assumes st: "srv_st s ios dels L R" and cs: "L 0 = map CliList cs" and refs: "refs s2 = refs s"
    and rings: "rings list_ring (sheap s2) (srv_rings (L(0 := [])) Map.empty)"
  obtains h where "stop_ref_lists (map of_nat [1..<65536]) s2 = Inr (s2\<lparr>sheap := h, refs := Map.empty\<rparr>)"
proof -
  have ok: "subs_ok (dom (clients s)) (dom (clients s)) (refs s) L R" using st by (simp add: srv_st_def)
  let ?gone = "{r. \<exists>i \<in> set (map of_nat [1..<65536]). RefList r \<in> set ((L(0 := [])) i)}"
  have lists: "\<exists>rs. (L(0 := [])) i = map RefList rs \<and> set rs \<subseteq> dom (refs s2)" for i
  proof (cases "i = 0")
    case False
    have "\<forall>n \<in> set (L i). \<exists>r \<in> dom (refs s). n = RefList r" using subs_okD(2) [OF ok] False by fastforce
    then have "\<exists>rs. L i = map RefList rs \<and> set rs \<subseteq> dom (refs s)" by (rule list_as_map)
    then show ?thesis using False by (simp add: refs)
  qed simp
  obtain h where rl: "stop_ref_lists (map of_nat [1..<65536]) s2 = Inr (s2\<lparr>sheap := h, refs := refs s2 |` (- ?gone)\<rparr>)"
    using stop_ref_lists_all [OF rings, of "map of_nat [1..<65536]"] lists by blast
  have "(refs s2 |` (- ?gone)) r = None" for r
  proof (cases "refs s r")
    case (Some c)
    then obtain i where i: "RefList r \<in> set (L i)" using subs_okD(5) [OF ok] by blast
    then have "i \<noteq> 0" using cs by auto
    then have "r \<notin> - ?gone" using nonzero_ids [of i] i by (auto simp del: set_map)
    then show ?thesis using restrict_out [of r _ "refs s2"] by (simp del: set_map)
  qed (simp add: refs restrict_map_def)
  then have "refs s2 |` (- ?gone) = Map.empty" by blast
  then show thesis using that [of h] rl by simp
qed


lemma demo_srv1_sub0: "subscribers demo_srv1 0 = Some []"
proof -
  obtain cl L R where k: "srv_st demo_srv1 [1, 2] [] L R" "L = (\<lambda>_. [])(0 := [CliList 1])" by (rule demo_accept)
  show ?thesis using subscribers_st [OF k(1), of 0] k(2) by (simp add: map_filter_simps)
qed


text \<open>
  \<^verbatim>\<open>subscribe_pkt\<close> accepts id 0, whose list is the one the clients themselves are kept in. Once a
  client has subscribed to id 0, \<^verbatim>\<open>local_server_stop\<close> takes the subscription for a client and reads
  beyond its block, whatever else happened to the server.
\<close>

theorem local_server_stop_id0:
  assumes "srv_inv s" "subscribers s 0 = Some (c # cs)"
  shows "local_server_stop (Some s) = Inl TypeConfusion"
proof -
  obtain ios dels L R where st: "srv_st s ios dels L R" using assms(1) by (auto simp: srv_inv_def)
  have ok: "subs_ok (dom (clients s)) (dom (clients s)) (refs s) L R" using st by (simp add: srv_st_def)
  have "c \<in> set (List.map_filter (node_client s) (L 0))" using assms(2) subscribers_st [OF st, of 0] by simp
  then obtain q where "RefList q \<in> set (L 0)" using in_subscribers by blast
  then have "\<exists>n \<in> set (L 0). \<not> (\<exists>c. n = CliList c)" by blast
  then obtain ps n rest where sp: "L 0 = ps @ n # rest" "\<not> (\<exists>c. n = CliList c)" "\<forall>m \<in> set ps. \<exists>c. m = CliList c"
    using split_list_first_prop [of "L 0" "\<lambda>n. \<not> (\<exists>c. n = CliList c)"] by auto
  then obtain ks where ks: "ps = map CliList ks" using list_as_map [of ps UNIV CliList] by auto
  have "n \<in> set (L 0)" using sp(1) by simp
  from subs_okD(2) [OF ok this] obtain r where r: "n = RefList r" using sp(2) by blast
  obtain s1 s2 fd ios' dels' where
    p: "multiplex_io_get_fd (s\<lparr>acts := acts s @ [SrvUnlink (file_name s)]\<rparr>) (listen_io_handle s) = Inr fd"
    "multiplex_io_handle_del (Some (s\<lparr>acts := acts s @ [SrvUnlink (file_name s)]\<rparr>)) (listen_io_handle s) = Inr (MIO_STS_OK, Some s1)"
    "stop_clients (close_fd fd s1) = stop_clients s2"
    "rings list_ring (sheap s2) (srv_rings (L(0 := RefList r # rest)) Map.empty)"
    by (rule stop_prefix [OF st, of ks "RefList r # rest"]) (use sp ks r in auto)
  have ring: "list_ring (sheap s2) (SubHead 0) (RefList r # rest)"
    using ringsD [where F = "srv_rings (L(0 := RefList r # rest)) Map.empty", OF p(4), of "SubHead 0"] by simp
  have "stop_clients s2 = Some (Inl TypeConfusion)"
    using cl.isempty_ring [OF ring] ring_walk [OF ring] by (subst stop_clients.simps) simp
  then show ?thesis using p(1-3) by (simp add: local_server_stop_def Let_def run_loop_def)
qed

theorem local_server_stop_id0_witness:
  "\<exists>s'. subscribe_pkt demo_sys 1 (SubHead 0) demo_srv1 = Inr (Some 2, s') \<and>
     local_server_stop (Some s') = Inl TypeConfusion"
proof -
  obtain ios dels L R where st: "srv_st demo_srv1 ios dels L R" using demo_srv1_client(1) by (auto simp: srv_inv_def)
  have mf: "List.map_filter (node_client demo_srv1) (L 0) = []"
    using demo_srv1_sub0 subscribers_st [OF st, of 0] by simp
  have no: "\<not> (\<exists>r. RefList r \<in> set (L 0) \<and> refs demo_srv1 r = Some 1)"
    using mf in_subscribers [of 1 demo_srv1 "L 0"] by simp
  have "tick demo_srv1 = 1"
    by (rule demo_srv0_facts) (simp add: demo_srv1_def listen_fd_rd_callback_def multiplex_io_get_fd_def demo_sys_def
      malloc_at_def multiplex_io_handle_add_def multiplex_io_handle_list_add_def Let_def next_tick_def numeral_2_eq_2
      split: option.split)
  then have al: "malloc_at (refs demo_srv1) (sc_alloc (demo_sys (tick demo_srv1))) = Some 2"
    by (simp add: demo_srv1_empty malloc_at_def demo_sys_def numeral_2_eq_2)
  obtain r xs h where k: "malloc_at (refs demo_srv1) (sc_alloc (demo_sys (tick demo_srv1))) = Some r"
    "subscribe_pkt demo_sys 1 (SubHead 0) demo_srv1 =
      Inr (Some r, next_tick (demo_srv1\<lparr>sheap := h, refs := (refs demo_srv1)(r \<mapsto> 1)\<rparr>))"
    "srv_st (next_tick (demo_srv1\<lparr>sheap := h, refs := (refs demo_srv1)(r \<mapsto> 1)\<rparr>)) ios dels
       (L(0 := RefList r # L 0)) (R(1 \<mapsto> r # xs))"
    by (rule subscribe_cases [OF st demo_srv1_client(2), of 0 demo_sys]) (use no al in auto)
  let ?s' = "next_tick (demo_srv1\<lparr>sheap := h, refs := (refs demo_srv1)(r \<mapsto> 1)\<rparr>)"
  have "subscribers ?s' 0 = Some (1 # List.map_filter (node_client ?s') (L 0))"
    using subscribers_st [OF k(3), of 0] by (simp add: map_filter_simps)
  moreover have "srv_inv ?s'" using k(3) by (auto simp: srv_inv_def)
  ultimately show ?thesis using local_server_stop_id0 [of ?s'] k(1,2) al by auto
qed

end
