(* ===== verification/SysLog.thy ===== *)
theory SysLog
  imports SysbusClient
begin

text \<open>
  The logging service on top of the client library. \<^verbatim>\<open>apps/sysbus/lib_src/libsyslog.c\<close> is what every
  call of the macro \<^verbatim>\<open>syslog_write\<close> runs: it builds a line in a fixed buffer with \<^verbatim>\<open>snprintf\<close> and
  sends it. \<^verbatim>\<open>apps/sysbus/src/sys_log.c\<close> is the service that appends received messages to a file per
  day. The broken-down time, the text that the caller's format and arguments produce and the results
  of the system calls are arguments.
\<close>

section \<open>Formatted output\<close>

text \<open>The conversion \<^verbatim>\<open>%0wd\<close>; the width 0 is \<^verbatim>\<open>%d\<close>.\<close>

definition fmt_d :: "nat \<Rightarrow> int \<Rightarrow> u8 list" where
  "fmt_d w z =
     (let ds = dec_digits (nat \<bar>z\<bar>); sign = (if z < 0 then [45] else [])
      in sign @ replicate (w - length ds - length sign) 48 @ ds)"

text \<open>The string a \<^verbatim>\<open>%s\<close> conversion reads from a block, which must hold its terminator.\<close>

definition c_string :: "u8 list \<Rightarrow> c_fault + u8 list" where
  "c_string bs = (case c_strlen bs of Inl f \<Rightarrow> Inl f | Inr n \<Rightarrow> Inr (take n bs))"

record tm_fields =
  tm_year :: int
  tm_mon :: int
  tm_mday :: int
  tm_hour :: int
  tm_min :: int
  tm_sec :: int

section \<open>Building and sending a line\<close>

abbreviation LOG_BUF_SIZE :: nat where "LOG_BUF_SIZE \<equiv> 1600"
abbreviation SIZEOF_LINE :: nat where "SIZEOF_LINE \<equiv> LOG_BUF_SIZE + 1"

definition SYSBUS_SYS_LOG_ID :: u16 where "SYSBUS_SYS_LOG_ID = 0x1E"
definition SYS_LOG_MSG :: u16 where "SYS_LOG_MSG = 1"

record log_line =
  ln_buf :: mem
  ln_len :: int
  ln_ret :: int

text \<open>
  \<^verbatim>\<open>snprintf(line + off, n, ...)\<close> that produces the bytes \<open>bs\<close>: at most \<open>n - 1\<close> of them and a terminator
  are stored, the result is the number produced. The size is a \<^verbatim>\<open>size_t\<close>.
\<close>

definition c_snprintf :: "mem \<Rightarrow> int \<Rightarrow> u64 \<Rightarrow> u8 list \<Rightarrow> c_fault + (mem \<times> int)" where
  "c_snprintf m off n bs =
     (let out = (if n = 0 then [] else take (unat n - 1) bs @ [0])
      in if off < 0 \<or> off + int (length out) > int SIZEOF_LINE then Inl OutOfBounds
         else Inr (mem_put m (nat off) out, int (length bs)))"

text \<open>The repeated pair \<^verbatim>\<open>ret = snprintf(line+len, sizeof(line)-1-len, ...); len += ret;\<close>.\<close>

definition log_append :: "u8 list \<Rightarrow> log_line \<Rightarrow> c_fault + log_line" where
  "log_append bs l =
     bind_fault (c_snprintf (ln_buf l) (ln_len l) (of_nat SIZEOF_LINE - 1 - word_of_int (ln_len l)) bs)
       (\<lambda>(m, r). Inr \<lparr>ln_buf = m, ln_len = ln_len l + r, ln_ret = r\<rparr>)"

definition brackets :: "u8 list \<Rightarrow> u8 list" where
  "brackets bs = 91 # bs @ [93]"

definition time_prefix :: "tm_fields \<Rightarrow> int \<Rightarrow> u8 list" where
  "time_prefix t usec =
     brackets (fmt_d 4 (tm_year t + 1900) @ [45] @ fmt_d 2 (tm_mon t + 1) @ [45] @ fmt_d 2 (tm_mday t) @ [32] @
       fmt_d 2 (tm_hour t) @ [58] @ fmt_d 2 (tm_min t) @ [58] @ fmt_d 2 (tm_sec t) @ [46] @
       fmt_d 6 (usec mod 1000000))"

definition level_name :: "int \<Rightarrow> u8 list" where
  "level_name level =
     (if level = 0 then bytes_of ''DEBUG''
      else if level = 2 then bytes_of ''WARN''
      else if level = 3 then bytes_of ''ERROR''
      else bytes_of ''DEBUG'')"

text \<open>
  The result is the return value, what \<^verbatim>\<open>sysbus_msg_send\<close> hands to \<^verbatim>\<open>write\<close> and what goes to the
  standard output. \<open>text\<close> is what the format and its arguments produce, \<open>None\<close> a null format. The
  size given to \<^verbatim>\<open>vsnprintf\<close> subtracts the length of the last part, not that of the line.
\<close>

definition vcar_sys_trace_dump_api :: "'cb sysbus_handle option \<Rightarrow> int \<Rightarrow> u8 list option \<Rightarrow> int \<Rightarrow> u8 list option \<Rightarrow>
    tm_fields \<Rightarrow> int \<Rightarrow> (int \<Rightarrow> int) \<Rightarrow> c_fault + (int \<times> u8 list \<times> u8 list)" where
  "vcar_sys_trace_dump_api sysbus_handle level func lineNum text t usec wr =
     (case (text, sysbus_handle) of
        (Some txt, Some h) \<Rightarrow>
          bind_fault (log_append (time_prefix t usec) \<lparr>ln_buf = (\<lambda>_. 0), ln_len = 0, ln_ret = 0\<rparr>) (\<lambda>l1.
          bind_fault (c_string (the (sysbus_get_client_name (Some h)))) (\<lambda>name.
          bind_fault (log_append (brackets name) l1) (\<lambda>l2.
          bind_fault (log_append (brackets (level_name level)) l2) (\<lambda>l3.
          bind_fault (case func of None \<Rightarrow> Inr l3 | Some f \<Rightarrow> log_append (brackets f) l3) (\<lambda>l4.
          bind_fault (if lineNum > 0 then log_append (brackets (fmt_d 0 lineNum)) l4 else Inr l4) (\<lambda>l5.
          bind_fault (c_snprintf (ln_buf l5) (ln_len l5) (of_nat SIZEOF_LINE - 1 - word_of_int (ln_ret l5)) txt) (\<lambda>(m, _).
          bind_fault (c_string (mem_get m 0 SIZEOF_LINE)) (\<lambda>line.
          bind_fault (sysbus_msg_send (Some h) SYSBUS_SYS_LOG_ID (Some line) (int (length line)) wr) (\<lambda>(_, sent).
          Inr (0, sent, line))))))))))
      | _ \<Rightarrow> Inr (- 1, [], []))"

section \<open>The service\<close>

definition syslog_level_string :: "u8 \<Rightarrow> u8 list" where
  "syslog_level_string level =
     [bytes_of ''DEBUG'', bytes_of ''INFO'', bytes_of ''WARN'', bytes_of ''ERROR'', bytes_of ''FATAL'']
       ! unat (if level > 4 then 4 else level)"

definition log_path :: "u8 list \<Rightarrow> tm_fields \<Rightarrow> u8 list" where
  "log_path dir t =
     take 255 (dir @ [47] @ fmt_d 0 (1900 + tm_year t) @ [45] @ fmt_d 2 (1 + tm_mon t) @ [45] @ fmt_d 2 (tm_mday t) @
       bytes_of ''.log'')"

definition log_stamp :: "u8 \<Rightarrow> tm_fields \<Rightarrow> u8 list" where
  "log_stamp level t =
     take 255 (fmt_d 0 (1900 + tm_year t) @ [45] @ fmt_d 2 (1 + tm_mon t) @ [45] @ fmt_d 2 (tm_mday t) @ [32] @
       fmt_d 2 (tm_hour t) @ [58] @ fmt_d 2 (tm_min t) @ [58] @ fmt_d 2 (tm_sec t) @ [32] @
       syslog_level_string level @ [32])"

text \<open>
  The callback: what it appends to which file. \<open>opn\<close> is the descriptor \<^verbatim>\<open>open\<close> returns, \<open>wr\<close> the result
  of \<^verbatim>\<open>write\<close> of so many bytes; both texts are cut to the 256 bytes of \<^verbatim>\<open>buf\<close>. The terminator written
  over the last byte of the packet is not part of what is logged. A packet without a block is only
  ever passed with length 0.
\<close>

definition sys_log_pkt_handle :: "u8 list \<Rightarrow> tm_fields \<Rightarrow> int \<Rightarrow> (nat \<Rightarrow> int) \<Rightarrow> u16 \<Rightarrow> u8 list option \<Rightarrow> int \<Rightarrow>
    c_fault + (u8 list \<times> u8 list) list" where
  "sys_log_pkt_handle dir t opn wr pkt_id data data_len =
     (if pkt_id = SYS_LOG_MSG \<and> data_len \<ge> 2
      then (case data of
              None \<Rightarrow> Inl NullDeref
            | Some d \<Rightarrow>
                (if length d < nat data_len then Inl OutOfBounds
                 else if opn < 0 then Inr []
                 else (let d1 = d[nat data_len - 1 := 0];
                           path = log_path dir t;
                           buf = log_stamp (d1 ! 0) t;
                           len = length buf;
                           msg = take (nat data_len - 2) (drop 1 d1)
                       in Inr (if wr len = int len
                               then [(path, buf), (path, take (nat (wr (length msg))) msg)]
                               else [(path, take (nat (wr len)) buf)]))))
      else Inr [])"

definition handle_calls :: "(u16 \<Rightarrow> u8 list option \<Rightarrow> int \<Rightarrow> c_fault + (u8 list \<times> u8 list) list) \<Rightarrow> pkt_call list \<Rightarrow>
    c_fault + (u8 list \<times> u8 list) list" where
  "handle_calls f cs =
     fold (\<lambda>c r. case c of PktProc i d n \<Rightarrow> bind_fault r (\<lambda>ws. bind_fault (f i d n) (\<lambda>w. Inr (ws @ w)))) cs (Inr [])"

text \<open>
  \<^verbatim>\<open>syslog_start\<close>: the arguments after the names are the results of the calls in
  \<^verbatim>\<open>sysbus_connect\<close>, \<open>wr2\<close> that of the \<^verbatim>\<open>write\<close> of the subscription. The result is the handle, the
  clean-up and the bytes written.
\<close>

definition syslog_start :: "u8 list \<Rightarrow> 'cb \<Rightarrow> bool \<Rightarrow> int \<Rightarrow> int \<Rightarrow> int \<Rightarrow> (int \<Rightarrow> int) \<Rightarrow> (int \<Rightarrow> int) \<Rightarrow>
    c_fault + ('cb sysbus_handle option \<times> sb_action list \<times> u8 list)" where
  "syslog_start sysbus_file cb alloc sock conn thr wr wr2 =
     bind_fault (sysbus_connect sysbus_file (bytes_of ''syslog'') (Some cb) alloc sock conn thr wr) (\<lambda>(sysbus, acts, sent).
       (case sysbus of
          None \<Rightarrow> Inr (None, acts, sent)
        | Some h \<Rightarrow>
            bind_fault (sysbus_msg_subscribe (Some h) (Some [SYS_LOG_MSG]) 1 wr2) (\<lambda>(ret, sent2).
              Inr (if ret \<noteq> 1 then (None, acts @ snd (sysbus_disconnect (Some h) False), sent @ sent2)
                   else (Some h, acts, sent @ sent2)))))"

section \<open>The line\<close>

text \<open>What precedes the caller's text on a line.\<close>

definition log_prefix :: "u8 list \<Rightarrow> int \<Rightarrow> u8 list option \<Rightarrow> int \<Rightarrow> tm_fields \<Rightarrow> int \<Rightarrow> u8 list" where
  "log_prefix name level func lineNum t usec =
     time_prefix t usec @ brackets name @ brackets (level_name level) @
     (case func of None \<Rightarrow> [] | Some f \<Rightarrow> brackets f) @ (if lineNum > 0 then brackets (fmt_d 0 lineNum) else [])"

text \<open>The buffer holds the bytes \<open>bs\<close>, and the last part added is at least two bytes shorter.\<close>

definition line_holds :: "log_line \<Rightarrow> u8 list \<Rightarrow> bool" where
  "line_holds l bs \<longleftrightarrow> ln_len l = int (length bs) \<and> length bs \<le> 1599 \<and> mem_get (ln_buf l) 0 (length bs) = bs"

definition last_part_ok :: "log_line \<Rightarrow> bool" where
  "last_part_ok l \<longleftrightarrow> 0 \<le> ln_ret l \<and> ln_ret l + 2 \<le> ln_len l"

lemma room_word:
  assumes "n \<le> 1600"
  shows "unat (of_nat SIZEOF_LINE - 1 - word_of_int (int n) :: u64) = 1600 - n"
proof -
  have "unat (of_nat n :: u64) = n" using assms by (simp add: unat_of_nat)
  moreover have "of_nat SIZEOF_LINE - 1 = (1600 :: u64)" by simp
  ultimately show ?thesis using assms unat_sub_le [of "of_nat n" "1600 :: u64"]
    by (simp del: of_nat_numeral)
qed

lemma mem_get_put_front:
  "mem_get (mem_put m n (cs @ [z])) 0 (n + length cs) = mem_get m 0 n @ cs"
  by (auto intro!: nth_equalityI simp: nth_append mem_put_def)

lemma log_append_holds:
  assumes "line_holds l bs" "length bs + length cs \<le> 1599"
  shows "\<exists>l'. log_append cs l = Inr l' \<and> line_holds l' (bs @ cs) \<and> (2 \<le> length bs \<longrightarrow> last_part_ok l')"
proof -
  define n where "n = (of_nat SIZEOF_LINE - 1 - word_of_int (ln_len l) :: u64)"
  have l: "ln_len l = int (length bs)" "mem_get (ln_buf l) 0 (length bs) = bs"
    using assms(1) by (simp_all add: line_holds_def)
  have n: "unat n = 1600 - length bs" unfolding n_def l(1) using assms(2) by (intro room_word) simp
  then have "n \<noteq> 0" using assms(2) by auto
  then have "c_snprintf (ln_buf l) (ln_len l) n cs = Inr (mem_put (ln_buf l) (length bs) (cs @ [0]), int (length cs))"
    using assms(2) n l(1) by (simp add: c_snprintf_def)
  then have "log_append cs l = Inr \<lparr>ln_buf = mem_put (ln_buf l) (length bs) (cs @ [0]),
      ln_len = int (length bs) + int (length cs), ln_ret = int (length cs)\<rparr>"
    unfolding n_def by (simp add: log_append_def l(1))
  then show ?thesis using assms mem_get_put_front [of "ln_buf l" "length bs" cs 0] l(2) by (simp add: line_holds_def last_part_ok_def)
qed

lemma log_append_opt:
  assumes "line_holds l bs" "last_part_ok l" "2 \<le> length bs" "length bs + length cs \<le> 1599" "\<not> b \<Longrightarrow> cs = []"
  shows "\<exists>l'. (if b then log_append cs l else Inr l) = Inr l' \<and> line_holds l' (bs @ cs) \<and> last_part_ok l'"
  using assms log_append_holds [OF assms(1,4)] by (cases b) auto

section \<open>No part holds a terminator\<close>

lemma fmt_d_nonzero [simp]: "0 \<notin> set (fmt_d w z)"
  using dec_digits_nonzero by (auto simp: fmt_d_def Let_def)

lemma brackets_simps [simp]: "0 \<in> set (brackets bs) \<longleftrightarrow> 0 \<in> set bs" "length (brackets bs) = length bs + 2"
  by (auto simp: brackets_def)

lemma level_name_nonzero [simp]: "0 \<notin> set (level_name level)"
  by (simp add: level_name_def bytes_of_def)

lemma time_prefix_props [simp]: "0 \<notin> set (time_prefix t usec)" "2 \<le> length (time_prefix t usec)"
  unfolding time_prefix_def by simp_all

lemma c_string_nonzero: "c_string bs = Inr s \<Longrightarrow> 0 \<notin> set s"
  by (auto simp: c_string_def c_strlen_def Let_def takeWhile_eq_take [symmetric] dest: set_takeWhileD
      split: if_splits)

lemma c_string_terminated:
  assumes "mem_get m 0 n = bs" "0 \<notin> set bs" "m n = 0" "n < k"
  shows "c_string (mem_get m 0 k) = Inr bs"
proof -
  have "mem_get m 0 k = bs @ 0 # mem_get m (Suc n) (k - Suc n)"
    using mem_get_split [of n k m 0] mem_get_Suc [of m n "k - Suc n"] assms by (simp add: Suc_diff_Suc)
  moreover have "length bs = n" using assms(1) by auto
  moreover have "takeWhile (\<lambda>b. b \<noteq> 0) (bs @ 0 # r) = bs" for r
    using assms(2) by (subst takeWhile_append2) auto
  ultimately show ?thesis using assms(4) by (simp add: c_string_def c_strlen_def Let_def)
qed

section \<open>Properties\<close>

lemma log_prefix_built:
  assumes "length (log_prefix name level func lineNum t usec) \<le> 1599"
  shows "\<exists>l1 l2 l3 l4 l5.
    log_append (time_prefix t usec) \<lparr>ln_buf = (\<lambda>_. 0), ln_len = 0, ln_ret = 0\<rparr> = Inr l1 \<and>
    log_append (brackets name) l1 = Inr l2 \<and> log_append (brackets (level_name level)) l2 = Inr l3 \<and>
    (case func of None \<Rightarrow> Inr l3 | Some f \<Rightarrow> log_append (brackets f) l3) = Inr l4 \<and>
    (if lineNum > 0 then log_append (brackets (fmt_d 0 lineNum)) l4 else Inr l4) = Inr l5 \<and>
    line_holds l5 (log_prefix name level func lineNum t usec) \<and> last_part_ok l5"
proof -
  let ?func = "case func of None \<Rightarrow> [] | Some f \<Rightarrow> brackets f"
  let ?line = "if lineNum > 0 then brackets (fmt_d 0 lineNum) else []"
  let ?b1 = "time_prefix t usec" let ?b2 = "?b1 @ brackets name" let ?b3 = "?b2 @ brackets (level_name level)"
  let ?b4 = "?b3 @ ?func"
  have p: "log_prefix name level func lineNum t usec = ?b4 @ ?line" by (simp add: log_prefix_def)
  have len: "length (?b4 @ ?line) \<le> 1599" using assms unfolding p .
  have l0: "line_holds \<lparr>ln_buf = (\<lambda>_. 0), ln_len = 0, ln_ret = 0\<rparr> []" by (simp add: line_holds_def)
  obtain l1 where l1: "log_append ?b1 \<lparr>ln_buf = (\<lambda>_. 0), ln_len = 0, ln_ret = 0\<rparr> = Inr l1" "line_holds l1 ?b1"
    using log_append_holds [OF l0, of ?b1] len by auto
  obtain l2 where l2: "log_append (brackets name) l1 = Inr l2" "line_holds l2 ?b2"
    using log_append_holds [OF l1(2), of "brackets name"] len by auto
  obtain l3 where l3: "log_append (brackets (level_name level)) l2 = Inr l3" "line_holds l3 ?b3" "last_part_ok l3"
    using log_append_holds [OF l2(2), of "brackets (level_name level)"] len by auto
  obtain l4 where l4: "(if func \<noteq> None then log_append ?func l3 else Inr l3) = Inr l4" "line_holds l4 ?b4" "last_part_ok l4"
    using log_append_opt [OF l3(2,3), of ?func "func \<noteq> None"] len by (auto split: option.splits)
  obtain l5 where l5: "(if lineNum > 0 then log_append ?line l4 else Inr l4) = Inr l5" "line_holds l5 (?b4 @ ?line)"
    "last_part_ok l5"
    using log_append_opt [OF l4(2,3), of ?line "lineNum > 0"] len by auto
  have "(case func of None \<Rightarrow> Inr l3 | Some f \<Rightarrow> log_append (brackets f) l3) = Inr l4"
    using l4(1) by (auto split: option.splits)
  moreover have "(if lineNum > 0 then log_append (brackets (fmt_d 0 lineNum)) l4 else Inr l4) = Inr l5"
    using l5(1) by (auto split: if_splits)
  ultimately show ?thesis unfolding p using l1(1) l2(1) l3(1) l5(2,3) by blast
qed

text \<open>The last \<^verbatim>\<open>vsnprintf\<close>: its size argument never cuts the text off before the end of the buffer.\<close>

lemma log_text:
  assumes "line_holds l bs" "last_part_ok l"
  shows "c_snprintf (ln_buf l) (ln_len l) (of_nat SIZEOF_LINE - 1 - word_of_int (ln_ret l)) txt =
    (if length bs + length txt \<le> 1600 then Inr (mem_put (ln_buf l) (length bs) (txt @ [0]), int (length txt))
     else Inl OutOfBounds)"
proof -
  define n where "n = (of_nat SIZEOF_LINE - 1 - word_of_int (ln_ret l) :: u64)"
  obtain r where r: "ln_ret l = int r" using assms(2) by (metis last_part_ok_def nonneg_eq_int)
  have l: "ln_len l = int (length bs)" "length bs \<le> 1599" "r + 2 \<le> length bs"
    using assms by (simp_all add: line_holds_def last_part_ok_def r)
  have n: "unat n = 1600 - r" unfolding n_def r using l(2,3) by (intro room_word) simp
  then have "n \<noteq> 0" using l(2,3) by auto
  then show ?thesis unfolding n_def [symmetric] using l n by (auto simp: c_snprintf_def min_def)
qed

text \<open>
  A call of \<^verbatim>\<open>syslog_write\<close> with a prefix of at most 1599 bytes (time, client, level, function and
  line) returns, sends one frame with the prefix and the text of the caller, and prints the same line,
  as long as both together fill at most 1600 bytes. With any longer text it writes past the end of its
  buffer: the size handed to \<^verbatim>\<open>vsnprintf\<close> never cuts the text off.
\<close>

theorem trace_dump_spec:
  assumes "sb_fd h \<ge> 0" "c_string (drop 2 (client_name h)) = Inr name"
    and "\<forall>f \<in> set_option func. 0 \<notin> set f" "0 \<notin> set txt"
    and "length (log_prefix name level func lineNum t usec) \<le> 1599"
  shows "vcar_sys_trace_dump_api (Some h) level func lineNum (Some txt) t usec wr =
    (if length (log_prefix name level func lineNum t usec) + length txt \<le> 1600
     then Inr (0, frame SYSBUS_SYS_LOG_ID (log_prefix name level func lineNum t usec @ txt),
               log_prefix name level func lineNum t usec @ txt)
     else Inl OutOfBounds)"
proof -
  let ?p = "log_prefix name level func lineNum t usec"
  obtain l1 l2 l3 l4 l5 where l: "log_append (time_prefix t usec) \<lparr>ln_buf = (\<lambda>_. 0), ln_len = 0, ln_ret = 0\<rparr> = Inr l1"
    "log_append (brackets name) l1 = Inr l2" "log_append (brackets (level_name level)) l2 = Inr l3"
    "(case func of None \<Rightarrow> Inr l3 | Some f \<Rightarrow> log_append (brackets f) l3) = Inr l4"
    "(if lineNum > 0 then log_append (brackets (fmt_d 0 lineNum)) l4 else Inr l4) = Inr l5"
    and l5: "line_holds l5 ?p" "last_part_ok l5"
    using log_prefix_built [OF assms(5)] by blast
  have name: "c_string (the (sysbus_get_client_name (Some h))) = Inr name"
    using assms(2) by (simp add: sysbus_get_client_name_def)
  note chain = vcar_sys_trace_dump_api_def option.case prod.case l name bind_fault_simps log_text [OF l5]
  show ?thesis
  proof (cases "length ?p + length txt \<le> 1600")
    case True
    let ?m = "mem_put (ln_buf l5) (length ?p) (txt @ [0])"
    have "0 \<notin> set ?p" using assms(3) c_string_nonzero [OF assms(2)] by (auto simp: log_prefix_def split: option.splits)
    moreover have "mem_get ?m 0 (length ?p + length txt) = ?p @ txt"
      using mem_get_put_front l5(1) by (simp add: line_holds_def)
    moreover have "?m (length ?p + length txt) = 0" by (simp add: mem_put_def)
    moreover have "length ?p + length txt < SIZEOF_LINE" using True by linarith
    ultimately have "c_string (mem_get ?m 0 SIZEOF_LINE) = Inr (?p @ txt)"
      using assms(4) by (intro c_string_terminated) simp_all
    moreover have "sysbus_msg_send (Some h) SYSBUS_SYS_LOG_ID (Some (?p @ txt)) (int (length (?p @ txt))) wr =
        Inr (if wr (int (length (?p @ txt)) + 4) > 4 then wr (int (length (?p @ txt)) + 4) - 4 else 0,
          frame SYSBUS_SYS_LOG_ID (?p @ txt))"
      using True by (intro sysbus_msg_send_frame assms(1)) (simp add: payload_ok_def)
    ultimately show ?thesis unfolding chain using True by simp
  next
    case False
    then show ?thesis unfolding chain by simp
  qed
qed

definition demo_client :: "unit sysbus_handle" where
  "demo_client = demo_handle\<lparr>client_name := [0, 0, 97, 0]\<rparr>"

definition demo_tm :: tm_fields where
  "demo_tm = \<lparr>tm_year = 121, tm_mon = 4, tm_mday = 9, tm_hour = 10, tm_min = 11, tm_sec = 12\<rparr>"

lemma demo_prefix: "length (log_prefix [97] 3 (Some [102]) 7 demo_tm 15) = 44"
  by (simp add: log_prefix_def time_prefix_def fmt_d_def dec_digits.simps demo_tm_def level_name_def bytes_of_def Let_def)

theorem trace_dump_spec_witness:
  "vcar_sys_trace_dump_api (Some demo_client) 3 (Some [102]) 7 (Some (replicate 1556 1)) demo_tm 15 (\<lambda>n. n) =
     Inr (0, frame SYSBUS_SYS_LOG_ID (log_prefix [97] 3 (Some [102]) 7 demo_tm 15 @ replicate 1556 1),
       log_prefix [97] 3 (Some [102]) 7 demo_tm 15 @ replicate 1556 1) \<and>
   vcar_sys_trace_dump_api (Some demo_client) 3 (Some [102]) 7 (Some (replicate 1557 1)) demo_tm 15 (\<lambda>n. n) = Inl OutOfBounds"
proof -
  have "sb_fd demo_client \<ge> 0" "c_string (drop 2 (client_name demo_client)) = Inr [97]"
    by (simp_all add: demo_client_def demo_handle_def c_string_def c_strlen_def Let_def)
  then show ?thesis
    using trace_dump_spec [of demo_client "[97]" "Some [102]" "replicate 1556 1" 3 7 demo_tm 15 "\<lambda>n. n"]
      trace_dump_spec [of demo_client "[97]" "Some [102]" "replicate 1557 1" 3 7 demo_tm 15 "\<lambda>n. n"]
    unfolding demo_prefix length_replicate by simp
qed

text \<open>What the service appends for one packet.\<close>

definition logged :: "u8 list \<Rightarrow> tm_fields \<Rightarrow> u16 \<times> u8 list \<Rightarrow> (u8 list \<times> u8 list) list" where
  "logged dir t p =
     (if fst p = SYS_LOG_MSG \<and> 2 \<le> length (snd p)
      then [(log_path dir t, log_stamp (hd (snd p)) t), (log_path dir t, butlast (tl (snd p)))] else [])"

lemma take_drop_middle: "2 \<le> length d \<Longrightarrow> take (length d - 2) (drop 1 (d[length d - 1 := z])) = butlast (tl d)"
  by (auto intro!: nth_equalityI simp: nth_butlast nth_tl)

lemma nth_update_last: "2 \<le> length d \<Longrightarrow> d[length d - 1 := z] ! 0 = hd d"
  by (cases d) (auto split: nat.splits)

lemma sys_log_pkt_logged:
  assumes "opn \<ge> 0"
  shows "sys_log_pkt_handle dir t opn int i (Some d) (int (length d)) = Inr (logged dir t (i, d))"
  using assms take_drop_middle [of d 0] nth_update_last [of d 0]
  by (auto simp: sys_log_pkt_handle_def logged_def Let_def)

lemma handle_calls_Nil: "handle_calls f [] = Inr []"
  by (simp add: handle_calls_def)

lemma handle_calls_snoc:
  "handle_calls f (cs @ [PktProc i d n]) = bind_fault (handle_calls f cs) (\<lambda>ws. bind_fault (f i d n) (\<lambda>w. Inr (ws @ w)))"
  by (simp add: handle_calls_def)

lemma handle_calls_logged:
  assumes "opn \<ge> 0"
  shows "handle_calls (sys_log_pkt_handle dir t opn int) (map (\<lambda>(i, d). PktProc i (Some d) (int (length d))) ps) =
    Inr (concat (map (logged dir t) ps))"
proof (induction ps rule: rev_induct)
  case (snoc p ps)
  then show ?case using sys_log_pkt_logged [OF assms] by (cases p) (simp add: handle_calls_snoc)
qed (simp add: handle_calls_Nil)

text \<open>
  The log service, fed by its receive thread however the stream is cut into reads, appends for each
  packet with the id \<^verbatim>\<open>SYS_LOG_MSG\<close> and at least two bytes a stamp with the level its first byte names
  and the text up to its last byte, to the file of the day, in order; for every other packet it appends
  nothing. In particular it appends nothing for the lines \<^verbatim>\<open>syslog_write\<close> sends, which carry
  the id \<^verbatim>\<open>SYSBUS_SYS_LOG_ID\<close>.
\<close>

theorem sys_log_service:
  assumes "pkt_proc_fn h \<noteq> None" "\<forall>p \<in> set ps. payload_ok (snd p)" "opn \<ge> 0"
    and "concat chunks = concat (map (\<lambda>(i, d). frame i d) ps)" "\<forall>c \<in> set chunks. c \<noteq> []"
    and "rx_fits (rx_read True) rx_room \<lparr>rx_buff = m, rx_total_size = 0\<rparr> chunks"
  shows "handle_calls (sys_log_pkt_handle dir t opn int) (sysbus_rx_thread (Some h) m chunks) =
      Inr (concat (map (logged dir t) ps)) \<and>
    concat (map (logged dir t) (filter (\<lambda>p. fst p = SYSBUS_SYS_LOG_ID) ps)) = []"
proof
  have z: "sys_log_pkt_handle dir t opn int 0 None 0 = Inr []" by (simp add: sys_log_pkt_handle_def)
  show "handle_calls (sys_log_pkt_handle dir t opn int) (sysbus_rx_thread (Some h) m chunks) =
      Inr (concat (map (logged dir t) ps))"
    unfolding rx_thread_calls [OF assms(1,2,4-6)] handle_calls_snoc handle_calls_logged [OF assms(3)] z by simp
  show "concat (map (logged dir t) (filter (\<lambda>p. fst p = SYSBUS_SYS_LOG_ID) ps)) = []"
    by (auto simp: logged_def SYSBUS_SYS_LOG_ID_def SYS_LOG_MSG_def)
qed

theorem sys_log_service_witness:
  "handle_calls (sys_log_pkt_handle [47] demo_tm 3 int) (sysbus_rx_thread (Some demo_handle) (\<lambda>_. 0) [[5, 0, 1], [0, 3, 65, 0]]) =
     Inr [(log_path [47] demo_tm, log_stamp 3 demo_tm), (log_path [47] demo_tm, [65])]"
proof -
  have f: "frame 1 [3, 65, 0] = [5, 0, 1, 0, 3, 65, 0]" by (simp add: frame_def lo8_def hi8_def)
  have "rx_fits (rx_read True) rx_room \<lparr>rx_buff = \<lambda>_. 0, rx_total_size = 0\<rparr> [[5, 0, 1], [0, 3, 65, 0]]"
    by (simp add: rx_room_def rx_read_def Let_def rx_parse.simps)
  then show ?thesis
    using sys_log_service [of demo_handle "[(1, [3, 65, 0])]" 3 "[[5, 0, 1], [0, 3, 65, 0]]" "\<lambda>_. 0" "[47]" demo_tm]
    by (simp add: demo_handle_def payload_ok_def f logged_def SYS_LOG_MSG_def)
qed

text \<open>Starting the service announces the client \<^verbatim>\<open>syslog\<close> and subscribes to one id, or cleans up.\<close>

lemma syslog_start_sent:
  fixes cb :: 'cb
  assumes "length sysbus_file < 108" "sock \<ge> 0" "conn \<ge> 0"
  shows "\<exists>h. syslog_start sysbus_file cb True sock conn 0 (\<lambda>n. n) (\<lambda>n. n) =
    Inr (Some h, [], frame 0 ([0, 0] @ bytes_of ''syslog'' @ [0]) @ frame 0 ([1, 0] @ [lo8 SYS_LOG_MSG, hi8 SYS_LOG_MSG]))"
proof -
  have n: "0 \<notin> set (bytes_of ''syslog'')" "length (bytes_of ''syslog'') < 254" by (simp_all add: bytes_of_def)
  have "sysbus_msg_subscribe (Some h) (Some [SYS_LOG_MSG]) 1 (\<lambda>n. n) =
      Inr (1, frame 0 ([1, 0] @ [lo8 SYS_LOG_MSG, hi8 SYS_LOG_MSG]))" if "sb_fd h \<ge> 0" for h :: "'cb sysbus_handle"
    using sysbus_control_frame [OF that, of "[SYS_LOG_MSG]" 1 "\<lambda>n. n"] by (simp add: sysbus_msg_subscribe_def c_div2_def)
  then show ?thesis
    using assms(2) by (simp add: syslog_start_def sysbus_connect_sends [OF assms(1) n assms(2,3)])
qed

end
