(* ===== verification/RingQueue.thy ===== *)
theory RingQueue
  imports Prelude
begin

text \<open>
  The variable-length ring queue of \<^verbatim>\<open>apps/vcar_sys_ringqueue/vcar_sys_ringqueue.c\<close>: a ring of item
  descriptors over one data block, written by a producer and read by several consumers, each of
  which owns a bit of the 32-bit mask of an item. An item may be dropped only when every mask bit
  has been cleared. Item pointers are numbers: 0 is the null pointer and \<open>i + 1\<close> is
  \<^verbatim>\<open>&pQueue->start[i]\<close>; \<^verbatim>\<open>char *\<close> values into the block are offsets from \<^verbatim>\<open>memStart\<close>. The operations
  are those of one thread between its lock and unlock calls; every path of the code releases the
  locks it takes.

  After the definitions, the theory gives the layout invariant of the block, shows that writing
  implements a bounded queue of messages (dropping only consumed ones) for messages of at most half
  the block, that reading and searching return what was written, and that a longer message can make
  the writer loop for ever.
\<close>

section \<open>The structures\<close>

definition VCAR_SYS_RQ_MAX_HEADER_LEN :: int where "VCAR_SYS_RQ_MAX_HEADER_LEN = 128"
definition VCAR_SYS_RQ_OK :: int where "VCAR_SYS_RQ_OK = 0"
definition VCAR_SYS_RQ_ERR_INPUT :: int where "VCAR_SYS_RQ_ERR_INPUT = -1"
definition VCAR_SYS_RQ_ERR_FULL :: int where "VCAR_SYS_RQ_ERR_FULL = -2"
definition VCAR_SYS_RQ_ERR_AGAIN :: int where "VCAR_SYS_RQ_ERR_AGAIN = -3"
definition VCAR_SYS_RQ_ERR_INVALID :: int where "VCAR_SYS_RQ_ERR_INVALID = -4"

lemmas rq_codes = VCAR_SYS_RQ_OK_def VCAR_SYS_RQ_ERR_INPUT_def VCAR_SYS_RQ_ERR_FULL_def
  VCAR_SYS_RQ_ERR_AGAIN_def VCAR_SYS_RQ_ERR_INVALID_def

record rq_item =
  it_mask :: u32
  it_valid :: bool
  it_header :: mem
  it_headerLen :: int
  it_dataLen :: int
  it_data :: "int option"
  it_next :: nat
  it_prev :: nat

record rq =
  userMask :: u32
  initMask :: u32
  memStart :: bool          \<comment> \<open>whether the pointer is not null; offsets count from it\<close>
  memEnd :: int
  wrPos :: int
  wrEnd :: int
  block :: mem              \<comment> \<open>the bytes \<^verbatim>\<open>memStart\<close> points to\<close>
  queueSize :: nat
  start :: bool             \<comment> \<open>whether the pointer is not null\<close>
  items :: "nat \<Rightarrow> rq_item"  \<comment> \<open>the array \<^verbatim>\<open>start\<close> points to, by item pointer\<close>
  head :: nat
  tail :: nat

text \<open>A member access through an item pointer.\<close>

definition rq_at :: "rq \<Rightarrow> nat \<Rightarrow> c_fault + rq_item" where
  "rq_at q p = (if p = 0 then Inl NullDeref else if p \<le> queueSize q then Inr (items q p) else Inl OutOfBounds)"

definition rq_put :: "rq \<Rightarrow> nat \<Rightarrow> rq_item \<Rightarrow> rq" where
  "rq_put q p it = q\<lparr>items := (items q)(p := it)\<rparr>"

section \<open>Creation and destruction\<close>

text \<open>
  \<^verbatim>\<open>VCAR_SYS_RWLockInit\<close> with the results of the three \<^verbatim>\<open>pthread\<close> calls; it returns 0 or -1, and
  whether an attribute object was destroyed again.
\<close>

definition VCAR_SYS_RWLockInit :: "bool \<Rightarrow> bool \<Rightarrow> int \<Rightarrow> int \<Rightarrow> int \<times> bool" where
  "VCAR_SYS_RWLockInit rwlock attr attr_init lock_init =
     (if \<not> rwlock then (-1, False)
      else if attr \<and> attr_init \<noteq> 0 then (-1, False)
      else if lock_init \<noteq> 0 then (-1, attr)
      else (0, False))"

datatype rq_release =
    LockDestroyed nat   \<comment> \<open>the lock of an item\<close>
  | QueueLockDestroyed
  | ItemsFreed
  | MemFreed
  | QueueFreed

definition VCAR_SYS_RWLockDestroy :: "bool \<Rightarrow> rq_release \<Rightarrow> rq_release list" where
  "VCAR_SYS_RWLockDestroy rwlock r = (if rwlock then [r] else [])"

definition VCAR_SYS_RingQueueDestroy :: "rq \<Rightarrow> int \<times> rq_release list" where
  "VCAR_SYS_RingQueueDestroy q =
     (VCAR_SYS_RQ_OK,
      (if start q
       then concat (map (\<lambda>i. VCAR_SYS_RWLockDestroy True (LockDestroyed (i + 1))) [0..<queueSize q]) @ [ItemsFreed]
       else []) @
      (if memStart q then [MemFreed] else []) @
      VCAR_SYS_RWLockDestroy True QueueLockDestroyed @ [QueueFreed])"

text \<open>
  \<^verbatim>\<open>VCAR_SYS_RingQueueClean\<close> casts \<^verbatim>\<open>&queue\<close>, the address of its own 8-byte argument. The body is
  given on the object the cast pointer designates: on a queue it resets the ring; on the argument
  slot its first member access is out of bounds.
\<close>

datatype rq_object = QueueObject rq | Int64Slot int

fun rq_invalidate :: "nat \<Rightarrow> nat \<Rightarrow> (nat \<Rightarrow> rq_item) \<Rightarrow> nat \<Rightarrow> rq_item" where
  "rq_invalidate p 0 its = its"
| "rq_invalidate p (Suc k) its = rq_invalidate (p + 1) k (its(p := (its p)\<lparr>it_valid := False\<rparr>))"

definition rq_clean_object :: "rq_object \<Rightarrow> c_fault + (int \<times> rq_object)" where
  "rq_clean_object ob =
     (case ob of
        Int64Slot _ \<Rightarrow> Inl OutOfBounds
      | QueueObject q \<Rightarrow>
          let q1 = q\<lparr>wrPos := 0, wrEnd := memEnd q, head := 1, tail := 1, userMask := initMask q\<rparr>
          in bind_fault (rq_at q1 (head q1)) (\<lambda>it.
             let q2 = rq_put q1 (head q1) (it\<lparr>it_valid := False\<rparr>)
             in Inr (0, QueueObject (q2\<lparr>items := rq_invalidate 1 (queueSize q2) (items q2)\<rparr>))))"

definition VCAR_SYS_RingQueueClean :: "int \<Rightarrow> c_fault + (int \<times> rq_object)" where
  "VCAR_SYS_RingQueueClean queue = rq_clean_object (Int64Slot queue)"

text \<open>What the three \<^verbatim>\<open>malloc\<close> calls and the lock initialisations of \<^verbatim>\<open>VCAR_SYS_RingQueueCreat\<close> yield.\<close>

record rq_env =
  env_queue :: bool            \<comment> \<open>the queue block was allocated\<close>
  env_mem :: "mem option"      \<comment> \<open>the data block and what it holds, or null\<close>
  env_items :: bool            \<comment> \<open>the item array was allocated\<close>
  env_attr :: "nat \<Rightarrow> int"     \<comment> \<open>\<^verbatim>\<open>pthread_rwlockattr_init\<close> on an item\<close>
  env_lock :: "nat \<Rightarrow> int"     \<comment> \<open>\<^verbatim>\<open>pthread_rwlock_init\<close> on the lock of an item\<close>

definition zero_item :: rq_item where
  "zero_item = \<lparr>it_mask = 0, it_valid = False, it_header = (\<lambda>_. 0), it_headerLen = 0, it_dataLen = 0,
     it_data = None, it_next = 0, it_prev = 0\<rparr>"

definition zero_queue :: rq where
  "zero_queue = \<lparr>userMask = 0, initMask = 0, memStart = False, memEnd = 0, wrPos = 0, wrEnd = 0,
     block = (\<lambda>_. 0), queueSize = 0, start = False, items = (\<lambda>_. zero_item), head = 0, tail = 0\<rparr>"

text \<open>
  The loop that links the inner items: at index \<open>i\<close>, on the item pointed to by \<open>pItem\<close>, until the
  last index is reached. It yields the pointer reached, or nothing when a lock fails.
\<close>

function rq_link_loop :: "rq_env \<Rightarrow> nat \<Rightarrow> nat \<Rightarrow> nat \<Rightarrow> (nat \<Rightarrow> rq_item) \<Rightarrow>
    bool \<times> nat \<times> (nat \<Rightarrow> rq_item)" where
  "rq_link_loop e n i pItem its =
     (if i < n - 1
      then (let its' = its(pItem := (its pItem)\<lparr>it_prev := i, it_next := i + 2\<rparr>) in
            if fst (VCAR_SYS_RWLockInit True True (env_attr e pItem) (env_lock e pItem)) \<noteq> 0 then (False, pItem, its')
            else rq_link_loop e n (i + 1) (it_next (its' pItem)) its')
      else (True, pItem, its))"
  by pat_completeness auto

termination by (relation "measure (\<lambda>(e, n, i, p, its). n - i)") auto

declare rq_link_loop.simps [simp del]

definition VCAR_SYS_RingQueueCreat :: "rq_env \<Rightarrow> int \<Rightarrow> int \<Rightarrow> u32 \<Rightarrow>
    c_fault + (rq option \<times> rq_release list)" where
  "VCAR_SYS_RingQueueCreat e memSize queue_size msk =
     (if memSize \<le> 0 \<or> queue_size \<le> 1
      then (if env_queue e then Inl Uninitialised else Inr (None, []))
      else if \<not> env_queue e then Inr (None, [])
      else (case env_mem e of
          None \<Rightarrow> Inr (None, snd (VCAR_SYS_RingQueueDestroy zero_queue))
        | Some m \<Rightarrow>
            (let q1 = zero_queue\<lparr>memStart := True, block := m\<rparr> in
             if \<not> env_items e then Inr (None, snd (VCAR_SYS_RingQueueDestroy q1))
             else
              (let n = nat queue_size;
                   q2 = q1\<lparr>start := True, memEnd := memSize, wrPos := 0, wrEnd := memSize, queueSize := n\<rparr>;
                   q3 = (if msk \<noteq> 0 then q2\<lparr>userMask := msk, initMask := msk\<rparr> else q2);
                   its = (items q3)(1 := (items q3 1)\<lparr>it_prev := n, it_next := 2\<rparr>)
               in (case rq_link_loop e n 1 2 its of
                     (False, p, its') \<Rightarrow> Inr (None, snd (VCAR_SYS_RingQueueDestroy (q3\<lparr>items := its'\<rparr>)))
                   | (True, p, its') \<Rightarrow>
                       Inr (Some (q3\<lparr>items := its'(p := (its' p)\<lparr>it_prev := n - 1, it_next := 1\<rparr>),
                                     head := 1, tail := 1\<rparr>), []))))))"

section \<open>Writing\<close>

definition setItemTail :: "rq \<Rightarrow> u8 list \<Rightarrow> int \<Rightarrow> u8 list option \<Rightarrow> int \<Rightarrow> c_fault + rq" where
  "setItemTail q data dataLen header headerLen =
     bind_fault (rq_at q (tail q)) (\<lambda>it.
     if dataLen < 0 \<or> int (length data) < dataLen \<or> wrPos q < 0 \<or> memEnd q < wrPos q + dataLen
     then Inl OutOfBounds
     else
      (let it1 = it\<lparr>it_data := Some (wrPos q), it_dataLen := dataLen, it_mask := userMask q\<rparr>;
           q1 = q\<lparr>block := mem_put (block q) (nat (wrPos q)) (take (nat dataLen) data)\<rparr>
       in bind_fault
            (case header of
               Some h \<Rightarrow>
                 if headerLen > 0
                 then (if VCAR_SYS_RQ_MAX_HEADER_LEN < headerLen \<or> int (length h) < headerLen then Inl OutOfBounds
                       else Inr (it1\<lparr>it_header := mem_put (it_header it1) 0 (take (nat headerLen) h),
                                     it_headerLen := headerLen\<rparr>))
                 else Inr (it1\<lparr>it_headerLen := 0\<rparr>)
             | None \<Rightarrow> Inr (it1\<lparr>it_headerLen := 0\<rparr>))
            (\<lambda>it2. Inr ((rq_put q1 (tail q) (it2\<lparr>it_valid := True\<rparr>))
                        \<lparr>tail := it_next it2, wrPos := wrPos q + dataLen\<rparr>))))"

definition isItemHeaderClean :: "rq \<Rightarrow> c_fault + bool" where
  "isItemHeaderClean q = bind_fault (rq_at q (head q)) (\<lambda>it. Inr (it_mask it = 0))"

definition moveItemHeader :: "rq \<Rightarrow> c_fault + rq" where
  "moveItemHeader q =
     bind_fault (rq_at q (head q)) (\<lambda>it.
     Inr ((rq_put q (head q) (it\<lparr>it_valid := False\<rparr>))\<lparr>head := it_next it\<rparr>))"

text \<open>
  The two places where the write loop drops the oldest item: the boolean says whether the loop goes
  on (otherwise it returns \<^verbatim>\<open>VCAR_SYS_RQ_ERR_FULL\<close>). First, the ring of descriptors is full.
\<close>

definition rq_check_full :: "rq \<Rightarrow> c_fault + (bool \<times> rq)" where
  "rq_check_full q =
     bind_fault (rq_at q (tail q)) (\<lambda>it.
     if it_next it = head q
     then bind_fault (isItemHeaderClean q) (\<lambda>clean.
          if \<not> clean then Inr (False, q)
          else bind_fault (moveItemHeader q) (\<lambda>q'. Inr (True, q')))
     else Inr (True, q))"

text \<open>
  Then, the message does not fit. The new \<^verbatim>\<open>wrEnd\<close> is computed from the data pointer of the oldest
  item; a pointer computed from null is a fault. Every pointer into the block is above null.
\<close>

definition rq_drop_for_room :: "rq \<Rightarrow> c_fault + (bool \<times> rq)" where
  "rq_drop_for_room q =
     bind_fault (isItemHeaderClean q) (\<lambda>clean.
     if \<not> clean then Inr (False, q)
     else bind_fault (rq_at q (head q)) (\<lambda>it.
          case it_data it of
            None \<Rightarrow> Inl NullDeref
          | Some d \<Rightarrow> bind_fault (moveItemHeader (q\<lparr>wrEnd := d + it_dataLen it\<rparr>)) (\<lambda>q'. Inr (True, q'))))"

definition rq_make_room :: "rq \<Rightarrow> c_fault + (bool \<times> rq)" where
  "rq_make_room q =
     bind_fault (rq_at q (head q)) (\<lambda>it.
     if (case it_data it of None \<Rightarrow> True | Some d \<Rightarrow> wrPos q > d)
     then (if wrEnd q \<noteq> memEnd q then Inr (True, q\<lparr>wrEnd := memEnd q\<rparr>)
           else bind_fault (rq_drop_for_room q) (\<lambda>(go, q').
                Inr (go, if go then q'\<lparr>wrPos := 0\<rparr> else q')))
     else rq_drop_for_room q)"

partial_function (option) rq_write_loop :: "u8 list \<Rightarrow> int \<Rightarrow> u8 list option \<Rightarrow> int \<Rightarrow> rq \<Rightarrow>
    (c_fault + (int \<times> rq)) option" where
  "rq_write_loop data dataLen header headerLen q =
     (let freeMemSize = wrEnd q - wrPos q in
      case rq_check_full q of
        Inl f \<Rightarrow> Some (Inl f)
      | Inr (go1, q1) \<Rightarrow>
          if \<not> go1 then Some (Inr (VCAR_SYS_RQ_ERR_FULL, q1))
          else if freeMemSize \<ge> dataLen
          then Some (bind_fault (setItemTail q1 data dataLen header headerLen) (\<lambda>q2. Inr (VCAR_SYS_RQ_OK, q2)))
          else (case rq_make_room q1 of
                  Inl f \<Rightarrow> Some (Inl f)
                | Inr (go2, q2) \<Rightarrow>
                    if \<not> go2 then Some (Inr (VCAR_SYS_RQ_ERR_FULL, q2))
                    else rq_write_loop data dataLen header headerLen q2))"

definition VCAR_SYS_RingQueueWrite :: "rq \<Rightarrow> u8 list option \<Rightarrow> int \<Rightarrow> u8 list option \<Rightarrow> int \<Rightarrow>
    c_fault + (int \<times> rq)" where
  "VCAR_SYS_RingQueueWrite q data dataLen header headerLen =
     (case data of
        None \<Rightarrow> Inr (VCAR_SYS_RQ_ERR_INPUT, q)
      | Some d \<Rightarrow>
          if dataLen < 0 \<or> (header \<noteq> None \<and> headerLen > VCAR_SYS_RQ_MAX_HEADER_LEN)
          then Inr (VCAR_SYS_RQ_ERR_INPUT, q)
          else run_loop (rq_write_loop d dataLen header headerLen q))"

section \<open>Reading and searching\<close>

text \<open>
  The copies into the caller's buffers are returned: the bytes stored through \<^verbatim>\<open>data\<close> and through
  \<^verbatim>\<open>header\<close>, and the value left in \<^verbatim>\<open>*ringIndex\<close>. The arguments \<open>data\<close> and \<open>header\<close> say whether the
  pointers are not null; \<^verbatim>\<open>ringIndex\<close> is \<open>None\<close> when its pointer is null.
\<close>

record rq_out =
  out_ret :: int
  out_index :: nat
  out_data :: "u8 list"
  out_header :: "u8 list"

definition rq_fail :: "int \<Rightarrow> nat \<Rightarrow> rq_out" where
  "rq_fail r p = \<lparr>out_ret = r, out_index = p, out_data = [], out_header = []\<rparr>"

text \<open>\<^verbatim>\<open>memcpy\<close> of \<^verbatim>\<open>min(len, n)\<close> bytes, where the item holds \<open>n\<close>; a negative count is out of bounds.\<close>

definition rq_copy :: "mem \<Rightarrow> int option \<Rightarrow> int \<Rightarrow> int \<Rightarrow> c_fault + u8 list" where
  "rq_copy m src len n =
     (let real = (if len > n then n else len) in
      if real < 0 then Inl OutOfBounds
      else if real = 0 then Inr []
      else (case src of None \<Rightarrow> Inl NullDeref
            | Some d \<Rightarrow> if d < 0 then Inl OutOfBounds else Inr (mem_get m (nat d) (nat real))))"

text \<open>
  The part the three readers share: clear the reader's mask bits, copy the payload and the header,
  and leave the pointer of the next item in \<^verbatim>\<open>*ringIndex\<close>.
\<close>

definition rq_take :: "rq \<Rightarrow> nat \<Rightarrow> rq_item \<Rightarrow> u32 \<Rightarrow> bool \<Rightarrow> int \<Rightarrow> bool \<Rightarrow> int \<Rightarrow> c_fault + (rq_out \<times> rq)" where
  "rq_take q p it msk data dataLen header headerLen =
     (let it1 = (if it_mask it AND msk \<noteq> 0 then it\<lparr>it_mask := it_mask it AND NOT msk\<rparr> else it) in
      bind_fault (if data then rq_copy (block q) (it_data it1) dataLen (it_dataLen it1) else Inr []) (\<lambda>bs.
      bind_fault (if header \<and> headerLen > 0 then rq_copy (it_header it1) (Some 0) headerLen (it_headerLen it1)
                  else Inr []) (\<lambda>hs.
      Inr (\<lparr>out_ret = VCAR_SYS_RQ_OK, out_index = it_next it1, out_data = bs, out_header = hs\<rparr>,
           rq_put q p it1))))"

definition RingQueueRead_from :: "rq \<Rightarrow> nat option \<Rightarrow> u32 \<Rightarrow> bool \<Rightarrow> int \<Rightarrow> bool \<Rightarrow> int \<Rightarrow> bool \<Rightarrow>
    c_fault + (rq_out \<times> rq)" where
  "RingQueueRead_from q ringIndex msk data dataLen header headerLen isFromHead =
     (case ringIndex of
        None \<Rightarrow> Inr (rq_fail VCAR_SYS_RQ_ERR_INPUT 0, q)
      | Some idx \<Rightarrow>
          if \<not> data then Inr (rq_fail VCAR_SYS_RQ_ERR_INPUT idx, q)
          else bind_fault (if isFromHead then Inr (if idx = 0 then head q else idx)
                           else if idx = 0 then bind_fault (rq_at q (tail q)) (\<lambda>t. Inr (it_prev t))
                           else Inr idx) (\<lambda>pItem.
               if pItem = tail q then Inr (rq_fail VCAR_SYS_RQ_ERR_AGAIN idx, q)
               else bind_fault (rq_at q pItem) (\<lambda>it.
                    if \<not> it_valid it then Inr (rq_fail VCAR_SYS_RQ_ERR_INVALID idx, q)
                    else rq_take q pItem it msk data dataLen header headerLen)))"

definition VCAR_SYS_RingQueueReadFromHead :: "rq \<Rightarrow> nat option \<Rightarrow> u32 \<Rightarrow> bool \<Rightarrow> int \<Rightarrow> bool \<Rightarrow> int \<Rightarrow>
    c_fault + (rq_out \<times> rq)" where
  "VCAR_SYS_RingQueueReadFromHead q ringIndex msk data dataLen header headerLen =
     RingQueueRead_from q ringIndex msk data dataLen header headerLen True"

definition VCAR_SYS_RingQueueRead :: "rq \<Rightarrow> nat option \<Rightarrow> u32 \<Rightarrow> bool \<Rightarrow> int \<Rightarrow> bool \<Rightarrow> int \<Rightarrow>
    c_fault + (rq_out \<times> rq)" where
  "VCAR_SYS_RingQueueRead q ringIndex msk data dataLen header headerLen =
     RingQueueRead_from q ringIndex msk data dataLen header headerLen False"

text \<open>
  The callback \<^verbatim>\<open>verify\<close> is a parameter, applied with its \<^verbatim>\<open>para\<close> to the header bytes of an item. The
  backward search stops at an invalid item or before the oldest one.
\<close>

type_synonym verify_func = "mem \<Rightarrow> int \<Rightarrow> bool"

partial_function (option) rq_find_loop :: "verify_func \<Rightarrow> nat \<Rightarrow> rq \<Rightarrow> (c_fault + (nat \<times> rq_item) option) option" where
  "rq_find_loop verify pItem q =
     (case rq_at q pItem of
        Inl f \<Rightarrow> Some (Inl f)
      | Inr it \<Rightarrow>
          if \<not> it_valid it then Some (Inr None)
          else (case rq_at q (head q) of
                  Inl f \<Rightarrow> Some (Inl f)
                | Inr h \<Rightarrow>
                    if pItem = it_prev h then Some (Inr None)
                    else if verify (it_header it) (it_headerLen it) then Some (Inr (Some (pItem, it)))
                    else rq_find_loop verify (it_prev it) q))"

definition VCAR_SYS_RingQueueFind :: "rq \<Rightarrow> nat option \<Rightarrow> u32 \<Rightarrow> verify_func option \<Rightarrow> bool \<Rightarrow> int \<Rightarrow> bool \<Rightarrow> int \<Rightarrow>
    c_fault + (rq_out \<times> rq)" where
  "VCAR_SYS_RingQueueFind q ringIndex msk verify data dataLen header headerLen =
     (case (ringIndex, verify) of
        (Some idx, Some vf) \<Rightarrow>
          bind_fault (if idx = 0 then bind_fault (rq_at q (tail q)) (\<lambda>t. Inr (it_prev t)) else Inr idx) (\<lambda>pItem.
          bind_fault (run_loop (rq_find_loop vf pItem q)) (\<lambda>found.
          case found of
            None \<Rightarrow> Inr (rq_fail VCAR_SYS_RQ_ERR_AGAIN idx, q)
          | Some (p, it) \<Rightarrow> rq_take q p it msk data dataLen header headerLen))
      | (Some idx, None) \<Rightarrow> Inr (rq_fail VCAR_SYS_RQ_ERR_INPUT idx, q)
      | (None, _) \<Rightarrow> Inr (rq_fail VCAR_SYS_RQ_ERR_INPUT 0, q))"

text \<open>The forward search moves \<^verbatim>\<open>*ringIndex\<close> along; it yields the index reached and the item found.\<close>

partial_function (option) rq_find_post_loop :: "verify_func \<Rightarrow> nat \<Rightarrow> nat \<Rightarrow> rq \<Rightarrow>
    (c_fault + (nat \<times> (nat \<times> rq_item) option)) option" where
  "rq_find_post_loop verify idx pItem q =
     (if pItem = tail q then Some (Inr (idx, None))
      else (case rq_at q pItem of
              Inl f \<Rightarrow> Some (Inl f)
            | Inr it \<Rightarrow>
                if verify (it_header it) (it_headerLen it) \<and> it_valid it then Some (Inr (idx, Some (pItem, it)))
                else rq_find_post_loop verify (it_next it) (it_next it) q))"

definition VCAR_SYS_RingQueueFindPost :: "rq \<Rightarrow> nat option \<Rightarrow> u32 \<Rightarrow> verify_func option \<Rightarrow> bool \<Rightarrow> int \<Rightarrow> bool \<Rightarrow> int \<Rightarrow>
    c_fault + (rq_out \<times> rq)" where
  "VCAR_SYS_RingQueueFindPost q ringIndex msk verify data dataLen header headerLen =
     (case (ringIndex, verify) of
        (Some idx, Some vf) \<Rightarrow>
          bind_fault (run_loop (rq_find_post_loop vf idx (if idx = 0 then head q else idx) q)) (\<lambda>(idx', found).
          case found of
            None \<Rightarrow> Inr (rq_fail VCAR_SYS_RQ_ERR_AGAIN idx', q)
          | Some (p, it) \<Rightarrow> rq_take q p it msk data dataLen header headerLen)
      | (Some idx, None) \<Rightarrow> Inr (rq_fail VCAR_SYS_RQ_ERR_INPUT idx, q)
      | (None, _) \<Rightarrow> Inr (rq_fail VCAR_SYS_RQ_ERR_INPUT 0, q))"

section \<open>Masks and positions\<close>

definition VCAR_SYS_RingQueueGetMask :: "rq \<Rightarrow> int" where
  "VCAR_SYS_RingQueueGetMask q = sint (userMask q)"

definition VCAR_SYS_RingQueueSetMask :: "rq \<Rightarrow> u32 \<Rightarrow> int \<times> rq" where
  "VCAR_SYS_RingQueueSetMask q msk =
     (VCAR_SYS_RQ_OK, if msk \<noteq> 0 then q\<lparr>userMask := userMask q OR msk\<rparr> else q)"

definition VCAR_SYS_RingQueueClearMask :: "rq \<Rightarrow> u32 \<Rightarrow> int \<times> rq" where
  "VCAR_SYS_RingQueueClearMask q msk =
     (VCAR_SYS_RQ_OK, if msk \<noteq> 0 then q\<lparr>userMask := userMask q AND NOT msk\<rparr> else q)"

partial_function (option) rq_next_valid_loop :: "nat \<Rightarrow> nat \<Rightarrow> rq \<Rightarrow> (c_fault + (int \<times> nat)) option" where
  "rq_next_valid_loop idx pItem q =
     (if pItem = tail q then Some (Inr (VCAR_SYS_RQ_ERR_AGAIN, idx))
      else (case rq_at q pItem of
              Inl f \<Rightarrow> Some (Inl f)
            | Inr it \<Rightarrow>
                if it_valid it then Some (Inr (VCAR_SYS_RQ_OK, idx))
                else rq_next_valid_loop (it_next it) (it_next it) q))"

definition VCAR_SYS_RingQueueGetNextValidIndex :: "rq \<Rightarrow> nat option \<Rightarrow> c_fault + (int \<times> nat)" where
  "VCAR_SYS_RingQueueGetNextValidIndex q ringIndex =
     (case ringIndex of
        None \<Rightarrow> Inr (VCAR_SYS_RQ_ERR_INPUT, 0)
      | Some idx \<Rightarrow> run_loop (rq_next_valid_loop idx (if idx = 0 then head q else idx) q))"

definition VCAR_SYS_RingQueueGetHeader :: "rq \<Rightarrow> nat option \<Rightarrow> int \<times> nat" where
  "VCAR_SYS_RingQueueGetHeader q ringIndex =
     (case ringIndex of None \<Rightarrow> (VCAR_SYS_RQ_ERR_INPUT, 0) | Some _ \<Rightarrow> (VCAR_SYS_RQ_OK, head q))"

definition VCAR_SYS_RingQueueGetTail :: "rq \<Rightarrow> nat option \<Rightarrow> int \<times> nat" where
  "VCAR_SYS_RingQueueGetTail q ringIndex =
     (case ringIndex of None \<Rightarrow> (VCAR_SYS_RQ_ERR_INPUT, 0) | Some _ \<Rightarrow> (VCAR_SYS_RQ_OK, tail q))"

section \<open>The ring of descriptors\<close>

text \<open>The pointer after a pointer, the one before it, and the one \<open>j\<close> steps on.\<close>

definition ring_next :: "nat \<Rightarrow> nat \<Rightarrow> nat" where
  "ring_next n p = (if p = n then 1 else p + 1)"

definition ring_prev :: "nat \<Rightarrow> nat \<Rightarrow> nat" where
  "ring_prev n p = (if p = 1 then n else p - 1)"

definition ring_pos :: "nat \<Rightarrow> nat \<Rightarrow> nat \<Rightarrow> nat" where
  "ring_pos n h j = (h - 1 + j) mod n + 1"

definition ring_ptrs :: "nat \<Rightarrow> nat \<Rightarrow> nat \<Rightarrow> nat list" where
  "ring_ptrs n h k = map (ring_pos n h) [0..<k]"

lemma ring_pos_range: "0 < n \<Longrightarrow> 1 \<le> ring_pos n h j \<and> ring_pos n h j \<le> n"
  by (auto simp: ring_pos_def Suc_le_eq)

lemma ring_pos_0: "1 \<le> h \<Longrightarrow> h \<le> n \<Longrightarrow> ring_pos n h 0 = h"
  by (simp add: ring_pos_def)

lemma ring_pos_Suc: "0 < n \<Longrightarrow> ring_pos n h (Suc j) = ring_next n (ring_pos n h j)"
  by (auto simp: ring_pos_def ring_next_def mod_Suc)

lemma ring_pos_next:
  assumes "1 \<le> h" "h \<le> n"
  shows "ring_pos n (ring_next n h) j = ring_pos n h (Suc j)"
proof (cases "h = n")
  case True
  with assms have "ring_pos n h (Suc j) = (n + j) mod n + 1" by (simp add: ring_pos_def)
  with True show ?thesis by (simp add: ring_pos_def ring_next_def)
next
  case False
  with assms have "Suc (h - 1 + j) = h + j" by simp
  with False show ?thesis by (simp add: ring_pos_def ring_next_def)
qed

lemma ring_pos_eqD:
  assumes "ring_pos n h i = ring_pos n h j" "i < n" "j < n"
  shows "i = j"
proof -
  have "(h - 1 + i) mod n = (h - 1 + j) mod n" using assms(1) by (simp add: ring_pos_def)
  then obtain a b where "h - 1 + i + n * a = h - 1 + j + n * b" by (auto simp: nat_mod_eq_iff)
  then have "i mod n = j mod n" unfolding nat_mod_eq_iff by (intro exI [of _ a] exI [of _ b]) simp
  with assms(2,3) show ?thesis by simp
qed

lemma ring_next_prev:
  "1 \<le> p \<Longrightarrow> p \<le> n \<Longrightarrow> ring_prev n (ring_next n p) = p"
  "1 \<le> p \<Longrightarrow> p \<le> n \<Longrightarrow> ring_next n (ring_prev n p) = p"
  by (auto simp: ring_next_def ring_prev_def)

lemma ring_ptrs_simps [simp]:
  "ring_ptrs n h 0 = []" "length (ring_ptrs n h k) = k"
  "ring_ptrs n h (Suc k) = ring_ptrs n h k @ [ring_pos n h k]"
  by (simp_all add: ring_ptrs_def)

lemma ring_ptrs_Cons:
  "1 \<le> h \<Longrightarrow> h \<le> n \<Longrightarrow> ring_ptrs n h (Suc k) = h # ring_ptrs n (ring_next n h) k"
  by (simp add: ring_ptrs_def ring_pos_next ring_pos_0 upt_conv_Cons map_Suc_upt [symmetric]
      o_def del: upt_Suc map_Suc_upt)

lemma set_ring_ptrs: "set (ring_ptrs n h k) = ring_pos n h ` {0..<k}"
  by (simp add: ring_ptrs_def)

lemma ring_ptrs_range: "0 < n \<Longrightarrow> p \<in> set (ring_ptrs n h k) \<Longrightarrow> 1 \<le> p \<and> p \<le> n"
  using ring_pos_range [of n h] by (auto simp: set_ring_ptrs)

lemma ring_pos_fresh: "k < n \<Longrightarrow> ring_pos n h k \<notin> set (ring_ptrs n h k)"
  using ring_pos_eqD [of n h k] by (fastforce simp: set_ring_ptrs)

lemma distinct_ring_ptrs: "k \<le> n \<Longrightarrow> distinct (ring_ptrs n h k)"
  using ring_pos_eqD [of n h] by (auto simp: ring_ptrs_def distinct_map inj_on_def)

text \<open>The ring is full exactly when the tail's successor is the head.\<close>

lemma ring_full_iff:
  assumes "1 \<le> h" "h \<le> n" "k < n"
  shows "ring_next n (ring_pos n h k) = h \<longleftrightarrow> Suc k = n"
proof -
  have eq: "ring_next n (ring_pos n h k) = ring_pos n h (Suc k)" using assms by (simp add: ring_pos_Suc)
  have "ring_pos n h (Suc k) = ring_pos n h 0 \<longleftrightarrow> Suc k = n"
  proof
    assume "Suc k = n"
    then show "ring_pos n h (Suc k) = ring_pos n h 0" by (simp add: ring_pos_def)
  next
    assume "ring_pos n h (Suc k) = ring_pos n h 0"
    then show "Suc k = n" using ring_pos_eqD [of n h "Suc k" 0] assms by (cases "Suc k < n") auto
  qed
  with eq show ?thesis using ring_pos_0 [OF assms(1,2)] by simp
qed

section \<open>What the queue stands for\<close>

record rq_message =
  m_payload :: "u8 list"
  m_header :: "u8 list"
  m_mask :: u32

definition rq_msg :: "rq \<Rightarrow> nat \<Rightarrow> rq_message" where
  "rq_msg q p =
     (let it = items q p in
      \<lparr>m_payload = (case it_data it of None \<Rightarrow> [] | Some d \<Rightarrow> mem_get (block q) (nat d) (nat (it_dataLen it))),
       m_header = mem_get (it_header it) 0 (nat (it_headerLen it)),
       m_mask = it_mask it\<rparr>)"

definition rq_ptrs :: "rq \<Rightarrow> nat list" where
  "rq_ptrs q = ring_ptrs (queueSize q) (head q) ((tail q + queueSize q - head q) mod queueSize q)"

definition rq_live :: "rq \<Rightarrow> rq_message list" where
  "rq_live q = map (rq_msg q) (rq_ptrs q)"

text \<open>A bounded queue of messages: consumed ones may be dropped from the front to make room.\<close>

definition rq_outcome :: "rq_message \<Rightarrow> rq_message list \<Rightarrow> int \<Rightarrow> rq_message list \<Rightarrow> bool" where
  "rq_outcome m ms r ms' \<longleftrightarrow>
     (\<exists>d \<le> length ms. (\<forall>x \<in> set (take d ms). m_mask x = 0) \<and>
        (r = VCAR_SYS_RQ_OK \<and> ms' = drop d ms @ [m] \<or>
         r = VCAR_SYS_RQ_ERR_FULL \<and> ms' = drop d ms \<and> ms' \<noteq> [] \<and> m_mask (List.hd ms') \<noteq> 0))"

lemma rq_outcome_drop:
  "rq_outcome m ms r ms' \<Longrightarrow> m_mask x = 0 \<Longrightarrow> rq_outcome m (x # ms) r ms'"
  unfolding rq_outcome_def by (elim exE conjE, rule_tac x = "Suc d" in exI) auto

lemma rq_outcome_now: "rq_outcome m ms VCAR_SYS_RQ_OK (ms @ [m])"
  unfolding rq_outcome_def by (rule exI [of _ 0]) (simp add: rq_codes)

lemma rq_outcome_full: "m_mask x \<noteq> 0 \<Longrightarrow> rq_outcome m (x # ms) VCAR_SYS_RQ_ERR_FULL (x # ms)"
  unfolding rq_outcome_def by (rule exI [of _ 0]) (simp add: rq_codes)

text \<open>Payloads stored one after the other, from one offset to another.\<close>

fun rq_chain :: "(nat \<Rightarrow> rq_item) \<Rightarrow> int \<Rightarrow> nat list \<Rightarrow> int \<Rightarrow> bool" where
  "rq_chain its a [] e \<longleftrightarrow> a = e"
| "rq_chain its a (p # ps) e \<longleftrightarrow> it_data (its p) = Some a \<and> 0 < it_dataLen (its p) \<and>
     rq_chain its (a + it_dataLen (its p)) ps e"

lemma rq_chain_le: "rq_chain its a ps e \<Longrightarrow> a \<le> e"
  by (induction ps arbitrary: a) force+

lemma rq_chain_less: "rq_chain its a ps e \<Longrightarrow> ps \<noteq> [] \<Longrightarrow> a < e"
  by (cases ps) (auto dest: rq_chain_le)

lemma rq_chain_cong:
  "(\<And>p. p \<in> set ps \<Longrightarrow> it_data (its p) = it_data (its' p) \<and> it_dataLen (its p) = it_dataLen (its' p)) \<Longrightarrow>
     rq_chain its a ps e = rq_chain its' a ps e"
  by (induction ps arbitrary: a) auto

lemma rq_chain_append:
  "rq_chain its a (ps @ qs) e \<longleftrightarrow> (\<exists>b. rq_chain its a ps b \<and> rq_chain its b qs e)"
  by (induction ps arbitrary: a) auto

text \<open>A segment of a chain lies between its ends.\<close>

lemma rq_chain_seg:
  "rq_chain its a ps e \<Longrightarrow> p \<in> set ps \<Longrightarrow>
     \<exists>d. it_data (its p) = Some d \<and> a \<le> d \<and> d + it_dataLen (its p) \<le> e \<and> 0 < it_dataLen (its p)"
proof (induction ps arbitrary: a)
  case (Cons x ps)
  then have le: "a + it_dataLen (its x) \<le> e" by (auto dest: rq_chain_le)
  show ?case
  proof (cases "p = x")
    case True
    with Cons.prems le show ?thesis by auto
  next
    case False
    with Cons obtain d where "it_data (its p) = Some d" "a + it_dataLen (its x) \<le> d"
      "d + it_dataLen (its p) \<le> e" "0 < it_dataLen (its p)" by auto
    with Cons.prems show ?thesis by auto
  qed
qed simp

section \<open>The invariant\<close>

definition rq_shape :: "rq \<Rightarrow> nat list \<Rightarrow> bool" where
  "rq_shape q ps \<longleftrightarrow>
     2 \<le> queueSize q \<and> 1 \<le> head q \<and> head q \<le> queueSize q \<and> 0 < memEnd q \<and>
     length ps < queueSize q \<and> ps = ring_ptrs (queueSize q) (head q) (length ps) \<and>
     tail q = ring_pos (queueSize q) (head q) (length ps) \<and>
     (\<forall>p. 1 \<le> p \<and> p \<le> queueSize q \<longrightarrow>
        it_next (items q p) = ring_next (queueSize q) p \<and>
        it_prev (items q p) = ring_prev (queueSize q) p \<and>
        (it_valid (items q p) \<longleftrightarrow> p \<in> set ps) \<and>
        0 \<le> it_headerLen (items q p) \<and> it_headerLen (items q p) \<le> VCAR_SYS_RQ_MAX_HEADER_LEN)"

text \<open>
  The payloads lie in one run that ends at the write position, or in two: the older ones, up to some
  offset in the upper half of the block, and the newer ones from the start of the block up to the
  write position. The window from \<^verbatim>\<open>wrPos\<close> to \<^verbatim>\<open>wrEnd\<close> is free.
\<close>

definition rq_layout :: "rq \<Rightarrow> nat list \<Rightarrow> bool" where
  "rq_layout q ps \<longleftrightarrow>
     0 \<le> wrPos q \<and> wrPos q \<le> wrEnd q \<and> wrEnd q \<le> memEnd q \<and>
     ((\<exists>a \<ge> 0. rq_chain (items q) a ps (wrPos q) \<and>
         (ps = [] \<longrightarrow> wrPos q = 0 \<and> memEnd q \<le> 2 * wrEnd q)) \<or>
      (\<exists>as bs a e. ps = as @ bs \<and> as \<noteq> [] \<and> wrEnd q \<le> a \<and> rq_chain (items q) a as e \<and>
         e \<le> memEnd q \<and> memEnd q \<le> 2 * e \<and> rq_chain (items q) 0 bs (wrPos q)))"

definition rq_inv :: "rq \<Rightarrow> bool" where
  "rq_inv q \<longleftrightarrow> rq_shape q (rq_ptrs q) \<and> rq_layout q (rq_ptrs q)"

lemma rq_shape_ptrs:
  assumes "rq_shape q ps"
  shows "rq_ptrs q = ps"
proof -
  let ?n = "queueSize q"
  have *: "1 \<le> head q" "head q \<le> ?n" "length ps < ?n" "tail q = ring_pos ?n (head q) (length ps)"
    "ps = ring_ptrs ?n (head q) (length ps)"
    using assms by (auto simp: rq_shape_def)
  have "(tail q + ?n - head q) mod ?n = length ps"
  proof (cases "head q - 1 + length ps < ?n")
    case True
    with * have "tail q + ?n - head q = length ps + ?n" by (simp add: ring_pos_def)
    with * show ?thesis by simp
  next
    case False
    then have "(head q - 1 + length ps) mod ?n = head q - 1 + length ps - ?n"
      using * by (subst mod_if) simp
    with * False have "tail q + ?n - head q = length ps" by (simp add: ring_pos_def)
    with * show ?thesis by simp
  qed
  with *(5) show ?thesis by (simp add: rq_ptrs_def)
qed

lemma rq_invI: "rq_shape q ps \<Longrightarrow> rq_layout q ps \<Longrightarrow> rq_inv q"
  by (simp add: rq_inv_def rq_shape_ptrs)

lemma rq_live_eq: "rq_shape q ps \<Longrightarrow> rq_live q = map (rq_msg q) ps"
  by (simp add: rq_live_def rq_shape_ptrs)

lemma rq_at_ok [simp]: "1 \<le> p \<Longrightarrow> p \<le> queueSize q \<Longrightarrow> rq_at q p = Inr (items q p)"
  by (simp add: rq_at_def)

lemma rq_shape_tail:
  assumes "rq_shape q ps"
  shows "1 \<le> tail q \<and> tail q \<le> queueSize q \<and> tail q \<notin> set ps \<and> distinct ps"
  using assms ring_pos_range [of "queueSize q" "head q" "length ps"]
    ring_pos_fresh [of "length ps" "queueSize q" "head q"]
    distinct_ring_ptrs [of "length ps" "queueSize q" "head q"]
  by (auto simp: rq_shape_def)

lemma rq_shape_mem:
  "rq_shape q ps \<Longrightarrow> p \<in> set ps \<Longrightarrow> 1 \<le> p \<and> p \<le> queueSize q"
  using ring_ptrs_range [of "queueSize q" p "head q" "length ps"] by (auto simp: rq_shape_def)

lemma rq_shape_head:
  assumes "rq_shape q (p # ps)"
  shows "p = head q"
proof -
  have "p # ps = ring_ptrs (queueSize q) (head q) (Suc (length ps))" "1 \<le> head q" "head q \<le> queueSize q"
    using assms by (auto simp: rq_shape_def simp del: ring_ptrs_simps)
  then show ?thesis by (metis list.inject ring_ptrs_Cons)
qed

text \<open>What the loop may change of the items it does not write: their validity only.\<close>

definition rq_same :: "rq \<Rightarrow> rq \<Rightarrow> bool" where
  "rq_same q q' \<longleftrightarrow> block q' = block q \<and> userMask q' = userMask q \<and> initMask q' = initMask q \<and>
     memEnd q' = memEnd q \<and> queueSize q' = queueSize q \<and>
     (\<forall>p. it_data (items q' p) = it_data (items q p) \<and> it_dataLen (items q' p) = it_dataLen (items q p) \<and>
        it_mask (items q' p) = it_mask (items q p) \<and> it_header (items q' p) = it_header (items q p) \<and>
        it_headerLen (items q' p) = it_headerLen (items q p))"

lemma rq_same_refl [simp]: "rq_same q q"
  by (simp add: rq_same_def)

lemma rq_same_msg: "rq_same q q' \<Longrightarrow> rq_msg q' p = rq_msg q p"
  by (simp add: rq_same_def rq_msg_def Let_def split: option.split)

lemma rq_same_chain: "rq_same q q' \<Longrightarrow> rq_chain (items q') a ps e = rq_chain (items q) a ps e"
  by (rule rq_chain_cong) (simp add: rq_same_def)

definition rq_dropped :: "rq \<Rightarrow> rq" where
  "rq_dropped q = (rq_put q (head q) ((items q (head q))\<lparr>it_valid := False\<rparr>))
     \<lparr>head := it_next (items q (head q))\<rparr>"

lemma rq_dropped_simps [simp]:
  "wrPos (rq_dropped q) = wrPos q" "wrEnd (rq_dropped q) = wrEnd q" "memEnd (rq_dropped q) = memEnd q"
  "queueSize (rq_dropped q) = queueSize q" "tail (rq_dropped q) = tail q" "rq_same q (rq_dropped q)"
  by (simp_all add: rq_dropped_def rq_put_def rq_same_def)

lemma moveItemHeader_eq: "rq_shape q ps \<Longrightarrow> moveItemHeader q = Inr (rq_dropped q)"
  by (simp add: moveItemHeader_def rq_dropped_def rq_shape_def)

lemma isItemHeaderClean_eq: "rq_shape q ps \<Longrightarrow> isItemHeaderClean q = Inr (it_mask (items q (head q)) = 0)"
  by (simp add: isItemHeaderClean_def rq_shape_def)

lemma rq_shape_cong:
  "rq_shape q ps \<Longrightarrow> rq_shape (q\<lparr>wrEnd := x\<rparr>) ps" "rq_shape q ps \<Longrightarrow> rq_shape (q\<lparr>wrPos := x\<rparr>) ps"
  by (simp_all add: rq_shape_def)

lemma rq_shape_dropped:
  assumes sh: "rq_shape q (p # ps)"
  shows "rq_shape (rq_dropped q) ps"
proof -
  let ?n = "queueSize q" and ?h = "head q"
  have b: "2 \<le> ?n" "1 \<le> ?h" "?h \<le> ?n" "Suc (length ps) < ?n" "0 < memEnd q"
    "p # ps = ring_ptrs ?n ?h (Suc (length ps))" "tail q = ring_pos ?n ?h (Suc (length ps))"
    using sh by (auto simp: rq_shape_def simp del: ring_ptrs_simps)
  have nx: "it_next (items q ?h) = ring_next ?n ?h" using sh by (simp add: rq_shape_def)
  have ps: "ps = ring_ptrs ?n (ring_next ?n ?h) (length ps)"
    using b(6) unfolding ring_ptrs_Cons [OF b(2,3)] by simp
  have h: "p = ?h" "?h \<notin> set ps" using rq_shape_head [OF sh] rq_shape_tail [OF sh] by auto
  have "1 \<le> ring_next ?n ?h" "ring_next ?n ?h \<le> ?n" using b by (auto simp: ring_next_def)
  moreover have "tail q = ring_pos ?n (ring_next ?n ?h) (length ps)"
    using b by (simp add: ring_pos_next)
  ultimately show ?thesis using sh b ps h nx
    unfolding rq_shape_def by (auto simp: rq_dropped_def rq_put_def)
qed

section \<open>Making room\<close>

lemma rq_check_full_eq:
  assumes "rq_shape q ps"
  shows "rq_check_full q =
     (if Suc (length ps) = queueSize q
      then (if it_mask (items q (head q)) = 0 then Inr (True, rq_dropped q) else Inr (False, q))
      else Inr (True, q))"
proof -
  have "it_next (items q (tail q)) = ring_next (queueSize q) (tail q)"
    using assms rq_shape_tail [OF assms] by (simp add: rq_shape_def)
  moreover have "ring_next (queueSize q) (tail q) = head q \<longleftrightarrow> Suc (length ps) = queueSize q"
    using assms ring_full_iff [of "head q" "queueSize q" "length ps"] by (simp add: rq_shape_def)
  ultimately show ?thesis
    using rq_shape_tail [OF assms]
    by (simp add: rq_check_full_def isItemHeaderClean_eq [OF assms] moveItemHeader_eq [OF assms])
qed

lemma rq_layout_same:
  assumes "rq_same q q'" "wrPos q' = wrPos q" "wrEnd q' = wrEnd q" "rq_layout q ps"
  shows "rq_layout q' ps"
  using assms(4) unfolding rq_layout_def assms(2,3) rq_same_chain [OF assms(1)]
  using assms(1) by (simp add: rq_same_def)

text \<open>Dropping the oldest of several items keeps the layout, whether or not the runs change.\<close>

lemma rq_layout_tail:
  assumes lay: "rq_layout q (p # ps)" and ne: "ps \<noteq> []"
  shows "rq_layout q ps"
proof -
  have b: "0 \<le> wrPos q" "wrPos q \<le> wrEnd q" "wrEnd q \<le> memEnd q" using lay by (auto simp: rq_layout_def)
  from lay consider (one) a where "0 \<le> a" "rq_chain (items q) a (p # ps) (wrPos q)"
    | (two) as bs a e where "p # ps = as @ bs" "as \<noteq> []" "wrEnd q \<le> a" "rq_chain (items q) a as e"
      "e \<le> memEnd q" "memEnd q \<le> 2 * e" "rq_chain (items q) 0 bs (wrPos q)"
    unfolding rq_layout_def by blast
  then show ?thesis
  proof cases
    case one
    then have "0 \<le> a + it_dataLen (items q p)" "rq_chain (items q) (a + it_dataLen (items q p)) ps (wrPos q)"
      by auto
    with b ne show ?thesis unfolding rq_layout_def by blast
  next
    case two
    from two(1,2) obtain as' where as: "as = p # as'" "ps = as' @ bs" by (cases as) auto
    show ?thesis
    proof (cases "as' = []")
      case True
      with as two(7) b ne show ?thesis unfolding rq_layout_def by auto
    next
      case False
      from two(4) as have ch: "rq_chain (items q) (a + it_dataLen (items q p)) as' e"
        and le: "wrEnd q \<le> a + it_dataLen (items q p)" using two(3) by auto
      show ?thesis unfolding rq_layout_def
        using b as(2) False le ch two(5,6,7) by blast
    qed
  qed
qed

lemma rq_layout_dropped:
  "rq_layout q (p # ps) \<Longrightarrow> ps \<noteq> [] \<Longrightarrow> rq_layout (rq_dropped q) ps"
  by (rule rq_layout_same [OF _ _ _ rq_layout_tail]) simp_all

text \<open>
  The three outcomes of making room for a message of at most half the block: the oldest item is
  still owned by a reader; the window now reaches the end of the block; the oldest item is dropped.
\<close>

definition rq_room_blocked :: "rq \<Rightarrow> nat \<Rightarrow> c_fault + (bool \<times> rq) \<Rightarrow> bool" where
  "rq_room_blocked q p r \<longleftrightarrow> it_mask (items q p) \<noteq> 0 \<and> r = Inr (False, q)"

definition rq_room_widened :: "rq \<Rightarrow> nat \<Rightarrow> c_fault + (bool \<times> rq) \<Rightarrow> bool" where
  "rq_room_widened q p r \<longleftrightarrow> wrEnd q \<noteq> memEnd q \<and> r = Inr (True, q\<lparr>wrEnd := memEnd q\<rparr>) \<and>
     (\<exists>d. it_data (items q p) = Some d \<and> d < wrPos q)"

definition rq_room_dropped :: "rq \<Rightarrow> nat \<Rightarrow> nat list \<Rightarrow> c_fault + (bool \<times> rq) \<Rightarrow> bool" where
  "rq_room_dropped q p ps r \<longleftrightarrow> it_mask (items q p) = 0 \<and>
     (\<exists>q'. r = Inr (True, q') \<and> rq_shape q' ps \<and> rq_layout q' ps \<and> rq_same q q')"

lemma rq_drop_for_room_eq:
  assumes sh: "rq_shape q (p # ps)" and d: "it_data (items q p) = Some d"
  shows "rq_drop_for_room q =
     (if it_mask (items q p) = 0 then Inr (True, rq_dropped (q\<lparr>wrEnd := d + it_dataLen (items q p)\<rparr>))
      else Inr (False, q))"
  using sh d rq_shape_head [OF sh]
  by (simp add: rq_drop_for_room_def isItemHeaderClean_eq [OF sh] moveItemHeader_eq [OF rq_shape_cong(1) [OF sh]]
      rq_shape_def)

lemma rq_make_room_one:
  assumes sh: "rq_shape q (p # ps)" and b: "wrPos q \<le> wrEnd q" "wrEnd q \<le> memEnd q" and a: "0 \<le> a"
    and run: "rq_chain (items q) a (p # ps) (wrPos q)"
    and len: "wrEnd q - wrPos q < len" "2 * len \<le> memEnd q"
  shows "rq_room_blocked q p (rq_make_room q) \<or> rq_room_widened q p (rq_make_room q) \<or>
    rq_room_dropped q p ps (rq_make_room q)"
proof -
  let ?l = "it_dataLen (items q p)"
  have at: "rq_at q (head q) = Inr (items q p)"
    using sh rq_shape_head [OF sh] by (simp add: rq_shape_def)
  have d: "it_data (items q p) = Some a" and l: "0 < ?l"
    and ch: "rq_chain (items q) (a + ?l) ps (wrPos q)" using run by auto
  have lt: "a < wrPos q" using rq_chain_le [OF ch] l by simp
  consider "wrEnd q \<noteq> memEnd q" | "wrEnd q = memEnd q" "it_mask (items q p) \<noteq> 0"
    | (drop) "wrEnd q = memEnd q" "it_mask (items q p) = 0" by blast
  then show ?thesis
  proof cases
    case drop
    define q' where "q' = (rq_dropped (q\<lparr>wrEnd := a + ?l\<rparr>))\<lparr>wrPos := 0\<rparr>"
    have eq: "rq_make_room q = Inr (True, q')"
      by (simp add: rq_make_room_def at d lt drop rq_drop_for_room_eq [OF sh d] q'_def)
    have sh': "rq_shape q' ps" unfolding q'_def
      by (intro rq_shape_cong(2) rq_shape_dropped [where p = p] rq_shape_cong(1) sh)
    have same: "rq_same q q'" by (simp add: q'_def rq_dropped_def rq_put_def rq_same_def)
    have up: "memEnd q \<le> 2 * wrPos q" using len drop by simp
    have wr: "wrPos q' = 0" "wrEnd q' = a + ?l" "memEnd q' = memEnd q" by (simp_all add: q'_def)
    have "rq_layout q' ps"
    proof (cases "ps = []")
      case True
      with ch up a l b drop show ?thesis by (simp add: rq_layout_def wr rq_same_chain [OF same])
    next
      case False
      with ch up a l b drop rq_chain_le [OF ch] len show ?thesis
        unfolding rq_layout_def wr rq_same_chain [OF same]
        by (intro conjI disjI2 exI [of _ ps] exI [of _ "[]"] exI [of _ "a + ?l"] exI [of _ "wrPos q"]) auto
    qed
    with eq sh' same drop show ?thesis by (auto simp: rq_room_dropped_def)
  qed (simp_all add: rq_make_room_def at d lt rq_drop_for_room_eq [OF sh d]
      rq_room_widened_def rq_room_blocked_def)
qed

lemma rq_make_room_two:
  assumes sh: "rq_shape q (p # ps)" and b: "0 \<le> wrPos q" "wrPos q \<le> wrEnd q"
    and ps: "p # ps = as @ bs" "as \<noteq> []" and win: "wrEnd q \<le> a"
    and old: "rq_chain (items q) a as e" "e \<le> memEnd q" "memEnd q \<le> 2 * e"
    and new: "rq_chain (items q) 0 bs (wrPos q)"
  shows "rq_room_blocked q p (rq_make_room q) \<or> rq_room_dropped q p ps (rq_make_room q)"
proof -
  let ?l = "it_dataLen (items q p)"
  have at: "rq_at q (head q) = Inr (items q p)"
    using sh rq_shape_head [OF sh] by (simp add: rq_shape_def)
  from ps obtain as' where as: "as = p # as'" "ps = as' @ bs" by (cases as) auto
  then have d: "it_data (items q p) = Some a" and l: "0 < ?l"
    and ch: "rq_chain (items q) (a + ?l) as' e" using old by auto
  have nlt: "\<not> a < wrPos q" using win b by simp
  show ?thesis
  proof (cases "it_mask (items q p) = 0")
    case clean: True
    define q' where "q' = rq_dropped (q\<lparr>wrEnd := a + ?l\<rparr>)"
    have eq: "rq_make_room q = Inr (True, q')"
      by (simp add: rq_make_room_def at d nlt clean rq_drop_for_room_eq [OF sh d] q'_def)
    have sh': "rq_shape q' ps" unfolding q'_def
      by (intro rq_shape_dropped [where p = p] rq_shape_cong(1) sh)
    have same: "rq_same q q'" by (simp add: q'_def rq_dropped_def rq_put_def rq_same_def)
    have wr: "wrPos q' = wrPos q" "wrEnd q' = a + ?l" "memEnd q' = memEnd q" by (simp_all add: q'_def)
    have le: "a + ?l \<le> e" by (rule rq_chain_le [OF ch])
    have "rq_layout q' ps"
    proof (cases "as' = []")
      case True
      then have "a + ?l = e" "ps = bs" using ch as by simp_all
      with win old new b l show ?thesis
        by (cases "bs = []") (auto simp: rq_layout_def wr rq_same_chain [OF same])
    next
      case False
      with win old new b l le ch as(2) show ?thesis
        unfolding rq_layout_def wr rq_same_chain [OF same]
        by (intro conjI disjI2 exI [of _ as'] exI [of _ bs] exI [of _ "a + ?l"] exI [of _ e]) auto
    qed
    with eq sh' same clean show ?thesis by (auto simp: rq_room_dropped_def)
  qed (simp add: rq_make_room_def at d nlt rq_drop_for_room_eq [OF sh d] rq_room_blocked_def)
qed

lemma rq_make_room_cases:
  assumes sh: "rq_shape q (p # ps)" and lay: "rq_layout q (p # ps)"
    and len: "wrEnd q - wrPos q < len" "2 * len \<le> memEnd q"
  shows "rq_room_blocked q p (rq_make_room q) \<or> rq_room_widened q p (rq_make_room q) \<or>
    rq_room_dropped q p ps (rq_make_room q)"
  using lay rq_make_room_one [OF sh _ _ _ _ len] rq_make_room_two [OF sh]
  unfolding rq_layout_def by blast

section \<open>Writing refines a bounded message queue\<close>

text \<open>The header a write stores: none unless the pointer is not null and the length is positive.\<close>

definition rq_header_arg :: "u8 list option \<Rightarrow> int \<Rightarrow> u8 list" where
  "rq_header_arg header headerLen =
     (case header of None \<Rightarrow> [] | Some h \<Rightarrow> if headerLen > 0 then take (nat headerLen) h else [])"

definition rq_args_ok :: "u8 list \<Rightarrow> int \<Rightarrow> u8 list option \<Rightarrow> int \<Rightarrow> bool" where
  "rq_args_ok data dataLen header headerLen \<longleftrightarrow>
     0 < dataLen \<and> dataLen \<le> int (length data) \<and>
     (case header of None \<Rightarrow> True
      | Some h \<Rightarrow> headerLen \<le> VCAR_SYS_RQ_MAX_HEADER_LEN \<and> headerLen \<le> int (length h))"

definition rq_new_item :: "rq \<Rightarrow> int \<Rightarrow> u8 list option \<Rightarrow> int \<Rightarrow> rq_item" where
  "rq_new_item q dataLen header headerLen =
     (let it = items q (tail q); hs = rq_header_arg header headerLen in
      it\<lparr>it_data := Some (wrPos q), it_dataLen := dataLen, it_mask := userMask q,
         it_header := mem_put (it_header it) 0 hs, it_headerLen := int (length hs), it_valid := True\<rparr>)"

definition rq_pushed :: "rq \<Rightarrow> u8 list \<Rightarrow> int \<Rightarrow> u8 list option \<Rightarrow> int \<Rightarrow> rq" where
  "rq_pushed q data dataLen header headerLen =
     q\<lparr>block := mem_put (block q) (nat (wrPos q)) (take (nat dataLen) data),
       items := (items q)(tail q := rq_new_item q dataLen header headerLen),
       tail := it_next (items q (tail q)), wrPos := wrPos q + dataLen\<rparr>"

lemma setItemTail_eq:
  assumes sh: "rq_shape q ps" and ok: "rq_args_ok data dataLen header headerLen"
    and room: "0 \<le> wrPos q" "wrPos q + dataLen \<le> memEnd q"
  shows "setItemTail q data dataLen header headerLen = Inr (rq_pushed q data dataLen header headerLen)"
proof -
  obtain it where it: "items q (tail q) = it" and at: "rq_at q (tail q) = Inr it"
    using rq_shape_tail [OF sh] by simp
  have h: "length (rq_header_arg header headerLen) = (if header \<noteq> None \<and> headerLen > 0 then nat headerLen else 0)"
    using ok by (auto simp: rq_args_ok_def rq_header_arg_def split: option.splits)
  have "rq_new_item q dataLen header headerLen =
      (if header \<noteq> None \<and> headerLen > 0
       then it\<lparr>it_data := Some (wrPos q), it_dataLen := dataLen, it_mask := userMask q,
               it_header := mem_put (it_header it) 0 (take (nat headerLen) (the header)),
               it_headerLen := headerLen, it_valid := True\<rparr>
       else it\<lparr>it_data := Some (wrPos q), it_dataLen := dataLen, it_mask := userMask q,
               it_headerLen := 0, it_valid := True\<rparr>)"
    unfolding rq_new_item_def Let_def h it by (auto simp: rq_header_arg_def split: option.split)
  with ok room show ?thesis
    by (cases header) (auto simp: setItemTail_def at rq_pushed_def rq_args_ok_def Let_def rq_put_def it)
qed

lemma rq_header_arg_length:
  "rq_args_ok data dataLen header headerLen \<Longrightarrow>
     int (length (rq_header_arg header headerLen)) \<le> VCAR_SYS_RQ_MAX_HEADER_LEN"
  by (auto simp: rq_args_ok_def rq_header_arg_def VCAR_SYS_RQ_MAX_HEADER_LEN_def split: option.splits)

lemma rq_shape_pushed:
  assumes sh: "rq_shape q ps" and free: "Suc (length ps) < queueSize q"
    and ok: "rq_args_ok data dataLen header headerLen"
  shows "rq_shape (rq_pushed q data dataLen header headerLen) (ps @ [tail q])"
proof -
  let ?n = "queueSize q"
  have t: "1 \<le> tail q" "tail q \<le> ?n" "tail q \<notin> set ps" using rq_shape_tail [OF sh] by auto
  have "it_next (items q (tail q)) = ring_next ?n (tail q)" using sh t by (simp add: rq_shape_def)
  moreover have "ring_next ?n (tail q) = ring_pos ?n (head q) (Suc (length ps))"
    using sh by (simp add: rq_shape_def ring_pos_Suc)
  moreover have "ps @ [tail q] = ring_ptrs ?n (head q) (Suc (length ps))"
    using sh by (simp add: rq_shape_def)
  ultimately show ?thesis
    using sh free t rq_header_arg_length [OF ok] unfolding rq_shape_def
    by (auto simp: rq_pushed_def rq_new_item_def Let_def)
qed

text \<open>Every live payload stays clear of the window, so writing there leaves it as it was.\<close>

lemma rq_layout_clear:
  assumes "rq_layout q ps" "p \<in> set ps"
  shows "\<exists>d. it_data (items q p) = Some d \<and> 0 \<le> d \<and> 0 < it_dataLen (items q p) \<and>
    (d + it_dataLen (items q p) \<le> wrPos q \<or> wrEnd q \<le> d)"
proof -
  from assms(1) consider (one) a where "0 \<le> a" "rq_chain (items q) a ps (wrPos q)"
    | (two) as bs a e where "ps = as @ bs" "wrEnd q \<le> a" "rq_chain (items q) a as e"
      "rq_chain (items q) 0 bs (wrPos q)" "0 \<le> wrPos q" "wrPos q \<le> wrEnd q"
    unfolding rq_layout_def by blast
  then show ?thesis
  proof cases
    case one
    with rq_chain_seg [OF one(2) assms(2)] show ?thesis by auto
  next
    case two
    then consider "p \<in> set as" | "p \<in> set bs" using assms(2) by auto
    then show ?thesis
      using two rq_chain_seg [OF two(3), of p] rq_chain_seg [OF two(4), of p] by cases fastforce+
  qed
qed

lemma rq_msg_pushed_old:
  assumes lay: "rq_layout q ps" and sh: "rq_shape q ps" and p: "p \<in> set ps"
    and len: "0 \<le> dataLen" "dataLen \<le> wrEnd q - wrPos q"
  shows "rq_msg (rq_pushed q data dataLen header headerLen) p = rq_msg q p"
proof -
  obtain d where d: "it_data (items q p) = Some d" "0 \<le> d" "0 < it_dataLen (items q p)"
    "d + it_dataLen (items q p) \<le> wrPos q \<or> wrEnd q \<le> d" using rq_layout_clear [OF lay p] by blast
  have "0 \<le> wrPos q" using lay by (simp add: rq_layout_def)
  then have "nat d + nat (it_dataLen (items q p)) \<le> nat (wrPos q) \<or>
      nat (wrPos q) + length (take (nat dataLen) data) \<le> nat d"
    using d(2-4) len by auto
  then have "mem_get (mem_put (block q) (nat (wrPos q)) (take (nat dataLen) data)) (nat d)
      (nat (it_dataLen (items q p))) = mem_get (block q) (nat d) (nat (it_dataLen (items q p)))"
    by (meson mem_get_put_before mem_get_put_after)
  moreover have "p \<noteq> tail q" using rq_shape_tail [OF sh] p by auto
  ultimately show ?thesis by (simp add: rq_msg_def rq_pushed_def d(1))
qed

lemma rq_msg_pushed_new:
  assumes ok: "rq_args_ok data dataLen header headerLen"
  shows "rq_msg (rq_pushed q data dataLen header headerLen) (tail q) =
    \<lparr>m_payload = take (nat dataLen) data, m_header = rq_header_arg header headerLen, m_mask = userMask q\<rparr>"
proof -
  have "length (take (nat dataLen) data) = nat dataLen" using ok by (auto simp: rq_args_ok_def)
  then show ?thesis
    using mem_get_put_same [of "block q" "nat (wrPos q)" "take (nat dataLen) data"]
    by (simp add: rq_msg_def rq_pushed_def rq_new_item_def Let_def)
qed

lemma rq_layout_pushed:
  assumes lay: "rq_layout q ps" and sh: "rq_shape q ps" and ok: "rq_args_ok data dataLen header headerLen"
    and len: "dataLen \<le> wrEnd q - wrPos q"
  shows "rq_layout (rq_pushed q data dataLen header headerLen) (ps @ [tail q])"
proof -
  let ?q = "rq_pushed q data dataLen header headerLen"
  have wr: "wrPos ?q = wrPos q + dataLen" "wrEnd ?q = wrEnd q" "memEnd ?q = memEnd q"
    and it: "items ?q (tail q) = rq_new_item q dataLen header headerLen"
    by (simp_all add: rq_pushed_def)
  have pos: "0 < dataLen" using ok by (simp add: rq_args_ok_def)
  have new: "rq_chain (items ?q) (wrPos q) [tail q] (wrPos q + dataLen)"
    using pos by (simp add: it rq_new_item_def Let_def)
  have old: "rq_chain (items ?q) a xs e = rq_chain (items q) a xs e" if "set xs \<subseteq> set ps" for a xs e
    using that rq_shape_tail [OF sh] by (intro rq_chain_cong) (auto simp: rq_pushed_def)
  have b: "0 \<le> wrPos q" "wrPos q \<le> wrEnd q" "wrEnd q \<le> memEnd q" using lay by (auto simp: rq_layout_def)
  from lay consider (one) a where "0 \<le> a" "rq_chain (items q) a ps (wrPos q)"
    | (two) as bs a e where "ps = as @ bs" "as \<noteq> []" "wrEnd q \<le> a" "rq_chain (items q) a as e"
      "e \<le> memEnd q" "memEnd q \<le> 2 * e" "rq_chain (items q) 0 bs (wrPos q)"
    unfolding rq_layout_def by blast
  then show ?thesis
  proof cases
    case one
    then have "rq_chain (items ?q) a (ps @ [tail q]) (wrPos ?q)"
      using new unfolding rq_chain_append wr by (auto simp: old)
    with one(1) b len pos show ?thesis unfolding rq_layout_def wr by auto
  next
    case two
    then have "rq_chain (items ?q) 0 (bs @ [tail q]) (wrPos ?q)" "rq_chain (items ?q) a as e"
      using new unfolding rq_chain_append wr by (auto simp: old)
    with two b len pos show ?thesis unfolding rq_layout_def wr
      by (intro conjI disjI2 exI [of _ as] exI [of _ "bs @ [tail q]"] exI [of _ a] exI [of _ e]) auto
  qed
qed

definition rq_arg_msg :: "rq \<Rightarrow> u8 list \<Rightarrow> int \<Rightarrow> u8 list option \<Rightarrow> int \<Rightarrow> rq_message" where
  "rq_arg_msg q data dataLen header headerLen =
     \<lparr>m_payload = take (nat dataLen) data, m_header = rq_header_arg header headerLen, m_mask = userMask q\<rparr>"

text \<open>The loop ends with a queue that is in order and one of the outcomes of a bounded queue.\<close>

definition rq_writes :: "u8 list \<Rightarrow> int \<Rightarrow> u8 list option \<Rightarrow> int \<Rightarrow> rq \<Rightarrow> nat list \<Rightarrow> bool" where
  "rq_writes data dataLen header headerLen q ps \<longleftrightarrow>
     (\<exists>r q' ps'. rq_write_loop data dataLen header headerLen q = Some (Inr (r, q')) \<and>
        rq_shape q' ps' \<and> rq_layout q' ps' \<and> userMask q' = userMask q \<and>
        queueSize q' = queueSize q \<and> memEnd q' = memEnd q \<and>
        rq_outcome (rq_arg_msg q data dataLen header headerLen) (map (rq_msg q) ps) r (map (rq_msg q') ps'))"

lemma rq_msg_mask [simp]: "m_mask (rq_msg q p) = it_mask (items q p)"
  by (simp add: rq_msg_def Let_def)

lemma rq_same_msgs: "rq_same q q' \<Longrightarrow> map (rq_msg q') ps = map (rq_msg q) ps"
  by (simp add: rq_same_msg)

text \<open>A free descriptor is available, or the writer is turned away.\<close>

lemma rq_check_full_cases:
  assumes sh: "rq_shape q ps" and lay: "rq_layout q ps" and n: "3 \<le> queueSize q"
  obtains (blocked) p ps' where "rq_check_full q = Inr (False, q)" "ps = p # ps'" "it_mask (items q p) \<noteq> 0"
  | (free) q1 ps1 xs where "rq_check_full q = Inr (True, q1)" "rq_shape q1 ps1" "rq_layout q1 ps1"
      "rq_same q q1" "wrPos q1 = wrPos q" "wrEnd q1 = wrEnd q" "Suc (length ps1) < queueSize q"
      "ps = xs @ ps1" "\<forall>p \<in> set xs. it_mask (items q p) = 0"
proof (cases "Suc (length ps) = queueSize q")
  case False
  with sh lay free [of q ps "[]"] show thesis by (auto simp: rq_check_full_eq [OF sh] rq_shape_def)
next
  case True
  with n obtain p ps' where ps: "ps = p # ps'" "ps' \<noteq> []" by (cases ps; cases "tl ps") auto
  note hd = rq_shape_head [OF sh [unfolded ps]]
  show thesis
  proof (cases "it_mask (items q p) = 0")
    case False
    with True ps hd show thesis by (intro blocked) (simp_all add: rq_check_full_eq [OF sh])
  next
    case clean: True
    show thesis
    proof (rule free [of "rq_dropped q" ps' "[p]"])
      show "rq_check_full q = Inr (True, rq_dropped q)"
        using True clean hd by (simp add: rq_check_full_eq [OF sh])
      show "rq_shape (rq_dropped q) ps'" by (rule rq_shape_dropped [OF sh [unfolded ps]])
      show "rq_layout (rq_dropped q) ps'" using lay ps by (auto intro: rq_layout_dropped)
    qed (use True ps clean in simp_all)
  qed
qed

lemma rq_outcome_drops:
  "rq_outcome m ms r ms' \<Longrightarrow> \<forall>x \<in> set xs. m_mask x = 0 \<Longrightarrow> rq_outcome m (xs @ ms) r ms'"
  by (induction xs) (auto intro: rq_outcome_drop)

lemma rq_arg_msg_same: "rq_same q q' \<Longrightarrow> rq_arg_msg q' data dataLen header headerLen = rq_arg_msg q data dataLen header headerLen"
  by (simp add: rq_arg_msg_def rq_same_def)

lemma rq_writes_skip:
  assumes w: "rq_writes data dataLen header headerLen q' ps'" and same: "rq_same q q'"
    and eq: "rq_write_loop data dataLen header headerLen q = rq_write_loop data dataLen header headerLen q'"
    and ps: "ps = xs @ ps'" "\<forall>p \<in> set xs. it_mask (items q p) = 0"
  shows "rq_writes data dataLen header headerLen q ps"
proof -
  from w obtain r q2 ps2 where res: "rq_write_loop data dataLen header headerLen q' = Some (Inr (r, q2))"
    "rq_shape q2 ps2" "rq_layout q2 ps2" "userMask q2 = userMask q'" "queueSize q2 = queueSize q'"
    "memEnd q2 = memEnd q'"
    and out: "rq_outcome (rq_arg_msg q' data dataLen header headerLen) (map (rq_msg q') ps') r (map (rq_msg q2) ps2)"
    unfolding rq_writes_def by blast
  from out have "rq_outcome (rq_arg_msg q data dataLen header headerLen) (map (rq_msg q) ps) r (map (rq_msg q2) ps2)"
    unfolding rq_arg_msg_same [OF same] rq_same_msgs [OF same] ps(1) map_append
    by (rule rq_outcome_drops) (simp add: ps(2))
  with res eq same show ?thesis unfolding rq_writes_def rq_same_def by auto
qed

lemma rq_writes_push:
  assumes sh: "rq_shape q1 ps1" and lay: "rq_layout q1 ps1" and free: "Suc (length ps1) < queueSize q1"
    and ok: "rq_args_ok data dataLen header headerLen" and len: "dataLen \<le> wrEnd q1 - wrPos q1"
    and full: "rq_check_full q = Inr (True, q1)" and wr: "wrPos q1 = wrPos q" "wrEnd q1 = wrEnd q"
    and same: "rq_same q q1" and ps: "ps = xs @ ps1" "\<forall>p \<in> set xs. it_mask (items q p) = 0"
  shows "rq_writes data dataLen header headerLen q ps"
proof -
  let ?q = "rq_pushed q1 data dataLen header headerLen"
  have b: "0 \<le> wrPos q1" "wrEnd q1 \<le> memEnd q1" using lay by (auto simp: rq_layout_def)
  have pos: "0 \<le> dataLen" using ok by (simp add: rq_args_ok_def)
  have "setItemTail q1 data dataLen header headerLen = Inr ?q"
    using b len by (intro setItemTail_eq [OF sh ok]) simp_all
  then have loop: "rq_write_loop data dataLen header headerLen q = Some (Inr (VCAR_SYS_RQ_OK, ?q))"
    using full len wr by (subst rq_write_loop.simps) simp
  have "map (rq_msg ?q) ps1 = map (rq_msg q) ps1"
    using rq_msg_pushed_old [OF lay sh _ pos len] by (simp add: rq_same_msg [OF same])
  moreover have "rq_msg ?q (tail q1) = rq_arg_msg q data dataLen header headerLen"
    using rq_msg_pushed_new [OF ok] rq_arg_msg_same [OF same] by (simp add: rq_arg_msg_def)
  ultimately have "map (rq_msg ?q) (ps1 @ [tail q1]) =
      map (rq_msg q) ps1 @ [rq_arg_msg q data dataLen header headerLen]" by simp
  then have "rq_outcome (rq_arg_msg q data dataLen header headerLen) (map (rq_msg q) ps)
      VCAR_SYS_RQ_OK (map (rq_msg ?q) (ps1 @ [tail q1]))"
    unfolding ps(1) map_append [of _ xs] by (metis rq_outcome_drops rq_outcome_now ps(2) set_map imageE rq_msg_mask)
  moreover have "userMask ?q = userMask q" "queueSize ?q = queueSize q" "memEnd ?q = memEnd q"
    using same by (simp_all add: rq_pushed_def rq_same_def)
  ultimately show ?thesis
    using loop rq_shape_pushed [OF sh free ok] rq_layout_pushed [OF lay sh ok len]
    unfolding rq_writes_def by blast
qed

lemma rq_layout_widen:
  assumes "rq_layout q ps" "ps = p # ps'" "it_data (items q p) = Some d" "d < wrPos q"
  shows "rq_layout (q\<lparr>wrEnd := memEnd q\<rparr>) ps"
proof -
  have "\<not> (\<exists>as bs a e. ps = as @ bs \<and> as \<noteq> [] \<and> wrEnd q \<le> a \<and> rq_chain (items q) a as e)"
  proof clarify
    fix as bs a e
    assume "ps = as @ bs" "as \<noteq> []" "wrEnd q \<le> a" "rq_chain (items q) a as e"
    then have "d = a" using assms(2,3) by (cases as) auto
    with assms(1,4) \<open>wrEnd q \<le> a\<close> show False by (simp add: rq_layout_def)
  qed
  with assms(1,2) show ?thesis unfolding rq_layout_def by auto
qed

text \<open>Each round drops an item or widens the window, so the loop ends.\<close>

lemma rq_write_loop_ok:
  assumes "rq_shape q ps" "rq_layout q ps" "3 \<le> queueSize q"
    "rq_args_ok data dataLen header headerLen" "2 * dataLen \<le> memEnd q"
  shows "rq_writes data dataLen header headerLen q ps"
  using assms
proof (induction "2 * length ps + of_bool (wrEnd q \<noteq> memEnd q)" arbitrary: q ps rule: less_induct)
  case (less q ps)
  let ?loop = "rq_write_loop data dataLen header headerLen"
  from less.prems(1-3) show ?case
  proof (cases rule: rq_check_full_cases)
    case (blocked p ps')
    then have "?loop q = Some (Inr (VCAR_SYS_RQ_ERR_FULL, q))" by (subst rq_write_loop.simps) simp
    with blocked less.prems rq_outcome_full show ?thesis unfolding rq_writes_def by fastforce
  next
    case (free q1 ps1 xs)
    have n1: "queueSize q1 = queueSize q" "memEnd q1 = memEnd q" using free(4) by (simp_all add: rq_same_def)
    show ?thesis
    proof (cases "dataLen \<le> wrEnd q - wrPos q")
      case True
      with free less.prems n1 show ?thesis by (intro rq_writes_push [of q1 ps1]) simp_all
    next
      case False
      then have small: "wrEnd q1 - wrPos q1 < dataLen" "2 * dataLen \<le> memEnd q1"
        using free less.prems n1 by simp_all
      have step: "?loop q = (case rq_make_room q1 of Inl f \<Rightarrow> Some (Inl f)
          | Inr (go2, q2) \<Rightarrow> if \<not> go2 then Some (Inr (VCAR_SYS_RQ_ERR_FULL, q2)) else ?loop q2)"
        using False free(1) by (subst rq_write_loop.simps) simp
      from free(3) small obtain p ps2 where ps1: "ps1 = p # ps2"
        by (cases ps1) (auto simp: rq_layout_def)
      from rq_make_room_cases [OF free(2,3) [unfolded ps1] small] show ?thesis
      proof (elim disjE)
        assume "rq_room_blocked q1 p (rq_make_room q1)"
        then have m: "it_mask (items q1 p) \<noteq> 0" and "?loop q = Some (Inr (VCAR_SYS_RQ_ERR_FULL, q1))"
          by (auto simp: rq_room_blocked_def step)
        moreover have "rq_outcome (rq_arg_msg q data dataLen header headerLen) (map (rq_msg q) ps)
            VCAR_SYS_RQ_ERR_FULL (map (rq_msg q1) ps1)"
          unfolding rq_same_msgs [OF free(4), of ps1] free(8) map_append unfolding ps1 list.map
        proof (rule rq_outcome_drops [OF rq_outcome_full])
          show "m_mask (rq_msg q p) \<noteq> 0" using m free(4) by (simp add: rq_same_def)
        qed (simp add: free(9))
        ultimately show ?thesis using free n1 unfolding rq_writes_def rq_same_def by auto
      next
        assume wide: "rq_room_widened q1 p (rq_make_room q1)"
        let ?q = "q1\<lparr>wrEnd := memEnd q1\<rparr>"
        have "rq_writes data dataLen header headerLen ?q ps1"
        proof (rule less.hyps)
          show "rq_layout ?q ps1" using wide free(3) ps1 rq_layout_widen
            unfolding rq_room_widened_def by blast
        qed (use wide free less.prems n1 in \<open>auto simp: rq_room_widened_def intro: rq_shape_cong\<close>)
        then show ?thesis
          by (rule rq_writes_skip) (use wide free in \<open>auto simp: step rq_room_widened_def rq_same_def\<close>)
      next
        assume drop: "rq_room_dropped q1 p ps2 (rq_make_room q1)"
        then obtain q2 where q2: "rq_make_room q1 = Inr (True, q2)" "rq_shape q2 ps2" "rq_layout q2 ps2"
          "rq_same q1 q2" and m: "it_mask (items q1 p) = 0" by (auto simp: rq_room_dropped_def)
        have "rq_writes data dataLen header headerLen q2 ps2"
          by (rule less.hyps) (use q2 free less.prems n1 ps1 in \<open>auto simp: rq_same_def\<close>)
        then show ?thesis
          by (rule rq_writes_skip [of _ _ _ _ _ _ _ _ "xs @ [p]"])
            (use q2 free m ps1 in \<open>auto simp: step rq_same_def\<close>)
      qed
    qed
  qed
qed

lemma rq_write_returns:
  assumes "rq_inv q" "3 \<le> queueSize q" "rq_args_ok data dataLen header headerLen"
    "2 * dataLen \<le> memEnd q"
  shows "\<exists>r q'. VCAR_SYS_RingQueueWrite q (Some data) dataLen header headerLen = Inr (r, q') \<and>
    rq_inv q' \<and> userMask q' = userMask q \<and> queueSize q' = queueSize q \<and> memEnd q' = memEnd q \<and>
    rq_outcome (rq_arg_msg q data dataLen header headerLen) (rq_live q) r (rq_live q')"
proof -
  have w: "rq_writes data dataLen header headerLen q (rq_ptrs q)"
    using assms by (intro rq_write_loop_ok) (auto simp: rq_inv_def)
  have "VCAR_SYS_RingQueueWrite q (Some data) dataLen header headerLen =
      run_loop (rq_write_loop data dataLen header headerLen q)"
    using assms(3) by (auto simp: VCAR_SYS_RingQueueWrite_def rq_args_ok_def)
  moreover obtain r q' ps' where "rq_write_loop data dataLen header headerLen q = Some (Inr (r, q'))"
    "rq_shape q' ps'" "rq_layout q' ps'" "userMask q' = userMask q" "queueSize q' = queueSize q"
    "memEnd q' = memEnd q"
    "rq_outcome (rq_arg_msg q data dataLen header headerLen) (map (rq_msg q) (rq_ptrs q)) r (map (rq_msg q') ps')"
    using w unfolding rq_writes_def by blast
  ultimately show ?thesis
    using rq_live_eq [of q' ps'] rq_invI [of q' ps'] by (auto simp: run_loop_def rq_live_def)
qed


section \<open>Creating a queue\<close>

text \<open>The linking loop leaves every inner item between its neighbours.\<close>

lemma rq_link_loop_links:
  assumes "rq_link_loop e n i (i + 1) its = (True, p, its')" "1 \<le> i" "i < n"
  shows "p = n \<and>
    its' = (\<lambda>k. if i < k \<and> k < n then (its k)\<lparr>it_prev := k - 1, it_next := k + 1\<rparr> else its k)"
  using assms
proof (induction "n - 1 - i" arbitrary: i its)
  case 0
  then have "i = n - 1" by simp
  with 0 show ?case by (auto simp: rq_link_loop.simps [of e n "n - Suc 0"] fun_eq_iff)
next
  case (Suc m)
  let ?its = "its(Suc i := (its (Suc i))\<lparr>it_prev := i, it_next := Suc (Suc i)\<rparr>)"
  have lt: "i < n - 1" using Suc.hyps(2) by simp
  have "rq_link_loop e n (i + 1) (i + 1 + 1) ?its = (True, p, its')"
    using Suc.prems(1) lt by (subst (asm) rq_link_loop.simps) (auto simp: Let_def split: if_splits)
  from Suc.hyps(1) [OF _ this] Suc.hyps(2) lt have "p = n" and its': "its' = (\<lambda>k. if i + 1 < k \<and> k < n
      then (?its k)\<lparr>it_prev := k - 1, it_next := k + 1\<rparr> else ?its k)"
    by auto
  then show ?case using lt by (auto simp: fun_eq_iff)
qed

lemma rq_link_loop_ok:
  assumes "\<forall>p. env_attr e p = 0 \<and> env_lock e p = 0"
  shows "fst (rq_link_loop e n i p its)"
  using assms
proof (induction e n i p its rule: rq_link_loop.induct)
  case (1 e n i p its)
  then show ?case
    by (subst rq_link_loop.simps) (auto simp: VCAR_SYS_RWLockInit_def Let_def fun_upd_def)
qed

text \<open>The structure the allocation and linking code builds.\<close>

definition rq_linked :: "mem \<Rightarrow> int \<Rightarrow> nat \<Rightarrow> u32 \<Rightarrow> (nat \<Rightarrow> rq_item) \<Rightarrow> rq" where
  "rq_linked m memSize n msk its =
     zero_queue\<lparr>memStart := True, block := m, start := True, memEnd := memSize, wrPos := 0,
       wrEnd := memSize, queueSize := n, userMask := msk, initMask := msk, items := its, head := 1, tail := 1\<rparr>"

lemma rq_linked_inv:
  assumes "0 < memSize" "2 \<le> n"
    and "its = (\<lambda>k. if k = n then zero_item\<lparr>it_prev := n - 1, it_next := 1\<rparr>
               else if k = 1 then zero_item\<lparr>it_prev := n, it_next := 2\<rparr>
               else if 1 < k \<and> k < n then zero_item\<lparr>it_prev := k - 1, it_next := k + 1\<rparr> else zero_item)"
  shows "rq_shape (rq_linked m memSize n msk its) []" "rq_layout (rq_linked m memSize n msk its) []"
  using assms
  by (auto simp: rq_linked_def rq_shape_def rq_layout_def ring_pos_def ring_next_def ring_prev_def
      zero_item_def VCAR_SYS_RQ_MAX_HEADER_LEN_def)

lemma rq_creat_eq:
  assumes "0 < memSize" "1 < n" "env_queue e" "env_mem e = Some m" "env_items e"
  defines "its \<equiv> (\<lambda>_. zero_item)(1 := zero_item\<lparr>it_prev := nat n, it_next := 2\<rparr>)"
  shows "VCAR_SYS_RingQueueCreat e memSize n msk =
    (case rq_link_loop e (nat n) 1 2 its of
       (False, p, its') \<Rightarrow> Inr (None, map (\<lambda>i. LockDestroyed (i + 1)) [0..<nat n] @
          [ItemsFreed, MemFreed, QueueLockDestroyed, QueueFreed])
     | (True, p, its') \<Rightarrow>
         Inr (Some (rq_linked m memSize (nat n) msk (its'(p := (its' p)\<lparr>it_prev := nat n - 1, it_next := 1\<rparr>))), []))"
  using assms(1-5)
  by (auto simp: VCAR_SYS_RingQueueCreat_def its_def rq_linked_def zero_queue_def Let_def
      VCAR_SYS_RingQueueDestroy_def VCAR_SYS_RWLockDestroy_def concat_map_singleton split: prod.splits bool.splits)

lemma rq_creat_full:
  assumes "0 < memSize" "1 < n" "env_queue e" "env_mem e = Some m" "env_items e"
    "VCAR_SYS_RingQueueCreat e memSize n msk = Inr (Some q, rel)"
  shows "rel = [] \<and> rq_inv q \<and> rq_live q = [] \<and> int (queueSize q) = n \<and> memEnd q = memSize \<and>
    wrPos q = 0 \<and> wrEnd q = memSize \<and> userMask q = msk \<and> initMask q = msk"
proof -
  let ?n = "nat n" and ?its = "(\<lambda>_. zero_item)(1 := zero_item\<lparr>it_prev := nat n, it_next := 2\<rparr>)"
  have n2: "2 \<le> ?n" using assms(2) by simp
  obtain p its' where loop: "rq_link_loop e ?n 1 2 ?its = (True, p, its')" and rel: "rel = []"
    and q: "q = rq_linked m memSize ?n msk (its'(p := (its' p)\<lparr>it_prev := ?n - 1, it_next := 1\<rparr>))"
    using assms(6) unfolding rq_creat_eq [OF assms(1-5)] by (auto split: prod.splits bool.splits)
  have "rq_link_loop e ?n 1 (1 + 1) ?its = (True, p, its')" using loop by (simp add: numeral_2_eq_2)
  from rq_link_loop_links [OF this] n2 have p: "p = ?n" and
    its': "its' = (\<lambda>k. if 1 < k \<and> k < ?n then (?its k)\<lparr>it_prev := k - 1, it_next := k + 1\<rparr> else ?its k)"
    by auto
  have sh: "rq_shape q []" and lay: "rq_layout q []"
    unfolding q by (rule rq_linked_inv; use assms(1) n2 in \<open>auto simp: p its' fun_eq_iff\<close>)+
  show ?thesis using rel rq_invI [OF sh lay] rq_live_eq [OF sh] assms(2)
    by (simp add: q rq_linked_def)
qed

text \<open>
  Creation. A non-positive block size or a ring of fewer than two descriptors is rejected, but
  when the queue block has been allocated the rejection path reads it before it is initialised. Any
  other call returns null, having released exactly what it had allocated, or a queue in order with
  no message, the whole block free, the requested size and masks; with memory and locks
  available it is the latter.
\<close>

theorem rq_creat_spec:
  "(memSize \<le> 0 \<or> n \<le> 1 \<longrightarrow>
      VCAR_SYS_RingQueueCreat e memSize n msk = (if env_queue e then Inl Uninitialised else Inr (None, []))) \<and>
   (0 < memSize \<longrightarrow> 1 < n \<longrightarrow>
      (\<exists>r rel. VCAR_SYS_RingQueueCreat e memSize n msk = Inr (r, rel) \<and>
        (case r of
           None \<Rightarrow> (QueueFreed \<in> set rel \<longleftrightarrow> env_queue e) \<and>
             (MemFreed \<in> set rel \<longleftrightarrow> env_queue e \<and> env_mem e \<noteq> None) \<and>
             (ItemsFreed \<in> set rel \<longleftrightarrow> env_queue e \<and> env_mem e \<noteq> None \<and> env_items e)
         | Some q \<Rightarrow> rel = [] \<and> rq_inv q \<and> rq_live q = [] \<and> int (queueSize q) = n \<and> memEnd q = memSize \<and>
             wrPos q = 0 \<and> wrEnd q = memSize \<and> userMask q = msk \<and> initMask q = msk) \<and>
        (env_queue e \<and> env_mem e \<noteq> None \<and> env_items e \<and> (\<forall>p. env_attr e p = 0 \<and> env_lock e p = 0) \<longrightarrow> r \<noteq> None)))"
proof (intro conjI impI)
  assume "0 < memSize" "1 < n"
  show "\<exists>r rel. VCAR_SYS_RingQueueCreat e memSize n msk = Inr (r, rel) \<and>
        (case r of
           None \<Rightarrow> (QueueFreed \<in> set rel \<longleftrightarrow> env_queue e) \<and>
             (MemFreed \<in> set rel \<longleftrightarrow> env_queue e \<and> env_mem e \<noteq> None) \<and>
             (ItemsFreed \<in> set rel \<longleftrightarrow> env_queue e \<and> env_mem e \<noteq> None \<and> env_items e)
         | Some q \<Rightarrow> rel = [] \<and> rq_inv q \<and> rq_live q = [] \<and> int (queueSize q) = n \<and> memEnd q = memSize \<and>
             wrPos q = 0 \<and> wrEnd q = memSize \<and> userMask q = msk \<and> initMask q = msk) \<and>
        (env_queue e \<and> env_mem e \<noteq> None \<and> env_items e \<and> (\<forall>p. env_attr e p = 0 \<and> env_lock e p = 0) \<longrightarrow> r \<noteq> None)"
  proof (cases "env_queue e \<and> env_items e \<and> env_mem e \<noteq> None")
    case False
    with \<open>0 < memSize\<close> \<open>1 < n\<close> show ?thesis
      by (cases "env_mem e") (auto simp: VCAR_SYS_RingQueueCreat_def VCAR_SYS_RingQueueDestroy_def
          VCAR_SYS_RWLockDestroy_def zero_queue_def)
  next
    case True
    then obtain m where m: "env_queue e" "env_items e" "env_mem e = Some m" by auto
    note eq = rq_creat_eq [OF \<open>0 < memSize\<close> \<open>1 < n\<close> m(1,3,2), of msk]
    note full = rq_creat_full [OF \<open>0 < memSize\<close> \<open>1 < n\<close> m(1,3,2), of msk]
    obtain ok p its' where loop: "rq_link_loop e (nat n) 1 2
        ((\<lambda>_. zero_item)(1 := zero_item\<lparr>it_prev := nat n, it_next := 2\<rparr>)) = (ok, p, its')"
      by (cases "rq_link_loop e (nat n) 1 2
        ((\<lambda>_. zero_item)(1 := zero_item\<lparr>it_prev := nat n, it_next := 2\<rparr>))")
    have "ok" if "\<forall>p. env_attr e p = 0 \<and> env_lock e p = 0"
      using rq_link_loop_ok [OF that] loop by (metis fst_conv)
    with m full show ?thesis unfolding eq loop by (cases ok) auto
  qed
qed (simp add: VCAR_SYS_RingQueueCreat_def)

section \<open>Reading and searching\<close>

text \<open>Reading marks an item for one reader and changes nothing else.\<close>

definition rq_marked :: "rq_message \<Rightarrow> u32 \<Rightarrow> rq_message" where
  "rq_marked m msk = m\<lparr>m_mask := m_mask m AND NOT msk\<rparr>"

definition rq_read_out :: "rq \<Rightarrow> nat \<Rightarrow> int \<Rightarrow> bool \<Rightarrow> int \<Rightarrow> rq_out" where
  "rq_read_out q p dataLen header headerLen =
     \<lparr>out_ret = VCAR_SYS_RQ_OK, out_index = ring_next (queueSize q) p,
      out_data = take (nat dataLen) (m_payload (rq_msg q p)),
      out_header = (if header \<and> headerLen > 0 then take (nat headerLen) (m_header (rq_msg q p)) else [])\<rparr>"

definition rq_cleared :: "rq \<Rightarrow> nat \<Rightarrow> u32 \<Rightarrow> rq" where
  "rq_cleared q p msk = rq_put q p ((items q p)\<lparr>it_mask := it_mask (items q p) AND NOT msk\<rparr>)"

lemma and_not_disjoint:
  assumes "x AND y = (0::'a::len word)"
  shows "x AND NOT y = x"
proof (rule bit_word_eqI)
  fix n assume "n < LENGTH('a)"
  moreover have "\<not> bit (x AND y) n" using assms by simp
  ultimately show "bit (x AND NOT y) n = bit x n" by (auto simp: bit_simps)
qed

lemma rq_copy_take:
  "0 \<le> len \<Longrightarrow> 0 \<le> n \<Longrightarrow> 0 \<le> d \<Longrightarrow> rq_copy m (Some d) len n = Inr (take (nat len) (mem_get m (nat d) (nat n)))"
  by (auto simp: rq_copy_def Let_def min_def nat_le_eq_zle)

lemma rq_take_eq:
  assumes sh: "rq_shape q ps" and lay: "rq_layout q ps" and p: "p \<in> set ps" and len: "0 \<le> dataLen"
  shows "rq_take q p (items q p) msk True dataLen header headerLen =
    Inr (rq_read_out q p dataLen header headerLen, rq_cleared q p msk)"
proof -
  obtain d where d: "it_data (items q p) = Some d" "0 \<le> d" "0 < it_dataLen (items q p)"
    using rq_layout_clear [OF lay p] by blast
  have it: "it_next (items q p) = ring_next (queueSize q) p" "0 \<le> it_headerLen (items q p)"
    using sh rq_shape_mem [OF sh p] by (auto simp: rq_shape_def)
  let ?it = "if it_mask (items q p) AND msk \<noteq> 0
    then (items q p)\<lparr>it_mask := it_mask (items q p) AND NOT msk\<rparr> else items q p"
  have m: "?it = (items q p)\<lparr>it_mask := it_mask (items q p) AND NOT msk\<rparr>"
    by (auto simp: and_not_disjoint)
  show ?thesis
    using d it len unfolding rq_take_def m Let_def
    by (auto simp: rq_copy_take rq_read_out_def rq_msg_def rq_cleared_def Let_def)
qed

lemma rq_shape_cleared: "rq_shape q ps \<Longrightarrow> rq_shape (rq_cleared q p msk) ps"
  by (auto simp: rq_shape_def rq_cleared_def rq_put_def)

lemma rq_layout_cleared: "rq_layout q ps \<Longrightarrow> rq_layout (rq_cleared q p msk) ps"
proof -
  have "rq_chain (items (rq_cleared q p msk)) a xs e = rq_chain (items q) a xs e" for a xs e
    by (rule rq_chain_cong) (auto simp: rq_cleared_def rq_put_def)
  then show "rq_layout q ps \<Longrightarrow> rq_layout (rq_cleared q p msk) ps"
    by (simp add: rq_layout_def) (simp add: rq_cleared_def rq_put_def)
qed

lemma rq_live_cleared:
  assumes sh: "rq_shape q ps" and j: "j < length ps"
  shows "rq_live (rq_cleared q (ps ! j) msk) = (rq_live q)[j := rq_marked (rq_live q ! j) msk]"
proof -
  have "distinct ps" using rq_shape_tail [OF sh] by simp
  then have "map (rq_msg (rq_cleared q (ps ! j) msk)) ps = (map (rq_msg q) ps)[j := rq_marked (rq_msg q (ps ! j)) msk]"
    using j by (intro nth_equalityI)
      (auto simp: nth_list_update rq_msg_def rq_cleared_def rq_put_def rq_marked_def nth_eq_iff_index_eq Let_def
        split: option.split)
  with j show ?thesis by (simp add: rq_live_eq [OF sh] rq_live_eq [OF rq_shape_cleared [OF sh]])
qed

lemma rq_valid_live: "rq_shape q ps \<Longrightarrow> p \<in> set ps \<Longrightarrow> it_valid (items q p) \<and> p \<noteq> tail q \<and> p \<noteq> 0"
  using rq_shape_mem [of q ps p] rq_shape_tail [of q ps] unfolding rq_shape_def by auto

lemma rq_read_at:
  assumes sh: "rq_shape q ps" and lay: "rq_layout q ps" and p: "p \<in> set ps" and len: "0 \<le> dataLen"
  shows "RingQueueRead_from q (Some p) msk True dataLen header headerLen fromHead =
    Inr (rq_read_out q p dataLen header headerLen, rq_cleared q p msk)"
  using rq_valid_live [OF sh p] rq_shape_mem [OF sh p] rq_take_eq [OF sh lay p len]
  by (simp add: RingQueueRead_from_def)


lemma rq_shape_first:
  assumes "rq_shape q ps"
  shows "(ps @ [tail q]) ! 0 = head q"
proof (cases ps)
  case Nil
  with assms show ?thesis by (simp add: rq_shape_def ring_pos_0)
next
  case (Cons p ps')
  with rq_shape_head [OF assms [unfolded Cons]] show ?thesis by simp
qed

text \<open>The newest message is the item before the tail; the oldest one is the head.\<close>

lemma rq_shape_last:
  assumes sh: "rq_shape q ps" and ne: "ps \<noteq> []"
  shows "it_prev (items q (tail q)) = last ps" "hd ps = head q"
proof -
  let ?n = "queueSize q" and ?k = "length ps - 1"
  have k: "length ps = Suc ?k" using ne by simp
  have ps: "ps = ring_ptrs ?n (head q) (Suc ?k)" and t: "tail q = ring_pos ?n (head q) (Suc ?k)"
    using sh k by (auto simp: rq_shape_def simp del: ring_ptrs_simps)
  have "last ps = ring_pos ?n (head q) ?k" by (subst ps) simp
  moreover have "it_prev (items q (tail q)) = ring_prev ?n (tail q)"
    using sh rq_shape_tail [OF sh] by (simp add: rq_shape_def)
  moreover have "0 < ?n" using sh by (simp add: rq_shape_def)
  ultimately show "it_prev (items q (tail q)) = last ps"
    using ring_pos_range [of ?n "head q" ?k] by (simp add: t ring_pos_Suc ring_next_prev)
  show "hd ps = head q" using ne rq_shape_head sh by (cases ps) auto
qed

lemma rq_ptrs_next:
  assumes sh: "rq_shape q ps" and j: "j < length ps"
  shows "ring_next (queueSize q) (ps ! j) = (ps @ [tail q]) ! Suc j"
proof -
  let ?n = "queueSize q"
  have ps: "ps ! i = ring_pos ?n (head q) i" if "i < length ps" for i
    using sh that by (metis rq_shape_def ring_ptrs_def nth_map_upt add_0 diff_zero)
  have n: "0 < ?n" and t: "tail q = ring_pos ?n (head q) (length ps)" using sh by (auto simp: rq_shape_def)
  have "ring_next ?n (ps ! j) = ring_pos ?n (head q) (Suc j)" using ps [OF j] n by (simp add: ring_pos_Suc)
  also have "\<dots> = (ps @ [tail q]) ! Suc j"
    using j ps [of "Suc j"] t by (cases "Suc j = length ps") (auto simp: nth_append)
  finally show ?thesis .
qed

text \<open>A consumer that reads from the oldest message on, \<open>k\<close> times, passing its cursor along.\<close>

fun rq_consume :: "nat \<Rightarrow> rq \<Rightarrow> nat \<Rightarrow> u32 \<Rightarrow> int \<Rightarrow> c_fault + (u8 list list \<times> nat \<times> rq)" where
  "rq_consume 0 q idx msk dataLen = Inr ([], idx, q)"
| "rq_consume (Suc k) q idx msk dataLen =
     bind_fault (VCAR_SYS_RingQueueReadFromHead q (Some idx) msk True dataLen False 0) (\<lambda>(out, q').
     bind_fault (rq_consume k q' (out_index out) msk dataLen) (\<lambda>(ds, idx', q'').
     Inr (out_data out # ds, idx', q'')))"

lemma rq_cleared_simps [simp]:
  "queueSize (rq_cleared q p msk) = queueSize q" "tail (rq_cleared q p msk) = tail q"
  "head (rq_cleared q p msk) = head q" "m_payload (rq_msg (rq_cleared q p msk) p') = m_payload (rq_msg q p')"
  by (auto simp: rq_cleared_def rq_put_def rq_msg_def Let_def split: option.split)

lemma rq_consume_from:
  assumes "rq_shape q ps" "rq_layout q ps" "0 \<le> dataLen" "j + k = length ps"
  shows "\<exists>q'. rq_consume k q ((ps @ [tail q]) ! j) msk dataLen =
      Inr (map (\<lambda>p. take (nat dataLen) (m_payload (rq_msg q p))) (drop j ps), tail q, q') \<and>
    rq_shape q' ps \<and> rq_layout q' ps \<and> tail q' = tail q \<and> head q' = head q \<and>
    rq_live q' = take j (rq_live q) @ map (\<lambda>m. rq_marked m msk) (drop j (rq_live q))"
  using assms
proof (induction k arbitrary: q j)
  case 0
  then show ?case by (auto simp: nth_append rq_live_eq)
next
  case (Suc k)
  let ?p = "ps ! j" and ?q = "rq_cleared q (ps ! j) msk"
  have j: "j < length ps" using Suc.prems by simp
  then have p: "?p \<in> set ps" "(ps @ [tail q]) ! j = ?p" by (auto simp: nth_append)
  have "rq_shape ?q ps" "rq_layout ?q ps"
    using Suc.prems by (auto intro: rq_shape_cleared rq_layout_cleared)
  from Suc.IH [OF this, of "Suc j"] Suc.prems obtain q' where
    q': "rq_consume k ?q ((ps @ [tail q]) ! Suc j) msk dataLen =
      Inr (map (\<lambda>p. take (nat dataLen) (m_payload (rq_msg q p))) (drop (Suc j) ps), tail q, q')"
    "rq_shape q' ps" "rq_layout q' ps" "tail q' = tail q" "head q' = head q"
    "rq_live q' = take (Suc j) (rq_live ?q) @ map (\<lambda>m. rq_marked m msk) (drop (Suc j) (rq_live ?q))"
    by auto
  have live: "length (rq_live q) = length ps" using rq_live_eq [OF Suc.prems(1)] by simp
  have "rq_live q' = take j (rq_live q) @ map (\<lambda>m. rq_marked m msk) (drop j (rq_live q))"
    using j live unfolding q'(6) rq_live_cleared [OF Suc.prems(1) j]
    by (simp add: take_Suc_conv_app_nth Cons_nth_drop_Suc [symmetric])
  moreover have "rq_consume (Suc k) q ((ps @ [tail q]) ! j) msk dataLen =
      Inr (map (\<lambda>p. take (nat dataLen) (m_payload (rq_msg q p))) (drop j ps), tail q, q')"
    using q'(1) rq_read_at [OF Suc.prems(1,2) p(1) Suc.prems(3)] rq_ptrs_next [OF Suc.prems(1) j] j
    by (simp add: p(2) VCAR_SYS_RingQueueReadFromHead_def rq_read_out_def Cons_nth_drop_Suc [symmetric])
  ultimately show ?case using q' by auto
qed

text \<open>The value 0 of a cursor stands for the oldest message.\<close>

lemma rq_consume_0:
  assumes sh: "rq_shape q ps" and k: "k = length ps"
  shows "rq_consume k q 0 msk dataLen =
    (if ps = [] then Inr ([], 0, q) else rq_consume k q (head q) msk dataLen)"
proof (cases ps)
  case (Cons p ps')
  have "p \<in> set ps" using Cons by simp
  from rq_valid_live [OF sh this] rq_shape_mem [OF sh this] rq_shape_head [OF sh [unfolded Cons]]
  have "RingQueueRead_from q (Some 0) msk True dataLen False 0 True =
      RingQueueRead_from q (Some (head q)) msk True dataLen False 0 True"
    by (simp add: RingQueueRead_from_def)
  with k Cons show ?thesis by (simp add: VCAR_SYS_RingQueueReadFromHead_def)
qed (simp add: k)

text \<open>
  C13: A consumer that starts with cursor 0 and reads once per queued message obtains the payloads of
  all messages, oldest first, unchanged when its buffer is large enough and cut to the buffer
  otherwise; its mask bits are then cleared in every message and nothing else has changed, and one
  more read with the returned cursor answers \<^verbatim>\<open>VCAR_SYS_RQ_ERR_AGAIN\<close>.
\<close>

theorem rq_read_all:
  assumes "rq_inv q" "0 \<le> dataLen"
  shows "\<exists>idx q'. rq_consume (length (rq_live q)) q 0 msk dataLen =
      Inr (map (\<lambda>m. take (nat dataLen) (m_payload m)) (rq_live q), idx, q') \<and>
    rq_inv q' \<and> rq_live q' = map (\<lambda>m. rq_marked m msk) (rq_live q) \<and>
    VCAR_SYS_RingQueueReadFromHead q' (Some idx) msk True dataLen False 0 =
      Inr (rq_fail VCAR_SYS_RQ_ERR_AGAIN idx, q')"
proof -
  let ?ps = "rq_ptrs q"
  have sh: "rq_shape q ?ps" and lay: "rq_layout q ?ps" using assms by (auto simp: rq_inv_def)
  have t: "tail q \<noteq> 0" using rq_shape_tail [OF sh] by auto
  show ?thesis
  proof (cases "?ps = []")
    case True
    then have "head q = tail q" using sh by (simp add: rq_shape_def ring_pos_0)
    with True assms show ?thesis
      by (simp add: rq_live_def VCAR_SYS_RingQueueReadFromHead_def RingQueueRead_from_def)
  next
    case False
    have h: "(?ps @ [tail q]) ! 0 = head q" by (rule rq_shape_first [OF sh])
    from rq_consume_from [OF sh lay assms(2), of 0 "length ?ps" msk] obtain q' where
      "rq_consume (length ?ps) q (head q) msk dataLen =
        Inr (map (\<lambda>p. take (nat dataLen) (m_payload (rq_msg q p))) ?ps, tail q, q')"
      "rq_shape q' ?ps" "rq_layout q' ?ps" "tail q' = tail q"
      "rq_live q' = map (\<lambda>m. rq_marked m msk) (rq_live q)" unfolding h by auto
    with False t rq_consume_0 [OF sh refl] rq_invI show ?thesis
      by (intro exI [of _ "tail q"] exI [of _ q'])
        (simp add: rq_live_def VCAR_SYS_RingQueueReadFromHead_def RingQueueRead_from_def comp_def)
  qed
qed

text \<open>The two searches look at the headers of the queued items only.\<close>

definition rq_matches :: "verify_func \<Rightarrow> rq \<Rightarrow> nat \<Rightarrow> bool" where
  "rq_matches verify q p = verify (it_header (items q p)) (it_headerLen (items q p))"

lemma rq_before_head:
  assumes sh: "rq_shape q ps"
  shows "ring_prev (queueSize q) (head q) \<notin> set ps"
proof
  let ?n = "queueSize q"
  assume in_ps: "ring_prev ?n (head q) \<in> set ps"
  have n: "2 \<le> ?n" "1 \<le> head q" "head q \<le> ?n" using sh by (auto simp: rq_shape_def)
  from in_ps obtain j where j: "j < length ps" "ps ! j = ring_prev ?n (head q)" by (auto simp: in_set_conv_nth)
  have "(ps @ [tail q]) ! Suc j = head q" using rq_ptrs_next [OF sh j(1)] j(2) n by (simp add: ring_next_prev)
  moreover have "(ps @ [tail q]) ! 0 = head q" by (rule rq_shape_first [OF sh])
  moreover have "distinct (ps @ [tail q])" using rq_shape_tail [OF sh] by auto
  ultimately show False using j(1) nth_eq_iff_index_eq [of "ps @ [tail q]" "Suc j" 0] by simp
qed

lemma rq_find_loop_eq:
  assumes sh: "rq_shape q ps" and j: "j < length ps"
  shows "rq_find_loop verify (ps ! j) q =
    Some (Inr (map_option (\<lambda>p. (p, items q p)) (find (rq_matches verify q) (rev (take (Suc j) ps)))))"
  using j
proof (induction j)
  case 0
  let ?n = "queueSize q" and ?p = "ring_prev (queueSize q) (head q)"
  have n: "1 \<le> head q" "head q \<le> ?n" using sh by (auto simp: rq_shape_def)
  have hd: "ps ! 0 = head q" using 0 rq_shape_last(2) [OF sh] by (cases ps) auto
  have "1 \<le> ?p" "?p \<le> ?n" using n by (auto simp: ring_prev_def)
  then have stop: "rq_find_loop verify ?p q = Some (Inr None)"
    using rq_before_head [OF sh] sh by (subst rq_find_loop.simps) (simp add: rq_shape_def)
  have "it_valid (items q (head q))" "it_prev (items q (head q)) = ?p" "head q \<noteq> ?p"
    using 0 n hd sh rq_before_head [OF sh] nth_mem [OF 0] by (auto simp: rq_shape_def)
  with n stop 0 show ?case
    by (subst rq_find_loop.simps) (auto simp: hd rq_matches_def [of verify q, symmetric] take_Suc_conv_app_nth)
next
  case (Suc j)
  let ?n = "queueSize q" and ?p = "ps ! Suc j"
  have p: "?p \<in> set ps" "ps ! j \<in> set ps" using Suc.prems by auto
  have n: "1 \<le> head q" "head q \<le> ?n" using sh by (auto simp: rq_shape_def)
  have "ring_next ?n (ps ! j) = ?p" using rq_ptrs_next [OF sh, of j] Suc.prems by (simp add: nth_append)
  then have "it_prev (items q ?p) = ps ! j" "it_prev (items q (head q)) = ring_prev ?n (head q)"
    using sh rq_shape_mem [OF sh p(1)] rq_shape_mem [OF sh p(2)] n ring_next_prev(1) [of "ps ! j" ?n]
    unfolding rq_shape_def by metis+
  moreover have "?p \<noteq> ring_prev ?n (head q)" using rq_before_head [OF sh] p(1) by metis
  ultimately show ?case
    using Suc rq_valid_live [OF sh p(1)] rq_shape_mem [OF sh p(1)] n
    by (subst rq_find_loop.simps) (auto simp: rq_matches_def [of verify q, symmetric] take_Suc_conv_app_nth [of "Suc j"])
qed

lemma rq_find_post_loop_eq:
  assumes sh: "rq_shape q ps" and j: "j + k = length ps"
  shows "\<exists>idx'. rq_find_post_loop verify idx ((ps @ [tail q]) ! j) q =
    Some (Inr (idx', map_option (\<lambda>p. (p, items q p)) (find (rq_matches verify q) (drop j ps)))) \<and>
    (find (rq_matches verify q) (drop j ps) = None \<longrightarrow> idx' = (if k = 0 then idx else tail q))"
  using j
proof (induction k arbitrary: j idx)
  case 0
  then show ?case by (subst rq_find_post_loop.simps) (simp add: nth_append)
next
  case (Suc k)
  then have j: "j < length ps" by simp
  then have p: "ps ! j \<in> set ps" by simp
  have nx: "it_next (items q (ps ! j)) = (ps @ [tail q]) ! Suc j"
    using sh rq_shape_mem [OF sh p] rq_ptrs_next [OF sh j] by (simp add: rq_shape_def)
  have last: "(ps @ [tail q]) ! Suc j = tail q" if "k = 0" using that Suc.prems by (simp add: nth_append)
  have d: "drop j ps = ps ! j # drop (Suc j) ps" using j by (simp add: Cons_nth_drop_Suc)
  from Suc.IH [of "Suc j" "(ps @ [tail q]) ! Suc j"] Suc.prems last show ?case
    using rq_valid_live [OF sh p] rq_shape_mem [OF sh p] j
    by (subst rq_find_post_loop.simps) (auto simp: d nx rq_matches_def [of verify q, symmetric] nth_append)
qed

lemma rq_find_0:
  assumes sh: "rq_shape q ps"
  shows "rq_find_loop verify (it_prev (items q (tail q))) q =
    Some (Inr (map_option (\<lambda>p. (p, items q p)) (find (rq_matches verify q) (rev ps))))"
proof (cases "ps = []")
  case True
  let ?p = "ring_prev (queueSize q) (tail q)"
  have t: "1 \<le> tail q" "tail q \<le> queueSize q" using rq_shape_tail [OF sh] by auto
  then have "1 \<le> ?p" "?p \<le> queueSize q" by (auto simp: ring_prev_def)
  with True t sh show ?thesis by (subst rq_find_loop.simps) (simp add: rq_shape_def)
next
  case False
  then have "it_prev (items q (tail q)) = ps ! (length ps - 1)"
    using rq_shape_last(1) [OF sh] by (simp add: last_conv_nth)
  with False rq_find_loop_eq [OF sh, of "length ps - 1"] show ?thesis by simp
qed

lemma rq_find_newest:
  assumes "rq_inv q" "0 \<le> dataLen"
  shows "VCAR_SYS_RingQueueFind q (Some 0) msk (Some verify) True dataLen header headerLen =
      (case find (rq_matches verify q) (rev (rq_ptrs q)) of
         None \<Rightarrow> Inr (rq_fail VCAR_SYS_RQ_ERR_AGAIN 0, q)
       | Some p \<Rightarrow> Inr (rq_read_out q p dataLen header headerLen, rq_cleared q p msk))"
proof -
  let ?ps = "rq_ptrs q"
  have sh: "rq_shape q ?ps" and lay: "rq_layout q ?ps" using assms by (auto simp: rq_inv_def)
  have t: "rq_at q (tail q) = Inr (items q (tail q))" using rq_shape_tail [OF sh] by simp
  have take: "rq_take q p (items q p) msk True dataLen header headerLen =
      Inr (rq_read_out q p dataLen header headerLen, rq_cleared q p msk)" if "p \<in> set ?ps" for p
    by (rule rq_take_eq [OF sh lay that assms(2)])
  have mem: "p \<in> set xs" if "find P xs = Some p" for P :: "nat \<Rightarrow> bool" and p xs
    using that by (auto simp: find_Some_iff)
  show ?thesis using mem [of _ "rev ?ps"] take
    by (auto simp: VCAR_SYS_RingQueueFind_def t rq_find_0 [OF sh] run_loop_def split: option.split)
qed

text \<open>
  Searching. Started with cursor 0, \<^verbatim>\<open>VCAR_SYS_RingQueueFind\<close> returns the newest queued message
  whose header the callback accepts and \<^verbatim>\<open>VCAR_SYS_RingQueueFindPost\<close> the oldest one: they copy it,
  clear the reader's mask bits in it and leave the cursor on the item after it. With no such message
  both answer \<^verbatim>\<open>VCAR_SYS_RQ_ERR_AGAIN\<close> and change nothing in the queue.
\<close>

theorem rq_find_spec:
  assumes "rq_inv q" "0 \<le> dataLen"
  shows "VCAR_SYS_RingQueueFind q (Some 0) msk (Some verify) True dataLen header headerLen =
      (case find (rq_matches verify q) (rev (rq_ptrs q)) of
         None \<Rightarrow> Inr (rq_fail VCAR_SYS_RQ_ERR_AGAIN 0, q)
       | Some p \<Rightarrow> Inr (rq_read_out q p dataLen header headerLen, rq_cleared q p msk)) \<and>
    VCAR_SYS_RingQueueFindPost q (Some 0) msk (Some verify) True dataLen header headerLen =
      (case find (rq_matches verify q) (rq_ptrs q) of
         None \<Rightarrow> Inr (rq_fail VCAR_SYS_RQ_ERR_AGAIN (if rq_ptrs q = [] then 0 else tail q), q)
       | Some p \<Rightarrow> Inr (rq_read_out q p dataLen header headerLen, rq_cleared q p msk)) \<and>
    rq_inv (rq_cleared q p msk)"
proof -
  let ?ps = "rq_ptrs q"
  have sh: "rq_shape q ?ps" and lay: "rq_layout q ?ps" using assms by (auto simp: rq_inv_def)
  have take: "rq_take q p (items q p) msk True dataLen header headerLen =
      Inr (rq_read_out q p dataLen header headerLen, rq_cleared q p msk)" if "p \<in> set ?ps" for p
    by (rule rq_take_eq [OF sh lay that assms(2)])
  have mem: "p \<in> set xs" if "find P xs = Some p" for P :: "nat \<Rightarrow> bool" and p xs
    using that by (auto simp: find_Some_iff)
  have "(?ps @ [tail q]) ! 0 = head q" by (rule rq_shape_first [OF sh])
  with rq_find_post_loop_eq [OF sh, of 0 "length ?ps" verify 0] obtain idx where
    post: "rq_find_post_loop verify 0 (head q) q =
      Some (Inr (idx, map_option (\<lambda>p. (p, items q p)) (find (rq_matches verify q) ?ps)))"
    "find (rq_matches verify q) ?ps = None \<longrightarrow> idx = (if length ?ps = 0 then 0 else tail q)" by auto
  have inv: "rq_inv (rq_cleared q p msk)"
    using rq_invI [OF rq_shape_cleared [OF sh] rq_layout_cleared [OF lay]] .
  have "VCAR_SYS_RingQueueFindPost q (Some 0) msk (Some verify) True dataLen header headerLen =
      (case find (rq_matches verify q) ?ps of
         None \<Rightarrow> Inr (rq_fail VCAR_SYS_RQ_ERR_AGAIN (if ?ps = [] then 0 else tail q), q)
       | Some p \<Rightarrow> Inr (rq_read_out q p dataLen header headerLen, rq_cleared q p msk))"
    using mem [of _ ?ps] take post
    by (auto simp: VCAR_SYS_RingQueueFindPost_def run_loop_def split: option.split)
  with rq_find_newest [OF assms] inv show ?thesis by simp
qed

section \<open>Where the code goes wrong\<close>

text \<open>
  A queue all of whose descriptors are clean and point to the same short run at the start of the
  block: the writer drops descriptor after descriptor, past the tail, and the window never grows.
\<close>

definition rq_stuck :: "rq \<Rightarrow> int \<Rightarrow> bool" where
  "rq_stuck q c \<longleftrightarrow> wrPos q = 0 \<and> wrEnd q = c \<and>
     head q \<in> {1..queueSize q} \<and> tail q \<in> {1..queueSize q} \<and>
     (\<forall>p \<in> {1..queueSize q}. it_mask (items q p) = 0 \<and> it_data (items q p) = Some 0 \<and>
        it_dataLen (items q p) = c \<and> it_next (items q p) \<in> {1..queueSize q})"

lemma rq_stuck_dropped: "rq_stuck q c \<Longrightarrow> moveItemHeader q = Inr (rq_dropped q) \<and> rq_stuck (rq_dropped q) c"
  unfolding rq_stuck_def moveItemHeader_def rq_dropped_def rq_put_def by auto

lemma rq_stuck_step:
  assumes "rq_stuck q c"
  shows "\<exists>q1 q2. rq_check_full q = Inr (True, q1) \<and> rq_make_room q1 = Inr (True, q2) \<and> rq_stuck q2 c"
proof -
  have full: "\<exists>q1. rq_check_full q = Inr (True, q1) \<and> rq_stuck q1 c"
    using assms rq_stuck_dropped [OF assms]
    by (auto simp: rq_check_full_def isItemHeaderClean_def rq_stuck_def)
  have room: "\<exists>q2. rq_make_room q1 = Inr (True, q2) \<and> rq_stuck q2 c" if "rq_stuck q1 c" for q1
  proof -
    have it: "rq_at q1 (head q1) = Inr (items q1 (head q1))" "it_mask (items q1 (head q1)) = 0"
      "it_data (items q1 (head q1)) = Some 0" "it_dataLen (items q1 (head q1)) = c"
      and wr: "wrPos q1 = 0" "q1\<lparr>wrEnd := c\<rparr> = q1"
      using that by (auto simp: rq_stuck_def)
    show ?thesis using rq_stuck_dropped [OF that]
      by (simp add: rq_make_room_def rq_drop_for_room_def isItemHeaderClean_def it wr)
  qed
  from full room show ?thesis by blast
qed

lemma rq_stuck_loop:
  assumes "rq_stuck q c" "c < dataLen"
  shows "rq_write_loop data dataLen header headerLen q = None"
proof (rule ccontr)
  assume "rq_write_loop data dataLen header headerLen q \<noteq> None"
  then obtain y where y: "rq_write_loop data dataLen header headerLen q = Some y" by blast
  have "c < dataLen \<longrightarrow> \<not> rq_stuck q c"
  proof (rule rq_write_loop.raw_induct [where P = "\<lambda>data dataLen header headerLen q y.
        c < dataLen \<longrightarrow> \<not> rq_stuck q c", OF _ y], intro impI notI)
    fix loop data dataLen header headerLen q y
    assume ih: "\<And>data dataLen header headerLen q y. loop data dataLen header headerLen q = Some y \<Longrightarrow>
        c < dataLen \<longrightarrow> \<not> rq_stuck q c"
      and body: "(let freeMemSize = wrEnd q - wrPos q in
        case rq_check_full q of Inl f \<Rightarrow> Some (Inl f)
        | Inr (go1, q1) \<Rightarrow>
            if \<not> go1 then Some (Inr (VCAR_SYS_RQ_ERR_FULL, q1))
            else if freeMemSize \<ge> dataLen
            then Some (bind_fault (setItemTail q1 data dataLen header headerLen) (\<lambda>q2. Inr (VCAR_SYS_RQ_OK, q2)))
            else (case rq_make_room q1 of Inl f \<Rightarrow> Some (Inl f)
                  | Inr (go2, q2) \<Rightarrow>
                      if \<not> go2 then Some (Inr (VCAR_SYS_RQ_ERR_FULL, q2))
                      else loop data dataLen header headerLen q2)) = Some y"
      and lt: "c < dataLen" and st: "rq_stuck q c"
    obtain q1 q2 where "rq_check_full q = Inr (True, q1)" "rq_make_room q1 = Inr (True, q2)"
      and st2: "rq_stuck q2 c" using rq_stuck_step [OF st] by blast
    moreover have "\<not> dataLen \<le> wrEnd q - wrPos q" using st lt by (simp add: rq_stuck_def)
    ultimately have "loop data dataLen header headerLen q2 = Some y" using body by simp
    with ih lt st2 show False by blast
  qed
  with assms show False by blast
qed

text \<open>One round of the loop that goes on.\<close>

definition rq_round :: "int \<Rightarrow> rq \<Rightarrow> rq option" where
  "rq_round dataLen q =
     (case rq_check_full q of
        Inr (True, q1) \<Rightarrow>
          if wrEnd q - wrPos q < dataLen
          then (case rq_make_room q1 of Inr (True, q2) \<Rightarrow> Some q2 | _ \<Rightarrow> None) else None
      | _ \<Rightarrow> None)"

lemma rq_round_loop:
  "rq_round dataLen q = Some q' \<Longrightarrow>
     rq_write_loop data dataLen header headerLen q = rq_write_loop data dataLen header headerLen q'"
  by (subst rq_write_loop.simps) (auto simp: rq_round_def split: sum.splits bool.splits if_splits)

text \<open>A queue without readers over a block of 100 bytes with three descriptors.\<close>

definition rq_demo_env :: rq_env where
  "rq_demo_env = \<lparr>env_queue = True, env_mem = Some (\<lambda>_. 0), env_items = True,
     env_attr = (\<lambda>_. 0), env_lock = (\<lambda>_. 0)\<rparr>"

definition rq_demo :: "u32 \<Rightarrow> rq" where
  "rq_demo msk = (case VCAR_SYS_RingQueueCreat rq_demo_env 100 3 msk of Inr (Some q, _) \<Rightarrow> q | _ \<Rightarrow> zero_queue)"

definition rq_demo_put :: "rq \<Rightarrow> int \<Rightarrow> rq" where
  "rq_demo_put q n = (case VCAR_SYS_RingQueueWrite q (Some (replicate (nat n) 7)) n None 0 of
     Inr (_, q') \<Rightarrow> q' | _ \<Rightarrow> q)"

definition rq_demo3 :: rq where
  "rq_demo3 = rq_demo_put (rq_demo_put (rq_demo_put (rq_demo 0) 60) 60) 60"

declare rq_write_loop.simps [code]

lemma rq_demo3_rounds:
  "\<exists>q1 q2. rq_round 80 rq_demo3 = Some q1 \<and> rq_round 80 q1 = Some q2 \<and> rq_stuck q2 60"
proof -
  have "(case rq_round 80 rq_demo3 of None \<Rightarrow> False | Some q1 \<Rightarrow>
      (case rq_round 80 q1 of None \<Rightarrow> False | Some q2 \<Rightarrow> rq_stuck q2 60))"
    by code_simp
  then show ?thesis by (auto split: option.splits)
qed

text \<open>
  C37: The writer can loop for ever. On a queue made with a block of 100 bytes, three descriptors and
  no reader masks, three writes of 60 bytes succeed and a following write of 80 bytes, which the
  empty block could hold, never returns: all old descriptors are clean, so the loop drops them, moves
  past the tail and keeps reusing the stale 60-byte window of each descriptor.
\<close>

theorem rq_write_diverges:
  "\<exists>q0 q1 q2 q3. VCAR_SYS_RingQueueCreat rq_demo_env 100 3 0 = Inr (Some q0, []) \<and>
     VCAR_SYS_RingQueueWrite q0 (Some (replicate 60 7)) 60 None 0 = Inr (VCAR_SYS_RQ_OK, q1) \<and>
     VCAR_SYS_RingQueueWrite q1 (Some (replicate 60 7)) 60 None 0 = Inr (VCAR_SYS_RQ_OK, q2) \<and>
     VCAR_SYS_RingQueueWrite q2 (Some (replicate 60 7)) 60 None 0 = Inr (VCAR_SYS_RQ_OK, q3) \<and>
     VCAR_SYS_RingQueueWrite q3 (Some (replicate 80 7)) 80 None 0 = Inl NonTermination"
proof -
  let ?w = "\<lambda>q. VCAR_SYS_RingQueueWrite q (Some (replicate 60 7)) 60 None 0"
  let ?q0 = "rq_demo 0" and ?q1 = "rq_demo_put (rq_demo 0) 60"
  let ?q2 = "rq_demo_put (rq_demo_put (rq_demo 0) 60) 60"
  have put: "?w q = Inr (VCAR_SYS_RQ_OK, rq_demo_put q 60)"
    if "(case ?w q of Inr (r, _) \<Rightarrow> r = VCAR_SYS_RQ_OK | _ \<Rightarrow> False)" for q
    using that by (auto simp: rq_demo_put_def split: sum.splits)
  have c: "VCAR_SYS_RingQueueCreat rq_demo_env 100 3 0 = Inr (Some ?q0, [])"
  proof -
    have "(case VCAR_SYS_RingQueueCreat rq_demo_env 100 3 0 of Inr (Some q, rel) \<Rightarrow> rel = [] | _ \<Rightarrow> False)"
      by code_simp
    then show ?thesis by (auto simp: rq_demo_def split: sum.splits option.splits)
  qed
  have w1: "?w ?q0 = Inr (VCAR_SYS_RQ_OK, ?q1)" by (rule put) code_simp
  have w2: "?w ?q1 = Inr (VCAR_SYS_RQ_OK, ?q2)" by (rule put) code_simp
  have w3: "?w ?q2 = Inr (VCAR_SYS_RQ_OK, rq_demo3)" unfolding rq_demo3_def by (rule put) code_simp
  obtain q1 q2 where r: "rq_round 80 rq_demo3 = Some q1" "rq_round 80 q1 = Some q2" "rq_stuck q2 60"
    using rq_demo3_rounds by blast
  have "rq_write_loop (replicate 80 7) 80 None 0 rq_demo3 = None"
    using rq_stuck_loop [OF r(3), of 80] unfolding rq_round_loop [OF r(1)] rq_round_loop [OF r(2)] by simp
  then have "VCAR_SYS_RingQueueWrite rq_demo3 (Some (replicate 80 7)) 80 None 0 = Inl NonTermination"
    by (simp add: VCAR_SYS_RingQueueWrite_def run_loop_def)
  with c w1 w2 w3 show ?thesis by blast
qed

text \<open>
  \<^verbatim>\<open>VCAR_SYS_RingQueueClean\<close> never cleans a queue: it casts the address of its argument instead of
  the argument, and its first member access lies outside that 8-byte object, for every handle.
  On the queue itself the same body would empty it and make the whole block free again.
\<close>

theorem rq_clean_spec:
  assumes "rq_inv q"
  shows "VCAR_SYS_RingQueueClean handle = Inl OutOfBounds \<and>
    (\<exists>q'. rq_clean_object (QueueObject q) = Inr (0, QueueObject q') \<and> rq_inv q' \<and> rq_live q' = [] \<and>
       wrPos q' = 0 \<and> wrEnd q' = memEnd q \<and> memEnd q' = memEnd q \<and> userMask q' = initMask q)"
proof -
  have inval: "rq_invalidate p k its =
      (\<lambda>i. if p \<le> i \<and> i < p + k then (its i)\<lparr>it_valid := False\<rparr> else its i)" for p k its
    by (induction k arbitrary: p its) (auto simp: fun_eq_iff)
  let ?q = "q\<lparr>wrPos := 0, wrEnd := memEnd q, head := 1, tail := 1, userMask := initMask q,
    items := \<lambda>i. if 1 \<le> i \<and> i < 1 + queueSize q then (items q i)\<lparr>it_valid := False\<rparr> else items q i\<rparr>"
  have sh0: "rq_shape q (rq_ptrs q)" using assms by (simp add: rq_inv_def)
  have eq: "rq_clean_object (QueueObject q) = Inr (0, QueueObject ?q)"
    using sh0 by (auto simp: rq_clean_object_def rq_put_def inval rq_shape_def Let_def fun_eq_iff intro!: rq.equality)
  have sh: "rq_shape ?q []" and lay: "rq_layout ?q []"
    using sh0 by (auto simp: rq_shape_def rq_layout_def ring_pos_def)
  show ?thesis using eq rq_invI [OF sh lay] rq_live_eq [OF sh]
    by (simp add: VCAR_SYS_RingQueueClean_def rq_clean_object_def)
qed

section \<open>Concrete queues\<close>

lemma rq_demo_inv: "rq_inv (rq_demo msk) \<and> queueSize (rq_demo msk) = 3 \<and> memEnd (rq_demo msk) = 100"
proof -
  have "fst (rq_link_loop rq_demo_env 3 1 2 ((\<lambda>_. zero_item)(1 := zero_item\<lparr>it_prev := 3, it_next := 2\<rparr>)))"
    by (rule rq_link_loop_ok) (simp add: rq_demo_env_def)
  then obtain q where q: "VCAR_SYS_RingQueueCreat rq_demo_env 100 3 msk = Inr (Some q, [])"
    using rq_creat_eq [of 100 3 rq_demo_env "\<lambda>_. 0" msk]
    by (auto simp: rq_demo_env_def split: prod.splits bool.splits)
  from rq_creat_full [of 100 3 rq_demo_env "\<lambda>_. 0" msk q "[]"] q show ?thesis
    by (simp add: rq_demo_def rq_demo_env_def)
qed

lemma rq_demo_put_inv:
  assumes "rq_inv q \<and> queueSize q = 3 \<and> memEnd q = 100" "0 < n" "n \<le> 50"
  shows "rq_inv (rq_demo_put q n) \<and> queueSize (rq_demo_put q n) = 3 \<and> memEnd (rq_demo_put q n) = 100"
proof -
  have "rq_writes (replicate (nat n) 7) n None 0 q (rq_ptrs q)"
    using assms by (intro rq_write_loop_ok) (auto simp: rq_inv_def rq_args_ok_def)
  then obtain r q' ps' where "rq_write_loop (replicate (nat n) 7) n None 0 q = Some (Inr (r, q'))"
    "rq_shape q' ps'" "rq_layout q' ps'" "queueSize q' = queueSize q" "memEnd q' = memEnd q"
    unfolding rq_writes_def by blast
  with assms rq_invI [of q' ps'] show ?thesis
    by (simp add: rq_demo_put_def VCAR_SYS_RingQueueWrite_def run_loop_def)
qed

lemmas rq_demo_inv1 = rq_demo_put_inv [OF rq_demo_inv, of 30, simplified]
lemmas rq_demo_inv2 = rq_demo_put_inv [OF rq_demo_inv1, of 40, simplified]


theorem rq_creat_spec_witness:
  "(\<exists>q. VCAR_SYS_RingQueueCreat rq_demo_env 100 3 5 = Inr (Some q, []) \<and> rq_inv q \<and> rq_live q = [] \<and>
      userMask q = 5) \<and>
   VCAR_SYS_RingQueueCreat rq_demo_env 100 1 5 = Inl Uninitialised"
  using rq_creat_spec [of 100 3 rq_demo_env 5] rq_creat_spec [of 100 1 rq_demo_env 5]
  by (auto simp: rq_demo_env_def split: option.splits)

theorem rq_read_all_witness:
  "\<exists>idx q'. rq_consume (length (rq_live (rq_demo_put (rq_demo_put (rq_demo 1) 30) 40)))
      (rq_demo_put (rq_demo_put (rq_demo 1) 30) 40) 0 1 64 =
     Inr (map (\<lambda>m. take 64 (m_payload m)) (rq_live (rq_demo_put (rq_demo_put (rq_demo 1) 30) 40)), idx, q') \<and>
   rq_inv q'"
  using rq_read_all [of "rq_demo_put (rq_demo_put (rq_demo 1) 30) 40" 64 1] rq_demo_inv2 [of 1]
  by auto

theorem rq_find_spec_witness:
  "VCAR_SYS_RingQueueFind (rq_demo_put (rq_demo 1) 30) (Some 0) 1 (Some (\<lambda>_ n. n = 1)) True 64 False 0 =
     Inr (rq_fail VCAR_SYS_RQ_ERR_AGAIN 0, rq_demo_put (rq_demo 1) 30)"
proof -
  have "find (rq_matches (\<lambda>_ n. n = 1) (rq_demo_put (rq_demo 1) 30)) (rev (rq_ptrs (rq_demo_put (rq_demo 1) 30))) = None"
    by code_simp
  with rq_find_spec [of "rq_demo_put (rq_demo 1) 30" 64 1 "\<lambda>_ n. n = 1" False 0] rq_demo_inv1 [of 1]
  show ?thesis by simp
qed

theorem rq_clean_spec_witness:
  "VCAR_SYS_RingQueueClean 4096 = Inl OutOfBounds \<and>
   (\<exists>q'. rq_clean_object (QueueObject (rq_demo_put (rq_demo 1) 30)) = Inr (0, QueueObject q') \<and> rq_live q' = [])"
  using rq_clean_spec [of "rq_demo_put (rq_demo 1) 30" 4096] rq_demo_inv1 [of 1] by auto

end
