(* ===== verification/RecQueue.thy ===== *)
theory RecQueue
  imports RingQueue
begin

text \<open>
  The program \<^verbatim>\<open>apps/vcar_sys_ringqueue/ringqueue.c\<close>, a client of the ring queue: record commands, a
  packed structure followed by a file name, are written with the structure as header and the name as
  payload, and found again by their segment value. \<^verbatim>\<open>main\<close> is modelled as it is compiled, with
  \<^verbatim>\<open>FIND_RINGQUEUE\<close> and without \<^verbatim>\<open>PRODUCE\<close>.
\<close>

section \<open>Record commands\<close>

record rec_cmd_msg =
  rec_cmd :: u8
  seg_mode :: u8
  seg_value :: u32
  file_name_len :: u16
  rec_timestamp :: u64

definition SIZEOF_REC :: int where "SIZEOF_REC = 16"

definition rec_bytes :: "rec_cmd_msg \<Rightarrow> u8 list" where
  "rec_bytes m =
     [rec_cmd m, seg_mode m] @ le_bytes 4 (ucast (seg_value m)) @ le_bytes 2 (ucast (file_name_len m)) @
     le_bytes 8 (rec_timestamp m)"

text \<open>A null queue is \<open>None\<close>; the message is its structure and what lies behind it, or a null pointer.\<close>

definition write_ringqueue :: "rq option \<Rightarrow> (rec_cmd_msg \<times> u8 list) option \<Rightarrow> c_fault + (int \<times> rq option)" where
  "write_ringqueue queue cmd_msg =
     (case (cmd_msg, queue) of
        (Some (m, d), Some q) \<Rightarrow>
          bind_fault (VCAR_SYS_RingQueueWrite q (Some d) (int (unat (file_name_len m))) (Some (rec_bytes m)) SIZEOF_REC)
            (\<lambda>(r, q'). Inr (r, Some q'))
      | _ \<Rightarrow> Inr (VCAR_SYS_RQ_ERR_INPUT, queue))"

text \<open>What is copied behind the structure must fit the \<open>room\<close> bytes the caller's buffer has there.\<close>

definition rec_fits :: "nat \<Rightarrow> rq_out \<times> rq \<Rightarrow> c_fault + (rq_out \<times> rq)" where
  "rec_fits room r = (if length (out_data (fst r)) \<le> room then Inr r else Inl OutOfBounds)"

definition read_ringqueue :: "rq option \<Rightarrow> nat option \<Rightarrow> bool \<Rightarrow> nat \<Rightarrow> int \<Rightarrow> c_fault + (rq_out \<times> rq option)" where
  "read_ringqueue queue MsgIndex msg room datalen =
     (case (msg, MsgIndex) of
        (True, Some idx) \<Rightarrow>
          (case queue of
             None \<Rightarrow> Inl NullDeref
           | Some q \<Rightarrow>
               bind_fault (VCAR_SYS_RingQueueReadFromHead q (Some idx) 0 True datalen True SIZEOF_REC) (\<lambda>r.
               bind_fault (rec_fits room r) (\<lambda>(o1, q'). Inr (o1, Some q'))))
      | _ \<Rightarrow> Inr (rq_fail VCAR_SYS_RQ_ERR_INPUT (case MsgIndex of None \<Rightarrow> 0 | Some i \<Rightarrow> i), queue))"

text \<open>
  The search callback: the 32-bit segment value of the header against the eight bytes at \<^verbatim>\<open>para\<close>. The
  header of an item is an array, never a null pointer.
\<close>

definition find_by_segvalue :: "u64 \<Rightarrow> verify_func" where
  "find_by_segvalue para header headeLen \<longleftrightarrow> of_le (mem_get header 2 4) \<le> para"

definition find_ringqueue :: "rq option \<Rightarrow> nat option \<Rightarrow> nat \<Rightarrow> u64 \<Rightarrow> c_fault + (rq_out \<times> rq option)" where
  "find_ringqueue queue ringindex room para =
     (case (ringindex, queue) of
        (None, _) \<Rightarrow> Inr (rq_fail VCAR_SYS_RQ_ERR_INPUT 0, queue)
      | (Some idx, None) \<Rightarrow> Inl NullDeref
      | (Some idx, Some q) \<Rightarrow>
          bind_fault (VCAR_SYS_RingQueueFind q (Some idx) 0 (Some (find_by_segvalue para)) True 65535 True SIZEOF_REC) (\<lambda>r.
          bind_fault (rec_fits room r) (\<lambda>(o1, q'). Inr (o1, Some q'))))"

section \<open>The program\<close>

datatype main_result =
    Printed u64 "u8 list"   \<comment> \<open>segment value and data of \<^verbatim>\<open>find_data\<close>\<close>
  | NoData
  | NotFound int

text \<open>The buffers have 100 bytes, of which 84 are behind the structure.\<close>

definition FIND_ROOM :: nat where "FIND_ROOM = 84"

definition main_values :: "nat list" where
  "main_values = [1, 2, 4, 7, 9, 11, 45, 67, 100, 233, 456]"

text \<open>One round of the loop that fills the queue; the bytes behind the structure keep what earlier rounds put there.\<close>

definition main_write :: "nat \<Rightarrow> mem \<times> rq option \<Rightarrow> c_fault + (mem \<times> rq option)" where
  "main_write v st =
     (let filename = bytes_of ''num'' @ [95] @ dec_digits v;
          wb = mem_put (fst st) 0 filename;
          m = \<lparr>rec_cmd = 0, seg_mode = 0, seg_value = of_nat v, file_name_len = of_nat (length filename), rec_timestamp = 0\<rparr>
      in bind_fault (write_ringqueue (snd st) (Some (m, mem_get wb 0 FIND_ROOM))) (\<lambda>(_, q). Inr (wb, q)))"

fun main_fill :: "nat list \<Rightarrow> mem \<times> rq option \<Rightarrow> c_fault + (mem \<times> rq option)" where
  "main_fill [] st = Inr st"
| "main_fill (v # vs) st = bind_fault (main_write v st) (main_fill vs)"

text \<open>
  The search for 455. The eight bytes at the limit are the segment value, the name length and two
  bytes of the time stamp of the cleared \<^verbatim>\<open>findbuf\<close>. What is printed as data runs to the first zero
  byte. The size \<^verbatim>\<open>sizeof(find_data)\<close> is that of a pointer.
\<close>

definition main_search :: "u64 \<Rightarrow> rq option \<Rightarrow> c_fault + main_result" where
  "main_search para queue =
     (case queue of
        None \<Rightarrow> Inl NullDeref
      | Some q0 \<Rightarrow>
          (let t = snd (VCAR_SYS_RingQueueGetTail q0 (Some 0))
           in bind_fault (find_ringqueue queue (Some 0) FIND_ROOM para) (\<lambda>(o1, queue1).
              if out_ret o1 \<ge> 0
              then (if out_index o1 \<noteq> t
                    then bind_fault (read_ringqueue queue1 (Some (out_index o1)) True FIND_ROOM 8) (\<lambda>(o2, _).
                         let hb = mem_put (mem_put (\<lambda>_. 0) 0 (out_header o1)) 0 (out_header o2);
                             db = mem_put (mem_put (\<lambda>_. 0) 0 (out_data o1)) 0 (out_data o2)
                         in Inr (Printed (of_le (mem_get hb 2 4)) (takeWhile (\<lambda>c. c \<noteq> 0) (mem_get db 0 FIND_ROOM))))
                    else Inr NoData)
              else Inr (NotFound (out_ret o1)))))"

definition main_find :: "rq_env \<Rightarrow> c_fault + main_result" where
  "main_find e =
     bind_fault (VCAR_SYS_RingQueueCreat e 1024 100 0) (\<lambda>(q, _).
     bind_fault (main_fill main_values (\<lambda>_. 0, q)) (\<lambda>(_, q'). main_search 455 q'))"

section \<open>What is written is found\<close>

lemma length_rec_bytes [simp]: "length (rec_bytes m) = 16"
  by (simp add: rec_bytes_def)

lemma rec_bytes_seg: "of_le (take 4 (drop 2 (rec_bytes m))) = ucast (seg_value m)"
proof -
  have "take 4 (drop 2 (rec_bytes m)) = le_bytes 4 (ucast (seg_value m))" by (simp add: rec_bytes_def)
  moreover have "take_bit 32 (ucast (seg_value m) :: u64) = ucast (seg_value m)"
    by (rule bit_word_eqI) (auto simp: bit_simps dest: bit_imp_le_length)
  ultimately show ?thesis by (simp add: of_le_bytes)
qed

text \<open>The messages of a queue that an accepted write has left, and the one it has added.\<close>

lemma write_ringqueue_newest:
  assumes "rq_inv q" "3 \<le> queueSize q" "n = unat (file_name_len m)" "0 < n" "n \<le> length d" "2 * int n \<le> memEnd q"
    and "write_ringqueue (Some q) (Some (m, d)) = Inr (VCAR_SYS_RQ_OK, Some q')"
  shows "rq_inv q' \<and> rq_ptrs q' \<noteq> [] \<and> m_payload (rq_msg q' (last (rq_ptrs q'))) = take n d \<and>
    m_header (rq_msg q' (last (rq_ptrs q'))) = rec_bytes m"
proof -
  have args: "rq_args_ok d (int n) (Some (rec_bytes m)) SIZEOF_REC"
    using assms(4,5) by (simp add: rq_args_ok_def SIZEOF_REC_def VCAR_SYS_RQ_MAX_HEADER_LEN_def)
  have w: "VCAR_SYS_RingQueueWrite q (Some d) (int n) (Some (rec_bytes m)) SIZEOF_REC = Inr (VCAR_SYS_RQ_OK, q')"
    using assms(7) by (auto simp: write_ringqueue_def assms(3) bind_fault_Inr_iff)
  with rq_write_returns [OF assms(1,2) args assms(6)] have inv: "rq_inv q'"
    and out: "rq_outcome (rq_arg_msg q d (int n) (Some (rec_bytes m)) SIZEOF_REC) (rq_live q) VCAR_SYS_RQ_OK (rq_live q')"
    by auto
  let ?m = "rq_arg_msg q d (int n) (Some (rec_bytes m)) SIZEOF_REC"
  obtain ms where "rq_live q' = ms @ [?m]"
    using out by (auto simp: rq_outcome_def rq_codes)
  then have "rq_ptrs q' \<noteq> []" "rq_msg q' (last (rq_ptrs q')) = ?m"
    by (auto simp: rq_live_def) (metis last_map last_snoc list.map_disc_iff snoc_eq_iff_butlast)
  then show ?thesis using inv by (simp add: rq_arg_msg_def rq_header_arg_def SIZEOF_REC_def)
qed

text \<open>
  A record command that \<^verbatim>\<open>write_ringqueue\<close> has accepted is found again: the search from the end for
  any limit not below its segment value returns exactly its structure and its file name, provided the
  name fits the caller's buffer, and leaves the queue in order.
\<close>

theorem rec_write_find:
  assumes "rq_inv q" "3 \<le> queueSize q" "n = unat (file_name_len m)" "0 < n" "n \<le> length d" "2 * int n \<le> memEnd q"
    and "write_ringqueue (Some q) (Some (m, d)) = Inr (VCAR_SYS_RQ_OK, Some q')"
    and "ucast (seg_value m) \<le> para" "n \<le> room"
  shows "\<exists>o1 q2. find_ringqueue (Some q') (Some 0) room para = Inr (o1, Some q2) \<and> out_ret o1 = VCAR_SYS_RQ_OK \<and>
    out_header o1 = rec_bytes m \<and> out_data o1 = take n d \<and> rq_inv q2"
proof -
  let ?p = "last (rq_ptrs q')"
  have new: "rq_inv q'" "rq_ptrs q' \<noteq> []" "m_payload (rq_msg q' ?p) = take n d" "m_header (rq_msg q' ?p) = rec_bytes m"
    using write_ringqueue_newest [OF assms(1-7)] by auto
  have h: "mem_get (it_header (items q' ?p)) 0 (nat (it_headerLen (items q' ?p))) = rec_bytes m"
    using new(4) by (simp add: rq_msg_def Let_def)
  have len: "nat (it_headerLen (items q' ?p)) = 16" using arg_cong [OF h, of length] by simp
  have "mem_get (it_header (items q' ?p)) 2 4 = take 4 (drop 2 (rec_bytes m))" unfolding h [symmetric] len by (simp add: numeral_2_eq_2)
  then have "rq_matches (find_by_segvalue para) q' ?p"
    using assms(8) by (simp add: rq_matches_def find_by_segvalue_def rec_bytes_seg)
  then have "find (rq_matches (find_by_segvalue para) q') (rev (rq_ptrs q')) = Some ?p"
    using new(2) by (cases "rq_ptrs q'" rule: rev_cases) auto
  then have "VCAR_SYS_RingQueueFind q' (Some 0) 0 (Some (find_by_segvalue para)) True 65535 True SIZEOF_REC =
      Inr (rq_read_out q' ?p 65535 True SIZEOF_REC, rq_cleared q' ?p 0)"
    using rq_find_newest [OF new(1), of 65535 0 "find_by_segvalue para" True SIZEOF_REC] by simp
  moreover have "rq_inv (rq_cleared q' ?p 0)"
    using rq_invI [OF rq_shape_cleared rq_layout_cleared] new(1) by (auto simp: rq_inv_def)
  moreover have "n \<le> 65535" using unsigned_less [of "file_name_len m", where ?'a = nat] by (simp add: assms(3))
  ultimately show ?thesis using new(3,4) assms(9)
    by (simp add: find_ringqueue_def rec_fits_def rq_read_out_def SIZEOF_REC_def)
qed

definition demo_rec :: rec_cmd_msg where
  "demo_rec = \<lparr>rec_cmd = 0, seg_mode = 0, seg_value = 9, file_name_len = 2, rec_timestamp = 0\<rparr>"

theorem rec_write_find_witness:
  "\<exists>q' o1 q2. write_ringqueue (Some (rq_demo 1)) (Some (demo_rec, [65, 66, 0])) = Inr (VCAR_SYS_RQ_OK, Some q') \<and>
     find_ringqueue (Some q') (Some 0) 84 11 = Inr (o1, Some q2) \<and> out_data o1 = [65, 66]"
proof -
  have "(case write_ringqueue (Some (rq_demo 1)) (Some (demo_rec, [65, 66, 0])) of
      Inr (r, Some q') \<Rightarrow> r = VCAR_SYS_RQ_OK | _ \<Rightarrow> False)" by code_simp
  then obtain q' where w: "write_ringqueue (Some (rq_demo 1)) (Some (demo_rec, [65, 66, 0])) = Inr (VCAR_SYS_RQ_OK, Some q')"
    by (auto split: sum.splits option.splits)
  then show ?thesis
    using rec_write_find [of "rq_demo 1" 2 demo_rec "[65, 66, 0]" q' 11 84] rq_demo_inv [of 1]
    by (auto simp: demo_rec_def)
qed

text \<open>
  The program as compiled prints the record after the one it was looking for: the search leaves the
  index behind the record it found, and the following read overwrites what the search returned.
\<close>

declare rq_find_loop.simps [code]

lemma main_find_prints: "main_find rq_demo_env = Inr (Printed 456 (bytes_of ''num_456''))"
  by code_simp

end
