(* ===== verification/MulTimer.thy ===== *)
theory MulTimer
  imports Prelude
begin

text \<open>
  The multiplexed timers of \<^verbatim>\<open>apps/mul_timer/mul_timer.c\<close>: a table of ten timers driven by one
  \<^verbatim>\<open>SIGALRM\<close> handler. A timer's callback is a parameter that may change the whole program state, the
  table included, as the callbacks of the program do. The handler also returns the calls it makes,
  in order. The theory shows that the table stays well formed, that timers are set in the lowest free
  slot, that each fires exactly every \<^verbatim>\<open>interval\<close> ticks, and runs the program's own two callbacks.
\<close>

section \<open>Structures\<close>

definition MAX_TIMER_CNT :: nat where "MAX_TIMER_CNT = 10"
definition MUL_TIMER_RESET_SEC :: int where "MUL_TIMER_RESET_SEC = 10"
definition TIMER_UNIT :: int where "TIMER_UNIT = 60"
definition MAX_FUNC_ARG_LEN :: int where "MAX_FUNC_ARG_LEN = 100"

record 'p timer_info =
  state :: int
  interval :: int
  elapse :: int
  timer_proc :: "'p option"   \<comment> \<open>the callback, or null\<close>
  func_arg :: mem
  arg_len :: int

text \<open>Signal dispositions; clearing the structure leaves \<^verbatim>\<open>SIG_DFL\<close>.\<close>

datatype sighandler = SIG_DFL | SIG_IGN | SIG_ERR | SigFunc | OtherHandler nat

record itimerval =
  it_value :: "int \<times> int"      \<comment> \<open>seconds and microseconds\<close>
  it_interval :: "int \<times> int"

text \<open>
  The static \<^verbatim>\<open>timer_manage\<close>, with the two kernel settings the code changes: the disposition of
  \<^verbatim>\<open>SIGALRM\<close> and the interval timer. Programs extend the record with their own variables.
\<close>

record 'p timer_manage =
  timers :: "nat \<Rightarrow> 'p timer_info"
  old_sigfunc :: sighandler
  new_sigfunc :: sighandler
  tm_value :: itimerval
  tm_ovalue :: itimerval
  os_alrm :: sighandler
  os_itimer :: itimerval

definition zero_timer :: "'p timer_info" where
  "zero_timer = \<lparr>state = 0, interval = 0, elapse = 0, timer_proc = None, func_arg = (\<lambda>_. 0), arg_len = 0\<rparr>"

definition zero_itimer :: itimerval where
  "zero_itimer = \<lparr>it_value = (0, 0), it_interval = (0, 0)\<rparr>"

definition clear_manage :: "('p, 'z) timer_manage_scheme \<Rightarrow> ('p, 'z) timer_manage_scheme" where
  "clear_manage s = s\<lparr>timers := (\<lambda>_. zero_timer), old_sigfunc := SIG_DFL, new_sigfunc := SIG_DFL,
     tm_value := zero_itimer, tm_ovalue := zero_itimer\<rparr>"

section \<open>Operations\<close>

text \<open>\<^verbatim>\<open>signal\<close> and \<^verbatim>\<open>setitimer\<close>: the flags say whether the calls succeed.\<close>

definition os_signal :: "bool \<Rightarrow> sighandler \<Rightarrow> ('p, 'z) timer_manage_scheme \<Rightarrow>
    sighandler \<times> ('p, 'z) timer_manage_scheme" where
  "os_signal ok h s = (if ok then (os_alrm s, s\<lparr>os_alrm := h\<rparr>) else (SIG_ERR, s))"

definition init_mul_timer :: "bool \<Rightarrow> bool \<Rightarrow> ('p, 'z) timer_manage_scheme \<Rightarrow>
    int \<times> ('p, 'z) timer_manage_scheme" where
  "init_mul_timer sig_ok it_ok s =
     (let (old, s1) = os_signal sig_ok SigFunc (clear_manage s);
          s2 = s1\<lparr>old_sigfunc := old\<rparr>
      in if old = SIG_ERR then (-1, s2)
         else (let v = \<lparr>it_value = (MUL_TIMER_RESET_SEC, 0), it_interval = (TIMER_UNIT, 0)\<rparr>;
                   s3 = s2\<lparr>new_sigfunc := SigFunc, tm_value := v\<rparr>
               in if it_ok then (0, s3\<lparr>tm_ovalue := os_itimer s3, os_itimer := v\<rparr>) else (-1, s3)))"

definition destroy_mul_timer :: "bool \<Rightarrow> bool \<Rightarrow> ('p, 'z) timer_manage_scheme \<Rightarrow>
    int \<times> ('p, 'z) timer_manage_scheme" where
  "destroy_mul_timer sig_ok it_ok s =
     (let (old, s1) = os_signal sig_ok (old_sigfunc s) s in
      if old = SIG_ERR then (-1, s1)
      else if \<not> it_ok then (-1, s1)
      else (0, clear_manage (s1\<lparr>os_itimer := tm_ovalue s1, tm_value := os_itimer s1\<rparr>)))"

text \<open>The search loop of \<^verbatim>\<open>set_a_timer\<close>, at index \<open>i\<close>.\<close>

function set_timer_loop :: "nat \<Rightarrow> int \<Rightarrow> 'p \<Rightarrow> u8 list option \<Rightarrow> int \<Rightarrow> ('p, 'z) timer_manage_scheme \<Rightarrow>
    c_fault + (int \<times> ('p, 'z) timer_manage_scheme)" where
  "set_timer_loop i iv proc arg len s =
     (if i < MAX_TIMER_CNT
      then (if state (timers s i) = 1 then set_timer_loop (i + 1) iv proc arg len s
            else (let t1 = zero_timer\<lparr>timer_proc := Some proc\<rparr>;
                      put = (\<lambda>t. s\<lparr>timers := (timers s)(i := t)\<rparr>);
                      on = (\<lambda>t. Inr (int i, put (t\<lparr>interval := iv, elapse := 0, state := 1\<rparr>)))
                  in (case arg of
                        None \<Rightarrow> on t1
                      | Some a \<Rightarrow>
                          if len > MAX_FUNC_ARG_LEN then Inr (-1, put t1)
                          else if len < 0 \<or> int (length a) < len then Inl OutOfBounds
                          else on (t1\<lparr>func_arg := mem_put (func_arg t1) 0 (take (nat len) a), arg_len := len\<rparr>))))
      else Inr (-1, s))"
  by pat_completeness auto

termination by (relation "measure (\<lambda>(i, _). MAX_TIMER_CNT - i)") auto

declare set_timer_loop.simps [simp del]

definition set_a_timer :: "int \<Rightarrow> 'p option \<Rightarrow> u8 list option \<Rightarrow> int \<Rightarrow> ('p, 'z) timer_manage_scheme \<Rightarrow>
    c_fault + (int \<times> ('p, 'z) timer_manage_scheme)" where
  "set_a_timer iv proc arg len s =
     (case proc of
        None \<Rightarrow> Inr (-1, s)
      | Some f \<Rightarrow> if iv \<le> 0 then Inr (-1, s) else set_timer_loop 0 iv f arg len s)"

definition del_a_timer :: "int \<Rightarrow> ('p, 'z) timer_manage_scheme \<Rightarrow> int \<times> ('p, 'z) timer_manage_scheme" where
  "del_a_timer handle s =
     (if handle < 0 \<or> int MAX_TIMER_CNT \<le> handle then (-1, s)
      else (0, s\<lparr>timers := (timers s)(nat handle := zero_timer)\<rparr>))"

text \<open>A call the handler made: the slot, the callback, its argument bytes and their number.\<close>

type_synonym 'p timer_call = "nat \<times> 'p \<times> mem \<times> int"

type_synonym ('p, 'z) timer_env = "'p \<Rightarrow> mem \<Rightarrow> int \<Rightarrow> ('p, 'z) timer_manage_scheme \<Rightarrow> ('p, 'z) timer_manage_scheme"

text \<open>The body of the handler's loop for one slot.\<close>

definition tick_slot :: "('p, 'z) timer_env \<Rightarrow> nat \<Rightarrow> ('p, 'z) timer_manage_scheme \<Rightarrow>
    c_fault + ('p timer_call list \<times> ('p, 'z) timer_manage_scheme)" where
  "tick_slot call i s =
     (if state (timers s i) = 0 then Inr ([], s)
      else (let e = elapse (timers s i) + 1 in
            if e > 2 ^ 31 - 1 then Inl SignedOverflow
            else (let s1 = s\<lparr>timers := (timers s)(i := (timers s i)\<lparr>elapse := e\<rparr>)\<rparr> in
                  if e = interval (timers s1 i)
                  then (let s2 = s1\<lparr>timers := (timers s1)(i := (timers s1 i)\<lparr>elapse := 0\<rparr>)\<rparr>;
                            t = timers s2 i
                        in (case timer_proc t of
                              None \<Rightarrow> Inl NullDeref
                            | Some f \<Rightarrow> Inr ([(i, f, func_arg t, arg_len t)], call f (func_arg t) (arg_len t) s2)))
                  else Inr ([], s1))))"

fun sig_func_loop :: "('p, 'z) timer_env \<Rightarrow> nat list \<Rightarrow> ('p, 'z) timer_manage_scheme \<Rightarrow>
    c_fault + ('p timer_call list \<times> ('p, 'z) timer_manage_scheme)" where
  "sig_func_loop call [] s = Inr ([], s)"
| "sig_func_loop call (i # is) s =
     bind_fault (tick_slot call i s) (\<lambda>(cs, s1).
     bind_fault (sig_func_loop call is s1) (\<lambda>(cs', s2). Inr (cs @ cs', s2)))"

definition sig_func :: "('p, 'z) timer_env \<Rightarrow> ('p, 'z) timer_manage_scheme \<Rightarrow>
    c_fault + ('p timer_call list \<times> ('p, 'z) timer_manage_scheme)" where
  "sig_func call s = sig_func_loop call [0..<MAX_TIMER_CNT] s"

text \<open>A number of signals in a row.\<close>

fun ticks :: "('p, 'z) timer_env \<Rightarrow> nat \<Rightarrow> ('p, 'z) timer_manage_scheme \<Rightarrow>
    c_fault + ('p timer_call list \<times> ('p, 'z) timer_manage_scheme)" where
  "ticks call 0 s = Inr ([], s)"
| "ticks call (Suc n) s =
     bind_fault (ticks call n s) (\<lambda>(cs, s1).
     bind_fault (sig_func call s1) (\<lambda>(cs', s2). Inr (cs @ cs', s2)))"

section \<open>The table is well formed\<close>

definition timer_ok :: "'p timer_info \<Rightarrow> bool" where
  "timer_ok t \<longleftrightarrow> state t = 0 \<or>
     (state t = 1 \<and> timer_proc t \<noteq> None \<and> 0 < interval t \<and> interval t < 2 ^ 31 \<and> 0 \<le> elapse t \<and>
      elapse t < interval t \<and> 0 \<le> arg_len t \<and> arg_len t \<le> MAX_FUNC_ARG_LEN)"

definition timers_ok :: "('p, 'z) timer_manage_scheme \<Rightarrow> bool" where
  "timers_ok s \<longleftrightarrow> (\<forall>i < MAX_TIMER_CNT. timer_ok (timers s i))"

lemma timer_ok_zero [simp]: "timer_ok zero_timer"
  by (simp add: timer_ok_def zero_timer_def)

lemma timers_ok_clear [simp]: "timers_ok (clear_manage s)"
  by (simp add: timers_ok_def clear_manage_def)

lemma timers_ok_put:
  "timers_ok s \<Longrightarrow> timer_ok t \<Longrightarrow> timers_ok (s\<lparr>timers := (timers s)(i := t)\<rparr>)"
  by (simp add: timers_ok_def)

lemma timers_ok_del: "timers_ok s \<Longrightarrow> timers_ok (snd (del_a_timer h s))"
  by (simp add: del_a_timer_def timers_ok_put)

text \<open>The first slot that is not in use.\<close>

definition first_free :: "nat \<Rightarrow> ('p, 'z) timer_manage_scheme \<Rightarrow> nat option" where
  "first_free i s = find (\<lambda>k. state (timers s k) \<noteq> 1) [i..<MAX_TIMER_CNT]"

definition new_timer :: "int \<Rightarrow> 'p \<Rightarrow> u8 list option \<Rightarrow> int \<Rightarrow> 'p timer_info" where
  "new_timer iv proc arg len =
     \<lparr>state = 1, interval = iv, elapse = 0, timer_proc = Some proc,
      func_arg = (case arg of None \<Rightarrow> (\<lambda>_. 0) | Some a \<Rightarrow> mem_put (\<lambda>_. 0) 0 (take (nat len) a)),
      arg_len = (case arg of None \<Rightarrow> 0 | Some _ \<Rightarrow> len)\<rparr>"

lemma set_timer_loop_eq:
  assumes "case arg of None \<Rightarrow> True
    | Some a \<Rightarrow> len \<le> MAX_FUNC_ARG_LEN \<longrightarrow> len \<le> int (length a) \<and> 0 \<le> len"
  shows "set_timer_loop i iv proc arg len s =
    (case first_free i s of
       None \<Rightarrow> Inr (-1, s)
     | Some k \<Rightarrow>
         if arg \<noteq> None \<and> len > MAX_FUNC_ARG_LEN
         then Inr (-1, s\<lparr>timers := (timers s)(k := zero_timer\<lparr>timer_proc := Some proc\<rparr>)\<rparr>)
         else Inr (int k, s\<lparr>timers := (timers s)(k := new_timer iv proc arg len)\<rparr>))"
  using assms
proof (induction i iv proc arg len s rule: set_timer_loop.induct)
  case (1 i iv proc arg len s)
  have free: "first_free i s = (if i < MAX_TIMER_CNT then
      (if state (timers s i) \<noteq> 1 then Some i else first_free (i + 1) s) else None)"
    by (simp add: first_free_def upt_conv_Cons)
  show ?case
  proof (cases "i < MAX_TIMER_CNT \<and> state (timers s i) = 1")
    case True
    with 1 free show ?thesis by (subst set_timer_loop.simps) simp
  next
    case False
    with 1(2) free show ?thesis
      by (subst set_timer_loop.simps)
        (auto simp: new_timer_def zero_timer_def Let_def split: option.split)
  qed
qed

section \<open>Clients of the timers\<close>

text \<open>
  A client's callbacks keep an invariant of the program and the table well formed. The handler then
  never faults, whatever the callbacks do to the table.
\<close>

locale timer_client =
  fixes call :: "('p, 'z) timer_env" and I :: "('p, 'z) timer_manage_scheme \<Rightarrow> bool"
  assumes I_timers: "I s \<Longrightarrow> I (s\<lparr>timers := t\<rparr>)"
    and keeps: "I s \<Longrightarrow> timers_ok s \<Longrightarrow> I (call f a l s) \<and> timers_ok (call f a l s)"
begin

lemma tick_slot_ok:
  assumes "I s" "timers_ok s" "i < MAX_TIMER_CNT"
  shows "\<exists>cs s'. tick_slot call i s = Inr (cs, s') \<and> I s' \<and> timers_ok s' \<and> fst ` set cs \<subseteq> {i}"
proof (cases "state (timers s i) = 0")
  case True
  with assms show ?thesis by (simp add: tick_slot_def)
next
  case False
  let ?t = "timers s i"
  have t: "0 < interval ?t" "interval ?t < 2 ^ 31" "0 \<le> elapse ?t" "elapse ?t < interval ?t"
    "timer_ok ?t" "state ?t = 1" "timer_proc ?t \<noteq> None" "0 \<le> arg_len ?t" "arg_len ?t \<le> MAX_FUNC_ARG_LEN"
    using assms False by (auto simp: timers_ok_def timer_ok_def)
  have ok: "I (s\<lparr>timers := (timers s)(i := ?t\<lparr>elapse := e\<rparr>)\<rparr>)"
      "timers_ok (s\<lparr>timers := (timers s)(i := ?t\<lparr>elapse := e\<rparr>)\<rparr>)" if "0 \<le> e" "e < interval ?t" for e
    using that t assms by (auto simp: timer_ok_def intro!: I_timers timers_ok_put)
  show ?thesis
  proof (cases "elapse ?t + 1 = interval ?t")
    case True
    obtain f where f: "timer_proc ?t = Some f" using t by blast
    show ?thesis using True False t f keeps [OF ok(1) [of 0] ok(2) [of 0]]
      by (simp add: tick_slot_def Let_def)
  next
    case neq: False
    then show ?thesis using False t ok [of "elapse ?t + 1"] by (simp add: tick_slot_def Let_def)
  qed
qed

lemma sig_func_loop_ok:
  assumes "I s" "timers_ok s" "set is \<subseteq> {..<MAX_TIMER_CNT}"
  shows "\<exists>cs s'. sig_func_loop call is s = Inr (cs, s') \<and> I s' \<and> timers_ok s' \<and> fst ` set cs \<subseteq> set is"
  using assms
proof (induction "is" arbitrary: s)
  case (Cons i "is")
  obtain cs s1 where 1: "tick_slot call i s = Inr (cs, s1)" "I s1" "timers_ok s1" "fst ` set cs \<subseteq> {i}"
    using tick_slot_ok [of s i] Cons.prems by auto
  obtain cs' s2 where 2: "sig_func_loop call is s1 = Inr (cs', s2)" "I s2" "timers_ok s2"
    "fst ` set cs' \<subseteq> set is" using Cons.IH [OF 1(2,3)] Cons.prems by auto
  have "fst ` set (cs @ cs') \<subseteq> set (i # is)" using 1(4) 2(4) by auto
  with 1(1) 2 show ?case by simp
qed simp

lemma sig_func_ok:
  "I s \<Longrightarrow> timers_ok s \<Longrightarrow> \<exists>cs s'. sig_func call s = Inr (cs, s') \<and> I s' \<and> timers_ok s'"
  using sig_func_loop_ok [of s "[0..<MAX_TIMER_CNT]"] unfolding sig_func_def by (auto simp: lessThan_atLeast0)

lemma ticks_ok:
  "I s \<Longrightarrow> timers_ok s \<Longrightarrow> \<exists>cs s'. ticks call n s = Inr (cs, s') \<and> I s' \<and> timers_ok s'"
proof (induction n)
  case (Suc n)
  then obtain cs s1 where 1: "ticks call n s = Inr (cs, s1)" "I s1" "timers_ok s1" by auto
  obtain cs' s2 where "sig_func call s1 = Inr (cs', s2)" "I s2" "timers_ok s2"
    using sig_func_ok [OF 1(2,3)] by auto
  with 1(1) show ?case by simp
qed simp

end

text \<open>A client none of whose callbacks changes the timer in one slot.\<close>

locale timer_slot = timer_client call I
  for call :: "('p, 'z) timer_env" and I :: "('p, 'z) timer_manage_scheme \<Rightarrow> bool" +
  fixes k :: nat
  assumes k: "k < MAX_TIMER_CNT"
    and untouched: "I s \<Longrightarrow> timers (call f a l s) k = timers s k"
begin

lemma tick_other:
  assumes "I s" "tick_slot call i s = Inr (cs, s')" "i \<noteq> k"
  shows "timers s' k = timers s k"
  using assms untouched [OF I_timers [OF assms(1)]]
  by (auto simp: tick_slot_def Let_def split: if_splits option.splits)

lemma tick_this:
  assumes "I s" "timers_ok s" "state (timers s k) = 1" "tick_slot call k s = Inr (cs, s')"
  shows "timers s' k = (timers s k)\<lparr>elapse := (elapse (timers s k) + 1) mod interval (timers s k)\<rparr> \<and>
    cs = replicate (nat ((elapse (timers s k) + 1) div interval (timers s k)))
      (k, the (timer_proc (timers s k)), func_arg (timers s k), arg_len (timers s k))"
proof -
  let ?t = "timers s k"
  have t: "0 \<le> elapse ?t" "elapse ?t < interval ?t" using assms k by (auto simp: timers_ok_def timer_ok_def)
  show ?thesis
  proof (cases "elapse ?t + 1 = interval ?t")
    case True
    with assms(3,4) t untouched [OF I_timers [OF assms(1)]] show ?thesis
      by (auto simp: tick_slot_def Let_def split: if_splits option.splits)
  next
    case False
    with t have "(elapse ?t + 1) mod interval ?t = elapse ?t + 1" "(elapse ?t + 1) div interval ?t = 0"
      by auto
    with False assms(3,4) t show ?thesis by (auto simp: tick_slot_def Let_def split: if_splits)
  qed
qed

lemma sig_func_loop_other:
  assumes "I s" "timers_ok s" "set is \<subseteq> {..<MAX_TIMER_CNT}" "k \<notin> set is"
    "sig_func_loop call is s = Inr (cs, s')"
  shows "timers s' k = timers s k \<and> filter (\<lambda>c. fst c = k) cs = []"
  using assms
proof (induction "is" arbitrary: s cs)
  case (Cons i "is")
  obtain cs1 s1 where 1: "tick_slot call i s = Inr (cs1, s1)" "I s1" "timers_ok s1" "fst ` set cs1 \<subseteq> {i}"
    using tick_slot_ok [of s i] Cons.prems by auto
  obtain cs2 where 2: "sig_func_loop call is s1 = Inr (cs2, s')" "cs = cs1 @ cs2"
    using Cons.prems(5) 1(1) by (auto simp: bind_fault_Inr_iff)
  have "filter (\<lambda>c. fst c = k) cs1 = []" using 1(4) Cons.prems(4) by (auto simp: filter_empty_conv)
  with Cons.IH [OF 1(2,3) _ _ 2(1)] Cons.prems(3,4) 2(2) tick_other [OF Cons.prems(1) 1(1)] show ?case by auto
qed simp

lemma sig_func_loop_append:
  "sig_func_loop call (is @ js) s =
     bind_fault (sig_func_loop call is s) (\<lambda>(cs, s1).
     bind_fault (sig_func_loop call js s1) (\<lambda>(cs', s2). Inr (cs @ cs', s2)))"
proof (induction "is" arbitrary: s)
  case Nil
  show ?case by (cases "sig_func_loop call js s") auto
next
  case (Cons i "is")
  show ?case
    by (cases "tick_slot call i s"; clarsimp simp: Cons.IH; rename_tac cs s1;
        case_tac "sig_func_loop call is s1"; clarsimp; rename_tac cs' s2;
        case_tac "sig_func_loop call js s2"; clarsimp)
qed

lemma sig_func_this:
  assumes "I s" "timers_ok s" "state (timers s k) = 1" "sig_func call s = Inr (cs, s')"
  shows "timers s' k = (timers s k)\<lparr>elapse := (elapse (timers s k) + 1) mod interval (timers s k)\<rparr> \<and>
    filter (\<lambda>c. fst c = k) cs = replicate (nat ((elapse (timers s k) + 1) div interval (timers s k)))
      (k, the (timer_proc (timers s k)), func_arg (timers s k), arg_len (timers s k))"
proof -
  let ?as = "[0..<k]" and ?bs = "[Suc k..<MAX_TIMER_CNT]"
  have split: "[0..<MAX_TIMER_CNT] = ?as @ k # ?bs"
    using k upt_add_eq_append [of 0 k "MAX_TIMER_CNT - k"] upt_conv_Cons [of k MAX_TIMER_CNT] by simp
  have rng: "set ?as \<subseteq> {..<MAX_TIMER_CNT}" "set ?bs \<subseteq> {..<MAX_TIMER_CNT}" using k by auto
  obtain ca s1 where a: "sig_func_loop call ?as s = Inr (ca, s1)" "I s1" "timers_ok s1"
    using sig_func_loop_ok [OF assms(1,2) rng(1)] by auto
  obtain ct s2 where t: "tick_slot call k s1 = Inr (ct, s2)" "I s2" "timers_ok s2"
    using tick_slot_ok [OF a(2,3) k] by auto
  obtain cb where b: "sig_func_loop call ?bs s2 = Inr (cb, s')" "cs = ca @ ct @ cb"
    using assms(4) a(1) t(1) unfolding sig_func_def split sig_func_loop_append
    by (auto simp: bind_fault_Inr_iff)
  have 1: "timers s1 k = timers s k" "filter (\<lambda>c. fst c = k) ca = []"
    using sig_func_loop_other [OF assms(1,2) rng(1) _ a(1)] by auto
  have 3: "timers s' k = timers s2 k" "filter (\<lambda>c. fst c = k) cb = []"
    using sig_func_loop_other [OF t(2,3) rng(2) _ b(1)] by auto
  from tick_this [OF a(2,3) _ t(1)] 1 3 b(2) assms(3) show ?thesis by simp
qed

lemma period:
  assumes "I s" "timers_ok s" "state (timers s k) = 1"
  shows "\<exists>cs s'. ticks call n s = Inr (cs, s') \<and> I s' \<and> timers_ok s' \<and>
    timers s' k = (timers s k)\<lparr>elapse := (elapse (timers s k) + int n) mod interval (timers s k)\<rparr> \<and>
    filter (\<lambda>c. fst c = k) cs = replicate (nat ((elapse (timers s k) + int n) div interval (timers s k)))
      (k, the (timer_proc (timers s k)), func_arg (timers s k), arg_len (timers s k))"
proof (induction n)
  case 0
  have "0 \<le> elapse (timers s k)" "elapse (timers s k) < interval (timers s k)"
    using assms k by (auto simp: timers_ok_def timer_ok_def)
  with assms show ?case by simp
next
  case (Suc n)
  let ?t = "timers s k" and ?e = "elapse (timers s k) + int n" and ?iv = "interval (timers s k)"
  have t: "0 \<le> elapse ?t" "0 < ?iv" using assms k by (auto simp: timers_ok_def timer_ok_def)
  obtain cs s1 where 1: "ticks call n s = Inr (cs, s1)" "I s1" "timers_ok s1"
    "timers s1 k = ?t\<lparr>elapse := ?e mod ?iv\<rparr>"
    "filter (\<lambda>c. fst c = k) cs = replicate (nat (?e div ?iv)) (k, the (timer_proc ?t), func_arg ?t, arg_len ?t)"
    using Suc by auto
  obtain cs' s2 where 2: "sig_func call s1 = Inr (cs', s2)" "I s2" "timers_ok s2"
    using sig_func_ok [OF 1(2,3)] by auto
  have d: "(?e + 1) div ?iv = ?e div ?iv + (?e mod ?iv + 1) div ?iv"
    using div_mult_self2 [of ?iv "?e mod ?iv + 1" "?e div ?iv"] t by (simp add: algebra_simps)
  have nn: "0 \<le> ?e div ?iv" "0 \<le> (?e mod ?iv + 1) div ?iv"
    using t by (simp_all add: pos_imp_zdiv_nonneg_iff)
  have m: "(?e mod ?iv + 1) mod ?iv = (?e + 1) mod ?iv" by (simp add: mod_add_left_eq)
  from sig_func_this [OF 1(2,3) _ 2(1)] 1(4) assms(3)
  have "timers s2 k = ?t\<lparr>elapse := (?e + 1) mod ?iv\<rparr>"
    and "filter (\<lambda>c. fst c = k) cs' = replicate (nat ((?e mod ?iv + 1) div ?iv))
      (k, the (timer_proc ?t), func_arg ?t, arg_len ?t)" by (simp_all add: m)
  with 1 2 d nn show ?case
    by (simp add: nat_add_distrib replicate_add [symmetric] algebra_simps)
qed

end

section \<open>The program's own timers\<close>

text \<open>
  The two callbacks and \<^verbatim>\<open>main\<close>; the output is left out. The static counters of the callbacks, the
  handles and the call counter extend the manager's record.
\<close>

datatype main_proc = TimerProc1 | TimerProc2

record mul_main = "main_proc timer_manage" +
  proc1_i :: int
  proc2_i :: int
  hdl :: "nat \<Rightarrow> int"
  call_cnt :: int

definition timer_proc1 :: "mul_main \<Rightarrow> mul_main" where
  "timer_proc1 s =
     (let s1 = (if proc1_i s \<ge> 5 then snd (del_a_timer (hdl s 0) s) else s)
      in s1\<lparr>proc1_i := proc1_i s1 + 1, call_cnt := call_cnt s1 + 1\<rparr>)"

definition timer_proc2 :: "mul_main \<Rightarrow> mul_main" where
  "timer_proc2 s =
     (let s1 = (if proc2_i s \<ge> 5 then snd (del_a_timer (hdl s 2) s) else s)
      in s1\<lparr>proc2_i := proc2_i s1 + 1, call_cnt := call_cnt s1 + 1\<rparr>)"

fun main_call :: "main_proc \<Rightarrow> mem \<Rightarrow> int \<Rightarrow> mul_main \<Rightarrow> mul_main" where
  "main_call TimerProc1 a l s = timer_proc1 s"
| "main_call TimerProc2 a l s = timer_proc2 s"

text \<open>\<^verbatim>\<open>main\<close> up to its loop; the argument array is uninitialised, so its bytes are a parameter.\<close>

definition main_setup :: "u8 list \<Rightarrow> mul_main \<Rightarrow> c_fault + mul_main" where
  "main_setup arg s0 =
     (let (_, s1) = init_mul_timer True True s0 in
      bind_fault (set_a_timer 2 (Some TimerProc1) None 0 s1) (\<lambda>(h0, s2).
      let s3 = s2\<lparr>hdl := (hdl s2)(0 := h0)\<rparr> in
      bind_fault (set_a_timer 3 (Some TimerProc2) (Some arg) 50 s3) (\<lambda>(h1, s4).
      let s5 = s4\<lparr>hdl := (hdl s4)(1 := h1)\<rparr> in
      bind_fault (set_a_timer 3 (Some TimerProc2) (Some arg) 101 s5) (\<lambda>(h2, s6).
      Inr (s6\<lparr>hdl := (hdl s6)(2 := h2)\<rparr>)))))"

text \<open>One round of the loop of \<^verbatim>\<open>main\<close>; the boolean says whether it leaves the loop.\<close>

definition main_round :: "mul_main \<Rightarrow> bool \<times> mul_main" where
  "main_round s =
     (let s1 = (if call_cnt s \<ge> 12
                then (let s' = snd (destroy_mul_timer True True s) in s'\<lparr>call_cnt := call_cnt s' + 1\<rparr>) else s)
      in (call_cnt s1 \<ge> 20, s1))"

definition main_start :: mul_main where
  "main_start = \<lparr>timers = (\<lambda>_. zero_timer), old_sigfunc = SIG_DFL, new_sigfunc = SIG_DFL,
     tm_value = zero_itimer, tm_ovalue = zero_itimer, os_alrm = SIG_DFL, os_itimer = zero_itimer,
     proc1_i = 0, proc2_i = 0, hdl = (\<lambda>_. 0), call_cnt = 0\<rparr>"

text \<open>What \<^verbatim>\<open>main\<close> establishes and its callbacks keep: the handles it stored.\<close>

definition main_handles :: "mul_main \<Rightarrow> bool" where
  "main_handles s \<longleftrightarrow> hdl s 0 = 0 \<and> hdl s 1 = 1 \<and> hdl s 2 = -1"

lemma main_call_frame:
  "main_handles s \<Longrightarrow> main_handles (main_call f a l s)"
  "timers_ok s \<Longrightarrow> timers_ok (main_call f a l s)"
  "main_handles s \<Longrightarrow> timers (main_call f a l s) (Suc 0) = timers s (Suc 0)"
  by (cases f; auto simp: main_handles_def timer_proc1_def timer_proc2_def del_a_timer_def timers_ok_def
      Let_def)+

interpretation main: timer_client main_call main_handles
  by unfold_locales (auto simp: main_call_frame, simp add: main_handles_def)

interpretation main1: timer_slot main_call main_handles 1
  by unfold_locales (auto simp: main_call_frame MAX_TIMER_CNT_def)

lemma main_setup_ok:
  assumes "length arg = 50"
  shows "\<exists>s. main_setup arg main_start = Inr s \<and> main_handles s \<and> timers_ok s \<and>
    timers s 0 = new_timer 2 TimerProc1 None 0 \<and> timers s 1 = new_timer 3 TimerProc2 (Some arg) 50 \<and>
    os_alrm s = SigFunc \<and> proc1_i s = 0 \<and> call_cnt s = 0"
proof -
  have upt: "[0..<MAX_TIMER_CNT] = 0 # 1 # 2 # [3..<MAX_TIMER_CNT]"
    by (simp add: MAX_TIMER_CNT_def upt_conv_Cons)
  note defs = main_setup_def init_mul_timer_def os_signal_def clear_manage_def main_start_def set_a_timer_def
  show ?thesis
    using assms
    by (simp add: defs Let_def set_timer_loop_eq first_free_def upt main_handles_def timers_ok_def timer_ok_def
        new_timer_def zero_timer_def MAX_FUNC_ARG_LEN_def)
qed

section \<open>Properties of the timers\<close>



text \<open>
  Setting a timer. Without a callback or with a non-positive interval it is refused. Otherwise the
  lowest slot not in use is taken: the handle is its number and the slot holds exactly the new timer,
  counting from 0. When all ten slots are in use nothing changes; when the argument is longer than 100
  bytes the call fails and the slot stays unused. All other slots are untouched and the table stays
  well formed.
\<close>

theorem set_a_timer_spec:
  assumes "timers_ok s" "iv < 2 ^ 31"
    and "case arg of None \<Rightarrow> True | Some a \<Rightarrow> len \<le> MAX_FUNC_ARG_LEN \<longrightarrow> len \<le> int (length a) \<and> 0 \<le> len"
  shows "\<exists>r s'. set_a_timer iv proc arg len s = Inr (r, s') \<and> timers_ok s' \<and>
    (if proc = None \<or> iv \<le> 0 \<or> (\<forall>k < MAX_TIMER_CNT. state (timers s k) = 1) then r = -1 \<and> s' = s
     else \<exists>k < MAX_TIMER_CNT. state (timers s k) \<noteq> 1 \<and> (\<forall>i < k. state (timers s i) = 1) \<and>
       (if arg \<noteq> None \<and> MAX_FUNC_ARG_LEN < len
        then r = -1 \<and> state (timers s' k) = 0
        else r = int k \<and> timers s' k = new_timer iv (the proc) arg len) \<and>
       (\<forall>i. i \<noteq> k \<longrightarrow> timers s' i = timers s i))"
proof (cases "proc = None \<or> iv \<le> 0")
  case True
  with assms(1) show ?thesis by (cases proc) (auto simp: set_a_timer_def)
next
  case False
  then obtain f where f: "proc = Some f" "0 < iv" by auto
  show ?thesis
  proof (cases "first_free 0 s")
    case None
    then have "\<forall>k < MAX_TIMER_CNT. state (timers s k) = 1"
      by (auto simp: first_free_def find_None_iff)
    with None f assms show ?thesis by (simp add: set_a_timer_def set_timer_loop_eq)
  next
    case (Some k)
    then have k: "k < MAX_TIMER_CNT" "state (timers s k) \<noteq> 1" "\<forall>i < k. state (timers s i) = 1"
      by (auto simp: first_free_def find_Some_iff)
    have new: "timer_ok (new_timer iv f arg len)" if "\<not> (arg \<noteq> None \<and> MAX_FUNC_ARG_LEN < len)"
      using that f(2) assms(2,3)
      by (auto simp: timer_ok_def new_timer_def MAX_FUNC_ARG_LEN_def split: option.splits)
    have off: "timer_ok (zero_timer\<lparr>timer_proc := Some f\<rparr>)" by (simp add: timer_ok_def zero_timer_def)
    have eq: "set_a_timer iv proc arg len s =
        (if arg \<noteq> None \<and> len > MAX_FUNC_ARG_LEN
         then Inr (-1, s\<lparr>timers := (timers s)(k := zero_timer\<lparr>timer_proc := Some f\<rparr>)\<rparr>)
         else Inr (int k, s\<lparr>timers := (timers s)(k := new_timer iv f arg len)\<rparr>))"
      using f assms(3) Some by (simp add: set_a_timer_def set_timer_loop_eq)
    show ?thesis
    proof (cases "arg \<noteq> None \<and> MAX_FUNC_ARG_LEN < len")
      case True
      with eq f k off assms(1) timers_ok_put [OF assms(1) off] show ?thesis
        by (auto simp: zero_timer_def intro!: exI [of _ k])
    next
      case False
      with eq f k timers_ok_put [OF assms(1) new [OF False]] show ?thesis
        by (auto intro!: exI [of _ k])
    qed
  qed
qed

theorem set_a_timer_spec_witness:
  "\<exists>r s'. set_a_timer 5 (Some TimerProc1) (Some [1, 2, 3]) 3 main_start = Inr (r, s') \<and> timers_ok s'"
  using set_a_timer_spec [where s = main_start and iv = 5 and arg = "Some [1, 2, 3]" and len = 3 and proc = "Some TimerProc1"]
  by (auto simp: main_start_def timers_ok_def MAX_FUNC_ARG_LEN_def)

text \<open>Initialising and destroying gives the signal disposition and the interval timer back.\<close>

lemma init_destroy_restores:
  assumes "os_alrm s \<noteq> SIG_ERR" "init_mul_timer True True s = (0, s1)"
    "old_sigfunc s2 = old_sigfunc s1" "tm_ovalue s2 = tm_ovalue s1" "os_alrm s2 \<noteq> SIG_ERR"
  shows "\<exists>s3. destroy_mul_timer True True s2 = (0, s3) \<and> os_alrm s3 = os_alrm s \<and> os_itimer s3 = os_itimer s \<and>
    timers_ok s3"
  using assms
  by (auto simp: init_mul_timer_def destroy_mul_timer_def os_signal_def Let_def clear_manage_def timers_ok_def
      split: if_splits)

end
