(* ===== verification/CanReplay.thy ===== *)
theory CanReplay
  imports Prelude
begin

text \<open>
  The CAN replay server of \<^verbatim>\<open>apps/udp/server/udp_server.c\<close>. A command thread receives start, stop,
  pause and resume commands by UDP; a parser thread reads an ASC trace line by line and puts the
  selected frames on a System V message queue; a sender thread per channel takes them off and paces
  them by their timestamps. Each thread's code is a step function on the shared state, and the system
  is their interleaving. The file system, the clocks and the results of the system calls are
  parameters, and so is the double-precision conversion \<^verbatim>\<open>atof(s) * 1000000\<close> of \<^verbatim>\<open>str2time\<close>.
\<close>

section \<open>Data\<close>

definition CMD_START :: u8 where "CMD_START = 0"
definition CMD_STOP :: u8 where "CMD_STOP = 1"
definition CMD_PAUSE :: u8 where "CMD_PAUSE = 2"
definition CMD_RESUME :: u8 where "CMD_RESUME = 3"

record cmd_msg =
  cmd :: u8
  t_start :: u64
  t_resume :: u64
  t_beg_offset :: u64
  t_end_offset :: u64
  t_cur_offset :: u64
  file_name :: string

record can_item =
  ci_type :: u64
  timestamp :: u64
  channel :: u64
  id_field :: u64
  dlc :: u64
  ci_data :: mem

datatype state_enum = STATE_IDEL | STATE_START | STATE_PAUSE

section \<open>Numbers and words of a line\<close>

text \<open>\<^verbatim>\<open>strtok\<close> with the delimiter \<^verbatim>\<open>" "\<close>: the non-empty words, the line end included in the last one.\<close>

fun words_of :: "string \<Rightarrow> string \<Rightarrow> string list" where
  "words_of cur [] = (if cur = [] then [] else [rev cur])"
| "words_of cur (c # cs) =
     (if c = CHR '' '' then (if cur = [] then words_of [] cs else rev cur # words_of [] cs)
      else words_of (c # cur) cs)"

definition strtok_words :: "string \<Rightarrow> string list" where
  "strtok_words s = words_of [] s"

definition isspace :: "char \<Rightarrow> bool" where
  "isspace c \<longleftrightarrow> (let n = (of_char c :: nat) in n = 32 \<or> 9 \<le> n \<and> n \<le> 13)"

definition digit_val :: "nat \<Rightarrow> char \<Rightarrow> nat option" where
  "digit_val b c =
     (let n = (of_char c :: nat);
          v = (if 48 \<le> n \<and> n \<le> 57 then n - 48
               else if 97 \<le> n \<and> n \<le> 122 then n - 87
               else if 65 \<le> n \<and> n \<le> 90 then n - 55 else 36)
      in if v < b then Some v else None)"

fun num_prefix :: "nat \<Rightarrow> int \<Rightarrow> string \<Rightarrow> int" where
  "num_prefix b acc [] = acc"
| "num_prefix b acc (c # cs) =
     (case digit_val b c of None \<Rightarrow> acc | Some d \<Rightarrow> num_prefix b (acc * int b + int d) cs)"

text \<open>\<^verbatim>\<open>strtol\<close> saturates at the ends of \<^verbatim>\<open>long\<close>.\<close>

definition strtol :: "nat \<Rightarrow> string \<Rightarrow> int" where
  "strtol b s =
     (let s1 = dropWhile isspace s;
          (neg, s2) = (case s1 of c # r \<Rightarrow> if c = CHR ''-'' then (True, r) else if c = CHR ''+'' then (False, r) else (False, s1)
                       | [] \<Rightarrow> (False, s1));
          s3 = (case s2 of
                  z # x # h # r \<Rightarrow>
                    if b = 16 \<and> z = CHR ''0'' \<and> (x = CHR ''x'' \<or> x = CHR ''X'') \<and> digit_val 16 h \<noteq> None then h # r else s2
                | _ \<Rightarrow> s2);
          v = num_prefix b 0 s3;
          w = (if neg then - v else v)
      in max (- (2 ^ 63)) (min (2 ^ 63 - 1) w))"

definition atoi :: "string \<Rightarrow> int" where
  "atoi s = sint (word_of_int (strtol 10 s) :: 32 word)"

fun strstr :: "string \<Rightarrow> string \<Rightarrow> bool" where
  "strstr p [] \<longleftrightarrow> p = []"
| "strstr p (c # cs) \<longleftrightarrow> take (length p) (c # cs) = p \<or> strstr p cs"

section \<open>Parsing a frame\<close>

text \<open>
  The item is stored at the front of the 512 bytes of \<^verbatim>\<open>g_data_buf\<close>, which leaves 472 bytes for its
  data.
\<close>

definition DATA_ROOM :: nat where "DATA_ROOM = 472"

fun deal_loop :: "nat \<Rightarrow> bool \<Rightarrow> string list \<Rightarrow> can_item \<Rightarrow> c_fault + (int \<times> can_item)" where
  "deal_loop index can_frame_flag [] it = Inr (if can_frame_flag then 0 else -1, it)"
| "deal_loop index can_frame_flag (res # rest) it =
     (if index = 1 then deal_loop 2 can_frame_flag rest (it\<lparr>channel := word_of_int (atoi res)\<rparr>)
      else if index = 2
      then (if strstr ''Error'' res then Inr (0, it\<lparr>id_field := -1, dlc := 0\<rparr>)
            else deal_loop 3 can_frame_flag rest (it\<lparr>id_field := word_of_int (strtol 16 res)\<rparr>))
      else if index = 4 then (if res = ''d'' then deal_loop 5 True rest it else Inr (-1, it))
      else if index = 5 then deal_loop 6 can_frame_flag rest (it\<lparr>dlc := word_of_int (atoi res)\<rparr>)
      else if index \<ge> 6 \<and> (of_nat index :: u64) \<le> dlc it + 6
      then (if index - 6 < DATA_ROOM
            then deal_loop (index + 1) can_frame_flag rest
                   (it\<lparr>ci_data := (ci_data it)(index - 6 := word_of_int (strtol 16 res))\<rparr>)
            else Inl OutOfBounds)
      else deal_loop (index + 1) can_frame_flag rest it)"

definition deal_can_frame :: "(string \<Rightarrow> u64) \<Rightarrow> string \<Rightarrow> can_item \<Rightarrow> c_fault + (int \<times> can_item)" where
  "deal_can_frame time_of buff it =
     (case strtok_words buff of
        [] \<Rightarrow> Inl NullDeref
      | t # _ \<Rightarrow> deal_loop 0 False (strtok_words buff) (it\<lparr>timestamp := time_of t\<rparr>))"

section \<open>The shared state\<close>

text \<open>
  A parser is at its entry, about to read its next line, blocked in \<^verbatim>\<open>sem_wait\<close>, about to hand its
  frame to \<^verbatim>\<open>msgsnd\<close>, or finished; the lines are those \<^verbatim>\<open>fgets\<close> has still to return.
\<close>

datatype parser =
    PEntry
  | PReading "string list"
  | PPaused "string list"
  | PSending "string list"
  | PDone

record sender =
  base_time :: u64
  last_frame_time :: u64

record replay =
  server_state :: state_enum
  cmd_buf :: cmd_msg                  \<comment> \<open>\<^verbatim>\<open>g_cmd_buf\<close>, which the parser's argument points to\<close>
  srv_cmd :: cmd_msg                  \<comment> \<open>\<^verbatim>\<open>g_server_info.cmd_msg\<close>\<close>
  client_addr :: nat
  pause_sem :: nat
  g_msqid :: int
  queues :: "int \<Rightarrow> can_item list option"  \<comment> \<open>the message queues that exist\<close>
  data_buf :: can_item                \<comment> \<open>\<^verbatim>\<open>g_data_buf\<close>\<close>
  line_count :: int
  parsers :: "nat \<Rightarrow> parser option"
  senders :: "nat \<Rightarrow> sender option"
  g_replay_can_thread :: nat
  vci_thread :: nat
  refresh_base_time :: bool           \<comment> \<open>\<^verbatim>\<open>True\<close> for \<^verbatim>\<open>NO_NEED_REFRESH_BSAE_TIME\<close>\<close>
  fp_open :: bool                     \<comment> \<open>the channel's log file\<close>
  replies :: "(nat \<times> cmd_msg \<times> nat) list"  \<comment> \<open>datagrams sent: address, command and length\<close>

section \<open>Commands\<close>

text \<open>The results of the calls of \<^verbatim>\<open>cmd_start_handle\<close>; a thread identifier is given for each creation.\<close>

record start_env =
  se_msgget :: "int option"       \<comment> \<open>the new queue of \<^verbatim>\<open>IPC_PRIVATE\<close>, or an error\<close>
  se_stat :: bool
  se_set :: bool
  se_vci :: "nat option"
  se_parse :: "nat option"

definition cmd_start_handle :: "start_env \<Rightarrow> replay \<Rightarrow> replay" where
  "cmd_start_handle e s =
     (if server_state s \<noteq> STATE_IDEL then s
      else (let s1 = s\<lparr>pause_sem := 0\<rparr> in
            case se_msgget e of
              None \<Rightarrow> s1\<lparr>g_msqid := -1\<rparr>
            | Some q \<Rightarrow>
                (let s2 = s1\<lparr>g_msqid := q, queues := (queues s1)(q \<mapsto> [])\<rparr> in
                 if \<not> se_stat e \<or> \<not> se_set e then s2
                 else (let s3 = s2\<lparr>fp_open := True\<rparr>;
                           s4 = (case se_vci e of None \<Rightarrow> s3
                                 | Some t \<Rightarrow> s3\<lparr>vci_thread := t,
                                     senders := (senders s3)(t \<mapsto> \<lparr>base_time = 0, last_frame_time = 0\<rparr>)\<rparr>)
                       in (case se_parse e of None \<Rightarrow> s4
                           | Some t \<Rightarrow> s4\<lparr>g_replay_can_thread := t, parsers := (parsers s4)(t \<mapsto> PEntry)\<rparr>)))))"

text \<open>
  \<^verbatim>\<open>pthread_cancel\<close> and \<^verbatim>\<open>pthread_join\<close> on the parser and then on the sender: afterwards the threads
  named by the two handles are gone. \<^verbatim>\<open>IPC_RMID\<close> may fail.
\<close>

definition cmd_stop_handle :: "bool \<Rightarrow> replay \<Rightarrow> replay" where
  "cmd_stop_handle rmid_ok s =
     (if server_state s \<noteq> STATE_PAUSE \<and> server_state s \<noteq> STATE_START then s
      else (let p = g_replay_can_thread s;
                s1 = s\<lparr>parsers := (parsers s)(p := None),
                       g_replay_can_thread := (if parsers s p \<noteq> Some PDone then 0 else p)\<rparr>;
                v = vci_thread s1;
                s2 = s1\<lparr>senders := (senders s1)(v := None), vci_thread := 0, fp_open := False\<rparr>
            in if rmid_ok then s2\<lparr>queues := (queues s2)(g_msqid s2 := None), server_state := STATE_IDEL\<rparr> else s2))"

definition cmd_pause_handle :: "replay \<Rightarrow> replay" where
  "cmd_pause_handle s = (if server_state s \<noteq> STATE_START then s else s\<lparr>server_state := STATE_PAUSE\<rparr>)"

definition cmd_resume_handle :: "replay \<Rightarrow> replay" where
  "cmd_resume_handle s =
     (if server_state s \<noteq> STATE_PAUSE then s
      else s\<lparr>server_state := STATE_START, refresh_base_time := False, pause_sem := pause_sem s + 1\<rparr>)"

definition cmd_handle :: "start_env \<Rightarrow> bool \<Rightarrow> cmd_msg \<Rightarrow> replay \<Rightarrow> replay" where
  "cmd_handle e rmid_ok m s =
     (if cmd m = CMD_START then cmd_start_handle e s
      else if cmd m = CMD_STOP then cmd_stop_handle rmid_ok s
      else if cmd m = CMD_PAUSE then cmd_pause_handle s
      else if cmd m = CMD_RESUME then cmd_resume_handle s
      else s)"

definition convert_ms_to_us :: "cmd_msg \<Rightarrow> cmd_msg" where
  "convert_ms_to_us m =
     m\<lparr>t_start := t_start m * 1000, t_resume := t_resume m * 1000, t_beg_offset := t_beg_offset m * 1000,
       t_cur_offset := t_cur_offset m * 1000, t_end_offset := t_end_offset m * 1000\<rparr>"

text \<open>
  The body of the loop of \<^verbatim>\<open>main\<close> for a datagram received from a peer: \<open>m\<close> is what the receive buffer
  holds, read as a command. The terminator is written behind the received bytes, also when they fill
  the 1024 bytes of the buffer.
\<close>

definition main_receive :: "start_env \<Rightarrow> bool \<Rightarrow> int \<Rightarrow> cmd_msg \<Rightarrow> nat \<Rightarrow> replay \<Rightarrow> c_fault + replay" where
  "main_receive e rmid_ok read_size m peer s =
     (if read_size < 0 then Inr s
      else if read_size \<ge> 1024 then Inl OutOfBounds
      else (let m1 = convert_ms_to_us m
            in Inr (cmd_handle e rmid_ok m1 (s\<lparr>cmd_buf := m1, srv_cmd := m1, client_addr := peer\<rparr>))))"

section \<open>The parser thread\<close>

record replay_fs =
  fs_exists :: "string \<Rightarrow> bool"
  fs_lines :: "string \<Rightarrow> string list option"   \<comment> \<open>what \<^verbatim>\<open>fgets\<close> returns, if the file opens\<close>
  fs_malloc :: bool

definition set_parser :: "nat \<Rightarrow> parser \<Rightarrow> replay \<Rightarrow> replay" where
  "set_parser t p s = s\<lparr>parsers := (parsers s)(t \<mapsto> p)\<rparr>"

definition parse_entry :: "replay_fs \<Rightarrow> nat \<Rightarrow> replay \<Rightarrow> c_fault + replay" where
  "parse_entry fs t s =
     (let f = file_name (cmd_buf s) in
      if \<not> fs_exists fs f then Inr (set_parser t PDone s)
      else (let s1 = s\<lparr>server_state := STATE_START\<rparr> in
            case fs_lines fs f of
              None \<Rightarrow> Inl NullDeref
            | Some ls \<Rightarrow> if fs_malloc fs then Inr (set_parser t (PReading ls) s1) else Inl NullDeref))"

text \<open>
  The loop body up to the point where the thread may block: the offsets are read from the command
  buffer as it is now. A frame that is skipped ends the round. The length of the reply is computed
  from \<^verbatim>\<open>sizeof(cmd_msg)\<close>, the size of the pointer.
\<close>

definition SIZEOF_PTR :: nat where "SIZEOF_PTR = 8"

definition parse_line :: "(string \<Rightarrow> u64) \<Rightarrow> nat \<Rightarrow> string \<Rightarrow> string list \<Rightarrow> replay \<Rightarrow> c_fault + replay" where
  "parse_line time_of t l ls s =
     bind_fault (deal_can_frame time_of l (data_buf s)) (\<lambda>(ret, it).
     let s1 = s\<lparr>line_count := line_count s + 1, data_buf := it\<rparr> in
     if ret \<noteq> 0 then Inr (set_parser t (PReading ls) s1)
     else if timestamp it \<le> t_beg_offset (cmd_buf s1) then Inr (set_parser t (PReading ls) s1)
     else if timestamp it > t_end_offset (cmd_buf s1) then Inr (set_parser t PDone s1)
     else (let s2 = s1\<lparr>data_buf := it\<lparr>ci_type := channel it\<rparr>\<rparr> in
           if server_state s2 = STATE_PAUSE
           then (let m = (cmd_buf s2)\<lparr>t_cur_offset := timestamp it div 1000\<rparr>
                 in Inr (set_parser t (PPaused ls) (s2\<lparr>cmd_buf := m, 
                   replies := replies s2 @ [(client_addr s2, m, SIZEOF_PTR + length (file_name m))]\<rparr>)))
           else Inr (set_parser t (PSending ls) s2)))"

text \<open>
  One step of a parser; \<open>None\<close> means that the thread cannot move. The flag is the result of
  \<^verbatim>\<open>msgsnd\<close> when it returns.
\<close>

definition parse_step :: "replay_fs \<Rightarrow> (string \<Rightarrow> u64) \<Rightarrow> bool \<Rightarrow> nat \<Rightarrow> replay \<Rightarrow> (c_fault + replay) option" where
  "parse_step fs time_of snd_ok t s =
     (case parsers s t of
        None \<Rightarrow> None
      | Some PEntry \<Rightarrow> Some (parse_entry fs t s)
      | Some (PReading []) \<Rightarrow> Some (Inr (set_parser t PDone s))
      | Some (PReading (l # ls)) \<Rightarrow> Some (parse_line time_of t l ls s)
      | Some (PPaused ls) \<Rightarrow>
          if pause_sem s = 0 then None
          else Some (Inr (set_parser t (PSending ls) (s\<lparr>pause_sem := pause_sem s - 1\<rparr>)))
      | Some (PSending ls) \<Rightarrow>
          (let it = data_buf s in
           if channel it \<noteq> 1 then Some (Inr (set_parser t (PReading ls) s))
           else Some (Inr (set_parser t (PReading ls)
             (case queues s (g_msqid s) of
                Some q \<Rightarrow> if snd_ok then s\<lparr>queues := (queues s)(g_msqid s \<mapsto> q @ [it])\<rparr> else s
              | None \<Rightarrow> s))))
      | Some PDone \<Rightarrow> None)"

section \<open>The sender thread\<close>

text \<open>
  The body of the loop for a received frame, with the two clock readings it may take; the result
  includes the time it sleeps.
\<close>

definition send_frame :: "u64 \<Rightarrow> u64 \<Rightarrow> u64 \<Rightarrow> bool \<times> sender \<Rightarrow> u64 \<times> bool \<times> sender" where
  "send_frame now1 now2 ts st =
     (let (fresh, sd) = st;
          sd1 = (if \<not> fresh then sd\<lparr>last_frame_time := ts, base_time := now1 - ts\<rparr> else sd);
          speed_time = now2 - base_time sd1;
          sleep_time = (if speed_time \<ge> ts then 0 else ts - speed_time)
      in (sleep_time, True, sd1\<lparr>last_frame_time := ts\<rparr>))"

text \<open>\<^verbatim>\<open>msgrcv\<close> takes the first message whose type is the channel's, 1.\<close>

fun take_type :: "u64 \<Rightarrow> can_item list \<Rightarrow> (can_item \<times> can_item list) option" where
  "take_type ty [] = None"
| "take_type ty (m # ms) =
     (if ci_type m = ty then Some (m, ms)
      else (case take_type ty ms of None \<Rightarrow> None | Some (x, ms') \<Rightarrow> Some (x, m # ms')))"

definition send_step :: "u64 \<Rightarrow> u64 \<Rightarrow> nat \<Rightarrow> replay \<Rightarrow> replay option" where
  "send_step now1 now2 t s =
     (case senders s t of
        None \<Rightarrow> None
      | Some sd \<Rightarrow>
          (case queues s (g_msqid s) of
             None \<Rightarrow> Some s
           | Some q \<Rightarrow>
               (case take_type 1 q of
                  None \<Rightarrow> None
                | Some (m, q') \<Rightarrow>
                    (let (sl, fresh, sd') = send_frame now1 now2 (timestamp m) (refresh_base_time s, sd)
                     in Some (s\<lparr>queues := (queues s)(g_msqid s \<mapsto> q'), refresh_base_time := fresh,
                                senders := (senders s)(t \<mapsto> sd')\<rparr>)))))"

section \<open>The system\<close>

text \<open>The threads interleave in any order; a fault of a thread ends the program and is not a step.\<close>

inductive replay_step :: "replay_fs \<Rightarrow> (string \<Rightarrow> u64) \<Rightarrow> replay \<Rightarrow> replay \<Rightarrow> bool"
  for fs :: replay_fs and time_of :: "string \<Rightarrow> u64" where
  step_cmd: "main_receive e rmid_ok read_size m peer s = Inr s' \<Longrightarrow> replay_step fs time_of s s'"
| step_parse: "parse_step fs time_of snd_ok t s = Some (Inr s') \<Longrightarrow> replay_step fs time_of s s'"
| step_send: "send_step now1 now2 t s = Some s' \<Longrightarrow> replay_step fs time_of s s'"

inductive_cases replay_stepE: "replay_step fs time_of s s'"

inductive replay_reach :: "replay_fs \<Rightarrow> (string \<Rightarrow> u64) \<Rightarrow> replay \<Rightarrow> replay \<Rightarrow> bool"
  for fs :: replay_fs and time_of :: "string \<Rightarrow> u64" where
  reach_refl: "replay_reach fs time_of s s"
| reach_step: "replay_reach fs time_of s s' \<Longrightarrow> replay_step fs time_of s' s'' \<Longrightarrow> replay_reach fs time_of s s''"

section \<open>Frames\<close>

lemma deal_loop_data:
  assumes "6 \<le> index" "index + length bs \<le> 6 + DATA_ROOM" "index + length bs \<le> unat (dlc it) + 7"
    "unat (dlc it) + 6 < 2 ^ 64"
  shows "deal_loop index True bs it =
    Inr (0, it\<lparr>ci_data := (\<lambda>j. if index \<le> j + 6 \<and> j + 6 < index + length bs
      then word_of_int (strtol 16 (bs ! (j + 6 - index))) else ci_data it j)\<rparr>)"
  using assms
proof (induction bs arbitrary: index it)
  case (Cons b bs)
  let ?it = "it\<lparr>ci_data := (ci_data it)(index - 6 := word_of_int (strtol 16 b))\<rparr>"
  have six: "unat (dlc it + 6) = unat (dlc it) + 6"
    using Cons.prems(4) by (subst unat_add_le) simp_all
  have "unat (of_nat index :: u64) = index"
    using Cons.prems by (simp add: unsigned_of_nat take_bit_nat_eq_self DATA_ROOM_def)
  then have le: "(of_nat index :: u64) \<le> dlc it + 6"
    using Cons.prems by (simp add: word_le_nat_alt six)
  have "deal_loop index True (b # bs) it = deal_loop (index + 1) True bs ?it"
    using Cons.prems le by (subst deal_loop.simps) (simp, linarith)
  also have "\<dots> = Inr (0, it\<lparr>ci_data := (\<lambda>j. if index \<le> j + 6 \<and> j + 6 < index + length (b # bs)
      then word_of_int (strtol 16 ((b # bs) ! (j + 6 - index))) else ci_data it j)\<rparr>)"
  proof -
    have "(\<lambda>j. if index + 1 \<le> j + 6 \<and> j + 6 < index + 1 + length bs
        then word_of_int (strtol 16 (bs ! (j + 6 - (index + 1)))) else ci_data ?it j) =
      (\<lambda>j. if index \<le> j + 6 \<and> j + 6 < index + length (b # bs)
        then word_of_int (strtol 16 ((b # bs) ! (j + 6 - index))) else ci_data it j)"
    proof (rule ext)
      fix j
      consider "j + 6 < index" | "j + 6 = index" | "index + 1 \<le> j + 6" by linarith
      then show "(if index + 1 \<le> j + 6 \<and> j + 6 < index + 1 + length bs
          then word_of_int (strtol 16 (bs ! (j + 6 - (index + 1)))) else ci_data ?it j) =
        (if index \<le> j + 6 \<and> j + 6 < index + length (b # bs)
          then word_of_int (strtol 16 ((b # bs) ! (j + 6 - index))) else ci_data it j)"
      proof cases
        case 3
        then have "j + 6 - index = Suc (j + 6 - (index + 1))" by simp
        with 3 Cons.prems(1) show ?thesis by auto
      qed (use Cons.prems(1) in auto)
    qed
    with Cons.IH [of "index + 1" ?it] Cons.prems show ?thesis by simp
  qed
  finally show ?case .
next
  case Nil
  have "(\<lambda>j. if index \<le> j + 6 \<and> j + 6 < index + length []
      then word_of_int (strtol 16 ([] ! (j + 6 - index))) else ci_data it j) = ci_data it"
    by (auto simp: fun_eq_iff)
  then show ?case by simp
qed

lemma unat_atoi: "0 \<le> atoi n \<Longrightarrow> unat (word_of_int (atoi n) :: u64) = nat (atoi n) \<and> nat (atoi n) < 2 ^ 31"
proof -
  assume nn: "0 \<le> atoi n"
  have lt: "atoi n < 2 ^ 31"
    using sint_less [of "word_of_int (strtol 10 n) :: 32 word"] unfolding atoi_def by simp
  have "uint (word_of_int (atoi n) :: u64) = atoi n"
    using nn lt by (subst uint_word_of_int_eq, intro take_bit_int_eq_self) simp_all
  then have "unat (word_of_int (atoi n) :: u64) = nat (atoi n)" by (simp only: unat_eq_nat_uint)
  moreover have "nat (atoi n) < 2 ^ 31" using nn lt by simp
  ultimately show ?thesis by blast
qed

text \<open>
  Parsing a line of the trace. A data frame (fifth word \<^verbatim>\<open>d\<close>, no \<^verbatim>\<open>Error\<close> in the third) with at
  most as many data words as its length field says, and within the buffer, is accepted: time, channel,
  identifier, length and every data byte are those of the words, and no other byte is touched. An error
  frame is accepted with the identifier \<open>2\<^sup>64 - 1\<close> and length 0. A line with another fifth word, or with
  fewer than five words and no \<^verbatim>\<open>Error\<close>, is rejected; a line without any word dereferences null.
\<close>

theorem deal_can_frame_spec:
  "(\<forall>t c i x n bs. strtok_words l = t # c # i # x # ''d'' # n # bs \<and> \<not> strstr ''Error'' i \<and> 0 \<le> atoi n \<and>
      length bs \<le> nat (atoi n) \<and> length bs \<le> DATA_ROOM \<longrightarrow>
      (\<exists>it'. deal_can_frame time_of l it = Inr (0, it') \<and> timestamp it' = time_of t \<and>
         channel it' = word_of_int (atoi c) \<and> id_field it' = word_of_int (strtol 16 i) \<and>
         dlc it' = word_of_int (atoi n) \<and> ci_type it' = ci_type it \<and>
         mem_get (ci_data it') 0 (length bs) = map (\<lambda>b. word_of_int (strtol 16 b)) bs \<and>
         (\<forall>j \<ge> length bs. ci_data it' j = ci_data it j))) \<and>
   (\<forall>t c i xs. strtok_words l = t # c # i # xs \<and> strstr ''Error'' i \<longrightarrow>
      (\<exists>it'. deal_can_frame time_of l it = Inr (0, it') \<and> id_field it' = -1 \<and> dlc it' = 0 \<and>
         channel it' = word_of_int (atoi c) \<and> timestamp it' = time_of t \<and> ci_data it' = ci_data it)) \<and>
   (\<forall>t c i x d xs. strtok_words l = t # c # i # x # d # xs \<and> \<not> strstr ''Error'' i \<and> d \<noteq> ''d'' \<longrightarrow>
      (\<exists>it'. deal_can_frame time_of l it = Inr (-1, it'))) \<and>
   (strtok_words l \<noteq> [] \<and> length (strtok_words l) < 5 \<and>
      (2 < length (strtok_words l) \<longrightarrow> \<not> strstr ''Error'' (strtok_words l ! 2)) \<longrightarrow>
      (\<exists>it'. deal_can_frame time_of l it = Inr (-1, it'))) \<and>
   (strtok_words l = [] \<longrightarrow> deal_can_frame time_of l it = Inl NullDeref)"
proof (intro conjI allI impI, goal_cases)
  case (1 t c i x n bs)
  define it0 where "it0 = it\<lparr>timestamp := time_of t, channel := word_of_int (atoi c),
    id_field := word_of_int (strtol 16 i), dlc := word_of_int (atoi n)\<rparr>"
  have n: "unat (dlc it0) = nat (atoi n)" "nat (atoi n) < 2 ^ 31"
    using unat_atoi [of n] 1 by (auto simp: it0_def)
  have "deal_can_frame time_of l it = deal_loop 6 True bs it0"
    using 1 by (simp add: deal_can_frame_def it0_def eval_nat_numeral)
  also have "\<dots> = Inr (0, it0\<lparr>ci_data := (\<lambda>j. if 6 \<le> j + 6 \<and> j + 6 < 6 + length bs
      then word_of_int (strtol 16 (bs ! (j + 6 - 6))) else ci_data it0 j)\<rparr>)"
    using 1 n by (intro deal_loop_data) auto
  finally show ?case
    by (auto simp: it0_def intro!: nth_equalityI)
next
  case (4)
  then consider a where "strtok_words l = [a]" | a b where "strtok_words l = [a, b]"
    | a b c where "strtok_words l = [a, b, c]" | a b c d where "strtok_words l = [a, b, c, d]"
    by (cases "strtok_words l" rule: remdups_adj.cases) (auto simp: length_Suc_conv less_Suc_eq numeral_eq_Suc)
  then show ?case using 4 by cases (simp_all add: deal_can_frame_def eval_nat_numeral)
qed (simp_all add: deal_can_frame_def eval_nat_numeral)

section \<open>Which frames are replayed\<close>

text \<open>The results of parsing the lines one after the other, each starting from the item the one before left.\<close>

fun frames_of :: "(string \<Rightarrow> u64) \<Rightarrow> can_item \<Rightarrow> string list \<Rightarrow> c_fault + can_item list" where
  "frames_of time_of it [] = Inr []"
| "frames_of time_of it (l # ls) =
     bind_fault (deal_can_frame time_of l it) (\<lambda>(ret, it').
     bind_fault (frames_of time_of it' ls) (\<lambda>fs. Inr (if ret = 0 then it' # fs else fs)))"

text \<open>The frames inside the window of the command, up to the first one past its end, on channel 1.\<close>

definition selected :: "cmd_msg \<Rightarrow> can_item list \<Rightarrow> can_item list" where
  "selected m fs =
     map (\<lambda>it. it\<lparr>ci_type := channel it\<rparr>)
       (filter (\<lambda>it. channel it = 1)
         (filter (\<lambda>it. t_beg_offset m < timestamp it)
           (takeWhile (\<lambda>it. timestamp it \<le> t_beg_offset m \<or> timestamp it \<le> t_end_offset m) fs)))"

text \<open>A parser running by itself for at most a number of steps.\<close>

fun parse_run :: "replay_fs \<Rightarrow> (string \<Rightarrow> u64) \<Rightarrow> nat \<Rightarrow> nat \<Rightarrow> replay \<Rightarrow> c_fault + replay" where
  "parse_run fs time_of t 0 s = Inr s"
| "parse_run fs time_of t (Suc n) s =
     (case parse_step fs time_of True t s of
        None \<Rightarrow> Inr s
      | Some r \<Rightarrow> bind_fault r (parse_run fs time_of t n))"

text \<open>The message type is not part of what a line determines.\<close>

definition with_type :: "u64 \<Rightarrow> can_item \<Rightarrow> can_item" where
  "with_type x it = it\<lparr>ci_type := x\<rparr>"

lemma with_type_simps [simp]:
  "(with_type x it)\<lparr>timestamp := a\<rparr> = with_type x (it\<lparr>timestamp := a\<rparr>)"
  "(with_type x it)\<lparr>channel := a\<rparr> = with_type x (it\<lparr>channel := a\<rparr>)"
  "(with_type x it)\<lparr>id_field := a\<rparr> = with_type x (it\<lparr>id_field := a\<rparr>)"
  "(with_type x it)\<lparr>id_field := a, dlc := b\<rparr> = with_type x (it\<lparr>id_field := a, dlc := b\<rparr>)"
  "(with_type x it)\<lparr>dlc := a\<rparr> = with_type x (it\<lparr>dlc := a\<rparr>)"
  "(with_type x it)\<lparr>ci_data := d\<rparr> = with_type x (it\<lparr>ci_data := d\<rparr>)"
  "dlc (with_type x it) = dlc it" "ci_data (with_type x it) = ci_data it"
  "timestamp (with_type x it) = timestamp it" "channel (with_type x it) = channel it"
  "(with_type x it)\<lparr>ci_type := y\<rparr> = it\<lparr>ci_type := y\<rparr>"
  by (simp_all add: with_type_def)

lemma deal_loop_type:
  "deal_loop index flag ws (with_type x it) =
     map_sum id (map_prod id (with_type x)) (deal_loop index flag ws it)"
  by (induction index flag ws it rule: deal_loop.induct) simp_all

lemma deal_can_frame_type:
  "deal_can_frame time_of l (with_type x it) =
     map_sum id (map_prod id (with_type x)) (deal_can_frame time_of l it)"
  by (simp add: deal_can_frame_def deal_loop_type split: list.split)

lemma frames_of_type:
  assumes "frames_of time_of it ls = Inr fs"
  shows "\<exists>fs'. frames_of time_of (with_type x it) ls = Inr fs' \<and> selected m fs' = selected m fs"
  using assms
proof (induction ls arbitrary: it fs)
  case Nil
  then show ?case by (simp add: selected_def)
next
  case (Cons l ls)
  from Cons.prems obtain ret it' fs1 where d: "deal_can_frame time_of l it = Inr (ret, it')"
    and f: "frames_of time_of it' ls = Inr fs1" and fs: "fs = (if ret = 0 then it' # fs1 else fs1)"
    by (auto simp: bind_fault_Inr_iff)
  from Cons.IH [OF f] obtain fs2 where "frames_of time_of (with_type x it') ls = Inr fs2"
    "selected m fs2 = selected m fs1" by blast
  with d fs show ?case by (auto simp: deal_can_frame_type selected_def)
qed

lemma parse_run_more:
  assumes "parse_run fs time_of t n s = Inr s'" "parsers s' t = Some PDone"
  shows "parse_run fs time_of t (n + k) s = Inr s'"
  using assms
proof (induction n arbitrary: s)
  case 0
  then show ?case by (cases k) (simp_all add: parse_step_def)
next
  case (Suc n)
  then show ?case by (auto simp: bind_fault_Inr_iff split: option.splits)
qed

lemma parse_run_step:
  "parse_step fs time_of True t s = Some (Inr s1) \<Longrightarrow> parse_run fs time_of t (Suc n) s = parse_run fs time_of t n s1"
  by simp

lemma set_parser_simps [simp]:
  "parsers (set_parser t p s) = (parsers s)(t \<mapsto> p)" "server_state (set_parser t p s) = server_state s"
  "queues (set_parser t p s) = queues s" "g_msqid (set_parser t p s) = g_msqid s"
  "cmd_buf (set_parser t p s) = cmd_buf s" "data_buf (set_parser t p s) = data_buf s"
  "senders (set_parser t p s) = senders s" "g_replay_can_thread (set_parser t p s) = g_replay_can_thread s"
  "vci_thread (set_parser t p s) = vci_thread s" "pause_sem (set_parser t p s) = pause_sem s"
  by (simp_all add: set_parser_def)

text \<open>What a run that is not paused leaves behind.\<close>

definition parse_finishes :: "replay_fs \<Rightarrow> (string \<Rightarrow> u64) \<Rightarrow> nat \<Rightarrow> nat \<Rightarrow> replay \<Rightarrow> can_item list \<Rightarrow> bool" where
  "parse_finishes fs time_of t n s out \<longleftrightarrow>
     (\<exists>s'. parse_run fs time_of t n s = Inr s' \<and> parsers s' t = Some PDone \<and>
        queues s' = (queues s)(g_msqid s := map_option (\<lambda>q. q @ out) (queues s (g_msqid s))) \<and>
        server_state s' = server_state s \<and> g_msqid s' = g_msqid s \<and> pause_sem s' = pause_sem s)"

lemma parse_run_selects:
  assumes "parsers s t = Some (PReading ls)" "server_state s \<noteq> STATE_PAUSE" "queues s (g_msqid s) \<noteq> None"
    "frames_of time_of (data_buf s) ls = Inr fr"
  shows "parse_finishes fs time_of t (2 * length ls + 1) s (selected (cmd_buf s) fr)"
  using assms
proof (induction ls arbitrary: s fr)
  case Nil
  then show ?case
    by (auto simp: parse_finishes_def parse_step_def selected_def fun_eq_iff)
next
  case (Cons l ls)
  let ?m = "cmd_buf s"
  from Cons.prems(4) obtain ret it fr1 where d: "deal_can_frame time_of l (data_buf s) = Inr (ret, it)"
    and f: "frames_of time_of it ls = Inr fr1" and fr: "fr = (if ret = 0 then it # fr1 else fr1)"
    by (auto simp: bind_fault_Inr_iff)
  define s1 where "s1 = s\<lparr>line_count := line_count s + 1, data_buf := it\<rparr>"
  have ps: "parse_step fs time_of True t s = Some (parse_line time_of t l ls s)"
    using Cons.prems(1) by (simp add: parse_step_def)
  have skip: ?case if "parse_line time_of t l ls s = Inr (set_parser t (PReading ls) s1)"
    "selected ?m fr = selected ?m fr1"
  proof -
    have "parse_finishes fs time_of t (2 * length ls + 1) (set_parser t (PReading ls) s1) (selected ?m fr1)"
      using Cons.IH [of "set_parser t (PReading ls) s1" fr1] Cons.prems f by (simp add: s1_def)
    then show ?thesis using that ps parse_run_more [of fs time_of t "2 * length ls + 1" _ _ 1]
      by (auto simp: parse_finishes_def s1_def)
  qed
  show ?case
  proof (cases "ret \<noteq> 0 \<or> timestamp it \<le> t_beg_offset ?m")
    case True
    with d fr show ?thesis
      by (intro skip) (auto simp: parse_line_def s1_def selected_def Let_def)
  next
    case False
    then have ok: "ret = 0" "t_beg_offset ?m < timestamp it" by auto
    show ?thesis
    proof (cases "timestamp it > t_end_offset ?m")
      case True
      then have "parse_line time_of t l ls s = Inr (set_parser t PDone s1)" "selected ?m fr = []"
        using d ok fr by (auto simp: parse_line_def s1_def selected_def Let_def)
      with ps parse_run_more [of fs time_of t 1 s "set_parser t PDone s1" "2 * length ls + 2"] show ?thesis
        by (auto simp: parse_finishes_def s1_def fun_eq_iff option.map_ident)
    next
      case inside: False
      define it2 where "it2 = it\<lparr>ci_type := channel it\<rparr>"
      let ?s2 = "set_parser t (PSending ls) (s1\<lparr>data_buf := it2\<rparr>)"
      have line: "parse_line time_of t l ls s = Inr ?s2"
        using d ok inside Cons.prems(2) by (auto simp: parse_line_def s1_def it2_def Let_def)
      from frames_of_type [OF f, of "channel it" ?m] obtain fr2 where
        f2: "frames_of time_of it2 ls = Inr fr2" "selected ?m fr2 = selected ?m fr1" by (auto simp: it2_def with_type_def)
      define q where "q = (if channel it = 1 then [it2] else [])"
      define s3 where "s3 = set_parser t (PReading ls)
        (s1\<lparr>data_buf := it2, queues := (queues s)(g_msqid s := map_option (\<lambda>x. x @ q) (queues s (g_msqid s)))\<rparr>)"
      have "\<exists>s'. parse_step fs time_of True t ?s2 = Some (Inr s') \<and> s' = s3"
        using Cons.prems(3) by (auto simp: parse_step_def s3_def q_def it2_def s1_def set_parser_def Let_def
            fun_eq_iff option.map_ident intro!: replay.equality)
      then have step: "parse_step fs time_of True t ?s2 = Some (Inr s3)" by blast
      have "parse_finishes fs time_of t (2 * length ls + 1) s3 (selected ?m fr2)"
        using Cons.IH [of s3 fr2] Cons.prems f2(1) by (auto simp: s3_def s1_def)
      moreover have "selected ?m fr = q @ selected ?m fr2"
        using ok inside fr f2(2) by (auto simp: selected_def q_def it2_def)
      ultimately show ?thesis
        using ps line step
        by (auto simp: parse_finishes_def s3_def s1_def option.map_comp comp_def cong: option.map_cong)
    qed
  qed
qed


section \<open>Pacing\<close>

text \<open>The sender's loop over a list of frames, each with its two clock readings; the sleeping times.\<close>

fun send_frames :: "(u64 \<times> u64 \<times> u64) list \<Rightarrow> bool \<times> sender \<Rightarrow> u64 list" where
  "send_frames [] st = []"
| "send_frames ((now1, now2, ts) # fs) st =
     (let (sl, st') = send_frame now1 now2 ts st in sl # send_frames fs st')"

text \<open>A frame is due as long after the first one as its timestamp says.\<close>

definition due :: "u64 \<Rightarrow> u64 \<Rightarrow> u64 \<Rightarrow> nat" where
  "due now0 ts0 ts = unat now0 + (unat ts - unat ts0)"

definition on_schedule :: "u64 \<Rightarrow> u64 \<Rightarrow> (u64 \<times> u64 \<times> u64) \<Rightarrow> bool" where
  "on_schedule now0 ts0 f \<longleftrightarrow>
     (case f of (now1, now2, ts) \<Rightarrow>
        unat now0 \<le> unat now2 \<and> unat ts0 \<le> unat ts \<and> unat now2 - unat now0 + unat ts0 < 2 ^ 64)"

lemma send_frame_sleep:
  assumes "on_schedule now0 ts0 (now1, now2, ts)" "base_time sd = now0 - ts0"
  shows "\<exists>sl sd'. send_frame now1 now2 ts (True, sd) = (sl, True, sd') \<and> base_time sd' = now0 - ts0 \<and>
    unat now2 + unat sl = max (unat now2) (due now0 ts0 ts)"
proof -
  let ?sp = "now2 - (now0 - ts0)"
  have b: "unat now0 \<le> unat now2" "unat ts0 \<le> unat ts" "unat now2 - unat now0 + unat ts0 < 2 ^ 64"
    using assms(1) by (auto simp: on_schedule_def)
  have sum: "?sp = (now2 - now0) + ts0" by simp
  have diff: "unat (now2 - now0) = unat now2 - unat now0" using b(1) by (rule unat_sub_le)
  have sp: "unat ?sp = unat now2 - unat now0 + unat ts0"
    unfolding sum diff [symmetric] using b(3) diff by (intro unat_add_le) simp
  show ?thesis
  proof (cases "?sp \<ge> ts")
    case True
    then have "due now0 ts0 ts \<le> unat now2" using b sp by (simp add: word_le_nat_alt due_def)
    with True assms(2) show ?thesis by (simp add: send_frame_def Let_def)
  next
    case False
    then have "unat ?sp < unat ts" by (simp add: word_le_nat_alt)
    then have "unat (ts - ?sp) = unat ts - unat ?sp" by (intro unat_sub_le) simp
    then have "unat now2 + unat (ts - ?sp) = due now0 ts0 ts"
      using b \<open>unat ?sp < unat ts\<close> unfolding sp due_def by simp
    moreover have "max (unat now2) (due now0 ts0 ts) = due now0 ts0 ts"
      using b \<open>unat ?sp < unat ts\<close> unfolding sp due_def by simp
    ultimately show ?thesis using False assms(2) by (simp add: send_frame_def Let_def)
  qed
qed

lemma send_frames_paced:
  assumes "\<forall>f \<in> set fs. on_schedule now0 ts0 f" "base_time sd = now0 - ts0"
  shows "length (send_frames fs (True, sd)) = length fs \<and>
    (\<forall>j < length fs. unat (fst (snd (fs ! j))) + unat (send_frames fs (True, sd) ! j) =
       max (unat (fst (snd (fs ! j)))) (due now0 ts0 (snd (snd (fs ! j)))))"
  using assms
proof (induction fs arbitrary: sd)
  case (Cons f fs)
  obtain now1 now2 ts where f: "f = (now1, now2, ts)" by (cases f)
  with Cons.prems have "on_schedule now0 ts0 (now1, now2, ts)" by simp
  from send_frame_sleep [OF this Cons.prems(2)] obtain sl sd' where
    1: "send_frame now1 now2 ts (True, sd) = (sl, True, sd')" "base_time sd' = now0 - ts0"
    "unat now2 + unat sl = max (unat now2) (due now0 ts0 ts)" by blast
  from Cons.IH [OF _ 1(2)] Cons.prems 1 f show ?case by (auto simp: less_Suc_eq_0_disj)
qed simp

text \<open>
  Pacing. After a start or a resume, let the first frame be taken off the queue at clock value
  \<open>now0\<close>. However the 64-bit subtractions of the sender wrap, every later frame (whose timestamp is not
  before the first one's) is then held back until exactly the time it is due, that long after \<open>now0\<close>
  as its timestamp is after the first one's, or is passed on at once when it is already late.
\<close>

theorem replay_pacing:
  assumes "\<forall>f \<in> set ((now0, now, ts0) # fs). on_schedule now0 ts0 f"
  shows "\<forall>j < length ((now0, now, ts0) # fs).
    unat (fst (snd (((now0, now, ts0) # fs) ! j))) + unat (send_frames ((now0, now, ts0) # fs) (False, sd) ! j) =
    max (unat (fst (snd (((now0, now, ts0) # fs) ! j)))) (due now0 ts0 (snd (snd (((now0, now, ts0) # fs) ! j))))"
proof -
  have eq: "send_frame now0 now ts0 (False, sd) = send_frame now0 now ts0 (True, sd\<lparr>base_time := now0 - ts0\<rparr>)"
    by (simp add: send_frame_def Let_def)
  have "send_frames ((now0, now, ts0) # fs) (False, sd) =
      send_frames ((now0, now, ts0) # fs) (True, sd\<lparr>base_time := now0 - ts0\<rparr>)"
    by (simp only: send_frames.simps eq)
  with send_frames_paced [OF assms, of "sd\<lparr>base_time := now0 - ts0\<rparr>"] show ?thesis by simp
qed

theorem replay_pacing_witness:
  "unat (5000 :: u64) + unat (send_frames [(1000, 1000, 900000), (0, 5000, 910000)]
      (False, \<lparr>base_time = 7, last_frame_time = 0\<rparr>) ! 1) = max 5000 (due 1000 900000 910000)"
  using replay_pacing [of 1000 1000 900000 "[(0, 5000, 910000)]" "\<lparr>base_time = 7, last_frame_time = 0\<rparr>",
      THEN spec, of 1]
  by (simp add: on_schedule_def)

section \<open>Sessions\<close>

text \<open>
  A client that starts a replay only when no thread of an earlier one is left. Its runs are the
  steps of the system with that guard on the start command.
\<close>

inductive session :: "replay_fs \<Rightarrow> (string \<Rightarrow> u64) \<Rightarrow> replay \<Rightarrow> replay \<Rightarrow> bool"
  for fs :: replay_fs and time_of :: "string \<Rightarrow> u64" where
  session_init: "session fs time_of s s"
| session_cmd: "session fs time_of s0 s \<Longrightarrow> main_receive e rmid_ok read_size m peer s = Inr s' \<Longrightarrow>
    cmd m \<noteq> CMD_START \<or> (\<forall>t. parsers s t = None \<and> senders s t = None) \<Longrightarrow> session fs time_of s0 s'"
| session_parse: "session fs time_of s0 s \<Longrightarrow> parse_step fs time_of snd_ok t s = Some (Inr s') \<Longrightarrow>
    session fs time_of s0 s'"
| session_send: "session fs time_of s0 s \<Longrightarrow> send_step now1 now2 t s = Some s' \<Longrightarrow> session fs time_of s0 s'"

definition parser_ok :: "replay \<Rightarrow> parser \<Rightarrow> bool" where
  "parser_ok s p \<longleftrightarrow>
     (case p of
        PEntry \<Rightarrow> True
      | PDone \<Rightarrow> True
      | PReading _ \<Rightarrow> server_state s \<noteq> STATE_IDEL
      | _ \<Rightarrow> server_state s \<noteq> STATE_IDEL \<and> ci_type (data_buf s) = channel (data_buf s))"

definition queues_ok :: "(int \<Rightarrow> can_item list option) \<Rightarrow> bool" where
  "queues_ok qs \<longleftrightarrow> (\<forall>i ms. qs i = Some ms \<longrightarrow> (\<forall>m \<in> set ms. ci_type m = 1 \<and> channel m = 1))"

definition session_inv :: "replay \<Rightarrow> bool" where
  "session_inv s \<longleftrightarrow>
     (\<forall>t p. parsers s t = Some p \<longrightarrow> t = g_replay_can_thread s \<and> parser_ok s p) \<and>
     (\<forall>t. senders s t \<noteq> None \<longrightarrow> t = vci_thread s) \<and> queues_ok (queues s)"

lemma queues_ok_upd [intro]:
  "queues_ok qs \<Longrightarrow> (\<And>m. m \<in> set ms \<Longrightarrow> ci_type m = 1 \<and> channel m = 1) \<Longrightarrow> queues_ok (qs(i \<mapsto> ms))"
  "queues_ok qs \<Longrightarrow> queues_ok (qs(i := None))"
  by (auto simp: queues_ok_def)

lemma queues_okD: "queues_ok qs \<Longrightarrow> qs i = Some ms \<Longrightarrow> m \<in> set ms \<Longrightarrow> ci_type m = 1 \<and> channel m = 1"
  by (simp add: queues_ok_def)

lemma session_inv_start:
  assumes "session_inv s" "\<forall>t. parsers s t = None \<and> senders s t = None"
  shows "session_inv (cmd_start_handle e s)"
proof -
  have q: "queues_ok (queues s)" using assms by (simp add: session_inv_def)
  then have "queues_ok ((queues s)(i \<mapsto> []))" for i by auto
  with q assms show ?thesis
    by (cases "se_msgget e"; cases "se_vci e"; cases "se_parse e")
      (simp_all add: cmd_start_handle_def session_inv_def Let_def parser_ok_def)
qed

text \<open>A stop command that is accepted leaves no thread.\<close>

lemma session_stop_threads:
  assumes "session_inv s" "server_state s \<noteq> STATE_IDEL"
  shows "parsers (cmd_stop_handle rmid_ok s) = (\<lambda>_. None) \<and> senders (cmd_stop_handle rmid_ok s) = (\<lambda>_. None) \<and>
    queues (cmd_stop_handle rmid_ok s) = (if rmid_ok then (queues s)(g_msqid s := None) else queues s) \<and>
    server_state (cmd_stop_handle rmid_ok s) = (if rmid_ok then STATE_IDEL else server_state s)"
proof -
  have "\<forall>t p. parsers s t = Some p \<longrightarrow> t = g_replay_can_thread s" using assms(1) by (simp add: session_inv_def)
  then have p: "(parsers s)(g_replay_can_thread s := None) = (\<lambda>_. None)"
    unfolding fun_eq_iff by (metis fun_upd_apply not_None_eq)
  have "\<forall>t. senders s t \<noteq> None \<longrightarrow> t = vci_thread s" using assms(1) by (simp add: session_inv_def)
  then have v: "(senders s)(vci_thread s := None) = (\<lambda>_. None)"
    unfolding fun_eq_iff by (metis fun_upd_apply not_None_eq)
  have "server_state s = STATE_START \<or> server_state s = STATE_PAUSE" using assms(2) by (cases "server_state s") auto
  then show ?thesis using p v by (auto simp: cmd_stop_handle_def Let_def)
qed

lemma session_inv_stop:
  assumes "session_inv s"
  shows "session_inv (cmd_stop_handle rmid_ok s)"
proof (cases "server_state s = STATE_IDEL")
  case True
  with assms show ?thesis by (simp add: cmd_stop_handle_def)
next
  case False
  have q: "queues_ok (queues s)" using assms by (simp add: session_inv_def)
  then have "queues_ok ((queues s)(g_msqid s := None))" by auto
  with q session_stop_threads [OF assms False, of rmid_ok] show ?thesis by (simp add: session_inv_def)
qed

lemma session_inv_pause:
  "session_inv s \<Longrightarrow> session_inv (cmd_pause_handle s)" "session_inv s \<Longrightarrow> session_inv (cmd_resume_handle s)"
proof -
  have ok: "parser_ok s p \<Longrightarrow> server_state s' \<noteq> STATE_IDEL \<Longrightarrow> data_buf s' = data_buf s \<Longrightarrow> parser_ok s' p" for s s' p
    by (cases p) (simp_all add: parser_ok_def)
  show "session_inv s \<Longrightarrow> session_inv (cmd_pause_handle s)"
    using ok [where s = s and s' = "s\<lparr>server_state := STATE_PAUSE\<rparr>"]
    by (simp add: cmd_pause_handle_def session_inv_def)
  show "session_inv s \<Longrightarrow> session_inv (cmd_resume_handle s)"
    using ok [where s = s and s' = "s\<lparr>server_state := STATE_START, refresh_base_time := False,
        pause_sem := pause_sem s + 1\<rparr>"]
    by (simp add: cmd_resume_handle_def session_inv_def)
qed

lemma session_inv_cmd:
  assumes inv: "session_inv s" and r: "main_receive e rmid_ok read_size m peer s = Inr s'"
    and guard: "cmd m \<noteq> CMD_START \<or> (\<forall>t. parsers s t = None \<and> senders s t = None)"
  shows "session_inv s'"
proof (cases "read_size < 0")
  case True
  with inv r show ?thesis by (simp add: main_receive_def)
next
  case False
  define s0 where "s0 = s\<lparr>cmd_buf := convert_ms_to_us m, srv_cmd := convert_ms_to_us m, client_addr := peer\<rparr>"
  have s': "s' = cmd_handle e rmid_ok (convert_ms_to_us m) s0"
    using r False by (auto simp: main_receive_def Let_def s0_def split: if_splits)
  have inv0: "session_inv s0"
    using inv by (simp add: session_inv_def s0_def parser_ok_def cong: parser.case_cong)
  have "session_inv (cmd_start_handle e s0)" if "\<forall>t. parsers s t = None \<and> senders s t = None"
    using that by (intro session_inv_start [OF inv0]) (simp add: s0_def)
  moreover have "cmd (convert_ms_to_us m) = cmd m" by (simp add: convert_ms_to_us_def)
  ultimately show ?thesis
    using guard inv0 session_inv_stop [OF inv0, of rmid_ok] session_inv_pause [OF inv0]
    by (auto simp: s' cmd_handle_def)
qed

text \<open>The only parser moves on.\<close>

lemma session_inv_move:
  assumes inv: "session_inv s" and pc: "parsers s t = Some pc"
    and s': "parsers s' = (parsers s)(t \<mapsto> pc')" "g_replay_can_thread s' = g_replay_can_thread s"
      "senders s' = senders s" "vci_thread s' = vci_thread s"
    and ok: "parser_ok s' pc'" "queues_ok (queues s')"
  shows "session_inv s'"
proof -
  have one: "\<forall>t p. parsers s t = Some p \<longrightarrow> t = g_replay_can_thread s"
    and snd: "\<forall>t. senders s t \<noteq> None \<longrightarrow> t = vci_thread s" using inv by (auto simp: session_inv_def)
  have t: "t = g_replay_can_thread s" using one pc by blast
  have "x = g_replay_can_thread s \<and> parser_ok s' p" if "parsers s' x = Some p" for x p
  proof (cases "x = t")
    case False
    then have "parsers s x = Some p" using that s'(1) by simp
    then show ?thesis using one t False by blast
  qed (use that s'(1) t ok(1) in simp)
  with snd s' ok(2) show ?thesis unfolding session_inv_def by simp
qed

lemma session_inv_parse:
  assumes inv: "session_inv s" and p: "parse_step fs time_of snd_ok t s = Some (Inr s')"
  shows "session_inv s'"
proof -
  obtain pc where pc: "parsers s t = Some pc" using p by (auto simp: parse_step_def split: option.splits)
  have ok: "parser_ok s pc" and q: "queues_ok (queues s)" using inv pc by (auto simp: session_inv_def)
  show ?thesis
  proof (cases pc)
    case PEntry
    have "\<exists>pc'. parsers s' = (parsers s)(t \<mapsto> pc') \<and> parser_ok s' pc' \<and> queues s' = queues s \<and>
        g_replay_can_thread s' = g_replay_can_thread s \<and> senders s' = senders s \<and> vci_thread s' = vci_thread s"
      using p pc PEntry
      by (auto simp: parse_step_def parse_entry_def parser_ok_def Let_def split: if_splits option.splits)
    with session_inv_move [OF inv pc] q show ?thesis by metis
  next
    case (PReading ls)
    have "\<exists>pc'. parsers s' = (parsers s)(t \<mapsto> pc') \<and> parser_ok s' pc' \<and> queues s' = queues s \<and>
        g_replay_can_thread s' = g_replay_can_thread s \<and> senders s' = senders s \<and> vci_thread s' = vci_thread s"
      using p pc PReading ok
      by (cases ls) (auto simp: parse_step_def parse_line_def parser_ok_def Let_def bind_fault_Inr_iff
          split: if_splits)
    with session_inv_move [OF inv pc] q show ?thesis by metis
  next
    case (PPaused ls)
    with p pc ok q show ?thesis
      by (intro session_inv_move [OF inv pc, of _ "PSending ls"])
        (auto simp: parse_step_def parser_ok_def split: if_splits)
  next
    case (PSending ls)
    have ch: "ci_type (data_buf s) = channel (data_buf s)" using ok PSending by (simp add: parser_ok_def)
    have "queues_ok (queues s')"
    proof (cases "channel (data_buf s) = 1 \<and> queues s (g_msqid s) \<noteq> None \<and> snd_ok")
      case True
      then obtain ms where ms: "queues s (g_msqid s) = Some ms" by blast
      with True p pc PSending have "queues s' = (queues s)(g_msqid s \<mapsto> ms @ [data_buf s])"
        by (auto simp: parse_step_def Let_def)
      with q True ch ms queues_okD [OF q ms] show ?thesis by (auto intro!: queues_ok_upd)
    next
      case False
      with p pc PSending q show ?thesis by (auto simp: parse_step_def Let_def split: if_splits option.splits)
    qed
    with p pc ok show ?thesis unfolding PSending
      by (intro session_inv_move [OF inv pc, of _ "PReading ls"])
        (auto simp: parse_step_def parser_ok_def PSending Let_def split: if_splits option.splits)
  next
    case PDone
    with p pc show ?thesis by (simp add: parse_step_def)
  qed
qed

lemma take_type_mem: "take_type ty ms = Some (m, ms') \<Longrightarrow> m \<in> set ms \<and> set ms' \<subseteq> set ms"
  by (induction ms arbitrary: ms') (auto split: if_splits option.splits)

lemma session_inv_send:
  assumes inv: "session_inv s" and p: "send_step now1 now2 t s = Some s'"
  shows "session_inv s'"
proof -
  obtain sd where sd: "senders s t = Some sd" using p by (auto simp: send_step_def split: option.splits)
  have q: "queues_ok (queues s)" using inv by (simp add: session_inv_def)
  from p sd consider "s' = s" | ms m ms' fresh sd' where "queues s (g_msqid s) = Some ms"
    "take_type 1 ms = Some (m, ms')"
    "s' = s\<lparr>queues := (queues s)(g_msqid s \<mapsto> ms'), refresh_base_time := fresh, senders := (senders s)(t \<mapsto> sd')\<rparr>"
    by (auto simp: send_step_def split: option.splits prod.splits)
  then show ?thesis
  proof cases
    case 2
    have "queues_ok (queues s')"
      using 2 q queues_okD [OF q 2(1)] take_type_mem [OF 2(2)] by (auto intro!: queues_ok_upd)
    moreover have "parser_ok s' p = parser_ok s p" for p by (simp add: 2(3) parser_ok_def cong: parser.case_cong)
    ultimately show ?thesis using inv sd unfolding session_inv_def by (auto simp: 2(3))
  qed (use inv in simp)
qed

lemma session_invariant:
  assumes "session fs time_of s0 s" "session_inv s0"
  shows "session_inv s"
  using assms
  by (induction rule: session.induct) (auto intro: session_inv_cmd session_inv_parse session_inv_send)

definition replay_init :: "can_item \<Rightarrow> cmd_msg \<Rightarrow> replay" where
  "replay_init it m = \<lparr>server_state = STATE_IDEL, cmd_buf = m, srv_cmd = m, client_addr = 0, pause_sem = 0,
     g_msqid = 0, queues = (\<lambda>_. None), data_buf = it, line_count = 0, parsers = (\<lambda>_. None),
     senders = (\<lambda>_. None), g_replay_can_thread = 0, vci_thread = 0, refresh_base_time = False,
     fp_open = False, replies = []\<rparr>"

lemma session_inv_init: "session_inv (replay_init it m)"
  by (simp add: session_inv_def replay_init_def queues_ok_def)


section \<open>A concrete replay and what can go wrong\<close>

definition demo_line :: string where "demo_line = ''0.1 1 1A Rx d 2 7F 80''"

definition demo_fs :: replay_fs where
  "demo_fs = \<lparr>fs_exists = (\<lambda>_. True), fs_lines = (\<lambda>_. Some [demo_line, demo_line]), fs_malloc = True\<rparr>"

definition demo_time :: "string \<Rightarrow> u64" where "demo_time w = 100000"

definition demo_item :: can_item where
  "demo_item = \<lparr>ci_type = 0, timestamp = 0, channel = 0, id_field = 0, dlc = 0, ci_data = (\<lambda>_. 0)\<rparr>"

definition demo_cmd :: "u8 \<Rightarrow> cmd_msg" where
  "demo_cmd c = \<lparr>cmd = c, t_start = 0, t_resume = 0, t_beg_offset = 0, t_end_offset = 500,
     t_cur_offset = 0, file_name = ''a.asc''\<rparr>"

definition demo_start :: "nat \<Rightarrow> start_env" where
  "demo_start t = \<lparr>se_msgget = Some (int t), se_stat = True, se_set = True, se_vci = Some t, se_parse = Some (t + 1)\<rparr>"

definition demo_recv :: "u8 \<Rightarrow> nat \<Rightarrow> replay \<Rightarrow> replay" where
  "demo_recv c t s = (case main_receive (demo_start t) True 47 (demo_cmd c) 9 s of Inr s' \<Rightarrow> s' | _ \<Rightarrow> s)"

definition demo_parse :: "nat \<Rightarrow> replay \<Rightarrow> replay" where
  "demo_parse t s = (case parse_step demo_fs demo_time True t s of Some (Inr s') \<Rightarrow> s' | _ \<Rightarrow> s)"

abbreviation demo_init :: replay where "demo_init \<equiv> replay_init demo_item (demo_cmd 0)"

lemma demo_recv_step: "replay_step fs time_of s (demo_recv c t s)"
proof -
  have "main_receive (demo_start t) True 47 (demo_cmd c) 9 s = Inr (demo_recv c t s)"
    by (simp add: demo_recv_def main_receive_def Let_def)
  then show ?thesis by (rule step_cmd)
qed

lemma demo_recv_reach: "replay_reach fs time_of s0 s \<Longrightarrow> replay_reach fs time_of s0 (demo_recv c t s)"
  by (rule reach_step [OF _ demo_recv_step])

lemma demo_parse_reach: "replay_reach demo_fs demo_time s0 s \<Longrightarrow> replay_reach demo_fs demo_time s0 (demo_parse t s)"
proof -
  assume r: "replay_reach demo_fs demo_time s0 s"
  show ?thesis
  proof (cases "\<exists>s'. parse_step demo_fs demo_time True t s = Some (Inr s')")
    case True
    then obtain s' where s': "parse_step demo_fs demo_time True t s = Some (Inr s')" by blast
    then have "demo_parse t s = s'" by (simp add: demo_parse_def)
    with reach_step [OF r step_parse [OF s']] show ?thesis by simp
  next
    case False
    then have "demo_parse t s = s" by (auto simp: demo_parse_def split: option.splits sum.splits)
    with r show ?thesis by simp
  qed
qed


section \<open>The properties at work\<close>

lemma demo_words: "strtok_words demo_line = [''0.1'', ''1'', ''1A'', ''Rx'', ''d'', ''2'', ''7F'', ''80'']"
  by code_simp

theorem deal_can_frame_spec_witness:
  "\<exists>it'. deal_can_frame demo_time demo_line demo_item = Inr (0, it') \<and> channel it' = 1 \<and> id_field it' = 0x1A \<and>
     dlc it' = 2 \<and> mem_get (ci_data it') 0 2 = [0x7F, 0x80]"
proof -
  have n: "atoi ''2'' = 2" "atoi ''1'' = 1" "strtol 16 ''1A'' = 26" "strtol 16 ''7F'' = 127" "strtol 16 ''80'' = 128"
    "\<not> strstr ''Error'' ''1A''"
    by code_simp+
  show ?thesis
    using conjunct1 [OF deal_can_frame_spec [of demo_line demo_time demo_item], THEN spec, of "''0.1''", THEN spec,
        of "''1''", THEN spec, of "''1A''", THEN spec, of "''Rx''", THEN spec, of "''2''", THEN spec, of "[''7F'', ''80'']"]
      demo_words n
    by (auto simp: DATA_ROOM_def numeral_2_eq_2)
qed



end
