(* ===== verification/ReplayClient.thy ===== *)
theory ReplayClient
  imports CanReplay
begin

text \<open>
  The command line client \<^verbatim>\<open>apps/udp/client/udp_client.c\<close> of the CAN replay server. It turns each line
  of its input into a command datagram, a packed structure followed by the name of the trace, and
  waits for an answer while it believes the server to be paused. The datagram is modelled in bytes,
  so that what the server of \<open>CanReplay\<close> reads from its receive buffer can be compared with what was
  sent. The clock, the input and the answers of the socket are arguments.
\<close>

section \<open>The datagram\<close>

definition SIZEOF_CMD :: nat where "SIZEOF_CMD = 41"
definition CMD_BUF_SIZE :: nat where "CMD_BUF_SIZE = 1024"

text \<open>\<^verbatim>\<open>sizeof(cmd_info_t) + strlen(file_name)\<close> bytes from the start of the packed structure.\<close>

definition cmd_bytes :: "cmd_msg \<Rightarrow> u8 list" where
  "cmd_bytes m =
     [cmd m] @ le_bytes 8 (t_start m) @ le_bytes 8 (t_resume m) @ le_bytes 8 (t_beg_offset m) @
     le_bytes 8 (t_end_offset m) @ le_bytes 8 (t_cur_offset m) @ map of_char (file_name m)"

text \<open>The receive buffer \<^verbatim>\<open>g_cmd_buf\<close> of the server, read through the packed structure.\<close>

definition read_cmd :: "mem \<Rightarrow> cmd_msg" where
  "read_cmd b =
     \<lparr>cmd = b 0, t_start = of_le (mem_get b 1 8), t_resume = of_le (mem_get b 9 8),
      t_beg_offset = of_le (mem_get b 17 8), t_end_offset = of_le (mem_get b 25 8),
      t_cur_offset = of_le (mem_get b 33 8),
      file_name = map (\<lambda>c. char_of (unat c)) (takeWhile (\<lambda>c. c \<noteq> 0) (mem_get b SIZEOF_CMD (CMD_BUF_SIZE - SIZEOF_CMD)))\<rparr>"

section \<open>The client\<close>

datatype client_state = CL_IDEL | CL_START | CL_STOP | CL_PAUSE

record client =
  cl_info :: cmd_msg             \<comment> \<open>\<^verbatim>\<open>send_data_buf\<close>, which \<^verbatim>\<open>cmd_info\<close> points to\<close>
  server_status :: client_state

text \<open>
  \<^verbatim>\<open>cmd_handle\<close> of the client; \<open>now\<close> is \<^verbatim>\<open>get_time_ms()\<close>. The command byte keeps the low 8 bits of the
  number, the switch looks at the whole of it.
\<close>

definition client_cmd_handle :: "u64 \<Rightarrow> string \<Rightarrow> client \<Rightarrow> client" where
  "client_cmd_handle now str c =
     (let cmd_num = atoi str;
          c1 = c\<lparr>cl_info := (cl_info c)\<lparr>cmd := word_of_int cmd_num\<rparr>\<rparr>
      in if cmd_num = 0
         then c1\<lparr>cl_info := (cl_info c1)\<lparr>t_start := now + 1000, t_resume := 0, t_beg_offset := 1000,
                   t_end_offset := 50000, t_cur_offset := 0\<rparr>, server_status := CL_START\<rparr>
         else if cmd_num = 1 then c1\<lparr>server_status := CL_STOP\<rparr>
         else if cmd_num = 2 then c1\<lparr>server_status := CL_PAUSE\<rparr>
         else if cmd_num = 3 then c1\<lparr>server_status := CL_START\<rparr>
         else c1)"

text \<open>
  Before the loop: the second argument is copied behind the structure, into a static and hence cleared
  buffer, without looking at its length. \<open>argc\<close> and the result of \<^verbatim>\<open>socket\<close> come first; the result is
  the exit code or the client.
\<close>

definition client_begin :: "int \<Rightarrow> int \<Rightarrow> string \<Rightarrow> c_fault + (int + client)" where
  "client_begin argc sock fname =
     (if argc \<noteq> 3 then Inr (Inl 1)
      else if sock < 0 then Inr (Inl 1)
      else if SIZEOF_CMD + length fname > CMD_BUF_SIZE then Inl OutOfBounds
      else Inr (Inr \<lparr>cl_info = \<lparr>cmd = 0, t_start = 0, t_resume = 0, t_beg_offset = 0, t_end_offset = 0,
                       t_cur_offset = 0, file_name = fname\<rparr>, server_status = CL_IDEL\<rparr>))"

text \<open>
  One round of the loop: \<open>input\<close> is what \<^verbatim>\<open>read\<close> returned (\<open>None\<close> for an error), \<open>answer\<close> the result of
  \<^verbatim>\<open>recvfrom\<close>; both ask for one byte less than their buffers hold. The result is the datagram sent, and the exit code or the client. A name that fills the
  buffer to its end has no terminator. The terminator of the answer is written also when there is
  none, at index -1.
\<close>

definition client_round :: "u64 \<Rightarrow> string option \<Rightarrow> int \<Rightarrow> client \<Rightarrow> c_fault + (u8 list option \<times> (int + client))" where
  "client_round now input answer c =
     (case input of
        None \<Rightarrow> Inr (None, Inl 2)
      | Some buf \<Rightarrow>
          (if buf = [] then Inr (None, Inl 0)
           else (let c1 = client_cmd_handle now (takeWhile (\<lambda>ch. ch \<noteq> CHR 0x00) buf) c
                 in if SIZEOF_CMD + length (file_name (cl_info c1)) \<ge> CMD_BUF_SIZE then Inl OutOfBounds
                    else if server_status c1 = CL_PAUSE \<and> answer < 0 then Inl OutOfBounds
                    else Inr (Some (cmd_bytes (cl_info c1)), Inr c1))))"

section \<open>Round trip of the datagram\<close>

lemma char_of_byte [simp]: "char_of (unat (of_char c :: u8)) = c"
proof -
  have "unat (of_nat (of_char c :: nat) :: u8) = of_char c"
    using nat_of_char_less_256 [of c] by (simp add: unat_of_nat)
  then show ?thesis by (metis char_of_char of_nat_of_char)
qed

lemma byte_of_char_0: "(of_char c :: u8) = 0 \<longleftrightarrow> c = CHR 0x00"
proof
  assume "(of_char c :: u8) = 0"
  then have "c = char_of (unat (0 :: u8))" using char_of_byte [of c] by simp
  then show "c = CHR 0x00" by (simp add: char_of_def)
qed simp

lemma mem_get_put_inside: "off + n \<le> length bs \<Longrightarrow> mem_get (mem_put m 0 bs) off n = take n (drop off bs)"
  by (auto intro!: nth_equalityI simp: mem_put_def)

lemma length_cmd_bytes: "length (cmd_bytes m) = SIZEOF_CMD + length (file_name m)"
  by (simp add: cmd_bytes_def SIZEOF_CMD_def)

lemma cmd_bytes_fields:
  "drop (Suc 0) (cmd_bytes m) = le_bytes 8 (t_start m) @ drop 9 (cmd_bytes m)"
  "drop 9 (cmd_bytes m) = le_bytes 8 (t_resume m) @ drop 17 (cmd_bytes m)"
  "drop 17 (cmd_bytes m) = le_bytes 8 (t_beg_offset m) @ drop 25 (cmd_bytes m)"
  "drop 25 (cmd_bytes m) = le_bytes 8 (t_end_offset m) @ drop 33 (cmd_bytes m)"
  "drop 33 (cmd_bytes m) = le_bytes 8 (t_cur_offset m) @ drop 41 (cmd_bytes m)"
  "drop 41 (cmd_bytes m) = map of_char (file_name m)"
  by (simp_all add: cmd_bytes_def)

text \<open>What the server finds in its buffer when a datagram of the client has arrived and been terminated.\<close>

lemma read_cmd_bytes:
  assumes "CHR 0x00 \<notin> set (file_name m)" "SIZEOF_CMD + length (file_name m) < CMD_BUF_SIZE"
  shows "read_cmd (mem_put b 0 (cmd_bytes m @ [0])) = m"
proof -
  let ?b = "mem_put b 0 (cmd_bytes m @ [0])" and ?n = "map of_char (file_name m) :: u8 list"
  have field: "mem_get ?b off 8 = take 8 (drop off (cmd_bytes m))" if "off + 8 \<le> SIZEOF_CMD" for off
    using that by (subst mem_get_put_inside) (simp_all add: length_cmd_bytes)
  have "mem_get ?b 41 (length ?n + 1) = ?n @ [0]"
    using length_cmd_bytes [of m]
    by (subst mem_get_put_inside) (simp_all add: SIZEOF_CMD_def cmd_bytes_fields(6))
  then have "mem_get ?b SIZEOF_CMD (CMD_BUF_SIZE - SIZEOF_CMD) =
      ?n @ 0 # mem_get ?b (41 + (length ?n + 1)) (CMD_BUF_SIZE - SIZEOF_CMD - (length ?n + 1))"
    using assms(2) mem_get_split [of "length ?n + 1" "CMD_BUF_SIZE - SIZEOF_CMD" ?b 41]
    by (simp add: SIZEOF_CMD_def)
  moreover have "takeWhile (\<lambda>c. c \<noteq> 0) (?n @ 0 # r) = ?n" for r
    using assms(1) by (subst takeWhile_append2) (auto simp: byte_of_char_0)
  ultimately have name: "file_name (read_cmd ?b) = file_name m"
    by (simp add: read_cmd_def comp_def)
  have "cmd (read_cmd ?b) = cmd m" by (simp add: read_cmd_def mem_put_def cmd_bytes_def)
  then show ?thesis using name
    by (intro cmd_msg.equality) (simp_all add: read_cmd_def field SIZEOF_CMD_def cmd_bytes_fields)
qed

section \<open>Properties\<close>

abbreviation c_text :: "string \<Rightarrow> string" where
  "c_text buf \<equiv> takeWhile (\<lambda>ch. ch \<noteq> CHR 0x00) buf"

lemma client_cmd_simps [simp]:
  "file_name (cl_info (client_cmd_handle now str c)) = file_name (cl_info c)"
  "cmd (cl_info (client_cmd_handle now str c)) = word_of_int (atoi str)"
  by (simp_all add: client_cmd_handle_def Let_def)

lemma byte_of_int_0: "n mod 256 = 0 \<Longrightarrow> (word_of_int n :: u8) = 0"
  using word_of_int_eq_iff [of n 0, where ?'a = 8] by (simp add: take_bit_eq_mod)


definition demo_typed :: client where
  "demo_typed = \<lparr>cl_info = (demo_cmd 9)\<lparr>file_name := ''a.asc''\<rparr>, server_status = CL_IDEL\<rparr>"


text \<open>
  After a pause command the client takes a missing answer for one of -1 bytes: when the receive
  time-out of one second expires, the terminator goes to the byte before the buffer.
\<close>

lemma client_pause_unanswered:
  assumes "atoi (c_text buf) = 2" "buf \<noteq> []"
  shows "client_round now (Some buf) (- 1) c = Inl OutOfBounds"
  using assms by (simp add: client_round_def client_cmd_handle_def Let_def)

text \<open>The start of the client does not check the length of the trace name either.\<close>

lemma client_begin_overflow: "length fname > 983 \<Longrightarrow> sock \<ge> 0 \<Longrightarrow> client_begin 3 sock fname = Inl OutOfBounds"
  by (simp add: client_begin_def SIZEOF_CMD_def CMD_BUF_SIZE_def)

end
