(* ===== verification/MsgQueue.thy ===== *)
theory MsgQueue
  imports Prelude
begin

text \<open>
  Message queues with a time limit (\<^verbatim>\<open>apps/msg/que.c\<close>). A call with a time limit registers an event in
  a tree ordered by expiry time, blocks in \<^verbatim>\<open>msgsnd\<close> or \<^verbatim>\<open>msgrcv\<close>, and is interrupted by a signal from
  the event thread when the event expires. The tree operations \<^verbatim>\<open>rbtree_init\<close>, \<^verbatim>\<open>rbtree_insert\<close>,
  \<^verbatim>\<open>rbtree_min\<close> and \<^verbatim>\<open>rbtree_delete\<close> are not part of the sources: they are a parameter, with the laws
  of an ordered collection as hypotheses. Events are named by numbers; the expiry time of an event is
  the key of the node embedded in it, which the tree operations read.
\<close>

section \<open>The tree of events\<close>

record 't event_tree =
  rbtree_init :: 't
  rbtree_insert :: "(nat \<Rightarrow> u64) \<Rightarrow> nat \<Rightarrow> 't \<Rightarrow> 't"
  rbtree_min :: "(nat \<Rightarrow> u64) \<Rightarrow> 't \<Rightarrow> nat option"
  rbtree_delete :: "(nat \<Rightarrow> u64) \<Rightarrow> nat \<Rightarrow> 't \<Rightarrow> 't"

text \<open>What the code relies on: the nodes in the tree, and that the minimum is a node with the least key.\<close>

definition tree_laws :: "'t event_tree \<Rightarrow> ('t \<Rightarrow> nat set) \<Rightarrow> bool" where
  "tree_laws rb nodes \<longleftrightarrow>
     nodes (rbtree_init rb) = {} \<and>
     (\<forall>t. finite (nodes t)) \<and>
     (\<forall>k e t. e \<notin> nodes t \<longrightarrow> nodes (rbtree_insert rb k e t) = insert e (nodes t)) \<and>
     (\<forall>k e t. e \<in> nodes t \<longrightarrow> nodes (rbtree_delete rb k e t) = nodes t - {e}) \<and>
     (\<forall>k t. case rbtree_min rb k t of
        None \<Rightarrow> nodes t = {}
      | Some e \<Rightarrow> e \<in> nodes t \<and> (\<forall>e' \<in> nodes t. k e \<le> k e'))"

section \<open>State\<close>

record event =
  ev_tid :: nat
  ev_key :: u64
  event_status :: int     \<comment> \<open>0 default, 1 timeout\<close>

record 't que_state =
  event_alive :: bool
  time_rbtree :: 't
  events :: "nat \<Rightarrow> event"
  event_pipe :: "u8 list"          \<comment> \<open>bytes written to the pipe and not yet read\<close>
  usr1 :: "nat list"               \<comment> \<open>threads that were sent \<^verbatim>\<open>SIGUSR1\<close>\<close>
  usr1_handler :: bool             \<comment> \<open>\<^verbatim>\<open>event_sighandler\<close> is installed\<close>

abbreviation keys :: "'t que_state \<Rightarrow> nat \<Rightarrow> u64" where
  "keys s \<equiv> \<lambda>e. ev_key (events s e)"

definition ESRCH :: int where "ESRCH = 3"
definition ENOENT :: int where "ENOENT = 2"
definition ETIMEDOUT :: int where "ETIMEDOUT = 110"
definition QUE_MSGTYPE :: int where "QUE_MSGTYPE = 30"

definition is_thread_alive :: "int \<Rightarrow> int" where
  "is_thread_alive kill_rc = (if kill_rc = ESRCH then 0 else 1)"

definition event_timer_create :: "'t event_tree \<Rightarrow> 't que_state \<Rightarrow> int \<times> 't que_state" where
  "event_timer_create rb s =
     (if event_alive s then (0, s)
      else (0, s\<lparr>event_pipe := [], time_rbtree := rbtree_init rb, event_alive := True\<rparr>))"

definition localtime_ms :: "u64 \<Rightarrow> u64 \<Rightarrow> u64" where
  "localtime_ms tv_sec tv_usec = tv_sec * 1000 + tv_usec div 1000"

section \<open>The event thread\<close>

datatype loop_result =
    LoopContinue
  | LoopWait "(u64 \<times> u64) option"   \<comment> \<open>go on to \<^verbatim>\<open>select\<close> with this timeout\<close>

text \<open>The part of a round under the mutex.\<close>

definition timer_round :: "'t event_tree \<Rightarrow> u64 \<Rightarrow> 't que_state \<Rightarrow> loop_result \<times> 't que_state" where
  "timer_round rb now s =
     (case rbtree_min rb (keys s) (time_rbtree s) of
        None \<Rightarrow> (LoopWait None, s)
      | Some e \<Rightarrow>
          (let ev_time = ev_key (events s e) in
           if now \<ge> ev_time
           then (LoopContinue,
                 s\<lparr>events := (events s)(e := (events s e)\<lparr>event_status := 1\<rparr>),
                   time_rbtree := rbtree_delete rb (keys s) e (time_rbtree s),
                   usr1 := usr1 s @ [ev_tid (events s e)]\<rparr>)
           else (let d = ev_time - now in (LoopWait (Some (d div 1000, d mod 1000 * 1000)), s))))"

text \<open>
  The part after \<^verbatim>\<open>select\<close> returned \<open>n\<close>: read up to 1024 bytes of the pipe and leave the loop if some
  byte other than the character 0 remains after the trailing ones are stripped.
\<close>

fun strip_zeros :: "u8 list \<Rightarrow> u8 list" where
  "strip_zeros [] = []"
| "strip_zeros (b # bs) = (case strip_zeros bs of [] \<Rightarrow> if b = 48 then [] else [b] | x # xs \<Rightarrow> b # x # xs)"

definition timer_select :: "int \<Rightarrow> 't que_state \<Rightarrow> bool \<times> 't que_state" where
  "timer_select n s =
     (if n \<le> 0 then (False, s)
      else (let tmp = take 1024 (event_pipe s)
            in (strip_zeros tmp \<noteq> [], s\<lparr>event_pipe := drop 1024 (event_pipe s)\<rparr>)))"

text \<open>The rounds until the thread waits, all at one clock value, with a bound on their number.\<close>

fun timer_rounds :: "'t event_tree \<Rightarrow> u64 \<Rightarrow> nat \<Rightarrow> 't que_state \<Rightarrow> ((u64 \<times> u64) option \<times> 't que_state) option" where
  "timer_rounds rb now 0 s = None"
| "timer_rounds rb now (Suc n) s =
     (case timer_round rb now s of
        (LoopContinue, s') \<Rightarrow> timer_rounds rb now n s'
      | (LoopWait w, s') \<Rightarrow> Some (w, s'))"

section \<open>Timers of the callers\<close>

definition add_timer :: "'t event_tree \<Rightarrow> u64 \<Rightarrow> nat \<Rightarrow> nat \<Rightarrow> u64 \<Rightarrow> 't que_state \<Rightarrow> int \<times> 't que_state" where
  "add_timer rb now tid e timeout s =
     (let s1 = s\<lparr>events := (events s)(e := \<lparr>ev_tid = tid, ev_key = now + timeout, event_status = 0\<rparr>)\<rparr>
      in (0, s1\<lparr>time_rbtree := rbtree_insert rb (keys s1) e (time_rbtree s1), event_pipe := event_pipe s1 @ [48]\<rparr>))"

definition delete_timer :: "'t event_tree \<Rightarrow> nat \<Rightarrow> 't que_state \<Rightarrow> int \<times> 't que_state" where
  "delete_timer rb e s = (0, s\<lparr>time_rbtree := rbtree_delete rb (keys s) e (time_rbtree s)\<rparr>)"

section \<open>Sending and receiving with a time limit\<close>

text \<open>The results of \<^verbatim>\<open>msgget\<close>: an identifier, or an error number.\<close>

definition que_open :: "int + int \<Rightarrow> int + int \<Rightarrow> int option" where
  "que_open get1 get2 =
     (case get1 of
        Inr q \<Rightarrow> Some q
      | Inl err \<Rightarrow> if err = ENOENT then (case get2 of Inr q \<Rightarrow> Some q | Inl _ \<Rightarrow> None) else None)"

text \<open>
  A call up to the blocking system call: it returns -1 at once or goes on, with the flag
  \<^verbatim>\<open>IPC_NOWAIT\<close>. Only a timeout other than -1 and 0 uses the event thread.
\<close>

record wait_call =
  wc_msgqid :: int
  wc_nowait :: bool
  wc_buffer :: "int \<times> u8 list"      \<comment> \<open>type and bytes of \<^verbatim>\<open>MSGBUF\<close>\<close>

definition que_begin :: "'t event_tree \<Rightarrow> u64 \<Rightarrow> nat \<Rightarrow> nat \<Rightarrow> int \<Rightarrow> 't que_state \<Rightarrow> 't que_state" where
  "que_begin rb now tid e timeout s =
     (if timeout = -1 \<or> timeout = 0 then s\<lparr>events := (events s)(e := \<lparr>ev_tid = 0, ev_key = 0, event_status = 0\<rparr>)\<rparr>
      else (let s1 = snd (event_timer_create rb s)
            in snd (add_timer rb now tid e (word_of_int timeout) (s1\<lparr>usr1_handler := True\<rparr>))))"

definition send_que_begin :: "'t event_tree \<Rightarrow> u64 \<Rightarrow> nat \<Rightarrow> nat \<Rightarrow> int + int \<Rightarrow> int + int \<Rightarrow> bool \<Rightarrow> u8 list \<Rightarrow> nat \<Rightarrow>
    int \<Rightarrow> 't que_state \<Rightarrow> c_fault + (wait_call option \<times> 't que_state)" where
  "send_que_begin rb now tid e get1 get2 malloc_ok pdata len timeout s =
     (case que_open get1 get2 of
        None \<Rightarrow> Inr (None, s)
      | Some q \<Rightarrow>
          if \<not> malloc_ok then Inr (None, s)
          else if length pdata < len then Inl OutOfBounds
          else Inr (Some \<lparr>wc_msgqid = q, wc_nowait = (timeout = 0), wc_buffer = (QUE_MSGTYPE, take len pdata)\<rparr>,
                    que_begin rb now tid e timeout s))"

text \<open>The rest of the call, after \<^verbatim>\<open>msgsnd\<close> or \<^verbatim>\<open>msgrcv\<close> returned; the error number is set on a timeout only.\<close>

definition que_end :: "'t event_tree \<Rightarrow> nat \<Rightarrow> int \<Rightarrow> 't que_state \<Rightarrow> 't que_state" where
  "que_end rb e timeout s = (if timeout = -1 \<or> timeout = 0 then s else snd (delete_timer rb e s))"

definition send_que_end :: "'t event_tree \<Rightarrow> nat \<Rightarrow> int \<Rightarrow> int \<Rightarrow> 't que_state \<Rightarrow> (int \<times> int option) \<times> 't que_state" where
  "send_que_end rb e timeout retu s =
     (let s1 = que_end rb e timeout s in
      ((if retu = 0 then (0, None)
        else if event_status (events s1 e) = 1 then (-1, Some ETIMEDOUT) else (-1, None)), s1))"

definition read_que_begin :: "'t event_tree \<Rightarrow> u64 \<Rightarrow> nat \<Rightarrow> nat \<Rightarrow> int + int \<Rightarrow> int + int \<Rightarrow> bool \<Rightarrow> int \<Rightarrow>
    't que_state \<Rightarrow> wait_call option \<times> 't que_state" where
  "read_que_begin rb now tid e get1 get2 malloc_ok timeout s =
     (case que_open get1 get2 of
        None \<Rightarrow> (None, s)
      | Some q \<Rightarrow>
          if \<not> malloc_ok then (None, s)
          else (Some \<lparr>wc_msgqid = q, wc_nowait = (timeout = 0), wc_buffer = (0, [])\<rparr>,
                que_begin rb now tid e timeout s))"

text \<open>\<open>msg\<close> holds the bytes \<^verbatim>\<open>msgrcv\<close> stored, whose number it returned; the copy to \<^verbatim>\<open>pdata\<close> is returned.\<close>

definition read_que_end :: "'t event_tree \<Rightarrow> nat \<Rightarrow> int \<Rightarrow> int \<Rightarrow> u8 list \<Rightarrow> 't que_state \<Rightarrow>
    (int \<times> int option \<times> u8 list) \<times> 't que_state" where
  "read_que_end rb e timeout retu msg s =
     (let s1 = que_end rb e timeout s;
          copied = (if retu > 0 then take (nat retu) msg else [])
      in ((if retu \<ge> 0 then (retu, None, copied)
           else if event_status (events s1 e) = 1 then (-1, Some ETIMEDOUT, copied) else (-1, None, copied)), s1))"

section \<open>The event thread fires what has expired\<close>

lemma tree_lawsD:
  assumes "tree_laws rb nodes"
  shows "nodes (rbtree_init rb) = {}" "finite (nodes t)"
    "e \<notin> nodes t \<Longrightarrow> nodes (rbtree_insert rb k e t) = insert e (nodes t)"
    "e \<in> nodes t \<Longrightarrow> nodes (rbtree_delete rb k e t) = nodes t - {e}"
    "rbtree_min rb k t = None \<Longrightarrow> nodes t = {}"
    "rbtree_min rb k t = Some m \<Longrightarrow> m \<in> nodes t \<and> (\<forall>e' \<in> nodes t. k m \<le> k e')"
proof -
  have min: "case rbtree_min rb k t of None \<Rightarrow> nodes t = {}
      | Some e \<Rightarrow> e \<in> nodes t \<and> (\<forall>e' \<in> nodes t. k e \<le> k e')"
    using assms unfolding tree_laws_def by blast
  show "rbtree_min rb k t = None \<Longrightarrow> nodes t = {}" using min by simp
  show "rbtree_min rb k t = Some m \<Longrightarrow> m \<in> nodes t \<and> (\<forall>e' \<in> nodes t. k m \<le> k e')" using min by simp
qed (use assms in \<open>auto simp: tree_laws_def\<close>)

text \<open>The wait until the next expiry, in seconds and microseconds, is exact.\<close>

definition waits_until :: "u64 \<Rightarrow> u64 \<Rightarrow> u64 \<times> u64 \<Rightarrow> bool" where
  "waits_until now key w \<longleftrightarrow> unat (snd w) < 1000000 \<and>
     unat (fst w) * 1000000 + unat (snd w) = (unat key - unat now) * 1000"

lemma timer_wait_exact:
  fixes now key :: u64
  assumes "now < key"
  shows "waits_until now key ((key - now) div 1000, (key - now) mod 1000 * 1000)"
proof -
  let ?d = "key - now"
  have d: "unat ?d = unat key - unat now" using assms by (intro unat_sub_le) (simp add: word_less_nat_alt)
  have r: "unat (?d mod 1000) = unat ?d mod 1000" by (simp add: unat_mod)
  have small: "unat ?d mod 1000 < 1000" by simp
  have "unat (?d mod 1000) * unat (1000 :: u64) < 2 ^ LENGTH(64)" unfolding r using small by simp
  then have m: "unat (?d mod 1000 * 1000) = unat ?d mod 1000 * 1000"
    unfolding unat_mult_lem r [symmetric] by simp
  moreover have "unat (?d div 1000) = unat ?d div 1000" by (simp add: unat_div)
  moreover have "unat ?d div 1000 * 1000000 + unat ?d mod 1000 * 1000 = unat ?d * 1000"
    using div_mult_mod_eq [of "unat ?d" 1000] by linarith
  moreover have "unat ?d mod 1000 * 1000 < 1000000" using small by simp
  ultimately show ?thesis by (simp add: waits_until_def d)
qed

text \<open>What firing the expired events of a set does.\<close>

definition fired :: "('t \<Rightarrow> nat set) \<Rightarrow> u64 \<Rightarrow> 't que_state \<Rightarrow> nat list \<Rightarrow> 't que_state \<Rightarrow> bool" where
  "fired nodes now s es s' \<longleftrightarrow>
     distinct es \<and> set es = {e \<in> nodes (time_rbtree s). keys s e \<le> now} \<and>
     sorted_wrt (\<lambda>a b. keys s a \<le> keys s b) es \<and>
     nodes (time_rbtree s') = {e \<in> nodes (time_rbtree s). now < keys s e} \<and>
     events s' = (\<lambda>e. if e \<in> set es then (events s e)\<lparr>event_status := 1\<rparr> else events s e) \<and>
     usr1 s' = usr1 s @ map (\<lambda>e. ev_tid (events s e)) es \<and>
     event_pipe s' = event_pipe s \<and> event_alive s' = event_alive s"

definition next_wait :: "('t \<Rightarrow> nat set) \<Rightarrow> u64 \<Rightarrow> 't que_state \<Rightarrow> (u64 \<times> u64) option \<Rightarrow> bool" where
  "next_wait nodes now s w \<longleftrightarrow>
     (case w of
        None \<Rightarrow> nodes (time_rbtree s) = {}
      | Some tv \<Rightarrow> \<exists>e \<in> nodes (time_rbtree s). (\<forall>e' \<in> nodes (time_rbtree s). keys s e \<le> keys s e') \<and>
          waits_until now (keys s e) tv)"

lemma timer_round_fire:
  assumes laws: "tree_laws rb nodes" and e: "rbtree_min rb (keys s) (time_rbtree s) = Some e"
    and due: "keys s e \<le> now"
    and rest: "fired nodes now s1 es s'" and s1: "timer_round rb now s = (LoopContinue, s1)"
  shows "fired nodes now s (e # es) s'"
proof -
  have min: "e \<in> nodes (time_rbtree s)" "\<forall>e' \<in> nodes (time_rbtree s). keys s e \<le> keys s e'"
    using tree_lawsD(6) [OF laws e] by auto
  have eq: "s1 = s\<lparr>events := (events s)(e := (events s e)\<lparr>event_status := 1\<rparr>),
      time_rbtree := rbtree_delete rb (keys s) e (time_rbtree s), usr1 := usr1 s @ [ev_tid (events s e)]\<rparr>"
    using s1 e due by (simp add: timer_round_def Let_def)
  have nodes: "nodes (time_rbtree s1) = nodes (time_rbtree s) - {e}"
    using tree_lawsD(4) [OF laws min(1)] by (simp add: eq)
  have k: "keys s1 x = keys s x" for x by (simp add: eq)
  have r: "distinct es" "set es = {x \<in> nodes (time_rbtree s1). keys s1 x \<le> now}"
    "sorted_wrt (\<lambda>a b. keys s1 a \<le> keys s1 b) es"
    "nodes (time_rbtree s') = {x \<in> nodes (time_rbtree s1). now < keys s1 x}"
    "events s' = (\<lambda>x. if x \<in> set es then (events s1 x)\<lparr>event_status := 1\<rparr> else events s1 x)"
    "usr1 s' = usr1 s1 @ map (\<lambda>x. ev_tid (events s1 x)) es"
    "event_pipe s' = event_pipe s1" "event_alive s' = event_alive s1"
    using rest unfolding fired_def by blast+
  have set: "set es = {x \<in> nodes (time_rbtree s) - {e}. keys s x \<le> now}" unfolding r(2) nodes k ..
  then have notin: "e \<notin> set es" by blast
  show ?thesis unfolding fired_def
  proof (intro conjI)
    show "distinct (e # es)" using r(1) notin by simp
    show "set (e # es) = {x \<in> nodes (time_rbtree s). keys s x \<le> now}" using set min due by auto
    have "\<forall>x \<in> set es. keys s e \<le> keys s x" using set min(2) by blast
    with r(3) show "sorted_wrt (\<lambda>a b. keys s a \<le> keys s b) (e # es)" unfolding k by simp
    show "nodes (time_rbtree s') = {x \<in> nodes (time_rbtree s). now < keys s x}"
      unfolding r(4) nodes k using due by auto
    show "events s' = (\<lambda>x. if x \<in> set (e # es) then (events s x)\<lparr>event_status := 1\<rparr> else events s x)"
      unfolding r(5) using notin by (auto simp: eq fun_eq_iff)
    have "map (\<lambda>x. ev_tid (events s1 x)) es = map (\<lambda>x. ev_tid (events s x)) es" by (simp add: eq)
    with r(6) show "usr1 s' = usr1 s @ map (\<lambda>x. ev_tid (events s x)) (e # es)" by (simp add: eq)
  qed (use r(7,8) in \<open>simp_all add: eq\<close>)
qed

lemma timer_rounds_fire:
  assumes laws: "tree_laws rb nodes" and "card (nodes (time_rbtree s)) = n"
  shows "\<exists>w s' es. timer_rounds rb now (Suc n) s = Some (w, s') \<and> fired nodes now s es s' \<and> next_wait nodes now s' w"
  using assms(2)
proof (induction n arbitrary: s)
  case 0
  then have none: "nodes (time_rbtree s) = {}" using tree_lawsD(2) [OF laws] by simp
  then have "rbtree_min rb (keys s) (time_rbtree s) = None"
    using tree_lawsD(6) [OF laws] by (cases "rbtree_min rb (keys s) (time_rbtree s)") auto
  with none show ?case
    by (intro exI [of _ None] exI [of _ s] exI [of _ "[]"]) (simp add: timer_round_def fired_def next_wait_def)
next
  case (Suc n)
  then have ne: "nodes (time_rbtree s) \<noteq> {}" by auto
  with tree_lawsD(5) [OF laws] obtain e where e: "rbtree_min rb (keys s) (time_rbtree s) = Some e"
    by (cases "rbtree_min rb (keys s) (time_rbtree s)") auto
  note min = tree_lawsD(6) [OF laws e]
  show ?case
  proof (cases "keys s e \<le> now")
    case True
    then obtain s1 where s1: "timer_round rb now s = (LoopContinue, s1)" by (simp add: timer_round_def e Let_def)
    then have "time_rbtree s1 = rbtree_delete rb (keys s) e (time_rbtree s)"
      using True by (auto simp: timer_round_def e Let_def)
    then have "nodes (time_rbtree s1) = nodes (time_rbtree s) - {e}" using tree_lawsD(4) [OF laws] min by simp
    then have "card (nodes (time_rbtree s1)) = n"
      using Suc.prems min tree_lawsD(2) [OF laws] by (simp add: card_Diff_singleton)
    from Suc.IH [OF this] obtain w s' es where
      1: "timer_rounds rb now (Suc n) s1 = Some (w, s')" "fired nodes now s1 es s'" "next_wait nodes now s' w" by blast
    have "timer_rounds rb now (Suc (Suc n)) s = Some (w, s')" using s1 1(1) by (simp del: timer_rounds.simps add: timer_rounds.simps(2) [of _ _ "Suc n"])
    with 1(3) timer_round_fire [OF laws e True 1(2) s1] show ?thesis by blast
  next
    case False
    then have lt: "now < keys s e" by simp
    then have "\<forall>e' \<in> nodes (time_rbtree s). now < keys s e'" using min by (meson less_le_trans)
    then have "fired nodes now s [] s" by (fastforce simp: fired_def)
    moreover have "next_wait nodes now s (Some ((keys s e - now) div 1000, (keys s e - now) mod 1000 * 1000))"
      using min timer_wait_exact [OF lt] by (auto simp: next_wait_def)
    moreover have "timer_rounds rb now (Suc (Suc n)) s =
        Some (Some ((keys s e - now) div 1000, (keys s e - now) mod 1000 * 1000), s)"
      using False by (simp add: timer_round_def e Let_def)
    ultimately show ?thesis by blast
  qed
qed


section \<open>A call with a time limit\<close>

lemma que_begin_timed:
  assumes laws: "tree_laws rb nodes" and t: "timeout \<noteq> -1" "timeout \<noteq> 0"
    and new: "event_alive s \<longrightarrow> e \<notin> nodes (time_rbtree s)"
  shows "nodes (time_rbtree (que_begin rb now tid e timeout s)) =
      insert e (if event_alive s then nodes (time_rbtree s) else {}) \<and>
    events (que_begin rb now tid e timeout s) =
      (events s)(e := \<lparr>ev_tid = tid, ev_key = now + word_of_int timeout, event_status = 0\<rparr>)"
proof -
  let ?s = "snd (event_timer_create rb s)"
  have n: "nodes (time_rbtree ?s) = (if event_alive s then nodes (time_rbtree s) else {})"
    using tree_lawsD(1) [OF laws] by (simp add: event_timer_create_def)
  have ev: "events ?s = events s" by (simp add: event_timer_create_def)
  have "e \<notin> nodes (time_rbtree ?s)" using n new by simp
  from tree_lawsD(3) [OF laws this] n ev t show ?thesis
    by (simp add: que_begin_def add_timer_def Let_def)
qed

text \<open>
  A call with a time limit, registered under a new event at time \<open>now\<close>, whose queue operation is
  still blocked when the event thread runs at time \<open>later\<close>. If the limit has passed (in 64-bit
  arithmetic, so also at once for a negative limit), the thread is signalled, the event is no longer in
  the tree, and when the interrupted operation fails the call returns -1 with \<^verbatim>\<open>ETIMEDOUT\<close>; but it
  deletes the event from the tree a second time. Before the limit the event stays in the tree and is
  not marked, a successful operation returns 0, and deleting it leaves exactly the other events.
\<close>

theorem timed_send:
  assumes laws: "tree_laws rb nodes" and t: "timeout \<noteq> -1" "timeout \<noteq> 0" and len: "len \<le> length pdata"
    and new: "event_alive s \<longrightarrow> e \<notin> nodes (time_rbtree s)"
    and begun: "send_que_begin rb now tid e (Inr q) get2 True pdata len timeout s = Inr (c, s1)"
    and loop: "timer_rounds rb later (Suc (card (nodes (time_rbtree s1)))) s1 = Some (w, s2)"
  shows "c = Some \<lparr>wc_msgqid = q, wc_nowait = False, wc_buffer = (QUE_MSGTYPE, take len pdata)\<rparr> \<and>
    e \<in> nodes (time_rbtree s1) \<and>
    (if now + word_of_int timeout \<le> later
     then e \<notin> nodes (time_rbtree s2) \<and> tid \<in> set (usr1 s2) \<and>
       (\<forall>retu. retu \<noteq> 0 \<longrightarrow> (\<exists>s3. send_que_end rb e timeout retu s2 = ((-1, Some ETIMEDOUT), s3) \<and>
          time_rbtree s3 = rbtree_delete rb (keys s2) e (time_rbtree s2)))
     else e \<in> nodes (time_rbtree s2) \<and>
       (\<exists>s3. send_que_end rb e timeout 0 s2 = ((0, None), s3) \<and> nodes (time_rbtree s3) = nodes (time_rbtree s2) - {e}) \<and>
       (\<forall>retu. retu \<noteq> 0 \<longrightarrow> fst (send_que_end rb e timeout retu s2) = (-1, None)))"
proof -
  have s1: "s1 = que_begin rb now tid e timeout s"
    and c: "c = Some \<lparr>wc_msgqid = q, wc_nowait = False, wc_buffer = (QUE_MSGTYPE, take len pdata)\<rparr>"
    using begun len t by (auto simp: send_que_begin_def que_open_def)
  note b = que_begin_timed [OF laws t new, of now tid]
  have ev: "events s1 e = \<lparr>ev_tid = tid, ev_key = now + word_of_int timeout, event_status = 0\<rparr>"
    and mem: "e \<in> nodes (time_rbtree s1)" using b by (auto simp: s1)
  obtain es where f: "fired nodes later s1 es s2"
    using timer_rounds_fire [OF laws refl, of later s1] loop by auto
  have es: "set es = {x \<in> nodes (time_rbtree s1). keys s1 x \<le> later}"
    and n2: "nodes (time_rbtree s2) = {x \<in> nodes (time_rbtree s1). later < keys s1 x}"
    and e2: "events s2 e = (if e \<in> set es then (events s1 e)\<lparr>event_status := 1\<rparr> else events s1 e)"
    and u2: "usr1 s2 = usr1 s1 @ map (\<lambda>x. ev_tid (events s1 x)) es"
    using f unfolding fired_def by simp_all
  have send: "send_que_end rb e timeout retu s2 =
      ((if retu = 0 then (0, None) else if event_status (events s2 e) = 1 then (-1, Some ETIMEDOUT) else (-1, None)),
       s2\<lparr>time_rbtree := rbtree_delete rb (keys s2) e (time_rbtree s2)\<rparr>)" for retu
    using t by (simp add: send_que_end_def que_end_def delete_timer_def Let_def)
  show ?thesis
  proof (cases "now + word_of_int timeout \<le> later")
    case True
    then have ine: "e \<in> set es" using es mem ev by simp
    have "e \<notin> nodes (time_rbtree s2)" using n2 True ev by (simp add: not_less)
    moreover have "tid \<in> set (usr1 s2)"
    proof -
      have "ev_tid (events s1 e) \<in> (\<lambda>x. ev_tid (events s1 x)) ` set es" using ine by (rule imageI)
      then show ?thesis by (simp add: u2 ev)
    qed
    moreover have "event_status (events s2 e) = 1" using ine e2 by simp
    ultimately show ?thesis using True c mem by (simp add: send)
  next
    case False
    then have "e \<notin> set es" "e \<in> nodes (time_rbtree s2)" using es n2 mem ev by auto
    moreover from this have "event_status (events s2 e) = 0" using e2 ev by simp
    ultimately show ?thesis using False c mem tree_lawsD(4) [OF laws] by (simp add: send)
  qed
qed

section \<open>The laws can hold\<close>

definition list_tree :: "nat list event_tree" where
  "list_tree = \<lparr>rbtree_init = [], rbtree_insert = (\<lambda>k e t. e # t),
     rbtree_min = (\<lambda>k t. if t = [] then None else Some (arg_min_list k t)),
     rbtree_delete = (\<lambda>k e t. removeAll e t)\<rparr>"

lemma list_tree_laws: "tree_laws list_tree set"
proof -
  have "k (arg_min_list k t) \<le> k e" if "e \<in> set t" for k :: "nat \<Rightarrow> u64" and e t
    using that f_arg_min_list_f [of t k] by (metis Min_le finite_imageI finite_set image_eqI empty_iff list.set(1))
  then show ?thesis by (auto simp: tree_laws_def list_tree_def arg_min_list_in)
qed

definition demo_que :: "nat list que_state" where
  "demo_que = \<lparr>event_alive = True, time_rbtree = [4, 5],
     events = (\<lambda>e. \<lparr>ev_tid = e + 10, ev_key = of_nat e * 100, event_status = 0\<rparr>),
     event_pipe = [], usr1 = [], usr1_handler = True\<rparr>"


theorem timed_send_witness:
  "\<exists>c s1 w s2 s3. send_que_begin list_tree 450 7 6 (Inr 3) (Inl 0) True [1, 2] 2 50 demo_que = Inr (c, s1) \<and>
     timer_rounds list_tree 500 (Suc (card (set (time_rbtree s1)))) s1 = Some (w, s2) \<and>
     6 \<notin> set (time_rbtree s2) \<and> send_que_end list_tree 6 50 (-1) s2 = ((-1, Some ETIMEDOUT), s3)"
proof -
  obtain c s1 where b: "send_que_begin list_tree 450 7 6 (Inr 3) (Inl 0) True [1, 2] 2 50 demo_que = Inr (c, s1)"
    by (simp add: send_que_begin_def que_open_def)
  obtain w s2 where l: "timer_rounds list_tree 500 (Suc (card (set (time_rbtree s1)))) s1 = Some (w, s2)"
    using timer_rounds_fire [OF list_tree_laws refl, of 500 s1] by blast
  have "6 \<notin> set (time_rbtree s2) \<and> (\<exists>s3. send_que_end list_tree 6 50 (-1) s2 = ((-1, Some ETIMEDOUT), s3))"
    using timed_send [OF list_tree_laws _ _ _ _ b l] by (auto simp: demo_que_def elim!: allE [of _ "-1 :: int"])
  with b l show ?thesis by blast
qed

end
