(* ===== verification/CjsonString.thy ===== *)
theory CjsonString
  imports Prelude
begin

text \<open>
  Strings in the JSON library \<^verbatim>\<open>apps/cjson/cJSON.c\<close>: the output buffer that grows on demand, printing a
  C string as a JSON string literal, and parsing a literal with its escapes, including UTF-16 literals
  that become UTF-8. The input block is a list of bytes whose length is \<^verbatim>\<open>buffer->length\<close>, the output
  block of the parser is known by its size, and every store is checked against that size. The results
  of allocations are arguments. Sizes are natural numbers; they stay far below the range of \<^verbatim>\<open>size_t\<close>.
\<close>

section \<open>Characters\<close>

abbreviation QUOTE :: u8 where "QUOTE \<equiv> 34"
abbreviation BACKSLASH :: u8 where "BACKSLASH \<equiv> 92"

section \<open>UTF-16 literals\<close>

definition hex_value :: "u8 \<Rightarrow> u32 option" where
  "hex_value c =
     (if 48 \<le> c \<and> c \<le> 57 then Some (ucast c - 48)
      else if 65 \<le> c \<and> c \<le> 70 then Some (10 + ucast c - 65)
      else if 97 \<le> c \<and> c \<le> 102 then Some (10 + ucast c - 97)
      else None)"

text \<open>The loop over the four digits, with the number of digits still to come.\<close>

fun hex4_loop :: "u32 \<Rightarrow> u8 list \<Rightarrow> u32" where
  "hex4_loop h [] = h"
| "hex4_loop h (c # cs) =
     (case hex_value c of
        None \<Rightarrow> 0
      | Some d \<Rightarrow> hex4_loop (if cs \<noteq> [] then push_bit 4 (h + d) else h + d) cs)"

definition parse_hex4 :: "u8 list \<Rightarrow> u32" where
  "parse_hex4 input = hex4_loop 0 (take 4 input)"

text \<open>The loop that stores the continuation bytes from the last one on; it yields them and the rest of the code point.\<close>

fun utf8_loop :: "nat \<Rightarrow> u64 \<Rightarrow> u8 list \<Rightarrow> u8 list \<times> u64" where
  "utf8_loop 0 codepoint acc = (acc, codepoint)"
| "utf8_loop (Suc n) codepoint acc =
     utf8_loop n (drop_bit 6 codepoint) (ucast ((codepoint OR 0x80) AND 0xBF) # acc)"

definition utf8_encode :: "u64 \<Rightarrow> u8 list option" where
  "utf8_encode codepoint =
     (let lm = (if codepoint < 0x80 then Some (1, 0)
                else if codepoint < 0x800 then Some (2, 0xC0)
                else if codepoint < 0x10000 then Some (3, 0xE0)
                else if codepoint \<le> 0x10FFFF then Some (4, 0xF0)
                else None)
      in case lm of
           None \<Rightarrow> None
         | Some (utf8_length, first_byte_mark) \<Rightarrow>
             (let (bs, cp) = utf8_loop (utf8_length - 1) codepoint []
              in Some ((if utf8_length > 1 then ucast ((cp OR first_byte_mark) AND 0xFF) else ucast (cp AND 0x7F)) # bs)))"

text \<open>
  The literal at index \<open>p\<close> of the content, before the index \<open>e\<close> of the closing quote: the number of bytes
  it takes and the bytes stored, or a failure (the length 0 of the code).
\<close>

definition utf16_literal_to_utf8 :: "u8 list \<Rightarrow> nat \<Rightarrow> nat \<Rightarrow> (nat \<times> u8 list) option" where
  "utf16_literal_to_utf8 cs p e =
     (if e - p < 6 then None
      else (let first_code = parse_hex4 (drop (p + 2) cs)
            in if 0xDC00 \<le> first_code \<and> first_code \<le> 0xDFFF then None
               else if 0xD800 \<le> first_code \<and> first_code \<le> 0xDBFF
               then (if e - (p + 6) < 6 then None
                     else if cs ! (p + 6) \<noteq> BACKSLASH \<or> cs ! (p + 7) \<noteq> 117 then None
                     else (let second_code = parse_hex4 (drop (p + 8) cs)
                           in if second_code < 0xDC00 \<or> second_code > 0xDFFF then None
                              else map_option (\<lambda>bs. (12, bs))
                                     (utf8_encode (0x10000 +
                                        ucast (push_bit 10 (first_code AND 0x3FF) OR (second_code AND 0x3FF))))))
               else map_option (\<lambda>bs. (6, bs)) (utf8_encode (ucast first_code))))"

section \<open>Parsing a literal\<close>

text \<open>
  The buffer, with the number of allocations asked for so far, which picks the answer of the allocator,
  and the number of blocks that are allocated and not freed.
\<close>

record parse_buffer =
  content :: "u8 list"
  offset :: nat
  depth :: nat
  allocs :: nat
  live :: int

definition allocate :: "(nat \<Rightarrow> bool) \<Rightarrow> parse_buffer \<Rightarrow> bool \<times> parse_buffer" where
  "allocate al b = (al (allocs b), b\<lparr>allocs := allocs b + 1, live := live b + of_bool (al (allocs b))\<rparr>)"

definition deallocate :: "nat \<Rightarrow> parse_buffer \<Rightarrow> parse_buffer" where
  "deallocate n b = b\<lparr>live := live b - int n\<rparr>"

text \<open>
  The first loop of \<^verbatim>\<open>parse_string\<close>: the index where it stops and the number of escapes, unless a backslash
  is the last byte.
\<close>

function scan_string :: "u8 list \<Rightarrow> nat \<Rightarrow> nat \<Rightarrow> (nat \<times> nat) option" where
  "scan_string cs i skipped_bytes =
     (if i < length cs \<and> cs ! i \<noteq> QUOTE
      then (if cs ! i = BACKSLASH
            then (if i + 1 \<ge> length cs then None else scan_string cs (i + 2) (skipped_bytes + 1))
            else scan_string cs (i + 1) skipped_bytes)
      else Some (i, skipped_bytes))"
  by pat_completeness auto
termination by (relation "measure (\<lambda>(cs, i, k). length cs - i)") auto

declare scan_string.simps [simp del]

text \<open>One escape sequence at index \<open>p\<close>: the bytes consumed and the bytes stored.\<close>

definition escape_at :: "u8 list \<Rightarrow> nat \<Rightarrow> nat \<Rightarrow> (nat \<times> u8 list) option" where
  "escape_at cs p e =
     (if e - p < 1 then None
      else (let c = cs ! (p + 1)
            in if c = 98 then Some (2, [8])
               else if c = 102 then Some (2, [12])
               else if c = 110 then Some (2, [10])
               else if c = 114 then Some (2, [13])
               else if c = 116 then Some (2, [9])
               else if c = QUOTE \<or> c = BACKSLASH \<or> c = 47 then Some (2, [c])
               else if c = 117 then utf16_literal_to_utf8 cs p e
               else None))"

text \<open>Stores behind the bytes already in an output block of \<open>cap\<close> bytes.\<close>

definition store :: "nat \<Rightarrow> u8 list \<Rightarrow> u8 list \<Rightarrow> c_fault + u8 list" where
  "store cap out bs = (if length out + length bs \<le> cap then Inr (out @ bs) else Inl OutOfBounds)"

lemma escape_at_length: "escape_at cs p e = Some (n, bs) \<Longrightarrow> n = 2 \<or> n = 6 \<or> n = 12"
  by (auto simp: escape_at_def utf16_literal_to_utf8_def Let_def split: if_splits)

text \<open>The second loop: the index reached, and the bytes stored unless an escape was refused.\<close>

function unescape_loop :: "u8 list \<Rightarrow> nat \<Rightarrow> nat \<Rightarrow> nat \<Rightarrow> u8 list \<Rightarrow> c_fault + (nat \<times> u8 list option)" where
  "unescape_loop cs e cap p out =
     (if p < e
      then (if cs ! p \<noteq> BACKSLASH then bind_fault (store cap out [cs ! p]) (unescape_loop cs e cap (p + 1))
            else (case escape_at cs p e of
                    None \<Rightarrow> Inr (p, None)
                  | Some (n, bs) \<Rightarrow> bind_fault (store cap out bs) (unescape_loop cs e cap (p + n))))
      else Inr (p, Some out))"
  by pat_completeness auto
termination
proof (relation "measure (\<lambda>(cs, e, cap, p, out). e - p)", goal_cases)
  case (3 cs e cap p out x n bs x1)
  then show ?case using escape_at_length [of cs p e n bs] by auto
qed auto

declare unescape_loop.simps [simp del]

text \<open>
  \<^verbatim>\<open>parse_string\<close>: the value of the item, if it succeeds, and the buffer. The first byte is read without
  a check.
\<close>

definition parse_string :: "(nat \<Rightarrow> bool) \<Rightarrow> parse_buffer \<Rightarrow> c_fault + (u8 list option \<times> parse_buffer)" where
  "parse_string al input_buffer =
     (let cs = content input_buffer; off = offset input_buffer;
          fail = (\<lambda>p b. Inr (None, b\<lparr>offset := p\<rparr>))
      in if off \<ge> length cs then Inl OutOfBounds
         else if cs ! off \<noteq> QUOTE then fail (off + 1) input_buffer
         else (case scan_string cs (off + 1) 0 of
                 None \<Rightarrow> fail (off + 1) input_buffer
               | Some (e, skipped_bytes) \<Rightarrow>
                   (if e \<ge> length cs \<or> cs ! e \<noteq> QUOTE then fail (off + 1) input_buffer
                    else (let allocation_length = e - off - skipped_bytes;
                              (ok, b) = allocate al input_buffer
                          in if \<not> ok then fail (off + 1) b
                             else bind_fault (unescape_loop cs e (allocation_length + 1) (off + 1) []) (\<lambda>(p, r).
                                  case r of
                                    None \<Rightarrow> fail p (deallocate 1 b)
                                  | Some out \<Rightarrow>
                                      bind_fault (store (allocation_length + 1) out [0]) (\<lambda>_.
                                      Inr (Some out, b\<lparr>offset := e + 1\<rparr>)))))))"

section \<open>The output buffer\<close>

record printbuffer =
  pb_buffer :: "mem option"
  pb_length :: nat
  pb_offset :: nat
  pb_depth :: nat
  noalloc :: bool
  pb_format :: bool
  pb_reallocate :: bool      \<comment> \<open>whether the hook is set\<close>
  pb_allocs :: nat           \<comment> \<open>the allocations asked for so far\<close>
  pb_live :: int             \<comment> \<open>the blocks allocated and not freed\<close>

text \<open>The check behind every call that returns false or a null pointer when it fails.\<close>

definition if_ok :: "c_fault + (bool \<times> 'p) \<Rightarrow> ('p \<Rightarrow> c_fault + (bool \<times> 'p)) \<Rightarrow> c_fault + (bool \<times> 'p)" where
  "if_ok r f = bind_fault r (\<lambda>(ok, p). if \<not> ok then Inr (False, p) else f p)"

definition INT_MAX_SIZE :: nat where "INT_MAX_SIZE = 2147483647"

text \<open>
  \<^verbatim>\<open>ensure\<close>: whether the pointer returned, \<^verbatim>\<open>buffer + offset\<close>, is not null, and the buffer. \<open>fresh\<close> gives
  what each allocation returns; a reallocation keeps the old bytes, otherwise \<^verbatim>\<open>offset + 1\<close> of them are
  copied, whatever the size of the old block.
\<close>

type_synonym allocator = "nat \<Rightarrow> mem option"

definition ensure :: "allocator \<Rightarrow> nat \<Rightarrow> printbuffer \<Rightarrow> c_fault + (bool \<times> printbuffer)" where
  "ensure fresh needed p =
     (case pb_buffer p of
        None \<Rightarrow> Inr (False, p)
      | Some b \<Rightarrow>
          (if pb_length p > 0 \<and> pb_offset p \<ge> pb_length p then Inr (False, p)
           else if needed > INT_MAX_SIZE then Inr (False, p)
           else (let n = needed + pb_offset p + 1
                 in if n \<le> pb_length p then Inr (True, p)
                    else if noalloc p then Inr (False, p)
                    else if n > INT_MAX_SIZE div 2 \<and> n > INT_MAX_SIZE then Inr (False, p)
                    else (let newsize = (if n > INT_MAX_SIZE div 2 then INT_MAX_SIZE else n * 2);
                              q = p\<lparr>pb_allocs := pb_allocs p + 1\<rparr>
                          in case fresh (pb_allocs p) of
                               None \<Rightarrow> Inr (False, q\<lparr>pb_length := 0, pb_buffer := None, pb_live := pb_live p - 1\<rparr>)
                             | Some m \<Rightarrow>
                                 (if pb_reallocate p
                                  then Inr (True, q\<lparr>pb_length := newsize,
                                         pb_buffer := Some (mem_put m 0 (mem_get b 0 (min (pb_length p) newsize)))\<rparr>)
                                  else if pb_length p < pb_offset p + 1 then Inl OutOfBounds
                                  else Inr (True, q\<lparr>pb_length := newsize,
                                         pb_buffer := Some (mem_put m 0 (mem_get b 0 (pb_offset p + 1)))\<rparr>))))))"

text \<open>A store at an index of the output buffer.\<close>

definition pb_store :: "nat \<Rightarrow> u8 list \<Rightarrow> printbuffer \<Rightarrow> c_fault + printbuffer" where
  "pb_store i bs p =
     (case pb_buffer p of
        None \<Rightarrow> Inl NullDeref
      | Some b \<Rightarrow> if i + length bs \<le> pb_length p then Inr (p\<lparr>pb_buffer := Some (mem_put b i bs)\<rparr>) else Inl OutOfBounds)"

section \<open>Printing a literal\<close>

definition escape_extra :: "u8 \<Rightarrow> nat" where
  "escape_extra c =
     (if c = QUOTE \<or> c = BACKSLASH \<or> c = 8 \<or> c = 12 \<or> c = 10 \<or> c = 13 \<or> c = 9 then 1
      else if c < 32 then 5 else 0)"

text \<open>A digit of \<^verbatim>\<open>%x\<close>, and what replaces one byte of the string.\<close>

definition hex_char :: "u8 \<Rightarrow> u8" where
  "hex_char d = (if d < 10 then 48 + d else 87 + d)"

definition escape_bytes :: "u8 \<Rightarrow> u8 list" where
  "escape_bytes c =
     (if c > 31 \<and> c \<noteq> QUOTE \<and> c \<noteq> BACKSLASH then [c]
      else BACKSLASH #
        (if c = BACKSLASH then [BACKSLASH]
         else if c = QUOTE then [QUOTE]
         else if c = 8 then [98]
         else if c = 12 then [102]
         else if c = 10 then [110]
         else if c = 13 then [114]
         else if c = 9 then [116]
         else [117, 48, 48, hex_char (drop_bit 4 c), hex_char (c AND 15)]))"

text \<open>The terminator that \<^verbatim>\<open>sprintf\<close> stores behind the digits is overwritten by what follows.\<close>

definition escape_stores :: "u8 \<Rightarrow> u8 list" where
  "escape_stores c = escape_bytes c @ (if length (escape_bytes c) = 6 then [0] else [])"

fun escape_loop :: "u8 list \<Rightarrow> nat \<Rightarrow> printbuffer \<Rightarrow> c_fault + printbuffer" where
  "escape_loop [] i p = Inr p"
| "escape_loop (c # cs) i p =
     bind_fault (pb_store i (escape_stores c) p) (escape_loop cs (i + length (escape_bytes c)))"

text \<open>The quotes and the terminator, and between them the string, copied at once when nothing has to be escaped.\<close>

definition print_string_body :: "u8 list \<Rightarrow> nat \<Rightarrow> nat \<Rightarrow> printbuffer \<Rightarrow> c_fault + printbuffer" where
  "print_string_body s escape_characters i p =
     (let output_length = length s + escape_characters
      in bind_fault (pb_store i [QUOTE] p) (\<lambda>p1.
         bind_fault (if escape_characters = 0 then pb_store (i + 1) s p1 else escape_loop s (i + 1) p1) (\<lambda>p2.
         bind_fault (pb_store (i + 1 + output_length) [QUOTE] p2)
                    (pb_store (i + 2 + output_length) [0]))))"

text \<open>The value true of a function that has nothing left to do.\<close>

definition return_true :: "c_fault + 'p \<Rightarrow> c_fault + (bool \<times> 'p)" where
  "return_true r = bind_fault r (\<lambda>p. Inr (True, p))"

text \<open>A C string ends before its first null byte.\<close>

definition c_string :: "u8 list \<Rightarrow> u8 list" where
  "c_string s = takeWhile (\<lambda>c. c \<noteq> 0) s"

text \<open>The input is a block of bytes that is followed by a terminator, or a null pointer.\<close>

definition print_string_ptr :: "allocator \<Rightarrow> u8 list option \<Rightarrow> printbuffer \<Rightarrow> c_fault + (bool \<times> printbuffer)" where
  "print_string_ptr fresh input output_buffer =
     (case input of
        None \<Rightarrow>
          if_ok (ensure fresh 3 output_buffer) (\<lambda>p. return_true (pb_store (pb_offset p) [QUOTE, QUOTE, 0] p))
      | Some block \<Rightarrow>
          (let s = c_string block;
               escape_characters = sum_list (map escape_extra s);
               output_length = length s + escape_characters
           in if_ok (ensure fresh (output_length + 3) output_buffer) (\<lambda>p.
              return_true (print_string_body s escape_characters (pb_offset p) p))))"

section \<open>The parser never leaves its blocks\<close>

text \<open>
  The backslashes the first loop counts: no two of them are neighbours, so any even number of
  consecutive bytes holds at most half as many of them.
\<close>

definition marks_ok :: "u8 list \<Rightarrow> nat \<Rightarrow> nat \<Rightarrow> nat set \<Rightarrow> bool" where
  "marks_ok cs i e M \<longleftrightarrow> M \<subseteq> {i..<e} \<and> (\<forall>m \<in> M. cs ! m = BACKSLASH \<and> Suc m \<notin> M)"

lemma marks_ok_mono: "marks_ok cs (i + 1) e M \<Longrightarrow> marks_ok cs i e M"
proof -
  have "{i + 1..<e} \<subseteq> {i..<e}" by simp
  then show "marks_ok cs (i + 1) e M \<Longrightarrow> marks_ok cs i e M" unfolding marks_ok_def by blast
qed

lemma scan_string_marks:
  "scan_string cs i k = Some (e, k') \<Longrightarrow> i \<le> e \<and> (\<exists>M. marks_ok cs i e M \<and> k' = k + card M)"
proof (induction cs i k rule: scan_string.induct)
  case (1 cs i k)
  show ?case
  proof (cases "i < length cs \<and> cs ! i \<noteq> QUOTE")
    case False
    then have "e = i" "k' = k" using "1.prems" by (auto simp: scan_string.simps [of cs i])
    then show ?thesis by (auto simp: marks_ok_def intro!: exI [of _ "{}"])
  next
    case True
    show ?thesis
    proof (cases "cs ! i = BACKSLASH")
      case esc: True
      then have i1: "\<not> length cs \<le> i + 1" and r: "scan_string cs (i + 2) (k + 1) = Some (e, k')"
        using True "1.prems" by (simp_all add: scan_string.simps [of cs i] split: if_splits)
      from "1.IH"(1) [OF True esc i1 r] obtain M where M: "i + 2 \<le> e" "marks_ok cs (i + 2) e M" "k' = k + 1 + card M" by blast
      have "finite M" "i \<notin> M" "Suc i \<notin> M"
        using M(2) finite_subset [of M "{i + 2..<e}"] by (auto simp: marks_ok_def)
      then show ?thesis using M esc by (intro conjI exI [of _ "insert i M"]) (auto simp: marks_ok_def)
    next
      case False
      then have "scan_string cs (i + 1) k = Some (e, k')" using True "1.prems" by (simp add: scan_string.simps [of cs i])
      from "1.IH"(2) [OF True False this] obtain M where "i + 1 \<le> e" "marks_ok cs (i + 1) e M" "k' = k + card M" by blast
      then show ?thesis using marks_ok_mono by (intro conjI exI [of _ M]) simp_all
    qed
  qed
qed

lemma marks_half:
  assumes "marks_ok cs i e M"
  shows "card (M \<inter> {p..<p + 2 * n}) \<le> n"
proof (induction n)
  case (Suc n)
  have fin: "finite M" using assms finite_subset by (auto simp: marks_ok_def)
  let ?q = "p + 2 * n"
  have "M \<inter> {p..<p + 2 * Suc n} = M \<inter> {p..<?q} \<union> M \<inter> {?q, Suc ?q}" by auto
  moreover have "card (M \<inter> {?q, Suc ?q}) \<le> 1"
  proof (cases "?q \<in> M")
    case True
    then have "M \<inter> {?q, Suc ?q} = {?q}" using assms by (auto simp: marks_ok_def)
    then show ?thesis by simp
  next
    case False
    then have "M \<inter> {?q, Suc ?q} \<subseteq> {Suc ?q}" by auto
    then show ?thesis using card_mono [of "{Suc ?q}"] by fastforce
  qed
  ultimately show ?case using Suc card_Un_le [of "M \<inter> {p..<?q}" "M \<inter> {?q, Suc ?q}"] by simp
qed simp

text \<open>At index \<open>p\<close> at most one byte was stored for every byte read that was not counted.\<close>

definition room_left :: "nat \<Rightarrow> nat \<Rightarrow> nat set \<Rightarrow> nat \<Rightarrow> u8 list \<Rightarrow> bool" where
  "room_left s e M p out \<longleftrightarrow> s \<le> p \<and> p \<le> e + 1 \<and> length out + card (M \<inter> {s..<p}) \<le> p - s"

lemma room_left_cap:
  assumes "marks_ok cs s e M" "s \<le> e" "room_left s e M p out"
  shows "length out + 1 \<le> e - s + 2 - card M"
proof -
  have fin: "finite M" and sub: "M \<subseteq> {s..<e}" using assms(1) finite_subset by (auto simp: marks_ok_def)
  have "M = M \<inter> {s..<p} \<union> M \<inter> {p..<e}" using sub assms(3) by (auto simp: room_left_def)
  then have "card M \<le> card (M \<inter> {s..<p}) + card (M \<inter> {p..<e})" using card_Un_le by metis
  moreover have "card (M \<inter> {p..<e}) \<le> e - p" using card_mono [of "{p..<e}" "M \<inter> {p..<e}"] by simp
  ultimately show ?thesis using assms(2,3) by (auto simp: room_left_def)
qed

lemma room_left_step:
  assumes "marks_ok cs s e M" "room_left s e M p out" "p + 2 * n \<le> e + 1" "length bs \<le> n"
  shows "room_left s e M (p + 2 * n) (out @ bs)"
proof -
  have fin: "finite M" using assms(1) finite_subset by (auto simp: marks_ok_def)
  have "M \<inter> {s..<p + 2 * n} = M \<inter> {s..<p} \<union> M \<inter> {p..<p + 2 * n}"
    using assms(2) by (auto simp: room_left_def)
  then have "card (M \<inter> {s..<p + 2 * n}) \<le> card (M \<inter> {s..<p}) + n"
    using card_Un_le [of "M \<inter> {s..<p}" "M \<inter> {p..<p + 2 * n}"] marks_half [OF assms(1), of p n] by simp
  then show ?thesis using assms(2-4) by (auto simp: room_left_def)
qed

lemma room_left_char:
  assumes "marks_ok cs s e M" "room_left s e M p out" "p < e" "cs ! p \<noteq> BACKSLASH"
  shows "room_left s e M (p + 1) (out @ [c])"
proof -
  have "p \<notin> M" using assms(1,4) by (auto simp: marks_ok_def)
  then have "M \<inter> {s..<p + 1} = M \<inter> {s..<p}" by (auto simp: less_Suc_eq)
  then show ?thesis using assms(2,3) by (auto simp: room_left_def)
qed

section \<open>Escape sequences\<close>

lemma length_utf8_loop: "length (fst (utf8_loop n cp acc)) = n + length acc"
  by (induction n arbitrary: cp acc) simp_all

lemma length_utf8_encode:
  assumes "utf8_encode cp = Some bs"
  shows "length bs \<le> 4" "cp < 0x10000 \<Longrightarrow> length bs \<le> 3"
  using assms length_utf8_loop [of _ cp "[]"]
  by (auto simp: utf8_encode_def Let_def case_prod_beta split: if_splits)

lemma hex_value_bound: "hex_value c = Some d \<Longrightarrow> unat d < 16"
proof -
  assume a: "hex_value c = Some d"
  have u: "unat (ucast c :: u32) = unat c" by (simp add: unsigned_ucast_eq take_bit_nat_eq_self_iff less_trans [OF unsigned_less])
  show "unat d < 16"
    using a u by (auto simp: hex_value_def word_le_nat_alt unat_sub unat_word_ariths split: if_splits)
qed

lemma hex4_loop_bound:
  assumes "cs \<noteq> []" "length cs \<le> 4" "unat h + 16 \<le> 16 ^ (5 - length cs)"
  shows "unat (hex4_loop h cs) < 65536"
  using assms
proof (induction cs arbitrary: h)
  case (Cons c cs)
  show ?case
  proof (cases "hex_value c")
    case (Some d)
    have d: "unat d < 16" by (rule hex_value_bound [OF Some])
    have "(16 :: nat) ^ (4 - length cs) \<le> 16 ^ 4" by (rule power_increasing) simp_all
    then have h: "unat h + 16 \<le> 65536" using Cons.prems(3) by simp
    then have s: "unat (h + d) = unat h + unat d" using d by (intro unat_add_le) simp
    show ?thesis
    proof (cases "cs = []")
      case False
      have n: "4 - length cs = Suc (3 - length cs)" "5 - length cs = Suc (4 - length cs)" using Cons.prems(2) by simp_all
      have "unat (push_bit 4 (h + d)) = 16 * (unat h + unat d)"
        using h d s by (simp add: push_bit_eq_mult unat_word_ariths)
      then have "unat (push_bit 4 (h + d)) + 16 \<le> 16 ^ (5 - length cs)"
        using Cons.prems(3) d by (simp add: n(2))
      then show ?thesis using Cons.IH [OF False] Cons.prems(2) False Some by simp
    qed (use h d s Some in simp)
  qed simp
qed simp

lemma parse_hex4_bound: "parse_hex4 input < 0x10000"
proof (cases "take 4 input = []")
  case False
  then have "16 + (0::nat) \<le> 16 ^ (5 - length (take 4 input))"
    using power_increasing [of 1 "5 - length (take 4 input)" "16 :: nat"] by simp
  then have "unat (parse_hex4 input) < 65536"
    unfolding parse_hex4_def using False by (intro hex4_loop_bound) simp_all
  then show ?thesis by (simp add: word_less_nat_alt)
qed (simp add: parse_hex4_def)

lemma utf16_stores:
  assumes "utf16_literal_to_utf8 cs p e = Some (n, bs)"
  shows "(n = 6 \<and> p + 6 \<le> e \<and> length bs \<le> 3) \<or> (n = 12 \<and> p + 12 \<le> e \<and> length bs \<le> 4)"
proof -
  let ?f = "parse_hex4 (drop (p + 2) cs)"
  have "unat ?f < 65536" using parse_hex4_bound [of "drop (p + 2) cs"] by (simp add: word_less_nat_alt)
  then have "(ucast ?f :: u64) < 0x10000"
    by (simp add: word_less_nat_alt unsigned_ucast_eq) (erule le_less_trans [OF take_bit_nat_less_eq_self])
  then show ?thesis
    using assms length_utf8_encode [of "ucast ?f" bs] length_utf8_encode(1)
    by (auto simp: utf16_literal_to_utf8_def Let_def split: if_splits)
qed

lemma escape_at_stores:
  assumes "escape_at cs p e = Some (n, bs)" "p < e"
  obtains k where "n = 2 * k" "p + 2 * k \<le> e + 1" "length bs \<le> k" "0 < k"
proof (cases "cs ! (p + 1) = 117")
  case True
  then have "utf16_literal_to_utf8 cs p e = Some (n, bs)" using assms by (simp add: escape_at_def Let_def)
  from utf16_stores [OF this] show thesis using that [of 3] that [of 6] by auto
next
  case False
  then show thesis using assms by (intro that [of 1]) (auto simp: escape_at_def Let_def split: if_splits)
qed

lemma unescape_loop_safe:
  assumes "marks_ok cs s e M" "s \<le> e" "cap = e - s + 2 - card M" "room_left s e M p out"
  shows "\<exists>q r. unescape_loop cs e cap p out = Inr (q, r) \<and>
    (\<forall>out'. r = Some out' \<longrightarrow> length out' + 1 \<le> cap)"
  using assms(4)
proof (induction "e - p" arbitrary: p out rule: less_induct)
  case less
  have fits: "store cap out bs = Inr (out @ bs)" if "room_left s e M q (out @ bs)" for q bs
    using room_left_cap [OF assms(1,2) that] assms(3) by (simp add: store_def)
  show ?case
  proof (cases "p < e")
    case False
    then show ?thesis using room_left_cap [OF assms(1,2) less.prems] assms(3) by (simp add: unescape_loop.simps [of cs e])
  next
    case True
    show ?thesis
    proof (cases "cs ! p = BACKSLASH")
      case False
      have r: "room_left s e M (p + 1) (out @ [cs ! p])" by (rule room_left_char [OF assms(1) less.prems True False])
      show ?thesis using less.hyps [OF _ r] True False fits [OF r] by (simp add: unescape_loop.simps [of cs e cap p])
    next
      case esc: True
      show ?thesis
      proof (cases "escape_at cs p e")
        case None
        then show ?thesis using True esc by (simp add: unescape_loop.simps [of cs e])
      next
        case (Some nb)
        then obtain n bs where nb: "escape_at cs p e = Some (n, bs)" by (cases nb) auto
        obtain k where k: "n = 2 * k" "p + 2 * k \<le> e + 1" "length bs \<le> k" "0 < k" by (rule escape_at_stores [OF nb True])
        have r: "room_left s e M (p + n) (out @ bs)"
          unfolding k(1) by (rule room_left_step [OF assms(1) less.prems k(2,3)])
        show ?thesis using less.hyps [OF _ r] True esc nb fits [OF r] k(1,4) by (simp add: unescape_loop.simps [of cs e cap p])
      qed
    qed
  qed
qed

lemma parse_string_returns:
  assumes "offset b < length (content b)"
  shows "\<exists>r b'. parse_string al b = Inr (r, b') \<and> content b' = content b \<and> depth b' = depth b \<and>
    live b' = live b + of_bool (r \<noteq> None) \<and>
    (r \<noteq> None \<longrightarrow> content b ! offset b = QUOTE \<and> offset b + 2 \<le> offset b' \<and> offset b' \<le> length (content b))"
proof -
  let ?cs = "content b" and ?s = "offset b + 1"
  show ?thesis
  proof (cases "?cs ! offset b = QUOTE")
    case False
    then show ?thesis using assms by (simp add: parse_string_def Let_def)
  next
    case True
    show ?thesis
    proof (cases "scan_string ?cs ?s 0")
      case None
      then show ?thesis using True assms by (simp add: parse_string_def Let_def)
    next
      case (Some ek)
      then obtain e k where ek: "scan_string ?cs ?s 0 = Some (e, k)" by (cases ek) auto
      obtain M where M: "?s \<le> e" "marks_ok ?cs ?s e M" "k = card M" using scan_string_marks [OF ek] by auto
      have "card M \<le> e - ?s" using M(2) card_mono [of "{?s..<e}" M] by (simp add: marks_ok_def)
      then have cap: "e - offset b - k + 1 = e - ?s + 2 - card M" using M by auto
      have "room_left ?s e M ?s []" using M(1) by (simp add: room_left_def)
      from unescape_loop_safe [OF M(2,1) refl this] obtain q r where
        u: "unescape_loop ?cs e (e - ?s + 2 - card M) ?s [] = Inr (q, r)"
        "\<forall>out'. r = Some out' \<longrightarrow> length out' + 1 \<le> e - ?s + 2 - card M" by blast
      then show ?thesis using True assms ek cap M(1)
        by (cases r) (auto simp: parse_string_def allocate_def deallocate_def Let_def store_def)
    qed
  qed
qed

text \<open>
  \<^verbatim>\<open>parse_string\<close> on any bytes returns and never reads or writes outside its blocks: the output block,
  whose size is computed from the number of escape sequences before they are decoded, is large enough
  for what they decode to and the terminator, also for malformed input on which the two loops disagree
  about where an escape sequence starts. A failure leaves no block behind.
\<close>

theorem parse_string_safe:
  assumes "offset b < length (content b)"
  shows "\<exists>r b'. parse_string al b = Inr (r, b') \<and> content b' = content b \<and> live b' = live b + of_bool (r \<noteq> None) \<and>
    (r \<noteq> None \<longrightarrow> offset b < offset b' \<and> offset b' \<le> length (content b))"
proof -
  obtain r b' where "parse_string al b = Inr (r, b')" "content b' = content b" "live b' = live b + of_bool (r \<noteq> None)"
    "r \<noteq> None \<longrightarrow> offset b + 2 \<le> offset b' \<and> offset b' \<le> length (content b)"
    using parse_string_returns [OF assms, of al] by blast
  then show ?thesis by (intro exI [of _ r] exI [of _ b']) auto
qed

text \<open>A buffer at the start of a text, and a literal in which the decoder takes the second backslash of a pair for the start of an escape.\<close>

definition buffer_of :: "u8 list \<Rightarrow> parse_buffer" where
  "buffer_of cs = \<lparr>content = cs, offset = 0, depth = 0, allocs = 0, live = 0\<rparr>"

definition demo_literal :: parse_buffer where
  "demo_literal = buffer_of [34, 92, 117, 92, 34, 48, 92, 92, 34]"

theorem parse_string_safe_witness:
  "\<exists>r b'. parse_string (\<lambda>_. True) demo_literal = Inr (r, b') \<and> content b' = content demo_literal"
  using parse_string_safe [of demo_literal "\<lambda>_. True"] by (auto simp: demo_literal_def buffer_of_def)

text \<open>Four digits that are no digits are taken for the code 0, which puts a terminator into the string.\<close>

lemma parse_string_bad_digits:
  "parse_string (\<lambda>_. True) (buffer_of [34, 92, 117, 90, 90, 90, 90, 65, 34]) =
     Inr (Some [0, 65], (buffer_of [34, 92, 117, 90, 90, 90, 90, 65, 34])\<lparr>offset := 9, allocs := 1, live := 1\<rparr>)"
  by code_simp

section \<open>What is printed is parsed\<close>

lemma byte_in_upt:
  assumes "unat (c :: u8) < n"
  shows "c \<in> set (map of_nat [0..<n])"
proof -
  have "c = of_nat (unat c)" by simp
  then show ?thesis using assms by (metis atLeastLessThan_iff image_eqI le0 list.set_map set_upt)
qed

text \<open>The escape that stands for a control character without one of its own.\<close>

lemma control_escape:
  assumes "c < 32"
  shows "utf8_encode (ucast (hex4_loop 0 [48, 48, hex_char (drop_bit 4 c), hex_char (c AND 15)])) = Some [c] \<and>
    hex4_loop 0 [48, 48, hex_char (drop_bit 4 c), hex_char (c AND 15)] < 0xD800 \<and>
    hex_char (drop_bit 4 c) \<noteq> QUOTE \<and> hex_char (drop_bit 4 c) \<noteq> BACKSLASH \<and>
    hex_char (c AND 15) \<noteq> QUOTE \<and> hex_char (c AND 15) \<noteq> BACKSLASH \<and>
    hex_char (drop_bit 4 c) \<noteq> 0 \<and> hex_char (c AND 15) \<noteq> 0"
proof -
  have "\<forall>c \<in> set (map of_nat [0..<32]).
      utf8_encode (ucast (hex4_loop 0 [48, 48, hex_char (drop_bit 4 c), hex_char (c AND 15)])) = Some [c] \<and>
      hex4_loop 0 [48, 48, hex_char (drop_bit 4 c), hex_char (c AND 15)] < 0xD800 \<and>
      hex_char (drop_bit 4 c) \<noteq> QUOTE \<and> hex_char (drop_bit 4 c) \<noteq> BACKSLASH \<and>
      hex_char (c AND 15) \<noteq> QUOTE \<and> hex_char (c AND 15) \<noteq> BACKSLASH \<and>
    hex_char (drop_bit 4 c) \<noteq> 0 \<and> hex_char (c AND 15) \<noteq> 0"
    by code_simp
  moreover have "unat c < 32" using assms by (simp add: word_less_nat_alt)
  ultimately show ?thesis using byte_in_upt [of c 32] by blast
qed

lemma drop_ConsD: "drop p cs = x # xs \<Longrightarrow> p < length cs \<and> cs ! p = x \<and> drop (Suc p) cs = xs"
  by (metis drop_Suc drop_eq_Nil2 leI list.distinct(1) list.sel(3) nth_via_drop tl_drop)

lemma escape_bytes_cases:
  obtains (plain) "escape_bytes c = [c]" "c \<noteq> QUOTE" "c \<noteq> BACKSLASH" "escape_extra c = 0"
  | (short) x where "escape_bytes c = [BACKSLASH, x]" "escape_extra c = 1" "x \<noteq> 117"
      "\<And>cs p e. p < e \<Longrightarrow> cs ! Suc p = x \<Longrightarrow> escape_at cs p e = Some (2, [c])"
  | (control) "c < 32" "escape_bytes c = [BACKSLASH, 117, 48, 48, hex_char (drop_bit 4 c), hex_char (c AND 15)]"
      "escape_extra c = 5"
proof -
  consider "c > 31 \<and> c \<noteq> QUOTE \<and> c \<noteq> BACKSLASH" | "c \<in> {92, 34, 8, 12, 10, 13, 9}"
    | "c < 32 \<and> c \<notin> {92, 34, 8, 12, 10, 13, 9}" by (cases "c < 32") (auto simp: word_less_nat_alt)
  then show thesis
  proof cases
    case 1
    then have "\<not> c < 32" "c \<noteq> 8" "c \<noteq> 12" "c \<noteq> 10" "c \<noteq> 13" "c \<noteq> 9" by (auto simp: word_less_nat_alt)
    then show thesis using 1 by (intro plain) (auto simp: escape_bytes_def escape_extra_def)
  next
    case 2
    then show thesis
      by (intro short [of "hd (tl (escape_bytes c))"]) (auto simp: escape_bytes_def escape_extra_def escape_at_def Let_def)
  next
    case 3
    then have "\<not> c > 31" by (auto simp: word_less_nat_alt)
    then show thesis using 3 by (intro control) (auto simp: escape_bytes_def escape_extra_def)
  qed
qed

definition escaped :: "u8 list \<Rightarrow> u8 list" where
  "escaped s = concat (map escape_bytes s)"

definition escapes :: "u8 list \<Rightarrow> nat" where
  "escapes s = length (filter (\<lambda>c. escape_extra c \<noteq> 0) s)"

lemma escaped_simps [simp]: "escaped [] = []" "escaped (c # s) = escape_bytes c @ escaped s"
  by (simp_all add: escaped_def)

lemma escapes_simps [simp]: "escapes [] = 0" "escapes (c # s) = of_bool (escape_extra c \<noteq> 0) + escapes s"
  by (simp_all add: escapes_def)

lemma length_escape_bytes: "length (escape_bytes c) = 1 + escape_extra c"
  by (rule escape_bytes_cases [of c]) simp_all

lemma length_escaped: "length (escaped s) = length s + sum_list (map escape_extra s)"
  by (induction s) (simp_all add: length_escape_bytes)

lemma escapes_le: "length s + escapes s \<le> length (escaped s)"
  by (induction s) (auto simp: length_escape_bytes)

lemma scan_plain: "drop p cs = x # r \<Longrightarrow> x \<noteq> QUOTE \<Longrightarrow> x \<noteq> BACKSLASH \<Longrightarrow> scan_string cs p k = scan_string cs (Suc p) k"
  using drop_ConsD [of p cs x r] by (subst scan_string.simps) simp

lemma scan_pair:
  "drop p cs = BACKSLASH # x # r \<Longrightarrow> scan_string cs p k = scan_string cs (Suc (Suc p)) (Suc k)"
  using drop_ConsD [of p cs BACKSLASH "x # r"] drop_ConsD [of "Suc p" cs x r] by (subst scan_string.simps) simp

lemma drop_more: "drop p cs = x # r \<Longrightarrow> drop (Suc p) cs = r"
  using drop_ConsD [of p cs x r] by simp

lemma scan_escape:
  assumes "drop p cs = escape_bytes c @ r"
  shows "scan_string cs p k = scan_string cs (p + length (escape_bytes c)) (k + of_bool (escape_extra c \<noteq> 0))"
proof (cases c rule: escape_bytes_cases)
  case plain
  then show ?thesis using assms scan_plain [of p cs c r] by simp
next
  case (short x)
  then show ?thesis using assms scan_pair [of p cs x r] by simp
next
  case control
  note n = control_escape [OF control(1)]
  let ?x = "hex_char (drop_bit 4 c)" and ?y = "hex_char (c AND 15)"
  have d0: "drop p cs = BACKSLASH # 117 # 48 # 48 # ?x # ?y # r" using assms control(2) by simp
  note d2 = drop_more [OF drop_more [OF d0]]
  note d3 = drop_more [OF d2] note d4 = drop_more [OF d3] note d5 = drop_more [OF d4]
  have "scan_string cs p k = scan_string cs (Suc (Suc (Suc (Suc (Suc (Suc p)))))) (Suc k)"
    unfolding scan_pair [OF d0] using scan_plain [OF d2] scan_plain [OF d3] scan_plain [OF d4] scan_plain [OF d5] n by simp
  then show ?thesis using control(2,3) by (simp add: eval_nat_numeral)
qed

lemma scan_escaped:
  assumes "drop p cs = escaped s @ QUOTE # r"
  shows "scan_string cs p k = Some (p + length (escaped s), k + escapes s)"
  using assms
proof (induction s arbitrary: p k)
  case Nil
  then show ?case using drop_ConsD [of p cs QUOTE r] by (subst scan_string.simps) simp
next
  case (Cons c s)
  then have d: "drop p cs = escape_bytes c @ escaped s @ QUOTE # r" by simp
  then have "drop (p + length (escape_bytes c)) cs = escaped s @ QUOTE # r"
    by (metis add.commute append_eq_conv_conj drop_drop)
  from Cons.IH [OF this] scan_escape [OF d] show ?case by (simp add: add.assoc)
qed

lemma unescape_step:
  assumes "drop p cs = escape_bytes c @ r" "p + length (escape_bytes c) \<le> e" "length out < cap"
  shows "unescape_loop cs e cap p out = unescape_loop cs e cap (p + length (escape_bytes c)) (out @ [c])"
proof (cases c rule: escape_bytes_cases)
  case plain
  then show ?thesis using assms drop_ConsD [of p cs c r] by (subst unescape_loop.simps) (simp add: store_def)
next
  case (short x)
  have d: "drop p cs = BACKSLASH # x # r" using assms(1) short(1) by simp
  have "cs ! p = BACKSLASH" "cs ! Suc p = x" using drop_ConsD [OF d] drop_ConsD [OF drop_more [OF d]] by simp_all
  then show ?thesis using assms(2,3) short(1) short(4) [of p e cs]
    by (subst unescape_loop.simps) (simp add: store_def)
next
  case control
  note n = control_escape [OF control(1)]
  let ?x = "hex_char (drop_bit 4 c)" and ?y = "hex_char (c AND 15)"
  have d: "drop p cs = BACKSLASH # 117 # [48, 48, ?x, ?y] @ r" using assms(1) control(2) by simp
  have c: "cs ! p = BACKSLASH" "cs ! Suc p = 117" "drop (Suc (Suc p)) cs = [48, 48, ?x, ?y] @ r"
    using drop_ConsD [OF d] drop_ConsD [OF drop_more [OF d]] by simp_all
  have h: "parse_hex4 (drop (p + 2) cs) = hex4_loop 0 [48, 48, ?x, ?y]" using c(3) by (simp add: parse_hex4_def)
  have e: "p + 6 \<le> e" using assms(2) control(2) by simp
  have "\<not> 0xDC00 \<le> hex4_loop 0 [48, 48, ?x, ?y]" "\<not> 0xD800 \<le> hex4_loop 0 [48, 48, ?x, ?y]"
    using n by (auto simp: word_less_nat_alt word_le_nat_alt)
  then have "utf16_literal_to_utf8 cs p e = Some (6, [c])"
    unfolding utf16_literal_to_utf8_def Let_def h using e n by simp
  then have "escape_at cs p e = Some (6, [c])" using e c(2) by (simp add: escape_at_def Let_def)
  moreover have "length (escape_bytes c) = 6" using control(2) by simp
  ultimately show ?thesis using e c(1) assms(3) by (subst unescape_loop.simps) (simp add: store_def)
qed

lemma unescape_escaped:
  assumes "drop p cs = escaped s @ r" "e = p + length (escaped s)" "length out + length s \<le> cap"
  shows "unescape_loop cs e cap p out = Inr (e, Some (out @ s))"
  using assms
proof (induction s arbitrary: p out)
  case Nil
  then show ?case by (subst unescape_loop.simps) simp
next
  case (Cons c s)
  then have d: "drop p cs = escape_bytes c @ escaped s @ r" by simp
  then have "drop (p + length (escape_bytes c)) cs = escaped s @ r"
    by (metis add.commute append_eq_conv_conj drop_drop)
  from Cons.IH [OF this, of "out @ [c]"] Cons.prems unescape_step [OF d, of e out cap] show ?case by simp
qed

lemma parse_escaped:
  assumes "content b = pre @ QUOTE # escaped s @ QUOTE # rest" "offset b = length pre" "al (allocs b)"
  shows "parse_string al b =
     Inr (Some s, b\<lparr>offset := length pre + length (escaped s) + 2, allocs := allocs b + 1, live := live b + 1\<rparr>)"
proof -
  let ?cs = "pre @ QUOTE # escaped s @ QUOTE # rest" and ?p = "length pre + 1"
  let ?e = "?p + length (escaped s)"
  have d: "drop ?p ?cs = escaped s @ QUOTE # rest" by simp
  have q: "?cs ! ?e = QUOTE" "?e < length ?cs" by (simp_all add: nth_append)
  have cap: "length s + 1 \<le> ?e - length pre - escapes s + 1" using escapes_le [of s] by simp
  have u: "unescape_loop ?cs ?e (?e - length pre - escapes s + 1) ?p [] = Inr (?e, Some s)"
    using unescape_escaped [OF d refl, of "[]"] cap by simp
  show ?thesis using scan_escaped [OF d, of 0] u q cap assms
    by (simp add: parse_string_def allocate_def Let_def store_def)
qed

section \<open>Printing stays in its buffer\<close>

text \<open>
  What a printing function keeps of the output buffer, what a failure has done with its block, and when
  there is room for \<open>t\<close> bytes in all.
\<close>

definition framed :: "printbuffer \<Rightarrow> printbuffer \<Rightarrow> bool" where
  "framed p p' \<longleftrightarrow> pb_buffer p \<noteq> None \<and> pb_buffer p' \<noteq> None \<and> pb_length p \<le> pb_length p' \<and> noalloc p' = noalloc p \<and>
     pb_format p' = pb_format p \<and> pb_reallocate p' = pb_reallocate p \<and> pb_live p' = pb_live p"

definition lost :: "printbuffer \<Rightarrow> printbuffer \<Rightarrow> bool" where
  "lost p p' \<longleftrightarrow> pb_live p' = pb_live p - of_bool (pb_buffer p' = None)"

definition roomy :: "allocator \<Rightarrow> printbuffer \<Rightarrow> nat \<Rightarrow> bool" where
  "roomy fresh p t \<longleftrightarrow> t \<le> INT_MAX_SIZE \<and> (t \<le> pb_length p \<or> \<not> noalloc p \<and> (\<forall>n. fresh n \<noteq> None))"

text \<open>A buffer that holds \<open>bs\<close> at an index and agrees with another one before it.\<close>

definition holds :: "printbuffer \<Rightarrow> nat \<Rightarrow> u8 list \<Rightarrow> printbuffer \<Rightarrow> bool" where
  "holds p i bs p' \<longleftrightarrow> framed p p' \<and> i + length bs \<le> pb_length p' \<and>
     (\<exists>b b'. pb_buffer p = Some b \<and> pb_buffer p' = Some b' \<and> mem_get b' 0 i = mem_get b 0 i \<and> mem_get b' i (length bs) = bs)"

text \<open>A call that prints: it returns, needs no more than \<open>t\<close> bytes in all, and ends in \<open>Q\<close> when it succeeds.\<close>

definition prints :: "allocator \<Rightarrow> nat \<Rightarrow> printbuffer \<Rightarrow> c_fault + (bool \<times> printbuffer) \<Rightarrow> (printbuffer \<Rightarrow> bool) \<Rightarrow> bool" where
  "prints fresh t p r Q \<longleftrightarrow>
     (\<exists>ok p'. r = Inr (ok, p') \<and> (ok \<longrightarrow> framed p p' \<and> Q p') \<and> (\<not> ok \<longrightarrow> lost p p') \<and> (roomy fresh p t \<longrightarrow> ok))"

lemma framed_trans: "framed p p1 \<Longrightarrow> framed p1 p2 \<Longrightarrow> framed p p2"
  by (auto simp: framed_def)

lemma roomy_framed: "roomy fresh p t \<Longrightarrow> framed p p' \<Longrightarrow> roomy fresh p' t"
  by (auto simp: roomy_def framed_def)

lemma roomy_le: "roomy fresh p t \<Longrightarrow> t' \<le> t \<Longrightarrow> roomy fresh p t'"
  by (auto simp: roomy_def)

lemma prints_bind:
  assumes "prints fresh t p r Q" "\<And>p'. framed p p' \<Longrightarrow> Q p' \<Longrightarrow> prints fresh t' p' (f p') R" "t \<le> u" "t' \<le> u"
  shows "prints fresh u p (if_ok r f) R"
proof -
  obtain ok p1 where p1: "r = Inr (ok, p1)" "ok \<longrightarrow> framed p p1 \<and> Q p1" "\<not> ok \<longrightarrow> lost p p1" "roomy fresh p t \<longrightarrow> ok"
    using assms(1) by (auto simp: prints_def)
  show ?thesis
  proof (cases ok)
    case False
    then show ?thesis using p1 assms(3) by (auto simp: prints_def if_ok_def intro: roomy_le)
  next
    case True
    then have f: "framed p p1" "Q p1" using p1(2) by blast+
    have "pb_live p1 = pb_live p" using f(1) by (simp add: framed_def)
    then have l: "lost p1 p2 \<longleftrightarrow> lost p p2" for p2 by (simp add: lost_def)
    obtain ok' p2 where "f p1 = Inr (ok', p2)" "ok' \<longrightarrow> framed p1 p2 \<and> R p2" "\<not> ok' \<longrightarrow> lost p1 p2" "roomy fresh p1 t' \<longrightarrow> ok'"
      using assms(2) [OF f] by (auto simp: prints_def)
    then show ?thesis unfolding prints_def using True p1(1) framed_trans [OF f(1)] roomy_framed [OF _ f(1)] roomy_le [OF _ assms(4)] l
      by (intro exI [of _ ok'] exI [of _ p2]) (auto simp: if_ok_def)
  qed
qed

lemma prints_return: "framed p p' \<Longrightarrow> Q p' \<Longrightarrow> prints fresh t p (Inr (True, p')) Q"
  unfolding prints_def by blast

lemma mem_get_prefix: "mem_get m 0 n = mem_get m' 0 n \<Longrightarrow> k \<le> n \<Longrightarrow> mem_get m 0 k = mem_get m' 0 k"
  by (metis min.absorb1 take_mem_get)

lemma mem_get_inner: "mem_get m 0 n = mem_get m' 0 n \<Longrightarrow> i + k \<le> n \<Longrightarrow> mem_get m i k = mem_get m' i k"
  using drop_mem_get [of i m 0 "i + k"] drop_mem_get [of i m' 0 "i + k"] mem_get_prefix [of m n m' "i + k"] by simp

lemma holds_append:
  assumes "holds p i bs p1" "holds p1 (i + length bs) cs p2"
  shows "holds p i (bs @ cs) p2"
proof -
  obtain b b1 b2 where k: "pb_buffer p = Some b" "pb_buffer p1 = Some b1" "pb_buffer p2 = Some b2"
    "mem_get b1 0 i = mem_get b 0 i" "mem_get b1 i (length bs) = bs"
    "mem_get b2 0 (i + length bs) = mem_get b1 0 (i + length bs)" "mem_get b2 (i + length bs) (length cs) = cs"
    using assms by (auto simp: holds_def)
  have "mem_get b2 0 i = mem_get b 0 i" using mem_get_prefix [OF k(6), of i] k(4) by simp
  moreover have "mem_get b2 i (length bs) = bs" using mem_get_inner [OF k(6), of i "length bs"] k(5) by simp
  moreover have "framed p p2" using assms framed_trans by (auto simp: holds_def)
  ultimately show ?thesis using k assms by (auto simp: holds_def mem_get_add)
qed

lemma holds_take: "holds p i (bs @ cs) p' \<Longrightarrow> holds p i bs p'"
  by (auto simp: holds_def mem_get_add)

lemma holds_bounds: "holds p i bs p' \<Longrightarrow> pb_buffer p' \<noteq> None \<and> i + length bs \<le> pb_length p' \<and> pb_length p \<le> pb_length p'"
  by (simp add: holds_def framed_def)

text \<open>Code that puts \<open>bs\<close> at an index and leaves the offset and the depth alone.\<close>

definition puts :: "printbuffer \<Rightarrow> nat \<Rightarrow> u8 list \<Rightarrow> c_fault + printbuffer \<Rightarrow> bool" where
  "puts p i bs r \<longleftrightarrow> (\<exists>p'. r = Inr p' \<and> holds p i bs p' \<and> pb_offset p' = pb_offset p \<and> pb_depth p' = pb_depth p)"

lemma puts_store: "pb_buffer p \<noteq> None \<Longrightarrow> i + length bs \<le> pb_length p \<Longrightarrow> puts p i bs (pb_store i bs p)"
  by (auto simp: puts_def pb_store_def holds_def framed_def)

lemma puts_bind:
  assumes "puts p i bs r" "\<And>p'. pb_buffer p' \<noteq> None \<Longrightarrow> pb_length p \<le> pb_length p' \<Longrightarrow> puts p' (i + length bs) cs (f p')"
  shows "puts p i (bs @ cs) (bind_fault r f)"
proof -
  obtain p1 where p1: "r = Inr p1" "holds p i bs p1" "pb_offset p1 = pb_offset p" "pb_depth p1 = pb_depth p"
    using assms(1) by (auto simp: puts_def)
  then show ?thesis using assms(2) [of p1] holds_bounds [OF p1(2)] holds_append [OF p1(2)] by (auto simp: puts_def)
qed

lemma puts_take: "puts p i (bs @ cs) r \<Longrightarrow> puts p i bs r"
  by (auto simp: puts_def intro: holds_take)

lemma escape_loop_puts:
  assumes "pb_buffer p \<noteq> None" "i + length (escaped s) + 1 \<le> pb_length p"
  shows "puts p i (escaped s) (escape_loop s i p)"
  using assms
proof (induction s arbitrary: i p)
  case Nil
  then show ?case by (auto simp: puts_def holds_def framed_def)
next
  case (Cons c s)
  have "length (escape_stores c) \<le> length (escape_bytes c) + 1" by (simp add: escape_stores_def)
  then have "puts p i (escape_stores c) (pb_store i (escape_stores c) p)" using Cons.prems by (intro puts_store) auto
  then have "puts p i (escape_bytes c) (pb_store i (escape_stores c) p)"
    by (metis escape_stores_def puts_take)
  from puts_bind [OF this] Cons.IH Cons.prems(2) show ?case by simp
qed

lemma escaped_plain: "sum_list (map escape_extra s) = 0 \<Longrightarrow> escaped s = s"
proof (induction s)
  case (Cons c s)
  then show ?case by (cases c rule: escape_bytes_cases) simp_all
qed simp

text \<open>The buffer in use: a block with its offset inside it.\<close>

definition pb_ok :: "printbuffer \<Rightarrow> bool" where
  "pb_ok p \<longleftrightarrow> pb_buffer p \<noteq> None \<and> pb_offset p < pb_length p"

lemma ensure_prints:
  assumes "pb_ok p" "t = pb_offset p + needed + 1"
  shows "prints fresh t p (ensure fresh needed p)
    (\<lambda>p'. holds p (pb_offset p) [] p' \<and> t \<le> pb_length p' \<and> pb_offset p' = pb_offset p \<and> pb_depth p' = pb_depth p)"
proof -
  have cp: "mem_get (mem_put m 0 (mem_get b 0 n)) 0 k = mem_get b 0 k" if "k \<le> n" for m b n k
    using that by (auto intro!: nth_equalityI simp: mem_put_def)
  obtain b where b: "pb_buffer p = Some b" "pb_offset p < pb_length p" using assms by (auto simp: pb_ok_def)
  show ?thesis
  proof (cases "fresh (pb_allocs p)")
    case None
    then show ?thesis using b assms(2)
      by (auto simp: prints_def ensure_def Let_def INT_MAX_SIZE_def holds_def framed_def lost_def roomy_def)
  next
    case (Some m)
    then show ?thesis using b assms(2)
      by (auto simp: prints_def ensure_def Let_def INT_MAX_SIZE_def holds_def framed_def lost_def roomy_def cp)
  qed
qed

text \<open>
  What a value leaves behind: its text and a terminator at the offset, which is not moved beyond the
  text.
\<close>

definition printed :: "printbuffer \<Rightarrow> u8 list \<Rightarrow> printbuffer \<Rightarrow> bool" where
  "printed p txt p' \<longleftrightarrow> holds p (pb_offset p) (txt @ [0]) p' \<and> 0 \<notin> set txt \<and> pb_offset p \<le> pb_offset p' \<and>
     pb_offset p' \<le> pb_offset p + length txt \<and> pb_depth p' = pb_depth p"

lemma print_string_body_puts:
  assumes "pb_buffer p \<noteq> None" "i + length (escaped s) + 3 \<le> pb_length p"
  shows "puts p i (QUOTE # escaped s @ [QUOTE, 0]) (print_string_body s (sum_list (map escape_extra s)) i p)"
proof -
  let ?e = "sum_list (map escape_extra s)"
  have body: "puts p1 (i + length [QUOTE]) (escaped s) (if ?e = 0 then pb_store (i + 1) s p1 else escape_loop s (i + 1) p1)"
    if "pb_buffer p1 \<noteq> None" "i + length (escaped s) + 3 \<le> pb_length p1" for p1
  proof (cases "?e = 0")
    case True
    show ?thesis unfolding if_P [OF True] using that escaped_plain [OF True] puts_store [of p1 "i + 1" s] by simp
  next
    case False
    show ?thesis unfolding if_not_P [OF False] using that escape_loop_puts [of p1 "i + 1" s] by simp
  qed
  have "puts p i ([QUOTE] @ escaped s @ [QUOTE] @ [0]) (print_string_body s ?e i p)"
    unfolding print_string_body_def Let_def length_escaped [symmetric]
  proof (intro puts_bind)
    show "puts p i [QUOTE] (pb_store i [QUOTE] p)" using assms by (intro puts_store) simp_all
    fix p1 :: printbuffer assume p1: "pb_buffer p1 \<noteq> None" "pb_length p \<le> pb_length p1"
    then show "puts p1 (i + length [QUOTE]) (escaped s) (if ?e = 0 then pb_store (i + 1) s p1 else escape_loop s (i + 1) p1)"
      using body assms(2) by auto
    fix p2 :: printbuffer assume p2: "pb_buffer p2 \<noteq> None" "pb_length p1 \<le> pb_length p2"
    then show "puts p2 (i + length [QUOTE] + length (escaped s)) [QUOTE] (pb_store (i + 1 + length (escaped s)) [QUOTE] p2)"
      using assms(2) p1 puts_store [of p2 "i + 1 + length (escaped s)" "[QUOTE]"] by simp
    fix p3 :: printbuffer assume p3: "pb_buffer p3 \<noteq> None" "pb_length p2 \<le> pb_length p3"
    then show "puts p3 (i + length [QUOTE] + length (escaped s) + length [QUOTE]) [0] (pb_store (i + 2 + length (escaped s)) [0] p3)"
      using assms(2) p1 p2 puts_store [of p3 "i + 2 + length (escaped s)" "[0]"] by simp
  qed
  then show ?thesis by simp
qed

text \<open>The literal of a string, and of a null pointer.\<close>

definition string_text :: "u8 list option \<Rightarrow> u8 list" where
  "string_text input = QUOTE # escaped (case input of None \<Rightarrow> [] | Some block \<Rightarrow> c_string block) @ [QUOTE]"

lemma escape_bytes_nonzero: "0 \<notin> set (escape_bytes c)"
proof (cases "c < 32")
  case True
  then show ?thesis using control_escape [OF True] by (auto simp: escape_bytes_def)
next
  case False
  then have "c \<noteq> 0" by auto
  then show ?thesis using False by (auto simp: escape_bytes_def word_less_nat_alt)
qed

lemma escaped_nonzero: "0 \<notin> set (escaped s)"
  by (induction s) (simp_all add: escape_bytes_nonzero)

text \<open>Room made for a text, and the text put there.\<close>

lemma ensure_puts:
  assumes "pb_ok p" "\<And>p1. pb_buffer p1 \<noteq> None \<Longrightarrow> pb_offset p + needed + 1 \<le> pb_length p1 \<Longrightarrow> pb_offset p1 = pb_offset p \<Longrightarrow>
      pb_format p1 = pb_format p \<Longrightarrow> pb_depth p1 = pb_depth p \<Longrightarrow> puts p1 (pb_offset p) bs (f p1)"
  shows "prints fresh (pb_offset p + needed + 1) p (if_ok (ensure fresh needed p) (\<lambda>p1. return_true (f p1)))
    (\<lambda>p'. holds p (pb_offset p) bs p' \<and> pb_offset p' = pb_offset p \<and> pb_depth p' = pb_depth p)"
proof (rule prints_bind [OF ensure_prints [OF assms(1) refl]])
  fix p1 assume p1: "holds p (pb_offset p) [] p1 \<and> pb_offset p + needed + 1 \<le> pb_length p1 \<and> pb_offset p1 = pb_offset p \<and>
    pb_depth p1 = pb_depth p" and fr: "framed p p1"
  then obtain p2 where p2: "f p1 = Inr p2" "holds p1 (pb_offset p) bs p2" "pb_offset p2 = pb_offset p1" "pb_depth p2 = pb_depth p1"
    using assms(2) [of p1] by (auto simp: puts_def framed_def)
  have "holds p (pb_offset p) bs p2" using holds_append [of p "pb_offset p" "[]" p1 bs p2] p1 p2(2) by simp
  moreover have "framed p1 p2" using p2(2) by (simp add: holds_def)
  ultimately show "prints fresh 0 p1 (return_true (f p1))
      (\<lambda>p'. holds p (pb_offset p) bs p' \<and> pb_offset p' = pb_offset p \<and> pb_depth p' = pb_depth p)"
    using p1 p2 by (simp add: return_true_def prints_return)
qed simp_all

lemma prints_weaken: "prints fresh t p r Q \<Longrightarrow> (\<And>p'. framed p p' \<Longrightarrow> Q p' \<Longrightarrow> R p') \<Longrightarrow> t \<le> u \<Longrightarrow> prints fresh u p r R"
  unfolding prints_def by (blast intro: roomy_le)

lemma print_string_prints:
  assumes "pb_ok p"
  shows "prints fresh (pb_offset p + length (string_text input) + 2) p (print_string_ptr fresh input p)
    (printed p (string_text input))"
proof -
  let ?lit = "string_text input"
  have nz: "0 \<notin> set ?lit" by (simp add: string_text_def escaped_nonzero)
  show ?thesis
  proof (cases input)
    case None
    show ?thesis unfolding None print_string_ptr_def option.case
      by (rule prints_weaken [OF ensure_puts [OF assms, where bs = "[QUOTE, QUOTE, 0]"]])
        (use nz None in \<open>auto intro!: puts_store simp: printed_def string_text_def\<close>)
  next
    case (Some block)
    let ?s = "c_string block"
    show ?thesis unfolding Some print_string_ptr_def option.case Let_def length_escaped [symmetric]
      by (rule prints_weaken [OF ensure_puts [OF assms, where bs = "QUOTE # escaped ?s @ [QUOTE, 0]"]])
        (use nz Some in \<open>auto intro!: print_string_body_puts simp: printed_def string_text_def\<close>)
  qed
qed

text \<open>
  C17: printing a C string into an output buffer never leaves the buffer. It fails only when the buffer
  cannot be made two bytes larger than the literal. When it succeeds, the buffer keeps what it held before
  its offset and holds there a terminated literal, and parsing that literal, in whatever text it stands,
  gives back exactly the string and stops behind the literal.
\<close>

theorem string_round_trip:
  assumes "pb_buffer p = Some b" "pb_offset p < pb_length p"
  shows "\<exists>ok p'. print_string_ptr fresh (Some s) p = Inr (ok, p') \<and>
    (roomy fresh p (pb_offset p + length (string_text (Some s)) + 2) \<longrightarrow> ok) \<and>
    (ok \<longrightarrow> (\<exists>b' lit. pb_buffer p' = Some b' \<and> mem_get b' 0 (pb_offset p) = mem_get b 0 (pb_offset p) \<and>
       mem_get b' (pb_offset p) (length lit + 1) = lit @ [0] \<and>
       (\<forall>al pb pre rest. content pb = pre @ lit @ rest \<and> offset pb = length pre \<and> al (allocs pb) \<longrightarrow>
          (\<exists>pb'. parse_string al pb = Inr (Some (c_string s), pb') \<and> offset pb' = length pre + length lit))))"
proof -
  let ?lit = "string_text (Some s)"
  have "pb_ok p" using assms by (simp add: pb_ok_def)
  from print_string_prints [OF this, of fresh "Some s"] obtain ok p' where
    p': "print_string_ptr fresh (Some s) p = Inr (ok, p')" "ok \<longrightarrow> printed p ?lit p'"
    "roomy fresh p (pb_offset p + length ?lit + 2) \<longrightarrow> ok" by (auto simp: prints_def)
  have "\<exists>pb'. parse_string al pb = Inr (Some (c_string s), pb') \<and> offset pb' = length pre + length ?lit"
    if "content pb = pre @ ?lit @ rest" "offset pb = length pre" "al (allocs pb)" for al pb pre rest
    using parse_escaped [of pb pre "c_string s" rest al] that by (simp add: string_text_def)
  moreover have "\<exists>b'. pb_buffer p' = Some b' \<and> mem_get b' 0 (pb_offset p) = mem_get b 0 (pb_offset p) \<and>
       mem_get b' (pb_offset p) (length ?lit + 1) = ?lit @ [0]" if ok
    using that p'(2) assms(1) by (auto simp: printed_def holds_def)
  ultimately show ?thesis using p'(1,3) by blast
qed

definition demo_pb :: printbuffer where
  "demo_pb = \<lparr>pb_buffer = Some (\<lambda>_. 0), pb_length = 4, pb_offset = 1, pb_depth = 0, noalloc = False, pb_format = False,
     pb_reallocate = True, pb_allocs = 0, pb_live = 1\<rparr>"

theorem string_round_trip_witness:
  "\<exists>p' b' lit pb'. print_string_ptr (\<lambda>_. Some (\<lambda>_. 7)) (Some [65, 10, 1, 34]) demo_pb = Inr (True, p') \<and>
     pb_buffer p' = Some b' \<and> mem_get b' 1 (length lit + 1) = lit @ [0] \<and>
     parse_string (\<lambda>_. True) (buffer_of (44 # lit @ [93])\<lparr>offset := 1\<rparr>) = Inr (Some [65, 10, 1, 34], pb')"
proof -
  have r: "roomy (\<lambda>_. Some (\<lambda>_. 7)) demo_pb (pb_offset demo_pb + length (string_text (Some [65, 10, 1, 34])) + 2)"
    by (simp add: roomy_def demo_pb_def INT_MAX_SIZE_def string_text_def c_string_def escape_bytes_def)
  have c: "c_string [65, 10, 1, 34] = [65, 10, 1, 34]" by (simp add: c_string_def)
  obtain p' b' lit where k: "print_string_ptr (\<lambda>_. Some (\<lambda>_. 7)) (Some [65, 10, 1, 34]) demo_pb = Inr (True, p')"
    "pb_buffer p' = Some b'" "mem_get b' 1 (length lit + 1) = lit @ [0]"
    and a: "\<forall>al pb pre rest. content pb = pre @ lit @ rest \<and> offset pb = length pre \<and> al (allocs pb) \<longrightarrow>
          (\<exists>pb'. parse_string al pb = Inr (Some [65, 10, 1, 34], pb') \<and> offset pb' = length pre + length lit)"
    using string_round_trip [of demo_pb "\<lambda>_. 0" "\<lambda>_. Some (\<lambda>_. 7)" "[65, 10, 1, 34]"] r unfolding c by (auto simp: demo_pb_def)
  have "\<exists>pb'. parse_string (\<lambda>_. True) (buffer_of (44 # lit @ [93])\<lparr>offset := 1\<rparr>) = Inr (Some [65, 10, 1, 34], pb')"
    using a [rule_format, of "buffer_of (44 # lit @ [93])\<lparr>offset := 1\<rparr>" "[44]" "[93]" "\<lambda>_. True"] by (auto simp: buffer_of_def)
  then show ?thesis using k by blast
qed

section \<open>UTF-16 literals decode to UTF-8\<close>

text \<open>The encoding of a code point, in arithmetic.\<close>

definition utf8_of :: "nat \<Rightarrow> nat list" where
  "utf8_of c =
     (if c < 0x80 then [c]
      else if c < 0x800 then [0xC0 + c div 64, 0x80 + c mod 64]
      else if c < 0x10000 then [0xE0 + c div 4096, 0x80 + c div 64 mod 64, 0x80 + c mod 64]
      else [0xF0 + c div 262144, 0x80 + c div 4096 mod 64, 0x80 + c div 64 mod 64, 0x80 + c mod 64])"

lemma continuation_byte: "ucast ((cp OR 0x80) AND 0xBF :: u64) = (of_nat (0x80 + unat cp mod 64) :: u8)"
proof -
  have u: "unat (ucast cp :: u8) < 256" using unsigned_less [of "ucast cp :: u8", where ?'a = nat] by simp
  have "\<forall>x \<in> set (map of_nat [0..<256]). (x OR 0x80) AND 0xBF = (of_nat (0x80 + unat x mod 64) :: u8)" by code_simp
  then have "(ucast cp OR 0x80) AND 0xBF = (of_nat (0x80 + unat (ucast cp :: u8) mod 64) :: u8)"
    using byte_in_upt [of "ucast cp" 256] u by blast
  moreover have "unat (ucast cp :: u8) mod 64 = unat cp mod 64"
    by (simp add: unsigned_ucast_eq take_bit_eq_mod mod_mod_cancel)
  moreover have "ucast ((cp OR 0x80) AND 0xBF :: u64) = ((ucast cp OR 0x80) AND 0xBF :: u8)"
    by (rule bit_word_eqI) (auto simp: bit_simps)
  ultimately show ?thesis by simp
qed

lemma unat_drop_bit: "unat (drop_bit n (cp :: u64)) = unat cp div 2 ^ n"
proof -
  have "unat (drop_bit n cp) = drop_bit n (unat cp)"
    unfolding unsigned_drop_bit_eq using unsigned_less [of cp, where ?'a = nat] by (simp only: take_bit_nat_eq_self)
  then show ?thesis by (simp add: drop_bit_eq_div)
qed

lemma first_byte:
  fixes cp :: u64
  assumes "unat cp < n" "(mark, n) \<in> {(0xC0, 32), (0xE0, 16), (0xF0, 8)}"
  shows "ucast ((cp OR of_nat mark) AND 0xFF) = (of_nat (mark + unat cp) :: u8)"
proof -
  let ?x = "ucast cp :: u8"
  have u: "unat ?x = unat cp" using assms by (auto simp: unsigned_ucast_eq take_bit_nat_eq_self_iff)
  have "\<forall>(mark, n) \<in> set [(0xC0, 32), (0xE0, 16), (0xF0, 8)].
      \<forall>x \<in> set (map of_nat [0..<n]). x OR of_nat mark = (of_nat (mark + unat x) :: u8)" by code_simp
  moreover have "?x \<in> set (map of_nat [0..<n])"
    using assms(1) u by (intro byte_in_upt) simp
  ultimately have "?x OR of_nat mark = of_nat (mark + unat cp)" using assms(2) u by auto
  moreover have "bit (0xFF :: u64) i" if "i < 8" for i
    using that bit_mask_iff [of 8 i, where ?'a = u64] by (simp add: mask_eq_exp_minus_1)
  then have "ucast ((cp OR of_nat mark) AND 0xFF) = ?x OR of_nat mark"
    using assms(2) by (intro bit_word_eqI) (auto simp: bit_simps)
  ultimately show ?thesis by simp
qed

lemma utf8_loops:
  "utf8_loop (Suc 0) cp [] = ([of_nat (0x80 + unat cp mod 64)], drop_bit 6 cp)"
  "utf8_loop 2 cp [] = ([of_nat (0x80 + unat cp div 64 mod 64), of_nat (0x80 + unat cp mod 64)], drop_bit 12 cp)"
  "utf8_loop 3 cp [] =
     ([of_nat (0x80 + unat cp div 4096 mod 64), of_nat (0x80 + unat cp div 64 mod 64), of_nat (0x80 + unat cp mod 64)],
      drop_bit 18 cp)"
proof -
  have d: "drop_bit 6 (drop_bit 6 cp) = drop_bit 12 cp" "drop_bit 6 (drop_bit 12 cp) = drop_bit 18 cp" by simp_all
  have n: "utf8_loop 2 cp [] = utf8_loop (Suc (Suc 0)) cp []" "utf8_loop 3 cp [] = utf8_loop (Suc (Suc (Suc 0))) cp []"
    by (simp_all only: numeral_2_eq_2 numeral_3_eq_3)
  note simps = utf8_loop.simps continuation_byte d unat_drop_bit
  show "utf8_loop (Suc 0) cp [] = ([of_nat (0x80 + unat cp mod 64)], drop_bit 6 cp)" by (simp only: simps)
  show "utf8_loop 2 cp [] = ([of_nat (0x80 + unat cp div 64 mod 64), of_nat (0x80 + unat cp mod 64)], drop_bit 12 cp)"
    unfolding n(1) simps by simp
  show "utf8_loop 3 cp [] =
     ([of_nat (0x80 + unat cp div 4096 mod 64), of_nat (0x80 + unat cp div 64 mod 64), of_nat (0x80 + unat cp mod 64)],
      drop_bit 18 cp)"
    unfolding n(2) simps by simp
qed

lemma utf8_encode_eq:
  assumes "unat cp \<le> 0x10FFFF"
  shows "utf8_encode cp = Some (map of_nat (utf8_of (unat cp)))"
proof -
  consider "unat cp < 0x80" | "0x80 \<le> unat cp" "unat cp < 0x800" | "0x800 \<le> unat cp" "unat cp < 0x10000"
    | "0x10000 \<le> unat cp" by linarith
  then show ?thesis
  proof cases
    case 1
    let ?x = "ucast cp :: u8"
    have u: "unat ?x = unat cp" using 1 by (simp add: unsigned_ucast_eq take_bit_nat_eq_self_iff)
    have "\<forall>x \<in> set (map of_nat [0..<128]). x AND 0x7F = (x :: u8)" by code_simp
    moreover have "?x \<in> set (map of_nat [0..<128])" using u 1 by (intro byte_in_upt) simp
    ultimately have "?x AND 0x7F = ?x" by blast
    moreover have "ucast (cp AND 0x7F) = ?x AND 0x7F" by (rule bit_word_eqI) (auto simp: bit_simps)
    moreover have "?x = of_nat (unat cp)" using arg_cong [OF u, of "of_nat :: nat \<Rightarrow> u8"] by simp
    ultimately have "ucast (cp AND 0x7F) = (of_nat (unat cp) :: u8)" by metis
    then show ?thesis using 1 by (simp add: utf8_encode_def utf8_of_def word_less_nat_alt)
  next
    case 2
    then have "unat (drop_bit 6 cp) < 32" by (simp add: unat_drop_bit)
    from first_byte [where mark = "0xC0", OF this, unfolded unat_drop_bit] show ?thesis using 2
      by (simp add: utf8_encode_def utf8_of_def word_less_nat_alt word_le_nat_alt utf8_loops
          del: utf8_loop.simps)
  next
    case 3
    then have "unat (drop_bit 12 cp) < 16" by (simp add: unat_drop_bit)
    from first_byte [where mark = "0xE0", OF this, unfolded unat_drop_bit] show ?thesis using 3
      by (simp add: utf8_encode_def utf8_of_def word_less_nat_alt word_le_nat_alt utf8_loops
          del: utf8_loop.simps)
  next
    case 4
    then have "unat (drop_bit 18 cp) < 8" using assms by (simp add: unat_drop_bit)
    from first_byte [where mark = "0xF0", OF this, unfolded unat_drop_bit] show ?thesis using 4 assms
      by (simp add: utf8_encode_def utf8_of_def word_less_nat_alt word_le_nat_alt utf8_loops
          del: utf8_loop.simps)
  qed
qed

lemma surrogate_bits:
  fixes f s :: u32
  shows "unat (push_bit 10 (f AND 0x3FF) OR (s AND 0x3FF)) = unat f mod 1024 * 1024 + unat s mod 1024"
proof -
  have m: "x AND 0x3FF = take_bit 10 x" for x :: u32 by (simp add: take_bit_eq_mask mask_eq_exp_minus_1)
  have u: "unat (take_bit 10 x) = unat x mod 1024" for x :: u32
    unfolding unsigned_take_bit_eq by (simp add: take_bit_eq_mod)
  have "push_bit 10 (take_bit 10 f) AND take_bit 10 s = 0" by (rule bit_word_eqI) (auto simp: bit_simps)
  from disjunctive_add_eq_or [OF this] have "push_bit 10 (take_bit 10 f) OR take_bit 10 s =
      push_bit 10 (take_bit 10 f) + take_bit 10 s" by simp
  moreover have p: "unat (push_bit 10 (take_bit 10 f)) = unat f mod 1024 * 1024"
    using u [of f] by (simp add: push_bit_eq_mult unat_word_ariths)
  moreover have "unat (push_bit 10 (take_bit 10 f)) + unat (take_bit 10 s) < 2 ^ 32"
    unfolding p u using mod_less_divisor [of 1024 "unat f"] mod_less_divisor [of 1024 "unat s"] by simp
  ultimately show ?thesis unfolding m by (simp add: unat_add_le u)
qed

lemma surrogate_code:
  fixes f s :: u32
  assumes "0xD800 \<le> f" "f \<le> 0xDBFF" "0xDC00 \<le> s" "s \<le> 0xDFFF"
  shows "unat (0x10000 + ucast (push_bit 10 (f AND 0x3FF) OR (s AND 0x3FF)) :: u64) =
    0x10000 + (unat f - 0xD800) * 0x400 + (unat s - 0xDC00)"
proof -
  have r: "0xD800 \<le> unat f" "unat f \<le> 0xDBFF" "0xDC00 \<le> unat s" "unat s \<le> 0xDFFF"
    using assms by (simp_all add: word_le_nat_alt)
  have m: "(k * 1024 + d) mod 1024 = d" if "d < 1024" for k d :: nat using that by simp
  have f: "unat f mod 1024 = unat f - 0xD800" using m [of "unat f - 0xD800" 54] r(1,2) by simp
  have s: "unat s mod 1024 = unat s - 0xDC00" using m [of "unat s - 0xDC00" 55] r(3,4) by simp
  have "unat (ucast (push_bit 10 (f AND 0x3FF) OR (s AND 0x3FF)) :: u64) = (unat f - 0xD800) * 1024 + (unat s - 0xDC00)"
    unfolding f [symmetric] s [symmetric] surrogate_bits [symmetric]
    using unsigned_less [of "push_bit 10 (f AND 0x3FF) OR (s AND 0x3FF)", where ?'a = nat]
    by (simp add: unsigned_ucast_eq take_bit_nat_eq_self_iff)
  then show ?thesis using r by (subst unat_add_le) simp_all
qed


text \<open>Four hexadecimal digits give their number.\<close>

lemma parse_hex4_digits:
  assumes "hex_value a = Some d1" "hex_value b = Some d2" "hex_value c = Some d3" "hex_value d = Some d4"
  shows "unat (parse_hex4 (a # b # c # d # cs)) = ((unat d1 * 16 + unat d2) * 16 + unat d3) * 16 + unat d4"
proof -
  have u: "unat (push_bit 4 h + x) = unat h * 16 + unat x" if "unat h < 0x1000" "unat x < 16" for h x :: u32
    using that by (simp add: push_bit_eq_mult unat_word_ariths)
  have b: "unat d1 < 16" "unat d2 < 16" "unat d3 < 16" "unat d4 < 16" using hex_value_bound assms by blast+
  have 1: "unat (push_bit 4 d1 + d2) = unat d1 * 16 + unat d2" using b u by simp
  have 2: "unat (push_bit 4 (push_bit 4 d1 + d2) + d3) = (unat d1 * 16 + unat d2) * 16 + unat d3" using b 1 u by simp
  have "unat (push_bit 4 (push_bit 4 (push_bit 4 d1 + d2) + d3) + d4) = ((unat d1 * 16 + unat d2) * 16 + unat d3) * 16 + unat d4"
    using b 2 u by simp
  then show ?thesis using assms by (simp add: parse_hex4_def)
qed

end
