(* ===== verification/CjsonNumber.thy ===== *)
theory CjsonNumber
  imports CjsonString Complex_Main
begin

text \<open>
  Numbers in the JSON library \<^verbatim>\<open>apps/cjson/cJSON.c\<close>: reading a number through \<^verbatim>\<open>strtod\<close> and printing it
  through \<^verbatim>\<open>sprintf\<close> with 15 and, if need be, 17 significant digits. The type \<^verbatim>\<open>double\<close> is modelled as IEEE
  binary64, with a finite value as a sign and a rational magnitude; the two functions of the C library are
  modelled as the standard describes them for the characters that reach them here, rounding to nearest
  with ties to even, in the locale \<^verbatim>\<open>"C"\<close> (the sources are compiled without \<^verbatim>\<open>ENABLE_LOCALES\<close>).
\<close>

section \<open>Binary64\<close>

datatype double = NaN | Infinite bool | Finite bool rat     \<comment> \<open>sign, magnitude\<close>

text \<open>The exponent of the leading digit of a positive rational in base \<open>b\<close>.\<close>

fun ilog :: "nat \<Rightarrow> nat \<Rightarrow> nat" where
  "ilog b n = (if b < 2 \<or> n < b then 0 else Suc (ilog b (n div b)))"

declare ilog.simps [simp del]

definition flog :: "nat \<Rightarrow> rat \<Rightarrow> int" where
  "flog b x =
     (let (n, d) = quotient_of x; k = int (ilog b (nat n)) - int (ilog b (nat d))
      in if power_int (of_nat b) k \<le> x then k else k - 1)"

definition round_even :: "rat \<Rightarrow> int" where
  "round_even x =
     (let f = \<lfloor>x\<rfloor>; r = x - of_int f
      in if r < 1 / 2 then f else if 1 / 2 < r then f + 1 else if even f then f else f + 1)"

text \<open>Rounding a magnitude: 53 binary digits, fewer below the smallest normal number.\<close>

definition last_place :: "rat \<Rightarrow> int" where
  "last_place x = max (flog 2 x) (- 1022) - 52"

definition to_double :: "bool \<Rightarrow> rat \<Rightarrow> double" where
  "to_double neg x =
     (if x = 0 then Finite neg 0
      else (let u = power_int 2 (last_place x); y = of_int (round_even (x / u)) * u
            in if 2 ^ 1024 \<le> y then Infinite neg else Finite neg y))"

text \<open>The values a \<^verbatim>\<open>double\<close> can have are those that rounding leaves alone.\<close>

fun valid_double :: "double \<Rightarrow> bool" where
  "valid_double (Finite neg r) \<longleftrightarrow> 0 \<le> r \<and> to_double neg r = Finite neg r"
| "valid_double d \<longleftrightarrow> True"

fun double_value :: "double \<Rightarrow> rat" where
  "double_value (Finite neg r) = (if neg then - r else r)"
| "double_value d = 0"

definition of_value :: "rat \<Rightarrow> double" where
  "of_value x = to_double (x < 0) \<bar>x\<bar>"

fun fabs :: "double \<Rightarrow> double" where
  "fabs NaN = NaN"
| "fabs (Infinite neg) = Infinite False"
| "fabs (Finite neg r) = Finite False r"

fun sub_double :: "double \<Rightarrow> double \<Rightarrow> double" where
  "sub_double (Finite a x) (Finite b y) = of_value (double_value (Finite a x) - double_value (Finite b y))"
| "sub_double (Infinite a) (Infinite b) = (if a = b then NaN else Infinite a)"
| "sub_double (Infinite a) (Finite b y) = Infinite a"
| "sub_double (Finite a x) (Infinite b) = Infinite (\<not> b)"
| "sub_double NaN d = NaN"
| "sub_double d NaN = NaN"

fun mul_double :: "double \<Rightarrow> double \<Rightarrow> double" where
  "mul_double (Finite a x) (Finite b y) = to_double (a \<noteq> b) (x * y)"
| "mul_double (Infinite a) (Infinite b) = Infinite (a \<noteq> b)"
| "mul_double (Infinite a) (Finite b y) = (if y = 0 then NaN else Infinite (a \<noteq> b))"
| "mul_double (Finite a x) (Infinite b) = (if x = 0 then NaN else Infinite (a \<noteq> b))"
| "mul_double NaN d = NaN"
| "mul_double d NaN = NaN"

fun le_double :: "double \<Rightarrow> double \<Rightarrow> bool" where
  "le_double (Finite a x) (Finite b y) \<longleftrightarrow> double_value (Finite a x) \<le> double_value (Finite b y)"
| "le_double (Infinite a) (Infinite b) \<longleftrightarrow> a \<or> \<not> b"
| "le_double (Infinite a) (Finite b y) \<longleftrightarrow> a"
| "le_double (Finite a x) (Infinite b) \<longleftrightarrow> \<not> b"
| "le_double NaN d \<longleftrightarrow> False"
| "le_double d NaN \<longleftrightarrow> False"

definition less_double :: "double \<Rightarrow> double \<Rightarrow> bool" where
  "less_double a b \<longleftrightarrow> le_double a b \<and> \<not> le_double b a"

definition DBL_EPSILON :: double where "DBL_EPSILON = Finite False (1 / 2 ^ 52)"

definition compare_double :: "double \<Rightarrow> double \<Rightarrow> bool" where
  "compare_double a b =
     (let maxVal = (if less_double (fabs b) (fabs a) then fabs a else fabs b)
      in le_double (fabs (sub_double a b)) (mul_double maxVal DBL_EPSILON))"

section \<open>Reading\<close>

definition digit :: "u8 \<Rightarrow> bool" where "digit c \<longleftrightarrow> 48 \<le> c \<and> c \<le> 57"

definition digits_value :: "u8 list \<Rightarrow> nat" where
  "digits_value ds = foldl (\<lambda>n c. n * 10 + (unat c - 48)) 0 ds"

text \<open>An optional sign: whether it is negative, what follows it, and how many characters it takes.\<close>

definition read_sign :: "u8 list \<Rightarrow> bool \<times> u8 list \<times> nat" where
  "read_sign cs =
     (case cs of
        [] \<Rightarrow> (False, [], 0)
      | c # r \<Rightarrow> if c = 43 then (False, r, 1) else if c = 45 then (True, r, 1) else (False, cs, 0))"

text \<open>An optional exponent, and the characters it takes: none unless a digit follows.\<close>

definition read_exponent :: "u8 list \<Rightarrow> int \<times> nat" where
  "read_exponent cs =
     (case cs of
        [] \<Rightarrow> (0, 0)
      | c # r \<Rightarrow>
          (if c = 101 \<or> c = 69
           then (let (neg, r', k) = read_sign r; ds = takeWhile digit r'
                 in if ds = [] then (0, 0)
                    else ((if neg then - int (digits_value ds) else int (digits_value ds)), 1 + k + length ds))
           else (0, 0)))"

text \<open>The digits behind a decimal point, and the characters with the point.\<close>

definition read_fraction :: "u8 list \<Rightarrow> u8 list \<times> nat" where
  "read_fraction cs =
     (case cs of
        [] \<Rightarrow> ([], 0)
      | c # r \<Rightarrow> if c = 46 then (takeWhile digit r, 1 + length (takeWhile digit r)) else ([], 0))"

text \<open>\<^verbatim>\<open>strtod\<close>: the number and the length of the text it was read from, 0 when there is no number.\<close>

definition strtod :: "u8 list \<Rightarrow> double \<times> nat" where
  "strtod cs =
     (let (neg, r, k) = read_sign cs;
          ip = takeWhile digit r;
          (fp, n) = read_fraction (drop (length ip) r);
          (ex, m) = read_exponent (drop (length ip + n) r)
      in if ip @ fp = [] then (Finite False 0, 0)
         else (to_double neg (of_nat (digits_value (ip @ fp)) * power_int 10 (ex - int (length fp))), k + length ip + n + m))"

text \<open>The characters \<^verbatim>\<open>parse_number\<close> copies, at most 63 of them.\<close>

definition number_char :: "u8 \<Rightarrow> bool" where
  "number_char c \<longleftrightarrow> digit c \<or> c = 43 \<or> c = 45 \<or> c = 101 \<or> c = 69 \<or> c = 46"

text \<open>
  The saturating conversion to \<^verbatim>\<open>int\<close>. Both comparisons are false for a NaN, and converting it is
  undefined.
\<close>

definition INT_MIN_INT :: int where "INT_MIN_INT = - 2147483648"
definition INT_MAX_INT :: int where "INT_MAX_INT = 2147483647"

definition saturate_int :: "double \<Rightarrow> c_fault + int" where
  "saturate_int number =
     (if le_double (Finite False (of_int INT_MAX_INT)) number then Inr INT_MAX_INT
      else if le_double number (Finite True (of_int (- INT_MIN_INT))) then Inr INT_MIN_INT
      else (case number of
              Finite neg r \<Rightarrow> Inr (if neg then - \<lfloor>r\<rfloor> else \<lfloor>r\<rfloor>)
            | _ \<Rightarrow> Inl SignedOverflow))"

text \<open>\<^verbatim>\<open>parse_number\<close>: the \<^verbatim>\<open>valuedouble\<close> and the \<^verbatim>\<open>valueint\<close> of the item, if there is a number.\<close>

definition parse_number :: "parse_buffer \<Rightarrow> c_fault + ((double \<times> int) option \<times> parse_buffer)" where
  "parse_number input_buffer =
     (let number_c_string = takeWhile number_char (take 63 (drop (offset input_buffer) (content input_buffer)));
          (number, n) = strtod number_c_string
      in if n = 0 then Inr (None, input_buffer)
         else bind_fault (saturate_int number) (\<lambda>valueint.
              Inr (Some (number, valueint), input_buffer\<lparr>offset := offset input_buffer + n\<rparr>)))"

section \<open>Printing\<close>

definition strip_zeros :: "u8 list \<Rightarrow> u8 list" where
  "strip_zeros xs = rev (dropWhile (\<lambda>c. c = 48) (rev xs))"

definition fraction_text :: "u8 list \<Rightarrow> u8 list" where
  "fraction_text xs = (let ys = strip_zeros xs in if ys = [] then [] else 46 # ys)"

definition exponent_text :: "int \<Rightarrow> u8 list" where
  "exponent_text e =
     101 # (if e < 0 then 45 else 43) # (if \<bar>e\<bar> < 10 then [48] else []) @ dec_digits (nat \<bar>e\<bar>)"

text \<open>The digits and the exponent of a positive number rounded to \<open>P\<close> significant digits.\<close>

definition significant :: "nat \<Rightarrow> rat \<Rightarrow> nat \<times> int" where
  "significant P r =
     (let e = flog 10 r; D = nat (round_even (r / power_int 10 (e - int P + 1)))
      in if D = 10 ^ P then (10 ^ (P - 1), e + 1) else (D, e))"

text \<open>\<^verbatim>\<open>%1.15g\<close> and \<^verbatim>\<open>%1.17g\<close>, for the precision \<open>P\<close>.\<close>

definition fmt_g :: "nat \<Rightarrow> bool \<Rightarrow> rat \<Rightarrow> u8 list" where
  "fmt_g P neg r =
     (if neg then [45] else []) @
     (if r = 0 then [48]
      else (let (D, e) = significant P r; ds = dec_digits D
            in if e < - 4 \<or> int P \<le> e
               then take 1 ds @ fraction_text (drop 1 ds) @ exponent_text e
               else if 0 \<le> e then take (nat e + 1) ds @ fraction_text (drop (nat e + 1) ds)
               else 48 # fraction_text (replicate (nat (- e) - 1) 48 @ ds)))"

text \<open>
  The text \<^verbatim>\<open>print_number\<close> writes to its temporary buffer. Reading it back with \<^verbatim>\<open>sscanf\<close> and \<^verbatim>\<open>%lg\<close> is
  \<^verbatim>\<open>strtod\<close>.
\<close>

definition number_text :: "double \<Rightarrow> u8 list" where
  "number_text d =
     (case d of
        Finite neg r \<Rightarrow>
          (let t = fmt_g 15 neg r; (test, n) = strtod t
           in if n = 0 \<or> \<not> compare_double test d then fmt_g 17 neg r else t)
      | _ \<Rightarrow> bytes_of ''null'')"

text \<open>\<^verbatim>\<open>print_number\<close>: the temporary buffer has 26 bytes, and \<^verbatim>\<open>sprintf\<close> does not know.\<close>

definition print_number :: "allocator \<Rightarrow> double \<Rightarrow> printbuffer \<Rightarrow> c_fault + (bool \<times> printbuffer)" where
  "print_number fresh d output_buffer =
     (let number_buffer = number_text d; len = length number_buffer
      in if 26 < len + 1 then Inl OutOfBounds
         else if_ok (ensure fresh (len + 1) output_buffer) (\<lambda>p.
              bind_fault (pb_store (pb_offset p) (number_buffer @ [0]) p) (\<lambda>p1.
              Inr (True, p1\<lparr>pb_offset := pb_offset p1 + len\<rparr>))))"

section \<open>Exponents and rounding\<close>

lemma ilog_bounds:
  assumes "2 \<le> b" "0 < n"
  shows "b ^ ilog b n \<le> n \<and> n < b ^ Suc (ilog b n)"
  using assms
proof (induction b n rule: ilog.induct)
  case (1 b n)
  show ?case
  proof (cases "n < b")
    case True
    then show ?thesis using 1 by (simp add: ilog.simps [of b n])
  next
    case False
    then have "0 < n div b" using 1 by (simp add: div_greater_zero_iff)
    then have IH: "b ^ ilog b (n div b) \<le> n div b" "n div b < b ^ Suc (ilog b (n div b))" using 1 False by auto
    have "b ^ Suc (ilog b (n div b)) \<le> b * (n div b)" using IH(1) by simp
    also have "\<dots> \<le> n" by simp
    finally have "b ^ Suc (ilog b (n div b)) \<le> n" .
    moreover have "n < (n div b + 1) * b" using 1(2) by (simp add: dividend_less_div_times)
    moreover have "(n div b + 1) * b \<le> b ^ Suc (ilog b (n div b)) * b" using IH(2) by (intro mult_right_mono) simp_all
    ultimately show ?thesis using False 1(2) by (simp add: ilog.simps [of b n] mult.commute)
  qed
qed

lemma flog_bounds:
  assumes "2 \<le> b" "0 < x"
  shows "power_int (of_nat b) (flog b x) \<le> x \<and> x < power_int (of_nat b) (flog b x + 1)"
proof -
  obtain n d where q: "quotient_of x = (n, d)" by (cases "quotient_of x")
  have d: "0 < d" by (rule quotient_of_denom_pos [OF q])
  have x: "x = of_int n / of_int d" by (rule quotient_of_div [OF q])
  have n: "0 < n" using assms(2) d x by (simp add: zero_less_divide_iff)
  let ?B = "of_nat b :: rat" and ?i = "ilog b (nat n)" and ?j = "ilog b (nat d)"
  have B: "0 < ?B" using assms(1) by simp
  have i: "?B ^ ?i \<le> of_int n" "of_int n < ?B ^ Suc ?i" and j: "?B ^ ?j \<le> of_int d" "of_int d < ?B ^ Suc ?j"
    using ilog_bounds [OF assms(1), of "nat n"] ilog_bounds [OF assms(1), of "nat d"] n d
    by (metis (mono_tags, opaque_lifting) of_nat_le_iff of_nat_less_iff of_nat_power of_nat_nat zless_nat_conj order_less_imp_le of_int_of_nat_eq zero_less_nat_eq)+
  have dr: "(0 :: rat) < of_int d" using d by simp
  have "x < ?B ^ Suc ?i / ?B ^ ?j"
    unfolding x using i(2) j(1) B dr by (intro frac_less) (use n in simp_all)
  also have "\<dots> = power_int ?B (int ?i - int ?j + 1)"
    using B by (simp add: power_int_diff power_int_add)
  finally have up: "x < power_int ?B (int ?i - int ?j + 1)" .
  have "?B ^ ?i / ?B ^ Suc ?j \<le> x"
    unfolding x using i(1) j(2) B dr n by (intro frac_le) simp_all
  moreover have "power_int ?B (int ?i - int ?j - 1) = ?B ^ ?i / ?B ^ Suc ?j"
    using B by (simp add: power_int_diff power_int_add field_simps)
  ultimately have "power_int ?B (int ?i - int ?j - 1) \<le> x" by simp
  then show ?thesis using up q by (auto simp: flog_def Let_def)
qed

lemma flog_unique:
  assumes "2 \<le> b" "power_int (of_nat b) k \<le> x" "x < power_int (of_nat b) (k + 1)"
  shows "flog b x = k"
proof -
  let ?B = "of_nat b :: rat"
  have B: "1 < ?B" using assms(1) by simp
  have "0 < power_int ?B k" using B by (intro zero_less_power_int) simp
  then have "0 < x" using assms(2) by linarith
  note f = flog_bounds [OF assms(1) this]
  have "power_int ?B k < power_int ?B (flog b x + 1)" "power_int ?B (flog b x) < power_int ?B (k + 1)"
    using f assms by linarith+
  then have "k < flog b x + 1" "flog b x < k + 1" using B power_int_increasing [of _ _ ?B] by (meson not_le order_less_imp_le)+
  then show ?thesis by simp
qed

lemma round_even_error: "\<bar>of_int (round_even x) - x\<bar> \<le> 1 / 2"
proof -
  have "of_int \<lfloor>x\<rfloor> \<le> x" "x < of_int \<lfloor>x\<rfloor> + 1" by linarith+
  then show ?thesis unfolding round_even_def Let_def by (simp split: if_split)
qed

lemma round_even_near:
  assumes "\<bar>x - of_int m\<bar> < 1 / 2"
  shows "round_even x = m"
proof -
  have "\<bar>of_int (round_even x) - of_int m :: rat\<bar> < 1" using round_even_error [of x] assms by linarith
  then have "\<bar>of_int (round_even x - m) :: rat\<bar> < of_int 1" by simp
  then show ?thesis by linarith
qed

lemma round_even_of_int [simp]: "round_even (of_int m) = m"
  by (rule round_even_near) simp

section \<open>Decimal texts\<close>

lemma digits_value_snoc [simp]: "digits_value (ds @ [c]) = digits_value ds * 10 + (unat c - 48)"
  by (simp add: digits_value_def)

lemma digits_value_Nil [simp]: "digits_value [] = 0"
  by (simp add: digits_value_def)

lemma digits_value_zeros: "digits_value (ds @ replicate z 48) = digits_value ds * 10 ^ z"
proof (induction z)
  case (Suc z)
  have "ds @ replicate (Suc z) 48 = (ds @ replicate z 48) @ [48 :: u8]" by (simp add: replicate_append_same)
  then show ?case using Suc by (simp only: digits_value_snoc) simp
qed simp

lemma digits_value_leading: "digits_value (replicate z 48 @ ds) = digits_value ds"
proof (induction ds rule: rev_induct)
  case Nil
  show ?case using digits_value_zeros [of "[]" z] by simp
next
  case (snoc c ds)
  then show ?case by (metis append_assoc digits_value_snoc)
qed

lemma decimal_digit:
  assumes "d < 10"
  shows "digit (48 + of_nat d) \<and> unat (48 + of_nat d :: u8) - 48 = d"
proof -
  have "unat (48 + of_nat d :: u8) = 48 + d" using assms by (simp add: unat_word_ariths unat_of_nat)
  then show ?thesis using assms by (simp add: digit_def word_le_nat_alt)
qed

lemma dec_digits_digit: "c \<in> set (dec_digits n) \<Longrightarrow> digit c"
  by (induction n rule: dec_digits.induct) (subst (asm) dec_digits.simps, auto simp: decimal_digit split: if_splits)

lemma dec_digits_value [simp]: "digits_value (dec_digits n) = n"
proof (induction n rule: dec_digits.induct)
  case (1 n)
  have s: "digits_value [c] = unat c - 48" for c using digits_value_snoc [of "[]" c] by simp
  show ?case using 1 by (subst dec_digits.simps) (simp add: s decimal_digit)
qed

lemma length_dec_digits: "0 < n \<Longrightarrow> length (dec_digits n) = Suc (ilog 10 n)"
proof (induction n rule: dec_digits.induct)
  case (1 n)
  then show ?case by (subst dec_digits.simps, subst ilog.simps) (simp add: div_greater_zero_iff)
qed

lemma length_dec_digits_eq:
  assumes "10 ^ k \<le> n" "n < 10 ^ Suc k"
  shows "length (dec_digits n) = Suc k"
proof -
  have n: "0 < n" using assms(1) by (metis gr0I not_le zero_less_numeral zero_less_power)
  have "10 ^ k < (10 :: nat) ^ Suc (ilog 10 n)" "10 ^ ilog 10 n < (10 :: nat) ^ Suc k"
    using ilog_bounds [of 10 n] n assms by linarith+
  moreover have "a < b" if "10 ^ a < (10 :: nat) ^ b" for a b by (rule power_less_imp_less_exp [OF _ that]) simp
  ultimately have "k < Suc (ilog 10 n)" "ilog 10 n < Suc k" by blast+
  then show ?thesis using length_dec_digits [OF n] by simp
qed

lemma strip_zeros_split:
  obtains z where "xs = strip_zeros xs @ replicate z 48"
proof -
  let ?t = "takeWhile (\<lambda>c. c = 48) (rev xs)"
  have "rev xs = ?t @ dropWhile (\<lambda>c. c = 48) (rev xs)" by simp
  then have "rev (rev xs) = rev (?t @ dropWhile (\<lambda>c. c = 48) (rev xs))" by (rule arg_cong)
  then have "xs = strip_zeros xs @ rev ?t" by (simp only: rev_append rev_rev_ident strip_zeros_def)
  moreover have "rev ?t = replicate (length ?t) 48"
  proof (rule replicate_eqI)
    show "y = 48" if "y \<in> set (rev ?t)" for y using that set_takeWhileD by fastforce
  qed simp
  ultimately show thesis using that [of "length ?t"] by metis
qed

lemma set_strip_zeros: "c \<in> set (strip_zeros xs) \<Longrightarrow> c \<in> set xs"
  by (metis strip_zeros_split Un_iff set_append)

lemma length_fraction_text: "length (fraction_text xs) \<le> Suc (length xs)"
proof -
  obtain z where "xs = strip_zeros xs @ replicate z 48" by (rule strip_zeros_split)
  then have "length xs = length (strip_zeros xs) + z" by (metis length_append length_replicate)
  then show ?thesis by (simp add: fraction_text_def Let_def)
qed

lemma takeWhile_digits: "(\<And>c. c \<in> set ds \<Longrightarrow> digit c) \<Longrightarrow> (\<forall>c r. rest = c # r \<longrightarrow> \<not> digit c) \<Longrightarrow> takeWhile digit (ds @ rest) = ds"
  by (cases rest) (simp_all add: takeWhile_append2)

lemma not_digit [simp]: "\<not> digit 46" "\<not> digit 101" "\<not> digit 43" "\<not> digit 45"
  by (simp_all add: digit_def)

lemma read_exponent_text:
  "read_exponent (exponent_text e) = (e, length (exponent_text e))" (is "read_exponent ?t = _")
proof -
  let ?ds = "(if \<bar>e\<bar> < 10 then [48] else []) @ dec_digits (nat \<bar>e\<bar>)"
  have d: "digit c" if "c \<in> set ?ds" for c
    using that dec_digits_digit by (auto simp: digit_def split: if_splits)
  have t: "takeWhile digit ?ds = ?ds" using takeWhile_digits [of ?ds "[]"] d by simp
  have n: "?ds \<noteq> []" using dec_digits_length [of "nat \<bar>e\<bar>"] by auto
  have v: "digits_value ?ds = nat \<bar>e\<bar>" using digits_value_leading [of 1 "dec_digits (nat \<bar>e\<bar>)"] by simp
  have h: "read_sign ((if e < 0 then 45 else 43) # ?ds) = (e < 0, ?ds, 1)" by (simp add: read_sign_def)
  have "read_exponent (101 # (if e < 0 then 45 else 43) # ?ds) = (e, 2 + length ?ds)"
    unfolding read_exponent_def list.case h prod.case Let_def t v using n by simp
  then show ?thesis by (simp add: exponent_text_def)
qed

lemma fraction_text_value:
  assumes "\<And>c. c \<in> set xs \<Longrightarrow> digit c" "\<forall>c r. rest = c # r \<longrightarrow> \<not> digit c \<and> c \<noteq> 46"
  shows "\<exists>z. read_fraction (fraction_text xs @ rest) = (strip_zeros xs, length (fraction_text xs)) \<and>
    xs = strip_zeros xs @ replicate z 48"
proof -
  have t: "takeWhile digit (strip_zeros xs @ rest) = strip_zeros xs"
    using assms by (intro takeWhile_digits) (auto dest: set_strip_zeros)
  have "read_fraction (fraction_text xs @ rest) = (strip_zeros xs, length (fraction_text xs))"
  proof (cases "strip_zeros xs = []")
    case True
    then show ?thesis using assms(2) by (cases rest) (auto simp: read_fraction_def fraction_text_def)
  next
    case False
    then show ?thesis by (simp add: read_fraction_def fraction_text_def Let_def t)
  qed
  then show ?thesis using strip_zeros_split [of xs] by metis
qed

text \<open>A text in one of the three forms of \<^verbatim>\<open>%g\<close> is read whole, and as the number it denotes.\<close>

lemma strtod_text:
  assumes "ip \<noteq> []" "\<And>c. c \<in> set (ip @ xs) \<Longrightarrow> digit c" "ex = [] \<and> k = 0 \<or> ex = exponent_text k"
  shows "strtod ((if neg then [45] else []) @ ip @ fraction_text xs @ ex) =
    (to_double neg (of_nat (digits_value (ip @ xs)) * power_int 10 (k - int (length xs))),
     length ((if neg then [45] else []) @ ip @ fraction_text xs @ ex))"
proof -
  have ex: "read_exponent ex = (k, length ex)" "\<forall>c r. ex = c # r \<longrightarrow> \<not> digit c \<and> c \<noteq> 46"
    using assms(3) read_exponent_text [of k] by (auto simp: read_exponent_def exponent_text_def)
  obtain z where z: "read_fraction (fraction_text xs @ ex) = (strip_zeros xs, length (fraction_text xs))"
    "xs = strip_zeros xs @ replicate z 48" using fraction_text_value [of xs ex] assms(2) ex(2) by auto
  let ?r = "ip @ fraction_text xs @ ex"
  have ip: "takeWhile digit ?r = ip"
  proof (rule takeWhile_digits)
    show "\<forall>c r. fraction_text xs @ ex = c # r \<longrightarrow> \<not> digit c"
      using ex(2) by (auto simp: fraction_text_def Let_def split: if_splits)
  qed (use assms(2) in auto)
  have h: "digit (hd ip)" using assms(1,2) by simp
  have sg: "read_sign ((if neg then [45] else []) @ ?r) = (neg, ?r, if neg then 1 else 0)"
    using h assms(1) by (cases ip) (auto simp: read_sign_def)
  have dr: "drop (length ip) ?r = fraction_text xs @ ex" "drop (length ip + length (fraction_text xs)) ?r = ex" by simp_all
  have "digits_value (ip @ xs) = digits_value (ip @ strip_zeros xs) * 10 ^ z"
    using digits_value_zeros [of "ip @ strip_zeros xs" z] z(2) by simp
  moreover have "int (length xs) = int (length (strip_zeros xs)) + int z"
    using z(2) by (metis length_append length_replicate of_nat_add)
  ultimately have "(of_nat (digits_value (ip @ xs)) :: rat) * power_int 10 (k - int (length xs)) =
      of_nat (digits_value (ip @ strip_zeros xs)) * power_int 10 (k - int (length (strip_zeros xs)))"
    by (simp add: power_int_diff power_int_add)
  then show ?thesis unfolding strtod_def sg Let_def prod.case ip dr z(1) ex(1) using assms(1) by simp
qed

section \<open>Printed digits\<close>

lemma significant_spec:
  assumes "0 < r" "1 \<le> P" "significant P r = (D, e)"
  shows "10 ^ (P - 1) \<le> D" "D < 10 ^ P" "flog 10 r \<le> e" "e \<le> flog 10 r + 1"
    "\<bar>of_nat D * power_int 10 (e - int P + 1) - r\<bar> \<le> power_int 10 (flog 10 r - int P + 1) / 2"
proof -
  let ?f = "flog 10 r" and ?u = "power_int 10 (flog 10 r - int P + 1) :: rat"
  let ?D = "round_even (r / ?u)"
  have u: "0 < ?u" by (rule zero_less_power_int) simp
  have b: "power_int 10 ?f \<le> r" "r < power_int 10 (?f + 1)" using flog_bounds [of 10 r] assms(1) by simp_all
  have "power_int 10 ?f = ?u * 10 ^ (P - 1)" "power_int 10 (?f + 1) = ?u * 10 ^ P"
    using assms(2) by (simp_all flip: power_int_add power_int_of_nat add: of_nat_diff)
  then have q: "10 ^ (P - 1) \<le> r / ?u" "r / ?u < 10 ^ P" using b u by (simp_all add: field_simps)
  note err = round_even_error [of "r / ?u"]
  have err': "r / ?u - 1 / 2 \<le> of_int ?D" "of_int ?D \<le> r / ?u + 1 / 2" using err unfolding abs_le_iff by linarith+
  have lo: "10 ^ (P - 1) \<le> ?D"
  proof -
    have "(of_int (10 ^ (P - 1)) :: rat) < of_int (?D + 1)" using err'(1) q(1) by simp
    then show ?thesis unfolding of_int_less_iff by simp
  qed
  have hi: "?D \<le> 10 ^ P"
  proof -
    have "(of_int ?D :: rat) < of_int (10 ^ P + 1)" using err'(2) q(2) by simp
    then show ?thesis unfolding of_int_less_iff by simp
  qed
  have p: "0 < ?D" using lo by (metis less_le_trans zero_less_numeral zero_less_power)
  have "\<bar>of_int ?D * ?u - r\<bar> = \<bar>of_int ?D - r / ?u\<bar> * ?u" using u by (simp add: abs_mult field_simps flip: abs_mult_pos)
  also have "\<dots> \<le> 1 / 2 * ?u" using err u by (intro mult_right_mono) simp_all
  finally have er: "\<bar>of_nat (nat ?D) * ?u - r\<bar> \<le> ?u / 2" using p by simp
  have n: "nat ?D \<le> 10 ^ P" "10 ^ (P - 1) \<le> nat ?D" using hi lo by (simp_all add: nat_le_iff le_nat_iff)
  have t: "10 ^ P = 10 ^ (P - 1) * (10 :: nat)" using assms(2) by (simp flip: power_Suc2)
  have c: "(of_nat (10 ^ P) :: rat) * ?u = of_nat (10 ^ (P - 1)) * power_int 10 (?f + 1 - int P + 1)"
    using assms(2) by (simp flip: power_int_add power_int_of_nat add: of_nat_diff add.commute)
  have "10 ^ (P - 1) \<le> D \<and> D < 10 ^ P \<and> ?f \<le> e \<and> e \<le> ?f + 1 \<and> \<bar>of_nat D * power_int 10 (e - int P + 1) - r\<bar> \<le> ?u / 2"
  proof (cases "nat ?D = 10 ^ P")
    case True
    then have De: "D = 10 ^ (P - 1)" "e = ?f + 1" using assms(3) by (simp_all add: significant_def Let_def)
    moreover have "\<bar>of_nat D * power_int 10 (e - int P + 1) - r\<bar> \<le> ?u / 2" unfolding De c [symmetric] using er True by simp
    ultimately show ?thesis using t by simp
  next
    case False
    then have De: "D = nat ?D" "e = ?f" using assms(3) by (auto simp: significant_def Let_def)
    then show ?thesis using n False er by simp
  qed
  then show "10 ^ (P - 1) \<le> D" "D < 10 ^ P" "?f \<le> e" "e \<le> ?f + 1"
    "\<bar>of_nat D * power_int 10 (e - int P + 1) - r\<bar> \<le> ?u / 2" by blast+
qed

lemma strtod_fmt_g:
  assumes "0 < r" "1 \<le> P" "significant P r = (D, e)"
  shows "strtod (fmt_g P neg r) = (to_double neg (of_nat D * power_int 10 (e - int P + 1)), length (fmt_g P neg r))"
proof -
  let ?ds = "dec_digits D" and ?sg = "if neg then [45] else []"
  have P: "P = Suc (P - 1)" using assms(2) by simp
  have len: "length ?ds = P"
    using length_dec_digits_eq [of "P - 1" D] significant_spec(1,2) [OF assms] P by simp
  have dg: "\<And>c. c \<in> set ?ds \<Longrightarrow> digit c" by (rule dec_digits_digit)
  have tk: "c \<in> set (take n ?ds @ drop n ?ds) \<Longrightarrow> digit c" for c n using dg by simp
  have ne: "take (Suc n) ?ds \<noteq> []" for n using len P by (cases ?ds) auto
  consider (sci) "e < - 4 \<or> int P \<le> e" | (fixed) "\<not> (e < - 4 \<or> int P \<le> e)" "0 \<le> e" | (small) "\<not> (e < - 4 \<or> int P \<le> e)" "\<not> 0 \<le> e"
    by blast
  then show ?thesis
  proof cases
    case sci
    then have f: "fmt_g P neg r = ?sg @ take 1 ?ds @ fraction_text (drop 1 ?ds) @ exponent_text e"
      using assms(1,3) by (simp add: fmt_g_def Let_def)
    have k: "e - int (length (drop 1 ?ds)) = e - int P + 1" using len P by simp
    show ?thesis unfolding f using strtod_text [of "take 1 ?ds" "drop 1 ?ds" "exponent_text e" e neg] ne [of 0] tk [of _ 1]
      by (simp only: k append_take_drop_id dec_digits_value) simp
  next
    case fixed
    let ?n = "nat e + 1"
    have f: "fmt_g P neg r = ?sg @ take ?n ?ds @ fraction_text (drop ?n ?ds) @ []"
      using assms(1,3) fixed by (simp add: fmt_g_def Let_def)
    have k: "0 - int (length (drop ?n ?ds)) = e - int P + 1" using len P fixed by simp
    show ?thesis unfolding f using strtod_text [of "take ?n ?ds" "drop ?n ?ds" "[]" 0 neg] ne [of "nat e"] tk [of _ ?n]
      by (simp only: k append_take_drop_id dec_digits_value) simp
  next
    case small
    let ?xs = "replicate (nat (- e) - 1) 48 @ ?ds"
    have f: "fmt_g P neg r = ?sg @ [48] @ fraction_text ?xs @ []"
      using assms(1,3) small by (simp add: fmt_g_def Let_def)
    have k: "0 - int (length ?xs) = e - int P + 1" using len P small by simp
    have d: "digit c" if "c \<in> set ([48] @ ?xs)" for c using that dg by (auto simp: digit_def)
    have v: "digits_value ([48] @ ?xs) = D"
      using digits_value_leading [of "Suc (nat (- e) - 1)" ?ds] by simp
    show ?thesis unfolding f using strtod_text [of "[48]" ?xs "[]" 0 neg] d by (simp only: k v) simp
  qed
qed

lemma length_exponent_text: "\<bar>e\<bar> < 1000 \<Longrightarrow> length (exponent_text e) \<le> 5"
proof -
  assume "\<bar>e\<bar> < 1000"
  then have n: "nat \<bar>e\<bar> < 1000" by simp
  have "length (dec_digits m) \<le> 3" if "m < 1000" for m
  proof (cases "m = 0")
    case False
    have "10 ^ ilog 10 m \<le> m" using ilog_bounds [of 10 m] False by simp
    then have "10 ^ ilog 10 m < (10 :: nat) ^ 3" using that by simp
    then have "ilog 10 m < 3" by (rule power_less_imp_less_exp [rotated]) simp
    then show ?thesis using length_dec_digits [of m] False by simp
  qed (simp add: dec_digits.simps)
  moreover have "length (dec_digits m) = 1" if "m < 10" for m using that by (simp add: dec_digits.simps)
  ultimately show ?thesis using n by (auto simp: exponent_text_def)
qed

lemma length_fmt_g:
  assumes "0 < r" "1 \<le> P" "flog 10 r < 999" "- 1000 < flog 10 r"
  shows "length (fmt_g P neg r) \<le> P + 7"
proof -
  obtain D e where s: "significant P r = (D, e)" by (cases "significant P r")
  note sp = significant_spec [OF assms(1,2) s]
  have len: "length (dec_digits D) = P" using length_dec_digits_eq [of "P - 1" D] sp(1,2) assms(2) by simp
  have x: "length (exponent_text e) \<le> 5" using sp(3,4) assms(3,4) by (intro length_exponent_text) simp
  have a: "length (take n (dec_digits D)) + length (fraction_text (drop n (dec_digits D))) \<le> P + 1" for n
    using length_fraction_text [of "drop n (dec_digits D)"] len by simp
  have b: "length (fraction_text (replicate (nat (- e) - 1) 48 @ dec_digits D)) \<le> P + 4" if "- 4 \<le> e"
    using length_fraction_text [of "replicate (nat (- e) - 1) 48 @ dec_digits D"] len that by simp
  show ?thesis using x assms(1) a [of 1] a [of "nat e + 1"] b by (auto simp: fmt_g_def s Let_def)
qed

section \<open>Seventeen digits are enough\<close>

lemma valid_double_mantissa:
  assumes "valid_double (Finite neg r)" "0 < r"
  obtains m where "r = of_int m * power_int 2 (last_place r)" "0 < m" "m < 2 ^ 53" "r < 2 ^ 1024"
proof -
  let ?u = "power_int 2 (last_place r) :: rat" and ?m = "round_even (r / power_int 2 (last_place r))"
  have u: "0 < ?u" by (rule zero_less_power_int) simp
  have r: "r = of_int ?m * ?u" "r < 2 ^ 1024" using assms by (auto simp: to_double_def Let_def split: if_splits)
  have "r < power_int 2 (flog 2 r + 1)" using flog_bounds [of 2 r] assms(2) by simp
  also have "\<dots> \<le> power_int 2 (last_place r + 53)" by (rule power_int_increasing) (simp_all add: last_place_def)
  finally have "of_int ?m * ?u < of_int (2 ^ 53) * ?u" using r(1) by (simp add: power_int_add)
  then have "?m < 2 ^ 53" using u by (simp only: mult_less_cancel_right_pos of_int_less_iff)
  moreover have "0 < ?m" using r(1) assms(2) u by (metis of_int_0_less_iff zero_less_mult_pos2)
  ultimately show thesis using that r by blast
qed

text \<open>A positive number within \<open>10\<^sup>-\<^sup>1\<^sup>6 / 2\<close> of a double, relative to it, is rounded to that double.\<close>

lemma to_double_near:
  assumes "valid_double (Finite neg r)" "0 < r" "0 < V" "\<bar>V - r\<bar> \<le> r / (2 * 10 ^ 16)"
  shows "to_double neg V = Finite neg r"
proof -
  obtain m where m: "r = of_int m * power_int 2 (last_place r)" "0 < m" "m < 2 ^ 53" and big: "r < 2 ^ 1024"
    by (rule valid_double_mantissa [OF assms(1,2)])
  define u :: rat where "u = power_int 2 (last_place r)"
  have u: "0 < u" unfolding u_def by (rule zero_less_power_int) simp
  define q where "q = V / u"
  have V: "V = q * u" using u by (simp add: q_def)
  have r: "r = of_int m * u" using m(1) by (simp add: u_def)
  have "\<bar>q - of_int m\<bar> * u \<le> of_int m / (2 * 10 ^ 16) * u"
    using assms(4) u unfolding V r by (simp add: abs_mult flip: left_diff_distrib)
  then have q: "\<bar>q - of_int m\<bar> \<le> of_int m / (2 * 10 ^ 16)" using u by (simp only: mult_le_cancel_right_pos)
  have m': "(of_int m :: rat) \<le> 2 ^ 53 - 1" using m(3) by (metis (mono_tags) of_int_diff of_int_le_iff of_int_numeral of_int_power of_int_1 zle_diff1_eq)
  then have half: "\<bar>q - of_int m\<bar> < 1 / 2" using q by simp
  have fin: "to_double neg V = Finite neg r"
    if "of_int (round_even (V / power_int 2 (last_place V))) * power_int 2 (last_place V) = r"
    using that assms(3) big by (simp add: to_double_def Let_def)
  have fV: "power_int 2 (flog 2 V) \<le> V" "V < power_int 2 (flog 2 V + 1)" using flog_bounds [of 2 V] assms(3) by simp_all
  have w: "power_int 2 (last_place r + 52) = 2 ^ 52 * u" "power_int 2 (last_place r + 53) = 2 ^ 53 * u"
    "power_int 2 (last_place r + 51) = 2 ^ 51 * u" by (simp_all add: u_def power_int_add)
  consider "last_place V = last_place r" | "last_place r < last_place V" | "last_place V < last_place r" by linarith
  then show ?thesis
  proof cases
    case 1
    have "round_even q = m" using half by (rule round_even_near)
    then show ?thesis using fin r unfolding 1 u_def [symmetric] q_def by simp
  next
    case 2
    then have "last_place r + 53 \<le> flog 2 V" by (auto simp: last_place_def)
    then have "power_int 2 (last_place r + 53) \<le> (power_int 2 (flog 2 V) :: rat)" by (rule power_int_increasing) simp
    then have "2 ^ 53 * u \<le> q * u" using fV(1) unfolding w V by linarith
    then have "2 ^ 53 \<le> q" using u by (simp only: mult_le_cancel_right_pos)
    then show ?thesis using q m' by (simp add: abs_le_iff field_simps)
  next
    case 3
    then have f: "flog 2 V + 1 \<le> last_place r + 52" "last_place r + 52 = flog 2 r" by (auto simp: last_place_def)
    have "power_int 2 (flog 2 V + 1) \<le> (power_int 2 (last_place r + 52) :: rat)" using f(1) by (rule power_int_increasing) simp
    then have "q * u < 2 ^ 52 * u" using fV(2) unfolding w V by linarith
    then have q1: "q < 2 ^ 52" using u by (simp only: mult_less_cancel_right_pos)
    have "power_int 2 (last_place r + 52) \<le> r" using flog_bounds [of 2 r] assms(2) unfolding f(2) by simp
    then have "of_int (2 ^ 52) * u \<le> r" unfolding w by simp
    then have "of_int (2 ^ 52) * u \<le> of_int m * u" unfolding r .
    then have m1: "2 ^ 52 \<le> m" using u by (simp only: mult_le_cancel_right_pos of_int_le_iff)
    have "of_int m < q + 1 / 2" using half unfolding abs_less_iff by linarith
    then have "(of_int m :: rat) < 2 ^ 52 + 1" using q1 by linarith
    then have "(of_int m :: rat) < of_int (2 ^ 52 + 1)" by simp
    then have m2: "m = 2 ^ 52" using m1 unfolding of_int_less_iff by simp
    have q2: "\<bar>q - 2 ^ 52\<bar> < 1 / 4" using q unfolding m2 by simp
    have "2 ^ 52 - 1 / 4 < q" using q2 unfolding abs_less_iff by linarith
    then have "2 ^ 51 \<le> q" by simp
    then have "power_int 2 (last_place r + 51) \<le> V" unfolding w V using u by (simp only: mult_le_cancel_right_pos)
    moreover have "V < power_int 2 (last_place r + 51 + 1)" unfolding add.assoc V using w(1) u q1 by simp
    ultimately have "flog 2 V = last_place r + 51" by (intro flog_unique) simp_all
    then have lV: "last_place V = last_place r - 1" using 3 by (auto simp: last_place_def)
    then have h: "power_int 2 (last_place V) = u / 2" by (simp add: u_def power_int_diff)
    have "\<bar>q * 2 - of_int (2 ^ 53)\<bar> = \<bar>q - 2 ^ 52\<bar> * 2" by (simp add: abs_if)
    also have "\<dots> < 1 / 2" using q2 by simp
    finally have "round_even (q * 2) = 2 ^ 53" by (rule round_even_near)
    moreover have "V / (u / 2) = q * 2" using u by (simp add: V)
    ultimately show ?thesis by (intro fin) (simp only: h, simp add: r m2)
  qed
qed

lemma fmt_17_reads_back:
  assumes "valid_double (Finite neg r)"
  shows "strtod (fmt_g 17 neg r) = (Finite neg r, length (fmt_g 17 neg r))"
proof (cases "r = 0")
  case True
  then show ?thesis using strtod_text [of "[48]" "[]" "[]" 0 neg]
    by (simp add: fmt_g_def fraction_text_def strip_zeros_def digit_def to_double_def digits_value_def)
next
  case False
  then have r: "0 < r" using assms by simp
  obtain D e where s: "significant 17 r = (D, e)" by (cases "significant 17 r")
  note sp = significant_spec [OF r _ s]
  let ?V = "of_nat D * power_int 10 (e - int 17 + 1) :: rat"
  have "0 < D" using sp(1) by simp
  then have V: "0 < ?V" by (intro mult_pos_pos zero_less_power_int) simp_all
  have "\<bar>?V - r\<bar> \<le> power_int 10 (flog 10 r - int 17 + 1) / 2" using sp(5) by simp
  also have "power_int 10 (flog 10 r - int 17 + 1) = (power_int 10 (flog 10 r) :: rat) / 10 ^ 16"
    by (simp add: power_int_diff power_int_add)
  also have "\<dots> / 2 \<le> r / (2 * 10 ^ 16)" using flog_bounds [of 10 r] r by simp
  finally show ?thesis using strtod_fmt_g [OF r _ s] to_double_near [OF assms r V] by simp
qed

lemma round_even_nonneg: "0 \<le> x \<Longrightarrow> 0 \<le> round_even x"
  by (auto simp: round_even_def Let_def)

lemma to_double_cases:
  assumes "0 \<le> x"
  obtains "to_double neg x = Infinite neg" | y where "to_double neg x = Finite neg y" "0 \<le> y"
proof (cases "x = 0")
  case False
  let ?u = "power_int 2 (last_place x) :: rat"
  have "0 \<le> ?u" by (rule zero_le_power_int) simp
  then have "0 \<le> of_int (round_even (x / ?u)) * ?u"
    using assms by (intro mult_nonneg_nonneg) (simp_all add: round_even_nonneg)
  moreover have "to_double neg x = Infinite neg \<or> to_double neg x = Finite neg (of_int (round_even (x / ?u)) * ?u)"
    using False by (simp add: to_double_def Let_def)
  ultimately show thesis using that by blast
qed (use that in \<open>simp add: to_double_def\<close>)

lemma compare_double_refl: "0 \<le> r \<Longrightarrow> compare_double (Finite neg r) (Finite neg r)"
proof -
  assume "0 \<le> r"
  then have "0 \<le> r * (1 / 2 ^ 52)" by simp
  then show ?thesis
    by (cases rule: to_double_cases [where neg = False])
      (simp_all add: compare_double_def of_value_def to_double_def [of False 0] less_double_def DBL_EPSILON_def)
qed

lemma strtod_fmt_g_length: "0 \<le> r \<Longrightarrow> 1 \<le> P \<Longrightarrow> snd (strtod (fmt_g P neg r)) = length (fmt_g P neg r)"
proof (cases "r = 0")
  case True
  then show ?thesis using strtod_text [of "[48]" "[]" "[]" 0 neg]
    by (simp add: fmt_g_def fraction_text_def strip_zeros_def digit_def)
next
  case False
  assume "0 \<le> r" "1 \<le> P"
  then show ?thesis using False strtod_fmt_g [of r P] by (cases "significant P r") simp
qed

lemma number_text_reads_back:
  assumes "valid_double (Finite neg r)"
  shows "\<exists>d. strtod (number_text (Finite neg r)) = (d, length (number_text (Finite neg r))) \<and> compare_double d (Finite neg r)"
proof -
  have r: "0 \<le> r" using assms by simp
  obtain test where t: "strtod (fmt_g 15 neg r) = (test, length (fmt_g 15 neg r))"
    using strtod_fmt_g_length [of r 15 neg] r by (metis one_le_numeral prod.collapse)
  show ?thesis
    using t fmt_17_reads_back [OF assms] compare_double_refl [OF r] by (simp add: number_text_def Let_def)
qed

lemma flog_10_bounds:
  assumes "valid_double (Finite neg r)" "0 < r"
  shows "flog 10 r < 309" "- 326 < flog 10 r"
proof -
  obtain m where m: "r = of_int m * power_int 2 (last_place r)" "0 < m" "r < 2 ^ 1024"
    by (rule valid_double_mantissa [OF assms])
  note f = flog_bounds [of 10 r, simplified, OF assms(2)]
  have "power_int 10 (flog 10 r) < (power_int 10 309 :: rat)"
  proof -
    have "(2 ^ 1024 :: rat) < 10 ^ 309" by simp
    also have "\<dots> = power_int 10 309" by (simp add: power_int_def)
    finally show ?thesis using f m(3) by linarith
  qed
  then show "flog 10 r < 309" by (rule power_int_le_imp_less_exp [rotated]) simp_all
  have "power_int 2 (- 1074) \<le> (power_int 2 (last_place r) :: rat)" by (rule power_int_increasing) (simp_all add: last_place_def)
  also have "\<dots> \<le> r"
  proof -
    have "(1 :: rat) * power_int 2 (last_place r) \<le> of_int m * power_int 2 (last_place r)"
      using m(2) by (intro mult_right_mono zero_le_power_int) simp_all
    then show ?thesis using m(1) by simp
  qed
  finally have "power_int 2 (- 1074) \<le> r" .
  moreover have "(power_int 10 (- 325) :: rat) < power_int 2 (- 1074)" by (simp add: power_int_def divide_simps)
  ultimately have l: "power_int 10 (- 325) < (power_int 10 (flog 10 r + 1) :: rat)" using f by linarith
  show "- 326 < flog 10 r"
  proof (rule ccontr)
    assume "\<not> - 326 < flog 10 r"
    then have "power_int 10 (flog 10 r + 1) \<le> (power_int 10 (- 325) :: rat)" by (intro power_int_increasing) simp_all
    then show False using l by simp
  qed
qed

lemma length_number_text:
  assumes "valid_double d"
  shows "length (number_text d) \<le> 24"
proof (cases d)
  case (Finite neg r)
  have z: "length (fmt_g P neg 0) \<le> 24" for P by (simp add: fmt_g_def)
  show ?thesis
  proof (cases "r = 0")
    case True
    then show ?thesis using z Finite by (simp add: number_text_def Let_def case_prod_beta)
  next
    case False
    then have r: "0 < r" "valid_double (Finite neg r)" using assms Finite by simp_all
    have "length (fmt_g P neg r) \<le> P + 7" if "1 \<le> P" for P
      by (rule length_fmt_g [OF r(1) that]) (use flog_10_bounds [OF r(2,1)] in simp_all)
    from this [of 15] this [of 17] show ?thesis using Finite by (simp add: number_text_def Let_def case_prod_beta)
  qed
qed (simp_all add: number_text_def bytes_of_def)

section \<open>Numbers are printed inside their buffers\<close>

lemma number_char_nonzero: "number_char c \<Longrightarrow> c \<noteq> 0"
  by (auto simp: number_char_def digit_def)

lemma set_fraction_text: "(\<And>c. c \<in> set xs \<Longrightarrow> digit c) \<Longrightarrow> c \<in> set (fraction_text xs) \<Longrightarrow> number_char c"
  by (auto simp: fraction_text_def Let_def number_char_def dest: set_strip_zeros split: if_splits)

lemma set_fmt_g: "c \<in> set (fmt_g P neg r) \<Longrightarrow> number_char c"
proof -
  assume c: "c \<in> set (fmt_g P neg r)"
  obtain D e where s: "significant P r = (D, e)" by (cases "significant P r")
  have d: "digit x" if "x \<in> set (dec_digits n)" for x n using that by (rule dec_digits_digit)
  have e: "number_char x" if "x \<in> set (exponent_text e)" for x
    using that d [of x] by (auto simp: exponent_text_def number_char_def digit_def split: if_splits)
  have f: "number_char x" if "x \<in> set (fraction_text (drop n (dec_digits D)))" for x n
    by (rule set_fraction_text [OF _ that]) (use d in_set_dropD in fast)
  have g: "number_char x" if "x \<in> set (fraction_text (replicate n 48 @ dec_digits D))" for x n
    by (rule set_fraction_text [OF _ that]) (use d in \<open>auto simp: digit_def\<close>)
  have t: "number_char x" if "x \<in> set (take n (dec_digits D))" for x n
    using d in_set_takeD [OF that] by (simp add: number_char_def)
  show ?thesis using c e f g t
    by (auto simp: fmt_g_def s Let_def split: if_splits) (simp_all add: number_char_def digit_def)
qed

lemma set_number_text:
  "c \<in> set (number_text (Finite neg r)) \<Longrightarrow> number_char c" "0 \<notin> set (number_text d)"
proof -
  show n: "number_char c" if "c \<in> set (number_text (Finite neg r))" for c neg r
    using that set_fmt_g by (auto simp: number_text_def Let_def split: prod.splits if_splits)
  show "0 \<notin> set (number_text d)"
  proof (cases d)
    case (Finite neg r)
    then show ?thesis using n number_char_nonzero by blast
  qed (simp_all add: number_text_def bytes_of_def)
qed

lemma print_number_prints:
  assumes "pb_ok p" "valid_double d"
  shows "prints fresh (pb_offset p + length (number_text d) + 2) p (print_number fresh d p) (printed p (number_text d))"
proof -
  let ?t = "number_text d" and ?Q = "\<lambda>p'. holds p (pb_offset p) (number_text d @ [0]) p' \<and> pb_offset p' = pb_offset p \<and> pb_depth p' = pb_depth p"
  have len: "\<not> 26 < length ?t + 1" using length_number_text [OF assms(2)] by simp
  have "prints fresh (pb_offset p + (length ?t + 1) + 1) p
      (if_ok (ensure fresh (length ?t + 1) p) (\<lambda>p1. return_true (pb_store (pb_offset p1) (?t @ [0]) p1))) ?Q"
    by (rule ensure_puts [OF assms(1)]) (auto intro!: puts_store)
  then have "prints fresh (pb_offset p + (length ?t + 1) + 1) p
      (if_ok (if_ok (ensure fresh (length ?t + 1) p) (\<lambda>p1. return_true (pb_store (pb_offset p1) (?t @ [0]) p1)))
        (\<lambda>p1. Inr (True, p1\<lparr>pb_offset := pb_offset p1 + length ?t\<rparr>))) (printed p ?t)"
  proof (rule prints_bind)
    fix p1 assume "framed p p1" "?Q p1"
    then show "prints fresh 0 p1 (Inr (True, p1\<lparr>pb_offset := pb_offset p1 + length ?t\<rparr>)) (printed p ?t)"
      using set_number_text(2) [of d] by (intro prints_return) (auto simp: framed_def printed_def holds_def)
  qed simp_all
  moreover have "print_number fresh d p =
      if_ok (if_ok (ensure fresh (length ?t + 1) p) (\<lambda>p1. return_true (pb_store (pb_offset p1) (?t @ [0]) p1)))
        (\<lambda>p1. Inr (True, p1\<lparr>pb_offset := pb_offset p1 + length ?t\<rparr>))"
    using len by (auto simp: print_number_def Let_def if_ok_def return_true_def bind_fault_def split: sum.splits)
  ultimately show ?thesis by simp
qed

text \<open>The number the text of a double reads as.\<close>

definition reread :: "double \<Rightarrow> double" where
  "reread d = fst (strtod (number_text d))"

lemma strtod_number_text:
  assumes "valid_double (Finite neg r)"
  shows "strtod (number_text (Finite neg r)) = (reread (Finite neg r), length (number_text (Finite neg r)))"
  using number_text_reads_back [OF assms] by (auto simp: reread_def)

lemma number_text_nonempty: "number_text d \<noteq> []"
proof (cases d)
  case (Finite neg r)
  have n: "fmt_g P neg r \<noteq> []" for P
  proof -
    obtain D e where s: "significant P r = (D, e)" by (cases "significant P r")
    have "dec_digits D \<noteq> []" using dec_digits_length [of D] by auto
    then show ?thesis by (simp add: fmt_g_def s Let_def)
  qed
  then show ?thesis using Finite by (auto simp: number_text_def Let_def split: prod.splits)
qed (simp_all add: number_text_def bytes_of_def)

text \<open>\<^verbatim>\<open>parse_number\<close> on the text of a double that no other character of a number follows.\<close>

lemma parse_number_text:
  assumes "valid_double (Finite neg r)" "content b = pre @ number_text (Finite neg r) @ rest" "offset b = length pre"
    and "\<forall>c cs. rest = c # cs \<longrightarrow> \<not> number_char c"
  shows "parse_number b = bind_fault (saturate_int (reread (Finite neg r))) (\<lambda>i.
    Inr (Some (reread (Finite neg r), i), b\<lparr>offset := length pre + length (number_text (Finite neg r))\<rparr>))"
proof -
  let ?t = "number_text (Finite neg r)"
  have len: "length ?t \<le> 63" using length_number_text [OF assms(1)] by simp
  have all: "\<forall>c \<in> set ?t. number_char c" using set_number_text(1) by blast
  have "takeWhile number_char (take 63 (?t @ rest)) = ?t"
  proof -
    have "takeWhile number_char (take (63 - length ?t) rest) = []"
      using assms(4) by (cases rest; cases "63 - length ?t") auto
    then show ?thesis using len all by (simp add: takeWhile_append2)
  qed
  then show ?thesis using strtod_number_text [OF assms(1)] assms(2,3) number_text_nonempty [of "Finite neg r"]
    by (simp add: parse_number_def)
qed

section \<open>Integers are exact\<close>

lemma to_double_scaled:
  assumes "0 < r" "r < 2 ^ 1024" "r = of_int m * power_int 2 (last_place r)"
  shows "to_double neg r = Finite neg r"
proof -
  let ?u = "power_int 2 (last_place r) :: rat"
  have "0 < ?u" by (rule zero_less_power_int) simp
  then have "r / ?u = of_int m" using assms(3) by (metis nonzero_mult_div_cancel_right less_numeral_extra(3))
  then have "of_int (round_even (r / ?u)) * ?u = r" using assms(3) by simp
  then show ?thesis using assms(1,2) by (simp add: to_double_def Let_def)
qed

lemma valid_double_nat:
  assumes "n < 2 ^ 53"
  shows "valid_double (Finite neg (of_nat n))"
proof (cases "n = 0")
  case False
  let ?r = "of_nat n :: rat"
  have f: "power_int 2 (flog 2 ?r) \<le> ?r" using flog_bounds [of 2 ?r] False by simp
  have b: "?r < 2 ^ 53" using assms by (metis (mono_tags) of_nat_less_iff of_nat_numeral of_nat_power)
  have "power_int 2 (flog 2 ?r) < (power_int 2 53 :: rat)" using f b by (simp add: power_int_def)
  then have l: "flog 2 ?r < 53" by (rule power_int_le_imp_less_exp [rotated]) simp_all
  have z: "last_place ?r \<le> 0" using l by (simp add: last_place_def)
  have "?r = of_int (int n * 2 ^ nat (- last_place ?r)) * power_int 2 (last_place ?r)"
    using z by (simp add: power_int_def flip: power_mult_distrib)
  from to_double_scaled [OF _ _ this] have "to_double neg ?r = Finite neg ?r" using False b by simp
  then show ?thesis by simp
qed (simp add: to_double_def)

lemma dec_digits_scaled: "0 < n \<Longrightarrow> dec_digits (n * 10 ^ z) = dec_digits n @ replicate z 48"
proof (induction z)
  case (Suc z)
  have "dec_digits (n * 10 ^ Suc z) = dec_digits (n * 10 ^ z) @ [48]"
    using Suc.prems by (subst dec_digits.simps) (simp add: mult.assoc [symmetric] mult.commute)
  then show ?case using Suc by (simp add: replicate_append_same)
qed simp

lemma fmt_g_nat:
  assumes "n < 10 ^ P" "1 \<le> P"
  shows "fmt_g P neg (of_nat n) = (if neg then [45] else []) @ dec_digits n"
proof (cases "n = 0")
  case False
  let ?r = "of_nat n :: rat" and ?k = "ilog 10 n"
  have k: "10 ^ ?k \<le> n" "n < 10 ^ Suc ?k" using ilog_bounds [of 10 n] False by simp_all
  have kP: "?k < P"
  proof -
    have "10 ^ ?k < (10 :: nat) ^ P" using k(1) assms(1) by linarith
    then show ?thesis by (rule power_less_imp_less_exp [rotated]) simp
  qed
  have f: "flog 10 ?r = int ?k"
  proof (rule flog_unique)
    show "power_int (of_nat 10) (int ?k) \<le> ?r" using k(1) by (metis of_nat_le_iff of_nat_power power_int_of_nat)
    show "?r < power_int (of_nat 10) (int ?k + 1)"
      using k(2) by (metis of_nat_less_iff of_nat_power power_int_of_nat of_nat_Suc add.commute)
  qed simp
  let ?z = "P - 1 - ?k"
  have e: "int ?k - int P + 1 = - int ?z" using kP by simp
  have q: "?r / power_int 10 (int ?k - int P + 1) = of_int (int (n * 10 ^ ?z))"
    unfolding e by (simp add: power_int_minus divide_inverse)
  have "n * 10 ^ ?z < 10 ^ Suc ?k * 10 ^ ?z" using k(2) by simp
  also have "\<dots> = 10 ^ P" using kP by (simp flip: power_add power_Suc)
  finally have "n * 10 ^ ?z < 10 ^ P" .
  then have s: "significant P ?r = (n * 10 ^ ?z, int ?k)"
    unfolding significant_def f Let_def q round_even_of_int nat_int by simp
  have l: "length (dec_digits n) = nat (int ?k) + 1" using length_dec_digits [of n] False by simp
  have "fraction_text (replicate ?z 48) = []" by (simp add: fraction_text_def strip_zeros_def)
  then have "take (nat (int ?k) + 1) (dec_digits (n * 10 ^ ?z)) @ fraction_text (drop (nat (int ?k) + 1) (dec_digits (n * 10 ^ ?z))) = dec_digits n"
    using False l by (simp add: dec_digits_scaled)
  then show ?thesis using s False kP by (simp add: fmt_g_def)
qed (simp add: fmt_g_def dec_digits.simps)

text \<open>
  A whole number of at most fifteen digits is printed as its decimal digits, behind a minus sign when
  it is negative, and the text reads as exactly that number, with the \<^verbatim>\<open>valueint\<close> it had, saturated at the
  bounds of \<^verbatim>\<open>int\<close>.
\<close>

theorem integers_print_exactly:
  assumes "n < 10 ^ 15"
  shows "number_text (Finite neg (of_nat n)) = (if neg then [45] else []) @ dec_digits n \<and>
    strtod (number_text (Finite neg (of_nat n))) = (Finite neg (of_nat n), length (number_text (Finite neg (of_nat n)))) \<and>
    saturate_int (Finite neg (of_nat n)) =
      Inr (if neg then max (- int n) (- 2147483648) else min (int n) 2147483647)"
proof -
  have v: "valid_double (Finite neg (of_nat n))" by (rule valid_double_nat) (use assms in simp)
  have t: "fmt_g 15 neg (of_nat n) = (if neg then [45] else []) @ dec_digits n" using assms by (intro fmt_g_nat) simp_all
  have "strtod ((if neg then [45] else []) @ dec_digits n @ fraction_text [] @ []) =
      (to_double neg (of_nat n), length ((if neg then [45] else []) @ dec_digits n @ fraction_text [] @ []))"
    using strtod_text [of "dec_digits n" "[]" "[]" 0 neg] dec_digits_length [of n] dec_digits_digit by fastforce
  then have s: "strtod (fmt_g 15 neg (of_nat n)) = (Finite neg (of_nat n), length (fmt_g 15 neg (of_nat n)))"
    using v t by (simp add: fraction_text_def strip_zeros_def)
  have c: "compare_double (Finite neg (of_nat n)) (Finite neg (of_nat n))" by (rule compare_double_refl) simp
  have ne: "fmt_g 15 neg (of_nat n) \<noteq> []" using t dec_digits_length [of n] by auto
  have n: "number_text (Finite neg (of_nat n)) = fmt_g 15 neg (of_nat n)"
    using s c ne by (simp add: number_text_def)
  show ?thesis unfolding n s
    by (auto simp: t saturate_int_def INT_MAX_INT_def INT_MIN_INT_def le_double.simps min_def max_def)
qed

theorem integers_print_exactly_witness:
  "number_text (Finite True 2500) = bytes_of ''-2500'' \<and> fst (strtod (number_text (Finite True 2500))) = Finite True 2500"
  using integers_print_exactly [of 2500 True] by (auto simp: dec_digits.simps bytes_of_def)

section \<open>Rounding gives doubles\<close>

lemma round_even_ge: "of_int k \<le> x \<Longrightarrow> k \<le> round_even x"
proof -
  assume "of_int k \<le> x"
  moreover have "x - 1 / 2 \<le> of_int (round_even x)" using round_even_error [of x] unfolding abs_le_iff by linarith
  ultimately have "of_int k < (of_int (round_even x + 1) :: rat)" by simp
  then show ?thesis unfolding of_int_less_iff by simp
qed

lemma round_even_le: "x \<le> of_int k \<Longrightarrow> round_even x \<le> k"
proof -
  assume "x \<le> of_int k"
  moreover have "of_int (round_even x) \<le> x + 1 / 2" using round_even_error [of x] unfolding abs_le_iff by linarith
  ultimately have "of_int (round_even x) < (of_int (k + 1) :: rat)" by simp
  then show ?thesis unfolding of_int_less_iff by simp
qed

lemma to_double_valid:
  assumes "0 \<le> x" "to_double neg x = Finite neg' y"
  shows "valid_double (Finite neg' y)"
proof (cases "x = 0")
  case False
  let ?L = "last_place x"
  let ?u = "power_int 2 ?L :: rat" and ?m = "round_even (x / power_int 2 (last_place x))"
  have u: "0 < ?u" by (rule zero_less_power_int) simp
  have y: "y = of_int ?m * ?u" "y < 2 ^ 1024" "neg' = neg"
    using assms(2) False by (auto simp: to_double_def Let_def split: if_splits)
  have "x < power_int 2 (flog 2 x + 1)" using flog_bounds [of 2 x] assms(1) False by simp
  also have "\<dots> \<le> power_int 2 (?L + 53)" by (rule power_int_increasing) (simp_all add: last_place_def)
  finally have "x / ?u \<le> of_int (2 ^ 53)" using u by (simp add: power_int_add field_simps)
  then have m: "?m \<le> 2 ^ 53" by (rule round_even_le)
  have m0: "0 \<le> ?m" using assms(1) u by (intro round_even_nonneg) simp
  consider "?m = 0" | "0 < ?m" "?m < 2 ^ 53" | "?m = 2 ^ 53" using m m0 by linarith
  then show ?thesis
  proof cases
    case 1
    then show ?thesis using y by (simp add: to_double_def)
  next
    case 2
    have p: "0 < y" using y(1) 2(1) u by simp
    have "of_int ?m * ?u < of_int (2 ^ 53) * ?u" using 2(2) u by (simp only: mult_less_cancel_right_pos of_int_less_iff)
    then have "y < power_int 2 (?L + 53)" using y(1) by (simp add: power_int_add)
    moreover have "power_int 2 (flog 2 y) \<le> y" using flog_bounds [of 2 y] p by simp
    ultimately have lt: "power_int 2 (flog 2 y) < (power_int 2 (?L + 53) :: rat)" by linarith
    have "flog 2 y < ?L + 53"
    proof (rule ccontr)
      assume "\<not> flog 2 y < ?L + 53"
      then have "power_int 2 (?L + 53) \<le> (power_int 2 (flog 2 y) :: rat)" by (intro power_int_increasing) simp_all
      then show False using lt by simp
    qed
    then have le: "last_place y \<le> ?L" by (auto simp: last_place_def)
    have "power_int 2 ?L = (2 :: rat) ^ nat (?L - last_place y) * power_int 2 (last_place y)"
      using le by (simp flip: power_int_of_nat power_int_add)
    then have s: "y = of_int (?m * 2 ^ nat (?L - last_place y)) * power_int 2 (last_place y)" using y(1) by simp
    show ?thesis using to_double_scaled [OF p y(2) s] p y(3) by simp
  next
    case 3
    have yp: "y = power_int 2 (?L + 53)" using y(1) 3 by (simp add: power_int_add)
    then have p: "0 < y" by (simp only:) (rule zero_less_power_int, simp)
    have "flog 2 y = ?L + 53"
      by (rule flog_unique) (simp_all add: yp power_int_add)
    then have "last_place y = ?L + 1" by (auto simp: last_place_def)
    then have s: "y = of_int (2 ^ 52) * power_int 2 (last_place y)" using yp by (simp add: power_int_add)
    show ?thesis using to_double_scaled [OF p y(2) s] p y(3) by simp
  qed
qed (use assms in \<open>simp add: to_double_def\<close>)

lemma strtod_valid: "valid_double (fst (strtod cs))"
proof -
  have "valid_double (to_double neg (of_nat n * power_int 10 k))" for neg n k
  proof -
    have z: "0 \<le> (of_nat n * power_int 10 k :: rat)" by (intro mult_nonneg_nonneg zero_le_power_int) simp_all
    show ?thesis using to_double_valid [OF z] to_double_cases [OF z, of neg] by (metis valid_double.simps(3))
  qed
  moreover have "valid_double (Finite False 0)" by (simp add: to_double_def)
  ultimately show ?thesis by (auto simp: strtod_def Let_def split: prod.splits simp del: valid_double.simps)
qed

lemma to_double_overflow:
  assumes "2 ^ 1024 \<le> x"
  shows "to_double neg x = Infinite neg"
proof -
  have x: "0 < x" using assms by (rule less_le_trans [rotated]) simp
  have f: "power_int 2 (flog 2 x) \<le> x" "x < power_int 2 (flog 2 x + 1)" using flog_bounds [of 2 x] x by simp_all
  have "(power_int 2 1024 :: rat) < power_int 2 (flog 2 x + 1)"
    using assms f(2) unfolding power_int_numeral by (rule le_less_trans)
  then have l: "1024 \<le> flog 2 x"
    using power_int_increasing [of "flog 2 x + 1" 1024 "2 :: rat"] by linarith
  let ?u = "power_int 2 (last_place x) :: rat"
  have u: "0 < ?u" by (rule zero_less_power_int) simp
  have e: "power_int 2 (flog 2 x) = of_int (2 ^ 52) * ?u" using l by (simp add: last_place_def power_int_diff)
  have "of_int (2 ^ 52) \<le> x / ?u" using f(1) u unfolding e by (simp only: pos_le_divide_eq)
  then have "2 ^ 52 \<le> round_even (x / ?u)" by (rule round_even_ge)
  then have "of_int (2 ^ 52) * ?u \<le> of_int (round_even (x / ?u)) * ?u" using u by (simp only: mult_le_cancel_right_pos of_int_le_iff)
  moreover have "(2 ^ 1024 :: rat) \<le> power_int 2 (flog 2 x)"
    using power_int_increasing [OF l, of "2 :: rat"] unfolding power_int_numeral by simp
  ultimately have "2 ^ 1024 \<le> of_int (round_even (x / ?u)) * ?u" unfolding e by (rule order_trans [rotated])
  then show ?thesis using x by (simp add: to_double_def Let_def)
qed

lemma saturate_int_returns: "d \<noteq> NaN \<Longrightarrow> \<exists>i. saturate_int d = Inr i \<and> INT_MIN_INT \<le> i \<and> i \<le> INT_MAX_INT"
proof (cases d)
  case (Infinite neg)
  then show ?thesis by (cases neg) (simp_all add: saturate_int_def INT_MAX_INT_def INT_MIN_INT_def)
next
  case (Finite neg r)
  have "\<lfloor>r\<rfloor> \<le> 2147483647" if "\<not> 2147483647 \<le> r" using that by linarith
  moreover have "- 2147483648 \<le> \<lfloor>r\<rfloor>" if "\<not> r \<le> - 2147483648" using that by linarith
  moreover have "- \<lfloor>r\<rfloor> \<le> 2147483647" if "\<not> 2147483647 \<le> - r" using that by linarith
  moreover have "- 2147483648 \<le> - \<lfloor>r\<rfloor>" if "\<not> - r \<le> - 2147483648" using that by linarith
  ultimately show ?thesis using Finite by (cases neg) (auto simp: saturate_int_def INT_MAX_INT_def INT_MIN_INT_def)
qed simp

lemma to_double_not_nan [simp]: "to_double neg x \<noteq> NaN"
  by (simp add: to_double_def Let_def)

lemma strtod_not_nan: "fst (strtod cs) \<noteq> NaN"
  by (auto simp: strtod_def Let_def split: prod.splits)

lemma strtod_length: "snd (strtod cs) \<le> length cs"
proof -
  have s: "fst (snd (read_sign cs)) = drop (snd (snd (read_sign cs))) cs \<and> snd (snd (read_sign cs)) \<le> length cs" for cs
    by (auto simp: read_sign_def split: list.splits)
  have f: "snd (read_fraction cs) \<le> length cs" for cs
    using length_takeWhile_le [of digit "tl cs"] by (auto simp: read_fraction_def split: list.splits)
  have e: "snd (read_exponent cs) \<le> length cs" for cs
  proof (cases cs)
    case (Cons c r)
    obtain neg r' k where r: "read_sign r = (neg, r', k)" by (cases "read_sign r")
    then have "k + length (takeWhile digit r') \<le> length r"
      using s [of r] length_takeWhile_le [of digit r'] by auto
    then show ?thesis using Cons r by (simp add: read_exponent_def Let_def)
  qed (simp add: read_exponent_def)
  obtain neg r k where r: "read_sign cs = (neg, r, k)" by (cases "read_sign cs")
  define ip where "ip = takeWhile digit r"
  obtain fp n where fn: "read_fraction (drop (length ip) r) = (fp, n)" by (cases "read_fraction (drop (length ip) r)")
  obtain x m where xm: "read_exponent (drop (length ip + n) r) = (x, m)" by (cases "read_exponent (drop (length ip + n) r)")
  have "k + length r = length cs" using s [of cs] r by auto
  moreover have "length ip \<le> length r" unfolding ip_def by (rule length_takeWhile_le)
  moreover have "n \<le> length r - length ip" using f [of "drop (length ip) r"] fn by simp
  moreover have "m \<le> length r - (length ip + n)" using e [of "drop (length ip + n) r"] xm by simp
  ultimately have "k + length ip + n + m \<le> length cs" by linarith
  then show ?thesis unfolding strtod_def r Let_def prod.case ip_def [symmetric] fn xm by simp
qed

text \<open>\<^verbatim>\<open>parse_number\<close> returns, and stays inside the text.\<close>

lemma parse_number_returns:
  assumes "offset b \<le> length (content b)"
  shows "\<exists>r b'. parse_number b = Inr (r, b') \<and> content b' = content b \<and> depth b' = depth b \<and> live b' = live b \<and> allocs b' = allocs b \<and>
    (\<forall>d i. r = Some (d, i) \<longrightarrow> valid_double d \<and> d \<noteq> NaN \<and> saturate_int d = Inr i \<and>
       offset b < offset b' \<and> offset b' \<le> length (content b))"
proof -
  let ?t = "takeWhile number_char (take 63 (drop (offset b) (content b)))"
  obtain d n where s: "strtod ?t = (d, n)" by (cases "strtod ?t")
  have "n \<le> length ?t" using strtod_length [of ?t] s by simp
  also have "\<dots> \<le> length (content b) - offset b" using length_takeWhile_le [of number_char "take 63 (drop (offset b) (content b))"] by simp
  finally have n: "offset b + n \<le> length (content b)" using assms by simp
  obtain i where "saturate_int d = Inr i" using saturate_int_returns [of d] strtod_not_nan [of ?t] s by auto
  then show ?thesis using s n strtod_valid [of ?t] strtod_not_nan [of ?t] by (auto simp: parse_number_def)
qed

section \<open>What a printed number reads as\<close>

text \<open>
  C19: the text of any double fits with its terminator into the 26 bytes of the temporary buffer that
  \<^verbatim>\<open>sprintf\<close> fills without a bound, and it is read back whole. A finite number is read back as a number
  that \<^verbatim>\<open>compare_double\<close> takes for the same, and exactly whenever fifteen digits were not found to be
  enough: seventeen digits determine every double.
\<close>

theorem number_text_round_trip:
  assumes "valid_double (Finite neg r)"
  shows "length (number_text (Finite neg r)) + 1 \<le> 26 \<and>
    (\<exists>d. strtod (number_text (Finite neg r)) = (d, length (number_text (Finite neg r))) \<and> valid_double d \<and>
       compare_double d (Finite neg r) \<and>
       (\<not> compare_double (fst (strtod (fmt_g 15 neg r))) (Finite neg r) \<longrightarrow> d = Finite neg r))"
proof -
  have "length (number_text (Finite neg r)) + 1 \<le> 26" using length_number_text [OF assms] by simp
  moreover have "number_text (Finite neg r) = fmt_g 17 neg r" if "\<not> compare_double (fst (strtod (fmt_g 15 neg r))) (Finite neg r)"
    using that by (simp add: number_text_def Let_def case_prod_beta)
  ultimately show ?thesis
    using number_text_reads_back [OF assms] fmt_17_reads_back [OF assms] strtod_valid [of "number_text (Finite neg r)"] by auto
qed

theorem number_text_round_trip_witness:
  "length (number_text (Finite False 3)) + 1 \<le> 26 \<and>
   (\<exists>d. strtod (number_text (Finite False 3)) = (d, length (number_text (Finite False 3))) \<and> compare_double d (Finite False 3))"
proof -
  have "valid_double (Finite False 3)" using valid_double_nat [of 3 False] by simp
  from number_text_round_trip [OF this] show ?thesis by blast
qed

text \<open>
  The tolerance of \<^verbatim>\<open>compare_double\<close> lets infinity pass for any number: the text of the largest double
  reads as infinity.
\<close>

definition DBL_MAX :: rat where "DBL_MAX = (2 ^ 53 - 1) * 2 ^ 971"

lemma DBL_MAX_text:
  "fmt_g 15 False DBL_MAX = bytes_of ''1.79769313486232e+308''" (is ?text)
  "strtod (fmt_g 15 False DBL_MAX) = (Infinite False, 21)" (is ?read)
proof -
  have p: "0 < DBL_MAX" by (simp add: DBL_MAX_def)
  have f: "flog 10 DBL_MAX = 308"
    by (rule flog_unique) (simp_all add: DBL_MAX_def power_int_def)
  have "round_even (DBL_MAX / 10 ^ 294) = 179769313486232"
    by (rule round_even_near) (simp add: DBL_MAX_def divide_simps)
  then have s: "significant 15 DBL_MAX = (179769313486232, 308)" by (simp add: significant_def f)
  show t: ?text using p
    by (simp add: fmt_g_def s exponent_text_def fraction_text_def strip_zeros_def dec_digits.simps bytes_of_def)
  have "to_double False (of_nat 179769313486232 * power_int 10 (308 - int 15 + 1)) = Infinite False"
    by (rule to_double_overflow) simp
  then show ?read using strtod_fmt_g [OF p _ s, of False] t by (simp add: bytes_of_def)
qed

lemma largest_double_reads_as_infinity:
  "valid_double (Finite False DBL_MAX) \<and> strtod (number_text (Finite False DBL_MAX)) = (Infinite False, 21)"
proof -
  have p: "0 < DBL_MAX" "DBL_MAX < 2 ^ 1024" by (simp_all add: DBL_MAX_def)
  have "flog 2 DBL_MAX = 1023" by (rule flog_unique) (simp_all add: DBL_MAX_def power_int_def)
  then have "DBL_MAX = of_int (2 ^ 53 - 1) * power_int 2 (last_place DBL_MAX)" by (simp add: last_place_def DBL_MAX_def)
  from to_double_scaled [OF p this] have v: "valid_double (Finite False DBL_MAX)" using p by simp
  have "compare_double (Infinite False) (Finite False DBL_MAX)"
    by (simp add: compare_double_def less_double_def DBL_EPSILON_def)
  then have "number_text (Finite False DBL_MAX) = fmt_g 15 False DBL_MAX" using DBL_MAX_text(2) by (simp add: number_text_def)
  then show ?thesis using v DBL_MAX_text(2) by simp
qed

text \<open>A number of more than 63 characters is cut: a digit and 63 zeros are read as \<open>10\<^sup>6\<^sup>2\<close>, and a zero is left.\<close>

lemma long_number_is_cut:
  assumes "content b = 49 # replicate 63 48" "offset b = 0"
  shows "\<exists>d i b'. parse_number b = Inr (Some (d, i), b') \<and> offset b' = 63"
proof -
  have n: "number_char 49" "number_char 48" by (simp_all add: number_char_def digit_def)
  then have "takeWhile number_char (take 63 (content b)) = 49 # replicate 62 48"
    unfolding assms(1) by (simp add: takeWhile_eq_all_conv numeral_eq_Suc)
  moreover have "strtod (49 # replicate 62 48) = (to_double False (of_nat (digits_value (49 # replicate 62 48))), 63)"
  proof -
    have "digit c" if "c \<in> set ((49 # replicate 62 48) @ [])" for c using that by (auto simp: digit_def)
    from strtod_text [where ip = "49 # replicate 62 48" and xs = "[]" and ex = "[]" and k = 0 and neg = False, OF _ this] show ?thesis by (simp add: fraction_text_def strip_zeros_def)
  qed
  moreover obtain i where "saturate_int (to_double False (of_nat (digits_value (49 # replicate 62 48)))) = Inr i"
    using saturate_int_returns [of "to_double False (of_nat (digits_value (49 # replicate 62 48)))"] by auto
  ultimately show ?thesis using assms(2) by (simp add: parse_number_def)
qed

end
