(* ===== verification/CjsonParse.thy ===== *)
theory CjsonParse
  imports CjsonNumber
begin

text \<open>
  The parser of the JSON library \<^verbatim>\<open>apps/cjson/cJSON.c\<close>, from \<^verbatim>\<open>cJSON_ParseWithLengthOpts\<close> down to the values.
  An item is a tree: the list of its children stands for the chain that starts at \<^verbatim>\<open>child\<close> and is linked
  by \<^verbatim>\<open>next\<close> and \<^verbatim>\<open>prev\<close>. A read behind the end of the text is a fault, and the number of blocks that are
  allocated is part of the state. The mutual recursion is cut at the nesting limit: \<^verbatim>\<open>parse_value\<close> carries
  one unit of fuel per level and the loops one per byte of the text. Running out of it is the fault
  \<^const>\<open>NonTermination\<close>, and the theorems show that what the entry points supply is always enough.
\<close>

section \<open>Items\<close>

datatype cJSON = Item
  (item_type: u32)
  (valuestring: "u8 list option")
  (valueint: int)
  (valuedouble: double)
  (item_string: "u8 list option")
  (child: "cJSON list")

abbreviation cJSON_Invalid :: u32 where "cJSON_Invalid \<equiv> 0"
abbreviation cJSON_False :: u32 where "cJSON_False \<equiv> 1"
abbreviation cJSON_True :: u32 where "cJSON_True \<equiv> 2"
abbreviation cJSON_NULL :: u32 where "cJSON_NULL \<equiv> 4"
abbreviation cJSON_Number :: u32 where "cJSON_Number \<equiv> 8"
abbreviation cJSON_String :: u32 where "cJSON_String \<equiv> 16"
abbreviation cJSON_Array :: u32 where "cJSON_Array \<equiv> 32"
abbreviation cJSON_Object :: u32 where "cJSON_Object \<equiv> 64"
abbreviation cJSON_Raw :: u32 where "cJSON_Raw \<equiv> 128"
abbreviation cJSON_IsReference :: u32 where "cJSON_IsReference \<equiv> 256"
abbreviation cJSON_StringIsConst :: u32 where "cJSON_StringIsConst \<equiv> 512"

definition CJSON_NESTING_LIMIT :: nat where "CJSON_NESTING_LIMIT = 1000"

text \<open>The item \<^verbatim>\<open>cJSON_New_Item\<close> clears, and assignments to its members.\<close>

definition cJSON_New_Item :: cJSON where
  "cJSON_New_Item = Item cJSON_Invalid None 0 (Finite False 0) None []"

fun set_type :: "u32 \<Rightarrow> cJSON \<Rightarrow> cJSON" where
  "set_type t (Item _ vs vi vd s cs) = Item t vs vi vd s cs"

fun set_valueint :: "int \<Rightarrow> cJSON \<Rightarrow> cJSON" where
  "set_valueint vi (Item t vs _ vd s cs) = Item t vs vi vd s cs"

fun set_valuedouble :: "double \<Rightarrow> cJSON \<Rightarrow> cJSON" where
  "set_valuedouble vd (Item t vs vi _ s cs) = Item t vs vi vd s cs"

fun set_valuestring :: "u8 list option \<Rightarrow> cJSON \<Rightarrow> cJSON" where
  "set_valuestring vs (Item t _ vi vd s cs) = Item t vs vi vd s cs"

fun set_string :: "u8 list option \<Rightarrow> cJSON \<Rightarrow> cJSON" where
  "set_string s (Item t vs vi vd _ cs) = Item t vs vi vd s cs"

fun set_child :: "cJSON list \<Rightarrow> cJSON \<Rightarrow> cJSON" where
  "set_child cs (Item t vs vi vd s _) = Item t vs vi vd s cs"

text \<open>
  The blocks \<^verbatim>\<open>cJSON_Delete\<close> frees for an item: the item, its strings and its children, except those it
  only refers to.
\<close>

fun item_blocks :: "cJSON \<Rightarrow> nat" where
  "item_blocks (Item t vs vi vd s cs) =
     1 + (if t AND cJSON_IsReference = 0 then sum_list (map item_blocks cs) + of_bool (vs \<noteq> None) else 0)
       + (if t AND cJSON_StringIsConst = 0 then of_bool (s \<noteq> None) else 0)"

definition cJSON_Delete :: "cJSON list \<Rightarrow> parse_buffer \<Rightarrow> parse_buffer" where
  "cJSON_Delete items b = deallocate (sum_list (map item_blocks items)) b"

section \<open>White space and the byte order mark\<close>

function skip_loop :: "u8 list \<Rightarrow> nat \<Rightarrow> nat" where
  "skip_loop cs i = (if i < length cs \<and> cs ! i \<le> 32 then skip_loop cs (i + 1) else i)"
  by pat_completeness auto
termination by (relation "measure (\<lambda>(cs, i). length cs - i)") auto

declare skip_loop.simps [simp del]

definition can_access :: "parse_buffer \<Rightarrow> bool" where
  "can_access b \<longleftrightarrow> offset b < length (content b)"

definition at_offset :: "parse_buffer \<Rightarrow> u8" where
  "at_offset b = content b ! offset b"

definition buffer_skip_whitespace :: "parse_buffer \<Rightarrow> parse_buffer" where
  "buffer_skip_whitespace b =
     (if \<not> can_access b then b
      else (let i = skip_loop (content b) (offset b)
            in b\<lparr>offset := (if i = length (content b) then i - 1 else i)\<rparr>))"

text \<open>The result is null for a buffer that is not at its start.\<close>

definition skip_utf8_bom :: "parse_buffer \<Rightarrow> parse_buffer option" where
  "skip_utf8_bom b =
     (if offset b \<noteq> 0 then None
      else if 4 < length (content b) \<and> take 3 (content b) = [0xEF, 0xBB, 0xBF] then Some (b\<lparr>offset := 3\<rparr>)
      else Some b)"

section \<open>Values\<close>

text \<open>The comparison with a keyword, guarded by \<^verbatim>\<open>can_read\<close>.\<close>

definition reads :: "string \<Rightarrow> parse_buffer \<Rightarrow> bool" where
  "reads word b \<longleftrightarrow> offset b + length word \<le> length (content b) \<and> take (length word) (drop (offset b) (content b)) = bytes_of word"

definition advance :: "nat \<Rightarrow> parse_buffer \<Rightarrow> parse_buffer" where
  "advance n b = b\<lparr>offset := offset b + n\<rparr>"

text \<open>The end of an array or object: the closing character, or the children are deleted.\<close>

definition close_items :: "u8 \<Rightarrow> u32 \<Rightarrow> cJSON \<Rightarrow> cJSON list option \<times> parse_buffer \<Rightarrow> cJSON option \<times> parse_buffer" where
  "close_items c t item r =
     (case r of
        (None, b) \<Rightarrow> (None, b)
      | (Some items, b) \<Rightarrow>
          (if \<not> can_access b \<or> at_offset b \<noteq> c then (None, cJSON_Delete items b)
           else (Some (set_child items (set_type t item)), advance 1 (b\<lparr>depth := depth b - 1\<rparr>))))"

text \<open>
  One element of an array or one member of an object, behind the character the buffer is at: the item, or
  what there is of it when parsing fails. \<open>pv\<close> parses a value. The name of a member is parsed into the new
  item and moved to \<^verbatim>\<open>string\<close>.
\<close>

type_synonym value_parser = "cJSON \<Rightarrow> parse_buffer \<Rightarrow> c_fault + (cJSON option \<times> parse_buffer)"
type_synonym element_parser = "parse_buffer \<Rightarrow> c_fault + ((cJSON + cJSON) \<times> parse_buffer)"

definition parse_element :: "value_parser \<Rightarrow> cJSON \<Rightarrow> element_parser" where
  "parse_element pv item b =
     bind_fault (pv item (buffer_skip_whitespace (advance 1 b))) (\<lambda>(r, b1).
     Inr (case r of None \<Rightarrow> Inl item | Some it \<Rightarrow> Inr it, b1))"

definition parse_member :: "(nat \<Rightarrow> bool) \<Rightarrow> value_parser \<Rightarrow> cJSON \<Rightarrow> element_parser" where
  "parse_member al pv item b =
     bind_fault (parse_string al (buffer_skip_whitespace (advance 1 b))) (\<lambda>(r, b1).
     case r of
       None \<Rightarrow> Inr (Inl item, b1)
     | Some name \<Rightarrow>
         (let current_item = set_string (Some name) (set_type cJSON_String item);
              b2 = buffer_skip_whitespace b1
          in if \<not> can_access b2 \<or> at_offset b2 \<noteq> 58 then Inr (Inl current_item, b2)
             else parse_element pv current_item b2))"

text \<open>
  The loop over the elements, which is the same for arrays and objects: the items linked so far, and a
  buffer in front of the next element.
\<close>

primrec items_loop :: "(nat \<Rightarrow> bool) \<Rightarrow> (cJSON \<Rightarrow> element_parser) \<Rightarrow> nat \<Rightarrow> cJSON list \<Rightarrow> parse_buffer \<Rightarrow>
    c_fault + (cJSON list option \<times> parse_buffer)" where
  "items_loop al elem 0 items b = Inl NonTermination"
| "items_loop al elem (Suc n) items b =
     (let (ok, b1) = allocate al b
      in if \<not> ok then Inr (None, cJSON_Delete items b1)
         else bind_fault (elem cJSON_New_Item b1) (\<lambda>(r, b2).
              case r of
                Inl partial \<Rightarrow> Inr (None, cJSON_Delete (items @ [partial]) b2)
              | Inr it \<Rightarrow>
                  (let b3 = buffer_skip_whitespace b2
                   in if can_access b3 \<and> at_offset b3 = 44 then items_loop al elem n (items @ [it]) b3
                      else Inr (Some (items @ [it]), b3))))"

text \<open>What the two functions do behind their opening bracket, for the closing bracket \<open>c\<close>.\<close>

definition parse_items :: "(nat \<Rightarrow> bool) \<Rightarrow> (cJSON \<Rightarrow> element_parser) \<Rightarrow> u8 \<Rightarrow> u32 \<Rightarrow> value_parser" where
  "parse_items al elem c t item b =
     (let b1 = buffer_skip_whitespace (advance 1 b)
      in if can_access b1 \<and> at_offset b1 = c then Inr (close_items c t item (Some [], b1))
         else if \<not> can_access b1 then Inr (None, b1\<lparr>offset := offset b1 - 1\<rparr>)
         else bind_fault (items_loop al elem (length (content b)) [] (b1\<lparr>offset := offset b1 - 1\<rparr>))
                (\<lambda>r. Inr (close_items c t item r)))"

definition parse_array :: "(nat \<Rightarrow> bool) \<Rightarrow> value_parser \<Rightarrow> value_parser" where
  "parse_array al pv item b =
     (if CJSON_NESTING_LIMIT \<le> depth b then Inr (None, b)
      else (let b1 = b\<lparr>depth := depth b + 1\<rparr>
            in if \<not> can_access b1 then Inl OutOfBounds
               else if at_offset b1 \<noteq> 91 then Inr (None, b1)
               else parse_items al (parse_element pv) 93 cJSON_Array item b1))"

definition parse_object :: "(nat \<Rightarrow> bool) \<Rightarrow> value_parser \<Rightarrow> value_parser" where
  "parse_object al pv item b =
     (if CJSON_NESTING_LIMIT \<le> depth b then Inr (None, b)
      else (let b1 = b\<lparr>depth := depth b + 1\<rparr>
            in if \<not> can_access b1 \<or> at_offset b1 \<noteq> 123 then Inr (None, b1)
               else parse_items al (parse_member al pv) 125 cJSON_Object item b1))"

text \<open>\<^verbatim>\<open>parse_value\<close>: the item if it returns true, and the buffer. The fuel bounds the nesting.\<close>

primrec parse_value :: "(nat \<Rightarrow> bool) \<Rightarrow> nat \<Rightarrow> value_parser" where
  "parse_value al 0 = (\<lambda>item b. Inl NonTermination)"
| "parse_value al (Suc n) = (\<lambda>item b.
     if reads ''null'' b then Inr (Some (set_type cJSON_NULL item), advance 4 b)
     else if reads ''false'' b then Inr (Some (set_type cJSON_False item), advance 5 b)
     else if reads ''true'' b then Inr (Some (set_valueint 1 (set_type cJSON_True item)), advance 4 b)
     else if can_access b \<and> at_offset b = QUOTE
     then bind_fault (parse_string al b) (\<lambda>(r, b1).
          Inr (map_option (\<lambda>s. set_valuestring (Some s) (set_type cJSON_String item)) r, b1))
     else if can_access b \<and> (at_offset b = 45 \<or> digit (at_offset b))
     then bind_fault (parse_number b) (\<lambda>(r, b1).
          Inr (map_option (\<lambda>(d, i). set_type cJSON_Number (set_valueint i (set_valuedouble d item))) r, b1))
     else if can_access b \<and> at_offset b = 91 then parse_array al (parse_value al n) item b
     else if can_access b \<and> at_offset b = 123 then parse_object al (parse_value al n) item b
     else Inr (None, b))"

section \<open>Entry points\<close>

text \<open>
  The item, where the parse ended, the position in the error the library keeps (none when it is reset), and
  the blocks left.
\<close>

record parse_result =
  root :: "cJSON option"
  parse_end :: nat
  error_position :: "nat option"
  live_blocks :: int

text \<open>The failure path: an item that was made is deleted, and the position is kept inside the text.\<close>

definition parse_failed :: "cJSON list \<Rightarrow> parse_buffer \<Rightarrow> parse_result" where
  "parse_failed made b =
     (let b' = cJSON_Delete made b;
          position = (if offset b < length (content b) then offset b else length (content b) - 1)
      in \<lparr>root = None, parse_end = position, error_position = Some position, live_blocks = live b'\<rparr>)"

text \<open>
  The text is given by its bytes; \<open>None\<close> is a null pointer, for which nothing but the reset of the error
  happens.
\<close>

definition cJSON_ParseWithLengthOpts :: "(nat \<Rightarrow> bool) \<Rightarrow> u8 list option \<Rightarrow> bool \<Rightarrow> c_fault + parse_result" where
  "cJSON_ParseWithLengthOpts al value require_null_terminated =
     (case value of
        None \<Rightarrow> Inr \<lparr>root = None, parse_end = 0, error_position = None, live_blocks = 0\<rparr>
      | Some cs \<Rightarrow>
          (if cs = [] then Inr (parse_failed [] (buffer_of []))
           else (let (ok, b) = allocate al (buffer_of cs)
                 in if \<not> ok then Inr (parse_failed [] b)
                    else (case map_option buffer_skip_whitespace (skip_utf8_bom b) of
                            None \<Rightarrow> Inr (parse_failed [cJSON_New_Item] b)
                          | Some b1 \<Rightarrow>
                              bind_fault (parse_value al (CJSON_NESTING_LIMIT + 1) cJSON_New_Item b1) (\<lambda>(r, b2).
                              case r of
                                None \<Rightarrow> Inr (parse_failed [cJSON_New_Item] b2)
                              | Some item \<Rightarrow>
                                  (let b3 = (if require_null_terminated then buffer_skip_whitespace b2 else b2)
                                   in if require_null_terminated \<and> (\<not> can_access b3 \<or> at_offset b3 \<noteq> 0)
                                      then Inr (parse_failed [item] b3)
                                      else Inr \<lparr>root = Some item, parse_end = offset b3, error_position = None,
                                                live_blocks = live b3\<rparr>))))))"

text \<open>
  The entry points for a C string, whose terminator is part of the text, and their defaults. A null
  pointer leaves the error \<open>err\<close> of the last call as it is.
\<close>

definition cJSON_ParseWithOpts :: "nat option \<Rightarrow> (nat \<Rightarrow> bool) \<Rightarrow> u8 list option \<Rightarrow> bool \<Rightarrow> c_fault + parse_result" where
  "cJSON_ParseWithOpts err al value require_null_terminated =
     (case value of
        None \<Rightarrow> Inr \<lparr>root = None, parse_end = 0, error_position = err, live_blocks = 0\<rparr>
      | Some s \<Rightarrow> cJSON_ParseWithLengthOpts al (Some (c_string s @ [0])) require_null_terminated)"

definition cJSON_Parse :: "nat option \<Rightarrow> (nat \<Rightarrow> bool) \<Rightarrow> u8 list option \<Rightarrow> c_fault + parse_result" where
  "cJSON_Parse err al value = cJSON_ParseWithOpts err al value False"

definition cJSON_ParseWithLength :: "(nat \<Rightarrow> bool) \<Rightarrow> u8 list option \<Rightarrow> c_fault + parse_result" where
  "cJSON_ParseWithLength al value = cJSON_ParseWithLengthOpts al value False"

section \<open>Well-formed items\<close>

text \<open>The items the parser makes, each kind with the members it sets, and a bound on their nesting.\<close>

fun wf_item :: "cJSON \<Rightarrow> bool" where
  "wf_item (Item t vs vi vd s cs) \<longleftrightarrow>
     (if t = cJSON_NULL \<or> t = cJSON_False then vs = None \<and> vi = 0 \<and> vd = Finite False 0 \<and> cs = []
      else if t = cJSON_True then vs = None \<and> vi = 1 \<and> vd = Finite False 0 \<and> cs = []
      else if t = cJSON_Number then vs = None \<and> valid_double vd \<and> vd \<noteq> NaN \<and> saturate_int vd = Inr vi \<and> cs = []
      else if t = cJSON_String then vs \<noteq> None \<and> vi = 0 \<and> vd = Finite False 0 \<and> cs = []
      else if t = cJSON_Array then vs = None \<and> vi = 0 \<and> vd = Finite False 0 \<and> (\<forall>c \<in> set cs. wf_item c \<and> item_string c = None)
      else if t = cJSON_Object then vs = None \<and> vi = 0 \<and> vd = Finite False 0 \<and> (\<forall>c \<in> set cs. wf_item c \<and> item_string c \<noteq> None)
      else False)"

fun nested_within :: "nat \<Rightarrow> cJSON \<Rightarrow> bool" where
  "nested_within n (Item t vs vi vd s cs) \<longleftrightarrow>
     t \<noteq> cJSON_Array \<and> t \<noteq> cJSON_Object \<or> 0 < n \<and> (\<forall>c \<in> set cs. nested_within (n - 1) c)"

text \<open>An item that has at most been given a name.\<close>

fun fresh_item :: "cJSON \<Rightarrow> bool" where
  "fresh_item (Item t vs vi vd s cs) \<longleftrightarrow>
     (t = cJSON_Invalid \<or> t = cJSON_String) \<and> vs = None \<and> vi = 0 \<and> vd = Finite False 0 \<and> cs = []"

abbreviation items_blocks :: "cJSON list \<Rightarrow> nat" where
  "items_blocks items \<equiv> sum_list (map item_blocks items)"

section \<open>Contracts\<close>

text \<open>
  What a function that parses a value promises for a text that does not end in a comma, in front of which
  there are \<open>d\<close> open brackets: it returns, a failure leaves no block behind, and a success has made a
  well-formed item, moved on inside the text and closed the brackets it opened.
\<close>

definition in_text :: "nat \<Rightarrow> parse_buffer \<Rightarrow> bool" where
  "in_text d b \<longleftrightarrow> offset b \<le> length (content b) \<and> last (content b) \<noteq> 44 \<and> depth b = d \<and> d \<le> CJSON_NESTING_LIMIT"

definition value_parsed :: "nat \<Rightarrow> cJSON \<Rightarrow> parse_buffer \<Rightarrow> cJSON option \<times> parse_buffer \<Rightarrow> bool" where
  "value_parsed d item b r \<longleftrightarrow>
     (case r of
        (None, b') \<Rightarrow> content b' = content b \<and> live b' = live b
      | (Some it, b') \<Rightarrow> content b' = content b \<and> in_text d b' \<and> offset b < offset b' \<and>
          live b' = live b + int (item_blocks it) - int (item_blocks item) \<and>
          wf_item it \<and> nested_within (CJSON_NESTING_LIMIT - d) it \<and> item_string it = item_string item)"

definition parser_ok :: "nat \<Rightarrow> value_parser \<Rightarrow> bool" where
  "parser_ok d pv \<longleftrightarrow> (\<forall>item b. fresh_item item \<and> in_text d b \<longrightarrow> (\<exists>r. pv item b = Inr r \<and> value_parsed d item b r))"

text \<open>The same for an element or member, and for the loop.\<close>

definition element_parsed :: "nat \<Rightarrow> (cJSON \<Rightarrow> bool) \<Rightarrow> parse_buffer \<Rightarrow> (cJSON + cJSON) \<times> parse_buffer \<Rightarrow> bool" where
  "element_parsed d P b r \<longleftrightarrow>
     (case r of
        (Inl partial, b') \<Rightarrow> content b' = content b \<and> live b' = live b - 1 + int (item_blocks partial)
      | (Inr it, b') \<Rightarrow> content b' = content b \<and> in_text d b' \<and> offset b < offset b' \<and> live b' = live b - 1 + int (item_blocks it) \<and>
          wf_item it \<and> nested_within (CJSON_NESTING_LIMIT - d) it \<and> P it)"

definition element_ok :: "nat \<Rightarrow> (cJSON \<Rightarrow> bool) \<Rightarrow> (cJSON \<Rightarrow> element_parser) \<Rightarrow> bool" where
  "element_ok d P elem \<longleftrightarrow> (\<forall>b. in_text d b \<and> offset b + 1 < length (content b) \<longrightarrow>
     (\<exists>r. elem cJSON_New_Item b = Inr r \<and> element_parsed d P b r))"

definition items_parsed :: "nat \<Rightarrow> (cJSON \<Rightarrow> bool) \<Rightarrow> cJSON list \<Rightarrow> parse_buffer \<Rightarrow> cJSON list option \<times> parse_buffer \<Rightarrow> bool" where
  "items_parsed d P items b r \<longleftrightarrow>
     (case r of
        (None, b') \<Rightarrow> content b' = content b \<and> live b' = live b - int (items_blocks items)
      | (Some its, b') \<Rightarrow> content b' = content b \<and> in_text d b' \<and> offset b < offset b' \<and>
          live b' = live b + int (items_blocks its) - int (items_blocks items) \<and>
          (\<forall>it \<in> set its. wf_item it \<and> nested_within (CJSON_NESTING_LIMIT - d) it \<and> P it))"

lemma skip_loop_ge: "i \<le> skip_loop cs i"
proof (induction cs i rule: skip_loop.induct)
  case (1 cs i)
  then show ?case by (subst skip_loop.simps) auto
qed

lemma skip_loop_le: "i \<le> length cs \<Longrightarrow> skip_loop cs i \<le> length cs"
proof (induction cs i rule: skip_loop.induct)
  case (1 cs i)
  then show ?case by (subst skip_loop.simps) auto
qed

lemma skip_whitespace_simps [simp]:
  "content (buffer_skip_whitespace b) = content b" "depth (buffer_skip_whitespace b) = depth b"
  "live (buffer_skip_whitespace b) = live b" "allocs (buffer_skip_whitespace b) = allocs b"
  by (simp_all add: buffer_skip_whitespace_def Let_def)

lemma skip_whitespace_offset:
  "offset b \<le> offset (buffer_skip_whitespace b)"
  "offset b \<le> length (content b) \<Longrightarrow> offset (buffer_skip_whitespace b) \<le> length (content b)"
  "can_access b \<Longrightarrow> can_access (buffer_skip_whitespace b)"
  using skip_loop_ge [of "offset b" "content b"] skip_loop_le [of "offset b" "content b"]
  by (auto simp: buffer_skip_whitespace_def can_access_def Let_def)

lemma skip_whitespace_in_text: "in_text d b \<Longrightarrow> in_text d (buffer_skip_whitespace b)"
  using skip_whitespace_offset(2) [of b] by (simp add: in_text_def)

lemma advance_simps [simp]:
  "content (advance n b) = content b" "depth (advance n b) = depth b" "live (advance n b) = live b"
  "allocs (advance n b) = allocs b" "offset (advance n b) = offset b + n"
  by (simp_all add: advance_def)

lemma delete_simps [simp]:
  "content (cJSON_Delete its b) = content b" "live (cJSON_Delete its b) = live b - int (items_blocks its)"
  by (simp_all add: cJSON_Delete_def deallocate_def)

lemma new_item_fresh [simp]: "fresh_item cJSON_New_Item" "item_blocks cJSON_New_Item = 1" "item_string cJSON_New_Item = None"
  by (simp_all add: cJSON_New_Item_def)

lemma named_item [simp]:
  "fresh_item (set_string (Some name) (set_type cJSON_String cJSON_New_Item))"
  "item_blocks (set_string (Some name) (set_type cJSON_String cJSON_New_Item)) = 2"
  "item_string (set_string (Some name) (set_type cJSON_String cJSON_New_Item)) = Some name"
  by (simp_all add: cJSON_New_Item_def)

text \<open>In a text that does not end in a comma, a comma is not the last byte.\<close>

lemma comma_not_last: "in_text d b \<Longrightarrow> can_access b \<Longrightarrow> at_offset b = 44 \<Longrightarrow> offset b + 1 < length (content b)"
proof -
  assume a: "in_text d b" "can_access b" "at_offset b = 44"
  have "offset b \<noteq> length (content b) - 1"
  proof
    assume "offset b = length (content b) - 1"
    moreover have "content b \<noteq> []" using a(2) by (auto simp: can_access_def)
    ultimately show False using a by (auto simp: in_text_def at_offset_def last_conv_nth)
  qed
  then show ?thesis using a(2) by (simp add: can_access_def)
qed

lemma items_loop_ok:
  assumes "element_ok d P elem" "in_text d b" "offset b + 1 < length (content b)" "length (content b) - offset b \<le> n"
    and "\<forall>it \<in> set items. wf_item it \<and> nested_within (CJSON_NESTING_LIMIT - d) it \<and> P it"
  shows "\<exists>r. items_loop al elem n items b = Inr r \<and> items_parsed d P items b r"
  using assms(2-)
proof (induction n arbitrary: items b)
  case (Suc n)
  let ?b = "b\<lparr>allocs := allocs b + 1, live := live b + 1\<rparr>"
  show ?case
  proof (cases "al (allocs b)")
    case False
    then show ?thesis by (simp add: allocate_def items_parsed_def)
  next
    case True
    have "in_text d ?b" "offset ?b + 1 < length (content ?b)" using Suc.prems(1,2) by (simp_all add: in_text_def)
    then obtain r b2 where r: "elem cJSON_New_Item ?b = Inr (r, b2)" "element_parsed d P ?b (r, b2)"
      using assms(1) unfolding element_ok_def by (metis surj_pair)
    show ?thesis
    proof (cases r)
      case (Inl partial)
      then show ?thesis using True r by (simp add: allocate_def items_parsed_def element_parsed_def)
    next
      case (Inr it)
      let ?b3 = "buffer_skip_whitespace b2"
      have v: "content b2 = content b" "in_text d b2" "offset b < offset b2" "live b2 = live b + int (item_blocks it)"
        using r(2) Inr by (simp_all add: element_parsed_def)
      have t3: "in_text d ?b3" by (rule skip_whitespace_in_text [OF v(2)])
      have o3: "offset b < offset ?b3" using skip_whitespace_offset(1) [of b2] v(3) by simp
      have its: "\<forall>x \<in> set (items @ [it]). wf_item x \<and> nested_within (CJSON_NESTING_LIMIT - d) x \<and> P x"
        using Suc.prems(4) r(2) Inr by (auto simp: element_parsed_def)
      show ?thesis
      proof (cases "can_access ?b3 \<and> at_offset ?b3 = 44")
        case False
        then show ?thesis using True r(1) Inr its t3 o3 v(1,4) by (auto simp: allocate_def items_parsed_def Let_def)
      next
        case comma: True
        then have a: "offset ?b3 + 1 < length (content ?b3)" "length (content ?b3) - offset ?b3 \<le> n"
          using o3 Suc.prems(3) v(1) comma_not_last [OF t3] by auto
        obtain r' b4 where "items_loop al elem n (items @ [it]) ?b3 = Inr (r', b4)" "items_parsed d P (items @ [it]) ?b3 (r', b4)"
          using Suc.IH [OF t3 a its] by (metis surj_pair)
        then show ?thesis using True r(1) Inr comma o3 v(1,4)
          by (simp add: allocate_def items_parsed_def Let_def split: option.splits)
      qed
    qed
  qed
qed simp

lemma parse_element_ok:
  assumes "parser_ok d pv" "fresh_item item" "in_text d b" "offset b < length (content b)"
    and "live b = l + int (item_blocks item)" "P = (\<lambda>it. item_string it = item_string item)"
  shows "\<exists>r. parse_element pv item b = Inr r \<and> element_parsed d P (b\<lparr>live := l + 1\<rparr>) r"
proof -
  let ?b1 = "buffer_skip_whitespace (advance 1 b)"
  have "in_text d ?b1" by (rule skip_whitespace_in_text) (use assms(3,4) in \<open>simp add: in_text_def\<close>)
  then obtain r b2 where r: "pv item ?b1 = Inr (r, b2)" "value_parsed d item ?b1 (r, b2)"
    using assms(1,2) unfolding parser_ok_def by (metis surj_pair)
  have "offset b < offset ?b1" using skip_whitespace_offset(1) [of "advance 1 b"] by simp
  then show ?thesis using r assms(5,6)
    by (auto simp: parse_element_def element_parsed_def value_parsed_def split: option.splits)
qed

lemma element_parsed_weaken:
  "element_parsed d P b r \<Longrightarrow> content b = content b' \<Longrightarrow> offset b' \<le> offset b \<Longrightarrow> live b = live b' \<Longrightarrow> (\<And>it. P it \<Longrightarrow> Q it) \<Longrightarrow>
    element_parsed d Q b' r"
  by (cases r) (auto simp: element_parsed_def split: sum.splits)

lemma array_element_ok: "parser_ok d pv \<Longrightarrow> element_ok d (\<lambda>it. item_string it = None) (parse_element pv)"
  unfolding element_ok_def
proof (intro allI impI)
  fix b assume a: "parser_ok d pv" "in_text d b \<and> offset b + 1 < length (content b)"
  show "\<exists>r. parse_element pv cJSON_New_Item b = Inr r \<and> element_parsed d (\<lambda>it. item_string it = None) b r"
    using parse_element_ok [OF a(1) new_item_fresh(1), of b "live b - 1"] a(2) by simp
qed

lemma object_member_ok: "parser_ok d pv \<Longrightarrow> element_ok d (\<lambda>it. item_string it \<noteq> None) (parse_member al pv)"
  unfolding element_ok_def
proof (intro allI impI)
  fix b assume a: "parser_ok d pv" "in_text d b \<and> offset b + 1 < length (content b)"
  let ?b1 = "buffer_skip_whitespace (advance 1 b)"
  have o1: "offset b < offset ?b1" "offset ?b1 < length (content ?b1)"
    using skip_whitespace_offset(1,3) [of "advance 1 b"] a(2) by (simp_all add: can_access_def)
  from parse_string_returns [OF this(2), of al] obtain r b2 where r: "parse_string al ?b1 = Inr (r, b2)"
    "content b2 = content b" "depth b2 = depth b" "live b2 = live b + of_bool (r \<noteq> None)"
    "r \<noteq> None \<longrightarrow> offset ?b1 + 2 \<le> offset b2 \<and> offset b2 \<le> length (content b)"
    unfolding skip_whitespace_simps advance_simps by auto
  show "\<exists>r. parse_member al pv cJSON_New_Item b = Inr r \<and> element_parsed d (\<lambda>it. item_string it \<noteq> None) b r"
  proof (cases r)
    case None
    then show ?thesis using r by (simp add: parse_member_def element_parsed_def)
  next
    case (Some name)
    let ?it = "set_string (Some name) (set_type cJSON_String cJSON_New_Item)" and ?b3 = "buffer_skip_whitespace b2"
    have t3: "in_text d ?b3" by (rule skip_whitespace_in_text) (use r Some a(2) in \<open>simp add: in_text_def\<close>)
    have o3: "offset b < offset ?b3" using skip_whitespace_offset(1) [of b2] r(5) Some o1(1) by simp
    show ?thesis
    proof (cases "can_access ?b3 \<and> at_offset ?b3 = 58")
      case False
      then show ?thesis using r Some by (auto simp: parse_member_def element_parsed_def Let_def)
    next
      case True
      then have "\<exists>r. parse_element pv ?it ?b3 = Inr r \<and> element_parsed d (\<lambda>it. item_string it = Some name) (?b3\<lparr>live := live b - 1 + 1\<rparr>) r"
        using r(4) Some by (intro parse_element_ok [OF a(1) named_item(1) t3]) (simp_all add: can_access_def)
      then obtain r' where r': "parse_element pv ?it ?b3 = Inr r'"
        "element_parsed d (\<lambda>it. item_string it = Some name) (?b3\<lparr>live := live b - 1 + 1\<rparr>) r'" by blast
      have "element_parsed d (\<lambda>it. item_string it \<noteq> None) b r'"
        by (rule element_parsed_weaken [OF r'(2)]) (use r(2) o3 in simp_all)
      moreover have "parse_member al pv cJSON_New_Item b = Inr r'" using r(1) Some True r'(1) by (simp add: parse_member_def Let_def)
      ultimately show ?thesis by blast
    qed
  qed
qed

lemma set_simps [simp]:
  "fresh_item item \<Longrightarrow> item_string (set_child its (set_type t item)) = item_string item"
  "fresh_item item \<Longrightarrow> t AND cJSON_IsReference = 0 \<Longrightarrow> t AND cJSON_StringIsConst = 0 \<Longrightarrow>
     item_blocks (set_child its (set_type t item)) = item_blocks item + items_blocks its"
  by (cases item; auto)+

text \<open>The closing bracket turns the items of the loop into a value, one level further out.\<close>

lemma close_items_ok:
  assumes "items_parsed (d + 1) P [] b2 r" "fresh_item item" "offset b \<le> offset b2" "content b2 = content b" "live b2 = live b"
    and "t = cJSON_Array \<and> P = (\<lambda>it. item_string it = None) \<or> t = cJSON_Object \<and> P = (\<lambda>it. item_string it \<noteq> None)"
  shows "value_parsed d item b (close_items c t item r)"
proof (cases r)
  case (Pair its b')
  show ?thesis
  proof (cases its)
    case None
    then show ?thesis using assms Pair by (simp add: close_items_def value_parsed_def items_parsed_def)
  next
    case (Some items)
    have t: "t AND cJSON_IsReference = 0" "t AND cJSON_StringIsConst = 0" using assms(6) by auto
    have v: "content b' = content b" "in_text (d + 1) b'" "offset b < offset b'" "live b' = live b + int (items_blocks items)"
      and w: "\<forall>it \<in> set items. wf_item it \<and> nested_within (CJSON_NESTING_LIMIT - (d + 1)) it \<and> P it"
      using assms(1,3-5) Pair Some by (auto simp: items_parsed_def)
    let ?it = "set_child items (set_type t item)" and ?b = "advance 1 (b'\<lparr>depth := depth b' - 1\<rparr>)"
    have "wf_item ?it" "nested_within (CJSON_NESTING_LIMIT - d) ?it"
      using assms(2,6) w v(2) by (cases item; auto simp: in_text_def diff_diff_eq; fail)+
    moreover have "in_text d ?b" "offset b < offset ?b" if "can_access b'"
      using v(1-3) that by (auto simp: in_text_def can_access_def)
    moreover have "item_blocks ?it = item_blocks item + items_blocks items" "item_string ?it = item_string item"
      using assms(2) t by simp_all
    ultimately show ?thesis using Pair Some v(1,4) by (auto simp: close_items_def value_parsed_def)
  qed
qed

lemma empty_items_parsed: "in_text d b2 \<Longrightarrow> offset b < offset b2 \<Longrightarrow> content b2 = content b \<Longrightarrow> live b2 = live b \<Longrightarrow> items_parsed d P [] b (Some [], b2)"
  by (simp add: items_parsed_def)

lemma parse_items_ok:
  assumes "element_ok (d + 1) P elem" "fresh_item item" "in_text (d + 1) b" "can_access b"
    and "t = cJSON_Array \<and> P = (\<lambda>it. item_string it = None) \<or> t = cJSON_Object \<and> P = (\<lambda>it. item_string it \<noteq> None)"
  shows "\<exists>r. parse_items al elem c t item b = Inr r \<and> value_parsed d item b r"
proof -
  let ?b2 = "buffer_skip_whitespace (advance 1 b)"
  have t2: "in_text (d + 1) ?b2"
    by (rule skip_whitespace_in_text) (use assms(3,4) in \<open>simp add: in_text_def can_access_def\<close>)
  have o2: "offset b < offset ?b2" using skip_whitespace_offset(1) [of "advance 1 b"] by simp
  consider "\<not> can_access ?b2" | "can_access ?b2" "at_offset ?b2 = c" | "can_access ?b2" "at_offset ?b2 \<noteq> c" by blast
  then show ?thesis
  proof cases
    case 1
    then show ?thesis by (simp add: parse_items_def value_parsed_def Let_def)
  next
    case 2
    have "items_parsed (d + 1) P [] b (Some [], ?b2)" using t2 o2 by (simp add: items_parsed_def)
    from close_items_ok [OF this assms(2) _ _ _ assms(5), where c = c and b = b]
    show ?thesis using 2 by (simp add: parse_items_def Let_def)
  next
    case 3
    let ?b3 = "?b2\<lparr>offset := offset ?b2 - 1\<rparr>"
    have "in_text (d + 1) ?b3" "offset ?b3 + 1 < length (content ?b3)" "length (content ?b3) - offset ?b3 \<le> length (content b)"
      using t2 o2 3(1) by (auto simp: in_text_def can_access_def)
    from items_loop_ok [OF assms(1) this, of "[]" al] obtain r where
      r: "items_loop al elem (length (content b)) [] ?b3 = Inr r" "items_parsed (d + 1) P [] ?b3 r" by auto
    from close_items_ok [OF r(2) assms(2) _ _ _ assms(5), where c = c and b = b] r(1)
    show ?thesis using 3 o2 by (simp add: parse_items_def Let_def)
  qed
qed

lemma value_parsed_depth: "value_parsed d item (b\<lparr>depth := k\<rparr>) r = value_parsed d item b r"
  by (simp add: value_parsed_def split: prod.splits option.splits)

lemma parse_array_ok:
  assumes "depth b < CJSON_NESTING_LIMIT \<Longrightarrow> parser_ok (d + 1) pv" "fresh_item item" "in_text d b" "can_access b"
  shows "\<exists>r. parse_array al pv item b = Inr r \<and> value_parsed d item b r"
proof (cases "CJSON_NESTING_LIMIT \<le> depth b \<or> at_offset b \<noteq> 91")
  case True
  then show ?thesis using assms(4) by (auto simp: parse_array_def value_parsed_def can_access_def at_offset_def Let_def)
next
  case False
  let ?b1 = "b\<lparr>depth := depth b + 1\<rparr>"
  have "\<exists>r. parse_items al (parse_element pv) 93 cJSON_Array item ?b1 = Inr r \<and> value_parsed d item ?b1 r"
    by (rule parse_items_ok [OF array_element_ok])
      (use assms False in \<open>auto simp: in_text_def can_access_def\<close>)
  then show ?thesis using False assms(4)
    by (auto simp: value_parsed_depth parse_array_def can_access_def at_offset_def Let_def)
qed

lemma parse_object_ok:
  assumes "depth b < CJSON_NESTING_LIMIT \<Longrightarrow> parser_ok (d + 1) pv" "fresh_item item" "in_text d b" "can_access b"
  shows "\<exists>r. parse_object al pv item b = Inr r \<and> value_parsed d item b r"
proof (cases "CJSON_NESTING_LIMIT \<le> depth b \<or> at_offset b \<noteq> 123")
  case True
  then show ?thesis using assms(4) by (auto simp: parse_object_def value_parsed_def can_access_def at_offset_def Let_def)
next
  case False
  let ?b1 = "b\<lparr>depth := depth b + 1\<rparr>"
  have "\<exists>r. parse_items al (parse_member al pv) 125 cJSON_Object item ?b1 = Inr r \<and> value_parsed d item ?b1 r"
    by (rule parse_items_ok [OF object_member_ok])
      (use assms False in \<open>auto simp: in_text_def can_access_def\<close>)
  then show ?thesis using False assms(4)
    by (auto simp: value_parsed_depth parse_object_def can_access_def at_offset_def Let_def)
qed

lemma reads_offset: "reads word b \<Longrightarrow> offset b + length word \<le> length (content b)"
  by (simp add: reads_def)

lemma parse_value_ok:
  assumes "CJSON_NESTING_LIMIT < n + d"
  shows "parser_ok d (parse_value al n)"
  using assms
proof (induction n arbitrary: d)
  case 0
  then show ?case by (auto simp: parser_ok_def in_text_def)
next
  case (Suc n)
  have IH: "parser_ok (d + 1) (parse_value al n)" using Suc by simp
  have "\<exists>r. parse_value al (Suc n) item b = Inr r \<and> value_parsed d item b r" if a: "fresh_item item" "in_text d b" for item b
  proof -
    obtain t s where item: "item = Item t None 0 (Finite False 0) s []" and t: "t = cJSON_Invalid \<or> t = cJSON_String"
      using a(1) by (cases item) auto
    have b: "in_text d (advance k b)" if "offset b + k \<le> length (content b)" for k
      using a(2) that by (simp add: in_text_def)
    have str: "\<exists>r b1. parse_string al b = Inr (r, b1) \<and>
        value_parsed d item b (map_option (\<lambda>s. set_valuestring (Some s) (set_type cJSON_String item)) r, b1)" if "can_access b"
    proof -
      obtain r b1 where r: "parse_string al b = Inr (r, b1)" "content b1 = content b" "depth b1 = depth b"
        "live b1 = live b + of_bool (r \<noteq> None)" "r \<noteq> None \<longrightarrow> offset b + 2 \<le> offset b1 \<and> offset b1 \<le> length (content b)"
        using parse_string_returns [of b al] \<open>can_access b\<close> unfolding can_access_def by blast
      have "value_parsed d item b (map_option (\<lambda>s. set_valuestring (Some s) (set_type cJSON_String item)) r, b1)"
        using r(2-) a(2) item t by (cases r) (auto simp: value_parsed_def in_text_def)
      then show ?thesis using r(1) by blast
    qed
    have num: "\<exists>r b1. parse_number b = Inr (r, b1) \<and>
        value_parsed d item b (map_option (\<lambda>(d, i). set_type cJSON_Number (set_valueint i (set_valuedouble d item))) r, b1)"
    proof -
      obtain r b1 where r: "parse_number b = Inr (r, b1)" "content b1 = content b" "depth b1 = depth b" "live b1 = live b"
        "\<forall>d i. r = Some (d, i) \<longrightarrow> valid_double d \<and> d \<noteq> NaN \<and> saturate_int d = Inr i \<and> offset b < offset b1 \<and> offset b1 \<le> length (content b)"
        using parse_number_returns [of b] a(2) unfolding in_text_def by blast
      have "value_parsed d item b (map_option (\<lambda>(d, i). set_type cJSON_Number (set_valueint i (set_valuedouble d item))) r, b1)"
        using r(2-) a(2) item t by (cases r) (auto simp: value_parsed_def in_text_def simp del: valid_double.simps)
      then show ?thesis using r(1) by blast
    qed
    have word: "value_parsed d item b (Some (Item t' None vi (Finite False 0) s []), advance k b)"
      if "reads w b" "k = length w" "0 < k" "(t', vi) \<in> {(cJSON_NULL, 0), (cJSON_False, 0), (cJSON_True, 1)}" for w k t' vi
      using b [of k] reads_offset [OF that(1)] that(2-) item t by (auto simp: value_parsed_def)
    let ?num = "can_access b \<and> (at_offset b = 45 \<or> digit (at_offset b))"
    consider "reads ''null'' b" | "\<not> reads ''null'' b" "reads ''false'' b" | "\<not> reads ''null'' b" "\<not> reads ''false'' b" "reads ''true'' b"
      | "\<not> reads ''null'' b" "\<not> reads ''false'' b" "\<not> reads ''true'' b" by blast
    then show ?thesis
    proof cases
      case 4
      then consider (s) "can_access b" "at_offset b = QUOTE" | (n) "at_offset b \<noteq> QUOTE" ?num
        | (x) "\<not> (can_access b \<and> at_offset b = QUOTE)" "\<not> ?num" by blast
      then show ?thesis
      proof cases
        case s
        then show ?thesis using 4 str by auto
      next
        case n
        then show ?thesis using 4 num by auto
      next
        case x
        have e: "parse_value al (Suc n) item b =
            (if can_access b \<and> at_offset b = 91 then parse_array al (parse_value al n) item b
             else if can_access b \<and> at_offset b = 123 then parse_object al (parse_value al n) item b else Inr (None, b))"
          by (simp only: parse_value.simps 4 x if_False)
        show ?thesis unfolding e using parse_array_ok [OF IH a] parse_object_ok [OF IH a] by (simp add: value_parsed_def)
      qed
    qed (use word [of "''null''" 4] word [of "''false''" 5] word [of "''true''" 4] item in auto)
  qed
  then show ?case by (simp add: parser_ok_def)
qed

section \<open>Parsing is safe\<close>

text \<open>What an entry point promises for a text: it returns; the result is a well-formed tree that
  accounts for every block, or nothing, with no block left and a position inside the text.\<close>

definition parse_result_ok :: "u8 list \<Rightarrow> parse_result \<Rightarrow> bool" where
  "parse_result_ok cs r \<longleftrightarrow>
     (case root r of
        None \<Rightarrow> live_blocks r = 0 \<and> error_position r = Some (parse_end r) \<and> (cs \<noteq> [] \<longrightarrow> parse_end r < length cs)
      | Some item \<Rightarrow> live_blocks r = int (item_blocks item) \<and> error_position r = None \<and> parse_end r \<le> length cs \<and>
          wf_item item \<and> nested_within CJSON_NESTING_LIMIT item \<and> item_string item = None)"

lemma parse_failed_ok: "content b = cs \<Longrightarrow> live b = int (items_blocks made) \<Longrightarrow> parse_result_ok cs (parse_failed made b)"
  by (auto simp: parse_failed_def parse_result_ok_def Let_def)

lemma parse_with_length_ok:
  assumes "cs = [] \<or> last cs \<noteq> 44"
  shows "\<exists>r. cJSON_ParseWithLengthOpts al (Some cs) req = Inr r \<and> parse_result_ok cs r"
proof (cases "cs = [] \<or> \<not> al 0")
  case True
  then show ?thesis
    by (auto simp: cJSON_ParseWithLengthOpts_def allocate_def buffer_of_def intro!: parse_failed_ok)
next
  case False
  let ?b = "(buffer_of cs)\<lparr>allocs := 1, live := 1\<rparr>"
  have a: "allocate al (buffer_of cs) = (True, ?b)" using False by (simp add: allocate_def buffer_of_def)
  have "\<exists>b0. skip_utf8_bom ?b = Some b0 \<and> content b0 = cs \<and> live b0 = 1 \<and> depth b0 = 0 \<and> offset b0 \<le> length cs"
    by (simp add: skip_utf8_bom_def buffer_of_def)
  then obtain b0 where b0: "skip_utf8_bom ?b = Some b0" "content b0 = cs" "live b0 = 1" "depth b0 = 0" "offset b0 \<le> length cs"
    by blast
  have "in_text 0 b0" using b0 assms False by (simp add: in_text_def)
  then have t: "in_text 0 (buffer_skip_whitespace b0)" by (rule skip_whitespace_in_text)
  have "parser_ok 0 (parse_value al (CJSON_NESTING_LIMIT + 1))" by (rule parse_value_ok) simp
  then obtain r b1 where r: "parse_value al (CJSON_NESTING_LIMIT + 1) cJSON_New_Item (buffer_skip_whitespace b0) = Inr (r, b1)"
    "value_parsed 0 cJSON_New_Item (buffer_skip_whitespace b0) (r, b1)"
    using t unfolding parser_ok_def by (metis new_item_fresh(1) surj_pair)
  have e: "cJSON_ParseWithLengthOpts al (Some cs) req =
     (case r of
        None \<Rightarrow> Inr (parse_failed [cJSON_New_Item] b1)
      | Some item \<Rightarrow>
          (let b3 = (if req then buffer_skip_whitespace b1 else b1)
           in if req \<and> (\<not> can_access b3 \<or> at_offset b3 \<noteq> 0) then Inr (parse_failed [item] b3)
              else Inr \<lparr>root = Some item, parse_end = offset b3, error_position = None, live_blocks = live b3\<rparr>))"
    unfolding cJSON_ParseWithLengthOpts_def option.case a prod.case b0(1) Let_def option.map r(1) using False by simp
  show ?thesis
  proof (cases r)
    case None
    have "parse_result_ok cs (parse_failed [cJSON_New_Item] b1)"
      by (rule parse_failed_ok) (use r(2) None b0 in \<open>simp_all add: value_parsed_def\<close>)
    then show ?thesis unfolding e None by simp
  next
    case (Some item)
    let ?b2 = "if req then buffer_skip_whitespace b1 else b1"
    have v: "content b1 = cs" "in_text 0 b1" "live b1 = int (item_blocks item)" "wf_item item"
      "nested_within CJSON_NESTING_LIMIT item" "item_string item = None"
      using r(2) Some b0(2,3) by (simp_all add: value_parsed_def)
    have "parse_result_ok cs (parse_failed [item] ?b2)" by (rule parse_failed_ok) (use v in auto)
    moreover have "offset ?b2 \<le> length cs" "live ?b2 = int (item_blocks item)"
      using v(1-3) skip_whitespace_in_text [OF v(2)] by (auto simp: in_text_def)
    then have "parse_result_ok cs \<lparr>root = Some item, parse_end = offset ?b2, error_position = None, live_blocks = live ?b2\<rparr>"
      using v(4-) by (simp add: parse_result_ok_def)
    ultimately show ?thesis unfolding e Some option.case Let_def by (metis (full_types))
  qed
qed

text \<open>
  C6: parsing a C string returns, whatever the text and whichever allocations fail, and never reads outside
  the string and its terminator. When there is no item, no block is left allocated and the position of the
  error is inside the text; otherwise the blocks left are exactly those of the item.
\<close>

theorem cJSON_Parse_safe:
  "\<exists>r. cJSON_ParseWithOpts err al (Some s) req = Inr r \<and>
     (case root r of
        None \<Rightarrow> live_blocks r = 0 \<and> error_position r = Some (parse_end r) \<and> parse_end r \<le> length (c_string s)
      | Some item \<Rightarrow> live_blocks r = int (item_blocks item) \<and> error_position r = None \<and> parse_end r \<le> length (c_string s) + 1)"
proof -
  obtain r where "cJSON_ParseWithLengthOpts al (Some (c_string s @ [0])) req = Inr r" "parse_result_ok (c_string s @ [0]) r"
    using parse_with_length_ok [of "c_string s @ [0]" al req] by auto
  then show ?thesis by (auto simp: cJSON_ParseWithOpts_def parse_result_ok_def split: option.splits)
qed

text \<open>
  C16: an item that parsing returns is well formed: its type is one of the seven kinds of value, with the
  members of that kind set and no other, numbers hold doubles with the saturated integer beside them, the
  children of an object and only they have names, and no array or object is nested deeper than the limit.
\<close>

theorem parsed_items_well_formed:
  assumes "cJSON_ParseWithOpts err al (Some s) req = Inr r" "root r = Some item"
  shows "wf_item item \<and> nested_within CJSON_NESTING_LIMIT item \<and> item_string item = None"
proof -
  obtain r' where "cJSON_ParseWithLengthOpts al (Some (c_string s @ [0])) req = Inr r'" "parse_result_ok (c_string s @ [0]) r'"
    using parse_with_length_ok [of "c_string s @ [0]" al req] by auto
  then show ?thesis using assms by (simp add: cJSON_ParseWithOpts_def parse_result_ok_def)
qed

text \<open>
  The entry point that is given a length has no terminator to stop at: a text that ends in the comma
  of an object is read one byte beyond its end.
\<close>

lemma parse_with_length_overread:
  "cJSON_ParseWithLength (\<lambda>_. True) (Some (bytes_of ''{\"a\":null,'')) = Inl OutOfBounds"
  by code_simp

text \<open>A text and what it is parsed into.\<close>

definition demo_text :: "u8 list" where "demo_text = bytes_of ''{\"a\": [null, true]}''"

definition demo_item :: cJSON where
  "demo_item = Item cJSON_Object None 0 (Finite False 0) None
     [Item cJSON_Array None 0 (Finite False 0) (Some (bytes_of ''a''))
       [Item cJSON_NULL None 0 (Finite False 0) None [], Item cJSON_True None 1 (Finite False 0) None []]]"

lemma demo_text_parsed:
  "cJSON_ParseWithOpts None (\<lambda>_. True) (Some demo_text) True =
     Inr \<lparr>root = Some demo_item, parse_end = 19, error_position = None, live_blocks = 5\<rparr>"
  by code_simp

theorem parsed_items_well_formed_witness: "wf_item demo_item \<and> nested_within CJSON_NESTING_LIMIT demo_item"
  using parsed_items_well_formed [OF demo_text_parsed] by simp

end
