(* ===== verification/CjsonPrint.thy ===== *)
theory CjsonPrint
  imports CjsonParse
begin

text \<open>
  The printer of the JSON library \<^verbatim>\<open>apps/cjson/cJSON.c\<close>, from \<^verbatim>\<open>cJSON_Print\<close> and its variants down to the
  values. It appends to the output buffer of the theory \<open>CjsonString\<close>, whose faults and failed allocations
  are part of the model. \<^verbatim>\<open>output_buffer\<close> is the address of a local of the entry points and never null.
\<close>

section \<open>Appending\<close>

text \<open>Room for \<open>needed\<close> bytes, the bytes stored there, and the offset moved.\<close>

definition emit :: "allocator \<Rightarrow> nat \<Rightarrow> u8 list \<Rightarrow> nat \<Rightarrow> printbuffer \<Rightarrow> c_fault + (bool \<times> printbuffer)" where
  "emit fresh needed bs moved p =
     if_ok (ensure fresh needed p) (\<lambda>p1.
     bind_fault (pb_store (pb_offset p1) bs p1) (\<lambda>p2. Inr (True, p2\<lparr>pb_offset := pb_offset p2 + moved\<rparr>)))"

text \<open>\<^verbatim>\<open>update_offset\<close>: \<^verbatim>\<open>strlen\<close> leaves the block when there is no terminator.\<close>

definition update_offset :: "printbuffer \<Rightarrow> c_fault + printbuffer" where
  "update_offset p =
     (case pb_buffer p of
        None \<Rightarrow> Inr p
      | Some b \<Rightarrow>
          (let rest = mem_get b (pb_offset p) (pb_length p - pb_offset p); n = length (takeWhile (\<lambda>c. c \<noteq> 0) rest)
           in if n = length rest then Inl OutOfBounds else Inr (p\<lparr>pb_offset := pb_offset p + n\<rparr>)))"

section \<open>Values\<close>

type_synonym printer = "printbuffer \<Rightarrow> c_fault + (bool \<times> printbuffer)"

text \<open>A call that prints a value, and the update of the offset behind it.\<close>

definition print_and_update :: "printer \<Rightarrow> printer" where
  "print_and_update pr p = if_ok (pr p) (\<lambda>p1. return_true (update_offset p1))"

text \<open>The comma between elements, and a blank behind it in formatted text.\<close>

definition separator :: "bool \<Rightarrow> u8 list" where
  "separator format = 44 # (if format then [32] else [])"

text \<open>The loops over the children, which are given by the functions that print them.\<close>

fun print_elements :: "allocator \<Rightarrow> printer list \<Rightarrow> printer" where
  "print_elements fresh [] p = Inr (True, p)"
| "print_elements fresh (pr # prs) p =
     if_ok (print_and_update pr p) (\<lambda>p1.
     if prs \<noteq> []
     then (let bs = separator (pb_format p1)
           in if_ok (emit fresh (length bs + 1) (bs @ [0]) (length bs) p1) (print_elements fresh prs))
     else print_elements fresh prs p1)"

definition print_array :: "allocator \<Rightarrow> printer list \<Rightarrow> printer" where
  "print_array fresh prs p =
     if_ok (emit fresh 1 [91] 1 p) (\<lambda>p1.
     if_ok (print_elements fresh prs (p1\<lparr>pb_depth := pb_depth p1 + 1\<rparr>)) (\<lambda>p2.
     if_ok (emit fresh 2 [93, 0] 0 p2) (\<lambda>p3. Inr (True, p3\<lparr>pb_depth := pb_depth p3 - 1\<rparr>))))"

text \<open>The indentation, the name and the colon of a member, and what stands behind its value.\<close>

definition print_key :: "allocator \<Rightarrow> u8 list option \<Rightarrow> printer" where
  "print_key fresh name p =
     if_ok (if pb_format p then emit fresh (pb_depth p) (replicate (pb_depth p) 9) (pb_depth p) p else Inr (True, p)) (\<lambda>p1.
     if_ok (print_and_update (print_string_ptr fresh name) p1) (\<lambda>p2.
     (let bs = 58 # (if pb_format p2 then [9] else []) in emit fresh (length bs) bs (length bs) p2)))"

definition print_comma :: "allocator \<Rightarrow> bool \<Rightarrow> printer" where
  "print_comma fresh not_last p =
     (let bs = (if not_last then [44] else []) @ (if pb_format p then [10] else [])
      in emit fresh (length bs + 1) (bs @ [0]) (length bs) p)"

text \<open>The members are given by their names and the functions that print their values.\<close>

fun print_members :: "allocator \<Rightarrow> (u8 list option \<times> printer) list \<Rightarrow> printer" where
  "print_members fresh [] p = Inr (True, p)"
| "print_members fresh ((name, pr) # ms) p =
     if_ok (print_key fresh name p) (\<lambda>p1.
     if_ok (print_and_update pr p1) (\<lambda>p2.
     if_ok (print_comma fresh (ms \<noteq> []) p2) (print_members fresh ms)))"

definition print_object :: "allocator \<Rightarrow> (u8 list option \<times> printer) list \<Rightarrow> printer" where
  "print_object fresh ms p =
     (let bs = 123 # (if pb_format p then [10] else [])
      in if_ok (emit fresh (length bs + 1) bs (length bs) p) (\<lambda>p1.
         if_ok (print_members fresh ms (p1\<lparr>pb_depth := pb_depth p1 + 1\<rparr>)) (\<lambda>p2.
         if_ok (emit fresh (if pb_format p2 then pb_depth p2 + 1 else 2)
                  ((if pb_format p2 then replicate (pb_depth p2 - 1) 9 else []) @ [125, 0]) 0 p2) (\<lambda>p3.
         Inr (True, p3\<lparr>pb_depth := pb_depth p3 - 1\<rparr>)))))"

definition print_text :: "allocator \<Rightarrow> u8 list \<Rightarrow> printer" where
  "print_text fresh t p = emit fresh (length t + 1) (t @ [0]) 0 p"

primrec print_value :: "allocator \<Rightarrow> cJSON \<Rightarrow> printer" where
  "print_value fresh (Item t vs vi vd s cs) = (\<lambda>p.
     let k = t AND 0xFF
     in if k = cJSON_NULL then print_text fresh (bytes_of ''null'') p
        else if k = cJSON_False then print_text fresh (bytes_of ''false'') p
        else if k = cJSON_True then print_text fresh (bytes_of ''true'') p
        else if k = cJSON_Number then print_number fresh vd p
        else if k = cJSON_Raw then (case vs of None \<Rightarrow> Inr (False, p) | Some block \<Rightarrow> print_text fresh (c_string block) p)
        else if k = cJSON_String then print_string_ptr fresh vs p
        else if k = cJSON_Array then print_array fresh (map (print_value fresh) cs) p
        else if k = cJSON_Object then print_object fresh (zip (map item_string cs) (map (print_value fresh) cs)) p
        else Inr (False, p))"

section \<open>Entry points\<close>

text \<open>
  \<^verbatim>\<open>print\<close>: the block returned, which is the final allocation shrunk to the text, and the number of blocks left.
  The static size of the first buffer is 256. A null item is refused by \<^verbatim>\<open>print_value\<close>.
\<close>

definition new_printbuffer :: "mem \<Rightarrow> nat \<Rightarrow> bool \<Rightarrow> bool \<Rightarrow> bool \<Rightarrow> printbuffer" where
  "new_printbuffer m len no_alloc fmt realloc_hook =
     \<lparr>pb_buffer = Some m, pb_length = len, pb_offset = 0, pb_depth = 0, noalloc = no_alloc, pb_format = fmt,
      pb_reallocate = realloc_hook, pb_allocs = 1, pb_live = 1\<rparr>"

definition print_item :: "allocator \<Rightarrow> cJSON option \<Rightarrow> printer" where
  "print_item fresh item p = (case item of None \<Rightarrow> Inr (False, p) | Some it \<Rightarrow> print_value fresh it p)"

text \<open>The failure path frees the buffer unless a failed reallocation has.\<close>

definition free_buffer :: "printbuffer \<Rightarrow> int" where
  "free_buffer p = (if pb_buffer p \<noteq> None then pb_live p - 1 else pb_live p)"

definition print :: "allocator \<Rightarrow> bool \<Rightarrow> cJSON option \<Rightarrow> bool \<Rightarrow> c_fault + ((mem \<times> nat) option \<times> int)" where
  "print fresh realloc_hook item format =
     (case fresh 0 of
        None \<Rightarrow> Inr (None, 0)
      | Some m \<Rightarrow>
          bind_fault (print_item fresh item (new_printbuffer m 256 False format realloc_hook)) (\<lambda>(ok, p).
          if \<not> ok then Inr (None, free_buffer p)
          else bind_fault (update_offset p) (\<lambda>p1.
               case (fresh (pb_allocs p1), pb_buffer p1) of
                 (None, _) \<Rightarrow> Inr (None, free_buffer p1)
               | (_, None) \<Rightarrow> Inl NullDeref
               | (Some m', Some b) \<Rightarrow>
                   (let size = pb_offset p1 + 1;
                        copied = mem_put m' 0 (mem_get b 0 (min (pb_length p1) size))
                    in Inr (Some (if realloc_hook then copied else mem_put copied (pb_offset p1) [0], size), pb_live p1)))))"

definition cJSON_Print :: "allocator \<Rightarrow> bool \<Rightarrow> cJSON option \<Rightarrow> c_fault + ((mem \<times> nat) option \<times> int)" where
  "cJSON_Print fresh realloc_hook item = print fresh realloc_hook item True"

definition cJSON_PrintUnformatted :: "allocator \<Rightarrow> bool \<Rightarrow> cJSON option \<Rightarrow> c_fault + ((mem \<times> nat) option \<times> int)" where
  "cJSON_PrintUnformatted fresh realloc_hook item = print fresh realloc_hook item False"

text \<open>\<^verbatim>\<open>cJSON_PrintBuffered\<close> returns the buffer as it is.\<close>

definition cJSON_PrintBuffered :: "allocator \<Rightarrow> bool \<Rightarrow> cJSON option \<Rightarrow> int \<Rightarrow> bool \<Rightarrow> c_fault + ((mem \<times> nat) option \<times> int)" where
  "cJSON_PrintBuffered fresh realloc_hook item prebuffer fmt =
     (if prebuffer < 0 then Inr (None, 0)
      else (case fresh 0 of
              None \<Rightarrow> Inr (None, 0)
            | Some m \<Rightarrow>
                bind_fault (print_item fresh item (new_printbuffer m (nat prebuffer) False fmt realloc_hook)) (\<lambda>(ok, p).
                if \<not> ok then Inr (None, free_buffer p)
                else Inr (map_option (\<lambda>b. (b, pb_length p)) (pb_buffer p), pb_live p))))"

text \<open>\<^verbatim>\<open>cJSON_PrintPreallocated\<close> never allocates; \<open>buffer\<close> is the caller's block of \<^verbatim>\<open>length\<close> bytes.\<close>

definition cJSON_PrintPreallocated :: "bool \<Rightarrow> cJSON option \<Rightarrow> mem option \<Rightarrow> int \<Rightarrow> bool \<Rightarrow> c_fault + (bool \<times> mem option)" where
  "cJSON_PrintPreallocated realloc_hook item buffer len format =
     (case buffer of
        None \<Rightarrow> Inr (False, None)
      | Some m \<Rightarrow>
          (if len < 0 then Inr (False, Some m)
           else bind_fault (print_item (\<lambda>_. None) item (new_printbuffer m (nat len) True format realloc_hook)) (\<lambda>(ok, p).
                Inr (ok, pb_buffer p))))"

section \<open>The text of an item\<close>

fun join :: "u8 list \<Rightarrow> u8 list list \<Rightarrow> u8 list" where
  "join sep [] = []"
| "join sep [t] = t"
| "join sep (t # ts) = t @ sep @ join sep ts"

fun members_text :: "bool \<Rightarrow> nat \<Rightarrow> (u8 list option \<times> u8 list) list \<Rightarrow> u8 list" where
  "members_text fmt d [] = []"
| "members_text fmt d ((name, t) # ms) =
     (if fmt then replicate d 9 else []) @ string_text name @ [58] @ (if fmt then [9] else []) @ t @
     (if ms \<noteq> [] then [44] else []) @ (if fmt then [10] else []) @ members_text fmt d ms"

fun json_text :: "bool \<Rightarrow> nat \<Rightarrow> cJSON \<Rightarrow> u8 list" where
  "json_text fmt d (Item t vs vi vd s cs) =
     (let k = t AND 0xFF
      in if k = cJSON_NULL then bytes_of ''null''
         else if k = cJSON_False then bytes_of ''false''
         else if k = cJSON_True then bytes_of ''true''
         else if k = cJSON_Number then number_text vd
         else if k = cJSON_Raw then c_string (the vs)
         else if k = cJSON_String then string_text vs
         else if k = cJSON_Array then [91] @ join (separator fmt) (map (json_text fmt (d + 1)) cs) @ [93]
         else [123] @ (if fmt then [10] else []) @
              members_text fmt (d + 1) (zip (map item_string cs) (map (json_text fmt (d + 1)) cs)) @
              (if fmt then replicate d 9 else []) @ [125])"

text \<open>The items that have a text.\<close>

fun printable :: "cJSON \<Rightarrow> bool" where
  "printable (Item t vs vi vd s cs) \<longleftrightarrow>
     (let k = t AND 0xFF
      in k = cJSON_NULL \<or> k = cJSON_False \<or> k = cJSON_True \<or> k = cJSON_String \<or> k = cJSON_Number \<and> valid_double vd \<or>
         k = cJSON_Raw \<and> vs \<noteq> None \<or> (k = cJSON_Array \<or> k = cJSON_Object) \<and> (\<forall>c \<in> set cs. printable c))"

section \<open>The buffer holds the text\<close>

text \<open>
  A buffer in use at a depth, and a text that has been appended to it, with the offset behind the text and
  inside the block.
\<close>

definition ready :: "bool \<Rightarrow> nat \<Rightarrow> printbuffer \<Rightarrow> bool" where
  "ready fmt d p \<longleftrightarrow> pb_ok p \<and> pb_format p = fmt \<and> pb_depth p = d"

definition moved :: "bool \<Rightarrow> nat \<Rightarrow> printbuffer \<Rightarrow> u8 list \<Rightarrow> printbuffer \<Rightarrow> bool" where
  "moved fmt d p txt p' \<longleftrightarrow> holds p (pb_offset p) txt p' \<and> pb_offset p' = pb_offset p + length txt \<and> ready fmt d p'"

lemma moved_framed: "moved fmt d p txt p' \<Longrightarrow> framed p p'"
  by (simp add: moved_def holds_def)

lemma moved_trans: "moved fmt d p a p1 \<Longrightarrow> moved fmt' d' p1 b p2 \<Longrightarrow> moved fmt' d' p (a @ b) p2"
  using holds_append [of p "pb_offset p" a p1 b p2] by (simp add: moved_def)

lemma moved_self: "ready fmt d p \<Longrightarrow> moved fmt d p [] p"
  by (auto simp: moved_def ready_def pb_ok_def holds_def framed_def)

lemma moved_depth: "moved fmt d p txt p' \<Longrightarrow> moved fmt d' p txt (p'\<lparr>pb_depth := d'\<rparr>)"
  by (auto simp: moved_def ready_def pb_ok_def holds_def framed_def)

lemma prints_le: "prints fresh t p r Q \<Longrightarrow> t \<le> u \<Longrightarrow> prints fresh u p r Q"
  by (rule prints_weaken)

lemmas prints_seq = prints_bind [OF _ _ _ order_refl]

lemma prints_skip: "ready fmt d p \<Longrightarrow> prints fresh t p (Inr (True, p)) (moved fmt d p [])"
  using prints_return [of p p] moved_self [of fmt d p] by (simp add: moved_framed)

text \<open>Texts appended one after the other.\<close>

lemma prints_append:
  assumes "prints fresh t p r (moved fmt d p a)" "t \<le> u"
    and "\<And>p1. ready fmt d p1 \<Longrightarrow> pb_offset p1 = pb_offset p + length a \<Longrightarrow> prints fresh u p1 (f p1) (moved fmt' d' p1 b)"
  shows "prints fresh u p (if_ok r f) (moved fmt' d' p (a @ b))"
proof (rule prints_seq [OF assms(1) _ assms(2)])
  fix p1 assume m: "moved fmt d p a p1"
  then have "prints fresh u p1 (f p1) (moved fmt' d' p1 b)" by (intro assms(3)) (simp_all add: moved_def)
  then show "prints fresh u p1 (f p1) (moved fmt' d' p (a @ b))" by (rule prints_weaken) (use moved_trans [OF m] in auto)
qed

lemma emit_prints:
  assumes "pb_ok p" "length bs \<le> n + 1"
  shows "prints fresh (pb_offset p + n + 1) p (emit fresh n bs k p)
    (\<lambda>p'. holds p (pb_offset p) bs p' \<and> pb_offset p + n + 1 \<le> pb_length p' \<and> pb_offset p' = pb_offset p + k \<and> pb_depth p' = pb_depth p)"
  unfolding emit_def
proof (rule prints_seq [OF ensure_prints [OF assms(1) refl]])
  fix p1 assume fr: "framed p p1" and p1: "holds p (pb_offset p) [] p1 \<and> pb_offset p + n + 1 \<le> pb_length p1 \<and>
    pb_offset p1 = pb_offset p \<and> pb_depth p1 = pb_depth p"
  have "puts p1 (pb_offset p1) bs (pb_store (pb_offset p1) bs p1)"
    by (rule puts_store) (use fr p1 assms(2) in \<open>auto simp: framed_def\<close>)
  then obtain p2 where p2: "pb_store (pb_offset p1) bs p1 = Inr p2" "holds p1 (pb_offset p) bs p2" "pb_offset p2 = pb_offset p"
    "pb_depth p2 = pb_depth p" using p1 by (auto simp: puts_def)
  let ?p3 = "p2\<lparr>pb_offset := pb_offset p2 + k\<rparr>"
  have h: "holds p (pb_offset p) bs p2" using holds_append [of p "pb_offset p" "[]" p1 bs p2] p1 p2(2) by simp
  have "framed p1 ?p3" "holds p (pb_offset p) bs ?p3" using p2(2) h by (auto simp: holds_def framed_def)
  moreover have "pb_offset p + n + 1 \<le> pb_length ?p3" using holds_bounds [OF p2(2)] p1 by simp
  ultimately show "prints fresh (pb_offset p + n + 1) p1 (bind_fault (pb_store (pb_offset p1) bs p1) (\<lambda>p2. Inr (True, p2\<lparr>pb_offset := pb_offset p2 + k\<rparr>)))
    (\<lambda>p'. holds p (pb_offset p) bs p' \<and> pb_offset p + n + 1 \<le> pb_length p' \<and> pb_offset p' = pb_offset p + k \<and> pb_depth p' = pb_depth p)"
    using p2 by (simp add: prints_return)
qed simp

lemma emit_moved:
  assumes "ready fmt d p" "length bs \<le> n" "length cs \<le> 1" "k = length bs" "xs = bs @ cs" "pb_offset p + n + 1 \<le> u"
  shows "prints fresh u p (emit fresh n xs k p) (moved fmt d p bs)"
proof -
  have p: "pb_ok p" "length xs \<le> n + 1" using assms by (simp_all add: ready_def)
  show ?thesis
    by (rule prints_weaken [OF emit_prints [OF p]])
      (use assms in \<open>auto simp: moved_def ready_def pb_ok_def framed_def dest: holds_take\<close>)
qed

lemma print_text_prints:
  assumes "pb_ok p" "0 \<notin> set t"
  shows "prints fresh (pb_offset p + length t + 2) p (print_text fresh t p) (printed p t)"
  unfolding print_text_def
  by (rule prints_weaken [OF emit_prints [OF assms(1)]]) (use assms(2) in \<open>auto simp: printed_def\<close>)

text \<open>The terminator is where the text ends.\<close>

lemma update_offset_moved:
  assumes "printed p txt p'" "pb_format p = fmt" "pb_depth p = d"
  shows "\<exists>p2. update_offset p' = Inr p2 \<and> framed p' p2 \<and> moved fmt d p txt p2"
proof -
  let ?o = "pb_offset p" and ?i = "pb_offset p'"
  obtain b' where b': "pb_buffer p' = Some b'" "mem_get b' ?o (length txt + 1) = txt @ [0]" "?o + length txt + 1 \<le> pb_length p'"
    using assms(1) by (auto simp: printed_def holds_def)
  have i: "?o \<le> ?i" "?i \<le> ?o + length txt" "0 \<notin> set txt" using assms(1) by (simp_all add: printed_def)
  let ?n = "?o + length txt - ?i"
  have "mem_get b' ?i (pb_length p' - ?i) = mem_get b' ?i (?n + 1) @ mem_get b' (?i + (?n + 1)) (pb_length p' - ?i - (?n + 1))"
    using b'(3) i mem_get_split [of "?n + 1" "pb_length p' - ?i" b' ?i] by simp
  also have "mem_get b' ?i (?n + 1) = drop (?i - ?o) txt @ [0]"
    using arg_cong [OF b'(2), of "drop (?i - ?o)"] i by (simp add: Suc_diff_le add.commute)
  finally have m: "mem_get b' ?i (pb_length p' - ?i) =
      drop (?i - ?o) txt @ 0 # mem_get b' (?i + (?n + 1)) (pb_length p' - ?i - (?n + 1))" by simp
  have nz: "\<forall>c \<in> set (drop (?i - ?o) txt). c \<noteq> 0" using i(3) in_set_dropD by fast
  have t: "takeWhile (\<lambda>c. c \<noteq> 0) (mem_get b' ?i (pb_length p' - ?i)) = drop (?i - ?o) txt"
    unfolding m using nz by (simp add: takeWhile_append2)
  have l: "length (drop (?i - ?o) txt) = ?n" using i by simp
  have "?n < pb_length p' - ?i" using b'(3) i by linarith
  then have "update_offset p' = Inr (p'\<lparr>pb_offset := ?o + length txt\<rparr>)"
    unfolding update_offset_def b'(1) option.case Let_def t l using i by simp
  moreover have "framed p' (p'\<lparr>pb_offset := ?o + length txt\<rparr>)" using b'(1) by (simp add: framed_def)
  moreover have "moved fmt d p txt (p'\<lparr>pb_offset := ?o + length txt\<rparr>)"
    using assms b'(3) holds_take [of p ?o _ "[0]" p']
    by (auto simp: printed_def holds_def framed_def moved_def ready_def pb_ok_def)
  ultimately show ?thesis by blast
qed

text \<open>A function that prints a text at a given depth.\<close>

definition printer_of :: "allocator \<Rightarrow> bool \<Rightarrow> nat \<Rightarrow> printer \<Rightarrow> u8 list \<Rightarrow> bool" where
  "printer_of fresh fmt d pr t \<longleftrightarrow> (\<forall>q. ready fmt d q \<longrightarrow> prints fresh (pb_offset q + length t + 2) q (pr q) (printed q t))"

lemma update_prints:
  assumes "printer_of fresh fmt d pr t" "ready fmt d p" "pb_offset p + length t + 2 \<le> u"
  shows "prints fresh u p (print_and_update pr p) (moved fmt d p t)"
  unfolding print_and_update_def
proof (rule prints_seq)
  show "prints fresh (pb_offset p + length t + 2) p (pr p) (printed p t)" using assms(1,2) by (simp add: printer_of_def)
  fix p1 assume "printed p t p1"
  then obtain p2 where "update_offset p1 = Inr p2" "framed p1 p2" "moved fmt d p t p2"
    using update_offset_moved [of p t p1 fmt d] assms(2) by (auto simp: ready_def)
  then show "prints fresh u p1 (return_true (update_offset p1)) (moved fmt d p t)"
    by (simp add: return_true_def prints_return)
qed (rule assms(3))

lemma print_elements_prints:
  assumes "list_all2 (printer_of fresh fmt d) prs ts" "ready fmt d p"
    and "pb_offset p + length (join (separator fmt) ts) + 2 \<le> u"
  shows "prints fresh u p (print_elements fresh prs p) (moved fmt d p (join (separator fmt) ts))"
  using assms
proof (induction prs ts arbitrary: p rule: list_all2_induct)
  case Nil
  then show ?case by (simp add: prints_skip)
next
  case (Cons pr prs t ts)
  let ?sep = "separator fmt"
  have len: "prs = [] \<longleftrightarrow> ts = []" using Cons.hyps(2) by auto
  have l: "pb_offset p + length t + 2 \<le> u" using Cons.prems(2) by (cases ts) auto
  note IH = Cons.IH
  note pr = update_prints [OF Cons.hyps(1) Cons.prems(1) l]
  show ?case
  proof (cases ts)
    case Nil
    then have n: "prs = []" "join ?sep (t # ts) = t @ []" using len by simp_all
    show ?thesis unfolding n print_elements.simps by (rule prints_append [OF pr]) (auto intro: prints_skip)
  next
    case (Cons t' ts')
    then have n: "prs \<noteq> []" "join ?sep (t # ts) = t @ ?sep @ join ?sep ts" using len by simp_all
    have u: "pb_offset p + length t + length ?sep + length (join ?sep ts) + 2 \<le> u" using Cons.prems(2) n by simp
    show ?thesis unfolding n(2) print_elements.simps Let_def
    proof (rule prints_append [OF pr order_refl])
      fix p1 assume p1: "ready fmt d p1" "pb_offset p1 = pb_offset p + length t"
      have "prints fresh u p1 (if_ok (emit fresh (length ?sep + 1) (?sep @ [0]) (length ?sep) p1) (print_elements fresh prs))
        (moved fmt d p1 (?sep @ join ?sep ts))"
      proof (rule prints_append [OF _ order_refl])
        show "prints fresh u p1 (emit fresh (length ?sep + 1) (?sep @ [0]) (length ?sep) p1) (moved fmt d p1 ?sep)"
          by (rule emit_moved [OF p1(1), where cs = "[0]"]) (use p1(2) u in simp_all)
        fix p2 assume "ready fmt d p2" "pb_offset p2 = pb_offset p1 + length ?sep"
        then show "prints fresh u p2 (print_elements fresh prs p2) (moved fmt d p2 (join ?sep ts))"
          using p1(2) u by (intro IH) simp_all
      qed
      then show "prints fresh u p1 (if prs \<noteq> [] then if_ok (emit fresh (length (separator (pb_format p1)) + 1)
            (separator (pb_format p1) @ [0]) (length (separator (pb_format p1))) p1) (print_elements fresh prs)
          else print_elements fresh prs p1) (moved fmt d p1 (?sep @ join ?sep ts))"
        using p1(1) n(1) by (simp only: ready_def if_True simp_thms)
    qed
  qed
qed

lemma string_printer: "printer_of fresh fmt d (print_string_ptr fresh name) (string_text name)"
  using print_string_prints by (simp add: printer_of_def ready_def)

definition key_text :: "bool \<Rightarrow> nat \<Rightarrow> u8 list option \<Rightarrow> u8 list" where
  "key_text fmt d name = (if fmt then replicate d 9 else []) @ string_text name @ [58] @ (if fmt then [9] else [])"

definition comma_text :: "bool \<Rightarrow> bool \<Rightarrow> u8 list" where
  "comma_text fmt not_last = (if not_last then [44] else []) @ (if fmt then [10] else [])"

lemma members_text_Cons:
  "members_text fmt d ((name, t) # ms) = key_text fmt d name @ t @ comma_text fmt (ms \<noteq> []) @ members_text fmt d ms"
  by (simp add: key_text_def comma_text_def)

lemma print_key_prints:
  assumes "ready fmt d p" "pb_offset p + length (key_text fmt d name) + 2 \<le> u"
  shows "prints fresh u p (print_key fresh name p) (moved fmt d p (key_text fmt d name))"
proof -
  let ?tabs = "if fmt then replicate d 9 else [] :: u8 list" and ?col = "58 # (if fmt then [9] else []) :: u8 list"
  have p: "pb_format p = fmt" "pb_depth p = d" using assms(1) by (simp_all add: ready_def)
  have u: "pb_offset p + length ?tabs + length (string_text name) + length ?col + 2 \<le> u" using assms(2) by (simp add: key_text_def)
  have tabs: "prints fresh u p (if fmt then emit fresh d (replicate d 9) d p else Inr (True, p)) (moved fmt d p ?tabs)"
  proof (cases fmt)
    case True
    have "prints fresh u p (emit fresh d (replicate d 9) d p) (moved fmt d p (replicate d 9))"
      by (rule emit_moved [OF assms(1), where cs = "[]"]) (use u True in auto)
    then show ?thesis using True by simp
  qed (use prints_skip [OF assms(1)] in simp)
  have e: "key_text fmt d name = ?tabs @ string_text name @ ?col" by (simp add: key_text_def)
  show ?thesis unfolding e print_key_def p
  proof (rule prints_append [OF tabs order_refl])
    fix p1 assume p1: "ready fmt d p1" "pb_offset p1 = pb_offset p + length ?tabs"
    show "prints fresh u p1 (if_ok (print_and_update (print_string_ptr fresh name) p1) (\<lambda>p2.
       let bs = 58 # (if pb_format p2 then [9] else []) in emit fresh (length bs) bs (length bs) p2)) (moved fmt d p1 (string_text name @ ?col))"
    proof (rule prints_append [OF _ order_refl])
      show "prints fresh u p1 (print_and_update (print_string_ptr fresh name) p1) (moved fmt d p1 (string_text name))"
        by (rule update_prints [OF string_printer p1(1)]) (use p1(2) u in simp)
      fix p2 assume p2: "ready fmt d p2" "pb_offset p2 = pb_offset p1 + length (string_text name)"
      have "prints fresh u p2 (emit fresh (length ?col) ?col (length ?col) p2) (moved fmt d p2 ?col)"
        by (rule emit_moved [OF p2(1), where cs = "[]"]) (use p2(2) p1(2) u in simp_all)
      then show "prints fresh u p2 (let bs = 58 # (if pb_format p2 then [9] else []) in emit fresh (length bs) bs (length bs) p2) (moved fmt d p2 ?col)"
        using p2(1) by (simp only: ready_def Let_def)
    qed
  qed
qed

lemma print_comma_prints:
  assumes "ready fmt d p" "pb_offset p + length (comma_text fmt not_last) + 2 \<le> u"
  shows "prints fresh u p (print_comma fresh not_last p) (moved fmt d p (comma_text fmt not_last))"
proof -
  have p: "pb_format p = fmt" using assms(1) by (simp add: ready_def)
  show ?thesis unfolding print_comma_def p Let_def comma_text_def [symmetric]
    by (rule emit_moved [OF assms(1), where cs = "[0]"]) (use assms(2) in simp_all)
qed

lemma print_members_prints:
  assumes "list_all2 (\<lambda>m t. fst m = fst t \<and> printer_of fresh fmt d (snd m) (snd t)) ms ts" "ready fmt d p"
    and "pb_offset p + length (members_text fmt d ts) + 2 \<le> u"
  shows "prints fresh u p (print_members fresh ms p) (moved fmt d p (members_text fmt d ts))"
  using assms
proof (induction ms ts arbitrary: p rule: list_all2_induct)
  case Nil
  then show ?case by (simp add: prints_skip)
next
  case (Cons m ms nt ts)
  obtain name pr t where m: "m = (name, pr)" "nt = (name, t)" "printer_of fresh fmt d pr t"
    using Cons.hyps(1) by (cases m; cases nt) auto
  have ne: "ms \<noteq> [] \<longleftrightarrow> ts \<noteq> []" using Cons.hyps(2) by auto
  let ?k = "key_text fmt d name" and ?c = "comma_text fmt (ts \<noteq> [])"
  have u: "pb_offset p + length ?k + length t + length ?c + length (members_text fmt d ts) + 2 \<le> u"
    using Cons.prems(2) unfolding m(2) members_text_Cons by simp
  show ?case unfolding m(1,2) members_text_Cons print_members.simps ne
  proof (rule prints_append [OF print_key_prints [OF Cons.prems(1)] order_refl])
    show "pb_offset p + length ?k + 2 \<le> u" using u by simp
    fix p1 assume p1: "ready fmt d p1" "pb_offset p1 = pb_offset p + length ?k"
    show "prints fresh u p1 (if_ok (print_and_update pr p1) (\<lambda>p2. if_ok (print_comma fresh (ts \<noteq> []) p2) (print_members fresh ms)))
      (moved fmt d p1 (t @ ?c @ members_text fmt d ts))"
    proof (rule prints_append [OF update_prints [OF m(3) p1(1)] order_refl])
      show "pb_offset p1 + length t + 2 \<le> u" using u p1(2) by simp
      fix p2 assume p2: "ready fmt d p2" "pb_offset p2 = pb_offset p1 + length t"
      show "prints fresh u p2 (if_ok (print_comma fresh (ts \<noteq> []) p2) (print_members fresh ms)) (moved fmt d p2 (?c @ members_text fmt d ts))"
        by (rule prints_append [OF print_comma_prints [OF p2(1)] order_refl], use u p1(2) p2(2) in simp, rule Cons.IH)
          (use u p1(2) p2(2) in simp_all)
    qed
  qed
qed

text \<open>The closing bracket, and the depth restored.\<close>

lemma close_prints:
  assumes "moved fmt (d + 1) p a p1" "0 \<notin> set (a @ bs)" "length bs + 1 \<le> n + 1" "xs = bs @ [0]" "pb_offset p1 + n + 1 \<le> u" "pb_depth p = d"
  shows "prints fresh u p1 (if_ok (emit fresh n xs 0 p1) (\<lambda>p3. Inr (True, p3\<lparr>pb_depth := pb_depth p3 - 1\<rparr>))) (printed p (a @ bs))"
proof -
  have p1: "pb_ok p1" "pb_depth p1 = d + 1" "pb_offset p1 = pb_offset p + length a" using assms(1) by (auto simp: moved_def ready_def)
  show ?thesis
  proof (rule prints_seq [OF emit_prints [OF p1(1)]])
    fix p2 assume p2: "holds p1 (pb_offset p1) xs p2 \<and> pb_offset p1 + n + 1 \<le> pb_length p2 \<and> pb_offset p2 = pb_offset p1 + 0 \<and>
      pb_depth p2 = pb_depth p1"
    let ?p3 = "p2\<lparr>pb_depth := pb_depth p2 - 1\<rparr>"
    have "holds p (pb_offset p) (a @ xs) p2"
      using holds_append [of p "pb_offset p" a p1 xs p2] assms(1) p2 p1(3) by (simp add: moved_def)
    then have "printed p (a @ bs) ?p3" "framed p2 ?p3"
      using p1 p2 assms(2,4,6) by (auto simp: printed_def holds_def framed_def)
    then show "prints fresh u p2 (Inr (True, ?p3)) (printed p (a @ bs))" by (rule prints_return [rotated])
  qed (use assms(3-5) in simp_all)
qed

lemma prints_depth: "prints fresh t (p\<lparr>pb_depth := k\<rparr>) r Q = prints fresh t p r Q"
  by (simp add: prints_def framed_def lost_def roomy_def)

lemma set_join: "c \<in> set (join sep ts) \<Longrightarrow> c \<in> set sep \<or> (\<exists>t \<in> set ts. c \<in> set t)"
  by (induction sep ts rule: join.induct) auto

lemma set_members_text: "c \<in> set (members_text fmt d ms) \<Longrightarrow> c = 0 \<Longrightarrow> \<exists>m \<in> set ms. c \<in> set (snd m)"
proof (induction fmt d ms rule: members_text.induct)
  case (2 fmt d name t ms)
  then show ?case by (auto simp: string_text_def escaped_nonzero split: if_splits)
qed simp

lemma print_array_prints:
  assumes "list_all2 (printer_of fresh fmt (d + 1)) prs ts" "\<forall>t \<in> set ts. 0 \<notin> set t"
  shows "printer_of fresh fmt d (print_array fresh prs) ([91] @ join (separator fmt) ts @ [93])"
  unfolding printer_of_def
proof (intro allI impI)
  fix p assume p: "ready fmt d p"
  let ?j = "join (separator fmt) ts"
  let ?u = "pb_offset p + length ([91] @ ?j @ [93]) + 2"
  have nz: "0 \<notin> set (([91] @ ?j) @ [93])" using set_join [of 0 "separator fmt" ts] assms(2) by (auto simp: separator_def)
  have "prints fresh ?u p (print_array fresh prs p) (printed p (([91] @ ?j) @ [93]))"
    unfolding print_array_def
  proof (rule prints_seq [OF emit_moved [OF p, where bs = "[91]" and cs = "[]" and u = ?u]])
    fix p1 assume m1: "moved fmt d p [91] p1"
    let ?p1 = "p1\<lparr>pb_depth := pb_depth p1 + 1\<rparr>"
    have m1': "moved fmt (d + 1) p [91] ?p1" using moved_depth [OF m1] m1 by (simp add: moved_def ready_def)
    have "prints fresh ?u ?p1 (print_elements fresh prs ?p1) (moved fmt (d + 1) ?p1 ?j)"
      by (rule print_elements_prints [OF assms(1)]) (use m1' in \<open>simp_all add: moved_def\<close>)
    then have "prints fresh ?u ?p1 (if_ok (print_elements fresh prs ?p1) (\<lambda>p2.
        if_ok (emit fresh 2 [93, 0] 0 p2) (\<lambda>p3. Inr (True, p3\<lparr>pb_depth := pb_depth p3 - 1\<rparr>)))) (printed p (([91] @ ?j) @ [93]))"
    proof (rule prints_seq)
      fix p2 assume m2: "moved fmt (d + 1) ?p1 ?j p2"
      note a2 = moved_trans [OF m1' m2]
      show "prints fresh ?u p2 (if_ok (emit fresh 2 [93, 0] 0 p2) (\<lambda>p3. Inr (True, p3\<lparr>pb_depth := pb_depth p3 - 1\<rparr>))) (printed p (([91] @ ?j) @ [93]))"
        by (rule close_prints [OF a2 nz]) (use a2 p in \<open>simp_all add: moved_def ready_def\<close>)
    qed simp
    then show "prints fresh ?u p1 (if_ok (print_elements fresh prs ?p1) (\<lambda>p2.
        if_ok (emit fresh 2 [93, 0] 0 p2) (\<lambda>p3. Inr (True, p3\<lparr>pb_depth := pb_depth p3 - 1\<rparr>)))) (printed p (([91] @ ?j) @ [93]))"
      by (simp only: prints_depth)
  qed simp_all
  then show "prints fresh ?u p (print_array fresh prs p) (printed p ([91] @ ?j @ [93]))" by simp
qed

lemma print_object_prints:
  assumes "list_all2 (\<lambda>m t. fst m = fst t \<and> printer_of fresh fmt (d + 1) (snd m) (snd t)) ms ts" "\<forall>t \<in> set ts. 0 \<notin> set (snd t)"
  shows "printer_of fresh fmt d (print_object fresh ms)
    ([123] @ (if fmt then [10] else []) @ members_text fmt (d + 1) ts @ (if fmt then replicate d 9 else []) @ [125])"
  unfolding printer_of_def
proof (intro allI impI)
  fix p assume p: "ready fmt d p"
  let ?o = "123 # (if fmt then [10] else []) :: u8 list" and ?m = "members_text fmt (d + 1) ts"
  let ?c = "(if fmt then replicate d 9 else []) @ [125] :: u8 list"
  let ?u = "pb_offset p + length (?o @ ?m @ ?c) + 2"
  have f: "pb_format p = fmt" using p by (simp add: ready_def)
  have nz: "0 \<notin> set ((?o @ ?m) @ ?c)" using set_members_text [of 0 fmt "d + 1" ts] assms(2) by auto
  let ?close = "\<lambda>p2. if_ok (emit fresh (if pb_format p2 then pb_depth p2 + 1 else 2)
      ((if pb_format p2 then replicate (pb_depth p2 - 1) 9 else []) @ [125, 0]) 0 p2) (\<lambda>p3. Inr (True, p3\<lparr>pb_depth := pb_depth p3 - 1\<rparr>))"
  have "prints fresh ?u p (if_ok (emit fresh (length ?o + 1) ?o (length ?o) p) (\<lambda>p1.
      if_ok (print_members fresh ms (p1\<lparr>pb_depth := pb_depth p1 + 1\<rparr>)) ?close)) (printed p ((?o @ ?m) @ ?c))"
  proof (rule prints_seq [OF emit_moved [OF p, where bs = ?o and cs = "[]" and u = ?u]])
    fix p1 assume m1: "moved fmt d p ?o p1"
    let ?p1 = "p1\<lparr>pb_depth := pb_depth p1 + 1\<rparr>"
    have m1': "moved fmt (d + 1) p ?o ?p1" using moved_depth [OF m1] m1 by (simp add: moved_def ready_def)
    have "prints fresh ?u ?p1 (print_members fresh ms ?p1) (moved fmt (d + 1) ?p1 ?m)"
      by (rule print_members_prints [OF assms(1)]) (use m1' in \<open>simp_all add: moved_def\<close>)
    then have "prints fresh ?u ?p1 (if_ok (print_members fresh ms ?p1) ?close) (printed p ((?o @ ?m) @ ?c))"
    proof (rule prints_seq)
      fix p2 assume m2: "moved fmt (d + 1) ?p1 ?m p2"
      note a2 = moved_trans [OF m1' m2]
      have p2: "pb_format p2 = fmt" "pb_depth p2 = d + 1" using a2 by (simp_all add: moved_def ready_def)
      show "prints fresh ?u p2 (?close p2) (printed p ((?o @ ?m) @ ?c))"
        unfolding p2 by (rule close_prints [OF a2 nz]) (use a2 p in \<open>simp_all add: moved_def ready_def\<close>)
    qed simp
    then show "prints fresh ?u p1 (if_ok (print_members fresh ms ?p1) ?close) (printed p ((?o @ ?m) @ ?c))"
      by (simp only: prints_depth)
  qed simp_all
  then show "prints fresh (pb_offset p + length ([123] @ (if fmt then [10] else []) @ ?m @ (if fmt then replicate d 9 else []) @ [125]) + 2) p
      (print_object fresh ms p) (printed p ([123] @ (if fmt then [10] else []) @ ?m @ (if fmt then replicate d 9 else []) @ [125]))"
    unfolding print_object_def f Let_def by simp
qed

lemma json_text_nonzero: "printable item \<Longrightarrow> 0 \<notin> set (json_text fmt d item)"
proof (induction item arbitrary: d)
  case (Item t vs vi vd s cs)
  let ?k = "t AND 0xFF" and ?ts = "map (json_text fmt (d + 1)) cs"
  show ?case
  proof (cases "?k = cJSON_Array \<or> ?k = cJSON_Object")
    case True
    then have c: "0 \<notin> set x" if "x \<in> set ?ts" for x using that Item by (auto simp: Let_def)
    then have "0 \<notin> set (snd m)" if "m \<in> set (zip (map item_string cs) ?ts)" for m
      using that by (metis in_set_zipE prod.collapse)
    then have "0 \<notin> set (members_text fmt (d + 1) (zip (map item_string cs) ?ts))" using set_members_text by blast
    moreover have "0 \<notin> set (join (separator fmt) ?ts)" using set_join [of 0 "separator fmt" ?ts] c by (auto simp: separator_def)
    ultimately show ?thesis using True by (auto simp: Let_def)
  next
    case False
    have "0 \<notin> set (c_string x)" for x by (auto simp: c_string_def dest: set_takeWhileD)
    then show ?thesis using False Item.prems set_number_text(2) [of vd] escaped_nonzero
      by (auto simp: Let_def bytes_of_def string_text_def)
  qed
qed

lemma print_value_prints:
  assumes "printable item"
  shows "printer_of fresh fmt d (print_value fresh item) (json_text fmt d item)"
  using assms
proof (induction item arbitrary: d)
  case (Item t vs vi vd s cs)
  let ?k = "t AND 0xFF" and ?ts = "map (json_text fmt (d + 1)) cs" and ?prs = "map (print_value fresh) cs"
  let ?it = "Item t vs vi vd s cs"
  have tx: "printer_of fresh fmt d (print_text fresh x) x" if "0 \<notin> set x" for x
    using print_text_prints [OF _ that] by (simp add: printer_of_def ready_def)
  have nz: "0 \<notin> set (json_text fmt d ?it)" by (rule json_text_nonzero [OF Item.prems])
  consider (items) "?k = cJSON_Array \<or> ?k = cJSON_Object" | (num) "?k = cJSON_Number" "valid_double vd"
    | (str) "?k = cJSON_String" | (raw) block where "?k = cJSON_Raw" "vs = Some block"
    | (const) "?k = cJSON_NULL \<or> ?k = cJSON_False \<or> ?k = cJSON_True" using Item.prems by (auto simp: Let_def)
  then show ?case
  proof cases
    case items
    then have IH: "printer_of fresh fmt (d + 1) (print_value fresh c) (json_text fmt (d + 1) c)" "0 \<notin> set (json_text fmt (d + 1) c)"
      if "c \<in> set cs" for c using Item that json_text_nonzero by (auto simp: Let_def)
    then have a: "list_all2 (printer_of fresh fmt (d + 1)) ?prs ?ts" by (simp add: list_all2_conv_all_nth)
    have o: "list_all2 (\<lambda>m t. fst m = fst t \<and> printer_of fresh fmt (d + 1) (snd m) (snd t))
        (zip (map item_string cs) ?prs) (zip (map item_string cs) ?ts)" using IH by (simp add: list_all2_conv_all_nth)
    have n: "\<forall>x \<in> set ?ts. 0 \<notin> set x" using IH by simp
    then have n': "\<forall>m \<in> set (zip (map item_string cs) ?ts). 0 \<notin> set (snd m)" by (metis in_set_zipE prod.collapse)
    show ?thesis
    proof (cases "?k = cJSON_Array")
      case True
      have "print_value fresh ?it = print_array fresh ?prs" using True by (simp add: fun_eq_iff Let_def)
      then show ?thesis using print_array_prints [OF a n] True by (simp add: Let_def)
    next
      case False
      have "print_value fresh ?it = print_object fresh (zip (map item_string cs) ?prs)" using False items by (simp add: fun_eq_iff Let_def)
      then show ?thesis using print_object_prints [OF o n'] False items by (simp add: Let_def)
    qed
  next
    case num
    have "print_value fresh ?it = print_number fresh vd" using num(1) by (simp add: fun_eq_iff Let_def)
    then show ?thesis using print_number_prints [OF _ num(2)] num(1) by (simp add: Let_def printer_of_def ready_def)
  next
    case str
    have "print_value fresh ?it = print_string_ptr fresh vs" using str by (simp add: fun_eq_iff Let_def)
    then show ?thesis using string_printer str by (simp add: Let_def)
  next
    case raw
    have "print_value fresh ?it = print_text fresh (c_string block)" using raw by (simp add: fun_eq_iff Let_def)
    then show ?thesis using tx nz raw by (simp add: Let_def)
  next
    case const
    then have "print_value fresh ?it = print_text fresh (json_text fmt d ?it)" by (auto simp: fun_eq_iff Let_def)
    then show ?thesis using tx [OF nz] by simp
  qed
qed

section \<open>What the entry points return\<close>

lemma print_returns_text:
  assumes "printable item"
  shows "\<exists>r left. print fresh realloc_hook (Some item) fmt = Inr (r, left) \<and>
    (r = None \<longrightarrow> left = 0) \<and>
    (\<forall>m size. r = Some (m, size) \<longrightarrow> left = 1 \<and> size = length (json_text fmt 0 item) + 1 \<and>
       mem_get m 0 size = json_text fmt 0 item @ [0]) \<and>
    ((\<forall>n. fresh n \<noteq> None) \<and> length (json_text fmt 0 item) + 2 \<le> INT_MAX_SIZE \<longrightarrow> r \<noteq> None)"
proof (cases "fresh 0")
  case None
  then show ?thesis by (auto simp: print_def)
next
  case (Some m0)
  let ?t = "json_text fmt 0 item"
  define p where "p = new_printbuffer m0 256 False fmt realloc_hook"
  have r: "ready fmt 0 p" by (simp add: p_def new_printbuffer_def ready_def pb_ok_def)
  have p0: "pb_offset p = 0" "pb_live p = 1" by (simp_all add: p_def new_printbuffer_def)
  from print_value_prints [OF assms, of fresh fmt 0] r have "prints fresh (pb_offset p + length ?t + 2) p (print_value fresh item p) (printed p ?t)"
    by (simp add: printer_of_def)
  then obtain ok p1 where p1: "print_value fresh item p = Inr (ok, p1)" "ok \<longrightarrow> framed p p1 \<and> printed p ?t p1" "\<not> ok \<longrightarrow> lost p p1"
    "roomy fresh p (length ?t + 2) \<longrightarrow> ok" using p0(1) by (auto simp: prints_def)
  have e: "print fresh realloc_hook (Some item) fmt =
      (if \<not> ok then Inr (None, free_buffer p1)
       else bind_fault (update_offset p1) (\<lambda>p1.
               case (fresh (pb_allocs p1), pb_buffer p1) of
                 (None, _) \<Rightarrow> Inr (None, free_buffer p1)
               | (_, None) \<Rightarrow> Inl NullDeref
               | (Some m', Some b) \<Rightarrow>
                   (let size = pb_offset p1 + 1;
                        copied = mem_put m' 0 (mem_get b 0 (min (pb_length p1) size))
                    in Inr (Some (if realloc_hook then copied else mem_put copied (pb_offset p1) [0], size), pb_live p1))))"
    unfolding print_def Some option.case p_def [symmetric] print_item_def p1(1) by simp
  show ?thesis
  proof (cases ok)
    case False
    then have "free_buffer p1 = 0" using p1(3) p0(2) by (auto simp: lost_def free_buffer_def)
    moreover have "\<not> ((\<forall>n. fresh n \<noteq> None) \<and> length ?t + 2 \<le> INT_MAX_SIZE)"
      using False p1(4) by (auto simp: roomy_def p_def new_printbuffer_def)
    ultimately show ?thesis unfolding e using False by auto
  next
    case True
    then obtain p2 where p2: "update_offset p1 = Inr p2" "framed p1 p2" "moved fmt 0 p ?t p2"
      using p1(2) update_offset_moved [of p ?t p1 fmt 0] r by (auto simp: ready_def)
    have h: "holds p 0 ?t p2" "pb_offset p2 = length ?t" "pb_length p2 > length ?t" "pb_live p2 = 1"
      using p2(3) p0 by (auto simp: moved_def ready_def pb_ok_def holds_def framed_def)
    obtain b1 b where b: "pb_buffer p1 = Some b1" "pb_buffer p2 = Some b" using p2(2) by (auto simp: framed_def)
    have "b = b1" "mem_get b1 0 (length ?t + 1) = ?t @ [0]"
      using p1(2) True p2(1) b p0(1) by (auto simp: update_offset_def Let_def printed_def holds_def split: if_splits)
    then have m: "mem_get b 0 (length ?t + 1) = ?t @ [0]" by simp
    let ?c = "\<lambda>m'. mem_put m' 0 (mem_get b 0 (min (pb_length p2) (length ?t + 1)))"
    have l: "min (pb_length p2) (length ?t + 1) = length ?t + 1" using h(3) by simp
    have c: "mem_get (?c m') 0 (length ?t + 1) = ?t @ [0]" for m'
      unfolding l m using mem_get_put_same [of m' 0 "?t @ [0]"] by simp
    have "mem_get (mem_put (?c m') (length ?t) [0]) 0 (length ?t + 1) = ?t @ [0]" for m'
      using arg_cong [OF c [of m'], of "take (length ?t)"] mem_get_put_extend [of 0 "length ?t" "?c m'" "[0]"] by simp
    then show ?thesis unfolding e using True p2(1) b(2) h(2,4) c
      by (cases "fresh (pb_allocs p2)") (auto simp: free_buffer_def Let_def)
  qed
qed

text \<open>
  C11: printing an item whose numbers are doubles returns, never leaves its buffers and never mislays one.
  Either there is no text and every block has been freed, or the one block left holds exactly the text of
  the item and its terminator. There is a text whenever the allocations succeed and the text, its
  terminator and one more byte stay within the largest \<^verbatim>\<open>int\<close>.
\<close>

theorem cJSON_Print_text:
  assumes "printable item"
  shows "\<forall>fmt. \<exists>r left. (if fmt then cJSON_Print fresh realloc_hook (Some item) else cJSON_PrintUnformatted fresh realloc_hook (Some item)) = Inr (r, left) \<and>
    (r = None \<longrightarrow> left = 0) \<and>
    (\<forall>m size. r = Some (m, size) \<longrightarrow> left = 1 \<and> size = length (json_text fmt 0 item) + 1 \<and>
       mem_get m 0 size = json_text fmt 0 item @ [0]) \<and>
    ((\<forall>n. fresh n \<noteq> None) \<and> length (json_text fmt 0 item) + 2 \<le> INT_MAX_SIZE \<longrightarrow> r \<noteq> None)"
proof
  fix fmt
  have "(if fmt then cJSON_Print fresh realloc_hook (Some item) else cJSON_PrintUnformatted fresh realloc_hook (Some item)) =
      print fresh realloc_hook (Some item) fmt" by (simp add: cJSON_Print_def cJSON_PrintUnformatted_def)
  then show "\<exists>r left. (if fmt then cJSON_Print fresh realloc_hook (Some item) else cJSON_PrintUnformatted fresh realloc_hook (Some item)) = Inr (r, left) \<and>
    (r = None \<longrightarrow> left = 0) \<and>
    (\<forall>m size. r = Some (m, size) \<longrightarrow> left = 1 \<and> size = length (json_text fmt 0 item) + 1 \<and>
       mem_get m 0 size = json_text fmt 0 item @ [0]) \<and>
    ((\<forall>n. fresh n \<noteq> None) \<and> length (json_text fmt 0 item) + 2 \<le> INT_MAX_SIZE \<longrightarrow> r \<noteq> None)"
    using print_returns_text [OF assms, of fresh realloc_hook fmt] by presburger
qed

lemma demo_printable: "printable demo_item" "json_text False 0 demo_item = bytes_of ''{\"a\":[null,true]}''"
  by code_simp+

theorem cJSON_Print_text_witness:
  "\<exists>m size left. cJSON_PrintUnformatted (\<lambda>_. Some (\<lambda>_. 0)) True (Some demo_item) = Inr (Some (m, size), left) \<and>
     mem_get m 0 size = bytes_of ''{\"a\":[null,true]}'' @ [0]"
proof -
  obtain r left where r: "cJSON_PrintUnformatted (\<lambda>_. Some (\<lambda>_. 0)) True (Some demo_item) = Inr (r, left)" "r \<noteq> None"
    "\<forall>m size. r = Some (m, size) \<longrightarrow> mem_get m 0 size = json_text False 0 demo_item @ [0]"
    using cJSON_Print_text [OF demo_printable(1), of "\<lambda>_. Some (\<lambda>_. 0)" True, rule_format, of False]
    by (auto simp: demo_printable(2) bytes_of_def INT_MAX_SIZE_def)
  then show ?thesis unfolding demo_printable(2) by auto
qed

text \<open>A block of the caller that has no byte is left alone.\<close>

lemma ensure_no_room: "noalloc p \<Longrightarrow> pb_length p = 0 \<Longrightarrow> ensure fresh n p = Inr (False, p)"
  by (simp add: ensure_def Let_def split: option.split)

lemma print_value_no_room:
  assumes "printable item" "noalloc p" "pb_length p = 0"
  shows "print_value fresh item p = Inr (False, p)"
proof (cases item)
  case (Item t vs vi vd s cs)
  note e = ensure_no_room [OF assms(2,3)]
  have "print_number fresh vd p = Inr (False, p)" if "valid_double vd"
    using length_number_text [OF that] by (simp add: print_number_def e if_ok_def Let_def)
  then show ?thesis using assms(1) Item
    by (auto simp: print_text_def print_string_ptr_def print_array_def print_object_def emit_def e if_ok_def Let_def split: option.splits)
qed

text \<open>
  C15: \<^verbatim>\<open>cJSON_PrintPreallocated\<close> never writes outside the block of the caller, whatever its length. When
  it returns true the block starts with the text of the item and its terminator, and it returns true
  whenever the block has one byte more than that.
\<close>

theorem cJSON_PrintPreallocated_fits:
  assumes "printable item" "0 \<le> len" "len \<le> INT_MAX_INT"
  shows "\<exists>ok b. cJSON_PrintPreallocated realloc_hook (Some item) (Some m) len fmt = Inr (ok, b) \<and>
    (ok \<longrightarrow> (\<exists>m'. b = Some m' \<and> mem_get m' 0 (length (json_text fmt 0 item) + 1) = json_text fmt 0 item @ [0])) \<and>
    (int (length (json_text fmt 0 item)) + 2 \<le> len \<longrightarrow> ok)"
proof (cases "len = 0")
  case True
  then show ?thesis using print_value_no_room [OF assms(1), of "new_printbuffer m 0 True fmt realloc_hook"]
    by (auto simp: cJSON_PrintPreallocated_def print_item_def new_printbuffer_def)
next
  case False
  let ?t = "json_text fmt 0 item"
  define p where "p = new_printbuffer m (nat len) True fmt realloc_hook"
  have r: "ready fmt 0 p" "pb_offset p = 0" using assms(2) False by (simp_all add: p_def new_printbuffer_def ready_def pb_ok_def)
  from r(1) have "prints (\<lambda>_. None) (pb_offset p + length ?t + 2) p (print_value (\<lambda>_. None) item p) (printed p ?t)"
    using print_value_prints [OF assms(1), of "\<lambda>_. None" fmt 0] by (simp add: printer_of_def)
  then obtain ok p1 where p1: "print_value (\<lambda>_. None) item p = Inr (ok, p1)" "ok \<longrightarrow> framed p p1 \<and> printed p ?t p1" "\<not> ok \<longrightarrow> lost p p1"
    "roomy (\<lambda>_. None) p (length ?t + 2) \<longrightarrow> ok" using r(2) by (auto simp: prints_def)
  have "int (length ?t) + 2 \<le> len \<longrightarrow> ok"
    using p1(4) assms(3) by (auto simp: roomy_def p_def new_printbuffer_def INT_MAX_SIZE_def INT_MAX_INT_def)
  moreover have "\<exists>m'. pb_buffer p1 = Some m' \<and> mem_get m' 0 (length ?t + 1) = ?t @ [0]" if ok
    using that p1(2) r(2) by (auto simp: printed_def holds_def)
  ultimately show ?thesis using p1(1) assms(2)
    by (auto simp: cJSON_PrintPreallocated_def print_item_def p_def [symmetric])
qed

theorem cJSON_PrintPreallocated_fits_witness:
  "\<exists>m'. cJSON_PrintPreallocated False (Some demo_item) (Some (\<lambda>_. 7)) 19 False = Inr (True, Some m') \<and>
     mem_get m' 0 (17 + 1) = bytes_of ''{\"a\":[null,true]}'' @ [0]"
proof -
  have l: "length (json_text False 0 demo_item) = 17" by (simp add: demo_printable(2) bytes_of_def)
  obtain ok b where "cJSON_PrintPreallocated False (Some demo_item) (Some (\<lambda>_. 7)) 19 False = Inr (ok, b)"
    "ok \<longrightarrow> (\<exists>m'. b = Some m' \<and> mem_get m' 0 (17 + 1) = json_text False 0 demo_item @ [0])" "int 17 + 2 \<le> 19 \<longrightarrow> ok"
    using cJSON_PrintPreallocated_fits [OF demo_printable(1), of 19 False "\<lambda>_. 7" False] unfolding l by (auto simp: INT_MAX_INT_def)
  then show ?thesis unfolding demo_printable(2) by auto
qed

text \<open>
  With allocation hooks that have no reallocation, a buffer that starts with no bytes is copied with one
  byte that it does not have.
\<close>

lemma print_buffered_overread:
  "cJSON_PrintBuffered (\<lambda>_. Some (\<lambda>_. 0)) False (Some (Item cJSON_NULL None 0 (Finite False 0) None [])) 0 False = Inl OutOfBounds"
  by (simp add: cJSON_PrintBuffered_def print_item_def new_printbuffer_def print_text_def emit_def ensure_def if_ok_def Let_def
      INT_MAX_SIZE_def bytes_of_def)

end
