(* ===== verification/CjsonRoundTrip.thy ===== *)
theory CjsonRoundTrip
  imports CjsonPrint
begin

text \<open>
  What the printer of \<^verbatim>\<open>apps/cjson/cJSON.c\<close> writes, its parser reads: for a well-formed item that is not
  nested too deeply, the text of either format is parsed into the same item, up to what the text cannot
  carry. That is the part of a string behind a null byte, the digits of a number beyond those printed,
  and numbers that are not finite, which become null.
\<close>

section \<open>What a text carries\<close>

fun reread_item :: "cJSON \<Rightarrow> cJSON" where
  "reread_item (Item t vs vi vd s cs) =
     (if t = cJSON_Number
      then (case vd of
              Finite neg r \<Rightarrow>
                (case saturate_int (reread vd) of
                   Inr i \<Rightarrow> Item t None i (reread vd) (map_option c_string s) []
                 | Inl e \<Rightarrow> Item t None 0 (reread vd) (map_option c_string s) [])
            | _ \<Rightarrow> Item cJSON_NULL None 0 (Finite False 0) (map_option c_string s) [])
      else Item t (map_option c_string vs) vi vd (map_option c_string s) (map reread_item cs))"

text \<open>An item all of whose strings are C strings and all of whose numbers are printed exactly.\<close>

fun exact_item :: "cJSON \<Rightarrow> bool" where
  "exact_item (Item t vs vi vd s cs) \<longleftrightarrow>
     map_option c_string vs = vs \<and> map_option c_string s = s \<and>
     (t = cJSON_Number \<longrightarrow> (\<exists>neg r. vd = Finite neg r) \<and> reread vd = vd) \<and> (\<forall>c \<in> set cs. exact_item c)"

lemma reread_exact: "wf_item item \<Longrightarrow> exact_item item \<Longrightarrow> reread_item item = item"
proof (induction item)
  case (Item t vs vi vd s cs)
  show ?case
  proof (cases "t = cJSON_Number")
    case True
    then show ?thesis using Item.prems by auto
  next
    case False
    have "\<forall>c \<in> set cs. wf_item c \<and> exact_item c" using Item.prems by (auto split: if_splits)
    then have "map reread_item cs = cs" using Item.IH by (simp add: map_idI)
    then show ?thesis using False Item.prems by simp
  qed
qed

lemma item_string_reread: "item_string (reread_item item) = map_option c_string (item_string item)"
  by (cases item) (auto split: double.splits sum.splits)

section \<open>White space between values\<close>

definition blank :: "u8 list \<Rightarrow> bool" where
  "blank ws \<longleftrightarrow> (\<forall>c \<in> set ws. c \<le> 32)"

text \<open>What stands behind a value: something that does not continue a number.\<close>

definition stops :: "u8 list \<Rightarrow> bool" where
  "stops rest \<longleftrightarrow> (\<exists>c cs. rest = c # cs \<and> \<not> number_char c)"

lemma skip_loop_blank:
  assumes "drop i cs = ws @ c # rest" "blank ws" "32 < c"
  shows "skip_loop cs i = i + length ws"
  using assms
proof (induction ws arbitrary: i)
  case Nil
  then show ?case using drop_ConsD [of i cs c rest] by (subst skip_loop.simps) auto
next
  case (Cons w ws)
  then have d: "drop i cs = w # ws @ c # rest" by simp
  have "skip_loop cs (i + 1) = i + 1 + length ws" using Cons.IH [of "i + 1"] drop_ConsD [OF d] Cons.prems(2,3) by (simp add: blank_def)
  then show ?case using drop_ConsD [OF d] Cons.prems(2) by (subst skip_loop.simps) (simp add: blank_def)
qed

lemma skip_blank:
  assumes "content b = pre @ ws @ c # rest" "offset b = length pre" "blank ws" "32 < c"
  shows "buffer_skip_whitespace b = b\<lparr>offset := length pre + length ws\<rparr>"
proof -
  have "skip_loop (content b) (offset b) = length pre + length ws"
    unfolding assms(2) by (rule skip_loop_blank [of _ _ ws c rest]) (use assms in simp_all)
  then show ?thesis using assms(1,2) by (simp add: buffer_skip_whitespace_def can_access_def)
qed

lemma at_offset_eq: "content b = pre @ c # rest \<Longrightarrow> offset b = length pre \<Longrightarrow> can_access b \<and> at_offset b = c"
  by (simp add: can_access_def at_offset_def)

section \<open>Parsers that read a text\<close>

definition value_reads :: "nat \<Rightarrow> value_parser \<Rightarrow> cJSON \<Rightarrow> u8 list \<Rightarrow> bool" where
  "value_reads d pv it t \<longleftrightarrow>
     (\<forall>b pre rest s t0. content b = pre @ t @ rest \<and> offset b = length pre \<and> depth b = d \<and> stops rest \<and> t0 \<in> {cJSON_Invalid, cJSON_String} \<longrightarrow>
       (\<exists>b'. pv (Item t0 None 0 (Finite False 0) s []) b = Inr (Some (set_string s it), b') \<and> content b' = content b \<and> depth b' = d \<and>
          offset b' = length pre + length t))"

definition element_reads :: "nat \<Rightarrow> (cJSON \<Rightarrow> element_parser) \<Rightarrow> cJSON \<Rightarrow> u8 list \<Rightarrow> bool" where
  "element_reads d elem it t \<longleftrightarrow>
     (\<forall>b pre ws rest. content b = pre @ ws @ t @ rest \<and> offset b + 1 = length pre \<and> depth b = d \<and> blank ws \<and> stops rest \<longrightarrow>
       (\<exists>b'. elem cJSON_New_Item b = Inr (Inr it, b') \<and> content b' = content b \<and> depth b' = d \<and>
          offset b' = length pre + length ws + length t))"

lemma value_readsD:
  assumes "value_reads d pv it t" "content b = pre @ t @ rest" "offset b = length pre" "depth b = d" "stops rest"
    "t0 \<in> {cJSON_Invalid, cJSON_String}"
  obtains b' where "pv (Item t0 None 0 (Finite False 0) s []) b = Inr (Some (set_string s it), b')" "content b' = content b"
    "depth b' = d" "offset b' = length pre + length t"
  using assms unfolding value_reads_def by blast

lemma element_readsD:
  assumes "element_reads d elem it t" "content b = pre @ ws @ t @ rest" "offset b + 1 = length pre" "depth b = d" "blank ws" "stops rest"
  obtains b' where "elem cJSON_New_Item b = Inr (Inr it, b')" "content b' = content b" "depth b' = d"
    "offset b' = length pre + length ws + length t"
  using assms unfolding element_reads_def by blast

text \<open>A text that starts with a character that is not skipped.\<close>

definition starts :: "u8 list \<Rightarrow> bool" where
  "starts t \<longleftrightarrow> (\<exists>c cs. t = c # cs \<and> 32 < c)"

lemma parse_element_reads:
  assumes "value_reads d pv it t" "starts t" "content b = pre @ ws @ t @ rest" "offset b + 1 = length pre" "depth b = d"
    "blank ws" "stops rest" "t0 \<in> {cJSON_Invalid, cJSON_String}"
  shows "\<exists>b'. parse_element pv (Item t0 None 0 (Finite False 0) s []) b = Inr (Inr (set_string s it), b') \<and> content b' = content b \<and>
    depth b' = d \<and> offset b' = length pre + length ws + length t"
proof -
  obtain c cs where t: "t = c # cs" "32 < c" using assms(2) by (auto simp: starts_def)
  let ?b1 = "(advance 1 b)\<lparr>offset := length pre + length ws\<rparr>"
  have "buffer_skip_whitespace (advance 1 b) = ?b1"
    by (rule skip_blank [of _ pre ws c "cs @ rest"]) (use assms(3,4,6) t in simp_all)
  moreover have "content ?b1 = (pre @ ws) @ t @ rest" "offset ?b1 = length (pre @ ws)" "depth ?b1 = d" using assms(3,5) by simp_all
  from value_readsD [OF assms(1) this assms(7,8)] obtain b' where
    "pv (Item t0 None 0 (Finite False 0) s []) ?b1 = Inr (Some (set_string s it), b')" "content b' = content ?b1"
    "depth b' = d" "offset b' = length (pre @ ws) + length t" by blast
  ultimately show ?thesis by (simp add: parse_element_def)
qed

lemma array_element_reads: "value_reads d pv it t \<Longrightarrow> starts t \<Longrightarrow> element_reads d (parse_element pv) (set_string None it) t"
  unfolding element_reads_def cJSON_New_Item_def using parse_element_reads [of d pv it t] by (metis insertI1)

lemma starts_string [simp]: "starts (string_text name @ rest)"
  by (simp add: starts_def string_text_def)

lemma member_reads:
  assumes "value_reads d pv it t" "starts t" "blank wsv"
  shows "element_reads d (parse_member (\<lambda>_. True) pv) (set_string (Some (c_string name)) it) (string_text (Some name) @ [58] @ wsv @ t)"
  unfolding element_reads_def
proof (intro allI impI)
  fix b :: parse_buffer and pre ws rest
  let ?n = "string_text (Some name)"
  assume a: "content b = pre @ ws @ (?n @ [58] @ wsv @ t) @ rest \<and> offset b + 1 = length pre \<and> depth b = d \<and> blank ws \<and> stops rest"
  let ?q = "QUOTE # escaped (c_string name) @ QUOTE # [58] @ wsv @ t @ rest"
  have n: "?n @ [58] @ wsv @ t @ rest = ?q" by (simp add: string_text_def)
  let ?b1 = "(advance 1 b)\<lparr>offset := length pre + length ws\<rparr>"
  have s1: "buffer_skip_whitespace (advance 1 b) = ?b1"
    by (rule skip_blank [of _ pre ws QUOTE "escaped (c_string name) @ QUOTE # [58] @ wsv @ t @ rest"]) (use a n in simp_all)
  let ?b2 = "?b1\<lparr>offset := length (pre @ ws) + length (escaped (c_string name)) + 2, allocs := allocs ?b1 + 1, live := live ?b1 + 1\<rparr>"
  have s2: "parse_string (\<lambda>_. True) ?b1 = Inr (Some (c_string name), ?b2)"
    by (rule parse_escaped [where pre = "pre @ ws" and rest = "[58] @ wsv @ t @ rest"]) (use a n in simp_all)
  have c2: "content ?b2 = (pre @ ws @ ?n) @ [] @ 58 # wsv @ t @ rest" "offset ?b2 = length (pre @ ws @ ?n)"
    using a n by (simp_all add: string_text_def)
  have s3: "buffer_skip_whitespace ?b2 = ?b2"
    using skip_blank [OF c2] by (simp add: blank_def string_text_def)
  have c3: "can_access ?b2 \<and> at_offset ?b2 = 58" by (rule at_offset_eq [of _ "pre @ ws @ ?n"]) (use c2 in simp_all)
  have "\<exists>b'. parse_element pv (Item cJSON_String None 0 (Finite False 0) (Some (c_string name)) []) ?b2 =
      Inr (Inr (set_string (Some (c_string name)) it), b') \<and> content b' = content ?b2 \<and> depth b' = d \<and>
      offset b' = length (pre @ ws @ ?n @ [58]) + length wsv + length t"
    by (rule parse_element_reads [OF assms(1,2), where rest = rest]) (use a c2 assms(3) in simp_all)
  then obtain b' where b': "parse_element pv (Item cJSON_String None 0 (Finite False 0) (Some (c_string name)) []) ?b2 =
      Inr (Inr (set_string (Some (c_string name)) it), b')" "content b' = content b" "depth b' = d"
      "offset b' = length (pre @ ws @ ?n @ [58]) + length wsv + length t" by auto
  have "parse_member (\<lambda>_. True) pv cJSON_New_Item b = Inr (Inr (set_string (Some (c_string name)) it), b')"
    unfolding parse_member_def s1 s2 bind_fault_simps prod.case option.case Let_def s3
    using c3 b'(1) by (simp add: cJSON_New_Item_def)
  then show "\<exists>b'. parse_member (\<lambda>_. True) pv cJSON_New_Item b = Inr (Inr (set_string (Some (c_string name)) it), b') \<and>
      content b' = content b \<and> depth b' = d \<and> offset b' = length pre + length ws + length (?n @ [58] @ wsv @ t)"
    using b' by simp
qed

lemma stops_blank: "blank ws \<Longrightarrow> \<not> number_char c \<Longrightarrow> stops (ws @ c # rest)"
proof (cases ws)
  case (Cons w ws')
  have "\<not> number_char w" if "w \<le> 32" using that by (auto simp: number_char_def digit_def word_le_nat_alt)
  moreover assume "blank ws"
  ultimately show ?thesis using Cons by (simp add: stops_def blank_def)
qed (simp add: stops_def)

lemma items_loop_reads:
  assumes "list_all2 (element_reads d elem) its ts" "ts \<noteq> []" "length ts \<le> n"
    and "content b = pre @ ws @ join (44 # wsx) ts @ wsn @ c # rest" "offset b + 1 = length pre" "depth b = d"
    and "blank ws" "blank wsx" "blank wsn" "\<not> number_char c" "32 < c" "c \<noteq> 44"
  shows "\<exists>b'. items_loop (\<lambda>_. True) elem n acc b = Inr (Some (acc @ its), b') \<and> content b' = content b \<and> depth b' = d \<and>
    offset b' = length pre + length ws + length (join (44 # wsx) ts) + length wsn"
  using assms(1-7)
proof (induction its ts arbitrary: n b pre ws acc rule: list_all2_induct)
  case (Cons it its t ts)
  note IH = Cons.IH and prems = Cons.prems
  obtain m where n: "n = Suc m" using Cons.prems(2) by (cases n) auto
  let ?b = "b\<lparr>allocs := allocs b + 1, live := live b + 1\<rparr>"
  have al: "allocate (\<lambda>_. True) b = (True, ?b)" by (simp add: allocate_def)
  define tail where "tail = (if ts = [] then wsn @ c # rest else (44 # wsx) @ join (44 # wsx) ts @ wsn @ c # rest)"
  have c: "content ?b = pre @ ws @ t @ tail" using Cons.prems(3) by (cases ts) (simp_all add: tail_def)
  have st: "stops tail"
    using stops_blank [OF assms(9,10)] by (auto simp: tail_def stops_def number_char_def digit_def)
  obtain b1 where b1: "elem cJSON_New_Item ?b = Inr (Inr it, b1)" "content b1 = content b" "depth b1 = d"
    "offset b1 = length pre + length ws + length t"
    using element_readsD [OF Cons.hyps(1) c _ _ Cons.prems(6) st] Cons.prems(4,5) by auto
  let ?p1 = "pre @ ws @ t"
  show ?case
  proof (cases ts)
    case Nil
    have b1c: "content b1 = ?p1 @ wsn @ c # rest" "offset b1 = length ?p1" using b1 c Nil by (simp_all add: tail_def)
    note sk = skip_blank [OF b1c assms(9,11)]
    have "at_offset (b1\<lparr>offset := length ?p1 + length wsn\<rparr>) = c"
      using at_offset_eq [of "b1\<lparr>offset := length ?p1 + length wsn\<rparr>" "?p1 @ wsn" c rest] b1c by simp
    then show ?thesis using b1 Nil Cons.hyps(2) assms(12) by (simp add: n al sk Let_def)
  next
    case (Cons t' ts')
    have b1c: "content b1 = ?p1 @ [] @ 44 # wsx @ join (44 # wsx) ts @ wsn @ c # rest" "offset b1 = length ?p1"
      using b1 c Cons by (simp_all add: tail_def)
    have sk: "buffer_skip_whitespace b1 = b1" using skip_blank [OF b1c] by (simp add: blank_def)
      (metis b1c(2) length_append parse_buffer.surjective parse_buffer.update_convs(2))
    have at: "can_access b1 \<and> at_offset b1 = 44" by (rule at_offset_eq [of _ ?p1]) (use b1c in simp_all)
    have "\<exists>b'. items_loop (\<lambda>_. True) elem m (acc @ [it]) b1 = Inr (Some ((acc @ [it]) @ its), b') \<and> content b' = content b1 \<and> depth b' = d \<and>
      offset b' = length (?p1 @ [44]) + length wsx + length (join (44 # wsx) ts) + length wsn"
      by (rule IH) (use Cons prems b1 b1c n assms(8) in simp_all)
    then show ?thesis using b1 at Cons by (auto simp: n al sk Let_def)
  qed
qed simp

lemma length_join: "length ts \<le> length (join (44 # w) ts) + 1"
  by (induction "44 # w" ts rule: join.induct) auto

text \<open>The first character of a list of texts: neither blank nor the closing bracket.\<close>

definition opens :: "u8 \<Rightarrow> u8 list list \<Rightarrow> bool" where
  "opens c ts \<longleftrightarrow> (\<forall>t ts'. ts = t # ts' \<longrightarrow> (\<exists>x xs. t = x # xs \<and> 32 < x \<and> x \<noteq> c))"

lemma parse_items_reads:
  assumes "list_all2 (element_reads (d + 1) elem) its ts" "opens c ts"
    and "content b = pre @ o' # ws @ join (44 # wsx) ts @ wsn @ c # rest" "offset b = length pre" "depth b = d + 1"
    and "blank ws" "blank wsx" "blank wsn" "\<not> number_char c" "32 < c" "c \<noteq> 44"
  shows "\<exists>b'. parse_items (\<lambda>_. True) elem c t item b = Inr (Some (set_child its (set_type t item)), b') \<and> content b' = content b \<and>
    depth b' = d \<and> offset b' = length pre + length ws + length (join (44 # wsx) ts) + length wsn + 2"
proof (cases ts)
  case Nil
  let ?b1 = "(advance 1 b)\<lparr>offset := length (pre @ [o']) + length (ws @ wsn)\<rparr>"
  have sk: "buffer_skip_whitespace (advance 1 b) = ?b1"
    by (rule skip_blank [of _ _ _ c rest]) (use assms Nil in \<open>auto simp: blank_def\<close>)
  have "can_access ?b1 \<and> at_offset ?b1 = c"
    by (rule at_offset_eq [of _ "pre @ o' # ws @ wsn"]) (use assms(3) Nil in simp_all)
  then show ?thesis unfolding parse_items_def Let_def sk using assms(1,3,5) Nil by (simp add: close_items_def)
next
  case (Cons t' ts')
  obtain x xs where x: "t' = x # xs" "32 < x" "x \<noteq> c" using assms(2) Cons by (auto simp: opens_def)
  let ?j = "join (44 # wsx) ts"
  obtain ys where j: "?j = x # ys" using Cons x by (cases ts') auto
  let ?b1 = "(advance 1 b)\<lparr>offset := length (pre @ [o']) + length ws\<rparr>"
  have sk: "buffer_skip_whitespace (advance 1 b) = ?b1"
    by (rule skip_blank [of _ _ _ x "ys @ wsn @ c # rest"]) (use assms(3,4,6) j x in simp_all)
  have at: "can_access ?b1 \<and> at_offset ?b1 = x"
    by (rule at_offset_eq [of _ "pre @ o' # ws"]) (use assms(3) j in simp_all)
  let ?b2 = "?b1\<lparr>offset := offset ?b1 - 1\<rparr>"
  have "\<exists>b'. items_loop (\<lambda>_. True) elem (length (content b)) [] ?b2 = Inr (Some ([] @ its), b') \<and> content b' = content ?b2 \<and> depth b' = d + 1 \<and>
    offset b' = length (pre @ o' # ws) + length ([] :: u8 list) + length ?j + length wsn"
    by (rule items_loop_reads [OF assms(1) _ _ _ _ _ _ assms(7-11)])
      (use Cons assms(3,5) length_join [of ts wsx] in \<open>simp_all add: blank_def\<close>)
  then obtain b' where b': "items_loop (\<lambda>_. True) elem (length (content b)) [] ?b2 = Inr (Some its, b')" "content b' = content b"
    "depth b' = d + 1" "offset b' = length (pre @ o' # ws @ ?j @ wsn)" by auto
  have "can_access b' \<and> at_offset b' = c" by (rule at_offset_eq [of _ "pre @ o' # ws @ ?j @ wsn"]) (use b' assms(3) in simp_all)
  then show ?thesis unfolding parse_items_def Let_def sk using at x(3) b' by (simp add: close_items_def)
qed

lemma reads_first: "reads (w # ws) b \<Longrightarrow> can_access b \<and> at_offset b = of_char w"
  by (auto simp: reads_def can_access_def at_offset_def bytes_of_def take_Suc drop_Suc_Cons simp flip: hd_drop_conv_nth)

text \<open>A value that starts with none of the letters of the keywords.\<close>

lemma no_keyword:
  assumes "at_offset b \<noteq> 110" "at_offset b \<noteq> 102" "at_offset b \<noteq> 116"
  shows "\<not> reads ''null'' b" "\<not> reads ''false'' b" "\<not> reads ''true'' b"
  using assms by (auto dest!: reads_first)

lemma parse_array_reads:
  assumes "list_all2 (element_reads (d + 1) (parse_element pv)) its ts" "opens 93 ts" "d < CJSON_NESTING_LIMIT" "blank wsx"
  shows "value_reads d (parse_array (\<lambda>_. True) pv) (Item cJSON_Array None 0 (Finite False 0) s its) ([91] @ join (44 # wsx) ts @ [93])"
  unfolding value_reads_def
proof (intro allI impI)
  fix b :: parse_buffer and pre rest s' t0
  let ?j = "join (44 # wsx) ts" and ?item = "Item t0 None 0 (Finite False 0) s' []"
  assume a: "content b = pre @ ([91] @ ?j @ [93]) @ rest \<and> offset b = length pre \<and> depth b = d \<and> stops rest \<and> t0 \<in> {cJSON_Invalid, cJSON_String}"
  let ?b1 = "b\<lparr>depth := depth b + 1\<rparr>"
  have at: "can_access ?b1 \<and> at_offset ?b1 = 91" by (rule at_offset_eq [of _ pre]) (use a in auto)
  have "\<exists>b'. parse_items (\<lambda>_. True) (parse_element pv) 93 cJSON_Array ?item ?b1 = Inr (Some (set_child its (set_type cJSON_Array ?item)), b') \<and>
    content b' = content ?b1 \<and> depth b' = d \<and> offset b' = length pre + length ([] :: u8 list) + length ?j + length ([] :: u8 list) + 2"
    by (rule parse_items_reads [OF assms(1,2), where o' = 91 and rest = rest])
      (use a assms(4) in \<open>simp_all add: blank_def number_char_def digit_def\<close>)
  then show "\<exists>b'. parse_array (\<lambda>_. True) pv ?item b = Inr (Some (set_string s' (Item cJSON_Array None 0 (Finite False 0) s its)), b') \<and>
      content b' = content b \<and> depth b' = d \<and> offset b' = length pre + length ([91] @ ?j @ [93])"
    using at assms(3) a by (auto simp: parse_array_def Let_def)
qed

lemma parse_object_reads:
  assumes "list_all2 (element_reads (d + 1) (parse_member (\<lambda>_. True) pv)) its ts" "opens 125 ts" "d < CJSON_NESTING_LIMIT"
    "blank ws" "blank wsx" "blank wsn"
  shows "value_reads d (parse_object (\<lambda>_. True) pv) (Item cJSON_Object None 0 (Finite False 0) s its)
    ([123] @ ws @ join (44 # wsx) ts @ wsn @ [125])"
  unfolding value_reads_def
proof (intro allI impI)
  fix b :: parse_buffer and pre rest s' t0
  let ?j = "join (44 # wsx) ts" and ?item = "Item t0 None 0 (Finite False 0) s' []"
  assume a: "content b = pre @ ([123] @ ws @ ?j @ wsn @ [125]) @ rest \<and> offset b = length pre \<and> depth b = d \<and> stops rest \<and>
    t0 \<in> {cJSON_Invalid, cJSON_String}"
  let ?b1 = "b\<lparr>depth := depth b + 1\<rparr>"
  have at: "can_access ?b1 \<and> at_offset ?b1 = 123" by (rule at_offset_eq [of _ pre]) (use a in auto)
  have "\<exists>b'. parse_items (\<lambda>_. True) (parse_member (\<lambda>_. True) pv) 125 cJSON_Object ?item ?b1 =
      Inr (Some (set_child its (set_type cJSON_Object ?item)), b') \<and>
    content b' = content ?b1 \<and> depth b' = d \<and> offset b' = length pre + length ws + length ?j + length wsn + 2"
    by (rule parse_items_reads [OF assms(1,2), where o' = 123 and rest = rest])
      (use a assms(4-) in \<open>simp_all add: number_char_def digit_def\<close>)
  then show "\<exists>b'. parse_object (\<lambda>_. True) pv ?item b = Inr (Some (set_string s' (Item cJSON_Object None 0 (Finite False 0) s its)), b') \<and>
      content b' = content b \<and> depth b' = d \<and> offset b' = length pre + length ([123] @ ws @ ?j @ wsn @ [125])"
    using at assms(3) a by (auto simp: parse_object_def Let_def)
qed

text \<open>The choice \<^verbatim>\<open>parse_value\<close> makes from the first character.\<close>

lemma dispatch_items:
  assumes "c = 91 \<and> pv = parse_array al (parse_value al n) \<or> c = 123 \<and> pv = parse_object al (parse_value al n)" "value_reads d pv it (c # t)"
  shows "value_reads d (parse_value al (Suc n)) it (c # t)"
  unfolding value_reads_def
proof (intro allI impI)
  fix b :: parse_buffer and pre rest s t0
  assume a: "content b = pre @ (c # t) @ rest \<and> offset b = length pre \<and> depth b = d \<and> stops rest \<and> t0 \<in> {cJSON_Invalid, cJSON_String}"
  let ?item = "Item t0 None 0 (Finite False 0) s []"
  have at: "can_access b \<and> at_offset b = c" by (rule at_offset_eq [of _ pre]) (use a in auto)
  have "parse_value al (Suc n) ?item b = pv ?item b"
    using assms(1) at no_keyword [of b] by (auto simp: digit_def)
  then show "\<exists>b'. parse_value al (Suc n) ?item b = Inr (Some (set_string s it), b') \<and> content b' = content b \<and> depth b' = d \<and>
      offset b' = length pre + length (c # t)"
    using assms(2) a unfolding value_reads_def by auto
qed

lemma keyword_reads:
  assumes "(w, t, vi) \<in> {(''null'', cJSON_NULL, 0), (''false'', cJSON_False, 0), (''true'', cJSON_True, 1)}"
  shows "value_reads d (parse_value al (Suc n)) (Item t None vi (Finite False 0) s []) (bytes_of w)"
  unfolding value_reads_def
proof (intro allI impI)
  fix b :: parse_buffer and pre rest s' t0
  assume a: "content b = pre @ bytes_of w @ rest \<and> offset b = length pre \<and> depth b = d \<and> stops rest \<and> t0 \<in> {cJSON_Invalid, cJSON_String}"
  have r: "reads w b" using a by (simp add: reads_def bytes_of_def)
  have o: "w \<noteq> ''null'' \<longrightarrow> \<not> reads ''null'' b" "w = ''true'' \<longrightarrow> \<not> reads ''false'' b"
    using assms r by (auto dest!: reads_first)
  have "parse_value al (Suc n) (Item t0 None 0 (Finite False 0) s' []) b =
      Inr (Some (set_string s' (Item t None vi (Finite False 0) s [])), advance (length w) b)"
  proof -
    consider "w = ''null''" "t = cJSON_NULL" "vi = 0" | "w = ''false''" "t = cJSON_False" "vi = 0" | "w = ''true''" "t = cJSON_True" "vi = 1"
      using assms by auto
    then show ?thesis using r o by cases simp_all
  qed
  then show "\<exists>b'. parse_value al (Suc n) (Item t0 None 0 (Finite False 0) s' []) b = Inr (Some (set_string s' (Item t None vi (Finite False 0) s [])), b') \<and>
      content b' = content b \<and> depth b' = d \<and> offset b' = length pre + length (bytes_of w)"
    using a by (simp add: bytes_of_def)
qed

lemma string_reads:
  "value_reads d (parse_value (\<lambda>_. True) (Suc n)) (Item cJSON_String (Some (c_string v)) 0 (Finite False 0) s []) (string_text (Some v))"
  unfolding value_reads_def
proof (intro allI impI)
  fix b :: parse_buffer and pre rest s' t0
  assume a: "content b = pre @ string_text (Some v) @ rest \<and> offset b = length pre \<and> depth b = d \<and> stops rest \<and> t0 \<in> {cJSON_Invalid, cJSON_String}"
  let ?b' = "b\<lparr>offset := length pre + length (escaped (c_string v)) + 2, allocs := allocs b + 1, live := live b + 1\<rparr>"
  have p: "parse_string (\<lambda>_. True) b = Inr (Some (c_string v), ?b')" by (rule parse_escaped) (use a in \<open>auto simp: string_text_def\<close>)
  have at: "can_access b \<and> at_offset b = QUOTE" by (rule at_offset_eq [of _ pre]) (use a in \<open>auto simp: string_text_def\<close>)
  then show "\<exists>b'. parse_value (\<lambda>_. True) (Suc n) (Item t0 None 0 (Finite False 0) s' []) b =
      Inr (Some (set_string s' (Item cJSON_String (Some (c_string v)) 0 (Finite False 0) s [])), b') \<and>
      content b' = content b \<and> depth b' = d \<and> offset b' = length pre + length (string_text (Some v))"
    using p no_keyword [of b] a by (simp add: string_text_def)
qed

lemma number_text_hd:
  obtains c cs where "number_text (Finite neg r) = c # cs" "c = 45 \<or> digit c"
proof -
  have f: "\<exists>c cs. fmt_g P neg r = c # cs \<and> (c = 45 \<or> digit c)" for P
  proof -
    obtain D e where s: "significant P r = (D, e)" by (cases "significant P r")
    obtain c cs where ds: "dec_digits D = c # cs" using dec_digits_length [of D] by (cases "dec_digits D") auto
    then have "digit c" using dec_digits_digit [of c D] by simp
    then show ?thesis using ds by (auto simp: fmt_g_def s Let_def digit_def)
  qed
  have "number_text (Finite neg r) = fmt_g 15 neg r \<or> number_text (Finite neg r) = fmt_g 17 neg r"
    by (simp add: number_text_def Let_def case_prod_beta)
  then show thesis using that f [of 15] f [of 17] by fastforce
qed

lemma number_reads:
  assumes "valid_double (Finite neg r)" "saturate_int (reread (Finite neg r)) = Inr i"
  shows "value_reads d (parse_value al (Suc n)) (Item cJSON_Number None i (reread (Finite neg r)) s []) (number_text (Finite neg r))"
  unfolding value_reads_def
proof (intro allI impI)
  fix b :: parse_buffer and pre rest s' t0
  let ?t = "number_text (Finite neg r)"
  assume a: "content b = pre @ ?t @ rest \<and> offset b = length pre \<and> depth b = d \<and> stops rest \<and> t0 \<in> {cJSON_Invalid, cJSON_String}"
  obtain c cs where c: "?t = c # cs" "c = 45 \<or> digit c" by (rule number_text_hd)
  have at: "can_access b \<and> at_offset b = c" by (rule at_offset_eq [of _ pre]) (use a c in auto)
  have k: "c \<noteq> 110" "c \<noteq> 102" "c \<noteq> 116" "c \<noteq> QUOTE" using c(2) by (auto simp: digit_def)
  have "parse_number b = Inr (Some (reread (Finite neg r), i), b\<lparr>offset := length pre + length ?t\<rparr>)"
    using parse_number_text [OF assms(1), of b pre rest] a assms(2) by (auto simp: stops_def)
  then show "\<exists>b'. parse_value al (Suc n) (Item t0 None 0 (Finite False 0) s' []) b =
      Inr (Some (set_string s' (Item cJSON_Number None i (reread (Finite neg r)) s [])), b') \<and>
      content b' = content b \<and> depth b' = d \<and> offset b' = length pre + length ?t"
    using at no_keyword [of b] k c(2) a by auto
qed

lemma members_join:
  assumes "ms \<noteq> []"
  shows "members_text fmt d ms =
    (let tabs = if fmt then replicate d 9 else []; nl = if fmt then [10] else []
     in tabs @ join (44 # nl @ tabs) (map (\<lambda>(n, t). string_text n @ [58] @ (if fmt then [9] else []) @ t) ms) @ nl)"
  using assms
proof (induction ms)
  case (Cons m ms)
  then show ?case by (cases m; cases ms) (auto simp: Let_def)
qed simp

lemma blank_simps [simp]: "blank []" "blank (ws @ ws') \<longleftrightarrow> blank ws \<and> blank ws'" "blank (c # ws) \<longleftrightarrow> c \<le> 32 \<and> blank ws"
  by (auto simp: blank_def)

lemma blank_tabs [simp]: "blank (replicate d 9)"
  by (simp add: blank_def)

lemma json_text_starts:
  assumes "wf_item item"
  obtains c cs where "json_text fmt e item = c # cs" "32 < c" "c \<noteq> 93" "c < 128"
proof (cases item)
  case (Item t vs vi vd s cs)
  have num: "\<exists>c cs. number_text vd = c # cs \<and> 32 < c \<and> c \<noteq> 93 \<and> c < 128" if "vd \<noteq> NaN"
  proof (cases vd)
    case (Finite neg r)
    show ?thesis by (rule number_text_hd [of neg r]) (auto simp: Finite digit_def word_less_nat_alt word_le_nat_alt)
  qed (use that in \<open>simp_all add: number_text_def bytes_of_def\<close>)
  show thesis using assms Item that num
    by (auto simp: Let_def bytes_of_def string_text_def split: if_splits)
qed

section \<open>The round trip\<close>

lemma elements_read:
  assumes "\<forall>c \<in> set cs. wf_item c \<and> item_string c = None \<and> value_reads d pv (reread_item c) (json_text fmt e c)"
  shows "list_all2 (element_reads d (parse_element pv)) (map reread_item cs) (map (json_text fmt e) cs)" "opens 93 (map (json_text fmt e) cs)"
proof -
  have "element_reads d (parse_element pv) (reread_item c) (json_text fmt e c)" if "c \<in> set cs" for c
  proof -
    have "starts (json_text fmt e c)" using assms that json_text_starts [of c fmt e] by (metis starts_def)
    then have "element_reads d (parse_element pv) (set_string None (reread_item c)) (json_text fmt e c)"
      using assms that by (intro array_element_reads) simp_all
    moreover have "set_string None (reread_item c) = reread_item c"
      using assms that item_string_reread [of c] by (cases "reread_item c") simp
    ultimately show ?thesis by simp
  qed
  then show "list_all2 (element_reads d (parse_element pv)) (map reread_item cs) (map (json_text fmt e) cs)"
    by (simp add: list_all2_conv_all_nth)
  show "opens 93 (map (json_text fmt e) cs)"
    unfolding opens_def using assms json_text_starts by (metis list.set_intros(1) map_eq_Cons_D)
qed

lemma members_read:
  assumes "\<forall>c \<in> set cs. wf_item c \<and> item_string c \<noteq> None \<and> value_reads d pv (reread_item c) (json_text fmt e c)"
    and "ts = map (\<lambda>(n, t). string_text n @ [58] @ (if fmt then [9] else []) @ t) (zip (map item_string cs) (map (json_text fmt e) cs))"
  shows "list_all2 (element_reads d (parse_member (\<lambda>_. True) pv)) (map reread_item cs) ts" "opens 125 ts"
proof -
  have "element_reads d (parse_member (\<lambda>_. True) pv) (reread_item c)
      (string_text (item_string c) @ [58] @ (if fmt then [9] else []) @ json_text fmt e c)" if c: "c \<in> set cs" for c
  proof -
    obtain name where n: "item_string c = Some name" using assms(1) c by auto
    have "starts (json_text fmt e c)" using assms c json_text_starts [of c fmt e] by (metis starts_def)
    then have "element_reads d (parse_member (\<lambda>_. True) pv) (set_string (Some (c_string name)) (reread_item c))
      (string_text (Some name) @ [58] @ (if fmt then [9] else []) @ json_text fmt e c)"
      using assms c by (intro member_reads) simp_all
    moreover have "set_string (Some (c_string name)) (reread_item c) = reread_item c"
      using n item_string_reread [of c] by (cases "reread_item c") simp
    ultimately show ?thesis using n by simp
  qed
  then show "list_all2 (element_reads d (parse_member (\<lambda>_. True) pv)) (map reread_item cs) ts"
    unfolding assms(2) by (simp add: list_all2_conv_all_nth)
  show "opens 125 ts" unfolding assms(2) by (cases cs) (auto simp: opens_def string_text_def)
qed

lemma parse_value_reads:
  assumes "wf_item item" "nested_within (CJSON_NESTING_LIMIT - d) item" "CJSON_NESTING_LIMIT < n + d" "d \<le> CJSON_NESTING_LIMIT"
  shows "value_reads d (parse_value (\<lambda>_. True) n) (reread_item item) (json_text fmt e item)"
  using assms
proof (induction item arbitrary: d n e)
  case (Item t vs vi vd s cs)
  let ?it = "Item t vs vi vd s cs" and ?ts = "map (json_text fmt (e + 1)) cs"
  obtain m where n: "n = Suc m" using Item.prems(3,4) by (cases n) auto
  consider (items) "t = cJSON_Array \<or> t = cJSON_Object" | (num) neg r where "t = cJSON_Number" "vd = Finite neg r" "valid_double vd" "cs = []"
    | (inf) neg where "t = cJSON_Number" "vd = Infinite neg" | (str) v where "t = cJSON_String" "vs = Some v"
    | (const) "t = cJSON_NULL \<or> t = cJSON_False \<or> t = cJSON_True"
    using Item.prems(1) by (cases vd) (auto split: if_splits)
  then show ?case
  proof cases
    case items
    have d: "d < CJSON_NESTING_LIMIT" using Item.prems(2) items by auto
    have IH: "value_reads (d + 1) (parse_value (\<lambda>_. True) m) (reread_item c) (json_text fmt (e + 1) c)" "wf_item c" if "c \<in> set cs" for c
      using Item.IH [OF that, of "d + 1" m "e + 1"] Item.prems that items n by (auto split: if_splits)
    show ?thesis
    proof (cases "t = cJSON_Array")
      case True
      then have "\<forall>c \<in> set cs. wf_item c \<and> item_string c = None \<and> value_reads (d + 1) (parse_value (\<lambda>_. True) m) (reread_item c) (json_text fmt (e + 1) c)"
        using IH Item.prems(1) by auto
      note el = elements_read [OF this]
      have "value_reads d (parse_array (\<lambda>_. True) (parse_value (\<lambda>_. True) m))
          (Item cJSON_Array None 0 (Finite False 0) (map_option c_string s) (map reread_item cs)) ([91] @ join (separator fmt) ?ts @ [93])"
        unfolding separator_def by (rule parse_array_reads [OF el d]) simp
      moreover have "json_text fmt e ?it = [91] @ join (separator fmt) ?ts @ [93]" using True by simp
      moreover have "reread_item ?it = Item cJSON_Array None 0 (Finite False 0) (map_option c_string s) (map reread_item cs)"
        using True Item.prems(1) by simp
      ultimately show ?thesis unfolding n by (simp only: append_Cons append_Nil) (rule dispatch_items, auto)
    next
      case False
      with items have t: "t = cJSON_Object" by simp
      then have ok: "\<forall>c \<in> set cs. wf_item c \<and> item_string c \<noteq> None \<and> value_reads (d + 1) (parse_value (\<lambda>_. True) m) (reread_item c) (json_text fmt (e + 1) c)"
        using IH Item.prems(1) by auto
      let ?ms = "zip (map item_string cs) ?ts" and ?tabs = "\<lambda>k. if fmt then replicate k 9 else [] :: u8 list" and ?nl = "if fmt then [10] else [] :: u8 list"
      define ts where "ts = map (\<lambda>(n, t). string_text n @ [58] @ (if fmt then [9] else []) @ t) ?ms"
      note el = members_read [OF ok ts_def]
      have j: "?nl @ members_text fmt (e + 1) ?ms @ ?tabs e =
          (if cs = [] then ?nl else ?nl @ ?tabs (e + 1)) @ join (44 # ?nl @ ?tabs (e + 1)) ts @ (if cs = [] then ?tabs e else ?nl @ ?tabs e)"
        using members_join [of ?ms fmt "e + 1"] by (cases cs) (simp_all add: ts_def Let_def)
      have "json_text fmt e ?it = [123] @ (?nl @ members_text fmt (e + 1) ?ms @ ?tabs e) @ [125]" using t by simp
      then have tx: "json_text fmt e ?it = [123] @ (if cs = [] then ?nl else ?nl @ ?tabs (e + 1)) @ join (44 # ?nl @ ?tabs (e + 1)) ts @
          (if cs = [] then ?tabs e else ?nl @ ?tabs e) @ [125]" unfolding j by simp
      have "value_reads d (parse_object (\<lambda>_. True) (parse_value (\<lambda>_. True) m))
          (Item cJSON_Object None 0 (Finite False 0) (map_option c_string s) (map reread_item cs)) (json_text fmt e ?it)"
        unfolding tx by (rule parse_object_reads [OF el d]) simp_all
      moreover have "reread_item ?it = Item cJSON_Object None 0 (Finite False 0) (map_option c_string s) (map reread_item cs)"
        using t Item.prems(1) by simp
      ultimately show ?thesis unfolding n tx by (simp only: append_Cons append_Nil) (rule dispatch_items, auto)
    qed
  next
    case num
    obtain i where i: "saturate_int (reread vd) = Inr i"
      using saturate_int_returns [of "reread vd"] strtod_not_nan [of "number_text vd"] by (auto simp: reread_def)
    show ?thesis using number_reads [of neg r i d "\<lambda>_. True" m "map_option c_string s"] num i unfolding n
      by (simp del: valid_double.simps parse_value.simps)
  next
    case inf
    then show ?thesis using keyword_reads [of "''null''" cJSON_NULL 0 d "\<lambda>_. True" m "map_option c_string s"] unfolding n
      by (simp add: number_text_def del: parse_value.simps)
  next
    case str
    then show ?thesis using string_reads [of d m v "map_option c_string s"] Item.prems(1) unfolding n
      by (simp del: parse_value.simps)
  next
    case const
    note k = keyword_reads [of _ _ _ d "\<lambda>_. True" m "map_option c_string s"]
    from k [of "''null''" cJSON_NULL 0] k [of "''false''" cJSON_False 0] k [of "''true''" cJSON_True 1]
    show ?thesis using const Item.prems(1) unfolding n by (elim disjE) (simp_all del: parse_value.simps)
  qed
qed

lemma wf_printable: "wf_item item \<Longrightarrow> printable item"
proof (induction item)
  case (Item t vs vi vd s cs)
  then show ?case by (auto simp: Let_def split: if_splits simp del: valid_double.simps)
qed

lemma c_string_text: "0 \<notin> set t \<Longrightarrow> c_string (t @ [0]) = t"
  by (induction t) (auto simp: c_string_def)

lemma parse_text:
  assumes "wf_item item" "nested_within CJSON_NESTING_LIMIT item" "item_string item = None"
  shows "\<exists>r. cJSON_ParseWithLengthOpts (\<lambda>_. True) (Some (json_text fmt 0 item @ [0])) req = Inr r \<and>
    root r = Some (reread_item item) \<and> parse_end r = length (json_text fmt 0 item)"
proof -
  let ?t = "json_text fmt 0 item" and ?cs = "json_text fmt 0 item @ [0]"
  obtain c ys where c: "?t = c # ys" "32 < c" "c < 128" by (rule json_text_starts [OF assms(1), of fmt 0])
  let ?b = "(buffer_of ?cs)\<lparr>allocs := 1, live := 1\<rparr>"
  have a: "allocate (\<lambda>_. True) (buffer_of ?cs) = (True, ?b)" by (simp add: allocate_def buffer_of_def)
  have bom: "skip_utf8_bom ?b = Some ?b" using c by (auto simp: skip_utf8_bom_def buffer_of_def)
  have sk: "buffer_skip_whitespace ?b = ?b"
    using skip_blank [of ?b "[]" "[]" c "ys @ [0]"] c by (simp add: buffer_of_def)
  have st: "stops [0]" by (simp add: stops_def number_char_def digit_def)
  have "value_reads 0 (parse_value (\<lambda>_. True) (CJSON_NESTING_LIMIT + 1)) (reread_item item) ?t"
    by (rule parse_value_reads) (use assms in simp_all)
  from value_readsD [OF this, of ?b "[]" "[0]" cJSON_Invalid None] obtain b' where
    b': "parse_value (\<lambda>_. True) (CJSON_NESTING_LIMIT + 1) cJSON_New_Item ?b = Inr (Some (set_string None (reread_item item)), b')"
    "content b' = ?cs" "depth b' = 0" "offset b' = length ?t" using st by (auto simp: buffer_of_def cJSON_New_Item_def)
  have r: "set_string None (reread_item item) = reread_item item"
    using item_string_reread [of item] assms(3) by (cases "reread_item item") simp
  have "skip_loop ?cs (length ?t) = length ?t + 1"
    by (subst skip_loop.simps, simp, subst skip_loop.simps, simp)
  then have e: "buffer_skip_whitespace b' = b'" using b'(2,4) by (simp add: buffer_skip_whitespace_def can_access_def)
  have at: "can_access b' \<and> at_offset b' = 0" by (rule at_offset_eq [of _ ?t]) (use b' in simp_all)
  show ?thesis
    unfolding cJSON_ParseWithLengthOpts_def option.case a prod.case bom option.map sk b'(1) Let_def bind_fault_simps e
    using at r b'(4) by simp
qed

text \<open>
  C3: what is printed is parsed back. For a well-formed item that is nested no deeper than the parser
  accepts, if printing in either format returns a text, then parsing that text succeeds, with or without
  the requirement that nothing follows it, ends at its terminator, and gives the item up to what a text
  cannot carry; an item whose strings have no null byte and whose numbers are finite and printed exactly,
  like whole numbers of up to fifteen digits, comes back unchanged.
\<close>

theorem print_parse_round_trip:
  assumes "wf_item item" "nested_within CJSON_NESTING_LIMIT item" "item_string item = None"
    and "print fresh realloc_hook (Some item) fmt = Inr (Some (m, len), left)"
  shows "\<exists>r. cJSON_ParseWithOpts err (\<lambda>_. True) (Some (mem_get m 0 len)) req = Inr r \<and>
    root r = Some (reread_item item) \<and> parse_end r + 1 = len \<and> (exact_item item \<longrightarrow> root r = Some item)"
proof -
  have p: "printable item" by (rule wf_printable [OF assms(1)])
  have m: "mem_get m 0 len = json_text fmt 0 item @ [0]" "len = length (json_text fmt 0 item) + 1"
    using print_returns_text [OF p, of fresh realloc_hook fmt] assms(4) by auto
  have c: "c_string (json_text fmt 0 item @ [0]) = json_text fmt 0 item" by (rule c_string_text [OF json_text_nonzero [OF p]])
  obtain r where "cJSON_ParseWithLengthOpts (\<lambda>_. True) (Some (json_text fmt 0 item @ [0])) req = Inr r"
    "root r = Some (reread_item item)" "parse_end r = length (json_text fmt 0 item)"
    using parse_text [OF assms(1-3), of fmt req] by blast
  then show ?thesis unfolding cJSON_ParseWithOpts_def option.case m(1) c using reread_exact [OF assms(1)] m(2) by auto
qed

lemma demo_exact: "exact_item demo_item" "item_string demo_item = None"
  by (simp_all add: demo_item_def bytes_of_def c_string_def)

lemma demo_wf: "wf_item demo_item" "nested_within CJSON_NESTING_LIMIT demo_item"
  by (simp_all add: demo_item_def bytes_of_def CJSON_NESTING_LIMIT_def)

theorem print_parse_round_trip_witness:
  "\<exists>m len left r. print (\<lambda>_. Some (\<lambda>_. 0)) True (Some demo_item) True = Inr (Some (m, len), left) \<and>
     cJSON_ParseWithOpts None (\<lambda>_. True) (Some (mem_get m 0 len)) True = Inr r \<and> root r = Some demo_item"
proof -
  have "length (json_text True 0 demo_item) + 2 \<le> INT_MAX_SIZE"
    by (simp add: demo_item_def bytes_of_def INT_MAX_SIZE_def string_text_def c_string_def separator_def escape_bytes_def)
  then obtain m len left where m: "print (\<lambda>_. Some (\<lambda>_. 0)) True (Some demo_item) True = Inr (Some (m, len), left)"
    using print_returns_text [OF demo_printable(1), of "\<lambda>_. Some (\<lambda>_. 0)" True True] by force
  show ?thesis using print_parse_round_trip [OF demo_wf demo_exact(2) m, of None True] demo_exact(1) m by blast
qed

end
