(* ===== verification/CjsonMinify.thy ===== *)
theory CjsonMinify
  imports CjsonPrint
begin

text \<open>
  \<^verbatim>\<open>cJSON_Minify\<close> of \<^verbatim>\<open>apps/cjson/cJSON.c\<close>, which removes white space and comments from a text in place. The
  block holds the text and its terminator; input and output are positions in the same block. A reference
  definition on lists says what the result is, and printed items are shown to be reduced to their
  unformatted text.
\<close>

section \<open>The functions\<close>

text \<open>The loops of \<^verbatim>\<open>skip_oneline_comment\<close> and \<^verbatim>\<open>skip_multiline_comment\<close>, from the position behind the two characters.\<close>

function oneline_loop :: "u8 list \<Rightarrow> nat \<Rightarrow> c_fault + nat" where
  "oneline_loop b i =
     (if length b \<le> i then Inl OutOfBounds
      else if b ! i = 0 then Inr i
      else if b ! i = 10 then Inr (i + 1)
      else oneline_loop b (i + 1))"
  by pat_completeness auto
termination by (relation "measure (\<lambda>(b, i). length b - i)") auto

function multiline_loop :: "u8 list \<Rightarrow> nat \<Rightarrow> c_fault + nat" where
  "multiline_loop b i =
     (if length b \<le> i then Inl OutOfBounds
      else if b ! i = 0 then Inr i
      else if b ! i = 42 \<and> length b \<le> i + 1 then Inl OutOfBounds
      else if b ! i = 42 \<and> b ! (i + 1) = 47 then Inr (i + 2)
      else multiline_loop b (i + 1))"
  by pat_completeness auto
termination by (relation "measure (\<lambda>(b, i). length b - i)") auto

definition skip_oneline_comment :: "u8 list \<Rightarrow> nat \<Rightarrow> c_fault + nat" where
  "skip_oneline_comment b i = oneline_loop b (i + 2)"

definition skip_multiline_comment :: "u8 list \<Rightarrow> nat \<Rightarrow> c_fault + nat" where
  "skip_multiline_comment b i = multiline_loop b (i + 2)"

text \<open>The loop of \<^verbatim>\<open>minify_string\<close>: the block and the positions of the input and the output.\<close>

function string_loop :: "u8 list \<Rightarrow> nat \<Rightarrow> nat \<Rightarrow> c_fault + (u8 list \<times> nat \<times> nat)" where
  "string_loop b i out =
     (if length b \<le> i then Inl OutOfBounds
      else if b ! i = 0 then Inr (b, i, out)
      else if length b \<le> out then Inl OutOfBounds
      else (let b1 = b[out := b ! i]
            in if b1 ! i = QUOTE then Inr (b1[out := QUOTE], i + 1, out + 1)
               else if b1 ! i = BACKSLASH \<and> length b \<le> i + 1 then Inl OutOfBounds
               else if b1 ! i = BACKSLASH \<and> b1 ! (i + 1) = QUOTE
               then (if length b \<le> out + 1 then Inl OutOfBounds
                     else string_loop (b1[out + 1 := b1 ! (i + 1)]) (i + 2) (out + 2))
               else string_loop b1 (i + 1) (out + 1)))"
  by pat_completeness auto
termination by (relation "measure (\<lambda>(b, i, out). length b - i)") (auto simp: Let_def)

definition minify_string :: "u8 list \<Rightarrow> nat \<Rightarrow> nat \<Rightarrow> c_fault + (u8 list \<times> nat \<times> nat)" where
  "minify_string b i out =
     (if length b \<le> i \<or> length b \<le> out then Inl OutOfBounds else string_loop (b[out := b ! i]) (i + 1) (out + 1))"

declare oneline_loop.simps [simp del] multiline_loop.simps [simp del] string_loop.simps [simp del]

lemma oneline_moves: "oneline_loop b i = Inr j \<Longrightarrow> i \<le> j"
  by (induction b i rule: oneline_loop.induct) (subst (asm) oneline_loop.simps, fastforce split: if_splits)

lemma multiline_moves: "multiline_loop b i = Inr j \<Longrightarrow> i \<le> j"
  by (induction b i rule: multiline_loop.induct) (subst (asm) (2) multiline_loop.simps, fastforce split: if_splits)

lemma string_moves: "string_loop b i out = Inr (b', j, k) \<Longrightarrow> i \<le> j \<and> length b' = length b"
proof (induction "length b - i" arbitrary: b i out rule: less_induct)
  case less
  have IH: "i' \<le> j \<and> length b' = length c" if "length c = length b" "i < i'" "i < length b" "string_loop c i' o' = Inr (b', j, k)" for c i' o'
    by (rule less.hyps) (use that in auto)
  show ?case
    using less.prems by (subst (asm) string_loop.simps) (auto simp: Let_def split: if_splits dest!: IH [rotated 3])
qed

text \<open>The loop over the text.\<close>

function minify_loop :: "u8 list \<Rightarrow> nat \<Rightarrow> nat \<Rightarrow> c_fault + u8 list" where
  "minify_loop b i out =
     (if length b \<le> i then Inl OutOfBounds
      else if b ! i = 0 then (if length b \<le> out then Inl OutOfBounds else Inr (b[out := 0]))
      else if b ! i \<in> {32, 9, 13, 10} then minify_loop b (i + 1) out
      else if b ! i = 47
      then (if length b \<le> i + 1 then Inl OutOfBounds
            else if b ! (i + 1) = 47
            then (case skip_oneline_comment b i of Inl e \<Rightarrow> Inl e | Inr j \<Rightarrow> minify_loop b j out)
            else if b ! (i + 1) = 42
            then (case skip_multiline_comment b i of Inl e \<Rightarrow> Inl e | Inr j \<Rightarrow> minify_loop b j out)
            else minify_loop b (i + 1) out)
      else if b ! i = QUOTE
      then (case minify_string b i out of Inl e \<Rightarrow> Inl e | Inr (b1, j, k) \<Rightarrow> minify_loop b1 j k)
      else if length b \<le> out then Inl OutOfBounds
      else minify_loop (b[out := b ! i]) (i + 1) (out + 1))"
  by pat_completeness auto
termination
proof (relation "measure (\<lambda>(b, i, out). length b - i)", goal_cases)
  case (3 b i out j)
  then show ?case using oneline_moves [of b "i + 2" j] by (auto simp: skip_oneline_comment_def)
next
  case (4 b i out j)
  then show ?case using multiline_moves [of b "i + 2" j] by (auto simp: skip_multiline_comment_def)
next
  case (6 b i out x b1 y j k)
  then show ?case using string_moves [of "b[out := b ! i]" "i + 1" "out + 1" b1 j k] by (auto simp: minify_string_def split: if_splits)
qed auto

declare minify_loop.simps [simp del]

definition cJSON_Minify :: "u8 list option \<Rightarrow> c_fault + u8 list option" where
  "cJSON_Minify json = (case json of None \<Rightarrow> Inr None | Some b \<Rightarrow> bind_fault (minify_loop b 0 0) (\<lambda>b'. Inr (Some b')))"

section \<open>What is left of a text\<close>

fun after_line :: "u8 list \<Rightarrow> u8 list" where
  "after_line [] = []"
| "after_line (c # r) = (if c = 10 then r else after_line r)"

fun after_comment :: "u8 list \<Rightarrow> u8 list" where
  "after_comment [] = []"
| "after_comment [c] = []"
| "after_comment (c # d # r) = (if c = 42 \<and> d = 47 then r else after_comment (d # r))"

text \<open>A literal up to a quote that has no backslash in front of it, and the rest behind it.\<close>

fun literal :: "u8 list \<Rightarrow> u8 list \<times> u8 list" where
  "literal [] = ([], [])"
| "literal (c # r) =
     (if c = QUOTE then ([c], r)
      else if c = BACKSLASH \<and> r \<noteq> [] \<and> hd r = QUOTE then (let (s, t) = literal (tl r) in (c # QUOTE # s, t))
      else (let (s, t) = literal r in (c # s, t)))"

lemma after_line_length: "length (after_line r) \<le> length r"
  by (induction r) auto

lemma after_comment_length: "length (after_comment r) \<le> length r"
  by (induction r rule: after_comment.induct) auto

lemma literal_length: "literal r = (s, t) \<Longrightarrow> length t \<le> length r"
proof (induction r arbitrary: s t rule: literal.induct)
  case (2 c r)
  then show ?case by (fastforce split: if_splits prod.splits simp: Let_def)
qed simp

function minified :: "u8 list \<Rightarrow> u8 list" where
  "minified [] = []"
| "minified (c # r) =
     (if c \<in> {32, 9, 13, 10} then minified r
      else if c = 47
      then (if r \<noteq> [] \<and> hd r = 47 then minified (after_line (tl r))
            else if r \<noteq> [] \<and> hd r = 42 then minified (after_comment (tl r))
            else minified r)
      else if c = QUOTE then c # fst (literal r) @ minified (snd (literal r))
      else c # minified r)"
  by pat_completeness auto
termination
proof (relation "measure length", goal_cases)
  case (3 c r)
  then show ?case using after_line_length [of "tl r"] by simp
next
  case (4 c r)
  then show ?case using after_comment_length [of "tl r"] by simp
next
  case (6 c r)
  then show ?case using literal_length [of r "fst (literal r)" "snd (literal r)"] by simp
qed auto

section \<open>The block holds it\<close>

text \<open>The rest of the text at the position of the input, and the result in front of the output.\<close>

definition working :: "u8 list \<Rightarrow> nat \<Rightarrow> nat \<Rightarrow> u8 list \<Rightarrow> u8 list \<Rightarrow> bool" where
  "working b i out acc r \<longleftrightarrow> drop i b = r @ [0] \<and> take out b = acc \<and> out \<le> i \<and> 0 \<notin> set r"

lemma at_drop:
  assumes "drop i b = x # xs"
  shows "i < length b" "b ! i = x" "drop (i + 1) b = xs" "xs \<noteq> [] \<Longrightarrow> i + 1 < length b \<and> b ! (i + 1) = hd xs"
proof -
  show a: "i < length b" "b ! i = x" "drop (i + 1) b = xs"
    using assms by (metis drop_all list.distinct(1) not_le, metis drop_all hd_drop_conv_nth list.distinct(1) list.sel(1) not_le,
      metis drop_Suc list.sel(3) tl_drop Suc_eq_plus1)
  show "i + 1 < length b \<and> b ! (i + 1) = hd xs" if "xs \<noteq> []" using a(3) that by (metis drop_all hd_drop_conv_nth not_le)
qed

lemma put_back:
  assumes "drop i b = x # xs" "out \<le> i"
  shows "drop (i + 1) (b[out := y]) = xs" "take (out + 1) (b[out := y]) = take out b @ [y]" "out < length b"
    "out < i \<or> y = x \<Longrightarrow> drop i (b[out := y]) = x # xs"
proof -
  note a = at_drop [OF assms(1)]
  show o: "out < length b" using a(1) assms(2) by simp
  show "drop (i + 1) (b[out := y]) = xs" using a(3) assms(2) by (simp add: drop_update_cancel)
  show "take (out + 1) (b[out := y]) = take out b @ [y]" using o by (simp add: take_Suc_conv_app_nth)
  show "drop i (b[out := y]) = x # xs" if "out < i \<or> y = x"
    using that
  proof
    assume "y = x"
    then show ?thesis
    proof (cases "out = i")
      case True
      then have "b[out := y] = b" using a(2) \<open>y = x\<close> by (metis list_update_id)
      then show ?thesis using assms(1) by simp
    qed (use assms in \<open>simp add: drop_update_cancel\<close>)
  qed (use assms(1) in \<open>simp add: drop_update_cancel\<close>)
qed

lemma oneline_skips: "drop i b = r @ [0] \<Longrightarrow> 0 \<notin> set r \<Longrightarrow> \<exists>j. oneline_loop b i = Inr j \<and> drop j b = after_line r @ [0] \<and> i \<le> j"
proof (induction r arbitrary: i)
  case Nil
  then show ?case using at_drop [of i b 0 "[]"] by (subst oneline_loop.simps) auto
next
  case (Cons c r)
  then have d: "drop i b = c # r @ [0]" by simp
  note a = at_drop [OF d]
  show ?case
  proof (cases "c = 10")
    case True
    then show ?thesis using a by (subst oneline_loop.simps) auto
  next
    case False
    then show ?thesis using a Cons.IH [of "i + 1"] Cons.prems(2) by (subst oneline_loop.simps) fastforce
  qed
qed

lemma multiline_skips: "drop i b = r @ [0] \<Longrightarrow> 0 \<notin> set r \<Longrightarrow> \<exists>j. multiline_loop b i = Inr j \<and> drop j b = after_comment r @ [0] \<and> i \<le> j"
proof (induction r arbitrary: i rule: after_comment.induct)
  case 1
  then show ?case using at_drop [of i b 0 "[]"] by (subst multiline_loop.simps) auto
next
  case (2 c)
  then have d: "drop i b = c # [0]" by simp
  note a = at_drop [OF d] and e = at_drop [OF at_drop(3) [OF d]]
  show ?case using a e 2 by (subst multiline_loop.simps, subst multiline_loop.simps) auto
next
  case (3 c d r)
  then have dr: "drop i b = c # d # r @ [0]" by simp
  note a = at_drop [OF dr] and e = at_drop [OF at_drop(3) [OF dr]]
  show ?case
  proof (cases "c = 42 \<and> d = 47")
    case True
    then show ?thesis using a e by (subst multiline_loop.simps) auto
  next
    case False
    then show ?thesis using a e 3 by (subst multiline_loop.simps) fastforce
  qed
qed

lemma workingD:
  assumes "working b i out acc (c # r)"
  shows "drop i b = c # r @ [0]" "out \<le> i" "c \<noteq> 0" "0 \<notin> set r" "take out b = acc"
  using assms by (simp_all add: working_def)

text \<open>Copying one character forward.\<close>

lemma working_copy:
  assumes "working b i out acc (c # r)"
  shows "working (b[out := c]) (i + 1) (out + 1) (acc @ [c]) r" "drop i (b[out := c]) = c # r @ [0]" "out < length b"
  using workingD [OF assms] put_back(1,2,4) [OF workingD(1,2) [OF assms], of c] put_back(3) [OF workingD(1,2) [OF assms]]
  by (simp_all add: working_def)

lemma working_end:
  assumes "working b i out acc []"
  shows "i < length b" "b ! i = 0" "out < length b" "take (out + 1) (b[out := 0]) = acc @ [0]"
  using assms at_drop [of i b 0 "[]"] put_back(2) [of i b 0 "[]" out 0] put_back(3) [of i b 0 "[]" out] by (simp_all add: working_def)

lemma string_copies:
  "working b i out acc r \<Longrightarrow> literal r = (s, t) \<Longrightarrow>
   \<exists>b' j. string_loop b i out = Inr (b', j, out + length s) \<and> working b' j (out + length s) (acc @ s) t"
proof (induction r arbitrary: b i out acc s t rule: literal.induct)
  case 1
  then show ?case using working_end [OF 1(1)] by (subst string_loop.simps) auto
next
  case (2 c r)
  note w = workingD [OF 2(3)] and p = working_copy [OF 2(3)]
  note a = at_drop [OF w(1)] and a1 = at_drop [OF p(2)]
  consider (close) "c = QUOTE" | (pair) "c = BACKSLASH" "r \<noteq> []" "hd r = QUOTE" | (plain) "c \<noteq> QUOTE" "\<not> (c = BACKSLASH \<and> r \<noteq> [] \<and> hd r = QUOTE)"
    by blast
  then show ?case
  proof cases
    case close
    then have "s = [QUOTE]" "t = r" using 2(4) by auto
    then show ?thesis using p w a a1 close by (subst string_loop.simps) (auto simp: Let_def)
  next
    case pair
    then obtain r' where r: "r = QUOTE # r'" by (cases r) auto
    obtain s' where s: "literal r' = (s', t)" "s = BACKSLASH # QUOTE # s'"
      using 2(4) pair r by (auto simp: Let_def split: prod.splits)
    note w1 = p(1) [unfolded r]
    note p1 = working_copy [OF w1]
    have "\<exists>b' j. string_loop (b[out := c, out + 1 := QUOTE]) (i + 1 + 1) (out + 1 + 1) = Inr (b', j, out + 1 + 1 + length s') \<and>
        working b' j (out + 1 + 1 + length s') ((acc @ [c]) @ [QUOTE] @ s') t"
      using 2(1) [of "b[out := c, out + 1 := QUOTE]" "i + 1 + 1" "out + 1 + 1" "(acc @ [c]) @ [QUOTE]" s' t] p1(1) pair r s(1) by simp
    then show ?thesis
      using p w a a1 p1 pair r s(2) at_drop [OF workingD(1) [OF w1]] by (subst string_loop.simps) (auto simp: Let_def)
  next
    case plain
    obtain s' where s: "literal r = (s', t)" "s = c # s'" using 2(4) plain by (auto simp: Let_def split: prod.splits if_splits)
    have IH: "\<exists>b' j. string_loop (b[out := c]) (i + 1) (out + 1) = Inr (b', j, out + 1 + length s') \<and>
        working b' j (out + 1 + length s') ((acc @ [c]) @ s') t"
      using 2(2) [OF plain p(1) s(1)] .
    have q: "b[out := c] ! (i + 1) = QUOTE \<Longrightarrow> c \<noteq> BACKSLASH" "i + 1 < length b"
      using a1(4) plain by (cases r; auto)+
    show ?thesis using IH w a a1 p(3) q plain s(2) by (subst string_loop.simps) (auto simp: Let_def)
  qed
qed

text \<open>Skipping leaves the block alone.\<close>

lemma working_skip: "working b i out acc r \<Longrightarrow> drop j b = r' @ [0] \<Longrightarrow> i \<le> j \<Longrightarrow> 0 \<notin> set r' \<Longrightarrow> working b j out acc r'"
  by (simp add: working_def)

lemma after_line_set: "set (after_line r) \<subseteq> set r"
  by (induction r) auto

lemma after_comment_set: "set (after_comment r) \<subseteq> set r"
  by (induction r rule: after_comment.induct) (auto split: if_splits)

lemma minify_works:
  "working b i out acc r \<Longrightarrow> \<exists>b'. minify_loop b i out = Inr b' \<and> length b' = length b \<and>
     take (out + length (minified r) + 1) b' = acc @ minified r @ [0]"
proof (induction r arbitrary: b i out acc rule: minified.induct)
  case 1
  then show ?case using working_end [OF 1] by (subst minify_loop.simps) auto
next
  case (2 c r)
  note w = workingD [OF 2(7)]
  note a = at_drop [OF w(1)]
  have one: "working b (i + 1) out acc r" using w a by (auto simp: working_def)
  consider (blank) "c \<in> {32, 9, 13, 10}" | (line) r' where "c = 47" "r = 47 # r'" | (block) r' where "c = 47" "r = 42 # r'"
    | (slash) "c = 47" "\<not> (r \<noteq> [] \<and> hd r = 47)" "\<not> (r \<noteq> [] \<and> hd r = 42)"
    | (quote) "c = QUOTE" | (plain) "c \<notin> {32, 9, 13, 10}" "c \<noteq> 47" "c \<noteq> QUOTE"
    by (cases r) auto
  then show ?case
  proof cases
    case blank
    then show ?thesis using 2(1) [OF blank one] a w(3) by (subst minify_loop.simps) auto
  next
    case line
    have d: "drop (i + 2) b = r' @ [0]" using at_drop(3) [of "i + 1" b 47 "r' @ [0]"] a(3) line(2) by simp
    have z: "0 \<notin> set r'" using w(4) line(2) by simp
    obtain j where j: "oneline_loop b (i + 2) = Inr j" "drop j b = after_line r' @ [0]" "i + 2 \<le> j" using oneline_skips [OF d z] by blast
    have "working b j out acc (after_line r')" by (rule working_skip [OF 2(7) j(2)]) (use j(3) z after_line_set [of r'] in auto)
    then show ?thesis using 2(2) line a w j(1) by (subst minify_loop.simps) (auto simp: skip_oneline_comment_def)
  next
    case block
    have d: "drop (i + 2) b = r' @ [0]" using at_drop(3) [of "i + 1" b 42 "r' @ [0]"] a(3) block(2) by simp
    have z: "0 \<notin> set r'" using w(4) block(2) by simp
    obtain j where j: "multiline_loop b (i + 2) = Inr j" "drop j b = after_comment r' @ [0]" "i + 2 \<le> j" using multiline_skips [OF d z] by blast
    have "working b j out acc (after_comment r')" by (rule working_skip [OF 2(7) j(2)]) (use j(3) z after_comment_set [of r'] in auto)
    then show ?thesis using 2(3) block a w j(1) by (subst minify_loop.simps) (auto simp: skip_multiline_comment_def)
  next
    case slash
    have n: "i + 1 < length b" "b ! (i + 1) \<noteq> 47" "b ! (i + 1) \<noteq> 42" using a(4) slash(2,3) by (cases r; auto)+
    then show ?thesis using 2(4) slash one a w(3) by (subst minify_loop.simps) auto
  next
    case quote
    note p = working_copy [OF 2(7)]
    obtain s t where l: "literal r = (s, t)" by fastforce
    obtain b' j where s: "string_loop (b[out := c]) (i + 1) (out + 1) = Inr (b', j, out + 1 + length s)"
      "working b' j (out + 1 + length s) ((acc @ [c]) @ s) t" using string_copies [OF p(1) l] by blast
    have "length b' = length b" using string_moves [OF s(1)] by simp
    moreover have "\<exists>b2. minify_loop b' j (out + 1 + length s) = Inr b2 \<and> length b2 = length b' \<and>
        take (out + 1 + length s + length (minified t) + 1) b2 = ((acc @ [c]) @ s) @ minified t @ [0]"
      using 2(5) [of b' j "out + 1 + length s" "(acc @ [c]) @ s"] quote l s(2) by simp
    moreover have "minify_loop b i out = minify_loop b' j (out + 1 + length s)"
      by (subst minify_loop.simps) (use quote a w(3) p(3) s(1) in \<open>simp add: minify_string_def\<close>)
    moreover have "minified (c # r) = c # s @ minified t" using quote l by simp
    ultimately show ?thesis by (auto simp: ac_simps)
  next
    case plain
    note p = working_copy [OF 2(7)]
    then show ?thesis using 2(6) [OF plain p(1)] a w(3) plain by (subst minify_loop.simps) fastforce
  qed
qed

section \<open>The result of the program\<close>

lemma literal_plain: "c \<noteq> QUOTE \<Longrightarrow> c \<noteq> BACKSLASH \<or> r = [] \<or> hd r \<noteq> QUOTE \<Longrightarrow> literal (c # r) = (c # fst (literal r), snd (literal r))"
  by (auto simp: case_prod_unfold Let_def)

lemma literal_set: "literal r = (s, t) \<Longrightarrow> set s \<subseteq> set r \<and> set t \<subseteq> set r"
proof (induction r arbitrary: s t rule: literal.induct)
  case (2 c r)
  consider "c = QUOTE" | (pair) "c = BACKSLASH" "r \<noteq> []" "hd r = QUOTE" | (plain) "c \<noteq> QUOTE" "\<not> (c = BACKSLASH \<and> r \<noteq> [] \<and> hd r = QUOTE)"
    by blast
  then show ?case
  proof cases
    case pair
    then obtain r' where "r = QUOTE # r'" by (cases r) auto
    then show ?thesis using 2(1) [of "fst (literal r')" "snd (literal r')"] 2(3) pair by (auto simp: case_prod_unfold Let_def)
  next
    case plain
    then show ?thesis using 2(2) [of "fst (literal r)" "snd (literal r)"] 2(3) literal_plain [of c r] by auto
  qed (use 2(3) in auto)
qed simp

lemma minified_set: "set (minified r) \<subseteq> set r"
proof (induction r rule: minified.induct)
  case (2 c r)
  have tl: "set (tl r) \<subseteq> set r" by (cases r) auto
  have l: "set (fst (literal r)) \<subseteq> set r" "set (snd (literal r)) \<subseteq> set r" using literal_set [of r] by (metis prod.collapse)+
  show ?case using 2 tl l after_line_set [of "tl r"] after_comment_set [of "tl r"] by (simp split: if_split) blast
qed simp

lemma minify_result:
  assumes "0 \<notin> set s"
  shows "\<exists>b. cJSON_Minify (Some (s @ [0])) = Inr (Some b) \<and> length b = length s + 1 \<and> c_string b = minified s"
proof -
  have "working (s @ [0]) 0 0 [] s" using assms by (simp add: working_def)
  from minify_works [OF this] obtain b where b: "minify_loop (s @ [0]) 0 0 = Inr b" "length b = length s + 1"
    "take (length (minified s) + 1) b = minified s @ [0]" by auto
  have z: "0 \<notin> set (minified s)" using assms minified_set by blast
  have e: "b = minified s @ 0 # drop (length (minified s) + 1) b" using append_take_drop_id [of "length (minified s) + 1" b] unfolding b(3) by simp
  have "c_string b = minified s" by (subst e) (use z takeWhile_tail [of "\<lambda>c. c \<noteq> 0" 0 "minified s"] in \<open>auto simp: c_string_def\<close>)
  then show ?thesis using b by (simp add: cJSON_Minify_def)
qed

section \<open>Printed items\<close>

text \<open>Characters that pass, blanks that do not, and strings, unless a backslash is their last character.\<close>

definition passes :: "u8 \<Rightarrow> bool" where
  "passes c \<longleftrightarrow> c \<notin> {32, 9, 13, 10, 47, QUOTE}"

definition whole :: "u8 list option \<Rightarrow> bool" where
  "whole s \<longleftrightarrow> (case s of None \<Rightarrow> True | Some b \<Rightarrow> c_string b = [] \<or> last (c_string b) \<noteq> BACKSLASH)"

lemma minified_passes: "\<forall>c \<in> set t. passes c \<Longrightarrow> minified (t @ r) = t @ minified r"
  by (induction t) (auto simp: passes_def)

lemma minified_blanks: "\<forall>c \<in> set t. c \<in> {32, 9, 13, 10} \<Longrightarrow> minified (t @ r) = minified r"
  by (induction t) auto

lemma hd_escaped: "s \<noteq> [] \<Longrightarrow> escaped s \<noteq> [] \<and> hd (escaped s) \<noteq> QUOTE"
proof (cases s)
  case (Cons c s')
  then show ?thesis by (cases c rule: escape_bytes_cases) auto
qed simp

lemma short_escape: "escape_bytes c = [BACKSLASH, x] \<Longrightarrow> x = BACKSLASH \<Longrightarrow> c = BACKSLASH"
  by (auto simp: escape_bytes_def split: if_splits)

lemma literal_escaped:
  "s = [] \<or> last s \<noteq> BACKSLASH \<Longrightarrow> literal (escaped s @ QUOTE # r) = (escaped s @ [QUOTE], r)"
proof (induction s)
  case (Cons c s)
  let ?t = "escaped s @ QUOTE # r"
  have IH: "literal ?t = (escaped s @ [QUOTE], r)" using Cons by (auto split: if_splits)
  show ?case
  proof (cases c rule: escape_bytes_cases)
    case plain
    then show ?thesis using IH by simp
  next
    case (short x)
    have "hd ?t \<noteq> QUOTE" if "x = BACKSLASH"
    proof -
      have "s \<noteq> []" using short_escape [OF short(1) that] Cons.prems by auto
      then show ?thesis using hd_escaped [of s] by simp
    qed
    then have "literal (x # ?t) = (x # escaped s @ [QUOTE], r)" if "x \<noteq> QUOTE" using that IH literal_plain [of x ?t] by auto
    then show ?thesis using short(1) IH by (cases "x = QUOTE") simp_all
  next
    case control
    then show ?thesis using IH control_escape [of c] by simp
  qed
qed simp

lemma minified_string: "whole s \<Longrightarrow> minified (string_text s @ r) = string_text s @ minified r"
  using literal_escaped [of "case s of None \<Rightarrow> [] | Some b \<Rightarrow> c_string b" r]
  by (simp add: string_text_def whole_def split: option.splits)

lemma minified_number: "valid_double d \<Longrightarrow> minified (number_text d @ r) = number_text d @ minified r"
proof (rule minified_passes, rule ballI)
  fix c assume c: "c \<in> set (number_text d)" "valid_double d"
  show "passes c"
  proof (cases d)
    case (Finite neg q)
    then have "number_char c" using c set_number_text(1) by blast
    then show ?thesis by (auto simp: passes_def number_char_def digit_def)
  qed (use c in \<open>auto simp: number_text_def bytes_of_def passes_def\<close>)
qed

text \<open>The items that keep their text: no raw text, and no string or name that ends in a backslash.\<close>

fun whole_item :: "cJSON \<Rightarrow> bool" where
  "whole_item (Item t vs vi vd s cs) \<longleftrightarrow>
     t AND 0xFF \<noteq> cJSON_Raw \<and> (t AND 0xFF = cJSON_String \<longrightarrow> whole vs) \<and> whole s \<and> (\<forall>c \<in> set cs. whole_item c)"

lemma whole_name: "whole_item c \<Longrightarrow> whole (item_string c)"
  by (cases c) simp

lemma minified_join:
  assumes "\<forall>p \<in> set ps. \<forall>r. minified (fst p @ r) = snd p @ minified r"
  shows "minified (join (separator fmt) (map fst ps) @ r) = join (separator False) (map snd ps) @ minified r"
  using assms by (induction ps rule: induct_list012) (auto simp: separator_def)

lemma minified_members:
  assumes "\<forall>p \<in> set ps. whole (fst p) \<and> (\<forall>r. minified (fst (snd p) @ r) = snd (snd p) @ minified r)"
  shows "minified (members_text fmt d (map (\<lambda>p. (fst p, fst (snd p))) ps) @ r) =
    members_text False d' (map (\<lambda>p. (fst p, snd (snd p))) ps) @ minified r"
  using assms by (induction ps) (auto simp: minified_blanks minified_string)

lemma minified_text:
  "printable item \<Longrightarrow> whole_item item \<Longrightarrow> minified (json_text fmt d item @ r) = json_text False d' item @ minified r"
proof (induction item arbitrary: d d' r)
  case (Item t vs vi vd s cs)
  let ?k = "t AND 0xFF" and ?T = "json_text fmt (d + 1)" and ?U = "json_text False (d' + 1)"
  have k: "?k \<in> {cJSON_NULL, cJSON_False, cJSON_True, cJSON_String} \<or> ?k = cJSON_Number \<and> valid_double vd \<or>
      (?k = cJSON_Array \<or> ?k = cJSON_Object) \<and> (\<forall>c \<in> set cs. printable c)"
    using Item.prems by (auto simp: Let_def)
  have IH: "minified (?T c @ r) = ?U c @ minified r" if "c \<in> set cs" "?k = cJSON_Array \<or> ?k = cJSON_Object" for c r
    using Item.IH [OF that(1)] k Item.prems(2) that by auto
  consider (word) "?k \<in> {cJSON_NULL, cJSON_False, cJSON_True}" | (string) "?k = cJSON_String" | (number) "?k = cJSON_Number" "valid_double vd"
    | (array) "?k = cJSON_Array" | (object) "?k = cJSON_Object" using k by blast
  then show ?case
  proof cases
    case word
    then show ?thesis by (auto simp: Let_def bytes_of_def)
  next
    case string
    then show ?thesis using minified_string [of vs r] Item.prems(2) by (simp add: Let_def)
  next
    case number
    then show ?thesis using minified_number [of vd r] by (simp add: Let_def)
  next
    case array
    have "minified (join (separator fmt) (map fst (map (\<lambda>c. (?T c, ?U c)) cs)) @ 93 # r) =
        join (separator False) (map snd (map (\<lambda>c. (?T c, ?U c)) cs)) @ minified (93 # r)"
      by (rule minified_join) (use IH array in auto)
    then show ?thesis using array by (simp add: Let_def comp_def)
  next
    case object
    let ?ps = "map (\<lambda>c. (item_string c, ?T c, ?U c)) cs"
    let ?close = "(if fmt then replicate d 9 else []) @ 125 # r"
    have "minified (members_text fmt (d + 1) (map (\<lambda>p. (fst p, fst (snd p))) ?ps) @ ?close) =
        members_text False (d' + 1) (map (\<lambda>p. (fst p, snd (snd p))) ?ps) @ minified ?close"
      by (rule minified_members) (use IH object Item.prems(2) whole_name in auto)
    moreover have "minified ?close = 125 # minified r" by (simp add: minified_blanks)
    ultimately show ?thesis using object by (cases fmt) (simp_all add: Let_def comp_def zip_map_map zip_same_conv_map)
  qed
qed

text \<open>
  C24: \<^verbatim>\<open>cJSON_Minify\<close> works in place. On every terminated text it ends inside its block, whatever comments and
  literals are left open in it, and the block then holds the text of the reference definition and a
  terminator.
\<close>

theorem minify_in_place:
  assumes "0 \<notin> set s"
  shows "\<exists>b. cJSON_Minify (Some (s @ [0])) = Inr (Some b) \<and> length b = length s + 1 \<and> c_string b = minified s"
  by (rule minify_result [OF assms])

theorem minify_in_place_witness:
  "\<exists>b. cJSON_Minify (Some (bytes_of ''[1, 2] // x'' @ [0])) = Inr (Some b) \<and> length b = 12 \<and> c_string b = bytes_of ''[1,2]''"
proof -
  have "0 \<notin> set (bytes_of ''[1, 2] // x'')" "length (bytes_of ''[1, 2] // x'') = 11" "minified (bytes_of ''[1, 2] // x'') = bytes_of ''[1,2]''"
    by (simp_all add: bytes_of_def)
  then show ?thesis using minify_in_place [of "bytes_of ''[1, 2] // x''"] by simp
qed



text \<open>
  A literal that ends in an escaped backslash: its closing quote is taken for an escaped one, so the next
  literal loses the blanks inside it.
\<close>

lemma minify_backslash:
  "cJSON_Minify (Some ([91, 34, 92, 92, 34, 44, 32, 34, 97, 32, 98, 34, 93] @ [0])) =
   Inr (Some ([91, 34, 92, 92, 34, 44, 32, 34, 97, 98, 34, 93] @ [0, 0]))"
  by code_simp

end
