(* ===== verification/CjsonHeap.thy ===== *)
theory CjsonHeap
  imports CjsonParse
begin

text \<open>
  The items of \<^verbatim>\<open>apps/cjson/cJSON.c\<close> as they lie in memory, for the functions that change trees in place: a
  heap of items linked by \<^verbatim>\<open>next\<close>, \<^verbatim>\<open>prev\<close> and \<^verbatim>\<open>child\<close>, a heap of strings, and the operations as assignments in
  the order of the code. An access through a null pointer or to a freed block, and freeing a block twice
  or one that was not allocated, are faults. The allocator is an argument that says which calls succeed.
\<close>

section \<open>Memory\<close>

type_synonym addr = nat

text \<open>A pointer to a string: a block of the allocator, or a string that belongs to the caller.\<close>

datatype strptr = Heap addr | Const "u8 list"

record node =
  n_next :: "addr option"
  n_prev :: "addr option"
  n_child :: "addr option"
  n_type :: u32
  n_valuestring :: "strptr option"
  n_valueint :: int
  n_valuedouble :: double
  n_string :: "strptr option"

text \<open>
  The allocated items and strings (without the terminator at the end of the block), the next address to be
  handed out and the number of allocations asked for.
\<close>

record json_heap =
  nodes :: "addr \<rightharpoonup> node"
  strs :: "addr \<rightharpoonup> u8 list"
  brk :: addr
  calls :: nat

definition get_node :: "json_heap \<Rightarrow> addr option \<Rightarrow> c_fault + node" where
  "get_node h p =
     (case p of
        None \<Rightarrow> Inl NullDeref
      | Some a \<Rightarrow> (case nodes h a of None \<Rightarrow> Inl UseAfterFree | Some n \<Rightarrow> Inr n))"

definition upd_node :: "addr option \<Rightarrow> (node \<Rightarrow> node) \<Rightarrow> json_heap \<Rightarrow> c_fault + json_heap" where
  "upd_node p f h =
     (case p of
        None \<Rightarrow> Inl NullDeref
      | Some a \<Rightarrow> (case nodes h a of None \<Rightarrow> Inl UseAfterFree | Some n \<Rightarrow> Inr (h\<lparr>nodes := (nodes h)(a \<mapsto> f n)\<rparr>)))"

text \<open>The bytes behind a string pointer that is not null.\<close>

definition read_str :: "json_heap \<Rightarrow> strptr \<Rightarrow> c_fault + u8 list" where
  "read_str h p =
     (case p of
        Heap a \<Rightarrow> (case strs h a of None \<Rightarrow> Inl UseAfterFree | Some s \<Rightarrow> Inr s)
      | Const s \<Rightarrow> Inr s)"

definition get_str :: "json_heap \<Rightarrow> strptr option \<Rightarrow> c_fault + u8 list" where
  "get_str h p = (case p of None \<Rightarrow> Inl NullDeref | Some q \<Rightarrow> bind_fault (read_str h q) (\<lambda>s. Inr (c_string s)))"

definition free_str :: "strptr \<Rightarrow> json_heap \<Rightarrow> c_fault + json_heap" where
  "free_str p h =
     (case p of
        Heap a \<Rightarrow> (case strs h a of None \<Rightarrow> Inl UseAfterFree | Some _ \<Rightarrow> Inr (h\<lparr>strs := (strs h)(a := None)\<rparr>))
      | Const _ \<Rightarrow> Inl BadFree)"

definition free_node :: "addr \<Rightarrow> json_heap \<Rightarrow> c_fault + json_heap" where
  "free_node a h =
     (case nodes h a of None \<Rightarrow> Inl UseAfterFree | Some _ \<Rightarrow> Inr (h\<lparr>nodes := (nodes h)(a := None)\<rparr>))"

section \<open>Allocation\<close>

definition empty_node :: node where
  "empty_node = \<lparr>n_next = None, n_prev = None, n_child = None, n_type = cJSON_Invalid, n_valuestring = None,
     n_valueint = 0, n_valuedouble = Finite False 0, n_string = None\<rparr>"

definition new_item :: "(nat \<Rightarrow> bool) \<Rightarrow> json_heap \<Rightarrow> addr option \<times> json_heap" where
  "new_item al h =
     (let h1 = h\<lparr>calls := calls h + 1\<rparr>
      in if al (calls h) then (Some (brk h), h1\<lparr>nodes := (nodes h)(brk h \<mapsto> empty_node), brk := brk h + 1\<rparr>)
         else (None, h1))"

definition cJSON_strdup :: "(nat \<Rightarrow> bool) \<Rightarrow> strptr option \<Rightarrow> json_heap \<Rightarrow> c_fault + (strptr option \<times> json_heap)" where
  "cJSON_strdup al string h =
     (if string = None then Inr (None, h)
      else bind_fault (get_str h string) (\<lambda>s.
           let h1 = h\<lparr>calls := calls h + 1\<rparr>
           in if al (calls h)
              then Inr (Some (Heap (brk h)), h1\<lparr>strs := (strs h)(brk h \<mapsto> s), brk := brk h + 1\<rparr>)
              else Inr (None, h1)))"

text \<open>
  The hooks, for function pointers of any kind, of which \<open>malloc\<close>, \<open>free\<close> and \<open>realloc\<close> are those of the
  standard library.
\<close>

record 'f internal_hooks =
  hook_allocate :: 'f
  hook_deallocate :: 'f
  hook_reallocate :: "'f option"

definition cJSON_InitHooks :: "'f \<Rightarrow> 'f \<Rightarrow> 'f \<Rightarrow> ('f option \<times> 'f option) option \<Rightarrow> 'f internal_hooks" where
  "cJSON_InitHooks malloc free realloc hooks =
     (case hooks of
        None \<Rightarrow> \<lparr>hook_allocate = malloc, hook_deallocate = free, hook_reallocate = Some realloc\<rparr>
      | Some (malloc_fn, free_fn) \<Rightarrow>
          (let al = (case malloc_fn of None \<Rightarrow> malloc | Some f \<Rightarrow> f);
               de = (case free_fn of None \<Rightarrow> free | Some f \<Rightarrow> f)
           in \<lparr>hook_allocate = al, hook_deallocate = de,
               hook_reallocate = (if al = malloc \<and> de = free then Some realloc else None)\<rparr>))"

section \<open>Deletion\<close>

text \<open>Sequencing of recursions that may not end.\<close>

definition bind_loop :: "(c_fault + 'a) option \<Rightarrow> ('a \<Rightarrow> (c_fault + 'b) option) \<Rightarrow> (c_fault + 'b) option" where
  "bind_loop m f = Option.bind m (\<lambda>r. case r of Inl e \<Rightarrow> Some (Inl e) | Inr a \<Rightarrow> f a)"

lemma bind_loop_mono [partial_function_mono]:
  assumes "mono_option B" "\<And>y. mono_option (\<lambda>f. C y f)"
  shows "mono_option (\<lambda>f. bind_loop (B f) (\<lambda>y. C y f))"
  unfolding bind_loop_def
proof (rule bind_mono [OF assms(1)])
  fix r :: "c_fault + 'c"
  show "mono_option (\<lambda>f. case r of Inl e \<Rightarrow> Some (Inl e) | Inr a \<Rightarrow> C a f)"
    using assms(2) by (cases r) (auto intro: monotoneI simp: flat_ord_def)
qed

lemma bind_loop_simps [simp]:
  "bind_loop (Some (Inr a)) f = f a" "bind_loop (Some (Inl e)) f = Some (Inl e)" "bind_loop None f = None"
  by (simp_all add: bind_loop_def)

definition is_reference :: "node \<Rightarrow> bool" where
  "is_reference n \<longleftrightarrow> n_type n AND cJSON_IsReference \<noteq> 0"

definition string_is_const :: "node \<Rightarrow> bool" where
  "string_is_const n \<longleftrightarrow> n_type n AND cJSON_StringIsConst \<noteq> 0"

text \<open>What an item owns beside its children, and the item itself.\<close>

definition free_value :: "node \<Rightarrow> json_heap \<Rightarrow> c_fault + json_heap" where
  "free_value n h = (if \<not> is_reference n \<and> n_valuestring n \<noteq> None then free_str (the (n_valuestring n)) h else Inr h)"

definition free_name :: "node \<Rightarrow> json_heap \<Rightarrow> c_fault + json_heap" where
  "free_name n h = (if \<not> string_is_const n \<and> n_string n \<noteq> None then free_str (the (n_string n)) h else Inr h)"

definition free_fields :: "addr \<Rightarrow> json_heap \<Rightarrow> c_fault + json_heap" where
  "free_fields a h =
     bind_fault (get_node h (Some a)) (\<lambda>n.
     bind_fault (free_value n h) (\<lambda>h1. bind_fault (free_name n h1) (free_node a)))"

partial_function (option) delete_loop :: "addr option \<Rightarrow> json_heap \<Rightarrow> (c_fault + json_heap) option" where
  "delete_loop item h =
     (case item of
        None \<Rightarrow> Some (Inr h)
      | Some a \<Rightarrow>
          bind_loop (Some (get_node h item)) (\<lambda>n.
          bind_loop (if \<not> is_reference n \<and> n_child n \<noteq> None then delete_loop (n_child n) h else Some (Inr h)) (\<lambda>h1.
          bind_loop (Some (free_fields a h1)) (delete_loop (n_next n)))))"

definition delete_item :: "addr option \<Rightarrow> json_heap \<Rightarrow> c_fault + json_heap" where
  "delete_item item h = run_loop (delete_loop item h)"

section \<open>Kinds and values\<close>

definition is_kind :: "u32 \<Rightarrow> json_heap \<Rightarrow> addr option \<Rightarrow> c_fault + bool" where
  "is_kind k h item =
     (if item = None then Inr False else bind_fault (get_node h item) (\<lambda>n. Inr (n_type n AND 255 = k)))"

definition cJSON_IsInvalid where "cJSON_IsInvalid = is_kind cJSON_Invalid"
definition cJSON_IsFalse where "cJSON_IsFalse = is_kind cJSON_False"
definition cJSON_IsTrue where "cJSON_IsTrue = is_kind cJSON_True"
definition cJSON_IsNull where "cJSON_IsNull = is_kind cJSON_NULL"
definition cJSON_IsNumber where "cJSON_IsNumber = is_kind cJSON_Number"
definition cJSON_IsString where "cJSON_IsString = is_kind cJSON_String"
definition cJSON_IsArray where "cJSON_IsArray = is_kind cJSON_Array"
definition cJSON_IsObject where "cJSON_IsObject = is_kind cJSON_Object"
definition cJSON_IsRaw where "cJSON_IsRaw = is_kind cJSON_Raw"

definition cJSON_IsBool :: "json_heap \<Rightarrow> addr option \<Rightarrow> c_fault + bool" where
  "cJSON_IsBool h item =
     (if item = None then Inr False
      else bind_fault (get_node h item) (\<lambda>n. Inr (n_type n AND (cJSON_True OR cJSON_False) \<noteq> 0)))"

definition cJSON_GetStringValue :: "json_heap \<Rightarrow> addr option \<Rightarrow> c_fault + strptr option" where
  "cJSON_GetStringValue h item =
     bind_fault (cJSON_IsString h item) (\<lambda>ok.
     if \<not> ok then Inr None else bind_fault (get_node h item) (\<lambda>n. Inr (n_valuestring n)))"

definition cJSON_GetNumberValue :: "json_heap \<Rightarrow> addr option \<Rightarrow> c_fault + double" where
  "cJSON_GetNumberValue h item =
     bind_fault (cJSON_IsNumber h item) (\<lambda>ok.
     if \<not> ok then Inr NaN else bind_fault (get_node h item) (\<lambda>n. Inr (n_valuedouble n)))"

definition cJSON_SetNumberHelper :: "addr option \<Rightarrow> double \<Rightarrow> json_heap \<Rightarrow> c_fault + (double \<times> json_heap)" where
  "cJSON_SetNumberHelper object number h =
     bind_fault (saturate_int number) (\<lambda>i.
     bind_fault (upd_node object (\<lambda>n. n\<lparr>n_valueint := i, n_valuedouble := number\<rparr>) h) (\<lambda>h1. Inr (number, h1)))"

text \<open>
  \<^verbatim>\<open>strcpy\<close> of a string and its terminator into a block; a copy onto itself is undefined, as is a write to a
  string of the caller.
\<close>

definition str_copy :: "strptr \<Rightarrow> strptr \<Rightarrow> json_heap \<Rightarrow> c_fault + json_heap" where
  "str_copy dst src h =
     (if dst = src then Inl OutOfBounds
      else (case dst of
              Const _ \<Rightarrow> Inl OutOfBounds
            | Heap a \<Rightarrow>
                bind_fault (read_str h dst) (\<lambda>old.
                bind_fault (get_str h (Some src)) (\<lambda>s.
                if length old < length s then Inl OutOfBounds
                else Inr (h\<lparr>strs := (strs h)(a \<mapsto> take (length old) (s @ 0 # drop (length s + 1) old))\<rparr>)))))"

definition cJSON_SetValuestring :: "(nat \<Rightarrow> bool) \<Rightarrow> addr option \<Rightarrow> strptr option \<Rightarrow> json_heap \<Rightarrow>
    c_fault + (strptr option \<times> json_heap)" where
  "cJSON_SetValuestring al object string h =
     bind_fault (get_node h object) (\<lambda>n.
     if n_type n AND cJSON_String = 0 \<or> is_reference n then Inr (None, h)
     else bind_fault (get_str h string) (\<lambda>s.
          bind_fault (get_str h (n_valuestring n)) (\<lambda>old.
          if length s \<le> length old
          then bind_fault (str_copy (the (n_valuestring n)) (the string) h) (\<lambda>h1. Inr (n_valuestring n, h1))
          else bind_fault (cJSON_strdup al string h) (\<lambda>(copy, h1).
               if copy = None then Inr (None, h1)
               else bind_fault (if n_valuestring n \<noteq> None then free_str (the (n_valuestring n)) h1 else Inr h1) (\<lambda>h2.
                    bind_fault (upd_node object (\<lambda>m. m\<lparr>n_valuestring := copy\<rparr>) h2) (\<lambda>h3. Inr (copy, h3)))))))"

section \<open>Access\<close>

text \<open>\<^verbatim>\<open>tolower\<close> of the C locale, and the comparison without regard to case of two strings without terminators.\<close>

definition tolower :: "u8 \<Rightarrow> u8" where
  "tolower c = (if 65 \<le> c \<and> c \<le> 90 then c + 32 else c)"

fun strcmp_loop :: "u8 list \<Rightarrow> u8 list \<Rightarrow> int" where
  "strcmp_loop [] [] = 0"
| "strcmp_loop [] (b # _) = - int (unat (tolower b))"
| "strcmp_loop (a # _) [] = int (unat (tolower a))"
| "strcmp_loop (a # as) (b # bs) =
     (if tolower a = tolower b then strcmp_loop as bs else int (unat (tolower a)) - int (unat (tolower b)))"

definition case_insensitive_strcmp :: "json_heap \<Rightarrow> strptr option \<Rightarrow> strptr option \<Rightarrow> c_fault + int" where
  "case_insensitive_strcmp h string1 string2 =
     (if string1 = None \<or> string2 = None then Inr 1
      else if string1 = string2 then Inr 0
      else bind_fault (get_str h string1) (\<lambda>s1. bind_fault (get_str h string2) (\<lambda>s2. Inr (strcmp_loop s1 s2))))"

partial_function (option) size_loop :: "json_heap \<Rightarrow> addr option \<Rightarrow> nat \<Rightarrow> (c_fault + nat) option" where
  "size_loop h c k =
     (if c = None then Some (Inr k)
      else bind_loop (Some (get_node h c)) (\<lambda>n. size_loop h (n_next n) (k + 1)))"

definition cJSON_GetArraySize :: "json_heap \<Rightarrow> addr option \<Rightarrow> c_fault + int" where
  "cJSON_GetArraySize h array =
     (if array = None then Inr 0
      else bind_fault (get_node h array) (\<lambda>n.
           bind_fault (run_loop (size_loop h (n_child n) 0)) (\<lambda>k. Inr (sint (of_nat k :: u32)))))"

fun item_loop :: "json_heap \<Rightarrow> addr option \<Rightarrow> nat \<Rightarrow> c_fault + addr option" where
  "item_loop h current_child 0 = Inr current_child"
| "item_loop h current_child (Suc index) =
     (if current_child = None then Inr None
      else bind_fault (get_node h current_child) (\<lambda>n. item_loop h (n_next n) index))"

definition get_array_item :: "json_heap \<Rightarrow> addr option \<Rightarrow> nat \<Rightarrow> c_fault + addr option" where
  "get_array_item h array index =
     (if array = None then Inr None else bind_fault (get_node h array) (\<lambda>n. item_loop h (n_child n) index))"

definition cJSON_GetArrayItem :: "json_heap \<Rightarrow> addr option \<Rightarrow> int \<Rightarrow> c_fault + addr option" where
  "cJSON_GetArrayItem h array index = (if index < 0 then Inr None else get_array_item h array (nat index))"

text \<open>Whether a search goes past an element.\<close>

definition goes_on :: "json_heap \<Rightarrow> strptr option \<Rightarrow> bool \<Rightarrow> node \<Rightarrow> c_fault + bool" where
  "goes_on h name case_sensitive n =
     (if case_sensitive
      then (if n_string n = None then Inr False
            else bind_fault (get_str h name) (\<lambda>s1. bind_fault (get_str h (n_string n)) (\<lambda>s2. Inr (s1 \<noteq> s2))))
      else bind_fault (case_insensitive_strcmp h name (n_string n)) (\<lambda>d. Inr (d \<noteq> 0)))"

partial_function (option) search_loop :: "json_heap \<Rightarrow> strptr option \<Rightarrow> bool \<Rightarrow> addr option \<Rightarrow> (c_fault + addr option) option" where
  "search_loop h name case_sensitive current_element =
     (if current_element = None then Some (Inr None)
      else bind_loop (Some (get_node h current_element)) (\<lambda>n.
           bind_loop (Some (goes_on h name case_sensitive n)) (\<lambda>go.
           if go then search_loop h name case_sensitive (n_next n)
           else Some (Inr (if n_string n = None then None else current_element)))))"

definition get_object_item :: "json_heap \<Rightarrow> addr option \<Rightarrow> strptr option \<Rightarrow> bool \<Rightarrow> c_fault + addr option" where
  "get_object_item h object name case_sensitive =
     (if object = None \<or> name = None then Inr None
      else bind_fault (get_node h object) (\<lambda>n. run_loop (search_loop h name case_sensitive (n_child n))))"

definition cJSON_GetObjectItem where
  "cJSON_GetObjectItem h object string = get_object_item h object string False"

definition cJSON_GetObjectItemCaseSensitive where
  "cJSON_GetObjectItemCaseSensitive h object string = get_object_item h object string True"

definition cJSON_HasObjectItem :: "json_heap \<Rightarrow> addr option \<Rightarrow> strptr option \<Rightarrow> c_fault + int" where
  "cJSON_HasObjectItem h object string =
     bind_fault (cJSON_GetObjectItem h object string) (\<lambda>p. Inr (if p \<noteq> None then 1 else 0))"

section \<open>Changing lists\<close>

definition set_next :: "addr option \<Rightarrow> addr option \<Rightarrow> json_heap \<Rightarrow> c_fault + json_heap" where
  "set_next p q = upd_node p (\<lambda>n. n\<lparr>n_next := q\<rparr>)"

definition set_prev :: "addr option \<Rightarrow> addr option \<Rightarrow> json_heap \<Rightarrow> c_fault + json_heap" where
  "set_prev p q = upd_node p (\<lambda>n. n\<lparr>n_prev := q\<rparr>)"

definition set_first :: "addr option \<Rightarrow> addr option \<Rightarrow> json_heap \<Rightarrow> c_fault + json_heap" where
  "set_first p q = upd_node p (\<lambda>n. n\<lparr>n_child := q\<rparr>)"

definition suffix_object :: "addr option \<Rightarrow> addr option \<Rightarrow> json_heap \<Rightarrow> c_fault + json_heap" where
  "suffix_object prev item h = bind_fault (set_next prev item h) (set_prev item prev)"

text \<open>The result of a function that returns true, with the heap it leaves.\<close>

definition succeed :: "c_fault + json_heap \<Rightarrow> c_fault + (bool \<times> json_heap)" where
  "succeed r = bind_fault r (\<lambda>h. Inr (True, h))"

definition add_item_to_array :: "addr option \<Rightarrow> addr option \<Rightarrow> json_heap \<Rightarrow> c_fault + (bool \<times> json_heap)" where
  "add_item_to_array array item h =
     (if item = None \<or> array = None \<or> array = item then Inr (False, h)
      else bind_fault (get_node h array) (\<lambda>n.
           if n_child n = None
           then succeed (bind_fault (set_first array item h) (\<lambda>h1.
                bind_fault (set_prev item item h1) (set_next item None)))
           else bind_fault (get_node h (n_child n)) (\<lambda>c.
                if n_prev c = None then Inr (True, h)
                else succeed (bind_fault (suffix_object (n_prev c) item h) (\<lambda>h1.
                     bind_fault (get_node h1 array) (\<lambda>n1. set_prev (n_child n1) item h1))))))"

definition cJSON_AddItemToArray where "cJSON_AddItemToArray = add_item_to_array"

definition add_item_to_object :: "(nat \<Rightarrow> bool) \<Rightarrow> addr option \<Rightarrow> strptr option \<Rightarrow> addr option \<Rightarrow> bool \<Rightarrow> json_heap \<Rightarrow>
    c_fault + (bool \<times> json_heap)" where
  "add_item_to_object al object string item constant_key h =
     (if object = None \<or> string = None \<or> item = None \<or> object = item then Inr (False, h)
      else bind_fault (get_node h item) (\<lambda>n.
           bind_fault (if constant_key then Inr (string, h) else cJSON_strdup al string h) (\<lambda>(new_key, h1).
           if \<not> constant_key \<and> new_key = None then Inr (False, h1)
           else (let new_type = (if constant_key then n_type n OR cJSON_StringIsConst
                                 else n_type n AND NOT cJSON_StringIsConst)
                 in bind_fault (free_name n h1) (\<lambda>h2.
                    bind_fault (upd_node item (\<lambda>m. m\<lparr>n_string := new_key, n_type := new_type\<rparr>) h2)
                               (add_item_to_array object item))))))"

definition cJSON_AddItemToObject where
  "cJSON_AddItemToObject al object string item = add_item_to_object al object string item False"

definition cJSON_AddItemToObjectCS where
  "cJSON_AddItemToObjectCS al object string item = add_item_to_object al object string item True"

definition create_reference :: "(nat \<Rightarrow> bool) \<Rightarrow> addr option \<Rightarrow> json_heap \<Rightarrow> c_fault + (addr option \<times> json_heap)" where
  "create_reference al item h =
     (if item = None then Inr (None, h)
      else (let (reference, h1) = new_item al h
            in if reference = None then Inr (None, h1)
               else bind_fault (get_node h1 item) (\<lambda>n.
                    bind_fault (upd_node reference (\<lambda>_. n\<lparr>n_string := None, n_type := n_type n OR cJSON_IsReference,
                                  n_next := None, n_prev := None\<rparr>) h1) (\<lambda>h2. Inr (reference, h2)))))"

definition cJSON_AddItemReferenceToArray :: "(nat \<Rightarrow> bool) \<Rightarrow> addr option \<Rightarrow> addr option \<Rightarrow> json_heap \<Rightarrow>
    c_fault + (bool \<times> json_heap)" where
  "cJSON_AddItemReferenceToArray al array item h =
     (if array = None then Inr (False, h)
      else bind_fault (create_reference al item h) (\<lambda>(reference, h1). add_item_to_array array reference h1))"

definition cJSON_AddItemReferenceToObject :: "(nat \<Rightarrow> bool) \<Rightarrow> addr option \<Rightarrow> strptr option \<Rightarrow> addr option \<Rightarrow> json_heap \<Rightarrow>
    c_fault + (bool \<times> json_heap)" where
  "cJSON_AddItemReferenceToObject al object string item h =
     (if object = None \<or> string = None then Inr (False, h)
      else bind_fault (create_reference al item h) (\<lambda>(reference, h1).
           add_item_to_object al object string reference False h1))"

definition cJSON_DetachItemViaPointer :: "addr option \<Rightarrow> addr option \<Rightarrow> json_heap \<Rightarrow> c_fault + (addr option \<times> json_heap)" where
  "cJSON_DetachItemViaPointer parent item h =
     (if parent = None \<or> item = None then Inr (None, h)
      else bind_fault (get_node h parent) (\<lambda>p.
           bind_fault (get_node h item) (\<lambda>n.
           bind_fault (if item \<noteq> n_child p then set_next (n_prev n) (n_next n) h else Inr h) (\<lambda>h1.
           bind_fault (get_node h1 item) (\<lambda>n1.
           bind_fault (if n_next n1 \<noteq> None then set_prev (n_next n1) (n_prev n1) h1 else Inr h1) (\<lambda>h2.
           bind_fault (get_node h2 parent) (\<lambda>p2.
           bind_fault (get_node h2 item) (\<lambda>n2.
           bind_fault (if item = n_child p2 then set_first parent (n_next n2) h2
                       else if n_next n2 = None then set_prev (n_child p2) (n_prev n2) h2 else Inr h2) (\<lambda>h3.
           bind_fault (set_prev item None h3) (\<lambda>h4.
           bind_fault (set_next item None h4) (\<lambda>h5. Inr (item, h5))))))))))))"

definition cJSON_DetachItemFromArray :: "addr option \<Rightarrow> int \<Rightarrow> json_heap \<Rightarrow> c_fault + (addr option \<times> json_heap)" where
  "cJSON_DetachItemFromArray array which h =
     (if which < 0 then Inr (None, h)
      else bind_fault (get_array_item h array (nat which)) (\<lambda>item. cJSON_DetachItemViaPointer array item h))"

definition detach_member :: "bool \<Rightarrow> addr option \<Rightarrow> strptr option \<Rightarrow> json_heap \<Rightarrow> c_fault + (addr option \<times> json_heap)" where
  "detach_member case_sensitive object string h =
     bind_fault (get_object_item h object string case_sensitive) (\<lambda>to_detach.
     cJSON_DetachItemViaPointer object to_detach h)"

definition cJSON_DetachItemFromObject where "cJSON_DetachItemFromObject = detach_member False"
definition cJSON_DetachItemFromObjectCaseSensitive where "cJSON_DetachItemFromObjectCaseSensitive = detach_member True"

definition cJSON_DeleteItemFromArray :: "addr option \<Rightarrow> int \<Rightarrow> json_heap \<Rightarrow> c_fault + json_heap" where
  "cJSON_DeleteItemFromArray array which h =
     bind_fault (cJSON_DetachItemFromArray array which h) (\<lambda>(item, h1). delete_item item h1)"

definition cJSON_DeleteItemFromObject :: "addr option \<Rightarrow> strptr option \<Rightarrow> json_heap \<Rightarrow> c_fault + json_heap" where
  "cJSON_DeleteItemFromObject object string h =
     bind_fault (cJSON_DetachItemFromObject object string h) (\<lambda>(item, h1). delete_item item h1)"

definition cJSON_DeleteItemFromObjectCaseSensitive :: "addr option \<Rightarrow> strptr option \<Rightarrow> json_heap \<Rightarrow> c_fault + json_heap" where
  "cJSON_DeleteItemFromObjectCaseSensitive object string h =
     bind_fault (cJSON_DetachItemFromObjectCaseSensitive object string h) (\<lambda>(item, h1). delete_item item h1)"

definition cJSON_InsertItemInArray :: "addr option \<Rightarrow> int \<Rightarrow> addr option \<Rightarrow> json_heap \<Rightarrow> c_fault + (bool \<times> json_heap)" where
  "cJSON_InsertItemInArray array which newitem h =
     (if which < 0 then Inr (False, h)
      else bind_fault (get_array_item h array (nat which)) (\<lambda>after_inserted.
           if after_inserted = None then add_item_to_array array newitem h
           else succeed (bind_fault (set_next newitem after_inserted h) (\<lambda>h1.
                bind_fault (get_node h1 after_inserted) (\<lambda>a.
                bind_fault (set_prev newitem (n_prev a) h1) (\<lambda>h2.
                bind_fault (set_prev after_inserted newitem h2) (\<lambda>h3.
                bind_fault (get_node h3 array) (\<lambda>p.
                if after_inserted = n_child p then set_first array newitem h3
                else bind_fault (get_node h3 newitem) (\<lambda>n. set_next (n_prev n) newitem h3)))))))))"

definition cJSON_ReplaceItemViaPointer :: "addr option \<Rightarrow> addr option \<Rightarrow> addr option \<Rightarrow> json_heap \<Rightarrow> c_fault + (bool \<times> json_heap)" where
  "cJSON_ReplaceItemViaPointer parent item replacement h =
     (if parent = None \<or> replacement = None \<or> item = None then Inr (False, h)
      else if replacement = item then Inr (True, h)
      else succeed (
           bind_fault (get_node h item) (\<lambda>n.
           bind_fault (upd_node replacement (\<lambda>r. r\<lparr>n_next := n_next n, n_prev := n_prev n\<rparr>) h) (\<lambda>h1.
           bind_fault (get_node h1 replacement) (\<lambda>r.
           bind_fault (if n_next r \<noteq> None then set_prev (n_next r) replacement h1 else Inr h1) (\<lambda>h2.
           bind_fault (get_node h2 parent) (\<lambda>p.
           bind_fault
             (if n_child p = item
              then bind_fault (get_node h2 (n_child p)) (\<lambda>c.
                   bind_fault (if n_prev c = n_child p then set_prev replacement replacement h2 else Inr h2)
                              (set_first parent replacement))
              else bind_fault (get_node h2 replacement) (\<lambda>r2.
                   bind_fault (if n_prev r2 \<noteq> None then set_next (n_prev r2) replacement h2 else Inr h2) (\<lambda>h3.
                   bind_fault (get_node h3 replacement) (\<lambda>r3.
                   if n_next r3 = None then bind_fault (get_node h3 parent) (\<lambda>p3. set_prev (n_child p3) replacement h3)
                   else Inr h3)))) (\<lambda>h4.
           bind_fault (set_next item None h4) (\<lambda>h5.
           bind_fault (set_prev item None h5) (delete_item item))))))))))"

definition cJSON_ReplaceItemInArray :: "addr option \<Rightarrow> int \<Rightarrow> addr option \<Rightarrow> json_heap \<Rightarrow> c_fault + (bool \<times> json_heap)" where
  "cJSON_ReplaceItemInArray array which newitem h =
     (if which < 0 then Inr (False, h)
      else bind_fault (get_array_item h array (nat which)) (\<lambda>item. cJSON_ReplaceItemViaPointer array item newitem h))"

definition replace_item_in_object :: "(nat \<Rightarrow> bool) \<Rightarrow> addr option \<Rightarrow> strptr option \<Rightarrow> addr option \<Rightarrow> bool \<Rightarrow> json_heap \<Rightarrow>
    c_fault + (bool \<times> json_heap)" where
  "replace_item_in_object al object string replacement case_sensitive h =
     (if replacement = None \<or> string = None then Inr (False, h)
      else bind_fault (get_node h replacement) (\<lambda>r.
           bind_fault (free_name r h) (\<lambda>h1.
           bind_fault (cJSON_strdup al string h1) (\<lambda>(copy, h2).
           bind_fault (upd_node replacement (\<lambda>m. m\<lparr>n_string := copy, n_type := n_type m AND NOT cJSON_StringIsConst\<rparr>) h2) (\<lambda>h3.
           bind_fault (get_object_item h3 object string case_sensitive) (\<lambda>item.
           cJSON_ReplaceItemViaPointer object item replacement h3))))))"

definition cJSON_ReplaceItemInObject where
  "cJSON_ReplaceItemInObject al object string newitem = replace_item_in_object al object string newitem False"

definition cJSON_ReplaceItemInObjectCaseSensitive where
  "cJSON_ReplaceItemInObjectCaseSensitive al object string newitem = replace_item_in_object al object string newitem True"

section \<open>Creation\<close>

text \<open>An item whose members are set by \<open>f\<close>, if there is memory for it.\<close>

definition create :: "(nat \<Rightarrow> bool) \<Rightarrow> (node \<Rightarrow> node) \<Rightarrow> json_heap \<Rightarrow> c_fault + (addr option \<times> json_heap)" where
  "create al f h =
     (let (item, h1) = new_item al h
      in if item = None then Inr (None, h1) else bind_fault (upd_node item f h1) (\<lambda>h2. Inr (item, h2)))"

definition set_kind :: "u32 \<Rightarrow> node \<Rightarrow> node" where "set_kind k n = n\<lparr>n_type := k\<rparr>"

definition cJSON_CreateNull where "cJSON_CreateNull al = create al (set_kind cJSON_NULL)"
definition cJSON_CreateTrue where "cJSON_CreateTrue al = create al (set_kind cJSON_True)"
definition cJSON_CreateFalse where "cJSON_CreateFalse al = create al (set_kind cJSON_False)"
definition cJSON_CreateBool where "cJSON_CreateBool al b = create al (set_kind (if b then cJSON_True else cJSON_False))"
definition cJSON_CreateArray where "cJSON_CreateArray al = create al (set_kind cJSON_Array)"
definition cJSON_CreateObject where "cJSON_CreateObject al = create al (set_kind cJSON_Object)"

definition cJSON_CreateNumber :: "(nat \<Rightarrow> bool) \<Rightarrow> double \<Rightarrow> json_heap \<Rightarrow> c_fault + (addr option \<times> json_heap)" where
  "cJSON_CreateNumber al num h =
     (let (item, h1) = new_item al h
      in if item = None then Inr (None, h1)
         else bind_fault (saturate_int num) (\<lambda>i.
              bind_fault (upd_node item (\<lambda>n. n\<lparr>n_type := cJSON_Number, n_valuedouble := num, n_valueint := i\<rparr>) h1) (\<lambda>h2.
              Inr (item, h2))))"

text \<open>\<^verbatim>\<open>cJSON_CreateString\<close> and \<^verbatim>\<open>cJSON_CreateRaw\<close>.\<close>

definition create_text :: "(nat \<Rightarrow> bool) \<Rightarrow> u32 \<Rightarrow> strptr option \<Rightarrow> json_heap \<Rightarrow> c_fault + (addr option \<times> json_heap)" where
  "create_text al k string h =
     (let (item, h1) = new_item al h
      in if item = None then Inr (None, h1)
         else bind_fault (cJSON_strdup al string h1) (\<lambda>(copy, h2).
              bind_fault (upd_node item (\<lambda>n. n\<lparr>n_type := k, n_valuestring := copy\<rparr>) h2) (\<lambda>h3.
              if copy = None then bind_fault (delete_item item h3) (\<lambda>h4. Inr (None, h4)) else Inr (item, h3))))"

definition cJSON_CreateString where "cJSON_CreateString al string = create_text al cJSON_String string"
definition cJSON_CreateRaw where "cJSON_CreateRaw al raw = create_text al cJSON_Raw raw"

definition cJSON_CreateStringReference :: "(nat \<Rightarrow> bool) \<Rightarrow> strptr option \<Rightarrow> json_heap \<Rightarrow> c_fault + (addr option \<times> json_heap)" where
  "cJSON_CreateStringReference al string =
     create al (\<lambda>n. n\<lparr>n_type := cJSON_String OR cJSON_IsReference, n_valuestring := string\<rparr>)"

definition cJSON_CreateObjectReference :: "(nat \<Rightarrow> bool) \<Rightarrow> addr option \<Rightarrow> json_heap \<Rightarrow> c_fault + (addr option \<times> json_heap)" where
  "cJSON_CreateObjectReference al c = create al (\<lambda>n. n\<lparr>n_type := cJSON_Object OR cJSON_IsReference, n_child := c\<rparr>)"

definition cJSON_CreateArrayReference :: "(nat \<Rightarrow> bool) \<Rightarrow> addr option \<Rightarrow> json_heap \<Rightarrow> c_fault + (addr option \<times> json_heap)" where
  "cJSON_CreateArrayReference al c = create al (\<lambda>n. n\<lparr>n_type := cJSON_Array OR cJSON_IsReference, n_child := c\<rparr>)"

text \<open>
  \<^verbatim>\<open>cJSON_AddNullToObject\<close> and the functions like it: the item made by \<open>creator\<close> is added under a copy of the
  name, or deleted.
\<close>

type_synonym creator = "json_heap \<Rightarrow> c_fault + (addr option \<times> json_heap)"

definition add_new_to_object :: "(nat \<Rightarrow> bool) \<Rightarrow> creator \<Rightarrow> addr option \<Rightarrow> strptr option \<Rightarrow> creator" where
  "add_new_to_object al creator object name h =
     bind_fault (creator h) (\<lambda>(item, h1).
     bind_fault (add_item_to_object al object name item False h1) (\<lambda>(ok, h2).
     if ok then Inr (item, h2) else bind_fault (delete_item item h2) (\<lambda>h3. Inr (None, h3))))"

definition cJSON_AddNullToObject where
  "cJSON_AddNullToObject al = add_new_to_object al (cJSON_CreateNull al)"
definition cJSON_AddTrueToObject where
  "cJSON_AddTrueToObject al = add_new_to_object al (cJSON_CreateTrue al)"
definition cJSON_AddFalseToObject where
  "cJSON_AddFalseToObject al = add_new_to_object al (cJSON_CreateFalse al)"
definition cJSON_AddBoolToObject where
  "cJSON_AddBoolToObject al object name b = add_new_to_object al (cJSON_CreateBool al b) object name"
definition cJSON_AddNumberToObject where
  "cJSON_AddNumberToObject al object name num = add_new_to_object al (cJSON_CreateNumber al num) object name"
definition cJSON_AddStringToObject where
  "cJSON_AddStringToObject al object name string = add_new_to_object al (cJSON_CreateString al string) object name"
definition cJSON_AddRawToObject where
  "cJSON_AddRawToObject al object name raw = add_new_to_object al (cJSON_CreateRaw al raw) object name"
definition cJSON_AddObjectToObject where
  "cJSON_AddObjectToObject al = add_new_to_object al (cJSON_CreateObject al)"
definition cJSON_AddArrayToObject where
  "cJSON_AddArrayToObject al = add_new_to_object al (cJSON_CreateArray al)"

text \<open>The loop that makes the elements of an array: whether it made them all, and the last element.\<close>

fun array_loop :: "addr \<Rightarrow> creator list \<Rightarrow> addr option \<Rightarrow> json_heap \<Rightarrow> c_fault + ((bool \<times> addr option) \<times> json_heap)" where
  "array_loop a [] p h = Inr ((True, p), h)"
| "array_loop a (creator # cs) p h =
     bind_fault (creator h) (\<lambda>(n, h1).
     if n = None then bind_fault (delete_item (Some a) h1) (\<lambda>h2. Inr ((False, None), h2))
     else bind_fault (if p = None then set_first (Some a) n h1 else suffix_object p n h1) (array_loop a cs n))"

definition create_array_of :: "(nat \<Rightarrow> bool) \<Rightarrow> creator list \<Rightarrow> creator" where
  "create_array_of al creators h =
     bind_fault (cJSON_CreateArray al h) (\<lambda>(a, h1).
     case a of
       None \<Rightarrow> Inr (None, h1)
     | Some arr \<Rightarrow>
         bind_fault (array_loop arr creators None h1) (\<lambda>((ok, n), h2).
         if \<not> ok then Inr (None, h2)
         else bind_fault (get_node h2 a) (\<lambda>m.
              if n_child m = None then Inr (a, h2)
              else bind_fault (set_prev (n_child m) n h2) (\<lambda>h3. Inr (a, h3)))))"

text \<open>The elements of an array of the caller; one behind its end is outside of it.\<close>

definition elements :: "('e \<Rightarrow> creator) \<Rightarrow> 'e list \<Rightarrow> int \<Rightarrow> creator list" where
  "elements f xs count = map (\<lambda>i. if i < length xs then f (xs ! i) else (\<lambda>h. Inl OutOfBounds)) [0..<nat count]"

definition create_from :: "(nat \<Rightarrow> bool) \<Rightarrow> ('e \<Rightarrow> creator) \<Rightarrow> 'e list option \<Rightarrow> int \<Rightarrow> creator" where
  "create_from al f xs count h =
     (if count < 0 \<or> xs = None then Inr (None, h) else create_array_of al (elements f (the xs) count) h)"

definition cJSON_CreateIntArray :: "(nat \<Rightarrow> bool) \<Rightarrow> int list option \<Rightarrow> int \<Rightarrow> creator" where
  "cJSON_CreateIntArray al = create_from al (\<lambda>i. cJSON_CreateNumber al (of_value (rat_of_int i)))"

text \<open>A value of type \<^verbatim>\<open>float\<close> is a double; the conversion keeps it.\<close>

definition cJSON_CreateFloatArray :: "(nat \<Rightarrow> bool) \<Rightarrow> double list option \<Rightarrow> int \<Rightarrow> creator" where
  "cJSON_CreateFloatArray al = create_from al (cJSON_CreateNumber al)"

definition cJSON_CreateDoubleArray :: "(nat \<Rightarrow> bool) \<Rightarrow> double list option \<Rightarrow> int \<Rightarrow> creator" where
  "cJSON_CreateDoubleArray al = create_from al (cJSON_CreateNumber al)"

definition cJSON_CreateStringArray :: "(nat \<Rightarrow> bool) \<Rightarrow> strptr option list option \<Rightarrow> int \<Rightarrow> creator" where
  "cJSON_CreateStringArray al = create_from al (cJSON_CreateString al)"

end
