(* ===== verification/CjsonTree.thy ===== *)
theory CjsonTree
  imports CjsonHeap
begin

text \<open>
  What the operations of \<open>CjsonHeap\<close> do to the trees in memory. A function \<open>kids\<close> gives the children of every
  item; \<open>tree_ok\<close> says that the links in memory are those of these lists, that no item is in two of them or
  below itself, and that every string block belongs to one member of one item. The operations then are
  list operations on \<open>kids\<close>.
\<close>

section \<open>Chains of siblings\<close>

definition first_or :: "addr list \<Rightarrow> addr option \<Rightarrow> addr option" where
  "first_or xs nx = (case xs of [] \<Rightarrow> nx | x # _ \<Rightarrow> Some x)"

lemma first_or_simps [simp]: "first_or [] nx = nx" "first_or (x # xs) nx = Some x"
  by (simp_all add: first_or_def)

lemma first_or_append [simp]: "first_or (xs @ ys) nx = first_or xs (first_or ys nx)"
  by (cases xs) simp_all

abbreviation first :: "addr list \<Rightarrow> addr option" where "first xs \<equiv> first_or xs None"

lemma first_None [simp]: "first xs = None \<longleftrightarrow> xs = []"
  by (cases xs) simp_all

lemma first_Some: "first xs = Some x \<Longrightarrow> x \<in> set xs"
  by (cases xs) simp_all

definition last_or :: "addr option \<Rightarrow> addr list \<Rightarrow> addr option" where
  "last_or pv xs = (if xs = [] then pv else Some (last xs))"

lemma last_or_simps [simp]: "last_or pv [] = pv" "last_or pv (x # xs) = last_or (Some x) xs" "last_or pv (xs @ ys) = last_or (last_or pv xs) ys"
  by (simp_all add: last_or_def)

definition links :: "(addr \<rightharpoonup> node) \<Rightarrow> addr \<Rightarrow> addr option \<Rightarrow> addr option \<Rightarrow> bool" where
  "links M x pv nx \<longleftrightarrow> (\<exists>n. M x = Some n \<and> n_prev n = pv \<and> n_next n = nx)"

lemma links_upd [simp]: "links (M(y \<mapsto> m)) x pv nx \<longleftrightarrow> (if x = y then n_prev m = pv \<and> n_next m = nx else links M x pv nx)"
  by (auto simp: links_def)

fun seg :: "(addr \<rightharpoonup> node) \<Rightarrow> addr option \<Rightarrow> addr list \<Rightarrow> addr option \<Rightarrow> bool" where
  "seg M pv [] nx \<longleftrightarrow> True"
| "seg M pv (x # xs) nx \<longleftrightarrow> links M x pv (first_or xs nx) \<and> seg M (Some x) xs nx"

lemma seg_append [simp]: "seg M pv (xs @ ys) nx \<longleftrightarrow> seg M pv xs (first_or ys nx) \<and> seg M (last_or pv xs) ys nx"
  by (induction xs arbitrary: pv) auto

lemma seg_cong:
  "(\<And>x. x \<in> set xs \<Longrightarrow> map_option (\<lambda>n. (n_prev n, n_next n)) (M x) = map_option (\<lambda>n. (n_prev n, n_next n)) (M' x)) \<Longrightarrow>
   seg M pv xs nx = seg M' pv xs nx"
proof (induction xs arbitrary: pv)
  case (Cons x xs)
  have "links M x pv q = links M' x pv q" for q
    using Cons.prems [of x] by (cases "M x"; cases "M' x") (auto simp: links_def)
  then show ?case using Cons by simp
qed simp

lemma seg_upd [simp]: "y \<notin> set xs \<Longrightarrow> seg (M(y \<mapsto> m)) pv xs nx = seg M pv xs nx"
  by (rule seg_cong) auto

lemma seg_dom: "seg M pv xs nx \<Longrightarrow> set xs \<subseteq> dom M"
  by (induction xs arbitrary: pv) (auto simp: links_def)

text \<open>The whole chain below a parent: the first item points back to the last one.\<close>

definition chained :: "(addr \<rightharpoonup> node) \<Rightarrow> addr list \<Rightarrow> bool" where
  "chained M xs \<longleftrightarrow> seg M (last_or None xs) xs None"

lemma chained_Nil [simp]: "chained M []"
  by (simp add: chained_def)

lemma chained_cong:
  "(\<And>x. x \<in> set xs \<Longrightarrow> map_option (\<lambda>n. (n_prev n, n_next n)) (M x) = map_option (\<lambda>n. (n_prev n, n_next n)) (M' x)) \<Longrightarrow>
   chained M xs = chained M' xs"
  unfolding chained_def by (rule seg_cong) auto

section \<open>Ownership of strings\<close>

text \<open>The string blocks an item owns, and that it owns no string of the caller.\<close>

definition own_value :: "node \<Rightarrow> strptr option" where
  "own_value n = (if is_reference n then None else n_valuestring n)"

definition own_name :: "node \<Rightarrow> strptr option" where
  "own_name n = (if string_is_const n then None else n_string n)"

fun block_of :: "strptr option \<Rightarrow> addr list" where
  "block_of (Some (Heap a)) = [a]"
| "block_of _ = []"

fun heap_str :: "strptr option \<Rightarrow> bool" where
  "heap_str (Some (Const s)) = False"
| "heap_str _ = True"

text \<open>A name that is a block of the allocator belongs to the item.\<close>

definition name_ok :: "node \<Rightarrow> bool" where
  "name_ok n \<longleftrightarrow> heap_str (own_name n) \<and> (string_is_const n \<longrightarrow> heap_str (n_string n) \<longrightarrow> n_string n = None)"

definition owned :: "node \<Rightarrow> addr list" where
  "owned n = block_of (own_value n) @ block_of (own_name n)"

definition strs_ok :: "json_heap \<Rightarrow> bool" where
  "strs_ok h \<longleftrightarrow>
     (\<forall>a n. nodes h a = Some n \<longrightarrow> heap_str (own_value n) \<and> name_ok n \<and> distinct (owned n)) \<and>
     (\<forall>a b n m. nodes h a = Some n \<and> nodes h b = Some m \<and> a \<noteq> b \<longrightarrow> set (owned n) \<inter> set (owned m) = {}) \<and>
     (\<forall>s. strs h s \<noteq> None \<longleftrightarrow> (\<exists>a n. nodes h a = Some n \<and> s \<in> set (owned n)))"

section \<open>Trees in memory\<close>

definition child_rel :: "(addr \<Rightarrow> addr list) \<Rightarrow> (addr \<times> addr) set" where
  "child_rel kids = {(c, a). c \<in> set (kids a)}"

definition is_root :: "(addr \<Rightarrow> addr list) \<Rightarrow> addr \<Rightarrow> bool" where
  "is_root kids a \<longleftrightarrow> (\<forall>b. a \<notin> set (kids b))"

definition node_ok :: "(addr \<Rightarrow> addr list) \<Rightarrow> addr \<Rightarrow> node \<Rightarrow> bool" where
  "node_ok kids a n \<longleftrightarrow>
     (if is_reference n then kids a = [] else n_child n = first (kids a)) \<and>
     (is_root kids a \<longrightarrow> n_next n = None \<and> n_prev n = None)"

definition links_ok :: "(addr \<rightharpoonup> node) \<Rightarrow> (addr \<Rightarrow> addr list) \<Rightarrow> bool" where
  "links_ok M kids \<longleftrightarrow>
     (\<forall>a n. M a = Some n \<longrightarrow> node_ok kids a n) \<and>
     (\<forall>a. M a = None \<longrightarrow> kids a = []) \<and>
     (\<forall>a. chained M (kids a) \<and> distinct (kids a)) \<and>
     (\<forall>a b. a \<noteq> b \<longrightarrow> set (kids a) \<inter> set (kids b) = {}) \<and>
     acyclic (child_rel kids)"

definition fresh_ok :: "json_heap \<Rightarrow> bool" where
  "fresh_ok h \<longleftrightarrow> (\<forall>a. brk h \<le> a \<longrightarrow> nodes h a = None \<and> strs h a = None)"

definition tree_ok :: "json_heap \<Rightarrow> (addr \<Rightarrow> addr list) \<Rightarrow> bool" where
  "tree_ok h kids \<longleftrightarrow> links_ok (nodes h) kids \<and> strs_ok h \<and> fresh_ok h"

text \<open>The members of an item that the list operations leave alone, and heaps with the same of them.\<close>

definition payload :: "node \<Rightarrow> node" where
  "payload n = n\<lparr>n_next := None, n_prev := None, n_child := None\<rparr>"

definition same_payload :: "json_heap \<Rightarrow> json_heap \<Rightarrow> bool" where
  "same_payload h h' \<longleftrightarrow> (\<forall>a. map_option payload (nodes h' a) = map_option payload (nodes h a)) \<and>
     strs h' = strs h \<and> brk h' = brk h \<and> calls h' = calls h"

lemma payload_simps [simp]:
  "payload (n\<lparr>n_next := p\<rparr>) = payload n" "payload (n\<lparr>n_prev := p\<rparr>) = payload n" "payload (n\<lparr>n_child := p\<rparr>) = payload n"
  by (simp_all add: payload_def)

lemma payload_fields:
  assumes "payload n = payload m"
  shows "n_type n = n_type m" "n_valuestring n = n_valuestring m" "n_string n = n_string m" "n_valueint n = n_valueint m"
    "n_valuedouble n = n_valuedouble m" "is_reference n = is_reference m" "string_is_const n = string_is_const m" "owned n = owned m"
    "own_value n = own_value m" "own_name n = own_name m"
proof -
  show f: "n_type n = n_type m" "n_valuestring n = n_valuestring m" "n_string n = n_string m" "n_valueint n = n_valueint m"
    "n_valuedouble n = n_valuedouble m"
    using assms by (cases n; cases m; simp add: payload_def)+
  show "is_reference n = is_reference m" "string_is_const n = string_is_const m" "owned n = owned m"
    "own_value n = own_value m" "own_name n = own_name m"
    using f by (simp_all add: is_reference_def string_is_const_def owned_def own_value_def own_name_def)
qed

lemma same_payload_refl [simp]: "same_payload h h"
  by (simp add: same_payload_def)

lemma same_payload_trans: "same_payload h h1 \<Longrightarrow> same_payload h1 h2 \<Longrightarrow> same_payload h h2"
  by (simp add: same_payload_def)

lemma same_payload_upd:
  "same_payload h h1 \<Longrightarrow> nodes h1 a = Some n \<Longrightarrow> payload m = payload n \<Longrightarrow> same_payload h (h1\<lparr>nodes := (nodes h1)(a \<mapsto> m)\<rparr>)"
  by (simp add: same_payload_def) (metis option.simps(9))

lemma same_payload_node:
  assumes "same_payload h h'" "nodes h' a = Some n'"
  obtains n where "nodes h a = Some n" "payload n' = payload n"
  using assms unfolding same_payload_def by (metis (no_types, lifting) map_option_eq_Some)

lemma same_payload_sym: "same_payload h h' \<Longrightarrow> same_payload h' h"
  by (simp add: same_payload_def)

lemma strs_ok_same:
  assumes "same_payload h h'" "strs_ok h"
  shows "strs_ok h'"
  unfolding strs_ok_def
proof (intro conjI allI impI)
  fix a n' assume "nodes h' a = Some n'"
  then obtain n where n: "nodes h a = Some n" "payload n' = payload n" by (rule same_payload_node [OF assms(1)])
  then show "heap_str (own_value n')" "name_ok n'" "distinct (owned n')"
    using assms(2) payload_fields [OF n(2)] by (simp_all add: strs_ok_def name_ok_def)
next
  fix a b n' m' assume *: "nodes h' a = Some n' \<and> nodes h' b = Some m' \<and> a \<noteq> b"
  obtain n where n: "nodes h a = Some n" "payload n' = payload n" using same_payload_node [OF assms(1)] * by metis
  obtain m where m: "nodes h b = Some m" "payload m' = payload m" using same_payload_node [OF assms(1)] * by metis
  show "set (owned n') \<inter> set (owned m') = {}"
    using assms(2) n(1) m(1) * payload_fields(8) [OF n(2)] payload_fields(8) [OF m(2)] unfolding strs_ok_def by metis
next
  fix s
  have "(\<exists>a n. nodes h' a = Some n \<and> s \<in> set (owned n)) \<longleftrightarrow> (\<exists>a n. nodes h a = Some n \<and> s \<in> set (owned n))"
    using same_payload_node [OF assms(1)] same_payload_node [OF same_payload_sym [OF assms(1)]] payload_fields(8) by metis
  moreover have "strs h' = strs h" using assms(1) by (simp add: same_payload_def)
  ultimately show "strs h' s \<noteq> None \<longleftrightarrow> (\<exists>a n. nodes h' a = Some n \<and> s \<in> set (owned n))"
    using assms(2) unfolding strs_ok_def by simp
qed

lemma same_payload_dom: "same_payload h h' \<Longrightarrow> nodes h' a = None \<longleftrightarrow> nodes h a = None"
  unfolding same_payload_def by (metis map_option_is_None)

lemma fresh_ok_same: "same_payload h h' \<Longrightarrow> fresh_ok h \<Longrightarrow> fresh_ok h'"
  unfolding fresh_ok_def using same_payload_dom [of h h'] by (simp add: same_payload_def)

lemma tree_ok_same:
  "same_payload h h' \<Longrightarrow> tree_ok h kids \<Longrightarrow> links_ok (nodes h') kids' \<Longrightarrow> tree_ok h' kids'"
  by (simp add: tree_ok_def strs_ok_same fresh_ok_same)

section \<open>Reading and writing links\<close>

lemma get_node_Some [simp]: "nodes h a = Some n \<Longrightarrow> get_node h (Some a) = Inr n"
  by (simp add: get_node_def)

lemma upd_node_Some: "nodes h a = Some n \<Longrightarrow> upd_node (Some a) f h = Inr (h\<lparr>nodes := (nodes h)(a \<mapsto> f n)\<rparr>)"
  by (simp add: upd_node_def)

lemma set_link [simp]:
  assumes "nodes h a = Some n"
  shows "set_next (Some a) p h = Inr (h\<lparr>nodes := (nodes h)(a \<mapsto> n\<lparr>n_next := p\<rparr>)\<rparr>)"
    "set_prev (Some a) p h = Inr (h\<lparr>nodes := (nodes h)(a \<mapsto> n\<lparr>n_prev := p\<rparr>)\<rparr>)"
    "set_first (Some a) p h = Inr (h\<lparr>nodes := (nodes h)(a \<mapsto> n\<lparr>n_child := p\<rparr>)\<rparr>)"
  using assms by (simp_all add: set_next_def set_prev_def set_first_def upd_node_Some)

lemma succeed_Inr [simp]: "succeed (Inr h) = Inr (True, h)"
  by (simp add: succeed_def)

lemma is_reference_upd [simp]:
  "is_reference (n\<lparr>n_next := p\<rparr>) = is_reference n" "is_reference (n\<lparr>n_prev := p\<rparr>) = is_reference n"
  "is_reference (n\<lparr>n_child := p\<rparr>) = is_reference n"
  by (simp_all add: is_reference_def)

text \<open>Facts about a tree that the operations use.\<close>

lemma tree_nodes:
  assumes "links_ok M kids" "c \<in> set (kids a)"
  obtains n m where "M c = Some n" "M a = Some m" "\<not> is_reference m" "a \<noteq> c"
proof -
  have "chained M (kids a)" using assms(1) by (simp add: links_ok_def)
  then obtain n where n: "M c = Some n" using seg_dom assms(2) unfolding chained_def by blast
  have "kids a \<noteq> []" using assms(2) by auto
  then obtain m where m: "M a = Some m" using assms(1) unfolding links_ok_def by (meson option.exhaust_sel)
  then have r: "\<not> is_reference m" using assms(1) \<open>kids a \<noteq> []\<close> by (auto simp: links_ok_def node_ok_def)
  have "a \<noteq> c"
  proof
    assume "a = c"
    then have "(a, a) \<in> child_rel kids" using assms(2) by (simp add: child_rel_def)
    then show False using assms(1) unfolding links_ok_def acyclic_def by blast
  qed
  then show ?thesis using that n m r by blast
qed

lemma node_kids:
  assumes "links_ok M kids" "M a = Some n"
  shows "is_reference n \<Longrightarrow> kids a = []" "\<not> is_reference n \<Longrightarrow> n_child n = first (kids a)"
    "is_root kids a \<Longrightarrow> n_next n = None \<and> n_prev n = None" "chained M (kids a)" "distinct (kids a)" "a \<notin> set (kids a)"
proof -
  have "node_ok kids a n" using assms by (simp add: links_ok_def)
  then show "is_reference n \<Longrightarrow> kids a = []" "\<not> is_reference n \<Longrightarrow> n_child n = first (kids a)"
    "is_root kids a \<Longrightarrow> n_next n = None \<and> n_prev n = None" by (simp_all add: node_ok_def split: if_splits)
  show "chained M (kids a)" "distinct (kids a)" using assms(1) by (simp_all add: links_ok_def)
  show "a \<notin> set (kids a)" using tree_nodes [OF assms(1), of a a] by metis
qed

text \<open>A change of one list: the links of all other lists are kept, and so are those of the items outside.\<close>

lemma links_ok_change:
  assumes "links_ok M kids" "M a = Some m" "\<not> is_reference m" "chained M' ks" "distinct ks"
    and "\<And>b. b \<noteq> a \<Longrightarrow> set ks \<inter> set (kids b) = {}"
    and "acyclic (child_rel (kids(a := ks)))"
    and "\<And>x. M' x = None \<longleftrightarrow> M x = None"
    and "\<And>x n n'. M x = Some n \<Longrightarrow> M' x = Some n' \<Longrightarrow> is_reference n' = is_reference n \<and> (x \<noteq> a \<longrightarrow> n_child n' = n_child n) \<and>
      (x \<notin> set ks \<and> x \<notin> set (kids a) \<longrightarrow> n_next n' = n_next n \<and> n_prev n' = n_prev n) \<and>
      (x \<in> set (kids a) \<and> x \<notin> set ks \<longrightarrow> n_next n' = None \<and> n_prev n' = None)"
    and "\<And>n'. M' a = Some n' \<Longrightarrow> n_child n' = first ks"
  shows "links_ok M' (kids(a := ks))"
  unfolding links_ok_def
proof (intro conjI allI impI)
  fix x n' assume x: "M' x = Some n'"
  then obtain n where n: "M x = Some n" using assms(8) by (metis option.exhaust_sel option.distinct(1))
  note ch = assms(9) [OF n x]
  have nk: "node_ok kids x n" using assms(1) n by (simp add: links_ok_def)
  have root: "is_root (kids(a := ks)) x \<longrightarrow> n_next n' = None \<and> n_prev n' = None"
  proof
    assume r: "is_root (kids(a := ks)) x"
    then have nin: "x \<notin> set ks" by (auto simp: is_root_def dest: spec [of _ a])
    show "n_next n' = None \<and> n_prev n' = None"
    proof (cases "x \<in> set (kids a)")
      case False
      then have "is_root kids x" using r unfolding is_root_def by (metis fun_upd_other)
      then show ?thesis using nk ch nin False by (simp add: node_ok_def)
    qed (use ch nin in blast)
  qed
  then show "node_ok (kids(a := ks)) x n'"
    using nk ch assms(2,3,10) x n by (auto simp: node_ok_def)
next
  fix x assume "M' x = None"
  then show "(kids(a := ks)) x = []" using assms(1,2,8) unfolding links_ok_def by auto
next
  fix x
  show "chained M' ((kids(a := ks)) x)"
  proof (cases "x = a")
    case False
    have "chained M' (kids x) = chained M (kids x)"
    proof (rule chained_cong)
      fix y assume y: "y \<in> set (kids x)"
      then obtain n where n: "M y = Some n" using tree_nodes [OF assms(1)] by metis
      then obtain n' where n': "M' y = Some n'" using assms(8) by (metis option.exhaust_sel option.distinct(1))
      have "y \<notin> set ks" using assms(6) [OF False] y by auto
      moreover have "y \<notin> set (kids a)" using assms(1) False y unfolding links_ok_def by blast
      ultimately show "map_option (\<lambda>n. (n_prev n, n_next n)) (M' y) = map_option (\<lambda>n. (n_prev n, n_next n)) (M y)"
        using assms(9) [OF n n'] n n' by simp
    qed
    then show ?thesis using assms(1) False by (simp add: links_ok_def)
  qed (use assms(4) in simp)
  show "distinct ((kids(a := ks)) x)" using assms(1,5) by (simp add: links_ok_def)
next
  fix x y :: addr assume "x \<noteq> y"
  then show "set ((kids(a := ks)) x) \<inter> set ((kids(a := ks)) y) = {}"
    using assms(1,6) unfolding links_ok_def by (auto split: if_splits)
next
  show "acyclic (child_rel (kids(a := ks)))" by (rule assms(7))
qed

section \<open>Order\<close>

definition below :: "(addr \<Rightarrow> addr list) \<Rightarrow> addr \<Rightarrow> addr \<Rightarrow> bool" where
  "below kids x y \<longleftrightarrow> (x, y) \<in> (child_rel kids)\<^sup>*"

lemma below_refl [simp]: "below kids x x"
  by (simp add: below_def)

lemma acyclic_shrink:
  assumes "acyclic (child_rel kids)" "\<And>x. set (kids' x) \<subseteq> set (kids x)"
  shows "acyclic (child_rel kids')"
  by (rule acyclic_subset [OF assms(1)]) (use assms(2) in \<open>auto simp: child_rel_def\<close>)

lemma acyclic_graft:
  assumes "acyclic (child_rel kids)" "\<not> below kids a i" "set ks \<subseteq> insert i (set (kids a))"
  shows "acyclic (child_rel (kids(a := ks)))"
proof (rule acyclic_subset)
  show "acyclic (insert (i, a) (child_rel kids))"
    using assms(1,2) by (simp add: acyclic_insert below_def)
  show "child_rel (kids(a := ks)) \<subseteq> insert (i, a) (child_rel kids)"
    using assms(3) by (auto simp: child_rel_def split: if_splits)
qed

lemma root_not_kid: "is_root kids i \<Longrightarrow> i \<notin> set (kids b)"
  by (simp add: is_root_def)

section \<open>Appending\<close>

lemma add_item_to_array_links:
  assumes "links_ok (nodes h) kids" "nodes h a = Some m" "\<not> is_reference m" "nodes h i = Some n" "is_root kids i" "\<not> below kids a i"
  shows "\<exists>h'. add_item_to_array (Some a) (Some i) h = Inr (True, h') \<and>
    links_ok (nodes h') (kids(a := kids a @ [i])) \<and> same_payload h h'"
proof -
  have ai: "a \<noteq> i" using assms(6) by auto
  note k = node_kids [OF assms(1,2)] and n = node_kids(3) [OF assms(1,4,5)]
  have nin: "i \<notin> set (kids b)" for b by (rule root_not_kid [OF assms(5)])
  have acy: "acyclic (child_rel (kids(a := kids a @ [i])))"
    using assms(1,6) by (intro acyclic_graft) (auto simp: links_ok_def)
  have dis: "set (kids a @ [i]) \<inter> set (kids b) = {}" if "b \<noteq> a" for b
    using assms(1) that nin by (auto simp: links_ok_def)
  note change = links_ok_change [OF assms(1-3) _ _ dis acy]
  show ?thesis
  proof (cases "kids a")
    case Nil
    let ?h = "h\<lparr>nodes := (nodes h)(a \<mapsto> m\<lparr>n_child := Some i\<rparr>, i \<mapsto> n\<lparr>n_prev := Some i, n_next := None\<rparr>)\<rparr>"
    have "add_item_to_array (Some a) (Some i) h = Inr (True, ?h)"
      using assms ai k(2) by (simp add: add_item_to_array_def Nil)
    moreover have "links_ok (nodes ?h) (kids(a := kids a @ [i]))"
      by (rule change) (use assms ai n in \<open>auto simp: Nil chained_def split: if_splits\<close>)
    moreover have "same_payload h ?h"
      using assms ai by (auto simp: same_payload_def)
    ultimately show ?thesis by blast
  next
    case (Cons c xs)
    obtain ys l where l: "kids a = ys @ [l]" using Cons by (metis rev_exhaust list.distinct(1))
    obtain cn where cn: "nodes h c = Some cn" "c \<noteq> a" using tree_nodes [OF assms(1), of c a] Cons by auto
    obtain ln where ln: "nodes h l = Some ln" "l \<noteq> a" using tree_nodes [OF assms(1), of l a] l by auto
    have mem: "c \<in> set (kids a)" "l \<in> set (kids a)" by (simp add: Cons, simp add: l)
    then have ci: "c \<noteq> i" "l \<noteq> i" using nin [of a] by auto
    have "last_or None (kids a) = Some l" by (simp add: l)
    then have "seg (nodes h) (Some l) (c # xs) None" using k(4) unfolding chained_def Cons by simp
    then have pc: "n_prev cn = Some l" using cn(1) by (simp add: links_def)
    have first: "first_or (kids a) (Some i) = Some c" "first (kids a) = Some c" by (simp_all add: Cons)
    let ?M = "(nodes h)(l \<mapsto> ln\<lparr>n_next := Some i\<rparr>, i \<mapsto> n\<lparr>n_prev := Some l\<rparr>)"
    let ?h = "h\<lparr>nodes := ?M(c \<mapsto> (the (?M c))\<lparr>n_prev := Some i\<rparr>)\<rparr>"
    have "add_item_to_array (Some a) (Some i) h = Inr (True, ?h)"
      using assms ai k(2) cn ln ci pc by (simp add: add_item_to_array_def Cons suffix_object_def)
    moreover have "links_ok (nodes ?h) (kids(a := kids a @ [i]))"
    proof (rule change)
      show "chained (nodes ?h) (kids a @ [i])"
      proof (cases ys)
        case Nil
        then have "kids a = [l]" "c = l" using l Cons by auto
        then show ?thesis using ci n by (simp add: chained_def)
      next
        case (Cons c' zs)
        then have s: "kids a = c # zs @ [l]" "c' = c" using l \<open>kids a = c # xs\<close> by auto
        have "seg (nodes h) (Some l) (c # zs @ [l]) None" using k(4) unfolding chained_def s by simp
        then show ?thesis using s ci n cn ln nin [of a] k(5) by (auto simp: chained_def links_def)
      qed
    qed (use assms ai n k(2,5) ci cn ln mem nin [of a] in \<open>auto simp: first split: if_splits\<close>)
    moreover have "same_payload h ?h"
      using assms ai cn ln ci by (auto simp: same_payload_def)
    ultimately show ?thesis by blast
  qed
qed

section \<open>Detaching\<close>

text \<open>The links of an item in the middle of its chain.\<close>

lemma kid_links:
  assumes "links_ok M kids" "kids a = xs @ c # ys"
  obtains n where "M c = Some n" "n_next n = first ys" "n_prev n = last_or (last_or (Some c) ys) xs"
proof -
  have "chained M (xs @ c # ys)" using assms by (metis links_ok_def)
  then have "links M c (last_or (last_or (last_or (Some c) ys) []) xs) (first ys)"
    by (cases xs rule: rev_cases) (auto simp: chained_def)
  then show ?thesis using that by (auto simp: links_def)
qed

lemma detach_links:
  assumes "links_ok (nodes h) kids" "kids a = xs @ c # ys"
  shows "\<exists>h'. cJSON_DetachItemViaPointer (Some a) (Some c) h = Inr (Some c, h') \<and>
    links_ok (nodes h') (kids(a := xs @ ys)) \<and> is_root (kids(a := xs @ ys)) c \<and> same_payload h h'"
proof -
  obtain m where m: "nodes h a = Some m" "\<not> is_reference m" "a \<noteq> c"
    using tree_nodes [OF assms(1), of c a] assms(2) by auto
  obtain n where n: "nodes h c = Some n" "n_next n = first ys" "n_prev n = last_or (last_or (Some c) ys) xs"
    by (rule kid_links [OF assms])
  note k = node_kids [OF assms(1) m(1)]
  have child: "n_child m = first (xs @ c # ys)" using k(2) m(2) assms(2) by simp
  have ch: "chained (nodes h) (xs @ c # ys)" "distinct (xs @ c # ys)" "a \<notin> set (xs @ c # ys)"
    using k(4-6) unfolding assms(2) by auto
  have acy: "acyclic (child_rel (kids(a := xs @ ys)))"
    by (rule acyclic_shrink [of kids]) (use assms in \<open>auto simp: links_ok_def\<close>)
  have dis: "set (xs @ ys) \<inter> set (kids b) = {}" if "b \<noteq> a" for b
    using assms that by (fastforce simp: links_ok_def)
  have root: "is_root (kids(a := xs @ ys)) c"
  proof -
    have "c \<notin> set (kids b)" if "b \<noteq> a" for b
    proof -
      have "set (kids a) \<inter> set (kids b) = {}" using assms(1) that by (simp add: links_ok_def)
      then show ?thesis unfolding assms(2) by auto
    qed
    then show ?thesis using ch(2) by (simp add: is_root_def)
  qed
  note change = links_ok_change [OF assms(1) m(1,2) _ _ dis acy]
  have node: "\<exists>q. nodes h x = Some q" if "x \<in> set (xs @ c # ys)" for x
    using tree_nodes [OF assms(1), of x a] that assms(2) by metis
  show ?thesis
  proof (cases xs rule: rev_cases)
    case Nil
    show ?thesis
    proof (cases ys)
      case Nil
      let ?h = "h\<lparr>nodes := (nodes h)(a \<mapsto> m\<lparr>n_child := None\<rparr>, c \<mapsto> n\<lparr>n_prev := None, n_next := None\<rparr>)\<rparr>"
      have "cJSON_DetachItemViaPointer (Some a) (Some c) h = Inr (Some c, ?h)"
        using m n child \<open>xs = []\<close> Nil by (simp add: cJSON_DetachItemViaPointer_def)
      moreover have "links_ok (nodes ?h) (kids(a := xs @ ys))"
        by (rule change) (use m n child \<open>xs = []\<close> Nil assms(2) in \<open>auto split: if_splits\<close>)
      moreover have "same_payload h ?h" using m n by (auto simp: same_payload_def)
      ultimately show ?thesis using root by blast
    next
      case (Cons d zs)
      obtain dn where d: "nodes h d = Some dn" "d \<noteq> a" "d \<noteq> c" using node [of d] ch(2,3) Cons by auto
      let ?h = "h\<lparr>nodes := (nodes h)(d \<mapsto> dn\<lparr>n_prev := n_prev n\<rparr>, a \<mapsto> m\<lparr>n_child := Some d\<rparr>, c \<mapsto> n\<lparr>n_prev := None, n_next := None\<rparr>)\<rparr>"
      have "cJSON_DetachItemViaPointer (Some a) (Some c) h = Inr (Some c, ?h)"
        using m n d child \<open>xs = []\<close> Cons by (simp add: cJSON_DetachItemViaPointer_def)
      moreover have "links_ok (nodes ?h) (kids(a := xs @ ys))"
      proof (rule change)
        show "chained (nodes ?h) (xs @ ys)"
          using ch \<open>xs = []\<close> Cons n d by (auto simp: chained_def links_def)
      qed (use m n d child ch \<open>xs = []\<close> Cons assms(2) in \<open>auto split: if_splits\<close>)
      moreover have "same_payload h ?h" using m n d by (auto simp: same_payload_def)
      ultimately show ?thesis using root by blast
    qed
  next
    case (snoc vs q)
    obtain qn where q: "nodes h q = Some qn" "q \<noteq> a" "q \<noteq> c" using node [of q] ch(2,3) snoc by auto
    obtain e es where e: "xs = e # es" using snoc by (cases vs) auto
    obtain en where en: "nodes h e = Some en" "e \<noteq> a" "e \<noteq> c" using node [of e] ch(2,3) e by auto
    have pn: "n_prev n = Some q" "n_child m = Some e" using n(3) snoc by simp (use child e in simp)
    have mem: "q \<in> set xs" "e \<in> set xs" "\<And>p. first_or xs p = Some e" using snoc by simp (use e in simp_all)
    show ?thesis
    proof (cases ys)
      case Nil
      let ?M = "(nodes h)(q \<mapsto> qn\<lparr>n_next := None\<rparr>)"
      let ?h = "h\<lparr>nodes := ?M(e \<mapsto> (the (?M e))\<lparr>n_prev := Some q\<rparr>, c \<mapsto> n\<lparr>n_prev := None, n_next := None\<rparr>)\<rparr>"
      have "cJSON_DetachItemViaPointer (Some a) (Some c) h = Inr (Some c, ?h)"
        using m n(1,2) q en pn Nil by (simp add: cJSON_DetachItemViaPointer_def)
      moreover have "links_ok (nodes ?h) (kids(a := xs @ ys))"
      proof (rule change)
        show "chained (nodes ?h) (xs @ ys)"
        proof (cases vs)
          case Nil
          then show ?thesis using ch snoc e \<open>ys = []\<close> q by (auto simp: chained_def)
        next
          case (Cons e' us)
          then have x: "xs = e # us @ [q]" using snoc e by simp
          have "seg (nodes h) (Some c) (e # us @ [q, c]) None" using ch(1) unfolding x \<open>ys = []\<close> chained_def by simp
          then show ?thesis using ch(2) q en unfolding x \<open>ys = []\<close> chained_def by (auto simp: links_def)
        qed
      qed (use m n(1,2) q en pn ch mem Nil assms(2) in \<open>auto split: if_splits\<close>)
      moreover have "same_payload h ?h" using m n q en by (auto simp: same_payload_def)
      ultimately show ?thesis using root by blast
    next
      case (Cons d zs)
      obtain dn where d: "nodes h d = Some dn" "d \<noteq> a" "d \<noteq> c" "d \<noteq> q" using node [of d] ch(2,3) Cons snoc by auto
      let ?h = "h\<lparr>nodes := (nodes h)(q \<mapsto> qn\<lparr>n_next := Some d\<rparr>, d \<mapsto> dn\<lparr>n_prev := Some q\<rparr>, c \<mapsto> n\<lparr>n_prev := None, n_next := None\<rparr>)\<rparr>"
      have ec: "Some e \<noteq> Some c" using en by simp
      have "cJSON_DetachItemViaPointer (Some a) (Some c) h = Inr (Some c, ?h)"
        using m n(1,2) q d pn Cons en by (simp add: cJSON_DetachItemViaPointer_def)
      moreover have "links_ok (nodes ?h) (kids(a := xs @ ys))"
      proof (rule change)
        show "chained (nodes ?h) (xs @ ys)"
          using ch snoc Cons q d by (auto simp: chained_def links_def)
      qed (use m n(1,2) q d pn ch mem Cons assms(2) in \<open>auto split: if_splits\<close>)
      moreover have "same_payload h ?h" using m n q d by (auto simp: same_payload_def)
      ultimately show ?thesis using root by blast
    qed
  qed
qed

section \<open>Inserting and replacing\<close>

lemma item_loop_seg:
  "seg (nodes h) pv ks None \<Longrightarrow> item_loop h (first ks) j = Inr (if j < length ks then Some (ks ! j) else None)"
proof (induction ks arbitrary: pv j)
  case Nil
  then show ?case by (cases j) simp_all
next
  case (Cons x ks)
  then show ?case by (cases j) (auto simp: links_def)
qed

lemma get_array_item_kids:
  assumes "links_ok (nodes h) kids" "nodes h a = Some m" "\<not> is_reference m"
  shows "get_array_item h (Some a) j = Inr (if j < length (kids a) then Some (kids a ! j) else None)"
  using node_kids(2,4) [OF assms(1,2)] assms item_loop_seg by (simp add: get_array_item_def chained_def)

text \<open>The conditions that a new item in a list keeps.\<close>

lemma graft_conditions:
  assumes "links_ok M kids" "kids a = xs @ c # ys" "is_root kids i" "\<not> below kids a i" "set zs \<subseteq> insert i (set (kids a))"
  shows "acyclic (child_rel (kids(a := zs)))" "b \<noteq> a \<Longrightarrow> set zs \<inter> set (kids b) = {}" "i \<notin> set (xs @ c # ys)" "a \<noteq> i"
proof -
  show "acyclic (child_rel (kids(a := zs)))" using assms by (intro acyclic_graft) (auto simp: links_ok_def)
  show "set zs \<inter> set (kids b) = {}" if "b \<noteq> a"
  proof -
    have "set (kids a) \<inter> set (kids b) = {}" using assms(1) that by (simp add: links_ok_def)
    then show ?thesis using assms(5) root_not_kid [OF assms(3), of b] by auto
  qed
  show "i \<notin> set (xs @ c # ys)" using root_not_kid [OF assms(3), of a] unfolding assms(2) .
  show "a \<noteq> i" using assms(4) by auto
qed

lemma insert_links:
  assumes "links_ok (nodes h) kids" "kids a = xs @ c # ys" "nodes h i = Some r" "is_root kids i" "\<not> below kids a i"
  shows "\<exists>h'. cJSON_InsertItemInArray (Some a) (int (length xs)) (Some i) h = Inr (True, h') \<and>
    links_ok (nodes h') (kids(a := xs @ i # c # ys)) \<and> same_payload h h'"
proof -
  obtain m where m: "nodes h a = Some m" "\<not> is_reference m" "a \<noteq> c"
    using tree_nodes [OF assms(1), of c a] assms(2) by auto
  obtain n where n: "nodes h c = Some n" "n_next n = first ys" "n_prev n = last_or (last_or (Some c) ys) xs"
    by (rule kid_links [OF assms(1,2)])
  note k = node_kids [OF assms(1) m(1)]
  have child: "n_child m = first (xs @ c # ys)" using k(2) m(2) assms(2) by simp
  have ch: "chained (nodes h) (xs @ c # ys)" "distinct (xs @ c # ys)" "a \<notin> set (xs @ c # ys)"
    using k(4-6) unfolding assms(2) by auto
  have sub: "set (xs @ i # c # ys) \<subseteq> insert i (set (kids a))" using assms(2) by auto
  note g = graft_conditions [OF assms(1,2,4,5) sub]
  note change = links_ok_change [OF assms(1) m(1,2) _ _ g(2) g(1)]
  have at: "get_array_item h (Some a) (length xs) = Inr (Some c)"
    using get_array_item_kids [OF assms(1) m(1,2)] assms(2) by simp
  have ri: "c \<noteq> i" "a \<noteq> i" using g(3,4) by auto
  show ?thesis
  proof (cases xs rule: rev_cases)
    case Nil
    let ?h = "h\<lparr>nodes := (nodes h)(i \<mapsto> r\<lparr>n_next := Some c, n_prev := n_prev n\<rparr>, c \<mapsto> n\<lparr>n_prev := Some i\<rparr>, a \<mapsto> m\<lparr>n_child := Some i\<rparr>)\<rparr>"
    have "cJSON_InsertItemInArray (Some a) (int (length xs)) (Some i) h = Inr (True, ?h)"
      using m n(1) child assms(3) ri at Nil by (simp add: cJSON_InsertItemInArray_def)
    moreover have "links_ok (nodes ?h) (kids(a := xs @ i # c # ys))"
    proof (rule change)
      show "chained (nodes ?h) (xs @ i # c # ys)"
        using ch g(3) Nil n ri m(3) by (auto simp: chained_def links_def)
    qed (use m n child ch ri g(3) Nil assms in \<open>auto split: if_splits\<close>)
    moreover have "same_payload h ?h" using m n assms ri by (auto simp: same_payload_def)
    ultimately show ?thesis by blast
  next
    case (snoc vs q)
    obtain qn where q: "nodes h q = Some qn" "q \<noteq> a" "q \<noteq> c" "q \<noteq> i"
      using tree_nodes [OF assms(1), of q a] ch(2,3) snoc assms(2) g(3) by auto
    obtain e es where e: "xs = e # es" using snoc by (cases vs) auto
    have ec: "e \<noteq> c" using ch(2) unfolding e by auto
    have pn: "n_prev n = Some q" "n_child m = Some e" using n(3) snoc by simp (use child e in simp)
    let ?h = "h\<lparr>nodes := (nodes h)(i \<mapsto> r\<lparr>n_next := Some c, n_prev := Some q\<rparr>, c \<mapsto> n\<lparr>n_prev := Some i\<rparr>, q \<mapsto> qn\<lparr>n_next := Some i\<rparr>)\<rparr>"
    have "cJSON_InsertItemInArray (Some a) (int (length xs)) (Some i) h = Inr (True, ?h)"
      using m n(1,2) pn assms(3) ri q at ec by (simp add: cJSON_InsertItemInArray_def)
    moreover have "links_ok (nodes ?h) (kids(a := xs @ i # c # ys))"
    proof (rule change)
      show "chained (nodes ?h) (xs @ i # c # ys)"
        using ch g(3) n(1,2) ri q snoc by (auto simp: chained_def links_def)
    next
      show "n_child n' = first (xs @ i # c # ys)" if "nodes ?h a = Some n'" for n'
        using that m(1,3) ri q pn(2) e by (simp split: if_splits)
    qed (use m n(1,2) ch ri q g(3) snoc assms in \<open>auto split: if_splits\<close>)
    moreover have "same_payload h ?h" using m n assms ri q by (auto simp: same_payload_def)
    ultimately show ?thesis by blast
  qed
qed

lemma replace_links:
  assumes "links_ok (nodes h) kids" "kids a = xs @ c # ys" "nodes h i = Some r" "is_root kids i" "\<not> below kids a i"
  shows "\<exists>h'. cJSON_ReplaceItemViaPointer (Some a) (Some c) (Some i) h = succeed (delete_item (Some c) h') \<and>
    links_ok (nodes h') (kids(a := xs @ i # ys)) \<and> is_root (kids(a := xs @ i # ys)) c \<and> same_payload h h'"
proof -
  obtain m where m: "nodes h a = Some m" "\<not> is_reference m" "a \<noteq> c"
    using tree_nodes [OF assms(1), of c a] assms(2) by auto
  obtain n where n: "nodes h c = Some n" "n_next n = first ys" "n_prev n = last_or (last_or (Some c) ys) xs"
    by (rule kid_links [OF assms(1,2)])
  note k = node_kids [OF assms(1) m(1)]
  have child: "n_child m = first (xs @ c # ys)" using k(2) m(2) assms(2) by simp
  have ch: "chained (nodes h) (xs @ c # ys)" "distinct (xs @ c # ys)" "a \<notin> set (xs @ c # ys)"
    using k(4-6) unfolding assms(2) by auto
  have sub: "set (xs @ i # ys) \<subseteq> insert i (set (kids a))" using assms(2) by auto
  note g = graft_conditions [OF assms(1,2,4,5) sub]
  note change = links_ok_change [OF assms(1) m(1,2) _ _ g(2) g(1)]
  have ri: "c \<noteq> i" "a \<noteq> i" using g(3,4) by auto
  have root: "is_root (kids(a := xs @ i # ys)) c"
  proof -
    have "c \<notin> set (kids b)" if "b \<noteq> a" for b
    proof -
      have "set (kids a) \<inter> set (kids b) = {}" using assms(1) that by (simp add: links_ok_def)
      then show ?thesis unfolding assms(2) by auto
    qed
    then show ?thesis using ch(2) ri by (simp add: is_root_def)
  qed
  have node: "\<exists>q. nodes h x = Some q" if "x \<in> set (xs @ c # ys)" for x
    using tree_nodes [OF assms(1), of x a] that assms(2) by metis
  let ?off = "n\<lparr>n_next := None, n_prev := None\<rparr>"
  have finish: ?thesis if "cJSON_ReplaceItemViaPointer (Some a) (Some c) (Some i) h = succeed (delete_item (Some c) h')"
    "links_ok (nodes h') (kids(a := xs @ i # ys))" "same_payload h h'" for h'
    using that root by blast
  show ?thesis
  proof (cases xs rule: rev_cases)
    case Nil
    show ?thesis
    proof (cases ys)
      case Nil
      let ?h = "h\<lparr>nodes := (nodes h)(i \<mapsto> r\<lparr>n_next := None, n_prev := Some i\<rparr>, a \<mapsto> m\<lparr>n_child := Some i\<rparr>, c \<mapsto> ?off)\<rparr>"
      show ?thesis
      proof (rule finish)
        show "cJSON_ReplaceItemViaPointer (Some a) (Some c) (Some i) h = succeed (delete_item (Some c) ?h)"
          using m n child assms(3) ri \<open>xs = []\<close> Nil by (simp add: cJSON_ReplaceItemViaPointer_def upd_node_Some)
        show "links_ok (nodes ?h) (kids(a := xs @ i # ys))"
          by (rule change) (use m n child ri assms \<open>xs = []\<close> Nil in \<open>auto simp: chained_def split: if_splits\<close>)
        show "same_payload h ?h" using m n assms ri by (auto simp: same_payload_def)
      qed
    next
      case (Cons d zs)
      obtain dn where d: "nodes h d = Some dn" "d \<noteq> a" "d \<noteq> c" "d \<noteq> i" using node [of d] ch(2,3) Cons g(3) by auto
      have cl: "n_prev n \<noteq> Some c" using n(3) ch(2) \<open>xs = []\<close> Cons by (auto simp: last_or_def split: if_splits)
      let ?h = "h\<lparr>nodes := (nodes h)(i \<mapsto> r\<lparr>n_next := Some d, n_prev := n_prev n\<rparr>, d \<mapsto> dn\<lparr>n_prev := Some i\<rparr>, a \<mapsto> m\<lparr>n_child := Some i\<rparr>, c \<mapsto> ?off)\<rparr>"
      show ?thesis
      proof (rule finish)
        show "cJSON_ReplaceItemViaPointer (Some a) (Some c) (Some i) h = succeed (delete_item (Some c) ?h)"
          using m n(1,2) cl child assms(3) ri d \<open>xs = []\<close> Cons by (simp add: cJSON_ReplaceItemViaPointer_def upd_node_Some)
        show "links_ok (nodes ?h) (kids(a := xs @ i # ys))"
        proof (rule change)
          show "chained (nodes ?h) (xs @ i # ys)"
            using ch g(3) n ri d m(3) \<open>xs = []\<close> Cons by (auto simp: chained_def links_def)
        qed (use m n ch child ri d g(3) assms \<open>xs = []\<close> Cons in \<open>auto split: if_splits\<close>)
        show "same_payload h ?h" using m n assms ri d by (auto simp: same_payload_def)
      qed
    qed
  next
    case (snoc vs q)
    obtain qn where q: "nodes h q = Some qn" "q \<noteq> a" "q \<noteq> c" "q \<noteq> i" using node [of q] ch(2,3) snoc g(3) by auto
    obtain e es where e: "xs = e # es" using snoc by (cases vs) auto
    obtain en where en: "nodes h e = Some en" "e \<noteq> a" "e \<noteq> c" "e \<noteq> i" using node [of e] ch(2,3) e g(3) by auto
    have pn: "n_prev n = Some q" "n_child m = Some e" using n(3) snoc by simp (use child e in simp)
    have mem: "q \<in> set xs" "e \<in> set xs" "\<And>p. first_or xs p = Some e" using snoc by simp (use e in simp_all)
    show ?thesis
    proof (cases ys)
      case Nil
      let ?M = "(nodes h)(i \<mapsto> r\<lparr>n_next := None, n_prev := Some q\<rparr>, q \<mapsto> qn\<lparr>n_next := Some i\<rparr>)"
      let ?h = "h\<lparr>nodes := ?M(e \<mapsto> (the (?M e))\<lparr>n_prev := Some i\<rparr>, c \<mapsto> ?off)\<rparr>"
      show ?thesis
      proof (rule finish)
        show "cJSON_ReplaceItemViaPointer (Some a) (Some c) (Some i) h = succeed (delete_item (Some c) ?h)"
          using m n(1,2) pn assms(3) ri q en Nil by (simp add: cJSON_ReplaceItemViaPointer_def upd_node_Some)
        show "links_ok (nodes ?h) (kids(a := xs @ i # ys))"
        proof (rule change)
          show "chained (nodes ?h) (xs @ i # ys)"
          proof (cases vs)
            case Nil
            then show ?thesis using ch snoc e \<open>ys = []\<close> q ri by (auto simp: chained_def)
          next
            case (Cons e' us)
            then have x: "xs = e # us @ [q]" using snoc e by simp
            have "seg (nodes h) (Some c) (e # us @ [q, c]) None" using ch(1) unfolding x \<open>ys = []\<close> chained_def by simp
            then show ?thesis using ch(2) g(3) q en ri unfolding x \<open>ys = []\<close> chained_def by (auto simp: links_def)
          qed
        qed (use m n(1,2) q en pn ch mem ri g(3) Nil assms in \<open>auto split: if_splits\<close>)
        show "same_payload h ?h" using m n assms ri q en by (auto simp: same_payload_def)
      qed
    next
      case (Cons d zs)
      obtain dn where d: "nodes h d = Some dn" "d \<noteq> a" "d \<noteq> c" "d \<noteq> q" "d \<noteq> i" using node [of d] ch(2,3) Cons snoc g(3) by auto
      let ?h = "h\<lparr>nodes := (nodes h)(i \<mapsto> r\<lparr>n_next := Some d, n_prev := Some q\<rparr>, d \<mapsto> dn\<lparr>n_prev := Some i\<rparr>, q \<mapsto> qn\<lparr>n_next := Some i\<rparr>, c \<mapsto> ?off)\<rparr>"
      show ?thesis
      proof (rule finish)
        show "cJSON_ReplaceItemViaPointer (Some a) (Some c) (Some i) h = succeed (delete_item (Some c) ?h)"
          using m n(1,2) pn assms(3) ri q d en Cons by (simp add: cJSON_ReplaceItemViaPointer_def upd_node_Some)
        show "links_ok (nodes ?h) (kids(a := xs @ i # ys))"
        proof (rule change)
          show "chained (nodes ?h) (xs @ i # ys)"
            using ch g(3) ri snoc Cons q d by (auto simp: chained_def links_def)
        qed (use m n(1,2) q d pn ch mem ri g(3) Cons assms in \<open>auto split: if_splits\<close>)
        show "same_payload h ?h" using m n assms ri q d by (auto simp: same_payload_def)
      qed
    qed
  qed
qed

section \<open>The tree below an item\<close>

datatype ptree = PT (pt_root: addr) (pt_kids: "ptree list")

fun pt_addrs :: "ptree \<Rightarrow> addr list" where
  "pt_addrs (PT a ts) = a # concat (map pt_addrs ts)"

fun grown :: "(addr \<Rightarrow> addr list) \<Rightarrow> ptree \<Rightarrow> bool" where
  "grown kids (PT a ts) \<longleftrightarrow> kids a = map pt_root ts \<and> (\<forall>t \<in> set ts. grown kids t)"

lemma below_cases: "below kids x a \<longleftrightarrow> x = a \<or> (\<exists>c \<in> set (kids a). below kids x c)"
proof -
  have "(x, a) \<in> (child_rel kids)\<^sup>* \<longleftrightarrow> x = a \<or> (\<exists>c. (x, c) \<in> (child_rel kids)\<^sup>* \<and> (c, a) \<in> child_rel kids)"
    by (auto elim: rtranclE intro: rtrancl_into_rtrancl)
  then show ?thesis by (auto simp: below_def child_rel_def)
qed

lemma grown_addrs: "grown kids t \<Longrightarrow> set (pt_addrs t) = {x. below kids x (pt_root t)}"
proof (induction t)
  case (PT a ts)
  have k: "set (kids a) = pt_root ` set ts" using PT.prems by simp
  have "{x. below kids x a} = insert a {x. \<exists>c \<in> pt_root ` set ts. below kids x c}"
  proof (rule set_eqI)
    fix x
    show "x \<in> {x. below kids x a} \<longleftrightarrow> x \<in> insert a {x. \<exists>c \<in> pt_root ` set ts. below kids x c}"
      using below_cases [of kids x a] unfolding k by simp
  qed
  moreover have "set (pt_addrs t) = {x. below kids x (pt_root t)}" if "t \<in> set ts" for t
    using PT that by simp
  ultimately show ?case by auto
qed

lemma grown_exists:
  assumes "wf (child_rel kids)"
  shows "\<exists>t. pt_root t = a \<and> grown kids t"
  using assms
proof (induction a rule: wf_induct_rule)
  case (less a)
  have "\<forall>c \<in> set (kids a). \<exists>t. pt_root t = c \<and> grown kids t" using less by (simp add: child_rel_def)
  then obtain f where f: "\<forall>c \<in> set (kids a). pt_root (f c) = c \<and> grown kids (f c)" by metis
  then have "map pt_root (map f (kids a)) = kids a" by (simp add: map_idI)
  then show ?case using f by (intro exI [of _ "PT a (map f (kids a))"]) simp
qed

definition kids_ok :: "(addr \<Rightarrow> addr list) \<Rightarrow> bool" where
  "kids_ok kids \<longleftrightarrow> acyclic (child_rel kids) \<and> (\<forall>a. distinct (kids a)) \<and> (\<forall>a b. a \<noteq> b \<longrightarrow> set (kids a) \<inter> set (kids b) = {})"

lemma below_trans: "below kids x y \<Longrightarrow> below kids y z \<Longrightarrow> below kids x z"
  by (simp add: below_def)

lemma below_antisym:
  assumes "kids_ok kids" "below kids x y" "below kids y x"
  shows "x = y"
  using assms acyclic_impl_antisym_rtrancl [of "child_rel kids"] unfolding kids_ok_def below_def antisym_def by blast

lemma below_siblings:
  assumes "kids_ok kids" "c \<in> set (kids a)" "d \<in> set (kids a)" "c \<noteq> d" "below kids x c"
  shows "\<not> below kids x d"
proof
  assume d: "below kids x d"
  have sv: "single_valued (child_rel kids)"
    using assms(1) unfolding kids_ok_def single_valued_def child_rel_def by blast
  have up: "y = a" if "(c', y) \<in> child_rel kids" "c' \<in> set (kids a)" for c' y
    using that sv by (auto simp: child_rel_def single_valued_def)
  have no: False if e: "c' \<in> set (kids a)" "d' \<in> set (kids a)" "c' \<noteq> d'" "below kids c' d'" for c' d'
  proof -
    obtain y where "(c', y) \<in> child_rel kids" "(y, d') \<in> (child_rel kids)\<^sup>*"
      using e(3,4) by (metis below_def converse_rtranclE)
    then have "below kids a d'" using up e(1) by (auto simp: below_def)
    moreover have "below kids d' a" using e(2) by (auto simp: below_def child_rel_def)
    ultimately have "a = d'" by (rule below_antisym [OF assms(1)])
    then have "(a, a) \<in> child_rel kids" using e(2) by (simp add: child_rel_def)
    then show False using assms(1) unfolding kids_ok_def acyclic_def by blast
  qed
  have "below kids c d \<or> below kids d c"
    using single_valued_confluent [OF sv] assms(5) d unfolding below_def by blast
  then show False using no assms(2-4) by blast
qed

lemma distinct_concat_pairwise:
  assumes "\<And>t. t \<in> set ts \<Longrightarrow> distinct (f t)" "distinct ts"
    and "\<And>t u. t \<in> set ts \<Longrightarrow> u \<in> set ts \<Longrightarrow> t \<noteq> u \<Longrightarrow> set (f t) \<inter> set (f u) = {}"
  shows "distinct (concat (map f ts))"
  using assms by (induction ts) (simp, fastforce)

lemma grown_distinct: "kids_ok kids \<Longrightarrow> grown kids t \<Longrightarrow> distinct (pt_addrs t)"
proof (induction t)
  case (PT a ts)
  have k: "distinct (map pt_root ts)" "set (kids a) = pt_root ` set ts" using PT.prems by (auto simp: kids_ok_def dest: spec [of _ a])
  have sub: "set (pt_addrs t) = {x. below kids x (pt_root t)}" if "t \<in> set ts" for t
    using grown_addrs PT.prems(2) that by simp
  have "distinct (concat (map pt_addrs ts))"
  proof (rule distinct_concat_pairwise)
    show "distinct ts" using k(1) by (simp add: distinct_map)
    show "distinct (pt_addrs t)" if "t \<in> set ts" for t using PT that by simp
    show "set (pt_addrs t) \<inter> set (pt_addrs u) = {}" if tu: "t \<in> set ts" "u \<in> set ts" "t \<noteq> u" for t u
    proof -
      have "pt_root t \<noteq> pt_root u" using k(1) tu by (meson distinct_map inj_onD)
      then show ?thesis using below_siblings [OF PT.prems(1), of "pt_root t" a "pt_root u"] tu k(2) sub by auto
    qed
  qed
  moreover have "a \<notin> set (pt_addrs t)" if t: "t \<in> set ts" for t
  proof
    assume "a \<in> set (pt_addrs t)"
    then have "below kids a (pt_root t)" using sub t by simp
    moreover have c: "pt_root t \<in> set (kids a)" using t k(2) by simp
    then have "below kids (pt_root t) a" by (auto simp: below_def child_rel_def)
    ultimately have "a = pt_root t" by (rule below_antisym [OF PT.prems(1)])
    then have "(a, a) \<in> child_rel kids" using c by (simp add: child_rel_def)
    then show False using PT.prems(1) unfolding kids_ok_def acyclic_def by blast
  qed
  ultimately show ?case by auto
qed

section \<open>Deleting\<close>

text \<open>The heap without a set of items and what they own.\<close>

definition blocks_in :: "json_heap \<Rightarrow> addr set \<Rightarrow> addr set" where
  "blocks_in h A = (\<Union>x \<in> A. set (owned (the (nodes h x))))"

definition prune :: "json_heap \<Rightarrow> addr set \<Rightarrow> json_heap" where
  "prune h A = h\<lparr>nodes := nodes h |` (- A), strs := strs h |` (- blocks_in h A)\<rparr>"

lemma prune_simps [simp]:
  "nodes (prune h A) = nodes h |` (- A)" "strs (prune h A) = strs h |` (- blocks_in h A)" "brk (prune h A) = brk h"
  "calls (prune h A) = calls h"
  by (simp_all add: prune_def)

lemma restrict_UNIV [simp]: "m |` UNIV = m"
  by (rule ext) (simp add: restrict_map_def)

lemma prune_empty [simp]: "prune h {} = h"
  by (simp add: prune_def blocks_in_def)

lemma prune_prune:
  assumes "A \<inter> B = {}"
  shows "prune (prune h A) B = prune h (A \<union> B)"
proof -
  have b: "blocks_in (prune h A) B = blocks_in h B"
    unfolding blocks_in_def by (rule SUP_cong) (use assms in \<open>auto simp: restrict_map_def disjoint_iff\<close>)
  have "blocks_in h (A \<union> B) = blocks_in h A \<union> blocks_in h B" by (auto simp: blocks_in_def)
  then show ?thesis by (simp add: prune_def b [unfolded prune_def])
qed

text \<open>
  What deletion relies on for a set of items: the links of their children lead through the lists, and their
  strings are allocated and shared by no two members.
\<close>

definition deletable :: "json_heap \<Rightarrow> (addr \<Rightarrow> addr list) \<Rightarrow> addr set \<Rightarrow> bool" where
  "deletable h kids A \<longleftrightarrow>
     (\<forall>x \<in> A. \<exists>n pv. nodes h x = Some n \<and> (if is_reference n then kids x = [] else n_child n = first (kids x)) \<and>
        seg (nodes h) pv (kids x) None \<and> heap_str (own_value n) \<and> heap_str (own_name n) \<and> distinct (owned n) \<and>
        set (owned n) \<subseteq> dom (strs h)) \<and>
     (\<forall>x \<in> A. \<forall>y \<in> A. x \<noteq> y \<longrightarrow> set (owned (the (nodes h x))) \<inter> set (owned (the (nodes h y))) = {})"

lemma free_str_Heap: "strs h s \<noteq> None \<Longrightarrow> free_str (Heap s) h = Inr (h\<lparr>strs := (strs h)(s := None)\<rparr>)"
  by (auto simp: free_str_def)

text \<open>Freeing the strings of an item.\<close>

lemma free_value_ok:
  assumes "heap_str (own_value n)" "set (block_of (own_value n)) \<subseteq> dom (strs h)"
  shows "free_value n h = Inr (h\<lparr>strs := strs h |` (- set (block_of (own_value n)))\<rparr>)"
  using assms by (cases "own_value n" rule: block_of.cases)
    (auto simp: free_value_def own_value_def free_str_Heap restrict_complement_singleton_eq split: if_splits)

lemma free_name_ok:
  assumes "heap_str (own_name n)" "set (block_of (own_name n)) \<subseteq> dom (strs h)"
  shows "free_name n h = Inr (h\<lparr>strs := strs h |` (- set (block_of (own_name n)))\<rparr>)"
  using assms by (cases "own_name n" rule: block_of.cases)
    (auto simp: free_name_def own_name_def free_str_Heap restrict_complement_singleton_eq split: if_splits)

lemma free_fields_ok:
  assumes "nodes h a = Some n" "heap_str (own_value n)" "heap_str (own_name n)" "distinct (owned n)" "set (owned n) \<subseteq> dom (strs h)"
  shows "free_fields a h = Inr (prune h {a})"
proof -
  have b: "blocks_in h {a} = set (owned n)" using assms(1) by (simp add: blocks_in_def)
  let ?v = "block_of (own_value n)" and ?s = "block_of (own_name n)"
  let ?h = "h\<lparr>strs := strs h |` (- set ?v)\<rparr>"
  have v: "free_value n h = Inr ?h" using free_value_ok assms(2,5) by (simp add: owned_def)
  have "set ?s \<subseteq> dom (strs ?h)" using assms(4,5) by (auto simp: owned_def)
  then have s: "free_name n ?h = Inr (?h\<lparr>strs := strs ?h |` (- set ?s)\<rparr>)" by (rule free_name_ok [OF assms(3)])
  have "strs h |` (- set ?v) |` (- set ?s) = strs h |` (- set (owned n))"
    by (simp add: owned_def Compl_Un)
  then show ?thesis
    unfolding free_fields_def get_node_Some [OF assms(1)] bind_fault_simps v s
    using assms(1) by (simp add: free_node_def prune_def b restrict_complement_singleton_eq)
qed

lemma deletable_subset: "deletable h kids A \<Longrightarrow> B \<subseteq> A \<Longrightarrow> deletable h kids B"
  unfolding deletable_def by (meson subsetD)

lemma deletable_node:
  assumes "deletable h kids A" "x \<in> A"
  obtains n pv where "nodes h x = Some n" "if is_reference n then kids x = [] else n_child n = first (kids x)"
    "seg (nodes h) pv (kids x) None" "heap_str (own_value n)" "heap_str (own_name n)" "distinct (owned n)" "set (owned n) \<subseteq> dom (strs h)"
  using assms unfolding deletable_def by metis

lemma seg_prune:
  "set xs \<inter> A = {} \<Longrightarrow> seg (nodes (prune h A)) pv xs nx = seg (nodes h) pv xs nx"
  by (rule seg_cong) (auto simp: restrict_map_def)

lemma owned_prune:
  assumes "deletable h kids (A \<union> B)" "A \<inter> B = {}" "x \<in> B" "nodes h x = Some n"
  shows "set (owned n) \<subseteq> dom (strs (prune h A))"
proof -
  have "set (owned n) \<subseteq> dom (strs h)" using deletable_node [OF assms(1), of x] assms(3,4) by auto
  moreover have "set (owned (the (nodes h x))) \<inter> set (owned (the (nodes h y))) = {}" if "y \<in> A" for y
    using assms(1-3) that unfolding deletable_def by (metis UnI1 UnI2 disjoint_iff)
  then have "set (owned n) \<inter> blocks_in h A = {}" using assms(4) by (auto simp: blocks_in_def)
  ultimately show ?thesis by auto
qed

lemma deletable_prune:
  assumes "deletable h kids (A \<union> B)" "A \<inter> B = {}" "\<And>x. x \<in> B \<Longrightarrow> set (kids x) \<inter> A = {}"
  shows "deletable (prune h A) kids B"
  unfolding deletable_def
proof (intro conjI ballI impI)
  fix x assume x: "x \<in> B"
  then have "x \<in> A \<union> B" by simp
  with assms(1) obtain n pv where n: "nodes h x = Some n" "if is_reference n then kids x = [] else n_child n = first (kids x)"
    "seg (nodes h) pv (kids x) None" "heap_str (own_value n)" "heap_str (own_name n)" "distinct (owned n)"
    by (rule deletable_node) blast
  moreover have "nodes (prune h A) x = Some n" using n(1) x assms(2) by (auto simp: restrict_map_def)
  ultimately show "\<exists>n pv. nodes (prune h A) x = Some n \<and> (if is_reference n then kids x = [] else n_child n = first (kids x)) \<and>
      seg (nodes (prune h A)) pv (kids x) None \<and> heap_str (own_value n) \<and> heap_str (own_name n) \<and> distinct (owned n) \<and>
      set (owned n) \<subseteq> dom (strs (prune h A))"
    using owned_prune [OF assms(1,2) x n(1)] seg_prune [OF assms(3) [OF x]] by blast
next
  fix x y assume "x \<in> B" "y \<in> B" "x \<noteq> y"
  moreover have "nodes (prune h A) z = nodes h z" if "z \<in> B" for z using that assms(2) by (auto simp: restrict_map_def)
  ultimately show "set (owned (the (nodes (prune h A) x))) \<inter> set (owned (the (nodes (prune h A) y))) = {}"
    using assms(1) unfolding deletable_def by simp
qed

lemma pt_root_addrs [simp]: "pt_root t \<in> set (pt_addrs t)"
  by (cases t) simp

lemma grown_closed: "grown kids t \<Longrightarrow> x \<in> set (pt_addrs t) \<Longrightarrow> set (kids x) \<subseteq> set (pt_addrs t)"
  using below_trans [of kids _ x "pt_root t"] by (auto simp: grown_addrs below_def child_rel_def)

abbreviation forest :: "ptree list \<Rightarrow> addr set" where
  "forest ts \<equiv> \<Union>t \<in> set ts. set (pt_addrs t)"

text \<open>Deleting the items of a chain one after the other, given what deleting each of them does.\<close>

lemma delete_list:
  assumes "\<And>t h n. t \<in> set ts \<Longrightarrow> deletable h kids (set (pt_addrs t)) \<Longrightarrow> nodes h (pt_root t) = Some n \<Longrightarrow>
      delete_loop (Some (pt_root t)) h = delete_loop (n_next n) (prune h (set (pt_addrs t)))"
    and "seg (nodes h) pv (map pt_root ts) None" "deletable h kids (forest ts)" "distinct (concat (map pt_addrs ts))"
    and "\<forall>t \<in> set ts. grown kids t"
  shows "delete_loop (first (map pt_root ts)) h = Some (Inr (prune h (forest ts)))"
  using assms
proof (induction ts arbitrary: h pv)
  case Nil
  show ?case by (subst delete_loop.simps) simp
next
  case (Cons t ts)
  let ?A = "set (pt_addrs t)" and ?B = "forest ts"
  obtain n where n: "nodes h (pt_root t) = Some n" "n_next n = first (map pt_root ts)"
    using Cons.prems(2) by (auto simp: links_def)
  have dis: "?A \<inter> ?B = {}" using Cons.prems(4) by auto
  have kids: "set (kids x) \<inter> ?A = {}" if "x \<in> ?B" for x
  proof -
    have "set (kids x) \<subseteq> ?B" using that Cons.prems(5) grown_closed by fastforce
    then show ?thesis using dis by blast
  qed
  have roots: "pt_root u \<notin> ?A" if "u \<in> set ts" for u
    using dis pt_root_addrs [of u] that by blast
  have "delete_loop (Some (pt_root t)) h = delete_loop (n_next n) (prune h ?A)"
    using Cons.prems(1) [of t] Cons.prems(3) n(1) deletable_subset by (metis list.set_intros(1) UN_upper)
  also have "\<dots> = Some (Inr (prune (prune h ?A) ?B))"
    unfolding n(2)
  proof (rule Cons.IH)
    show "seg (nodes (prune h ?A)) (Some (pt_root t)) (map pt_root ts) None"
      using Cons.prems(2) roots by (subst seg_prune) auto
    show "deletable (prune h ?A) kids ?B"
      using Cons.prems(3) dis kids by (intro deletable_prune) auto
  qed (use Cons.prems in auto)
  finally show ?case using prune_prune [OF dis, of h] by simp
qed

lemma delete_tree:
  "grown kids t \<Longrightarrow> distinct (pt_addrs t) \<Longrightarrow> deletable h kids (set (pt_addrs t)) \<Longrightarrow> nodes h (pt_root t) = Some n \<Longrightarrow>
   delete_loop (Some (pt_root t)) h = delete_loop (n_next n) (prune h (set (pt_addrs t)))"
proof (induction t arbitrary: h n)
  case (PT a ts)
  let ?K = "forest ts"
  have k: "kids a = map pt_root ts" "\<forall>t \<in> set ts. grown kids t" "a \<notin> ?K" "distinct (concat (map pt_addrs ts))"
    using PT.prems(1,2) by auto
  have n: "nodes h a = Some n" using PT.prems(4) by simp
  have all: "deletable h kids (?K \<union> {a})" using PT.prems(3) by (simp add: insert_commute Un_commute)
  then obtain m pv where d: "nodes h a = Some m" "if is_reference m then kids a = [] else n_child m = first (kids a)"
    "seg (nodes h) pv (kids a) None" "heap_str (own_value m)" "heap_str (own_name m)" "distinct (owned m)"
    by (rule deletable_node [of _ _ _ a]) auto
  have m: "m = n" using d(1) n by simp
  have "delete_loop (first (map pt_root ts)) h = Some (Inr (prune h ?K))"
  proof (rule delete_list [of ts kids h pv])
    show "delete_loop (Some (pt_root t)) h = delete_loop (n_next n) (prune h (set (pt_addrs t)))"
      if "t \<in> set ts" "deletable h kids (set (pt_addrs t))" "nodes h (pt_root t) = Some n" for t h n
      using PT.IH [OF that(1)] PT.prems(1,2) that by (auto simp: distinct_concat_iff)
    show "deletable h kids ?K" by (rule deletable_subset [OF all]) blast
  qed (use d(3) k in auto)
  then have c: "(if \<not> is_reference n \<and> n_child n \<noteq> None then delete_loop (n_child n) h else Some (Inr h)) = Some (Inr (prune h ?K))"
    using d(2) k(1) unfolding m by (cases ts) (auto split: if_splits)
  have "free_fields a (prune h ?K) = Inr (prune (prune h ?K) {a})"
  proof (rule free_fields_ok)
    show "nodes (prune h ?K) a = Some n" using n k(3) by (simp add: restrict_map_def)
    show "set (owned n) \<subseteq> dom (strs (prune h ?K))" by (rule owned_prune [OF all _ _ n]) (use k(3) in auto)
  qed (use d m in auto)
  moreover have "prune (prune h ?K) {a} = prune h (set (pt_addrs (PT a ts)))"
    using k(3) by (subst prune_prune) (auto simp: Un_commute)
  ultimately have f: "free_fields a (prune h ?K) = Inr (prune h (set (pt_addrs (PT a ts))))" by simp
  show ?case
    by (subst delete_loop.simps) (simp only: option.case get_node_Some [OF n] bind_loop_simps c f ptree.sel)
qed

text \<open>In a heap of well-formed trees everything can be deleted, root by root.\<close>

lemma tree_ok_links:
  assumes "tree_ok h kids"
  shows "links_ok (nodes h) kids" "strs_ok h" "fresh_ok h" "kids_ok kids"
  using assms by (simp_all add: tree_ok_def links_ok_def kids_ok_def)

lemma tree_ok_wf:
  assumes "tree_ok h kids"
  shows "wf (child_rel kids)"
proof -
  note ok = tree_ok_links [OF assms]
  have dom: "a < brk h" if "nodes h a \<noteq> None" for a using ok(3) that by (meson fresh_ok_def not_le)
  have "child_rel kids \<subseteq> {..<brk h} \<times> {..<brk h}"
  proof
    fix p assume "p \<in> child_rel kids"
    then obtain c a where p: "p = (c, a)" "c \<in> set (kids a)" by (auto simp: child_rel_def)
    obtain n m where "nodes h c = Some n" "nodes h a = Some m" by (rule tree_nodes [OF ok(1) p(2)])
    then show "p \<in> {..<brk h} \<times> {..<brk h}" using dom p(1) by simp
  qed
  then have "finite (child_rel kids)" by (rule finite_subset) simp
  then show ?thesis using ok(4) by (simp add: kids_ok_def wf_iff_acyclic_if_finite)
qed

lemma tree_ok_deletable:
  assumes "tree_ok h kids" "A \<subseteq> dom (nodes h)"
  shows "deletable h kids A"
  unfolding deletable_def
proof (intro conjI ballI impI)
  note ok = tree_ok_links [OF assms(1)]
  fix x assume "x \<in> A"
  then obtain n where n: "nodes h x = Some n" using assms(2) by auto
  note k = node_kids [OF ok(1) n]
  have "heap_str (own_value n) \<and> heap_str (own_name n) \<and> distinct (owned n)" using ok(2) n by (simp add: strs_ok_def name_ok_def)
  moreover have "set (owned n) \<subseteq> dom (strs h)" using ok(2) n unfolding strs_ok_def by blast
  ultimately show "\<exists>n pv. nodes h x = Some n \<and> (if is_reference n then kids x = [] else n_child n = first (kids x)) \<and>
      seg (nodes h) pv (kids x) None \<and> heap_str (own_value n) \<and> heap_str (own_name n) \<and> distinct (owned n) \<and>
      set (owned n) \<subseteq> dom (strs h)"
    using n k(1,2,4) unfolding chained_def by auto
next
  fix x y assume xy: "x \<in> A" "y \<in> A" "x \<noteq> y"
  then obtain n m where "nodes h x = Some n" "nodes h y = Some m" using assms(2) by blast
  then show "set (owned (the (nodes h x))) \<inter> set (owned (the (nodes h y))) = {}"
    using tree_ok_links(2) [OF assms(1)] xy(3) unfolding strs_ok_def by auto
qed

definition uproot :: "(addr \<Rightarrow> addr list) \<Rightarrow> addr \<Rightarrow> addr \<Rightarrow> addr list" where
  "uproot kids a = (\<lambda>x. if below kids x a then [] else kids x)"

lemma outside_kids:
  assumes "kids_ok kids" "is_root kids a" "\<not> below kids x a" "y \<in> set (kids x)"
  shows "\<not> below kids y a"
proof
  assume "below kids y a"
  moreover have "y \<noteq> a" using assms(2,4) by (auto simp: is_root_def)
  ultimately obtain p where p: "(y, p) \<in> child_rel kids" "below kids p a"
    unfolding below_def by (metis converse_rtranclE)
  then have "p = x" using assms(1,4) unfolding kids_ok_def child_rel_def by blast
  then show False using p(2) assms(3) by simp
qed

lemma strs_ok_prune:
  assumes "strs_ok h" "A \<subseteq> dom (nodes h)"
  shows "strs_ok (prune h A)"
  unfolding strs_ok_def
proof (intro conjI allI impI)
  fix a n assume "nodes (prune h A) a = Some n"
  then have "nodes h a = Some n" by (auto simp: restrict_map_def split: if_splits)
  then show "heap_str (own_value n)" "name_ok n" "distinct (owned n)" using assms(1) by (simp_all add: strs_ok_def)
next
  fix a b n m assume *: "nodes (prune h A) a = Some n \<and> nodes (prune h A) b = Some m \<and> a \<noteq> b"
  then have "nodes h a = Some n" "nodes h b = Some m" by (auto simp: restrict_map_def split: if_splits)
  then show "set (owned n) \<inter> set (owned m) = {}" using assms(1) * unfolding strs_ok_def by blast
next
  fix s
  have own: "s \<in> blocks_in h A \<longleftrightarrow> (\<exists>a \<in> A. s \<in> set (owned (the (nodes h a))))" by (simp add: blocks_in_def)
  show "strs (prune h A) s \<noteq> None \<longleftrightarrow> (\<exists>a n. nodes (prune h A) a = Some n \<and> s \<in> set (owned n))"
  proof
    assume "strs (prune h A) s \<noteq> None"
    then have s: "strs h s \<noteq> None" "s \<notin> blocks_in h A" by (auto simp: restrict_map_def split: if_splits)
    then obtain a n where n: "nodes h a = Some n" "s \<in> set (owned n)" using assms(1) unfolding strs_ok_def by blast
    then have "a \<notin> A" using s(2) own by auto
    then show "\<exists>a n. nodes (prune h A) a = Some n \<and> s \<in> set (owned n)" using n by (auto simp: restrict_map_def)
  next
    assume "\<exists>a n. nodes (prune h A) a = Some n \<and> s \<in> set (owned n)"
    then obtain a n where n: "nodes h a = Some n" "a \<notin> A" "s \<in> set (owned n)" by (auto simp: restrict_map_def split: if_splits)
    then have "strs h s \<noteq> None" using assms(1) unfolding strs_ok_def by blast
    moreover have "s \<notin> blocks_in h A"
    proof
      assume "s \<in> blocks_in h A"
      then obtain b where b: "b \<in> A" "s \<in> set (owned (the (nodes h b)))" using own by auto
      then obtain m where m: "nodes h b = Some m" using assms(2) by blast
      then show False using assms(1) n b unfolding strs_ok_def by (metis disjoint_iff option.sel)
    qed
    ultimately show "strs (prune h A) s \<noteq> None" by (simp add: restrict_map_def)
  qed
qed

lemma below_dom:
  assumes "tree_ok h kids" "nodes h a \<noteq> None" "below kids x a"
  shows "nodes h x \<noteq> None"
  using assms(3) unfolding below_def
proof (cases rule: converse_rtranclE)
  case (step y)
  then show ?thesis using tree_nodes [OF tree_ok_links(1) [OF assms(1)], of x y] by (auto simp: child_rel_def)
qed (use assms(2) in simp)

lemma tree_ok_prune:
  assumes "tree_ok h kids" "is_root kids a" "nodes h a \<noteq> None"
  shows "tree_ok (prune h {x. below kids x a}) (uproot kids a)"
proof -
  note ok = tree_ok_links [OF assms(1)]
  let ?A = "{x. below kids x a}"
  have out: "set (kids x) \<inter> ?A = {}" if "\<not> below kids x a" for x
    using outside_kids [OF ok(4) assms(2) that] by auto
  have root: "is_root kids x" if "is_root (uproot kids a) x" "\<not> below kids x a" for x
    unfolding is_root_def
  proof
    fix b
    show "x \<notin> set (kids b)"
    proof
      assume x: "x \<in> set (kids b)"
      have "\<not> below kids b a"
        using that(2) x below_trans [of kids x b a] by (auto simp: below_def child_rel_def)
      then show False using that(1) x unfolding is_root_def uproot_def by metis
    qed
  qed
  have "links_ok (nodes (prune h ?A)) (uproot kids a)"
    unfolding links_ok_def
  proof (intro conjI allI impI)
    fix x n assume "nodes (prune h ?A) x = Some n"
    then have x: "nodes h x = Some n" "\<not> below kids x a" by (auto simp: restrict_map_def split: if_splits)
    then show "node_ok (uproot kids a) x n"
      using node_kids(1-3) [OF ok(1) x(1)] root [of x] by (auto simp: node_ok_def uproot_def)
  next
    fix x assume "nodes (prune h ?A) x = None"
    then show "uproot kids a x = []" using ok(1) by (auto simp: uproot_def restrict_map_def links_ok_def split: if_splits)
  next
    fix x
    show "chained (nodes (prune h ?A)) (uproot kids a x)"
      using ok(1) out [of x] by (simp add: uproot_def chained_def seg_prune del: prune_simps) (simp add: links_ok_def chained_def)
    show "distinct (uproot kids a x)" using ok(4) by (simp add: uproot_def kids_ok_def)
  next
    fix x y :: addr assume "x \<noteq> y"
    then show "set (uproot kids a x) \<inter> set (uproot kids a y) = {}" using ok(4) by (simp add: uproot_def kids_ok_def)
  next
    show "acyclic (child_rel (uproot kids a))"
      by (rule acyclic_shrink [of kids]) (use ok(4) in \<open>auto simp: uproot_def kids_ok_def\<close>)
  qed
  moreover have "?A \<subseteq> dom (nodes h)" using below_dom [OF assms(1,3)] by blast
  ultimately show ?thesis using strs_ok_prune [OF ok(2)] ok(3) by (auto simp: tree_ok_def fresh_ok_def restrict_map_def)
qed

lemma delete_root:
  assumes "tree_ok h kids" "is_root kids a" "nodes h a \<noteq> None"
  shows "delete_item (Some a) h = Inr (prune h {x. below kids x a})"
proof -
  obtain t where t: "pt_root t = a" "grown kids t" using grown_exists [OF tree_ok_wf [OF assms(1)], of a] by blast
  have A: "set (pt_addrs t) = {x. below kids x a}" using grown_addrs [OF t(2)] t(1) by simp
  obtain n where n: "nodes h a = Some n" using assms(3) by blast
  have "deletable h kids (set (pt_addrs t))"
    by (rule tree_ok_deletable [OF assms(1)]) (use below_dom [OF assms(1,3)] in \<open>auto simp: A\<close>)
  then have "delete_loop (Some a) h = delete_loop (n_next n) (prune h {x. below kids x a})"
    using delete_tree [OF t(2) grown_distinct [OF tree_ok_links(4) [OF assms(1)] t(2)]] n t(1) A by metis
  moreover have "n_next n = None" using node_kids(3) [OF tree_ok_links(1) [OF assms(1)] n assms(2)] by simp
  ultimately show ?thesis by (simp add: delete_item_def run_loop_def delete_loop.simps)
qed

section \<open>New items and new strings\<close>

lemma links_ok_payload:
  assumes "links_ok M kids" "M a = Some n" "n_next n' = n_next n" "n_prev n' = n_prev n" "n_child n' = n_child n"
    "is_reference n' = is_reference n"
  shows "links_ok (M(a \<mapsto> n')) kids"
proof -
  have "chained (M(a \<mapsto> n')) xs = chained M xs" for xs by (rule chained_cong) (use assms in auto)
  moreover have "node_ok kids a n' = node_ok kids a n" using assms by (simp add: node_ok_def)
  ultimately show ?thesis using assms(1,2) by (auto simp: links_ok_def)
qed

lemma links_ok_new:
  assumes "links_ok M kids" "M a = None" "n_next n = None" "n_prev n = None" "is_reference n \<or> n_child n = None"
  shows "links_ok (M(a \<mapsto> n)) kids"
proof -
  have "kids a = []" using assms(1,2) by (simp add: links_ok_def)
  then have "node_ok kids a n" using assms by (auto simp: node_ok_def)
  moreover have "a \<notin> set (kids b)" for b using tree_nodes [OF assms(1), of a b] assms(2) by (metis option.distinct(1))
  then have "chained (M(a \<mapsto> n)) (kids b) = chained M (kids b)" for b by (intro chained_cong) auto
  ultimately show ?thesis using assms(1) by (auto simp: links_ok_def)
qed

text \<open>An item that is new or gets other strings: its old strings are freed, its new ones were not in use.\<close>

definition owned_at :: "json_heap \<Rightarrow> addr \<Rightarrow> addr set" where
  "owned_at h a = (case nodes h a of None \<Rightarrow> {} | Some n \<Rightarrow> set (owned n))"

lemma strs_ok_node:
  assumes "strs_ok h" "nodes h' = (nodes h)(a \<mapsto> n)" "heap_str (own_value n)" "name_ok n" "distinct (owned n)"
    and "set (owned n) \<inter> (dom (strs h) - owned_at h a) = {}"
    and "dom (strs h') = (dom (strs h) - owned_at h a) \<union> set (owned n)"
  shows "strs_ok h'"
proof -
  have sub: "set (owned m) \<subseteq> dom (strs h) - owned_at h a" if "nodes h b = Some m" "b \<noteq> a" for b m
  proof
    fix s assume s: "s \<in> set (owned m)"
    then have "strs h s \<noteq> None" using assms(1) that(1) unfolding strs_ok_def by blast
    moreover have "s \<notin> owned_at h a"
    proof (cases "nodes h a")
      case (Some k)
      then have "set (owned m) \<inter> set (owned k) = {}" using assms(1) that unfolding strs_ok_def by blast
      then show ?thesis using s Some by (auto simp: owned_at_def)
    qed (simp add: owned_at_def)
    ultimately show "s \<in> dom (strs h) - owned_at h a" by blast
  qed
  have cover: "\<exists>b m. nodes h b = Some m \<and> b \<noteq> a \<and> s \<in> set (owned m)" if s: "s \<in> dom (strs h) - owned_at h a" for s
  proof -
    obtain b m where m: "nodes h b = Some m" "s \<in> set (owned m)" using assms(1) s unfolding strs_ok_def by blast
    then have "b \<noteq> a" using s by (auto simp: owned_at_def)
    then show ?thesis using m by blast
  qed
  show ?thesis
    unfolding strs_ok_def
  proof (intro conjI allI impI)
    fix b m assume "nodes h' b = Some m"
    then show "heap_str (own_value m)" "name_ok m" "distinct (owned m)"
      using assms(1-5) by (cases "b = a"; simp add: strs_ok_def)+
  next
    fix b c m k assume *: "nodes h' b = Some m \<and> nodes h' c = Some k \<and> b \<noteq> c"
    show "set (owned m) \<inter> set (owned k) = {}"
    proof (cases "b = a \<or> c = a")
      case True
      then show ?thesis
      proof
        assume "b = a"
        then have "m = n" "nodes h c = Some k" "c \<noteq> a" using * assms(2) by (auto split: if_splits)
        then show ?thesis using sub [of c k] assms(6) by blast
      next
        assume "c = a"
        then have "k = n" "nodes h b = Some m" "b \<noteq> a" using * assms(2) by (auto split: if_splits)
        then show ?thesis using sub [of b m] assms(6) by blast
      qed
    next
      case False
      then have "nodes h b = Some m" "nodes h c = Some k" using * assms(2) by simp_all
      then show ?thesis using assms(1) * unfolding strs_ok_def by blast
    qed
  next
    fix s
    show "strs h' s \<noteq> None \<longleftrightarrow> (\<exists>b m. nodes h' b = Some m \<and> s \<in> set (owned m))"
    proof
      assume "strs h' s \<noteq> None"
      then have "s \<in> dom (strs h) - owned_at h a \<or> s \<in> set (owned n)" using assms(7) by blast
      then show "\<exists>b m. nodes h' b = Some m \<and> s \<in> set (owned m)" using cover [of s] assms(2) by (metis fun_upd_apply)
    next
      assume "\<exists>b m. nodes h' b = Some m \<and> s \<in> set (owned m)"
      then obtain b m where m: "nodes h' b = Some m" "s \<in> set (owned m)" by blast
      then have "s \<in> dom (strs h')" using sub [of b m] assms(2,7) by (cases "b = a") auto
      then show "strs h' s \<noteq> None" by blast
    qed
  qed
qed

lemma owned_dom: "strs_ok h \<Longrightarrow> owned_at h a \<subseteq> dom (strs h)"
  by (cases "nodes h a") (auto simp: owned_at_def strs_ok_def)

text \<open>Readable arguments: a null pointer, a string of the caller, or a block that is allocated.\<close>

definition readable :: "json_heap \<Rightarrow> strptr option \<Rightarrow> bool" where
  "readable h p \<longleftrightarrow> (case p of None \<Rightarrow> True | Some (Const s) \<Rightarrow> True | Some (Heap b) \<Rightarrow> strs h b \<noteq> None)"

definition str_value :: "json_heap \<Rightarrow> strptr \<Rightarrow> u8 list" where
  "str_value h p = (case p of Heap b \<Rightarrow> the (strs h b) | Const s \<Rightarrow> s)"

lemma get_str_readable [simp]: "readable h (Some p) \<Longrightarrow> get_str h (Some p) = Inr (c_string (str_value h p))"
  by (auto simp: readable_def get_str_def read_str_def str_value_def split: strptr.splits option.splits)

lemma strdup_ok:
  assumes "readable h p"
  shows "cJSON_strdup al p h =
    (case p of
       None \<Rightarrow> Inr (None, h)
     | Some q \<Rightarrow>
         (if al (calls h)
          then Inr (Some (Heap (brk h)), h\<lparr>strs := (strs h)(brk h \<mapsto> c_string (str_value h q)), brk := brk h + 1, calls := calls h + 1\<rparr>)
          else Inr (None, h\<lparr>calls := calls h + 1\<rparr>)))"
  using assms by (cases p) (simp_all add: cJSON_strdup_def Let_def)

lemma tree_ok_calls [simp]: "tree_ok (h\<lparr>calls := k\<rparr>) kids = tree_ok h kids"
  by (simp add: tree_ok_def strs_ok_def fresh_ok_def)

end
