(* ===== verification/CjsonObjects.thy ===== *)
theory CjsonObjects
  imports CjsonTree
begin

text \<open>
  The public operations on trees in memory: creating items, adding them to arrays and objects, looking
  members up, detaching, inserting, replacing and deleting them. Each is shown to keep \<open>tree_ok\<close>, on every
  path, and to change the lists of children as its name says.
\<close>

text \<open>Updates of the heap in the order of its members.\<close>

lemma heap_upd_order [simp]:
  fixes h :: json_heap
  shows "h\<lparr>strs := S, nodes := M\<rparr> = h\<lparr>nodes := M, strs := S\<rparr>" "h\<lparr>brk := b, nodes := M\<rparr> = h\<lparr>nodes := M, brk := b\<rparr>"
    "h\<lparr>calls := c, nodes := M\<rparr> = h\<lparr>nodes := M, calls := c\<rparr>" "h\<lparr>brk := b, strs := S\<rparr> = h\<lparr>strs := S, brk := b\<rparr>"
    "h\<lparr>calls := c, strs := S\<rparr> = h\<lparr>strs := S, calls := c\<rparr>" "h\<lparr>calls := c, brk := b\<rparr> = h\<lparr>brk := b, calls := c\<rparr>"
  by simp_all

section \<open>Creating items\<close>

text \<open>What a call that makes an item may do: fail and leave the trees alone, or return a new root with the node \<open>n\<close>.\<close>

definition created :: "(addr \<Rightarrow> addr list) \<Rightarrow> json_heap \<Rightarrow> ((addr \<rightharpoonup> u8 list) \<Rightarrow> node \<Rightarrow> bool) \<Rightarrow> c_fault + (addr option \<times> json_heap) \<Rightarrow> bool" where
  "created kids h P r \<longleftrightarrow>
     (\<exists>h'. r = Inr (None, h') \<and> nodes h' = nodes h \<and> strs h' = strs h \<and> tree_ok h' kids) \<or>
     (\<exists>a n h'. r = Inr (Some a, h') \<and> nodes h a = None \<and> nodes h' = (nodes h)(a \<mapsto> n) \<and> strs h \<subseteq>\<^sub>m strs h' \<and>
        tree_ok h' kids \<and> is_root kids a \<and> P (strs h') n)"

lemma fresh_root:
  assumes "tree_ok h kids" "nodes h a = None"
  shows "is_root kids a" "kids a = []"
  using assms tree_nodes [OF tree_ok_links(1) [OF assms(1)], of a]
  by (auto simp: is_root_def tree_ok_def links_ok_def)

lemma tree_ok_new:
  assumes "tree_ok h kids" "nodes h a = None" "nodes h' = (nodes h)(a \<mapsto> n)"
    and "n_next n = None" "n_prev n = None" "is_reference n \<or> n_child n = None" "heap_str (own_value n)" "name_ok n"
    and "distinct (owned n)" "set (owned n) \<inter> dom (strs h) = {}" "dom (strs h') = dom (strs h) \<union> set (owned n)"
    and "\<forall>x. brk h' \<le> x \<longrightarrow> x \<noteq> a \<and> x \<notin> set (owned n) \<and> brk h \<le> x"
  shows "tree_ok h' kids"
proof -
  note ok = tree_ok_links [OF assms(1)]
  have "links_ok (nodes h') kids" unfolding assms(3) by (rule links_ok_new [OF ok(1) assms(2,4-6)])
  moreover have "strs_ok h'"
    by (rule strs_ok_node [OF ok(2) assms(3)]) (use assms(2,7-11) in \<open>auto simp: owned_at_def\<close>)
  moreover have "fresh_ok h'"
    unfolding fresh_ok_def
  proof (intro allI impI conjI)
    fix x assume x: "brk h' \<le> x"
    then show "nodes h' x = None" using assms(3,12) ok(3) by (auto simp: fresh_ok_def)
    have "x \<notin> dom (strs h')" using assms(11,12) ok(3) x by (auto simp: fresh_ok_def)
    then show "strs h' x = None" by blast
  qed
  ultimately show ?thesis by (simp add: tree_ok_def)
qed

lemma tree_ok_brk: "tree_ok h kids \<Longrightarrow> nodes h (brk h) = None \<and> strs h (brk h) = None"
  by (simp add: tree_ok_def fresh_ok_def)

text \<open>A node without strings of its own.\<close>

definition bare :: "node \<Rightarrow> bool" where
  "bare n \<longleftrightarrow> n_next n = None \<and> n_prev n = None \<and> (is_reference n \<or> n_child n = None) \<and> own_value n = None \<and> n_string n = None"

lemma create_ok:
  assumes "tree_ok h kids" "bare (f empty_node)" "P (strs h) (f empty_node)"
  shows "created kids h P (create al f h)"
proof (cases "al (calls h)")
  case True
  let ?h = "h\<lparr>nodes := (nodes h)(brk h \<mapsto> f empty_node), brk := brk h + 1, calls := calls h + 1\<rparr>"
  have r: "create al f h = Inr (Some (brk h), ?h)" using True by (simp add: create_def new_item_def Let_def upd_node_Some)
  have b: "nodes h (brk h) = None" using tree_ok_brk [OF assms(1)] by simp
  have "tree_ok ?h kids"
    by (rule tree_ok_new [OF assms(1) b]) (use assms(2) in \<open>auto simp: bare_def owned_def own_name_def name_ok_def\<close>)
  then show ?thesis using assms(3) r b fresh_root(1) [OF assms(1) b] unfolding created_def by (intro disjI2 exI) auto
next
  case False
  then have "create al f h = Inr (None, h\<lparr>calls := calls h + 1\<rparr>)" by (simp add: create_def new_item_def Let_def)
  then show ?thesis using assms(1) by (auto simp: created_def)
qed

lemma str_upd [simp]:
  "str_value (h\<lparr>nodes := M\<rparr>) = str_value h" "str_value (h\<lparr>brk := k\<rparr>) = str_value h" "str_value (h\<lparr>calls := k\<rparr>) = str_value h"
  "readable (h\<lparr>nodes := M\<rparr>) = readable h" "readable (h\<lparr>brk := k\<rparr>) = readable h" "readable (h\<lparr>calls := k\<rparr>) = readable h"
  by (auto simp: fun_eq_iff str_value_def readable_def split: option.splits strptr.splits)

lemma str_same: "strs h' = strs h \<Longrightarrow> readable h' = readable h \<and> str_value h' = str_value h"
  by (auto simp: fun_eq_iff readable_def str_value_def split: option.splits strptr.splits)

lemma below_leaf: "kids a = [] \<Longrightarrow> below kids x a \<longleftrightarrow> x = a"
  using below_cases [of kids x a] by simp

lemma delete_leaf:
  assumes "tree_ok h kids" "is_root kids a" "kids a = []" "nodes h a = Some n" "owned n = []"
  shows "delete_item (Some a) h = Inr (h\<lparr>nodes := (nodes h)(a := None)\<rparr>)" "tree_ok (h\<lparr>nodes := (nodes h)(a := None)\<rparr>) kids"
proof -
  have A: "{x. below kids x a} = {a}" using below_leaf [of kids a, OF assms(3)] by auto
  have p: "prune h {a} = h\<lparr>nodes := (nodes h)(a := None)\<rparr>"
    using assms(4,5) by (simp add: prune_def blocks_in_def restrict_complement_singleton_eq)
  have u: "uproot kids a = kids" by (rule ext) (simp add: uproot_def below_leaf [of kids a, OF assms(3)] assms(3))
  have a: "nodes h a \<noteq> None" using assms(4) by simp
  show "delete_item (Some a) h = Inr (h\<lparr>nodes := (nodes h)(a := None)\<rparr>)"
    using delete_root [OF assms(1,2) a] unfolding A p .
  show "tree_ok (h\<lparr>nodes := (nodes h)(a := None)\<rparr>) kids"
    using tree_ok_prune [OF assms(1,2) a] unfolding A p u .
qed

lemma create_number_ok:
  assumes "tree_ok h kids" "num \<noteq> NaN"
  shows "created kids h (\<lambda>S n. n_type n = cJSON_Number \<and> n_valuedouble n = num \<and> saturate_int num = Inr (n_valueint n) \<and>
    n_valuestring n = None \<and> n_string n = None \<and> n_child n = None) (cJSON_CreateNumber al num h)"
proof -
  obtain i where i: "saturate_int num = Inr i" using saturate_int_returns [of num] assms(2) by blast
  have "cJSON_CreateNumber al num h = create al (\<lambda>n. n\<lparr>n_type := cJSON_Number, n_valuedouble := num, n_valueint := i\<rparr>) h"
    by (cases "new_item al h") (simp add: cJSON_CreateNumber_def create_def i)
  then show ?thesis
    using create_ok [OF assms(1), of "\<lambda>n. n\<lparr>n_type := cJSON_Number, n_valuedouble := num, n_valueint := i\<rparr>"] i
    by (simp add: bare_def own_value_def own_name_def empty_node_def is_reference_def)
qed

lemma create_text_ok:
  assumes "tree_ok h kids" "readable h string" "k AND cJSON_IsReference = 0"
  shows "created kids h (\<lambda>S n. n_type n = k \<and> n_string n = None \<and> n_child n = None \<and> (\<exists>q b. string = Some q \<and> n_valuestring n = Some (Heap b) \<and>
    S b = Some (c_string (str_value h q)))) (create_text al k string h)"
proof (cases "al (calls h)")
  case False
  then have "create_text al k string h = Inr (None, h\<lparr>calls := calls h + 1\<rparr>)" by (simp add: create_text_def new_item_def Let_def)
  then show ?thesis using assms(1) by (auto simp: created_def)
next
  case True
  let ?a = "brk h"
  let ?h1 = "h\<lparr>nodes := (nodes h)(?a \<mapsto> empty_node), brk := ?a + 1, calls := calls h + 1\<rparr>"
  have b: "nodes h ?a = None" "strs h ?a = None" using tree_ok_brk [OF assms(1)] by simp_all
  have fr: "strs h (?a + 1) = None" using assms(1) by (simp add: tree_ok_def fresh_ok_def)
  have n1: "new_item al h = (Some ?a, ?h1)" using True by (simp add: new_item_def Let_def)
  have rd: "readable ?h1 string" using assms(2) by simp
  show ?thesis
  proof (cases "string \<noteq> None \<and> al (calls h + 1)")
    case True
    then obtain q where q: "string = Some q" by blast
    let ?n = "empty_node\<lparr>n_type := k, n_valuestring := Some (Heap (?a + 1))\<rparr>"
    let ?h = "h\<lparr>nodes := (nodes h)(?a \<mapsto> ?n), strs := (strs h)(?a + 1 \<mapsto> c_string (str_value h q)), brk := ?a + 2, calls := calls h + 2\<rparr>"
    have r: "create_text al k string h = Inr (Some ?a, ?h)"
      using True q strdup_ok [OF rd, of al]
      by (simp add: create_text_def n1 upd_node_Some)
    have o: "own_value ?n = Some (Heap (?a + 1))" "own_name ?n = None"
      using assms(3) by (simp_all add: own_value_def own_name_def is_reference_def empty_node_def)
    have "tree_ok ?h kids"
      by (rule tree_ok_new [OF assms(1) b(1)]) (use fr o in \<open>auto simp: owned_def empty_node_def name_ok_def\<close>)
    then show ?thesis using r q b fr fresh_root(1) [OF assms(1) b(1)] unfolding created_def
      by (intro disjI2 exI [of _ ?a] exI [of _ ?n] exI [of _ ?h]) (auto simp: empty_node_def map_le_def)
  next
    case False
    let ?n = "empty_node\<lparr>n_type := k\<rparr>" and ?c = "calls h + 1 + of_bool (string \<noteq> None)"
    let ?h = "h\<lparr>nodes := (nodes h)(?a \<mapsto> ?n), brk := ?a + 1, calls := ?c\<rparr>"
    have "cJSON_strdup al string ?h1 = Inr (None, ?h1\<lparr>calls := ?c\<rparr>)"
      using False strdup_ok [OF rd, of al] by (cases string) simp_all
    then have r: "create_text al k string h = bind_fault (delete_item (Some ?a) ?h) (\<lambda>h4. Inr (None, h4))"
      by (simp add: create_text_def n1 upd_node_Some empty_node_def)
    have o: "owned ?n = []" by (simp add: owned_def own_value_def own_name_def empty_node_def)
    have t: "tree_ok ?h kids"
      by (rule tree_ok_new [OF assms(1) b(1)]) (use o in \<open>auto simp: empty_node_def own_value_def own_name_def name_ok_def\<close>)
    have "delete_item (Some ?a) ?h = Inr (?h\<lparr>nodes := (nodes ?h)(?a := None)\<rparr>)" "tree_ok (?h\<lparr>nodes := (nodes ?h)(?a := None)\<rparr>) kids"
      by (rule delete_leaf [OF t _ _ _ o]; use fresh_root [OF assms(1) b(1)] in simp)+
    then show ?thesis using r b unfolding created_def by (intro disjI1) (auto simp: fun_upd_idem)
  qed
qed

section \<open>Adding members\<close>

text \<open>The flag that says whose the name of an item is.\<close>

lemma const_flag:
  "(t OR cJSON_StringIsConst) AND cJSON_IsReference = t AND cJSON_IsReference"
  "(t AND NOT cJSON_StringIsConst) AND cJSON_IsReference = t AND cJSON_IsReference"
  "(t OR cJSON_StringIsConst) AND cJSON_StringIsConst = cJSON_StringIsConst"
  "(t AND NOT cJSON_StringIsConst) AND cJSON_StringIsConst = 0"
  "(t AND - 513) AND cJSON_IsReference = t AND cJSON_IsReference" "(t AND - 513) AND cJSON_StringIsConst = 0" for t :: u32
proof -
  have d: "(cJSON_StringIsConst :: u32) AND cJSON_IsReference = 0" "NOT (cJSON_StringIsConst :: u32) AND cJSON_IsReference = cJSON_IsReference"
    by simp_all
  show "(t OR cJSON_StringIsConst) AND cJSON_IsReference = t AND cJSON_IsReference"
    by (simp add: bit.conj_disj_distrib2 d)
  show "(t AND NOT cJSON_StringIsConst) AND cJSON_IsReference = t AND cJSON_IsReference"
    by (simp only: and.assoc d)
  show "(t OR cJSON_StringIsConst) AND cJSON_StringIsConst = cJSON_StringIsConst"
    by (simp add: bit.conj_disj_distrib2)
  show "(t AND NOT cJSON_StringIsConst) AND cJSON_StringIsConst = 0" "(t AND - 513) AND cJSON_StringIsConst = 0"
    "(t AND - 513) AND cJSON_IsReference = t AND cJSON_IsReference" by (simp_all add: and.assoc)
qed

lemma rename_ok:
  assumes "tree_ok h kids" "nodes h i = Some n" "n_type m AND cJSON_IsReference = n_type n AND cJSON_IsReference"
    and "n_next m = n_next n" "n_prev m = n_prev n" "n_child m = n_child n" "n_valuestring m = n_valuestring n"
    and "nodes h' = (nodes h)(i \<mapsto> m)" "name_ok m" "set (block_of (own_name m)) \<inter> dom (strs h) = {}"
    and "dom (strs h') = (dom (strs h) - set (block_of (own_name n))) \<union> set (block_of (own_name m))"
    and "\<forall>x. brk h' \<le> x \<longrightarrow> x \<notin> set (block_of (own_name m)) \<and> brk h \<le> x"
  shows "tree_ok h' kids"
proof -
  note ok = tree_ok_links [OF assms(1)]
  have r: "is_reference m = is_reference n" "own_value m = own_value n" using assms(3,7) by (simp_all add: is_reference_def own_value_def)
  have own: "heap_str (own_value n)" "distinct (owned n)" using ok(2) assms(2) by (simp_all add: strs_ok_def)
  have sub: "owned_at h i = set (owned n)" "set (owned n) \<subseteq> dom (strs h)"
    using owned_dom [OF ok(2), of i] assms(2) by (simp_all add: owned_at_def)
  have "links_ok (nodes h') kids" unfolding assms(8) by (rule links_ok_payload [OF ok(1) assms(2,4-6) r(1)])
  moreover have "strs_ok h'"
  proof (rule strs_ok_node [OF ok(2) assms(8) _ assms(9)])
    show "distinct (owned m)" using own sub assms(10) unfolding owned_def r(2)
      by (cases "own_name m" rule: block_of.cases) auto
    show "set (owned m) \<inter> (dom (strs h) - owned_at h i) = {}" using assms(10) unfolding sub(1) owned_def r(2) by auto
    show "dom (strs h') = dom (strs h) - owned_at h i \<union> set (owned m)"
      using assms(11) own(2) sub(2) unfolding sub(1) owned_def r(2) by auto
  qed (use own r in simp)
  moreover have "fresh_ok h'"
    unfolding fresh_ok_def
  proof (intro allI impI conjI)
    fix x assume x: "brk h' \<le> x"
    then show "nodes h' x = None" using assms(2,8,12) ok(3) unfolding fresh_ok_def by (metis fun_upd_other option.distinct(1))
    have "x \<notin> dom (strs h')" using assms(11,12) ok(3) x by (auto simp: fresh_ok_def)
    then show "strs h' x = None" by blast
  qed
  ultimately show ?thesis by (simp add: tree_ok_def)
qed

text \<open>The state after an item was given a name: nothing else changes but the links.\<close>

definition renamed :: "json_heap \<Rightarrow> addr \<Rightarrow> u8 list \<Rightarrow> json_heap \<Rightarrow> bool" where
  "renamed h i s h' \<longleftrightarrow>
     (\<forall>a. a \<noteq> i \<longrightarrow> map_option payload (nodes h' a) = map_option payload (nodes h a)) \<and>
     (\<exists>n n' q. nodes h i = Some n \<and> nodes h' i = Some n' \<and> n_string n' = Some q \<and> readable h' (Some q) \<and> str_value h' q = s \<and>
        payload (n'\<lparr>n_string := n_string n, n_type := n_type n\<rparr>) = payload n \<and>
        n_type n' AND NOT cJSON_StringIsConst = n_type n AND NOT cJSON_StringIsConst \<and>
        (\<forall>b. b \<notin> set (block_of (own_name n)) \<longrightarrow> strs h b \<noteq> None \<longrightarrow> strs h' b = strs h b))"

lemma renamed_same:
  assumes "renamed h i s h1" "same_payload h1 h2"
  shows "renamed h i s h2"
proof -
  obtain n n' q where n: "nodes h i = Some n" "nodes h1 i = Some n'" "n_string n' = Some q" "readable h1 (Some q)" "str_value h1 q = s"
    "payload (n'\<lparr>n_string := n_string n, n_type := n_type n\<rparr>) = payload n"
    "n_type n' AND NOT cJSON_StringIsConst = n_type n AND NOT cJSON_StringIsConst"
    "\<forall>b. b \<notin> set (block_of (own_name n)) \<longrightarrow> strs h b \<noteq> None \<longrightarrow> strs h1 b = strs h b"
    using assms(1) unfolding renamed_def by blast
  obtain n2 where n2: "nodes h2 i = Some n2" "payload n2 = payload n'"
    using same_payload_node [OF same_payload_sym [OF assms(2)] n(2)] by metis
  have st: "strs h2 = strs h1" using assms(2) by (simp add: same_payload_def)
  have "payload (n2\<lparr>n_string := n_string n, n_type := n_type n\<rparr>) = payload n"
    using n(6) n2(2) by (cases n2; cases n'; cases n) (simp add: payload_def)
  moreover have "\<forall>a. a \<noteq> i \<longrightarrow> map_option payload (nodes h2 a) = map_option payload (nodes h a)"
    using assms by (simp add: renamed_def same_payload_def)
  moreover have "readable h2 = readable h1" "str_value h2 = str_value h1" using str_same [OF st] by simp_all
  ultimately show ?thesis
    using n(1,3-5,7,8) n2 payload_fields [OF n2(2)] st unfolding renamed_def by auto
qed

lemma add_ok:
  assumes "tree_ok h kids" "nodes h a = Some m" "\<not> is_reference m" "nodes h i \<noteq> None" "is_root kids i" "\<not> below kids a i"
  obtains h' where "add_item_to_array (Some a) (Some i) h = Inr (True, h')" "tree_ok h' (kids(a := kids a @ [i]))" "same_payload h h'"
proof -
  obtain n where "nodes h i = Some n" using assms(4) by blast
  from add_item_to_array_links [OF tree_ok_links(1) [OF assms(1)] assms(2,3) this assms(5,6)]
  show ?thesis using that tree_ok_same [OF _ assms(1)] by blast
qed

lemma add_item_to_object_ok:
  assumes "tree_ok h kids" "nodes h p = Some m" "\<not> is_reference m" "nodes h i = Some n" "is_root kids i" "\<not> below kids p i"
    and "readable h (Some key)" "constant_key \<Longrightarrow> \<exists>s. key = Const s"
  shows "(\<exists>h'. add_item_to_object al (Some p) (Some key) (Some i) constant_key h = Inr (True, h') \<and>
      tree_ok h' (kids(p := kids p @ [i])) \<and> renamed h i (if constant_key then str_value h key else c_string (str_value h key)) h' \<and>
      map_option n_type (nodes h' i) = Some (if constant_key then n_type n OR cJSON_StringIsConst else n_type n AND NOT cJSON_StringIsConst)) \<or>
    (\<not> constant_key \<and> \<not> al (calls h) \<and>
      add_item_to_object al (Some p) (Some key) (Some i) constant_key h = Inr (False, h\<lparr>calls := calls h + 1\<rparr>))"
proof -
  note ok = tree_ok_links [OF assms(1)]
  have oi: "p \<noteq> i" using assms(6) by auto
  have own: "heap_str (own_name n)" "set (block_of (own_name n)) \<subseteq> dom (strs h)"
    using ok(2) assms(4) by (auto simp: strs_ok_def owned_def name_ok_def)
  have fresh: "strs h (brk h) = None" using tree_ok_brk [OF assms(1)] by simp
  have step: ?thesis if r: "add_item_to_object al (Some p) (Some key) (Some i) constant_key h = add_item_to_array (Some p) (Some i) h3"
    and h3: "tree_ok h3 kids" "nodes h3 = (nodes h)(i \<mapsto> n3)" "renamed h i (if constant_key then str_value h key else c_string (str_value h key)) h3"
      "n_type n3 = (if constant_key then n_type n OR cJSON_StringIsConst else n_type n AND NOT cJSON_StringIsConst)" for h3 n3
  proof -
    have "nodes h3 p = Some m" "nodes h3 i \<noteq> None" using assms(2) h3(2) oi by auto
    with h3(1) obtain h' where h': "add_item_to_array (Some p) (Some i) h3 = Inr (True, h')" "tree_ok h' (kids(p := kids p @ [i]))" "same_payload h3 h'"
      by (rule add_ok [OF _ _ assms(3) _ assms(5,6)])
    have "nodes h3 i = Some n3" using h3(2) by simp
    then obtain n' where n': "nodes h' i = Some n'" "payload n3 = payload n'" by (rule same_payload_node [OF same_payload_sym [OF h'(3)]])
    have "map_option n_type (nodes h' i) = Some (n_type n3)" by (simp add: n'(1) payload_fields(1) [OF n'(2)])
    then show ?thesis using r h'(1,2) renamed_same [OF h3(3) h'(3)] h3(4) by (intro disjI1 exI [of _ h']) simp
  qed
  show ?thesis
  proof (cases constant_key)
    case True
    then obtain s where s: "key = Const s" using assms(8) by blast
    let ?n = "n\<lparr>n_string := Some key, n_type := n_type n OR cJSON_StringIsConst\<rparr>"
    let ?h = "h\<lparr>nodes := (nodes h)(i \<mapsto> ?n), strs := strs h |` (- set (block_of (own_name n)))\<rparr>"
    have o: "own_name ?n = None" by (simp add: own_name_def string_is_const_def const_flag)
    show ?thesis
    proof (rule step)
      show "add_item_to_object al (Some p) (Some key) (Some i) constant_key h = add_item_to_array (Some p) (Some i) ?h"
        using True oi assms(4) unfolding add_item_to_object_def get_node_Some [OF assms(4)]
        by (simp add: free_name_ok [OF own] upd_node_Some)
      show "tree_ok ?h kids"
        by (rule rename_ok [OF assms(1,4)]) (use o own(2) s in \<open>auto simp: const_flag name_ok_def\<close>)
      show "renamed h i (if constant_key then str_value h key else c_string (str_value h key)) ?h"
        using True s assms(4) by (auto simp: renamed_def readable_def str_value_def payload_def bit.conj_disj_distrib2)
    qed (simp, use True in simp)
  next
    case False
    show ?thesis
    proof (cases "al (calls h)")
      case True
      let ?n = "n\<lparr>n_string := Some (Heap (brk h)), n_type := n_type n AND NOT cJSON_StringIsConst\<rparr>"
      let ?S = "(strs h)(brk h \<mapsto> c_string (str_value h key)) |` (- set (block_of (own_name n)))"
      let ?h = "h\<lparr>nodes := (nodes h)(i \<mapsto> ?n), strs := ?S, brk := brk h + 1, calls := calls h + 1\<rparr>"
      have o: "own_name ?n = Some (Heap (brk h))" by (simp add: own_name_def string_is_const_def const_flag)
      have nb: "brk h \<notin> set (block_of (own_name n))" using own(2) fresh by auto
      let ?h1 = "h\<lparr>strs := (strs h)(brk h \<mapsto> c_string (str_value h key)), brk := brk h + 1, calls := calls h + 1\<rparr>"
      have own1: "set (block_of (own_name n)) \<subseteq> dom (strs ?h1)" using own(2) by auto
      have d: "cJSON_strdup al (Some key) h = Inr (Some (Heap (brk h)), ?h1)" using strdup_ok [OF assms(7), of al] True by simp
      show ?thesis
      proof (rule step)
        show "add_item_to_object al (Some p) (Some key) (Some i) constant_key h = add_item_to_array (Some p) (Some i) ?h"
          using free_name_ok [OF own(1) own1] False oi assms(4) nb
          unfolding add_item_to_object_def get_node_Some [OF assms(4)] d by (simp add: upd_node_Some)
        show "tree_ok ?h kids"
          by (rule rename_ok [OF assms(1,4)]) (use o own(2) nb fresh in \<open>auto simp: const_flag name_ok_def string_is_const_def restrict_map_def split: if_splits\<close>)
        show "renamed h i (if constant_key then str_value h key else c_string (str_value h key)) ?h"
          using False assms(4) nb fresh by (auto simp: renamed_def readable_def str_value_def payload_def and.assoc restrict_map_def)
      qed (simp, use False in simp)
    next
      case False
      then have "cJSON_strdup al (Some key) h = Inr (None, h\<lparr>calls := calls h + 1\<rparr>)" using strdup_ok [OF assms(7), of al] by simp
      then show ?thesis using False \<open>\<not> constant_key\<close> oi assms(4) by (auto simp: add_item_to_object_def)
    qed
  qed
qed

section \<open>Looking members up\<close>

lemma tolower_zero: "tolower c = 0 \<longleftrightarrow> c = 0"
proof -
  have "c + 32 \<noteq> 0" if "c \<le> 90" for c :: u8
    using that by (auto simp: eq_neg_iff_add_eq_0 [symmetric])
  then show ?thesis by (auto simp: tolower_def)
qed

lemma strcmp_loop_eq: "0 \<notin> set a \<Longrightarrow> 0 \<notin> set b \<Longrightarrow> strcmp_loop a b = 0 \<longleftrightarrow> map tolower a = map tolower b"
  by (induction a b rule: strcmp_loop.induct) (auto simp: tolower_zero uint_0_iff word_uint_eq_iff [symmetric])

lemma c_string_no_zero [simp]: "0 \<notin> set (c_string s)"
  by (auto simp: c_string_def dest: set_takeWhileD)

text \<open>The first child whose name is the one asked for; a case-sensitive search ends at a child without a name.\<close>

definition name_is :: "json_heap \<Rightarrow> bool \<Rightarrow> u8 list \<Rightarrow> addr \<Rightarrow> bool" where
  "name_is h case_sensitive s c =
     (case n_string (the (nodes h c)) of
        None \<Rightarrow> False
      | Some q \<Rightarrow> (if case_sensitive then c_string (str_value h q) = s
                   else map tolower (c_string (str_value h q)) = map tolower s))"

definition named :: "json_heap \<Rightarrow> addr \<Rightarrow> bool" where
  "named h c \<longleftrightarrow> n_string (the (nodes h c)) \<noteq> None"

definition member_of :: "json_heap \<Rightarrow> bool \<Rightarrow> u8 list \<Rightarrow> addr list \<Rightarrow> addr option" where
  "member_of h case_sensitive s ks =
     find (name_is h case_sensitive s) (if case_sensitive then takeWhile (named h) ks else ks)"

lemma goes_on_ok:
  assumes "nodes h c = Some n" "readable h (n_string n)" "readable h (Some key)"
  shows "goes_on h (Some key) cs n = Inr (\<not> name_is h cs (c_string (str_value h key)) c \<and> (cs \<longrightarrow> named h c))"
proof (cases "n_string n")
  case None
  then show ?thesis using assms by (auto simp: goes_on_def name_is_def named_def case_insensitive_strcmp_def)
next
  case (Some q)
  then show ?thesis using assms
    by (auto simp: goes_on_def name_is_def named_def case_insensitive_strcmp_def strcmp_loop_eq)
qed

lemma search_kids:
  assumes "seg (nodes h) pv ks None" "\<forall>c \<in> set ks. readable h (n_string (the (nodes h c)))" "readable h (Some key)"
  shows "search_loop h (Some key) cs (first ks) = Some (Inr (member_of h cs (c_string (str_value h key)) ks))"
  using assms(1,2)
proof (induction ks arbitrary: pv)
  case Nil
  show ?case by (subst search_loop.simps) (simp add: member_of_def)
next
  case (Cons c ks)
  obtain n where n: "nodes h c = Some n" "n_next n = first ks" using Cons.prems(1) by (auto simp: links_def)
  have g: "goes_on h (Some key) cs n = Inr (\<not> name_is h cs (c_string (str_value h key)) c \<and> (cs \<longrightarrow> named h c))"
    by (rule goes_on_ok [OF n(1) _ assms(3)]) (use Cons.prems(2) n(1) in simp)
  have IH: "search_loop h (Some key) cs (first ks) = Some (Inr (member_of h cs (c_string (str_value h key)) ks))"
    using Cons.IH [of "Some c"] Cons.prems by simp
  show ?case
    by (subst search_loop.simps) (use n g IH in \<open>auto simp: member_of_def name_is_def named_def split: option.splits\<close>)
qed

lemma tree_names:
  assumes "tree_ok h kids" "nodes h c = Some n"
  shows "readable h (n_string n)"
proof (cases "n_string n")
  case (Some q)
  have n: "name_ok n" "set (owned n) \<subseteq> dom (strs h)"
    using tree_ok_links(2) [OF assms(1)] assms(2) unfolding strs_ok_def by blast+
  show ?thesis
  proof (cases q)
    case (Heap b)
    then have "own_name n = Some (Heap b)" using n(1) Some by (auto simp: name_ok_def own_name_def)
    then show ?thesis using n(2) Some Heap by (auto simp: readable_def owned_def)
  qed (simp add: Some readable_def)
qed (simp add: readable_def)

lemma get_object_item_kids:
  assumes "tree_ok h kids" "nodes h p = Some m" "\<not> is_reference m" "readable h (Some key)"
  shows "get_object_item h (Some p) (Some key) cs = Inr (member_of h cs (c_string (str_value h key)) (kids p))"
proof -
  note k = node_kids [OF tree_ok_links(1) [OF assms(1)] assms(2)]
  have "readable h (n_string (the (nodes h c)))" if "c \<in> set (kids p)" for c
    using tree_nodes [OF tree_ok_links(1) [OF assms(1)] that] tree_names [OF assms(1), of c] by (metis option.sel)
  then have "search_loop h (Some key) cs (first (kids p)) = Some (Inr (member_of h cs (c_string (str_value h key)) (kids p)))"
    using search_kids k(4) assms(4) unfolding chained_def by blast
  then show ?thesis using assms(2,3) k(2) by (simp add: get_object_item_def run_loop_def)
qed

lemma member_of_kid: "member_of h cs s ks = Some c \<Longrightarrow> c \<in> set ks"
  by (auto simp: member_of_def find_Some_iff split: if_splits) (metis nth_mem set_takeWhileD)

section \<open>The children of an item\<close>

text \<open>The children can be read off the memory, so that trees can be described without a ghost.\<close>

partial_function (option) chain_walk :: "(addr \<rightharpoonup> node) \<Rightarrow> addr option \<Rightarrow> addr list option" where
  "chain_walk M p =
     (case p of
        None \<Rightarrow> Some []
      | Some a \<Rightarrow> (case M a of
                    None \<Rightarrow> Some []
                  | Some n \<Rightarrow> Option.bind (chain_walk M (n_next n)) (\<lambda>xs. Some (a # xs))))"

definition kids_of :: "json_heap \<Rightarrow> addr \<Rightarrow> addr list" where
  "kids_of h a =
     (case nodes h a of
        None \<Rightarrow> []
      | Some n \<Rightarrow> if is_reference n then [] else (case chain_walk (nodes h) (n_child n) of None \<Rightarrow> [] | Some xs \<Rightarrow> xs))"

lemma chain_walk_seg: "seg M pv xs None \<Longrightarrow> chain_walk M (first xs) = Some xs"
proof (induction xs arbitrary: pv)
  case Nil
  show ?case by (subst chain_walk.simps) simp
next
  case (Cons x xs)
  then show ?case by (subst chain_walk.simps) (auto simp: links_def)
qed

lemma kids_of_tree:
  assumes "tree_ok h kids"
  shows "kids_of h = kids"
proof
  fix a
  show "kids_of h a = kids a"
  proof (cases "nodes h a")
    case None
    then show ?thesis using fresh_root(2) [OF assms] by (simp add: kids_of_def)
  next
    case (Some n)
    note k = node_kids [OF tree_ok_links(1) [OF assms] Some]
    then show ?thesis using Some chain_walk_seg k(4) by (auto simp: kids_of_def chained_def)
  qed
qed

definition json_ok :: "json_heap \<Rightarrow> bool" where
  "json_ok h \<longleftrightarrow> tree_ok h (kids_of h)"

lemma json_okI: "tree_ok h kids \<Longrightarrow> json_ok h \<and> kids_of h = kids"
  by (simp add: json_ok_def kids_of_tree)

text \<open>An item that can be given away: a root, into a parent that is not below it and no reference.\<close>

definition can_hold :: "json_heap \<Rightarrow> addr \<Rightarrow> bool" where
  "can_hold h p \<longleftrightarrow> (\<exists>m. nodes h p = Some m \<and> \<not> is_reference m)"

definition can_take :: "json_heap \<Rightarrow> addr \<Rightarrow> addr \<Rightarrow> bool" where
  "can_take h p i \<longleftrightarrow> can_hold h p \<and> nodes h i \<noteq> None \<and> is_root (kids_of h) i \<and> \<not> below (kids_of h) p i"

section \<open>List operations on trees\<close>

lemma array_add:
  assumes "json_ok h" "can_take h p i"
  obtains h' where "cJSON_AddItemToArray (Some p) (Some i) h = Inr (True, h')" "json_ok h'"
    "kids_of h' = (kids_of h)(p := kids_of h p @ [i])" "same_payload h h'"
proof -
  obtain m where m: "nodes h p = Some m" "\<not> is_reference m" using assms(2) by (auto simp: can_take_def can_hold_def)
  have i: "nodes h i \<noteq> None" "is_root (kids_of h) i" "\<not> below (kids_of h) p i" using assms(2) by (simp_all add: can_take_def)
  obtain h' where h': "add_item_to_array (Some p) (Some i) h = Inr (True, h')" "tree_ok h' ((kids_of h)(p := kids_of h p @ [i]))"
    "same_payload h h'" by (rule add_ok [OF assms(1) [unfolded json_ok_def] m i])
  show ?thesis by (rule that [of h']) (use h' json_okI [OF h'(2)] in \<open>simp_all add: cJSON_AddItemToArray_def\<close>)
qed

lemma remove1_middle: "distinct (xs @ c # ys) \<Longrightarrow> remove1 c (xs @ c # ys) = xs @ ys"
  by (simp add: remove1_append)

lemma array_detach:
  assumes "json_ok h" "c \<in> set (kids_of h p)"
  obtains h' where "cJSON_DetachItemViaPointer (Some p) (Some c) h = Inr (Some c, h')" "json_ok h'"
    "kids_of h' = (kids_of h)(p := remove1 c (kids_of h p))" "is_root (kids_of h') c" "same_payload h h'"
proof -
  note ok = assms(1) [unfolded json_ok_def]
  obtain xs ys where s: "kids_of h p = xs @ c # ys" using assms(2) by (meson split_list)
  have d: "distinct (kids_of h p)" using tree_ok_links(4) [OF ok] by (simp add: kids_ok_def)
  from detach_links [OF tree_ok_links(1) [OF ok] s] obtain h' where
    h': "cJSON_DetachItemViaPointer (Some p) (Some c) h = Inr (Some c, h')" "links_ok (nodes h') ((kids_of h)(p := xs @ ys))"
    "is_root ((kids_of h)(p := xs @ ys)) c" "same_payload h h'" by blast
  have r: "xs @ ys = remove1 c (kids_of h p)" using d unfolding s by (simp add: remove1_append)
  note t = json_okI [OF tree_ok_same [OF h'(4) ok h'(2)]]
  show ?thesis by (rule that [of h']) (use h' t r in simp_all)
qed

lemma array_insert:
  assumes "json_ok h" "can_take h p i" "k \<le> length (kids_of h p)"
  obtains h' where "cJSON_InsertItemInArray (Some p) (int k) (Some i) h = Inr (True, h')" "json_ok h'"
    "kids_of h' = (kids_of h)(p := take k (kids_of h p) @ i # drop k (kids_of h p))" "same_payload h h'"
proof (cases "k = length (kids_of h p)")
  case True
  obtain m where m: "nodes h p = Some m" "\<not> is_reference m" using assms(2) by (auto simp: can_take_def can_hold_def)
  have "get_array_item h (Some p) k = Inr None"
    using get_array_item_kids [OF tree_ok_links(1) [OF assms(1) [unfolded json_ok_def]] m] True by simp
  then have e: "cJSON_InsertItemInArray (Some p) (int k) (Some i) h = cJSON_AddItemToArray (Some p) (Some i) h"
    by (simp add: cJSON_InsertItemInArray_def cJSON_AddItemToArray_def)
  from assms(1,2) show ?thesis by (rule array_add) (rule that, use e [unfolded True] in \<open>simp_all add: True\<close>)
next
  case False
  note ok = assms(1) [unfolded json_ok_def]
  let ?x = "take k (kids_of h p)" and ?y = "drop (Suc k) (kids_of h p)"
  have s: "kids_of h p = ?x @ kids_of h p ! k # ?y" using False assms(3) by (simp add: id_take_nth_drop [symmetric])
  have d: "drop k (kids_of h p) = kids_of h p ! k # ?y" using False assms(3) by (simp add: Cons_nth_drop_Suc)
  obtain n where "nodes h i = Some n" using assms(2) by (auto simp: can_take_def)
  from insert_links [OF tree_ok_links(1) [OF ok] s this] assms(2,3) obtain h' where
    h': "cJSON_InsertItemInArray (Some p) (int k) (Some i) h = Inr (True, h')"
    "links_ok (nodes h') ((kids_of h)(p := ?x @ i # kids_of h p ! k # ?y))" "same_payload h h'" by (auto simp: can_take_def)
  note t = json_okI [OF tree_ok_same [OF h'(3) ok h'(2)]]
  show ?thesis by (rule that [of h']) (use h' t d in simp_all)
qed

text \<open>The heap without the tree of a root.\<close>

lemma root_delete:
  assumes "json_ok h" "nodes h a \<noteq> None" "is_root (kids_of h) a"
  shows "delete_item (Some a) h = Inr (prune h {x. below (kids_of h) x a})" "json_ok (prune h {x. below (kids_of h) x a})"
    "kids_of (prune h {x. below (kids_of h) x a}) = uproot (kids_of h) a"
  using delete_root [OF assms(1) [unfolded json_ok_def] assms(3,2)] json_okI [OF tree_ok_prune [OF assms(1) [unfolded json_ok_def] assms(3,2)]]
  by simp_all

definition put_instead :: "addr \<Rightarrow> addr \<Rightarrow> addr list \<Rightarrow> addr list" where
  "put_instead c i = map (\<lambda>x. if x = c then i else x)"

lemma put_instead_middle: "distinct (xs @ c # ys) \<Longrightarrow> put_instead c i (xs @ c # ys) = xs @ i # ys"
  by (auto simp: put_instead_def intro: map_idI)

lemma array_replace:
  assumes "json_ok h" "can_take h p i" "c \<in> set (kids_of h p)"
  obtains h1 where "cJSON_ReplaceItemViaPointer (Some p) (Some c) (Some i) h = Inr (True, prune h1 {x. below (kids_of h1) x c})"
    "json_ok h1" "kids_of h1 = (kids_of h)(p := put_instead c i (kids_of h p))" "is_root (kids_of h1) c" "nodes h1 c \<noteq> None"
    "same_payload h h1"
proof -
  note ok = assms(1) [unfolded json_ok_def]
  obtain xs ys where s: "kids_of h p = xs @ c # ys" using assms(3) by (meson split_list)
  have d: "distinct (xs @ c # ys)" using tree_ok_links(4) [OF ok] s unfolding kids_ok_def by metis
  obtain n where "nodes h i = Some n" using assms(2) by (auto simp: can_take_def)
  from replace_links [OF tree_ok_links(1) [OF ok] s this] assms(2) obtain h1 where
    h1: "cJSON_ReplaceItemViaPointer (Some p) (Some c) (Some i) h = succeed (delete_item (Some c) h1)"
    "links_ok (nodes h1) ((kids_of h)(p := xs @ i # ys))" "is_root ((kids_of h)(p := xs @ i # ys)) c" "same_payload h h1"
    by (auto simp: can_take_def)
  note t = json_okI [OF tree_ok_same [OF h1(4) ok h1(2)]]
  have "nodes h c \<noteq> None" using tree_nodes [OF tree_ok_links(1) [OF ok] assms(3)] by (metis option.distinct(1))
  then have c: "nodes h1 c \<noteq> None" using same_payload_dom [OF h1(4)] by simp
  have "delete_item (Some c) h1 = Inr (prune h1 {x. below (kids_of h1) x c})"
    using root_delete(1) [of h1 c] t c h1(3) by simp
  then show ?thesis by (intro that [of h1]) (use h1 t c s put_instead_middle [OF d] in simp_all)
qed

section \<open>What the operations do\<close>

lemma array_insert_any:
  assumes "json_ok h" "can_take h p i"
  obtains h' where "cJSON_InsertItemInArray (Some p) (int k) (Some i) h = Inr (True, h')" "json_ok h'"
    "kids_of h' = (kids_of h)(p := take k (kids_of h p) @ i # drop k (kids_of h p))" "same_payload h h'"
proof (cases "k \<le> length (kids_of h p)")
  case True
  from assms True show ?thesis by (rule array_insert) (rule that)
next
  case False
  obtain m where m: "nodes h p = Some m" "\<not> is_reference m" using assms(2) by (auto simp: can_take_def can_hold_def)
  have "get_array_item h (Some p) k = Inr None"
    using get_array_item_kids [OF tree_ok_links(1) [OF assms(1) [unfolded json_ok_def]] m] False by simp
  then have e: "cJSON_InsertItemInArray (Some p) (int k) (Some i) h = cJSON_AddItemToArray (Some p) (Some i) h"
    by (simp add: cJSON_InsertItemInArray_def cJSON_AddItemToArray_def)
  from assms show ?thesis by (rule array_add) (rule that, use e False in simp_all)
qed

text \<open>
  C7: adding, inserting and replacing are operations on the lists of children. For memory that holds well-formed
  trees and an item that is the root of a tree the parent is not in, adding appends the item to the children
  of the parent, inserting puts it at the given position (at the end when there are fewer children), and
  replacing puts it where the old child was and frees exactly the tree of that child; nothing else changes
  in the lists, in the contents of the items or in their strings, and the trees are well formed afterwards.
\<close>

theorem tree_ops_refine:
  assumes "json_ok h" "can_take h p i"
  shows "(\<exists>h'. cJSON_AddItemToArray (Some p) (Some i) h = Inr (True, h') \<and> json_ok h' \<and> same_payload h h' \<and>
      kids_of h' = (kids_of h)(p := kids_of h p @ [i])) \<and>
    (\<forall>k. \<exists>h'. cJSON_InsertItemInArray (Some p) (int k) (Some i) h = Inr (True, h') \<and> json_ok h' \<and> same_payload h h' \<and>
      kids_of h' = (kids_of h)(p := take k (kids_of h p) @ i # drop k (kids_of h p))) \<and>
    (\<forall>c \<in> set (kids_of h p). \<exists>h1. json_ok h1 \<and> same_payload h h1 \<and> kids_of h1 = (kids_of h)(p := put_instead c i (kids_of h p)) \<and>
      cJSON_ReplaceItemViaPointer (Some p) (Some c) (Some i) h = Inr (True, prune h1 {x. below (kids_of h1) x c}) \<and>
      json_ok (prune h1 {x. below (kids_of h1) x c}) \<and> kids_of (prune h1 {x. below (kids_of h1) x c}) = uproot (kids_of h1) c)"
proof (intro conjI allI ballI)
  show "\<exists>h'. cJSON_AddItemToArray (Some p) (Some i) h = Inr (True, h') \<and> json_ok h' \<and> same_payload h h' \<and>
      kids_of h' = (kids_of h)(p := kids_of h p @ [i])"
    by (rule array_add [OF assms]) blast
  show "\<exists>h'. cJSON_InsertItemInArray (Some p) (int k) (Some i) h = Inr (True, h') \<and> json_ok h' \<and> same_payload h h' \<and>
      kids_of h' = (kids_of h)(p := take k (kids_of h p) @ i # drop k (kids_of h p))" for k
    by (rule array_insert_any [OF assms, of k]) blast
  fix c assume c: "c \<in> set (kids_of h p)"
  obtain h1 where h1: "cJSON_ReplaceItemViaPointer (Some p) (Some c) (Some i) h = Inr (True, prune h1 {x. below (kids_of h1) x c})"
    "json_ok h1" "kids_of h1 = (kids_of h)(p := put_instead c i (kids_of h p))" "is_root (kids_of h1) c" "nodes h1 c \<noteq> None"
    "same_payload h h1" by (rule array_replace [OF assms c])
  show "\<exists>h1. json_ok h1 \<and> same_payload h h1 \<and> kids_of h1 = (kids_of h)(p := put_instead c i (kids_of h p)) \<and>
      cJSON_ReplaceItemViaPointer (Some p) (Some c) (Some i) h = Inr (True, prune h1 {x. below (kids_of h1) x c}) \<and>
      json_ok (prune h1 {x. below (kids_of h1) x c}) \<and> kids_of (prune h1 {x. below (kids_of h1) x c}) = uproot (kids_of h1) c"
    using h1 root_delete(2,3) [OF h1(2,5,4)] by (intro exI [of _ h1] conjI)
qed

text \<open>A memory with an array that holds an empty object, and a string beside it.\<close>

definition demo_heap :: json_heap where
  "demo_heap =
     \<lparr>nodes = [0 \<mapsto> empty_node\<lparr>n_type := cJSON_Array, n_child := Some 1\<rparr>,
               1 \<mapsto> empty_node\<lparr>n_type := cJSON_Object, n_prev := Some 1\<rparr>,
               2 \<mapsto> empty_node\<lparr>n_type := cJSON_String, n_valuestring := Some (Heap 3)\<rparr>],
      strs = [3 \<mapsto> [104, 105]], brk = 4, calls = 4\<rparr>"

definition demo_kids :: "addr \<Rightarrow> addr list" where
  "demo_kids = (\<lambda>a. if a = 0 then [1] else [])"

lemma demo_below: "below demo_kids x a \<longleftrightarrow> x = a \<or> (a = 0 \<and> x = 1)"
  using below_cases [of demo_kids x a] below_leaf [of demo_kids 1 x] by (auto simp: demo_kids_def)

lemma demo_heap_ok: "tree_ok demo_heap demo_kids"
proof -
  have "acyclic (child_rel demo_kids)"
  proof (rule wf_acyclic, rule wf_subset [OF wf_measure [of "\<lambda>a. 1 - a"]])
    show "child_rel demo_kids \<subseteq> measure (\<lambda>a. 1 - a)" by (auto simp: child_rel_def demo_kids_def split: if_splits)
  qed
  then have "links_ok (nodes demo_heap) demo_kids"
    by (auto simp: links_ok_def demo_kids_def demo_heap_def node_ok_def is_reference_def empty_node_def chained_def links_def is_root_def
        split: if_splits)
  moreover have own: "heap_str (own_value n) \<and> name_ok n \<and> owned n = (if a = 2 then [3] else [])" if "nodes demo_heap a = Some n" for a n
    using that by (auto simp: demo_heap_def owned_def own_value_def own_name_def name_ok_def is_reference_def empty_node_def split: if_splits)
  have "strs_ok demo_heap"
    unfolding strs_ok_def
  proof (intro conjI allI impI)
    fix s
    have "(\<exists>a n. nodes demo_heap a = Some n \<and> s \<in> set (owned n)) \<longleftrightarrow> s = 3"
      using own by (fastforce simp: demo_heap_def split: if_splits)
    then show "strs demo_heap s \<noteq> None \<longleftrightarrow> (\<exists>a n. nodes demo_heap a = Some n \<and> s \<in> set (owned n))"
      by (simp add: demo_heap_def)
  qed (use own in \<open>auto split: if_splits\<close>)
  ultimately show ?thesis by (simp add: tree_ok_def fresh_ok_def demo_heap_def)
qed

lemma demo_heap_facts: "json_ok demo_heap" "kids_of demo_heap = demo_kids" "can_take demo_heap 0 2"
proof -
  show j: "json_ok demo_heap" "kids_of demo_heap = demo_kids" using json_okI [OF demo_heap_ok] by simp_all
  show "can_take demo_heap 0 2"
    by (simp add: can_take_def can_hold_def j(2) demo_below is_root_def)
      (simp add: demo_heap_def demo_kids_def is_reference_def empty_node_def)
qed

theorem tree_ops_refine_witness:
  "\<exists>h'. cJSON_InsertItemInArray (Some 0) 0 (Some 2) demo_heap = Inr (True, h') \<and> json_ok h' \<and> kids_of h' 0 = [2, 1]"
  using tree_ops_refine [OF demo_heap_facts(1,3), THEN conjunct2, THEN conjunct1, rule_format, of 0]
  unfolding demo_heap_facts(2) by (auto simp: demo_kids_def)

text \<open>A child taken out of its list, if there is one.\<close>

definition detached :: "json_heap \<Rightarrow> addr \<Rightarrow> addr option \<Rightarrow> json_heap \<Rightarrow> bool" where
  "detached h p r h' \<longleftrightarrow>
     (case r of
        None \<Rightarrow> h' = h
      | Some c \<Rightarrow> json_ok h' \<and> same_payload h h' \<and> kids_of h' = (kids_of h)(p := remove1 c (kids_of h p)) \<and> is_root (kids_of h') c)"

lemma detach_result:
  assumes "json_ok h" "\<And>c. r = Some c \<Longrightarrow> c \<in> set (kids_of h p)"
  obtains h' where "cJSON_DetachItemViaPointer (Some p) r h = Inr (r, h')" "detached h p r h'"
proof (cases r)
  case None
  then show ?thesis using that by (simp add: cJSON_DetachItemViaPointer_def detached_def)
next
  case (Some c)
  show ?thesis by (rule array_detach [OF assms(1) assms(2) [OF Some]]) (use that Some in \<open>auto simp: detached_def\<close>)
qed

definition nth_kid :: "json_heap \<Rightarrow> addr \<Rightarrow> int \<Rightarrow> addr option" where
  "nth_kid h p k = (if 0 \<le> k \<and> nat k < length (kids_of h p) then Some (kids_of h p ! nat k) else None)"

lemma json_ok_hold:
  assumes "json_ok h" "can_hold h p"
  obtains m where "nodes h p = Some m" "\<not> is_reference m" "tree_ok h (kids_of h)"
  using assms by (auto simp: can_hold_def json_ok_def)

lemma detach_nth:
  assumes "json_ok h" "can_hold h p"
  obtains h' where "cJSON_DetachItemFromArray (Some p) k h = Inr (nth_kid h p k, h')" "detached h p (nth_kid h p k) h'"
proof -
  obtain m where m: "nodes h p = Some m" "\<not> is_reference m" "tree_ok h (kids_of h)" by (rule json_ok_hold [OF assms])
  have "cJSON_DetachItemFromArray (Some p) k h = cJSON_DetachItemViaPointer (Some p) (nth_kid h p k) h"
    using get_array_item_kids [OF tree_ok_links(1) [OF m(3)] m(1,2), of "nat k"]
    by (auto simp: cJSON_DetachItemFromArray_def nth_kid_def cJSON_DetachItemViaPointer_def)
  moreover obtain h' where "cJSON_DetachItemViaPointer (Some p) (nth_kid h p k) h = Inr (nth_kid h p k, h')" "detached h p (nth_kid h p k) h'"
    by (rule detach_result [OF assms(1), of "nth_kid h p k" p]) (auto simp: nth_kid_def split: if_splits)
  ultimately show ?thesis using that by simp
qed

lemma detach_member:
  assumes "json_ok h" "can_hold h p" "readable h (Some key)"
  obtains h' where "detach_member cs (Some p) (Some key) h = Inr (member_of h cs (c_string (str_value h key)) (kids_of h p), h')"
    "detached h p (member_of h cs (c_string (str_value h key)) (kids_of h p)) h'"
proof -
  obtain m where m: "nodes h p = Some m" "\<not> is_reference m" "tree_ok h (kids_of h)" by (rule json_ok_hold [OF assms(1,2)])
  let ?r = "member_of h cs (c_string (str_value h key)) (kids_of h p)"
  obtain h' where "cJSON_DetachItemViaPointer (Some p) ?r h = Inr (?r, h')" "detached h p ?r h'"
    by (rule detach_result [OF assms(1), of ?r p]) (auto intro: member_of_kid)
  then show ?thesis using that get_object_item_kids [OF m(3,1,2) assms(3), of cs] by (simp add: detach_member_def)
qed

text \<open>
  C22: detaching by index, or by name with or without regard to case, takes exactly the child at that position,
  or the first child with that name, out of the list of the parent, leaves it as a root with its tree and its
  strings unchanged, and does nothing when there is no such child.
\<close>

theorem detach_spec:
  assumes "json_ok h" "can_hold h p"
  shows "(\<forall>k. \<exists>h'. cJSON_DetachItemFromArray (Some p) k h = Inr (nth_kid h p k, h') \<and> detached h p (nth_kid h p k) h') \<and>
    (\<forall>key cs. readable h (Some key) \<longrightarrow>
       (let r = member_of h cs (c_string (str_value h key)) (kids_of h p)
        in \<exists>h'. (if cs then cJSON_DetachItemFromObjectCaseSensitive else cJSON_DetachItemFromObject) (Some p) (Some key) h = Inr (r, h') \<and>
             detached h p r h'))"
proof (intro conjI allI impI)
  show "\<exists>h'. cJSON_DetachItemFromArray (Some p) k h = Inr (nth_kid h p k, h') \<and> detached h p (nth_kid h p k) h'" for k
    by (rule detach_nth [OF assms, of k]) blast
  fix key cs assume "readable h (Some key)"
  then obtain h' where "detach_member cs (Some p) (Some key) h = Inr (member_of h cs (c_string (str_value h key)) (kids_of h p), h')"
    "detached h p (member_of h cs (c_string (str_value h key)) (kids_of h p)) h'" by (rule detach_member [OF assms])
  then show "let r = member_of h cs (c_string (str_value h key)) (kids_of h p)
        in \<exists>h'. (if cs then cJSON_DetachItemFromObjectCaseSensitive else cJSON_DetachItemFromObject) (Some p) (Some key) h = Inr (r, h') \<and>
             detached h p r h'"
    by (cases cs) (auto simp: Let_def cJSON_DetachItemFromObjectCaseSensitive_def cJSON_DetachItemFromObject_def)
qed

lemma demo_hold: "can_hold demo_heap 0"
  using demo_heap_facts(3) by (simp add: can_take_def)

theorem detach_spec_witness:
  "\<exists>h'. cJSON_DetachItemFromArray (Some 0) 0 demo_heap = Inr (Some 1, h') \<and> json_ok h' \<and> kids_of h' 0 = []"
  using detach_spec [OF demo_heap_facts(1) demo_hold, THEN conjunct1, rule_format, of 0]
  unfolding nth_kid_def detached_def demo_heap_facts(2) by (auto simp: demo_kids_def)

text \<open>
  C20: deleting the root of a tree ends, without a fault, and frees exactly the items of that tree and the strings
  they own: every other item and every other string is as before, and the remaining trees are well formed.
\<close>

theorem cJSON_Delete_spec:
  assumes "json_ok h" "nodes h a \<noteq> None" "is_root (kids_of h) a"
  shows "\<exists>h'. delete_item (Some a) h = Inr h' \<and> json_ok h' \<and>
    (\<forall>x. nodes h' x = (if below (kids_of h) x a then None else nodes h x)) \<and>
    (\<forall>s. strs h' s = (if \<exists>x n. below (kids_of h) x a \<and> nodes h x = Some n \<and> s \<in> set (owned n) then None else strs h s)) \<and>
    (\<forall>x. kids_of h' x = (if below (kids_of h) x a then [] else kids_of h x))"
proof -
  have "s \<in> blocks_in h {x. below (kids_of h) x a} \<longleftrightarrow> (\<exists>x n. below (kids_of h) x a \<and> nodes h x = Some n \<and> s \<in> set (owned n))" for s
    using below_dom [OF assms(1) [unfolded json_ok_def] assms(2)] by (fastforce simp: blocks_in_def)
  then show ?thesis using root_delete [OF assms] by (auto simp: restrict_map_def uproot_def)
qed

theorem cJSON_Delete_spec_witness:
  "\<exists>h'. delete_item (Some 0) demo_heap = Inr h' \<and> json_ok h' \<and> nodes h' 0 = None \<and> nodes h' 1 = None \<and> nodes h' 2 \<noteq> None"
proof -
  have n: "nodes demo_heap 0 \<noteq> None" "nodes demo_heap 2 \<noteq> None" by (simp_all add: demo_heap_def)
  have "is_root (kids_of demo_heap) 0" by (simp add: demo_heap_facts(2) is_root_def demo_kids_def)
  from cJSON_Delete_spec [OF demo_heap_facts(1) n(1) this] show ?thesis
    using n(2) unfolding demo_heap_facts(2) demo_below by auto
qed

section \<open>Adding and looking up\<close>

text \<open>Giving an item a name leaves the names of all other items alone.\<close>

lemma renamed_name_is:
  assumes "tree_ok h kids" "renamed h i s h'" "c \<noteq> i" "nodes h c = Some n"
  shows "name_is h' cs t c = name_is h cs t c" "named h' c = named h c"
proof -
  obtain n' where n': "nodes h' c = Some n'" "payload n' = payload n"
    using assms(2-4) unfolding renamed_def by (metis (no_types, lifting) map_option_eq_Some)
  have name: "n_string n' = n_string n" using payload_fields(3) [OF n'(2)] .
  obtain k where k: "nodes h i = Some k" "\<forall>b. b \<notin> set (block_of (own_name k)) \<longrightarrow> strs h b \<noteq> None \<longrightarrow> strs h' b = strs h b"
    using assms(2) unfolding renamed_def by blast
  have "str_value h' q = str_value h q" if q: "n_string n = Some q" for q
  proof (cases q)
    case (Heap b)
    have r: "strs h b \<noteq> None" using tree_names [OF assms(1,4)] q Heap by (auto simp: readable_def)
    have "name_ok n" using tree_ok_links(2) [OF assms(1)] assms(4) by (simp add: strs_ok_def)
    then have "b \<in> set (owned n)" using q Heap by (auto simp: owned_def name_ok_def own_name_def)
    moreover have "set (owned n) \<inter> set (owned k) = {}"
      using tree_ok_links(2) [OF assms(1)] assms(3,4) k(1) unfolding strs_ok_def by blast
    ultimately have "b \<notin> set (block_of (own_name k))" by (auto simp: owned_def)
    then show ?thesis using k(2) r Heap by (simp add: str_value_def)
  qed (simp add: str_value_def)
  then show "name_is h' cs t c = name_is h cs t c" "named h' c = named h c"
    using n' assms(4) name by (auto simp: name_is_def named_def split: option.splits)
qed

lemma find_snoc: "(\<forall>x \<in> set xs. \<not> P x) \<Longrightarrow> find P (xs @ [y]) = (if P y then Some y else None)"
  by (induction xs) auto

lemma add_then_get_lookup:
  assumes "tree_ok h kids" "tree_ok h' (kids(p := kids p @ [i]))" "renamed h i s h'" "is_root kids i"
    and "\<forall>c \<in> set (kids p). named h c \<and> \<not> name_is h False (c_string s) c"
  shows "member_of h' cs (c_string s) (kids p @ [i]) = Some i"
proof -
  have c: "named h' c \<and> \<not> name_is h' cs (c_string s) c" if k: "c \<in> set (kids p)" for c
  proof -
    obtain n where n: "nodes h c = Some n" using tree_nodes [OF tree_ok_links(1) [OF assms(1)] k] by metis
    have "c \<noteq> i" using root_not_kid [OF assms(4)] k by auto
    from renamed_name_is [OF assms(1,3) this n] show ?thesis
      using assms(5) k by (cases cs) (auto simp: name_is_def split: option.splits)
  qed
  have i: "named h' i" "name_is h' cs (c_string s) i"
    using assms(3) by (auto simp: renamed_def named_def name_is_def)
  have "takeWhile (named h') (kids p @ [i]) = kids p @ [i]" using c i(1) by (simp add: takeWhile_append)
  moreover have "find (name_is h' cs (c_string s)) (kids p @ [i]) = Some i" using c i by (subst find_snoc) auto
  ultimately show ?thesis by (cases cs) (simp_all add: member_of_def)
qed

text \<open>
  C21: an item added to an object is found under its name. If no member of the object has the name yet, not even
  in other case, then adding the item under it either fails because there is no memory for the copy of the name,
  and then changes nothing, or it appends the item to the members, after which both ways of looking the name up
  return it.
\<close>

theorem add_then_get:
  assumes "json_ok h" "can_take h p i" "readable h (Some key)"
    and "\<forall>c \<in> set (kids_of h p). named h c \<and> \<not> name_is h False (c_string (str_value h key)) c"
  shows "cJSON_AddItemToObject al (Some p) (Some key) (Some i) h = Inr (False, h\<lparr>calls := calls h + 1\<rparr>) \<and> \<not> al (calls h) \<or>
    (\<exists>h'. cJSON_AddItemToObject al (Some p) (Some key) (Some i) h = Inr (True, h') \<and> json_ok h' \<and>
       kids_of h' = (kids_of h)(p := kids_of h p @ [i]) \<and>
       (\<forall>q. readable h' (Some q) \<and> c_string (str_value h' q) = c_string (str_value h key) \<longrightarrow>
          cJSON_GetObjectItem h' (Some p) (Some q) = Inr (Some i) \<and>
          cJSON_GetObjectItemCaseSensitive h' (Some p) (Some q) = Inr (Some i)))"
proof -
  obtain m where m: "nodes h p = Some m" "\<not> is_reference m" and t: "tree_ok h (kids_of h)"
    using assms(1,2) by (auto simp: can_take_def can_hold_def json_ok_def)
  obtain n where n: "nodes h i = Some n" and i: "is_root (kids_of h) i" "\<not> below (kids_of h) p i"
    using assms(2) by (auto simp: can_take_def)
  let ?s = "c_string (str_value h key)"
  have cc: "c_string ?s = ?s" by (simp add: c_string_def)
  from add_item_to_object_ok [OF t m n i assms(3), of False al] consider
    (ok) h' where "add_item_to_object al (Some p) (Some key) (Some i) False h = Inr (True, h')"
      "tree_ok h' ((kids_of h)(p := kids_of h p @ [i]))" "renamed h i ?s h'"
  | (no) "\<not> al (calls h)" "add_item_to_object al (Some p) (Some key) (Some i) False h = Inr (False, h\<lparr>calls := calls h + 1\<rparr>)"
    by auto
  then show ?thesis
  proof cases
    case ok
    note j = json_okI [OF ok(2)]
    have pi: "p \<noteq> i" using i(2) by auto
    then obtain m' where m': "nodes h' p = Some m'" "payload m' = payload m"
      using ok(3) m(1) unfolding renamed_def by (metis (no_types, lifting) map_option_eq_Some)
    have r: "\<not> is_reference m'" using payload_fields(6) [OF m'(2)] m(2) by simp
    have "get_object_item h' (Some p) (Some q) cs = Inr (Some i)"
      if q: "readable h' (Some q)" "c_string (str_value h' q) = ?s" for q cs
      using get_object_item_kids [OF ok(2) m'(1) r q(1), of cs] add_then_get_lookup [OF t ok(2,3) i(1), of cs] assms(4)
      by (simp add: q(2) cc)
    then show ?thesis using ok(1) j
      by (intro disjI2 exI [of _ h'])
        (simp add: cJSON_AddItemToObject_def cJSON_GetObjectItem_def cJSON_GetObjectItemCaseSensitive_def)
  qed (simp add: cJSON_AddItemToObject_def)
qed

lemma demo_take: "can_take demo_heap 1 2" "kids_of demo_heap 1 = []"
  by (simp_all add: can_take_def can_hold_def demo_heap_facts(2) demo_below is_root_def)
    (simp_all add: demo_heap_def demo_kids_def is_reference_def empty_node_def)

theorem add_then_get_witness:
  "\<exists>h'. cJSON_AddItemToObject (\<lambda>_. True) (Some 1) (Some (Const [107])) (Some 2) demo_heap = Inr (True, h') \<and>
     cJSON_GetObjectItem h' (Some 1) (Some (Const [107])) = Inr (Some 2)"
proof -
  have "readable h (Some (Const s))" for h s by (simp add: readable_def)
  from add_then_get [OF demo_heap_facts(1) demo_take(1) this, of "[107]" "\<lambda>_. True"] this show ?thesis
    unfolding demo_take(2) by (auto simp: str_value_def)
qed

section \<open>Paths that go wrong\<close>

text \<open>Inserting a null pointer in front of a child dereferences it, while adding one is refused.\<close>

lemma insert_null_deref:
  "cJSON_InsertItemInArray (Some 0) 0 None demo_heap = Inl NullDeref" "cJSON_AddItemToArray (Some 0) None demo_heap = Inr (False, demo_heap)"
  by (simp_all add: cJSON_InsertItemInArray_def get_array_item_def demo_heap_def set_next_def upd_node_def empty_node_def
      cJSON_AddItemToArray_def add_item_to_array_def succeed_def)

text \<open>
  When there is no memory for the copy of the name, adding a reference to an object loses the reference that was
  made: it is a root that nobody holds.
\<close>

lemma reference_leak:
  "\<exists>h'. cJSON_AddItemReferenceToObject (\<lambda>k. k = 4) (Some 1) (Some (Const [107])) (Some 2) demo_heap = Inr (False, h') \<and> nodes h' 4 \<noteq> None"
  by (simp add: cJSON_AddItemReferenceToObject_def create_reference_def new_item_def Let_def demo_heap_def upd_node_def get_node_def
      add_item_to_object_def cJSON_strdup_def get_str_def read_str_def)

text \<open>
  When there is no memory for the copy of the name, replacing a member puts the new item into the object without a
  name. When the name that is asked for is the name of the new item itself, it is freed before it is copied.
\<close>

definition demo_object :: json_heap where
  "demo_object =
     \<lparr>nodes = [0 \<mapsto> empty_node\<lparr>n_type := cJSON_Object, n_child := Some 1\<rparr>,
               1 \<mapsto> empty_node\<lparr>n_type := cJSON_True OR cJSON_StringIsConst, n_prev := Some 1, n_string := Some (Const [107])\<rparr>,
               2 \<mapsto> empty_node\<lparr>n_type := cJSON_False, n_string := Some (Heap 3)\<rparr>],
      strs = [3 \<mapsto> [107]], brk = 4, calls = 4\<rparr>"

lemma replace_loses_name:
  "\<exists>h. cJSON_ReplaceItemInObject (\<lambda>_. False) (Some 0) (Some (Const [107])) (Some 2) demo_object = Inr (True, h) \<and>
     map_option n_child (nodes h 0) = Some (Some 2) \<and> map_option n_string (nodes h 2) = Some None"
  by (simp add: cJSON_ReplaceItemInObject_def replace_item_in_object_def demo_object_def get_node_def free_name_def string_is_const_def
      empty_node_def free_str_def cJSON_strdup_def get_str_def read_str_def upd_node_def get_object_item_def run_loop_def
      search_loop.simps [of _ _ _ "Some n" for n] goes_on_def case_insensitive_strcmp_def cJSON_ReplaceItemViaPointer_def
      set_prev_def set_first_def set_next_def delete_item_def delete_loop.simps [of "Some n" for n] delete_loop.simps [of None]
      is_reference_def free_fields_def free_value_def free_node_def c_string_def succeed_def)

lemma replace_own_name: "cJSON_ReplaceItemInObject (\<lambda>_. True) (Some 0) (Some (Heap 3)) (Some 2) demo_object = Inl UseAfterFree"
  by (simp add: cJSON_ReplaceItemInObject_def replace_item_in_object_def demo_object_def get_node_def free_name_def string_is_const_def
      empty_node_def free_str_def cJSON_strdup_def get_str_def read_str_def)

end
