(* ===== verification/CjsonDuplicate.thy ===== *)
theory CjsonDuplicate
  imports CjsonObjects
begin

text \<open>
  \<^verbatim>\<open>cJSON_Duplicate\<close> of \<^verbatim>\<open>apps/cjson/cJSON.c\<close>. Whatever allocations fail, it either returns a new tree that carries
  the same contents as the old one, or it frees all it had allocated; the memory that was in use before is not
  touched in either case.
\<close>

section \<open>The function\<close>

text \<open>The strings of the new item; a name of the caller is shared.\<close>

definition dup_value :: "(nat \<Rightarrow> bool) \<Rightarrow> node \<Rightarrow> addr \<Rightarrow> json_heap \<Rightarrow> c_fault + (bool \<times> json_heap)" where
  "dup_value al n newitem h =
     (if n_valuestring n = None then Inr (True, h)
      else bind_fault (cJSON_strdup al (n_valuestring n) h) (\<lambda>(copy, h1).
           bind_fault (upd_node (Some newitem) (\<lambda>m. m\<lparr>n_valuestring := copy\<rparr>) h1) (\<lambda>h2. Inr (copy \<noteq> None, h2))))"

definition dup_name :: "(nat \<Rightarrow> bool) \<Rightarrow> node \<Rightarrow> addr \<Rightarrow> json_heap \<Rightarrow> c_fault + (bool \<times> json_heap)" where
  "dup_name al n newitem h =
     (if n_string n = None then Inr (True, h)
      else bind_fault (if string_is_const n then Inr (n_string n, h) else cJSON_strdup al (n_string n) h) (\<lambda>(copy, h1).
           bind_fault (upd_node (Some newitem) (\<lambda>m. m\<lparr>n_string := copy\<rparr>) h1) (\<lambda>h2. Inr (copy \<noteq> None, h2))))"

text \<open>The new item without its children; it is deleted when there is no memory for its strings.\<close>

definition dup_fields :: "(nat \<Rightarrow> bool) \<Rightarrow> addr \<Rightarrow> json_heap \<Rightarrow> c_fault + (addr option \<times> json_heap)" where
  "dup_fields al item h =
     (case new_item al h of
        (None, h1) \<Rightarrow> Inr (None, h1)
      | (Some newitem, h1) \<Rightarrow>
          bind_fault (get_node h1 (Some item)) (\<lambda>n.
          bind_fault (upd_node (Some newitem) (\<lambda>m. m\<lparr>n_type := n_type n AND NOT cJSON_IsReference, n_valueint := n_valueint n,
                        n_valuedouble := n_valuedouble n\<rparr>) h1) (\<lambda>h2.
          bind_fault (dup_value al n newitem h2) (\<lambda>(ok, h3).
          if \<not> ok then bind_fault (delete_item (Some newitem) h3) (\<lambda>h4. Inr (None, h4))
          else bind_fault (dup_name al n newitem h3) (\<lambda>(ok, h4).
               if \<not> ok then bind_fault (delete_item (Some newitem) h4) (\<lambda>h5. Inr (None, h5))
               else Inr (Some newitem, h4))))))"

text \<open>Linking a new child behind those before it, and closing the list of children.\<close>

definition dup_link :: "addr \<Rightarrow> addr option \<Rightarrow> addr \<Rightarrow> json_heap \<Rightarrow> c_fault + json_heap" where
  "dup_link newitem nxt newchild h =
     (if nxt \<noteq> None then bind_fault (set_next nxt (Some newchild) h) (set_prev (Some newchild) nxt)
      else set_first (Some newitem) (Some newchild) h)"

definition dup_close :: "addr \<Rightarrow> addr option \<Rightarrow> json_heap \<Rightarrow> c_fault + json_heap" where
  "dup_close newitem newchild h =
     bind_fault (get_node h (Some newitem)) (\<lambda>m. if n_child m \<noteq> None then set_prev (n_child m) newchild h else Inr h)"

definition dup_abort :: "addr \<Rightarrow> json_heap \<Rightarrow> c_fault + (bool \<times> addr option \<times> json_heap)" where
  "dup_abort newitem h = bind_fault (delete_item (Some newitem) h) (\<lambda>h1. Inr (False, None, h1))"

text \<open>
  The loop over the children, with the new item and its last child so far. The recursive call for a child makes
  the new child and runs the loop for it; when it fails, so does the call.
\<close>

partial_function (option) dup_loop :: "(nat \<Rightarrow> bool) \<Rightarrow> addr \<Rightarrow> addr option \<Rightarrow> addr option \<Rightarrow> json_heap \<Rightarrow>
    (c_fault + (bool \<times> addr option \<times> json_heap)) option" where
  "dup_loop al newitem c nxt h =
     (case c of
        None \<Rightarrow> Some (Inr (True, nxt, h))
      | Some a \<Rightarrow>
          bind_loop (Some (dup_fields al a h)) (\<lambda>(newchild, h1).
          case newchild of
            None \<Rightarrow> Some (dup_abort newitem h1)
          | Some d \<Rightarrow>
              bind_loop (Some (get_node h1 c)) (\<lambda>n.
              bind_loop (dup_loop al d (n_child n) None h1) (\<lambda>(ok, last, h2).
              if \<not> ok then Some (dup_abort newitem h2)
              else bind_loop (Some (bind_fault (dup_close d last h2) (dup_link newitem nxt d))) (\<lambda>h3.
                   bind_loop (Some (get_node h3 c)) (\<lambda>n1. dup_loop al newitem (n_next n1) newchild h3))))))"

definition cJSON_Duplicate :: "(nat \<Rightarrow> bool) \<Rightarrow> addr option \<Rightarrow> bool \<Rightarrow> json_heap \<Rightarrow> c_fault + (addr option \<times> json_heap)" where
  "cJSON_Duplicate al item recurse h =
     (case item of
        None \<Rightarrow> Inr (None, h)
      | Some a \<Rightarrow>
          bind_fault (dup_fields al a h) (\<lambda>(newitem, h1).
          case newitem of
            None \<Rightarrow> Inr (None, h1)
          | Some b \<Rightarrow>
              (if \<not> recurse then Inr (newitem, h1)
               else bind_fault (get_node h1 item) (\<lambda>n.
                    bind_fault (run_loop (dup_loop al b (n_child n) None h1)) (\<lambda>(ok, last, h2).
                    if \<not> ok then Inr (None, h2) else bind_fault (dup_close b last h2) (\<lambda>h3. Inr (newitem, h3)))))))"

section \<open>Two memories side by side\<close>

text \<open>The memory \<open>h\<close> with the blocks of \<open>g\<close> added, which were allocated later.\<close>

definition newer :: "json_heap \<Rightarrow> json_heap \<Rightarrow> bool" where
  "newer h g \<longleftrightarrow> (\<forall>x. nodes g x \<noteq> None \<or> strs g x \<noteq> None \<longrightarrow> brk h \<le> x) \<and> brk h \<le> brk g"

definition beside :: "json_heap \<Rightarrow> json_heap \<Rightarrow> json_heap" where
  "beside h g = g\<lparr>nodes := nodes h ++ nodes g, strs := strs h ++ strs g\<rparr>"

lemma beside_simps [simp]:
  "nodes (beside h g) = nodes h ++ nodes g" "strs (beside h g) = strs h ++ strs g" "brk (beside h g) = brk g" "calls (beside h g) = calls g"
  by (simp_all add: beside_def)

lemma newer_dom:
  assumes "fresh_ok h" "newer h g"
  shows "dom (nodes h) \<inter> dom (nodes g) = {}" "dom (strs h) \<inter> dom (strs g) = {}"
proof -
  have "x \<notin> dom (nodes g) \<and> x \<notin> dom (strs g)" if "x < brk h" for x using assms(2) that by (auto simp: newer_def)
  moreover have "x < brk h" if "x \<in> dom (nodes h) \<union> dom (strs h)" for x
    using assms(1) that unfolding fresh_ok_def by (metis UnE domIff not_le)
  ultimately show "dom (nodes h) \<inter> dom (nodes g) = {}" "dom (strs h) \<inter> dom (strs g) = {}" by blast+
qed

lemma fresh_beside: "fresh_ok h \<Longrightarrow> fresh_ok g \<Longrightarrow> newer h g \<Longrightarrow> fresh_ok (beside h g)"
  by (auto simp: fresh_ok_def newer_def map_add_def split: option.splits)

lemma beside_assoc: "beside (beside h g) k = beside h (beside g k)"
  by (simp add: beside_def)

definition both :: "(addr \<Rightarrow> addr list) \<Rightarrow> (addr \<Rightarrow> addr list) \<Rightarrow> addr \<Rightarrow> addr list" where
  "both kids kids' = (\<lambda>x. kids x @ kids' x)"

lemma tree_kid_dom: "tree_ok h kids \<Longrightarrow> c \<in> set (kids a) \<Longrightarrow> a \<in> dom (nodes h) \<and> c \<in> dom (nodes h)"
  using tree_nodes [OF tree_ok_links(1)] by (metis domI)

lemma tree_kid_out: "tree_ok h kids \<Longrightarrow> a \<notin> dom (nodes h) \<Longrightarrow> kids a = [] \<and> (\<forall>b. a \<notin> set (kids b))"
  using tree_kid_dom [of h kids] fresh_root(2) [of h kids a] by blast

lemma both_simps:
  assumes "tree_ok h kids" "tree_ok g kids'" "dom (nodes h) \<inter> dom (nodes g) = {}"
  shows "x \<in> dom (nodes h) \<Longrightarrow> both kids kids' x = kids x" "x \<in> dom (nodes g) \<Longrightarrow> both kids kids' x = kids' x"
    "x \<in> dom (nodes h) \<Longrightarrow> is_root (both kids kids') x \<longleftrightarrow> is_root kids x" "x \<in> dom (nodes g) \<Longrightarrow> is_root (both kids kids') x \<longleftrightarrow> is_root kids' x"
proof -
  have out: "x \<notin> dom (nodes g)" if "x \<in> dom (nodes h)" for x using assms(3) that by blast
  have out': "x \<notin> dom (nodes h)" if "x \<in> dom (nodes g)" for x using assms(3) that by blast
  show "x \<in> dom (nodes h) \<Longrightarrow> both kids kids' x = kids x" "x \<in> dom (nodes g) \<Longrightarrow> both kids kids' x = kids' x"
    using tree_kid_out [OF assms(2) out] tree_kid_out [OF assms(1) out'] by (simp_all add: both_def)
  show "x \<in> dom (nodes h) \<Longrightarrow> is_root (both kids kids') x \<longleftrightarrow> is_root kids x" "x \<in> dom (nodes g) \<Longrightarrow> is_root (both kids kids') x \<longleftrightarrow> is_root kids' x"
    using tree_kid_out [OF assms(2) out] tree_kid_out [OF assms(1) out'] by (auto simp: both_def is_root_def)
qed

lemma links_beside:
  assumes "tree_ok h kids" "tree_ok g kids'" "dom (nodes h) \<inter> dom (nodes g) = {}"
  shows "links_ok (nodes h ++ nodes g) (both kids kids')"
proof -
  note oh = tree_ok_links [OF assms(1)] and og = tree_ok_links [OF assms(2)] and bs = both_simps [OF assms]
  let ?M = "nodes h ++ nodes g"
  have at: "?M x = nodes h x" if "x \<in> dom (nodes h)" for x using that assms(3) by (auto simp: map_add_def split: option.splits)
  have at': "?M x = nodes g x" if "x \<in> dom (nodes g)" for x using that by (auto simp: map_add_def split: option.splits)
  have ch: "chained ?M (kids x) = chained (nodes h) (kids x)" "chained ?M (kids' x) = chained (nodes g) (kids' x)" for x
    by (rule chained_cong; use tree_kid_dom [OF assms(1)] tree_kid_dom [OF assms(2)] at at' in metis)+
  have cs: "both kids kids' x = kids x \<and> x \<in> dom (nodes h) \<or> both kids kids' x = kids' x \<and> x \<in> dom (nodes g) \<or> both kids kids' x = []" for x
    using bs(1,2) [of x] tree_kid_out [OF assms(1), of x] tree_kid_out [OF assms(2), of x] by (auto simp: both_def)
  have r: "child_rel (both kids kids') = child_rel kids \<union> child_rel kids'" by (auto simp: child_rel_def both_def)
  have "Domain (child_rel kids) \<subseteq> dom (nodes h)" "Range (child_rel kids') \<subseteq> dom (nodes g)"
    using tree_kid_dom [OF assms(1)] tree_kid_dom [OF assms(2)] by (fastforce simp: child_rel_def)+
  then have "wf (child_rel kids \<union> child_rel kids')"
    using tree_ok_wf [OF assms(1)] tree_ok_wf [OF assms(2)] assms(3) by (intro wf_Un) auto
  then have "acyclic (child_rel (both kids kids'))" unfolding r by (rule wf_acyclic)
  moreover have "node_ok (both kids kids') x n" if n: "?M x = Some n" for x n
  proof (cases "x \<in> dom (nodes g)")
    case True
    then have "node_ok kids' x n" using og(1) at' n by (simp add: links_ok_def)
    then show ?thesis using bs(2,4) [OF True] by (simp add: node_ok_def)
  next
    case False
    then have d: "x \<in> dom (nodes h)" "nodes h x = Some n" using n by (auto simp: map_add_def split: option.splits)
    then have "node_ok kids x n" using oh(1) by (simp add: links_ok_def)
    then show ?thesis using bs(1,3) [OF d(1)] by (simp add: node_ok_def)
  qed
  moreover have "both kids kids' x = []" if "?M x = None" for x
    using that tree_kid_out [OF assms(1), of x] tree_kid_out [OF assms(2), of x] by (auto simp: both_def map_add_None)
  moreover have "chained ?M (both kids kids' x) \<and> distinct (both kids kids' x)" for x
    using cs [of x] ch [of x] oh(1,4) og(1,4) by (auto simp: links_ok_def kids_ok_def)
  moreover have "set (both kids kids' x) \<inter> set (both kids kids' y) = {}" if "x \<noteq> y" for x y
    using that oh(4) og(4) tree_kid_dom [OF assms(1)] tree_kid_dom [OF assms(2)] assms(3) unfolding both_def kids_ok_def by fastforce
  ultimately show ?thesis by (simp add: links_ok_def)
qed

lemma strs_beside:
  assumes "strs_ok h" "strs_ok g" "dom (nodes h) \<inter> dom (nodes g) = {}" "dom (strs h) \<inter> dom (strs g) = {}"
  shows "strs_ok (beside h g)"
  unfolding strs_ok_def
proof (intro conjI allI impI)
  have node: "nodes h x = Some n \<and> set (owned n) \<subseteq> dom (strs h) \<or> nodes g x = Some n \<and> set (owned n) \<subseteq> dom (strs g)"
    if "nodes (beside h g) x = Some n" for x n
    using that assms(1,2) unfolding strs_ok_def by (auto simp: map_add_Some_iff)
  show "heap_str (own_value n)" "name_ok n" "distinct (owned n)" if "nodes (beside h g) x = Some n" for x n
    using node [OF that] assms(1,2) unfolding strs_ok_def by auto
  show "set (owned n) \<inter> set (owned m) = {}"
    if "nodes (beside h g) x = Some n \<and> nodes (beside h g) y = Some m \<and> x \<noteq> y" for x y n m
    using node [of x n] node [of y m] that assms(1,2,4) unfolding strs_ok_def by blast
  fix s
  note o = assms(1) [unfolded strs_ok_def, THEN conjunct2, THEN conjunct2, THEN spec, of s]
    assms(2) [unfolded strs_ok_def, THEN conjunct2, THEN conjunct2, THEN spec, of s]
  have "(\<exists>a n. nodes (beside h g) a = Some n \<and> s \<in> set (owned n)) \<longleftrightarrow>
      (\<exists>a n. nodes h a = Some n \<and> s \<in> set (owned n)) \<or> (\<exists>a n. nodes g a = Some n \<and> s \<in> set (owned n))"
  proof -
    have "nodes (beside h g) a = Some n \<longleftrightarrow> nodes h a = Some n \<or> nodes g a = Some n" for a n
      using assms(3) by (auto simp: map_add_Some_iff)
    then show ?thesis by metis
  qed
  moreover have "strs (beside h g) s \<noteq> None \<longleftrightarrow> strs h s \<noteq> None \<or> strs g s \<noteq> None" by (auto simp: map_add_def split: option.splits)
  ultimately show "strs (beside h g) s \<noteq> None \<longleftrightarrow> (\<exists>a n. nodes (beside h g) a = Some n \<and> s \<in> set (owned n))" by (simp only: o)
qed

lemma tree_beside:
  assumes "tree_ok h kids" "tree_ok g kids'" "newer h g"
  shows "tree_ok (beside h g) (both kids kids')"
proof -
  note oh = tree_ok_links [OF assms(1)] and og = tree_ok_links [OF assms(2)]
  note d = newer_dom [OF oh(3) assms(3)]
  show ?thesis
    using links_beside [OF assms(1,2) d(1)] strs_beside [OF oh(2) og(2) d] fresh_beside [OF oh(3) og(3) assms(3)]
    by (simp add: tree_ok_def)
qed

section \<open>A tree that is being made\<close>

text \<open>
  A memory that holds one tree and nothing else. While its children are being made, the first child of the root
  has no link back to the last one.
\<close>

definition whole :: "json_heap \<Rightarrow> (addr \<Rightarrow> addr list) \<Rightarrow> addr \<Rightarrow> bool" where
  "whole g kids b \<longleftrightarrow> tree_ok g kids \<and> is_root kids b \<and> dom (nodes g) = {x. below kids x b}"

definition unheaded :: "addr list \<Rightarrow> json_heap \<Rightarrow> json_heap" where
  "unheaded ks g = (case ks of [] \<Rightarrow> g | k # _ \<Rightarrow> g\<lparr>nodes := (nodes g)(k \<mapsto> (the (nodes g k))\<lparr>n_prev := None\<rparr>)\<rparr>)"

lemma unheaded_simps [simp]:
  "strs (unheaded ks g) = strs g" "brk (unheaded ks g) = brk g" "calls (unheaded ks g) = calls g" "unheaded [] g = g"
  by (simp_all add: unheaded_def split: list.splits)

lemma unheaded_node:
  assumes "nodes g x = Some n"
  shows "nodes (unheaded ks g) x = Some (if first ks = Some x then n\<lparr>n_prev := None\<rparr> else n)"
  using assms by (cases ks) (auto simp: unheaded_def)

lemma unheaded_dom: "set ks \<subseteq> dom (nodes g) \<Longrightarrow> dom (nodes (unheaded ks g)) = dom (nodes g)"
  by (cases ks) (auto simp: unheaded_def)

lemma seg_unheaded:
  assumes "seg (nodes g) pv xs None" "distinct ks" "xs = ks \<or> set xs \<inter> set ks = {}"
  shows "\<exists>pv. seg (nodes (unheaded ks g)) pv xs None"
proof (cases "xs = ks \<and> ks \<noteq> []")
  case True
  then obtain k ks' where k: "ks = k # ks'" by (cases ks) auto
  obtain n where n: "nodes g k = Some n" using assms(1) True k by (auto simp: links_def)
  have "seg ((nodes g)(k \<mapsto> n\<lparr>n_prev := None\<rparr>)) None (k # ks') None"
    using assms(1,2) True k n by (auto simp: links_def)
  then show ?thesis using True k n by (auto simp: unheaded_def)
next
  case False
  then have "seg (nodes (unheaded ks g)) pv xs None = seg (nodes g) pv xs None"
    using assms(3) by (intro seg_cong) (cases ks; auto simp: unheaded_def)
  then show ?thesis using assms(1) by blast
qed

lemma whole_facts:
  assumes "whole g kids b"
  shows "tree_ok g kids" "b \<in> dom (nodes g)" "set (kids b) \<subseteq> dom (nodes g)" "b \<notin> set (kids b)"
proof -
  show t: "tree_ok g kids" using assms by (simp add: whole_def)
  show "b \<in> dom (nodes g)" using assms by (simp add: whole_def)
  show "set (kids b) \<subseteq> dom (nodes g)" using tree_kid_dom [OF t] by blast
  show "b \<notin> set (kids b)" using assms by (simp add: whole_def is_root_def)
qed

lemma deletable_open:
  assumes "fresh_ok h" "newer h g" "whole g kids b"
  shows "deletable (beside h (unheaded (kids b) g)) kids (dom (nodes g))"
  unfolding deletable_def
proof (intro conjI ballI impI)
  note w = whole_facts [OF assms(3)]
  note d = newer_dom [OF assms(1,2)]
  let ?g = "unheaded (kids b) g"
  have D: "deletable g kids (dom (nodes g))" by (rule tree_ok_deletable [OF w(1)]) simp
  have at: "nodes (beside h ?g) x = nodes ?g x" if "x \<in> dom (nodes g)" for x
    using that unheaded_dom [OF w(3)] by (auto simp: map_add_def split: option.splits)
  have node: "\<exists>n'. nodes (beside h ?g) x = Some n' \<and> payload n' = payload n \<and> n_child n' = n_child n" if "nodes g x = Some n" for x n
    using at [of x] unheaded_node [OF that, of "kids b"] that by auto
  have own: "owned (the (nodes (beside h ?g) x)) = owned (the (nodes g x))" if "x \<in> dom (nodes g)" for x
    using that node payload_fields(8) by (metis domD option.sel)
  fix x assume x: "x \<in> dom (nodes g)"
  show "\<exists>n pv. nodes (beside h ?g) x = Some n \<and> (if is_reference n then kids x = [] else n_child n = first (kids x)) \<and>
      seg (nodes (beside h ?g)) pv (kids x) None \<and> heap_str (own_value n) \<and> heap_str (own_name n) \<and> distinct (owned n) \<and>
      set (owned n) \<subseteq> dom (strs (beside h ?g))"
  proof -
    from D x obtain n pv where n: "nodes g x = Some n" "if is_reference n then kids x = [] else n_child n = first (kids x)"
      "seg (nodes g) pv (kids x) None" "heap_str (own_value n)" "heap_str (own_name n)" "distinct (owned n)" "set (owned n) \<subseteq> dom (strs g)"
      by (rule deletable_node)
    obtain n' where n': "nodes (beside h ?g) x = Some n'" "payload n' = payload n" "n_child n' = n_child n" using node [OF n(1)] by blast
    have "kids x = kids b \<or> set (kids x) \<inter> set (kids b) = {}" "distinct (kids b)"
      using tree_ok_links(4) [OF w(1)] by (cases "x = b"; simp add: kids_ok_def)+
    then obtain pv' where "seg (nodes ?g) pv' (kids x) None" using seg_unheaded [OF n(3)] by blast
    moreover have "seg (nodes (beside h ?g)) pv' (kids x) None = seg (nodes ?g) pv' (kids x) None"
      by (rule seg_cong) (use at tree_kid_dom [OF w(1)] in metis)
    ultimately show ?thesis using n n' payload_fields [OF n'(2)] by (intro exI [of _ n'] exI [of _ pv']) auto
  qed
  fix y assume "y \<in> dom (nodes g)" "x \<noteq> y"
  then show "set (owned (the (nodes (beside h ?g) x))) \<inter> set (owned (the (nodes (beside h ?g) y))) = {}"
    using D x own unfolding deletable_def by simp
qed

lemma restrict_added:
  assumes "dom m \<inter> dom n = {}"
  shows "(m ++ n) |` (- dom n) = m"
proof
  fix x
  show "((m ++ n) |` (- dom n)) x = m x"
    using assms by (cases "x \<in> dom n"; cases "x \<in> dom m") (auto simp: restrict_map_def map_add_dom_app_simps)
qed

lemma discard_open:
  assumes "fresh_ok h" "newer h g" "whole g kids b"
  shows "delete_item (Some b) (beside h (unheaded (kids b) g)) = Inr (h\<lparr>brk := brk g, calls := calls g\<rparr>)"
proof -
  note w = whole_facts [OF assms(3)]
  note d = newer_dom [OF assms(1,2)]
  let ?g = "unheaded (kids b) g" and ?A = "dom (nodes g)"
  let ?H = "beside h ?g"
  obtain t where t: "pt_root t = b" "grown kids t" using grown_exists [OF tree_ok_wf [OF w(1)], of b] by blast
  have A: "set (pt_addrs t) = ?A" using grown_addrs [OF t(2)] t(1) assms(3) by (simp add: whole_def)
  obtain n where n: "nodes g b = Some n" using w(2) by blast
  have nx: "n_next n = None" using node_kids(3) [OF tree_ok_links(1) [OF w(1)] n] assms(3) by (simp add: whole_def)
  have "first (kids b) \<noteq> Some b" using w(4) first_Some by blast
  then have b: "nodes ?H b = Some n" using unheaded_node [OF n, of "kids b"] by simp
  have "delete_loop (Some b) ?H = delete_loop (n_next n) (prune ?H ?A)"
    using delete_tree [OF t(2) grown_distinct [OF tree_ok_links(4) [OF w(1)] t(2)], of ?H n] deletable_open [OF assms] b t(1) A by simp
  then have del: "delete_item (Some b) ?H = Inr (prune ?H ?A)" by (simp add: delete_item_def run_loop_def nx delete_loop.simps)
  have own: "owned (the (nodes ?H x)) = owned (the (nodes g x))" if x: "x \<in> ?A" for x
  proof -
    obtain m where m: "nodes g x = Some m" using x by blast
    show ?thesis using unheaded_node [OF m, of "kids b"] m by (simp add: owned_def own_value_def own_name_def string_is_const_def)
  qed
  have "strs g s \<noteq> None \<longleftrightarrow> (\<exists>x m. nodes g x = Some m \<and> s \<in> set (owned m))" for s
    using tree_ok_links(2) [OF w(1)] by (simp add: strs_ok_def)
  then have "blocks_in ?H ?A = dom (strs g)" using own by (fastforce simp: blocks_in_def dom_def)
  moreover have "(nodes h ++ nodes ?g) |` (- ?A) = nodes h"
    using restrict_added [of "nodes h" "nodes ?g"] d(1) unheaded_dom [OF w(3)] by simp
  moreover have "(strs h ++ strs g) |` (- dom (strs g)) = strs h" by (rule restrict_added [OF d(2)])
  ultimately have "prune ?H ?A = h\<lparr>brk := brk g, calls := calls g\<rparr>" by (simp add: prune_def)
  then show ?thesis using del by simp
qed

section \<open>What is copied\<close>

text \<open>A tree that can be read, and its contents.\<close>

fun source :: "json_heap \<Rightarrow> ptree \<Rightarrow> bool" where
  "source h (PT a ts) \<longleftrightarrow>
     (\<exists>n pv. nodes h a = Some n \<and> \<not> is_reference n \<and> n_child n = first (map pt_root ts) \<and> seg (nodes h) pv (map pt_root ts) None \<and>
        readable h (n_valuestring n) \<and> readable h (n_string n) \<and> name_ok n) \<and>
     (\<forall>t \<in> set ts. source h t)"

definition text_of :: "json_heap \<Rightarrow> strptr option \<Rightarrow> u8 list option" where
  "text_of h p = map_option (\<lambda>q. c_string (str_value h q)) p"

fun item_of :: "json_heap \<Rightarrow> ptree \<Rightarrow> cJSON" where
  "item_of h (PT a ts) =
     (let n = the (nodes h a)
      in Item (n_type n) (text_of h (n_valuestring n)) (n_valueint n) (n_valuedouble n) (text_of h (n_string n)) (map (item_of h) ts))"

text \<open>A memory in which more is allocated.\<close>

definition more_of :: "json_heap \<Rightarrow> json_heap \<Rightarrow> bool" where
  "more_of h h' \<longleftrightarrow> nodes h \<subseteq>\<^sub>m nodes h' \<and> strs h \<subseteq>\<^sub>m strs h'"

lemma more_node: "more_of h h' \<Longrightarrow> nodes h a = Some n \<Longrightarrow> nodes h' a = Some n"
  unfolding more_of_def map_le_def by (metis domI)

lemma more_str: "more_of h h' \<Longrightarrow> readable h p \<Longrightarrow> readable h' p \<and> text_of h' p = text_of h p"
  by (cases p rule: block_of.cases) (auto simp: more_of_def map_le_def readable_def text_of_def str_value_def dom_def)

lemma more_beside: "fresh_ok h \<Longrightarrow> newer h g \<Longrightarrow> more_of h (beside h g)"
  using newer_dom [of h g] by (simp add: more_of_def map_add_comm map_add_le_mapI)

lemma source_more: "source h t \<Longrightarrow> more_of h h' \<Longrightarrow> source h' t \<and> item_of h' t = item_of h t"
proof (induction t)
  case (PT a ts)
  obtain n pv where n: "nodes h a = Some n" "\<not> is_reference n" "n_child n = first (map pt_root ts)" "seg (nodes h) pv (map pt_root ts) None"
    "readable h (n_valuestring n)" "readable h (n_string n)" "name_ok n" "\<forall>t \<in> set ts. source h t" using PT.prems(1) by auto
  have n': "nodes h' a = Some n" by (rule more_node [OF PT.prems(2) n(1)])
  have "seg (nodes h') pv (map pt_root ts) None = seg (nodes h) pv (map pt_root ts) None"
    by (rule seg_cong) (use seg_dom [OF n(4)] more_node [OF PT.prems(2)] in fastforce)
  moreover have "map (item_of h') ts = map (item_of h) ts" using PT.IH n(8) PT.prems(2) by simp
  ultimately show ?case using n n' PT.IH PT.prems(2) more_str [OF PT.prems(2)] by (auto simp: Let_def)
qed

section \<open>One new item\<close>

text \<open>A memory that holds a single item without links.\<close>

definition lone :: "json_heap \<Rightarrow> json_heap \<Rightarrow> addr \<Rightarrow> node \<Rightarrow> bool" where
  "lone h g b m \<longleftrightarrow>
     nodes g = [b \<mapsto> m] \<and> newer h g \<and> fresh_ok g \<and> n_next m = None \<and> n_prev m = None \<and> n_child m = None \<and> \<not> is_reference m \<and>
     heap_str (own_value m) \<and> name_ok m \<and> distinct (owned m) \<and> dom (strs g) = set (owned m)"

lemma lone_whole:
  assumes "lone h g b m"
  shows "whole g (\<lambda>_. []) b"
proof -
  let ?e = "\<lparr>nodes = Map.empty, strs = Map.empty, brk = 0, calls = 0\<rparr>" and ?k = "\<lambda>_. [] :: addr list"
  have e: "tree_ok ?e ?k" by (simp add: tree_ok_def links_ok_def strs_ok_def fresh_ok_def child_rel_def acyclic_def)
  have "tree_ok g ?k"
    by (rule tree_ok_new [OF e, of b _ m]) (use assms in \<open>auto simp: lone_def fresh_ok_def\<close>)
  then show ?thesis using assms below_leaf [of ?k b] by (auto simp: whole_def is_root_def lone_def)
qed

lemma discard_lone:
  assumes "fresh_ok h" "lone h g b m"
  shows "delete_item (Some b) (beside h g) = Inr (h\<lparr>brk := brk g, calls := calls g\<rparr>)"
  using discard_open [OF assms(1) _ lone_whole [OF assms(2)]] assms(2) by (simp add: lone_def)

lemma upd_lone:
  "nodes g = [b \<mapsto> m] \<Longrightarrow> upd_node (Some b) f (beside h g) = Inr (beside h (g\<lparr>nodes := [b \<mapsto> f m]\<rparr>))"
  by (simp add: upd_node_def beside_def)

lemma strdup_beside:
  assumes "fresh_ok h" "newer h g" "readable h (Some q)"
  shows "cJSON_strdup al (Some q) (beside h g) =
    (if al (calls g) then Inr (Some (Heap (brk g)), beside h (g\<lparr>strs := (strs g)(brk g \<mapsto> c_string (str_value h q)), brk := brk g + 1, calls := calls g + 1\<rparr>))
     else Inr (None, beside h (g\<lparr>calls := calls g + 1\<rparr>)))"
proof -
  have "readable (beside h g) (Some q)" "c_string (str_value (beside h g) q) = c_string (str_value h q)"
    using more_str [OF more_beside [OF assms(1,2)] assms(3)] by (simp_all add: text_of_def)
  then show ?thesis by (subst strdup_ok) (simp_all add: beside_def)
qed

lemma newer_fresh_calls [simp]: "newer h (g\<lparr>calls := k\<rparr>) = newer h g" "fresh_ok (g\<lparr>calls := k\<rparr>) = fresh_ok g"
  by (simp_all add: newer_def fresh_ok_def)

lemma lone_calls: "lone h g b m \<Longrightarrow> lone h (g\<lparr>calls := k\<rparr>) b m"
  by (simp add: lone_def)

lemma lone_facts:
  assumes "lone h g b m"
  shows "b < brk g" "brk h \<le> b" "brk g \<notin> dom (strs g)" "brk h \<le> brk g"
proof -
  have n: "nodes g = [b \<mapsto> m]" "fresh_ok g" "newer h g" using assms by (simp_all add: lone_def)
  have "nodes g b \<noteq> None" using n(1) by simp
  then show "b < brk g" "brk h \<le> b" "brk h \<le> brk g" using n(2,3) unfolding fresh_ok_def newer_def by (meson not_le)+
  show "brk g \<notin> dom (strs g)" using n(2) by (auto simp: fresh_ok_def)
qed

text \<open>One more string that belongs to the item.\<close>

lemma lone_more:
  assumes "lone h g b m" "n_next m' = n_next m" "n_prev m' = n_prev m" "n_child m' = n_child m" "n_type m' = n_type m"
    and "heap_str (own_value m')" "name_ok m'" "distinct (owned m')" "set (owned m') = insert (brk g) (set (owned m))"
  shows "lone h (g\<lparr>nodes := [b \<mapsto> m'], strs := (strs g)(brk g \<mapsto> s), brk := brk g + 1, calls := k\<rparr>) b m'" (is "lone h ?g b m'")
proof -
  note f = lone_facts [OF assms(1)]
  have l: "newer h g" "fresh_ok g" "dom (strs g) = set (owned m)" "nodes g = [b \<mapsto> m]" using assms(1) by (simp_all add: lone_def)
  have "newer h ?g" using l(1) f(2,4) unfolding newer_def by (auto split: if_splits)
  moreover have "fresh_ok ?g" using l(2) f(1) unfolding fresh_ok_def by auto
  moreover have "dom (strs ?g) = set (owned m')" using l(3) assms(9) by simp
  moreover have "is_reference m' = is_reference m" using assms(5) by (simp add: is_reference_def)
  ultimately show ?thesis using assms by (simp add: lone_def)
qed

lemma lone_value:
  assumes "lone h g b m" "n_valuestring m = None"
  shows "lone h (g\<lparr>nodes := [b \<mapsto> m\<lparr>n_valuestring := Some (Heap (brk g))\<rparr>], strs := (strs g)(brk g \<mapsto> s), brk := brk g + 1, calls := k\<rparr>) b
    (m\<lparr>n_valuestring := Some (Heap (brk g))\<rparr>)"
proof -
  let ?m = "m\<lparr>n_valuestring := Some (Heap (brk g))\<rparr>"
  have r: "own_name ?m = own_name m" "name_ok ?m = name_ok m" by (simp_all add: string_is_const_def own_name_def name_ok_def)
  have v: "own_value m = None" "own_value ?m = Some (Heap (brk g))" using assms by (auto simp: lone_def own_value_def is_reference_def)
  then have "owned ?m = brk g # owned m" using r by (simp add: owned_def)
  moreover have "brk g \<notin> set (owned m)" using lone_facts(3) [OF assms(1)] assms(1) by (simp add: lone_def)
  ultimately show ?thesis using assms(1) r v by (intro lone_more [OF assms(1)]) (simp_all add: lone_def)
qed

lemma lone_name:
  assumes "lone h g b m" "n_string m = None" "\<not> string_is_const m"
  shows "lone h (g\<lparr>nodes := [b \<mapsto> m\<lparr>n_string := Some (Heap (brk g))\<rparr>], strs := (strs g)(brk g \<mapsto> s), brk := brk g + 1, calls := k\<rparr>) b
    (m\<lparr>n_string := Some (Heap (brk g))\<rparr>)"
proof -
  let ?m = "m\<lparr>n_string := Some (Heap (brk g))\<rparr>"
  have r: "string_is_const ?m = string_is_const m" "own_value ?m = own_value m"
    by (simp_all add: is_reference_def string_is_const_def own_value_def)
  have v: "own_name m = None" "own_name ?m = Some (Heap (brk g))" using assms r(1) by (auto simp: own_name_def)
  then have "owned ?m = owned m @ [brk g]" "name_ok ?m" using r assms(3) by (simp_all add: owned_def name_ok_def)
  moreover have "brk g \<notin> set (owned m)" using lone_facts(3) [OF assms(1)] assms(1) by (simp add: lone_def)
  ultimately show ?thesis using assms(1) r by (intro lone_more [OF assms(1)]) (simp_all add: lone_def)
qed

lemma lone_const_name:
  assumes "lone h g b m" "n_string m = None" "string_is_const m"
  shows "lone h (g\<lparr>nodes := [b \<mapsto> m\<lparr>n_string := Some (Const s)\<rparr>]\<rparr>) b (m\<lparr>n_string := Some (Const s)\<rparr>)"
  using assms by (auto simp: lone_def newer_def fresh_ok_def is_reference_def string_is_const_def own_value_def own_name_def name_ok_def owned_def)

lemma text_of_more: "strs g \<subseteq>\<^sub>m strs g' \<Longrightarrow> readable g p \<Longrightarrow> text_of g' p = text_of g p"
  using more_str [of g "g'\<lparr>nodes := nodes g\<rparr>" p] by (simp add: more_of_def text_of_def)

lemma text_of_heap: "strs g v = Some (c_string s) \<Longrightarrow> readable g (Some (Heap v)) \<and> text_of g (Some (Heap v)) = Some (c_string s)"
  by (simp add: readable_def text_of_def str_value_def c_string_def)

lemma dup_value_ok:
  assumes "fresh_ok h" "lone h g b m" "n_valuestring m = None" "readable h (n_valuestring n)"
  obtains ok g' v where "dup_value al n b (beside h g) = Inr (ok, beside h g')" "lone h g' b (m\<lparr>n_valuestring := v\<rparr>)"
    "ok \<longrightarrow> readable g' v \<and> text_of g' v = text_of h (n_valuestring n)" "\<not> ok \<longrightarrow> (\<exists>i. \<not> al i)"
proof (cases "n_valuestring n")
  case None
  have "m\<lparr>n_valuestring := None\<rparr> = m" using assms(3) by simp
  then show ?thesis using that [of True g None] None assms(2) by (simp add: dup_value_def text_of_def readable_def)
next
  case (Some q)
  have ab: "newer h g" "nodes g = [b \<mapsto> m]" using assms(2) by (simp_all add: lone_def)
  note sd = strdup_beside [OF assms(1) ab(1) assms(4) [unfolded Some], of al]
  show ?thesis
  proof (cases "al (calls g)")
    case True
    let ?g = "g\<lparr>nodes := [b \<mapsto> m\<lparr>n_valuestring := Some (Heap (brk g))\<rparr>], strs := (strs g)(brk g \<mapsto> c_string (str_value h q)), brk := brk g + 1, calls := calls g + 1\<rparr>"
    have "dup_value al n b (beside h g) = Inr (True, beside h ?g)"
      using Some True sd ab(2) by (simp add: dup_value_def upd_lone [where m = m])
    then show ?thesis by (rule that [OF _ lone_value [OF assms(2,3)]]) (simp add: text_of_heap, simp add: text_of_def Some, simp)
  next
    case False
    have e: "m\<lparr>n_valuestring := None\<rparr> = m" using assms(3) by simp
    moreover have "g\<lparr>nodes := [b \<mapsto> m], calls := calls g + 1\<rparr> = g\<lparr>calls := calls g + 1\<rparr>" using ab(2) [symmetric] by simp
    ultimately have "dup_value al n b (beside h g) = Inr (False, beside h (g\<lparr>calls := calls g + 1\<rparr>))"
      using Some False sd ab(2) by (simp add: dup_value_def upd_lone [where m = m])
    then show ?thesis by (rule that [of _ _ None]) (use lone_calls [OF assms(2)] e False in auto)
  qed
qed

lemma dup_name_ok:
  assumes "fresh_ok h" "lone h g b m" "n_string m = None" "readable h (n_string n)" "name_ok n" "string_is_const m = string_is_const n"
  obtains ok g' v where "dup_name al n b (beside h g) = Inr (ok, beside h g')" "lone h g' b (m\<lparr>n_string := v\<rparr>)" "strs g \<subseteq>\<^sub>m strs g'"
    "ok \<longrightarrow> readable g' v \<and> text_of g' v = text_of h (n_string n)" "\<not> ok \<longrightarrow> (\<exists>i. \<not> al i)"
proof (cases "n_string n")
  case None
  have "m\<lparr>n_string := None\<rparr> = m" using assms(3) by simp
  then show ?thesis using that [of True g None] None assms(2) by (simp add: dup_name_def text_of_def readable_def)
next
  case (Some q)
  have ab: "newer h g" "nodes g = [b \<mapsto> m]" using assms(2) by (simp_all add: lone_def)
  note sd = strdup_beside [OF assms(1) ab(1) assms(4) [unfolded Some], of al]
  consider (const) "string_is_const n" | (yes) "\<not> string_is_const n" "al (calls g)" | (no) "\<not> string_is_const n" "\<not> al (calls g)" by blast
  then show ?thesis
  proof cases
    case const
    then obtain s where s: "q = Const s" using assms(5) Some by (cases q) (auto simp: name_ok_def)
    let ?g = "g\<lparr>nodes := [b \<mapsto> m\<lparr>n_string := Some (Const s)\<rparr>]\<rparr>"
    have "dup_name al n b (beside h g) = Inr (True, beside h ?g)"
      using Some const s ab(2) by (simp add: dup_name_def upd_lone [where m = m])
    then show ?thesis
      by (rule that [OF _ lone_const_name [OF assms(2,3)]]) (use const assms(6) Some s in \<open>simp_all add: readable_def text_of_def str_value_def\<close>)
  next
    case yes
    let ?g = "g\<lparr>nodes := [b \<mapsto> m\<lparr>n_string := Some (Heap (brk g))\<rparr>], strs := (strs g)(brk g \<mapsto> c_string (str_value h q)), brk := brk g + 1, calls := calls g + 1\<rparr>"
    have "dup_name al n b (beside h g) = Inr (True, beside h ?g)"
      using Some yes sd ab(2) by (simp add: dup_name_def upd_lone [where m = m])
    moreover have "strs g \<subseteq>\<^sub>m strs ?g" using lone_facts(3) [OF assms(2)] by (auto simp: map_le_def)
    moreover have "readable ?g (Some (Heap (brk g))) \<and> text_of ?g (Some (Heap (brk g))) = text_of h (n_string n)"
      using text_of_heap [of ?g "brk g"] by (simp add: Some text_of_def [of h])
    ultimately show ?thesis using that [OF _ lone_name [OF assms(2,3)]] yes assms(6) by blast
  next
    case no
    have e: "m\<lparr>n_string := None\<rparr> = m" using assms(3) by simp
    moreover have "g\<lparr>nodes := [b \<mapsto> m], calls := calls g + 1\<rparr> = g\<lparr>calls := calls g + 1\<rparr>" using ab(2) [symmetric] by simp
    ultimately have "dup_name al n b (beside h g) = Inr (False, beside h (g\<lparr>calls := calls g + 1\<rparr>))"
      using Some no sd ab(2) by (simp add: dup_name_def upd_lone [where m = m])
    then show ?thesis by (rule that [of _ _ None]) (use lone_calls [OF assms(2)] e no(2) in auto)
  qed
qed

lemma not_reference_type: "\<not> is_reference n \<Longrightarrow> n_type n AND NOT cJSON_IsReference = n_type n"
proof -
  assume "\<not> is_reference n"
  then have "n_type n AND cJSON_IsReference = 0" by (simp add: is_reference_def)
  moreover have "n_type n = (n_type n AND cJSON_IsReference) OR (n_type n AND NOT cJSON_IsReference)"
    by (metis and.right_neutral bit.conj_disj_distrib bit.disj_cancel_right)
  ultimately show ?thesis by simp
qed

text \<open>The call gives up and has freed everything, or the new item has the contents of the old one.\<close>

lemma dup_fields_ok:
  assumes "fresh_ok h" "nodes h a = Some n" "\<not> is_reference n" "readable h (n_valuestring n)" "readable h (n_string n)" "name_ok n"
  obtains (no) k c where "dup_fields al a h = Inr (None, h\<lparr>brk := k, calls := c\<rparr>)" "brk h \<le> k" "\<exists>i. \<not> al i"
  | (yes) g b m where "dup_fields al a h = Inr (Some b, beside h g)" "lone h g b m" "n_type m = n_type n" "n_valueint m = n_valueint n"
      "n_valuedouble m = n_valuedouble n" "readable g (n_valuestring m)" "readable g (n_string m)"
      "text_of g (n_valuestring m) = text_of h (n_valuestring n)" "text_of g (n_string m) = text_of h (n_string n)"
proof (cases "al (calls h)")
  case False
  then have "dup_fields al a h = Inr (None, h\<lparr>brk := brk h, calls := calls h + 1\<rparr>)" by (simp add: dup_fields_def new_item_def Let_def)
  then show ?thesis by (rule no) (use False in auto)
next
  case True
  let ?m = "empty_node\<lparr>n_type := n_type n, n_valueint := n_valueint n, n_valuedouble := n_valuedouble n\<rparr>"
  let ?g = "\<lparr>nodes = [brk h \<mapsto> ?m], strs = Map.empty, brk = brk h + 1, calls = calls h + 1\<rparr>"
  let ?h1 = "h\<lparr>nodes := (nodes h)(brk h \<mapsto> empty_node), brk := brk h + 1, calls := calls h + 1\<rparr>"
  have ni: "new_item al h = (Some (brk h), ?h1)" using True by (simp add: new_item_def Let_def)
  have "a \<noteq> brk h" using assms(1,2) by (auto simp: fresh_ok_def)
  then have gn: "get_node ?h1 (Some a) = Inr n" using assms(2) by simp
  have "upd_node (Some (brk h)) (\<lambda>m. m\<lparr>n_type := n_type n AND NOT cJSON_IsReference, n_valueint := n_valueint n, n_valuedouble := n_valuedouble n\<rparr>) ?h1 =
      Inr (beside h ?g)"
    unfolding not_reference_type [OF assms(3)] by (simp add: upd_node_def beside_def)
  note st = this
  have l0: "lone h ?g (brk h) ?m"
    using assms(3) by (auto simp: lone_def newer_def fresh_ok_def empty_node_def is_reference_def own_value_def own_name_def name_ok_def owned_def)
  have v0: "n_valuestring ?m = None" by (simp add: empty_node_def)
  obtain ok g1 v where g1: "dup_value al n (brk h) (beside h ?g) = Inr (ok, beside h g1)" "lone h g1 (brk h) (?m\<lparr>n_valuestring := v\<rparr>)"
    "ok \<longrightarrow> readable g1 v \<and> text_of g1 v = text_of h (n_valuestring n)" "\<not> ok \<longrightarrow> (\<exists>i. \<not> al i)" by (rule dup_value_ok [OF assms(1) l0 v0 assms(4), where al = al])
  show ?thesis
  proof (cases ok)
    case False
    then have "dup_fields al a h = Inr (None, h\<lparr>brk := brk g1, calls := calls g1\<rparr>)"
      unfolding dup_fields_def ni prod.case option.case gn bind_fault_simps st g1(1) by (simp add: discard_lone [OF assms(1) g1(2)])
    then show ?thesis by (rule no) (use lone_facts(4) [OF g1(2)] g1(4) False in simp_all)
  next
    case True
    let ?m1 = "?m\<lparr>n_valuestring := v\<rparr>"
    have n1: "n_string ?m1 = None" "string_is_const ?m1 = string_is_const n" by (simp_all add: empty_node_def string_is_const_def)
    obtain ok2 g2 w where g2: "dup_name al n (brk h) (beside h g1) = Inr (ok2, beside h g2)" "lone h g2 (brk h) (?m1\<lparr>n_string := w\<rparr>)"
      "strs g1 \<subseteq>\<^sub>m strs g2" "ok2 \<longrightarrow> readable g2 w \<and> text_of g2 w = text_of h (n_string n)" "\<not> ok2 \<longrightarrow> (\<exists>i. \<not> al i)"
      by (rule dup_name_ok [OF assms(1) g1(2) n1(1) assms(5,6) n1(2), where al = al])
    have eq: "dup_fields al a h = (if \<not> ok2 then Inr (None, h\<lparr>brk := brk g2, calls := calls g2\<rparr>) else Inr (Some (brk h), beside h g2))"
      unfolding dup_fields_def ni prod.case option.case gn bind_fault_simps st g1(1)
      using True by (simp add: g2(1) discard_lone [OF assms(1) g2(2)])
    show ?thesis
    proof (cases ok2)
      case False
      then show ?thesis using eq lone_facts(4) [OF g2(2)] g2(5) by (intro no) simp_all
    next
      case ok: True
      have "readable g2 v" "text_of g2 v = text_of h (n_valuestring n)"
        using g1(3) True g2(3) text_of_more [OF g2(3)] more_str [of g1 "g2\<lparr>nodes := nodes g1\<rparr>" v] by (simp_all add: more_of_def)
      then show ?thesis using eq ok g2 by (intro yes [OF _ g2(2)]) simp_all
    qed
  qed
qed

section \<open>Children that are added to it\<close>

definition plain :: "json_heap \<Rightarrow> bool" where
  "plain g \<longleftrightarrow> (\<forall>x n. nodes g x = Some n \<longrightarrow> \<not> is_reference n)"

text \<open>The new item with the copies of some children, and the contents they have to have.\<close>

definition making :: "json_heap \<Rightarrow> json_heap \<Rightarrow> (addr \<Rightarrow> addr list) \<Rightarrow> addr \<Rightarrow> ptree list \<Rightarrow> cJSON list \<Rightarrow> bool" where
  "making h g kids b us cs \<longleftrightarrow> newer h g \<and> whole g kids b \<and> plain g \<and> grown kids (PT b us) \<and> map (item_of g) us = cs"

definition copied :: "json_heap \<Rightarrow> cJSON \<Rightarrow> json_heap \<Rightarrow> addr \<Rightarrow> bool" where
  "copied h c h' d \<longleftrightarrow>
     (\<exists>g kids us. h' = beside h g \<and> newer h g \<and> whole g kids d \<and> plain g \<and> grown kids (PT d us) \<and> item_of g (PT d us) = c)"

definition gave_up :: "(nat \<Rightarrow> bool) \<Rightarrow> json_heap \<Rightarrow> json_heap \<Rightarrow> bool" where
  "gave_up al h h' \<longleftrightarrow> (\<exists>i. \<not> al i) \<and> (\<exists>k c. h' = h\<lparr>brk := k, calls := c\<rparr> \<and> brk h \<le> k)"

lemma item_of_same: "same_payload h h' \<Longrightarrow> set (pt_addrs t) \<subseteq> dom (nodes h) \<Longrightarrow> item_of h' t = item_of h t"
proof (induction t)
  case (PT a ts)
  obtain n where n: "nodes h a = Some n" using PT.prems(2) by auto
  then obtain n' where n': "nodes h' a = Some n'" "payload n' = payload n"
    using PT.prems(1) unfolding same_payload_def by (metis (no_types, lifting) map_option_eq_Some)
  have s: "text_of h' = text_of h" using str_same [of h' h] PT.prems(1) by (simp add: same_payload_def text_of_def fun_eq_iff)
  have "map (item_of h') ts = map (item_of h) ts" using PT by auto
  then show ?case using n n'(1) payload_fields [OF n'(2)] s by (simp add: Let_def)
qed

lemma item_of_more:
  assumes "more_of h h'"
  shows "set (pt_addrs t) \<subseteq> dom (nodes h) \<Longrightarrow> \<forall>x n. nodes h x = Some n \<longrightarrow> readable h (n_valuestring n) \<and> readable h (n_string n) \<Longrightarrow>
    item_of h' t = item_of h t"
proof (induction t)
  case (PT a ts)
  obtain n where n: "nodes h a = Some n" using PT.prems(1) by auto
  have "set (pt_addrs t) \<subseteq> dom (nodes h)" if "t \<in> set ts" for t using PT.prems(1) that by auto
  then have "map (item_of h') ts = map (item_of h) ts" using PT.IH PT.prems(2) by simp
  then show ?case using n more_node [OF assms n] more_str [OF assms] PT.prems(2) by (simp add: Let_def)
qed

lemma own_readable:
  assumes "tree_ok g kids" "\<not> is_reference n" "nodes g x = Some n"
  shows "readable g (n_valuestring n)" "readable g (n_string n)"
proof -
  show "readable g (n_string n)" by (rule tree_names [OF assms(1,3)])
  have "heap_str (own_value n)" "set (owned n) \<subseteq> dom (strs g)" "own_value n = n_valuestring n"
    using tree_ok_links(2) [OF assms(1)] assms(2,3) unfolding strs_ok_def by (blast, blast, simp add: own_value_def)
  then show "readable g (n_valuestring n)" by (cases "n_valuestring n" rule: block_of.cases) (auto simp: readable_def owned_def)
qed

lemma plain_readable:
  "tree_ok g kids \<Longrightarrow> plain g \<Longrightarrow> nodes g x = Some n \<Longrightarrow> readable g (n_valuestring n) \<and> readable g (n_string n)"
  using own_readable [of g kids n x] by (simp add: plain_def)

lemma grown_cong: "grown kids t \<Longrightarrow> \<forall>x \<in> set (pt_addrs t). kids' x = kids x \<Longrightarrow> grown kids' t"
  by (induction t) auto

text \<open>Two memories of one tree each, the second made below the root of the first.\<close>

lemma grow_tree:
  assumes "whole g kids b" "whole k kids' d" "newer g k" "grown kids (PT b us)" "grown kids' (PT d vs)" "plain g"
  obtains g' where "add_item_to_array (Some b) (Some d) (beside g k) = Inr (True, g')" "same_payload (beside g k) g'"
    "whole g' ((both kids kids')(b := kids b @ [d])) b" "grown ((both kids kids')(b := kids b @ [d])) (PT b (us @ [PT d vs]))"
proof -
  note wg = whole_facts [OF assms(1)] and wk = whole_facts [OF assms(2)]
  note t = tree_beside [OF wg(1) wk(1) assms(3)]
  note ds = newer_dom(1) [OF tree_ok_links(3) [OF wg(1)] assms(3)]
  note bs = both_simps [OF wg(1) wk(1) ds]
  let ?K = "both kids kids'" and ?K1 = "(both kids kids')(b := kids b @ [d])"
  have A: "set (pt_addrs (PT b us)) = dom (nodes g)" "set (pt_addrs (PT d vs)) = dom (nodes k)"
    using grown_addrs [OF assms(4)] grown_addrs [OF assms(5)] assms(1,2) by (simp_all add: whole_def)
  have Kb: "?K b = kids b" by (rule bs(1) [OF wg(2)])
  have g1: "grown ?K (PT b us)" by (rule grown_cong [OF assms(4)]) (use A bs(1) in auto)
  have g2: "grown ?K (PT d vs)" by (rule grown_cong [OF assms(5)]) (use A bs(2) in auto)
  obtain m where m: "nodes (beside g k) b = Some m" "nodes g b = Some m"
    using wg(2) ds by (metis beside_simps(1) disjoint_iff domD map_add_dom_app_simps(3))
  have root: "is_root ?K d" using bs(4) [OF wk(2)] assms(2) by (simp add: whole_def)
  have dn: "nodes (beside g k) d \<noteq> None" using wk(2) by auto
  have nb: "\<not> below ?K b d" using grown_addrs [OF g2] A(2) wg(2) ds by auto
  have ref: "\<not> is_reference m" using assms(6) m(2) by (simp add: plain_def)
  obtain g' where g': "add_item_to_array (Some b) (Some d) (beside g k) = Inr (True, g')" "tree_ok g' (?K(b := ?K b @ [d]))"
    "same_payload (beside g k) g'" by (rule add_ok [OF t m(1) ref dn root nb])
  have dis: "distinct (pt_addrs (PT b us))" by (rule grown_distinct [OF tree_ok_links(4) [OF wg(1)] assms(4)])
  have "grown ?K1 u" if "u \<in> set us" for u
    by (rule grown_cong [of ?K]) (use g1 that dis in \<open>auto\<close>)
  moreover have "grown ?K1 (PT d vs)" by (rule grown_cong [OF g2]) (use A ds wg(2) in auto)
  moreover have db: "d \<noteq> b" using wg(2) wk(2) ds by auto
  ultimately have gr: "grown ?K1 (PT b (us @ [PT d vs]))" using assms(4) by auto
  have "dom (nodes g') = dom (nodes g) \<union> dom (nodes k)" using same_payload_dom [OF g'(3)] by (auto simp: dom_def map_add_None)
  moreover have "set (pt_addrs (PT b (us @ [PT d vs]))) = set (pt_addrs (PT b us)) \<union> set (pt_addrs (PT d vs))" by auto
  ultimately have "dom (nodes g') = {x. below ?K1 x b}" unfolding A using grown_addrs [OF gr] by simp
  moreover have "is_root ?K1 b" using bs(3) [OF wg(2)] assms(1) db by (auto simp: whole_def is_root_def)
  ultimately have "whole g' ?K1 b" using g'(2) Kb by (simp add: whole_def)
  then show ?thesis by (rule that [OF g'(1,3) _ gr])
qed

text \<open>The link that the code makes while the list is open is the one \<^verbatim>\<open>add_item_to_array\<close> makes when it is closed.\<close>

lemma chain_ends:
  assumes "chained M ks" "ks \<noteq> []"
  obtains n m where "M (hd ks) = Some n" "n_prev n = Some (last ks)" "M (last ks) = Some m"
proof -
  have s: "seg M (Some (last ks)) ks None" using assms by (simp add: chained_def last_or_def)
  have "last ks \<in> set ks" using assms(2) by simp
  then have "last ks \<in> dom M" using seg_dom [OF s] by blast
  then show ?thesis using s assms(2) that by (cases ks) (auto simp: links_def)
qed

lemma dup_link_open:
  assumes "fresh_ok h" "newer h g" "whole g kids b" "whole k kids' d" "newer g k" "plain g"
    and "add_item_to_array (Some b) (Some d) (beside g k) = Inr (True, g')"
  shows "dup_link b (last_or None (kids b)) d (beside (beside h (unheaded (kids b) g)) k) = Inr (beside h (unheaded (kids b @ [d]) g'))"
proof -
  note wg = whole_facts [OF assms(3)] and wk = whole_facts [OF assms(4)]
  note ds = newer_dom(1) [OF tree_ok_links(3) [OF wg(1)] assms(5)]
  let ?ks = "kids b"
  obtain m where m: "nodes g b = Some m" using wg(2) by blast
  obtain n where n: "nodes k d = Some n" using wk(2) by blast
  have nl: "n_next n = None" "n_prev n = None"
    using node_kids(3) [OF tree_ok_links(1) [OF wk(1)] n] assms(4) by (simp_all add: whole_def)
  have ch: "n_child m = first ?ks" "chained (nodes g) ?ks" "distinct ?ks"
    using node_kids(2,4,5) [OF tree_ok_links(1) [OF wg(1)] m] assms(6) m by (simp_all add: plain_def)
  have out: "nodes k x = None" if "x \<in> dom (nodes g)" for x using that ds by blast
  have bd: "b \<noteq> d" "d \<notin> set ?ks" using wg(2,3) wk(2) ds by auto
  have inn: "nodes (beside g k) x = nodes g x" if "x \<in> dom (nodes g)" for x using out [OF that] by (simp add: map_add_def)
  have at: "nodes (beside g k) b = Some m" "nodes (beside g k) d = Some n" using m n inn [OF wg(2)] by simp_all
  show ?thesis
  proof (cases "?ks = []")
    case True
    have e: "n\<lparr>n_prev := Some d, n_next := None\<rparr> = n\<lparr>n_prev := Some d\<rparr>" using nl(1) by simp
    have g': "g' = (beside g k)\<lparr>nodes := (nodes g ++ nodes k)(b \<mapsto> m\<lparr>n_child := Some d\<rparr>, d \<mapsto> n\<lparr>n_prev := Some d\<rparr>)\<rparr>"
      using assms(7) at bd True ch(1) nl by (simp add: add_item_to_array_def e)
    have "n\<lparr>n_prev := None\<rparr> = n" using nl(2) by simp
    then have u: "nodes (unheaded [d] g') = (nodes g ++ nodes k)(b \<mapsto> m\<lparr>n_child := Some d\<rparr>)"
      using bd(1) n by (simp add: unheaded_def g' fun_upd_twist fun_upd_idem)
    have "nodes (beside (beside h g) k) b = Some m" using m out [OF wg(2)] by (simp add: map_add_def)
    then have "set_first (Some b) (Some d) (beside (beside h g) k) = Inr (beside h (unheaded [d] g'))"
      by (simp add: beside_def u map_add_upd) (simp add: unheaded_def g' beside_def)
    then show ?thesis using True by (simp add: dup_link_def)
  next
    case False
    let ?f = "hd ?ks" and ?l = "last ?ks"
    obtain nf nl' where nf: "nodes g ?f = Some nf" "n_prev nf = Some ?l" and l: "nodes g ?l = Some nl'" by (rule chain_ends [OF ch(2) False])
    have f: "first ?ks = Some ?f" "last_or None ?ks = Some ?l" "?f \<in> set ?ks" "?l \<in> set ?ks" using False by (cases ?ks; simp add: last_or_def)+
    have nd: "?f \<noteq> d" "?l \<noteq> d" "?f \<noteq> b" "?l \<noteq> b" using f(3,4) bd(2) wg(4) by auto
    have atg: "nodes (beside g k) ?f = Some nf" "nodes (beside g k) ?l = Some nl'" 
      using nf(1) l inn [of ?f] inn [of ?l] by (simp_all add: domIff)
    let ?M = "(nodes g ++ nodes k)(?l \<mapsto> nl'\<lparr>n_next := Some d\<rparr>, d \<mapsto> n\<lparr>n_prev := Some ?l\<rparr>)"
    have g': "g' = (beside g k)\<lparr>nodes := ?M(?f \<mapsto> (the (?M ?f))\<lparr>n_prev := Some d\<rparr>)\<rparr>"
      using assms(7) at atg bd nd ch(1) f(1) nf(2) by (cases "?f = ?l") (simp_all add: add_item_to_array_def suffix_object_def)
    have u: "unheaded (?ks @ [d]) g' = (beside g k)\<lparr>nodes := ?M(?f \<mapsto> (the (?M ?f))\<lparr>n_prev := None\<rparr>)\<rparr>"
      using False by (cases ?ks) (simp_all add: unheaded_def g')
    let ?u = "(nodes g)(?f \<mapsto> nf\<lparr>n_prev := None\<rparr>)"
    have ug: "nodes (unheaded ?ks g) = ?u" using False nf(1) by (cases ?ks) (simp_all add: unheaded_def)
    have kf: "nodes k ?f = None" "nodes k ?l = None" using out [of ?f] out [of ?l] nf(1) l by (simp_all add: domIff)
    let ?nl = "if ?l = ?f then nf\<lparr>n_prev := None\<rparr> else nl'"
    have look: "nodes (beside (beside h (unheaded ?ks g)) k) ?l = Some ?nl" "nodes (beside (beside h (unheaded ?ks g)) k) d = Some n"
      using l nf(1) n kf by (auto simp: ug map_add_def)
    have "dup_link b (last_or None ?ks) d (beside (beside h (unheaded ?ks g)) k) =
        Inr ((beside (beside h (unheaded ?ks g)) k)\<lparr>nodes := (nodes h ++ ?u ++ nodes k)(?l \<mapsto> ?nl\<lparr>n_next := Some d\<rparr>, d \<mapsto> n\<lparr>n_prev := Some ?l\<rparr>)\<rparr>)"
      using look nd by (simp add: dup_link_def f(2) ug)
    moreover have "(nodes h ++ ?u ++ nodes k)(?l \<mapsto> ?nl\<lparr>n_next := Some d\<rparr>, d \<mapsto> n\<lparr>n_prev := Some ?l\<rparr>) =
        nodes h ++ ?M(?f \<mapsto> (the (?M ?f))\<lparr>n_prev := None\<rparr>)"
      using nd nf(1) l kf by (auto simp: fun_eq_iff map_add_def split: option.splits)
    ultimately show ?thesis by (simp add: u beside_def)
  qed
qed

lemma dup_close_open:
  assumes "fresh_ok h" "newer h g" "whole g kids b" "plain g"
  shows "dup_close b (last_or None (kids b)) (beside h (unheaded (kids b) g)) = Inr (beside h g)"
proof -
  note w = whole_facts [OF assms(3)]
  let ?ks = "kids b"
  obtain m where m: "nodes g b = Some m" using w(2) by blast
  have ch: "n_child m = first ?ks" "chained (nodes g) ?ks"
    using node_kids(2,4) [OF tree_ok_links(1) [OF w(1)] m] assms(4) m by (simp_all add: plain_def)
  show ?thesis
  proof (cases "?ks = []")
    case True
    then show ?thesis using m ch(1) by (simp add: dup_close_def)
  next
    case False
    obtain nf nl where nf: "nodes g (hd ?ks) = Some nf" "n_prev nf = Some (last ?ks)" and "nodes g (last ?ks) = Some nl"
      by (rule chain_ends [OF ch(2) False])
    have f: "first ?ks = Some (hd ?ks)" "last_or None ?ks = Some (last ?ks)" "hd ?ks \<noteq> b"
      using False w(4) by (cases ?ks; simp add: last_or_def)+
    have u: "nodes (unheaded ?ks g) = (nodes g)(hd ?ks \<mapsto> nf\<lparr>n_prev := None\<rparr>)" using False nf(1) by (cases ?ks) (simp_all add: unheaded_def)
    have "nf\<lparr>n_prev := Some (last ?ks)\<rparr> = nf" using nf(2) by simp
    then have "(nodes h ++ nodes g)(hd ?ks \<mapsto> nf\<lparr>n_prev := Some (last ?ks)\<rparr>) = nodes h ++ nodes g"
      using nf(1) by (simp add: fun_upd_idem)
    then show ?thesis using m f ch(1) by (simp add: dup_close_def u beside_def)
  qed
qed

section \<open>The whole copy\<close>

definition dup_call :: "(nat \<Rightarrow> bool) \<Rightarrow> addr \<Rightarrow> json_heap \<Rightarrow> (c_fault + (addr option \<times> json_heap)) option" where
  "dup_call al a h =
     bind_loop (Some (dup_fields al a h)) (\<lambda>(newitem, h1).
     case newitem of
       None \<Rightarrow> Some (Inr (None, h1))
     | Some b \<Rightarrow>
         bind_loop (Some (get_node h1 (Some a))) (\<lambda>n.
         bind_loop (dup_loop al b (n_child n) None h1) (\<lambda>(ok, last, h2).
         if \<not> ok then Some (Inr (None, h2)) else bind_loop (Some (dup_close b last h2)) (\<lambda>h3. Some (Inr (newitem, h3))))))"

lemma bind_loop_assoc: "bind_loop (bind_loop m f) k = bind_loop m (\<lambda>x. bind_loop (f x) k)"
proof (cases m)
  case (Some r)
  then show ?thesis by (cases r) simp_all
qed simp

lemma bind_loop_fault: "bind_loop (Some (bind_fault m f)) k = bind_loop (Some m) (\<lambda>x. bind_loop (Some (f x)) k)"
  by (cases m) (simp_all add: bind_fault_def)

lemma dup_loop_call:
  "dup_loop al b (Some a) nxt h =
     bind_loop (dup_call al a h) (\<lambda>(newchild, h2).
     case newchild of
       None \<Rightarrow> Some (dup_abort b h2)
     | Some d \<Rightarrow>
         bind_loop (Some (dup_link b nxt d h2)) (\<lambda>h3.
         bind_loop (Some (get_node h3 (Some a))) (\<lambda>n1. dup_loop al b (n_next n1) newchild h3)))"
  unfolding dup_call_def bind_loop_assoc
  by (subst dup_loop.simps)
    (auto intro!: arg_cong2 [where f = bind_loop] ext simp: bind_loop_assoc bind_loop_fault split: option.splits)

definition dup_spec :: "(nat \<Rightarrow> bool) \<Rightarrow> json_heap \<Rightarrow> cJSON \<Rightarrow> (c_fault + (addr option \<times> json_heap)) option \<Rightarrow> bool" where
  "dup_spec al h c r \<longleftrightarrow> (\<exists>h'. r = Some (Inr (None, h')) \<and> gave_up al h h') \<or> (\<exists>d h'. r = Some (Inr (Some d, h')) \<and> copied h c h' d)"

lemma newer_same: "same_payload g g' \<Longrightarrow> newer h g \<Longrightarrow> newer h g'"
  unfolding newer_def using same_payload_dom [of g g'] by (simp add: same_payload_def)

lemma plain_same: "same_payload g g' \<Longrightarrow> plain g \<Longrightarrow> plain g'"
  unfolding plain_def by (metis payload_fields(6) same_payload_node)

lemma newer_beside: "newer h g \<Longrightarrow> newer g k \<Longrightarrow> newer h (beside g k)"
  by (auto simp: newer_def map_add_def split: option.splits intro: order_trans)

lemma plain_beside: "plain g \<Longrightarrow> plain k \<Longrightarrow> plain (beside g k)"
  by (auto simp: plain_def map_add_Some_iff)

lemma more_last: "more_of k (beside g k)"
  by (simp add: more_of_def)

text \<open>One more child: the list of copies grows, and the contents of the others are kept.\<close>

lemma making_grow:
  assumes "fresh_ok h" "making h g kids b us cs" "copied (beside h (unheaded (kids b) g)) c h2 d"
  obtains g' kids' vs where "dup_link b (last_or None (kids b)) d h2 = Inr (beside h (unheaded (kids' b) g'))" "making h g' kids' b (us @ [PT d vs]) (cs @ [c])"
    "kids' b = kids b @ [d]" "item_of g' (PT b []) = item_of g (PT b [])"
proof -
  have mk: "newer h g" "whole g kids b" "plain g" "grown kids (PT b us)" "map (item_of g) us = cs" using assms(2) by (simp_all add: making_def)
  obtain k kids2 vs where k: "h2 = beside (beside h (unheaded (kids b) g)) k" "newer (beside h (unheaded (kids b) g)) k" "whole k kids2 d" "plain k"
    "grown kids2 (PT d vs)" "item_of k (PT d vs) = c" using assms(3) unfolding copied_def by blast
  note wg = whole_facts [OF mk(2)] and wk = whole_facts [OF k(3)]
  have gk: "newer g k" using k(2) by (simp add: newer_def)
  let ?K = "(both kids kids2)(b := kids b @ [d])"
  obtain g' where g': "add_item_to_array (Some b) (Some d) (beside g k) = Inr (True, g')" "same_payload (beside g k) g'"
    "whole g' ?K b" "grown ?K (PT b (us @ [PT d vs]))" by (rule grow_tree [OF mk(2) k(3) gk mk(4) k(5) mk(3)])
  have link: "dup_link b (last_or None (kids b)) d h2 = Inr (beside h (unheaded (?K b) g'))"
    unfolding k(1) using dup_link_open [OF assms(1) mk(1,2) k(3) gk mk(3) g'(1)] by simp
  note m1 = more_beside [OF tree_ok_links(3) [OF wg(1)] gk] and m2 = more_last [of k g]
  have rg: "\<forall>x n. nodes g x = Some n \<longrightarrow> readable g (n_valuestring n) \<and> readable g (n_string n)" using plain_readable [OF wg(1) mk(3)] by blast
  have rk: "\<forall>x n. nodes k x = Some n \<longrightarrow> readable k (n_valuestring n) \<and> readable k (n_string n)" using plain_readable [OF wk(1) k(4)] by blast
  have keep: "item_of g' t = item_of g t" if t: "set (pt_addrs t) \<subseteq> dom (nodes g)" for t
  proof -
    have "item_of (beside g k) t = item_of g t" by (rule item_of_more [OF m1 t rg])
    moreover have "item_of g' t = item_of (beside g k) t" by (rule item_of_same [OF g'(2)]) (use t in auto)
    ultimately show ?thesis by simp
  qed
  have new: "item_of g' (PT d vs) = c"
  proof -
    have t: "set (pt_addrs (PT d vs)) \<subseteq> dom (nodes k)" using grown_addrs [OF k(5)] k(3) by (simp add: whole_def)
    have "item_of (beside g k) (PT d vs) = item_of k (PT d vs)" by (rule item_of_more [OF m2 t rk])
    moreover have "item_of g' (PT d vs) = item_of (beside g k) (PT d vs)" by (rule item_of_same [OF g'(2)]) (use t in auto)
    ultimately show ?thesis using k(6) by simp
  qed
  have "set (pt_addrs (PT b us)) = dom (nodes g)" using grown_addrs [OF mk(4)] mk(2) by (simp add: whole_def)
  then have sub: "set (pt_addrs u) \<subseteq> dom (nodes g)" if "u \<in> set us" for u using that by auto
  have "map (item_of g') us = map (item_of g) us" using keep sub by simp
  moreover have "item_of g' (PT b []) = item_of g (PT b [])" by (rule keep) (use wg(2) in simp)
  ultimately have "making h g' ?K b (us @ [PT d vs]) (cs @ [c])" "item_of g' (PT b []) = item_of g (PT b [])"
    unfolding making_def using newer_same [OF g'(2) newer_beside [OF mk(1) gk]] plain_same [OF g'(2) plain_beside [OF mk(3) k(4)]] g'(3,4) mk(5) new
    by (simp_all del: grown.simps item_of.simps)
  then show ?thesis using that link by fastforce
qed

lemma whole_brk:
  assumes "whole g kids b" "brk g \<le> k"
  shows "whole (g\<lparr>brk := k, calls := c\<rparr>) kids b"
proof -
  have "fresh_ok g" using assms(1) by (simp add: whole_def tree_ok_def)
  then have "fresh_ok (g\<lparr>brk := k, calls := c\<rparr>)" using assms(2) by (auto simp: fresh_ok_def)
  then show ?thesis using assms(1) by (simp add: whole_def tree_ok_def strs_ok_def)
qed

lemma making_abort:
  assumes "fresh_ok h" "newer h g" "whole g kids b" "gave_up al (beside h (unheaded (kids b) g)) h2"
  obtains h3 where "dup_abort b h2 = Inr (False, None, h3)" "gave_up al h h3"
proof -
  obtain k c where k: "h2 = (beside h (unheaded (kids b) g))\<lparr>brk := k, calls := c\<rparr>" "brk g \<le> k" "\<exists>i. \<not> al i"
    using assms(4) by (auto simp: gave_up_def)
  let ?g = "g\<lparr>brk := k, calls := c\<rparr>"
  have "h2 = beside h (unheaded (kids b) ?g)" unfolding k(1) by (cases "kids b") (simp_all add: unheaded_def beside_def)
  moreover have "newer h ?g" using assms(2) k(2) by (auto simp: newer_def)
  ultimately have "delete_item (Some b) h2 = Inr (h\<lparr>brk := k, calls := c\<rparr>)"
    using discard_open [OF assms(1) _ whole_brk [OF assms(3) k(2)], of c] by simp
  moreover have "brk h \<le> k" using assms(2) k(2) by (simp add: newer_def)
  then have "gave_up al h (h\<lparr>brk := k, calls := c\<rparr>)" unfolding gave_up_def using k(3) by blast
  ultimately show ?thesis using that by (simp add: dup_abort_def)
qed

lemma newer_unheaded: "newer h g \<Longrightarrow> set ks \<subseteq> dom (nodes g) \<Longrightarrow> newer h (unheaded ks g)"
  by (cases ks) (auto simp: newer_def unheaded_def)

lemma fresh_unheaded: "fresh_ok g \<Longrightarrow> set ks \<subseteq> dom (nodes g) \<Longrightarrow> fresh_ok (unheaded ks g)"
  by (cases ks) (auto simp: fresh_ok_def unheaded_def)

lemma making_open:
  assumes "fresh_ok h" "newer h g" "whole g kids b"
  shows "fresh_ok (beside h (unheaded (kids b) g))" "more_of h (beside h (unheaded (kids b) g))"
proof -
  note w = whole_facts [OF assms(3)]
  have n: "newer h (unheaded (kids b) g)" by (rule newer_unheaded [OF assms(2) w(3)])
  show "fresh_ok (beside h (unheaded (kids b) g))"
    by (rule fresh_beside [OF assms(1) fresh_unheaded [OF tree_ok_links(3) [OF w(1)] w(3)] n])
  show "more_of h (beside h (unheaded (kids b) g))" by (rule more_beside [OF assms(1) n])
qed

text \<open>The loop gives up and has freed everything, or it has copied all children.\<close>

definition children_spec :: "(nat \<Rightarrow> bool) \<Rightarrow> json_heap \<Rightarrow> addr \<Rightarrow> cJSON list \<Rightarrow> cJSON \<Rightarrow> (c_fault + (bool \<times> addr option \<times> json_heap)) option \<Rightarrow> bool" where
  "children_spec al h b cs c r \<longleftrightarrow>
     (\<exists>l h'. r = Some (Inr (False, l, h')) \<and> gave_up al h h') \<or>
     (\<exists>g kids us. r = Some (Inr (True, last_or None (kids b), beside h (unheaded (kids b) g))) \<and> making h g kids b us cs \<and> item_of g (PT b []) = c)"

lemma dup_children_ok:
  assumes "fresh_ok h"
    and "\<And>v H. v \<in> set vs \<Longrightarrow> fresh_ok H \<Longrightarrow> source H v \<Longrightarrow> dup_spec al H (item_of H v) (dup_call al (pt_root v) H)"
    and "seg (nodes h) pv (map pt_root vs) None" "\<forall>v \<in> set vs. source h v" "making h g kids b us cs"
  shows "children_spec al h b (cs @ map (item_of h) vs) (item_of g (PT b []))
    (dup_loop al b (first (map pt_root vs)) (last_or None (kids b)) (beside h (unheaded (kids b) g)))"
  using assms(2-)
proof (induction vs arbitrary: g kids us cs pv)
  case Nil
  have "dup_loop al b (first (map pt_root [])) (last_or None (kids b)) (beside h (unheaded (kids b) g)) =
      Some (Inr (True, last_or None (kids b), beside h (unheaded (kids b) g)))" by (subst dup_loop.simps) simp
  then show ?case unfolding children_spec_def using Nil.prems(4) by (simp del: item_of.simps beside_simps) blast
next
  case (Cons v vs)
  let ?H = "beside h (unheaded (kids b) g)" and ?c = "pt_root v"
  have mk: "newer h g" "whole g kids b" using Cons.prems(4) by (simp_all add: making_def)
  note op = making_open [OF assms(1) mk]
  have src: "source ?H v" "item_of ?H v = item_of h v" using source_more [OF _ op(2)] Cons.prems(3) by auto
  have sp: "dup_spec al ?H (item_of h v) (dup_call al ?c ?H)" using Cons.prems(1) [OF _ op(1) src(1)] src(2) by simp
  obtain n where n: "nodes h ?c = Some n" "n_next n = first (map pt_root vs)" using Cons.prems(2) by (auto simp: links_def)
  from sp consider (no) h2 where "dup_call al ?c ?H = Some (Inr (None, h2))" "gave_up al ?H h2"
    | (yes) d h2 where "dup_call al ?c ?H = Some (Inr (Some d, h2))" "copied ?H (item_of h v) h2 d" unfolding dup_spec_def by blast
  then show ?case
  proof cases
    case no
    obtain h3 where "dup_abort b h2 = Inr (False, None, h3)" "gave_up al h h3" by (rule making_abort [OF assms(1) mk no(2)])
    then show ?thesis unfolding children_spec_def using no(1) by (auto simp: dup_loop_call)
  next
    case yes
    obtain g' kids' ws where g': "dup_link b (last_or None (kids b)) d h2 = Inr (beside h (unheaded (kids' b) g'))"
      "making h g' kids' b (us @ [PT d ws]) (cs @ [item_of h v])" "kids' b = kids b @ [d]" "item_of g' (PT b []) = item_of g (PT b [])"
      by (rule making_grow [OF assms(1) Cons.prems(4) yes(2)])
    have "newer h g'" "whole g' kids' b" using g'(2) by (simp_all add: making_def)
    note op' = making_open [OF assms(1) this]
    have n': "nodes (beside h (unheaded (kids' b) g')) ?c = Some n" by (rule more_node [OF op'(2) n(1)])
    have "dup_loop al b (first (map pt_root (v # vs))) (last_or None (kids b)) ?H =
        dup_loop al b (first (map pt_root vs)) (last_or None (kids' b)) (beside h (unheaded (kids' b) g'))"
      using yes(1) g'(1) get_node_Some [OF n'] n(2) by (simp add: dup_loop_call g'(3) del: beside_simps)
    moreover have "children_spec al h b ((cs @ [item_of h v]) @ map (item_of h) vs) (item_of g' (PT b []))
        (dup_loop al b (first (map pt_root vs)) (last_or None (kids' b)) (beside h (unheaded (kids' b) g')))"
      by (rule Cons.IH [OF _ _ _ g'(2)]) (use Cons.prems in auto)
    ultimately show ?thesis using g'(4) by simp
  qed
qed

lemma dup_call_ok: "fresh_ok h \<Longrightarrow> source h t \<Longrightarrow> dup_spec al h (item_of h t) (dup_call al (pt_root t) h)"
proof (induction t arbitrary: h)
  case (PT a ts)
  obtain n pv where n: "nodes h a = Some n" "\<not> is_reference n" "n_child n = first (map pt_root ts)" "seg (nodes h) pv (map pt_root ts) None"
    "readable h (n_valuestring n)" "readable h (n_string n)" "name_ok n" "\<forall>t \<in> set ts. source h t" using PT.prems(2) by auto
  show ?case
  proof (cases rule: dup_fields_ok [OF PT.prems(1) n(1,2,5-7), of al])
    case (1 k c)
    then show ?thesis by (auto simp: dup_call_def dup_spec_def gave_up_def)
  next
    case yes: (2 g b m)
    let ?k = "\<lambda>_. [] :: addr list"
    have l: "newer h g" "whole g ?k b" "plain g" "nodes g = [b \<mapsto> m]" using yes(2) lone_whole [OF yes(2)] by (auto simp: lone_def plain_def)
    have mk: "making h g ?k b [] []" using l by (simp add: making_def)
    have item: "item_of g (PT b []) = Item (n_type n) (text_of h (n_valuestring n)) (n_valueint n) (n_valuedouble n) (text_of h (n_string n)) []"
      using yes l(4) by (simp add: Let_def)
    have sp: "children_spec al h b ([] @ map (item_of h) ts) (item_of g (PT b []))
        (dup_loop al b (first (map pt_root ts)) (last_or None (?k b)) (beside h (unheaded (?k b) g)))"
      by (rule dup_children_ok [OF PT.prems(1) PT.IH n(4,8) mk])
    have gn: "nodes (beside h g) a = Some n" using more_node [OF making_open(2) [OF PT.prems(1) l(1,2)] n(1)] by simp
    let ?r = "dup_loop al b (n_child n) None (beside h g)"
    have call: "dup_call al a h = bind_loop ?r (\<lambda>(ok, last, h2). if \<not> ok then Some (Inr (None, h2))
        else bind_loop (Some (dup_close b last h2)) (\<lambda>h3. Some (Inr (Some b, h3))))"
      using yes(1) get_node_Some [OF gn] by (simp add: dup_call_def)
    from sp n(3) consider (stop) l' h' where "?r = Some (Inr (False, l', h'))" "gave_up al h h'"
      | (go) g' kids us where "?r = Some (Inr (True, last_or None (kids b), beside h (unheaded (kids b) g')))" "making h g' kids b us (map (item_of h) ts)"
          "item_of g' (PT b []) = item_of g (PT b [])" by (auto simp: children_spec_def)
    then show ?thesis
    proof cases
      case stop
      then show ?thesis using call by (auto simp: dup_spec_def)
    next
      case go
      have mk': "newer h g'" "whole g' kids b" "plain g'" "grown kids (PT b us)" "map (item_of g') us = map (item_of h) ts"
        using go(2) by (simp_all add: making_def)
      have "dup_call al a h = Some (Inr (Some b, beside h g'))"
        using call go(1) dup_close_open [OF PT.prems(1) mk'(1-3)] by simp
      moreover have "item_of g' (PT b us) = item_of h (PT a ts)"
        using go(3) item mk'(5) n(1) by (simp add: Let_def)
      then have "copied h (item_of h (PT a ts)) (beside h g') b" unfolding copied_def using mk'(1-4) by blast
      ultimately show ?thesis unfolding dup_spec_def by simp
    qed
  qed
qed

text \<open>The contents of the tree below an item, and an item below which there are no references.\<close>

definition contents :: "json_heap \<Rightarrow> addr \<Rightarrow> cJSON \<Rightarrow> bool" where
  "contents h a c \<longleftrightarrow> (\<exists>ts. grown (kids_of h) (PT a ts) \<and> c = item_of h (PT a ts))"

definition no_references :: "json_heap \<Rightarrow> addr \<Rightarrow> bool" where
  "no_references h a \<longleftrightarrow> (\<forall>x n. below (kids_of h) x a \<and> nodes h x = Some n \<longrightarrow> \<not> is_reference n)"

lemma grown_source:
  assumes "tree_ok h kids" "grown kids t" "\<forall>x \<in> set (pt_addrs t). \<exists>n. nodes h x = Some n \<and> \<not> is_reference n"
  shows "source h t"
  using assms(2,3)
proof (induction t)
  case (PT a ts)
  obtain n where n: "nodes h a = Some n" "\<not> is_reference n" using PT.prems(2) by auto
  have "node_ok kids a n" "chained (nodes h) (kids a)" using n(1) tree_ok_links(1) [OF assms(1)] by (simp_all add: links_ok_def)
  moreover have "name_ok n" using n(1) tree_ok_links(2) [OF assms(1)] unfolding strs_ok_def by blast
  ultimately have "n_child n = first (kids a)" "chained (nodes h) (kids a)" "name_ok n" using n(2) by (simp_all add: node_ok_def)
  then have "n_child n = first (map pt_root ts) \<and> seg (nodes h) (last_or None (map pt_root ts)) (map pt_root ts) None \<and> name_ok n"
    using PT.prems(1) by (simp add: chained_def)
  moreover have "source h t" if "t \<in> set ts" for t using PT.IH [OF that] PT.prems that by auto
  ultimately show ?case using n own_readable [OF assms(1) n(2,1)] by auto
qed

lemma contents_source:
  assumes "json_ok h" "nodes h a \<noteq> None" "no_references h a" "contents h a c"
  obtains t where "grown (kids_of h) t" "pt_root t = a" "source h t" "item_of h t = c"
proof -
  have k: "tree_ok h (kids_of h)" using assms(1) by (simp add: json_ok_def)
  obtain ts where ts: "grown (kids_of h) (PT a ts)" "item_of h (PT a ts) = c" using assms(4) unfolding contents_def by blast
  have "\<exists>n. nodes h x = Some n \<and> \<not> is_reference n" if x: "x \<in> set (pt_addrs (PT a ts))" for x
  proof -
    have b: "below (kids_of h) x a" using grown_addrs [OF ts(1)] x by auto
    then have "x \<in> dom (nodes h)" using below_dom [OF k] assms(2) by blast
    then show ?thesis using assms(3) b by (auto simp: no_references_def)
  qed
  then have "source h (PT a ts)" using grown_source [OF k ts(1)] by blast
  then show ?thesis by (intro that [OF ts(1) _ _ ts(2)]) simp
qed

lemma duplicate_call:
  "cJSON_Duplicate al (Some a) True h = run_loop (dup_call al a h)"
proof (cases "dup_fields al a h")
  case (Inr r)
  obtain x h1 where r: "r = (x, h1)" by (cases r)
  show ?thesis
  proof (cases x)
    case (Some b)
    show ?thesis
    proof (cases "get_node h1 (Some a)")
      case n: (Inr n)
      show ?thesis
      proof (cases "dup_loop al b (n_child n) None h1")
        case l: (Some s)
        show ?thesis using Inr r Some n l
          by (cases s) (auto simp: cJSON_Duplicate_def dup_call_def run_loop_def bind_fault_def split: sum.splits)
      qed (use Inr r Some n in \<open>simp add: cJSON_Duplicate_def dup_call_def run_loop_def\<close>)
    qed (use Inr r Some in \<open>simp add: cJSON_Duplicate_def dup_call_def run_loop_def\<close>)
  qed (use Inr r in \<open>simp add: cJSON_Duplicate_def dup_call_def run_loop_def\<close>)
qed (simp add: cJSON_Duplicate_def dup_call_def run_loop_def)

lemma copied_ok:
  assumes "json_ok h" "nodes h a \<noteq> None" "contents h a c" "no_references h a" "copied h c h' b"
  shows "json_ok h' \<and> more_of h h' \<and> nodes h b = None \<and> is_root (kids_of h') b \<and> contents h' b c \<and> contents h' a c \<and>
    (\<forall>x. below (kids_of h') x b \<longrightarrow> nodes h x = None) \<and> no_references h' a \<and> no_references h' b"
proof -
  have t: "tree_ok h (kids_of h)" using assms(1) by (simp add: json_ok_def)
  obtain g kids us where g: "h' = beside h g" "newer h g" "whole g kids b" "plain g" "grown kids (PT b us)" "item_of g (PT b us) = c"
    using assms(5) unfolding copied_def by blast
  note w = whole_facts [OF g(3)] and fr = tree_ok_links(3) [OF t]
  note d = newer_dom [OF fr g(2)] and bs = both_simps [OF t w(1) newer_dom(1) [OF fr g(2)]]
  have j: "json_ok h'" "kids_of h' = both (kids_of h) kids" using json_okI [OF tree_beside [OF t w(1) g(2)]] g(1) by simp_all
  have root: "is_root (kids_of h') b" using bs(4) [OF w(2)] g(3) unfolding j(2) by (simp add: whole_def)
  have A: "set (pt_addrs (PT b us)) = dom (nodes g)" using grown_addrs [OF g(5)] g(3) by (simp add: whole_def)
  have gb: "grown (kids_of h') (PT b us)" by (rule grown_cong [OF g(5)]) (use bs(2) A j(2) in auto)
  have "item_of h' (PT b us) = c"
    using item_of_more [OF more_last [of g h], of "PT b us"] A plain_readable [OF w(1) g(4)] g(1,6) by blast
  then have cb: "contents h' b c" unfolding contents_def using gb by blast
  have new: "nodes h x = None" if "below (kids_of h') x b" for x
    using that grown_addrs [OF gb] A d(1) by auto
  obtain s where s: "grown (kids_of h) s" "pt_root s = a" "source h s" "item_of h s = c" by (rule contents_source [OF assms(1,2,4,3)])
  have mo: "more_of h h'" unfolding g(1) by (rule more_beside [OF fr g(2)])
  have sd: "set (pt_addrs s) \<subseteq> dom (nodes h)" using grown_addrs [OF s(1)] s(2) below_dom [OF t assms(2)] by auto
  then have gs: "grown (kids_of h') s" using bs(1) j(2) by (intro grown_cong [OF s(1)]) auto
  have ra: "no_references h' a"
    unfolding no_references_def
  proof (intro allI impI, elim conjE)
    fix x n assume x: "below (kids_of h') x a" "nodes h' x = Some n"
    then have "x \<in> set (pt_addrs s)" using grown_addrs [OF gs] s(2) by simp
    then have "below (kids_of h) x a" "x \<in> dom (nodes h)" using grown_addrs [OF s(1)] s(2) sd by auto
    then show "\<not> is_reference n" using assms(4) x(2) more_node [OF mo, of x] unfolding no_references_def by (metis domD option.inject)
  qed
  have rb: "no_references h' b"
    unfolding no_references_def using grown_addrs [OF gb] A g(4) unfolding g(1) plain_def by (auto simp: map_add_Some_iff)
  note gs
  moreover have "item_of h' s = c" using source_more [OF s(3) mo] s(4) by simp
  moreover obtain ts where "s = PT a ts" using s(2) by (cases s) simp
  ultimately have ca: "contents h' a c" unfolding contents_def by blast
  show ?thesis using j(1) mo new [of b] root cb ca new ra rb by auto
qed

lemma duplicate_cases:
  assumes "json_ok h" "nodes h a \<noteq> None" "contents h a c" "no_references h a"
  obtains (no) h' where "cJSON_Duplicate al (Some a) True h = Inr (None, h')" "gave_up al h h'"
  | (yes) b h' where "cJSON_Duplicate al (Some a) True h = Inr (Some b, h')" "copied h c h' b"
proof -
  obtain s where s: "pt_root s = a" "source h s" "item_of h s = c" by (rule contents_source [OF assms(1,2,4,3)])
  have "fresh_ok h" using assms(1) by (simp add: json_ok_def tree_ok_def)
  then have "dup_spec al h c (dup_call al a h)" using dup_call_ok [OF _ s(2), of al] s by simp
  then show ?thesis using no yes unfolding dup_spec_def duplicate_call run_loop_def by auto
qed

text \<open>
  C27: A call of \<^verbatim>\<open>cJSON_Duplicate (item, true)\<close> on a well-formed memory, for an item below which there are no references, never
  faults and always returns. When an allocation fails it returns \<^verbatim>\<open>NULL\<close>, and all that had been allocated is freed again.
  Otherwise it returns a new root whose tree has the same types, numbers, texts, names and order of children as the
  old one and shares no item with it; the memory that was in use before is unchanged, and the memory is well-formed
  again.
\<close>

theorem duplicate_copies:
  assumes "json_ok h" "nodes h a \<noteq> None" "contents h a c" "no_references h a"
  shows "\<exists>r h'. cJSON_Duplicate al (Some a) True h = Inr (r, h') \<and> json_ok h' \<and>
    (case r of
       None \<Rightarrow> (\<exists>i. \<not> al i) \<and> nodes h' = nodes h \<and> strs h' = strs h
     | Some b \<Rightarrow> nodes h b = None \<and> is_root (kids_of h') b \<and> contents h' b c \<and> contents h' a c \<and> more_of h h' \<and>
         (\<forall>x. below (kids_of h') x b \<longrightarrow> nodes h x = None))"
proof -
  have t: "tree_ok h (kids_of h)" using assms(1) by (simp add: json_ok_def)
  show ?thesis
  proof (cases rule: duplicate_cases [OF assms, of al])
    case (1 h')
    obtain k i where k: "h' = h\<lparr>brk := k, calls := i\<rparr>" "brk h \<le> k" "\<exists>i. \<not> al i" using 1(2) by (auto simp: gave_up_def)
    have "tree_ok h' (kids_of h)" using t k(2) unfolding k(1) by (auto simp: tree_ok_def strs_ok_def fresh_ok_def)
    then have "json_ok h'" using json_okI by blast
    then show ?thesis using 1(1) k(1,3) by simp
  next
    case (2 b h')
    then show ?thesis using copied_ok [OF assms 2(2)] by simp
  qed
qed

theorem duplicate_copies_witness:
  "\<exists>b h'. cJSON_Duplicate (\<lambda>_. True) (Some 0) True demo_heap = Inr (Some b, h') \<and> json_ok h' \<and> is_root (kids_of h') b \<and>
     contents h' b (Item cJSON_Array None 0 (Finite False 0) None [Item cJSON_Object None 0 (Finite False 0) None []])"
proof -
  have "grown demo_kids (PT 0 [PT 1 []])" by (simp add: demo_kids_def)
  moreover have "item_of demo_heap (PT 0 [PT 1 []]) = Item cJSON_Array None 0 (Finite False 0) None [Item cJSON_Object None 0 (Finite False 0) None []]"
    by (simp add: demo_heap_def empty_node_def text_of_def Let_def)
  ultimately have "contents demo_heap 0 (Item cJSON_Array None 0 (Finite False 0) None [Item cJSON_Object None 0 (Finite False 0) None []])"
    unfolding contents_def demo_heap_facts(2) by metis
  moreover have "nodes demo_heap 0 \<noteq> None" by (simp add: demo_heap_def)
  moreover have "no_references demo_heap 0"
    by (auto simp: no_references_def demo_heap_facts(2) demo_below demo_heap_def is_reference_def empty_node_def)
  ultimately show ?thesis using duplicate_copies [OF demo_heap_facts(1), of 0 _ "\<lambda>_. True"] by (fastforce split: option.splits)
qed

end
