(* ===== verification/CjsonCompare.thy ===== *)
theory CjsonCompare
  imports CjsonDuplicate
begin

text \<open>
  \<^verbatim>\<open>cJSON_Compare\<close> of \<^verbatim>\<open>apps/cjson/cJSON.c\<close>: it ends on every pair of trees and decides an equality of their
  contents, and a copy made by \<^verbatim>\<open>cJSON_Duplicate\<close> is equal to its original.
\<close>

section \<open>The function\<close>

definition comparable_kind :: "u32 \<Rightarrow> bool" where
  "comparable_kind k \<longleftrightarrow> k \<in> {cJSON_False, cJSON_True, cJSON_NULL, cJSON_Number, cJSON_String, cJSON_Raw, cJSON_Array, cJSON_Object}"

text \<open>The calls: two items, the rests of two arrays, and the rest of the members of one object with the other object.\<close>

datatype cmp_call = Items "addr option" "addr option" | Elements "addr option" "addr option" | Members "addr option" "addr option"

definition compare_values :: "json_heap \<Rightarrow> strptr option \<Rightarrow> strptr option \<Rightarrow> c_fault + bool" where
  "compare_values h v w =
     (if v = None \<or> w = None then Inr False else bind_fault (get_str h v) (\<lambda>s. bind_fault (get_str h w) (\<lambda>t. Inr (s = t))))"

partial_function (option) compare_loop :: "json_heap \<Rightarrow> bool \<Rightarrow> cmp_call \<Rightarrow> (c_fault + bool) option" where
  "compare_loop h case_sensitive call =
     (case call of
        Items a b \<Rightarrow>
          (if a = None \<or> b = None then Some (Inr False)
           else bind_loop (Some (get_node h a)) (\<lambda>n. bind_loop (Some (get_node h b)) (\<lambda>m.
                let kind = n_type n AND 255
                in if kind \<noteq> n_type m AND 255 \<or> kind = cJSON_Invalid then Some (Inr False)
                   else if \<not> comparable_kind kind then Some (Inr False)
                   else if a = b then Some (Inr True)
                   else if kind = cJSON_False \<or> kind = cJSON_True \<or> kind = cJSON_NULL then Some (Inr True)
                   else if kind = cJSON_Number then Some (Inr (compare_double (n_valuedouble n) (n_valuedouble m)))
                   else if kind = cJSON_String \<or> kind = cJSON_Raw then Some (compare_values h (n_valuestring n) (n_valuestring m))
                   else if kind = cJSON_Array then compare_loop h case_sensitive (Elements (n_child n) (n_child m))
                   else if kind = cJSON_Object
                   then bind_loop (compare_loop h case_sensitive (Members (n_child n) b)) (\<lambda>ok.
                        if \<not> ok then Some (Inr False) else compare_loop h case_sensitive (Members (n_child m) a))
                   else Some (Inr False))))
      | Elements p q \<Rightarrow>
          (if p \<noteq> None \<and> q \<noteq> None
           then bind_loop (compare_loop h case_sensitive (Items p q)) (\<lambda>ok.
                if \<not> ok then Some (Inr False)
                else bind_loop (Some (get_node h p)) (\<lambda>n. bind_loop (Some (get_node h q)) (\<lambda>m.
                     compare_loop h case_sensitive (Elements (n_next n) (n_next m)))))
           else Some (Inr (p = q)))
      | Members p other \<Rightarrow>
          (if p = None then Some (Inr True)
           else bind_loop (Some (get_node h p)) (\<lambda>n.
                bind_loop (Some (get_object_item h other (n_string n) case_sensitive)) (\<lambda>q.
                if q = None then Some (Inr False)
                else bind_loop (compare_loop h case_sensitive (Items p q)) (\<lambda>ok.
                     if \<not> ok then Some (Inr False) else compare_loop h case_sensitive (Members (n_next n) other))))))"

definition cJSON_Compare :: "json_heap \<Rightarrow> addr option \<Rightarrow> addr option \<Rightarrow> bool \<Rightarrow> c_fault + bool" where
  "cJSON_Compare h a b case_sensitive = run_loop (compare_loop h case_sensitive (Items a b))"

section \<open>Equal contents\<close>

abbreviation kind_of :: "cJSON \<Rightarrow> u32" where
  "kind_of c \<equiv> item_type c AND 255"

text \<open>The first member of a name, as the look-up finds it.\<close>

definition called :: "bool \<Rightarrow> u8 list \<Rightarrow> cJSON \<Rightarrow> bool" where
  "called cs s c =
     (case item_string c of None \<Rightarrow> False | Some t \<Rightarrow> if cs then t = s else map tolower t = map tolower s)"

definition find_member :: "bool \<Rightarrow> u8 list \<Rightarrow> cJSON list \<Rightarrow> cJSON option" where
  "find_member cs s ks = find (called cs s) (if cs then takeWhile (\<lambda>c. item_string c \<noteq> None) ks else ks)"

lemma find_member_set: "find_member cs s ks = Some c \<Longrightarrow> c \<in> set ks"
  by (auto simp: find_member_def find_Some_iff split: if_splits) (metis nth_mem set_takeWhileD)

definition member_like :: "bool \<Rightarrow> cJSON \<Rightarrow> cJSON list \<Rightarrow> cJSON option" where
  "member_like cs c ks = Option.bind (item_string c) (\<lambda>s. find_member cs s ks)"

lemma member_like_set: "member_like cs c ks = Some d \<Longrightarrow> d \<in> set ks"
  by (auto simp: member_like_def bind_eq_Some_conv dest: find_member_set)

text \<open>
  Items are equal when their kinds are and, by kind, their numbers, their texts, their elements in order, or their
  members under each name of either.
\<close>

function json_eq :: "bool \<Rightarrow> cJSON \<Rightarrow> cJSON \<Rightarrow> bool" where
  "json_eq cs a b \<longleftrightarrow>
     kind_of a = kind_of b \<and> comparable_kind (kind_of a) \<and>
     (kind_of a = cJSON_Number \<longrightarrow> compare_double (valuedouble a) (valuedouble b)) \<and>
     (kind_of a = cJSON_String \<or> kind_of a = cJSON_Raw \<longrightarrow> valuestring a \<noteq> None \<and> valuestring a = valuestring b) \<and>
     (kind_of a = cJSON_Array \<longrightarrow> list_all2 (json_eq cs) (child a) (child b)) \<and>
     (kind_of a = cJSON_Object \<longrightarrow>
        (\<forall>x \<in> set (child a). case member_like cs x (child b) of None \<Rightarrow> False | Some y \<Rightarrow> json_eq cs x y) \<and>
        (\<forall>y \<in> set (child b). case member_like cs y (child a) of None \<Rightarrow> False | Some x \<Rightarrow> json_eq cs y x))"
  by pat_completeness auto
termination
proof (relation "measure (\<lambda>(cs, a, b). size a + size b)")
  have sz: "x \<in> set (child a) \<Longrightarrow> size x < size a" for x a :: cJSON
    by (cases a) (auto dest: size_list_estimation' [where f = size, OF _ order_refl])
  then show "((cs, x, y), (cs, a, b)) \<in> measure (\<lambda>(cs, a, b). size a + size b)" if "x \<in> set (child a)" "y \<in> set (child b)" for cs x y a b
    using that by (simp add: add_strict_mono)
  show "((cs, x, y), (cs, a, b)) \<in> measure (\<lambda>(cs, a, b). size a + size b)" if "x \<in> set (child a)" "member_like cs x (child b) = Some y" for cs x y a b
    using sz that(1) member_like_set [OF that(2)] by (simp add: add_strict_mono)
  show "((cs, y, x), (cs, a, b)) \<in> measure (\<lambda>(cs, a, b). size a + size b)" if "y \<in> set (child b)" "member_like cs y (child a) = Some x" for cs x y a b
    using sz [OF that(1)] sz [OF member_like_set [OF that(2)]] by simp
qed simp

declare json_eq.simps [simp del]

section \<open>The comparison decides it\<close>

lemma find_map: "find P (map f xs) = map_option f (find (P \<circ> f) xs)"
  by (induction xs) simp_all

lemma find_mem: "find P xs = Some x \<Longrightarrow> x \<in> set xs"
  by (auto simp: find_Some_iff)

lemma find_member_tree:
  obtains (no) "member_of h cs s (map pt_root ts) = None" "find_member cs s (map (item_of h) ts) = None"
  | (yes) t where "t \<in> set ts" "member_of h cs s (map pt_root ts) = Some (pt_root t)" "find_member cs s (map (item_of h) ts) = Some (item_of h t)"
proof -
  let ?r = "find (name_is h cs s \<circ> pt_root) (if cs then takeWhile (named h \<circ> pt_root) ts else ts)"
  have "called cs s (item_of h t) = name_is h cs s (pt_root t)" "item_string (item_of h t) \<noteq> None \<longleftrightarrow> named h (pt_root t)" for t
    by (cases t; auto simp: called_def name_is_def named_def text_of_def Let_def split: option.splits)+
  then have "called cs s \<circ> item_of h = name_is h cs s \<circ> pt_root" "(\<lambda>c. item_string c \<noteq> None) \<circ> item_of h = named h \<circ> pt_root"
    by (simp_all add: fun_eq_iff)
  then have f: "find_member cs s (map (item_of h) ts) = map_option (item_of h) ?r" "member_of h cs s (map pt_root ts) = map_option pt_root ?r"
    by (cases cs; simp add: find_member_def member_of_def takeWhile_map find_map)+
  show ?thesis
  proof (cases ?r)
    case None
    then show ?thesis using no f by simp
  next
    case (Some t)
    then have "t \<in> set ts" using find_mem [OF Some] set_takeWhileD by (fastforce split: if_splits)
    then show ?thesis using yes f Some by simp
  qed
qed

text \<open>What the two loops decide when they compare their elements as they should.\<close>

lemma elements_ok:
  assumes "seg (nodes h) pv (map pt_root ts) None" "seg (nodes h) pw (map pt_root us) None"
    and "\<And>t u. t \<in> set ts \<Longrightarrow> u \<in> set us \<Longrightarrow> compare_loop h cs (Items (Some (pt_root t)) (Some (pt_root u))) = Some (Inr (json_eq cs (item_of h t) (item_of h u)))"
  shows "compare_loop h cs (Elements (first (map pt_root ts)) (first (map pt_root us))) =
    Some (Inr (list_all2 (json_eq cs) (map (item_of h) ts) (map (item_of h) us)))"
  using assms
proof (induction ts arbitrary: us pv pw)
  case Nil
  then show ?case by (subst compare_loop.simps) (cases us; simp)
next
  case (Cons t ts)
  show ?case
  proof (cases us)
    case Nil
    then show ?thesis by (subst compare_loop.simps) simp
  next
    case u: (Cons u us')
    obtain n where n: "nodes h (pt_root t) = Some n" "n_next n = first (map pt_root ts)" "seg (nodes h) (Some (pt_root t)) (map pt_root ts) None"
      using Cons.prems(1) by (auto simp: links_def)
    obtain m where m: "nodes h (pt_root u) = Some m" "n_next m = first (map pt_root us')" "seg (nodes h) (Some (pt_root u)) (map pt_root us') None"
      using Cons.prems(2) by (auto simp: links_def u)
    have tu: "compare_loop h cs (Items (Some (pt_root t)) (Some (pt_root u))) = Some (Inr (json_eq cs (item_of h t) (item_of h u)))"
      using Cons.prems(3) u by simp
    have IH: "compare_loop h cs (Elements (first (map pt_root ts)) (first (map pt_root us'))) =
        Some (Inr (list_all2 (json_eq cs) (map (item_of h) ts) (map (item_of h) us')))"
      by (rule Cons.IH [OF n(3) m(3)]) (use Cons.prems(3) u in simp)
    show ?thesis by (subst compare_loop.simps) (use tu IH n m in \<open>simp add: u\<close>)
  qed
qed

lemma members_ok:
  assumes "seg (nodes h) pv (map pt_root ts) None"
    and "\<And>key. readable h (Some key) \<Longrightarrow> get_object_item h (Some b) (Some key) cs = Inr (member_of h cs (c_string (str_value h key)) (map pt_root us))"
    and "\<And>t u. t \<in> set ts \<Longrightarrow> u \<in> set us \<Longrightarrow> compare_loop h cs (Items (Some (pt_root t)) (Some (pt_root u))) = Some (Inr (json_eq cs (item_of h t) (item_of h u)))"
    and "\<And>t. t \<in> set ts \<Longrightarrow> source h t"
  shows "compare_loop h cs (Members (first (map pt_root ts)) (Some b)) =
    Some (Inr (\<forall>x \<in> set (map (item_of h) ts). case member_like cs x (map (item_of h) us) of None \<Rightarrow> False | Some y \<Rightarrow> json_eq cs x y))"
  using assms(1,3,4)
proof (induction ts arbitrary: pv)
  case Nil
  then show ?case by (subst compare_loop.simps) simp
next
  case (Cons t ts)
  obtain n where n: "nodes h (pt_root t) = Some n" "n_next n = first (map pt_root ts)" "seg (nodes h) (Some (pt_root t)) (map pt_root ts) None"
    using Cons.prems(1) by (auto simp: links_def)
  have IH: "compare_loop h cs (Members (first (map pt_root ts)) (Some b)) =
      Some (Inr (\<forall>x \<in> set (map (item_of h) ts). case member_like cs x (map (item_of h) us) of None \<Rightarrow> False | Some y \<Rightarrow> json_eq cs x y))"
    by (rule Cons.IH [OF n(3)]) (use Cons.prems in simp_all)
  obtain a vs where t: "t = PT a vs" by (cases t)
  have r: "readable h (n_string n)" using Cons.prems(3) [of t] n(1) by (auto simp: t)
  have nm: "item_string (item_of h t) = text_of h (n_string n)" using n(1) by (simp add: t Let_def)
  show ?case
  proof (cases "n_string n")
    case None
    then have "get_object_item h (Some b) (n_string n) cs = Inr None" by (simp add: get_object_item_def)
    then show ?thesis
      by (subst compare_loop.simps) (use n None nm in \<open>simp add: member_like_def text_of_def del: item_of.simps\<close>)
  next
    case (Some key)
    then have g: "get_object_item h (Some b) (n_string n) cs = Inr (member_of h cs (c_string (str_value h key)) (map pt_root us))"
      using assms(2) r by simp
    have like: "member_like cs (item_of h t) (map (item_of h) us) = find_member cs (c_string (str_value h key)) (map (item_of h) us)"
      using nm Some by (simp add: member_like_def text_of_def)
    show ?thesis
    proof (cases rule: find_member_tree [of h cs "c_string (str_value h key)" us])
      case no
      then show ?thesis by (subst compare_loop.simps) (use n g like in \<open>simp del: item_of.simps\<close>)
    next
      case (yes u)
      have "compare_loop h cs (Items (Some (pt_root t)) (Some (pt_root u))) = Some (Inr (json_eq cs (item_of h t) (item_of h u)))"
        using Cons.prems(2) yes(1) by simp
      then show ?thesis by (subst compare_loop.simps) (use n g like yes IH in \<open>simp del: item_of.simps\<close>)
    qed
  qed
qed

lemma pt_size: "t \<in> set ts \<Longrightarrow> size t < size (PT a ts)"
  by (auto dest: size_list_estimation' [where f = size, OF _ order_refl])

lemma compare_two:
  assumes "tree_ok h kids" "grown kids t" "grown kids u" "source h t" "source h u" "pt_root t \<noteq> pt_root u"
  shows "compare_loop h cs (Items (Some (pt_root t)) (Some (pt_root u))) = Some (Inr (json_eq cs (item_of h t) (item_of h u)))"
  using assms(2-)
proof (induction "size t + size u" arbitrary: t u rule: less_induct)
  case less
  obtain a ts b us where tu: "t = PT a ts" "u = PT b us" by (cases t; cases u) simp
  obtain n pv where n: "nodes h a = Some n" "\<not> is_reference n" "n_child n = first (map pt_root ts)" "seg (nodes h) pv (map pt_root ts) None"
    "readable h (n_valuestring n)" "\<And>t. t \<in> set ts \<Longrightarrow> source h t" using less.prems(3) by (auto simp: tu)
  obtain m pw where m: "nodes h b = Some m" "\<not> is_reference m" "n_child m = first (map pt_root us)" "seg (nodes h) pw (map pt_root us) None"
    "readable h (n_valuestring m)" "\<And>t. t \<in> set us \<Longrightarrow> source h t" using less.prems(4) by (auto simp: tu)
  have k: "kids a = map pt_root ts" "kids b = map pt_root us" "\<And>t. t \<in> set ts \<Longrightarrow> grown kids t" "\<And>t. t \<in> set us \<Longrightarrow> grown kids t"
    using less.prems(1,2) by (simp_all add: tu)
  have "set (kids a) \<inter> set (kids b) = {}" using tree_ok_links(4) [OF assms(1)] less.prems(5) by (simp add: kids_ok_def tu)
  then have dj: "pt_root x \<noteq> pt_root y" if "x \<in> set ts" "y \<in> set us" for x y using that k(1,2) by fastforce
  have IH: "compare_loop h cs (Items (Some (pt_root x)) (Some (pt_root y))) = Some (Inr (json_eq cs (item_of h x) (item_of h y)))"
    if "x \<in> set ts" "y \<in> set us" for x y
    by (rule less.hyps) (use that pt_size [of x ts a] pt_size [of y us b] tu k n(6) m(6) dj in auto)
  have IH': "compare_loop h cs (Items (Some (pt_root y)) (Some (pt_root x))) = Some (Inr (json_eq cs (item_of h y) (item_of h x)))"
    if "y \<in> set us" "x \<in> set ts" for x y
    by (rule less.hyps) (use that pt_size [of x ts a] pt_size [of y us b] tu k n(6) m(6) dj [of x y] in auto)
  note el = elements_ok [OF n(4) m(4) IH]
  have g: "get_object_item h (Some b) (Some key) cs = Inr (member_of h cs (c_string (str_value h key)) (map pt_root us))"
    "get_object_item h (Some a) (Some key) cs = Inr (member_of h cs (c_string (str_value h key)) (map pt_root ts))" if "readable h (Some key)" for key
    using get_object_item_kids [OF assms(1) m(1,2) that, of cs] get_object_item_kids [OF assms(1) n(1,2) that, of cs] k by simp_all
  note me = members_ok [OF n(4) g(1) IH n(6)] members_ok [OF m(4) g(2) IH' m(6)]
  have ab: "a \<noteq> b" using less.prems(5) by (simp add: tu)
  have vals: "compare_values h (n_valuestring n) (n_valuestring m) =
      Inr (text_of h (n_valuestring n) \<noteq> None \<and> text_of h (n_valuestring n) = text_of h (n_valuestring m))"
    using n(5) m(5) by (cases "n_valuestring n"; cases "n_valuestring m") (auto simp: compare_values_def text_of_def)
  have it: "item_of h t = Item (n_type n) (text_of h (n_valuestring n)) (n_valueint n) (n_valuedouble n) (text_of h (n_string n)) (map (item_of h) ts)"
    "item_of h u = Item (n_type m) (text_of h (n_valuestring m)) (n_valueint m) (n_valuedouble m) (text_of h (n_string m)) (map (item_of h) us)"
    using n(1) m(1) by (simp_all add: tu Let_def)
  let ?k = "n_type n AND 255"
  consider (differ) "?k \<noteq> n_type m AND 255 \<or> \<not> comparable_kind ?k" | (simple) "?k = n_type m AND 255" "?k \<in> {cJSON_False, cJSON_True, cJSON_NULL}"
    | (num) "?k = n_type m AND 255" "?k = cJSON_Number" | (str) "?k = n_type m AND 255" "?k \<in> {cJSON_String, cJSON_Raw}"
    | (arr) "?k = n_type m AND 255" "?k = cJSON_Array" | (obj) "?k = n_type m AND 255" "?k = cJSON_Object"
    unfolding comparable_kind_def by blast
  then show ?case
    unfolding it
    by cases (subst compare_loop.simps, subst json_eq.simps, use n m ab el me vals in \<open>auto simp: tu Let_def comparable_kind_def simp del: item_of.simps\<close>)+
qed

text \<open>
  Items that are equal to themselves: numbers that are, texts that are there, and in objects names that are there and
  do not occur twice.
\<close>

definition member_key :: "bool \<Rightarrow> cJSON \<Rightarrow> u8 list" where
  "member_key cs c = (if cs then the (item_string c) else map tolower (the (item_string c)))"

fun self_equal :: "bool \<Rightarrow> cJSON \<Rightarrow> bool" where
  "self_equal cs (Item t v i d s ks) \<longleftrightarrow>
     comparable_kind (t AND 255) \<and> (t AND 255 = cJSON_Number \<longrightarrow> compare_double d d) \<and>
     (t AND 255 = cJSON_String \<or> t AND 255 = cJSON_Raw \<longrightarrow> v \<noteq> None) \<and>
     (\<forall>k \<in> set ks. self_equal cs k) \<and>
     (t AND 255 = cJSON_Object \<longrightarrow> (\<forall>k \<in> set ks. item_string k \<noteq> None) \<and> distinct (map (member_key cs) ks))"

lemma find_distinct: "x \<in> set xs \<Longrightarrow> distinct (map f xs) \<Longrightarrow> find (\<lambda>y. f y = f x) xs = Some x"
  by (induction xs) auto

lemma member_like_self:
  assumes "\<forall>k \<in> set ks. item_string k \<noteq> None" "distinct (map (member_key cs) ks)" "x \<in> set ks"
  shows "member_like cs x ks = Some x"
proof -
  obtain s where s: "item_string x = Some s" using assms(1,3) by blast
  have "takeWhile (\<lambda>c. item_string c \<noteq> None) ks = ks" using assms(1) by (simp only: takeWhile_eq_all_conv)
  then have "member_like cs x ks = find (called cs s) ks" by (simp only: member_like_def find_member_def s Option.bind.simps if_cancel)
  also have "\<dots> = find (\<lambda>y. member_key cs y = member_key cs x) ks"
    by (rule find_cong) (use assms(1) s in \<open>auto simp: called_def member_key_def\<close>)
  also have "\<dots> = Some x" by (rule find_distinct [OF assms(3,2)])
  finally show ?thesis .
qed

lemma json_eq_self: "self_equal cs c \<Longrightarrow> json_eq cs c c"
proof (induction c)
  case (Item t v i d s ks)
  then have "json_eq cs k k" if "k \<in> set ks" for k using that by simp
  then show ?case using Item.prems member_like_self [of ks cs] by (subst json_eq.simps) (auto simp: list_all2_same)
qed

lemma compare_double_sym: "compare_double a b = compare_double b a"
proof (cases a; cases b)
  fix s x t y assume ab: "a = Finite s x" "b = Finite t y"
  have "fabs (to_double s r) = fabs (to_double t r)" for s t r by (simp add: to_double_def Let_def)
  then have "fabs (of_value (- r)) = fabs (of_value r)" for r unfolding of_value_def by simp
  then have "fabs (sub_double a b) = fabs (sub_double b a)" unfolding ab by (metis minus_diff_eq sub_double.simps(1))
  then show ?thesis by (auto simp: compare_double_def Let_def less_double_def ab)
qed (auto simp: compare_double_def Let_def less_double_def)

lemma json_eq_sym: "json_eq cs a b \<longleftrightarrow> json_eq cs b a"
proof (induction cs a b rule: json_eq.induct)
  case (1 cs a b)
  have arr: "list_all2 (json_eq cs) (child a) (child b) \<longleftrightarrow> list_all2 (json_eq cs) (child b) (child a)"
    if "kind_of a = cJSON_Array"
  proof -
    have "json_eq cs x y \<longleftrightarrow> json_eq cs y x" if "x \<in> set (child a)" "y \<in> set (child b)" for x y by (rule 1(1) [OF \<open>kind_of a = cJSON_Array\<close> that])
    then show ?thesis unfolding list_all2_conv_all_nth by (metis nth_mem)
  qed
  show ?case
  proof (cases "kind_of a = kind_of b \<and> comparable_kind (kind_of a)")
    case True
    then show ?thesis unfolding json_eq.simps [of cs a b] json_eq.simps [of cs b a]
      using arr compare_double_sym [of "valuedouble a" "valuedouble b"]
      by (cases "kind_of a = cJSON_Array"; cases "kind_of a = cJSON_Object") (simp_all, metis+)
  qed (auto simp: json_eq.simps [of cs a b] json_eq.simps [of cs b a])
qed

section \<open>Properties\<close>

lemma compare_trees:
  assumes "json_ok h" "nodes h a \<noteq> None" "nodes h b \<noteq> None" "contents h a ca" "contents h b cb" "no_references h a" "no_references h b" "a \<noteq> b"
  shows "cJSON_Compare h (Some a) (Some b) cs = Inr (json_eq cs ca cb)"
proof -
  have k: "tree_ok h (kids_of h)" using assms(1) by (simp add: json_ok_def)
  obtain t where t: "grown (kids_of h) t" "pt_root t = a" "source h t" "item_of h t = ca" by (rule contents_source [OF assms(1,2,6,4)])
  obtain u where u: "grown (kids_of h) u" "pt_root u = b" "source h u" "item_of h u = cb" by (rule contents_source [OF assms(1,3,7,5)])
  show ?thesis using compare_two [OF k t(1) u(1) t(3) u(3), of cs] assms(8) t u by (simp add: cJSON_Compare_def run_loop_def)
qed

lemma compare_same:
  assumes "nodes h a \<noteq> None" "contents h a c"
  shows "cJSON_Compare h (Some a) (Some a) cs = Inr (comparable_kind (kind_of c))"
proof -
  obtain n where n: "nodes h a = Some n" using assms(1) by blast
  obtain ts where "c = item_of h (PT a ts)" using assms(2) unfolding contents_def by blast
  then have "kind_of c = n_type n AND 255" using n by (simp add: Let_def)
  then show ?thesis using n unfolding cJSON_Compare_def run_loop_def
    by (subst compare_loop.simps) (auto simp: Let_def comparable_kind_def)
qed

text \<open>
  C28: On well-formed trees without references \<^verbatim>\<open>cJSON_Compare\<close> always returns, without a fault. For one and the same item it
  says whether its kind is valid; for two items it decides the equality of their contents: the same kind, the same
  number up to rounding, the same text, equal elements in order, and for objects an equal member in the other one
  under the name of each. The order of its arguments does not matter.
\<close>

theorem compare_decides:
  assumes "json_ok h" "nodes h a \<noteq> None" "nodes h b \<noteq> None" "contents h a ca" "contents h b cb" "no_references h a" "no_references h b"
  shows "cJSON_Compare h (Some a) (Some b) cs = Inr (if a = b then comparable_kind (kind_of ca) else json_eq cs ca cb) \<and>
    cJSON_Compare h (Some b) (Some a) cs = cJSON_Compare h (Some a) (Some b) cs"
proof (cases "a = b")
  case True
  then show ?thesis using compare_same [OF assms(2,4)] by simp
next
  case False
  then show ?thesis
    using compare_trees [OF assms, of cs] compare_trees [OF assms(1,3,2,5,4,7,6), of cs] json_eq_sym [of cs ca cb] by simp
qed

lemma demo_contents:
  "contents demo_heap 1 (Item cJSON_Object None 0 (Finite False 0) None [])"
  "contents demo_heap 2 (Item cJSON_String (Some [104, 105]) 0 (Finite False 0) None [])"
  unfolding contents_def demo_heap_facts(2)
  by (intro exI [of _ "[]"], simp add: demo_kids_def demo_heap_def empty_node_def text_of_def str_value_def c_string_def Let_def)+

lemma demo_plain: "no_references demo_heap 1" "no_references demo_heap 2" "nodes demo_heap 1 \<noteq> None" "nodes demo_heap 2 \<noteq> None"
  by (auto simp: no_references_def demo_heap_facts(2) demo_below demo_heap_def is_reference_def empty_node_def)

theorem compare_decides_witness:
  "cJSON_Compare demo_heap (Some 1) (Some 2) True = Inr False \<and> cJSON_Compare demo_heap (Some 1) (Some 1) True = Inr True"
  using compare_decides [OF demo_heap_facts(1) demo_plain(3,4) demo_contents demo_plain(1,2), of True]
    compare_decides [OF demo_heap_facts(1) demo_plain(3,3) demo_contents(1,1) demo_plain(1,1), of True]
  by (simp add: json_eq.simps comparable_kind_def)

text \<open>
  C29: A copy made by \<^verbatim>\<open>cJSON_Duplicate\<close> is equal to its original for \<^verbatim>\<open>cJSON_Compare\<close>, in either order, when the numbers in it
  are equal to themselves, texts and names are there, and no object has the same name twice.
\<close>

theorem duplicate_compares_equal:
  assumes "json_ok h" "nodes h a \<noteq> None" "contents h a c" "no_references h a" "self_equal cs c"
    and "cJSON_Duplicate al (Some a) True h = Inr (Some b, h')"
  shows "cJSON_Compare h' (Some a) (Some b) cs = Inr True \<and> cJSON_Compare h' (Some b) (Some a) cs = Inr True"
proof -
  have cp: "copied h c h' b" by (cases rule: duplicate_cases [OF assms(1-4), of al]) (use assms(6) in simp_all)
  note co = copied_ok [OF assms(1-4) cp]
  obtain n where n: "nodes h' a = Some n" using co assms(2) more_node by blast
  have b: "nodes h' b \<noteq> None" using cp whole_facts(2) unfolding copied_def by fastforce
  have "a \<noteq> b" using co assms(2) by auto
  then show ?thesis
    using compare_trees [of h' a b c c cs] compare_trees [of h' b a c c cs] co n b json_eq_self [OF assms(5)] by simp
qed

theorem duplicate_compares_equal_witness:
  "\<exists>b h'. cJSON_Duplicate (\<lambda>_. True) (Some 2) True demo_heap = Inr (Some b, h') \<and> cJSON_Compare h' (Some 2) (Some b) True = Inr True"
proof (cases rule: duplicate_cases [OF demo_heap_facts(1) demo_plain(4) demo_contents(2) demo_plain(2), of "\<lambda>_. True"])
  case (2 b h')
  have "self_equal True (Item cJSON_String (Some [104, 105]) 0 (Finite False 0) None [])" by (simp add: comparable_kind_def)
  from duplicate_compares_equal [OF demo_heap_facts(1) demo_plain(4) demo_contents(2) demo_plain(2) this 2(1)] show ?thesis using 2(1) by blast
qed (simp add: gave_up_def)

text \<open>A name that occurs twice: such an object is not equal to its own copy, as only the first member of a name is found.\<close>

lemma repeated_name_differs:
  "\<not> json_eq True (Item cJSON_Object None 0 (Finite False 0) None
       [Item cJSON_True None 0 (Finite False 0) (Some [97]) [], Item cJSON_False None 0 (Finite False 0) (Some [97]) []])
     (Item cJSON_Object None 0 (Finite False 0) None
       [Item cJSON_True None 0 (Finite False 0) (Some [97]) [], Item cJSON_False None 0 (Finite False 0) (Some [97]) []])"
  by (simp add: json_eq.simps member_like_def find_member_def called_def)

end
