(* ===== verification/CjsonPointer.thy ===== *)
theory CjsonPointer
  imports CjsonObjects
begin

text \<open>
  JSON pointers of \<^verbatim>\<open>apps/cjson/cJSON_Utils.c\<close>: the pointer that leads from an item to one below it, and the item
  a pointer leads to. The functions only read the trees. A string that is made on the way is given by its bytes;
  the stores into its block are checked against the size that was asked for, and the allocations made and the
  blocks in use are counted.
\<close>

section \<open>Strings\<close>

text \<open>\<^verbatim>\<open>strcmp\<close> on strings without their terminators.\<close>

fun c_strcmp :: "u8 list \<Rightarrow> u8 list \<Rightarrow> int" where
  "c_strcmp [] [] = 0"
| "c_strcmp [] (b # _) = - int (unat b)"
| "c_strcmp (a # _) [] = int (unat a)"
| "c_strcmp (a # as) (b # bs) = (if a = b then c_strcmp as bs else int (unat a) - int (unat b))"

definition compare_strings :: "json_heap \<Rightarrow> strptr option \<Rightarrow> strptr option \<Rightarrow> bool \<Rightarrow> c_fault + int" where
  "compare_strings h string1 string2 case_sensitive =
     (if string1 = None \<or> string2 = None then Inr 1
      else if string1 = string2 then Inr 0
      else bind_fault (get_str h string1) (\<lambda>s1.
           bind_fault (get_str h string2) (\<lambda>s2.
           Inr (if case_sensitive then c_strcmp s1 s2 else strcmp_loop s1 s2))))"

text \<open>The loop of \<^verbatim>\<open>compare_pointers\<close> and the test behind it.\<close>

definition byte_at :: "u8 list \<Rightarrow> nat \<Rightarrow> u8" where
  "byte_at s i = (if i < length s then s ! i else 0)"

fun pointer_loop :: "bool \<Rightarrow> u8 list \<Rightarrow> u8 list \<Rightarrow> bool" where
  "pointer_loop case_sensitive (n # name) (p # pointer) =
     (if p = 47 then False
      else if p = 126
      then (if (byte_at pointer 0 \<noteq> 48 \<or> n \<noteq> 126) \<and> (byte_at pointer 0 \<noteq> 49 \<or> n \<noteq> 47) then False
            else pointer_loop case_sensitive name (drop 1 pointer))
      else if \<not> case_sensitive \<and> tolower n \<noteq> tolower p \<or> case_sensitive \<and> n \<noteq> p then False
      else pointer_loop case_sensitive name pointer)"
| "pointer_loop case_sensitive name pointer = ((byte_at pointer 0 \<noteq> 0 \<and> byte_at pointer 0 \<noteq> 47) = (name \<noteq> []))"

definition compare_pointers :: "json_heap \<Rightarrow> strptr option \<Rightarrow> u8 list \<Rightarrow> bool \<Rightarrow> c_fault + bool" where
  "compare_pointers h name pointer case_sensitive =
     (if name = None then Inr False
      else bind_fault (get_str h name) (\<lambda>s. Inr (pointer_loop case_sensitive s pointer)))"

fun pointer_encoded_length :: "u8 list \<Rightarrow> nat" where
  "pointer_encoded_length [] = 0"
| "pointer_encoded_length (c # s) = (if c = 126 \<or> c = 47 then 2 else 1) + pointer_encoded_length s"

text \<open>
  Bytes written behind those a block of \<open>cap\<close> bytes already holds. The terminator is overwritten by what is
  appended later.
\<close>

definition append_bytes :: "nat \<Rightarrow> u8 list \<Rightarrow> u8 list \<Rightarrow> c_fault + u8 list" where
  "append_bytes cap bs block = (if length block + length bs \<le> cap then Inr (block @ bs) else Inl OutOfBounds)"

definition append_text :: "nat \<Rightarrow> u8 list \<Rightarrow> u8 list \<Rightarrow> c_fault + u8 list" where
  "append_text cap s block = bind_fault (append_bytes cap (s @ [0]) block) (\<lambda>_. Inr (block @ s))"

fun encode_string_as_pointer :: "nat \<Rightarrow> u8 list \<Rightarrow> u8 list \<Rightarrow> c_fault + u8 list" where
  "encode_string_as_pointer cap block [] = append_text cap [] block"
| "encode_string_as_pointer cap block (c # s) =
     bind_fault (append_bytes cap (if c = 47 then [126, 49] else if c = 126 then [126, 48] else [c]) block) (\<lambda>b.
     encode_string_as_pointer cap b s)"

section \<open>From an item to a pointer\<close>

text \<open>The number of allocations asked for and of blocks in use.\<close>

type_synonym blocks = "nat \<times> int"

definition take_block :: "(nat \<Rightarrow> bool) \<Rightarrow> blocks \<Rightarrow> bool \<times> blocks" where
  "take_block al bl = (al (fst bl), (fst bl + 1, snd bl + (if al (fst bl) then 1 else 0)))"

definition drop_block :: "blocks \<Rightarrow> blocks" where
  "drop_block bl = (fst bl, snd bl - 1)"

definition cJSONUtils_strdup :: "(nat \<Rightarrow> bool) \<Rightarrow> u8 list \<Rightarrow> blocks \<Rightarrow> u8 list option \<times> blocks" where
  "cJSONUtils_strdup al string bl = (let (ok, bl1) = take_block al bl in (if ok then Some string else None, bl1))"

text \<open>
  The pointer of a child in front of the pointer below it; nothing for an item that is neither an array nor an
  object. An index fits into \<^verbatim>\<open>unsigned long\<close>, which has the width of \<^verbatim>\<open>size_t\<close>.
\<close>

definition full_pointer :: "(nat \<Rightarrow> bool) \<Rightarrow> json_heap \<Rightarrow> addr \<Rightarrow> node \<Rightarrow> u64 \<Rightarrow> u8 list \<Rightarrow> blocks \<Rightarrow> c_fault + (u8 list option \<times> blocks)" where
  "full_pointer al h object current_child child_index target_pointer bl =
     bind_fault (cJSON_IsArray h (Some object)) (\<lambda>array.
     if array
     then (let cap = length target_pointer + 20 + 2; (ok, bl1) = take_block al bl
           in if \<not> ok then Inl NullDeref
              else bind_fault (append_text cap (47 # dec_digits (unat child_index) @ target_pointer) []) (\<lambda>s.
                   Inr (Some s, drop_block bl1)))
     else bind_fault (cJSON_IsObject h (Some object)) (\<lambda>obj.
     if obj
     then bind_fault (get_str h (n_string current_child)) (\<lambda>name.
          let cap = length target_pointer + pointer_encoded_length name + 2; (ok, bl1) = take_block al bl
          in if \<not> ok then Inl NullDeref
             else bind_fault (append_bytes cap [47] []) (\<lambda>b.
                  bind_fault (encode_string_as_pointer cap b name) (\<lambda>b1.
                  bind_fault (append_text cap target_pointer b1) (\<lambda>s. Inr (Some s, drop_block bl1)))))
     else Inr (None, drop_block bl)))"

text \<open>
  The loop over the children of an item that is not the target. The recursive call for a child is the comparison
  with the target and, if it is not the target, the loop over its children.
\<close>

partial_function (option) find_loop ::
    "(nat \<Rightarrow> bool) \<Rightarrow> json_heap \<Rightarrow> addr \<Rightarrow> addr \<Rightarrow> addr option \<Rightarrow> u64 \<Rightarrow> blocks \<Rightarrow> (c_fault + (u8 list option \<times> blocks)) option" where
  "find_loop al h target object current_child child_index bl =
     (case current_child of
        None \<Rightarrow> Some (Inr (None, bl))
      | Some c \<Rightarrow>
          bind_loop (Some (get_node h current_child)) (\<lambda>n.
          bind_loop (if c = target then Some (Inr (cJSONUtils_strdup al [] bl)) else find_loop al h target c (n_child n) 0 bl) (\<lambda>(found, bl1).
          case found of
            Some target_pointer \<Rightarrow> Some (full_pointer al h object n child_index target_pointer bl1)
          | None \<Rightarrow> find_loop al h target object (n_next n) (child_index + 1) bl1)))"

definition cJSONUtils_FindPointerFromObjectTo ::
    "(nat \<Rightarrow> bool) \<Rightarrow> json_heap \<Rightarrow> addr option \<Rightarrow> addr option \<Rightarrow> blocks \<Rightarrow> c_fault + (u8 list option \<times> blocks)" where
  "cJSONUtils_FindPointerFromObjectTo al h object target bl =
     (if object = None \<or> target = None then Inr (None, bl)
      else if object = target then Inr (cJSONUtils_strdup al [] bl)
      else bind_fault (get_node h object) (\<lambda>n.
           run_loop (find_loop al h (the target) (the object) (n_child n) 0 bl)))"

section \<open>From a pointer to an item\<close>

definition utils_get_array_item :: "json_heap \<Rightarrow> addr option \<Rightarrow> u64 \<Rightarrow> c_fault + addr option" where
  "utils_get_array_item h array item =
     (if array = None then Inr None else bind_fault (get_node h array) (\<lambda>n. item_loop h (n_child n) (unat item)))"

text \<open>The loop over the digits looks at the first character for the upper bound, and at the current one for the lower.\<close>

function index_loop :: "u8 list \<Rightarrow> nat \<Rightarrow> u64 \<Rightarrow> u64 \<times> nat" where
  "index_loop pointer position parsed_index =
     (if 48 \<le> byte_at pointer position \<and> byte_at pointer 0 \<le> 57
      then index_loop pointer (position + 1) (10 * parsed_index + ucast (byte_at pointer position - 48))
      else (parsed_index, position))"
  by pat_completeness auto
termination
  by (relation "measure (\<lambda>(pointer, position, _). length pointer - position)") (auto simp: byte_at_def split: if_splits)

declare index_loop.simps [simp del]

definition decode_array_index_from_pointer :: "u8 list \<Rightarrow> u64 option" where
  "decode_array_index_from_pointer pointer =
     (if byte_at pointer 0 = 48 \<and> byte_at pointer 1 \<noteq> 0 \<and> byte_at pointer 1 \<noteq> 47 then None
      else (let (parsed_index, position) = index_loop pointer 0 0
            in if byte_at pointer position \<noteq> 0 \<and> byte_at pointer position \<noteq> 47 then None else Some parsed_index))"

partial_function (option) member_loop :: "json_heap \<Rightarrow> u8 list \<Rightarrow> bool \<Rightarrow> addr option \<Rightarrow> (c_fault + addr option) option" where
  "member_loop h pointer case_sensitive current_element =
     (if current_element = None then Some (Inr None)
      else bind_loop (Some (get_node h current_element)) (\<lambda>n.
           bind_loop (Some (compare_pointers h (n_string n) pointer case_sensitive)) (\<lambda>same.
           if same then Some (Inr current_element) else member_loop h pointer case_sensitive (n_next n))))"

definition next_token :: "u8 list \<Rightarrow> u8 list" where
  "next_token pointer = dropWhile (\<lambda>c. c \<noteq> 47) pointer"

lemma next_token_length: "length (next_token p) \<le> length p"
  by (simp add: next_token_def length_dropWhile_le)

lemma next_token_shorter: "byte_at p 0 = 47 \<Longrightarrow> length (next_token (drop 1 p)) < length p"
  using next_token_length [of "drop 1 p"] by (cases p) (auto simp: byte_at_def)

text \<open>The loop along the path; \<open>pointer\<close> has no null byte.\<close>

function path_loop :: "json_heap \<Rightarrow> bool \<Rightarrow> addr option \<Rightarrow> u8 list \<Rightarrow> c_fault + addr option" where
  "path_loop h case_sensitive current_element pointer =
     (if byte_at pointer 0 = 47 \<and> current_element \<noteq> None
      then (let p = drop 1 pointer
            in bind_fault (cJSON_IsArray h current_element) (\<lambda>array.
               if array
               then (case decode_array_index_from_pointer p of
                       None \<Rightarrow> Inr None
                     | Some index \<Rightarrow>
                         bind_fault (utils_get_array_item h current_element index) (\<lambda>e. path_loop h case_sensitive e (next_token p)))
               else bind_fault (cJSON_IsObject h current_element) (\<lambda>object.
               if object
               then bind_fault (get_node h current_element) (\<lambda>n.
                    bind_fault (run_loop (member_loop h p case_sensitive (n_child n))) (\<lambda>e.
                    path_loop h case_sensitive e (next_token p)))
               else Inr None)))
      else Inr current_element)"
  by pat_completeness auto

termination
  by (relation "measure (\<lambda>(h, cs, e, p). length p)") (auto dest: next_token_shorter)

declare path_loop.simps [simp del]

definition get_item_from_pointer :: "json_heap \<Rightarrow> addr option \<Rightarrow> strptr option \<Rightarrow> bool \<Rightarrow> c_fault + addr option" where
  "get_item_from_pointer h object pointer case_sensitive =
     (if pointer = None then Inr None
      else bind_fault (get_str h pointer) (path_loop h case_sensitive object))"

definition cJSONUtils_GetPointer where
  "cJSONUtils_GetPointer h object pointer = get_item_from_pointer h object pointer False"

definition cJSONUtils_GetPointerCaseSensitive where
  "cJSONUtils_GetPointerCaseSensitive h object pointer = get_item_from_pointer h object pointer True"

section \<open>Reading back what was written\<close>

text \<open>The text of a name in a pointer, and what may follow a token.\<close>

definition pointer_escape :: "u8 \<Rightarrow> u8 list" where
  "pointer_escape c = (if c = 47 then [126, 49] else if c = 126 then [126, 48] else [c])"

definition pointer_text :: "u8 list \<Rightarrow> u8 list" where
  "pointer_text s = concat (map pointer_escape s)"

definition token_end :: "u8 list \<Rightarrow> bool" where
  "token_end rest \<longleftrightarrow> rest = [] \<or> hd rest = 47"

lemma pointer_text_simps [simp]: "pointer_text [] = []" "pointer_text (c # s) = pointer_escape c @ pointer_text s"
  by (simp_all add: pointer_text_def)

lemma byte_at_simps [simp]: "byte_at [] i = 0" "byte_at (c # s) 0 = c" "byte_at (c # s) (Suc i) = byte_at s i"
  by (simp_all add: byte_at_def)

lemma pointer_text_length: "pointer_encoded_length s = length (pointer_text s)"
  by (induction s) (auto simp: pointer_escape_def)

lemma pointer_text_set: "c \<in> set (pointer_text s) \<Longrightarrow> c \<noteq> 47 \<and> (c = 0 \<longrightarrow> 0 \<in> set s)"
  by (induction s) (auto simp: pointer_escape_def split: if_splits)

lemma encode_ok:
  "length block + length (pointer_text s) + 1 \<le> cap \<Longrightarrow> encode_string_as_pointer cap block s = Inr (block @ pointer_text s)"
  by (induction s arbitrary: block) (auto simp: append_text_def append_bytes_def pointer_escape_def)

lemma tolower_special: "tolower c = 126 \<longleftrightarrow> c = 126" "tolower c = 47 \<longleftrightarrow> c = 47" "tolower 126 = 126" "tolower 47 = 47"
proof -
  have "\<forall>c \<in> set (map of_nat [0..<256]). (tolower c = 126 \<longleftrightarrow> c = 126) \<and> (tolower c = 47 \<longleftrightarrow> c = 47)" by code_simp
  moreover have "unat c < 256" using unsigned_less [of c, where ?'a = nat] by simp
  ultimately show "tolower c = 126 \<longleftrightarrow> c = 126" "tolower c = 47 \<longleftrightarrow> c = 47" using byte_in_upt [of c 256] by blast+
qed (simp_all add: tolower_def)

definition same_name :: "bool \<Rightarrow> u8 list \<Rightarrow> u8 list \<Rightarrow> bool" where
  "same_name cs a b \<longleftrightarrow> (if cs then a = b else map tolower a = map tolower b)"

lemma pointer_loop_text:
  assumes "token_end rest" "0 \<notin> set s"
  shows "pointer_loop cs name (pointer_text s @ rest) \<longleftrightarrow> same_name cs name s"
  using assms(2)
proof (induction s arbitrary: name)
  case Nil
  have "byte_at rest 0 = 0 \<or> byte_at rest 0 = 47" using assms(1) by (cases rest) (auto simp: token_end_def)
  then show ?case using assms(1) by (cases name; cases rest) (auto simp: same_name_def token_end_def)
next
  case (Cons c s)
  show ?case
  proof (cases name)
    case Nil
    have "pointer_text (c # s) @ rest \<noteq> []" "byte_at (pointer_text (c # s) @ rest) 0 \<notin> {0, 47}"
      using Cons.prems by (auto simp: pointer_escape_def)
    then show ?thesis using Nil by (cases "pointer_text (c # s) @ rest") (auto simp: same_name_def simp del: pointer_text_simps)
  next
    case (Cons n name')
    have IH: "pointer_loop cs name' (pointer_text s @ rest) \<longleftrightarrow> same_name cs name' s" using Cons.IH Cons.prems by simp
    then show ?thesis using Cons by (auto simp: pointer_escape_def same_name_def tolower_special)
  qed
qed

lemma next_token_text: "token_end rest \<Longrightarrow> \<forall>c \<in> set t. c \<noteq> 47 \<Longrightarrow> next_token (t @ rest) = rest"
  by (cases rest) (auto simp: next_token_def token_end_def dropWhile_append3)

lemma index_loop_digits:
  assumes "token_end rest"
  shows "\<forall>c \<in> set ds. digit c \<Longrightarrow> byte_at (pre @ ds @ rest) 0 \<le> 57 \<Longrightarrow>
    index_loop (pre @ ds @ rest) (length pre) (of_nat (digits_value pre)) = (of_nat (digits_value (pre @ ds)), length pre + length ds)"
proof (induction ds arbitrary: pre)
  case Nil
  have "byte_at (pre @ rest) (length pre) = 0 \<or> byte_at (pre @ rest) (length pre) = 47"
    using assms by (cases rest) (auto simp: token_end_def byte_at_def nth_append)
  then show ?case by (subst index_loop.simps) auto
next
  case (Cons c ds)
  have c: "48 \<le> c" "c \<le> 57" using Cons.prems(1) by (auto simp: digit_def)
  have at: "byte_at (pre @ (c # ds) @ rest) (length pre) = c" by (simp add: byte_at_def nth_append)
  have "unat (c - 48) = unat c - 48" using c(1) by (simp add: unat_sub)
  then have u: "(ucast (c - 48) :: u64) = of_nat (unat c - 48)" by (metis of_nat_unat)
  have v: "10 * of_nat (digits_value pre) + ucast (c - 48) = (of_nat (digits_value (pre @ [c])) :: u64)"
    unfolding u by (simp add: algebra_simps)
  have "index_loop ((pre @ [c]) @ ds @ rest) (length (pre @ [c])) (of_nat (digits_value (pre @ [c]))) =
      (of_nat (digits_value ((pre @ [c]) @ ds)), length (pre @ [c]) + length ds)"
    by (rule Cons.IH) (use Cons.prems in auto)
  then show ?case using Cons.prems(2) c at v by (subst index_loop.simps) (simp add: mult.commute)
qed

lemma dec_digits_hd: "0 < n \<Longrightarrow> hd (dec_digits n) \<noteq> 48"
proof (induction n rule: dec_digits.induct)
  case (1 n)
  show ?case
  proof (cases "n < 10")
    case True
    have "unat (48 + of_nat n :: u8) = 48 + n" using True by (simp add: unat_word_ariths unat_of_nat)
    then have "(48 + of_nat n :: u8) \<noteq> 48" using 1(2) by auto
    then show ?thesis using True by (subst dec_digits.simps) simp
  next
    case False
    have "dec_digits (n div 10) \<noteq> []" using dec_digits_length [of "n div 10"] by auto
    then show ?thesis using False 1(1) by (subst dec_digits.simps) simp
  qed
qed

lemma decode_digits:
  assumes "token_end rest" "n < 2 ^ 64"
  shows "decode_array_index_from_pointer (dec_digits n @ rest) = Some (of_nat n)"
proof -
  let ?d = "dec_digits n"
  obtain c ds where d: "?d = c # ds" using dec_digits_length [of n] by (cases ?d) auto
  have dg: "\<forall>c \<in> set ?d. digit c" using dec_digits_digit by blast
  have "digit c" using dg unfolding d by simp
  then have c: "byte_at (?d @ rest) 0 \<le> 57" using d by (simp add: digit_def)
  have z: "\<not> (c = 48 \<and> byte_at (?d @ rest) 1 \<noteq> 0 \<and> byte_at (?d @ rest) 1 \<noteq> 47)"
  proof (cases "n = 0")
    case True
    then have "?d = [48]" by (simp add: dec_digits.simps)
    then show ?thesis using assms(1) by (cases rest) (auto simp: token_end_def)
  next
    case False
    then show ?thesis using dec_digits_hd [of n] d by simp
  qed
  have "index_loop (?d @ rest) 0 0 = (of_nat n, length ?d)"
    using index_loop_digits [OF assms(1) dg, of "[]"] c by (simp add: digits_value_def [of "[]"])
  moreover have "byte_at (?d @ rest) (length ?d) = 0 \<or> byte_at (?d @ rest) (length ?d) = 47"
    using assms(1) by (cases rest) (auto simp: token_end_def byte_at_def nth_append)
  ultimately show ?thesis using z d by (auto simp: decode_array_index_from_pointer_def)
qed

section \<open>Walking along a pointer\<close>

text \<open>
  Trees in which every item can be addressed: an item with children is an array or an object, the members of an
  object have names that differ (without regard to case, if that is how they are looked up), and no item is a
  reference. Indices fit into \<^verbatim>\<open>size_t\<close>.
\<close>

definition name_of :: "json_heap \<Rightarrow> addr \<Rightarrow> u8 list" where
  "name_of h c = c_string (str_value h (the (n_string (the (nodes h c)))))"

definition addressable :: "json_heap \<Rightarrow> bool \<Rightarrow> addr \<Rightarrow> bool" where
  "addressable h cs a \<longleftrightarrow>
     (\<exists>n. nodes h a = Some n \<and> \<not> is_reference n \<and> length (kids_of h a) < 2 ^ 64 \<and>
        (kids_of h a = [] \<or> n_type n AND 255 = cJSON_Array \<or>
         n_type n AND 255 = cJSON_Object \<and> (\<forall>c \<in> set (kids_of h a). named h c) \<and>
         (\<forall>i < length (kids_of h a). \<forall>j < i. \<not> same_name cs (name_of h (kids_of h a ! j)) (name_of h (kids_of h a ! i)))))"

lemma name_is_same: "named h c \<Longrightarrow> name_is h cs s c \<longleftrightarrow> same_name cs (name_of h c) s"
  by (auto simp: named_def name_is_def same_name_def name_of_def)

lemma member_loop_kids:
  assumes "seg (nodes h) pv ks None" "\<forall>c \<in> set ks. readable h (n_string (the (nodes h c)))" "token_end rest" "0 \<notin> set s"
  shows "member_loop h (pointer_text s @ rest) cs (first ks) = Some (Inr (find (name_is h cs s) ks))"
  using assms(1,2)
proof (induction ks arbitrary: pv)
  case Nil
  show ?case by (subst member_loop.simps) simp
next
  case (Cons c ks)
  obtain n where n: "nodes h c = Some n" "n_next n = first ks" using Cons.prems(1) by (auto simp: links_def)
  have "compare_pointers h (n_string n) (pointer_text s @ rest) cs = Inr (name_is h cs s c)"
    using Cons.prems(2) n(1) pointer_loop_text [OF assms(3,4)]
    by (cases "n_string n") (auto simp: compare_pointers_def name_is_def same_name_def)
  moreover have "member_loop h (pointer_text s @ rest) cs (first ks) = Some (Inr (find (name_is h cs s) ks))"
    using Cons.IH [of "Some c"] Cons.prems by simp
  ultimately show ?case by (subst member_loop.simps) (simp add: n)
qed

text \<open>The token that leads from an item to its child at a position.\<close>

definition step_text :: "json_heap \<Rightarrow> addr \<Rightarrow> nat \<Rightarrow> u8 list" where
  "step_text h a k =
     (if n_type (the (nodes h a)) AND 255 = cJSON_Array then dec_digits k else pointer_text (name_of h (kids_of h a ! k)))"

lemma step_text_set: "c \<in> set (step_text h a k) \<Longrightarrow> c \<noteq> 47 \<and> c \<noteq> 0"
proof (cases "n_type (the (nodes h a)) AND 255 = cJSON_Array")
  case True
  assume "c \<in> set (step_text h a k)"
  then have "digit c" using True dec_digits_digit by (simp add: step_text_def)
  then show ?thesis by (auto simp: digit_def)
next
  case False
  assume "c \<in> set (step_text h a k)"
  then show ?thesis using False pointer_text_set [of c "name_of h (kids_of h a ! k)"] by (auto simp: step_text_def name_of_def)
qed

lemma find_nth_unique:
  "k < length xs \<Longrightarrow> P (xs ! k) \<Longrightarrow> (\<forall>j < k. \<not> P (xs ! j)) \<Longrightarrow> find P xs = Some (xs ! k)"
  by (subst find_Some_iff) blast

lemma path_step:
  assumes "json_ok h" "addressable h cs a" "k < length (kids_of h a)" "token_end rest"
  shows "path_loop h cs (Some a) (47 # step_text h a k @ rest) = path_loop h cs (Some (kids_of h a ! k)) rest"
proof -
  let ?ks = "kids_of h a" and ?t = "step_text h a k"
  obtain n where n: "nodes h a = Some n" "\<not> is_reference n" "length ?ks < 2 ^ 64" using assms(2) by (auto simp: addressable_def)
  have kind: "n_type n AND 255 = cJSON_Array \<or> n_type n AND 255 = cJSON_Object \<and> (\<forall>c \<in> set ?ks. named h c) \<and>
      (\<forall>i < length ?ks. \<forall>j < i. \<not> same_name cs (name_of h (?ks ! j)) (name_of h (?ks ! i)))"
    using assms(2,3) n(1) by (auto simp: addressable_def)
  note ok = assms(1) [unfolded json_ok_def]
  note k = node_kids [OF tree_ok_links(1) [OF ok] n(1)]
  have nt: "next_token (?t @ rest) = rest" by (rule next_token_text [OF assms(4)]) (use step_text_set in blast)
  have it: "item_loop h (n_child n) k = Inr (Some (?ks ! k))"
    using item_loop_seg [of h _ ?ks k] k(2,4) n(2) assms(3) by (simp add: chained_def)
  have arr: "cJSON_IsArray h (Some a) = Inr (n_type n AND 255 = cJSON_Array)" "cJSON_IsObject h (Some a) = Inr (n_type n AND 255 = cJSON_Object)"
    using n(1) by (simp_all add: cJSON_IsArray_def cJSON_IsObject_def is_kind_def)
  show ?thesis
  proof (cases "n_type n AND 255 = cJSON_Array")
    case True
    have "decode_array_index_from_pointer (?t @ rest) = Some (of_nat k)"
      using decode_digits [OF assms(4), of k] n(1,3) assms(3) True by (simp add: step_text_def)
    moreover have "unat (of_nat k :: u64) = k" using n(3) assms(3) by (simp add: unat_of_nat)
    ultimately show ?thesis using True n(1) it nt arr
      by (subst path_loop.simps) (simp add: utils_get_array_item_def)
  next
    case False
    let ?s = "name_of h (?ks ! k)"
    have o: "n_type n AND 255 = cJSON_Object" "\<forall>c \<in> set ?ks. named h c"
      "\<forall>j < k. \<not> same_name cs (name_of h (?ks ! j)) ?s" using kind False assms(3) by auto
    have "find (name_is h cs ?s) ?ks = Some (?ks ! k)"
      by (rule find_nth_unique [OF assms(3)]) (use o assms(3) in \<open>auto simp: name_is_same same_name_def\<close>)
    moreover have "readable h (n_string (the (nodes h c)))" if "c \<in> set ?ks" for c
      using tree_nodes [OF tree_ok_links(1) [OF ok] that] tree_names [OF ok, of c] by (metis option.sel)
    ultimately have "member_loop h (?t @ rest) cs (n_child n) = Some (Inr (Some (?ks ! k)))"
      using member_loop_kids [of h _ ?ks rest ?s cs] k(2,4) n False assms(4) by (simp add: chained_def step_text_def name_of_def)
    then show ?thesis using False o(1) n(1) nt arr by (subst path_loop.simps) (simp add: run_loop_def)
  qed
qed

section \<open>The pointer to an item\<close>

lemma dec_digits_bound: "0 < m \<Longrightarrow> n < 10 ^ m \<Longrightarrow> length (dec_digits n) \<le> m"
proof (induction n arbitrary: m rule: dec_digits.induct)
  case (1 n)
  show ?case
  proof (cases "n < 10")
    case True
    then show ?thesis using 1(2) by (subst dec_digits.simps) simp
  next
    case False
    obtain j where m: "m = Suc j" using 1(2) by (cases m) auto
    then have j: "0 < j" using False 1(3) by (cases j) auto
    have "n div 10 < 10 ^ j" using 1(3) m by (simp add: less_mult_imp_div_less mult.commute)
    then have "length (dec_digits (n div 10)) \<le> j" using 1(1) [OF False j] by simp
    then show ?thesis using False m by (subst dec_digits.simps) simp
  qed
qed

text \<open>A pointer that leads from one item to another, whatever follows it.\<close>

definition leads :: "json_heap \<Rightarrow> bool \<Rightarrow> addr \<Rightarrow> u8 list \<Rightarrow> addr \<Rightarrow> bool" where
  "leads h cs a p x \<longleftrightarrow> 0 \<notin> set p \<and> token_end p \<and> (\<forall>rest. token_end rest \<longrightarrow> path_loop h cs (Some a) (p @ rest) = path_loop h cs (Some x) rest)"

lemma leads_here: "leads h cs a [] a"
  by (simp add: leads_def token_end_def)

lemma leads_step:
  assumes "json_ok h" "addressable h cs a" "k < length (kids_of h a)" "leads h cs (kids_of h a ! k) p x"
  shows "leads h cs a (47 # step_text h a k @ p) x"
  unfolding leads_def
proof (intro conjI allI impI)
  show "0 \<notin> set (47 # step_text h a k @ p)" using step_text_set [of 0] assms(4) by (auto simp: leads_def)
  show "token_end (47 # step_text h a k @ p)" by (simp add: token_end_def)
  fix rest assume r: "token_end rest"
  then have "token_end (p @ rest)" using assms(4) by (cases p) (auto simp: leads_def token_end_def)
  then have "path_loop h cs (Some a) (47 # step_text h a k @ (p @ rest)) = path_loop h cs (Some (kids_of h a ! k)) (p @ rest)"
    by (rule path_step [OF assms(1-3)])
  then show "path_loop h cs (Some a) ((47 # step_text h a k @ p) @ rest) = path_loop h cs (Some x) rest"
    using assms(4) r by (simp add: leads_def)
qed

lemma full_pointer_ok:
  assumes "json_ok h" "addressable h cs a" "k < length (kids_of h a)" "nodes h (kids_of h a ! k) = Some n" "al q"
  shows "full_pointer al h a n (of_nat k) p (q, l) = Inr (Some (47 # step_text h a k @ p), (q + 1, l))"
proof -
  let ?c = "kids_of h a ! k"
  obtain m where m: "nodes h a = Some m" "length (kids_of h a) < 2 ^ 64" using assms(2) by (auto simp: addressable_def)
  have kind: "n_type m AND 255 = cJSON_Array \<or> n_type m AND 255 = cJSON_Object \<and> named h ?c"
    using assms(2,3) m(1) by (auto simp: addressable_def)
  have arr: "cJSON_IsArray h (Some a) = Inr (n_type m AND 255 = cJSON_Array)" "cJSON_IsObject h (Some a) = Inr (n_type m AND 255 = cJSON_Object)"
    using m(1) by (simp_all add: cJSON_IsArray_def cJSON_IsObject_def is_kind_def)
  show ?thesis
  proof (cases "n_type m AND 255 = cJSON_Array")
    case True
    have "unat (of_nat k :: u64) = k" "k < 10 ^ 20" using m(2) assms(3) by (simp_all add: unat_of_nat)
    moreover have "length (dec_digits k) \<le> 20" using dec_digits_bound [of 20 k] \<open>k < 10 ^ 20\<close> by simp
    ultimately show ?thesis using True arr assms(5) m(1)
      by (simp add: full_pointer_def take_block_def drop_block_def append_text_def append_bytes_def step_text_def)
  next
    case False
    then have o: "n_type m AND 255 = cJSON_Object" "named h ?c" using kind by simp_all
    obtain v where v: "n_string n = Some v" using o(2) assms(4) by (auto simp: named_def)
    have "readable h (n_string n)" by (rule tree_names [OF assms(1) [unfolded json_ok_def] assms(4)])
    then have s: "get_str h (n_string n) = Inr (name_of h ?c)" using v assms(4) by (simp add: name_of_def)
    let ?s = "name_of h ?c" and ?cap = "length p + pointer_encoded_length (name_of h ?c) + 2"
    have "append_bytes ?cap [47] [] = Inr [47]" by (simp add: append_bytes_def)
    moreover have "encode_string_as_pointer ?cap [47] ?s = Inr ([47] @ pointer_text ?s)" by (rule encode_ok) (simp add: pointer_text_length)
    moreover have "append_text ?cap p ([47] @ pointer_text ?s) = Inr ([47] @ pointer_text ?s @ p)"
      by (simp add: append_text_def append_bytes_def pointer_text_length)
    ultimately show ?thesis using False o(1) arr s assms(5) m(1)
      by (simp add: full_pointer_def take_block_def drop_block_def step_text_def Let_def)
  qed
qed

text \<open>What the call for one item finds in its tree, given by what it finds below.\<close>

definition finds :: "json_heap \<Rightarrow> bool \<Rightarrow> addr \<Rightarrow> addr set \<Rightarrow> addr \<Rightarrow> blocks \<Rightarrow> (c_fault + (u8 list option \<times> blocks)) option \<Rightarrow> bool" where
  "finds h cs a A x bl r \<longleftrightarrow>
     (x \<notin> A \<longrightarrow> r = Some (Inr (None, bl))) \<and>
     (x \<in> A \<longrightarrow> (\<exists>p q. r = Some (Inr (Some p, (q, snd bl + 1))) \<and> leads h cs a p x))"

lemma find_list:
  assumes "json_ok h" "addressable h cs a" "\<forall>q. al q" "kids_of h a = map pt_root (pre @ ts)"
    and "\<And>t bl n. t \<in> set ts \<Longrightarrow> nodes h (pt_root t) = Some n \<Longrightarrow>
      finds h cs (pt_root t) (set (pt_addrs t)) x bl
        (if pt_root t = x then Some (Inr (cJSONUtils_strdup al [] bl)) else find_loop al h x (pt_root t) (n_child n) 0 bl)"
    and "seg (nodes h) pv (map pt_root ts) None"
  shows "finds h cs a (forest ts) x bl (find_loop al h x a (first (map pt_root ts)) (of_nat (length pre)) bl)"
  using assms(4-)
proof (induction ts arbitrary: pre pv)
  case Nil
  show ?case by (subst find_loop.simps) (simp add: finds_def)
next
  case (Cons t ts)
  let ?c = "pt_root t"
  obtain n where n: "nodes h ?c = Some n" "n_next n = first (map pt_root ts)" using Cons.prems(3) by (auto simp: links_def)
  let ?sub = "if ?c = x then Some (Inr (cJSONUtils_strdup al [] bl)) else find_loop al h x ?c (n_child n) 0 bl"
  have sub: "finds h cs ?c (set (pt_addrs t)) x bl ?sub" by (rule Cons.prems(2)) (use n in simp_all)
  have k: "length pre < length (kids_of h a)" "kids_of h a ! length pre = ?c" using Cons.prems(1) by (simp_all add: nth_append)
  show ?case
  proof (cases "x \<in> set (pt_addrs t)")
    case True
    then obtain p q where p: "?sub = Some (Inr (Some p, (q, snd bl + 1)))" "leads h cs ?c p x" using sub by (auto simp: finds_def)
    have f: "full_pointer al h a n (of_nat (length pre)) p (q, snd bl + 1) = Inr (Some (47 # step_text h a (length pre) @ p), (q + 1, snd bl + 1))"
      by (rule full_pointer_ok [OF assms(1,2) k(1)]) (use k(2) n(1) assms(3) in simp_all)
    have l: "leads h cs a (47 # step_text h a (length pre) @ p) x"
      by (rule leads_step [OF assms(1,2) k(1)]) (use p(2) k(2) in simp)
    have "find_loop al h x a (first (map pt_root (t # ts))) (of_nat (length pre)) bl =
        Some (Inr (Some (47 # step_text h a (length pre) @ p), (q + 1, snd bl + 1)))"
      by (subst find_loop.simps) (simp only: list.map first_or_simps option.case get_node_Some [OF n(1)] bind_loop_simps p(1) prod.case f)
    then show ?thesis using l True by (simp add: finds_def)
  next
    case False
    then have s: "?sub = Some (Inr (None, bl))" using sub by (simp add: finds_def)
    have "finds h cs a (forest ts) x bl (find_loop al h x a (first (map pt_root ts)) (of_nat (length (pre @ [t]))) bl)"
      by (rule Cons.IH [of "pre @ [t]" "Some ?c"]) (use Cons.prems in auto)
    moreover have "find_loop al h x a (first (map pt_root (t # ts))) (of_nat (length pre)) bl =
        find_loop al h x a (first (map pt_root ts)) (of_nat (length (pre @ [t]))) bl"
      by (subst find_loop.simps)
        (simp only: list.map first_or_simps option.case get_node_Some [OF n(1)] bind_loop_simps s prod.case n(2), simp add: add.commute)
    ultimately show ?thesis using False by (simp add: finds_def)
  qed
qed

lemma find_tree:
  assumes "json_ok h" "\<forall>q. al q"
  shows "grown (kids_of h) t \<Longrightarrow> \<forall>b \<in> set (pt_addrs t). addressable h cs b \<Longrightarrow> distinct (pt_addrs t) \<Longrightarrow> nodes h (pt_root t) = Some n \<Longrightarrow>
    finds h cs (pt_root t) (set (pt_addrs t)) x bl
      (if pt_root t = x then Some (Inr (cJSONUtils_strdup al [] bl)) else find_loop al h x (pt_root t) (n_child n) 0 bl)"
proof (induction t arbitrary: bl n)
  case (PT a ts)
  note k = node_kids [OF tree_ok_links(1) [OF assms(1) [unfolded json_ok_def]]]
  have kids: "kids_of h a = map pt_root ts" "nodes h a = Some n" using PT.prems by simp_all
  have ad: "addressable h cs a" using PT.prems(2) by simp
  show ?case
  proof (cases "a = x")
    case True
    then show ?thesis using assms(2) leads_here [of h cs x]
      by (auto simp: finds_def cJSONUtils_strdup_def take_block_def)
  next
    case False
    have "finds h cs a (forest ts) x bl (find_loop al h x a (first (map pt_root ts)) (of_nat (length ([] :: ptree list))) bl)"
    proof (rule find_list [OF assms(1) ad assms(2)])
      show "seg (nodes h) (last_or None (map pt_root ts)) (map pt_root ts) None" using k(4) [OF kids(2)] kids(1) by (simp add: chained_def)
      show "finds h cs (pt_root t) (set (pt_addrs t)) x bl
          (if pt_root t = x then Some (Inr (cJSONUtils_strdup al [] bl)) else find_loop al h x (pt_root t) (n_child n) 0 bl)"
        if "t \<in> set ts" "nodes h (pt_root t) = Some n" for t bl n
        by (rule PT.IH [OF that(1)]) (use PT.prems that in \<open>auto simp: distinct_concat_iff\<close>)
    qed (use kids in simp)
    moreover have "n_child n = first (map pt_root ts)" using k(2) [OF kids(2)] ad kids by (auto simp: addressable_def)
    ultimately show ?thesis using False by (simp add: finds_def)
  qed
qed

lemma find_below:
  assumes "json_ok h" "\<forall>q. al q" "\<forall>b. below (kids_of h) b a \<longrightarrow> addressable h cs b"
  shows "\<exists>r. finds h cs a {b. below (kids_of h) b a} x bl (Some r) \<and> cJSONUtils_FindPointerFromObjectTo al h (Some a) (Some x) bl = r"
proof -
  note ok = assms(1) [unfolded json_ok_def]
  obtain t where t: "pt_root t = a" "grown (kids_of h) t" using grown_exists [OF tree_ok_wf [OF ok], of a] by blast
  have A: "set (pt_addrs t) = {b. below (kids_of h) b a}" using grown_addrs [OF t(2)] t(1) by simp
  have "addressable h cs a" using assms(3) by simp
  then obtain n where n: "nodes h a = Some n" by (auto simp: addressable_def)
  let ?r = "if a = x then Some (Inr (cJSONUtils_strdup al [] bl)) else find_loop al h x a (n_child n) 0 bl"
  have f: "finds h cs a {b. below (kids_of h) b a} x bl ?r"
    using find_tree [OF assms(1,2) t(2), of cs n x bl] grown_distinct [OF tree_ok_links(4) [OF ok] t(2)] assms(3) n A
    unfolding t(1) by simp
  then obtain r where r: "?r = Some r" by (auto simp: finds_def)
  then have "cJSONUtils_FindPointerFromObjectTo al h (Some a) (Some x) bl = r"
    using n by (auto simp: cJSONUtils_FindPointerFromObjectTo_def run_loop_def split: if_splits)
  then show ?thesis using f r by auto
qed

lemma path_here: "path_loop h cs (Some x) [] = Inr (Some x)"
  by (subst path_loop.simps) simp



section \<open>Paths that go wrong\<close>

text \<open>
  The pointer is not refused when its token is no number: an empty token is index 0, and because only the first
  character is compared with \<^verbatim>\<open>'9'\<close>, letters behind it count as digits.
\<close>

lemma index_not_a_number:
  "decode_array_index_from_pointer [] = Some 0" "decode_array_index_from_pointer (bytes_of ''1a'') = Some 59"
  by code_simp+

text \<open>Without memory for the longer pointer the code writes through a null pointer.\<close>

lemma find_pointer_null_deref:
  "cJSONUtils_FindPointerFromObjectTo (\<lambda>k. k = 0) demo_heap (Some 0) (Some 1) (0, 0) = Inl NullDeref"
  by (simp add: cJSONUtils_FindPointerFromObjectTo_def demo_heap_def empty_node_def run_loop_def find_loop.simps [of _ _ _ _ "Some n" for n]
      cJSONUtils_strdup_def take_block_def full_pointer_def cJSON_IsArray_def is_kind_def)

end
