(* ===== verification/CjsonSort.thy ===== *)
theory CjsonSort
  imports CjsonPointer "HOL-Library.List_Lexorder" "HOL-Library.Multiset"
begin

text \<open>
  Sorting the members of an object by their names, from \<^verbatim>\<open>apps/cjson/cJSON_Utils.c\<close>: a merge sort that relinks the
  chain of siblings. It is compared with a merge sort on lists, which is shown to sort.
\<close>

section \<open>The functions\<close>

text \<open>The loop that tests for a sorted list, and the one that walks two pointers to the middle.\<close>

partial_function (option) sorted_scan :: "json_heap \<Rightarrow> bool \<Rightarrow> addr option \<Rightarrow> (c_fault + addr option) option" where
  "sorted_scan h case_sensitive current_item =
     (if current_item = None then Some (Inr None)
      else bind_loop (Some (get_node h current_item)) (\<lambda>n.
           if n_next n = None then Some (Inr current_item)
           else bind_loop (Some (get_node h (n_next n))) (\<lambda>m.
                bind_loop (Some (compare_strings h (n_string n) (n_string m) case_sensitive)) (\<lambda>d.
                if d < 0 then sorted_scan h case_sensitive (n_next n) else Some (Inr current_item)))))"

partial_function (option) middle_loop :: "json_heap \<Rightarrow> addr option \<Rightarrow> addr option \<Rightarrow> (c_fault + addr option) option" where
  "middle_loop h second current_item =
     (if current_item = None then Some (Inr second)
      else bind_loop (Some (get_node h second)) (\<lambda>s.
           bind_loop (Some (get_node h current_item)) (\<lambda>c.
           if n_next c = None then middle_loop h (n_next s) None
           else bind_loop (Some (get_node h (n_next c))) (\<lambda>d. middle_loop h (n_next s) (n_next d)))))"

definition split_before :: "addr option \<Rightarrow> json_heap \<Rightarrow> c_fault + json_heap" where
  "split_before second h =
     (if second = None then Inr h
      else bind_fault (get_node h second) (\<lambda>m.
           if n_prev m = None then Inr h
           else bind_fault (set_next (n_prev m) None h) (set_prev second None)))"

text \<open>The loop that merges: the rests of both lists, the first and the last item of the result.\<close>

partial_function (option) merge_loop :: "bool \<Rightarrow> addr option \<Rightarrow> addr option \<Rightarrow> addr option \<Rightarrow> addr option \<Rightarrow> json_heap \<Rightarrow>
    (c_fault + (addr option \<times> addr option \<times> addr option \<times> addr option \<times> json_heap)) option" where
  "merge_loop case_sensitive first' second result result_tail h =
     (if first' = None \<or> second = None then Some (Inr (first', second, result, result_tail, h))
      else bind_loop (Some (get_node h first')) (\<lambda>f.
           bind_loop (Some (get_node h second)) (\<lambda>s.
           bind_loop (Some (compare_strings h (n_string f) (n_string s) case_sensitive)) (\<lambda>d.
           let smaller = (if d < 0 then first' else second)
           in bind_loop (Some (if result = None then Inr h
                               else bind_fault (set_next result_tail smaller h) (set_prev smaller result_tail))) (\<lambda>h1.
              bind_loop (Some (get_node h1 smaller)) (\<lambda>m.
              let result' = (if result = None then smaller else result)
              in if first' = smaller then merge_loop case_sensitive (n_next m) second result' smaller h1
                 else merge_loop case_sensitive first' (n_next m) result' smaller h1))))))"

definition append_rest :: "addr option \<Rightarrow> addr option \<Rightarrow> addr option \<Rightarrow> addr option \<Rightarrow> json_heap \<Rightarrow> c_fault + (addr option \<times> json_heap)" where
  "append_rest first' second result result_tail h =
     (if first' \<noteq> None \<and> result = None then Inr (first', h)
      else bind_fault (if first' \<noteq> None then bind_fault (set_next result_tail first' h) (set_prev first' result_tail) else Inr h) (\<lambda>h1.
           if second \<noteq> None \<and> result = None then Inr (second, h1)
           else bind_fault (if second \<noteq> None then bind_fault (set_next result_tail second h1) (set_prev second result_tail) else Inr h1) (\<lambda>h2.
                Inr (result, h2))))"

partial_function (option) sort_list :: "bool \<Rightarrow> addr option \<Rightarrow> json_heap \<Rightarrow> (c_fault + (addr option \<times> json_heap)) option" where
  "sort_list case_sensitive list h =
     (if list = None then Some (Inr (list, h))
      else bind_loop (Some (get_node h list)) (\<lambda>n.
      if n_next n = None then Some (Inr (list, h))
      else bind_loop (sorted_scan h case_sensitive list) (\<lambda>current_item.
           bind_loop (Some (if current_item = None then Inr True else bind_fault (get_node h current_item) (\<lambda>c. Inr (n_next c = None)))) (\<lambda>in_order.
           if in_order then Some (Inr (list, h))
           else bind_loop (middle_loop h list list) (\<lambda>second.
                bind_loop (Some (split_before second h)) (\<lambda>h1.
                bind_loop (sort_list case_sensitive list h1) (\<lambda>(first', h2).
                bind_loop (sort_list case_sensitive second h2) (\<lambda>(second', h3).
                bind_loop (merge_loop case_sensitive first' second' None None h3) (\<lambda>(f, s, result, result_tail, h4).
                Some (append_rest f s result result_tail h4)))))))))) "

definition sort_object :: "addr option \<Rightarrow> bool \<Rightarrow> json_heap \<Rightarrow> c_fault + json_heap" where
  "sort_object object case_sensitive h =
     (if object = None then Inr h
      else bind_fault (get_node h object) (\<lambda>n.
           bind_fault (run_loop (sort_list case_sensitive (n_child n) h)) (\<lambda>(result, h1). set_first object result h1)))"

definition cJSONUtils_SortObject where "cJSONUtils_SortObject object = sort_object object False"
definition cJSONUtils_SortObjectCaseSensitive where "cJSONUtils_SortObjectCaseSensitive object = sort_object object True"

section \<open>Merge sort on lists\<close>

fun ref_merge :: "('a \<Rightarrow> 'k :: linorder) \<Rightarrow> 'a list \<Rightarrow> 'a list \<Rightarrow> 'a list" where
  "ref_merge key [] ys = ys"
| "ref_merge key xs [] = xs"
| "ref_merge key (x # xs) (y # ys) =
     (if key x < key y then x # ref_merge key xs (y # ys) else y # ref_merge key (x # xs) ys)"

function ref_sort :: "('a \<Rightarrow> 'k :: linorder) \<Rightarrow> 'a list \<Rightarrow> 'a list" where
  "ref_sort key xs =
     (if length xs \<le> 1 \<or> sorted_wrt (<) (map key xs) then xs
      else (let k = (length xs + 1) div 2 in ref_merge key (ref_sort key (take k xs)) (ref_sort key (drop k xs))))"
  by pat_completeness auto
termination by (relation "measure (\<lambda>(key, xs). length xs)") auto

declare ref_sort.simps [simp del]

lemma mset_ref_merge [simp]: "mset (ref_merge key xs ys) = mset xs + mset ys"
  by (induction key xs ys rule: ref_merge.induct) auto

lemma set_ref_merge [simp]: "set (ref_merge key xs ys) = set xs \<union> set ys"
  by (metis mset_ref_merge set_mset_mset set_mset_union)

lemma sorted_ref_merge: "sorted (map key xs) \<Longrightarrow> sorted (map key ys) \<Longrightarrow> sorted (map key (ref_merge key xs ys))"
  by (induction key xs ys rule: ref_merge.induct) (auto intro: order_trans less_imp_le)

lemma mset_ref_sort [simp]: "mset (ref_sort key xs) = mset xs"
proof (induction key xs rule: ref_sort.induct)
  case (1 key xs)
  let ?k = "(length xs + 1) div 2"
  show ?case
  proof (cases "length xs \<le> 1 \<or> sorted_wrt (<) (map key xs)")
    case False
    have "mset (take ?k xs) + mset (drop ?k xs) = mset xs" by (metis append_take_drop_id mset_append)
    then show ?thesis using 1 [OF False] False by (simp add: ref_sort.simps [of key xs] Let_def)
  qed (simp add: ref_sort.simps [of key xs])
qed

lemma set_ref_sort [simp]: "set (ref_sort key xs) = set xs"
  by (metis mset_ref_sort set_mset_mset)

lemma length_ref_sort [simp]: "length (ref_sort key xs) = length xs"
  by (metis mset_ref_sort size_mset)

lemma distinct_ref_sort [simp]: "distinct (ref_sort key xs) = distinct xs"
  by (metis mset_ref_sort mset_eq_imp_distinct_iff)

lemma sorted_ref_sort: "sorted (map key (ref_sort key xs))"
proof (induction key xs rule: ref_sort.induct)
  case (1 key xs)
  show ?case
  proof (cases "length xs \<le> 1 \<or> sorted_wrt (<) (map key xs)")
    case True
    then have "ref_sort key xs = xs" by (subst ref_sort.simps) simp
    moreover have "sorted (map key xs)" using True strict_sorted_imp_sorted by (cases xs; cases "tl xs") auto
    ultimately show ?thesis by simp
  next
    case False
    then show ?thesis using 1 [OF False] sorted_ref_merge by (simp add: ref_sort.simps [of key xs] Let_def)
  qed
qed

section \<open>Comparing names\<close>

text \<open>The order of the names: by bytes, of small letters if the case is not regarded.\<close>

definition name_key :: "json_heap \<Rightarrow> bool \<Rightarrow> addr \<Rightarrow> u8 list" where
  "name_key h cs a = (if cs then name_of h a else map tolower (name_of h a))"

lemma byte_order: "uint a < uint b \<longleftrightarrow> a < b" "0 < uint a \<longleftrightarrow> a \<noteq> 0" for a b :: u8
  by (simp_all add: word_less_def order_less_le uint_0_iff)

lemma c_strcmp_less: "0 \<notin> set a \<Longrightarrow> 0 \<notin> set b \<Longrightarrow> c_strcmp a b < 0 \<longleftrightarrow> a < b"
proof (induction a b rule: c_strcmp.induct)
  case (4 a as b bs)
  then show ?case using byte_order(1) [of a b] by (cases "a = b") simp_all
qed (simp_all add: byte_order(2))

lemma strcmp_loop_less: "0 \<notin> set a \<Longrightarrow> 0 \<notin> set b \<Longrightarrow> strcmp_loop a b < 0 \<longleftrightarrow> map tolower a < map tolower b"
proof (induction a b rule: strcmp_loop.induct)
  case (4 a as b bs)
  then show ?case using byte_order(1) [of "tolower a" "tolower b"] by (cases "tolower a = tolower b") simp_all
qed (simp_all add: byte_order(2) tolower_zero)

lemma compare_names:
  assumes "nodes h a = Some n" "nodes h b = Some m" "readable h (n_string n)" "readable h (n_string m)" "named h a" "named h b"
  shows "\<exists>d. compare_strings h (n_string n) (n_string m) cs = Inr d \<and> (d < 0 \<longleftrightarrow> name_key h cs a < name_key h cs b)"
proof -
  obtain p q where pq: "n_string n = Some p" "n_string m = Some q" using assms by (auto simp: named_def)
  have k: "name_of h a = c_string (str_value h p)" "name_of h b = c_string (str_value h q)" using assms(1,2) pq by (simp_all add: name_of_def)
  show ?thesis
  proof (cases "p = q")
    case True
    then show ?thesis using pq k by (simp add: compare_strings_def name_key_def)
  next
    case False
    then show ?thesis using pq k assms(3,4) c_strcmp_less [of "name_of h a" "name_of h b"] strcmp_loop_less [of "name_of h a" "name_of h b"]
      by (simp add: compare_strings_def name_key_def)
  qed
qed

text \<open>Items that can be compared, and a heap in which only the links between siblings of a set have changed.\<close>

definition comparable :: "json_heap \<Rightarrow> addr list \<Rightarrow> bool" where
  "comparable h xs \<longleftrightarrow> (\<forall>c \<in> set xs. named h c \<and> readable h (n_string (the (nodes h c))))"

definition unlinked :: "node \<Rightarrow> node" where
  "unlinked n = n\<lparr>n_next := None, n_prev := None\<rparr>"

definition relinked :: "addr set \<Rightarrow> json_heap \<Rightarrow> json_heap \<Rightarrow> bool" where
  "relinked A h h' \<longleftrightarrow>
     strs h' = strs h \<and> brk h' = brk h \<and> calls h' = calls h \<and> (\<forall>a. a \<notin> A \<longrightarrow> nodes h' a = nodes h a) \<and>
     (\<forall>a. map_option unlinked (nodes h' a) = map_option unlinked (nodes h a))"

lemma unlinked_simps [simp]: "unlinked (n\<lparr>n_next := p\<rparr>) = unlinked n" "unlinked (n\<lparr>n_prev := p\<rparr>) = unlinked n"
  by (simp_all add: unlinked_def)

lemma unlinked_fields:
  assumes "unlinked n = unlinked m"
  shows "n_string n = n_string m" "n_child n = n_child m" "n_type n = n_type m" "payload n = payload m"
  using assms by (cases n; cases m; simp add: unlinked_def payload_def)+

lemma relinked_refl [simp]: "relinked A h h"
  by (simp add: relinked_def)

lemma relinked_trans: "relinked A h h1 \<Longrightarrow> relinked B h1 h2 \<Longrightarrow> A \<subseteq> C \<Longrightarrow> B \<subseteq> C \<Longrightarrow> relinked C h h2"
  unfolding relinked_def by (metis subsetD)

lemma relinked_upd:
  assumes "nodes h a = Some n" "unlinked m = unlinked n" "a \<in> A"
  shows "relinked A h (h\<lparr>nodes := (nodes h)(a \<mapsto> m)\<rparr>)"
  using assms by (auto simp: relinked_def)

lemma relinked_node:
  assumes "relinked A h h'" "nodes h a = Some n"
  obtains n' where "nodes h' a = Some n'" "unlinked n' = unlinked n"
  using assms unfolding relinked_def by (metis (no_types, lifting) map_option_eq_Some)

lemma relinked_none: "relinked A h h' \<Longrightarrow> nodes h a = None \<Longrightarrow> nodes h' a = None"
  unfolding relinked_def by (metis map_option_is_None)

lemma relinked_strings:
  assumes "relinked A h h'"
  shows "map_option n_string (nodes h' a) = map_option n_string (nodes h a)" "readable h' = readable h" "str_value h' = str_value h"
proof -
  show "map_option n_string (nodes h' a) = map_option n_string (nodes h a)"
  proof (cases "nodes h a")
    case None
    then show ?thesis using relinked_none [OF assms] by simp
  next
    case (Some n)
    then show ?thesis using relinked_node [OF assms Some] unlinked_fields(1) by (metis option.simps(9))
  qed
  show "readable h' = readable h" "str_value h' = str_value h" using str_same [of h' h] assms by (simp_all add: relinked_def)
qed

lemma relinked_comparable:
  assumes "relinked A h h'" "comparable h xs" "set xs \<subseteq> dom (nodes h)"
  shows "comparable h' xs" "\<And>c. c \<in> set xs \<Longrightarrow> name_key h' cs c = name_key h cs c"
proof -
  have s: "n_string (the (nodes h' c)) = n_string (the (nodes h c))" if c: "c \<in> set xs" for c
  proof -
    obtain n where n: "nodes h c = Some n" using assms(3) c by blast
    obtain n' where "nodes h' c = Some n'" "unlinked n' = unlinked n" by (rule relinked_node [OF assms(1) n])
    then show ?thesis using n unlinked_fields(1) [of n' n] by simp
  qed
  note r = relinked_strings [OF assms(1)]
  show "comparable h' xs" using assms(2) s r by (simp add: comparable_def named_def)
  show "name_key h' cs c = name_key h cs c" if "c \<in> set xs" for c using s [OF that] r by (simp add: name_key_def name_of_def)
qed

lemma relinked_seg: "relinked A h h' \<Longrightarrow> set xs \<inter> A = {} \<Longrightarrow> seg (nodes h') pv xs nx = seg (nodes h) pv xs nx"
  by (rule seg_cong) (auto simp: relinked_def)

text \<open>Comparing two items of a chain.\<close>

lemma compare_items:
  assumes "comparable h xs" "a \<in> set xs" "b \<in> set xs" "nodes h a = Some n" "nodes h b = Some m"
  obtains d where "compare_strings h (n_string n) (n_string m) cs = Inr d" "d < 0 \<longleftrightarrow> name_key h cs a < name_key h cs b"
proof -
  have "the (nodes h a) = n" "the (nodes h b) = m" using assms(4,5) by simp_all
  then have "named h a" "named h b" "readable h (n_string n)" "readable h (n_string m)"
    using assms(1-3) unfolding comparable_def by blast+
  then obtain d where "compare_strings h (n_string n) (n_string m) cs = Inr d" "d < 0 \<longleftrightarrow> name_key h cs a < name_key h cs b"
    using compare_names [OF assms(4,5)] by metis
  then show ?thesis by (rule that)
qed

section \<open>The loops\<close>

lemma scan_ok:
  assumes "seg (nodes h) pv xs None" "comparable h xs" "xs \<noteq> []"
  shows "\<exists>c n. sorted_scan h cs (first xs) = Some (Inr (Some c)) \<and> nodes h c = Some n \<and>
    (n_next n = None \<longleftrightarrow> sorted_wrt (<) (map (name_key h cs) xs))"
  using assms
proof (induction xs arbitrary: pv rule: induct_list012)
  case (2 x)
  then obtain n where n: "nodes h x = Some n" "n_next n = None" by (auto simp: links_def)
  have "sorted_scan h cs (Some x) = Some (Inr (Some x))" by (subst sorted_scan.simps) (simp add: n)
  then show ?case using n by simp
next
  case (3 x y ys)
  obtain n where n: "nodes h x = Some n" "n_next n = Some y" using 3(3) by (auto simp: links_def)
  obtain m where m: "nodes h y = Some m" using 3(3) by (auto simp: links_def)
  obtain d where d: "compare_strings h (n_string n) (n_string m) cs = Inr d" "d < 0 \<longleftrightarrow> name_key h cs x < name_key h cs y"
    by (rule compare_items [OF 3(4) _ _ n(1) m]) simp_all
  have st: "sorted_scan h cs (first (x # y # ys)) = (if d < 0 then sorted_scan h cs (first (y # ys)) else Some (Inr (Some x)))"
    by (subst sorted_scan.simps) (simp add: n m d(1))
  have srt: "sorted_wrt (<) (map (name_key h cs) (x # y # ys)) \<longleftrightarrow> d < 0 \<and> sorted_wrt (<) (map (name_key h cs) (y # ys))"
    using d(2) by (auto intro: less_trans)
  have "\<exists>c n. sorted_scan h cs (first (y # ys)) = Some (Inr (Some c)) \<and> nodes h c = Some n \<and>
      (n_next n = None \<longleftrightarrow> sorted_wrt (<) (map (name_key h cs) (y # ys)))"
    by (rule "3.IH"(2) [of "Some x"]) (use 3(3,4) in \<open>simp_all add: comparable_def\<close>)
  then show ?case unfolding st srt using n by (cases "d < 0") simp_all
qed simp

lemma middle_ok:
  assumes "seg (nodes h) pv ss None" "seg (nodes h) pv' ds None" "(length ds + 1) div 2 \<le> length ss"
  shows "middle_loop h (first ss) (first ds) = Some (Inr (first (drop ((length ds + 1) div 2) ss)))"
  using assms
proof (induction ds arbitrary: ss pv pv' rule: induct_list012)
  case 1
  show ?case by (subst middle_loop.simps) simp
next
  case (2 d)
  then obtain s ss' where ss: "ss = s # ss'" by (cases ss) auto
  obtain n m where "nodes h s = Some n" "n_next n = first ss'" "nodes h d = Some m" "n_next m = None"
    using 2 ss by (auto simp: links_def)
  then show ?case by (subst middle_loop.simps, simp add: ss) (subst middle_loop.simps, simp)
next
  case (3 d e ds)
  then obtain s ss' where ss: "ss = s # ss'" by (cases ss) auto
  obtain n m k where n: "nodes h s = Some n" "n_next n = first ss'" "nodes h d = Some m" "n_next m = Some e" "nodes h e = Some k" "n_next k = first ds"
    using 3(3,4) ss by (auto simp: links_def)
  have "middle_loop h (first ss') (first ds) = Some (Inr (first (drop ((length ds + 1) div 2) ss')))"
    by (rule "3.IH"(1) [of "Some s" _ "Some e"]) (use 3 ss in simp_all)
  then show ?case by (subst middle_loop.simps) (simp add: ss n)
qed

text \<open>Changing the link at the end of a chain and that at its beginning.\<close>

lemma seg_end:
  assumes "seg M pv (ys @ [l]) nx" "l \<notin> set ys" "M l = Some n"
  shows "seg (M(l \<mapsto> n\<lparr>n_next := p\<rparr>)) pv (ys @ [l]) p"
  using assms by (auto simp: links_def)

lemma seg_begin:
  assumes "seg M pv (z # zs) nx" "z \<notin> set zs" "M z = Some n"
  shows "seg (M(z \<mapsto> n\<lparr>n_prev := p\<rparr>)) p (z # zs) nx"
  using assms by (auto simp: links_def)

lemma split_ok:
  assumes "seg (nodes h) pv (ys @ z # zs) None" "distinct (ys @ z # zs)" "ys \<noteq> []"
  obtains h1 where "split_before (Some z) h = Inr h1" "seg (nodes h1) pv ys None" "seg (nodes h1) None (z # zs) None"
    "relinked (set (ys @ z # zs)) h h1"
proof -
  obtain us l where ys: "ys = us @ [l]" using assms(3) by (metis append_butlast_last_id)
  have s: "seg (nodes h) pv (us @ [l]) (Some z)" "seg (nodes h) (Some l) (z # zs) None" using assms(1) unfolding ys by simp_all
  obtain m where m: "nodes h z = Some m" "n_prev m = Some l" using s(2) by (auto simp: links_def)
  obtain n where n: "nodes h l = Some n" using s(1) by (auto simp: links_def)
  have d: "l \<notin> set us" "z \<notin> set zs" "l \<noteq> z" "l \<notin> set zs" "z \<notin> set us" using assms(2) ys by auto
  let ?M = "(nodes h)(l \<mapsto> n\<lparr>n_next := None\<rparr>)"
  let ?h1 = "h\<lparr>nodes := ?M(z \<mapsto> m\<lparr>n_prev := None\<rparr>)\<rparr>"
  have "split_before (Some z) h = Inr ?h1" using m n d by (simp add: split_before_def)
  moreover have "seg (nodes ?h1) pv ys None" using seg_end [OF s(1) d(1) n, of None] d unfolding ys by simp
  moreover have "seg (nodes ?h1) None (z # zs) None"
    using seg_begin [of ?M "Some l" z zs None m None] s(2) d m(1) by simp
  moreover have "relinked (set (ys @ z # zs)) h ?h1" using n m d ys by (auto simp: relinked_def)
  ultimately show ?thesis by (rule that)
qed

text \<open>A chain appended behind another.\<close>

lemma join_ok:
  assumes "seg (nodes h) pv ds nx" "seg (nodes h) p1 (x # xs) None" "distinct (ds @ x # xs)" "ds \<noteq> []"
  obtains h1 where "bind_fault (set_next (last_or None ds) (Some x) h) (set_prev (Some x) (last_or None ds)) = Inr h1"
    "seg (nodes h1) pv (ds @ x # xs) None" "relinked (set (ds @ [x])) h h1"
proof -
  obtain us l where ds: "ds = us @ [l]" using assms(4) by (metis append_butlast_last_id)
  obtain n where n: "nodes h l = Some n" using assms(1) unfolding ds by (auto simp: links_def)
  obtain m where m: "nodes h x = Some m" using assms(2) by (auto simp: links_def)
  have d: "l \<notin> set us" "x \<notin> set xs" "l \<noteq> x" "l \<notin> set xs" "x \<notin> set us" using assms(3) ds by auto
  let ?M = "(nodes h)(l \<mapsto> n\<lparr>n_next := Some x\<rparr>)"
  let ?h1 = "h\<lparr>nodes := ?M(x \<mapsto> m\<lparr>n_prev := Some l\<rparr>)\<rparr>"
  have "bind_fault (set_next (last_or None ds) (Some x) h) (set_prev (Some x) (last_or None ds)) = Inr ?h1" using n m d ds by simp
  moreover have "seg (nodes ?h1) pv ds (Some x)" using seg_end [OF assms(1) [unfolded ds] d(1) n, of "Some x"] d unfolding ds by simp
  moreover have "seg (nodes ?h1) (Some l) (x # xs) None"
    using seg_begin [of ?M p1 x xs None m "Some l"] assms(2) d m by simp
  ultimately show ?thesis using n m d ds by (intro that [of ?h1]) (auto simp: relinked_def)
qed

lemma take_item:
  assumes "seg (nodes h) p (x # xs) None" "distinct (ds @ x # xs)" "ds \<noteq> [] \<Longrightarrow> \<exists>pv nx. seg (nodes h) pv ds nx"
  obtains h1 pv m where
    "(if first ds = None then Inr h else bind_fault (set_next (last_or None ds) (Some x) h) (set_prev (Some x) (last_or None ds))) = Inr h1"
    "seg (nodes h1) pv (ds @ [x]) (first xs)" "seg (nodes h1) (Some x) xs None" "relinked (set (ds @ [x])) h h1"
    "nodes h1 x = Some m" "n_next m = first xs"
proof (cases "ds = []")
  case True
  then show ?thesis using that [of h p] assms(1) by (auto simp: links_def)
next
  case False
  then obtain pv nx where s: "seg (nodes h) pv ds nx" using assms(3) by blast
  obtain h1 where h1: "bind_fault (set_next (last_or None ds) (Some x) h) (set_prev (Some x) (last_or None ds)) = Inr h1"
    "seg (nodes h1) pv (ds @ x # xs) None" "relinked (set (ds @ [x])) h h1" by (rule join_ok [OF s assms(1,2) False])
  then show ?thesis using that [of h1 pv] False by (auto simp: links_def)
qed

lemma append_ok:
  assumes "seg (nodes h) p (x # xs) None" "distinct (ds @ x # xs)" "ds \<noteq> [] \<Longrightarrow> \<exists>pv nx. seg (nodes h) pv ds nx"
  obtains h1 pv where "append_rest (Some x) None (first ds) (last_or None ds) h = Inr (first (ds @ x # xs), h1)"
    "append_rest None (Some x) (first ds) (last_or None ds) h = Inr (first (ds @ x # xs), h1)"
    "seg (nodes h1) pv (ds @ x # xs) None" "relinked (set (ds @ [x])) h h1"
proof (cases "ds = []")
  case True
  then show ?thesis using that [of h p] assms(1) by (simp add: append_rest_def)
next
  case False
  then obtain pv nx where s: "seg (nodes h) pv ds nx" using assms(3) by blast
  obtain h1 where h1: "bind_fault (set_next (last_or None ds) (Some x) h) (set_prev (Some x) (last_or None ds)) = Inr h1"
    "seg (nodes h1) pv (ds @ x # xs) None" "relinked (set (ds @ [x])) h h1" by (rule join_ok [OF s assms(1,2) False])
  then show ?thesis using that [of h1 pv] False by (cases ds) (auto simp: append_rest_def)
qed

text \<open>What merging makes of two chains behind those items that are merged already.\<close>

definition merges :: "bool \<Rightarrow> (addr \<Rightarrow> u8 list) \<Rightarrow> addr list \<Rightarrow> addr list \<Rightarrow> addr list \<Rightarrow> json_heap \<Rightarrow> bool" where
  "merges cs key ds fs ss h \<longleftrightarrow>
     (\<exists>h' pv. bind_loop (merge_loop cs (first fs) (first ss) (first ds) (last_or None ds) h) (\<lambda>(f, s, r, t, h4). Some (append_rest f s r t h4)) =
        Some (Inr (first (ds @ ref_merge key fs ss), h')) \<and> seg (nodes h') pv (ds @ ref_merge key fs ss) None \<and>
        relinked (set (ds @ fs @ ss)) h h')"

lemma mergesI:
  assumes "bind_loop (merge_loop cs (first fs) (first ss) (first ds) (last_or None ds) h) (\<lambda>(f, s, r, t, h4). Some (append_rest f s r t h4)) =
      bind_loop (merge_loop cs (first fs') (first ss') (first ds') (last_or None ds') h1) (\<lambda>(f, s, r, t, h4). Some (append_rest f s r t h4))"
    and "merges cs key ds' fs' ss' h1" "relinked A h h1" "A \<subseteq> set (ds @ fs @ ss)" "set (ds' @ fs' @ ss') \<subseteq> set (ds @ fs @ ss)"
    and "ds' @ ref_merge key fs' ss' = ds @ ref_merge key fs ss"
  shows "merges cs key ds fs ss h"
proof -
  obtain h' pv where h': "bind_loop (merge_loop cs (first fs') (first ss') (first ds') (last_or None ds') h1) (\<lambda>(f, s, r, t, h4). Some (append_rest f s r t h4)) =
      Some (Inr (first (ds' @ ref_merge key fs' ss'), h'))" "seg (nodes h') pv (ds' @ ref_merge key fs' ss') None"
    "relinked (set (ds' @ fs' @ ss')) h1 h'" using assms(2) unfolding merges_def by blast
  have "relinked (set (ds @ fs @ ss)) h h'" by (rule relinked_trans [OF assms(3) h'(3) assms(4,5)])
  then show ?thesis using h'(1,2) unfolding merges_def assms(1,6) by blast
qed

lemma merge_ok:
  assumes "\<exists>p. seg (nodes h) p fs None" "\<exists>p. seg (nodes h) p ss None" "fs \<noteq> [] \<or> ss \<noteq> []" "distinct (ds @ fs @ ss)"
    and "comparable h (fs @ ss)" "ds \<noteq> [] \<Longrightarrow> \<exists>pv nx. seg (nodes h) pv ds nx" "\<forall>c \<in> set (fs @ ss). name_key h cs c = key c"
  shows "merges cs key ds fs ss h"
  using assms
proof (induction key fs ss arbitrary: ds h rule: ref_merge.induct)
  case (1 key ss)
  then obtain y ys p where y: "ss = y # ys" "seg (nodes h) p (y # ys) None" by (cases ss) auto
  obtain h1 pv where "append_rest None (Some y) (first ds) (last_or None ds) h = Inr (first (ds @ y # ys), h1)"
    "seg (nodes h1) pv (ds @ y # ys) None" "relinked (set (ds @ [y])) h h1"
    by (rule append_ok [OF y(2)]) (use 1 y(1) in auto)
  moreover have "relinked (set (ds @ y # ys)) h h1"
    by (rule relinked_trans [OF calculation(3), of "{}"]) auto
  ultimately show ?case unfolding merges_def y(1) by (subst merge_loop.simps) (auto simp del: set_append)
next
  case (2 key x xs)
  then obtain p where p: "seg (nodes h) p (x # xs) None" by auto
  obtain h1 pv where "append_rest (Some x) None (first ds) (last_or None ds) h = Inr (first (ds @ x # xs), h1)"
    "seg (nodes h1) pv (ds @ x # xs) None" "relinked (set (ds @ [x])) h h1"
    by (rule append_ok [OF p]) (use 2 in auto)
  moreover have "relinked (set (ds @ x # xs)) h h1"
    by (rule relinked_trans [OF calculation(3), of "{}"]) auto
  ultimately show ?case unfolding merges_def by (subst merge_loop.simps) (auto simp del: set_append)
next
  case (3 key x xs y ys)
  obtain p q where p: "seg (nodes h) p (x # xs) None" and q: "seg (nodes h) q (y # ys) None" using 3(3,4) by auto
  obtain n where n: "nodes h x = Some n" using p by (auto simp: links_def)
  obtain m where m: "nodes h y = Some m" using q by (auto simp: links_def)
  obtain d where d: "compare_strings h (n_string n) (n_string m) cs = Inr d" "d < 0 \<longleftrightarrow> name_key h cs x < name_key h cs y"
    by (rule compare_items [OF 3(7) _ _ n m]) simp_all
  have k: "d < 0 \<longleftrightarrow> key x < key y" using d(2) 3(9) by simp
  have dom: "set ((x # xs) @ (y # ys)) \<subseteq> dom (nodes h)" using seg_dom [OF p] seg_dom [OF q] by simp
  have xy: "x \<noteq> y" using 3(6) by auto
  show ?case
  proof (cases "d < 0")
    case True
    obtain h1 pv k1 where h1: "(if first ds = None then Inr h else bind_fault (set_next (last_or None ds) (Some x) h) (set_prev (Some x) (last_or None ds))) = Inr h1"
      "seg (nodes h1) pv (ds @ [x]) (first xs)" "seg (nodes h1) (Some x) xs None" "relinked (set (ds @ [x])) h h1"
      "nodes h1 x = Some k1" "n_next k1 = first xs"
      by (rule take_item [OF p, of ds]) (use 3 in auto)
    note c = relinked_comparable [OF h1(4) 3(7) dom]
    have "seg (nodes h1) q (y # ys) None" using relinked_seg [OF h1(4), of "y # ys"] q 3(6) by auto
    then have mg: "merges cs key (ds @ [x]) xs (y # ys) h1"
      by (intro "3.IH"(1)) (use True k 3 h1 c in \<open>auto simp: comparable_def\<close>)
    have "merge_loop cs (Some x) (Some y) (first ds) (last_or None ds) h = merge_loop cs (first xs) (Some y) (first (ds @ [x])) (Some x) h1"
      by (subst merge_loop.simps) (use True n m d(1) h1 in \<open>cases ds; simp add: Let_def\<close>)
    then show ?thesis by (intro mergesI [OF _ mg h1(4)]) (use True k in auto)
  next
    case False
    obtain h1 pv k1 where h1: "(if first ds = None then Inr h else bind_fault (set_next (last_or None ds) (Some y) h) (set_prev (Some y) (last_or None ds))) = Inr h1"
      "seg (nodes h1) pv (ds @ [y]) (first ys)" "seg (nodes h1) (Some y) ys None" "relinked (set (ds @ [y])) h h1"
      "nodes h1 y = Some k1" "n_next k1 = first ys"
      by (rule take_item [OF q, of ds]) (use 3 in auto)
    note c = relinked_comparable [OF h1(4) 3(7) dom]
    have "seg (nodes h1) p (x # xs) None" using relinked_seg [OF h1(4), of "x # xs"] p 3(6) by auto
    then have mg: "merges cs key (ds @ [y]) (x # xs) ys h1"
      by (intro "3.IH"(2)) (use False k 3 h1 c in \<open>auto simp: comparable_def\<close>)
    have "merge_loop cs (Some x) (Some y) (first ds) (last_or None ds) h = merge_loop cs (Some x) (first ys) (first (ds @ [y])) (Some y) h1"
      by (subst merge_loop.simps) (use False n m d(1) h1 xy in \<open>cases ds; simp add: Let_def\<close>)
    then show ?thesis by (intro mergesI [OF _ mg h1(4)]) (use False k in auto)
  qed
qed

section \<open>Sorting a chain\<close>

lemma ref_sort_cong: "(\<And>x. x \<in> set xs \<Longrightarrow> f x = g x) \<Longrightarrow> ref_sort f xs = ref_sort g xs"
proof (induction f xs rule: ref_sort.induct)
  case (1 f xs)
  let ?k = "(length xs + 1) div 2"
  have mg: "ref_merge f as bs = ref_merge g as bs" if "\<forall>x \<in> set (as @ bs). f x = g x" for as bs
    using that by (induction f as bs rule: ref_merge.induct) auto
  have m: "map f xs = map g xs" using 1(3) by simp
  show ?case
  proof (cases "length xs \<le> 1 \<or> sorted_wrt (<) (map f xs)")
    case True
    have "ref_sort f xs = xs" by (subst ref_sort.simps) (use True in simp)
    moreover have "ref_sort g xs = xs" by (subst ref_sort.simps) (use True [unfolded m] in simp)
    ultimately show ?thesis by simp
  next
    case False
    have a: "ref_sort f (take ?k xs) = ref_sort g (take ?k xs)" "ref_sort f (drop ?k xs) = ref_sort g (drop ?k xs)"
      using 1(1) [OF False] 1(2) [OF False] 1(3) by (auto dest: in_set_takeD in_set_dropD)
    have "ref_merge f (ref_sort g (take ?k xs)) (ref_sort g (drop ?k xs)) = ref_merge g (ref_sort g (take ?k xs)) (ref_sort g (drop ?k xs))"
      by (rule mg) (use 1(3) in \<open>auto dest: in_set_takeD in_set_dropD\<close>)
    then show ?thesis using False False [unfolded m] a by (simp add: ref_sort.simps [of f xs] ref_sort.simps [of g xs] Let_def)
  qed
qed

lemma comparable_subset: "comparable h xs \<Longrightarrow> set ys \<subseteq> set xs \<Longrightarrow> comparable h ys"
  unfolding comparable_def by blast

text \<open>What sorting makes of a chain; sorting two chains one after the other and merging them.\<close>

definition sorts :: "bool \<Rightarrow> json_heap \<Rightarrow> addr list \<Rightarrow> bool" where
  "sorts cs h xs \<longleftrightarrow>
     (\<exists>h' pv. sort_list cs (first xs) h = Some (Inr (first (ref_sort (name_key h cs) xs), h')) \<and>
        seg (nodes h') pv (ref_sort (name_key h cs) xs) None \<and> relinked (set xs) h h')"

lemma sorts_unchanged:
  "sort_list cs (first xs) h = Some (Inr (first xs, h)) \<Longrightarrow> ref_sort (name_key h cs) xs = xs \<Longrightarrow> seg (nodes h) pv xs None \<Longrightarrow> sorts cs h xs"
  unfolding sorts_def by (metis relinked_refl)

lemma sort_merge:
  assumes "seg (nodes h) p ys None" "seg (nodes h) q zs None" "distinct (ys @ zs)" "comparable h (ys @ zs)" "ys \<noteq> []"
    and "\<And>h p. seg (nodes h) p ys None \<Longrightarrow> comparable h ys \<Longrightarrow> sorts cs h ys" "\<And>h p. seg (nodes h) p zs None \<Longrightarrow> comparable h zs \<Longrightarrow> sorts cs h zs"
    and "\<forall>c \<in> set (ys @ zs). name_key h cs c = key c"
  obtains h' pv where "bind_loop (sort_list cs (first ys) h) (\<lambda>(first', h2). bind_loop (sort_list cs (first zs) h2) (\<lambda>(second', h3).
      bind_loop (merge_loop cs first' second' None None h3) (\<lambda>(f, s, r, t, h4). Some (append_rest f s r t h4)))) =
      Some (Inr (first (ref_merge key (ref_sort key ys) (ref_sort key zs)), h'))"
    "seg (nodes h') pv (ref_merge key (ref_sort key ys) (ref_sort key zs)) None" "relinked (set (ys @ zs)) h h'"
proof -
  let ?ys = "ref_sort key ys" and ?zs = "ref_sort key zs"
  have dom: "set (ys @ zs) \<subseteq> dom (nodes h)" using seg_dom [OF assms(1)] seg_dom [OF assms(2)] by simp
  have "ref_sort (name_key h cs) ys = ?ys" by (rule ref_sort_cong) (use assms(8) in simp)
  then obtain h2 p2 where h2: "sort_list cs (first ys) h = Some (Inr (first ?ys, h2))" "seg (nodes h2) p2 ?ys None" "relinked (set ys) h h2"
    using assms(6) [OF assms(1) comparable_subset [OF assms(4)]] unfolding sorts_def by auto
  note c2 = relinked_comparable [OF h2(3) assms(4) dom]
  have s2: "seg (nodes h2) q zs None" using relinked_seg [OF h2(3), of zs] assms(2,3) by auto
  have "ref_sort (name_key h2 cs) zs = ?zs" by (rule ref_sort_cong) (use c2(2) assms(8) in simp)
  then obtain h3 p3 where h3: "sort_list cs (first zs) h2 = Some (Inr (first ?zs, h3))" "seg (nodes h3) p3 ?zs None" "relinked (set zs) h2 h3"
    using assms(7) [OF s2 comparable_subset [OF c2(1)]] unfolding sorts_def by auto
  have r3: "relinked (set (ys @ zs)) h h3" by (rule relinked_trans [OF h2(3) h3(3)]) auto
  note c3 = relinked_comparable [OF r3 assms(4) dom]
  have s3: "seg (nodes h3) p2 ?ys None" using relinked_seg [OF h3(3), of ?ys] h2(2) assms(3) by auto
  have "merges cs key [] ?ys ?zs h3"
  proof (rule merge_ok)
    show "comparable h3 (?ys @ ?zs)" by (rule comparable_subset [OF c3(1)]) simp
    show "?ys \<noteq> [] \<or> ?zs \<noteq> []" using assms(5) by (metis length_ref_sort length_0_conv)
  qed (use s3 h3(2) assms(3,8) c3(2) in auto)
  then obtain h' pv where h': "bind_loop (merge_loop cs (first ?ys) (first ?zs) None None h3) (\<lambda>(f, s, r, t, h4). Some (append_rest f s r t h4)) =
      Some (Inr (first (ref_merge key ?ys ?zs), h'))" "seg (nodes h') pv (ref_merge key ?ys ?zs) None" "relinked (set (?ys @ ?zs)) h3 h'"
    unfolding merges_def by auto
  have "relinked (set (ys @ zs)) h h'" by (rule relinked_trans [OF r3 h'(3)]) auto
  then show ?thesis by (intro that [of h' pv]) (use h2(1) h3(1) h' in simp_all)
qed

lemma sort_ok: "seg (nodes h) pv xs None \<Longrightarrow> distinct xs \<Longrightarrow> comparable h xs \<Longrightarrow> sorts cs h xs"
proof (induction "length xs" arbitrary: xs h pv rule: less_induct)
  case less
  let ?key = "name_key h cs"
  consider (nil) "xs = []" | (one) x where "xs = [x]" | (more) x y zs where "xs = x # y # zs" by (cases xs; cases "tl xs") auto
  then show ?case
  proof cases
    case nil
    then show ?thesis unfolding sorts_def by (subst sort_list.simps) (simp add: ref_sort.simps exI [of _ h])
  next
    case (one x)
    then obtain n where "nodes h x = Some n" "n_next n = None" using less.prems(1) by (auto simp: links_def)
    then have "sort_list cs (first xs) h = Some (Inr (first xs, h))" using one by (subst sort_list.simps) simp
    then show ?thesis by (rule sorts_unchanged [OF _ _ less.prems(1)]) (subst ref_sort.simps, simp add: one)
  next
    case (more x y zs)
    obtain n where n: "nodes h x = Some n" "n_next n = Some y" using less.prems(1) more by (auto simp: links_def)
    have nil: "xs \<noteq> []" using more by simp
    obtain c k where c: "sorted_scan h cs (first xs) = Some (Inr (Some c))" "nodes h c = Some k"
      "n_next k = None \<longleftrightarrow> sorted_wrt (<) (map ?key xs)" using scan_ok [OF less.prems(1,3) nil, of cs] by (elim exE conjE) (rule that)
    show ?thesis
    proof (cases "sorted_wrt (<) (map ?key xs)")
      case True
      then have "sort_list cs (first xs) h = Some (Inr (first xs, h))" using n c unfolding more by (subst sort_list.simps) simp
      then show ?thesis by (rule sorts_unchanged [OF _ _ less.prems(1)]) (subst ref_sort.simps, use True in simp)
    next
      case False
      let ?m = "(length xs + 1) div 2"
      let ?ys = "take ?m xs" and ?zs = "drop ?m xs"
      have big: "\<not> length xs \<le> 1" using more by simp
      have ne: "?ys \<noteq> []" "?zs \<noteq> []" "length ?ys < length xs" "length ?zs < length xs" using more by auto
      obtain z zs' where z: "?zs = z # zs'" using ne(2) by (cases ?zs) auto
      have sp: "xs = ?ys @ z # zs'" unfolding z [symmetric] by simp
      have mid: "middle_loop h (first xs) (first xs) = Some (Inr (Some z))"
        using middle_ok [OF less.prems(1) less.prems(1)] more z by simp
      obtain h1 where h1: "split_before (Some z) h = Inr h1" "seg (nodes h1) pv ?ys None" "seg (nodes h1) None ?zs None" "relinked (set xs) h h1"
        by (rule split_ok [of h pv ?ys z zs']) (use less.prems sp ne(1) z in metis)+
      note c1 = relinked_comparable [OF h1(4) less.prems(3) seg_dom [OF less.prems(1)]]
      obtain h' pv' where h': "bind_loop (sort_list cs (first ?ys) h1) (\<lambda>(first', h2). bind_loop (sort_list cs (first ?zs) h2) (\<lambda>(second', h3).
          bind_loop (merge_loop cs first' second' None None h3) (\<lambda>(f, s, r, t, h4). Some (append_rest f s r t h4)))) =
          Some (Inr (first (ref_merge ?key (ref_sort ?key ?ys) (ref_sort ?key ?zs)), h'))"
        "seg (nodes h') pv' (ref_merge ?key (ref_sort ?key ?ys) (ref_sort ?key ?zs)) None" "relinked (set (?ys @ ?zs)) h1 h'"
      proof (rule sort_merge [OF h1(2,3)])
        show "sorts cs h ?ys" if "seg (nodes h) p ?ys None" "comparable h ?ys" for h p
          by (rule less.hyps [OF ne(3) that(1) _ that(2)]) (use less.prems(2) in simp)
        show "sorts cs h ?zs" if "seg (nodes h) p ?zs None" "comparable h ?zs" for h p
          by (rule less.hyps [OF ne(4) that(1) _ that(2)]) (use less.prems(2) in simp)
      qed (use less.prems(2) c1 ne(1) in auto)
      have f: "first ?ys = first xs" "first ?zs = Some z" "first xs = Some x" using more z by auto
      have "sort_list cs (first xs) h = Some (Inr (first (ref_merge ?key (ref_sort ?key ?ys) (ref_sort ?key ?zs)), h'))"
        using n c(1,2) False c(3) mid h1(1) h'(1) unfolding f by (subst sort_list.simps) auto
      moreover have "ref_sort ?key xs = ref_merge ?key (ref_sort ?key ?ys) (ref_sort ?key ?zs)"
        by (subst ref_sort.simps) (use False big in \<open>simp add: Let_def\<close>)
      moreover have "relinked (set xs) h h'" by (rule relinked_trans [OF h1(4) h'(3)]) auto
      ultimately show ?thesis using h'(2) unfolding sorts_def by metis
    qed
  qed
qed

section \<open>Sorting the members of an object\<close>

text \<open>The children can be read off a heap in which one list of children has been relinked.\<close>

lemma relinked_same: "relinked A h h' \<Longrightarrow> same_payload h h'"
proof -
  assume r: "relinked A h h'"
  have "map_option payload (nodes h' a) = map_option payload (nodes h a)" for a
  proof (cases "nodes h a")
    case None
    then show ?thesis using relinked_none [OF r] by simp
  next
    case (Some n)
    obtain n' where "nodes h' a = Some n'" "unlinked n' = unlinked n" by (rule relinked_node [OF r Some])
    then show ?thesis using Some unlinked_fields(4) [of n' n] by simp
  qed
  then show ?thesis using r by (simp add: same_payload_def relinked_def)
qed

lemma kids_of_relinked:
  assumes "tree_ok h kids" "nodes h p = Some m" "\<not> is_reference m" "relinked (set (kids p)) h h1" "seg (nodes h1) pv ys None"
    and "nodes h1 p = Some m1" "h' = h1\<lparr>nodes := (nodes h1)(p \<mapsto> m1\<lparr>n_child := first ys\<rparr>)\<rparr>" "p \<notin> set ys"
  shows "kids_of h' = kids(p := ys)"
proof
  fix a
  note ok = tree_ok_links [OF assms(1)]
  have ch: "chain_walk (nodes h') (first xs) = Some xs" if "seg (nodes h1) q xs None" for q xs
  proof (rule chain_walk_seg)
    show "seg (nodes h') q xs None" using that assms(6,7) by (subst seg_cong [where M' = "nodes h1"]) auto
  qed
  show "kids_of h' a = (kids(p := ys)) a"
  proof (cases "a = p")
    case True
    have "is_reference m1 = is_reference m"
      using relinked_node [OF assms(4,2)] unlinked_fields(3) assms(6) by (metis is_reference_def option.inject)
    then show ?thesis using True assms(3,7) ch [OF assms(5)] by (simp add: kids_of_def)
  next
    case False
    have d: "set (kids a) \<inter> set (kids p) = {}" using ok(4) False by (simp add: kids_ok_def)
    show ?thesis
    proof (cases "nodes h a")
      case None
      then have "nodes h' a = None" using relinked_none [OF assms(4)] False assms(7) by simp
      then show ?thesis using None False fresh_root(2) [OF assms(1)] by (simp add: kids_of_def)
    next
      case (Some n)
      note k = node_kids [OF ok(1) Some]
      obtain n' where n': "nodes h1 a = Some n'" "unlinked n' = unlinked n" by (rule relinked_node [OF assms(4) Some])
      have "seg (nodes h1) (last_or None (kids a)) (kids a) None"
        using relinked_seg [OF assms(4) d] k(4) by (simp add: chained_def)
      then have "chain_walk (nodes h') (first (kids a)) = Some (kids a)" by (rule ch)
      moreover have "nodes h' a = Some n'" "is_reference n' = is_reference n" "n_child n' = n_child n"
        using n' False assms(7) unlinked_fields [OF n'(2)] by (simp_all add: is_reference_def)
      ultimately show ?thesis using k(1,2) False by (cases "is_reference n") (simp_all add: kids_of_def)
    qed
  qed
qed

text \<open>
  C26: sorting the members of an object ends without a fault, whatever the order they are in, and leaves a chain
  of the same members, in the order of their names (of bytes, or of small letters when the case is not
  regarded). The contents of all items and the children of all other items are as before.
\<close>

theorem sort_object_sorts:
  assumes "json_ok h" "can_hold h p" "\<forall>c \<in> set (kids_of h p). named h c"
  shows "\<exists>h'. sort_object (Some p) cs h = Inr h' \<and> mset (kids_of h' p) = mset (kids_of h p) \<and>
    sorted (map (name_key h' cs) (kids_of h' p)) \<and> (\<forall>a. a \<noteq> p \<longrightarrow> kids_of h' a = kids_of h a) \<and> same_payload h h' \<and>
    (\<exists>pv. seg (nodes h') pv (kids_of h' p) None)"
proof -
  obtain m where m: "nodes h p = Some m" "\<not> is_reference m" "tree_ok h (kids_of h)" by (rule json_ok_hold [OF assms(1,2)])
  let ?ks = "kids_of h p"
  note k = node_kids [OF tree_ok_links(1) [OF m(3)] m(1)]
  have "readable h (n_string (the (nodes h c)))" if "c \<in> set ?ks" for c
    using tree_nodes [OF tree_ok_links(1) [OF m(3)] that] tree_names [OF m(3), of c] by (metis option.sel)
  then have "comparable h ?ks" using assms(3) by (simp add: comparable_def)
  then have "sorts cs h ?ks" using sort_ok k(4,5) unfolding chained_def by blast
  then obtain h1 pv where h1: "sort_list cs (first ?ks) h = Some (Inr (first (ref_sort (name_key h cs) ?ks), h1))"
    "seg (nodes h1) pv (ref_sort (name_key h cs) ?ks) None" "relinked (set ?ks) h h1" unfolding sorts_def by blast
  obtain m1 where m1: "nodes h1 p = Some m1" "unlinked m1 = unlinked m" by (rule relinked_node [OF h1(3) m(1)])
  let ?ys = "ref_sort (name_key h cs) ?ks"
  let ?h = "h1\<lparr>nodes := (nodes h1)(p \<mapsto> m1\<lparr>n_child := first ?ys\<rparr>)\<rparr>"
  have p: "p \<notin> set ?ys" using k(6) by simp
  have kids: "kids_of ?h = (kids_of h)(p := ?ys)" by (rule kids_of_relinked [OF m(3,1,2) h1(3,2) m1(1) refl p])
  have pay: "same_payload h ?h" by (rule same_payload_upd [OF relinked_same [OF h1(3)] m1(1)]) simp
  have sorted: "sort_object (Some p) cs h = Inr ?h" using m k(2) h1(1) m1(1) by (simp add: sort_object_def run_loop_def)
  have "name_key ?h cs c = name_key h cs c" if "c \<in> set ?ks" for c
    using relinked_comparable(2) [OF h1(3) \<open>comparable h ?ks\<close> seg_dom [OF k(4) [unfolded chained_def]] that, of cs] that k(6)
    by (auto simp: name_key_def name_of_def)
  then have "map (name_key ?h cs) ?ys = map (name_key h cs) ?ys" by (intro map_cong refl) simp
  then have "sorted (map (name_key ?h cs) ?ys)" using sorted_ref_sort [of "name_key h cs" ?ks] by (simp only:)
  moreover have "seg (nodes ?h) pv ?ys None" using h1(2) p by simp
  ultimately show ?thesis using sorted kids pay by (intro exI [of _ ?h]) auto
qed

text \<open>An object with the members b and a.\<close>

definition demo_members :: json_heap where
  "demo_members =
     \<lparr>nodes = [0 \<mapsto> empty_node\<lparr>n_type := cJSON_Object, n_child := Some 1\<rparr>,
               1 \<mapsto> empty_node\<lparr>n_type := cJSON_Object OR cJSON_StringIsConst, n_next := Some 2, n_prev := Some 2, n_string := Some (Const [98])\<rparr>,
               2 \<mapsto> empty_node\<lparr>n_type := cJSON_Object OR cJSON_StringIsConst, n_prev := Some 1, n_string := Some (Const [97])\<rparr>,
               3 \<mapsto> empty_node\<lparr>n_type := cJSON_True\<rparr>],
      strs = Map.empty, brk = 4, calls = 4\<rparr>"

lemma demo_members_ok: "json_ok demo_members" "kids_of demo_members 0 = [1, 2]" "can_hold demo_members 0"
proof -
  let ?kids = "\<lambda>a. if a = 0 then [1, 2] else [] :: addr list"
  have "acyclic (child_rel ?kids)"
  proof (rule wf_acyclic, rule wf_subset [OF wf_measure [of "\<lambda>a. 1 - a"]])
    show "child_rel ?kids \<subseteq> measure (\<lambda>a. 1 - a)" by (auto simp: child_rel_def split: if_splits)
  qed
  then have "links_ok (nodes demo_members) ?kids"
    by (auto simp: links_ok_def demo_members_def node_ok_def is_reference_def empty_node_def chained_def links_def is_root_def split: if_splits)
  moreover have own: "heap_str (own_value n) \<and> name_ok n \<and> owned n = []" if "nodes demo_members a = Some n" for a n
    using that by (auto simp: demo_members_def owned_def own_value_def own_name_def name_ok_def is_reference_def string_is_const_def
        empty_node_def split: if_splits)
  have "strs_ok demo_members"
    unfolding strs_ok_def
  proof (intro conjI allI impI)
    fix s
    show "strs demo_members s \<noteq> None \<longleftrightarrow> (\<exists>a n. nodes demo_members a = Some n \<and> s \<in> set (owned n))"
      using own by (auto simp: demo_members_def)
  qed (use own in auto)
  ultimately have "tree_ok demo_members ?kids" by (simp add: tree_ok_def fresh_ok_def demo_members_def)
  from json_okI [OF this] show "json_ok demo_members" "kids_of demo_members 0 = [1, 2]" by simp_all
  show "can_hold demo_members 0" by (simp add: can_hold_def demo_members_def is_reference_def empty_node_def)
qed

lemma demo_members_names: "\<forall>c \<in> set (kids_of demo_members 0). named demo_members c"
  by (simp add: demo_members_ok(2)) (simp add: named_def demo_members_def)

theorem sort_object_sorts_witness:
  "\<exists>h'. sort_object (Some 0) True demo_members = Inr h' \<and> mset (kids_of h' 0) = {#1, 2#} \<and> sorted (map (name_key h' True) (kids_of h' 0))"
  using sort_object_sorts [OF demo_members_ok(1,3) demo_members_names, of True] unfolding demo_members_ok(2) by auto

text \<open>
  The first member of the sorted chain does not point back to the last one, as the functions of \<^verbatim>\<open>cJSON.c\<close> expect.
  An item that is added afterwards is lost: the call reports success and the chain is as before.
\<close>

lemma add_after_sort_is_lost:
  "\<exists>h'. cJSONUtils_SortObjectCaseSensitive (Some 0) demo_members = Inr h' \<and> map_option n_child (nodes h' 0) = Some (Some 2) \<and>
     cJSON_AddItemToArray (Some 0) (Some 3) h' = Inr (True, h')"
  by (simp add: cJSONUtils_SortObjectCaseSensitive_def sort_object_def demo_members_def empty_node_def run_loop_def
      sort_list.simps [of _ "Some n" for n] sorted_scan.simps [of _ _ "Some n" for n] compare_strings_def get_str_def read_str_def c_string_def
      middle_loop.simps [of _ _ "Some n" for n] middle_loop.simps [of _ _ None] split_before_def merge_loop.simps [of _ "Some n" "Some m" for n m]
      merge_loop.simps [of _ "Some n" None for n] append_rest_def cJSON_AddItemToArray_def add_item_to_array_def Let_def)

end
