(* ===== verification/CjsonMerge.thy ===== *)
theory CjsonMerge
  imports CjsonCompare CjsonSort
begin

text \<open>
  The merge patches of \<^verbatim>\<open>apps/cjson/cJSON_Utils.c\<close>: \<^verbatim>\<open>merge_patch\<close> on trees in memory implements the algorithm of
  RFC 7396 on their contents.
\<close>

section \<open>The function\<close>

text \<open>The calls: a target and a patch, and the rest of the members of a patch object with the target they go to.\<close>

datatype merge_call = MergeItem "addr option" "addr option" | MergeRest "addr option" "addr option"

definition merge_start :: "(nat \<Rightarrow> bool) \<Rightarrow> addr option \<Rightarrow> json_heap \<Rightarrow> c_fault + (addr option \<times> json_heap)" where
  "merge_start al target h =
     bind_fault (cJSON_IsObject h target) (\<lambda>object.
     if object then Inr (target, h) else bind_fault (delete_item target h) (cJSON_CreateObject al))"

definition delete_named :: "bool \<Rightarrow> addr option \<Rightarrow> strptr option \<Rightarrow> json_heap \<Rightarrow> c_fault + json_heap" where
  "delete_named case_sensitive target name h =
     (if case_sensitive then cJSON_DeleteItemFromObjectCaseSensitive target name h else cJSON_DeleteItemFromObject target name h)"

definition detach_named :: "bool \<Rightarrow> addr option \<Rightarrow> strptr option \<Rightarrow> json_heap \<Rightarrow> c_fault + (addr option \<times> json_heap)" where
  "detach_named case_sensitive target name h =
     (if case_sensitive then cJSON_DetachItemFromObjectCaseSensitive target name h else cJSON_DetachItemFromObject target name h)"

partial_function (option) merge_loop :: "(nat \<Rightarrow> bool) \<Rightarrow> bool \<Rightarrow> merge_call \<Rightarrow> json_heap \<Rightarrow> (c_fault + (addr option \<times> json_heap)) option" where
  "merge_loop al case_sensitive call h =
     (case call of
        MergeItem target patch \<Rightarrow>
          bind_loop (Some (cJSON_IsObject h patch)) (\<lambda>object.
          if \<not> object then bind_loop (Some (delete_item target h)) (\<lambda>h1. Some (cJSON_Duplicate al patch True h1))
          else bind_loop (Some (merge_start al target h)) (\<lambda>(target1, h1).
               bind_loop (Some (get_node h1 patch)) (\<lambda>p. merge_loop al case_sensitive (MergeRest target1 (n_child p)) h1)))
      | MergeRest target patch_child \<Rightarrow>
          (if patch_child = None then Some (Inr (target, h))
           else bind_loop (Some (cJSON_IsNull h patch_child)) (\<lambda>remove.
                bind_loop (Some (get_node h patch_child)) (\<lambda>c.
                if remove
                then bind_loop (Some (delete_named case_sensitive target (n_string c) h)) (\<lambda>h1.
                     bind_loop (Some (get_node h1 patch_child)) (\<lambda>c1. merge_loop al case_sensitive (MergeRest target (n_next c1)) h1))
                else bind_loop (Some (detach_named case_sensitive target (n_string c) h)) (\<lambda>(replace_me, h1).
                     bind_loop (merge_loop al case_sensitive (MergeItem replace_me patch_child) h1) (\<lambda>(replacement, h2).
                     if replacement = None then Some (Inr (None, h2))
                     else bind_loop (Some (get_node h2 patch_child)) (\<lambda>c2.
                          bind_loop (Some (cJSON_AddItemToObject al target (n_string c2) replacement h2)) (\<lambda>(_, h3).
                          bind_loop (Some (get_node h3 patch_child)) (\<lambda>c3.
                          merge_loop al case_sensitive (MergeRest target (n_next c3)) h3)))))))))"

definition merge_patch :: "(nat \<Rightarrow> bool) \<Rightarrow> addr option \<Rightarrow> addr option \<Rightarrow> bool \<Rightarrow> json_heap \<Rightarrow> c_fault + (addr option \<times> json_heap)" where
  "merge_patch al target patch case_sensitive h = run_loop (merge_loop al case_sensitive (MergeItem target patch) h)"

definition cJSONUtils_MergePatch where
  "cJSONUtils_MergePatch al target patch = merge_patch al target patch False"

definition cJSONUtils_MergePatchCaseSensitive where
  "cJSONUtils_MergePatchCaseSensitive al target patch = merge_patch al target patch True"

section \<open>The algorithm on values\<close>

fun with_child :: "cJSON \<Rightarrow> cJSON list \<Rightarrow> cJSON" where
  "with_child (Item t v i d s _) ks = Item t v i d s ks"

fun set_name :: "u8 list \<Rightarrow> cJSON \<Rightarrow> cJSON" where
  "set_name s (Item t v i d _ ks) = Item (t AND NOT cJSON_StringIsConst) v i d (Some s) ks"

fun drop_first :: "('a \<Rightarrow> bool) \<Rightarrow> 'a list \<Rightarrow> 'a list" where
  "drop_first P [] = []"
| "drop_first P (x # xs) = (if P x then xs else x # drop_first P xs)"

definition without :: "bool \<Rightarrow> u8 list \<Rightarrow> cJSON list \<Rightarrow> cJSON list" where
  "without cs s ks = (if find_member cs s ks = None then ks else drop_first (called cs s) ks)"

definition empty_object :: cJSON where
  "empty_object = Item cJSON_Object None 0 (Finite False 0) None []"

definition merge_base :: "cJSON option \<Rightarrow> cJSON" where
  "merge_base t = (case t of None \<Rightarrow> empty_object | Some c \<Rightarrow> if kind_of c = cJSON_Object then c else empty_object)"

text \<open>
  A patch that is no object replaces the target. A member of a patch object that is null removes the member of its
  name; any other is merged with that member, and what results goes to the end.
\<close>

function merged :: "bool \<Rightarrow> cJSON option \<Rightarrow> cJSON \<Rightarrow> cJSON" and merged_members :: "bool \<Rightarrow> cJSON list \<Rightarrow> cJSON list \<Rightarrow> cJSON list" where
  "merged cs t p =
     (if kind_of p \<noteq> cJSON_Object then p
      else with_child (merge_base t) (merged_members cs (child (merge_base t)) (child p)))"
| "merged_members cs ks [] = ks"
| "merged_members cs ks (p # ps) =
     (let s = the (item_string p)
      in merged_members cs
           (if kind_of p = cJSON_NULL then without cs s ks
            else without cs s ks @ [set_name s (merged cs (find_member cs s ks) p)]) ps)"
  by pat_completeness auto
termination
proof (relation "measure (\<lambda>x. case x of Inl (cs, t, p) \<Rightarrow> 2 * size p | Inr (cs, ks, ps) \<Rightarrow> 2 * size_list size ps + 1)")
  show "(Inr (cs, child (merge_base t), child p), Inl (cs, t, p)) \<in> measure (\<lambda>x. case x of Inl (cs, t, p) \<Rightarrow> 2 * size p | Inr (cs, ks, ps) \<Rightarrow> 2 * size_list size ps + 1)"
    for cs t p by (cases p) simp
qed simp_all

section \<open>The contents of an item\<close>

lemma grown_unique: "grown kids t \<Longrightarrow> grown kids u \<Longrightarrow> pt_root t = pt_root u \<Longrightarrow> t = u"
proof (induction t arbitrary: u)
  case (PT a ts)
  obtain us where u: "u = PT a us" using PT.prems(3) by (cases u) simp
  have "map pt_root ts = map pt_root us" using PT.prems(1,2) by (simp add: u)
  then have "list_all2 (\<lambda>t u. pt_root t = pt_root u) ts us" by (simp add: list_all2_conv_all_nth list_eq_iff_nth_eq)
  then have "list_all2 (=) ts us" by (rule list.rel_mono_strong) (use PT u in auto)
  then show ?case by (simp add: u list.rel_eq)
qed

definition json_of :: "json_heap \<Rightarrow> addr \<Rightarrow> cJSON" where
  "json_of h a = (THE c. contents h a c)"

lemma contents_json:
  assumes "json_ok h"
  shows "contents h a c \<longleftrightarrow> c = json_of h a"
proof -
  obtain t where t: "pt_root t = a" "grown (kids_of h) t" using grown_exists [OF tree_ok_wf] assms unfolding json_ok_def by blast
  then obtain ts where ts: "grown (kids_of h) (PT a ts)" by (cases t) auto
  have "contents h a d \<longleftrightarrow> d = item_of h (PT a ts)" for d
    unfolding contents_def using ts grown_unique [OF ts] by (metis ptree.sel(1))
  then have "contents h a = (\<lambda>d. d = item_of h (PT a ts))" by blast
  then show ?thesis unfolding json_of_def by (simp only: the_eq_trivial)
qed

definition node_item :: "json_heap \<Rightarrow> addr \<Rightarrow> cJSON list \<Rightarrow> cJSON" where
  "node_item h a cs =
     (let n = the (nodes h a) in Item (n_type n) (text_of h (n_valuestring n)) (n_valueint n) (n_valuedouble n) (text_of h (n_string n)) cs)"

lemma json_of_unfold:
  assumes "json_ok h"
  shows "json_of h a = node_item h a (map (json_of h) (kids_of h a))"
proof -
  obtain ts where ts: "grown (kids_of h) (PT a ts)" "json_of h a = item_of h (PT a ts)"
    using contents_json [OF assms, of a "json_of h a"] unfolding contents_def by blast
  have "item_of h t = json_of h (pt_root t)" if "t \<in> set ts" for t
  proof -
    obtain b us where t: "t = PT b us" by (cases t)
    have "grown (kids_of h) (PT b us)" using that ts(1) unfolding t grown.simps(1) [of _ a] by blast
    then have "contents h b (item_of h (PT b us))" unfolding contents_def by blast
    then show ?thesis using contents_json [OF assms] t by simp
  qed
  then have "map (item_of h) ts = map (json_of h) (kids_of h a)" using ts(1) by simp
  then show ?thesis using ts(2) by (simp add: node_item_def Let_def)
qed

lemma json_fields:
  assumes "json_ok h" "nodes h a = Some n"
  shows "kind_of (json_of h a) = n_type n AND 255" "item_string (json_of h a) = text_of h (n_string n)"
    "child (json_of h a) = map (json_of h) (kids_of h a)"
  using assms by (simp_all add: json_of_unfold [of h a] node_item_def Let_def)

section \<open>What a step leaves alone\<close>

definition kept_node :: "json_heap \<Rightarrow> json_heap \<Rightarrow> addr \<Rightarrow> bool" where
  "kept_node h h' x \<longleftrightarrow>
     (\<exists>n n'. nodes h x = Some n \<and> nodes h' x = Some n' \<and> payload n' = payload n \<and> (\<forall>s \<in> set (owned n). strs h' s = strs h s))"

definition same_on :: "addr set \<Rightarrow> json_heap \<Rightarrow> json_heap \<Rightarrow> bool" where
  "same_on A h h' \<longleftrightarrow> (\<forall>x \<in> A. kept_node h h' x \<and> kids_of h' x = kids_of h x)"

definition kept :: "addr set \<Rightarrow> json_heap \<Rightarrow> json_heap \<Rightarrow> bool" where
  "kept A h h' \<longleftrightarrow> same_on A h h' \<and> (\<forall>x \<in> A. is_root (kids_of h') x = is_root (kids_of h) x)"

lemma kept_node_trans: "kept_node h h1 x \<Longrightarrow> kept_node h1 h2 x \<Longrightarrow> kept_node h h2 x"
proof -
  assume a: "kept_node h h1 x" "kept_node h1 h2 x"
  obtain n n1 where n: "nodes h x = Some n" "nodes h1 x = Some n1" "payload n1 = payload n" "\<forall>s \<in> set (owned n). strs h1 s = strs h s"
    using a(1) by (auto simp: kept_node_def)
  obtain n2 where n2: "nodes h2 x = Some n2" "payload n2 = payload n1" "\<forall>s \<in> set (owned n1). strs h2 s = strs h1 s"
    using a(2) n(2) by (auto simp: kept_node_def)
  show "kept_node h h2 x" using n n2 payload_fields(8) [OF n(3)] by (simp add: kept_node_def)
qed

lemma kept_trans: "kept A h h1 \<Longrightarrow> kept A h1 h2 \<Longrightarrow> kept A h h2"
  unfolding kept_def same_on_def using kept_node_trans by metis

lemma kept_mono: "kept A h h' \<Longrightarrow> B \<subseteq> A \<Longrightarrow> kept B h h'"
  by (auto simp: kept_def same_on_def)

lemma kept_refl: "A \<subseteq> dom (nodes h) \<Longrightarrow> kept A h h"
  by (auto simp: kept_def same_on_def kept_node_def)

lemma same_kept: "same_payload h h' \<Longrightarrow> nodes h x \<noteq> None \<Longrightarrow> kept_node h h' x"
  by (auto simp: kept_node_def same_payload_def) (metis (no_types, lifting) map_option_eq_Some)

lemma kept_text:
  assumes "json_ok h" "kept_node h h' x" "nodes h x = Some n" "\<not> is_reference n"
  shows "text_of h' (n_valuestring n) = text_of h (n_valuestring n)" "text_of h' (n_string n) = text_of h (n_string n)"
    "readable h' (n_string n)"
proof -
  have t: "tree_ok h (kids_of h)" using assms(1) by (simp add: json_ok_def)
  have o: "\<forall>s \<in> set (owned n). strs h' s = strs h s" using assms(2,3) by (auto simp: kept_node_def)
  have nm: "name_ok n" using tree_ok_links(2) [OF t] assms(3) unfolding strs_ok_def by blast
  note r = own_readable [OF t assms(4,3)]
  have v: "strs h' b = strs h b" if "n_valuestring n = Some (Heap b)" for b
    using o that assms(4) by (simp add: owned_def own_value_def)
  have w: "strs h' b = strs h b" if "n_string n = Some (Heap b)" for b
    using o that nm by (auto simp: owned_def own_name_def name_ok_def)
  show "text_of h' (n_valuestring n) = text_of h (n_valuestring n)"
    using v by (cases "n_valuestring n" rule: block_of.cases) (auto simp: text_of_def str_value_def)
  show "text_of h' (n_string n) = text_of h (n_string n)" "readable h' (n_string n)"
    using w r(2) by (cases "n_string n" rule: block_of.cases; auto simp: text_of_def str_value_def readable_def)+
qed

lemma kept_item:
  assumes "json_ok h" "kept_node h h' x" "\<forall>n. nodes h x = Some n \<longrightarrow> \<not> is_reference n"
  shows "node_item h' x cs = node_item h x cs"
proof -
  obtain n n' where n: "nodes h x = Some n" "nodes h' x = Some n'" "payload n' = payload n" using assms(2) by (auto simp: kept_node_def)
  have r: "\<not> is_reference n" using assms(3) n(1) by blast
  show ?thesis using n(1,2) payload_fields [OF n(3)] kept_text [OF assms(1,2) n(1) r] by (simp add: node_item_def Let_def)
qed

text \<open>The items of a tree.\<close>

abbreviation tree_at :: "json_heap \<Rightarrow> addr \<Rightarrow> addr set" where
  "tree_at h a \<equiv> {x. below (kids_of h) x a}"

lemma tree_at_kid: "x \<in> tree_at h a \<Longrightarrow> c \<in> set (kids_of h x) \<Longrightarrow> c \<in> tree_at h a"
  using below_trans [of "kids_of h" c x a] by (auto simp: below_def child_rel_def)

lemma same_closed:
  assumes "json_ok h" "json_ok h'" "same_on A h h'" "a \<in> A" "\<And>x c. x \<in> A \<Longrightarrow> c \<in> set (kids_of h x) \<Longrightarrow> c \<in> A"
  shows "tree_at h' a = tree_at h a" "(\<And>x n. x \<in> A \<Longrightarrow> nodes h x = Some n \<Longrightarrow> \<not> is_reference n) \<Longrightarrow> json_of h' a = json_of h a"
proof -
  have wf: "wf (child_rel (kids_of h))" using tree_ok_wf assms(1) by (simp add: json_ok_def)
  have k: "kids_of h' x = kids_of h x" if "x \<in> A" for x using assms(3) that by (simp add: same_on_def)
  show "tree_at h' a = tree_at h a" using wf assms(4)
  proof (induction a rule: wf_induct_rule)
    case (less a)
    have "below (kids_of h') x c \<longleftrightarrow> below (kids_of h) x c" if "c \<in> set (kids_of h a)" for x c
      using less.IH [of c] assms(5) [OF less.prems that] that by (auto simp: child_rel_def)
    then show ?case using k [OF less.prems] below_cases [of "kids_of h'" _ a] below_cases [of "kids_of h" _ a] by auto
  qed
  show "json_of h' a = json_of h a" if clean: "\<And>x n. x \<in> A \<Longrightarrow> nodes h x = Some n \<Longrightarrow> \<not> is_reference n"
    using wf assms(4)
  proof (induction a rule: wf_induct_rule)
    case (less a)
    have "map (json_of h') (kids_of h a) = map (json_of h) (kids_of h a)"
      using less.IH assms(5) [OF less.prems] by (auto simp: child_rel_def)
    moreover have "node_item h' a cs = node_item h a cs" for cs
      using kept_item [OF assms(1)] assms(3) less.prems clean by (auto simp: same_on_def)
    ultimately show ?case
      unfolding json_of_unfold [OF assms(2), of a] json_of_unfold [OF assms(1), of a] k [OF less.prems] by (simp only:)
  qed
qed

lemma same_tree:
  assumes "json_ok h" "json_ok h'" "same_on (tree_at h a) h h'" "no_references h a"
  shows "tree_at h' a = tree_at h a" "json_of h' a = json_of h a" "no_references h' a"
proof -
  have c: "\<And>x n. x \<in> tree_at h a \<Longrightarrow> nodes h x = Some n \<Longrightarrow> \<not> is_reference n" using assms(4) by (simp add: no_references_def)
  show t: "tree_at h' a = tree_at h a"
    by (rule same_closed(1) [OF assms(1-3)]) (use tree_at_kid in auto)
  show "json_of h' a = json_of h a"
    by (rule same_closed(2) [OF assms(1-3)]) (use tree_at_kid c in auto)
  show "no_references h' a"
    unfolding no_references_def
  proof (intro allI impI, elim conjE)
    fix x n' assume x: "below (kids_of h') x a" "nodes h' x = Some n'"
    then have m: "x \<in> tree_at h a" using t by blast
    then obtain n where "nodes h x = Some n" "payload n' = payload n" using assms(3) x(2) by (auto simp: same_on_def kept_node_def)
    then show "\<not> is_reference n'" using c [OF m] payload_fields(6) by metis
  qed
qed

text \<open>Trees of different roots have no item in common, and the children of a root are not above it.\<close>

lemma trees_nest:
  assumes "json_ok h" "x \<in> tree_at h a" "x \<in> tree_at h b"
  shows "a \<in> tree_at h b \<or> b \<in> tree_at h a"
proof -
  have "kids_ok (kids_of h)" using tree_ok_links(4) assms(1) by (simp add: json_ok_def)
  then have "single_valued (child_rel (kids_of h))" unfolding single_valued_def child_rel_def kids_ok_def by blast
  from single_valued_confluent [OF this] show ?thesis using assms(2,3) unfolding below_def by blast
qed

lemma root_below: "is_root (kids_of h) a \<Longrightarrow> a \<in> tree_at h b \<Longrightarrow> a = b"
  unfolding below_def by (auto elim: converse_rtranclE simp: child_rel_def is_root_def)

lemma roots_apart:
  assumes "json_ok h" "is_root (kids_of h) a" "is_root (kids_of h) b" "x \<in> tree_at h a" "x \<in> tree_at h b"
  shows "a = b"
  using trees_nest [OF assms(1,4,5)] root_below assms(2,3) by metis

lemma kid_tree:
  assumes "json_ok h" "is_root (kids_of h) a" "k \<in> set (kids_of h a)"
  shows "tree_at h k \<subseteq> tree_at h a - {a}"
proof
  fix x assume x: "x \<in> tree_at h k"
  have "k \<in> tree_at h a" using tree_at_kid [of a h a k] assms(3) by simp
  then have "x \<in> tree_at h a" using x below_trans by blast
  moreover have "x \<noteq> a"
  proof
    assume "x = a"
    then have "below (kids_of h) a k" using x by simp
    moreover have "below (kids_of h) k a" using \<open>k \<in> tree_at h a\<close> by simp
    ultimately have "a = k" using below_antisym [of "kids_of h" a k] tree_ok_links(4) assms(1) by (simp add: json_ok_def)
    then show False using assms(2,3) by (simp add: is_root_def)
  qed
  ultimately show "x \<in> tree_at h a - {a}" by blast
qed

section \<open>The steps of a merge\<close>

text \<open>The items outside of a tree; a tree with its contents, and items that are outside of it.\<close>

definition outside :: "json_heap \<Rightarrow> addr option \<Rightarrow> addr set" where
  "outside h t = {x. nodes h x \<noteq> None \<and> (\<forall>a. t = Some a \<longrightarrow> x \<notin> tree_at h a)}"

definition holds_tree :: "json_heap \<Rightarrow> addr set \<Rightarrow> addr \<Rightarrow> cJSON \<Rightarrow> bool" where
  "holds_tree h F a c \<longleftrightarrow>
     json_ok h \<and> nodes h a \<noteq> None \<and> is_root (kids_of h) a \<and> no_references h a \<and> json_of h a = c \<and> F \<subseteq> outside h (Some a)"

lemma holds_kept:
  assumes "holds_tree h F a c" "json_ok h'" "kept (tree_at h a \<union> F) h h'"
  shows "holds_tree h' F a c"
proof -
  have h: "json_ok h" "nodes h a \<noteq> None" "is_root (kids_of h) a" "no_references h a" "json_of h a = c" "F \<subseteq> outside h (Some a)"
    using assms(1) by (simp_all add: holds_tree_def)
  have so: "same_on (tree_at h a) h h'" using kept_mono [OF assms(3)] by (simp add: kept_def)
  note st = same_tree [OF h(1) assms(2) so h(4)]
  have alive: "nodes h' x \<noteq> None" if "x \<in> tree_at h a \<union> F" for x
    using assms(3) that unfolding kept_def same_on_def kept_node_def by blast
  have "is_root (kids_of h') a" using assms(3) h(3) by (simp add: kept_def)
  moreover have "F \<subseteq> outside h' (Some a)" using h(6) alive st(1) by (auto simp: outside_def)
  ultimately show ?thesis using assms(2) alive [of a] st h(5) by (simp add: holds_tree_def)
qed

lemma holds_delete:
  assumes "holds_tree h F a c"
  obtains h' where "delete_item (Some a) h = Inr h'" "json_ok h'" "kept (outside h (Some a)) h h'"
proof -
  have h: "json_ok h" "nodes h a \<noteq> None" "is_root (kids_of h) a" using assms by (simp_all add: holds_tree_def)
  have t: "tree_ok h (kids_of h)" using h(1) by (simp add: json_ok_def)
  let ?h = "prune h (tree_at h a)"
  note d = root_delete [OF h]
  have "kept_node h ?h x \<and> kids_of ?h x = kids_of h x \<and> is_root (kids_of ?h) x = is_root (kids_of h) x" if x: "x \<in> outside h (Some a)" for x
  proof (intro conjI)
    obtain n where n: "nodes h x = Some n" "x \<notin> tree_at h a" using x by (auto simp: outside_def)
    have "s \<notin> blocks_in h (tree_at h a)" if s: "s \<in> set (owned n)" for s
    proof
      assume "s \<in> blocks_in h (tree_at h a)"
      then obtain y where y: "y \<in> tree_at h a" "s \<in> set (owned (the (nodes h y)))" by (auto simp: blocks_in_def)
      obtain m where m: "nodes h y = Some m" using below_dom [OF t h(2)] y(1) by blast
      have "set (owned n) \<inter> set (owned m) = {}"
        using tree_ok_links(2) [OF t] n y(1) m unfolding strs_ok_def by blast
      then show False using s y(2) m by auto
    qed
    then show "kept_node h ?h x" using n by (auto simp: kept_node_def restrict_map_def)
    show "kids_of ?h x = kids_of h x" using n(2) d(3) by (simp add: uproot_def)
    have "x \<notin> set (kids_of h y)" if "below (kids_of h) y a" for y using n(2) tree_at_kid [of y h a x] that by auto
    then show "is_root (kids_of ?h) x = is_root (kids_of h) x" unfolding d(3) is_root_def uproot_def by auto
  qed
  then have "kept (outside h (Some a)) h ?h" by (simp add: kept_def same_on_def)
  then show ?thesis using that d(1,2) by blast
qed

text \<open>Taking a child out of a tree.\<close>

lemma holds_detach:
  assumes "holds_tree h F a c" "q \<in> set (kids_of h a)" "detached h a (Some q) h1"
  shows "holds_tree h1 F a (with_child c (map (json_of h) (remove1 q (kids_of h a))))" "holds_tree h1 (F \<union> tree_at h1 a) q (json_of h q)" "kept F h h1"
proof -
  have h: "json_ok h" "nodes h a \<noteq> None" "is_root (kids_of h) a" "no_references h a" "json_of h a = c" "F \<subseteq> outside h (Some a)"
    using assms(1) by (simp_all add: holds_tree_def)
  have d: "json_ok h1" "same_payload h h1" "kids_of h1 = (kids_of h)(a := remove1 q (kids_of h a))" "is_root (kids_of h1) q"
    using assms(3) unfolding detached_def option.case by blast+
  have t: "tree_ok h (kids_of h)" using h(1) by (simp add: json_ok_def)
  have sub: "set (kids_of h1 x) \<subseteq> set (kids_of h x)" for x using d(3) set_remove1_subset [of q "kids_of h a"] by auto
  have alive: "nodes h x \<noteq> None \<Longrightarrow> nodes h1 x \<noteq> None" for x using same_payload_dom [OF d(2)] by simp
  have alive': "x \<in> tree_at h a \<Longrightarrow> nodes h x \<noteq> None" for x using below_dom [OF t h(2)] by blast
  have node: "kept_node h h1 x" if "x \<in> tree_at h a \<union> F" for x using same_kept [OF d(2)] alive' h(6) that by (auto simp: outside_def)
  have kid: "tree_at h1 k = tree_at h k \<and> json_of h1 k = json_of h k \<and> no_references h1 k" if k: "k \<in> set (kids_of h a)" for k
  proof -
    note kt = kid_tree [OF h(1,3) k]
    have "same_on (tree_at h k) h h1" using kt node d(3) by (auto simp: same_on_def)
    moreover have "no_references h k" using h(4) kt by (auto simp: no_references_def)
    ultimately show ?thesis using same_tree [OF h(1) d(1)] by blast
  qed
  have root: "is_root (kids_of h1) a" using h(3) sub unfolding is_root_def by blast
  have up: "tree_at h1 a \<subseteq> tree_at h a"
  proof
    fix x assume "x \<in> tree_at h1 a"
    then have "x = a \<or> (\<exists>k \<in> set (kids_of h1 a). x \<in> tree_at h1 k)" using below_cases [of "kids_of h1" x a] by simp
    then show "x \<in> tree_at h a"
    proof
      assume "\<exists>k \<in> set (kids_of h1 a). x \<in> tree_at h1 k"
      then obtain k where "k \<in> set (kids_of h a)" "x \<in> tree_at h1 k" using sub by blast
      then show ?thesis using kid kid_tree [OF h(1,3)] by blast
    qed simp
  qed
  have clean: "no_references h1 x" if x: "tree_at h1 x \<subseteq> tree_at h a" for x
    unfolding no_references_def
  proof (intro allI impI, elim conjE)
    fix y n' assume y: "below (kids_of h1) y x" "nodes h1 y = Some n'"
    then have y': "y \<in> tree_at h a" using x by blast
    then obtain n where "nodes h y = Some n" "payload n' = payload n" using node y(2) unfolding kept_node_def by fastforce
    then show "\<not> is_reference n'" using h(4) y' payload_fields(6) unfolding no_references_def by blast
  qed
  have "map (json_of h1) (remove1 q (kids_of h a)) = map (json_of h) (remove1 q (kids_of h a))"
    using kid set_remove1_subset [of q "kids_of h a"] by auto
  moreover have "\<forall>n. nodes h a = Some n \<longrightarrow> \<not> is_reference n" using h(4) below_refl unfolding no_references_def by blast
  then have "node_item h1 a cs = node_item h a cs" for cs by (intro kept_item [OF h(1) node]) simp_all
  moreover have "kids_of h1 a = remove1 q (kids_of h a)" using d(3) by simp
  ultimately have "json_of h1 a = with_child c (map (json_of h) (remove1 q (kids_of h a)))"
    unfolding json_of_unfold [OF d(1), of a] h(5) [symmetric] json_of_unfold [OF h(1), of a] by (simp add: node_item_def Let_def)
  moreover have "F \<subseteq> outside h1 (Some a)" using h(6) alive up by (auto simp: outside_def)
  ultimately show "holds_tree h1 F a (with_child c (map (json_of h) (remove1 q (kids_of h a))))"
    using d(1) alive [OF h(2)] root clean [OF up] by (simp add: holds_tree_def)
  have "q \<in> tree_at h q" by simp
  then have q: "q \<in> tree_at h a" "q \<noteq> a" using kid_tree [OF h(1,3) assms(2)] by blast+
  have "x \<notin> tree_at h1 q" if "x \<in> tree_at h1 a" for x using roots_apart [OF d(1) root d(4) that] q(2) by blast
  moreover have "x \<notin> tree_at h1 q" if "x \<in> F" for x
    using kid [OF assms(2)] kid_tree [OF h(1,3) assms(2)] h(6) that by (auto simp: outside_def)
  ultimately have "F \<union> tree_at h1 a \<subseteq> outside h1 (Some q)" using alive alive' up h(6) by (auto simp: outside_def)
  then show "holds_tree h1 (F \<union> tree_at h1 a) q (json_of h q)"
    using d(1,4) alive [OF alive' [OF q(1)]] kid [OF assms(2)] by (simp add: holds_tree_def)
  have "kids_of h1 x = kids_of h x \<and> is_root (kids_of h1) x = is_root (kids_of h) x" if x: "x \<in> F" for x
  proof -
    have "x \<noteq> a" "x \<noteq> q" using h(6) x q(1) by (auto simp: outside_def)
    then show ?thesis using d(3) in_set_remove1 [of x q "kids_of h a"] by (auto simp: is_root_def)
  qed
  then show "kept F h h1" using node by (simp add: kept_def same_on_def)
qed

text \<open>Putting a root under a name into a tree.\<close>

lemma renamed_kept:
  assumes "tree_ok h kids" "renamed h i s h'" "x \<noteq> i" "nodes h x = Some n"
  shows "kept_node h h' x"
proof -
  obtain n' where n': "nodes h' x = Some n'" "payload n' = payload n"
    using assms(2-4) unfolding renamed_def by (metis (no_types, lifting) map_option_eq_Some)
  obtain k where k: "nodes h i = Some k" "\<forall>b. b \<notin> set (block_of (own_name k)) \<longrightarrow> strs h b \<noteq> None \<longrightarrow> strs h' b = strs h b"
    using assms(2) unfolding renamed_def by blast
  have "set (owned n) \<inter> set (owned k) = {}" "set (owned n) \<subseteq> dom (strs h)"
    using tree_ok_links(2) [OF assms(1)] assms(3,4) k(1) unfolding strs_ok_def by blast+
  then have "\<forall>b \<in> set (owned n). strs h' b = strs h b" using k(2) by (auto simp: owned_def)
  then show ?thesis using n' assms(4) by (simp add: kept_node_def)
qed

lemma renamed_item:
  assumes "json_ok h" "renamed h i s h'" "nodes h i = Some n" "\<not> is_reference n"
    and "map_option n_type (nodes h' i) = Some (n_type n AND NOT cJSON_StringIsConst)"
  shows "node_item h' i cs = set_name (c_string s) (node_item h i cs)"
proof -
  have t: "tree_ok h (kids_of h)" using assms(1) by (simp add: json_ok_def)
  obtain n' q where n': "nodes h' i = Some n'" "n_string n' = Some q" "readable h' (Some q)" "str_value h' q = s"
    "payload (n'\<lparr>n_string := n_string n, n_type := n_type n\<rparr>) = payload n"
    "\<forall>b. b \<notin> set (block_of (own_name n)) \<longrightarrow> strs h b \<noteq> None \<longrightarrow> strs h' b = strs h b"
    using assms(2,3) unfolding renamed_def by auto
  have f: "n_valuestring n' = n_valuestring n" "n_valueint n' = n_valueint n" "n_valuedouble n' = n_valuedouble n"
    using payload_fields(2,4,5) [OF n'(5)] by simp_all
  have r: "readable h (n_valuestring n)" by (rule own_readable [OF t assms(4,3)])
  have "distinct (owned n)" using tree_ok_links(2) [OF t] assms(3) unfolding strs_ok_def by blast
  then have "b \<notin> set (block_of (own_name n))" if "n_valuestring n = Some (Heap b)" for b
    using that assms(4) by (auto simp: owned_def own_value_def)
  then have "text_of h' (n_valuestring n) = text_of h (n_valuestring n)"
    using r n'(6) by (cases "n_valuestring n" rule: block_of.cases) (auto simp: text_of_def str_value_def readable_def)
  moreover have "n_type n' = n_type n AND NOT cJSON_StringIsConst" using assms(5) n'(1) by simp
  ultimately show ?thesis using n'(1,2,4) assms(3) f by (simp add: node_item_def Let_def text_of_def)
qed

lemma holds_add:
  assumes "holds_tree h F a c" "holds_tree h (F \<union> tree_at h a) i d" "readable h (Some key)" "\<forall>k. al k"
  obtains h' where "cJSON_AddItemToObject al (Some a) (Some key) (Some i) h = Inr (True, h')"
    "holds_tree h' F a (with_child c (child c @ [set_name (c_string (str_value h key)) d]))" "kept F h h'"
proof -
  let ?s = "c_string (str_value h key)"
  have h: "json_ok h" "nodes h a \<noteq> None" "is_root (kids_of h) a" "no_references h a" "json_of h a = c" "F \<subseteq> outside h (Some a)"
    using assms(1) by (simp_all add: holds_tree_def)
  have i: "nodes h i \<noteq> None" "is_root (kids_of h) i" "no_references h i" "json_of h i = d" "F \<union> tree_at h a \<subseteq> outside h (Some i)"
    using assms(2) by (simp_all add: holds_tree_def)
  have t: "tree_ok h (kids_of h)" using h(1) by (simp add: json_ok_def)
  obtain m n where mn: "nodes h a = Some m" "nodes h i = Some n" using h(2) i(1) by blast
  have m: "nodes h a = Some m" "\<not> is_reference m" and n: "nodes h i = Some n" "\<not> is_reference n"
    using mn h(4) i(3) below_refl unfolding no_references_def by blast+
  have "a \<in> outside h (Some i)" using i(5) by (rule subsetD) simp
  then have ai: "\<not> below (kids_of h) a i" by (simp add: outside_def)
  have "\<not> al (calls h) \<Longrightarrow> False" using assms(4) by blast
  then obtain h' where h': "add_item_to_object al (Some a) (Some key) (Some i) False h = Inr (True, h')" "tree_ok h' ((kids_of h)(a := kids_of h a @ [i]))"
    "renamed h i ?s h'" "map_option n_type (nodes h' i) = Some (n_type n AND NOT cJSON_StringIsConst)"
    using add_item_to_object_ok [OF t m n(1) i(2) ai assms(3), of False al] by auto
  have j: "json_ok h'" "kids_of h' = (kids_of h)(a := kids_of h a @ [i])" using json_okI [OF h'(2)] by simp_all
  have alive: "nodes h x \<noteq> None" if "x \<in> tree_at h a \<union> tree_at h i \<union> F" for x
    using that below_dom [OF t h(2)] below_dom [OF t i(1)] h(6) by (auto simp: outside_def)
  have apart: "x \<notin> tree_at h i" if "x \<in> tree_at h a \<union> F" for x using i(5) that by (auto simp: outside_def)
  have node: "kept_node h h' x" if "x \<in> tree_at h a \<union> tree_at h i \<union> F" "x \<noteq> i" for x
    using renamed_kept [OF t h'(3) that(2)] alive [OF that(1)] by blast
  have kid: "tree_at h' k = tree_at h k \<and> json_of h' k = json_of h k \<and> no_references h' k"
    if k: "k \<in> set (kids_of h b)" and b: "b = a \<or> b = i" for k b
  proof -
    have kt: "tree_at h k \<subseteq> tree_at h b - {b}" using kid_tree [OF h(1) _ k] b h(3) i(2) by auto
    have "i \<notin> tree_at h k" "a \<notin> tree_at h k" using kt b apart [of i] apart [of a] by auto
    moreover have "tree_at h k \<subseteq> tree_at h a \<union> tree_at h i" using kt b by auto
    ultimately have "same_on (tree_at h k) h h'" using node j(2) unfolding same_on_def by (auto simp: subset_iff)
    moreover have "no_references h k" using h(4) i(3) kt b by (auto simp: no_references_def)
    ultimately show ?thesis using same_tree [OF h(1) j(1)] by blast
  qed
  have ne: "a \<noteq> i" using ai by auto
  have ki: "kids_of h' i = kids_of h i" "kids_of h' a = kids_of h a @ [i]" using ne j(2) by simp_all
  have "json_of h' i = set_name ?s d"
  proof -
    have "map (json_of h') (kids_of h i) = map (json_of h) (kids_of h i)" using kid [of _ i] by simp
    moreover have "c_string ?s = ?s" by (simp add: c_string_def)
    ultimately show ?thesis
      unfolding i(4) [symmetric] json_of_unfold [OF j(1), of i] json_of_unfold [OF h(1), of i] ki(1) renamed_item [OF h(1) h'(3) n h'(4)] by (simp only:)
  qed
  moreover have "map (json_of h') (kids_of h a) = map (json_of h) (kids_of h a)" using kid [of _ a] by simp
  moreover have "node_item h' a cs = node_item h a cs" for cs using m ne by (intro kept_item [OF h(1) node]) simp_all
  ultimately have json: "json_of h' a = with_child c (child c @ [set_name ?s d])"
    unfolding json_of_unfold [OF j(1), of a] h(5) [symmetric] json_of_unfold [OF h(1), of a] ki(2) by (simp add: node_item_def Let_def)
  have sub: "tree_at h' k \<subseteq> tree_at h b" if "k \<in> set (kids_of h b)" "b = a \<or> b = i" for k b
    using kid [OF that] kid_tree [OF h(1) _ that(1)] that(2) h(3) i(2) by auto
  have ti: "tree_at h' i \<subseteq> tree_at h i"
  proof
    fix x assume "x \<in> tree_at h' i"
    then have "x = i \<or> (\<exists>k \<in> set (kids_of h i). x \<in> tree_at h' k)" using below_cases [of "kids_of h'" x i] ki(1) by auto
    then show "x \<in> tree_at h i" using sub [of _ i] below_refl by blast
  qed
  have ta: "tree_at h' a \<subseteq> tree_at h a \<union> tree_at h i"
  proof
    fix x assume "x \<in> tree_at h' a"
    then have "x = a \<or> (\<exists>k \<in> set (kids_of h a). x \<in> tree_at h' k) \<or> x \<in> tree_at h' i" using below_cases [of "kids_of h'" x a] ki(2) by auto
    then show "x \<in> tree_at h a \<union> tree_at h i" using sub [of _ a] ti below_refl by blast
  qed
  have ref: "\<not> is_reference n'" if x: "x \<in> tree_at h a \<union> tree_at h i" "nodes h' x = Some n'" for x n'
  proof (cases "x = i")
    case True
    then have "n_type n' = n_type n AND NOT cJSON_StringIsConst" using h'(4) x(2) by simp
    then have "n_type n' AND cJSON_IsReference = n_type n AND cJSON_IsReference" by (simp only: const_flag(2))
    then show ?thesis using n(2) by (simp add: is_reference_def)
  next
    case False
    then obtain k where "nodes h x = Some k" "payload n' = payload k" using node [of x] x unfolding kept_node_def by fastforce
    then show ?thesis using h(4) i(3) x(1) payload_fields(6) unfolding no_references_def by blast
  qed
  have no_ref: "no_references h' a" using ta ref unfolding no_references_def by blast
  have out: "nodes h' x \<noteq> None \<and> x \<noteq> a \<and> x \<noteq> i \<and> x \<notin> tree_at h' a" if x: "x \<in> F" for x
  proof -
    have "x \<notin> tree_at h a" "x \<notin> tree_at h i" using x h(6) apart [of x] by (auto simp: outside_def)
    then have "x \<noteq> a" "x \<noteq> i" "x \<notin> tree_at h' a" using ta below_refl by blast+
    then show ?thesis using node [of x] x by (auto simp: kept_node_def)
  qed
  then have fo: "F \<subseteq> outside h' (Some a)" by (auto simp: outside_def)
  have ra: "nodes h' a \<noteq> None" "is_root (kids_of h') a" using node [of a] ne h(3) j(2) by (auto simp: kept_node_def is_root_def)
  have ho: "holds_tree h' F a (with_child c (child c @ [set_name ?s d]))" using j(1) ra no_ref json fo by (simp add: holds_tree_def)
  have "kept F h h'"
    unfolding kept_def same_on_def using out node j(2) by (auto simp: is_root_def)
  then show ?thesis using that h'(1) ho by (simp add: cJSON_AddItemToObject_def)
qed

text \<open>A new tree beside the others.\<close>

lemma holds_copy:
  assumes "json_ok h" "nodes h p \<noteq> None" "no_references h p" "\<forall>k. al k"
  obtains b h' where "cJSON_Duplicate al (Some p) True h = Inr (Some b, h')" "holds_tree h' (dom (nodes h)) b (json_of h p)" "kept (dom (nodes h)) h h'"
proof (cases rule: duplicate_cases [OF assms(1,2) _ assms(3), of "json_of h p" al])
  case 1
  show ?case using contents_json [OF assms(1)] by blast
next
  case (2 h')
  then show ?thesis using assms(4) by (simp add: gave_up_def)
next
  case (3 b h')
  have co: "contents h p (json_of h p)" using contents_json [OF assms(1)] by blast
  note c = copied_ok [OF assms(1,2) co assms(3) 3(2)]
  have t: "tree_ok h (kids_of h)" using assms(1) by (simp add: json_ok_def)
  obtain g kids where g: "h' = beside h g" "newer h g" "whole g kids b" using 3(2) unfolding copied_def by blast
  note w = whole_facts [OF g(3)] and fr = tree_ok_links(3) [OF t]
  have k: "kids_of h' = both (kids_of h) kids" using json_okI [OF tree_beside [OF t w(1) g(2)]] g(1) by simp
  note bs = both_simps [OF t w(1) newer_dom(1) [OF fr g(2)]]
  have "kept_node h h' x" if x: "x \<in> dom (nodes h)" for x
  proof -
    obtain n where n: "nodes h x = Some n" using x by blast
    have "set (owned n) \<subseteq> dom (strs h)" using tree_ok_links(2) [OF t] n unfolding strs_ok_def by blast
    then show ?thesis using n more_node [of h h' x n] c unfolding kept_node_def more_of_def map_le_def by (metis subsetD)
  qed
  then have ke: "kept (dom (nodes h)) h h'" using bs(1,3) k by (simp add: kept_def same_on_def)
  have "b \<in> dom (nodes h')" using w(2) g(1) by auto
  moreover have "dom (nodes h) \<subseteq> outside h' (Some b)"
    using c ke unfolding kept_def same_on_def kept_node_def outside_def by fastforce
  moreover have "json_of h' b = json_of h p" using c contents_json [of h' b] by simp
  ultimately have "holds_tree h' (dom (nodes h)) b (json_of h p)" using c by (auto simp: holds_tree_def)
  then show ?thesis using that 3(1) ke by blast
qed

lemma holds_create:
  assumes "json_ok h" "\<forall>k. al k"
  obtains b h' where "cJSON_CreateObject al h = Inr (Some b, h')" "holds_tree h' (dom (nodes h)) b empty_object" "kept (dom (nodes h)) h h'"
proof -
  have t: "tree_ok h (kids_of h)" using assms(1) by (simp add: json_ok_def)
  let ?n = "set_kind cJSON_Object empty_node" and ?b = "brk h"
  let ?h = "h\<lparr>nodes := (nodes h)(?b \<mapsto> ?n), brk := ?b + 1, calls := calls h + 1\<rparr>"
  have e: "cJSON_CreateObject al h = Inr (Some ?b, ?h)"
    using assms(2) by (simp add: cJSON_CreateObject_def create_def new_item_def Let_def upd_node_Some)
  have fr: "nodes h ?b = None" using tree_ok_brk [OF t] by simp
  have b: "bare ?n" "\<not> is_reference ?n" by (simp_all add: set_kind_def bare_def empty_node_def is_reference_def own_value_def)
  have "tree_ok ?h (kids_of h)"
    by (rule tree_ok_new [OF t fr]) (use b(1) in \<open>auto simp: bare_def owned_def own_name_def name_ok_def\<close>)
  note j = json_okI [OF this]
  note r = fresh_root [OF t fr]
  have tb: "tree_at ?h ?b = {?b}" using below_leaf [of "kids_of h" ?b] r(2) j by auto
  have "json_of ?h ?b = empty_object"
    using json_of_unfold [of ?h ?b] j r(2) by (simp add: node_item_def Let_def set_kind_def empty_node_def text_of_def empty_object_def)
  moreover have "no_references ?h ?b" unfolding no_references_def using tb b(2) by auto
  ultimately have "holds_tree ?h (dom (nodes h)) ?b empty_object"
    using j r(1) tb fr by (auto simp: holds_tree_def outside_def)
  moreover have "kept (dom (nodes h)) h ?h" using j fr by (auto simp: kept_def same_on_def kept_node_def)
  ultimately show ?thesis using that e by blast
qed

section \<open>The loops\<close>

lemma holds_mono: "holds_tree h F a c \<Longrightarrow> G \<subseteq> F \<Longrightarrow> holds_tree h G a c"
  by (auto simp: holds_tree_def)

text \<open>The root that is merged into, if there is one.\<close>

definition target_ok :: "json_heap \<Rightarrow> addr option \<Rightarrow> bool" where
  "target_ok h t \<longleftrightarrow> (\<forall>a. t = Some a \<longrightarrow> nodes h a \<noteq> None \<and> is_root (kids_of h) a \<and> no_references h a)"

lemma target_holds: "json_ok h \<Longrightarrow> target_ok h (Some a) \<Longrightarrow> holds_tree h (outside h (Some a)) a (json_of h a)"
  by (simp add: target_ok_def holds_tree_def)

lemma outside_tree:
  assumes "json_ok h" "target_ok h t" "p \<in> outside h t"
  shows "tree_at h p \<subseteq> outside h t"
proof
  fix x assume x: "x \<in> tree_at h p"
  have t: "tree_ok h (kids_of h)" using assms(1) by (simp add: json_ok_def)
  have "nodes h x \<noteq> None" using below_dom [OF t] assms(3) x by (auto simp: outside_def)
  moreover have "x \<notin> tree_at h a" if a: "t = Some a" for a
  proof
    assume "x \<in> tree_at h a"
    then have "p \<in> tree_at h a \<or> a \<in> tree_at h p" using trees_nest [OF assms(1)] x by blast
    moreover have "is_root (kids_of h) a" using assms(2) a by (simp add: target_ok_def)
    ultimately have "p \<in> tree_at h a" using root_below [of h a p] by auto
    then show False using assms(3) a by (simp add: outside_def)
  qed
  ultimately show "x \<in> outside h t" by (simp add: outside_def)
qed

lemma target_delete:
  assumes "json_ok h" "target_ok h t"
  obtains h' where "delete_item t h = Inr h'" "json_ok h'" "kept (outside h t) h h'"
proof (cases t)
  case None
  have "delete_item None h = Inr h" unfolding delete_item_def run_loop_def by (subst delete_loop.simps) simp
  then show ?thesis using that assms(1) None kept_refl [of "outside h t" h] by (auto simp: outside_def)
next
  case (Some a)
  then show ?thesis using holds_delete [OF target_holds] assms that by blast
qed

text \<open>The members of the patch are not touched.\<close>

lemma patch_child:
  assumes "json_ok h" "json_ok h'" "kept F h h'" "tree_at h p \<subseteq> F" "no_references h p" "kids_of h p = pre @ q # qs"
    and "nodes h q = Some n" "n_string n = Some key"
  obtains n' where "nodes h' q = Some n'" "n_next n' = first qs" "n_type n' = n_type n" "n_string n' = Some key" "readable h' (Some key)"
    "c_string (str_value h' key) = c_string (str_value h key)"
proof -
  have pF: "p \<in> F" "q \<in> F" "below (kids_of h) q p" using assms(4,6) tree_at_kid [of p h p q] by auto
  have k: "kids_of h' p = pre @ q # qs" using assms(3,6) pF(1) by (simp add: kept_def same_on_def)
  have "chained (nodes h') (kids_of h' p)" using assms(2) by (simp add: json_ok_def tree_ok_def links_ok_def)
  then obtain n' where n': "nodes h' q = Some n'" "n_next n' = first qs" unfolding k chained_def by (auto simp: links_def)
  have kn: "kept_node h h' q" using assms(3) pF(2) by (simp add: kept_def same_on_def)
  then have pl: "payload n' = payload n" using n'(1) assms(7) by (auto simp: kept_node_def)
  have r: "\<not> is_reference n" using assms(5,7) pF(3) by (auto simp: no_references_def)
  note tx = kept_text [OF assms(1) kn assms(7) r]
  show ?thesis
    using that [OF n'] payload_fields(1,3) [OF pl] tx(2,3) assms(8) by (simp add: text_of_def)
qed

lemma patch_kept:
  assumes "json_ok h" "json_ok h'" "kept F h h'" "tree_at h p \<subseteq> F" "no_references h p" "x \<in> tree_at h p"
  shows "tree_at h' x = tree_at h x" "json_of h' x = json_of h x" "no_references h' x"
proof -
  have sub: "tree_at h x \<subseteq> tree_at h p" using assms(6) below_trans by blast
  have "same_on (tree_at h x) h h'" using kept_mono [OF assms(3)] sub assms(4) by (auto simp: kept_def same_on_def)
  moreover have "no_references h x" using assms(5) sub unfolding no_references_def by blast
  ultimately show "tree_at h' x = tree_at h x" "json_of h' x = json_of h x" "no_references h' x"
    using same_tree [OF assms(1,2)] by blast+
qed

text \<open>Looking members up and taking them out, on addresses and on values.\<close>

lemma find_remove: "distinct xs \<Longrightarrow> find P xs = Some k \<Longrightarrow> remove1 k xs = drop_first P xs"
  by (induction xs) (auto split: if_splits dest: find_mem)

lemma drop_first_map: "map f (drop_first (P \<circ> f) xs) = drop_first P (map f xs)"
  by (induction xs) simp_all

lemma find_takeWhile: "find P (takeWhile Q xs) = Some k \<Longrightarrow> find P xs = Some k"
  by (induction xs) (auto split: if_splits)

lemma find_member_kids:
  assumes "json_ok h" "distinct ks"
  obtains (no) "member_of h cs s ks = None" "find_member cs s (map (json_of h) ks) = None"
  | (yes) k where "k \<in> set ks" "member_of h cs s ks = Some k" "find_member cs s (map (json_of h) ks) = Some (json_of h k)"
      "map (json_of h) (remove1 k ks) = drop_first (called cs s) (map (json_of h) ks)"
proof -
  have e: "called cs s \<circ> json_of h = name_is h cs s" "(\<lambda>c. item_string c \<noteq> None) \<circ> json_of h = named h"
    by (auto simp: fun_eq_iff json_of_unfold [OF assms(1)] node_item_def Let_def called_def name_is_def named_def text_of_def split: option.splits)
  then have f: "find_member cs s (map (json_of h) ks) = map_option (json_of h) (member_of h cs s ks)"
    by (cases cs) (simp_all add: find_member_def member_of_def takeWhile_map find_map)
  show ?thesis
  proof (cases "member_of h cs s ks")
    case None
    then show ?thesis using no f by simp
  next
    case (Some k)
    then have "find (name_is h cs s) ks = Some k" using find_takeWhile by (auto simp: member_of_def split: if_splits)
    then have "remove1 k ks = drop_first (called cs s \<circ> json_of h) ks" using find_remove [OF assms(2)] e(1) by simp
    then have "map (json_of h) (remove1 k ks) = drop_first (called cs s) (map (json_of h) ks)" by (simp only: drop_first_map)
    then show ?thesis using yes [of k] f Some member_of_kid [OF Some] by simp
  qed
qed

lemma with_child_simps [simp]:
  "child (with_child c ks) = ks" "with_child (with_child c ks) ks' = with_child c ks'" "with_child c (child c) = c"
  by (cases c; simp)+

lemma detach_step:
  assumes "holds_tree h F a c" "readable h (Some key)" "s = c_string (str_value h key)"
  obtains r h1 where "detach_member cs (Some a) (Some key) h = Inr (r, h1)" "holds_tree h1 F a (with_child c (without cs s (child c)))" "kept F h h1"
    "target_ok h1 r" "F \<union> tree_at h1 a \<subseteq> outside h1 r" "map_option (json_of h1) r = find_member cs s (child c)"
proof -
  have h: "json_ok h" "nodes h a \<noteq> None" "no_references h a" "json_of h a = c" "F \<subseteq> outside h (Some a)"
    using assms(1) by (simp_all add: holds_tree_def)
  have t: "tree_ok h (kids_of h)" using h(1) by (simp add: json_ok_def)
  obtain m where m: "nodes h a = Some m" using h(2) by blast
  then have hold: "can_hold h a" using h(3) below_refl unfolding no_references_def can_hold_def by blast
  have c: "child c = map (json_of h) (kids_of h a)" using json_fields(3) [OF h(1) m] h(4) by simp
  have di: "distinct (kids_of h a)" using tree_ok_links(4) [OF t] by (simp add: kids_ok_def)
  let ?r = "member_of h cs s (kids_of h a)"
  obtain h1 where h1: "detach_member cs (Some a) (Some key) h = Inr (?r, h1)" "detached h a ?r h1"
    using CjsonObjects.detach_member [OF h(1) hold assms(2), of cs] assms(3) by blast
  show ?thesis
  proof (cases rule: find_member_kids [OF h(1) di, of cs s])
    case 1
    then have e: "h1 = h" using h1(2) by (simp add: detached_def)
    have "F \<union> tree_at h a \<subseteq> outside h None" using h(5) below_dom [OF t h(2)] by (auto simp: outside_def)
    moreover have "kept F h h" using h(5) by (intro kept_refl) (auto simp: outside_def)
    moreover have "without cs s (child c) = child c" using 1(2) c by (simp add: without_def)
    moreover from this have "holds_tree h F a (with_child c (without cs s (child c)))" using assms(1) by simp
    ultimately show ?thesis using that [OF h1(1) [unfolded e 1(1)]] 1 c by (simp only: target_ok_def option.map) simp
  next
    case (2 k)
    note d = holds_detach [OF assms(1) 2(1) h1(2) [unfolded 2(2)]]
    have "without cs s (child c) = map (json_of h) (remove1 k (kids_of h a))" using 2(3,4) c by (simp add: without_def)
    moreover have "target_ok h1 (Some k)" "F \<union> tree_at h1 a \<subseteq> outside h1 (Some k)" "json_of h1 k = json_of h k"
      using d(2) by (simp_all add: holds_tree_def target_ok_def)
    ultimately show ?thesis using that [OF h1(1)] d(1,3) 2(2,3) c by simp
  qed
qed

lemma named_calls:
  "detach_named cs = detach_member cs" "delete_named cs t k h = bind_fault (detach_member cs t k h) (\<lambda>(i, h1). delete_item i h1)"
  by (simp_all add: fun_eq_iff detach_named_def delete_named_def cJSON_DetachItemFromObjectCaseSensitive_def cJSON_DetachItemFromObject_def
      cJSON_DeleteItemFromObjectCaseSensitive_def cJSON_DeleteItemFromObject_def)

lemma is_kind_node: "nodes h a = Some n \<Longrightarrow> is_kind k h (Some a) = Inr (n_type n AND 255 = k)"
  by (simp add: is_kind_def)

definition merge_result :: "bool \<Rightarrow> json_heap \<Rightarrow> addr option \<Rightarrow> cJSON \<Rightarrow> (c_fault + (addr option \<times> json_heap)) option \<Rightarrow> bool" where
  "merge_result cs h t d r \<longleftrightarrow>
     (\<exists>b h'. r = Some (Inr (Some b, h')) \<and> holds_tree h' (outside h t) b (merged cs (map_option (json_of h) t) d) \<and> kept (outside h t) h h')"

text \<open>One member of the patch: the state with which the loop goes on.\<close>

lemma merge_member:
  assumes "\<forall>k. al k" "holds_tree h F a c" "tree_at h p \<subseteq> F" "no_references h p" "kids_of h p = pre @ q # qs" "json_of h q = d" "item_string d = Some s"
    and IH: "\<And>h t. json_ok h \<Longrightarrow> target_ok h t \<Longrightarrow> q \<in> outside h t \<Longrightarrow> no_references h q \<Longrightarrow> json_of h q = d \<Longrightarrow>
      merge_result cs h t d (merge_loop al cs (MergeItem t (Some q)) h)"
  obtains h' where "merge_loop al cs (MergeRest (Some a) (Some q)) h = merge_loop al cs (MergeRest (Some a) (first qs)) h'" "kept F h h'"
    "holds_tree h' F a (with_child c (if kind_of d = cJSON_NULL then without cs s (child c)
       else without cs s (child c) @ [set_name s (merged cs (find_member cs s (child c)) d)]))"
proof -
  have h: "json_ok h" "F \<subseteq> outside h (Some a)" using assms(2) by (simp_all add: holds_tree_def)
  have qp: "q \<in> tree_at h p" using assms(5) tree_at_kid [of p h p q] by simp
  have qF: "q \<in> F" using qp assms(3) by blast
  then obtain n where n: "nodes h q = Some n" using h(2) by (auto simp: outside_def)
  have "text_of h (n_string n) = Some s" using json_fields(2) [OF h(1) n] assms(6,7) by simp
  then obtain key where key: "n_string n = Some key" "s = c_string (str_value h key)" by (auto simp: text_of_def)
  have rd: "readable h (Some key)" using tree_names [OF h(1) [unfolded json_ok_def] n] key(1) by simp
  obtain r h1 where h1: "detach_member cs (Some a) (Some key) h = Inr (r, h1)" "holds_tree h1 F a (with_child c (without cs s (child c)))" "kept F h h1"
    "target_ok h1 r" "F \<union> tree_at h1 a \<subseteq> outside h1 r" "map_option (json_of h1) r = find_member cs s (child c)"
    by (rule detach_step [OF assms(2) rd key(2), where cs = cs])
  have j1: "json_ok h1" using h1(2) by (simp add: holds_tree_def)
  note later = patch_child [OF h(1) _ _ assms(3-5) n key(1)]
  have nul: "cJSON_IsNull h (Some q) = Inr (kind_of d = cJSON_NULL)"
    using is_kind_node [OF n] json_fields(1) [OF h(1) n] assms(6) by (simp add: cJSON_IsNull_def)
  show ?thesis
  proof (cases "kind_of d = cJSON_NULL")
    case True
    obtain h2 where h2: "delete_item r h1 = Inr h2" "json_ok h2" "kept (outside h1 r) h1 h2" by (rule target_delete [OF j1 h1(4)])
    have k2: "kept F h h2" by (rule kept_trans [OF h1(3) kept_mono [OF h2(3)]]) (use h1(5) in blast)
    obtain n2 where n2: "nodes h2 q = Some n2" "n_next n2 = first qs" by (rule later [OF h2(2) k2])
    have "holds_tree h2 F a (with_child c (without cs s (child c)))"
      by (rule holds_kept [OF h1(2) h2(2) kept_mono [OF h2(3)]]) (use h1(5) in blast)
    moreover have "merge_loop al cs (MergeRest (Some a) (Some q)) h = merge_loop al cs (MergeRest (Some a) (first qs)) h2"
      by (subst merge_loop.simps) (simp add: nul True n key(1) named_calls h1(1) h2(1) n2)
    ultimately show ?thesis using that k2 True by simp
  next
    case False
    have q1: "q \<in> outside h1 r" "no_references h1 q" "json_of h1 q = d"
      using qF h1(5) patch_kept(2,3) [OF h(1) j1 h1(3) assms(3,4) qp] assms(6) by auto
    obtain b h2 where h2: "merge_loop al cs (MergeItem r (Some q)) h1 = Some (Inr (Some b, h2))"
      "holds_tree h2 (outside h1 r) b (merged cs (find_member cs s (child c)) d)" "kept (outside h1 r) h1 h2"
      using IH [OF j1 h1(4) q1] h1(6) unfolding merge_result_def by metis
    have j2: "json_ok h2" using h2(2) by (simp add: holds_tree_def)
    have k2: "kept F h h2" by (rule kept_trans [OF h1(3) kept_mono [OF h2(3)]]) (use h1(5) in blast)
    have a2: "holds_tree h2 F a (with_child c (without cs s (child c)))"
      by (rule holds_kept [OF h1(2) j2 kept_mono [OF h2(3)]]) (use h1(5) in blast)
    have "same_on (tree_at h1 a) h1 h2" using kept_mono [OF h2(3)] h1(5) by (auto simp: kept_def same_on_def)
    then have "tree_at h2 a = tree_at h1 a" using same_tree(1) [OF j1 j2] h1(2) by (simp add: holds_tree_def)
    then have b2: "holds_tree h2 (F \<union> tree_at h2 a) b (merged cs (find_member cs s (child c)) d)" using holds_mono [OF h2(2)] h1(5) by simp
    obtain n2 where n2: "nodes h2 q = Some n2" "n_string n2 = Some key" "readable h2 (Some key)" "c_string (str_value h2 key) = c_string (str_value h key)"
      by (rule later [OF j2 k2])
    obtain h3 where h3: "cJSON_AddItemToObject al (Some a) (Some key) (Some b) h2 = Inr (True, h3)"
      "holds_tree h3 F a (with_child (with_child c (without cs s (child c))) (child (with_child c (without cs s (child c))) @
         [set_name (c_string (str_value h2 key)) (merged cs (find_member cs s (child c)) d)]))" "kept F h2 h3"
      by (rule holds_add [OF a2 b2 n2(3) assms(1)])
    have j3: "json_ok h3" using h3(2) by (simp add: holds_tree_def)
    note k3 = kept_trans [OF k2 h3(3)]
    obtain n3 where n3: "nodes h3 q = Some n3" "n_next n3 = first qs" by (rule later [OF j3 k3])
    have "merge_loop al cs (MergeRest (Some a) (Some q)) h = merge_loop al cs (MergeRest (Some a) (first qs)) h3"
      by (subst merge_loop.simps) (simp add: nul False n key(1) named_calls h1(1) h2(1) n2(1,2) h3(1) n3)
    then show ?thesis using that k3 h3(2) n2(4) key(2) False by simp
  qed
qed

lemma merge_rest:
  assumes "\<forall>k. al k" "holds_tree h F a c" "tree_at h p \<subseteq> F" "no_references h p" "kids_of h p = pre @ qs" "map (json_of h) qs = ds"
    and "\<forall>d \<in> set ds. item_string d \<noteq> None"
    and "\<And>d h t q. d \<in> set ds \<Longrightarrow> json_ok h \<Longrightarrow> target_ok h t \<Longrightarrow> q \<in> outside h t \<Longrightarrow> no_references h q \<Longrightarrow> json_of h q = d \<Longrightarrow>
      merge_result cs h t d (merge_loop al cs (MergeItem t (Some q)) h)"
  shows "\<exists>h'. merge_loop al cs (MergeRest (Some a) (first qs)) h = Some (Inr (Some a, h')) \<and>
    holds_tree h' F a (with_child c (merged_members cs (child c) ds)) \<and> kept F h h'"
  using assms(2-8)
proof (induction qs arbitrary: h c pre ds)
  case Nil
  have "merge_loop al cs (MergeRest (Some a) None) h = Some (Inr (Some a, h))" by (subst merge_loop.simps) simp
  moreover have "kept F h h" using Nil.prems(1) by (intro kept_refl) (auto simp: holds_tree_def outside_def)
  ultimately show ?case using Nil.prems by simp
next
  case (Cons q qs)
  obtain d ds' s where d: "ds = d # ds'" "json_of h q = d" "map (json_of h) qs = ds'" "item_string d = Some s" using Cons.prems(5,6) by auto
  let ?ks = "if kind_of d = cJSON_NULL then without cs s (child c) else without cs s (child c) @ [set_name s (merged cs (find_member cs s (child c)) d)]"
  have ih: "merge_result cs h t d (merge_loop al cs (MergeItem t (Some q)) h)"
    if "json_ok h" "target_ok h t" "q \<in> outside h t" "no_references h q" "json_of h q = d" for h t
    by (rule Cons.prems(7) [OF _ that]) (simp add: d(1))
  obtain h1 where h1: "merge_loop al cs (MergeRest (Some a) (Some q)) h = merge_loop al cs (MergeRest (Some a) (first qs)) h1" "kept F h h1"
    "holds_tree h1 F a (with_child c ?ks)"
    by (rule merge_member [OF assms(1) Cons.prems(1-4) d(2,4) ih])
  have j: "json_ok h" "json_ok h1" using Cons.prems(1) h1(3) by (simp_all add: holds_tree_def)
  note pk = patch_kept [OF j h1(2) Cons.prems(2,3)]
  have p: "p \<in> tree_at h p" by simp
  have "p \<in> F" using p Cons.prems(2) by blast
  then have kids: "kids_of h1 p = (pre @ [q]) @ qs" using h1(2) Cons.prems(4) by (simp add: kept_def same_on_def)
  have "x \<in> tree_at h p" if "x \<in> set qs" for x using Cons.prems(4) that tree_at_kid [of p h p x] by simp
  then have vals: "map (json_of h1) qs = ds'" using pk(2) d(3) by auto
  have sub: "tree_at h1 p \<subseteq> F" using pk(1) [OF p] Cons.prems(2) by simp
  have "\<exists>h'. merge_loop al cs (MergeRest (Some a) (first qs)) h1 = Some (Inr (Some a, h')) \<and>
      holds_tree h' F a (with_child (with_child c ?ks) (merged_members cs (child (with_child c ?ks)) ds')) \<and> kept F h1 h'"
    by (rule Cons.IH [OF h1(3) sub pk(3) [OF p] kids vals]) (use Cons.prems(6,7) d(1) in simp_all)
  then obtain h' where h': "merge_loop al cs (MergeRest (Some a) (first qs)) h1 = Some (Inr (Some a, h'))"
    "holds_tree h' F a (with_child (with_child c ?ks) (merged_members cs (child (with_child c ?ks)) ds'))" "kept F h1 h'" by blast
  have "merged_members cs (child c) ds = merged_members cs ?ks ds'" by (simp add: d(1,4) Let_def)
  then show ?case using h1(1) h'(1,2) kept_trans [OF h1(2) h'(3)] by (intro exI [of _ h']) simp
qed

text \<open>Patches whose objects have named members only.\<close>

fun members_named :: "cJSON \<Rightarrow> bool" where
  "members_named (Item t v i d s ks) \<longleftrightarrow> (\<forall>k \<in> set ks. members_named k \<and> (t AND 255 = cJSON_Object \<longrightarrow> item_string k \<noteq> None))"

lemma merge_start_ok:
  assumes "\<forall>k. al k" "json_ok h" "target_ok h t"
  obtains a h1 where "merge_start al t h = Inr (Some a, h1)" "holds_tree h1 (outside h t) a (merge_base (map_option (json_of h) t))"
    "kept (outside h t) h h1"
proof -
  have mb: "cJSON_IsObject h t = Inr (\<exists>a. t = Some a \<and> kind_of (json_of h a) = cJSON_Object)"
    using assms(3) json_fields(1) [OF assms(2)] is_kind_node by (cases t) (auto simp: cJSON_IsObject_def is_kind_def target_ok_def)
  show ?thesis
  proof (cases "\<exists>a. t = Some a \<and> kind_of (json_of h a) = cJSON_Object")
    case True
    then obtain a where a: "t = Some a" "kind_of (json_of h a) = cJSON_Object" by blast
    have "kept (outside h t) h h" by (rule kept_refl) (auto simp: outside_def)
    then show ?thesis using that target_holds [OF assms(2)] assms(3) a mb by (simp add: merge_start_def merge_base_def)
  next
    case False
    obtain h1 where h1: "delete_item t h = Inr h1" "json_ok h1" "kept (outside h t) h h1" by (rule target_delete [OF assms(2,3)])
    obtain b h2 where h2: "cJSON_CreateObject al h1 = Inr (Some b, h2)" "holds_tree h2 (dom (nodes h1)) b empty_object" "kept (dom (nodes h1)) h1 h2"
      by (rule holds_create [OF h1(2) assms(1)])
    have sub: "outside h t \<subseteq> dom (nodes h1)" using h1(3) unfolding kept_def same_on_def kept_node_def by blast
    have "merge_start al t h = Inr (Some b, h2)" using mb False h1(1) h2(1) by (simp add: merge_start_def)
    moreover have "merge_base (map_option (json_of h) t) = empty_object" using False by (cases t) (simp_all add: merge_base_def)
    ultimately show ?thesis using that holds_mono [OF h2(2) sub] kept_trans [OF h1(3) kept_mono [OF h2(3) sub]] by simp
  qed
qed

lemma merge_item:
  assumes "\<forall>k. al k"
  shows "json_ok h \<Longrightarrow> target_ok h t \<Longrightarrow> p \<in> outside h t \<Longrightarrow> no_references h p \<Longrightarrow> json_of h p = d \<Longrightarrow> members_named d \<Longrightarrow>
    merge_result cs h t d (merge_loop al cs (MergeItem t (Some p)) h)"
proof (induction d arbitrary: h t p)
  case (Item ty v i db nm ds)
  let ?d = "Item ty v i db nm ds" and ?F = "outside h t"
  obtain n where n: "nodes h p = Some n" using Item.prems(3) by (auto simp: outside_def)
  have obj: "cJSON_IsObject h (Some p) = Inr (kind_of ?d = cJSON_Object)"
    using is_kind_node [OF n] json_fields(1) [OF Item.prems(1) n] Item.prems(5) by (simp add: cJSON_IsObject_def)
  have sub: "tree_at h p \<subseteq> ?F" by (rule outside_tree [OF Item.prems(1-3)])
  have pp: "p \<in> tree_at h p" by simp
  show ?case
  proof (cases "kind_of ?d = cJSON_Object")
    case False
    obtain h1 where h1: "delete_item t h = Inr h1" "json_ok h1" "kept ?F h h1" by (rule target_delete [OF Item.prems(1,2)])
    note pk = patch_kept [OF Item.prems(1) h1(2,3) sub Item.prems(4) pp]
    have alive: "?F \<subseteq> dom (nodes h1)" using h1(3) unfolding kept_def same_on_def kept_node_def by blast
    then have p1: "nodes h1 p \<noteq> None" using Item.prems(3) by blast
    obtain b h2 where h2: "cJSON_Duplicate al (Some p) True h1 = Inr (Some b, h2)" "holds_tree h2 (dom (nodes h1)) b (json_of h1 p)" "kept (dom (nodes h1)) h1 h2"
      by (rule holds_copy [OF h1(2) p1 pk(3) assms])
    have "merge_loop al cs (MergeItem t (Some p)) h = Some (Inr (Some b, h2))"
      by (subst merge_loop.simps) (use obj False h1(1) h2(1) in simp)
    moreover have "merged cs (map_option (json_of h) t) ?d = json_of h1 p" using False pk(2) Item.prems(5) by simp
    ultimately show ?thesis
      using holds_mono [OF h2(2) alive] kept_trans [OF h1(3) kept_mono [OF h2(3) alive]] unfolding merge_result_def by metis
  next
    case True
    obtain a h1 where h1: "merge_start al t h = Inr (Some a, h1)" "holds_tree h1 ?F a (merge_base (map_option (json_of h) t))" "kept ?F h h1"
      by (rule merge_start_ok [OF assms Item.prems(1,2)])
    have j1: "json_ok h1" using h1(2) by (simp add: holds_tree_def)
    note pk = patch_kept [OF Item.prems(1) j1 h1(3) sub Item.prems(4) pp]
    obtain n1 where n1: "nodes h1 p = Some n1" using h1(3) Item.prems(3) unfolding kept_def same_on_def kept_node_def by blast
    have "\<not> is_reference n1" using pk(3) n1 below_refl unfolding no_references_def by blast
    then have ch: "n_child n1 = first (kids_of h1 p)" using node_kids(2) [OF tree_ok_links(1) [OF j1 [unfolded json_ok_def]] n1] by simp
    have ds: "map (json_of h1) (kids_of h1 p) = ds" using json_fields(3) [OF j1 n1] pk(2) Item.prems(5) by simp
    have sub1: "tree_at h1 p \<subseteq> ?F" using pk(1) sub by simp
    have nm: "\<forall>d \<in> set ds. item_string d \<noteq> None" using Item.prems(6) True by auto
    have ih: "merge_result cs h t d (merge_loop al cs (MergeItem t (Some q)) h)"
      if "d \<in> set ds" "json_ok h" "target_ok h t" "q \<in> outside h t" "no_references h q" "json_of h q = d" for d h t q
      by (rule Item.IH [OF that]) (use Item.prems(6) that(1) in auto)
    have e: "kids_of h1 p = [] @ kids_of h1 p" by simp
    obtain h2 where h2: "merge_loop al cs (MergeRest (Some a) (first (kids_of h1 p))) h1 = Some (Inr (Some a, h2))"
      "holds_tree h2 ?F a (with_child (merge_base (map_option (json_of h) t)) (merged_members cs (child (merge_base (map_option (json_of h) t))) ds))"
      "kept ?F h1 h2" using merge_rest [OF assms h1(2) sub1 pk(3) e ds nm ih] by blast
    have "merge_loop al cs (MergeItem t (Some p)) h = Some (Inr (Some a, h2))"
      by (subst merge_loop.simps) (use obj True h1(1) n1 ch h2(1) in simp)
    moreover have "merged cs (map_option (json_of h) t) ?d =
        with_child (merge_base (map_option (json_of h) t)) (merged_members cs (child (merge_base (map_option (json_of h) t))) ds)" using True by simp
    ultimately show ?thesis using h2(2) kept_trans [OF h1(3) h2(3)] unfolding merge_result_def by metis
  qed
qed

section \<open>Property\<close>


text \<open>An object with the members b and a as a patch for the value true.\<close>

definition demo_patch :: cJSON where
  "demo_patch = Item cJSON_Object None 0 (Finite False 0) None
     [Item (cJSON_Object OR cJSON_StringIsConst) None 0 (Finite False 0) (Some [98]) [],
      Item (cJSON_Object OR cJSON_StringIsConst) None 0 (Finite False 0) (Some [97]) []]"

lemma demo_patch_facts:
  "contents demo_members 0 demo_patch" "contents demo_members 3 (Item cJSON_True None 0 (Finite False 0) None [])"
  "target_ok demo_members (Some 3)" "0 \<in> outside demo_members (Some 3)" "no_references demo_members 0" "members_named demo_patch"
proof -
  have none: "kids_of demo_members x = []" if "x \<noteq> 0" for x
    using that by (auto simp: kids_of_def demo_members_def empty_node_def chain_walk.simps [of _ None])
  note k = demo_members_ok(2)
  have "grown (kids_of demo_members) (PT 0 [PT 1 [], PT 2 []])" "grown (kids_of demo_members) (PT 3 [])" by (simp_all add: k none)
  moreover have "item_of demo_members (PT 0 [PT 1 [], PT 2 []]) = demo_patch"
    "item_of demo_members (PT 3 []) = Item cJSON_True None 0 (Finite False 0) None []"
    by (simp_all add: demo_members_def empty_node_def text_of_def str_value_def c_string_def Let_def demo_patch_def)
  ultimately show "contents demo_members 0 demo_patch" "contents demo_members 3 (Item cJSON_True None 0 (Finite False 0) None [])"
    unfolding contents_def by metis+
  have "3 \<notin> set (kids_of demo_members b)" for b by (cases "b = 0") (simp_all add: k none)
  then have roots: "is_root (kids_of demo_members) 3" "\<not> below (kids_of demo_members) 0 3"
    using below_leaf [of "kids_of demo_members" 3 0] none by (simp_all add: is_root_def)
  have refs: "\<not> is_reference n" if "nodes demo_members x = Some n" for x n
    using that by (auto simp: demo_members_def empty_node_def is_reference_def split: if_splits)
  then show "no_references demo_members 0" by (auto simp: no_references_def)
  have "nodes demo_members 3 \<noteq> None" "nodes demo_members 0 \<noteq> None" by (simp_all add: demo_members_def)
  then show "target_ok demo_members (Some 3)" "0 \<in> outside demo_members (Some 3)"
    using roots refs by (auto simp: target_ok_def outside_def no_references_def)
  show "members_named demo_patch" by (simp add: demo_patch_def)
qed


text \<open>Without memory for a member the result is a null pointer, and the object that was made for it is lost.\<close>

lemma merge_leak:
  "\<exists>h'. merge_patch (\<lambda>k. k = 4) None (Some 0) True demo_members = Inr (None, h') \<and> nodes h' 4 \<noteq> None"
  by (simp add: merge_patch_def run_loop_def merge_loop.simps demo_members_def empty_node_def cJSON_IsObject_def cJSON_IsNull_def is_kind_def
      merge_start_def delete_item_def delete_loop.simps [of None] cJSON_CreateObject_def create_def new_item_def Let_def upd_node_def set_kind_def
      detach_named_def cJSON_DetachItemFromObjectCaseSensitive_def detach_member_def get_object_item_def search_loop.simps [of _ _ _ None]
      cJSON_DetachItemViaPointer_def)

end
