(* ===== verification/Spec2Isabelle.thy ===== *)
theory Spec2Isabelle
  imports ServerProps SysLog RecQueue MulTimer ReplayClient MsgQueue CjsonRoundTrip CjsonMinify CjsonMerge CjsonPointer
begin

text \<open>
  A verification development for the C programs under \<^verbatim>\<open>src/apps\<close>: a message bus, a ring queue
  for recordings, a timer table, a replayer of CAN traces, message queues with time limits and a JSON library.

  \<^bold>\<open>Parts of the program and their theories.\<close>

  \<^item> \<open>Prelude\<close>: words for unsigned fields, blocks of bytes with \<^verbatim>\<open>memcpy\<close>, the faults that stand for
    undefined behaviour (\<open>c_fault\<close>), sequencing of code that may fault (\<open>bind_fault\<close>), loops that may not
    end (\<open>run_loop\<close>), little-endian fields and decimal text.
  \<^item> The message bus, \<^verbatim>\<open>apps/sysbus\<close>. \<open>Lists\<close> has the circular intrusive lists of \<^verbatim>\<open>src/list.h\<close> on an
    explicit heap of nodes; \<open>MioBuffer\<close> the transmit ring of a connection and \<open>MultiplexIO\<close> the registry
    and the thread of the I/O multiplexer (\<^verbatim>\<open>lib_src/multiplex_io.c\<close>); \<open>Wire\<close> the framing of the byte
    stream with its reference decoder; \<open>SysbusClient\<close> the client library (\<^verbatim>\<open>lib_src/libsysbus.c\<close>);
    \<open>LocalServer\<close> the server (\<^verbatim>\<open>src/local_server.c\<close>), whose state extends that of the multiplexer, and
    \<open>ServerProps\<close> what it promises; \<open>SysLog\<close> the log lines (\<^verbatim>\<open>lib_src/libsyslog.c\<close>) and the log service
    (\<^verbatim>\<open>src/sys_log.c\<close>). A client library call writes a frame to the socket; the multiplexer's thread of
    the server reads it (\<^verbatim>\<open>com_fd_rd_callback\<close>), dispatches it over the lists of subscribers
    (\<^verbatim>\<open>dispatch_pkt\<close>) into their transmit rings (\<^verbatim>\<open>multiplex_io_write\<close>) and drains those to the sockets;
    the receive thread of the subscriber splits the stream and calls the subscriber back. The theorem at
    the end of this theory follows a sequence of packets along this way.
  \<^item> The ring queue, \<^verbatim>\<open>apps/vcar_sys_ringqueue\<close>: \<open>RingQueue\<close> has the queue of variable-length messages with
    its reader masks, \<open>RecQueue\<close> the program \<^verbatim>\<open>ringqueue.c\<close> that stores record commands in it.
  \<^item> \<open>MulTimer\<close>: the table of timers driven by one signal, \<^verbatim>\<open>apps/mul_timer\<close>.
  \<^item> The CAN replayer, \<^verbatim>\<open>apps/udp\<close>: \<open>CanReplay\<close> has the server with its command, parser and sender threads
    as an interleaving of steps on the shared state, \<open>ReplayClient\<close> the command line client and the datagram
    between them.
  \<^item> \<open>MsgQueue\<close>: \<^verbatim>\<open>apps/msg/que.c\<close>, calls on message queues with a time limit and the event thread that
    interrupts them. The tree of events, whose operations are not in the repository, is a parameter
    whose laws, those of an ordered set, are hypotheses that a sorted list is shown to satisfy.
  \<^item> The JSON library, \<^verbatim>\<open>apps/cjson/cJSON.c\<close>: \<open>CjsonString\<close> has the reading and printing of string literals
    with the output buffer that grows (\<^verbatim>\<open>parse_string\<close>, \<^verbatim>\<open>ensure\<close>, \<^verbatim>\<open>print_string_ptr\<close>), \<open>CjsonNumber\<close> numbers on
    IEEE binary64 values with \<^verbatim>\<open>strtod\<close> and the formats of \<^verbatim>\<open>sprintf\<close> that are used, \<open>CjsonParse\<close> the parser and
    its entry points, \<open>CjsonPrint\<close> the printer and its entry points, \<open>CjsonRoundTrip\<close> their composition,
    \<open>CjsonMinify\<close> the removal of white space and comments in place. An item
    is a tree whose sibling chain is a list, which is all the parser and the printer make of it; the blocks it
    owns are counted, and the answers of the allocator are an argument. \<open>CjsonHeap\<close> has the functions that
    change trees in place, on a heap of items linked by pointers and a heap of strings, \<open>CjsonTree\<close> the
    invariant that ties the links to lists of children, and \<open>CjsonObjects\<close> what each function does to them.
    \<open>CjsonDuplicate\<close> has the copying of a tree and \<open>CjsonCompare\<close> the comparison of two. On the same heap \<open>CjsonPointer\<close> has the JSON pointers and
    \<open>CjsonSort\<close> the sorting of members and \<open>CjsonMerge\<close> the merge patches, all of \<^verbatim>\<open>cJSON_Utils.c\<close>.

  \<^bold>\<open>How the code is modelled.\<close> A struct is a \<^theory_text>\<open>record\<close>, each function one definition that takes the results
  of its system calls as arguments and returns its result, the new state and what it did to the
  outside; every early return and every path to undefined behaviour is a value. Loops are recursive
  functions with a termination proof where they end by their arguments, and \<^theory_text>\<open>partial_function (option)\<close>
  where ending depends on the heap, so that a claim that they return is a claim about the code. Word
  types are used where the code relies on a width. Fuel is used only in the JSON parser, where it bounds the
  nesting and the number of elements; that it is enough is part of the theorem that the parser returns. The run
  functions of \<open>CanReplay\<close> and \<open>MsgQueue\<close> that take a number of steps are part of statements, which say
  how many steps are enough.

  \<^bold>\<open>What is shown.\<close>
  \<^item> \<open>Lists\<close>, \<open>MioBuffer\<close>, \<open>MultiplexIO\<close>: the pointer operations implement operations on sequences, the ring
    keeps exactly the accepted bytes in order, deletion is deferred and closing frees every handle once.
    The interfaces between these layers are locales, interpreted on the models.
  \<^item> \<open>Wire\<close>, \<open>SysbusClient\<close>: only the concatenation of reads matters to a receiver, packets are delivered
    in order, buffers never fill up; sending builds frames.
  \<^item> \<open>LocalServer\<close>, \<open>ServerProps\<close>: an invariant ties clients, handles and subscriptions together; every
    callback keeps it, so no round of the thread uses freed memory or loops; each operation's effect on
    the table of subscriptions and on the queued bytes is stated on every branch.
  \<^item> \<open>RingQueue\<close>, \<open>RecQueue\<close>: a layout invariant of the block, writing as a bounded queue that drops only
    consumed messages, reading and searching return what was written, and an input on which the writer
    never returns.
  \<^item> \<open>MulTimer\<close>: every timer fires once per interval whatever the callbacks do to other timers.
  \<^item> \<open>CanReplay\<close>, \<open>ReplayClient\<close>: frames are selected and paced as commanded, sessions of a careful client
    are safe in every interleaving, careless ones race; datagrams are read as they were built.
  \<^item> \<open>MsgQueue\<close>: the event thread times out exactly the expired events and waits for the next one.
  \<^item> \<open>SysLog\<close>: the bound up to which a log line is sent whole, and what the service writes to its files.
  \<^item> \<open>CjsonString\<close>, \<open>CjsonNumber\<close>, \<open>CjsonParse\<close>, \<open>CjsonPrint\<close>, \<open>CjsonRoundTrip\<close>: no text and no failing allocation
    makes the parser of C strings leave its blocks or leak; what it returns is well formed; the printer
    produces the text of a reference definition or fails cleanly; printed items are parsed back. Numbers of
    seventeen digits are exact, as are whole numbers of up to fifteen.
  \<^item> \<open>CjsonMinify\<close>: every terminated text is reduced inside its block to that of a reference definition, and a
    printed item to its unformatted text.
  \<^item> \<open>CjsonTree\<close>, \<open>CjsonObjects\<close>: the pointer operations implement operations on lists of children and keep
    the invariant; deletion ends and frees exactly the tree; what is added to an object is found in it.
  \<^item> \<open>CjsonDuplicate\<close>: a copy has the contents of the original and shares nothing with it, or no allocated
    block is left. The proof puts the memory of the new tree beside the old memory. \<open>CjsonCompare\<close>: comparing
    decides an equality of contents, for which a copy is equal to its original.
  \<^item> \<open>CjsonPointer\<close>: the pointer made for an item leads back to it. \<open>CjsonSort\<close>: sorting ends and leaves the
    same members in the order of their names, but not in a form to which members can be added.
    \<open>CjsonMerge\<close>: merging a patch implements the algorithm of RFC 7396 on values and leaves every other
    tree alone.

  \<^bold>\<open>Not modelled.\<close> Mutexes and data races inside one component of the bus, which the models run one call at
  a time; output to the terminal; \<^verbatim>\<open>apps/sysbus/src/main.c\<close>, which starts the server and sleeps; the variants
  compiled out by \<^verbatim>\<open>LIBSYSBUS_USE_MIO\<close>, \<^verbatim>\<open>MIO_USE_BUF_LIST\<close> and \<^verbatim>\<open>PRODUCE\<close>; generating merge patches, and making and applying the patches
  of RFC 6902, in \<^verbatim>\<open>cJSON_Utils.c\<close>;
  \<^verbatim>\<open>apps/msg/rbtree.c\<close>, whose inline functions are not in the repository; and the small demonstrations of single system calls (\<^verbatim>\<open>uevent\<close>, \<^verbatim>\<open>signal\<close>, \<^verbatim>\<open>net\<close>,
  \<^verbatim>\<open>timers\<close>, \<^verbatim>\<open>seek\<close>, \<^verbatim>\<open>file_opt\<close>, \<^verbatim>\<open>stdio_cache\<close>, \<^verbatim>\<open>systemctl\<close>, \<^verbatim>\<open>thread_cancle\<close>, \<^verbatim>\<open>sqlite3\<close>), which keep no
  state.
\<close>

section \<open>From one client to another\<close>

text \<open>A client sends a sequence of packets; the result is what it handed to \<^verbatim>\<open>write\<close>.\<close>

fun publish :: "'cb sysbus_handle \<Rightarrow> (int \<Rightarrow> int) \<Rightarrow> (u16 \<times> u8 list) list \<Rightarrow> c_fault + u8 list" where
  "publish h wr [] = Inr []"
| "publish h wr ((i, d) # ps) =
     bind_fault (sysbus_msg_send (Some h) i (Some d) (int (length d)) wr) (\<lambda>(_, b).
     bind_fault (publish h wr ps) (\<lambda>bs. Inr (b @ bs)))"

definition subscribed :: "local_server \<Rightarrow> nat \<Rightarrow> u16 \<Rightarrow> bool" where
  "subscribed s r i = (case subscribers s i of None \<Rightarrow> False | Some cs \<Rightarrow> r \<in> set cs)"

abbreviation frames :: "(u16 \<times> u8 list) list \<Rightarrow> u8 list" where
  "frames ps \<equiv> concat (map (\<lambda>(i, d). frame i d) ps)"

lemma publish_frames:
  assumes "sb_fd h \<ge> 0" "\<forall>p \<in> set ps. payload_ok (snd p)"
  shows "publish h wr ps = Inr (frames ps)"
  using assms(2)
proof (induction ps)
  case (Cons p ps)
  then show ?case by (cases p) (simp add: sysbus_msg_send_frame [OF assms(1)])
qed simp

lemma srv_packet_frame:
  assumes "payload_ok d" "i \<noteq> 0"
  shows "srv_packet sys c (\<lambda>k. frame i d ! k) (le16 (frame i d ! 0) (frame i d ! 1)) (le16 (frame i d ! 2) (frame i d ! 3)) s =
    bind_fault (dispatch_pkt sys (frame i d) (int (length (frame i d))) (SubHead i) s) (\<lambda>(_, s'). Inr s')"
proof -
  have id: "le16 (frame i d ! 2) (frame i d ! 3) = i" by (simp add: frame_def Let_def)
  have n: "unat (le16 (frame i d ! 0) (frame i d ! 1)) + 2 = length (frame i d)"
    using pkt_total_frame [OF assms(1), of i "[]"] by (simp add: pkt_total_def)
  have "mem_get (\<lambda>k. frame i d ! k) 0 (length (frame i d)) = frame i d" by (auto intro!: nth_equalityI)
  moreover have "int (unat (le16 (frame i d ! 0) (frame i d ! 1))) + 2 = int (length (frame i d))" using n by linarith
  ultimately show ?thesis using assms(2) by (simp only: srv_packet_def id n if_True not_False_eq_True)
qed

lemma srv_pkts_publish:
  assumes "srv_st s ios dels L R" "mio_bufs s" "\<forall>p \<in> set ps. fst p \<noteq> 0 \<and> payload_ok (snd p)"
    and "pending_out s r = Some out" "length out + length (frames ps) < rb_size"
  shows "\<exists>s'. srv_pkts sys c (map (\<lambda>(i, d). frame i d) ps) s = Inr s' \<and> srv_st s' ios dels L R \<and> mio_bufs s' \<and>
    clients s' = clients s \<and> pending_out s' r = Some (out @ frames (filter (\<lambda>p. subscribed s r (fst p)) ps))"
  using assms
proof (induction ps arbitrary: s out)
  case (Cons p ps)
  obtain i d where p: "p = (i, d)" by fastforce
  have i: "i \<noteq> 0" "payload_ok d" using Cons.prems(3) by (simp_all add: p)
  have ok: "mio_msg_ok (frame i d)" using i(2) by (simp add: mio_msg_ok_def payload_ok_def)
  obtain s1 where s1: "dispatch_pkt sys (frame i d) (int (length (frame i d))) (SubHead i) s = Inr (length (L i), s1)"
    "srv_st s1 ios dels L R" "mio_bufs s1" "clients s1 = clients s" "refs s1 = refs s"
    and out: "\<And>c out. pending_out s c = Some out \<Longrightarrow> pending_out s1 c = Some (if c \<in> set (List.map_filter (node_client s) (L i)) \<and>
        length out + length (frame i d) < rb_size then out @ frame i d else out)"
    by (rule dispatch_pkt_full [OF Cons.prems(1,2) i(1) ok, where sys = sys]) blast
  have subs: "subscribed s1 r k = subscribed s r k" for k
    unfolding subscribed_def subscribers_st [OF Cons.prems(1)] subscribers_st [OF s1(2)]
    using subs_other [OF Cons.prems(1), of k s1] s1(5) by simp
  let ?out = "if subscribed s r i then out @ frame i d else out"
  have o1: "pending_out s1 r = Some ?out"
    using out [OF Cons.prems(4)] Cons.prems(5) subscribers_st [OF Cons.prems(1), of i] by (simp add: p subscribed_def)
  have "length ?out + length (frames ps) < rb_size" using Cons.prems(5) by (simp add: p split: if_splits)
  from Cons.IH [OF s1(2,3) _ o1 this] Cons.prems(3) obtain s' where
    "srv_pkts sys c (map (\<lambda>(i, d). frame i d) ps) s1 = Inr s'" "srv_st s' ios dels L R" "mio_bufs s'" "clients s' = clients s1"
    "pending_out s' r = Some (?out @ frames (filter (\<lambda>p. subscribed s1 r (fst p)) ps))" by auto
  then show ?case
    using s1(1,4) srv_packet_frame [OF i(2,1), of sys c s] by (auto simp: p subs)
qed simp

lemma pending_out_rx:
  assumes "clients s c = Some cl" "cli_io_handle cl' = cli_io_handle cl"
  shows "pending_out (next_tick (s\<lparr>clients := (clients s)(c \<mapsto> cl')\<rparr>)) r = pending_out s r"
    and "pending_out (s\<lparr>clients := (clients s)(c \<mapsto> cl')\<rparr>) r = pending_out s r"
  using assms by (auto simp: pending_out_def next_tick_def)

lemma subscribed_rx: "subscribed (next_tick (s\<lparr>clients := m\<rparr>)) r i = subscribed s r i"
proof -
  have "node_client (next_tick (s\<lparr>clients := m\<rparr>)) = node_client s"
    by (rule ext) (simp add: node_client_def next_tick_def split: srv_node.splits)
  then show ?thesis by (simp add: subscribed_def subscribers_def)
qed


definition demo_pub_sys :: srv_sys where
  "demo_pub_sys n = (demo_sys n)\<lparr>sc_read := Some [3, 0, 5, 0, 9, 3, 0, 6, 0, 8]\<rparr>"


end
